(* ===== verification/Prelude.thy ===== *)
theory Prelude
  imports Main "HOL-Library.Word" "HOL-Library.Multiset"
begin

unbundle bit_operations_syntax

text \<open>
  Shared material of the PIMID development: the fixed-width integer types of the C++ sources,
  little-endian byte images of those integers (the sources write structs with
  \<^verbatim>\<open>reinterpret_cast<const char*>\<close> on a little-endian host), and generic facts on lists,
  options and sorted sequences that several components use.
\<close>

section \<open>Machine types\<close>

type_synonym u8 = "8 word"
type_synonym u16 = "16 word"
type_synonym u32 = "32 word"
type_synonym u64 = "64 word"

text \<open>\<^verbatim>\<open>using Cycle = uint64_t; using Address = uint64_t\<close> of common/types.h.\<close>

type_synonym Cycle = u64
type_synonym Address = u64

section \<open>Collections of rewrite rules\<close>

named_theorems record_defs \<open>definitions of initial and derived records\<close>
named_theorems keeps \<open>fields an operation leaves alone\<close>

section \<open>Lists\<close>

lemma nth_default_id: "i < length xs \<Longrightarrow> xs[i := xs ! i] = xs"
  by simp

lemma nth_update_False: "j < length xs \<Longrightarrow> xs[i := False] ! j \<longleftrightarrow> j \<noteq> i \<and> xs ! j"
  by (cases "i = j") auto

lemma filter_neq_id: "k \<notin> set xs \<Longrightarrow> filter (\<lambda>i. i \<noteq> k) xs = xs"
  by (induction xs) auto

lemma length_filter_neq:
  "distinct xs \<Longrightarrow> k \<in> set xs \<Longrightarrow> length (filter (\<lambda>i. i \<noteq> k) xs) = length xs - 1"
proof (induction xs)
  case (Cons x xs)
  then show ?case by (cases xs) (auto simp: filter_neq_id)
qed simp

lemma filter_eq_takeWhile_sorted:
  assumes "sorted_wrt R xs" and "\<And>x y. R x y \<Longrightarrow> P y \<Longrightarrow> P x"
  shows "filter P xs = takeWhile P xs"
  using assms(1)
proof (induction xs)
  case Nil
  then show ?case by simp
next
  case (Cons x xs)
  show ?case
  proof (cases "P x")
    case True
    with Cons show ?thesis by simp
  next
    case False
    with Cons.prems assms(2) have "\<forall>y\<in>set xs. \<not> P y" by auto
    with False show ?thesis by (simp add: filter_empty_conv)
  qed
qed

lemma dropWhile_eq_filter_sorted:
  assumes "sorted_wrt R xs" and "\<And>x y. R x y \<Longrightarrow> P y \<Longrightarrow> P x"
  shows "dropWhile P xs = filter (\<lambda>x. \<not> P x) xs"
  using assms(1)
proof (induction xs)
  case Nil
  then show ?case by simp
next
  case (Cons x xs)
  show ?case
  proof (cases "P x")
    case True
    with Cons show ?thesis by simp
  next
    case False
    with Cons.prems assms(2) have "\<forall>y\<in>set xs. \<not> P y" by auto
    with False show ?thesis by simp
  qed
qed

section \<open>Overwriting part of a buffer\<close>

text \<open>\<^verbatim>\<open>memcpy(d + off, bs, n)\<close> with the \<open>n\<close> source bytes as the list \<open>bs\<close>.\<close>

definition memcpy_at :: "'a list \<Rightarrow> nat \<Rightarrow> 'a list \<Rightarrow> 'a list" where
  "memcpy_at d off bs = take off d @ bs @ drop (off + length bs) d"

lemma length_memcpy_at [simp]:
  "off + length bs \<le> length d \<Longrightarrow> length (memcpy_at d off bs) = length d"
  by (simp add: memcpy_at_def)

lemma take_memcpy_at_0 [simp]: "take (length bs) (memcpy_at d 0 bs) = bs"
  by (simp add: memcpy_at_def)

lemma memcpy_at_Nil [simp]: "memcpy_at d off [] = d"
  by (simp add: memcpy_at_def)

section \<open>The first element with a property\<close>

fun drop_first :: "('a \<Rightarrow> bool) \<Rightarrow> 'a list \<Rightarrow> 'a list" where
  "drop_first P [] = []"
| "drop_first P (x # xs) = (if P x then xs else x # drop_first P xs)"

lemma find_append:
  "find P (xs @ ys) = (case find P xs of None \<Rightarrow> find P ys | Some x \<Rightarrow> Some x)"
  by (induction xs) auto

lemma drop_first_append:
  "drop_first P (xs @ ys) = (if find P xs = None then xs @ drop_first P ys else drop_first P xs @ ys)"
  by (induction xs) auto

lemma drop_first_None: "find P xs = None \<Longrightarrow> drop_first P xs = xs"
  by (induction xs) (auto split: if_splits)

lemma find_map: "find P (map f xs) = map_option f (find (\<lambda>x. P (f x)) xs)"
  by (induction xs) auto

lemma find_filter: "find P (filter Q xs) = find (\<lambda>x. Q x \<and> P x) xs"
  by (induction xs) auto

lemma drop_first_map: "drop_first P (map f xs) = map f (drop_first (\<lambda>x. P (f x)) xs)"
  by (induction xs) auto

lemma drop_first_filter: "drop_first P (filter Q xs) = filter Q (drop_first (\<lambda>x. Q x \<and> P x) xs)"
  by (induction xs) auto

lemma find_SomeD: "find P xs = Some x \<Longrightarrow> x \<in> set xs \<and> P x"
  by (induction xs) (auto split: if_splits)

lemma drop_first_distinct:
  "distinct xs \<Longrightarrow> find P xs = Some k \<Longrightarrow> drop_first P xs = filter (\<lambda>i. i \<noteq> k) xs"
  by (induction xs) (auto simp: filter_neq_id split: if_splits dest: find_SomeD)

text \<open>Removing position \<open>k\<close> is removing the first match when the first match is at \<open>k\<close>.\<close>

lemma drop_first_nth:
  assumes "find P [0..<length xs] = Some k" and "\<And>i. i < length xs \<Longrightarrow> P i = Q (xs ! i)"
  shows "drop_first Q xs = take k xs @ drop (k + 1) xs"
proof -
  have k: "k < length xs" "Q (xs ! k)" and before: "\<forall>i<k. \<not> Q (xs ! i)"
    using assms by (auto simp: find_Some_iff)
  have xs: "xs = take k xs @ xs ! k # drop (k + 1) xs"
    using k(1) by (simp add: id_take_nth_drop)
  have "find Q (take k xs) = None"
    using before k(1) by (auto simp: find_None_iff in_set_conv_nth)
  then have "drop_first Q (take k xs @ xs ! k # drop (k + 1) xs) = take k xs @ drop (k + 1) xs"
    using k(2) by (simp add: drop_first_append)
  with xs show ?thesis by simp
qed

lemma filter_drop_first:
  "find P xs = Some x \<Longrightarrow> \<not> Q x \<Longrightarrow> filter Q (drop_first P xs) = filter Q xs"
  by (induction xs) (auto split: if_splits)

text \<open>Elements that all satisfy \<open>P\<close> leave in order.\<close>

lemma filter_drop_first_sub:
  "find P xs = Some x \<Longrightarrow> Q x \<Longrightarrow> (\<And>y. Q y \<Longrightarrow> P y) \<Longrightarrow> filter Q xs = x # filter Q (drop_first P xs)"
  by (induction xs) (auto split: if_splits)

section \<open>Words\<close>

lemma unat_inc:
  fixes a b :: "'w::len word"
  assumes "a < b"
  shows "unat (a + 1) = Suc (unat a)"
proof -
  have "unat a < unat b" using assms by (simp add: word_less_nat_alt)
  moreover have "unat b < 2 ^ LENGTH('w)" by (rule unsigned_less)
  ultimately have "Suc (unat a) < 2 ^ LENGTH('w)" by (rule Suc_leI [THEN le_less_trans])
  then show ?thesis by (simp add: unat_word_ariths)
qed

lemma unat_word_of_nat: "n < 2 ^ LENGTH('w) \<Longrightarrow> unat (word_of_nat n :: 'w::len word) = n"
  by (simp add: unsigned_of_nat take_bit_nat_eq_self)

section \<open>Case folding\<close>

text \<open>\<^verbatim>\<open>std::tolower\<close> in the C locale, on every character.\<close>

definition tolower :: "char \<Rightarrow> char" where
  "tolower c = (if 65 \<le> (of_char c :: nat) \<and> (of_char c :: nat) \<le> 90 then char_of ((of_char c :: nat) + 32) else c)"

definition lower :: "string \<Rightarrow> string" where
  "lower s = map tolower s"

section \<open>Little-endian images of numbers\<close>

fun le_bytes :: "nat \<Rightarrow> nat \<Rightarrow> u8 list" where
  "le_bytes 0 x = []"
| "le_bytes (Suc n) x = word_of_nat (x mod 256) # le_bytes n (x div 256)"

fun le_nat :: "u8 list \<Rightarrow> nat" where
  "le_nat [] = 0"
| "le_nat (b # bs) = unat b + 256 * le_nat bs"

lemma length_le_bytes [simp]: "length (le_bytes n x) = n"
  by (induction n arbitrary: x) auto

lemma le_nat_le_bytes: "le_nat (le_bytes n x) = x mod 256 ^ n"
proof (induction n arbitrary: x)
  case (Suc n)
  have "unat (word_of_nat (x mod 256) :: u8) = x mod 256"
    by (simp add: unat_of_nat take_bit_eq_mod)
  then show ?case using Suc by (simp add: mod_mult2_eq mult.commute)
qed simp

lemma le_nat_less: "le_nat bs < 256 ^ length bs"
proof (induction bs)
  case (Cons b bs)
  have "unat b < 256" using unsigned_less [of b] by simp
  then show ?case using Cons by simp
qed simp

lemma le_bytes_le_nat [simp]: "le_bytes (length bs) (le_nat bs) = bs"
proof (induction bs)
  case (Cons b bs)
  have "unat b < 256" using unsigned_less [of b] by simp
  then show ?case using Cons by simp
qed simp

end
