(* ===== verification/Trace_Format.thy ===== *)
theory Trace_Format
  imports Complex_Main Prelude "HOL-Library.List_Lexorder" "HOL-Library.Char_ord"
begin

text \<open>
  The binary trace format of \<^verbatim>\<open>include/trace/trace_format.h\<close>: the event codes and their
  categories, the 48-byte event, the 64-byte header, and the metadata record. The structures are
  written to and read from files as they lie in memory (\<^verbatim>\<open>reinterpret_cast<char*>\<close>), so the
  model has their byte layout: fields in order, little-endian, without padding.
\<close>

section \<open>Event codes\<close>

datatype TraceEventType =
    MEM_READ
  | MEM_WRITE
  | MEM_ATOMIC
  | PIM_COMPUTE
  | PIM_GATHER
  | PIM_SCATTER
  | PIM_REDUCE
  | NET_SEND
  | NET_RECV
  | COMPUTE_INT
  | COMPUTE_FP
  | COMPUTE_VECTOR
  | BARRIER
  | TASK_START
  | TASK_END
  | OMP_PARALLEL_START
  | OMP_PARALLEL_END
  | OMP_BARRIER
  | OMP_CRITICAL_START
  | OMP_CRITICAL_END
  | OMP_ATOMIC
  | OMP_TASK_START
  | OMP_TASK_END
  | OMP_TASKWAIT
  | OMP_FLUSH
  | MPI_SEND
  | MPI_RECV
  | MPI_ISEND
  | MPI_IRECV
  | MPI_WAIT
  | MPI_BARRIER
  | MPI_BCAST
  | MPI_REDUCE
  | MPI_ALLREDUCE
  | MPI_SCATTER
  | MPI_GATHER
  | MPI_ALLGATHER
  | MPI_ALLTOALL
  | OFFLOAD_START
  | OFFLOAD_END

definition event_types :: "TraceEventType list" where
  "event_types =
     [MEM_READ, MEM_WRITE, MEM_ATOMIC, PIM_COMPUTE, PIM_GATHER,
      PIM_SCATTER, PIM_REDUCE, NET_SEND, NET_RECV, COMPUTE_INT,
      COMPUTE_FP, COMPUTE_VECTOR, BARRIER, TASK_START, TASK_END,
      OMP_PARALLEL_START, OMP_PARALLEL_END, OMP_BARRIER, OMP_CRITICAL_START, OMP_CRITICAL_END,
      OMP_ATOMIC, OMP_TASK_START, OMP_TASK_END, OMP_TASKWAIT, OMP_FLUSH,
      MPI_SEND, MPI_RECV, MPI_ISEND, MPI_IRECV, MPI_WAIT,
      MPI_BARRIER, MPI_BCAST, MPI_REDUCE, MPI_ALLREDUCE, MPI_SCATTER,
      MPI_GATHER, MPI_ALLGATHER, MPI_ALLTOALL, OFFLOAD_START, OFFLOAD_END]"

primrec event_code :: "TraceEventType \<Rightarrow> u16" where
  "event_code MEM_READ = 1"
| "event_code MEM_WRITE = 2"
| "event_code MEM_ATOMIC = 3"
| "event_code PIM_COMPUTE = 0x10"
| "event_code PIM_GATHER = 0x11"
| "event_code PIM_SCATTER = 0x12"
| "event_code PIM_REDUCE = 0x13"
| "event_code NET_SEND = 0x20"
| "event_code NET_RECV = 0x21"
| "event_code COMPUTE_INT = 0x30"
| "event_code COMPUTE_FP = 0x31"
| "event_code COMPUTE_VECTOR = 0x32"
| "event_code BARRIER = 0x40"
| "event_code TASK_START = 0x41"
| "event_code TASK_END = 0x42"
| "event_code OMP_PARALLEL_START = 0x50"
| "event_code OMP_PARALLEL_END = 0x51"
| "event_code OMP_BARRIER = 0x52"
| "event_code OMP_CRITICAL_START = 0x53"
| "event_code OMP_CRITICAL_END = 0x54"
| "event_code OMP_ATOMIC = 0x55"
| "event_code OMP_TASK_START = 0x56"
| "event_code OMP_TASK_END = 0x57"
| "event_code OMP_TASKWAIT = 0x58"
| "event_code OMP_FLUSH = 0x59"
| "event_code MPI_SEND = 0x60"
| "event_code MPI_RECV = 0x61"
| "event_code MPI_ISEND = 0x62"
| "event_code MPI_IRECV = 0x63"
| "event_code MPI_WAIT = 0x64"
| "event_code MPI_BARRIER = 0x65"
| "event_code MPI_BCAST = 0x66"
| "event_code MPI_REDUCE = 0x67"
| "event_code MPI_ALLREDUCE = 0x68"
| "event_code MPI_SCATTER = 0x69"
| "event_code MPI_GATHER = 0x6A"
| "event_code MPI_ALLGATHER = 0x6B"
| "event_code MPI_ALLTOALL = 0x6C"
| "event_code OFFLOAD_START = 0x70"
| "event_code OFFLOAD_END = 0x71"

text \<open>The enumerator a 16-bit value stands for, if it stands for one.\<close>

definition event_of_code :: "u16 \<Rightarrow> TraceEventType option" where
  "event_of_code c = find (\<lambda>t. event_code t = c) event_types"

primrec enumerator_name :: "TraceEventType \<Rightarrow> string" where
  "enumerator_name MEM_READ = ''MEM_READ''"
| "enumerator_name MEM_WRITE = ''MEM_WRITE''"
| "enumerator_name MEM_ATOMIC = ''MEM_ATOMIC''"
| "enumerator_name PIM_COMPUTE = ''PIM_COMPUTE''"
| "enumerator_name PIM_GATHER = ''PIM_GATHER''"
| "enumerator_name PIM_SCATTER = ''PIM_SCATTER''"
| "enumerator_name PIM_REDUCE = ''PIM_REDUCE''"
| "enumerator_name NET_SEND = ''NET_SEND''"
| "enumerator_name NET_RECV = ''NET_RECV''"
| "enumerator_name COMPUTE_INT = ''COMPUTE_INT''"
| "enumerator_name COMPUTE_FP = ''COMPUTE_FP''"
| "enumerator_name COMPUTE_VECTOR = ''COMPUTE_VECTOR''"
| "enumerator_name BARRIER = ''BARRIER''"
| "enumerator_name TASK_START = ''TASK_START''"
| "enumerator_name TASK_END = ''TASK_END''"
| "enumerator_name OMP_PARALLEL_START = ''OMP_PARALLEL_START''"
| "enumerator_name OMP_PARALLEL_END = ''OMP_PARALLEL_END''"
| "enumerator_name OMP_BARRIER = ''OMP_BARRIER''"
| "enumerator_name OMP_CRITICAL_START = ''OMP_CRITICAL_START''"
| "enumerator_name OMP_CRITICAL_END = ''OMP_CRITICAL_END''"
| "enumerator_name OMP_ATOMIC = ''OMP_ATOMIC''"
| "enumerator_name OMP_TASK_START = ''OMP_TASK_START''"
| "enumerator_name OMP_TASK_END = ''OMP_TASK_END''"
| "enumerator_name OMP_TASKWAIT = ''OMP_TASKWAIT''"
| "enumerator_name OMP_FLUSH = ''OMP_FLUSH''"
| "enumerator_name MPI_SEND = ''MPI_SEND''"
| "enumerator_name MPI_RECV = ''MPI_RECV''"
| "enumerator_name MPI_ISEND = ''MPI_ISEND''"
| "enumerator_name MPI_IRECV = ''MPI_IRECV''"
| "enumerator_name MPI_WAIT = ''MPI_WAIT''"
| "enumerator_name MPI_BARRIER = ''MPI_BARRIER''"
| "enumerator_name MPI_BCAST = ''MPI_BCAST''"
| "enumerator_name MPI_REDUCE = ''MPI_REDUCE''"
| "enumerator_name MPI_ALLREDUCE = ''MPI_ALLREDUCE''"
| "enumerator_name MPI_SCATTER = ''MPI_SCATTER''"
| "enumerator_name MPI_GATHER = ''MPI_GATHER''"
| "enumerator_name MPI_ALLGATHER = ''MPI_ALLGATHER''"
| "enumerator_name MPI_ALLTOALL = ''MPI_ALLTOALL''"
| "enumerator_name OFFLOAD_START = ''OFFLOAD_START''"
| "enumerator_name OFFLOAD_END = ''OFFLOAD_END''"

text \<open>An \<^verbatim>\<open>enum class\<close> object can hold any 16-bit value; the \<^verbatim>\<open>default\<close> case is for the others.\<close>

definition eventTypeToString :: "u16 \<Rightarrow> string" where
  "eventTypeToString c = (case event_of_code c of Some t \<Rightarrow> enumerator_name t | None \<Rightarrow> ''UNKNOWN'')"

definition isMemoryEvent :: "u16 \<Rightarrow> bool" where "isMemoryEvent t = (0x0001 \<le> t \<and> t \<le> 0x000F)"
definition isPIMEvent :: "u16 \<Rightarrow> bool" where "isPIMEvent t = (0x0010 \<le> t \<and> t \<le> 0x001F)"
definition isNetworkEvent :: "u16 \<Rightarrow> bool" where "isNetworkEvent t = (0x0020 \<le> t \<and> t \<le> 0x002F)"
definition isComputeEvent :: "u16 \<Rightarrow> bool" where "isComputeEvent t = (0x0030 \<le> t \<and> t \<le> 0x003F)"
definition isSyncEvent :: "u16 \<Rightarrow> bool" where "isSyncEvent t = (0x0040 \<le> t \<and> t \<le> 0x004F)"
definition isOpenMPEvent :: "u16 \<Rightarrow> bool" where "isOpenMPEvent t = (0x0050 \<le> t \<and> t \<le> 0x005F)"
definition isMPIEvent :: "u16 \<Rightarrow> bool" where "isMPIEvent t = (0x0060 \<le> t \<and> t \<le> 0x006F)"
definition isParallelEvent :: "u16 \<Rightarrow> bool" where "isParallelEvent t = (isOpenMPEvent t \<or> isMPIEvent t)"
definition isCoSimEvent :: "u16 \<Rightarrow> bool" where "isCoSimEvent t = (0x0070 \<le> t \<and> t \<le> 0x007F)"

definition categories :: "(u16 \<Rightarrow> bool) list" where
  "categories = [isMemoryEvent, isPIMEvent, isNetworkEvent, isComputeEvent, isSyncEvent, isOpenMPEvent,
     isMPIEvent, isCoSimEvent]"

lemmas category_defs = isMemoryEvent_def isPIMEvent_def isNetworkEvent_def isComputeEvent_def isSyncEvent_def
  isOpenMPEvent_def isMPIEvent_def isCoSimEvent_def

lemma event_types_complete: "t \<in> set event_types"
  by (cases t) (simp_all add: event_types_def)

lemma event_code_inj: "inj_on event_code (set event_types)"
  by (simp add: event_types_def)

lemma event_of_code_code [simp]: "event_of_code (event_code t) = Some t"
proof (cases "event_of_code (event_code t)")
  case None
  then show ?thesis using event_types_complete [of t] by (auto simp: event_of_code_def find_None_iff)
next
  case (Some u)
  then have "event_code u = event_code t" by (auto simp: event_of_code_def dest: find_SomeD)
  then have "u = t" using event_code_inj event_types_complete by (meson inj_onD)
  with Some show ?thesis by simp
qed

lemma category_of_code: "length (filter (\<lambda>c. c (event_code t)) categories) = 1"
  by (cases t) (simp_all add: categories_def category_defs word_le_nat_alt)

section \<open>Little-endian words\<close>

definition le16 :: "u16 \<Rightarrow> u8 list" where "le16 w = le_bytes 2 (unat w)"
definition le32 :: "u32 \<Rightarrow> u8 list" where "le32 w = le_bytes 4 (unat w)"
definition le64 :: "u64 \<Rightarrow> u8 list" where "le64 w = le_bytes 8 (unat w)"

text \<open>The field of \<open>n\<close> bytes at an offset of an object's bytes.\<close>

definition field :: "nat \<Rightarrow> nat \<Rightarrow> u8 list \<Rightarrow> 'w::len word" where
  "field off n bs = word_of_nat (le_nat (take n (drop off bs)))"

lemma length_le [simp]: "length (le16 a) = 2" "length (le32 b) = 4" "length (le64 c) = 8"
  by (simp_all add: le16_def le32_def le64_def)

lemma le_nat_le [simp]: "le_nat (le16 a) = unat a" "le_nat (le32 b) = unat b" "le_nat (le64 c) = unat c"
  using unsigned_less [of a, where 'a = nat] unsigned_less [of b, where 'a = nat] unsigned_less [of c, where 'a = nat]
  by (simp_all add: le16_def le32_def le64_def le_nat_le_bytes)

section \<open>Events\<close>

record TraceEvent =
  te_cycle :: u64
  te_address :: u64
  te_aux_data :: u64
  te_pe_id :: u32
  te_size :: u32
  te_src_node :: u32
  te_dst_node :: u32
  te_reserved :: u32
  te_event_type :: u16
  te_flags :: u16

definition event_bytes :: "TraceEvent \<Rightarrow> u8 list" where
  "event_bytes e = le64 (te_cycle e) @ le64 (te_address e) @ le64 (te_aux_data e) @
     le32 (te_pe_id e) @ le32 (te_size e) @ le32 (te_src_node e) @ le32 (te_dst_node e) @ le32 (te_reserved e) @
     le16 (te_event_type e) @ le16 (te_flags e)"

definition event_of_bytes :: "u8 list \<Rightarrow> TraceEvent" where
  "event_of_bytes bs = \<lparr>te_cycle = field 0 8 bs, te_address = field 8 8 bs, te_aux_data = field 16 8 bs,
     te_pe_id = field 24 4 bs, te_size = field 28 4 bs, te_src_node = field 32 4 bs, te_dst_node = field 36 4 bs,
     te_reserved = field 40 4 bs, te_event_type = field 44 2 bs, te_flags = field 46 2 bs\<rparr>"

definition EVENT_SIZE :: nat where "EVENT_SIZE = 48"

lemma length_event_bytes [simp]: "length (event_bytes e) = EVENT_SIZE"
  by (simp add: event_bytes_def EVENT_SIZE_def)

lemma event_bytes_roundtrip [simp]: "event_of_bytes (event_bytes e) = e"
  by (simp add: event_of_bytes_def event_bytes_def field_def)

section \<open>The header\<close>

definition TRACE_MAGIC :: u32 where "TRACE_MAGIC = 0x50494D54"
definition TRACE_VERSION_MAJOR :: u16 where "TRACE_VERSION_MAJOR = 1"
definition TRACE_VERSION_MINOR :: u16 where "TRACE_VERSION_MINOR = 0"
definition TRACE_VERSION :: u16 where
  "TRACE_VERSION = or (push_bit 8 TRACE_VERSION_MAJOR) TRACE_VERSION_MINOR"

record TraceHeader =
  th_magic :: u32
  th_version :: u16
  th_header_flags :: u16
  th_num_events :: u64
  th_header_size :: u64
  th_num_pes :: u64
  th_first_cycle :: u64
  th_last_cycle :: u64
  th_reserved0 :: u32
  th_reserved1 :: u32
  th_reserved2 :: u32
  th_reserved3 :: u32

definition header_bytes :: "TraceHeader \<Rightarrow> u8 list" where
  "header_bytes h = le32 (th_magic h) @ le16 (th_version h) @ le16 (th_header_flags h) @
     le64 (th_num_events h) @ le64 (th_header_size h) @ le64 (th_num_pes h) @
     le64 (th_first_cycle h) @ le64 (th_last_cycle h) @
     le32 (th_reserved0 h) @ le32 (th_reserved1 h) @ le32 (th_reserved2 h) @ le32 (th_reserved3 h)"

definition header_of_bytes :: "u8 list \<Rightarrow> TraceHeader" where
  "header_of_bytes bs = \<lparr>th_magic = field 0 4 bs, th_version = field 4 2 bs, th_header_flags = field 6 2 bs,
     th_num_events = field 8 8 bs, th_header_size = field 16 8 bs, th_num_pes = field 24 8 bs,
     th_first_cycle = field 32 8 bs, th_last_cycle = field 40 8 bs,
     th_reserved0 = field 48 4 bs, th_reserved1 = field 52 4 bs,
     th_reserved2 = field 56 4 bs, th_reserved3 = field 60 4 bs\<rparr>"

definition HEADER_SIZE :: nat where "HEADER_SIZE = 64"

lemma length_header_bytes [simp]: "length (header_bytes h) = HEADER_SIZE"
  by (simp add: header_bytes_def HEADER_SIZE_def)

lemma header_bytes_roundtrip [simp]: "header_of_bytes (header_bytes h) = h"
  by (simp add: header_of_bytes_def header_bytes_def field_def)

lemma trace_version_major: "drop_bit 8 TRACE_VERSION = TRACE_VERSION_MAJOR"
  by (simp add: TRACE_VERSION_def TRACE_VERSION_MAJOR_def TRACE_VERSION_MINOR_def)

section \<open>Metadata\<close>

text \<open>
  \<^verbatim>\<open>TraceConfig\<close>. The map \<^verbatim>\<open>custom_metadata\<close> is the list of its entries in key order, the
  order in which the program iterates over it. The PE frequency is a \<^verbatim>\<open>double\<close>.
\<close>

record TraceConfig =
  tc_generator :: string
  tc_timestamp :: string
  tc_workload :: string
  tc_memory_technology :: string
  tc_channels :: u32
  tc_ranks_per_channel :: u32
  tc_banks :: u32
  tc_subarrays_per_bank :: u32
  tc_noc_topology :: string
  tc_noc_rows :: u32
  tc_noc_cols :: u32
  tc_num_pes :: u32
  tc_pe_type :: string
  tc_frequency_mhz :: real
  tc_num_events :: u64
  tc_custom_metadata :: "(string \<times> string) list"

definition TraceConfig_default :: TraceConfig where
  "TraceConfig_default = \<lparr>tc_generator = [], tc_timestamp = [], tc_workload = [], tc_memory_technology = [],
     tc_channels = 1, tc_ranks_per_channel = 1, tc_banks = 4, tc_subarrays_per_bank = 1,
     tc_noc_topology = [], tc_noc_rows = 1, tc_noc_cols = 1, tc_num_pes = 1, tc_pe_type = [],
     tc_frequency_mhz = 1000, tc_num_events = 0, tc_custom_metadata = []\<rparr>"

text \<open>\<^verbatim>\<open>m[key] = value\<close> on a \<^verbatim>\<open>std::map\<close>: replace the entry or insert it in key order.\<close>

fun map_put :: "string \<Rightarrow> string \<Rightarrow> (string \<times> string) list \<Rightarrow> (string \<times> string) list" where
  "map_put k v [] = [(k, v)]"
| "map_put k v ((k', v') # xs) =
     (if k < k' then (k, v) # (k', v') # xs
      else if k = k' then (k, v) # xs
      else (k', v') # map_put k v xs)"

lemma map_put_append:
  "\<forall>x\<in>set xs. fst x < k \<Longrightarrow> map_put k v xs = xs @ [(k, v)]"
  by (induction xs) (auto dest: order_less_imp_not_less)

section \<open>Properties\<close>

text \<open>
  the event codes are read back as the enumerators they were written for, every enumerator
  prints as its own name, and it belongs to exactly one of the eight event categories.
\<close>

theorem event_codes_sound:
  "event_of_code (event_code t) = Some t
   \<and> eventTypeToString (event_code t) = enumerator_name t
   \<and> length (filter (\<lambda>c. c (event_code t)) categories) = 1"
  using category_of_code [of t] by (simp add: eventTypeToString_def)

end
