(* ===== verification/Trace_Yaml.thy ===== *)
theory Trace_Yaml
  imports Trace_Format
begin

text \<open>
  The metadata text between the header and the events: \<^verbatim>\<open>TraceWriter::generateYAML\<close> writes it
  and \<^verbatim>\<open>TraceReader::parseYAMLMetadata\<close> reads it with a line parser of its own. The clock
  (the timestamp) and the conversions of a \<^verbatim>\<open>double\<close> to and from text (\<^verbatim>\<open>ostream\<close>'s
  \<open>show_double\<close> and \<^verbatim>\<open>std::stod\<close>) are arguments.
\<close>

section \<open>Numbers as text\<close>

definition NL :: char where "NL = CHR 0x0A"
definition TAB :: char where "TAB = CHR 0x09"

definition digit :: "nat \<Rightarrow> char" where "digit n = char_of (48 + n)"

fun show_nat :: "nat \<Rightarrow> string" where
  "show_nat n = (if n < 10 then [digit n] else show_nat (n div 10) @ [digit (n mod 10)])"

declare show_nat.simps [simp del]

datatype trace_error = NoMoreEvents | FailedToReadEvent | EventIndexOutOfRange | InvalidArgument | OutOfRange

definition is_digit :: "char \<Rightarrow> bool" where
  "is_digit c = (48 \<le> (of_char c :: nat) \<and> (of_char c :: nat) \<le> 57)"

definition is_space :: "char \<Rightarrow> bool" where
  "is_space c = ((of_char c :: nat) = 32 \<or> (9 \<le> (of_char c :: nat) \<and> (of_char c :: nat) \<le> 13))"

definition digits_value :: "string \<Rightarrow> nat" where
  "digits_value ds = foldl (\<lambda>n c. 10 * n + (of_char c - 48)) 0 ds"

text \<open>
  \<^verbatim>\<open>std::stoull\<close> (and \<^verbatim>\<open>std::stoul\<close>, as wide on the targets): white space, a sign, the longest
  run of digits; no digits and a value that does not fit raise; a minus sign negates modulo
  \<open>2 ^ 64\<close>; what follows the digits is ignored.
\<close>

definition stoull :: "string \<Rightarrow> trace_error + u64" where
  "stoull s =
     (let t = dropWhile is_space s;
          neg = (t \<noteq> [] \<and> hd t = CHR ''-'');
          u = (if t \<noteq> [] \<and> (hd t = CHR ''-'' \<or> hd t = CHR ''+'') then tl t else t);
          ds = takeWhile is_digit u;
          v = digits_value ds
      in if ds = [] then Inl InvalidArgument
         else if 2 ^ 64 \<le> v then Inl OutOfRange
         else Inr (if neg then - word_of_nat v else word_of_nat v))"

definition stoul32 :: "string \<Rightarrow> trace_error + u32" where
  "stoul32 s = (case stoull s of Inl e \<Rightarrow> Inl e | Inr w \<Rightarrow> Inr (ucast w))"

text \<open>
  \<^verbatim>\<open>std::stoll\<close>: the value and the number of characters used, or an exception where there is no
  digit or the value does not fit 64 bits.
\<close>

definition stoll :: "string \<Rightarrow> string + int \<times> nat" where
  "stoll s =
     (let ws = length (takeWhile is_space s); t = drop ws s;
          signed = (t \<noteq> [] \<and> (hd t = CHR ''-'' \<or> hd t = CHR ''+''));
          u = (if signed then tl t else t);
          ds = takeWhile is_digit u;
          v = (if t \<noteq> [] \<and> hd t = CHR ''-'' then - int (digits_value ds) else int (digits_value ds))
      in if ds = [] \<or> v < - (2 ^ 63) \<or> 2 ^ 63 \<le> v then Inl ''stoll''
         else Inr (v, ws + (if signed then 1 else 0) + length ds))"

lemma of_char_digit: "n < 10 \<Longrightarrow> (of_char (digit n) :: nat) = 48 + n"
  by (simp add: digit_def of_char_of)

lemma is_digit_digit: "n < 10 \<Longrightarrow> is_digit (digit n)"
  by (simp add: is_digit_def of_char_digit)

lemma show_nat_digits: "list_all is_digit (show_nat n) \<and> show_nat n \<noteq> []"
proof (induction n rule: show_nat.induct)
  case (1 n)
  then show ?case
    by (cases "n < 10") (simp_all add: show_nat.simps [of n] is_digit_digit)
qed

lemma digits_value_snoc: "digits_value (ds @ [c]) = 10 * digits_value ds + (of_char c - 48)"
  by (simp add: digits_value_def)

lemma digits_value_show_nat: "digits_value (show_nat n) = n"
proof (induction n rule: show_nat.induct)
  case (1 n)
  show ?case
  proof (cases "n < 10")
    case True
    then show ?thesis by (simp add: show_nat.simps [of n] digits_value_def of_char_digit)
  next
    case False
    with 1 show ?thesis by (subst show_nat.simps) (simp add: digits_value_snoc of_char_digit)
  qed
qed

lemma digit_not_special: "is_digit c \<Longrightarrow> \<not> is_space c \<and> c \<noteq> CHR ''-'' \<and> c \<noteq> CHR ''+''"
  by (auto simp: is_digit_def is_space_def)

lemma takeWhile_all: "\<forall>x\<in>set xs. P x \<Longrightarrow> takeWhile P xs = xs"
  by (simp add: takeWhile_eq_all_conv)

lemma stoull_show_nat:
  assumes "n < 2 ^ 64"
  shows "stoull (show_nat n) = Inr (word_of_nat n)"
proof -
  obtain c cs where s: "show_nat n = c # cs" and c: "is_digit c" and all: "list_all is_digit (show_nat n)"
    using show_nat_digits [of n] by (cases "show_nat n") auto
  have "\<forall>x\<in>set cs. is_digit x" using all s by (simp add: list_all_iff)
  moreover have "digits_value (c # cs) = n" using digits_value_show_nat [of n] s by simp
  ultimately show ?thesis
    using digit_not_special [OF c] c assms by (simp add: s stoull_def Let_def takeWhile_all)
qed

lemma stoull_show_u64 [simp]: "stoull (show_nat (unat (w :: u64))) = Inr w"
  using stoull_show_nat [of "unat w"] unsigned_less [of w, where 'a = nat] by simp

lemma stoul32_show_u32 [simp]: "stoul32 (show_nat (unat (w :: u32))) = Inr w"
proof -
  have "unat w < 2 ^ 64" using unsigned_less [of w, where 'a = nat] by simp
  then show ?thesis by (simp add: stoul32_def stoull_show_nat unsigned_of_nat take_bit_nat_eq_self
      ucast_up_ucast_id is_up)
qed

section \<open>Writing\<close>

text \<open>One \<^verbatim>\<open>key: value\<close> line; \<open>ind\<close> is its indentation.\<close>

definition kv :: "string \<Rightarrow> string \<Rightarrow> string \<Rightarrow> string" where
  "kv ind key v = ind @ key @ '': '' @ v"

definition version_text :: string where
  "version_text = show_nat (unat TRACE_VERSION_MAJOR) @ ''.'' @ show_nat (unat TRACE_VERSION_MINOR)"

definition yaml_lines :: "(real \<Rightarrow> string) \<Rightarrow> string \<Rightarrow> TraceConfig \<Rightarrow> string list" where
  "yaml_lines show_double now cfg =
     [''# PIMID Trace v'' @ version_text,
      kv [] ''version'' version_text,
      kv [] ''generator'' (tc_generator cfg),
      kv [] ''timestamp'' now] @
     (if tc_workload cfg = [] then [] else [kv [] ''workload'' (tc_workload cfg)]) @
     [kv [] ''num_events'' (show_nat (unat (tc_num_events cfg))),
      kv [] ''num_pes'' (show_nat (unat (tc_num_pes cfg))),
      ''memory_config:'',
      kv ''  '' ''technology'' (tc_memory_technology cfg),
      kv ''  '' ''channels'' (show_nat (unat (tc_channels cfg))),
      kv ''  '' ''ranks_per_channel'' (show_nat (unat (tc_ranks_per_channel cfg))),
      kv ''  '' ''banks'' (show_nat (unat (tc_banks cfg))),
      kv ''  '' ''subarrays_per_bank'' (show_nat (unat (tc_subarrays_per_bank cfg))),
      ''network_config:'',
      kv ''  '' ''topology'' (tc_noc_topology cfg),
      kv ''  '' ''rows'' (show_nat (unat (tc_noc_rows cfg))),
      kv ''  '' ''cols'' (show_nat (unat (tc_noc_cols cfg))),
      ''pe_config:'',
      kv ''  '' ''type'' (tc_pe_type cfg),
      kv ''  '' ''frequency_mhz'' (show_double (tc_frequency_mhz cfg))] @
     (if tc_custom_metadata cfg = [] then []
      else ''custom:'' # map (\<lambda>(key, value). kv ''  '' key value) (tc_custom_metadata cfg))"

definition unlines :: "string list \<Rightarrow> string" where
  "unlines ls = concat (map (\<lambda>l. l @ [NL]) ls)"

definition generateYAML :: "(real \<Rightarrow> string) \<Rightarrow> string \<Rightarrow> TraceConfig \<Rightarrow> string" where
  "generateYAML show_double now cfg = unlines (yaml_lines show_double now cfg)"

text \<open>\<^verbatim>\<open>writeYAMLMetadata\<close>: the text and the end marker.\<close>

definition yaml_text :: "(real \<Rightarrow> string) \<Rightarrow> string \<Rightarrow> TraceConfig \<Rightarrow> string" where
  "yaml_text show_double now cfg = generateYAML show_double now cfg @ ''---'' @ [NL]"

section \<open>Reading\<close>

definition is_blank :: "char \<Rightarrow> bool" where
  "is_blank c = (c = CHR '' '' \<or> c = TAB)"

definition trim :: "string \<Rightarrow> string" where
  "trim s = rev (dropWhile is_blank (rev (dropWhile is_blank s)))"

text \<open>Successive \<^verbatim>\<open>std::getline\<close> calls: a final line without newline counts, an empty one does not.\<close>

function getlines :: "string \<Rightarrow> string list" where
  "getlines s = (if s = [] then [] else takeWhile (\<lambda>c. c \<noteq> NL) s # getlines (tl (dropWhile (\<lambda>c. c \<noteq> NL) s)))"
  by auto
termination
proof (relation "measure length")
  show "(tl (dropWhile (\<lambda>c. c \<noteq> NL) s), s) \<in> measure length" if "s \<noteq> []" for s
    using length_dropWhile_le [of "\<lambda>c. c \<noteq> NL" s] that by (cases s) auto
qed simp

declare getlines.simps [simp del]

text \<open>The assignments of the parse, by section and key; the first six keys are taken in any section.\<close>

definition assign ::
  "(string \<Rightarrow> trace_error + real) \<Rightarrow> string \<Rightarrow> string \<Rightarrow> string \<Rightarrow> TraceConfig \<Rightarrow> trace_error + TraceConfig" where
  "assign stod section key v cfg =
     (if key = ''version'' then Inr cfg
      else if key = ''generator'' then Inr (cfg\<lparr>tc_generator := v\<rparr>)
      else if key = ''timestamp'' then Inr (cfg\<lparr>tc_timestamp := v\<rparr>)
      else if key = ''workload'' then Inr (cfg\<lparr>tc_workload := v\<rparr>)
      else if key = ''num_events'' then map_sum id (\<lambda>n. cfg\<lparr>tc_num_events := n\<rparr>) (stoull v)
      else if key = ''num_pes'' then map_sum id (\<lambda>n. cfg\<lparr>tc_num_pes := n\<rparr>) (stoul32 v)
      else if section = ''memory_config'' then
        (if key = ''technology'' then Inr (cfg\<lparr>tc_memory_technology := v\<rparr>)
         else if key = ''channels'' then map_sum id (\<lambda>n. cfg\<lparr>tc_channels := n\<rparr>) (stoul32 v)
         else if key = ''ranks_per_channel'' then map_sum id (\<lambda>n. cfg\<lparr>tc_ranks_per_channel := n\<rparr>) (stoul32 v)
         else if key = ''banks'' then map_sum id (\<lambda>n. cfg\<lparr>tc_banks := n\<rparr>) (stoul32 v)
         else if key = ''subarrays_per_bank'' then map_sum id (\<lambda>n. cfg\<lparr>tc_subarrays_per_bank := n\<rparr>) (stoul32 v)
         else Inr cfg)
      else if section = ''network_config'' then
        (if key = ''topology'' then Inr (cfg\<lparr>tc_noc_topology := v\<rparr>)
         else if key = ''rows'' then map_sum id (\<lambda>n. cfg\<lparr>tc_noc_rows := n\<rparr>) (stoul32 v)
         else if key = ''cols'' then map_sum id (\<lambda>n. cfg\<lparr>tc_noc_cols := n\<rparr>) (stoul32 v)
         else Inr cfg)
      else if section = ''pe_config'' then
        (if key = ''type'' then Inr (cfg\<lparr>tc_pe_type := v\<rparr>)
         else if key = ''frequency_mhz'' then map_sum id (\<lambda>d. cfg\<lparr>tc_frequency_mhz := d\<rparr>) (stod v)
         else Inr cfg)
      else if section = ''custom'' then Inr (cfg\<lparr>tc_custom_metadata := map_put key v (tc_custom_metadata cfg)\<rparr>)
      else Inr cfg)"

text \<open>One line of the loop; the state is the configuration and the current section.\<close>

definition parse_line ::
  "(string \<Rightarrow> trace_error + real) \<Rightarrow> TraceConfig \<times> string \<Rightarrow> string \<Rightarrow> trace_error + (TraceConfig \<times> string)" where
  "parse_line stod st line =
     (if line = [] \<or> hd line = CHR ''#'' \<or> line = ''---'' then Inr st
      else if CHR '':'' \<notin> set line then Inr st
      else let key = trim (takeWhile (\<lambda>c. c \<noteq> CHR '':'') line);
               v = trim (tl (dropWhile (\<lambda>c. c \<noteq> CHR '':'') line))
           in if v = [] \<and> \<not> is_blank (hd line) then Inr (fst st, key)
              else map_sum id (\<lambda>cfg. (cfg, snd st)) (assign stod (snd st) key v (fst st)))"

text \<open>A conversion that raises ends the parse; the fields assigned before it stay assigned.\<close>

fun parse_lines ::
  "(string \<Rightarrow> trace_error + real) \<Rightarrow> TraceConfig \<times> string \<Rightarrow> string list
     \<Rightarrow> (trace_error \<times> TraceConfig) + (TraceConfig \<times> string)" where
  "parse_lines stod st [] = Inr st"
| "parse_lines stod st (l # ls) =
     (case parse_line stod st l of Inl e \<Rightarrow> Inl (e, fst st) | Inr st' \<Rightarrow> parse_lines stod st' ls)"

definition parseYAMLMetadata ::
  "(string \<Rightarrow> trace_error + real) \<Rightarrow> TraceConfig \<Rightarrow> string \<Rightarrow> (trace_error \<times> TraceConfig) + TraceConfig" where
  "parseYAMLMetadata stod cfg text = map_sum id fst (parse_lines stod (cfg, []) (getlines text))"

section \<open>Reading back what was written\<close>

text \<open>A value survives when it is on one line and does not start or end with a blank.\<close>

definition clean :: "string \<Rightarrow> bool" where
  "clean s = (NL \<notin> set s \<and> (s \<noteq> [] \<longrightarrow> \<not> is_blank (hd s) \<and> \<not> is_blank (last s)))"

definition toplevel_keys :: "string list" where
  "toplevel_keys = [''version'', ''generator'', ''timestamp'', ''workload'', ''num_events'', ''num_pes'']"

definition clean_key :: "string \<Rightarrow> bool" where
  "clean_key k = (clean k \<and> CHR '':'' \<notin> set k \<and> k \<notin> set toplevel_keys)"

definition clean_config :: "TraceConfig \<Rightarrow> bool" where
  "clean_config cfg =
     (list_all clean [tc_generator cfg, tc_workload cfg, tc_memory_technology cfg, tc_noc_topology cfg, tc_pe_type cfg]
      \<and> list_all (\<lambda>(k, v). clean_key k \<and> clean v) (tc_custom_metadata cfg)
      \<and> sorted_wrt (<) (map fst (tc_custom_metadata cfg)))"

lemma takeWhile_stop: "x \<notin> set xs \<Longrightarrow> takeWhile (\<lambda>c. c \<noteq> x) (xs @ x # ys) = xs"
  by (induction xs) auto

lemma dropWhile_stop: "x \<notin> set xs \<Longrightarrow> dropWhile (\<lambda>c. c \<noteq> x) (xs @ x # ys) = x # ys"
  by (induction xs) auto

lemma getlines_line: "NL \<notin> set l \<Longrightarrow> getlines (l @ NL # s) = l # getlines s"
  by (subst getlines.simps) (simp add: takeWhile_stop dropWhile_stop)

lemma getlines_unlines: "\<forall>l\<in>set ls. NL \<notin> set l \<Longrightarrow> getlines (unlines ls) = ls"
proof (induction ls)
  case Nil
  then show ?case by (simp add: unlines_def getlines.simps [of "[]"])
next
  case (Cons l ls)
  then show ?case using getlines_line [of l "unlines ls"] by (simp add: unlines_def)
qed

lemma trim_clean: "clean s \<Longrightarrow> trim s = s"
proof (cases s rule: rev_cases)
  case (snoc ys y)
  assume "clean s"
  then have y: "\<not> is_blank y" and "\<not> is_blank (hd s)" using snoc by (simp_all add: clean_def)
  then have "dropWhile is_blank s = s" using snoc by (cases ys) auto
  then show ?thesis using snoc y by (simp add: trim_def)
qed (simp add: trim_def)

lemma trim_blank: "list_all is_blank b \<Longrightarrow> trim (b @ s) = trim s"
  by (simp add: trim_def dropWhile_append2 list_all_iff)

lemma blanks: "is_blank (CHR '' '')" "\<not> is_blank (CHR ''#'')"
  by (simp_all add: is_blank_def TAB_def)

lemma parse_line_kv:
  assumes key: "clean key" "CHR '':'' \<notin> set key" and v: "clean v"
    and ind: "list_all is_blank ind" "CHR '':'' \<notin> set ind" "ind = [] \<Longrightarrow> key \<noteq> [] \<and> hd key \<noteq> CHR ''#''"
    and pre: "ind \<noteq> [] \<Longrightarrow> hd ind \<noteq> CHR ''#''"
  shows "parse_line stod st (kv ind key v) =
    (if v = [] \<and> ind = [] then Inr (fst st, key)
     else map_sum id (\<lambda>cfg. (cfg, snd st)) (assign stod (snd st) key v (fst st)))"
proof -
  have line: "kv ind key v = (ind @ key) @ CHR '':'' # ('' '' @ v)" by (simp add: kv_def)
  have no: "CHR '':'' \<notin> set (ind @ key)" using key ind by simp
  have k: "trim (takeWhile (\<lambda>c. c \<noteq> CHR '':'') (kv ind key v)) = key"
    unfolding line takeWhile_stop [OF no] using trim_blank [OF ind(1)] trim_clean [OF key(1)] by simp
  have vv: "trim (tl (dropWhile (\<lambda>c. c \<noteq> CHR '':'') (kv ind key v))) = v"
    unfolding line dropWhile_stop [OF no] using trim_blank [of "'' ''" v] trim_clean [OF v] blanks(1) by simp
  have hd: "hd (kv ind key v) = (if ind = [] then hd key else hd ind)" "kv ind key v \<noteq> []"
    using ind(3) by (auto simp: kv_def hd_append)
  have "is_blank (hd (kv ind key v)) = (ind \<noteq> [])"
    using hd ind(1,3) key(1) by (cases ind) (auto simp: clean_def)
  moreover have "hd (kv ind key v) \<noteq> CHR ''#''" using hd ind(3) pre by auto
  moreover have colon: "CHR '':'' \<in> set (kv ind key v)" by (simp add: kv_def)
  moreover have "kv ind key v \<noteq> ''---''" using colon by (intro notI) simp
  ultimately show ?thesis using hd(2) k vv by (simp add: parse_line_def Let_def)
qed

text \<open>The keys the writer uses.\<close>

lemma parse_line_top:
  assumes "key \<in> set toplevel_keys" and "clean v"
  shows "parse_line stod st (kv [] key v) =
    (if v = [] then Inr (fst st, key)
     else map_sum id (\<lambda>cfg. (cfg, snd st)) (assign stod (snd st) key v (fst st)))"
  using assms by (subst parse_line_kv) (auto simp: toplevel_keys_def clean_def NL_def is_blank_def TAB_def)

lemma parse_line_nested:
  assumes "clean key" and "CHR '':'' \<notin> set key" and "clean v"
  shows "parse_line stod st (kv ''  '' key v) =
    map_sum id (\<lambda>cfg. (cfg, snd st)) (assign stod (snd st) key v (fst st))"
  using assms by (subst parse_line_kv) (auto simp: is_blank_def)

lemma parse_lines_append:
  "parse_lines stod st (xs @ ys) =
     (case parse_lines stod st xs of Inl e \<Rightarrow> Inl e | Inr st' \<Rightarrow> parse_lines stod st' ys)"
  by (induction xs arbitrary: st) (auto split: sum.splits)

lemma clean_show_nat: "clean (show_nat n) \<and> show_nat n \<noteq> []"
proof -
  have "\<forall>c\<in>set (show_nat n). is_digit c" using show_nat_digits [of n] by (simp add: list_all_iff)
  then have "\<forall>c\<in>set (show_nat n). c \<noteq> NL \<and> \<not> is_blank c"
    by (auto simp: is_digit_def NL_def is_blank_def TAB_def)
  then show ?thesis using show_nat_digits [of n] by (simp add: clean_def) blast
qed

lemma version_text_eq: "version_text = ''1.0''"
  by (simp add: version_text_def TRACE_VERSION_MAJOR_def TRACE_VERSION_MINOR_def show_nat.simps digit_def) code_simp

lemma clean_version: "clean version_text" "version_text \<noteq> []"
  by (simp_all add: version_text_eq clean_def NL_def is_blank_def TAB_def)

text \<open>The custom section is read entry by entry, in key order.\<close>

lemma parse_custom:
  assumes "list_all (\<lambda>(k, v). clean_key k \<and> clean v) xs"
    and "sorted_wrt (<) (map fst (tc_custom_metadata cfg @ xs))"
  shows "parse_lines stod (cfg, ''custom'') (map (\<lambda>(key, value). kv ''  '' key value) xs) =
    Inr (cfg\<lparr>tc_custom_metadata := tc_custom_metadata cfg @ xs\<rparr>, ''custom'')"
  using assms
proof (induction xs arbitrary: cfg)
  case (Cons x xs)
  obtain k v where x: "x = (k, v)" by fastforce
  have kv: "clean k" "CHR '':'' \<notin> set k" "clean v" "k \<notin> set toplevel_keys"
    using Cons.prems(1) by (simp_all add: x clean_key_def)
  have put: "map_put k v (tc_custom_metadata cfg) = tc_custom_metadata cfg @ [(k, v)]"
    using Cons.prems(2) by (intro map_put_append) (auto simp: x sorted_wrt_append)
  have "parse_line stod (cfg, ''custom'') (kv ''  '' k v) =
      Inr (cfg\<lparr>tc_custom_metadata := tc_custom_metadata cfg @ [(k, v)]\<rparr>, ''custom'')"
    using kv put by (simp add: parse_line_nested assign_def toplevel_keys_def)
  with Cons show ?case by (simp add: x)
qed simp

lemma section_line:
  "parse_line stod st ''memory_config:'' = Inr (fst st, ''memory_config'')"
  "parse_line stod st ''network_config:'' = Inr (fst st, ''network_config'')"
  "parse_line stod st ''pe_config:'' = Inr (fst st, ''pe_config'')"
  "parse_line stod st ''custom:'' = Inr (fst st, ''custom'')"
  by (simp_all add: parse_line_def trim_def is_blank_def TAB_def)

lemma skipped_line:
  "parse_line stod st (CHR ''#'' # l) = Inr st" "parse_line stod st ''---'' = Inr st"
  by (simp_all add: parse_line_def)

lemma yaml_text_lines: "yaml_text sd now cfg = unlines (yaml_lines sd now cfg @ [''---''])"
  by (simp add: yaml_text_def generateYAML_def unlines_def)

lemma NL_clean [simp]: "clean s \<Longrightarrow> NL \<notin> set s"
  by (simp add: clean_def)

lemma NL_kv: "NL \<in> set (kv ind key v) \<longleftrightarrow> NL \<in> set ind \<or> NL \<in> set key \<or> NL \<in> set v"
  by (auto simp: kv_def NL_def)

lemmas NL_simps = NL_def NL_kv [unfolded NL_def] NL_clean [unfolded NL_def]

lemma yaml_lines_no_NL:
  assumes "clean_config cfg" and "clean now" and "clean (sd (tc_frequency_mhz cfg))"
  shows "\<forall>l\<in>set (yaml_lines sd now cfg @ [''---'']). NL \<notin> set l"
proof -
  have "NL \<notin> set (kv ''  '' k v)" if "(k, v) \<in> set (tc_custom_metadata cfg)" for k v
    using that assms(1) by (auto simp: clean_config_def list_all_iff clean_key_def NL_simps)
  moreover have "NL \<notin> set (show_nat n)" for n using clean_show_nat by simp
  moreover have "NL \<notin> set version_text" using clean_version by simp
  ultimately show ?thesis
    using assms by (auto simp: yaml_lines_def clean_config_def NL_simps)
qed

text \<open>The lines up to the custom section.\<close>

lemma parse_fixed_lines:
  fixes cfg :: TraceConfig
  assumes "clean_config cfg" and "clean now" and "now \<noteq> []"
    and "clean (sd (tc_frequency_mhz cfg))" and "stod (sd (tc_frequency_mhz cfg)) = Inr (tc_frequency_mhz cfg)"
  shows "\<exists>sec. parse_lines stod (TraceConfig_default, []) (yaml_lines sd now (cfg\<lparr>tc_custom_metadata := []\<rparr>)) =
    Inr (cfg\<lparr>tc_timestamp := now, tc_custom_metadata := []\<rparr>, sec)"
proof -
  have cl: "clean (tc_generator cfg)" "clean (tc_workload cfg)" "clean (tc_memory_technology cfg)"
     "clean (tc_noc_topology cfg)" "clean (tc_pe_type cfg)" using assms(1) by (simp_all add: clean_config_def)
  have key: "clean k" "CHR '':'' \<notin> set k" if "k \<in> {''technology'', ''channels'', ''ranks_per_channel'', ''banks'',
      ''subarrays_per_bank'', ''topology'', ''rows'', ''cols'', ''type'', ''frequency_mhz''}" for k
    using that by (auto simp: clean_def NL_def is_blank_def TAB_def)
  show ?thesis
  by (cases cfg; cases "tc_generator cfg = []"; cases "tc_workload cfg = []")
    (insert assms cl clean_show_nat clean_version,
     simp_all add: yaml_lines_def skipped_line section_line parse_line_top parse_line_nested toplevel_keys_def key
      assign_def TraceConfig_default_def)
qed

lemma yaml_lines_custom:
  "yaml_lines sd now cfg = yaml_lines sd now (cfg\<lparr>tc_custom_metadata := []\<rparr>) @
     (if tc_custom_metadata cfg = [] then []
      else ''custom:'' # map (\<lambda>(key, value). kv ''  '' key value) (tc_custom_metadata cfg))"
  by (simp add: yaml_lines_def)

lemma parse_yaml_lines:
  assumes "clean_config cfg" and "clean now" and "now \<noteq> []"
    and "clean (sd (tc_frequency_mhz cfg))" and "stod (sd (tc_frequency_mhz cfg)) = Inr (tc_frequency_mhz cfg)"
  shows "\<exists>sec. parse_lines stod (TraceConfig_default, []) (yaml_lines sd now cfg) =
    Inr (cfg\<lparr>tc_timestamp := now\<rparr>, sec)"
proof -
  let ?c = "cfg\<lparr>tc_timestamp := now, tc_custom_metadata := []\<rparr>"
  obtain sec where fixed: "parse_lines stod (TraceConfig_default, []) (yaml_lines sd now (cfg\<lparr>tc_custom_metadata := []\<rparr>)) =
      Inr (?c, sec)" using parse_fixed_lines [of cfg now sd stod] assms by blast
  have custom: "parse_lines stod (?c, ''custom'') (map (\<lambda>(key, value). kv ''  '' key value) (tc_custom_metadata cfg)) =
      Inr (cfg\<lparr>tc_timestamp := now\<rparr>, ''custom'')"
    using assms(1) by (subst parse_custom) (simp_all add: clean_config_def)
  show ?thesis
    by (subst yaml_lines_custom, cases "tc_custom_metadata cfg = []")
      (simp_all add: parse_lines_append fixed section_line custom)
qed

lemma yaml_parses:
  assumes "clean_config cfg" and "clean now" and "now \<noteq> []"
    and "clean (sd (tc_frequency_mhz cfg))" and "stod (sd (tc_frequency_mhz cfg)) = Inr (tc_frequency_mhz cfg)"
  shows "parseYAMLMetadata stod TraceConfig_default (yaml_text sd now cfg) = Inr (cfg\<lparr>tc_timestamp := now\<rparr>)"
proof -
  have "getlines (yaml_text sd now cfg) = yaml_lines sd now cfg @ [''---'']"
    unfolding yaml_text_lines using yaml_lines_no_NL [of cfg now sd] assms by (intro getlines_unlines) blast
  with parse_yaml_lines [of cfg now sd stod] assms show ?thesis
    by (auto simp: parseYAMLMetadata_def parse_lines_append skipped_line)
qed


definition sample_config :: TraceConfig where
  "sample_config = TraceConfig_default\<lparr>tc_generator := ''pimid-zsim'', tc_workload := ''bfs'', tc_num_pes := 16,
     tc_memory_technology := ''DRAM'', tc_noc_topology := ''H_TREE'', tc_pe_type := ''ooo_core'',
     tc_custom_metadata := [(''graph'', ''rmat: 20''), (''seed'', ''7'')]\<rparr>"

definition sample_now :: string where "sample_now = ''2026-01-01T00:00:00Z''"

text \<open>A printer and a reader of frequencies that agree on the whole MHz values.\<close>

definition show_mhz :: "real \<Rightarrow> string" where "show_mhz d = show_nat (nat \<lfloor>d\<rfloor>)"
definition read_mhz :: "string \<Rightarrow> trace_error + real" where
  "read_mhz s = map_sum id (\<lambda>w. real (unat w)) (stoull s)"

lemma sample_config_clean: "clean_config sample_config"
  by (simp add: sample_config_def TraceConfig_default_def clean_config_def clean_def clean_key_def toplevel_keys_def
      NL_def is_blank_def TAB_def less_list_code less_char_def)

lemma sample_mhz: "read_mhz (show_mhz (tc_frequency_mhz sample_config)) = Inr (tc_frequency_mhz sample_config)"
  by (simp add: show_mhz_def read_mhz_def sample_config_def TraceConfig_default_def stoull_show_nat)

lemma sample_now_clean: "clean sample_now" "sample_now \<noteq> []"
  by (simp_all add: sample_now_def clean_def NL_def is_blank_def TAB_def)


text \<open>
  a custom metadata entry whose key is a top-level key is not read back as custom metadata:
  the parser takes the six top-level keys in every section, so the entry overwrites the field of
  the configuration (here the number of PEs) and is lost.
\<close>

theorem custom_key_captured:
  assumes "clean v" and "v \<noteq> []"
  shows "parse_line stod (cfg, ''custom'') (kv ''  '' ''num_pes'' v) =
    map_sum id (\<lambda>n. (cfg\<lparr>tc_num_pes := n\<rparr>, ''custom'')) (stoul32 v)"
  using assms by (cases "stoul32 v"; subst parse_line_nested)
    (auto simp: assign_def clean_def NL_def is_blank_def TAB_def)

theorem custom_key_captured_witness:
  "parse_line read_mhz (sample_config, ''custom'') (kv ''  '' ''num_pes'' (show_nat 4)) =
     Inr (sample_config\<lparr>tc_num_pes := 4\<rparr>, ''custom'')"
  using custom_key_captured [of "show_nat 4"] clean_show_nat [of 4] stoul32_show_u32 [of 4] by simp

end
