(* ===== verification/Garnet_Config.thy ===== *)
theory Garnet_Config
  imports Trace_Yaml
begin

text \<open>
  The configuration of a network model (include/network/network_model.h) and \<^verbatim>\<open>GarnetModel::loadConfig\<close> of
  src/network/network_model.cpp, which reads it from a text of \<^verbatim>\<open>key: value\<close> or \<^verbatim>\<open>key = value\<close> lines. The file
  is \<open>None\<close> where it cannot be opened; an exception of \<^verbatim>\<open>std::stoul\<close> is \<open>Inl\<close>.
\<close>

section \<open>Data\<close>

datatype NetworkTopology = MESH_2D | MESH_3D | TORUS_2D | TORUS_3D | DRAGONFLY | FAT_TREE | H_TREE | CROSSBAR

datatype RoutingAlgorithm = XY | XYZ | ADAPTIVE | WEST_FIRST | NORTH_LAST | MINIMAL | VALIANT | TREE_BASED

datatype FlowControl = CREDIT_BASED | ON_OFF | VIRTUAL_CHANNEL

datatype RouterPipelineComplexity = FULL | REDUCED | SIMPLE_PIPELINE | MINIMAL_PIPELINE

record NetworkConfig =
  nc_topology :: NetworkTopology
  nc_routing :: RoutingAlgorithm
  nc_flow_control :: FlowControl
  nc_num_rows :: u32
  nc_num_cols :: u32
  nc_num_layers :: u32
  nc_virtual_networks :: u32
  nc_virtual_channels_per_vn :: u32
  nc_virtual_channels :: u32
  nc_link_width_bytes :: u32
  nc_link_latency :: Cycle
  nc_router_pipeline :: RouterPipelineComplexity
  nc_router_latency :: Cycle
  nc_enable_router_bypass :: bool
  nc_input_buffer_depth :: u32
  nc_output_buffer_depth :: u32
  nc_garnet_config_path :: string

definition NetworkConfig_init :: NetworkConfig where
  "NetworkConfig_init =
     \<lparr>nc_topology = MESH_2D, nc_routing = XY, nc_flow_control = CREDIT_BASED, nc_num_rows = 4, nc_num_cols = 4,
      nc_num_layers = 1, nc_virtual_networks = 1, nc_virtual_channels_per_vn = 1, nc_virtual_channels = 1,
      nc_link_width_bytes = 4, nc_link_latency = 1, nc_router_pipeline = FULL, nc_router_latency = 0,
      nc_enable_router_bypass = False, nc_input_buffer_depth = 4, nc_output_buffer_depth = 4, nc_garnet_config_path = []\<rparr>"

section \<open>Reading the text\<close>

definition ws_char :: "char \<Rightarrow> bool" where
  "ws_char c \<longleftrightarrow> c = CHR '' '' \<or> c = TAB \<or> c = CHR 0x0D \<or> c = NL"

definition trim_ws :: "string \<Rightarrow> string" where
  "trim_ws s = rev (dropWhile ws_char (rev (dropWhile ws_char s)))"

text \<open>Key and value of a line; \<open>None\<close> for comments, empty lines and lines without a separator.\<close>

definition split_at :: "char \<Rightarrow> string \<Rightarrow> string \<times> string" where
  "split_at c s = (takeWhile (\<lambda>x. x \<noteq> c) s, tl (dropWhile (\<lambda>x. x \<noteq> c) s))"

definition key_value :: "string \<Rightarrow> (string \<times> string) option" where
  "key_value line =
     (if line = [] \<or> hd line = CHR ''#'' \<or> hd line = CHR '';'' then None
      else if CHR '':'' \<in> set line then Some (map_prod trim_ws trim_ws (split_at (CHR '':'') line))
      else if CHR ''='' \<in> set line then Some (map_prod trim_ws trim_ws (split_at (CHR ''='') line))
      else None)"

definition topology_words :: "(string \<times> NetworkTopology) list" where
  "topology_words =
     [(''mesh_2d'', MESH_2D), (''MESH_2D'', MESH_2D), (''mesh_3d'', MESH_3D), (''MESH_3D'', MESH_3D),
      (''torus_2d'', TORUS_2D), (''TORUS_2D'', TORUS_2D), (''h_tree'', H_TREE), (''H_TREE'', H_TREE),
      (''fat_tree'', FAT_TREE), (''FAT_TREE'', FAT_TREE), (''crossbar'', CROSSBAR), (''CROSSBAR'', CROSSBAR),
      (''dragonfly'', DRAGONFLY), (''DRAGONFLY'', DRAGONFLY)]"

definition routing_words :: "(string \<times> RoutingAlgorithm) list" where
  "routing_words =
     [(''xy'', XY), (''XY'', XY), (''xyz'', XYZ), (''XYZ'', XYZ), (''adaptive'', ADAPTIVE), (''ADAPTIVE'', ADAPTIVE),
      (''west_first'', WEST_FIRST), (''WEST_FIRST'', WEST_FIRST), (''tree_based'', TREE_BASED), (''TREE_BASED'', TREE_BASED)]"

definition apply_setting :: "string \<Rightarrow> string \<Rightarrow> NetworkConfig \<Rightarrow> trace_error + NetworkConfig" where
  "apply_setting key v c =
     (if key = ''topology'' then Inr (case map_of topology_words v of None \<Rightarrow> c | Some t \<Rightarrow> c\<lparr>nc_topology := t\<rparr>)
      else if key = ''routing'' then Inr (case map_of routing_words v of None \<Rightarrow> c | Some r \<Rightarrow> c\<lparr>nc_routing := r\<rparr>)
      else if key = ''num_rows'' then map_sum id (\<lambda>n. c\<lparr>nc_num_rows := n\<rparr>) (stoul32 v)
      else if key = ''num_cols'' then map_sum id (\<lambda>n. c\<lparr>nc_num_cols := n\<rparr>) (stoul32 v)
      else if key = ''num_layers'' then map_sum id (\<lambda>n. c\<lparr>nc_num_layers := n\<rparr>) (stoul32 v)
      else if key = ''virtual_networks'' then map_sum id (\<lambda>n. c\<lparr>nc_virtual_networks := n\<rparr>) (stoul32 v)
      else if key = ''virtual_channels_per_vn''
        then map_sum id (\<lambda>n. c\<lparr>nc_virtual_channels_per_vn := n, nc_virtual_channels := nc_virtual_networks c * n\<rparr>) (stoul32 v)
      else if key = ''virtual_channels'' then map_sum id (\<lambda>n. c\<lparr>nc_virtual_channels := n\<rparr>) (stoul32 v)
      else if key = ''link_width_bytes'' then map_sum id (\<lambda>n. c\<lparr>nc_link_width_bytes := n\<rparr>) (stoul32 v)
      else if key = ''link_latency'' then map_sum id (\<lambda>n. c\<lparr>nc_link_latency := n\<rparr>) (stoull v)
      else if key = ''router_latency'' then map_sum id (\<lambda>n. c\<lparr>nc_router_latency := n\<rparr>) (stoull v)
      else if key = ''input_buffer_depth'' then map_sum id (\<lambda>n. c\<lparr>nc_input_buffer_depth := n\<rparr>) (stoul32 v)
      else if key = ''output_buffer_depth'' then map_sum id (\<lambda>n. c\<lparr>nc_output_buffer_depth := n\<rparr>) (stoul32 v)
      else if key = ''enable_router_bypass''
        then Inr (c\<lparr>nc_enable_router_bypass := v = ''true'' \<or> v = ''1'' \<or> v = ''yes''\<rparr>)
      else Inr c)"

fun load_lines :: "string list \<Rightarrow> NetworkConfig \<Rightarrow> trace_error + NetworkConfig" where
  "load_lines [] c = Inr c"
| "load_lines (l # ls) c =
     (case key_value l of None \<Rightarrow> load_lines ls c
      | Some (key, v) \<Rightarrow> (case apply_setting key v c of Inl e \<Rightarrow> Inl e | Inr c' \<Rightarrow> load_lines ls c'))"

definition loadConfig :: "string option \<Rightarrow> NetworkConfig \<Rightarrow> trace_error + NetworkConfig" where
  "loadConfig file_text c = (case file_text of None \<Rightarrow> Inr c | Some s \<Rightarrow> load_lines (getlines s) c)"

section \<open>The order of two settings\<close>

text \<open>
  The product of \<^verbatim>\<open>virtual_channels\<close> is taken when \<^verbatim>\<open>virtual_channels_per_vn\<close> is read: with the number of networks
  given after it, the product is that of the old number.
\<close>

lemma virtual_channels_order:
  assumes "key_value l1 = Some (''virtual_channels_per_vn'', a)" and "stoul32 a = Inr m"
    and "key_value l2 = Some (''virtual_networks'', b)" and "stoul32 b = Inr n"
  shows "map_sum id nc_virtual_channels (load_lines [l2, l1] c) = Inr (n * m)"
    and "map_sum id nc_virtual_channels (load_lines [l1, l2] c) = Inr (nc_virtual_networks c * m)"
  using assms by (simp_all add: apply_setting_def)

end
