(* ===== verification/Std_Map.thy ===== *)
theory Std_Map
  imports Main "HOL-Library.Multiset" "HOL-Library.List_Lexorder" "HOL-Library.Char_ord"
begin

text \<open>
  \<^verbatim>\<open>std::map\<close> as the sources use it: entries in the order of their keys, \<^verbatim>\<open>operator[] =\<close>, \<^verbatim>\<open>find\<close> and
  \<^verbatim>\<open>erase\<close>. The contract is the locale \<open>ordered_map\<close>; sorted association lists meet it. Strings are
  ordered as \<^verbatim>\<open>std::string\<close> orders them, lexicographically by character codes.
\<close>

section \<open>Sorted association lists\<close>

type_synonym ('k, 'v) smap = "('k \<times> 'v) list"

fun smap_put :: "'k::linorder \<Rightarrow> 'v \<Rightarrow> ('k, 'v) smap \<Rightarrow> ('k, 'v) smap" where
  "smap_put k v [] = [(k, v)]"
| "smap_put k v ((k', v') # m) =
     (if k < k' then (k, v) # (k', v') # m else if k = k' then (k, v) # m else (k', v') # smap_put k v m)"

definition smap_erase :: "'k \<Rightarrow> ('k, 'v) smap \<Rightarrow> ('k, 'v) smap" where
  "smap_erase k m = filter (\<lambda>e. fst e \<noteq> k) m"

definition smap_find :: "'k \<Rightarrow> ('k, 'v) smap \<Rightarrow> 'v option" where
  "smap_find k m = map_of m k"

definition smap_ok :: "('k::linorder, 'v) smap \<Rightarrow> bool" where
  "smap_ok m \<longleftrightarrow> sorted_wrt (<) (map fst m)"

lemma smap_ok_sorted: "smap_ok m \<Longrightarrow> sorted_wrt (<) (map fst m)"
  by (simp add: smap_ok_def)

lemma smap_put_keys: "fst ` set (smap_put k v m) = insert k (fst ` set m)"
  by (induction k v m rule: smap_put.induct) (auto simp: image_iff)

lemma smap_find_put: "smap_find k (smap_put k' v m) = (if k = k' then Some v else smap_find k m)"
  by (induction k' v m rule: smap_put.induct) (auto simp: smap_find_def)

lemma smap_find_erase: "smap_find k (smap_erase k' m) = (if k = k' then None else smap_find k m)"
  by (induction m) (auto simp: smap_find_def smap_erase_def)

lemma smap_ok_put: "smap_ok m \<Longrightarrow> smap_ok (smap_put k v m)"
proof (induction k v m rule: smap_put.induct)
  case (2 k v k' v' m)
  then have "smap_ok m" by (simp add: smap_ok_def)
  with 2 smap_put_keys [of k v m] show ?case by (auto simp: smap_ok_def)
qed (simp add: smap_ok_def)

lemma smap_ok_erase: "smap_ok m \<Longrightarrow> smap_ok (smap_erase k m)"
  by (induction m) (auto simp: smap_ok_def smap_erase_def)

lemma smap_ok_distinct: "smap_ok m \<Longrightarrow> distinct (map fst m)"
  unfolding smap_ok_def by (induction m) auto

lemma smap_find_None: "smap_find k m = None \<longleftrightarrow> k \<notin> fst ` set m"
  by (simp add: smap_find_def map_of_eq_None_iff)

lemma smap_find_entry: "smap_ok m \<Longrightarrow> smap_find k m = Some v \<longleftrightarrow> (k, v) \<in> set m"
  by (simp add: smap_find_def smap_ok_distinct)

lemma smap_put_new: "smap_ok m \<Longrightarrow> smap_find k m = None \<Longrightarrow> mset (smap_put k v m) = add_mset (k, v) (mset m)"
  by (induction k v m rule: smap_put.induct) (auto simp: smap_ok_def smap_find_def split: if_splits)

lemma smap_erase_new: "smap_find k m = None \<Longrightarrow> smap_erase k m = m"
  by (auto simp: smap_find_None smap_erase_def filter_id_conv)

section \<open>The contract\<close>

locale ordered_map =
  fixes find :: "'k::linorder \<Rightarrow> 'm \<Rightarrow> 'v option"
    and put :: "'k \<Rightarrow> 'v \<Rightarrow> 'm \<Rightarrow> 'm"
    and erase :: "'k \<Rightarrow> 'm \<Rightarrow> 'm"
    and entries :: "'m \<Rightarrow> ('k \<times> 'v) list"
    and ok :: "'m \<Rightarrow> bool"
  assumes find_put: "find k (put k' v m) = (if k = k' then Some v else find k m)"
    and find_erase: "find k (erase k' m) = (if k = k' then None else find k m)"
    and ok_put: "ok m \<Longrightarrow> ok (put k v m)"
    and ok_erase: "ok m \<Longrightarrow> ok (erase k m)"
    and find_entries: "ok m \<Longrightarrow> find k m = Some v \<longleftrightarrow> (k, v) \<in> set (entries m)"
    and entries_sorted: "ok m \<Longrightarrow> sorted_wrt (<) (map fst (entries m))"
begin

definition same :: "'m \<Rightarrow> 'm \<Rightarrow> bool" where
  "same m m' \<longleftrightarrow> (\<forall>k. find k m = find k m')"

lemma entries_distinct: "ok m \<Longrightarrow> distinct (map fst (entries m))"
  using entries_sorted [of m] by (simp add: strict_sorted_iff)

lemma find_None: "ok m \<Longrightarrow> find k m = None \<longleftrightarrow> k \<notin> fst ` set (entries m)"
  using find_entries [of m k] by (cases "find k m") force+

lemma entries_by_key: "ok m \<Longrightarrow> entries m = map (\<lambda>k. (k, the (find k m))) (map fst (entries m))"
  using find_entries [of m] by (force intro!: map_idI [symmetric])

text \<open>The entries are determined by what \<^verbatim>\<open>find\<close> answers, order included.\<close>

lemma entries_unique: "ok m \<Longrightarrow> ok m' \<Longrightarrow> same m m' \<Longrightarrow> entries m = entries m'"
proof -
  assume ok: "ok m" "ok m'" and s: "same m m'"
  have set: "set (entries m) = set (entries m')"
    using find_entries [OF ok(1)] find_entries [OF ok(2)] s by (auto simp: same_def)
  then have "set (map fst (entries m)) = set (map fst (entries m'))" by simp
  with entries_sorted ok have "map fst (entries m) = map fst (entries m')"
    by (intro strict_sorted_equal) auto
  moreover have "(\<lambda>k. (k, the (find k m))) = (\<lambda>k. (k, the (find k m')))" using s by (simp add: same_def)
  ultimately show ?thesis using entries_by_key ok by metis
qed

text \<open>Erasing all keys empties the map.\<close>

lemma fold_erase: "ok m \<Longrightarrow> ok (foldl (\<lambda>m k. erase k m) m ks) \<and>
    find (k :: 'k) (foldl (\<lambda>m k. erase k m) m ks) = (if k \<in> set ks then None else find k m)"
  by (induction ks arbitrary: m) (auto simp: ok_erase find_erase)

lemma erase_all: "ok m \<Longrightarrow> entries (foldl (\<lambda>m k. erase k m) m (map fst (entries m))) = []"
proof -
  assume ok: "ok m"
  let ?m = "foldl (\<lambda>m k. erase k m) m (map fst (entries m))"
  have "find k ?m = None" for k using fold_erase [OF ok, where k = k and ks = "map fst (entries m)"] find_None [OF ok, of k] by auto
  then have "e \<notin> set (entries ?m)" for e
    using find_entries [of ?m "fst e" "snd e"] fold_erase [OF ok, where ks = "map fst (entries m)"] by simp
  then show ?thesis by (simp add: set_empty [symmetric] set_eq_iff del: set_empty)
qed

end

interpretation sm: ordered_map smap_find smap_put smap_erase "\<lambda>m. m" smap_ok
  by unfold_locales (auto simp: smap_find_put smap_find_erase smap_ok_put smap_ok_erase smap_find_entry dest: smap_ok_sorted)

lemma smap_ok_Nil [simp]: "smap_ok []"
  by (simp add: smap_ok_def)

lemma smap_find_Nil [simp]: "smap_find k [] = None"
  by (simp add: smap_find_def)

lemmas smap_simps = smap_find_put smap_find_erase smap_ok_put smap_ok_erase

end
