(* ===== verification/Doubles.thy ===== *)
theory Doubles
  imports Prelude "HOL-Library.Log_Nat" Complex_Main
begin

text \<open>
  The type \<^verbatim>\<open>double\<close> as the sources use it: a finite value is a rational number, and every arithmetic
  operation rounds its exact result to 53 significant bits, to nearest, ties to even (IEEE 754
  binary64). The exponent is unbounded: infinities, NaN and subnormal numbers do not occur, and the
  clients show that no divisor is zero. \<^verbatim>\<open>sqrt\<close>, \<^verbatim>\<open>pow\<close> and the logarithms of the C library are a parameter.
\<close>

type_synonym double = rat

section \<open>Rounding\<close>

text \<open>The exponent \<open>e\<close> with \<open>2 ^ e \<le> x < 2 ^ (e + 1)\<close>.\<close>

definition bexp :: "rat \<Rightarrow> int" where
  "bexp x = (if 1 \<le> x then bitlen \<lfloor>x\<rfloor> - 1 else - bitlen (\<lceil>1 / x\<rceil> - 1))"

definition ulp :: "rat \<Rightarrow> rat" where
  "ulp x = 2 powi (bexp x - 52)"

text \<open>The nearest integer, the even one of two.\<close>

definition rne :: "rat \<Rightarrow> int" where
  "rne x =
     (let d = x - of_int \<lfloor>x\<rfloor>
      in if d < 1 / 2 then \<lfloor>x\<rfloor> else if 1 / 2 < d then \<lfloor>x\<rfloor> + 1 else if even \<lfloor>x\<rfloor> then \<lfloor>x\<rfloor> else \<lfloor>x\<rfloor> + 1)"

definition rnd_pos :: "rat \<Rightarrow> rat" where
  "rnd_pos x = of_int (rne (x / ulp x)) * ulp x"

definition rnd :: "rat \<Rightarrow> double" where
  "rnd x = (if x = 0 then 0 else if 0 < x then rnd_pos x else - rnd_pos (- x))"

section \<open>Operations\<close>

definition d_add :: "double \<Rightarrow> double \<Rightarrow> double" where "d_add x y = rnd (x + y)"
definition d_sub :: "double \<Rightarrow> double \<Rightarrow> double" where "d_sub x y = rnd (x - y)"
definition d_mul :: "double \<Rightarrow> double \<Rightarrow> double" where "d_mul x y = rnd (x * y)"
definition d_div :: "double \<Rightarrow> double \<Rightarrow> double" where "d_div x y = rnd (x / y)"
definition d_ceil :: "double \<Rightarrow> double" where "d_ceil x = of_int \<lceil>x\<rceil>"

definition d_trunc :: "double \<Rightarrow> int" where
  "d_trunc x = (if x < 0 then \<lceil>x\<rceil> else \<lfloor>x\<rfloor>)"

text \<open>Conversions: from \<^verbatim>\<open>int\<close> exactly, from 64 bits with rounding, to 64 bits by truncation.\<close>

definition d_of_u64 :: "u64 \<Rightarrow> double" where "d_of_u64 w = rnd (of_nat (unat w))"

definition u64_of_d :: "double \<Rightarrow> u64" where "u64_of_d x = word_of_int (d_trunc x)"

record libm =
  m_sqrt :: "double \<Rightarrow> double"
  m_log :: "double \<Rightarrow> double"
  m_log2 :: "double \<Rightarrow> double"
  m_pow :: "double \<Rightarrow> double \<Rightarrow> double"

section \<open>Facts on rounding\<close>

lemma bitlen_ge: "0 < n \<Longrightarrow> (2 :: int) ^ nat (bitlen n - 1) \<le> n \<and> n < 2 ^ nat (bitlen n)"
  using bitlen_bounds [of n] by simp

lemma bitlen_pos': "0 < n \<Longrightarrow> 0 < bitlen n"
  using bitlen_ge [of n] by (cases "bitlen n \<le> 0") auto

lemma bexp_bounds:
  assumes "0 < x"
  shows "2 powi bexp x \<le> x" and "x < 2 powi (bexp x + 1)"
proof -
  have "2 powi bexp x \<le> x \<and> x < 2 powi (bexp x + 1)"
  proof (cases "1 \<le> x")
    case True
    then have f: "0 < \<lfloor>x\<rfloor>" by simp
    then have pos: "0 < bitlen \<lfloor>x\<rfloor>" by (rule bitlen_pos')
    have b: "2 ^ nat (bitlen \<lfloor>x\<rfloor> - 1) \<le> \<lfloor>x\<rfloor>" "\<lfloor>x\<rfloor> < 2 ^ nat (bitlen \<lfloor>x\<rfloor>)" using bitlen_ge [OF f] by auto
    have "2 ^ nat (bitlen \<lfloor>x\<rfloor> - 1) \<le> x" using b(1) by (simp add: le_floor_iff)
    moreover have "x < 2 ^ nat (bitlen \<lfloor>x\<rfloor>)" using b(2) by (simp add: floor_less_iff)
    ultimately show ?thesis using True pos by (simp add: bexp_def power_int_def)
  next
    case False
    let ?n = "\<lceil>1 / x\<rceil>"
    have "1 < 1 / x" using False assms by (simp add: field_simps)
    then have n: "0 < ?n - 1" by linarith
    then have pos: "0 < bitlen (?n - 1)" by (rule bitlen_pos')
    have b: "2 ^ nat (bitlen (?n - 1) - 1) \<le> ?n - 1" "?n - 1 < 2 ^ nat (bitlen (?n - 1))" using bitlen_ge [OF n] by auto
    have "?n \<le> 2 ^ nat (bitlen (?n - 1))" using b(2) by linarith
    then have "1 / x \<le> 2 ^ nat (bitlen (?n - 1))" by (simp add: ceiling_le_iff)
    moreover have "2 ^ nat (bitlen (?n - 1) - 1) < ?n" using b(1) by linarith
    then have "2 ^ nat (bitlen (?n - 1) - 1) < 1 / x" by (simp add: less_ceiling_iff)
    ultimately show ?thesis using False pos assms by (simp add: bexp_def power_int_def field_simps)
  qed
  then show "2 powi bexp x \<le> x" and "x < 2 powi (bexp x + 1)" by auto
qed

lemma rne_int [simp]: "rne (of_int n) = n"
  by (simp add: rne_def)

lemma rne_numeral [simp]: "rne (numeral k) = numeral k"
  using rne_int [of "numeral k"] by simp

lemma rne_cases: "rne x = \<lfloor>x\<rfloor> \<or> rne x = \<lfloor>x\<rfloor> + 1"
  by (simp add: rne_def Let_def)

lemma rne_mono:
  assumes "x \<le> y"
  shows "rne x \<le> rne y"
proof (cases "\<lfloor>x\<rfloor> = \<lfloor>y\<rfloor>")
  case True
  then show ?thesis using assms by (auto simp: rne_def Let_def)
next
  case False
  then have "\<lfloor>x\<rfloor> + 1 \<le> \<lfloor>y\<rfloor>" using floor_mono [OF assms] by linarith
  then show ?thesis using rne_cases [of x] rne_cases [of y] by linarith
qed

lemma ulp_pos [simp]: "0 < ulp x"
  by (simp add: ulp_def)

lemma ulp_bounds:
  assumes "0 < x"
  shows "of_int (2 ^ 52) * ulp x \<le> x" and "x < of_int (2 ^ 53) * ulp x"
proof -
  have "2 powi bexp x = of_int (2 ^ 52) * ulp x" "2 powi (bexp x + 1) = of_int (2 ^ 53) * ulp x"
    unfolding ulp_def by (simp_all add: power_int_diff power_int_add)
  then show "of_int (2 ^ 52) * ulp x \<le> x" and "x < of_int (2 ^ 53) * ulp x" using bexp_bounds [OF assms] by simp_all
qed

lemma rnd_pos_bounds:
  assumes "0 < x"
  shows "2 powi bexp x \<le> rnd_pos x" and "rnd_pos x \<le> 2 powi (bexp x + 1)"
proof -
  have "of_int (2 ^ 52) \<le> x / ulp x" "x / ulp x \<le> of_int (2 ^ 53)"
    using ulp_bounds [OF assms] by (simp_all add: pos_le_divide_eq pos_divide_le_eq)
  then have r: "2 ^ 52 \<le> rne (x / ulp x)" "rne (x / ulp x) \<le> 2 ^ 53"
    using rne_mono [of "of_int (2 ^ 52)" "x / ulp x"] rne_mono [of "x / ulp x" "of_int (2 ^ 53)"] by (simp_all only: rne_int)
  have "of_int (2 ^ 52) * ulp x \<le> rnd_pos x" "rnd_pos x \<le> of_int (2 ^ 53) * ulp x"
    unfolding rnd_pos_def using r by (intro mult_right_mono; simp only: of_int_le_iff less_imp_le [OF ulp_pos])+
  moreover have "2 powi bexp x = of_int (2 ^ 52) * ulp x" "2 powi (bexp x + 1) = of_int (2 ^ 53) * ulp x"
    unfolding ulp_def by (simp_all add: power_int_diff power_int_add)
  ultimately show "2 powi bexp x \<le> rnd_pos x" and "rnd_pos x \<le> 2 powi (bexp x + 1)" by simp_all
qed

lemma bexp_mono:
  assumes "0 < x" and "x \<le> y"
  shows "bexp x \<le> bexp y"
proof (rule ccontr)
  assume "\<not> bexp x \<le> bexp y"
  then have "(2 :: rat) powi (bexp y + 1) \<le> 2 powi bexp x" by (intro power_int_increasing) auto
  then show False using bexp_bounds(1) [of x] bexp_bounds(2) [of y] assms by linarith
qed

lemma rnd_pos_mono:
  assumes "0 < x" and "x \<le> y"
  shows "rnd_pos x \<le> rnd_pos y"
proof (cases "bexp x = bexp y")
  case True
  then have "ulp x = ulp y" by (simp add: ulp_def)
  then have "x / ulp x \<le> y / ulp y" using assms(2) by (simp add: divide_right_mono less_imp_le)
  from rne_mono [OF this] show ?thesis
    unfolding rnd_pos_def using \<open>ulp x = ulp y\<close> by (simp add: less_imp_le)
next
  case False
  then have "(2 :: rat) powi (bexp x + 1) \<le> 2 powi bexp y" using bexp_mono [OF assms] by (intro power_int_increasing) auto
  then show ?thesis using rnd_pos_bounds(2) [of x] rnd_pos_bounds(1) [of y] assms by linarith
qed

lemma rnd_pos_pos: "0 < x \<Longrightarrow> 0 < rnd_pos x"
  using rnd_pos_bounds(1) [of x] zero_less_power_int [of "2 :: rat" "bexp x"] by linarith

lemma rnd_0 [simp]: "rnd 0 = 0"
  by (simp add: rnd_def)

lemma rnd_minus [simp]: "rnd (- x) = - rnd x"
  by (simp add: rnd_def)

lemma rnd_mono:
  assumes "x \<le> y"
  shows "rnd x \<le> rnd y"
proof -
  consider "0 < x" | "x \<le> 0" "0 \<le> y" | "y < 0" by linarith
  then show ?thesis
  proof cases
    case 1
    then show ?thesis using rnd_pos_mono assms by (simp add: rnd_def)
  next
    case 2
    then show ?thesis using rnd_pos_pos [of "- x"] rnd_pos_pos [of y] by (auto simp: rnd_def)
  next
    case 3
    then show ?thesis using rnd_pos_mono [of "- y" "- x"] assms by (simp add: rnd_def)
  qed
qed

lemma rnd_pos_iff [simp]: "0 < rnd x \<longleftrightarrow> 0 < x"
  using rnd_pos_pos [of x] rnd_pos_pos [of "- x"] by (auto simp: rnd_def)

lemma rnd_nonneg [simp]: "0 \<le> rnd x \<longleftrightarrow> 0 \<le> x"
  using rnd_pos_iff [of "- x"] by (simp add: not_less [symmetric])

text \<open>Integers of at most 53 bits are exact.\<close>

lemma rnd_pos_int:
  assumes "0 < n" and "n \<le> 2 ^ 53"
  shows "rnd_pos (of_int n) = of_int n"
proof (cases "n = 2 ^ 53")
  case True
  have "bexp (of_int n) = 53" unfolding True by code_simp
  then have "ulp (of_int n) = 2" by (simp add: ulp_def)
  moreover have "of_int n / 2 = (of_int (2 ^ 52) :: rat)" by (simp add: True)
  ultimately show ?thesis using True by (simp add: rnd_pos_def del: of_int_power)
next
  case False
  then have "(of_int n :: rat) < 2 powi 53" using assms by (simp add: power_int_def flip: of_int_power_less_of_int_cancel_iff)
  then have "(2 :: rat) powi bexp (of_int n) < 2 powi 53" using bexp_bounds(1) [of "of_int n"] assms by (simp add: order_le_less_trans)
  then have b: "bexp (of_int n) \<le> 52" using power_int_increasing [of 53 "bexp (of_int n)" "2 :: rat"] by (cases "bexp (of_int n) \<le> 52") auto
  have "of_int n / ulp (of_int n) = of_int (n * 2 ^ nat (52 - bexp (of_int n)))"
    using b by (simp add: ulp_def power_int_def field_simps)
  moreover have "rne (of_int (n * 2 ^ nat (52 - bexp (of_int n)))) = n * 2 ^ nat (52 - bexp (of_int n))" by (rule rne_int)
  ultimately have "rnd_pos (of_int n) = of_int n / ulp (of_int n) * ulp (of_int n)" unfolding rnd_pos_def by simp
  then show ?thesis using ulp_pos [of "of_int n"] by simp
qed

lemma rnd_int:
  assumes "\<bar>n\<bar> \<le> 2 ^ 53"
  shows "rnd (of_int n) = of_int n"
  using rnd_pos_int [of n] rnd_pos_int [of "- n"] assms by (auto simp: rnd_def)

lemma rnd_nat: "n \<le> 2 ^ 53 \<Longrightarrow> rnd (of_nat n) = of_nat n"
  using rnd_int [of "int n"] by simp

lemma rnd_1 [simp]: "rnd 1 = 1"
  using rnd_int [of 1] by simp

lemma rnd_numeral [simp]: "numeral n \<le> (2 :: int) ^ 53 \<Longrightarrow> rnd (numeral n) = numeral n"
  using rnd_int [of "numeral n"] by simp

text \<open>Rounding does not cross an integer of at most 53 bits.\<close>

lemma rnd_ge_int: "of_int n \<le> x \<Longrightarrow> \<bar>n\<bar> \<le> 2 ^ 53 \<Longrightarrow> of_int n \<le> rnd x"
  using rnd_mono [of "of_int n" x] rnd_int [of n] by simp

lemma rnd_le_int: "x \<le> of_int n \<Longrightarrow> \<bar>n\<bar> \<le> 2 ^ 53 \<Longrightarrow> rnd x \<le> of_int n"
  using rnd_mono [of x "of_int n"] rnd_int [of n] by simp

end
