(* ===== verification/Garnet_Model.thy ===== *)
theory Garnet_Model
  imports Garnet_Config Std_Map Doubles
begin

text \<open>
  The network model of src/network/network_model.cpp (class \<^verbatim>\<open>GarnetModel\<close>): packets wait in the injection queue of their
  source until the latency of their route has passed, then move to the ejection queue of their
  destination, from where the client takes them. The arrival callback is modelled by the packets it was called
  with. \<^verbatim>\<open>None\<close> of \<open>extractPacket\<close> is the trap of an integer division by zero. Console messages are not modelled.

  Two divisions are total here and not in the code: \<^verbatim>\<open>injectPacket\<close> divides by the width of a link in bytes and
  \<^verbatim>\<open>computeRoute\<close>, on a mesh or torus, by the number of columns. With a zero there, which \<^verbatim>\<open>loadConfig\<close> accepts from a
  file, the program stops with a trap when the first packet is injected or routed; what is shown about such a
  configuration has no counterpart in a run. \<open>divisors_ok\<close> says that there is no such zero; the default configuration has none.
\<close>

section \<open>Data\<close>

datatype PacketType = DATA | CONTROL | COHERENCE

datatype PEPlacementLevel = PE_SUBARRAY | PE_BANK | PE_BANK_GROUP | PE_CHIP | PE_RANK | PE_LOGIC_DIE | PE_HOST_MC

record NetworkPacket =
  np_src_node :: u32
  np_dst_node :: u32
  np_type :: PacketType
  np_size :: u64
  np_addr :: Address
  np_inject_cycle :: Cycle

definition NetworkPacket_make :: "u32 \<Rightarrow> u32 \<Rightarrow> PacketType \<Rightarrow> u64 \<Rightarrow> Address \<Rightarrow> Cycle \<Rightarrow> NetworkPacket" where
  "NetworkPacket_make src dst t s a c =
     \<lparr>np_src_node = src, np_dst_node = dst, np_type = t, np_size = s, np_addr = a, np_inject_cycle = c\<rparr>"

record NetworkNode =
  nn_node_id :: u32
  nn_level :: PEPlacementLevel
  nn_hierarchy_id :: u32
  nn_connected_nodes :: "u32 list"

definition NetworkNode_make :: "u32 \<Rightarrow> PEPlacementLevel \<Rightarrow> u32 \<Rightarrow> NetworkNode" where
  "NetworkNode_make i l h = \<lparr>nn_node_id = i, nn_level = l, nn_hierarchy_id = h, nn_connected_nodes = []\<rparr>"

record NetworkStats =
  ns_total_packets :: u64
  ns_total_flits :: u64
  ns_avg_packet_latency :: Cycle
  ns_max_packet_latency :: Cycle
  ns_avg_link_utilization :: double
  ns_total_energy_j :: double

definition NetworkStats_init :: NetworkStats where
  "NetworkStats_init =
     \<lparr>ns_total_packets = 0, ns_total_flits = 0, ns_avg_packet_latency = 0, ns_max_packet_latency = 0,
      ns_avg_link_utilization = 0, ns_total_energy_j = 0\<rparr>"

record NoCActivity =
  na_total_packets :: u64
  na_total_flits :: u64
  na_total_hops :: u64
  na_buffer_reads :: u64
  na_buffer_writes :: u64
  na_crossbar_traversals :: u64
  na_arbiter_events :: u64
  na_link_traversals :: u64
  na_total_cycles :: u64
  na_clock_mhz :: double

type_synonym queues = "(u32, NetworkPacket list) smap"

record GarnetModel =
  gm_config :: NetworkConfig
  gm_nodes :: "NetworkNode list"
  gm_injection :: queues
  gm_ejection :: queues
  gm_stats :: NetworkStats
  gm_current_cycle :: Cycle
  gm_router_energy :: double
  gm_link_energy :: double
  gm_callback :: bool
  gm_called :: "NetworkPacket list"

definition GarnetModel_init :: "NetworkConfig \<Rightarrow> GarnetModel" where
  "GarnetModel_init c =
     \<lparr>gm_config = c, gm_nodes = [], gm_injection = [], gm_ejection = [], gm_stats = NetworkStats_init, gm_current_cycle = 0,
      gm_router_energy = 0, gm_link_energy = 0, gm_callback = False, gm_called = []\<rparr>"

section \<open>Nodes and links\<close>

definition addNode :: "NetworkNode \<Rightarrow> GarnetModel \<Rightarrow> GarnetModel" where
  "addNode n g =
     g\<lparr>gm_nodes := gm_nodes g @ [n],
       gm_injection := smap_put (nn_node_id n) [] (gm_injection g),
       gm_ejection := smap_put (nn_node_id n) [] (gm_ejection g)\<rparr>"

text \<open>\<^verbatim>\<open>initialize\<close>: a two-dimensional mesh makes its nodes, the other topologies get theirs from the client.\<close>

definition garnet_initialize :: "GarnetModel \<Rightarrow> GarnetModel" where
  "garnet_initialize g =
     (case nc_topology (gm_config g) of
        MESH_2D \<Rightarrow>
          foldl (\<lambda>g i. addNode (NetworkNode_make (word_of_nat i) PE_LOGIC_DIE (word_of_nat i)) g) g
            [0..<unat (nc_num_rows (gm_config g) * nc_num_cols (gm_config g))]
      | _ \<Rightarrow> g)"

text \<open>The first node with the identity is changed.\<close>

fun update_node :: "u32 \<Rightarrow> (NetworkNode \<Rightarrow> NetworkNode) \<Rightarrow> NetworkNode list \<Rightarrow> NetworkNode list" where
  "update_node i f [] = []"
| "update_node i f (n # ns) = (if nn_node_id n = i then f n # ns else n # update_node i f ns)"

definition connectNodes :: "u32 \<Rightarrow> u32 \<Rightarrow> GarnetModel \<Rightarrow> GarnetModel" where
  "connectNodes src dst g =
     (let ns1 = update_node src (\<lambda>n. n\<lparr>nn_connected_nodes := nn_connected_nodes n @ [dst]\<rparr>) (gm_nodes g);
          ns2 = (if nc_topology (gm_config g) \<in> {MESH_2D, MESH_3D, TORUS_2D}
                 then update_node dst (\<lambda>n. if src \<in> set (nn_connected_nodes n) then n
                                        else n\<lparr>nn_connected_nodes := nn_connected_nodes n @ [src]\<rparr>) ns1
                 else ns1)
      in g\<lparr>gm_nodes := ns2\<rparr>)"

section \<open>Injection and extraction\<close>

definition canInject :: "GarnetModel \<Rightarrow> u32 \<Rightarrow> bool" where
  "canInject g n =
     (case smap_find n (gm_injection g) of None \<Rightarrow> False
      | Some q \<Rightarrow> length q < unat (nc_input_buffer_depth (gm_config g)))"

definition injectPacket :: "NetworkPacket \<Rightarrow> GarnetModel \<Rightarrow> GarnetModel" where
  "injectPacket p g =
     (if \<not> canInject g (np_src_node p) then g
      else let q = the (smap_find (np_src_node p) (gm_injection g)); w = ucast (nc_link_width_bytes (gm_config g)) in
        g\<lparr>gm_injection := smap_put (np_src_node p) (q @ [p\<lparr>np_inject_cycle := gm_current_cycle g\<rparr>]) (gm_injection g),
          gm_stats := (gm_stats g)
            \<lparr>ns_total_packets := ns_total_packets (gm_stats g) + 1,
             ns_total_flits := ns_total_flits (gm_stats g) + (np_size p + w - 1) div w\<rparr>\<rparr>)"

definition hasArrived :: "GarnetModel \<Rightarrow> u32 \<Rightarrow> bool" where
  "hasArrived g n = (case smap_find n (gm_ejection g) of None \<Rightarrow> False | Some q \<Rightarrow> q \<noteq> [])"

definition garnet_total_energy :: "GarnetModel \<Rightarrow> double" where
  "garnet_total_energy g = d_mul (d_add (gm_router_energy g) (gm_link_energy g)) (rnd (1 / 10 ^ 9))"

definition updateStatistics :: "Cycle \<Rightarrow> GarnetModel \<Rightarrow> GarnetModel option" where
  "updateStatistics lat g =
     (let s = gm_stats g; total = ns_avg_packet_latency s * (ns_total_packets s - 1) + lat
      in if ns_total_packets s = 0 then None
         else Some (g\<lparr>gm_stats := s
           \<lparr>ns_avg_packet_latency := total div ns_total_packets s,
            ns_max_packet_latency := max lat (ns_max_packet_latency s),
            ns_total_energy_j := garnet_total_energy g\<rparr>\<rparr>))"

definition extractPacket :: "u32 \<Rightarrow> GarnetModel \<Rightarrow> (NetworkPacket \<times> GarnetModel) option" where
  "extractPacket n g =
     (case smap_find n (gm_ejection g) of
        None \<Rightarrow> Some (NetworkPacket_make 0 0 DATA 0 0 0, g)
      | Some [] \<Rightarrow> Some (NetworkPacket_make 0 0 DATA 0 0 0, g)
      | Some (p # q) \<Rightarrow>
          map_option (\<lambda>g. (p, if gm_callback g then g\<lparr>gm_called := gm_called g @ [p]\<rparr> else g))
            (updateStatistics (gm_current_cycle g - np_inject_cycle p) (g\<lparr>gm_ejection := smap_put n q (gm_ejection g)\<rparr>)))"

section \<open>Routes\<close>

definition step_towards :: "u32 \<Rightarrow> u32 \<Rightarrow> u32" where
  "step_towards x d = (if x < d then x + 1 else x - 1)"

definition gap :: "u32 \<Rightarrow> u32 \<Rightarrow> nat" where
  "gap x d = nat \<bar>uint d - uint x\<bar>"

lemma gap_step: "x \<noteq> d \<Longrightarrow> gap x d = Suc (gap (step_towards x d) d)"
proof -
  assume ne: "x \<noteq> d"
  show ?thesis
  proof (cases "x < d")
    case True
    then have "uint (x + 1) = uint x + 1" using uint_lt2p [of d] uint_nonnegative [of x] by (simp add: uint_word_ariths(1) word_less_def)
    then show ?thesis using True by (simp add: gap_def step_towards_def word_less_def)
  next
    case False
    then have "d < x" using ne by auto
    then have "0 < uint x" unfolding word_less_def using uint_nonnegative [of d] by linarith
    then have "uint (x - 1) = uint x - 1" using uint_lt2p [of x] by (simp add: uint_word_ariths(2))
    then show ?thesis using False \<open>d < x\<close> by (simp add: gap_def step_towards_def word_less_def)
  qed
qed

function route_x :: "u32 \<Rightarrow> u32 \<Rightarrow> u32 \<Rightarrow> u32 \<Rightarrow> u32 list" where
  "route_x cols y x dx = (if x \<noteq> dx then (y * cols + step_towards x dx) # route_x cols y (step_towards x dx) dx else [])"
  by auto
termination by (relation "measure (\<lambda>(cols, y, x, dx). gap x dx)") (auto simp: gap_step)

function route_y :: "u32 \<Rightarrow> u32 \<Rightarrow> u32 \<Rightarrow> u32 \<Rightarrow> u32 list" where
  "route_y cols x y dy = (if y \<noteq> dy then (step_towards y dy * cols + x) # route_y cols x (step_towards y dy) dy else [])"
  by auto
termination by (relation "measure (\<lambda>(cols, x, y, dy). gap y dy)") (auto simp: gap_step)

declare route_x.simps [simp del] route_y.simps [simp del]

definition computeRoute :: "NetworkConfig \<Rightarrow> u32 \<Rightarrow> u32 \<Rightarrow> u32 list" where
  "computeRoute c src dst =
     src # (if nc_topology c = MESH_2D \<or> nc_topology c = TORUS_2D
            then let cols = nc_num_cols c
                 in route_x cols (src div cols) (src mod cols) (dst mod cols) @
                    route_y cols (dst mod cols) (src div cols) (dst div cols)
            else [dst])"

section \<open>One cycle\<close>

definition network_latency :: "NetworkConfig \<Rightarrow> NetworkPacket \<Rightarrow> Cycle" where
  "network_latency c p =
     (let route = computeRoute c (np_src_node p) (np_dst_node p);
          num_hops = (if length route > 0 then word_of_nat (length route - 1) else 0) :: u32
      in ucast num_hops * nc_router_latency c + ucast num_hops * nc_link_latency c)"

definition eject :: "NetworkPacket \<Rightarrow> queues \<Rightarrow> queues" where
  "eject p e = smap_put (np_dst_node p) ((case smap_find (np_dst_node p) e of None \<Rightarrow> [] | Some q \<Rightarrow> q) @ [p]) e"

definition tick_queue :: "GarnetModel \<Rightarrow> u32 \<times> NetworkPacket list \<Rightarrow> GarnetModel" where
  "tick_queue g nq =
     (case snd nq of [] \<Rightarrow> g
      | p # q \<Rightarrow>
          if np_inject_cycle p + network_latency (gm_config g) p \<le> gm_current_cycle g
          then g\<lparr>gm_ejection := eject p (gm_ejection g), gm_injection := smap_put (fst nq) q (gm_injection g)\<rparr>
          else g)"

definition garnet_tick :: "GarnetModel \<Rightarrow> GarnetModel" where
  "garnet_tick g =
     (let g1 = g\<lparr>gm_current_cycle := gm_current_cycle g + 1\<rparr>;
          g2 = foldl tick_queue g1 (gm_injection g1);
          n = of_nat (length (gm_nodes g2))
      in g2\<lparr>gm_router_energy := d_add (gm_router_energy g2) (d_mul (rnd (1 / 10)) n),
            gm_link_energy := d_add (gm_link_energy g2) (d_mul (rnd (5 / 100)) n)\<rparr>)"

section \<open>Statistics\<close>

definition garnet_resetStats :: "GarnetModel \<Rightarrow> GarnetModel" where
  "garnet_resetStats g = g\<lparr>gm_stats := NetworkStats_init, gm_router_energy := 0, gm_link_energy := 0\<rparr>"

definition getRouterEnergy :: "GarnetModel \<Rightarrow> double" where
  "getRouterEnergy g = d_mul (gm_router_energy g) (rnd (1 / 10 ^ 9))"

definition getLinkEnergy :: "GarnetModel \<Rightarrow> double" where
  "getLinkEnergy g = d_mul (gm_link_energy g) (rnd (1 / 10 ^ 9))"

definition getActivity :: "GarnetModel \<Rightarrow> NoCActivity" where
  "getActivity g =
     (let h = (nc_num_rows (gm_config g) + nc_num_cols (gm_config g)) div 3;
          avg_hops = (if h < 1 then 1 else h);
          routers = ucast (avg_hops + 1);
          s = gm_stats g
      in \<lparr>na_total_packets = ns_total_packets s, na_total_flits = ns_total_flits s,
          na_total_hops = ns_total_packets s * ucast avg_hops,
          na_buffer_reads = ns_total_flits s * routers, na_buffer_writes = ns_total_flits s * routers,
          na_crossbar_traversals = ns_total_flits s * routers, na_arbiter_events = ns_total_flits s * routers,
          na_link_traversals = ns_total_flits s * ucast avg_hops,
          na_total_cycles = gm_current_cycle g, na_clock_mhz = 1000\<rparr>)"

section \<open>Routes are shortest walks\<close>

definition manhattan :: "nat \<Rightarrow> nat \<Rightarrow> nat \<Rightarrow> nat" where
  "manhattan C a b = nat (\<bar>int (a mod C) - int (b mod C)\<bar> + \<bar>int (a div C) - int (b div C)\<bar>)"

text \<open>A walk on the grid with \<open>C\<close> columns: consecutive nodes are neighbours.\<close>

fun walk :: "nat \<Rightarrow> nat list \<Rightarrow> bool" where
  "walk C (a # b # ns) \<longleftrightarrow> manhattan C a b = 1 \<and> walk C (b # ns)"
| "walk C ns \<longleftrightarrow> True"

lemma abs_triangle:
  fixes a b c d e f :: int
  shows "nat (\<bar>a - c\<bar> + \<bar>d - f\<bar>) \<le> nat (\<bar>a - b\<bar> + \<bar>d - e\<bar>) + nat (\<bar>b - c\<bar> + \<bar>e - f\<bar>)"
  by linarith

lemma manhattan_triangle: "manhattan C a c \<le> manhattan C a b + manhattan C b c"
  unfolding manhattan_def by (rule abs_triangle)

lemma manhattan_self [simp]: "manhattan C a a = 0"
  by (simp add: manhattan_def)

lemma walk_length: "walk C (a # ns) \<Longrightarrow> manhattan C a (last (a # ns)) \<le> length ns"
proof (induction ns arbitrary: a)
  case (Cons b ns)
  then show ?case using manhattan_triangle [of C a "last (b # ns)" b] by fastforce
qed simp

lemma walk_append: "walk C (a # xs) \<Longrightarrow> walk C (last (a # xs) # ys) \<Longrightarrow> walk C (a # xs @ ys)"
  by (induction xs arbitrary: a) auto

lemma manhattan_row: "x < C \<Longrightarrow> x' < C \<Longrightarrow> manhattan C (y * C + x) (y' * C + x') = nat (\<bar>int x - int x'\<bar> + \<bar>int y - int y'\<bar>)"
  by (simp add: manhattan_def)

lemma manhattan_step_x: "x < C \<Longrightarrow> x' < C \<Longrightarrow> x' = x + 1 \<or> x = x' + 1 \<Longrightarrow> manhattan C (y * C + x) (y * C + x') = 1"
  by (auto simp: manhattan_row)

lemma manhattan_step_y: "x < C \<Longrightarrow> y' = y + 1 \<or> y = y' + 1 \<Longrightarrow> manhattan C (y * C + x) (y' * C + x) = 1"
  by (auto simp only: manhattan_row)

lemma unat_node:
  fixes x y cols :: u32
  assumes "unat y * unat cols + unat x < 2 ^ 32"
  shows "unat (y * cols + x) = unat y * unat cols + unat x"
  using assms by (simp add: unat_word_ariths)

lemma gap_nat: "int (gap x d) = \<bar>int (unat x) - int (unat d)\<bar>"
  by (simp add: gap_def abs_minus_commute)

lemma unat_step_towards:
  assumes "x \<noteq> d"
  shows "unat x < unat d \<and> unat (step_towards x d) = unat x + 1 \<or> unat d < unat x \<and> unat (step_towards x d) = unat x - 1"
proof (cases "x < d")
  case True
  then show ?thesis using unat_inc [OF True] by (simp add: step_towards_def word_less_nat_alt)
next
  case False
  then have "d < x" using assms by simp
  then show ?thesis using False by (simp add: step_towards_def word_less_nat_alt unat_sub_if')
qed

lemma route_x_spec:
  assumes "unat x < unat cols" and "unat dx < unat cols" and "unat y * unat cols + unat cols \<le> 2 ^ 32"
  shows "walk (unat cols) ((unat y * unat cols + unat x) # map unat (route_x cols y x dx)) \<and>
    last ((unat y * unat cols + unat x) # map unat (route_x cols y x dx)) = unat y * unat cols + unat dx \<and>
    length (route_x cols y x dx) = gap x dx"
  using assms
proof (induction cols y x dx rule: route_x.induct)
  case (1 cols y x dx)
  show ?case
  proof (cases "x = dx")
    case True
    then show ?thesis by (simp add: route_x.simps [of cols y dx dx] gap_def)
  next
    case False
    let ?x = "step_towards x dx"
    note st = unat_step_towards [OF False]
    then have x: "unat ?x < unat cols" using 1(2,3) by linarith
    have "unat (y * cols + ?x) = unat y * unat cols + unat ?x" using x 1(4) by (intro unat_node) simp
    moreover have "manhattan (unat cols) (unat y * unat cols + unat x) (unat y * unat cols + unat ?x) = 1"
      by (rule manhattan_step_x [OF 1(2) x]) (use st in linarith)
    moreover note 1(1) [OF False x 1(3,4)]
    ultimately show ?thesis using False gap_step [OF False] by (simp add: route_x.simps [of cols y x dx])
  qed
qed

lemma route_y_spec:
  assumes "unat x < unat cols" and "unat y * unat cols + unat cols \<le> 2 ^ 32" and "unat dy * unat cols + unat cols \<le> 2 ^ 32"
  shows "walk (unat cols) ((unat y * unat cols + unat x) # map unat (route_y cols x y dy)) \<and>
    last ((unat y * unat cols + unat x) # map unat (route_y cols x y dy)) = unat dy * unat cols + unat x \<and>
    length (route_y cols x y dy) = gap y dy"
  using assms
proof (induction cols x y dy rule: route_y.induct)
  case (1 cols x y dy)
  show ?case
  proof (cases "y = dy")
    case True
    then show ?thesis by (simp add: route_y.simps [of cols x dy dy] gap_def)
  next
    case False
    let ?y = "step_towards y dy"
    note st = unat_step_towards [OF False]
    then have "unat ?y \<le> max (unat y) (unat dy)" by linarith
    then have "unat ?y * unat cols \<le> max (unat y) (unat dy) * unat cols" by (rule mult_le_mono1)
    moreover have "max (unat y) (unat dy) * unat cols + unat cols \<le> 2 ^ 32" using 1(3,4) by (simp add: max_def)
    ultimately have y: "unat ?y * unat cols + unat cols \<le> 2 ^ 32" by linarith
    have "unat (?y * cols + x) = unat ?y * unat cols + unat x" using y 1(2) by (intro unat_node) simp
    moreover have "manhattan (unat cols) (unat y * unat cols + unat x) (unat ?y * unat cols + unat x) = 1"
      by (rule manhattan_step_y [OF 1(2)]) (use st in linarith)
    moreover note 1(1) [OF False 1(2) y 1(4)]
    ultimately show ?thesis using False gap_step [OF False] by (simp add: route_y.simps [of cols x y dy])
  qed
qed

lemma computeRoute_spec:
  assumes "nc_topology c = MESH_2D" and "0 < nc_num_cols c"
    and "unat (nc_num_rows c) * unat (nc_num_cols c) \<le> 2 ^ 32"
    and "unat src < unat (nc_num_rows c) * unat (nc_num_cols c)" and "unat dst < unat (nc_num_rows c) * unat (nc_num_cols c)"
  shows "walk (unat (nc_num_cols c)) (map unat (computeRoute c src dst)) \<and> last (computeRoute c src dst) = dst \<and>
    length (computeRoute c src dst) = Suc (manhattan (unat (nc_num_cols c)) (unat src) (unat dst))"
proof -
  let ?C = "nc_num_cols c"
  let ?sx = "src mod ?C" and ?sy = "src div ?C" and ?dx = "dst mod ?C" and ?dy = "dst div ?C"
  have C: "0 < unat ?C" using assms(2) by (simp add: word_less_nat_alt)
  have row: "unat (n div ?C) * unat ?C + unat ?C \<le> 2 ^ 32" if "unat n < unat (nc_num_rows c) * unat ?C" for n
  proof -
    have "unat n div unat ?C < unat (nc_num_rows c)" using that C by (simp add: less_mult_imp_div_less)
    then have "Suc (unat n div unat ?C) * unat ?C \<le> unat (nc_num_rows c) * unat ?C" by (intro mult_le_mono1) simp
    then show ?thesis using assms(3) by (simp add: unat_div)
  qed
  have x: "unat (n mod ?C) < unat ?C" for n using C by (simp add: unat_mod)
  have src: "unat ?sy * unat ?C + unat ?sx = unat src" and dst: "unat ?dy * unat ?C + unat ?dx = unat dst" by (simp_all add: unat_div unat_mod)
  note X = route_x_spec [OF x x row [OF assms(4)], of src dst] and Y = route_y_spec [OF x row [OF assms(4)] row [OF assms(5)], of dst]
  have walk: "walk (unat ?C) (unat src # map unat (route_x ?C ?sy ?sx ?dx) @ map unat (route_y ?C ?dx ?sy ?dy))"
    using X Y src by (intro walk_append) simp_all
  have "last (unat src # map unat (route_x ?C ?sy ?sx ?dx) @ map unat (route_y ?C ?dx ?sy ?dy)) = unat dst"
    using X Y src dst by (cases "route_y ?C ?dx ?sy ?dy = []") (auto simp: last_append)
  moreover have r: "map unat (computeRoute c src dst) = unat src # map unat (route_x ?C ?sy ?sx ?dx) @ map unat (route_y ?C ?dx ?sy ?dy)"
    using assms(1) by (simp add: computeRoute_def Let_def)
  ultimately have "unat (last (computeRoute c src dst)) = unat dst" using last_map [of "computeRoute c src dst" unat] by force
  then have "last (computeRoute c src dst) = dst" by (rule unsigned_word_eqI)
  moreover have "int (gap ?sx ?dx + gap ?sy ?dy) = int (manhattan (unat ?C) (unat src) (unat dst))"
    by (simp add: gap_nat manhattan_def unat_div unat_mod)
  moreover have "length (computeRoute c src dst) = Suc (gap ?sx ?dx + gap ?sy ?dy)" using X Y assms(1) by (simp add: computeRoute_def Let_def)
  ultimately show ?thesis using walk by (simp only: r of_nat_eq_iff)
qed

text \<open>
  C28: On a mesh, \<^verbatim>\<open>computeRoute\<close> gives a route: it starts at the source, ends at the destination, goes from
  neighbour to neighbour, and no other walk from the source to the destination is shorter.
\<close>

theorem computeRoute_shortest:
  assumes "nc_topology c = MESH_2D" and "0 < nc_num_cols c"
    and "unat (nc_num_rows c) * unat (nc_num_cols c) \<le> 2 ^ 32"
    and "unat src < unat (nc_num_rows c) * unat (nc_num_cols c)" and "unat dst < unat (nc_num_rows c) * unat (nc_num_cols c)"
  shows "hd (computeRoute c src dst) = src \<and> last (computeRoute c src dst) = dst \<and>
    walk (unat (nc_num_cols c)) (map unat (computeRoute c src dst)) \<and>
    (\<forall>ns. walk (unat (nc_num_cols c)) ns \<and> ns \<noteq> [] \<and> hd ns = unat src \<and> last ns = unat dst \<longrightarrow>
       length (computeRoute c src dst) \<le> length ns)"
proof -
  note spec = computeRoute_spec [OF assms]
  have "length (computeRoute c src dst) \<le> length ns"
    if "walk (unat (nc_num_cols c)) ns" "ns \<noteq> []" "hd ns = unat src" "last ns = unat dst" for ns
    using that spec walk_length [of "unat (nc_num_cols c)" "hd ns" "tl ns"] by (cases ns) auto
  moreover have "hd (computeRoute c src dst) = src" by (simp add: computeRoute_def)
  ultimately show ?thesis using spec by blast
qed

text \<open>The configurations with which neither injecting nor routing a packet divides by zero.\<close>

definition divisors_ok :: "NetworkConfig \<Rightarrow> bool" where
  "divisors_ok c \<longleftrightarrow> nc_link_width_bytes c \<noteq> 0 \<and> (nc_topology c \<in> {MESH_2D, TORUS_2D} \<longrightarrow> nc_num_cols c \<noteq> 0)"

lemma divisors_default: "divisors_ok NetworkConfig_init"
  by (simp add: divisors_ok_def NetworkConfig_init_def)

text \<open>A line that sets the width to zero is accepted and leaves a configuration that traps.\<close>

lemma zero_width_accepted:
  assumes "key_value l = Some (''link_width_bytes'', v)" and "stoul32 v = Inr 0"
  shows "\<exists>c'. load_lines [l] c = Inr c' \<and> \<not> divisors_ok c'"
  using assms by (simp add: apply_setting_def divisors_ok_def)

text \<open>From one corner of a mesh of four rows and four columns to the opposite one.\<close>

theorem computeRoute_shortest_witness:
  "computeRoute NetworkConfig_init 0 15 = [0, 1, 2, 3, 7, 11, 15] \<and>
   walk 4 (map unat (computeRoute NetworkConfig_init 0 15)) \<and>
   length (computeRoute NetworkConfig_init 0 15) \<le> length [0, 1, 0, 4, 8, 12, 13, 14, 15 :: nat]"
proof -
  have r: "computeRoute NetworkConfig_init 0 15 = [0, 1, 2, 3, 7, 11, 15]" by code_simp
  have other: "walk 4 [0, 1, 0, 4, 8, 12, 13, 14, 15]" by code_simp
  have "walk 4 (map unat (computeRoute NetworkConfig_init 0 15)) \<and>
    (\<forall>ns. walk 4 ns \<and> ns \<noteq> [] \<and> hd ns = 0 \<and> last ns = 15 \<longrightarrow> length (computeRoute NetworkConfig_init 0 15) \<le> length ns)"
    using computeRoute_shortest [of NetworkConfig_init 0 15] by (simp add: NetworkConfig_init_def)
  then have "walk 4 (map unat (computeRoute NetworkConfig_init 0 15))"
    and "length (computeRoute NetworkConfig_init 0 15) \<le> length [0, 1, 0, 4, 8, 12, 13, 14, 15 :: nat]"
    using other by (blast, (metis last.simps list.distinct(1) list.sel(1)))
  then show ?thesis using r by blast
qed

section \<open>Queues\<close>

definition queue :: "u32 \<Rightarrow> queues \<Rightarrow> NetworkPacket list" where
  "queue n m = (case smap_find n m of None \<Rightarrow> [] | Some q \<Rightarrow> q)"

lemma queue_put [simp]: "queue n (smap_put k v m) = (if n = k then v else queue n m)"
  by (simp add: queue_def smap_find_put)

lemma eject_queue [simp]: "queue n (eject p e) = queue n e @ (if np_dst_node p = n then [p] else [])"
  by (simp add: eject_def queue_def smap_find_put)

lemma eject_ok [simp]: "smap_ok e \<Longrightarrow> smap_ok (eject p e)"
  by (simp add: eject_def smap_ok_put)

text \<open>The packets a cycle takes from a queue: its head, once the latency has passed.\<close>

definition ready :: "GarnetModel \<Rightarrow> NetworkPacket \<Rightarrow> bool" where
  "ready g p \<longleftrightarrow> np_inject_cycle p + network_latency (gm_config g) p \<le> gm_current_cycle g"

definition popped :: "GarnetModel \<Rightarrow> NetworkPacket list \<Rightarrow> NetworkPacket list" where
  "popped g q = takeWhile (ready g) (take 1 q)"

lemma popped_simps [simp]: "popped g [] = []" "popped g (p # q) = (if ready g p then [p] else [])"
  by (simp_all add: popped_def)

lemma popped_append: "popped g q @ drop (length (popped g q)) q = q"
  by (cases q) auto

lemma popped_subset: "set (popped g q) \<subseteq> set q"
  by (cases q) auto

lemma popped_cong: "gm_config g = gm_config h \<Longrightarrow> gm_current_cycle g = gm_current_cycle h \<Longrightarrow> popped g = popped h"
  by (rule ext) (simp add: popped_def ready_def [abs_def])

lemma tick_queue_fields [simp]:
  "gm_config (tick_queue g e) = gm_config g" "gm_current_cycle (tick_queue g e) = gm_current_cycle g"
  "gm_nodes (tick_queue g e) = gm_nodes g" "gm_stats (tick_queue g e) = gm_stats g"
  "gm_callback (tick_queue g e) = gm_callback g" "gm_called (tick_queue g e) = gm_called g"
  by (simp_all add: tick_queue_def split: list.split)

lemma tick_queue_effect:
  assumes "queue n (gm_injection g) = q"
  shows "queue m (gm_injection (tick_queue g (n, q))) = (if m = n then drop (length (popped g q)) q else queue m (gm_injection g))"
    and "queue d (gm_ejection (tick_queue g (n, q))) = queue d (gm_ejection g) @ filter (\<lambda>p. np_dst_node p = d) (popped g q)"
    and "smap_ok (gm_injection g) \<Longrightarrow> smap_ok (gm_injection (tick_queue g (n, q)))"
    and "smap_ok (gm_ejection g) \<Longrightarrow> smap_ok (gm_ejection (tick_queue g (n, q)))"
  using assms by (auto simp: tick_queue_def ready_def smap_ok_put split: list.split)

lemma tick_queues_effect:
  assumes "distinct (map fst es)" and "\<forall>(n, q)\<in>set es. queue n (gm_injection g) = q"
    and "smap_ok (gm_injection g)" and "smap_ok (gm_ejection g)"
  shows "gm_config (foldl tick_queue g es) = gm_config g \<and> gm_current_cycle (foldl tick_queue g es) = gm_current_cycle g \<and>
    gm_nodes (foldl tick_queue g es) = gm_nodes g \<and> gm_stats (foldl tick_queue g es) = gm_stats g \<and>
    gm_callback (foldl tick_queue g es) = gm_callback g \<and> gm_called (foldl tick_queue g es) = gm_called g \<and>
    smap_ok (gm_injection (foldl tick_queue g es)) \<and> smap_ok (gm_ejection (foldl tick_queue g es)) \<and>
    (\<forall>m. queue m (gm_injection (foldl tick_queue g es)) =
       (if m \<in> fst ` set es then drop (length (popped g (queue m (gm_injection g)))) (queue m (gm_injection g)) else queue m (gm_injection g))) \<and>
    (\<forall>d. queue d (gm_ejection (foldl tick_queue g es)) =
       queue d (gm_ejection g) @ filter (\<lambda>p. np_dst_node p = d) (concat (map (\<lambda>e. popped g (snd e)) es)))"
  using assms
proof (induction es arbitrary: g)
  case (Cons e es)
  obtain n q where e: "e = (n, q)" by (cases e)
  let ?g = "tick_queue g e"
  have q: "queue n (gm_injection g) = q" using Cons.prems(2) e by simp
  have pc: "popped ?g = popped g" by (rule popped_cong) simp_all
  have agree: "\<forall>(m, r)\<in>set es. queue m (gm_injection ?g) = r"
    using Cons.prems(1,2) tick_queue_effect(1) [OF q] e by force
  have "distinct (map fst es)" using Cons.prems(1) by simp
  note IH = Cons.IH [OF this agree, unfolded pc]
  show ?case
    using IH tick_queue_effect [OF q] Cons.prems e by (auto simp: q)
qed simp

lemma queue_entry: "smap_ok m \<Longrightarrow> (n, q) \<in> set m \<Longrightarrow> queue n m = q"
  by (simp add: queue_def smap_find_entry [symmetric])

lemma queue_absent: "n \<notin> fst ` set m \<Longrightarrow> queue n m = []"
  by (simp add: queue_def smap_find_None [symmetric])

lemma garnet_tick_effect:
  assumes "smap_ok (gm_injection g)" and "smap_ok (gm_ejection g)"
  defines "h \<equiv> g\<lparr>gm_current_cycle := gm_current_cycle g + 1\<rparr>"
  shows "gm_config (garnet_tick g) = gm_config g" and "gm_current_cycle (garnet_tick g) = gm_current_cycle g + 1"
    and "gm_nodes (garnet_tick g) = gm_nodes g" and "gm_stats (garnet_tick g) = gm_stats g"
    and "gm_callback (garnet_tick g) = gm_callback g" and "gm_called (garnet_tick g) = gm_called g"
    and "smap_ok (gm_injection (garnet_tick g))" and "smap_ok (gm_ejection (garnet_tick g))"
    and "queue m (gm_injection (garnet_tick g)) = drop (length (popped h (queue m (gm_injection g)))) (queue m (gm_injection g))"
    and "queue d (gm_ejection (garnet_tick g)) =
      queue d (gm_ejection g) @ filter (\<lambda>p. np_dst_node p = d) (concat (map (\<lambda>e. popped h (snd e)) (gm_injection g)))"
proof -
  have es: "distinct (map fst (gm_injection h))" "\<forall>(n, q)\<in>set (gm_injection h). queue n (gm_injection h) = q"
      "smap_ok (gm_injection h)" "smap_ok (gm_ejection h)"
    using assms(1,2) queue_entry by (auto simp: h_def smap_ok_distinct)
  note fx = tick_queues_effect [OF es]
  have t: "garnet_tick g = (foldl tick_queue h (gm_injection h))
      \<lparr>gm_router_energy := gm_router_energy (garnet_tick g), gm_link_energy := gm_link_energy (garnet_tick g)\<rparr>"
    by (simp add: garnet_tick_def h_def Let_def)
  show "gm_config (garnet_tick g) = gm_config g" "gm_current_cycle (garnet_tick g) = gm_current_cycle g + 1"
    "gm_nodes (garnet_tick g) = gm_nodes g" "gm_stats (garnet_tick g) = gm_stats g"
    "gm_callback (garnet_tick g) = gm_callback g" "gm_called (garnet_tick g) = gm_called g"
    "smap_ok (gm_injection (garnet_tick g))" "smap_ok (gm_ejection (garnet_tick g))"
    by (subst t; use fx in \<open>simp add: h_def\<close>)+
  show "queue m (gm_injection (garnet_tick g)) = drop (length (popped h (queue m (gm_injection g)))) (queue m (gm_injection g))"
    by (subst t) (use fx queue_absent in \<open>auto simp: h_def\<close>)
  show "queue d (gm_ejection (garnet_tick g)) =
      queue d (gm_ejection g) @ filter (\<lambda>p. np_dst_node p = d) (concat (map (\<lambda>e. popped h (snd e)) (gm_injection g)))"
    by (subst t) (use fx in \<open>auto simp: h_def\<close>)
qed

section \<open>Channels between nodes\<close>

text \<open>
  What the client may rely on: each pair of nodes has a first-in first-out channel. \<open>channel g s d\<close> are the packets
  on their way from \<open>s\<close> to \<open>d\<close>, the oldest first, whether they have been ejected already or not.
\<close>

definition channel :: "GarnetModel \<Rightarrow> u32 \<Rightarrow> u32 \<Rightarrow> NetworkPacket list" where
  "channel g s d =
     filter (\<lambda>p. np_src_node p = s) (queue d (gm_ejection g)) @ filter (\<lambda>p. np_dst_node p = d) (queue s (gm_injection g))"

definition garnet_ok :: "GarnetModel \<Rightarrow> bool" where
  "garnet_ok g \<longleftrightarrow> smap_ok (gm_injection g) \<and> smap_ok (gm_ejection g) \<and>
     (\<forall>n. length (queue n (gm_injection g)) \<le> unat (nc_input_buffer_depth (gm_config g))) \<and>
     (\<forall>n. \<forall>p\<in>set (queue n (gm_injection g)). np_src_node p = n) \<and>
     (\<forall>n. \<forall>p\<in>set (queue n (gm_ejection g)).
        np_dst_node p = n \<and> np_inject_cycle p + network_latency (gm_config g) p \<le> gm_current_cycle g)"

lemma garnet_okD:
  assumes "garnet_ok g"
  shows "smap_ok (gm_injection g)" "smap_ok (gm_ejection g)"
    "length (queue n (gm_injection g)) \<le> unat (nc_input_buffer_depth (gm_config g))"
    "p \<in> set (queue n (gm_injection g)) \<Longrightarrow> np_src_node p = n"
    "p \<in> set (queue n (gm_ejection g)) \<Longrightarrow> np_dst_node p = n \<and> np_inject_cycle p + network_latency (gm_config g) p \<le> gm_current_cycle g"
  using assms by (auto simp: garnet_ok_def)

lemma filter_popped:
  assumes "distinct (map fst es)" and "\<forall>(n, q)\<in>set es. \<forall>p\<in>set q. np_src_node p = n"
  shows "filter (\<lambda>p. np_src_node p = s) (concat (map (\<lambda>e. popped g (snd e)) es)) = popped g (queue s es)"
  using assms
proof (induction es)
  case (Cons e es)
  obtain n q where e: "e = (n, q)" by (cases e)
  have own: "filter (\<lambda>p. np_src_node p = s) (popped g q) = (if s = n then popped g q else [])"
    using Cons.prems(2) popped_subset [of g q] by (auto simp: e filter_empty_conv intro!: filter_True)
  have "n \<notin> fst ` set es" using Cons.prems(1) e by simp
  moreover have IH: "filter (\<lambda>p. np_src_node p = s) (concat (map (\<lambda>e. popped g (snd e)) es)) = popped g (queue s es)"
    using Cons by simp
  ultimately show ?case using own queue_absent [of n es] by (auto simp: e queue_def smap_find_def)
qed (simp add: queue_def)

lemma channel_tick:
  assumes "garnet_ok g"
  shows "channel (garnet_tick g) s d = channel g s d"
proof -
  let ?h = "g\<lparr>gm_current_cycle := gm_current_cycle g + 1\<rparr>"
  note ok = garnet_okD [OF assms]
  have "filter (\<lambda>p. np_src_node p = s) (concat (map (\<lambda>e. popped ?h (snd e)) (gm_injection g))) = popped ?h (queue s (gm_injection g))"
    using ok(4) queue_entry [OF ok(1)] by (intro filter_popped smap_ok_distinct ok(1)) auto
  then have "filter (\<lambda>p. np_src_node p = s) (filter (\<lambda>p. np_dst_node p = d) (concat (map (\<lambda>e. popped ?h (snd e)) (gm_injection g)))) =
      filter (\<lambda>p. np_dst_node p = d) (popped ?h (queue s (gm_injection g)))"
    by (simp add: filter_filter conj_commute flip: \<open>filter _ _ = popped ?h _\<close>)
  moreover have "filter (\<lambda>p. np_dst_node p = d) (popped ?h q) @ filter (\<lambda>p. np_dst_node p = d) (drop (length (popped ?h q)) q) = filter (\<lambda>p. np_dst_node p = d) q" for q
    by (metis filter_append popped_append)
  ultimately show ?thesis unfolding channel_def garnet_tick_effect(9,10) [OF ok(1,2)] by simp
qed

lemma garnet_ok_tick:
  assumes "garnet_ok g" and "gm_current_cycle g + 1 \<noteq> 0"
  shows "garnet_ok (garnet_tick g)"
proof -
  let ?h = "g\<lparr>gm_current_cycle := gm_current_cycle g + 1\<rparr>"
  note ok = garnet_okD [OF assms(1)] and fx = garnet_tick_effect [OF garnet_okD(1,2) [OF assms(1)]]
  have later: "w \<le> gm_current_cycle g \<Longrightarrow> w \<le> gm_current_cycle g + 1" for w
    using assms(2) unatSuc [of "gm_current_cycle g"] by (simp add: word_le_nat_alt add.commute)
  have "length (queue n (gm_injection (garnet_tick g))) \<le> length (queue n (gm_injection g))" for n unfolding fx(9) by simp
  then have "length (queue n (gm_injection (garnet_tick g))) \<le> unat (nc_input_buffer_depth (gm_config g))" for n
    using ok(3) order_trans by blast
  moreover have "np_src_node p = n" if "p \<in> set (queue n (gm_injection (garnet_tick g)))" for n p
    using that ok(4) unfolding fx(9) by (meson in_set_dropD)
  moreover have "np_dst_node p = n \<and> np_inject_cycle p + network_latency (gm_config g) p \<le> gm_current_cycle g + 1"
    if "p \<in> set (queue n (gm_ejection (garnet_tick g)))" for n p
  proof -
    consider "p \<in> set (queue n (gm_ejection g))" | q where "p \<in> set (popped ?h q)" "np_dst_node p = n"
      using \<open>p \<in> _\<close> unfolding fx(10) by auto
    then show ?thesis
    proof cases
      case 1
      then show ?thesis using ok(5) later by blast
    next
      case 2
      then show ?thesis by (cases q) (auto simp: ready_def split: if_splits)
    qed
  qed
  ultimately show ?thesis using fx(1,2,7,8) by (simp add: garnet_ok_def)
qed

lemma inject_effect:
  assumes "canInject g (np_src_node p)"
  shows "queue n (gm_injection (injectPacket p g)) =
      queue n (gm_injection g) @ (if n = np_src_node p then [p\<lparr>np_inject_cycle := gm_current_cycle g\<rparr>] else [])"
    and "gm_ejection (injectPacket p g) = gm_ejection g" and "gm_config (injectPacket p g) = gm_config g"
    and "gm_current_cycle (injectPacket p g) = gm_current_cycle g"
    and "smap_ok (gm_injection g) \<Longrightarrow> smap_ok (gm_injection (injectPacket p g))"
    and "length (queue (np_src_node p) (gm_injection g)) < unat (nc_input_buffer_depth (gm_config g))"
  using assms by (auto simp: injectPacket_def canInject_def Let_def smap_ok_put queue_def smap_find_put split: option.splits)

lemma garnet_ok_inject:
  assumes "garnet_ok g"
  shows "garnet_ok (injectPacket p g)"
proof (cases "canInject g (np_src_node p)")
  case True
  note fx = inject_effect [OF True]
  show ?thesis using garnet_okD [OF assms] fx by (auto simp: garnet_ok_def Suc_le_eq)
next
  case False
  then show ?thesis using assms by (simp add: injectPacket_def)
qed

lemma channel_inject:
  assumes "canInject g (np_src_node p)"
  shows "channel (injectPacket p g) s d = channel g s d @
    (if s = np_src_node p \<and> d = np_dst_node p then [p\<lparr>np_inject_cycle := gm_current_cycle g\<rparr>] else [])"
  using inject_effect(1,2) [OF assms] by (auto simp: channel_def)

lemma extract_effect:
  assumes "hasArrived g n" and "ns_total_packets (gm_stats g) \<noteq> 0"
  obtains p g' where "extractPacket n g = Some (p, g')" and "queue n (gm_ejection g) = p # queue n (gm_ejection g')"
    and "gm_injection g' = gm_injection g" and "gm_config g' = gm_config g" and "gm_current_cycle g' = gm_current_cycle g"
    and "\<And>m. m \<noteq> n \<Longrightarrow> queue m (gm_ejection g') = queue m (gm_ejection g)"
    and "smap_ok (gm_ejection g) \<Longrightarrow> smap_ok (gm_ejection g')"
proof -
  obtain p q where q: "smap_find n (gm_ejection g) = Some (p # q)"
    using assms(1) by (auto simp: hasArrived_def neq_Nil_conv split: option.splits)
  let ?g1 = "g\<lparr>gm_ejection := smap_put n q (gm_ejection g)\<rparr>"
  obtain g2 where g2: "updateStatistics (gm_current_cycle g - np_inject_cycle p) ?g1 = Some g2"
      "gm_injection g2 = gm_injection g" "gm_config g2 = gm_config g" "gm_current_cycle g2 = gm_current_cycle g"
      "gm_ejection g2 = smap_put n q (gm_ejection g)"
    using assms(2) by (simp add: updateStatistics_def Let_def)
  show thesis
  proof (rule that [of p "if gm_callback g2 then g2\<lparr>gm_called := gm_called g2 @ [p]\<rparr> else g2"])
    show "extractPacket n g = Some (p, if gm_callback g2 then g2\<lparr>gm_called := gm_called g2 @ [p]\<rparr> else g2)"
      using q g2(1) by (simp add: extractPacket_def)
  qed (use q g2 in \<open>auto simp: queue_def smap_find_put smap_ok_put\<close>)
qed

lemma garnet_ok_extract:
  assumes "garnet_ok g" and "queue n (gm_ejection g) = p # queue n (gm_ejection g')" and "gm_injection g' = gm_injection g"
    and "gm_config g' = gm_config g" and "gm_current_cycle g' = gm_current_cycle g"
    and "\<And>m. m \<noteq> n \<Longrightarrow> queue m (gm_ejection g') = queue m (gm_ejection g)" and "smap_ok (gm_ejection g')"
  shows "garnet_ok g'"
proof -
  have "set (queue m (gm_ejection g')) \<subseteq> set (queue m (gm_ejection g))" for m using assms(2,6) by (cases "m = n") auto
  then show ?thesis using garnet_okD [OF assms(1)] assms(3-5,7) by (simp add: garnet_ok_def) blast
qed

text \<open>
  C26: \<^verbatim>\<open>GarnetModel\<close> implements first-in first-out channels between its nodes. An accepted packet goes to the end of
  the channel from its source to its destination and a refused one changes nothing; a cycle changes
  no channel; a packet that is taken is the oldest one of its channel, is at its destination, and
  has spent the latency of its route in the network. All operations keep the invariant, in which no
  injection queue holds more packets than the buffer depth.
\<close>

theorem garnet_refines_channels:
  assumes "garnet_ok g" and "gm_current_cycle g + 1 \<noteq> 0"
  shows "garnet_ok (injectPacket p g) \<and> garnet_ok (garnet_tick g) \<and> channel (garnet_tick g) = channel g \<and>
    (if canInject g (np_src_node p)
     then channel (injectPacket p g) = (channel g)(np_src_node p := (channel g (np_src_node p))
       (np_dst_node p := channel g (np_src_node p) (np_dst_node p) @ [p\<lparr>np_inject_cycle := gm_current_cycle g\<rparr>]))
     else injectPacket p g = g) \<and>
    (hasArrived g n \<and> ns_total_packets (gm_stats g) \<noteq> 0 \<longrightarrow>
      (\<exists>q g'. extractPacket n g = Some (q, g') \<and> garnet_ok g' \<and> np_dst_node q = n \<and>
         np_inject_cycle q + network_latency (gm_config g) q \<le> gm_current_cycle g \<and>
         channel g = (channel g')(np_src_node q := (channel g' (np_src_node q))(n := q # channel g' (np_src_node q) n))))"
proof -
  have "channel (garnet_tick g) = channel g" using channel_tick [OF assms(1)] by (intro ext)
  moreover have "channel (injectPacket p g) = (channel g)(np_src_node p := (channel g (np_src_node p))
      (np_dst_node p := channel g (np_src_node p) (np_dst_node p) @ [p\<lparr>np_inject_cycle := gm_current_cycle g\<rparr>]))"
    if "canInject g (np_src_node p)" using channel_inject [OF that] by (intro ext) simp
  moreover have "\<exists>q g'. extractPacket n g = Some (q, g') \<and> garnet_ok g' \<and> np_dst_node q = n \<and>
      np_inject_cycle q + network_latency (gm_config g) q \<le> gm_current_cycle g \<and>
      channel g = (channel g')(np_src_node q := (channel g' (np_src_node q))(n := q # channel g' (np_src_node q) n))"
    if arr: "hasArrived g n" and cnt: "ns_total_packets (gm_stats g) \<noteq> 0"
  proof -
    obtain q g' where ex: "extractPacket n g = Some (q, g')" "queue n (gm_ejection g) = q # queue n (gm_ejection g')"
        "gm_injection g' = gm_injection g" "gm_config g' = gm_config g" "gm_current_cycle g' = gm_current_cycle g"
        "\<And>m. m \<noteq> n \<Longrightarrow> queue m (gm_ejection g') = queue m (gm_ejection g)" "smap_ok (gm_ejection g')"
      using extract_effect [OF arr cnt] garnet_okD(2) [OF assms(1)] by metis
    have "channel g x y = ((channel g')(np_src_node q := (channel g' (np_src_node q))(n := q # channel g' (np_src_node q) n))) x y" for x y
      using ex(2,3,6) by (cases "y = n") (auto simp: channel_def)
    then have "channel g = (channel g')(np_src_node q := (channel g' (np_src_node q))(n := q # channel g' (np_src_node q) n))"
      by (intro ext)
    then show ?thesis using ex(1) garnet_ok_extract [OF assms(1) ex(2-7)] garnet_okD(5) [OF assms(1), of q n] ex(2) by auto
  qed
  ultimately show ?thesis using garnet_ok_tick [OF assms] garnet_ok_inject [OF assms(1)] by (auto simp: injectPacket_def)
qed

section \<open>Delivery\<close>

lemma ticks_ok:
  assumes "garnet_ok g" and "unat (gm_current_cycle g) + k < 2 ^ 64"
  shows "garnet_ok ((garnet_tick ^^ k) g) \<and> unat (gm_current_cycle ((garnet_tick ^^ k) g)) = unat (gm_current_cycle g) + k \<and>
    gm_config ((garnet_tick ^^ k) g) = gm_config g \<and> channel ((garnet_tick ^^ k) g) = channel g"
  using assms(2)
proof (induction k)
  case 0
  then show ?case using assms(1) by simp
next
  case (Suc k)
  let ?g = "(garnet_tick ^^ k) g"
  have IH: "garnet_ok ?g" "unat (gm_current_cycle ?g) = unat (gm_current_cycle g) + k" "gm_config ?g = gm_config g" "channel ?g = channel g"
    using Suc by auto
  have u: "unat (gm_current_cycle ?g + 1) = Suc (unat (gm_current_cycle ?g))"
    using IH(2) Suc.prems by (simp add: unat_word_ariths)
  then have "gm_current_cycle ?g + 1 \<noteq> 0" by auto
  moreover have "channel (garnet_tick ?g) = channel ?g" using channel_tick [OF IH(1)] by (intro ext)
  ultimately show ?case using garnet_ok_tick [OF IH(1)] garnet_tick_effect(1,2) [OF garnet_okD(1,2) [OF IH(1)]] IH u by simp
qed

lemma ticks_drain:
  assumes "garnet_ok g" and "unat (gm_current_cycle g) + k < 2 ^ 64"
    and "\<forall>p\<in>set (queue n (gm_injection g)). unat (np_inject_cycle p + network_latency (gm_config g) p) \<le> T"
  shows "set (queue n (gm_injection ((garnet_tick ^^ k) g))) \<subseteq> set (queue n (gm_injection g)) \<and>
    length (queue n (gm_injection ((garnet_tick ^^ k) g))) \<le> length (queue n (gm_injection g)) - (k - (T - unat (gm_current_cycle g)))"
  using assms(2)
proof (induction k)
  case (Suc k)
  let ?g = "(garnet_tick ^^ k) g"
  let ?h = "?g\<lparr>gm_current_cycle := gm_current_cycle ?g + 1\<rparr>"
  let ?q = "queue n (gm_injection ?g)"
  have g: "garnet_ok ?g" "unat (gm_current_cycle ?g) = unat (gm_current_cycle g) + k" "gm_config ?g = gm_config g"
    using ticks_ok [OF assms(1), of k] Suc.prems by auto
  have q: "queue n (gm_injection ((garnet_tick ^^ Suc k) g)) = drop (length (popped ?h ?q)) ?q"
    using garnet_tick_effect(9) [OF garnet_okD(1,2) [OF g(1)]] by simp
  have u: "unat (gm_current_cycle ?g + 1) = unat (gm_current_cycle g) + Suc k" using g(2) Suc.prems by (simp add: unat_word_ariths)
  have sub: "set ?q \<subseteq> set (queue n (gm_injection g))" using Suc by simp
  have "popped ?h ?q = [hd ?q]" if "T \<le> unat (gm_current_cycle g) + Suc k" "?q \<noteq> []"
    using that sub assms(3) u g(3) by (cases ?q) (auto simp: ready_def word_le_nat_alt)
  then have "length (drop (length (popped ?h ?q)) ?q) \<le> length (queue n (gm_injection g)) - (Suc k - (T - unat (gm_current_cycle g)))"
    using Suc by (cases "T \<le> unat (gm_current_cycle g) + Suc k"; cases "?q = []") auto
  moreover have "set (drop (length (popped ?h ?q)) ?q) \<subseteq> set (queue n (gm_injection g))"
    using sub set_drop_subset by fastforce
  ultimately show ?case unfolding q by simp
qed simp

text \<open>
  C27: Every packet is delivered. If all packets that wait are due by cycle \<open>T\<close>, then after at most
  \<open>T\<close> minus the current cycle plus the buffer depth cycles all injection queues are empty, and the
  ejection queue of each node holds, source by source, all the packets sent to it, in the order in which they were sent.
\<close>

theorem garnet_delivers:
  assumes "garnet_ok g" and "\<forall>n. \<forall>p\<in>set (queue n (gm_injection g)). unat (np_inject_cycle p + network_latency (gm_config g) p) \<le> T"
    and "T - unat (gm_current_cycle g) + unat (nc_input_buffer_depth (gm_config g)) \<le> k" and "unat (gm_current_cycle g) + k < 2 ^ 64"
  shows "queue n (gm_injection ((garnet_tick ^^ k) g)) = [] \<and>
    filter (\<lambda>p. np_src_node p = s) (queue d (gm_ejection ((garnet_tick ^^ k) g))) = channel g s d"
proof -
  have empty: "queue m (gm_injection ((garnet_tick ^^ k) g)) = []" for m
    using ticks_drain [OF assms(1,4), of m T] assms(2,3) garnet_okD(3) [OF assms(1), of m] by fastforce
  have "channel ((garnet_tick ^^ k) g) s d = channel g s d" using ticks_ok [OF assms(1,4)] by simp
  then show ?thesis using empty by (simp add: channel_def)
qed

section \<open>Construction\<close>

lemma queue_Nil [simp]: "queue n [] = []"
  by (simp add: queue_def)

lemma garnet_ok_init [simp]: "garnet_ok (GarnetModel_init c)"
  by (simp add: garnet_ok_def GarnetModel_init_def)

lemma garnet_ok_addNode [simp]: "garnet_ok g \<Longrightarrow> garnet_ok (addNode n g)"
  by (auto simp: garnet_ok_def addNode_def smap_ok_put)

lemma garnet_ok_initialize: "garnet_ok g \<Longrightarrow> garnet_ok (garnet_initialize g)"
proof -
  have "garnet_ok g \<Longrightarrow> garnet_ok (foldl (\<lambda>g i. addNode (f i) g) g is)" for f :: "nat \<Rightarrow> _" and "is"
    by (induction "is" arbitrary: g) auto
  then show "garnet_ok g \<Longrightarrow> garnet_ok (garnet_initialize g)" by (simp add: garnet_initialize_def split: NetworkTopology.split)
qed

definition sample_garnet :: GarnetModel where
  "sample_garnet = addNode (NetworkNode_make 1 PE_SUBARRAY 1) (addNode (NetworkNode_make 0 PE_SUBARRAY 0)
     (GarnetModel_init (NetworkConfig_init\<lparr>nc_topology := CROSSBAR\<rparr>)))"

definition sample_packet :: NetworkPacket where
  "sample_packet = NetworkPacket_make 0 1 DATA 64 7 0"

lemma sample_garnet_ok: "garnet_ok sample_garnet"
  by (simp add: sample_garnet_def)

lemma sample_garnet_fields:
  "gm_current_cycle sample_garnet = 0" "canInject sample_garnet 0" "channel sample_garnet s d = []"
  "gm_config sample_garnet = NetworkConfig_init\<lparr>nc_topology := CROSSBAR\<rparr>" "queue n (gm_injection sample_garnet) = []"
  by (simp_all add: sample_garnet_def addNode_def NetworkNode_make_def GarnetModel_init_def canInject_def channel_def
      NetworkConfig_init_def smap_find_def queue_def)

theorem garnet_refines_channels_witness:
  "garnet_ok sample_garnet \<and> channel (injectPacket sample_packet sample_garnet) 0 1 = [sample_packet]"
  using garnet_refines_channels [OF sample_garnet_ok, of sample_packet]
  by (simp add: sample_garnet_ok sample_garnet_fields sample_packet_def NetworkPacket_make_def)

text \<open>One hop takes one cycle; after five cycles, one packet and a buffer of four are done.\<close>

theorem garnet_delivers_witness:
  "queue 0 (gm_injection ((garnet_tick ^^ 5) (injectPacket sample_packet sample_garnet))) = [] \<and>
   filter (\<lambda>p. np_src_node p = 0) (queue 1 (gm_ejection ((garnet_tick ^^ 5) (injectPacket sample_packet sample_garnet)))) = [sample_packet]"
proof -
  let ?g = "injectPacket sample_packet sample_garnet"
  have can: "canInject sample_garnet (np_src_node sample_packet)"
    by (simp add: sample_garnet_fields sample_packet_def NetworkPacket_make_def)
  have p: "sample_packet\<lparr>np_inject_cycle := 0\<rparr> = sample_packet" "np_inject_cycle sample_packet = 0" "np_src_node sample_packet = 0" "np_dst_node sample_packet = 1"
    by (simp_all add: sample_packet_def NetworkPacket_make_def)
  note fx = inject_effect [OF can]
  have lat: "network_latency (NetworkConfig_init\<lparr>nc_topology := CROSSBAR\<rparr>) sample_packet = 1" by code_simp
  have "queue n (gm_injection ?g) = (if n = 0 then [sample_packet] else [])" for n using fx(1) by (simp add: sample_garnet_fields p)
  then have due: "\<forall>n. \<forall>p\<in>set (queue n (gm_injection ?g)). unat (np_inject_cycle p + network_latency (gm_config ?g) p) \<le> 1"
    by (simp add: fx(3) sample_garnet_fields p lat)
  have "channel ?g 0 1 = [sample_packet]" using channel_inject [OF can] by (simp add: sample_garnet_fields p)
  moreover have "1 - unat (gm_current_cycle ?g) + unat (nc_input_buffer_depth (gm_config ?g)) \<le> 5" "unat (gm_current_cycle ?g) + 5 < 2 ^ 64"
    by (simp_all add: fx(3,4) sample_garnet_fields NetworkConfig_init_def)
  ultimately show ?thesis
    using garnet_delivers [OF garnet_ok_inject [OF sample_garnet_ok] due, of 5 0 0 1] by simp
qed

section \<open>Statistics\<close>

text \<open>
  The division of the average is by the number of injected packets. After \<^verbatim>\<open>resetStats\<close>, with a packet
  waiting to be taken, it is a division by zero.
\<close>

lemma extract_after_reset_traps: "hasArrived g n \<Longrightarrow> extractPacket n (garnet_resetStats g) = None"
  by (auto simp: hasArrived_def extractPacket_def garnet_resetStats_def updateStatistics_def NetworkStats_init_def neq_Nil_conv
      split: option.splits list.splits)

text \<open>Two packets injected before the first is taken, with a latency of one cycle each, are reported with an average of zero.\<close>

lemma average_latency_wrong:
  assumes "ns_total_packets (gm_stats g) = 2" and "ns_avg_packet_latency (gm_stats g) = 0"
  shows "map_option (\<lambda>g. ns_avg_packet_latency (gm_stats g)) (Option.bind (updateStatistics 1 g) (updateStatistics 1)) = Some 0"
  using assms by (simp add: updateStatistics_def Let_def)

end
