(* ===== verification/Mem_Hierarchy.thy ===== *)
theory Mem_Hierarchy
  imports Garnet_Model "HOL-Library.Signed_Division"
begin

text \<open>
  The hierarchy of the in-memory network (src/memory/internal_dram_network.cpp and its header): seven
  levels from the subarrays of a bank to the system, the bridges between adjacent levels, the tables of the
  memory technologies, and the construction of the network. An \<^verbatim>\<open>int\<close> is an integer, divided with
  truncation; no value gets near its width. \<^verbatim>\<open>std::invalid_argument\<close> is \<open>Inl\<close>. The data rate that the
  memory wrapper gives for DDR5 is the argument \<open>grade\<close>. A callback is a number, and calling it writes the number down.
\<close>

section \<open>Data\<close>

datatype MemoryTechnology =
  DDR3 | DDR4 | DDR5 | LPDDR5 | GDDR6 | HBM2 | HBM3 | SRAM | STT_MRAM | PCM | ReRAM | UNKNOWN

datatype NetworkLevel =
  SUBARRAY_NETWORK | BANK_NETWORK | BANK_GROUP_NETWORK | CHIP_NETWORK | RANK_NETWORK | CHANNEL_NETWORK | SYSTEM_NETWORK

datatype NetworkModelType = NM_SIMPLE | NM_DETAILED | NM_AUTO

datatype TopologyType = TT_BUS | TT_CROSSBAR | TT_MESH_2D | TT_TORUS_2D | TT_FAT_TREE | TT_H_TREE | TT_CUSTOM

record InternalNetworkLink =
  il_link_width_bits :: int
  il_frequency_GHz :: double
  il_bandwidth_GBs :: double
  il_latency_cycles :: int
  il_source_id :: int
  il_dest_id :: int
  il_topology :: string
  il_router_latency :: int
  il_router_pipeline :: int
  il_router_bypass :: bool
  il_virtual_networks :: int
  il_virtual_channels_per_vn :: int
  il_input_buffer_depth :: int
  il_output_buffer_depth :: int
  il_num_nodes :: int

definition InternalNetworkLink_init :: InternalNetworkLink where
  "InternalNetworkLink_init =
     \<lparr>il_link_width_bits = 64, il_frequency_GHz = 1, il_bandwidth_GBs = 8, il_latency_cycles = 2, il_source_id = 0, il_dest_id = 0,
      il_topology = ''crossbar'', il_router_latency = 1, il_router_pipeline = 3, il_router_bypass = True,
      il_virtual_networks = 2, il_virtual_channels_per_vn = 1, il_input_buffer_depth = 2, il_output_buffer_depth = 2,
      il_num_nodes = 2\<rparr>"

record InternalNetworkPacket =
  ip_packet_id :: u64
  ip_source_bank :: int
  ip_dest_bank :: int
  ip_source_subarray :: int
  ip_dest_subarray :: int
  ip_data_bytes :: u64
  ip_injection_time :: u64
  ip_completion_time :: u64
  ip_completed :: bool
  ip_callback :: "nat option"

record HierarchicalAddress =
  ha_subarray :: int
  ha_bank :: int
  ha_bank_group :: int
  ha_chip :: int
  ha_rank :: int
  ha_channel :: int
  ha_system :: int

record BridgeConfig =
  br_lower_width_bits :: int
  br_lower_frequency_mhz :: double
  br_fifo_depth :: int
  br_upper_width_bits :: int
  br_upper_frequency_mhz :: double
  br_latency_ns :: double
  br_count :: int
  br_model :: NetworkModelType
  br_router_latency :: int
  br_router_pipeline :: int
  br_router_bypass :: bool
  br_virtual_networks :: int
  br_virtual_channels_per_vn :: int
  br_input_buffer_depth :: int
  br_output_buffer_depth :: int

text \<open>Aggregate initialisation of the first seven members; the others have their defaults.\<close>

definition BridgeConfig_make :: "int \<Rightarrow> double \<Rightarrow> int \<Rightarrow> int \<Rightarrow> double \<Rightarrow> double \<Rightarrow> int \<Rightarrow> BridgeConfig" where
  "BridgeConfig_make lw lf fifo uw uf ns cnt =
     \<lparr>br_lower_width_bits = lw, br_lower_frequency_mhz = lf, br_fifo_depth = fifo, br_upper_width_bits = uw,
      br_upper_frequency_mhz = uf, br_latency_ns = ns, br_count = cnt, br_model = NM_AUTO, br_router_latency = 1,
      br_router_pipeline = 3, br_router_bypass = True, br_virtual_networks = 2, br_virtual_channels_per_vn = 1,
      br_input_buffer_depth = 2, br_output_buffer_depth = 2\<rparr>"

record NetworkLevelConfig =
  nl_level :: int
  nl_topology :: TopologyType
  nl_num_switches :: int
  nl_ports_per_switch :: int
  nl_num_endpoints :: int
  nl_use_default :: bool
  nl_model :: NetworkModelType

definition NetworkLevelConfig_init :: NetworkLevelConfig where
  "NetworkLevelConfig_init =
     \<lparr>nl_level = 0, nl_topology = TT_CROSSBAR, nl_num_switches = 1, nl_ports_per_switch = 0, nl_num_endpoints = 0,
      nl_use_default = True, nl_model = NM_SIMPLE\<rparr>"

record SwitchHierarchyConfig =
  sh_levels :: "NetworkLevelConfig list"
  sh_technology :: MemoryTechnology
  sh_num_channels :: int
  sh_ranks_per_channel :: int

definition NUM_HIERARCHY_LEVELS :: nat where "NUM_HIERARCHY_LEVELS = 7"

definition NUM_TIER_BOUNDARIES :: nat where "NUM_TIER_BOUNDARIES = NUM_HIERARCHY_LEVELS - 1"

lemma level_count [simp]: "NUM_HIERARCHY_LEVELS = 7" "NUM_TIER_BOUNDARIES = 6"
  by (simp_all add: NUM_HIERARCHY_LEVELS_def NUM_TIER_BOUNDARIES_def)

definition SwitchHierarchyConfig_init :: SwitchHierarchyConfig where
  "SwitchHierarchyConfig_init =
     \<lparr>sh_levels = map (\<lambda>i. NetworkLevelConfig_init\<lparr>nl_level := int i\<rparr>) [0..<NUM_HIERARCHY_LEVELS],
      sh_technology = DDR4, sh_num_channels = 1, sh_ranks_per_channel = 1\<rparr>"

record BufferedPacket =
  bp_packet :: InternalNetworkPacket
  bp_release_cycle :: u64
  bp_next_tier :: int
  bp_next_bridge_id :: int

record MD1State =
  md_lastUpdateCycle :: u64
  md_smoothedArrivalRate :: double
  md_curWindowAccesses :: u32

definition MD1State_init :: MD1State where
  "MD1State_init = \<lparr>md_lastUpdateCycle = 0, md_smoothedArrivalRate = 0, md_curWindowAccesses = 0\<rparr>"

record InternalDRAMNetwork =
  dn_dram_type :: string
  dn_technology :: MemoryTechnology
  dn_num_subarrays_per_bank :: int
  dn_num_banks_per_bg :: int
  dn_num_bg_per_chip :: int
  dn_num_chips_per_rank :: int
  dn_top_level_nodes_set :: bool
  dn_custom_switch_config :: SwitchHierarchyConfig
  dn_use_custom_switch_config :: bool
  dn_network_configs :: "InternalNetworkLink list"
  dn_network_queues :: "InternalNetworkPacket list list"
  dn_inflight_packets :: "InternalNetworkPacket list"
  dn_queue_limits :: "u64 list"
  dn_garnet_networks :: "GarnetModel option list"
  dn_bridge_garnet_networks :: "GarnetModel option list"
  dn_use_garnet_models :: bool
  dn_level_models :: "NetworkModelType list"
  dn_bridges :: "BridgeConfig list"
  dn_bridge_buffers :: "BufferedPacket list list list"
  dn_tier_md1_state :: "MD1State list"
  dn_bridge_md1_state :: "MD1State list"
  dn_current_cycle :: u64
  dn_total_packets_sent :: u64
  dn_total_packets_completed :: u64
  dn_total_bytes_transferred :: u64
  dn_total_network_latency :: u64
  dn_network_accesses :: "u64 list"
  dn_called :: "nat list"

section \<open>Technologies and levels\<close>

definition parseMemoryTechnology :: "string \<Rightarrow> MemoryTechnology" where
  "parseMemoryTechnology t =
     (if t = ''DDR3'' then DDR3
      else if t \<in> {''DDR4'', ''DDR4-RVRR'', ''DDR4-VRR''} then DDR4
      else if t \<in> {''DDR5'', ''DDR5-RVRR'', ''DDR5-VRR''} then DDR5
      else if t = ''LPDDR5'' then LPDDR5
      else if t = ''GDDR6'' then GDDR6
      else if t = ''HBM2'' then HBM2
      else if t = ''HBM3'' then HBM3
      else if t = ''SRAM'' then SRAM
      else if t \<in> {''STT_MRAM'', ''STT-MRAM''} then STT_MRAM
      else if t = ''PCM'' then PCM
      else if t \<in> {''ReRAM'', ''RERAM''} then ReRAM
      else UNKNOWN)"

definition isHBM :: "MemoryTechnology \<Rightarrow> bool" where
  "isHBM t \<longleftrightarrow> t = HBM2 \<or> t = HBM3"

definition isDRAM :: "MemoryTechnology \<Rightarrow> bool" where
  "isDRAM t \<longleftrightarrow> t \<in> {DDR3, DDR4, DDR5, LPDDR5, GDDR6, HBM2, HBM3}"

definition levelName :: "MemoryTechnology \<Rightarrow> int \<Rightarrow> string" where
  "levelName t idx =
     (if idx < 0 \<or> int NUM_HIERARCHY_LEVELS \<le> idx then ''Unknown''
      else if isHBM t
        then [''Subarray'', ''Bank'', ''BankGroup'', ''DieLayer'', ''LogicDie'', ''Channel'', ''System''] ! nat idx
      else if \<not> isDRAM t
        then (if idx = 0 then (if t = SRAM then ''Subbank'' else ''Mat'') else if idx = 1 then ''Bank''
              else if idx = 2 then ''LocalGroup'' else if idx = 3 then ''Chip'' else ''Unused'')
      else [''Subarray'', ''Bank'', ''BankGroup'', ''Chip'', ''Rank'', ''Channel'', ''System''] ! nat idx)"

fun levelToIndex :: "NetworkLevel \<Rightarrow> nat" where
  "levelToIndex SUBARRAY_NETWORK = 0"
| "levelToIndex BANK_NETWORK = 1"
| "levelToIndex BANK_GROUP_NETWORK = 2"
| "levelToIndex CHIP_NETWORK = 3"
| "levelToIndex RANK_NETWORK = 4"
| "levelToIndex CHANNEL_NETWORK = 5"
| "levelToIndex SYSTEM_NETWORK = 6"

section \<open>Tables\<close>

definition DEFAULT_QUEUE_DEPTH_LIMIT :: u64 where "DEFAULT_QUEUE_DEPTH_LIMIT = 64"

definition InternalDRAMNetwork_init :: "string \<Rightarrow> InternalDRAMNetwork" where
  "InternalDRAMNetwork_init t =
     \<lparr>dn_dram_type = t, dn_technology = parseMemoryTechnology t, dn_num_subarrays_per_bank = 0, dn_num_banks_per_bg = 0,
      dn_num_bg_per_chip = 0, dn_num_chips_per_rank = 0, dn_top_level_nodes_set = False,
      dn_custom_switch_config = SwitchHierarchyConfig_init, dn_use_custom_switch_config = False,
      dn_network_configs = replicate 7 InternalNetworkLink_init, dn_network_queues = replicate 7 [],
      dn_inflight_packets = [], dn_queue_limits = replicate 7 DEFAULT_QUEUE_DEPTH_LIMIT,
      dn_garnet_networks = replicate 7 None, dn_bridge_garnet_networks = replicate 6 None, dn_use_garnet_models = False,
      dn_level_models = replicate 7 NM_SIMPLE, dn_bridges = replicate 6 (BridgeConfig_make 128 800 8 64 1600 0.5 1),
      dn_bridge_buffers = replicate 6 [], dn_tier_md1_state = replicate 7 MD1State_init,
      dn_bridge_md1_state = replicate 6 MD1State_init, dn_current_cycle = 0, dn_total_packets_sent = 0,
      dn_total_packets_completed = 0, dn_total_bytes_transferred = 0, dn_total_network_latency = 0,
      dn_network_accesses = replicate 7 0, dn_called = []\<rparr>"

definition link_bandwidth :: "int \<Rightarrow> double \<Rightarrow> double" where
  "link_bandwidth w f = d_mul (d_div (of_int w) 8) f"

definition set_level :: "int \<times> double \<times> int \<times> string \<Rightarrow> InternalNetworkLink \<Rightarrow> InternalNetworkLink" where
  "set_level e l =
     (case e of (w, f, lat, topo) \<Rightarrow>
        l\<lparr>il_link_width_bits := w, il_frequency_GHz := f, il_bandwidth_GBs := link_bandwidth w f,
          il_latency_cycles := lat, il_topology := topo\<rparr>)"

definition configure_levels :: "(int \<times> double \<times> int \<times> string) list \<Rightarrow> InternalDRAMNetwork \<Rightarrow> InternalDRAMNetwork" where
  "configure_levels tbl d = d\<lparr>dn_network_configs := map2 set_level tbl (dn_network_configs d)\<rparr>"

definition configureDDR4Network :: "InternalDRAMNetwork \<Rightarrow> InternalDRAMNetwork" where
  "configureDDR4Network = configure_levels
     [(512, rnd 1.2, 5, ''crossbar''), (256, rnd 1.2, 2, ''bus''),
      (256, rnd 1.2, 2, ''bus''), (192, rnd 1.2, 5, ''point-to-point''),
      (128, rnd 1.2, 8, ''bus''), (128, rnd 1.2, 5, ''crossbar''),
      (128, rnd 1.2, 2, ''crossbar'')]"

definition configureDDR5Network :: "int \<Rightarrow> InternalDRAMNetwork \<Rightarrow> InternalDRAMNetwork" where
  "configureDDR5Network grade = (let clk = d_div (of_int grade) 2000 in configure_levels
     [(512, clk, 5, ''crossbar''), (256, clk, 2, ''bus''),
      (256, clk, 2, ''bus''), (128, clk, 5, ''point-to-point''),
      (96, clk, 8, ''bus''), (88, clk, 5, ''crossbar''),
      (88, clk, 2, ''crossbar'')])"

definition configureHBM2Network :: "InternalDRAMNetwork \<Rightarrow> InternalDRAMNetwork" where
  "configureHBM2Network = configure_levels
     [(256, rnd 1.2, 3, ''crossbar''), (192, rnd 1.2, 5, ''crossbar''),
      (160, rnd 1.2, 8, ''crossbar''), (128, rnd 1.2, 10, ''crossbar''),
      (128, rnd 1.2, 8, ''crossbar''), (128, rnd 1.2, 5, ''crossbar''),
      (128, rnd 1.2, 15, ''crossbar'')]"

definition configureHBM3Network :: "InternalDRAMNetwork \<Rightarrow> InternalDRAMNetwork" where
  "configureHBM3Network = configure_levels
     [(512, rnd 1.8, 3, ''crossbar''), (128, rnd 1.8, 5, ''crossbar''),
      (256, rnd 1.8, 8, ''crossbar''), (128, rnd 1.8, 10, ''crossbar''),
      (256, rnd 1.8, 6, ''crossbar''), (256, rnd 1.8, 5, ''crossbar''),
      (256, rnd 1.8, 12, ''crossbar'')]"

definition configureDDR3Network :: "InternalDRAMNetwork \<Rightarrow> InternalDRAMNetwork" where
  "configureDDR3Network = configure_levels
     [(512, rnd 0.8, 6, ''crossbar''), (256, rnd 0.8, 3, ''bus''),
      (256, rnd 0.8, 1, ''bus''), (192, rnd 0.8, 6, ''point-to-point''),
      (128, rnd 0.8, 10, ''bus''), (128, rnd 0.8, 5, ''crossbar''),
      (128, rnd 0.8, 2, ''crossbar'')]"

definition configureLPDDR5Network :: "InternalDRAMNetwork \<Rightarrow> InternalDRAMNetwork" where
  "configureLPDDR5Network = configure_levels
     [(256, rnd 1.6, 4, ''crossbar''), (256, rnd 1.6, 2, ''bus''),
      (256, rnd 1.6, 2, ''bus''), (64, rnd 1.6, 3, ''point-to-point''),
      (64, rnd 1.6, 3, ''bus''), (64, rnd 1.6, 3, ''crossbar''),
      (64, rnd 1.6, 2, ''crossbar'')]"

definition configureGDDR6Network :: "InternalDRAMNetwork \<Rightarrow> InternalDRAMNetwork" where
  "configureGDDR6Network = configure_levels
     [(256, rnd 2.0, 4, ''crossbar''), (256, rnd 2.0, 2, ''bus''),
      (256, rnd 2.0, 2, ''bus''), (128, rnd 2.0, 4, ''point-to-point''),
      (128, rnd 2.0, 1, ''point-to-point''), (128, rnd 2.0, 3, ''crossbar''),
      (256, rnd 2.0, 2, ''crossbar'')]"

definition configureSRAMNetwork :: "InternalDRAMNetwork \<Rightarrow> InternalDRAMNetwork" where
  "configureSRAMNetwork = configure_levels
     [(128, rnd 2.5, 1, ''crossbar''), (64, rnd 2.5, 2, ''crossbar''),
      (64, rnd 2.5, 3, ''crossbar''), (32, rnd 2.5, 4, ''crossbar''),
      (64, rnd 2.5, 5, ''crossbar''), (64, rnd 2.5, 3, ''crossbar''),
      (64, rnd 2.5, 2, ''crossbar'')]"

definition configureSTTMRAMNetwork :: "InternalDRAMNetwork \<Rightarrow> InternalDRAMNetwork" where
  "configureSTTMRAMNetwork = configure_levels
     [(64, rnd 1.5, 3, ''crossbar''), (16, rnd 1.5, 6, ''bus''),
      (32, rnd 1.5, 12, ''bus''), (16, rnd 1.5, 25, ''point-to-point''),
      (64, rnd 1.5, 20, ''bus''), (64, rnd 1.5, 5, ''crossbar''),
      (64, rnd 1.5, 2, ''crossbar'')]"

definition configurePCMNetwork :: "InternalDRAMNetwork \<Rightarrow> InternalDRAMNetwork" where
  "configurePCMNetwork = configure_levels
     [(64, rnd 1.2, 4, ''crossbar''), (16, rnd 1.2, 8, ''bus''),
      (32, rnd 1.2, 16, ''bus''), (16, rnd 1.2, 32, ''point-to-point''),
      (64, rnd 1.2, 25, ''bus''), (64, rnd 1.2, 5, ''crossbar''),
      (64, rnd 1.2, 2, ''crossbar'')]"

definition configureReRAMNetwork :: "InternalDRAMNetwork \<Rightarrow> InternalDRAMNetwork" where
  "configureReRAMNetwork = configure_levels
     [(64, rnd 1.4, 3, ''crossbar''), (16, rnd 1.4, 7, ''bus''),
      (32, rnd 1.4, 14, ''bus''), (16, rnd 1.4, 28, ''point-to-point''),
      (64, rnd 1.4, 22, ''bus''), (64, rnd 1.4, 5, ''crossbar''),
      (64, rnd 1.4, 2, ''crossbar'')]"

definition initializeBridgeDefaults :: "InternalDRAMNetwork \<Rightarrow> InternalDRAMNetwork" where
  "initializeBridgeDefaults d =
     d\<lparr>dn_bridges :=
       (if isHBM (dn_technology d)
        then [BridgeConfig_make 256 800 8 256 800 0.5 1, BridgeConfig_make 128 1000 8 128 1000 0.5 1,
              BridgeConfig_make 128 1000 8 128 1000 0.5 2, BridgeConfig_make 128 1000 8 128 500 1 1,
              BridgeConfig_make 128 500 8 128 500 0.5 1, BridgeConfig_make 128 500 8 64 500 2 1]
        else if isDRAM (dn_technology d)
        then [BridgeConfig_make 128 800 8 64 800 0.5 1, BridgeConfig_make 64 800 8 64 800 0.25 1,
              BridgeConfig_make 64 800 8 8 1600 1 1, BridgeConfig_make 8 1600 8 64 1600 1.5 1,
              BridgeConfig_make 64 1600 8 64 1600 0.5 1, BridgeConfig_make 64 1600 8 64 800 2 1]
        else BridgeConfig_make 64 1000 4 64 1000 0.25 1 # replicate 5 (BridgeConfig_make 64 1000 1 64 1000 0 1))\<rparr>"

definition resetStats :: "InternalDRAMNetwork \<Rightarrow> InternalDRAMNetwork" where
  "resetStats d =
     d\<lparr>dn_total_packets_sent := 0, dn_total_packets_completed := 0, dn_total_bytes_transferred := 0,
       dn_total_network_latency := 0, dn_network_accesses := replicate 7 0, dn_inflight_packets := []\<rparr>"

definition configure_technology :: "int \<Rightarrow> InternalDRAMNetwork \<Rightarrow> InternalDRAMNetwork" where
  "configure_technology grade d =
     (let t = dn_dram_type d in
      if t = ''SRAM'' then configureSRAMNetwork d
      else if t \<in> {''STT-MRAM'', ''STTMRAM'', ''STT_MRAM'', ''STTRAM'', ''MRAM''} then configureSTTMRAMNetwork d
      else if t \<in> {''PCM'', ''PRAM''} then configurePCMNetwork d
      else if t \<in> {''ReRAM'', ''RERAM'', ''RRAM''} then configureReRAMNetwork d
      else if t = ''DDR3'' then configureDDR3Network d
      else if t \<in> {''DDR4'', ''DDR4-RVRR'', ''DDR4-VRR''} then configureDDR4Network d
      else if t \<in> {''DDR5'', ''DDR5-RVRR'', ''DDR5-VRR''} then configureDDR5Network grade d
      else if t = ''LPDDR5'' then configureLPDDR5Network d
      else if t = ''GDDR6'' then configureGDDR6Network d
      else if t = ''HBM2'' then configureHBM2Network d
      else if t = ''HBM3'' then configureHBM3Network d
      else configureDDR4Network d)"

definition router_defaults :: "InternalNetworkLink \<Rightarrow> InternalNetworkLink" where
  "router_defaults l =
     l\<lparr>il_router_latency := 1, il_router_pipeline := 3, il_router_bypass := True, il_virtual_networks := 2,
       il_virtual_channels_per_vn := 1, il_input_buffer_depth := 2, il_output_buffer_depth := 2\<rparr>"

definition dn_initialize :: "int \<Rightarrow> int \<Rightarrow> int \<Rightarrow> int \<Rightarrow> int \<Rightarrow> InternalDRAMNetwork \<Rightarrow> InternalDRAMNetwork" where
  "dn_initialize grade subarrays banks bgs chips d =
     (let d1 = configure_technology grade
            (d\<lparr>dn_num_subarrays_per_bank := subarrays, dn_num_banks_per_bg := banks, dn_num_bg_per_chip := bgs,
               dn_num_chips_per_rank := chips\<rparr>);
          dram = isDRAM (dn_technology d);
          nodes = [subarrays, banks, bgs, chips, if dram then 2 else 1, if dram then 2 else 1, 1]
      in resetStats (initializeBridgeDefaults
           (d1\<lparr>dn_network_configs := map2 (\<lambda>n l. router_defaults (l\<lparr>il_num_nodes := n\<rparr>)) nodes (dn_network_configs d1),
               dn_top_level_nodes_set := dn_top_level_nodes_set d \<or> \<not> dram\<rparr>)))"

section \<open>Switches\<close>

definition getNumberOfSwitchLevels :: int where "getNumberOfSwitchLevels = 7"

definition getTotalNumberOfSwitches :: "InternalDRAMNetwork \<Rightarrow> int \<Rightarrow> int \<Rightarrow> int" where
  "getTotalNumberOfSwitches d channels ranks =
     (let num_ranks = channels * ranks; num_chips = num_ranks * dn_num_chips_per_rank d;
          num_bgs = num_chips * dn_num_bg_per_chip d; total_banks = num_bgs * dn_num_banks_per_bg d
      in total_banks + num_bgs + num_bgs + num_chips + num_ranks + channels + 1)"

definition getNumberOfSwitchesAtLevel :: "InternalDRAMNetwork \<Rightarrow> int \<Rightarrow> int \<Rightarrow> int \<Rightarrow> int" where
  "getNumberOfSwitchesAtLevel d level channels ranks =
     (let custom = sh_levels (dn_custom_switch_config d) ! nat level;
          num_ranks = channels * ranks; num_chips = num_ranks * dn_num_chips_per_rank d;
          num_bgs = num_chips * dn_num_bg_per_chip d; total_banks = num_bgs * dn_num_banks_per_bg d
      in if level < 0 \<or> 6 < level then 0
         else if dn_use_custom_switch_config d \<and> \<not> nl_use_default custom then nl_num_switches custom
         else [total_banks, num_bgs, num_bgs, num_chips, num_ranks, channels, 1] ! nat level)"

definition setCustomSwitchHierarchy :: "SwitchHierarchyConfig \<Rightarrow> InternalDRAMNetwork \<Rightarrow> InternalDRAMNetwork" where
  "setCustomSwitchHierarchy c d = d\<lparr>dn_custom_switch_config := c, dn_use_custom_switch_config := True\<rparr>"

fun calculatePortsPerSwitch :: "TopologyType \<Rightarrow> int \<Rightarrow> int \<Rightarrow> int" where
  "calculatePortsPerSwitch t endpoints switches =
     (if switches = 0 \<or> endpoints = 0 then 0
      else case t of TT_BUS \<Rightarrow> endpoints | TT_CROSSBAR \<Rightarrow> endpoints | TT_MESH_2D \<Rightarrow> 5 | TT_TORUS_2D \<Rightarrow> 5
        | TT_FAT_TREE \<Rightarrow> (endpoints + switches - 1) sdiv switches + 2 | TT_H_TREE \<Rightarrow> 4 | TT_CUSTOM \<Rightarrow> 0)"

fun calculateOptimalSwitchCount :: "libm \<Rightarrow> int \<Rightarrow> int \<Rightarrow> TopologyType \<Rightarrow> int" where
  "calculateOptimalSwitchCount m endpoints ports t =
     (if endpoints = 0 \<or> ports = 0 then 1
      else case t of
        TT_BUS \<Rightarrow> (endpoints + ports - 1) sdiv ports
      | TT_CROSSBAR \<Rightarrow> (endpoints + ports - 1) sdiv ports
      | TT_MESH_2D \<Rightarrow> (let s = d_trunc (d_ceil (m_sqrt m (of_int endpoints))) in s * s)
      | TT_TORUS_2D \<Rightarrow> (let s = d_trunc (d_ceil (m_sqrt m (of_int endpoints))) in s * s)
      | TT_FAT_TREE \<Rightarrow> (5 * endpoints + ports - 1) sdiv ports
      | TT_H_TREE \<Rightarrow> endpoints - 1
      | TT_CUSTOM \<Rightarrow> 1)"

fun getTopologyName :: "TopologyType \<Rightarrow> string" where
  "getTopologyName TT_BUS = ''Bus''"
| "getTopologyName TT_CROSSBAR = ''Crossbar''"
| "getTopologyName TT_MESH_2D = ''2D Mesh''"
| "getTopologyName TT_TORUS_2D = ''2D Torus''"
| "getTopologyName TT_FAT_TREE = ''Fat-Tree''"
| "getTopologyName TT_H_TREE = ''H-Tree''"
| "getTopologyName TT_CUSTOM = ''Custom''"

definition getSwitchHierarchyConfig :: "InternalDRAMNetwork \<Rightarrow> int \<Rightarrow> int \<Rightarrow> SwitchHierarchyConfig" where
  "getSwitchHierarchyConfig d channels ranks =
     (let num_ranks = channels * ranks; num_chips = num_ranks * dn_num_chips_per_rank d;
          num_bgs = num_chips * dn_num_bg_per_chip d; num_banks = num_bgs * dn_num_banks_per_bg d;
          level = (\<lambda>i t sw ends. NetworkLevelConfig_init
            \<lparr>nl_level := i, nl_topology := t, nl_num_switches := sw, nl_num_endpoints := ends,
             nl_ports_per_switch := calculatePortsPerSwitch t ends 1\<rparr>);
          levels = [level 0 TT_CROSSBAR num_banks (dn_num_subarrays_per_bank d),
                    level 1 TT_CROSSBAR num_bgs (dn_num_banks_per_bg d),
                    level 2 TT_BUS num_bgs (dn_num_bg_per_chip d),
                    level 3 TT_BUS num_chips (dn_num_chips_per_rank d),
                    level 4 TT_BUS num_ranks ranks,
                    level 5 TT_CROSSBAR channels channels,
                    level 6 TT_CROSSBAR 1 channels]
      in \<lparr>sh_levels = (if dn_use_custom_switch_config d
            then map2 (\<lambda>l c. if \<not> nl_use_default c then c else l) levels (sh_levels (dn_custom_switch_config d))
            else levels),
          sh_technology = dn_technology d, sh_num_channels = channels, sh_ranks_per_channel = ranks\<rparr>)"

section \<open>Detailed levels\<close>

datatype net_error =
  Nodes_not_positive | Nodes_over_limit | Width_not_positive | Width_not_aligned | Width_over_limit
| Latency_negative | Latency_over_limit | Bandwidth_negative | Bandwidth_over_limit | Bandwidth_zero

definition htree_config :: "int \<Rightarrow> int \<Rightarrow> int \<Rightarrow> NetworkConfig" where
  "htree_config num_nodes width latency = NetworkConfig_init
     \<lparr>nc_topology := H_TREE, nc_routing := TREE_BASED, nc_flow_control := CREDIT_BASED, nc_num_rows := word_of_int num_nodes,
      nc_num_cols := 1, nc_num_layers := 1, nc_virtual_networks := 2, nc_virtual_channels_per_vn := 1, nc_virtual_channels := 2 * 1,
      nc_link_width_bytes := word_of_int (width sdiv 8), nc_link_latency := word_of_int latency,
      nc_router_pipeline := MINIMAL_PIPELINE, nc_router_latency := 1, nc_enable_router_bypass := True,
      nc_input_buffer_depth := 2, nc_output_buffer_depth := 2\<rparr>"

definition add_nodes :: "nat \<Rightarrow> GarnetModel \<Rightarrow> GarnetModel" where
  "add_nodes n g = foldl (\<lambda>g i. addNode (NetworkNode_make (word_of_nat i) PE_SUBARRAY (word_of_nat i)) g) g [0..<n]"

text \<open>The level is only printed.\<close>

definition createGarnetHTreeForDRAM :: "NetworkLevel \<Rightarrow> int \<Rightarrow> int \<Rightarrow> int \<Rightarrow> double \<Rightarrow> net_error + GarnetModel" where
  "createGarnetHTreeForDRAM level num_nodes width latency bandwidth =
     (if num_nodes \<le> 0 then Inl Nodes_not_positive
      else if 1024 < num_nodes then Inl Nodes_over_limit
      else if width \<le> 0 then Inl Width_not_positive
      else if width < 8 \<or> width smod 8 \<noteq> 0 then Inl Width_not_aligned
      else if 1024 < width then Inl Width_over_limit
      else if latency < 0 then Inl Latency_negative
      else if 1000 < latency then Inl Latency_over_limit
      else if bandwidth < 0 then Inl Bandwidth_negative
      else if 10000 < bandwidth then Inl Bandwidth_over_limit
      else if bandwidth = 0 then Inl Bandwidth_zero
      else Inr (add_nodes (nat num_nodes) (garnet_initialize (GarnetModel_init (htree_config num_nodes width latency)))))"

definition get_nodes :: "InternalDRAMNetwork \<Rightarrow> nat \<Rightarrow> int" where
  "get_nodes d i =
     [dn_num_subarrays_per_bank d, dn_num_banks_per_bg d, dn_num_bg_per_chip d, dn_num_chips_per_rank d, 2, 2, 1] ! i"

definition index_to_level :: "nat \<Rightarrow> NetworkLevel" where
  "index_to_level i =
     [SUBARRAY_NETWORK, BANK_NETWORK, BANK_GROUP_NETWORK, CHIP_NETWORK, RANK_NETWORK, CHANNEL_NETWORK, SYSTEM_NETWORK] ! i"

text \<open>A level with a single node has no network.\<close>

definition level_garnet :: "InternalDRAMNetwork \<Rightarrow> nat \<Rightarrow> net_error + GarnetModel option" where
  "level_garnet d i =
     (let l = dn_network_configs d ! i in
      if get_nodes d i \<le> 1 then Inr None
      else map_sum id Some (createGarnetHTreeForDRAM (index_to_level i) (get_nodes d i)
             (il_link_width_bits l) (il_latency_cycles l) (il_bandwidth_GBs l)))"

fun collect :: "('e + 'a) list \<Rightarrow> 'e + 'a list" where
  "collect [] = Inr []"
| "collect (Inl e # xs) = Inl e"
| "collect (Inr x # xs) = map_sum id ((#) x) (collect xs)"

definition enableGarnetSimulation :: "bool \<Rightarrow> InternalDRAMNetwork \<Rightarrow> net_error + InternalDRAMNetwork" where
  "enableGarnetSimulation enable d =
     (if enable
      then map_sum id (\<lambda>gs. d\<lparr>dn_use_garnet_models := True, dn_garnet_networks := gs, dn_level_models := replicate 7 NM_DETAILED\<rparr>)
             (collect (map (level_garnet d) [0..<7]))
      else Inr (d\<lparr>dn_use_garnet_models := False, dn_garnet_networks := replicate 7 None, dn_level_models := replicate 7 NM_SIMPLE\<rparr>))"

definition any_garnet :: "InternalDRAMNetwork \<Rightarrow> bool" where
  "any_garnet d \<longleftrightarrow>
     (\<exists>i\<in>{0..<7}. dn_level_models d ! i = NM_DETAILED \<and> dn_garnet_networks d ! i \<noteq> None) \<or>
     (\<exists>b\<in>{0..<6}. dn_bridge_garnet_networks d ! b \<noteq> None)"

definition resize :: "nat \<Rightarrow> 'a list list \<Rightarrow> 'a list list" where
  "resize n xs = take n xs @ replicate (n - length xs) []"

definition resize_buffers :: "nat \<Rightarrow> int \<Rightarrow> InternalDRAMNetwork \<Rightarrow> InternalDRAMNetwork" where
  "resize_buffers b n d = d\<lparr>dn_bridge_buffers := (dn_bridge_buffers d)[b := resize (nat n) (dn_bridge_buffers d ! b)]\<rparr>"

definition setLevelModel :: "int \<Rightarrow> NetworkModelType \<Rightarrow> InternalDRAMNetwork \<Rightarrow> net_error + InternalDRAMNetwork" where
  "setLevelModel level model d =
     (if level < 0 \<or> int NUM_HIERARCHY_LEVELS \<le> level then Inr d
      else let i = nat level; d1 = d\<lparr>dn_level_models := (dn_level_models d)[i := model]\<rparr> in
        if model = NM_DETAILED \<and> dn_garnet_networks d ! i = None
        then map_sum id (\<lambda>g.
               let d2 = d1\<lparr>dn_garnet_networks := (dn_garnet_networks d)[i := g], dn_use_garnet_models := True\<rparr>;
                   d3 = (if 0 < i then resize_buffers (i - 1) (br_count (dn_bridges d ! (i - 1))) d2 else d2)
               in if i < NUM_TIER_BOUNDARIES then resize_buffers i (br_count (dn_bridges d ! i)) d3 else d3)
             (level_garnet d i)
        else if model = NM_SIMPLE
        then let d2 = d1\<lparr>dn_garnet_networks := (dn_garnet_networks d)[i := None]\<rparr>
             in Inr (d2\<lparr>dn_use_garnet_models := any_garnet d2\<rparr>)
        else Inr d1)"

definition getLevelModel :: "InternalDRAMNetwork \<Rightarrow> int \<Rightarrow> NetworkModelType" where
  "getLevelModel d level = (if level < 0 \<or> int NUM_HIERARCHY_LEVELS \<le> level then NM_SIMPLE else dn_level_models d ! nat level)"

text \<open>The value of an enumeration from an integer; values outside it do not occur in the program.\<close>

definition pipeline_of_int :: "int \<Rightarrow> RouterPipelineComplexity" where
  "pipeline_of_int n = (if n = 0 then FULL else if n = 1 then REDUCED else if n = 2 then SIMPLE_PIPELINE else MINIMAL_PIPELINE)"

definition createGarnetBridgeRouter :: "BridgeConfig \<Rightarrow> GarnetModel" where
  "createGarnetBridgeRouter b =
     add_nodes 2 (garnet_initialize (GarnetModel_init (NetworkConfig_init
       \<lparr>nc_topology := CROSSBAR, nc_routing := MINIMAL, nc_flow_control := CREDIT_BASED, nc_num_rows := 2, nc_num_cols := 1, nc_num_layers := 1,
        nc_virtual_networks := word_of_int (br_virtual_networks b), nc_virtual_channels_per_vn := word_of_int (br_virtual_channels_per_vn b),
        nc_virtual_channels := word_of_int (br_virtual_networks b * br_virtual_channels_per_vn b),
        nc_router_pipeline := pipeline_of_int (br_router_pipeline b), nc_router_latency := word_of_int (br_router_latency b),
        nc_enable_router_bypass := br_router_bypass b, nc_input_buffer_depth := word_of_int (br_input_buffer_depth b),
        nc_output_buffer_depth := word_of_int (br_output_buffer_depth b),
        nc_link_width_bytes := word_of_int (min (br_lower_width_bits b) (br_upper_width_bits b) sdiv 8),
        nc_link_latency := word_of_int (max 1 (d_trunc (d_ceil (br_latency_ns b))))\<rparr>)))"

definition setBridgeModel :: "int \<Rightarrow> NetworkModelType \<Rightarrow> InternalDRAMNetwork \<Rightarrow> InternalDRAMNetwork" where
  "setBridgeModel boundary model d =
     (if boundary < 0 \<or> int NUM_TIER_BOUNDARIES \<le> boundary then d
      else let i = nat boundary; b = (dn_bridges d ! i)\<lparr>br_model := model\<rparr>; d1 = d\<lparr>dn_bridges := (dn_bridges d)[i := b]\<rparr> in
        if model = NM_DETAILED \<and> dn_bridge_garnet_networks d ! i = None
        then resize_buffers i (max 1 (br_count b))
               (d1\<lparr>dn_bridge_garnet_networks := (dn_bridge_garnet_networks d)[i := Some (createGarnetBridgeRouter b)], dn_use_garnet_models := True\<rparr>)
        else if model \<noteq> NM_DETAILED
        then let d2 = d1\<lparr>dn_bridge_garnet_networks := (dn_bridge_garnet_networks d)[i := None]\<rparr>
             in d2\<lparr>dn_use_garnet_models := any_garnet d2\<rparr>
        else d1)"

section \<open>Overrides\<close>

definition topology_valid :: "libm \<Rightarrow> string \<Rightarrow> int \<Rightarrow> bool" where
  "topology_valid m t nodes =
     (if t \<in> {''mesh'', ''mesh_2d'', ''torus'', ''torus_2d''}
      then (let side = d_trunc (m_sqrt m (of_int nodes)) in \<not> (nodes < 4 \<or> side * side \<noteq> nodes))
      else if t = ''ring'' then \<not> nodes < 3
      else if t \<in> {''point-to-point'', ''point_to_point''} then nodes = 2
      else True)"

definition override :: "bool \<Rightarrow> 'a \<Rightarrow> 'a \<Rightarrow> 'a" where
  "override given new old = (if given then new else old)"

definition overrideLevelConfig ::
  "libm \<Rightarrow> int \<Rightarrow> int \<Rightarrow> double \<Rightarrow> int \<Rightarrow> string \<Rightarrow> int \<Rightarrow> int \<Rightarrow> int \<Rightarrow> int \<Rightarrow> int \<Rightarrow> int \<Rightarrow> int \<Rightarrow> InternalDRAMNetwork \<Rightarrow> InternalDRAMNetwork" where
  "overrideLevelConfig m level width freq latency topo rl rp rb vn vc ib ob d =
     (if level < 0 \<or> int NUM_HIERARCHY_LEVELS \<le> level then d
      else let i = nat level; l = dn_network_configs d ! i;
               w = override (width > 0) width (il_link_width_bits l); f = override (freq > 0) freq (il_frequency_GHz l)
        in d\<lparr>dn_network_configs := (dn_network_configs d)[i := l
          \<lparr>il_link_width_bits := w, il_frequency_GHz := f, il_latency_cycles := override (latency \<ge> 0) latency (il_latency_cycles l),
           il_topology := override (topo \<noteq> [] \<and> topology_valid m topo (get_nodes d i)) topo (il_topology l),
           il_router_latency := override (rl \<ge> 0) rl (il_router_latency l),
           il_router_pipeline := override (rp \<ge> 0) rp (il_router_pipeline l),
           il_router_bypass := override (rb \<ge> 0) (rb \<noteq> 0) (il_router_bypass l),
           il_virtual_networks := override (vn > 0) vn (il_virtual_networks l),
           il_virtual_channels_per_vn := override (vc > 0) vc (il_virtual_channels_per_vn l),
           il_input_buffer_depth := override (ib > 0) ib (il_input_buffer_depth l),
           il_output_buffer_depth := override (ob > 0) ob (il_output_buffer_depth l),
           il_bandwidth_GBs := link_bandwidth w f\<rparr>]\<rparr>)"

definition overrideBridgeConfig ::
  "int \<Rightarrow> int \<Rightarrow> int \<Rightarrow> int \<Rightarrow> int \<Rightarrow> int \<Rightarrow> int \<Rightarrow> int \<Rightarrow> InternalDRAMNetwork \<Rightarrow> InternalDRAMNetwork" where
  "overrideBridgeConfig boundary rl rp rb vn vc ib ob d =
     (if boundary < 0 \<or> int NUM_TIER_BOUNDARIES \<le> boundary then d
      else let i = nat boundary; b = dn_bridges d ! i
        in d\<lparr>dn_bridges := (dn_bridges d)[i := b
          \<lparr>br_router_latency := override (rl \<ge> 0) rl (br_router_latency b),
           br_router_pipeline := override (rp \<ge> 0) rp (br_router_pipeline b),
           br_router_bypass := override (rb \<ge> 0) (rb \<noteq> 0) (br_router_bypass b),
           br_virtual_networks := override (vn > 0) vn (br_virtual_networks b),
           br_virtual_channels_per_vn := override (vc > 0) vc (br_virtual_channels_per_vn b),
           br_input_buffer_depth := override (ib > 0) ib (br_input_buffer_depth b),
           br_output_buffer_depth := override (ob > 0) ob (br_output_buffer_depth b)\<rparr>]\<rparr>)"

definition setRouterPipeStages :: "int \<Rightarrow> InternalDRAMNetwork \<Rightarrow> InternalDRAMNetwork" where
  "setRouterPipeStages stages d =
     (if stages < 1 then d else d\<lparr>dn_network_configs := map (\<lambda>l. l\<lparr>il_router_latency := stages\<rparr>) (dn_network_configs d)\<rparr>)"

definition setTopLevelNodeCounts :: "int \<Rightarrow> int \<Rightarrow> InternalDRAMNetwork \<Rightarrow> InternalDRAMNetwork" where
  "setTopLevelNodeCounts ranks channels d =
     (let c0 = dn_network_configs d;
          c1 = (if ranks > 0 then c0[4 := (c0 ! 4)\<lparr>il_num_nodes := ranks\<rparr>] else c0);
          c2 = (if channels > 0 then c1[5 := (c1 ! 5)\<lparr>il_num_nodes := channels\<rparr>] else c1)
      in d\<lparr>dn_network_configs := c2, dn_top_level_nodes_set := ranks > 0 \<or> channels > 0 \<or> dn_top_level_nodes_set d\<rparr>)"

text \<open>Widths and bandwidths of the levels from an architecture; the bridges follow the levels they join.\<close>

definition sourced :: "int list \<Rightarrow> double list \<Rightarrow> nat \<Rightarrow> bool" where
  "sourced w bw i \<longleftrightarrow> \<not> (w ! i \<le> 0 \<or> bw ! i \<le> 0)"

definition applySourcedLadder :: "int list \<Rightarrow> double list \<Rightarrow> InternalDRAMNetwork \<Rightarrow> InternalDRAMNetwork" where
  "applySourcedLadder w bw d =
     (let level = (\<lambda>i l. if sourced w bw i
            then l\<lparr>il_link_width_bits := w ! i, il_bandwidth_GBs := bw ! i, il_frequency_GHz := d_div (d_mul (bw ! i) 8) (of_int (w ! i))\<rparr>
            else l);
          cs = map2 level [0..<7] (dn_network_configs d);
          lower = (\<lambda>i b. if sourced w bw i
            then b\<lparr>br_lower_width_bits := w ! i, br_lower_frequency_mhz := d_mul (il_frequency_GHz (cs ! i)) 1000\<rparr> else b);
          upper = (\<lambda>i b. if sourced w bw (i + 1)
            then b\<lparr>br_upper_width_bits := w ! (i + 1), br_upper_frequency_mhz := d_mul (il_frequency_GHz (cs ! (i + 1))) 1000\<rparr> else b)
      in d\<lparr>dn_network_configs := cs, dn_bridges := map2 (\<lambda>i b. upper i (lower i b)) [0..<6] (dn_bridges d)\<rparr>)"

section \<open>Factories\<close>

definition createInternalDRAMNetwork :: "int \<Rightarrow> string \<Rightarrow> int \<Rightarrow> int \<Rightarrow> int \<Rightarrow> int \<Rightarrow> InternalDRAMNetwork" where
  "createInternalDRAMNetwork grade t subarrays banks bgs chips = dn_initialize grade subarrays banks bgs chips (InternalDRAMNetwork_init t)"

definition createHierarchicalNetwork :: "int \<Rightarrow> string \<Rightarrow> int \<Rightarrow> int \<Rightarrow> int \<Rightarrow> int \<Rightarrow> bool \<Rightarrow> net_error + InternalDRAMNetwork" where
  "createHierarchicalNetwork grade t subarrays banks bgs chips use_garnet =
     (let d = dn_initialize grade subarrays banks bgs chips (InternalDRAMNetwork_init t)
      in if use_garnet then enableGarnetSimulation True d else Inr d)"

type_synonym NetworkParams = "int \<times> int \<times> double"

definition tech_params :: "NetworkParams list \<Rightarrow> string \<Rightarrow> NetworkParams" where
  "tech_params ps t = ps !
     (if t = ''HBM3'' then 0 else if t = ''HBM2'' then 1 else if t = ''DDR5'' then 2 else if t = ''GDDR6'' then 3
      else if t = ''LPDDR5'' then 4 else if t = ''SRAM'' then 5 else if t \<in> {''STT-MRAM'', ''STTMRAM''} then 6
      else if t \<in> {''PCM'', ''PRAM''} then 7 else if t \<in> {''ReRAM'', ''RERAM''} then 8 else 9)"

definition getLevel0Params :: "string \<Rightarrow> NetworkParams" where
  "getLevel0Params = tech_params
     [(512, 3, rnd 115.2), (256, 3, 32), (128, 5, rnd 25.6), (256, 4, 64), (128, 4, rnd 25.6), (128, 1, 40), (64, 3, 12),
      (64, 4, rnd 9.6), (64, 3, rnd 11.2), (64, 5, rnd 9.6)]"

definition getBankParams :: "string \<Rightarrow> NetworkParams" where
  "getBankParams = tech_params
     [(128, 5, rnd 28.8), (64, 5, 8), (16, 10, rnd 3.2), (32, 6, 8), (16, 8, rnd 3.2), (64, 2, 20), (16, 6, 3),
      (16, 8, rnd 2.4), (16, 7, rnd 2.8), (8, 10, rnd 1.2)]"

definition getBankGroupParams :: "string \<Rightarrow> NetworkParams" where
  "getBankGroupParams = tech_params
     [(256, 8, rnd 57.6), (128, 8, 16), (32, 20, rnd 6.4), (64, 10, 16), (32, 15, rnd 6.4), (64, 3, 20), (32, 12, 6),
      (32, 16, rnd 4.8), (32, 14, rnd 5.6), (16, 20, rnd 2.4)]"

definition getChipParams :: "string \<Rightarrow> NetworkParams" where
  "getChipParams = tech_params
     [(128, 10, rnd 28.8), (128, 10, 16), (8, 50, rnd 1.6), (16, 20, 4), (16, 30, rnd 3.2), (32, 4, 10), (16, 25, 3),
      (16, 32, rnd 2.4), (16, 28, rnd 2.8), (8, 50, rnd 1.2)]"

definition create_level_network ::
  "NetworkLevel \<Rightarrow> NetworkParams \<Rightarrow> NetworkTopology \<Rightarrow> RoutingAlgorithm \<Rightarrow> RouterPipelineComplexity \<Rightarrow> Cycle \<Rightarrow> int \<Rightarrow> bool \<Rightarrow> net_error + GarnetModel" where
  "create_level_network level ps topo routing pipeline latency n use_garnet =
     (case ps of (width, lat, bw) \<Rightarrow>
        if use_garnet then createGarnetHTreeForDRAM level n width lat bw
        else Inr (garnet_initialize (GarnetModel_init (NetworkConfig_init
          \<lparr>nc_topology := topo, nc_routing := routing, nc_num_rows := word_of_int n, nc_num_cols := 1, nc_router_pipeline := pipeline,
           nc_router_latency := latency, nc_link_width_bytes := word_of_int (width sdiv 8), nc_link_latency := word_of_int lat\<rparr>))))"

definition createLevel0Network :: "string \<Rightarrow> int \<Rightarrow> bool \<Rightarrow> net_error + GarnetModel" where
  "createLevel0Network t = create_level_network SUBARRAY_NETWORK (getLevel0Params t) H_TREE TREE_BASED MINIMAL_PIPELINE 1"

definition createBankNetwork :: "string \<Rightarrow> int \<Rightarrow> bool \<Rightarrow> net_error + GarnetModel" where
  "createBankNetwork t = create_level_network BANK_NETWORK (getBankParams t) CROSSBAR MINIMAL SIMPLE_PIPELINE 2"

definition createBankGroupNetwork :: "string \<Rightarrow> int \<Rightarrow> bool \<Rightarrow> net_error + GarnetModel" where
  "createBankGroupNetwork t = create_level_network BANK_GROUP_NETWORK (getBankGroupParams t) CROSSBAR MINIMAL SIMPLE_PIPELINE 2"

definition createChipNetwork :: "string \<Rightarrow> int \<Rightarrow> bool \<Rightarrow> net_error + GarnetModel" where
  "createChipNetwork t = create_level_network CHIP_NETWORK (getChipParams t) CROSSBAR MINIMAL REDUCED 3"

end
