(* ===== verification/Mem_Build.thy ===== *)
theory Mem_Build
  imports Mem_Hierarchy
begin

text \<open>
  What the construction of the in-memory network gives: well-formed levels and bridges for every
  technology, a detailed network exactly for the levels with several nodes, and the counts of switches.
\<close>

section \<open>Well-formed hierarchies\<close>

definition link_ok :: "InternalNetworkLink \<Rightarrow> bool" where
  "link_ok l \<longleftrightarrow> 8 \<le> il_link_width_bits l \<and> il_link_width_bits l \<le> 1024 \<and> 8 dvd il_link_width_bits l \<and> 0 < il_frequency_GHz l \<and>
     0 < il_bandwidth_GBs l \<and> il_bandwidth_GBs l \<le> 10000 \<and> 0 \<le> il_latency_cycles l \<and> il_latency_cycles l \<le> 1000 \<and>
     il_topology l \<in> {''bus'', ''crossbar'', ''point-to-point''} \<and> 0 \<le> il_router_latency l \<and> il_router_latency l \<le> 1000"

definition bridge_ok :: "BridgeConfig \<Rightarrow> bool" where
  "bridge_ok b \<longleftrightarrow> 0 < br_lower_width_bits b \<and> 0 < br_upper_width_bits b \<and> 0 < br_lower_frequency_mhz b \<and> 0 < br_upper_frequency_mhz b \<and>
     0 \<le> br_latency_ns b \<and> br_latency_ns b \<le> 1000 \<and> 1 \<le> br_count b \<and> 0 \<le> br_router_latency b \<and> br_router_latency b \<le> 1000"

definition entry_ok :: "int \<times> double \<times> int \<times> string \<Rightarrow> bool" where
  "entry_ok e \<longleftrightarrow> (case e of (w, f, lat, topo) \<Rightarrow> 8 \<le> w \<and> w \<le> 512 \<and> 8 dvd w \<and> 0 < f \<and> f \<le> 100 \<and> 0 \<le> lat \<and> lat \<le> 1000 \<and>
     topo \<in> {''bus'', ''crossbar'', ''point-to-point''})"

definition table_ok :: "(InternalDRAMNetwork \<Rightarrow> InternalDRAMNetwork) \<Rightarrow> bool" where
  "table_ok f \<longleftrightarrow> (\<exists>tbl. length tbl = 7 \<and> list_all entry_ok tbl \<and> f = configure_levels tbl)"

lemma table_okI [intro]: "length tbl = 7 \<Longrightarrow> list_all entry_ok tbl \<Longrightarrow> table_ok (configure_levels tbl)"
  by (auto simp: table_ok_def)

lemma rnd_le_100: "x \<le> 100 \<Longrightarrow> rnd x \<le> 100"
  using rnd_le_int [of x 100] by simp

lemma tables_ok:
  "table_ok configureSRAMNetwork" "table_ok configureSTTMRAMNetwork" "table_ok configurePCMNetwork" "table_ok configureReRAMNetwork"
  "table_ok configureDDR3Network" "table_ok configureDDR4Network" "table_ok configureLPDDR5Network" "table_ok configureGDDR6Network"
  "table_ok configureHBM2Network" "table_ok configureHBM3Network"
  unfolding configureSRAMNetwork_def configureSTTMRAMNetwork_def configurePCMNetwork_def configureReRAMNetwork_def
    configureDDR3Network_def configureDDR4Network_def configureLPDDR5Network_def configureGDDR6Network_def
    configureHBM2Network_def configureHBM3Network_def
  by (rule table_okI; simp add: entry_ok_def rnd_le_100)+

lemma table_ok_DDR5:
  assumes "0 < grade" and "grade \<le> 200000"
  shows "table_ok (configureDDR5Network grade)"
proof -
  have "0 < d_div (of_int grade) 2000" "d_div (of_int grade) 2000 \<le> 100" using assms by (simp_all add: d_div_def rnd_le_100)
  then show ?thesis unfolding configureDDR5Network_def Let_def by (intro table_okI) (simp_all add: entry_ok_def)
qed

lemma configure_technology_ok:
  assumes "0 < grade" and "grade \<le> 200000"
  obtains tbl where "length tbl = 7" and "list_all entry_ok tbl" and "configure_technology grade d = configure_levels tbl d"
proof -
  have "\<exists>f. table_ok f \<and> configure_technology grade d = f d"
    unfolding configure_technology_def Let_def using tables_ok table_ok_DDR5 [OF assms] by (auto split: if_split)
  then show thesis using that by (auto simp: table_ok_def)
qed

lemma bandwidth_bounds:
  assumes "8 \<le> w" and "w \<le> 512" and "8 dvd w" and "0 < f" and "f \<le> 100"
  shows "0 < link_bandwidth w f" and "link_bandwidth w f \<le> 10000"
proof -
  obtain k where k: "w = 8 * k" using assms(3) by auto
  then have bounds: "1 \<le> k" "k \<le> 64" using assms(1,2) by auto
  have "d_div (of_int w) 8 = of_int k" using k bounds rnd_int [of k] by (simp add: d_div_def)
  then have bw: "link_bandwidth w f = rnd (of_int k * f)" by (simp add: link_bandwidth_def d_mul_def)
  show "0 < link_bandwidth w f" unfolding bw using bounds assms(4) by simp
  have "of_int k * f \<le> 64 * 100" using bounds assms(4,5) by (intro mult_mono) auto
  then show "link_bandwidth w f \<le> 10000" unfolding bw using rnd_le_int [of "of_int k * f" 10000] by simp
qed

lemma set_level_ok: "entry_ok e \<Longrightarrow> link_ok (router_defaults (set_level e l\<lparr>il_num_nodes := n\<rparr>))"
  by (auto simp: entry_ok_def link_ok_def router_defaults_def set_level_def bandwidth_bounds split: prod.splits)

lemma list_all_map2: "length xs = length ys \<Longrightarrow> (\<And>i. i < length xs \<Longrightarrow> P (f (xs ! i) (ys ! i))) \<Longrightarrow> list_all P (map2 f xs ys)"
  by (simp add: list_all_length)

definition lengths_ok :: "InternalDRAMNetwork \<Rightarrow> bool" where
  "lengths_ok d \<longleftrightarrow> length (dn_network_configs d) = 7 \<and> length (dn_bridges d) = 6 \<and> length (dn_garnet_networks d) = 7 \<and>
     length (dn_bridge_garnet_networks d) = 6 \<and> length (dn_level_models d) = 7 \<and> length (dn_tier_md1_state d) = 7 \<and>
     length (dn_bridge_md1_state d) = 6 \<and> length (dn_network_accesses d) = 7 \<and> length (dn_queue_limits d) = 7 \<and>
     length (dn_network_queues d) = 7 \<and> length (dn_bridge_buffers d) = 6"

definition hier_ok :: "InternalDRAMNetwork \<Rightarrow> bool" where
  "hier_ok d \<longleftrightarrow> lengths_ok d \<and> list_all link_ok (dn_network_configs d) \<and> list_all bridge_ok (dn_bridges d)"

lemma lengths_init: "lengths_ok (InternalDRAMNetwork_init t)"
  by (simp add: lengths_ok_def InternalDRAMNetwork_init_def)

lemma initialize_ok:
  assumes "0 < grade" and "grade \<le> 200000" and len: "lengths_ok d"
  shows "hier_ok (dn_initialize grade sa ba bg ch d)"
    and "get_nodes (dn_initialize grade sa ba bg ch d) i = [sa, ba, bg, ch, 2, 2, 1] ! i"
    and "dn_bridge_garnet_networks (dn_initialize grade sa ba bg ch d) = dn_bridge_garnet_networks d"
    and "dn_garnet_networks (dn_initialize grade sa ba bg ch d) = dn_garnet_networks d"
proof -
  let ?d = "d\<lparr>dn_num_subarrays_per_bank := sa, dn_num_banks_per_bg := ba, dn_num_bg_per_chip := bg, dn_num_chips_per_rank := ch\<rparr>"
  let ?e = "dn_initialize grade sa ba bg ch d"
  obtain tbl where tbl: "length tbl = 7" "list_all entry_ok tbl" "configure_technology grade ?d = configure_levels tbl ?d"
    using configure_technology_ok [OF assms(1,2)] by metis
  note defs = dn_initialize_def Let_def tbl(3) configure_levels_def resetStats_def initializeBridgeDefaults_def
  let ?t = "if isDRAM (dn_technology d) then 2 else 1"
  have "dn_network_configs ?e = map2 (\<lambda>n l. router_defaults (l\<lparr>il_num_nodes := n\<rparr>)) [sa, ba, bg, ch, ?t, ?t, 1] (map2 set_level tbl (dn_network_configs d))"
    unfolding defs by simp
  moreover have "list_all link_ok (map2 (\<lambda>n l. router_defaults (l\<lparr>il_num_nodes := n\<rparr>)) [sa, ba, bg, ch, ?t, ?t, 1] (map2 set_level tbl (dn_network_configs d)))"
    using tbl(1,2) len by (intro list_all_map2) (simp_all add: list_all_length set_level_ok lengths_ok_def)
  ultimately have "list_all link_ok (dn_network_configs ?e)" by (simp only:)
  moreover have "list_all bridge_ok (dn_bridges ?e)"
    unfolding defs by (simp add: list_all_iff bridge_ok_def BridgeConfig_make_def)
  moreover have "lengths_ok ?e" unfolding defs using tbl(1) len by (simp add: lengths_ok_def)
  ultimately show "hier_ok ?e" by (simp add: hier_ok_def)
  show "get_nodes ?e i = [sa, ba, bg, ch, 2, 2, 1] ! i" "dn_bridge_garnet_networks ?e = dn_bridge_garnet_networks d"
    "dn_garnet_networks ?e = dn_garnet_networks d"
    unfolding defs by (simp_all add: get_nodes_def)
qed

section \<open>Construction\<close>

lemma add_nodes_Suc: "add_nodes (Suc n) g = addNode (NetworkNode_make (word_of_nat n) PE_SUBARRAY (word_of_nat n)) (add_nodes n g)"
  by (simp add: add_nodes_def)

lemma add_nodes_0 [simp]: "add_nodes 0 g = g"
  by (simp add: add_nodes_def)

lemma add_nodes_ok: "garnet_ok g \<Longrightarrow> garnet_ok (add_nodes n g)"
  by (induction n) (simp_all add: add_nodes_Suc)

lemma add_nodes_fields:
  "gm_config (add_nodes n g) = gm_config g" "length (gm_nodes (add_nodes n g)) = length (gm_nodes g) + n"
  by (induction n) (simp_all add: add_nodes_Suc addNode_def)

lemma add_nodes_find: "i < n \<Longrightarrow> smap_find (word_of_nat i) (gm_injection (add_nodes n g)) = Some []"
  by (induction n) (auto simp: add_nodes_Suc addNode_def NetworkNode_make_def smap_find_put less_Suc_eq)

lemma init_fields: "gm_nodes (GarnetModel_init c) = []" "gm_config (GarnetModel_init c) = c"
  by (simp_all add: GarnetModel_init_def)

definition network_of :: "int \<Rightarrow> GarnetModel \<Rightarrow> bool" where
  "network_of n g \<longleftrightarrow> garnet_ok g \<and> int (length (gm_nodes g)) = n \<and> (\<forall>i<nat n. canInject g (word_of_nat i))"

lemma htree_network:
  assumes "0 \<le> n"
  shows "network_of n (add_nodes (nat n) (garnet_initialize (GarnetModel_init (htree_config n w lat))))"
proof -
  have init: "garnet_initialize (GarnetModel_init (htree_config n w lat)) = GarnetModel_init (htree_config n w lat)"
    by (simp add: garnet_initialize_def GarnetModel_init_def htree_config_def)
  show ?thesis unfolding init network_of_def using assms
    by (simp add: add_nodes_ok add_nodes_fields canInject_def add_nodes_find init_fields) (simp add: htree_config_def)
qed

lemma level_garnet_cases:
  assumes "hier_ok d" and "i < 7"
  shows "level_garnet d i =
    (if get_nodes d i \<le> 1 then Inr None
     else if 1024 < get_nodes d i then Inl Nodes_over_limit
     else let l = dn_network_configs d ! i in
       Inr (Some (add_nodes (nat (get_nodes d i))
         (garnet_initialize (GarnetModel_init (htree_config (get_nodes d i) (il_link_width_bits l) (il_latency_cycles l)))))))"
proof -
  let ?l = "dn_network_configs d ! i"
  have ok: "link_ok ?l" using assms by (simp add: hier_ok_def lengths_ok_def list_all_length)
  then have "il_link_width_bits ?l smod 8 = 0" by (auto simp: link_ok_def signed_modulo_int_def sgn_mod dvd_eq_mod_eq_0 elim: dvdE)
  then show ?thesis using ok by (auto simp: level_garnet_def Let_def createGarnetHTreeForDRAM_def link_ok_def)
qed

lemma collect_Inr: "\<forall>x\<in>set xs. \<not> isl x \<Longrightarrow> collect xs = Inr (map projr xs)"
  by (induction xs rule: collect.induct) auto

lemma collect_Inl: "\<forall>x\<in>set xs. isl x \<longrightarrow> x = Inl e \<Longrightarrow> \<exists>x\<in>set xs. isl x \<Longrightarrow> collect xs = Inl e"
  by (induction xs rule: collect.induct) auto

lemma collect_upt: "\<forall>i<n. isl (f i) \<longrightarrow> f i = Inl e \<Longrightarrow> \<exists>i<n. isl (f i) \<Longrightarrow> collect (map f [0..<n]) = Inl e"
  by (rule collect_Inl) auto

definition too_many :: "InternalDRAMNetwork \<Rightarrow> bool" where
  "too_many d \<longleftrightarrow> (\<exists>i\<in>{0..<7}. 1024 < get_nodes d i)"

lemma enable_ok:
  assumes "hier_ok d" and "\<not> too_many d"
  obtains e where "enableGarnetSimulation True d = Inr e" and "hier_ok e"
    and "\<And>i. i < 7 \<Longrightarrow> (case dn_garnet_networks e ! i of None \<Rightarrow> get_nodes e i \<le> 1 | Some g \<Rightarrow> 1 < get_nodes e i \<and> network_of (get_nodes e i) g)"
    and "\<And>i. get_nodes e i = get_nodes d i"
proof
  let ?gs = "map (projr \<circ> level_garnet d) [0..<7]"
  let ?e = "d\<lparr>dn_use_garnet_models := True, dn_garnet_networks := ?gs, dn_level_models := replicate 7 NM_DETAILED\<rparr>"
  have "\<not> isl (level_garnet d i)" if "i < 7" for i
    using level_garnet_cases [OF assms(1) that] assms(2) that by (auto simp: too_many_def Let_def)
  then have "collect (map (level_garnet d) [0..<7]) = Inr ?gs" using collect_Inr [of "map (level_garnet d) [0..<7]"] by simp
  then show "enableGarnetSimulation True d = Inr ?e" by (simp add: enableGarnetSimulation_def)
  show "hier_ok ?e" using assms(1) by (simp add: hier_ok_def lengths_ok_def)
  show nodes: "get_nodes ?e i = get_nodes d i" for i by (simp add: get_nodes_def)
  show "case dn_garnet_networks ?e ! i of None \<Rightarrow> get_nodes ?e i \<le> 1 | Some g \<Rightarrow> 1 < get_nodes ?e i \<and> network_of (get_nodes ?e i) g" if "i < 7" for i
    using level_garnet_cases [OF assms(1) that] assms(2) that unfolding nodes by (auto simp: too_many_def Let_def htree_network)
qed

lemma enable_refused:
  assumes "hier_ok d" and "too_many d"
  shows "enableGarnetSimulation True d = Inl Nodes_over_limit"
proof -
  have "\<forall>i<7. isl (level_garnet d i) \<longrightarrow> level_garnet d i = Inl Nodes_over_limit"
    using level_garnet_cases [OF assms(1)] by (auto simp: Let_def)
  moreover obtain i where i: "i < 7" "1024 < get_nodes d i" using assms(2) by (auto simp: too_many_def)
  then have "\<exists>i<7. isl (level_garnet d i)"
    using level_garnet_cases [OF assms(1) i(1)] by (intro exI [of _ i]) simp
  ultimately have "collect (map (level_garnet d) [0..<7]) = Inl Nodes_over_limit" by (rule collect_upt)
  then show ?thesis by (simp add: enableGarnetSimulation_def)
qed

lemma nth_seven: "(\<exists>i\<in>{0..<7}. P ([a, b, c, d, e, f, g] ! i)) \<longleftrightarrow> P a \<or> P b \<or> P c \<or> P d \<or> P e \<or> P f \<or> P g"
proof -
  have "{0..<7::nat} = {0, 1, 2, 3, 4, 5, 6}" by auto
  then show ?thesis by simp
qed

text \<open>
  C32: The construction of the network succeeds for every technology name, except that a detailed network refuses more
  than 1024 nodes at a level. What it makes is well-formed, and there is a network at exactly the levels
  with more than one node, if detailed ones are wanted; it has that number of nodes, and each of them can inject.
\<close>

theorem created_network_ok:
  assumes "0 < grade" and "grade \<le> 200000"
  shows "case createHierarchicalNetwork grade t sa ba bg ch use of
      Inl e \<Rightarrow> e = Nodes_over_limit \<and> use \<and> (\<exists>n\<in>{sa, ba, bg, ch}. 1024 < n)
    | Inr d \<Rightarrow> \<not> (use \<and> (\<exists>n\<in>{sa, ba, bg, ch}. 1024 < n)) \<and> hier_ok d \<and>
        (\<forall>i<7. get_nodes d i = [sa, ba, bg, ch, 2, 2, 1] ! i \<and>
           (case dn_garnet_networks d ! i of None \<Rightarrow> use \<longrightarrow> get_nodes d i \<le> 1
            | Some g \<Rightarrow> use \<and> 1 < get_nodes d i \<and> network_of (get_nodes d i) g))"
proof -
  let ?d = "dn_initialize grade sa ba bg ch (InternalDRAMNetwork_init t)"
  note ok = initialize_ok [OF assms lengths_init, where t1 = t]
  have many: "too_many ?d \<longleftrightarrow> (\<exists>n\<in>{sa, ba, bg, ch}. 1024 < n)"
    unfolding too_many_def ok(2) nth_seven by auto
  show ?thesis
  proof (cases "use")
    case False
    then show ?thesis using ok by (simp add: createHierarchicalNetwork_def Let_def InternalDRAMNetwork_init_def [of t])
  next
    case True
    then have c: "createHierarchicalNetwork grade t sa ba bg ch use = enableGarnetSimulation True ?d"
      by (simp add: createHierarchicalNetwork_def)
    show ?thesis
    proof (cases "too_many ?d")
      case True
      then show ?thesis using \<open>use\<close> many unfolding c enable_refused [OF ok(1) True] by simp
    next
      case False
      obtain e where e: "enableGarnetSimulation True ?d = Inr e" "hier_ok e"
          "\<And>i. i < 7 \<Longrightarrow> (case dn_garnet_networks e ! i of None \<Rightarrow> get_nodes e i \<le> 1 | Some g \<Rightarrow> 1 < get_nodes e i \<and> network_of (get_nodes e i) g)"
          "\<And>i. get_nodes e i = get_nodes ?d i"
        using enable_ok [OF ok(1) False] by blast
      have "case dn_garnet_networks e ! i of None \<Rightarrow> use \<longrightarrow> get_nodes e i \<le> 1 | Some g \<Rightarrow> use \<and> 1 < get_nodes e i \<and> network_of (get_nodes e i) g"
        if "i < 7" for i using e(3) [OF that] \<open>use\<close> by (simp split: option.splits)
      moreover have "get_nodes e i = [sa, ba, bg, ch, 2, 2, 1] ! i" for i unfolding e(4) by (rule ok(2))
      ultimately show ?thesis using e(2) False many unfolding c e(1) by simp
    qed
  qed
qed

text \<open>Four subarrays, three banks, one bank group and one chip: networks at the first two levels and above the chips.\<close>

theorem created_network_ok_witness:
  "map (\<lambda>g. g \<noteq> None) (dn_garnet_networks (projr (createHierarchicalNetwork 4800 ''DDR5'' 4 3 1 1 True))) = [True, True, False, False, True, True, False]"
proof -
  have "map (\<lambda>g. g \<noteq> None) (dn_garnet_networks d) = [True, True, False, False, True, True, False]"
    if d: "createHierarchicalNetwork 4800 ''DDR5'' 4 3 1 1 True = Inr d" for d
  proof -
    note th = created_network_ok [where grade = 4800 and t = "''DDR5''" and sa = 4 and ba = 3 and bg = 1 and ch = 1 and use = True, unfolded d sum.case]
    have "length (dn_garnet_networks d) = 7" using th by (simp add: hier_ok_def lengths_ok_def)
    have "(dn_garnet_networks d ! i \<noteq> None) = (1 < ([4, 3, 1, 1, 2, 2, 1] ! i :: int))" if "i < 7" for i
    proof -
      have "get_nodes d i = [4, 3, 1, 1, 2, 2, 1] ! i \<and>
          (case dn_garnet_networks d ! i of None \<Rightarrow> True \<longrightarrow> get_nodes d i \<le> 1 | Some g \<Rightarrow> True \<and> 1 < get_nodes d i \<and> network_of (get_nodes d i) g)"
        using th that by simp
      then show ?thesis by (cases "dn_garnet_networks d ! i") auto
    qed
    then have "map (\<lambda>g. g \<noteq> None) (dn_garnet_networks d) = map (\<lambda>i. 1 < ([4, 3, 1, 1, 2, 2, 1] ! i :: int)) [0..<7]"
      using \<open>length _ = 7\<close> by (intro nth_equalityI) simp_all
    then show ?thesis by (simp add: upt_rec)
  qed
  moreover have "\<not> isl (createHierarchicalNetwork 4800 ''DDR5'' 4 3 1 1 True)"
    using created_network_ok [where grade = 4800 and t = "''DDR5''" and sa = 4 and ba = 3 and bg = 1 and ch = 1 and use = True] by (auto split: sum.splits)
  ultimately show "map (\<lambda>g. g \<noteq> None) (dn_garnet_networks (projr (createHierarchicalNetwork 4800 ''DDR5'' 4 3 1 1 True))) = [True, True, False, False, True, True, False]"
    by (cases "createHierarchicalNetwork 4800 ''DDR5'' 4 3 1 1 True") simp_all
qed

section \<open>Switches\<close>

text \<open>
  The two descriptions of the switches agree: the configuration of the hierarchy has at each level the number
  of switches that the query for the level returns, custom levels included, and without custom levels
  the numbers add up to the total.
\<close>

theorem switch_counts_agree:
  assumes "length (sh_levels (dn_custom_switch_config d)) = 7"
  shows "map nl_num_switches (sh_levels (getSwitchHierarchyConfig d channels ranks)) = map (\<lambda>i. getNumberOfSwitchesAtLevel d i channels ranks) [0..6] \<and>
    (\<not> dn_use_custom_switch_config d \<longrightarrow>
      getTotalNumberOfSwitches d channels ranks = sum_list (map (\<lambda>i. getNumberOfSwitchesAtLevel d i channels ranks) [0..6]))"
proof -
  obtain a b c e f g h where l: "sh_levels (dn_custom_switch_config d) = [a, b, c, e, f, g, h]"
    using assms by (auto simp: numeral_eq_Suc length_Suc_conv)
  have "[0..6::int] = [0, 1, 2, 3, 4, 5, 6]" by (simp add: upto_rec1)
  then show ?thesis
    by (simp add: getSwitchHierarchyConfig_def getNumberOfSwitchesAtLevel_def getTotalNumberOfSwitches_def Let_def l NetworkLevelConfig_init_def)
qed

theorem switch_counts_agree_witness:
  "map nl_num_switches (sh_levels (getSwitchHierarchyConfig (dn_initialize 4800 512 4 4 8 (InternalDRAMNetwork_init ''HBM3'')) 2 1)) =
     [256, 64, 64, 16, 2, 2, 1] \<and>
   getTotalNumberOfSwitches (dn_initialize 4800 512 4 4 8 (InternalDRAMNetwork_init ''HBM3'')) 2 1 = 405"
proof -
  let ?d = "dn_initialize 4800 512 4 4 8 (InternalDRAMNetwork_init ''HBM3'')"
  have d: "dn_num_chips_per_rank ?d = 8" "dn_num_bg_per_chip ?d = 4" "dn_num_banks_per_bg ?d = 4" "\<not> dn_use_custom_switch_config ?d"
      "length (sh_levels (dn_custom_switch_config ?d)) = 7"
    by (simp_all add: dn_initialize_def InternalDRAMNetwork_init_def resetStats_def initializeBridgeDefaults_def configure_technology_def
        configureHBM3Network_def configure_levels_def SwitchHierarchyConfig_init_def Let_def)
  have "[0..6::int] = [0, 1, 2, 3, 4, 5, 6]" by (simp add: upto_rec1)
  then show ?thesis using switch_counts_agree [OF d(5), of 2 1] d by (simp add: getNumberOfSwitchesAtLevel_def Let_def)
qed

text \<open>The total does not know the custom levels.\<close>

lemma total_ignores_custom: "getTotalNumberOfSwitches (setCustomSwitchHierarchy c d) = getTotalNumberOfSwitches d"
  by (intro ext) (simp add: getTotalNumberOfSwitches_def setCustomSwitchHierarchy_def)

section \<open>Factories of single levels\<close>

text \<open>
  Without the detailed tree, the networks of single levels are made for a topology for which \<^verbatim>\<open>initialize\<close> makes no nodes.
  They refuse every packet.
\<close>

lemma simple_networks_refuse:
  assumes "topo \<noteq> MESH_2D" and "create_level_network level ps topo routing pipeline latency n False = Inr g"
  shows "\<not> canInject g i"
  using assms by (auto simp: create_level_network_def garnet_initialize_def GarnetModel_init_def canInject_def
      split: prod.splits NetworkTopology.splits)

section \<open>Settings\<close>

text \<open>The arrays of the network keep their lengths: every index the program uses stays in range.\<close>

lemma map_sum_Inr: "map_sum f g x = Inr y \<longleftrightarrow> (\<exists>z. x = Inr z \<and> y = g z)"
  by (cases x) auto

lemma settings_keep_lengths:
  assumes "lengths_ok d"
  shows "lengths_ok (setCustomSwitchHierarchy c d)" "lengths_ok (setBridgeModel b nm d)" "lengths_ok (setRouterPipeStages n d)"
    "lengths_ok (setTopLevelNodeCounts r ch d)" "lengths_ok (applySourcedLadder w bw d)" "lengths_ok (resetStats d)"
    "lengths_ok (overrideLevelConfig m l width freq latency topo rl rp rb vn vc ib ob d)"
    "lengths_ok (overrideBridgeConfig b rl rp rb vn vc ib ob d)"
    "setLevelModel l nm d = Inr e \<Longrightarrow> lengths_ok e" "enableGarnetSimulation on d = Inr e \<Longrightarrow> lengths_ok e"
proof -
  have collect: "length gs = length xs" if "collect xs = Inr gs" for xs :: "(net_error + GarnetModel option) list" and gs
    using that by (induction xs arbitrary: gs rule: collect.induct) (auto simp: map_sum_Inr)
  show "lengths_ok (setCustomSwitchHierarchy c d)" "lengths_ok (setRouterPipeStages n d)" "lengths_ok (resetStats d)"
    "lengths_ok (setTopLevelNodeCounts r ch d)" "lengths_ok (applySourcedLadder w bw d)"
    "lengths_ok (overrideLevelConfig m l width freq latency topo rl rp rb vn vc ib ob d)"
    "lengths_ok (overrideBridgeConfig b rl rp rb vn vc ib ob d)" "lengths_ok (setBridgeModel b nm d)"
    using assms by (simp_all add: lengths_ok_def setCustomSwitchHierarchy_def setBridgeModel_def setRouterPipeStages_def
        setTopLevelNodeCounts_def applySourcedLadder_def resetStats_def overrideLevelConfig_def overrideBridgeConfig_def resize_buffers_def Let_def)
  show "lengths_ok e" if "setLevelModel l nm d = Inr e"
  proof -
    have step: "lengths_ok (d\<lparr>dn_level_models := (dn_level_models d)[i := x]\<rparr>)"
        "lengths_ok (d\<lparr>dn_level_models := (dn_level_models d)[i := x], dn_garnet_networks := (dn_garnet_networks d)[i := g], dn_use_garnet_models := u\<rparr>)"
      for x i g u using assms by (simp_all add: lengths_ok_def)
    have resize: "lengths_ok x \<Longrightarrow> lengths_ok (resize_buffers i n x)" for i n x by (simp add: lengths_ok_def resize_buffers_def)
    show ?thesis using that assms unfolding setLevelModel_def Let_def map_sum_Inr
      by (simp add: map_sum_Inr split: if_split_asm) (auto intro!: resize step)
  qed
  show "lengths_ok e" if "enableGarnetSimulation on d = Inr e"
  proof (cases on)
    case True
    then obtain gs where gs: "collect (map (level_garnet d) [0..<7]) = Inr gs"
        "e = d\<lparr>dn_use_garnet_models := True, dn_garnet_networks := gs, dn_level_models := replicate 7 NM_DETAILED\<rparr>"
      using \<open>enableGarnetSimulation on d = Inr e\<close> by (auto simp: enableGarnetSimulation_def map_sum_Inr simp del: upt_rec_numeral)
    then show ?thesis using assms collect [OF gs(1)] by (simp add: lengths_ok_def del: upt_rec_numeral)
  next
    case False
    then show ?thesis using that assms by (auto simp: lengths_ok_def enableGarnetSimulation_def)
  qed
qed

text \<open>The numbers of ranks and channels that are set do not reach the detailed networks: they have two nodes at these levels, whatever is set.\<close>

lemma detailed_ignores_node_counts: "get_nodes (setTopLevelNodeCounts ranks channels d) = get_nodes d"
  by (intro ext) (simp add: get_nodes_def setTopLevelNodeCounts_def Let_def)

end
