(* ===== verification/Mem_Latency.thy ===== *)
theory Mem_Latency
  imports Mem_Build
begin

text \<open>
  What a transfer costs in the in-memory network (src/memory/internal_dram_network.cpp): the average number of hops
  of a topology, the crossing of a level and of a bridge in nanoseconds, and the latencies in cycles with
  the queueing delay that depends on the recent rate of accesses. The roots, logarithms and powers of the C library are the
  parameter \<open>m\<close>.
\<close>

section \<open>Topologies\<close>

text \<open>The sums over the distances in a binary tree with \<open>L\<close> levels, from the leaves: the hops, the pairs and the size of a subtree.\<close>

fun tree_hops :: "int \<Rightarrow> nat \<Rightarrow> int \<Rightarrow> double \<Rightarrow> int \<Rightarrow> double \<times> int" where
  "tree_hops L 0 subtree hops pairs = (hops, pairs)"
| "tree_hops L (Suc d) subtree hops pairs =
     (let prev = (if int (Suc d) = L then 1 else subtree sdiv 2);
          peers = subtree - prev;
          hop_count = 2 * (L - int (Suc d))
      in tree_hops L d (subtree * 2) (d_add hops (d_mul (of_int peers) (of_int hop_count))) (pairs + peers))"

definition avgHops :: "libm \<Rightarrow> string \<Rightarrow> int \<Rightarrow> double" where
  "avgHops m topology N =
     (if N \<le> 1 then 0
      else if N = 2 then 1
      else if topology \<in> {''crossbar'', ''bus''} then 0
      else if topology \<in> {''point-to-point'', ''point_to_point''} then 1
      else if topology = ''ring''
        then (if N smod 2 = 0 then d_div (of_int (N * N)) (d_mul 4 (of_int (N - 1))) else d_div (of_int (N + 1)) 4)
      else if topology \<in> {''mesh'', ''mesh_2d''}
        then (let k = d_ceil (m_sqrt m (of_int N)) in d_div (d_mul 2 (d_sub (d_mul k k) 1)) (d_mul 3 k))
      else if topology \<in> {''torus'', ''torus_2d''}
        then (let k = d_ceil (m_sqrt m (of_int N))
              in if d_trunc k smod 2 = 0 then d_mul 2 (d_div k 4) else d_div (d_mul 2 (d_sub (d_mul k k) 1)) (d_mul 4 k))
      else if topology \<in> {''fat_tree'', ''h_tree''}
        then (let L = d_trunc (d_ceil (d_div (m_log m (of_int N)) (m_log m 2)));
                  (hops, pairs) = tree_hops L (nat L) 2 0 0
              in if pairs > 0 then d_div hops (of_int pairs) else 0)
      else 0)"

definition totalChannels :: "libm \<Rightarrow> string \<Rightarrow> int \<Rightarrow> int" where
  "totalChannels m topology N =
     (if N \<le> 1 then 1
      else if topology = ''bus'' then 1
      else if topology = ''crossbar'' then N
      else if topology = ''ring'' then 2 * N
      else if topology \<in> {''mesh'', ''mesh_2d''}
        then (let k = d_trunc (d_ceil (m_sqrt m (of_int N))) in 4 * k * (k - 1))
      else if topology \<in> {''torus'', ''torus_2d''}
        then (let k = d_trunc (d_ceil (m_sqrt m (of_int N))) in 4 * k * k)
      else if topology \<in> {''fat_tree'', ''h_tree''}
        then (let levels = d_trunc (d_ceil (m_log2 m (of_int N))); total_routers = 2 ^ nat levels - 1
              in 2 * max 1 (total_routers - 1))
      else N)"

definition hotspotFactor :: "string \<Rightarrow> double" where
  "hotspotFactor topology =
     (if topology \<in> {''bus'', ''crossbar''} then 1
      else if topology = ''ring'' then 1
      else if topology \<in> {''mesh'', ''mesh_2d''} then 2
      else if topology \<in> {''torus'', ''torus_2d''} then 3.5
      else if topology \<in> {''fat_tree'', ''h_tree''} then 1.5
      else 1)"

section \<open>Crossings in nanoseconds\<close>

definition router_stages :: "bool \<Rightarrow> int \<Rightarrow> int" where
  "router_stages bypass latency = (if bypass \<and> latency > 1 then max 1 (latency - 1) else latency)"

definition positive_or_1 :: "double \<Rightarrow> double" where
  "positive_or_1 f = (if f > 0 then f else 1)"

definition getTransferLatencyNs :: "libm \<Rightarrow> InternalDRAMNetwork \<Rightarrow> NetworkLevel \<Rightarrow> u64 \<Rightarrow> bool \<Rightarrow> double" where
  "getTransferLatencyNs m d level data_bytes with_router =
     (let link = dn_network_configs d ! levelToIndex level;
          f_ghz = positive_or_1 (il_frequency_GHz link);
          hops = avgHops m (il_topology link) (il_num_nodes link);
          per_hop_router = (if with_router then router_stages (hops \<le> 1 \<and> il_router_bypass link) (il_router_latency link) else 0);
          hops_charged = max 1 hops;
          per_hop = of_int (per_hop_router + il_latency_cycles link);
          width = of_int (if il_link_width_bits link > 0 then il_link_width_bits link else 1);
          serialization = d_ceil (d_div (d_mul (d_of_u64 data_bytes) 8) width)
      in d_div (d_add (d_mul hops_charged per_hop) serialization) f_ghz)"

definition getTransferLatency :: "libm \<Rightarrow> InternalDRAMNetwork \<Rightarrow> NetworkLevel \<Rightarrow> u64 \<Rightarrow> u64" where
  "getTransferLatency m d level data_bytes =
     (let link = dn_network_configs d ! levelToIndex level;
          f_ghz = positive_or_1 (il_frequency_GHz link);
          base = u64_of_d (d_ceil (d_mul (getTransferLatencyNs m d level data_bytes True) f_ghz))
      in if base = 0 then 1 else base)"

definition getBridgeLatencyNs :: "InternalDRAMNetwork \<Rightarrow> int \<Rightarrow> double \<Rightarrow> int \<Rightarrow> int \<Rightarrow> double" where
  "getBridgeLatencyNs d boundary base_ns_override router_latency_override router_bypass_override =
     (if boundary < 0 \<or> int NUM_TIER_BOUNDARIES \<le> boundary then 0
      else let br = dn_bridges d ! nat boundary;
               base_ns = (if base_ns_override \<ge> 0 then base_ns_override else br_latency_ns br);
               router = (if router_latency_override \<ge> 0 then router_latency_override else br_router_latency br);
               bypass = (if router_bypass_override \<ge> 0 then router_bypass_override \<noteq> 0 else br_router_bypass br);
               f = d_div (br_lower_frequency_mhz br) 1000
           in d_add (d_div (of_int (router_stages bypass router)) (if f \<le> 0 then 1 else f)) base_ns)"

definition levelRouterStages :: "libm \<Rightarrow> InternalDRAMNetwork \<Rightarrow> int \<Rightarrow> int" where
  "levelRouterStages m d level =
     (if level < 0 \<or> int NUM_HIERARCHY_LEVELS \<le> level then 1
      else let link = dn_network_configs d ! nat level
           in router_stages (avgHops m (il_topology link) (il_num_nodes link) \<le> 1 \<and> il_router_bypass link) (max 1 (il_router_latency link)))"

definition levelClockGHz :: "InternalDRAMNetwork \<Rightarrow> int \<Rightarrow> double" where
  "levelClockGHz d level =
     (if level < 0 \<or> int NUM_HIERARCHY_LEVELS \<le> level then 1 else positive_or_1 (il_frequency_GHz (dn_network_configs d ! nat level)))"

definition levelLinkLatencyNs :: "InternalDRAMNetwork \<Rightarrow> int \<Rightarrow> double" where
  "levelLinkLatencyNs d level =
     (if level < 0 \<or> int NUM_HIERARCHY_LEVELS \<le> level then 0
      else d_div (of_int (il_latency_cycles (dn_network_configs d ! nat level))) (levelClockGHz d level))"

definition calculateTransferTime :: "InternalNetworkLink \<Rightarrow> u64 \<Rightarrow> u64" where
  "calculateTransferTime link data_bytes =
     (if il_bandwidth_GBs link \<le> 0 \<or> il_frequency_GHz link \<le> 0 then max data_bytes 1
      else max (u64_of_d (d_ceil (d_mul (d_div (d_of_u64 data_bytes) (il_bandwidth_GBs link)) (il_frequency_GHz link)))) 1)"

section \<open>Queueing\<close>

definition MD1_WINDOW_CYCLES :: u64 where "MD1_WINDOW_CYCLES = 10000"

text \<open>An access is counted, and at the end of a window the rate is smoothed.\<close>

definition md1_access :: "u64 \<Rightarrow> MD1State \<Rightarrow> MD1State" where
  "md1_access cycle s =
     (let accesses = md_curWindowAccesses s + 1 in
      if md_lastUpdateCycle s + MD1_WINDOW_CYCLES \<le> cycle
      then let cur_rate = d_div (of_nat (unat accesses)) 10000
           in \<lparr>md_lastUpdateCycle = cycle,
               md_smoothedArrivalRate = d_add (d_mul 0.5 cur_rate) (d_mul (d_sub 1 0.5) (md_smoothedArrivalRate s)),
               md_curWindowAccesses = 0\<rparr>
      else s\<lparr>md_curWindowAccesses := accesses\<rparr>)"

definition vc_factor :: "libm \<Rightarrow> int \<Rightarrow> double" where
  "vc_factor m vcs = (if vcs > 1 then d_div 1 (m_sqrt m (of_int vcs)) else 1)"

definition at_least_1 :: "u64 \<Rightarrow> u64" where
  "at_least_1 base = (if base = 0 then 1 else base)"

definition tier_serialization :: "InternalNetworkLink \<Rightarrow> u64 \<Rightarrow> double" where
  "tier_serialization link data_bytes = d_ceil (d_div (d_mul (d_of_u64 data_bytes) 8) (of_int (il_link_width_bits link)))"

definition tier_base :: "libm \<Rightarrow> InternalNetworkLink \<Rightarrow> u64 \<Rightarrow> u64" where
  "tier_base m link data_bytes =
     (let hops = avgHops m (il_topology link) (il_num_nodes link);
          per_hop_router = router_stages (hops \<le> 1 \<and> il_router_bypass link) (il_router_latency link);
          per_hop = of_int (per_hop_router + il_latency_cycles link)
      in at_least_1 (u64_of_d (d_ceil (d_add (d_mul hops per_hop) (tier_serialization link data_bytes)))))"

definition tier_wait :: "libm \<Rightarrow> InternalNetworkLink \<Rightarrow> u64 \<Rightarrow> double \<Rightarrow> u64 \<Rightarrow> double" where
  "tier_wait m link data_bytes arrivalRate base =
     (let hops = avgHops m (il_topology link) (il_num_nodes link);
          serialization = tier_serialization link data_bytes;
          svcTime = (if serialization < 1 then 1 else serialization);
          N = of_int (il_num_nodes link);
          vcf = vc_factor m (il_virtual_networks link * il_virtual_channels_per_vn link)
      in if il_topology link = ''bus''
         then let rho = d_mul arrivalRate svcTime in
           (if rho \<ge> rnd 0.9 then d_mul 10 (d_of_u64 base)
            else if rho > rnd 0.01 then d_div (d_mul rho svcTime) (m_pow m (d_sub 1 rho) 1.5)
            else 0)
         else if il_topology link = ''crossbar''
         then let rhoPerOutput = d_mul (d_div arrivalRate (max N 1)) svcTime;
                  rhoEff = min (d_mul rhoPerOutput (rnd 1.58)) (rnd 0.95) in
           (if rhoEff > rnd 0.01 then d_div (d_mul rhoEff svcTime) (d_sub 1 rhoEff) else 0)
         else let channels = totalChannels m (il_topology link) (il_num_nodes link);
                  hopCount = max hops (rnd 0.01);
                  totalFlitHops = d_mul (d_mul arrivalRate svcTime) hopCount;
                  rhoAvg = d_div totalFlitHops (of_int channels);
                  rhoMax = d_mul rhoAvg (hotspotFactor (il_topology link)) in
           (if rhoMax \<ge> 0.75 then d_mul 10 (d_of_u64 base)
            else if rhoMax > rnd 0.01 then d_mul (d_div (d_mul (d_mul vcf rhoMax) svcTime) (d_sub 1 rhoMax)) hopCount
            else 0))"

definition rounded_latency :: "u64 \<Rightarrow> double \<Rightarrow> u64" where
  "rounded_latency base wait = u64_of_d (d_add (d_add (d_of_u64 base) wait) 0.5)"

text \<open>The addresses are not used. Detailed levels have their own timing.\<close>

definition getTierLatency :: "libm \<Rightarrow> nat \<Rightarrow> u64 \<Rightarrow> InternalDRAMNetwork \<Rightarrow> u64 \<times> InternalDRAMNetwork" where
  "getTierLatency m level data_bytes d =
     (if dn_level_models d ! level = NM_DETAILED \<and> dn_use_garnet_models d \<and> dn_garnet_networks d ! level \<noteq> None then (0, d)
      else let link = dn_network_configs d ! level;
               base = tier_base m link data_bytes;
               s = md1_access (dn_current_cycle d) (dn_tier_md1_state d ! level)
           in (rounded_latency base (tier_wait m link data_bytes (md_smoothedArrivalRate s) base),
               d\<lparr>dn_tier_md1_state := (dn_tier_md1_state d)[level := s]\<rparr>))"

definition bridge_base :: "BridgeConfig \<Rightarrow> u64 \<Rightarrow> u64" where
  "bridge_base br data_bytes =
     (let serialization = d_ceil (d_div (d_mul (d_of_u64 data_bytes) 8) (of_int (min (br_lower_width_bits br) (br_upper_width_bits br))))
      in at_least_1 (u64_of_d (d_ceil
           (d_add (d_add (of_int (router_stages (br_router_bypass br) (br_router_latency br))) (br_latency_ns br)) serialization))))"

definition bridge_wait :: "libm \<Rightarrow> BridgeConfig \<Rightarrow> double \<Rightarrow> u64 \<Rightarrow> double" where
  "bridge_wait m br arrivalRate base =
     (let service = d_div (d_of_u64 base) (of_int (max 1 (br_count br)));
          rho = d_mul arrivalRate service;
          vcf = vc_factor m (br_virtual_networks br * br_virtual_channels_per_vn br)
      in if rho \<ge> rnd 0.95 then d_mul 10 (d_of_u64 base)
         else if rho > rnd 0.01 then d_div (d_mul vcf (d_mul rho service)) (d_mul 2 (d_sub 1 rho))
         else 0)"

definition getBridgeLatency :: "libm \<Rightarrow> int \<Rightarrow> u64 \<Rightarrow> InternalDRAMNetwork \<Rightarrow> u64 \<times> InternalDRAMNetwork" where
  "getBridgeLatency m boundary data_bytes d =
     (if boundary < 0 \<or> int NUM_TIER_BOUNDARIES \<le> boundary then (0, d)
      else let b = nat boundary; br = dn_bridges d ! b in
        if br_model br = NM_DETAILED \<and> dn_bridge_garnet_networks d ! b \<noteq> None then (0, d)
        else let base = bridge_base br data_bytes;
                 s = md1_access (dn_current_cycle d) (dn_bridge_md1_state d ! b)
             in (rounded_latency base (bridge_wait m br (md_smoothedArrivalRate s) base),
                 d\<lparr>dn_bridge_md1_state := (dn_bridge_md1_state d)[b := s]\<rparr>))"

section \<open>Bounds of the latencies\<close>

declare of_nat_unat [simp del]

lemma u64_of_d_bounds:
  assumes "of_nat a \<le> x" and "x \<le> of_nat b" and "b < 2 ^ 64"
  shows "a \<le> unat (u64_of_d x)" and "unat (u64_of_d x) \<le> b"
proof -
  have x0: "0 \<le> x" using assms(1) of_nat_0_le_iff [of a, where 'a = rat] by linarith
  have f: "int a \<le> \<lfloor>x\<rfloor>" "\<lfloor>x\<rfloor> \<le> int b" using assms(1,2) by (simp add: le_floor_iff, simp add: floor_le_iff)
  moreover have "int b < 2 ^ 64" using assms(3) by simp
  ultimately have "\<lfloor>x\<rfloor> mod 2 ^ 64 = \<lfloor>x\<rfloor>" by (intro mod_pos_pos_trivial) linarith+
  then have "int (unat (u64_of_d x)) = \<lfloor>x\<rfloor>" using x0 assms(3) f by (simp add: u64_of_d_def d_trunc_def unat_eq_nat_uint uint_word_of_int)
  then show "a \<le> unat (u64_of_d x)" "unat (u64_of_d x) \<le> b" using f by linarith+
qed

lemma d_of_u64_exact: "unat w \<le> 2 ^ 53 \<Longrightarrow> d_of_u64 w = of_nat (unat w)"
  by (simp add: d_of_u64_def rnd_nat)

lemma rnd_ge_nat: "of_nat n \<le> x \<Longrightarrow> n \<le> 2 ^ 53 \<Longrightarrow> of_nat n \<le> rnd x"
  using rnd_ge_int [of "int n" x] by simp

lemma rnd_le_nat: "x \<le> of_nat n \<Longrightarrow> n \<le> 2 ^ 53 \<Longrightarrow> rnd x \<le> of_nat n"
  using rnd_le_int [of x "int n"] by simp

lemma rounded_latency_bounds:
  assumes "0 \<le> wait" and "wait \<le> of_nat (K * unat base)" and "Suc K * unat base + 1 \<le> 2 ^ 53"
  shows "unat base \<le> unat (rounded_latency base wait)" and "unat (rounded_latency base wait) \<le> Suc K * unat base + 1"
proof -
  let ?b = "unat base"
  let ?s = "d_add (d_of_u64 base) wait"
  have b: "?b \<le> 2 ^ 53" using assms(3) by simp
  have "of_nat ?b + wait \<le> of_nat (Suc K * ?b)" using assms(2) by simp
  then have s: "of_nat ?b \<le> ?s" "?s \<le> of_nat (Suc K * ?b)"
    unfolding d_add_def d_of_u64_exact [OF b] using assms(1,3) b by (intro rnd_ge_nat rnd_le_nat; simp)+
  have "?s + 0.5 \<le> of_nat (Suc K * ?b + 1)" "of_nat ?b \<le> ?s + 0.5" using s by simp_all
  then have "of_nat ?b \<le> d_add ?s 0.5" "d_add ?s 0.5 \<le> of_nat (Suc K * ?b + 1)"
    unfolding d_add_def [of ?s] using assms(3) b by (auto intro: rnd_ge_nat rnd_le_nat simp only:)
  from u64_of_d_bounds [OF this] show "?b \<le> unat (rounded_latency base wait)" "unat (rounded_latency base wait) \<le> Suc K * ?b + 1"
    using assms(3) by (simp_all add: rounded_latency_def)
qed

lemma at_least_1_ge: "1 \<le> unat (at_least_1 w)" "unat w \<le> unat (at_least_1 w)" "unat w \<le> n \<Longrightarrow> 1 \<le> n \<Longrightarrow> unat (at_least_1 w) \<le> n"
  by (simp_all add: at_least_1_def Suc_le_eq unat_gt_0)

text \<open>The cycles of a payload on a link of \<open>w\<close> bits: at most one for each bit.\<close>

lemma serialization_bounds:
  assumes "unat n \<le> 2 ^ 40" and "0 < w"
  obtains k where "d_ceil (d_div (d_mul (d_of_u64 n) 8) (of_int w)) = of_nat k" and "k \<le> 8 * unat n"
proof -
  let ?x = "d_div (d_mul (d_of_u64 n) 8) (of_int w)"
  have "d_mul (d_of_u64 n) 8 = of_nat (8 * unat n)"
    using assms(1) d_of_u64_exact [of n] rnd_nat [of "8 * unat n"] by (simp add: d_mul_def mult.commute)
  then have x: "?x = rnd (of_nat (8 * unat n) / of_int w)" by (simp add: d_div_def)
  have "of_nat (8 * unat n) / of_int w \<le> (of_nat (8 * unat n) :: rat) / 1"
    using assms(2) by (intro divide_left_mono) simp_all
  then have "of_nat (8 * unat n) / of_int w \<le> (of_nat (8 * unat n) :: rat)" by (simp only: div_by_1)
  then have "?x \<le> of_nat (8 * unat n)" unfolding x using assms(1) by (intro rnd_le_nat) simp_all
  then have "\<lceil>?x\<rceil> \<le> int (8 * unat n)" by (simp add: ceiling_le_iff)
  moreover have "0 \<le> ?x" unfolding x using assms(2) by simp
  ultimately have "d_ceil ?x = of_nat (nat \<lceil>?x\<rceil>)" "nat \<lceil>?x\<rceil> \<le> 8 * unat n" by (simp add: d_ceil_def, simp only: nat_le_iff)
  then show thesis by (rule that)
qed

text \<open>
  What the bounds need of the C library: a root of a number from one on lies between one and the number, a power with exponent 1.5 does not fall below
  the square, and the logarithm of a number up to 1024 is not negative and at most twenty times that of two (it is ten times that, up to rounding).
\<close>

definition libm_ok :: "libm \<Rightarrow> bool" where
  "libm_ok m \<longleftrightarrow> (\<forall>x. 1 \<le> x \<longrightarrow> 1 \<le> m_sqrt m x \<and> m_sqrt m x \<le> x) \<and> (\<forall>x. 0 < x \<longrightarrow> x \<le> 1 \<longrightarrow> x * x \<le> m_pow m x 1.5) \<and>
     0 < m_log m 2 \<and> (\<forall>x. 1 \<le> x \<longrightarrow> x \<le> 1024 \<longrightarrow> 0 \<le> m_log m x \<and> m_log m x \<le> 20 * m_log m 2)"

text \<open>
  The levels that the bounds are about: every topology that \<^verbatim>\<open>avgHops\<close> knows, and any other name, with at most 1024 nodes unless there are no
  intermediate hops at all; latencies up to 1000 cycles and a positive width. The average number of hops is then at most \<open>hop_limit\<close>.
\<close>

definition hop_limit :: "string \<Rightarrow> int \<Rightarrow> nat" where
  "hop_limit topology N =
     (if topology \<in> {''ring'', ''mesh'', ''mesh_2d'', ''torus'', ''torus_2d''} then max 1 (nat N)
      else if topology \<in> {''fat_tree'', ''h_tree''} then 40 else 1)"

definition level_ok :: "InternalNetworkLink \<Rightarrow> bool" where
  "level_ok l \<longleftrightarrow> 0 < il_link_width_bits l \<and> 0 \<le> il_latency_cycles l \<and> il_latency_cycles l \<le> 1000 \<and> 0 \<le> il_router_latency l \<and>
     il_router_latency l \<le> 1000 \<and> (il_num_nodes l \<le> 1024 \<or> il_topology l \<in> {''bus'', ''crossbar'', ''point-to-point'', ''point_to_point''})"

definition level_hops :: "InternalNetworkLink \<Rightarrow> nat" where
  "level_hops l = hop_limit (il_topology l) (il_num_nodes l)"

lemma link_level_ok: "link_ok l \<Longrightarrow> level_ok l \<and> level_hops l = 1"
  by (auto simp: link_ok_def level_ok_def level_hops_def hop_limit_def)

lemma hop_limit_pos: "1 \<le> hop_limit t N"
  by (simp add: hop_limit_def)

lemma factor_le: "1 \<le> k \<Longrightarrow> a * k \<le> b \<Longrightarrow> a \<le> (b :: nat)"
  by (metis le_trans mult.right_neutral mult_le_mono2)

lemma ratio_bounds:
  fixes a b :: int
  assumes "0 \<le> a" and "0 < b" and "a \<le> int n * b" and "n \<le> 2 ^ 53"
  shows "0 \<le> d_div (of_int a) (of_int b) \<and> d_div (of_int a) (of_int b) \<le> of_nat n"
proof -
  have "(of_int a :: rat) \<le> of_int (int n * b)" using assms(3) by (simp only: of_int_le_iff)
  then have "(of_int a :: rat) / of_int b \<le> of_nat n" using assms(2) by (simp add: pos_divide_le_eq)
  then show ?thesis using assms by (auto simp: d_div_def intro: rnd_le_nat)
qed

lemma ring_hops:
  assumes "3 \<le> N" and "N \<le> 1024"
  shows "0 \<le> avgHops m ''ring'' N \<and> avgHops m ''ring'' N \<le> of_nat (nat N)"
proof -
  have four: "d_mul 4 (of_int (N - 1)) = of_int (4 * (N - 1))" using assms rnd_int [of "4 * (N - 1)"] by (simp add: d_mul_def)
  have "N * N \<le> N * (4 * (N - 1))" using assms by (intro mult_left_mono) simp_all
  then have "0 \<le> d_div (of_int (N * N)) (of_int (4 * (N - 1))) \<and> d_div (of_int (N * N)) (of_int (4 * (N - 1))) \<le> of_nat (nat N)"
    using assms by (intro ratio_bounds) simp_all
  moreover have "0 \<le> d_div (of_int (N + 1)) (of_int 4) \<and> d_div (of_int (N + 1)) (of_int 4) \<le> of_nat (nat N)"
    using assms by (intro ratio_bounds) simp_all
  ultimately show ?thesis using assms unfolding avgHops_def four by simp
qed

lemma grid_hops:
  assumes "1 \<le> K" and "K \<le> N" and "N \<le> 1024" and "3 \<le> c" and "c \<le> 4"
  shows "d_div (d_mul 2 (d_sub (d_mul (of_int K) (of_int K)) 1)) (d_mul (of_int c) (of_int K)) =
      d_div (of_int (2 * (K * K - 1))) (of_int (c * K))"
    and "0 \<le> d_div (of_int (2 * (K * K - 1))) (of_int (c * K)) \<and> d_div (of_int (2 * (K * K - 1))) (of_int (c * K)) \<le> of_nat (nat N)"
proof -
  have KK: "1 \<le> K * K" "K * K \<le> 1024 * 1024" using assms mult_mono [of 1 K 1 K] mult_mono [of K 1024 K 1024] by simp_all
  have cK: "0 < c * K" "c * K \<le> 4 * 1024" using assms mult_mono [of c 4 K 1024] by simp_all
  have "rnd (of_int (K * K)) = of_int (K * K)" "rnd (of_int (K * K - 1)) = of_int (K * K - 1)" "rnd (of_int (2 * (K * K - 1))) = of_int (2 * (K * K - 1))"
    "rnd (of_int (c * K)) = of_int (c * K)"
    using KK cK by (intro rnd_int; simp)+
  then show "d_div (d_mul 2 (d_sub (d_mul (of_int K) (of_int K)) 1)) (d_mul (of_int c) (of_int K)) =
      d_div (of_int (2 * (K * K - 1))) (of_int (c * K))"
    by (simp add: d_mul_def d_sub_def)
  have "K * K \<le> N * K" using assms by (intro mult_right_mono) simp_all
  moreover have "3 * (N * K) \<le> c * (N * K)" using assms by (intro mult_right_mono) simp_all
  ultimately have "2 * (K * K - 1) \<le> N * (c * K)" using KK by (simp add: algebra_simps)
  then show "0 \<le> d_div (of_int (2 * (K * K - 1))) (of_int (c * K)) \<and> d_div (of_int (2 * (K * K - 1))) (of_int (c * K)) \<le> of_nat (nat N)"
    using assms KK cK by (intro ratio_bounds) simp_all
qed

lemma side_of_grid:
  assumes "libm_ok m" and "3 \<le> N"
  obtains K where "d_ceil (m_sqrt m (of_int N)) = of_int K" and "1 \<le> K" and "K \<le> N"
proof
  have s: "1 \<le> m_sqrt m (of_int N)" "m_sqrt m (of_int N) \<le> of_int N" using assms by (simp_all add: libm_ok_def)
  show "d_ceil (m_sqrt m (of_int N)) = of_int \<lceil>m_sqrt m (of_int N)\<rceil>" by (simp add: d_ceil_def)
  show "1 \<le> \<lceil>m_sqrt m (of_int N)\<rceil>" "\<lceil>m_sqrt m (of_int N)\<rceil> \<le> N" using s by (simp_all add: one_le_ceiling ceiling_le_iff less_le_trans [OF zero_less_one])
qed

lemma mesh_hops:
  assumes "libm_ok m" and "3 \<le> N" and "N \<le> 1024" and "t \<in> {''mesh'', ''mesh_2d'', ''torus'', ''torus_2d''}"
  shows "0 \<le> avgHops m t N \<and> avgHops m t N \<le> of_nat (nat N)"
proof -
  obtain K where K: "d_ceil (m_sqrt m (of_int N)) = of_int K" "1 \<le> K" "K \<le> N" by (rule side_of_grid [OF assms(1,2)])
  note three = grid_hops [OF K(2,3) assms(3), of 3] and four = grid_hops [OF K(2,3) assms(3), of 4]
  have even: "0 \<le> d_mul 2 (d_div (of_int K) 4) \<and> d_mul 2 (d_div (of_int K) 4) \<le> of_nat (nat N)" if "K smod 2 = 0"
  proof -
    have "K smod 2 = K mod 2" using K(2) by (simp add: signed_modulo_int_def sgn_if)
    with that have "2 dvd K" by (simp add: dvd_eq_mod_eq_0)
    then obtain h where h: "K = 2 * h" by (rule dvdE)
    have q: "0 \<le> d_div (of_int K) 4 \<and> d_div (of_int K) 4 \<le> of_nat (nat h)" using ratio_bounds [of K 4 "nat h"] K assms(3) h by simp
    then have "2 * d_div (of_int K) 4 \<le> of_nat (2 * nat h)" by simp
    then have "d_mul 2 (d_div (of_int K) 4) \<le> of_nat (2 * nat h)" unfolding d_mul_def using K assms(3) h by (intro rnd_le_nat) simp_all
    also have "of_nat (2 * nat h) \<le> (of_nat (nat N) :: rat)" using K h by (simp only: of_nat_le_iff)
    finally show ?thesis using q by (simp add: d_mul_def)
  qed
  show ?thesis using assms(2,4) even three four K
    by (auto simp: avgHops_def Let_def d_trunc_def)
qed

text \<open>The tree: every distance is at most twice the number of levels, so the average is.\<close>

lemma tree_hops_bounds:
  assumes "int d \<le> L" and "L \<le> 20" and "subtree = 2 ^ (nat L - d + 1)" and "0 \<le> h" and "h \<le> 40 * pairs" and "0 \<le> pairs" and "pairs \<le> subtree"
  shows "\<exists>h' pairs'. tree_hops L d subtree (of_int h) pairs = (of_int h', pairs') \<and> 0 \<le> h' \<and> h' \<le> 40 * pairs' \<and> 0 \<le> pairs'"
  using assms
proof (induction d arbitrary: subtree h pairs)
  case 0
  then show ?case by auto
next
  case (Suc d)
  define prev where "prev = (if int (Suc d) = L then 1 else subtree sdiv 2)"
  define peers where "peers = subtree - prev"
  define hc where "hc = 2 * (L - int (Suc d))"
  have exp: "nat L - d = Suc (nat L - Suc d)" using Suc.prems(1) by simp
  have sub: "subtree = 2 * 2 ^ (nat L - Suc d)" "1 \<le> (2 :: int) ^ (nat L - Suc d)" using Suc.prems(3) by simp_all
  have big: "subtree \<le> 2 ^ 21" using Suc.prems(1,2) power_increasing [of "nat L - Suc d + 1" 21 "2 :: int"] unfolding Suc.prems(3) by simp
  have prev: "0 \<le> prev" "prev \<le> subtree" using sub by (auto simp: prev_def signed_divide_int_def sgn_if)
  have peers: "0 \<le> peers" "peers \<le> subtree" using prev by (simp_all add: peers_def)
  have hc: "0 \<le> hc" "hc \<le> 40" using Suc.prems(1,2) by (simp_all add: hc_def)
  have ph: "0 \<le> peers * hc" "peers * hc \<le> 40 * peers" using peers hc mult_left_mono [of hc 40 peers] by simp_all
  have "d_mul (of_int peers) (of_int hc) = of_int (peers * hc)"
    using ph peers(2) big rnd_int [of "peers * hc"] by (simp add: d_mul_def)
  moreover have "rnd (of_int (h + peers * hc)) = of_int (h + peers * hc)"
    using ph peers(2) big Suc.prems(4-7) by (intro rnd_int) simp
  ultimately have sum: "d_add (of_int h) (d_mul (of_int peers) (of_int hc)) = of_int (h + peers * hc)"
    by (simp add: d_add_def)
  have "\<exists>h' pairs'. tree_hops L d (subtree * 2) (of_int (h + peers * hc)) (pairs + peers) = (of_int h', pairs') \<and> 0 \<le> h' \<and> h' \<le> 40 * pairs' \<and> 0 \<le> pairs'"
    using Suc.prems ph peers exp sub(1) by (intro Suc.IH) simp_all
  then show ?case
    unfolding tree_hops.simps Let_def prev_def [symmetric] peers_def [symmetric] hc_def [symmetric] sum .
qed

lemma tree_avg_hops:
  assumes "libm_ok m" and "3 \<le> N" and "N \<le> 1024" and "t \<in> {''fat_tree'', ''h_tree''}"
  shows "0 \<le> avgHops m t N \<and> avgHops m t N \<le> of_nat 40"
proof -
  define r where "r = d_div (m_log m (of_int N)) (m_log m 2)"
  have "0 < m_log m 2" "0 \<le> m_log m (of_int N)" "m_log m (of_int N) \<le> 20 * m_log m 2" using assms(1-3) by (simp_all add: libm_ok_def)
  then have "0 \<le> r" "r \<le> of_nat 20" unfolding r_def d_div_def by (simp, intro rnd_le_nat) (simp_all add: pos_divide_le_eq)
  then have L: "0 \<le> \<lceil>r\<rceil>" "\<lceil>r\<rceil> \<le> 20" by (simp_all add: ceiling_le_iff)
  have LL: "d_trunc (d_ceil r) = \<lceil>r\<rceil>" using L(1) by (simp add: d_trunc_def d_ceil_def)
  obtain h pairs where t: "tree_hops \<lceil>r\<rceil> (nat \<lceil>r\<rceil>) 2 0 0 = (of_int h, pairs)" "0 \<le> h" "h \<le> 40 * pairs" "0 \<le> pairs"
    using tree_hops_bounds [of "nat \<lceil>r\<rceil>" "\<lceil>r\<rceil>" 2 0 0] L by auto
  have "0 \<le> d_div (of_int h) (of_int pairs) \<and> d_div (of_int h) (of_int pairs) \<le> of_nat 40" if "0 < pairs"
    using t that by (intro ratio_bounds) (simp_all add: mult.commute)
  then show ?thesis using assms(2,4) unfolding avgHops_def r_def [symmetric] LL t(1) Let_def by auto
qed

lemma avgHops_bounds:
  assumes "libm_ok m" and "N \<le> 1024 \<or> t \<in> {''bus'', ''crossbar'', ''point-to-point'', ''point_to_point''}"
  shows "0 \<le> avgHops m t N \<and> avgHops m t N \<le> of_nat (hop_limit t N)"
proof (cases "3 \<le> N \<and> t \<in> {''ring'', ''mesh'', ''mesh_2d'', ''torus'', ''torus_2d'', ''fat_tree'', ''h_tree''}")
  case True
  then have "N \<le> 1024" using assms(2) by auto
  then show ?thesis
    using True ring_hops [of N m] mesh_hops [OF assms(1), of N t] tree_avg_hops [OF assms(1), of N t] by (auto simp: hop_limit_def)
next
  case False
  then have "avgHops m t N = 0 \<or> avgHops m t N = 1"
  proof (cases "3 \<le> N")
    case True
    with False have "t \<notin> {''ring'', ''mesh'', ''mesh_2d'', ''torus'', ''torus_2d'', ''fat_tree'', ''h_tree''}" by simp
    then show ?thesis unfolding avgHops_def by simp
  qed (simp add: avgHops_def)
  then show ?thesis using hop_limit_pos [of t N] by auto
qed

lemma channels_nonneg:
  assumes "libm_ok m"
  shows "0 \<le> totalChannels m t N"
proof -
  define k where "k = d_trunc (d_ceil (m_sqrt m (of_int N)))"
  have k: "1 \<le> d_trunc (d_ceil (m_sqrt m (of_int N)))" if "1 < N"
  proof -
    have "1 \<le> m_sqrt m (of_int N)" using assms that by (simp add: libm_ok_def)
    then show ?thesis by (simp add: d_trunc_def d_ceil_def one_le_ceiling less_le_trans [OF zero_less_one])
  qed
  then have "0 \<le> 4 * k * (k - 1)" "0 \<le> 4 * k * k" if "1 < N" using that by (simp_all add: k_def)
  then show ?thesis unfolding totalChannels_def k_def [symmetric] Let_def by (simp add: not_le)
qed

lemma router_stages_bounds: "0 \<le> n \<Longrightarrow> 0 \<le> router_stages b n \<and> router_stages b n \<le> n"
  by (simp add: router_stages_def)

lemma u64_of_nat: "n < 2 ^ 64 \<Longrightarrow> unat (u64_of_d (of_nat n)) = n"
  using u64_of_d_bounds [of n "of_nat n" n] by simp

text \<open>The base latency of a level, and its product with the hops: no sum or product leaves the range in which the doubles are exact.\<close>

lemma tier_base_bounds:
  assumes m: "libm_ok m" and l: "level_ok l" and n: "unat n * level_hops l \<le> 2 ^ 40"
  obtains s where "tier_serialization l n = of_nat s" and "max 1 s \<le> unat (tier_base m l n)" and "unat (tier_base m l n) * level_hops l \<le> 2 ^ 44"
proof -
  let ?H = "level_hops l"
  define h where "h = avgHops m (il_topology l) (il_num_nodes l)"
  define p where "p = router_stages (h \<le> 1 \<and> il_router_bypass l) (il_router_latency l) + il_latency_cycles l"
  have p: "0 \<le> p" "p \<le> 2000"
    using l router_stages_bounds [of "il_router_latency l" "h \<le> 1 \<and> il_router_bypass l"] by (auto simp: p_def level_ok_def)
  have h: "0 \<le> h" "h \<le> of_nat ?H" using avgHops_bounds [OF m] l by (simp_all add: h_def level_hops_def level_ok_def)
  have H: "1 \<le> ?H" "?H \<le> 1024" using l hop_limit_pos by (auto simp: level_hops_def level_ok_def hop_limit_def)
  then have n': "unat n \<le> 2 ^ 40" using n factor_le by blast
  obtain s where s: "tier_serialization l n = of_nat s" "s \<le> 8 * unat n"
    using serialization_bounds [OF n', of "il_link_width_bits l"] l by (auto simp: tier_serialization_def level_ok_def)
  have "s * ?H \<le> 8 * unat n * ?H" using s(2) by (rule mult_le_mono1)
  also have "\<dots> \<le> 8 * 2 ^ 40" using n by (simp add: mult.commute)
  finally have sH: "s * ?H \<le> 8 * 2 ^ 40" .
  have qH: "2000 * ?H * ?H \<le> 2000 * 1024 * 1024" using mult_le_mono [OF H(2) H(2)] by simp
  have "h * of_int p \<le> of_nat ?H * of_int 2000" using h p by (intro mult_mono) simp_all
  then have "h * of_int p \<le> of_nat (2000 * ?H)" by simp
  then have q: "0 \<le> d_mul h (of_int p)" "d_mul h (of_int p) \<le> of_nat (2000 * ?H)"
    unfolding d_mul_def using h p H by (simp, intro rnd_le_nat) simp_all
  let ?t = "d_add (d_mul h (of_int p)) (of_nat s)"
  have t: "of_nat s \<le> ?t" "?t \<le> of_nat (2000 * ?H + s)"
    unfolding d_add_def using q s(2) n' H by (intro rnd_ge_nat rnd_le_nat; simp)+
  have lo: "of_nat s \<le> d_ceil ?t" using t(1) le_of_int_ceiling [of ?t] unfolding d_ceil_def by (rule order_trans)
  have "\<lceil>?t\<rceil> \<le> int (2000 * ?H + s)" using t(2) by (simp add: ceiling_le_iff)
  then have "(of_int \<lceil>?t\<rceil> :: rat) \<le> of_int (int (2000 * ?H + s))" by (simp only: of_int_le_iff)
  then have c: "of_nat s \<le> d_ceil ?t" "d_ceil ?t \<le> of_nat (2000 * ?H + s)" using lo by (simp_all add: d_ceil_def)
  have "2000 * ?H + s < 2 ^ 64" using s(2) n' H by simp
  note u = u64_of_d_bounds [OF c this]
  have base: "tier_base m l n = at_least_1 (u64_of_d (d_ceil ?t))"
    unfolding tier_base_def Let_def h_def [symmetric] p_def [symmetric] s(1) ..
  show thesis
  proof
    show "max 1 s \<le> unat (tier_base m l n)" using at_least_1_ge(1,2) [of "u64_of_d (d_ceil ?t)"] u(1) unfolding base by simp
    have "unat (tier_base m l n) \<le> 2000 * ?H + s" unfolding base using H u(2) by (intro at_least_1_ge(3)) simp_all
    then have "unat (tier_base m l n) * ?H \<le> (2000 * ?H + s) * ?H" by (rule mult_le_mono1)
    also have "\<dots> = 2000 * ?H * ?H + s * ?H" by (simp add: algebra_simps)
    also have "\<dots> \<le> 2 ^ 44" using sH qH by simp
    finally show "unat (tier_base m l n) * ?H \<le> 2 ^ 44" .
  qed (rule s(1))
qed

lemma bridge_base_bounds:
  assumes "bridge_ok b" and "unat n \<le> 2 ^ 40"
  shows "1 \<le> unat (bridge_base b n)" and "unat (bridge_base b n) \<le> 2 ^ 44"
proof -
  define r where "r = router_stages (br_router_bypass b) (br_router_latency b)"
  have r: "0 \<le> r" "r \<le> 1000" using assms(1) router_stages_bounds [of "br_router_latency b" "br_router_bypass b"] by (auto simp: r_def bridge_ok_def)
  obtain s where s: "d_ceil (d_div (d_mul (d_of_u64 n) 8) (of_int (min (br_lower_width_bits b) (br_upper_width_bits b)))) = of_nat s" "s \<le> 2 ^ 43"
    using serialization_bounds [OF assms(2), of "min (br_lower_width_bits b) (br_upper_width_bits b)"] assms
    by (force simp: bridge_ok_def)
  have ns: "0 \<le> br_latency_ns b" "br_latency_ns b \<le> 1000" using assms(1) by (simp_all add: bridge_ok_def)
  let ?t = "d_add (d_add (of_int r) (br_latency_ns b)) (of_nat s)"
  have "(of_int r :: rat) \<le> 1000" using r(2) by simp
  then have t1: "0 \<le> d_add (of_int r) (br_latency_ns b)" "d_add (of_int r) (br_latency_ns b) \<le> of_nat 2000"
    unfolding d_add_def using r ns by (simp, intro rnd_le_nat) simp_all
  have t2: "0 \<le> ?t" "?t \<le> of_nat (2 ^ 43 + 2000)"
    unfolding d_add_def [of "d_add _ _"] using t1 s(2)
    by (simp, intro rnd_le_nat) (simp_all add: add_mono flip: of_nat_le_iff [of s "2 ^ 43", where 'a = rat])
  have "(0 :: int) \<le> \<lceil>?t\<rceil>" "\<lceil>?t\<rceil> \<le> int (2 ^ 43 + 2000)" using t2 by (simp, subst ceiling_le_iff) simp_all
  then have "of_nat 0 \<le> d_ceil ?t" "d_ceil ?t \<le> of_nat (2 ^ 44)" unfolding d_ceil_def by simp_all
  from u64_of_d_bounds(2) [OF this] have "unat (u64_of_d (d_ceil ?t)) \<le> 2 ^ 44" by simp
  moreover have "bridge_base b n = at_least_1 (u64_of_d (d_ceil ?t))" by (simp add: bridge_base_def Let_def s(1) r_def)
  ultimately show "1 \<le> unat (bridge_base b n)" "unat (bridge_base b n) \<le> 2 ^ 44"
    using at_least_1_ge(1) at_least_1_ge(3) [of "u64_of_d (d_ceil ?t)" "2 ^ 44"] by simp_all
qed

lemma quotient_bound:
  assumes "0 \<le> x" and "x \<le> of_nat s" and "0 < c" and "c \<le> y" and "1 \<le> of_nat K * c" and "K * s \<le> 2 ^ 53"
  shows "0 \<le> d_div x y" and "d_div x y \<le> of_nat (K * s)"
proof -
  show "0 \<le> d_div x y" using assms(1,3,4) by (simp add: d_div_def)
  have "of_nat s * 1 \<le> (of_nat s * (of_nat K * c) :: rat)" using assms(5) by (intro mult_left_mono) simp_all
  also have "\<dots> \<le> of_nat (K * s) * y" using assms(4) by (simp add: mult.commute mult.left_commute [of _ c] mult_right_mono)
  finally have "x / y \<le> of_nat (K * s)" using assms(2,3,4) by (simp add: pos_divide_le_eq)
  then show "d_div x y \<le> of_nat (K * s)" unfolding d_div_def by (rule rnd_le_nat) (rule assms(6))
qed

text \<open>The thresholds of the sources, rounded.\<close>

lemma thresholds:
  "rnd 0.9 \<le> 0.90001" "rnd 0.95 \<le> 0.95001" "0 \<le> rnd 0.01" "rnd 0.01 \<le> 1"
  "0.0999 \<le> rnd 0.09999" "0.0498 \<le> rnd 0.0499" "0.249 \<le> rnd 0.2499"
  by code_simp+

lemma slack:
  assumes "rho \<le> 1 - c" and "e \<le> rnd c"
  shows "e \<le> d_sub 1 rho"
  using rnd_mono [of c "1 - rho"] assms by (simp add: d_sub_def)

lemma d_mul_le:
  assumes "0 \<le> x" and "x \<le> 1" and "0 \<le> y" and "y \<le> of_nat s" and "s \<le> 2 ^ 53"
  shows "0 \<le> d_mul x y" and "d_mul x y \<le> of_nat s"
proof -
  show "0 \<le> d_mul x y" using assms by (simp add: d_mul_def)
  have "x * y \<le> 1 * of_nat s" using assms by (intro mult_mono) simp_all
  then show "d_mul x y \<le> of_nat s" unfolding d_mul_def using assms(5) by (intro rnd_le_nat) simp_all
qed

lemma vc_factor_bounds:
  assumes "libm_ok m"
  shows "0 \<le> vc_factor m n" and "vc_factor m n \<le> 1"
proof -
  have "1 \<le> m_sqrt m (of_int n)" if "1 < n" using that assms by (simp add: libm_ok_def)
  then show "0 \<le> vc_factor m n" "vc_factor m n \<le> 1"
    using rnd_le_nat [of "1 / m_sqrt m (of_int n)" 1] by (auto simp: vc_factor_def d_div_def)
qed

lemma saturated_wait:
  assumes "unat base \<le> 2 ^ 44" and "10 \<le> K" and "K \<le> 101"
  shows "0 \<le> d_mul 10 (d_of_u64 base)" and "d_mul 10 (d_of_u64 base) \<le> of_nat (K * unat base)"
proof -
  have "d_mul 10 (d_of_u64 base) = of_nat (10 * unat base)"
    using assms(1) d_of_u64_exact [of base] rnd_nat [of "10 * unat base"] by (simp add: d_mul_def)
  then show "0 \<le> d_mul 10 (d_of_u64 base)" "d_mul 10 (d_of_u64 base) \<le> of_nat (K * unat base)"
    using mult_le_mono1 [OF assms(2), of "unat base"] by (simp, simp only: of_nat_le_iff)
qed

lemma bridge_wait_bounds:
  assumes "libm_ok m" and "bridge_ok b" and "0 \<le> rate" and "1 \<le> unat base" and "unat base \<le> 2 ^ 44"
  shows "0 \<le> bridge_wait m b rate base" and "bridge_wait m b rate base \<le> of_nat (11 * unat base)"
proof -
  define service where "service = d_div (d_of_u64 base) (of_int (max 1 (br_count b)))"
  define rho where "rho = d_mul rate service"
  define vcf where "vcf = vc_factor m (br_virtual_networks b * br_virtual_channels_per_vn b)"
  have s: "0 \<le> service" "service \<le> of_nat (1 * unat base)"
    unfolding service_def using assms(5) quotient_bound [of "d_of_u64 base" "unat base" 1 "of_int (max 1 (br_count b))" 1]
    by (simp_all add: d_of_u64_exact)
  have rho: "0 \<le> rho" using assms(3) s(1) by (simp add: rho_def d_mul_def)
  note vcf = vc_factor_bounds [OF assms(1), of "br_virtual_networks b * br_virtual_channels_per_vn b", folded vcf_def]
  have queue: "0 \<le> d_div (d_mul vcf (d_mul rho service)) (d_mul 2 (d_sub 1 rho)) \<and>
      d_div (d_mul vcf (d_mul rho service)) (d_mul 2 (d_sub 1 rho)) \<le> of_nat (11 * unat base)" if "rho < rnd 0.95"
  proof -
    have "rho \<le> 1 - 0.0499" "rho \<le> 1" using that thresholds(2) by (simp_all add: field_simps)
    then have "0.0498 \<le> d_sub 1 rho" using slack thresholds(6) by blast
    then have den: "rnd 0.0996 \<le> d_mul 2 (d_sub 1 rho)" unfolding d_mul_def by (intro rnd_mono) simp
    have "0 \<le> d_mul rho service \<and> d_mul rho service \<le> of_nat (unat base)"
      using d_mul_le [OF rho \<open>rho \<le> 1\<close> s(1), of "unat base"] s(2) assms(5) by simp
    then have num: "0 \<le> d_mul vcf (d_mul rho service)" "d_mul vcf (d_mul rho service) \<le> of_nat (unat base)"
      using d_mul_le [OF vcf, of "d_mul rho service" "unat base"] assms(5) by simp_all
    have "0 < rnd 0.0996" "1 \<le> of_nat 11 * rnd 0.0996" by code_simp+
    from quotient_bound [OF num this(1) den this(2)] show ?thesis using assms(5) by simp
  qed
  have "bridge_wait m b rate base =
      (if rho \<ge> rnd 0.95 then d_mul 10 (d_of_u64 base)
       else if rho > rnd 0.01 then d_div (d_mul vcf (d_mul rho service)) (d_mul 2 (d_sub 1 rho)) else 0)"
    unfolding bridge_wait_def Let_def service_def [symmetric] rho_def [symmetric] vcf_def [symmetric] by (rule refl)
  then show "0 \<le> bridge_wait m b rate base" "bridge_wait m b rate base \<le> of_nat (11 * unat base)"
    using queue saturated_wait [OF assms(5), of 11] by (simp_all only: split: if_split) auto
qed

text \<open>The service time of a level is at least one, and at most its base latency.\<close>

definition service_time :: "InternalNetworkLink \<Rightarrow> u64 \<Rightarrow> double" where
  "service_time l n = (if tier_serialization l n < 1 then 1 else tier_serialization l n)"

lemma bus_wait_bounds:
  assumes "libm_ok m" and "0 \<le> rho" and "rho < rnd 0.9" and "0 \<le> svc" and "svc \<le> of_nat s" and "s \<le> 2 ^ 44"
  shows "0 \<le> d_div (d_mul rho svc) (m_pow m (d_sub 1 rho) 1.5)" and "d_div (d_mul rho svc) (m_pow m (d_sub 1 rho) 1.5) \<le> of_nat (101 * s)"
proof -
  have "rho \<le> 1 - 0.09999" "rho \<le> 1" using assms(3) thresholds(1) by (simp_all add: field_simps)
  then have x: "0.0999 \<le> d_sub 1 rho" using slack thresholds(5) by blast
  moreover have "d_sub 1 rho \<le> 1" using rnd_le_nat [of "1 - rho" 1] assms(2) by (simp add: d_sub_def)
  ultimately have "d_sub 1 rho * d_sub 1 rho \<le> m_pow m (d_sub 1 rho) 1.5" using assms(1) by (simp add: libm_ok_def)
  moreover have "0.0999 * 0.0999 \<le> d_sub 1 rho * d_sub 1 rho" by (intro mult_mono) (use x in simp_all)
  ultimately have den: "0.0999 * 0.0999 \<le> m_pow m (d_sub 1 rho) 1.5" by (rule order_trans [rotated])
  have num: "0 \<le> d_mul rho svc" "d_mul rho svc \<le> of_nat s"
    using d_mul_le [OF assms(2) \<open>rho \<le> 1\<close> assms(4,5)] assms(6) by simp_all
  show "0 \<le> d_div (d_mul rho svc) (m_pow m (d_sub 1 rho) 1.5)" "d_div (d_mul rho svc) (m_pow m (d_sub 1 rho) 1.5) \<le> of_nat (101 * s)"
    using quotient_bound [OF num _ den, of 101] assms(6) by simp_all
qed

lemma crossbar_wait_bounds:
  assumes "0 \<le> rho" and "rho \<le> rnd 0.95" and "0 \<le> svc" and "svc \<le> of_nat s" and "s \<le> 2 ^ 44"
  shows "0 \<le> d_div (d_mul rho svc) (d_sub 1 rho)" and "d_div (d_mul rho svc) (d_sub 1 rho) \<le> of_nat (101 * s)"
proof -
  have "rho \<le> 1 - 0.0499" "rho \<le> 1" using assms(2) thresholds(2) by (simp_all add: field_simps)
  then have den: "0.0498 \<le> d_sub 1 rho" using slack thresholds(6) by blast
  have num: "0 \<le> d_mul rho svc" "d_mul rho svc \<le> of_nat s"
    using d_mul_le [OF assms(1) \<open>rho \<le> 1\<close> assms(3,4)] assms(5) by simp_all
  show "0 \<le> d_div (d_mul rho svc) (d_sub 1 rho)" "d_div (d_mul rho svc) (d_sub 1 rho) \<le> of_nat (101 * s)"
    using quotient_bound [OF num _ den, of 101] assms(5) by simp_all
qed

lemma hop_wait_bounds:
  assumes "0 \<le> vcf" and "vcf \<le> 1" and "0 \<le> rho" and "rho < 0.75" and "0 \<le> svc" and "svc \<le> of_nat s" and "s * H \<le> 2 ^ 44"
    and "0 \<le> hops" and "hops \<le> of_nat H" and "1 \<le> H"
  shows "0 \<le> d_mul (d_div (d_mul (d_mul vcf rho) svc) (d_sub 1 rho)) hops"
    and "d_mul (d_div (d_mul (d_mul vcf rho) svc) (d_sub 1 rho)) hops \<le> of_nat (101 * H * s)"
proof -
  let ?q = "d_div (d_mul (d_mul vcf rho) svc) (d_sub 1 rho)"
  have s: "s \<le> 2 ^ 44" using assms(7,10) factor_le by blast
  have "rho \<le> 1 - 0.2499" using assms(4) by simp
  then have den: "0.249 \<le> d_sub 1 rho" using slack thresholds(7) by blast
  have v: "0 \<le> d_mul vcf rho" "d_mul vcf rho \<le> 1" using d_mul_le [OF assms(1,2,3), of 1] assms(4) by simp_all
  have num: "0 \<le> d_mul (d_mul vcf rho) svc" "d_mul (d_mul vcf rho) svc \<le> of_nat s" using d_mul_le [OF v assms(5,6)] s by simp_all
  have q: "0 \<le> ?q" "?q \<le> of_nat (101 * s)" using quotient_bound [OF num _ den, of 101] s by simp_all
  have "?q * hops \<le> of_nat (101 * s) * of_nat H" using q assms(8,9) by (intro mult_mono) simp_all
  then have "?q * hops \<le> of_nat (101 * H * s)" by (simp add: mult.commute mult.left_commute)
  moreover have "101 * H * s \<le> 2 ^ 53" using assms(7) by (simp add: mult.commute mult.left_commute)
  ultimately show "0 \<le> d_mul ?q hops" "d_mul ?q hops \<le> of_nat (101 * H * s)"
    unfolding d_mul_def [of ?q] using q(1) assms(8) by (simp, intro rnd_le_nat) simp_all
qed

lemma tier_wait_bounds:
  assumes m: "libm_ok m" and l: "level_ok l" and rate: "0 \<le> rate" and base: "unat base * level_hops l \<le> 2 ^ 44"
    and svc: "0 \<le> service_time l n" "service_time l n \<le> of_nat (unat base)"
  shows "0 \<le> tier_wait m l n rate base \<and> tier_wait m l n rate base \<le> of_nat (101 * level_hops l * unat base)"
proof -
  let ?H = "level_hops l"
  let ?P = "\<lambda>w. 0 \<le> w \<and> w \<le> of_nat (101 * ?H * unat base)"
  have H: "1 \<le> ?H" unfolding level_hops_def by (rule hop_limit_pos)
  then have b: "unat base \<le> 2 ^ 44" using base factor_le by blast
  have up: "?P w" if "0 \<le> w \<and> w \<le> of_nat (101 * unat base)" for w :: rat
  proof -
    have "101 * unat base \<le> 101 * ?H * unat base" using H by (intro mult_le_mono1) simp
    then have "(of_nat (101 * unat base) :: rat) \<le> of_nat (101 * ?H * unat base)" by (rule of_nat_mono)
    with that show ?thesis by linarith
  qed
  note vcf = vc_factor_bounds [OF m]
  have sat: "?P (d_mul 10 (d_of_u64 base))" using saturated_wait [OF b, of 101] by (intro up) simp
  consider (bus) "il_topology l = ''bus''" | (crossbar) "il_topology l = ''crossbar''"
    | (hops) "il_topology l \<noteq> ''bus''" "il_topology l \<noteq> ''crossbar''" by blast
  then show ?thesis
  proof cases
    case bus
    have "0 \<le> d_mul rate (service_time l n)" using rate svc(1) by (simp add: d_mul_def)
    note w = bus_wait_bounds [OF m this _ svc b]
    have "?P (d_div (d_mul (d_mul rate (service_time l n)) (service_time l n)) (m_pow m (d_sub 1 (d_mul rate (service_time l n))) 1.5))"
      if "d_mul rate (service_time l n) < rnd 0.9" using w [OF that] by (intro up) blast
    then show ?thesis using sat unfolding tier_wait_def Let_def service_time_def [symmetric] bus by (auto simp: not_le)
  next
    case crossbar
    let ?rho = "min (d_mul (d_mul (d_div rate (max (of_int (il_num_nodes l)) 1)) (service_time l n)) (rnd 1.58)) (rnd 0.95)"
    have "0 \<le> ?rho" using rate svc(1) by (simp add: d_mul_def d_div_def)
    then have "?P (d_div (d_mul ?rho (service_time l n)) (d_sub 1 ?rho))" using crossbar_wait_bounds [OF _ _ svc b, of ?rho] by (intro up) simp
    then show ?thesis unfolding tier_wait_def Let_def service_time_def [symmetric] crossbar by auto
  next
    case hops
    define hc where "hc = max (avgHops m (il_topology l) (il_num_nodes l)) (rnd 0.01)"
    define vc where "vc = vc_factor m (il_virtual_networks l * il_virtual_channels_per_vn l)"
    define rho where "rho = d_mul (d_div (d_mul (d_mul rate (service_time l n)) hc) (of_int (totalChannels m (il_topology l) (il_num_nodes l)))) (hotspotFactor (il_topology l))"
    have "avgHops m (il_topology l) (il_num_nodes l) \<le> of_nat ?H" using avgHops_bounds [OF m] l by (simp add: level_hops_def level_ok_def)
    moreover have "rnd 0.01 \<le> of_nat ?H" using thresholds(4) H by (meson order_trans of_nat_mono of_nat_1 le_numeral_extra(4) one_of_nat_le_iff)
    ultimately have hc: "0 \<le> hc" "hc \<le> of_nat ?H" using thresholds(3) by (simp_all add: hc_def le_max_iff_disj)
    have "0 \<le> hotspotFactor (il_topology l)" by (simp add: hotspotFactor_def)
    then have "0 \<le> rho" using rate svc(1) hc(1) channels_nonneg [OF m, of "il_topology l" "il_num_nodes l"] by (simp add: rho_def d_mul_def d_div_def)
    note w = hop_wait_bounds [OF vcf this _ svc base hc H]
    have "tier_wait m l n rate base = (if rho \<ge> 0.75 then d_mul 10 (d_of_u64 base)
        else if rho > rnd 0.01 then d_mul (d_div (d_mul (d_mul vc rho) (service_time l n)) (d_sub 1 rho)) hc else 0)"
      unfolding tier_wait_def Let_def service_time_def [symmetric] hc_def [symmetric] vc_def [symmetric] rho_def [symmetric] using hops by simp
    then show ?thesis using sat w unfolding vc_def by (simp only: not_le split: if_split) simp
  qed
qed

section \<open>Rates and latencies along a run\<close>

definition rate_ok :: "MD1State \<Rightarrow> bool" where
  "rate_ok s \<longleftrightarrow> 0 \<le> md_smoothedArrivalRate s"

lemma md1_access_ok: "rate_ok s \<Longrightarrow> rate_ok (md1_access c s)"
  by (simp add: rate_ok_def md1_access_def Let_def d_add_def d_mul_def d_div_def d_sub_def)

definition timing_ok :: "InternalDRAMNetwork \<Rightarrow> bool" where
  "timing_ok d \<longleftrightarrow> lengths_ok d \<and> list_all level_ok (dn_network_configs d) \<and> list_all bridge_ok (dn_bridges d) \<and>
     list_all rate_ok (dn_tier_md1_state d) \<and> list_all rate_ok (dn_bridge_md1_state d)"

text \<open>The size of a payload, times the hops of any level it may cross.\<close>

definition payload_ok :: "InternalDRAMNetwork \<Rightarrow> u64 \<Rightarrow> bool" where
  "payload_ok d n \<longleftrightarrow> list_all (\<lambda>l. unat n * level_hops l \<le> 2 ^ 40) (dn_network_configs d)"

lemma list_all_update: "list_all P xs \<Longrightarrow> P x \<Longrightarrow> list_all P (xs[i := x])"
  by (auto simp: list_all_iff dest: set_update_subset_insert [THEN subsetD])

lemma timing_initialize:
  assumes "0 < grade" and "grade \<le> 200000"
  shows "timing_ok (dn_initialize grade sa ba bg ch (InternalDRAMNetwork_init t))"
    and "unat n \<le> 2 ^ 40 \<Longrightarrow> payload_ok (dn_initialize grade sa ba bg ch (InternalDRAMNetwork_init t)) n"
proof -
  let ?d = "dn_initialize grade sa ba bg ch (InternalDRAMNetwork_init t)"
  have "dn_tier_md1_state (configure_technology grade d) = dn_tier_md1_state d \<and> dn_bridge_md1_state (configure_technology grade d) = dn_bridge_md1_state d" for d
    by (rule configure_technology_ok [OF assms, of d]) (simp add: configure_levels_def)
  then have "dn_tier_md1_state ?d = replicate 7 MD1State_init" "dn_bridge_md1_state ?d = replicate 6 MD1State_init"
    by (simp_all add: dn_initialize_def Let_def resetStats_def initializeBridgeDefaults_def InternalDRAMNetwork_init_def [of t])
  moreover have "hier_ok ?d" by (rule initialize_ok(1) [OF assms lengths_init])
  moreover from this have "list_all level_ok (dn_network_configs ?d)" "list_all (\<lambda>l. level_hops l = 1) (dn_network_configs ?d)"
    using link_level_ok by (auto simp: hier_ok_def list_all_iff)
  ultimately show "timing_ok ?d" "unat n \<le> 2 ^ 40 \<Longrightarrow> payload_ok ?d n"
    by (simp_all add: timing_ok_def hier_ok_def payload_ok_def list_all_iff rate_ok_def MD1State_init_def)
qed

text \<open>\<^verbatim>\<open>overrideLevelConfig\<close>, with any topology, leaves a network that the bounds are about.\<close>

lemma timing_override:
  assumes "timing_ok d" and "latency \<le> 1000" and "rl \<le> 1000" and "\<forall>l\<in>set (dn_network_configs d). il_num_nodes l \<le> 1024"
  shows "timing_ok (overrideLevelConfig m level width freq latency topo rl rp rb vn vc ib ob d)"
proof (cases "level < 0 \<or> int NUM_HIERARCHY_LEVELS \<le> level")
  case True
  then show ?thesis using assms(1) by (simp add: overrideLevelConfig_def)
next
  case False
  let ?l = "dn_network_configs d ! nat level"
  have "nat level < length (dn_network_configs d)" using False assms(1) by (auto simp: timing_ok_def lengths_ok_def NUM_HIERARCHY_LEVELS_def)
  then have "?l \<in> set (dn_network_configs d)" by (rule nth_mem)
  then have "level_ok ?l" "il_num_nodes ?l \<le> 1024" using assms(1,4) by (auto simp: timing_ok_def list_all_iff)
  then show ?thesis using False assms(1-3)
    by (simp add: overrideLevelConfig_def Let_def timing_ok_def lengths_ok_def) (intro list_all_update; simp add: level_ok_def override_def)
qed

lemma tier_latency_bounds:
  assumes "libm_ok m" and "timing_ok d" and "payload_ok d n" and "level < 7"
  shows "case getTierLatency m level n d of (lat, e) \<Rightarrow> timing_ok e \<and> payload_ok e n \<and>
      (if dn_level_models d ! level = NM_DETAILED \<and> dn_use_garnet_models d \<and> dn_garnet_networks d ! level \<noteq> None then lat = 0
       else let l = dn_network_configs d ! level; base = unat (tier_base m l n)
            in 1 \<le> base \<and> base \<le> unat lat \<and> unat lat \<le> 102 * level_hops l * base + 1 \<and> base * level_hops l \<le> 2 ^ 44)"
proof -
  let ?l = "dn_network_configs d ! level" and ?s = "md1_access (dn_current_cycle d) (dn_tier_md1_state d ! level)"
  let ?base = "tier_base m ?l n" and ?H = "level_hops (dn_network_configs d ! level)"
  have ok: "level_ok ?l" "rate_ok ?s" "unat n * ?H \<le> 2 ^ 40"
    using assms(2-4) by (auto simp: timing_ok_def payload_ok_def lengths_ok_def list_all_length intro!: md1_access_ok)
  obtain s where s: "tier_serialization ?l n = of_nat s" "max 1 s \<le> unat ?base" "unat ?base * ?H \<le> 2 ^ 44"
    using tier_base_bounds [OF assms(1) ok(1,3)] by blast
  have H: "1 \<le> ?H" unfolding level_hops_def by (rule hop_limit_pos)
  have "0 \<le> service_time ?l n" "service_time ?l n \<le> of_nat (unat ?base)" using s(1,2) by (auto simp: service_time_def)
  from tier_wait_bounds [OF assms(1) ok(1) _ s(3) this] ok(2)
  have w: "0 \<le> tier_wait m ?l n (md_smoothedArrivalRate ?s) ?base"
    "tier_wait m ?l n (md_smoothedArrivalRate ?s) ?base \<le> of_nat ((101 * ?H) * unat ?base)"
    by (simp_all add: rate_ok_def)
  have big: "Suc (101 * ?H) * unat ?base \<le> 102 * ?H * unat ?base" using H by (intro mult_le_mono1) simp
  moreover have "102 * ?H * unat ?base \<le> 102 * 2 ^ 44" using s(3) by (simp add: mult.commute mult.left_commute)
  ultimately have "Suc (101 * ?H) * unat ?base + 1 \<le> 102 * 2 ^ 44 + 1" by linarith
  then have "Suc (101 * ?H) * unat ?base + 1 \<le> 2 ^ 53" by simp
  note lat = rounded_latency_bounds [OF w this]
  have upd: "timing_ok (d\<lparr>dn_tier_md1_state := (dn_tier_md1_state d)[level := ?s]\<rparr>)"
    "payload_ok (d\<lparr>dn_tier_md1_state := (dn_tier_md1_state d)[level := ?s]\<rparr>) n"
    using assms(2,3) ok(2) by (simp_all add: timing_ok_def payload_ok_def lengths_ok_def list_all_update)
  have "1 \<le> unat ?base" "unat ?base \<le> unat (rounded_latency ?base (tier_wait m ?l n (md_smoothedArrivalRate ?s) ?base))"
    "unat (rounded_latency ?base (tier_wait m ?l n (md_smoothedArrivalRate ?s) ?base)) \<le> 102 * ?H * unat ?base + 1"
    using lat big s(2) by linarith+
  then show ?thesis using upd s(3) assms(2,3) by (auto simp: getTierLatency_def Let_def)
qed

lemma payload_small:
  assumes "timing_ok d" and "payload_ok d n"
  shows "unat n \<le> 2 ^ 40"
proof -
  have "0 < length (dn_network_configs d)" using assms(1) by (simp add: timing_ok_def lengths_ok_def)
  then have "unat n * level_hops (dn_network_configs d ! 0) \<le> 2 ^ 40" using assms(2) by (simp add: payload_ok_def list_all_length)
  then show ?thesis using factor_le hop_limit_pos unfolding level_hops_def by blast
qed

lemma bridge_latency_bounds:
  assumes "libm_ok m" and "timing_ok d" and "payload_ok d n" and "boundary < 6"
  shows "case getBridgeLatency m (int boundary) n d of (lat, e) \<Rightarrow> timing_ok e \<and> payload_ok e n \<and>
      (if br_model (dn_bridges d ! boundary) = NM_DETAILED \<and> dn_bridge_garnet_networks d ! boundary \<noteq> None then lat = 0
       else let base = unat (bridge_base (dn_bridges d ! boundary) n) in 1 \<le> base \<and> base \<le> unat lat \<and> unat lat \<le> 12 * base + 1 \<and> base \<le> 2 ^ 44)"
proof -
  let ?b = "dn_bridges d ! boundary" and ?r = "md1_access (dn_current_cycle d) (dn_bridge_md1_state d ! boundary)"
  let ?base = "bridge_base ?b n"
  have ok: "bridge_ok ?b" "rate_ok ?r"
    using assms(2,4) by (auto simp: timing_ok_def lengths_ok_def list_all_length intro!: md1_access_ok)
  note b = bridge_base_bounds [OF ok(1) payload_small [OF assms(2,3)]]
  note w = bridge_wait_bounds [OF assms(1) ok(1) _ b, of "md_smoothedArrivalRate ?r"]
  have "timing_ok (d\<lparr>dn_bridge_md1_state := (dn_bridge_md1_state d)[boundary := ?r]\<rparr>)"
    "payload_ok (d\<lparr>dn_bridge_md1_state := (dn_bridge_md1_state d)[boundary := ?r]\<rparr>) n"
    using assms(2,3) ok(2) by (simp_all add: timing_ok_def payload_ok_def lengths_ok_def list_all_update)
  then show ?thesis using rounded_latency_bounds [OF w] b ok(2) assms(2-4) by (auto simp: getBridgeLatency_def Let_def rate_ok_def)
qed

text \<open>
  C31: the queueing delay is bounded however high the load is, for every topology that a level can be given. Crossing a level with an analytical
  model takes at least the base latency, which is at least one cycle, and at most 102 times it and a cycle where there are no intermediate hops (bus,
  crossbar, point to point, unknown names); on a ring, mesh or torus the factor is multiplied by the number of nodes, on a tree by 40. Crossing a
  bridge takes at most twelve times its base latency and a cycle. Detailed levels and bridges cost nothing here. Conditions, kept by the crossing:
  at most 1024 nodes on a level with intermediate hops, widths that are positive, latencies of links and routers up to 1000 cycles
  (\<^verbatim>\<open>timing_ok\<close>), and a payload that times the factor for the hops is at most \<open>2 ^ 40\<close> bytes (\<^verbatim>\<open>payload_ok\<close>).
\<close>

theorem latency_bounds:
  assumes "libm_ok m" and "timing_ok d" and "payload_ok d n" and "level < 7" and "boundary < 6"
  shows "(case getTierLatency m level n d of (lat, e) \<Rightarrow> timing_ok e \<and> payload_ok e n \<and>
      (if dn_level_models d ! level = NM_DETAILED \<and> dn_use_garnet_models d \<and> dn_garnet_networks d ! level \<noteq> None then lat = 0
       else let l = dn_network_configs d ! level; base = unat (tier_base m l n)
            in 1 \<le> base \<and> base \<le> unat lat \<and> unat lat \<le> 102 * hop_limit (il_topology l) (il_num_nodes l) * base + 1)) \<and>
    (case getBridgeLatency m (int boundary) n d of (lat, e) \<Rightarrow> timing_ok e \<and> payload_ok e n \<and>
      (if br_model (dn_bridges d ! boundary) = NM_DETAILED \<and> dn_bridge_garnet_networks d ! boundary \<noteq> None then lat = 0
       else let base = unat (bridge_base (dn_bridges d ! boundary) n) in 1 \<le> base \<and> base \<le> unat lat \<and> unat lat \<le> 12 * base + 1))"
  using tier_latency_bounds [OF assms(1-4)] bridge_latency_bounds [OF assms(1-3,5)]
  by (auto simp: Let_def level_hops_def split: prod.splits if_splits)

text \<open>
  Approximations of the library functions: one step of Newton's method for the root, and \<open>1 - 1 / x\<close> for the logarithm.
\<close>

definition sample_libm :: libm where
  "sample_libm = \<lparr>m_sqrt = (\<lambda>x. (x + 1) / 2), m_log = (\<lambda>x. 1 - 1 / x), m_log2 = (\<lambda>x. x - 1), m_pow = (\<lambda>x y. x)\<rparr>"

lemma sample_libm_ok: "libm_ok sample_libm"
proof -
  have "0 \<le> 1 - 1 / x \<and> 1 - 1 / x \<le> 10" if "1 \<le> x" for x :: rat using that by (simp add: field_simps)
  then show ?thesis by (simp add: libm_ok_def sample_libm_def mult_left_le_one_le)
qed

text \<open>A DDR4 network whose eight chips are put on a ring: the level of the chips, and the bridge below it.\<close>

definition base_dn :: InternalDRAMNetwork where
  "base_dn = dn_initialize 4800 16 4 4 8 (InternalDRAMNetwork_init ''DDR4'')"

definition ring_dn :: InternalDRAMNetwork where
  "ring_dn = overrideLevelConfig sample_libm 3 0 0 (- 1) ''ring'' (- 1) (- 1) (- 1) 0 0 0 0 base_dn"

lemma replicate_7: "replicate 7 x = [x, x, x, x, x, x, x]"
  by (simp add: eval_nat_numeral)

lemma base_dn_fields:
  "map (\<lambda>l. (il_topology l, il_num_nodes l)) (dn_network_configs base_dn) =
     [(''crossbar'', 16), (''bus'', 4), (''bus'', 4), (''point-to-point'', 8), (''bus'', 2), (''crossbar'', 2), (''crossbar'', 1)]"
  "\<not> dn_use_garnet_models base_dn" "br_model (dn_bridges base_dn ! 2) \<noteq> NM_DETAILED" "get_nodes base_dn 3 = 8"
  by (simp_all add: base_dn_def dn_initialize_def InternalDRAMNetwork_init_def resetStats_def initializeBridgeDefaults_def configure_technology_def
      configureDDR4Network_def configure_levels_def set_level_def router_defaults_def get_nodes_def isDRAM_def BridgeConfig_make_def replicate_7 parseMemoryTechnology_def Let_def)

lemma base_dn_ok: "timing_ok base_dn"
  unfolding base_dn_def by (rule timing_initialize) simp_all

lemma ring_dn_fields:
  "map (\<lambda>l. (il_topology l, il_num_nodes l)) (dn_network_configs ring_dn) =
     [(''crossbar'', 16), (''bus'', 4), (''bus'', 4), (''ring'', 8), (''bus'', 2), (''crossbar'', 2), (''crossbar'', 1)]"
  "\<not> dn_use_garnet_models ring_dn" "br_model (dn_bridges ring_dn ! 2) \<noteq> NM_DETAILED"
proof -
  have "length (dn_network_configs base_dn) = 7" using base_dn_ok by (simp add: timing_ok_def lengths_ok_def)
  then have "il_num_nodes (dn_network_configs base_dn ! 3) = 8" using arg_cong [OF base_dn_fields(1), of "\<lambda>xs. snd (xs ! 3)"] by simp
  then show "map (\<lambda>l. (il_topology l, il_num_nodes l)) (dn_network_configs ring_dn) =
     [(''crossbar'', 16), (''bus'', 4), (''bus'', 4), (''ring'', 8), (''bus'', 2), (''crossbar'', 2), (''crossbar'', 1)]"
    "\<not> dn_use_garnet_models ring_dn" "br_model (dn_bridges ring_dn ! 2) \<noteq> NM_DETAILED"
    using base_dn_fields by (simp_all add: ring_dn_def overrideLevelConfig_def NUM_HIERARCHY_LEVELS_def Let_def map_update override_def topology_valid_def)
qed

lemma ring_dn_ok: "timing_ok ring_dn"
  unfolding ring_dn_def
proof (rule timing_override [OF base_dn_ok])
  have "list_all (\<lambda>(t, N). N \<le> 1024) (map (\<lambda>l. (il_topology l, il_num_nodes l)) (dn_network_configs base_dn))" unfolding base_dn_fields(1) by simp
  then show "\<forall>l\<in>set (dn_network_configs base_dn). il_num_nodes l \<le> 1024" by (simp add: list_all_iff)
qed simp_all

lemma payload_iff: "payload_ok d n \<longleftrightarrow> list_all (\<lambda>(t, N). unat n * hop_limit t N \<le> 2 ^ 40) (map (\<lambda>l. (il_topology l, il_num_nodes l)) (dn_network_configs d))"
  by (simp add: payload_ok_def level_hops_def list.pred_map comp_def)

theorem latency_bounds_witness:
  "1 \<le> unat (fst (getTierLatency sample_libm 3 64 ring_dn)) \<and>
   unat (fst (getTierLatency sample_libm 3 64 ring_dn)) \<le> 102 * 8 * unat (tier_base sample_libm (dn_network_configs ring_dn ! 3) 64) + 1 \<and>
   1 \<le> unat (fst (getBridgeLatency sample_libm 2 64 ring_dn))"
proof -
  have len: "length (dn_network_configs ring_dn) = 7" using ring_dn_ok by (simp add: timing_ok_def lengths_ok_def)
  have payload: "payload_ok ring_dn 64" unfolding payload_iff ring_dn_fields(1) by (simp add: hop_limit_def)
  have "(il_topology (dn_network_configs ring_dn ! 3), il_num_nodes (dn_network_configs ring_dn ! 3)) = (''ring'', 8)"
    using arg_cong [OF ring_dn_fields(1), of "\<lambda>xs. xs ! 3"] len by simp
  then have "hop_limit (il_topology (dn_network_configs ring_dn ! 3)) (il_num_nodes (dn_network_configs ring_dn ! 3)) = 8" by (simp add: hop_limit_def)
  then show ?thesis using latency_bounds [OF sample_libm_ok ring_dn_ok payload, of 3 2] ring_dn_fields(2,3)
    by (auto simp: Let_def split: prod.splits)
qed

declare of_nat_unat [simp]

end
