(* ===== verification/Mem_Net.thy ===== *)
theory Mem_Net
  imports Mem_Latency
begin

text \<open>
  The traffic of the in-memory network (src/memory/internal_dram_network.cpp): addresses and the level a packet
  has to climb to, \<^verbatim>\<open>sendPacket\<close>, and \<^verbatim>\<open>tick\<close>, which moves the detailed networks and completes the packets that are due. The
  result \<open>None\<close> of a tick is the trap of the division in \<^verbatim>\<open>extractPacket\<close>, and that of a send the trap of the divisions in
  \<^verbatim>\<open>bankToAddress\<close> by a dimension of the hierarchy that is zero. A callback must not send
  packets itself: in the program that would invalidate the iterator of the loop that calls it.
\<close>

section \<open>Queue limits\<close>

definition getQueueDepth :: "InternalDRAMNetwork \<Rightarrow> NetworkLevel \<Rightarrow> nat" where
  "getQueueDepth d level = length (dn_network_queues d ! levelToIndex level)"

definition getQueueLimit :: "InternalDRAMNetwork \<Rightarrow> NetworkLevel \<Rightarrow> u64" where
  "getQueueLimit d level = dn_queue_limits d ! levelToIndex level"

definition canAcceptPacket :: "InternalDRAMNetwork \<Rightarrow> NetworkLevel \<Rightarrow> bool" where
  "canAcceptPacket d level \<longleftrightarrow> getQueueLimit d level = 0 \<or> getQueueDepth d level < unat (getQueueLimit d level)"

definition setQueueLimit :: "NetworkLevel \<Rightarrow> u64 \<Rightarrow> InternalDRAMNetwork \<Rightarrow> InternalDRAMNetwork" where
  "setQueueLimit level limit d = d\<lparr>dn_queue_limits := (dn_queue_limits d)[levelToIndex level := limit]\<rparr>"

definition setQueueLimits :: "u64 \<Rightarrow> u64 \<Rightarrow> u64 \<Rightarrow> u64 \<Rightarrow> InternalDRAMNetwork \<Rightarrow> InternalDRAMNetwork" where
  "setQueueLimits s b g c d = d\<lparr>dn_queue_limits := (dn_queue_limits d)[0 := s, 1 := b, 2 := g, 3 := c]\<rparr>"

section \<open>Addresses\<close>

text \<open>The fields of the address of a bank, and the trap where one of the divisors is zero.\<close>

definition bank_fields :: "InternalDRAMNetwork \<Rightarrow> int \<Rightarrow> int \<Rightarrow> HierarchicalAddress" where
  "bank_fields d bank subarray =
     (let banks_per_chip = dn_num_banks_per_bg d * dn_num_bg_per_chip d
      in \<lparr>ha_subarray = subarray, ha_bank = bank smod dn_num_banks_per_bg d,
          ha_bank_group = (bank sdiv dn_num_banks_per_bg d) smod dn_num_bg_per_chip d,
          ha_chip = (bank sdiv banks_per_chip) smod dn_num_chips_per_rank d,
          ha_rank = bank sdiv (banks_per_chip * dn_num_chips_per_rank d), ha_channel = 0, ha_system = 0\<rparr>)"

definition bankToAddress :: "InternalDRAMNetwork \<Rightarrow> int \<Rightarrow> int \<Rightarrow> HierarchicalAddress option" where
  "bankToAddress d bank subarray =
     (if dn_num_banks_per_bg d = 0 \<or> dn_num_bg_per_chip d = 0 \<or> dn_num_chips_per_rank d = 0 then None
      else Some (bank_fields d bank subarray))"

definition addressFieldAtLevel :: "HierarchicalAddress \<Rightarrow> nat \<Rightarrow> int" where
  "addressFieldAtLevel a level =
     (if level = 0 then ha_subarray a else if level = 1 then ha_bank a else if level = 2 then ha_bank_group a
      else if level = 3 then ha_chip a else if level = 4 then ha_rank a else if level = 5 then ha_channel a
      else if level = 6 then ha_system a else 0)"

text \<open>From the top, the first level at which the addresses differ.\<close>

fun lca_from :: "HierarchicalAddress \<Rightarrow> HierarchicalAddress \<Rightarrow> nat \<Rightarrow> nat" where
  "lca_from src dst 0 = 0"
| "lca_from src dst (Suc level) =
     (if addressFieldAtLevel src (Suc level) \<noteq> addressFieldAtLevel dst (Suc level) then Suc level else lca_from src dst level)"

definition lowestCommonAncestor :: "HierarchicalAddress \<Rightarrow> HierarchicalAddress \<Rightarrow> nat" where
  "lowestCommonAncestor src dst = lca_from src dst (NUM_HIERARCHY_LEVELS - 1)"

section \<open>Sending\<close>

definition count_accesses :: "nat \<Rightarrow> InternalDRAMNetwork \<Rightarrow> InternalDRAMNetwork" where
  "count_accesses lca d = d\<lparr>dn_network_accesses := map2 (\<lambda>i a. if i \<le> lca then a + 1 else a) [0..<7] (dn_network_accesses d)\<rparr>"

definition congested :: "InternalDRAMNetwork \<Rightarrow> HierarchicalAddress \<Rightarrow> nat \<Rightarrow> bool" where
  "congested d src lca \<longleftrightarrow> dn_use_garnet_models d \<and>
     (\<exists>level\<in>{0..lca}.
        (case dn_garnet_networks d ! level of None \<Rightarrow> False | Some g \<Rightarrow> \<not> canInject g (word_of_int (addressFieldAtLevel src level))) \<or>
        (level < lca \<and> (case dn_bridge_garnet_networks d ! level of None \<Rightarrow> False | Some g \<Rightarrow> \<not> canInject g 0)))"

definition tier_cost :: "libm \<Rightarrow> u64 \<Rightarrow> nat \<Rightarrow> u64 \<times> InternalDRAMNetwork \<Rightarrow> u64 \<times> InternalDRAMNetwork" where
  "tier_cost m n level x = (let (lat, d) = getTierLatency m level n (snd x) in (fst x + lat, d))"

definition bridge_cost :: "libm \<Rightarrow> u64 \<Rightarrow> nat \<Rightarrow> u64 \<times> InternalDRAMNetwork \<Rightarrow> u64 \<times> InternalDRAMNetwork" where
  "bridge_cost m n level x = (let (lat, d) = getBridgeLatency m (int level) n (snd x) in (fst x + lat, d))"

text \<open>Up to the common level, across it, and down again.\<close>

definition path_latency :: "libm \<Rightarrow> u64 \<Rightarrow> nat \<Rightarrow> InternalDRAMNetwork \<Rightarrow> u64 \<times> InternalDRAMNetwork" where
  "path_latency m n lca d =
     (let up = foldl (\<lambda>x level. bridge_cost m n level (tier_cost m n level x)) (0, d) [0..<lca];
          across = tier_cost m n lca up
      in foldl (\<lambda>x level. tier_cost m n level (bridge_cost m n level x)) across (rev [0..<lca]))"

definition inject_level :: "InternalNetworkPacket \<Rightarrow> HierarchicalAddress \<Rightarrow> HierarchicalAddress \<Rightarrow> u64 \<Rightarrow> nat \<Rightarrow> InternalDRAMNetwork \<Rightarrow> InternalDRAMNetwork" where
  "inject_level p src dst offset level d =
     (case dn_garnet_networks d ! level of None \<Rightarrow> d
      | Some g \<Rightarrow> d\<lparr>dn_garnet_networks := (dn_garnet_networks d)[level := Some (injectPacket
          (NetworkPacket_make (word_of_int (addressFieldAtLevel src level)) (word_of_int (addressFieldAtLevel dst level)) DATA
             (ucast (ucast (ip_data_bytes p) :: u32)) (ip_packet_id p) (dn_current_cycle d + offset)) g)]\<rparr>)"

definition inject_bridge :: "InternalNetworkPacket \<Rightarrow> u64 \<Rightarrow> nat \<Rightarrow> InternalDRAMNetwork \<Rightarrow> InternalDRAMNetwork" where
  "inject_bridge p offset level d =
     (case dn_bridge_garnet_networks d ! level of None \<Rightarrow> d
      | Some g \<Rightarrow> d\<lparr>dn_bridge_garnet_networks := (dn_bridge_garnet_networks d)[level := Some (injectPacket
          (NetworkPacket_make 0 1 DATA (ucast (ucast (ip_data_bytes p) :: u32)) (ip_packet_id p) (dn_current_cycle d + offset)) g)]\<rparr>)"

definition inject_step ::
  "libm \<Rightarrow> InternalNetworkPacket \<Rightarrow> HierarchicalAddress \<Rightarrow> HierarchicalAddress \<Rightarrow> nat \<Rightarrow> u64 \<times> InternalDRAMNetwork \<Rightarrow> nat \<Rightarrow> u64 \<times> InternalDRAMNetwork" where
  "inject_step m p src dst lca x level =
     (let d = inject_level p src dst (fst x) level (snd x)
      in if level < lca then bridge_cost m (ip_data_bytes p) level (fst x, inject_bridge p (fst x) level d) else (fst x, d))"

definition path_detailed :: "InternalDRAMNetwork \<Rightarrow> nat \<Rightarrow> bool" where
  "path_detailed d lca \<longleftrightarrow> (\<exists>level\<in>{0..lca}. dn_garnet_networks d ! level \<noteq> None \<or> (level < lca \<and> dn_bridge_garnet_networks d ! level \<noteq> None))"

definition enter_inflight :: "InternalNetworkPacket \<Rightarrow> u64 \<Rightarrow> InternalDRAMNetwork \<Rightarrow> InternalDRAMNetwork" where
  "enter_inflight p completion d =
     d\<lparr>dn_inflight_packets := dn_inflight_packets d @
         [p\<lparr>ip_injection_time := dn_current_cycle d, ip_completion_time := completion, ip_completed := False\<rparr>],
       dn_total_packets_sent := dn_total_packets_sent d + 1,
       dn_total_bytes_transferred := dn_total_bytes_transferred d + ip_data_bytes p\<rparr>"

text \<open>The body of \<^verbatim>\<open>sendPacket\<close> once the two addresses are known.\<close>

definition send_between ::
  "libm \<Rightarrow> InternalNetworkPacket \<Rightarrow> HierarchicalAddress \<Rightarrow> HierarchicalAddress \<Rightarrow> InternalDRAMNetwork \<Rightarrow> bool \<times> InternalDRAMNetwork" where
  "send_between m p src dst d =
     (let lca = lowestCommonAncestor src dst; d1 = count_accesses lca d
      in if congested d1 src lca then (False, d1)
         else let (total, d2) = path_latency m (ip_data_bytes p) lca d1
              in if dn_use_garnet_models d2
                 then let (_, d3) = foldl (inject_step m p src dst lca) (0, d2) [0..<Suc lca]
                      in (True, enter_inflight p (if path_detailed d2 lca then 0 else dn_current_cycle d3 + total) d3)
                 else (True, enter_inflight p (dn_current_cycle d2 + total) d2))"

definition sendPacket :: "libm \<Rightarrow> InternalNetworkPacket \<Rightarrow> InternalDRAMNetwork \<Rightarrow> (bool \<times> InternalDRAMNetwork) option" where
  "sendPacket m p d =
     (case bankToAddress d (ip_source_bank p) (ip_source_subarray p) of None \<Rightarrow> None
      | Some src \<Rightarrow> (case bankToAddress d (ip_dest_bank p) (ip_dest_subarray p) of None \<Rightarrow> None
          | Some dst \<Rightarrow> Some (send_between m p src dst d)))"

section \<open>One cycle\<close>

definition packet_callback :: "InternalNetworkPacket \<Rightarrow> nat list" where
  "packet_callback p = (case ip_callback p of None \<Rightarrow> [] | Some c \<Rightarrow> [c])"

definition record_completion :: "InternalNetworkPacket \<Rightarrow> InternalDRAMNetwork \<Rightarrow> InternalDRAMNetwork" where
  "record_completion p d =
     d\<lparr>dn_total_packets_completed := dn_total_packets_completed d + 1,
       dn_total_network_latency := dn_total_network_latency d + (ip_completion_time p - ip_injection_time p),
       dn_called := dn_called d @ packet_callback p\<rparr>"

definition is_due :: "InternalDRAMNetwork \<Rightarrow> InternalNetworkPacket \<Rightarrow> bool" where
  "is_due d p \<longleftrightarrow> \<not> (ip_completion_time p = 0 \<and> dn_use_garnet_models d) \<and>
     ip_completion_time p \<le> dn_current_cycle d \<and> \<not> ip_completed p"

text \<open>Whether a packet is due does not depend on what the completions change.\<close>

definition processInflightPackets :: "InternalDRAMNetwork \<Rightarrow> InternalDRAMNetwork" where
  "processInflightPackets d =
     (foldl (\<lambda>d p. if is_due d p then record_completion p d else d) d (dn_inflight_packets d))
       \<lparr>dn_inflight_packets := filter (\<lambda>p. \<not> is_due d p) (dn_inflight_packets d)\<rparr>"

definition awaits :: "NetworkPacket \<Rightarrow> InternalNetworkPacket \<Rightarrow> bool" where
  "awaits a p \<longleftrightarrow> ip_packet_id p = np_addr a \<and> \<not> ip_completed p \<and> ip_completion_time p = 0"

fun update_first :: "('a \<Rightarrow> bool) \<Rightarrow> ('a \<Rightarrow> 'a) \<Rightarrow> 'a list \<Rightarrow> 'a list" where
  "update_first P f [] = []"
| "update_first P f (x # xs) = (if P x then f x # xs else x # update_first P f xs)"

definition mark_arrived :: "NetworkPacket \<Rightarrow> InternalDRAMNetwork \<Rightarrow> InternalDRAMNetwork" where
  "mark_arrived a d =
     (let done = (\<lambda>p. p\<lparr>ip_completion_time := dn_current_cycle d, ip_completed := True\<rparr>) in
      case find (awaits a) (dn_inflight_packets d) of
        None \<Rightarrow> d
      | Some p \<Rightarrow> record_completion (done p) (d\<lparr>dn_inflight_packets := update_first (awaits a) done (dn_inflight_packets d)\<rparr>))"

lemma extract_shrinks:
  assumes "hasArrived g n" and "extractPacket n g = Some (p, h)"
  shows "length (queue n (gm_ejection h)) < length (queue n (gm_ejection g))"
proof -
  have "ns_total_packets (gm_stats g) \<noteq> 0" using assms by (auto simp: hasArrived_def extractPacket_def updateStatistics_def Let_def split: option.splits list.splits)
  with assms(1) show ?thesis
    by (rule extract_effect) (use assms(2) in auto)
qed

function drain :: "u32 \<Rightarrow> GarnetModel \<Rightarrow> InternalDRAMNetwork \<Rightarrow> (GarnetModel \<times> InternalDRAMNetwork) option" where
  "drain n g d =
     (if hasArrived g n
      then case extractPacket n g of None \<Rightarrow> None | Some (a, h) \<Rightarrow> drain n h (mark_arrived a d)
      else Some (g, d))"
  by pat_completeness auto
termination by (relation "measure (\<lambda>(n, g, d). length (queue n (gm_ejection g)))") (auto intro: extract_shrinks)

declare drain.simps [simp del]

text \<open>The nodes whose arrivals are looked for.\<close>

definition max_nodes :: "InternalDRAMNetwork \<Rightarrow> nat \<Rightarrow> nat" where
  "max_nodes d i = unat (word_of_int (get_nodes d i) :: u32)"

fun drain_nodes :: "u32 list \<Rightarrow> GarnetModel \<Rightarrow> InternalDRAMNetwork \<Rightarrow> (GarnetModel \<times> InternalDRAMNetwork) option" where
  "drain_nodes [] g d = Some (g, d)"
| "drain_nodes (n # ns) g d = (case drain n g d of None \<Rightarrow> None | Some (h, e) \<Rightarrow> drain_nodes ns h e)"

definition drain_level :: "nat \<Rightarrow> InternalDRAMNetwork \<Rightarrow> InternalDRAMNetwork option" where
  "drain_level i d =
     (case dn_garnet_networks d ! i of None \<Rightarrow> Some d
      | Some g \<Rightarrow> map_option (\<lambda>(h, e). e\<lparr>dn_garnet_networks := (dn_garnet_networks e)[i := Some h]\<rparr>)
          (drain_nodes (map word_of_nat [0..<max_nodes d i]) g d))"

definition drain_bridge :: "nat \<Rightarrow> InternalDRAMNetwork \<Rightarrow> InternalDRAMNetwork option" where
  "drain_bridge b d =
     (case dn_bridge_garnet_networks d ! b of None \<Rightarrow> Some d
      | Some g \<Rightarrow> map_option (\<lambda>(h, e). e\<lparr>dn_bridge_garnet_networks := (dn_bridge_garnet_networks e)[b := Some h]\<rparr>) (drain 1 g d))"

fun for_each :: "(nat \<Rightarrow> 'a \<Rightarrow> 'a option) \<Rightarrow> nat list \<Rightarrow> 'a \<Rightarrow> 'a option" where
  "for_each f [] x = Some x"
| "for_each f (i # is) x = (case f i x of None \<Rightarrow> None | Some y \<Rightarrow> for_each f is y)"

definition processGarnetArrivedPackets :: "InternalDRAMNetwork \<Rightarrow> InternalDRAMNetwork option" where
  "processGarnetArrivedPackets d =
     (case for_each drain_level [0..<7] d of None \<Rightarrow> None
      | Some e \<Rightarrow> map_option (\<lambda>e. e\<lparr>dn_inflight_packets := filter (\<lambda>p. \<not> ip_completed p) (dn_inflight_packets e)\<rparr>)
          (for_each drain_bridge [0..<6] e))"

definition tick_networks :: "InternalDRAMNetwork \<Rightarrow> InternalDRAMNetwork" where
  "tick_networks d =
     d\<lparr>dn_garnet_networks := map2 (\<lambda>nm g. if nm = NM_DETAILED then map_option garnet_tick g else g) (dn_level_models d) (dn_garnet_networks d),
       dn_bridge_garnet_networks := map (map_option garnet_tick) (dn_bridge_garnet_networks d)\<rparr>"

definition release_buffers :: "InternalDRAMNetwork \<Rightarrow> InternalDRAMNetwork" where
  "release_buffers d =
     d\<lparr>dn_bridge_buffers := map (map (dropWhile (\<lambda>p. bp_release_cycle p \<le> dn_current_cycle d))) (dn_bridge_buffers d)\<rparr>"

definition dn_tick :: "InternalDRAMNetwork \<Rightarrow> InternalDRAMNetwork option" where
  "dn_tick d =
     (let d1 = d\<lparr>dn_current_cycle := dn_current_cycle d + 1\<rparr> in
      map_option (\<lambda>e. processInflightPackets (release_buffers e))
        (if dn_use_garnet_models d1 then processGarnetArrivedPackets (tick_networks d1) else Some d1))"

section \<open>Addresses are mixed-radix numbers\<close>

lemma sdiv_nonneg: "0 \<le> a \<Longrightarrow> 0 < b \<Longrightarrow> a sdiv b = a div (b :: int)" "0 \<le> a \<Longrightarrow> 0 < b \<Longrightarrow> a smod b = a mod (b :: int)"
  by (auto simp: signed_divide_int_def signed_modulo_int_def sgn_if)

lemma digits_eq: "0 < (k :: int) \<Longrightarrow> a = b \<longleftrightarrow> a mod k = b mod k \<and> a div k = b div k"
  by (metis div_mult_mod_eq)

lemma lowestCommonAncestor_levels:
  "lowestCommonAncestor a b =
     (if ha_system a \<noteq> ha_system b then 6 else if ha_channel a \<noteq> ha_channel b then 5 else if ha_rank a \<noteq> ha_rank b then 4
      else if ha_chip a \<noteq> ha_chip b then 3 else if ha_bank_group a \<noteq> ha_bank_group b then 2 else if ha_bank a \<noteq> ha_bank b then 1 else 0)"
  by (simp add: lowestCommonAncestor_def numeral_eq_Suc addressFieldAtLevel_def)

lemma bankToAddress_nonneg:
  assumes "0 < dn_num_banks_per_bg d" and "0 < dn_num_bg_per_chip d" and "0 < dn_num_chips_per_rank d" and "0 \<le> n"
  defines "B \<equiv> dn_num_banks_per_bg d" and "G \<equiv> dn_num_bg_per_chip d" and "C \<equiv> dn_num_chips_per_rank d"
  shows "bankToAddress d n u = Some
    \<lparr>ha_subarray = u, ha_bank = n mod B, ha_bank_group = n div B mod G, ha_chip = n div B div G mod C, ha_rank = n div B div G div C, ha_channel = 0, ha_system = 0\<rparr>"
  using assms by (simp add: bankToAddress_def bank_fields_def Let_def sdiv_nonneg pos_imp_zdiv_nonneg_iff zdiv_zmult2_eq)

text \<open>The level at which a packet between two banks turns around.\<close>

definition turning_level :: "InternalDRAMNetwork \<Rightarrow> int \<Rightarrow> int \<Rightarrow> nat" where
  "turning_level d a b = lowestCommonAncestor (bank_fields d a 0) (bank_fields d b 0)"

lemma turning_level_fields: "lowestCommonAncestor (bank_fields d a s) (bank_fields d b t) = turning_level d a b"
  by (simp add: turning_level_def lowestCommonAncestor_levels bank_fields_def Let_def)

abbreviation packet_lca :: "InternalDRAMNetwork \<Rightarrow> InternalNetworkPacket \<Rightarrow> nat" where
  "packet_lca d p \<equiv> turning_level d (ip_source_bank p) (ip_dest_bank p)"

lemma routing_level:
  assumes "0 < dn_num_banks_per_bg d" and "0 < dn_num_bg_per_chip d" and "0 < dn_num_chips_per_rank d" and "0 \<le> a" and "0 \<le> b"
  defines "B \<equiv> dn_num_banks_per_bg d" and "G \<equiv> dn_num_bg_per_chip d" and "C \<equiv> dn_num_chips_per_rank d"
  shows "turning_level d a b =
      (if a = b then 0 else if a div B = b div B then 1 else if a div (B * G) = b div (B * G) then 2
       else if a div (B * G * C) = b div (B * G * C) then 3 else 4)"
proof -
  have pos: "0 < B" "0 < G" "0 < C" using assms(1-3) by (simp_all add: B_def G_def C_def)
  have split: "n div (B * G) = n div B div G" "n div (B * G * C) = n div B div G div C" for n using pos by (simp_all add: zdiv_zmult2_eq)
  have fields: "bank_fields d n 0 = \<lparr>ha_subarray = 0, ha_bank = n mod B, ha_bank_group = n div B mod G, ha_chip = n div B div G mod C,
      ha_rank = n div B div G div C, ha_channel = 0, ha_system = 0\<rparr>" if "0 \<le> n" for n
    using bankToAddress_nonneg [OF assms(1-3) that, of 0] assms(1-3) by (simp add: bankToAddress_def B_def G_def C_def)
  show ?thesis
    using digits_eq [OF pos(1), of a b] digits_eq [OF pos(2), of "a div B" "b div B"] digits_eq [OF pos(3), of "a div B div G" "b div B div G"]
    unfolding split turning_level_def lowestCommonAncestor_levels fields [OF assms(4)] fields [OF assms(5)]
    by simp
qed

text \<open>
  The address of a bank is its number in the mixed radix of the hierarchy, when no dimension is zero: every field is in range, the number
  is recovered from the fields, and two packets climb exactly to the lowest unit that contains both banks. With a dimension of zero the division traps.
\<close>

theorem routing_level_correct:
  assumes "0 \<le> dn_num_banks_per_bg d" and "0 \<le> dn_num_bg_per_chip d" and "0 \<le> dn_num_chips_per_rank d" and "0 \<le> a" and "0 \<le> b"
  defines "B \<equiv> dn_num_banks_per_bg d" and "G \<equiv> dn_num_bg_per_chip d" and "C \<equiv> dn_num_chips_per_rank d"
  shows "case bankToAddress d a s of
      None \<Rightarrow> B * G * C = 0
    | Some x \<Rightarrow> B * G * C \<noteq> 0 \<and>
        0 \<le> ha_bank x \<and> ha_bank x < B \<and> 0 \<le> ha_bank_group x \<and> ha_bank_group x < G \<and> 0 \<le> ha_chip x \<and> ha_chip x < C \<and> 0 \<le> ha_rank x \<and>
        a = ((ha_rank x * C + ha_chip x) * G + ha_bank_group x) * B + ha_bank x \<and>
        (\<exists>y. bankToAddress d b t = Some y \<and> lowestCommonAncestor x y =
          (if a = b then 0 else if a div B = b div B then 1 else if a div (B * G) = b div (B * G) then 2
           else if a div (B * G * C) = b div (B * G * C) then 3 else 4))"
proof (cases "B * G * C = 0")
  case True
  then show ?thesis by (simp add: bankToAddress_def B_def G_def C_def)
next
  case False
  then have pos: "0 < dn_num_banks_per_bg d" "0 < dn_num_bg_per_chip d" "0 < dn_num_chips_per_rank d" using assms(1-3) by (auto simp: B_def G_def C_def)
  have some: "bankToAddress d a s = Some (bank_fields d a s)" "bankToAddress d b t = Some (bank_fields d b t)" using pos by (simp_all add: bankToAddress_def)
  have x: "bank_fields d a s = \<lparr>ha_subarray = s, ha_bank = a mod B, ha_bank_group = a div B mod G, ha_chip = a div B div G mod C,
      ha_rank = a div B div G div C, ha_channel = 0, ha_system = 0\<rparr>"
    using bankToAddress_nonneg [OF pos assms(4), of s] some(1) by (simp add: B_def G_def C_def)
  have lca: "lowestCommonAncestor (bank_fields d a s) (bank_fields d b t) =
      (if a = b then 0 else if a div B = b div B then 1 else if a div (B * G) = b div (B * G) then 2
       else if a div (B * G * C) = b div (B * G * C) then 3 else 4)"
    unfolding turning_level_fields B_def G_def C_def by (rule routing_level [OF pos assms(4,5)])
  have num: "a = ((a div B div G div C * C + a div B div G mod C) * G + a div B mod G) * B + a mod B" by simp
  have BGC: "0 < B" "0 < G" "0 < C" using pos by (simp_all add: B_def G_def C_def)
  have range: "B * G * C \<noteq> 0 \<and> 0 \<le> ha_bank (bank_fields d a s) \<and> ha_bank (bank_fields d a s) < B \<and> 0 \<le> ha_bank_group (bank_fields d a s) \<and>
      ha_bank_group (bank_fields d a s) < G \<and> 0 \<le> ha_chip (bank_fields d a s) \<and> ha_chip (bank_fields d a s) < C \<and> 0 \<le> ha_rank (bank_fields d a s) \<and>
      a = ((ha_rank (bank_fields d a s) * C + ha_chip (bank_fields d a s)) * G + ha_bank_group (bank_fields d a s)) * B + ha_bank (bank_fields d a s)"
    using BGC assms(4) num unfolding x by (simp add: pos_imp_zdiv_nonneg_iff)
  show ?thesis unfolding some(1) option.case using range some(2) lca by blast
qed

definition sample_dn :: InternalDRAMNetwork where
  "sample_dn = dn_initialize 4800 16 4 4 8 (InternalDRAMNetwork_init ''DDR4'')"

lemma sample_dn_fields:
  "dn_num_banks_per_bg sample_dn = 4" "dn_num_bg_per_chip sample_dn = 4" "dn_num_chips_per_rank sample_dn = 8"
  "\<not> dn_use_garnet_models sample_dn" "dn_inflight_packets sample_dn = []" "dn_current_cycle sample_dn = 0"
  "dn_total_packets_sent sample_dn = 0" "dn_total_packets_completed sample_dn = 0" "dn_called sample_dn = []"
  "dn_bridge_garnet_networks sample_dn = replicate 6 None"
  by (simp_all add: sample_dn_def dn_initialize_def InternalDRAMNetwork_init_def resetStats_def initializeBridgeDefaults_def configure_technology_def
      configureDDR4Network_def configure_levels_def Let_def)

lemma sample_dn_timing: "timing_ok sample_dn"
  unfolding sample_dn_def by (rule timing_initialize) simp_all

theorem routing_level_correct_witness:
  "\<exists>x y. bankToAddress sample_dn 5 0 = Some x \<and> bankToAddress sample_dn 9 0 = Some y \<and> lowestCommonAncestor x y = 2 \<and> ha_bank_group x < 4"
  using routing_level_correct [of sample_dn 5 9 0 0] by (simp add: sample_dn_fields bankToAddress_def)

section \<open>What sending changes\<close>

text \<open>The part of the state that routing, the latencies and the injections leave alone.\<close>

definition traffic :: "InternalDRAMNetwork \<Rightarrow> _" where
  "traffic d = (dn_inflight_packets d, dn_total_packets_sent d, dn_total_packets_completed d, dn_total_bytes_transferred d,
     dn_total_network_latency d, dn_called d, dn_current_cycle d, dn_use_garnet_models d)"

lemma trafficD:
  assumes "traffic e = traffic d"
  shows "dn_inflight_packets e = dn_inflight_packets d" "dn_total_packets_sent e = dn_total_packets_sent d"
    "dn_total_packets_completed e = dn_total_packets_completed d" "dn_total_bytes_transferred e = dn_total_bytes_transferred d"
    "dn_total_network_latency e = dn_total_network_latency d" "dn_called e = dn_called d" "dn_current_cycle e = dn_current_cycle d"
    "dn_use_garnet_models e = dn_use_garnet_models d"
  using assms by (simp_all add: traffic_def)

lemma traffic_cost [simp]:
  "traffic (snd (tier_cost m n level x)) = traffic (snd x)" "traffic (snd (bridge_cost m n level x)) = traffic (snd x)"
  by (simp_all add: tier_cost_def bridge_cost_def getTierLatency_def getBridgeLatency_def traffic_def Let_def)

lemma foldl_keeps: "(\<And>x i. P (f x i) = P x) \<Longrightarrow> P (foldl f x ys) = P x"
  by (induction ys arbitrary: x) simp_all

lemma traffic_path: "path_latency m n lca d = (t, e) \<Longrightarrow> traffic e = traffic d"
proof -
  assume "path_latency m n lca d = (t, e)"
  then have "traffic e = traffic (snd (path_latency m n lca d))" by simp
  also have "\<dots> = traffic d" unfolding path_latency_def Let_def by (subst foldl_keeps [where P = "\<lambda>x. traffic (snd x)"]; simp)+
  finally show ?thesis .
qed

lemma traffic_inject [simp]:
  "traffic (inject_level p src dst offset level d) = traffic d" "traffic (inject_bridge p offset level d) = traffic d"
  by (simp_all add: inject_level_def inject_bridge_def traffic_def split: option.split)

lemma traffic_inject_step [simp]: "traffic (snd (inject_step m p src dst lca x level)) = traffic (snd x)"
  by (simp add: inject_step_def Let_def)

lemma traffic_inject_all: "foldl (inject_step m p src dst lca) (t, d) levels = (u, e) \<Longrightarrow> traffic e = traffic d"
  using foldl_keeps [where P = "\<lambda>x. traffic (snd x)" and f = "inject_step m p src dst lca" and x = "(t, d)" and ys = levels] by simp

lemma traffic_accesses [simp]: "traffic (count_accesses lca d) = traffic d"
  by (simp add: count_accesses_def traffic_def)

lemma sendPacket_cases:
  obtains (trap) "sendPacket m p d = None"
      and "dn_num_banks_per_bg d = 0 \<or> dn_num_bg_per_chip d = 0 \<or> dn_num_chips_per_rank d = 0"
  | (refused) e where "sendPacket m p d = Some (False, e)" and "traffic e = traffic d" and "dn_use_garnet_models d"
  | (accepted) c e where "sendPacket m p d = Some (True, enter_inflight p c e)" and "traffic e = traffic d"
      and "\<not> dn_use_garnet_models d \<Longrightarrow> c = dn_current_cycle d + fst (path_latency m (ip_data_bytes p) (packet_lca d p) (count_accesses (packet_lca d p) d))"
proof -
  let ?src = "bank_fields d (ip_source_bank p) (ip_source_subarray p)" and ?dst = "bank_fields d (ip_dest_bank p) (ip_dest_subarray p)"
  let ?lca = "packet_lca d p"
  let ?d = "count_accesses ?lca d"
  obtain t d2 where path: "path_latency m (ip_data_bytes p) ?lca ?d = (t, d2)" by (cases "path_latency m (ip_data_bytes p) ?lca ?d")
  obtain u d3 where inj: "foldl (inject_step m p ?src ?dst ?lca) (0, d2) [0..<Suc ?lca] = (u, d3)" by fastforce
  have t: "traffic d2 = traffic d" "traffic d3 = traffic d" using traffic_path [OF path] traffic_inject_all [OF inj] by simp_all
  have send: "send_between m p ?src ?dst d = (if congested ?d ?src ?lca then (False, ?d)
      else if dn_use_garnet_models d then (True, enter_inflight p (if path_detailed d2 ?lca then 0 else dn_current_cycle d3 + t) d3)
      else (True, enter_inflight p (dn_current_cycle d2 + t) d2))"
    unfolding send_between_def Let_def turning_level_fields path using inj trafficD(8) [OF t(1)] by simp
  show thesis
  proof (cases "dn_num_banks_per_bg d = 0 \<or> dn_num_bg_per_chip d = 0 \<or> dn_num_chips_per_rank d = 0")
    case True
    then show thesis by (intro trap) (simp_all add: sendPacket_def bankToAddress_def)
  next
    case False
    then have some: "sendPacket m p d = Some (send_between m p ?src ?dst d)" by (simp add: sendPacket_def bankToAddress_def)
    show thesis
    proof (cases "congested ?d ?src ?lca")
      case True
      then show thesis using some send refused [of ?d] trafficD(8) [OF traffic_accesses] by (auto simp: congested_def)
    next
      case False
      then show thesis using some send accepted t path trafficD(7) [OF t(1)] by (cases "dn_use_garnet_models d") auto
    qed
  qed
qed

section \<open>Conservation of packets\<close>

definition live :: "InternalDRAMNetwork \<Rightarrow> InternalNetworkPacket list" where
  "live d = filter (\<lambda>p. \<not> ip_completed p) (dn_inflight_packets d)"

definition callbacks :: "InternalNetworkPacket list \<Rightarrow> nat multiset" where
  "callbacks ps = mset (concat (map packet_callback ps))"

lemma callbacks_simps [simp]:
  "callbacks [] = {#}" "callbacks (p # ps) = mset (packet_callback p) + callbacks ps" "callbacks (ps @ qs) = callbacks ps + callbacks qs"
  by (simp_all add: callbacks_def)

text \<open>What a cycle must not change: sent packets are completed or live, and so are their callbacks called or pending.\<close>

definition balance :: "InternalDRAMNetwork \<Rightarrow> u64 \<times> u64 \<times> u64 \<times> nat multiset" where
  "balance d = (dn_total_packets_sent d, dn_total_bytes_transferred d, dn_total_packets_completed d + of_nat (length (live d)),
     mset (dn_called d) + callbacks (live d))"

lemma balance_mark [simp]: "balance (mark_arrived a d) = balance d"
proof (cases "find (awaits a) (dn_inflight_packets d)")
  case None
  then show ?thesis by (simp add: mark_arrived_def)
next
  case (Some p)
  let ?done = "\<lambda>p. p\<lparr>ip_completion_time := dn_current_cycle d, ip_completed := True\<rparr>"
  obtain xs ys where x: "dn_inflight_packets d = xs @ p # ys" "awaits a p" "\<forall>x\<in>set xs. \<not> awaits a x"
    using Some by (auto simp: find_Some_iff) (metis id_take_nth_drop in_set_conv_nth length_take min_less_iff_conj nth_take)
  have "update_first (awaits a) ?done (xs @ p # ys) = xs @ ?done p # ys" using x(2,3) by (induction xs) simp_all
  moreover have "packet_callback (?done p) = packet_callback p" by (simp add: packet_callback_def)
  ultimately show ?thesis using Some x(2) unfolding mark_arrived_def Let_def x(1)
    by (simp add: balance_def record_completion_def live_def x(1) awaits_def)
qed

lemma fold_due:
  "foldl (\<lambda>e p. if is_due e p then record_completion p e else e) d ps =
     d\<lparr>dn_total_packets_completed := dn_total_packets_completed d + of_nat (length (filter (is_due d) ps)),
       dn_total_network_latency := dn_total_network_latency d + sum_list (map (\<lambda>p. ip_completion_time p - ip_injection_time p) (filter (is_due d) ps)),
       dn_called := dn_called d @ concat (map packet_callback (filter (is_due d) ps))\<rparr>"
proof (induction ps arbitrary: d)
  case (Cons p ps)
  have "is_due (record_completion p d) = is_due d" by (rule ext) (simp add: is_due_def record_completion_def)
  then show ?case using Cons by (simp add: record_completion_def algebra_simps)
qed simp

lemma callbacks_split: "callbacks (filter P ps) + callbacks (filter (\<lambda>p. \<not> P p) ps) = callbacks ps"
  by (induction ps) (simp_all add: union_ac)

lemma balance_process: "balance (processInflightPackets d) = balance d"
proof -
  have due: "filter (is_due d) (dn_inflight_packets d) = filter (is_due d) (live d)"
    unfolding live_def filter_filter by (intro filter_cong) (auto simp: is_due_def)
  have keep: "live (processInflightPackets d) = filter (\<lambda>p. \<not> is_due d p) (live d)"
    by (simp add: processInflightPackets_def live_def fold_due conj_commute)
  have "dn_total_packets_completed (processInflightPackets d) + of_nat (length (live (processInflightPackets d))) =
      dn_total_packets_completed d + of_nat (length (filter (is_due d) (live d)) + length (filter (\<lambda>p. \<not> is_due d p) (live d)))"
    unfolding keep by (simp add: processInflightPackets_def fold_due due)
  also have "length (filter (is_due d) (live d)) + length (filter (\<lambda>p. \<not> is_due d p) (live d)) = length (live d)"
    by (rule sum_length_filter_compl)
  finally have "dn_total_packets_completed (processInflightPackets d) + of_nat (length (live (processInflightPackets d))) =
      dn_total_packets_completed d + of_nat (length (live d))" .
  moreover have "mset (dn_called (processInflightPackets d)) + callbacks (live (processInflightPackets d)) = mset (dn_called d) + callbacks (live d)"
    unfolding keep using callbacks_split [of "is_due d" "live d"]
    by (simp add: processInflightPackets_def fold_due due callbacks_def add.assoc)
  ultimately show ?thesis by (simp add: balance_def processInflightPackets_def fold_due)
qed

lemma balance_drain: "drain n g d = Some (h, e) \<Longrightarrow> balance e = balance d"
proof (induction n g d rule: drain.induct)
  case (1 n g d)
  show ?case
  proof (cases "hasArrived g n")
    case True
    then obtain a h' where ex: "extractPacket n g = Some (a, h')" using 1(2) by (auto simp: drain.simps [of n g d] split: option.splits)
    then have "drain n h' (mark_arrived a d) = Some (h, e)" using 1(2) True by (simp add: drain.simps [of n g d])
    then show ?thesis using 1(1) [OF True ex] by simp
  qed (use 1(2) in \<open>simp add: drain.simps [of n g d]\<close>)
qed

lemma balance_drain_nodes: "drain_nodes ns g d = Some (h, e) \<Longrightarrow> balance e = balance d"
  by (induction ns g d rule: drain_nodes.induct) (auto dest: balance_drain split: option.splits prod.splits)

lemma balance_fields [simp]:
  "balance (d\<lparr>dn_garnet_networks := x\<rparr>) = balance d" "balance (d\<lparr>dn_bridge_garnet_networks := x\<rparr>) = balance d"
  "balance (d\<lparr>dn_current_cycle := c\<rparr>) = balance d" "balance (tick_networks d) = balance d" "balance (release_buffers d) = balance d"
  by (simp_all add: balance_def live_def tick_networks_def release_buffers_def)

lemma balance_cleanup: "balance (d\<lparr>dn_inflight_packets := filter (\<lambda>p. \<not> ip_completed p) (dn_inflight_packets d)\<rparr>) = balance d"
  by (simp add: balance_def live_def)

lemma balance_drain_level:
  "drain_level i d = Some e \<Longrightarrow> balance e = balance d" "drain_bridge i d = Some e \<Longrightarrow> balance e = balance d"
  using balance_drain_nodes balance_drain by (auto simp: drain_level_def drain_bridge_def split: option.splits)

lemma for_each_keeps: "(\<And>i x y. f i x = Some y \<Longrightarrow> P y = P x) \<Longrightarrow> for_each f ns x = Some y \<Longrightarrow> P y = P x"
  by (induction ns arbitrary: x) (auto split: option.splits)

lemma balance_tick:
  assumes "dn_tick d = Some e"
  shows "balance e = balance d" and "\<forall>p\<in>set (dn_inflight_packets d). \<not> ip_completed p \<Longrightarrow> \<forall>p\<in>set (dn_inflight_packets e). \<not> ip_completed p"
proof -
  let ?d = "d\<lparr>dn_current_cycle := dn_current_cycle d + 1\<rparr>"
  obtain f where f: "(if dn_use_garnet_models ?d then processGarnetArrivedPackets (tick_networks ?d) else Some ?d) = Some f"
      and e: "e = processInflightPackets (release_buffers f)"
    using assms by (auto simp: dn_tick_def Let_def split: if_splits)
  have arr: "balance f = balance d" "\<forall>p\<in>set (dn_inflight_packets d). \<not> ip_completed p \<Longrightarrow> \<forall>p\<in>set (dn_inflight_packets f). \<not> ip_completed p"
  proof (atomize (full), cases "dn_use_garnet_models d")
    case True
    then obtain x y where x: "for_each drain_level [0..<7] (tick_networks ?d) = Some x" and y: "for_each drain_bridge [0..<6] x = Some y"
        and f: "f = y\<lparr>dn_inflight_packets := filter (\<lambda>p. \<not> ip_completed p) (dn_inflight_packets y)\<rparr>"
      using f by (auto simp: processGarnetArrivedPackets_def split: option.splits)
    have "balance y = balance d"
      using for_each_keeps [of drain_level balance, OF balance_drain_level(1) x] for_each_keeps [of drain_bridge balance, OF balance_drain_level(2) y] by simp
    then show "balance f = balance d \<and> ((\<forall>p\<in>set (dn_inflight_packets d). \<not> ip_completed p) \<longrightarrow> (\<forall>p\<in>set (dn_inflight_packets f). \<not> ip_completed p))"
      by (simp add: f balance_cleanup)
  qed (use f in auto)
  then show "balance e = balance d" by (simp add: e balance_process)
  assume "\<forall>p\<in>set (dn_inflight_packets d). \<not> ip_completed p"
  then show "\<forall>p\<in>set (dn_inflight_packets e). \<not> ip_completed p"
    using arr(2) by (simp add: e processInflightPackets_def release_buffers_def)
qed

text \<open>A run: packets are accepted or refused and cycles pass. The list has the accepted packets.\<close>

inductive net_run :: "libm \<Rightarrow> InternalDRAMNetwork \<Rightarrow> InternalNetworkPacket list \<Rightarrow> InternalDRAMNetwork \<Rightarrow> bool" for m d where
  start: "net_run m d [] d"
| accepted: "net_run m d ps e \<Longrightarrow> sendPacket m p e = Some (True, f) \<Longrightarrow> net_run m d (ps @ [p]) f"
| refused: "net_run m d ps e \<Longrightarrow> sendPacket m p e = Some (False, f) \<Longrightarrow> net_run m d ps f"
| cycle: "net_run m d ps e \<Longrightarrow> dn_tick e = Some f \<Longrightarrow> net_run m d ps f"

inductive_cases net_runE: "net_run m d ps e"

definition conserved :: "InternalDRAMNetwork \<Rightarrow> bool" where
  "conserved d \<longleftrightarrow> dn_total_packets_sent d = dn_total_packets_completed d + of_nat (length (dn_inflight_packets d)) \<and>
     (\<forall>p\<in>set (dn_inflight_packets d). \<not> ip_completed p)"

lemma conserved_live: "\<forall>p\<in>set (dn_inflight_packets d). \<not> ip_completed p \<Longrightarrow> live d = dn_inflight_packets d"
  by (simp add: live_def)

lemma conserved_iff: "conserved d \<longleftrightarrow> (\<forall>p\<in>set (dn_inflight_packets d). \<not> ip_completed p) \<and> fst (balance d) = fst (snd (snd (balance d)))"
  by (auto simp: conserved_def balance_def conserved_live)

lemma balance_send:
  assumes "sendPacket m p d = Some (r, e)"
  shows "balance e = (case balance d of (s, b, c, q) \<Rightarrow>
      if r then (s + 1, b + ip_data_bytes p, c + 1, q + mset (packet_callback p)) else (s, b, c, q))"
    and "\<forall>p\<in>set (dn_inflight_packets d). \<not> ip_completed p \<Longrightarrow> \<forall>p\<in>set (dn_inflight_packets e). \<not> ip_completed p"
proof -
  have enter: "balance (enter_inflight p c f) = (case balance f of (s, b, k, q) \<Rightarrow> (s + 1, b + ip_data_bytes p, k + 1, q + mset (packet_callback p)))" for c f
    by (simp add: balance_def live_def enter_inflight_def packet_callback_def)
  have same: "balance f = balance d" if "traffic f = traffic d" for f using trafficD [OF that] by (simp add: balance_def live_def)
  show "balance e = (case balance d of (s, b, c, q) \<Rightarrow>
      if r then (s + 1, b + ip_data_bytes p, c + 1, q + mset (packet_callback p)) else (s, b, c, q))"
  proof (cases m p d rule: sendPacket_cases)
    case trap
    then show ?thesis using assms by simp
  next
    case (refused f)
    then show ?thesis using assms same [OF refused(2)] by (simp split: prod.split)
  next
    case (accepted c f)
    then show ?thesis using assms same [OF accepted(2)] by (auto simp: enter split: prod.split)
  qed
  assume "\<forall>p\<in>set (dn_inflight_packets d). \<not> ip_completed p"
  then show "\<forall>p\<in>set (dn_inflight_packets e). \<not> ip_completed p"
  proof (cases m p d rule: sendPacket_cases)
    case trap
    then show ?thesis using assms by simp
  next
    case (refused f)
    with \<open>\<forall>p\<in>_. _\<close> show ?thesis using assms trafficD(1) [OF refused(2)] by simp
  next
    case (accepted c f)
    with \<open>\<forall>p\<in>_. _\<close> show ?thesis using assms trafficD(1) [OF accepted(2)] by (auto simp: enter_inflight_def)
  qed
qed

text \<open>
  C30: No packet is lost or duplicated, with detailed networks or without: in every run the packets sent so far are those
  completed and those in flight, what was sent and its bytes are what was accepted, and each accepted packet's
  callback has been called once or is still to be called with its packet in flight.
\<close>

theorem traffic_conserved:
  assumes "conserved d" and "net_run m d ps e"
  shows "conserved e \<and> dn_total_packets_sent e = dn_total_packets_sent d + of_nat (length ps) \<and>
    dn_total_bytes_transferred e = dn_total_bytes_transferred d + sum_list (map ip_data_bytes ps) \<and>
    mset (dn_called e) + callbacks (dn_inflight_packets e) = mset (dn_called d) + callbacks (dn_inflight_packets d) + callbacks ps"
proof -
  have "(\<forall>p\<in>set (dn_inflight_packets e). \<not> ip_completed p) \<and>
    balance e = (case balance d of (s, b, c, q) \<Rightarrow> (s + of_nat (length ps), b + sum_list (map ip_data_bytes ps), c + of_nat (length ps), q + callbacks ps))"
    using assms(2)
  proof (induction rule: net_run.induct)
    case start
    then show ?case using assms(1) by (simp add: conserved_def split: prod.split)
  next
    case (accepted ps e p f)
    then show ?case using balance_send [OF accepted(2)] by (simp add: algebra_simps split: prod.splits)
  next
    case (refused ps e p f)
    then show ?case using balance_send [OF refused(2)] by (simp split: prod.splits)
  next
    case (cycle ps e f)
    then show ?case using balance_tick [OF cycle(2)] by simp
  qed
  moreover note assms(1)
  ultimately show ?thesis by (auto simp: conserved_iff balance_def conserved_live)
qed

definition sample_ip :: InternalNetworkPacket where
  "sample_ip = \<lparr>ip_packet_id = 1, ip_source_bank = 5, ip_dest_bank = 9, ip_source_subarray = 0, ip_dest_subarray = 3, ip_data_bytes = 64,
     ip_injection_time = 0, ip_completion_time = 0, ip_completed = False, ip_callback = Some 7\<rparr>"

definition dims_ok :: "InternalDRAMNetwork \<Rightarrow> bool" where
  "dims_ok d \<longleftrightarrow> dn_num_banks_per_bg d \<noteq> 0 \<and> dn_num_bg_per_chip d \<noteq> 0 \<and> dn_num_chips_per_rank d \<noteq> 0"

lemma analytical_send:
  assumes "\<not> dn_use_garnet_models d" and "dims_ok d"
  obtains e where "sendPacket m p d = Some
      (True, enter_inflight p (dn_current_cycle d + fst (path_latency m (ip_data_bytes p) (packet_lca d p) (count_accesses (packet_lca d p) d))) e)"
    and "traffic e = traffic d"
  using assms by (cases m p d rule: sendPacket_cases) (auto simp: dims_ok_def)

lemma sample_dims: "dims_ok sample_dn"
  by (simp add: dims_ok_def sample_dn_fields)

theorem traffic_conserved_witness:
  "\<exists>e. net_run sample_libm sample_dn [sample_ip] e \<and> dn_total_packets_sent e = 1 \<and> mset (dn_called e) + callbacks (dn_inflight_packets e) = {#7#}"
proof -
  obtain e where "sendPacket sample_libm sample_ip sample_dn = Some (True, e)" using analytical_send sample_dn_fields(4) sample_dims by metis
  then have run: "net_run sample_libm sample_dn [sample_ip] e" using accepted [OF start, of sample_libm sample_ip sample_dn e] by simp
  have "conserved sample_dn" by (simp add: conserved_def sample_dn_fields)
  from traffic_conserved [OF this run] run show ?thesis by (auto simp: sample_dn_fields sample_ip_def packet_callback_def)
qed

section \<open>Delivery in an analytical network\<close>

fun ticks :: "nat \<Rightarrow> InternalDRAMNetwork \<Rightarrow> InternalDRAMNetwork option" where
  "ticks 0 d = Some d"
| "ticks (Suc k) d = (case dn_tick d of None \<Rightarrow> None | Some e \<Rightarrow> ticks k e)"

lemma analytical_tick:
  assumes "\<not> dn_use_garnet_models d" and "\<forall>p\<in>set (dn_inflight_packets d). \<not> ip_completed p" and "unat (dn_current_cycle d) + 1 < 2 ^ 64"
  defines "due \<equiv> \<lambda>p. unat (ip_completion_time p) \<le> unat (dn_current_cycle d) + 1"
  obtains e where "dn_tick d = Some e" and "\<not> dn_use_garnet_models e" and "unat (dn_current_cycle e) = unat (dn_current_cycle d) + 1"
    and "dn_inflight_packets e = filter (\<lambda>p. \<not> due p) (dn_inflight_packets d)"
    and "dn_called e = dn_called d @ concat (map packet_callback (filter due (dn_inflight_packets d)))"
proof
  let ?d = "release_buffers (d\<lparr>dn_current_cycle := dn_current_cycle d + 1\<rparr>)"
  have c: "unat (dn_current_cycle d + 1) = unat (dn_current_cycle d) + 1" using assms(3) by (simp add: unat_word_ariths)
  have due: "is_due ?d p = due p" if "p \<in> set (dn_inflight_packets d)" for p
    using assms(1,2) that c by (simp add: is_due_def due_def release_buffers_def word_le_nat_alt)
  show "dn_tick d = Some (processInflightPackets ?d)" using assms(1) by (simp add: dn_tick_def Let_def)
  show "\<not> dn_use_garnet_models (processInflightPackets ?d)" "unat (dn_current_cycle (processInflightPackets ?d)) = unat (dn_current_cycle d) + 1"
    using assms(1) c by (simp_all add: processInflightPackets_def fold_due release_buffers_def)
  have "filter (is_due ?d) (dn_inflight_packets d) = filter due (dn_inflight_packets d)"
    "filter (\<lambda>p. \<not> is_due ?d p) (dn_inflight_packets d) = filter (\<lambda>p. \<not> due p) (dn_inflight_packets d)"
    using due by (auto intro: filter_cong)
  then show "dn_inflight_packets (processInflightPackets ?d) = filter (\<lambda>p. \<not> due p) (dn_inflight_packets d)"
    "dn_called (processInflightPackets ?d) = dn_called d @ concat (map packet_callback (filter due (dn_inflight_packets d)))"
    by (simp_all add: processInflightPackets_def fold_due release_buffers_def)
qed

lemma analytical_ticks:
  assumes "\<not> dn_use_garnet_models d" and "\<forall>p\<in>set (dn_inflight_packets d). \<not> ip_completed p" and "unat (dn_current_cycle d) + Suc k < 2 ^ 64"
  shows "\<exists>e. ticks (Suc k) d = Some e \<and> unat (dn_current_cycle e) = unat (dn_current_cycle d) + Suc k \<and>
    dn_inflight_packets e = filter (\<lambda>p. \<not> unat (ip_completion_time p) \<le> unat (dn_current_cycle d) + Suc k) (dn_inflight_packets d) \<and>
    mset (dn_called e) = mset (dn_called d) + callbacks (filter (\<lambda>p. unat (ip_completion_time p) \<le> unat (dn_current_cycle d) + Suc k) (dn_inflight_packets d))"
  using assms
proof (induction k arbitrary: d)
  case 0
  then show ?case by (auto simp: callbacks_def elim!: analytical_tick [of d])
next
  case (Suc k)
  let ?now = "\<lambda>p. unat (ip_completion_time p) \<le> unat (dn_current_cycle d) + 1"
  let ?later = "\<lambda>p. unat (ip_completion_time p) \<le> unat (dn_current_cycle d) + Suc (Suc k)"
  have c: "unat (dn_current_cycle d) + 1 < 2 ^ 64" using Suc.prems(3) by simp
  obtain e where e: "dn_tick d = Some e" "\<not> dn_use_garnet_models e" "unat (dn_current_cycle e) = unat (dn_current_cycle d) + 1"
      "dn_inflight_packets e = filter (\<lambda>p. \<not> ?now p) (dn_inflight_packets d)"
      "dn_called e = dn_called d @ concat (map packet_callback (filter ?now (dn_inflight_packets d)))"
    using analytical_tick [OF Suc.prems(1,2) c] by blast
  have "\<forall>p\<in>set (dn_inflight_packets e). \<not> ip_completed p" using Suc.prems(2) e(4) by simp
  from Suc.IH [OF e(2) this] Suc.prems(3) obtain f where f: "ticks (Suc k) e = Some f" "unat (dn_current_cycle f) = unat (dn_current_cycle d) + Suc (Suc k)"
      "dn_inflight_packets f = filter (\<lambda>p. \<not> ?later p) (dn_inflight_packets e)"
      "mset (dn_called f) = mset (dn_called e) + callbacks (filter ?later (dn_inflight_packets e))"
    by (auto simp: e(3))
  have "filter (\<lambda>p. \<not> ?later p) (filter (\<lambda>p. \<not> ?now p) ps) = filter (\<lambda>p. \<not> ?later p) ps" for ps
    unfolding filter_filter by (intro filter_cong) auto
  moreover have "callbacks (filter ?now ps) + callbacks (filter ?later (filter (\<lambda>p. \<not> ?now p) ps)) = callbacks (filter ?later ps)" for ps
    by (induction ps) (auto simp: union_ac)
  ultimately show ?case using e(1,4,5) f by (auto simp: callbacks_def [symmetric] add.assoc)
qed

text \<open>After \<open>k\<close> crossings of levels and bridges, the latency is at least \<open>k\<close>, and far from overflow.\<close>

definition crossed :: "u64 \<Rightarrow> nat \<Rightarrow> u64 \<times> InternalDRAMNetwork \<Rightarrow> bool" where
  "crossed n k x \<longleftrightarrow> timing_ok (snd x) \<and> payload_ok (snd x) n \<and> \<not> dn_use_garnet_models (snd x) \<and> dn_bridge_garnet_networks (snd x) = replicate 6 None \<and>
     k \<le> unat (fst x) \<and> unat (fst x) \<le> k * 2 ^ 51"

lemma add_crossing:
  fixes t lat :: u64
  assumes "k \<le> unat t" and "unat t \<le> k * 2 ^ 51" and "1 \<le> unat lat" and "unat lat \<le> 2 ^ 51" and "k < 100"
  shows "Suc k \<le> unat (t + lat)" and "unat (t + lat) \<le> Suc k * 2 ^ 51"
proof -
  have "unat t + unat lat \<le> Suc k * 2 ^ 51" using assms(2,4) by simp
  moreover have "Suc k * 2 ^ 51 < (2 :: nat) ^ 64" using assms(5) by simp
  ultimately have "unat (t + lat) = unat t + unat lat" by (intro unat_add_lem [THEN iffD1]) simp
  then show "Suc k \<le> unat (t + lat)" "unat (t + lat) \<le> Suc k * 2 ^ 51" using assms(1,2,3,4) by simp_all
qed

lemma crossed_costs:
  assumes "crossed n k x" and "libm_ok m" and "k < 100"
  shows "level < 7 \<Longrightarrow> crossed n (Suc k) (tier_cost m n level x)" and "level < 6 \<Longrightarrow> crossed n (Suc k) (bridge_cost m n level x)"
proof -
  obtain t d where x: "x = (t, d)" by (cases x)
  have d: "timing_ok d" "\<not> dn_use_garnet_models d" "dn_bridge_garnet_networks d = replicate 6 None" "k \<le> unat t" "unat t \<le> k * 2 ^ 51" "payload_ok d n"
    using assms(1) by (simp_all add: x crossed_def)
  note add = add_crossing [OF d(4,5) _ _ assms(3)]
  show "crossed n (Suc k) (tier_cost m n level x)" if "level < 7"
  proof -
    obtain lat e where e: "getTierLatency m level n d = (lat, e)" by fastforce
    have b: "timing_ok e" "payload_ok e n" "1 \<le> unat lat" "unat lat \<le> 2 ^ 51"
      using tier_latency_bounds [OF assms(2) d(1,6) that] d(2) by (auto simp: e Let_def mult.commute mult.left_commute)
    have "\<not> dn_use_garnet_models e" "dn_bridge_garnet_networks e = replicate 6 None" using e d(2,3) by (auto simp: getTierLatency_def Let_def)
    then show ?thesis using b add [OF b(3,4)] by (simp add: x tier_cost_def crossed_def e)
  qed
  show "crossed n (Suc k) (bridge_cost m n level x)" if "level < 6"
  proof -
    obtain lat e where e: "getBridgeLatency m (int level) n d = (lat, e)" by fastforce
    have b: "timing_ok e" "payload_ok e n" "1 \<le> unat lat" "unat lat \<le> 2 ^ 51"
      using bridge_latency_bounds [OF assms(2) d(1,6) that] d(3) that by (auto simp: e Let_def)
    have "\<not> dn_use_garnet_models e" "dn_bridge_garnet_networks e = replicate 6 None" using e d(2,3) by (auto simp: getBridgeLatency_def Let_def split: if_splits)
    then show ?thesis using b add [OF b(3,4)] by (simp add: x bridge_cost_def crossed_def e)
  qed
qed

lemma foldl_crossed:
  assumes "\<And>k x level. crossed n k x \<Longrightarrow> k < 90 \<Longrightarrow> level \<in> set levels \<Longrightarrow> crossed n (Suc (Suc k)) (f x level)"
    and "crossed n k x" and "k + 2 * length levels \<le> 90"
  shows "crossed n (k + 2 * length levels) (foldl f x levels)"
  using assms
proof (induction levels arbitrary: k x)
  case (Cons l levels)
  have "crossed n (Suc (Suc k)) (f x l)" using Cons.prems by simp
  from Cons.IH [OF Cons.prems(1) this] Cons.prems(3) show ?case by simp
qed simp

lemma path_crossed:
  assumes "timing_ok d" and "\<not> dn_use_garnet_models d" and "dn_bridge_garnet_networks d = replicate 6 None"
    and "libm_ok m" and "payload_ok d n" and "lca \<le> 6"
  shows "crossed n (4 * lca + 1) (path_latency m n lca d)"
proof -
  note costs = crossed_costs [OF _ assms(4)]
  have up: "crossed n (Suc (Suc k)) (bridge_cost m n l (tier_cost m n l x))" "crossed n (Suc (Suc k)) (tier_cost m n l (bridge_cost m n l x))"
    if "crossed n k x" "k < 90" "l < lca" for k x l
    using that assms(6) by (auto intro!: costs)
  have "crossed n 0 (0, d)" using assms(1-3,5) by (simp add: crossed_def)
  from foldl_crossed [OF _ this, of "[0..<lca]", OF up(1)]
  have "crossed n (2 * lca) (foldl (\<lambda>x l. bridge_cost m n l (tier_cost m n l x)) (0, d) [0..<lca])" using assms(6) by simp
  from costs(1) [OF this] have "crossed n (Suc (2 * lca)) (tier_cost m n lca (foldl (\<lambda>x l. bridge_cost m n l (tier_cost m n l x)) (0, d) [0..<lca]))"
    using assms(6) by simp
  from foldl_crossed [OF _ this, of "rev [0..<lca]", OF up(2)] show ?thesis
    using assms(6) by (simp add: path_latency_def Let_def)
qed

lemma lca_from_le: "lca_from a b n \<le> n"
  by (induction n) auto

lemma packet_lca_le: "packet_lca d p \<le> 6"
  using lca_from_le [of _ _ 6] by (simp add: turning_level_def lowestCommonAncestor_def)

text \<open>
  C29: an analytical network accepts every packet and delivers it on time. The latency that is fixed when the packet is sent is at least
  one cycle for each level and bridge on the way up to the common level and down, and it does not
  overflow. The packet is in flight in every cycle before the latency has passed; then it is gone and its callback has been called,
  whatever other packets are in flight, and they are delivered at their own times. The levels may have any topology, under the conditions of
  \<^verbatim>\<open>timing_ok\<close> (at most 1024 nodes where there are intermediate hops, positive widths, latencies up to 1000 cycles), the payload times the
  hops is at most \<open>2 ^ 40\<close> bytes, and no dimension of the hierarchy is zero: with one that is, computing the address traps and the packet
  is not sent (\<open>send_traps\<close>).
\<close>

theorem sent_packet_arrives:
  assumes "libm_ok m" and "timing_ok d" and "\<not> dn_use_garnet_models d" and "dn_bridge_garnet_networks d = replicate 6 None"
    and "\<forall>q\<in>set (dn_inflight_packets d). \<not> ip_completed q" and "payload_ok d (ip_data_bytes p)" and "unat (dn_current_cycle d) < 2 ^ 63"
    and "ip_callback p = Some c" and "dims_ok d"
  shows "\<exists>e L. sendPacket m p d = Some (True, e) \<and> 4 * packet_lca d p + 1 \<le> L \<and> L \<le> (4 * packet_lca d p + 1) * 2 ^ 51 \<and>
    (\<forall>k. 0 < k \<and> unat (dn_current_cycle d) + k < 2 ^ 64 \<longrightarrow>
      (\<exists>f. ticks k e = Some f \<and>
        dn_inflight_packets f = filter (\<lambda>q. unat (dn_current_cycle d) + k < unat (ip_completion_time q)) (dn_inflight_packets d) @
          (if k < L then [p\<lparr>ip_injection_time := dn_current_cycle d, ip_completion_time := dn_current_cycle d + of_nat L, ip_completed := False\<rparr>] else []) \<and>
        mset (dn_called f) = mset (dn_called d) + callbacks (filter (\<lambda>q. unat (ip_completion_time q) \<le> unat (dn_current_cycle d) + k) (dn_inflight_packets d)) +
          (if L \<le> k then {#c#} else {#})))"
proof -
  let ?lca = "packet_lca d p"
  let ?path = "path_latency m (ip_data_bytes p) ?lca (count_accesses ?lca d)"
  let ?L = "unat (fst ?path)"
  let ?q = "p\<lparr>ip_injection_time := dn_current_cycle d, ip_completion_time := dn_current_cycle d + fst ?path, ip_completed := False\<rparr>"
  have "timing_ok (count_accesses ?lca d)" "payload_ok (count_accesses ?lca d) (ip_data_bytes p)"
    using assms(2,6) by (simp_all add: timing_ok_def payload_ok_def lengths_ok_def count_accesses_def)
  then have path: "crossed (ip_data_bytes p) (4 * ?lca + 1) ?path"
    using assms(1,3,4) packet_lca_le [of d p] by (intro path_crossed) (simp_all add: count_accesses_def)
  then have L: "4 * ?lca + 1 \<le> ?L" "?L \<le> (4 * ?lca + 1) * 2 ^ 51" by (simp_all add: crossed_def)
  have "(4 * ?lca + 1) * 2 ^ 51 < (2 :: nat) ^ 63" using packet_lca_le [of d p] by simp
  then have due: "unat (dn_current_cycle d + fst ?path) = unat (dn_current_cycle d) + ?L" using L(2) assms(7) by (intro unat_add_lem [THEN iffD1]) simp
  obtain e where e: "sendPacket m p d = Some (True, enter_inflight p (dn_current_cycle d + fst ?path) e)" "traffic e = traffic d"
    using analytical_send [OF assms(3,9)] by metis
  let ?e = "enter_inflight p (dn_current_cycle d + fst ?path) e"
  note tr = trafficD [OF e(2)]
  have fields: "\<not> dn_use_garnet_models ?e" "dn_inflight_packets ?e = dn_inflight_packets d @ [?q]" "dn_current_cycle ?e = dn_current_cycle d"
      "dn_called ?e = dn_called d" "\<forall>q\<in>set (dn_inflight_packets ?e). \<not> ip_completed q"
    using tr assms(3,5) by (simp_all add: enter_inflight_def)
  have c: "callbacks [?q] = {#c#}" using assms(8) by (simp add: packet_callback_def)
  have "\<exists>f. ticks k ?e = Some f \<and>
      dn_inflight_packets f = filter (\<lambda>q. unat (dn_current_cycle d) + k < unat (ip_completion_time q)) (dn_inflight_packets d) @ (if k < ?L then [?q] else []) \<and>
      mset (dn_called f) = mset (dn_called d) + callbacks (filter (\<lambda>q. unat (ip_completion_time q) \<le> unat (dn_current_cycle d) + k) (dn_inflight_packets d)) +
        (if ?L \<le> k then {#c#} else {#})" if k: "0 < k" "unat (dn_current_cycle d) + k < 2 ^ 64" for k
  proof -
    obtain j where j: "k = Suc j" using k(1) by (cases k) auto
    show ?thesis
      using analytical_ticks [OF fields(1,5), unfolded fields(3), of j] k(2) c unfolding j by (auto simp: fields(2,4) due not_le add.assoc)
  qed
  note arrives = this
  show ?thesis
  proof (rule exI [of _ ?e], rule exI [of _ ?L], intro conjI allI impI)
    fix k
    assume "0 < k \<and> unat (dn_current_cycle d) + k < 2 ^ 64"
    then show "\<exists>f. ticks k ?e = Some f \<and>
        dn_inflight_packets f = filter (\<lambda>q. unat (dn_current_cycle d) + k < unat (ip_completion_time q)) (dn_inflight_packets d) @
          (if k < ?L then [p\<lparr>ip_injection_time := dn_current_cycle d, ip_completion_time := dn_current_cycle d + of_nat ?L, ip_completed := False\<rparr>] else []) \<and>
        mset (dn_called f) = mset (dn_called d) + callbacks (filter (\<lambda>q. unat (ip_completion_time q) \<le> unat (dn_current_cycle d) + k) (dn_inflight_packets d)) +
          (if ?L \<le> k then {#c#} else {#})"
      unfolding of_nat_unat ucast_id using arrives by blast
  qed (use e(1) L in simp_all)
qed

text \<open>From bank 5 to bank 9 of another bank group: nine crossings, in a network whose chips are on a ring.\<close>

lemma ring_dn_state:
  "dn_num_banks_per_bg ring_dn = 4" "dn_num_bg_per_chip ring_dn = 4" "dn_num_chips_per_rank ring_dn = 8"
  "dn_inflight_packets ring_dn = []" "dn_current_cycle ring_dn = 0" "dn_called ring_dn = []"
  "dn_bridge_garnet_networks ring_dn = replicate 6 None" "dims_ok ring_dn"
  using sample_dn_fields by (simp_all add: ring_dn_def base_dn_def sample_dn_def overrideLevelConfig_def Let_def dims_ok_def)


theorem sent_packet_arrives_witness:
  "\<exists>e L. sendPacket sample_libm sample_ip ring_dn = Some (True, e) \<and> 9 \<le> L \<and> (\<exists>f. ticks L e = Some f \<and> dn_inflight_packets f = [] \<and> dn_called f = [7])"
proof -
  have lca: "packet_lca ring_dn sample_ip = 2"
    by (simp add: turning_level_def sample_ip_def bank_fields_def ring_dn_state lowestCommonAncestor_levels sdiv_nonneg)
  have ip: "payload_ok ring_dn (ip_data_bytes sample_ip)" "ip_callback sample_ip = Some 7"
    unfolding payload_iff ring_dn_fields(1) by (simp_all add: sample_ip_def hop_limit_def)
  have "\<forall>q\<in>set (dn_inflight_packets ring_dn). \<not> ip_completed q" "unat (dn_current_cycle ring_dn) < 2 ^ 63" by (simp_all add: ring_dn_state)
  from sent_packet_arrives [OF sample_libm_ok ring_dn_ok ring_dn_fields(2) ring_dn_state(7) this(1) ip(1) this(2) ip(2) ring_dn_state(8), unfolded lca]
  obtain e L where e: "sendPacket sample_libm sample_ip ring_dn = Some (True, e)" "4 * 2 + 1 \<le> L" "L \<le> (4 * 2 + 1) * 2 ^ 51"
      and k: "0 < L \<and> unat (dn_current_cycle ring_dn) + L < 2 ^ 64 \<longrightarrow> (\<exists>f. ticks L e = Some f \<and>
        dn_inflight_packets f = filter (\<lambda>q. unat (dn_current_cycle ring_dn) + L < unat (ip_completion_time q)) (dn_inflight_packets ring_dn) @
          (if L < L then [sample_ip\<lparr>ip_injection_time := dn_current_cycle ring_dn, ip_completion_time := dn_current_cycle ring_dn + of_nat L, ip_completed := False\<rparr>] else []) \<and>
        mset (dn_called f) = mset (dn_called ring_dn) + callbacks (filter (\<lambda>q. unat (ip_completion_time q) \<le> unat (dn_current_cycle ring_dn) + L) (dn_inflight_packets ring_dn)) +
          (if L \<le> L then {#7#} else {#}))"
    by blast
  have "\<exists>f. ticks L e = Some f \<and> dn_inflight_packets f = [] \<and> dn_called f = [7]" using k e(2,3) by (simp add: ring_dn_state)
  then show ?thesis using e(1,2) by auto
qed

section \<open>Where the code departs from its description\<close>

text \<open>A dimension of zero, which nothing refuses: sending traps.\<close>

lemma send_traps: "\<not> dims_ok d \<Longrightarrow> sendPacket m p d = None"
  by (auto simp: dims_ok_def sendPacket_def bankToAddress_def)

text \<open>The offsets that are added up between the injections have no effect: \<^verbatim>\<open>injectPacket\<close> stamps the packet itself.\<close>

lemma offsets_ignored: "inject_level p src dst offset level d = inject_level p src dst 0 level d" "inject_bridge p offset level d = inject_bridge p 0 level d"
  by (simp_all add: inject_level_def inject_bridge_def injectPacket_def NetworkPacket_make_def Let_def split: option.split)

text \<open>Where there are no hops, the fixed latency of the link is not part of the latency of the level, unlike in \<^verbatim>\<open>getTransferLatencyNs\<close>.\<close>

lemma zero_hops_drop_latency:
  "avgHops m (il_topology l) (il_num_nodes l) = 0 \<Longrightarrow> tier_base m (l\<lparr>il_latency_cycles := x\<rparr>) n = tier_base m l n"
  by (simp add: tier_base_def tier_serialization_def Let_def d_mul_def)

text \<open>Switching the detailed models off leaves the networks of the bridges: crossing such a bridge is free from then on.\<close>

lemma disabled_bridge_free:
  assumes "b < 6" and "br_model (dn_bridges d ! b) = NM_DETAILED" and "dn_bridge_garnet_networks d ! b \<noteq> None"
  shows "\<exists>e. enableGarnetSimulation False d = Inr e \<and> \<not> dn_use_garnet_models e \<and> getBridgeLatency m (int b) n e = (0, e)"
  using assms by (simp add: enableGarnetSimulation_def getBridgeLatency_def Let_def)

text \<open>\<^verbatim>\<open>resetStats\<close> forgets the packets in flight, and their callbacks are never called.\<close>

lemma reset_drops_packets: "dn_inflight_packets (resetStats d) = []" "dn_called (resetStats d) = dn_called d"
  by (simp_all add: resetStats_def)

end
