(* ===== verification/Pim_Transfers.thy ===== *)
theory Pim_Transfers
  imports Mem_Net
begin

text \<open>
  Requests of processing elements in memory (include/memory/pim_request_payload.h) and the transfers that the in-memory
  network makes for them: gathering from banks, scattering to banks, reducing and broadcasting (the data movement operations of
  src/memory/internal_dram_network.cpp). The distribution of the data over the banks is a sorted map.
\<close>

section \<open>Requests\<close>

datatype PIMGranularity = CPU | MEMORY_CONTROLLER | RANK | CHIP | BANK_GROUP | BANK | SUBARRAY

datatype PIMOperationType = NORMAL_READ | NORMAL_WRITE | PIM_COMPUTE | PIM_GATHER | PIM_SCATTER | PIM_REDUCE | PIM_BROADCAST

datatype DataLocality = LOCAL | REMOTE_SAME_BG | REMOTE_SAME_CHIP | REMOTE_SAME_RANK | REMOTE_EXTERNAL

record InternalDRAMTransfer =
  it_source_bank :: int
  it_dest_bank :: int
  it_source_subarray :: int
  it_dest_subarray :: int
  it_source_bank_group :: int
  it_dest_bank_group :: int
  it_source_chip :: int
  it_dest_chip :: int
  it_transfer_bytes :: u64
  it_network_latency :: u64
  it_locality :: DataLocality
  it_requires_network :: bool

record PIMRequestPayload =
  pp_granularity :: PIMGranularity
  pp_operation :: PIMOperationType
  pp_pe_id :: int
  pp_num_pes_at_level :: int
  pp_data_bytes :: u64
  pp_target_bank :: int
  pp_target_subarray :: int
  pp_target_bank_group :: int
  pp_target_chip :: int
  pp_local_data_bytes :: u64
  pp_remote_data_bytes :: u64
  pp_local_data_fraction :: double
  pp_primary_locality :: DataLocality
  pp_local_capacity_bytes :: u64
  pp_internal_transfers :: "InternalDRAMTransfer list"
  pp_port_bitwidth :: int
  pp_effective_bw_GBs :: double
  pp_compute_cycles :: u64
  pp_data_movement_cycles :: u64
  pp_network_cycles :: u64
  pp_bandwidth_limited :: bool
  pp_concurrent_pes :: int
  pp_completion_callback :: "nat option"

definition PIMRequestPayload_init :: PIMRequestPayload where
  "PIMRequestPayload_init =
     \<lparr>pp_granularity = CPU, pp_operation = NORMAL_READ, pp_pe_id = -1, pp_num_pes_at_level = 0, pp_data_bytes = 0, pp_target_bank = -1,
      pp_target_subarray = -1, pp_target_bank_group = -1, pp_target_chip = -1, pp_local_data_bytes = 0, pp_remote_data_bytes = 0,
      pp_local_data_fraction = 1, pp_primary_locality = LOCAL, pp_local_capacity_bytes = 0, pp_internal_transfers = [],
      pp_port_bitwidth = 64, pp_effective_bw_GBs = 0, pp_compute_cycles = 0, pp_data_movement_cycles = 0, pp_network_cycles = 0,
      pp_bandwidth_limited = False, pp_concurrent_pes = 1, pp_completion_callback = None\<rparr>"

definition requiresInternalNetwork :: "PIMRequestPayload \<Rightarrow> bool" where
  "requiresInternalNetwork p \<longleftrightarrow> pp_operation p \<in> {PIM_GATHER, PIM_SCATTER, PIM_REDUCE, PIM_BROADCAST}"

fun getGranularityName :: "PIMGranularity \<Rightarrow> string" where
  "getGranularityName CPU = ''CPU''"
| "getGranularityName MEMORY_CONTROLLER = ''MemoryController''"
| "getGranularityName RANK = ''Rank''"
| "getGranularityName CHIP = ''Chip''"
| "getGranularityName BANK_GROUP = ''BankGroup''"
| "getGranularityName BANK = ''Bank''"
| "getGranularityName SUBARRAY = ''Subarray''"

fun getOperationName :: "PIMOperationType \<Rightarrow> string" where
  "getOperationName NORMAL_READ = ''NormalRead''"
| "getOperationName NORMAL_WRITE = ''NormalWrite''"
| "getOperationName PIM_COMPUTE = ''PIMCompute''"
| "getOperationName PIM_GATHER = ''PIMGather''"
| "getOperationName PIM_SCATTER = ''PIMScatter''"
| "getOperationName PIM_REDUCE = ''PIMReduce''"
| "getOperationName PIM_BROADCAST = ''PIMBroadcast''"

fun getLocalityName :: "DataLocality \<Rightarrow> string" where
  "getLocalityName LOCAL = ''Local''"
| "getLocalityName REMOTE_SAME_BG = ''Remote-SameBG''"
| "getLocalityName REMOTE_SAME_CHIP = ''Remote-SameChip''"
| "getLocalityName REMOTE_SAME_RANK = ''Remote-SameRank''"
| "getLocalityName REMOTE_EXTERNAL = ''Remote-External''"

definition calculateLocality :: "int \<Rightarrow> int \<Rightarrow> int \<Rightarrow> int \<Rightarrow> int \<Rightarrow> int \<Rightarrow> DataLocality" where
  "calculateLocality pe_bank pe_bg pe_chip data_bank data_bg data_chip =
     (if data_bank = pe_bank \<and> data_bg = pe_bg \<and> data_chip = pe_chip then LOCAL
      else if data_bg = pe_bg \<and> data_chip = pe_chip then REMOTE_SAME_BG
      else if data_chip = pe_chip then REMOTE_SAME_CHIP
      else REMOTE_SAME_RANK)"

fun getTypicalLocalCapacity :: "PIMGranularity \<Rightarrow> u64" where
  "getTypicalLocalCapacity SUBARRAY = 32 * 1024 * 1024"
| "getTypicalLocalCapacity BANK = 512 * 1024 * 1024"
| "getTypicalLocalCapacity BANK_GROUP = 2 * 1024 * 1024 * 1024"
| "getTypicalLocalCapacity CHIP = 1 * 1024 * 1024 * 1024"
| "getTypicalLocalCapacity RANK = 16 * 1024 * 1024 * 1024"
| "getTypicalLocalCapacity MEMORY_CONTROLLER = 16 * 1024 * 1024 * 1024"
| "getTypicalLocalCapacity CPU = - 1"

definition needsNetwork :: "PIMRequestPayload \<Rightarrow> bool" where
  "needsNetwork p \<longleftrightarrow> pp_remote_data_bytes p > 0 \<or> requiresInternalNetwork p"

section \<open>Transfers\<close>

type_synonym distribution = "(int, u64) smap"

definition bank_group_of :: "InternalDRAMNetwork \<Rightarrow> int \<Rightarrow> int" where
  "bank_group_of d bank = bank sdiv dn_num_banks_per_bg d"

definition chip_of :: "InternalDRAMNetwork \<Rightarrow> int \<Rightarrow> int" where
  "chip_of d bank = bank sdiv (dn_num_banks_per_bg d * dn_num_bg_per_chip d)"

definition make_transfer :: "libm \<Rightarrow> InternalDRAMNetwork \<Rightarrow> int \<Rightarrow> int \<Rightarrow> int \<Rightarrow> int \<times> u64 \<Rightarrow> InternalDRAMTransfer" where
  "make_transfer m d pe_bank pe_bg pe_chip e =
     (let bg = bank_group_of d (fst e); chip = chip_of d (fst e);
          level = (if bg = pe_bg then BANK_NETWORK else if chip = pe_chip then BANK_GROUP_NETWORK else CHIP_NETWORK)
      in \<lparr>it_source_bank = fst e, it_dest_bank = pe_bank, it_source_subarray = -1, it_dest_subarray = -1, it_source_bank_group = bg,
          it_dest_bank_group = pe_bg, it_source_chip = chip, it_dest_chip = pe_chip, it_transfer_bytes = snd e,
          it_network_latency = getTransferLatency m d level (snd e),
          it_locality = (if bg = pe_bg then REMOTE_SAME_BG else if chip = pe_chip then REMOTE_SAME_CHIP else REMOTE_SAME_RANK),
          it_requires_network = True\<rparr>)"

definition calculateNetworkRequirements ::
  "libm \<Rightarrow> InternalDRAMNetwork \<Rightarrow> int \<Rightarrow> int \<Rightarrow> int \<Rightarrow> distribution \<Rightarrow> u64 \<times> InternalDRAMTransfer list" where
  "calculateNetworkRequirements m d pe_bank pe_bg pe_chip dd =
     foldl (\<lambda>(total, ts) e.
        if fst e = pe_bank then (total, ts)
        else let t = make_transfer m d pe_bank pe_bg pe_chip e in (total + it_network_latency t, ts @ [t])) (0, []) dd"

definition executeGather :: "libm \<Rightarrow> InternalDRAMNetwork \<Rightarrow> int \<Rightarrow> int list \<Rightarrow> u64 \<Rightarrow> u64" where
  "executeGather m d pe_bank banks bytes =
     fst (calculateNetworkRequirements m d pe_bank (bank_group_of d pe_bank) (chip_of d pe_bank)
            (foldl (\<lambda>dd b. smap_put b bytes dd) [] banks))"

definition executeScatter :: "libm \<Rightarrow> InternalDRAMNetwork \<Rightarrow> int \<Rightarrow> int list \<Rightarrow> u64 \<Rightarrow> u64" where
  "executeScatter m d pe_bank banks bytes =
     foldl (\<lambda>total b.
        if b = pe_bank then total
        else total + getTransferLatency m d (if bank_group_of d pe_bank = bank_group_of d b then BANK_NETWORK else BANK_GROUP_NETWORK) bytes) 0 banks"

definition executeReduce :: "libm \<Rightarrow> InternalDRAMNetwork \<Rightarrow> int list \<Rightarrow> int \<Rightarrow> u64 \<Rightarrow> u64" where
  "executeReduce m d banks dest bytes = executeGather m d dest banks bytes + of_nat (length banks) * 10"

definition executeBroadcast :: "libm \<Rightarrow> InternalDRAMNetwork \<Rightarrow> int \<Rightarrow> int list \<Rightarrow> u64 \<Rightarrow> u64" where
  "executeBroadcast m d source banks bytes = executeScatter m d source banks bytes"

definition getAvailableBandwidth :: "InternalDRAMNetwork \<Rightarrow> NetworkLevel \<Rightarrow> double" where
  "getAvailableBandwidth d level = il_bandwidth_GBs (dn_network_configs d ! levelToIndex level)"

definition inSameBankGroup :: "InternalDRAMNetwork \<Rightarrow> int \<Rightarrow> int \<Rightarrow> bool" where
  "inSameBankGroup d a b \<longleftrightarrow> bank_group_of d a = bank_group_of d b"

definition inSameChip :: "InternalDRAMNetwork \<Rightarrow> int \<Rightarrow> int \<Rightarrow> bool" where
  "inSameChip d a b \<longleftrightarrow> chip_of d a = chip_of d b"

section \<open>What a gather costs\<close>

lemma foldl_put_keys: "smap_ok dd \<Longrightarrow> smap_ok (foldl (\<lambda>m k. smap_put k v m) dd ks) \<and> fst ` set (foldl (\<lambda>m k. smap_put k v m) dd ks) = fst ` set dd \<union> set ks"
  by (induction ks arbitrary: dd) (auto simp: smap_ok_put smap_put_keys)

lemma foldl_put_values: "\<forall>e\<in>set dd. snd e = v \<Longrightarrow> \<forall>e\<in>set (foldl (\<lambda>m k. smap_put k v m) dd ks). snd e = v"
proof (induction ks arbitrary: dd)
  case (Cons k ks)
  have "\<forall>e\<in>set (smap_put k v dd). snd e = v" using Cons.prems by (induction k v dd rule: smap_put.induct) auto
  then show ?case using Cons.IH by simp
qed simp

lemma distribution_of_list: "foldl (\<lambda>m k. smap_put k v m) [] ks = map (\<lambda>k. (k, v)) (sorted_list_of_set (set ks))"
proof -
  let ?m = "foldl (\<lambda>m k. smap_put k v m) [] ks"
  have "smap_ok ?m" and keys: "fst ` set ?m = set ks" using foldl_put_keys [of "[]" v ks] by simp_all
  then have "map fst ?m = sorted_list_of_set (set ks)"
    by (intro sorted_distinct_set_unique) (auto simp: smap_ok_distinct smap_ok_def strict_sorted_imp_sorted)
  moreover have "map (\<lambda>k. (k, v)) (map fst ?m) = ?m"
    unfolding map_map using foldl_put_values [of "[]" v ks] by (intro map_idI) (auto simp: prod_eq_iff)
  ultimately show ?thesis by metis
qed

lemma requirements_sum:
  "calculateNetworkRequirements m d pe_bank pe_bg pe_chip dd =
     (let ts = map (make_transfer m d pe_bank pe_bg pe_chip) (filter (\<lambda>e. fst e \<noteq> pe_bank) dd) in (sum_list (map it_network_latency ts), ts))"
proof -
  have "foldl (\<lambda>(total, ts) e. if fst e = pe_bank then (total, ts)
          else let t = make_transfer m d pe_bank pe_bg pe_chip e in (total + it_network_latency t, ts @ [t])) (t0, ts0) dd =
      (t0 + sum_list (map (it_network_latency \<circ> make_transfer m d pe_bank pe_bg pe_chip) (filter (\<lambda>e. fst e \<noteq> pe_bank) dd)),
       ts0 @ map (make_transfer m d pe_bank pe_bg pe_chip) (filter (\<lambda>e. fst e \<noteq> pe_bank) dd))" for t0 ts0
    by (induction dd arbitrary: t0 ts0) (simp_all add: Let_def add.assoc)
  then show ?thesis by (simp add: calculateNetworkRequirements_def Let_def)
qed

definition in_rank :: "InternalDRAMNetwork \<Rightarrow> int \<Rightarrow> bool" where
  "in_rank d b \<longleftrightarrow> 0 \<le> b \<and> b < dn_num_banks_per_bg d * dn_num_bg_per_chip d * dn_num_chips_per_rank d"

definition dims_positive :: "InternalDRAMNetwork \<Rightarrow> bool" where
  "dims_positive d \<longleftrightarrow> 0 < dn_num_banks_per_bg d \<and> 0 < dn_num_bg_per_chip d \<and> 0 < dn_num_chips_per_rank d"

text \<open>The level of a transfer between two banks of a rank is the level at which a packet between them turns around.\<close>

lemma transfer_level:
  assumes "dims_positive d" and "in_rank d a" and "in_rank d b" and "a \<noteq> b"
  shows "(if bank_group_of d a = bank_group_of d b then BANK_NETWORK else if chip_of d a = chip_of d b then BANK_GROUP_NETWORK else CHIP_NETWORK) =
    index_to_level (turning_level d a b)"
proof -
  have "a div (dn_num_banks_per_bg d * dn_num_bg_per_chip d * dn_num_chips_per_rank d) = 0" "b div (dn_num_banks_per_bg d * dn_num_bg_per_chip d * dn_num_chips_per_rank d) = 0"
    using assms(2,3) by (simp_all add: in_rank_def div_pos_pos_trivial)
  then show ?thesis using routing_level [of d a b] assms
    by (simp add: dims_positive_def in_rank_def bank_group_of_def chip_of_def sdiv_nonneg index_to_level_def)
qed

text \<open>
  A gather within a rank moves the data of every distinct source bank but the processing element's own exactly once, and the price of
  each is that of the level at which a packet from the bank to the processing element turns around; a reduction adds ten cycles per source.
\<close>

theorem gather_routes:
  assumes "dims_positive d" and "in_rank d pe" and "\<forall>b\<in>set banks. in_rank d b"
  shows "executeGather m d pe banks n =
      (\<Sum>b\<leftarrow>sorted_list_of_set (set banks - {pe}). getTransferLatency m d (index_to_level (turning_level d b pe)) n) \<and>
    executeReduce m d banks pe n = executeGather m d pe banks n + of_nat (length banks) * 10"
proof -
  let ?price = "\<lambda>b. getTransferLatency m d (index_to_level (turning_level d b pe)) n"
  let ?mk = "\<lambda>b. it_network_latency (make_transfer m d pe (bank_group_of d pe) (chip_of d pe) (b, n))"
  have price: "?mk b = ?price b" if "b \<in> set banks" "b \<noteq> pe" for b
    using transfer_level [OF assms(1) _ assms(2) that(2)] assms(3) that(1) by (simp add: make_transfer_def Let_def)
  have remote: "filter (\<lambda>b. b \<noteq> pe) (sorted_list_of_set (set banks)) = sorted_list_of_set (set banks - {pe})"
    by (intro sorted_distinct_set_unique) (auto simp: sorted_wrt_filter)
  have "executeGather m d pe banks n = (\<Sum>b\<leftarrow>filter (\<lambda>b. b \<noteq> pe) (sorted_list_of_set (set banks)). ?mk b)"
    by (simp add: executeGather_def requirements_sum distribution_of_list Let_def filter_map comp_def)
  also have "\<dots> = (\<Sum>b\<leftarrow>sorted_list_of_set (set banks - {pe}). ?price b)"
    unfolding remote using price by (intro arg_cong [where f = sum_list] map_cong) auto
  finally show ?thesis by (simp add: executeReduce_def)
qed

text \<open>Data from bank 9 of another bank group and from bank 6 of the same group, which is listed twice.\<close>

theorem gather_routes_witness:
  "executeGather sample_libm sample_dn 5 [9, 6, 5, 6] 64 =
     getTransferLatency sample_libm sample_dn BANK_NETWORK 64 + getTransferLatency sample_libm sample_dn BANK_GROUP_NETWORK 64"
proof -
  have d: "dims_positive sample_dn" "in_rank sample_dn 5" "\<forall>b\<in>set [9, 6, 5, 6]. in_rank sample_dn b"
    by (simp_all add: dims_positive_def in_rank_def sample_dn_fields)
  have "set [9, 6, 5, 6 :: int] - {5} = set [6, 9]" by auto
  then have s: "sorted_list_of_set (set [9, 6, 5, 6 :: int] - {5}) = [6, 9]" by (simp only: sorted_list_of_set_sort_remdups) simp
  show ?thesis using gather_routes [OF d, where m = sample_libm and n = 64] unfolding s
    by (simp add: turning_level_def lowestCommonAncestor_levels bank_fields_def sample_dn_fields sdiv_nonneg index_to_level_def)
qed

text \<open>A scatter does not look at the chips: between chips it charges for the network of a bank group, a gather for that of the chips.\<close>

lemma scatter_ignores_chips:
  assumes "a \<noteq> b" and "chip_of d a \<noteq> chip_of d b" and "bank_group_of d a \<noteq> bank_group_of d b"
  shows "executeScatter m d a [b] n = getTransferLatency m d BANK_GROUP_NETWORK n" and "executeGather m d a [b] n = getTransferLatency m d CHIP_NETWORK n"
  using assms by (auto simp: executeScatter_def executeGather_def calculateNetworkRequirements_def make_transfer_def Let_def)

text \<open>A bank group is part of a chip, and the typical capacity within reach of a chip is less than that of a bank group.\<close>

lemma chip_capacity_below_bank_group: "getTypicalLocalCapacity CHIP < getTypicalLocalCapacity BANK_GROUP"
  by simp

end
