(* ===== verification/Pim_Bandwidth.thy ===== *)
theory Pim_Bandwidth
  imports Pim_Transfers "HOL-Library.Product_Lexorder" "HOL-Library.Monad_Syntax"
begin

text \<open>
  The bandwidth tracker of the processing elements in memory (src/memory/pim_bandwidth_tracker.cpp and its header): ports of
  the memory hierarchy shared by the elements registered at them, requests that queue at a port, and the split
  of the data into what an element reaches itself and what has to cross the network. \<open>None\<close> of the latter is the trap of an integer
  division by zero. Of the architecture object the fields that are read are modelled.
\<close>

section \<open>Data\<close>

text \<open>The order of the enumeration is the order of the keys.\<close>

fun gran_index :: "PIMGranularity \<Rightarrow> nat" where
  "gran_index CPU = 0"
| "gran_index MEMORY_CONTROLLER = 1"
| "gran_index RANK = 2"
| "gran_index CHIP = 3"
| "gran_index BANK_GROUP = 4"
| "gran_index BANK = 5"
| "gran_index SUBARRAY = 6"

lemma gran_index_inj: "gran_index a = gran_index b \<longleftrightarrow> a = b"
  by (cases a; cases b) simp_all

instantiation PIMGranularity :: linorder
begin

definition less_eq_PIMGranularity :: "PIMGranularity \<Rightarrow> PIMGranularity \<Rightarrow> bool" where
  "a \<le> b \<longleftrightarrow> gran_index a \<le> gran_index b"

definition less_PIMGranularity :: "PIMGranularity \<Rightarrow> PIMGranularity \<Rightarrow> bool" where
  "a < b \<longleftrightarrow> gran_index a < gran_index b"

instance
  by standard (auto simp: less_eq_PIMGranularity_def less_PIMGranularity_def gran_index_inj)

end

record dram_arch =
  da_clock_freq_mhz :: double
  da_gsa_datapath_bits :: int
  da_bank_serialization_bits :: int
  da_rank_databus_bits :: int
  da_chip_io_bits :: int
  da_chips_per_rank :: int

record BandwidthUsage =
  bu_bytes_transferred :: u64
  bu_cycles_active :: u64
  bu_utilization :: double
  bu_num_concurrent_pes :: int

type_synonym port = "PIMGranularity \<times> int"

record PIMBandwidthTracker =
  bt_dram_arch :: "dram_arch option"
  bt_num_channels :: int
  bt_num_ranks :: int
  bt_num_bank_groups :: int
  bt_num_banks :: int
  bt_num_subarrays :: int
  bt_subarray_bw_limit :: double
  bt_bank_bw_limit :: double
  bt_bank_group_bw_limit :: double
  bt_chip_bw_limit :: double
  bt_rank_bw_limit :: double
  bt_mc_bw_limit :: double
  bt_subarray_port_bits :: int
  bt_bank_port_bits :: int
  bt_bank_group_port_bits :: int
  bt_chip_port_bits :: int
  bt_rank_port_bits :: int
  bt_mc_port_bits :: int
  bt_clock_freq_GHz :: double
  bt_pe_registry :: "(port, int list) smap"
  bt_bandwidth_usage :: "(port, BandwidthUsage) smap"
  bt_active_transfers :: "(port, u64) smap"
  bt_current_cycle :: u64
  bt_window_start_cycle :: u64
  bt_queue_depth_limits :: "(PIMGranularity, u64) smap"
  bt_active_queue_depths :: "(port, u64) smap"
  bt_total_requests :: u64
  bt_bandwidth_limited_requests :: u64
  bt_total_bytes_transferred :: u64
  bt_requests_per_level :: "(PIMGranularity, u64) smap"
  bt_bytes_per_level :: "(PIMGranularity, u64) smap"

definition STATS_WINDOW_CYCLES :: u64 where "STATS_WINDOW_CYCLES = 10000"

definition BT_DEFAULT_QUEUE_DEPTH_LIMIT :: u64 where "BT_DEFAULT_QUEUE_DEPTH_LIMIT = 32"

text \<open>\<^verbatim>\<open>m[k] += n\<close>: a missing entry is zero first.\<close>

definition smap_bump :: "'k::linorder \<Rightarrow> u64 \<Rightarrow> ('k, u64) smap \<Rightarrow> ('k, u64) smap" where
  "smap_bump k n m = smap_put k ((case smap_find k m of None \<Rightarrow> 0 | Some v \<Rightarrow> v) + n) m"

definition set_limits :: "(PIMGranularity \<times> u64) list \<Rightarrow> (PIMGranularity, u64) smap \<Rightarrow> (PIMGranularity, u64) smap" where
  "set_limits ls m = foldl (\<lambda>m (g, l). smap_put g l m) m ls"

definition PIMBandwidthTracker_init :: "dram_arch option \<Rightarrow> PIMBandwidthTracker" where
  "PIMBandwidthTracker_init arch =
     \<lparr>bt_dram_arch = arch, bt_num_channels = 0, bt_num_ranks = 0, bt_num_bank_groups = 0, bt_num_banks = 0, bt_num_subarrays = 0,
      bt_subarray_bw_limit = 0, bt_bank_bw_limit = 0, bt_bank_group_bw_limit = 0, bt_chip_bw_limit = 0, bt_rank_bw_limit = 0, bt_mc_bw_limit = 0,
      bt_subarray_port_bits = 0, bt_bank_port_bits = 0, bt_bank_group_port_bits = 0, bt_chip_port_bits = 0, bt_rank_port_bits = 0, bt_mc_port_bits = 0,
      bt_clock_freq_GHz = 0, bt_pe_registry = [], bt_bandwidth_usage = [], bt_active_transfers = [], bt_current_cycle = 0, bt_window_start_cycle = 0,
      bt_queue_depth_limits = set_limits
        [(SUBARRAY, BT_DEFAULT_QUEUE_DEPTH_LIMIT), (BANK, BT_DEFAULT_QUEUE_DEPTH_LIMIT), (BANK_GROUP, BT_DEFAULT_QUEUE_DEPTH_LIMIT),
         (CHIP, BT_DEFAULT_QUEUE_DEPTH_LIMIT), (RANK, BT_DEFAULT_QUEUE_DEPTH_LIMIT), (MEMORY_CONTROLLER, BT_DEFAULT_QUEUE_DEPTH_LIMIT), (CPU, 0)] [],
      bt_active_queue_depths = [], bt_total_requests = 0, bt_bandwidth_limited_requests = 0, bt_total_bytes_transferred = 0,
      bt_requests_per_level = [], bt_bytes_per_level = []\<rparr>"

section \<open>Initialisation\<close>

definition calculateBandwidth :: "int \<Rightarrow> double \<Rightarrow> double" where
  "calculateBandwidth port_bits clock = d_mul (d_div (of_int port_bits) 8) clock"

definition bt_resetStats :: "PIMBandwidthTracker \<Rightarrow> PIMBandwidthTracker" where
  "bt_resetStats t =
     t\<lparr>bt_total_requests := 0, bt_bandwidth_limited_requests := 0, bt_total_bytes_transferred := 0, bt_requests_per_level := [],
       bt_bytes_per_level := [], bt_bandwidth_usage := [], bt_active_transfers := [], bt_window_start_cycle := bt_current_cycle t\<rparr>"

definition initializeBandwidthLimits :: "dram_arch \<Rightarrow> PIMBandwidthTracker \<Rightarrow> PIMBandwidthTracker" where
  "initializeBandwidthLimits a t =
     (let clock = d_div (da_clock_freq_mhz a) 1000; sa = da_gsa_datapath_bits a; ba = da_bank_serialization_bits a;
          ra = da_rank_databus_bits a; ch = da_chip_io_bits a
      in t\<lparr>bt_clock_freq_GHz := clock, bt_subarray_port_bits := sa, bt_bank_port_bits := ba, bt_rank_port_bits := ra, bt_chip_port_bits := ch,
           bt_bank_group_port_bits := ba * 2, bt_mc_port_bits := ra,
           bt_subarray_bw_limit := calculateBandwidth sa clock, bt_bank_bw_limit := calculateBandwidth ba clock,
           bt_bank_group_bw_limit := calculateBandwidth (ba * 2) clock, bt_chip_bw_limit := calculateBandwidth ch clock,
           bt_rank_bw_limit := calculateBandwidth ra clock, bt_mc_bw_limit := calculateBandwidth ra clock\<rparr>)"

datatype tracker_error = No_dram_architecture

definition bt_initialize :: "int \<Rightarrow> int \<Rightarrow> int \<Rightarrow> int \<Rightarrow> int \<Rightarrow> PIMBandwidthTracker \<Rightarrow> tracker_error + PIMBandwidthTracker" where
  "bt_initialize channels ranks groups banks subarrays t =
     (case bt_dram_arch t of None \<Rightarrow> Inl No_dram_architecture
      | Some a \<Rightarrow> Inr (bt_resetStats (initializeBandwidthLimits a
          (t\<lparr>bt_num_channels := channels, bt_num_ranks := ranks, bt_num_bank_groups := groups, bt_num_banks := banks, bt_num_subarrays := subarrays\<rparr>))))"

section \<open>Ports\<close>

fun bt_getBandwidthLimit :: "PIMBandwidthTracker \<Rightarrow> PIMGranularity \<Rightarrow> double" where
  "bt_getBandwidthLimit t SUBARRAY = bt_subarray_bw_limit t"
| "bt_getBandwidthLimit t BANK = bt_bank_bw_limit t"
| "bt_getBandwidthLimit t BANK_GROUP = bt_bank_group_bw_limit t"
| "bt_getBandwidthLimit t CHIP = bt_chip_bw_limit t"
| "bt_getBandwidthLimit t RANK = bt_rank_bw_limit t"
| "bt_getBandwidthLimit t MEMORY_CONTROLLER = bt_rank_bw_limit t"
| "bt_getBandwidthLimit t CPU = bt_mc_bw_limit t"

fun bt_getPortBitwidth :: "PIMBandwidthTracker \<Rightarrow> PIMGranularity \<Rightarrow> int" where
  "bt_getPortBitwidth t SUBARRAY = bt_subarray_port_bits t"
| "bt_getPortBitwidth t BANK = bt_bank_port_bits t"
| "bt_getPortBitwidth t BANK_GROUP = bt_bank_group_port_bits t"
| "bt_getPortBitwidth t CHIP = bt_chip_port_bits t"
| "bt_getPortBitwidth t RANK = bt_rank_port_bits t"
| "bt_getPortBitwidth t MEMORY_CONTROLLER = bt_rank_port_bits t"
| "bt_getPortBitwidth t CPU = bt_mc_port_bits t"

definition bt_registerPE :: "PIMGranularity \<Rightarrow> int \<Rightarrow> int \<Rightarrow> PIMBandwidthTracker \<Rightarrow> PIMBandwidthTracker" where
  "bt_registerPE g pe bank t =
     t\<lparr>bt_pe_registry := smap_put (g, bank) ((case smap_find (g, bank) (bt_pe_registry t) of None \<Rightarrow> [] | Some l \<Rightarrow> l) @ [pe]) (bt_pe_registry t)\<rparr>"

definition getConcurrentPEs :: "PIMBandwidthTracker \<Rightarrow> PIMGranularity \<Rightarrow> int \<Rightarrow> int" where
  "getConcurrentPEs t g i = (case smap_find (g, i) (bt_pe_registry t) of None \<Rightarrow> 1 | Some l \<Rightarrow> int (length l))"

definition getEffectiveBandwidthPerPE :: "PIMBandwidthTracker \<Rightarrow> PIMGranularity \<Rightarrow> int \<Rightarrow> double" where
  "getEffectiveBandwidthPerPE t g i =
     (let total = bt_getBandwidthLimit t g; n = getConcurrentPEs t g i in if n > 1 then d_div total (of_int n) else total)"

text \<open>
  The conversion of a double to \<^verbatim>\<open>uint64_t\<close>, which C++ leaves undefined outside the range of the type. A division of the doubles by zero gives
  an infinity or no number, whose conversion is undefined as well: \<open>undefined_cast\<close> is a value about which nothing is known.
\<close>

definition undefined_cast :: u64 where "undefined_cast = undefined"

definition cast_u64 :: "double \<Rightarrow> u64" where
  "cast_u64 x = (if - 1 < x \<and> x < 2 ^ 64 then u64_of_d x else undefined_cast)"

definition calculateTransferLatency :: "PIMGranularity \<Rightarrow> int \<Rightarrow> u64 \<Rightarrow> PIMBandwidthTracker \<Rightarrow> u64 \<times> PIMBandwidthTracker" where
  "calculateTransferLatency g i bytes t =
     (let bw = getEffectiveBandwidthPerPE t g i;
          ns = d_div (d_of_u64 bytes) bw;
          cycles = (if bw = 0 then undefined_cast else cast_u64 (d_ceil (d_mul ns (bt_clock_freq_GHz t))))
      in (max cycles 1,
          if getConcurrentPEs t g i > 1 then t\<lparr>bt_bandwidth_limited_requests := bt_bandwidth_limited_requests t + 1\<rparr> else t))"

definition BandwidthUsage_init :: BandwidthUsage where
  "BandwidthUsage_init = \<lparr>bu_bytes_transferred = 0, bu_cycles_active = 0, bu_utilization = 0, bu_num_concurrent_pes = 0\<rparr>"

definition updateUsageStats :: "PIMGranularity \<Rightarrow> int \<Rightarrow> u64 \<Rightarrow> u64 \<Rightarrow> PIMBandwidthTracker \<Rightarrow> PIMBandwidthTracker" where
  "updateUsageStats g i bytes cycles t =
     (let u = (case smap_find (g, i) (bt_bandwidth_usage t) of None \<Rightarrow> BandwidthUsage_init | Some u \<Rightarrow> u);
          active = bu_cycles_active u + cycles;
          u1 = u\<lparr>bu_bytes_transferred := bu_bytes_transferred u + bytes, bu_cycles_active := active,
                 bu_num_concurrent_pes := getConcurrentPEs t g i\<rparr>;
          u2 = (if bt_current_cycle t > bt_window_start_cycle t
                then u1\<lparr>bu_utilization := d_div (d_of_u64 active) (d_of_u64 (bt_current_cycle t - bt_window_start_cycle t))\<rparr> else u1)
      in t\<lparr>bt_bandwidth_usage := smap_put (g, i) u2 (bt_bandwidth_usage t)\<rparr>)"

definition checkStatsWindow :: "PIMBandwidthTracker \<Rightarrow> PIMBandwidthTracker" where
  "checkStatsWindow t =
     (if bt_current_cycle t - bt_window_start_cycle t \<ge> STATS_WINDOW_CYCLES
      then t\<lparr>bt_window_start_cycle := bt_current_cycle t,
             bt_bandwidth_usage := map (\<lambda>(k, u). (k, u\<lparr>bu_bytes_transferred := 0, bu_cycles_active := 0, bu_utilization := 0\<rparr>)) (bt_bandwidth_usage t)\<rparr>
      else t)"

section \<open>Requests\<close>

definition port_of :: "PIMRequestPayload \<Rightarrow> port" where
  "port_of p = (pp_granularity p, pp_target_bank p)"

definition requestBandwidth :: "PIMRequestPayload \<Rightarrow> u64 \<Rightarrow> PIMBandwidthTracker \<Rightarrow> u64 \<times> PIMBandwidthTracker" where
  "requestBandwidth p bytes t =
     (let g = pp_granularity p;
          t1 = t\<lparr>bt_total_requests := bt_total_requests t + 1, bt_requests_per_level := smap_bump g 1 (bt_requests_per_level t),
                 bt_bytes_per_level := smap_bump g bytes (bt_bytes_per_level t),
                 bt_total_bytes_transferred := bt_total_bytes_transferred t + bytes,
                 bt_active_queue_depths := smap_bump (port_of p) 1 (bt_active_queue_depths t)\<rparr>;
          (latency, t2) = calculateTransferLatency g (pp_target_bank p) bytes t1
      in (latency, updateUsageStats g (pp_target_bank p) bytes latency t2))"

definition getQueueDepthLimit :: "PIMBandwidthTracker \<Rightarrow> PIMGranularity \<Rightarrow> u64" where
  "getQueueDepthLimit t g = (case smap_find g (bt_queue_depth_limits t) of None \<Rightarrow> BT_DEFAULT_QUEUE_DEPTH_LIMIT | Some l \<Rightarrow> l)"

definition getCurrentQueueDepth :: "PIMBandwidthTracker \<Rightarrow> PIMGranularity \<Rightarrow> int \<Rightarrow> u64" where
  "getCurrentQueueDepth t g i = (case smap_find (g, i) (bt_active_queue_depths t) of None \<Rightarrow> 0 | Some n \<Rightarrow> n)"

definition canAcceptRequest :: "PIMRequestPayload \<Rightarrow> PIMBandwidthTracker \<Rightarrow> bool" where
  "canAcceptRequest p t \<longleftrightarrow>
     getQueueDepthLimit t (pp_granularity p) = 0 \<or>
     getCurrentQueueDepth t (pp_granularity p) (pp_target_bank p) < getQueueDepthLimit t (pp_granularity p)"

definition completeRequest :: "PIMRequestPayload \<Rightarrow> PIMBandwidthTracker \<Rightarrow> PIMBandwidthTracker" where
  "completeRequest p t =
     (case smap_find (port_of p) (bt_active_queue_depths t) of None \<Rightarrow> t
      | Some n \<Rightarrow> if n > 0 then t\<lparr>bt_active_queue_depths := smap_put (port_of p) (n - 1) (bt_active_queue_depths t)\<rparr> else t)"

definition bt_tick :: "PIMBandwidthTracker \<Rightarrow> PIMBandwidthTracker" where
  "bt_tick t = checkStatsWindow (t\<lparr>bt_current_cycle := bt_current_cycle t + 1\<rparr>)"

definition setQueueDepthLimit :: "PIMGranularity \<Rightarrow> u64 \<Rightarrow> PIMBandwidthTracker \<Rightarrow> PIMBandwidthTracker" where
  "setQueueDepthLimit g l t = t\<lparr>bt_queue_depth_limits := smap_put g l (bt_queue_depth_limits t)\<rparr>"

definition setGlobalQueueDepthLimit :: "u64 \<Rightarrow> PIMBandwidthTracker \<Rightarrow> PIMBandwidthTracker" where
  "setGlobalQueueDepthLimit l t =
     t\<lparr>bt_queue_depth_limits := set_limits
         [(SUBARRAY, l), (BANK, l), (BANK_GROUP, l), (CHIP, l), (RANK, l), (MEMORY_CONTROLLER, l), (CPU, l)] (bt_queue_depth_limits t)\<rparr>"

section \<open>Reach\<close>

definition idiv :: "int \<Rightarrow> int \<Rightarrow> int option" where
  "idiv a b = (if b = 0 then None else Some (a sdiv b))"

fun registered_bank :: "PIMGranularity \<Rightarrow> int \<Rightarrow> (port, int list) smap \<Rightarrow> int option" where
  "registered_bank g pe [] = None"
| "registered_bank g pe (((h, bank), pes) # r) = (if h = g \<and> pe \<in> set pes then Some bank else registered_bank g pe r)"

definition getPELocalBank :: "PIMBandwidthTracker \<Rightarrow> PIMGranularity \<Rightarrow> int \<Rightarrow> int option" where
  "getPELocalBank t g pe =
     (case registered_bank g pe (bt_pe_registry t) of Some bank \<Rightarrow> Some bank
      | None \<Rightarrow> if bt_num_banks t = 0 then None else Some (pe smod bt_num_banks t))"

definition getPEBankGroup :: "PIMBandwidthTracker \<Rightarrow> int \<Rightarrow> int option" where
  "getPEBankGroup t pe =
     do {bank \<leftarrow> getPELocalBank t BANK pe; per \<leftarrow> idiv (bt_num_banks t) (bt_num_bank_groups t); idiv bank per}"

definition getPEChip :: "PIMBandwidthTracker \<Rightarrow> int \<Rightarrow> int option" where
  "getPEChip t pe = do {bank \<leftarrow> getPELocalBank t BANK pe; idiv bank (bt_num_banks t sdiv 8)}"

fun is_local :: "PIMGranularity \<Rightarrow> DataLocality \<Rightarrow> bool" where
  "is_local BANK l \<longleftrightarrow> l = LOCAL"
| "is_local SUBARRAY l \<longleftrightarrow> l = LOCAL"
| "is_local BANK_GROUP l \<longleftrightarrow> l = LOCAL \<or> l = REMOTE_SAME_BG"
| "is_local CHIP l \<longleftrightarrow> l \<noteq> REMOTE_SAME_RANK \<and> l \<noteq> REMOTE_EXTERNAL"
| "is_local RANK l \<longleftrightarrow> l \<noteq> REMOTE_EXTERNAL"
| "is_local MEMORY_CONTROLLER l \<longleftrightarrow> l \<noteq> REMOTE_EXTERNAL"
| "is_local CPU l \<longleftrightarrow> True"

fun reach_loop :: "PIMBandwidthTracker \<Rightarrow> PIMGranularity \<Rightarrow> int \<Rightarrow> int \<Rightarrow> int \<Rightarrow> distribution \<Rightarrow> u64 \<times> u64 \<Rightarrow> (u64 \<times> u64) option" where
  "reach_loop t g pe_bank pe_bg pe_chip [] acc = Some acc"
| "reach_loop t g pe_bank pe_bg pe_chip ((bank, bytes) # dd) (loc, rem) =
     do {per \<leftarrow> idiv (bt_num_banks t) (bt_num_bank_groups t);
         data_bg \<leftarrow> idiv bank per;
         data_chip \<leftarrow> idiv bank (bt_num_banks t sdiv 8);
         reach_loop t g pe_bank pe_bg pe_chip dd
           (if is_local g (calculateLocality pe_bank pe_bg pe_chip bank data_bg data_chip) then (loc + bytes, rem) else (loc, rem + bytes))}"

definition calculateDataReach :: "PIMBandwidthTracker \<Rightarrow> PIMRequestPayload \<Rightarrow> distribution \<Rightarrow> (u64 \<times> u64) option" where
  "calculateDataReach t p dd =
     do {pe_bank \<leftarrow> getPELocalBank t (pp_granularity p) (pp_pe_id p);
         pe_bg \<leftarrow> getPEBankGroup t (pp_pe_id p);
         pe_chip \<leftarrow> getPEChip t (pp_pe_id p);
         reach_loop t (pp_granularity p) pe_bank pe_bg pe_chip dd (0, 0)}"

section \<open>Admission\<close>

text \<open>
  What a client may rely on that asks before it sends: a number of slots per port. The locale states the laws of the queue
  operations, and that the number of requests at a port stays below its limit follows from them.
\<close>

locale bounded_ports =
  fixes depth :: "'s \<Rightarrow> 'p \<Rightarrow> nat" and limit :: "'s \<Rightarrow> 'p \<Rightarrow> nat"
    and can_accept :: "'s \<Rightarrow> 'p \<Rightarrow> bool" and step_in :: "'s \<Rightarrow> 'p \<Rightarrow> 's" and step_out :: "'s \<Rightarrow> 'p \<Rightarrow> 's"
    and capacity :: nat
  assumes accept: "can_accept s p \<longleftrightarrow> limit s p = 0 \<or> depth s p < limit s p"
    and depth_in: "depth s p < capacity \<Longrightarrow> depth (step_in s p) q = (if q = p then depth s q + 1 else depth s q)"
    and depth_out: "depth (step_out s p) q = (if q = p then depth s q - 1 else depth s q)"
    and limit_in: "limit (step_in s p) = limit s"
    and limit_out: "limit (step_out s p) = limit s"
begin

lemma in_bounded: "can_accept s p \<Longrightarrow> depth s p < capacity \<Longrightarrow> (\<forall>q. limit s q \<noteq> 0 \<longrightarrow> depth s q \<le> limit s q) \<Longrightarrow>
    \<forall>q. limit (step_in s p) q \<noteq> 0 \<longrightarrow> depth (step_in s p) q \<le> limit (step_in s p) q"
  by (auto simp: depth_in limit_in accept)

lemma out_bounded: "(\<forall>q. limit s q \<noteq> 0 \<longrightarrow> depth s q \<le> limit s q) \<Longrightarrow>
    \<forall>q. limit (step_out s p) q \<noteq> 0 \<longrightarrow> depth (step_out s p) q \<le> limit (step_out s p) q"
  by (auto simp: depth_out limit_out intro: le_trans [OF diff_le_self])

text \<open>A request that has been completed makes room for the next.\<close>

lemma out_makes_room: "0 < depth s p \<Longrightarrow> depth s p \<le> limit s p \<Longrightarrow> can_accept (step_out s p) p"
  by (auto simp: accept depth_out limit_out)

end

definition on_port :: "port \<Rightarrow> PIMRequestPayload" where
  "on_port k = PIMRequestPayload_init\<lparr>pp_granularity := fst k, pp_target_bank := snd k\<rparr>"

lemma port_of_on [simp]: "port_of (on_port k) = k" "pp_granularity (on_port k) = fst k" "pp_target_bank (on_port k) = snd k"
  by (simp_all add: on_port_def port_of_def)

lemma port_of_sel: "fst (port_of p) = pp_granularity p" "snd (port_of p) = pp_target_bank p"
  by (simp_all add: port_of_def)

lemma depth_request:
  "getCurrentQueueDepth (snd (requestBandwidth p n t)) g i = getCurrentQueueDepth t g i + (if (g, i) = port_of p then 1 else 0)"
  by (simp add: requestBandwidth_def calculateTransferLatency_def updateUsageStats_def getCurrentQueueDepth_def smap_bump_def smap_find_put Let_def split: prod.split)

lemma limit_request [simp]: "getQueueDepthLimit (snd (requestBandwidth p n t)) = getQueueDepthLimit t"
  by (intro ext) (simp add: requestBandwidth_def calculateTransferLatency_def updateUsageStats_def getQueueDepthLimit_def Let_def)

lemma depth_complete:
  "unat (getCurrentQueueDepth (completeRequest p t) g i) = unat (getCurrentQueueDepth t g i) - (if (g, i) = port_of p then 1 else 0)"
  by (auto simp: completeRequest_def getCurrentQueueDepth_def smap_find_put unat_minus_one word_gt_0 split: option.split)

lemma limit_complete [simp]: "getQueueDepthLimit (completeRequest p t) = getQueueDepthLimit t"
  by (intro ext) (simp add: completeRequest_def getQueueDepthLimit_def split: option.split)

lemma unat_succ: "unat (x :: u64) < 18446744073709551615 \<Longrightarrow> unat (x + 1) = Suc (unat x)"
  by (simp add: unat_word_ariths)

interpretation ports: bounded_ports
  "\<lambda>t (g, i). unat (getCurrentQueueDepth t g i)" "\<lambda>t (g, i). unat (getQueueDepthLimit t g)" "\<lambda>t k. canAcceptRequest (on_port k) t"
  "\<lambda>t k. snd (requestBandwidth (on_port k) n t)" "\<lambda>t k. completeRequest (on_port k) t" "2 ^ 64 - 1" for n
proof unfold_locales
  fix t :: PIMBandwidthTracker and p q :: port
  show "canAcceptRequest (on_port p) t = ((case p of (g, i) \<Rightarrow> unat (getQueueDepthLimit t g)) = 0 \<or>
      (case p of (g, i) \<Rightarrow> unat (getCurrentQueueDepth t g i)) < (case p of (g, i) \<Rightarrow> unat (getQueueDepthLimit t g)))"
    by (cases p) (simp add: canAcceptRequest_def word_less_nat_alt unat_eq_zero)
  show "(case q of (g, i) \<Rightarrow> unat (getCurrentQueueDepth (snd (requestBandwidth (on_port p) n t)) g i)) =
      (if q = p then (case q of (g, i) \<Rightarrow> unat (getCurrentQueueDepth t g i)) + 1 else (case q of (g, i) \<Rightarrow> unat (getCurrentQueueDepth t g i)))"
    if "(case p of (g, i) \<Rightarrow> unat (getCurrentQueueDepth t g i)) < 2 ^ 64 - 1"
    using that by (cases p; cases q) (auto simp: depth_request unat_succ)
  show "(case q of (g, i) \<Rightarrow> unat (getCurrentQueueDepth (completeRequest (on_port p) t) g i)) =
      (if q = p then (case q of (g, i) \<Rightarrow> unat (getCurrentQueueDepth t g i)) - 1 else (case q of (g, i) \<Rightarrow> unat (getCurrentQueueDepth t g i)))"
    by (cases p; cases q) (auto simp: depth_complete)
qed (simp_all add: fun_eq_iff)

text \<open>Only the port of a payload matters.\<close>

lemma payload_port:
  "requestBandwidth p n t = requestBandwidth (on_port (port_of p)) n t" "canAcceptRequest p t = canAcceptRequest (on_port (port_of p)) t"
  "completeRequest p t = completeRequest (on_port (port_of p)) t"
  by (simp_all add: requestBandwidth_def canAcceptRequest_def completeRequest_def port_of_sel split: option.split)

text \<open>Runs of a client that asks first, with fewer than \<open>2 ^ 64\<close> requests under way. The multiset has the ports of the requests that are not completed.\<close>

inductive bt_run :: "PIMBandwidthTracker \<Rightarrow> port multiset \<Rightarrow> PIMBandwidthTracker \<Rightarrow> bool" for t0 where
  fresh: "bt_run t0 {#} t0"
| request: "bt_run t0 out t \<Longrightarrow> size out < 2 ^ 64 - 1 \<Longrightarrow> canAcceptRequest p t \<Longrightarrow> requestBandwidth p n t = (lat, u) \<Longrightarrow> bt_run t0 (add_mset (port_of p) out) u"
| complete: "bt_run t0 out t \<Longrightarrow> port_of p \<in># out \<Longrightarrow> bt_run t0 (out - {#port_of p#}) (completeRequest p t)"
| step: "bt_run t0 out t \<Longrightarrow> bt_run t0 out (bt_tick t)"
| register: "bt_run t0 out t \<Longrightarrow> bt_run t0 out (bt_registerPE g pe bank t)"
| reset: "bt_run t0 out t \<Longrightarrow> bt_run t0 out (bt_resetStats t)"

lemma quiet_fields [simp]:
  "getCurrentQueueDepth (bt_tick t) = getCurrentQueueDepth t" "getCurrentQueueDepth (bt_registerPE g pe bank t) = getCurrentQueueDepth t"
  "getCurrentQueueDepth (bt_resetStats t) = getCurrentQueueDepth t"
  "getQueueDepthLimit (bt_tick t) = getQueueDepthLimit t" "getQueueDepthLimit (bt_registerPE g pe bank t) = getQueueDepthLimit t"
  "getQueueDepthLimit (bt_resetStats t) = getQueueDepthLimit t"
  by (simp_all add: fun_eq_iff getCurrentQueueDepth_def getQueueDepthLimit_def bt_tick_def checkStatsWindow_def bt_registerPE_def bt_resetStats_def)

definition depths_ok :: "port multiset \<Rightarrow> PIMBandwidthTracker \<Rightarrow> bool" where
  "depths_ok out t \<longleftrightarrow> (\<forall>g i. unat (getCurrentQueueDepth t g i) = count out (g, i) \<and>
     (getQueueDepthLimit t g \<noteq> 0 \<longrightarrow> count out (g, i) \<le> unat (getQueueDepthLimit t g)))"

lemma depths_request:
  assumes "depths_ok out t" and "canAcceptRequest p t" and "size out < 2 ^ 64 - 1"
  shows "depths_ok (add_mset (port_of p) out) (snd (requestBandwidth p n t))"
proof -
  obtain g i where p: "port_of p = (g, i)" by (cases "port_of p")
  have d: "unat (getCurrentQueueDepth t h j) = count out (h, j)" for h j using assms(1) by (simp add: depths_ok_def)
  have "count out (g, i) < 2 ^ 64 - 1" using assms(3) count_le_size [of out "(g, i)"] by linarith
  then have dp: "unat (getCurrentQueueDepth t g i) < 2 ^ 64 - 1" using d by simp
  have inv: "\<forall>q. (case q of (h, j) \<Rightarrow> unat (getQueueDepthLimit t h)) \<noteq> 0 \<longrightarrow>
      (case q of (h, j) \<Rightarrow> unat (getCurrentQueueDepth t h j)) \<le> (case q of (h, j) \<Rightarrow> unat (getQueueDepthLimit t h))"
    using assms(1) by (auto simp: depths_ok_def unat_gt_0)
  have can: "canAcceptRequest (on_port (g, i)) t" using assms(2) payload_port(2) [of p t] p by simp
  note up = ports.depth_in [where p = "(g, i)" and s = t and n = n] and bound = ports.in_bounded [OF can _ inv, of n]
  have "requestBandwidth p n t = requestBandwidth (on_port (g, i)) n t" using payload_port(1) [of p] p by simp
  then show ?thesis using dp d up bound p by (auto simp: depths_ok_def unat_gt_0 split: if_splits)
qed

lemma depths_complete:
  assumes "depths_ok out t" and "port_of p \<in># out"
  shows "depths_ok (out - {#port_of p#}) (completeRequest p t)"
  using assms by (auto simp: depths_ok_def depth_complete intro: le_trans [OF diff_le_self])

text \<open>
  C34: If every client asks \<^verbatim>\<open>canAcceptRequest\<close> before it requests bandwidth, the depth of every port is the number of its
  requests that are not completed, and no port with a limit ever holds more; a completed request at a full port makes room for another.
\<close>

theorem admission_bounded:
  assumes "bt_active_queue_depths t0 = []" and "bt_run t0 out t"
  shows "unat (getCurrentQueueDepth t g i) = count out (g, i) \<and>
    (getQueueDepthLimit t g \<noteq> 0 \<longrightarrow> count out (g, i) \<le> unat (getQueueDepthLimit t g) \<and>
      (port_of p = (g, i) \<and> (g, i) \<in># out \<longrightarrow> canAcceptRequest p (completeRequest p t)))"
proof -
  have ok: "depths_ok out t"
    using assms(2)
  proof (induction rule: bt_run.induct)
    case fresh
    then show ?case using assms(1) by (simp add: depths_ok_def getCurrentQueueDepth_def)
  next
    case (request out t p n lat u)
    then show ?case using depths_request [of out t p n] by simp
  next
    case (complete out t p)
    then show ?case by (intro depths_complete)
  qed (simp_all add: depths_ok_def)
  have "canAcceptRequest p (completeRequest p t)" if "getQueueDepthLimit t g \<noteq> 0" "port_of p = (g, i)" "(g, i) \<in># out"
    using ports.out_makes_room [of t "(g, i)"] ok that payload_port(2,3) [of p] by (simp add: depths_ok_def)
  then show ?thesis using ok by (simp add: depths_ok_def)
qed

text \<open>A DDR4 part at 1200 MHz, with the widths of its ports, and the tracker initialised with it: one channel, two ranks, four groups of four banks.\<close>

definition sample_arch :: dram_arch where
  "sample_arch = \<lparr>da_clock_freq_mhz = 1200, da_gsa_datapath_bits = 256, da_bank_serialization_bits = 8, da_rank_databus_bits = 64, da_chip_io_bits = 8,
     da_chips_per_rank = 8\<rparr>"

definition ddr4_tracker :: PIMBandwidthTracker where
  "ddr4_tracker = projr (bt_initialize 1 2 4 16 16 (PIMBandwidthTracker_init (Some sample_arch)))"

lemma ddr4_tracker_initialized: "bt_initialize 1 2 4 16 16 (PIMBandwidthTracker_init (Some sample_arch)) = Inr ddr4_tracker"
  by (simp add: ddr4_tracker_def bt_initialize_def PIMBandwidthTracker_init_def)

lemma ddr4_tracker_fields:
  "bt_active_queue_depths ddr4_tracker = []" "bt_pe_registry ddr4_tracker = []"
  "bt_queue_depth_limits ddr4_tracker = bt_queue_depth_limits (PIMBandwidthTracker_init None)"
  "bt_clock_freq_GHz ddr4_tracker = d_div 1200 1000" "bt_bank_bw_limit ddr4_tracker = calculateBandwidth 8 (d_div 1200 1000)"
  by (simp_all add: ddr4_tracker_def bt_initialize_def PIMBandwidthTracker_init_def bt_resetStats_def initializeBandwidthLimits_def sample_arch_def Let_def)

text \<open>One request at a bank of that part.\<close>

theorem admission_bounded_witness:
  "\<exists>t. bt_run ddr4_tracker {#(BANK, 3)#} t \<and> unat (getCurrentQueueDepth t BANK 3) = 1"
proof -
  let ?t = ddr4_tracker and ?p = "on_port (BANK, 3)"
  have "canAcceptRequest ?p ?t" by (simp add: canAcceptRequest_def getQueueDepthLimit_def getCurrentQueueDepth_def ddr4_tracker_fields
        PIMBandwidthTracker_init_def set_limits_def smap_find_def less_PIMGranularity_def BT_DEFAULT_QUEUE_DEPTH_LIMIT_def)
  moreover obtain lat u where "requestBandwidth ?p 64 ?t = (lat, u)" by fastforce
  ultimately have run: "bt_run ?t {#(BANK, 3)#} u" using request [OF fresh, of ?p ?t 64 lat u] by simp
  from admission_bounded [OF ddr4_tracker_fields(1) run, of BANK 3] run show ?thesis by auto
qed

text \<open>
  The price of a request at a port whose bandwidth is positive: the bytes over the bandwidth of the processing element, in cycles, rounded up and at
  least one. The quotient has to fit 64 bits.
\<close>

definition port_time :: "PIMBandwidthTracker \<Rightarrow> PIMGranularity \<Rightarrow> int \<Rightarrow> u64 \<Rightarrow> double" where
  "port_time t g i bytes = d_mul (d_div (d_of_u64 bytes) (getEffectiveBandwidthPerPE t g i)) (bt_clock_freq_GHz t)"

definition port_priced :: "PIMBandwidthTracker \<Rightarrow> PIMGranularity \<Rightarrow> int \<Rightarrow> u64 \<Rightarrow> bool" where
  "port_priced t g i bytes \<longleftrightarrow> 0 < getEffectiveBandwidthPerPE t g i \<and> 0 \<le> bt_clock_freq_GHz t \<and> \<lceil>port_time t g i bytes\<rceil> < 2 ^ 64"

lemma request_cycles:
  assumes "port_priced t (pp_granularity p) (pp_target_bank p) bytes"
  shows "unat (fst (requestBandwidth p bytes t)) = max 1 (nat \<lceil>port_time t (pp_granularity p) (pp_target_bank p) bytes\<rceil>)"
proof -
  let ?x = "port_time t (pp_granularity p) (pp_target_bank p) bytes"
  have b: "0 \<le> d_of_u64 bytes" by (simp add: d_of_u64_def del: of_nat_unat)
  have ok: "getEffectiveBandwidthPerPE t (pp_granularity p) (pp_target_bank p) \<noteq> 0" "0 \<le> ?x" "\<lceil>?x\<rceil> < 2 ^ 64"
    using assms b by (auto simp: port_priced_def port_time_def d_mul_def d_div_def)
  then have c: "0 \<le> \<lceil>?x\<rceil>" by simp
  have "(of_int \<lceil>?x\<rceil> :: rat) < of_int (2 ^ 64)" "(of_int (- 1) :: rat) < of_int \<lceil>?x\<rceil>" using ok(3) c by (simp_all only: of_int_less_iff)
  then have "- 1 < d_ceil ?x \<and> d_ceil ?x < 2 ^ 64" unfolding d_ceil_def by simp
  then have "cast_u64 (d_ceil ?x) = word_of_int \<lceil>?x\<rceil>" using c by (simp only: cast_u64_def if_True u64_of_d_def) (simp add: d_ceil_def d_trunc_def)
  moreover have "uint (word_of_int \<lceil>?x\<rceil> :: u64) = \<lceil>?x\<rceil>" using c ok(3) by (simp add: uint_word_of_int)
  ultimately have u: "unat (cast_u64 (d_ceil ?x)) = nat \<lceil>?x\<rceil>" by (simp add: unat_eq_nat_uint)
  let ?t = "t\<lparr>bt_total_requests := bt_total_requests t + 1, bt_requests_per_level := smap_bump (pp_granularity p) 1 (bt_requests_per_level t),
       bt_bytes_per_level := smap_bump (pp_granularity p) bytes (bt_bytes_per_level t),
       bt_total_bytes_transferred := bt_total_bytes_transferred t + bytes,
       bt_active_queue_depths := smap_bump (port_of p) 1 (bt_active_queue_depths t)\<rparr>"
  have same: "getEffectiveBandwidthPerPE ?t = getEffectiveBandwidthPerPE t"
  proof (intro ext)
    show "getEffectiveBandwidthPerPE ?t g i = getEffectiveBandwidthPerPE t g i" for g i
      by (cases g) (simp_all add: getEffectiveBandwidthPerPE_def getConcurrentPEs_def)
  qed
  have "fst (requestBandwidth p bytes t) = max (cast_u64 (d_ceil ?x)) 1"
    using ok(1) by (simp add: requestBandwidth_def calculateTransferLatency_def same port_time_def Let_def)
  then show ?thesis using u by (simp add: max_def word_le_nat_alt)
qed

text \<open>A tracker that was initialised with positive widths and a positive clock has a positive bandwidth at every port.\<close>

lemma initialized_bandwidth:
  assumes "bt_initialize channels ranks groups banks subarrays t = Inr u" and "bt_dram_arch t = Some a" and "1 \<le> da_clock_freq_mhz a"
    and "8 \<le> da_gsa_datapath_bits a" and "8 \<le> da_bank_serialization_bits a" and "8 \<le> da_rank_databus_bits a" and "8 \<le> da_chip_io_bits a"
  shows "0 < bt_getBandwidthLimit u g \<and> 0 \<le> bt_clock_freq_GHz u"
proof -
  let ?f = "d_div (da_clock_freq_mhz a) 1000"
  have "rnd (1 / 1000) \<le> ?f" unfolding d_div_def using assms(3) by (intro rnd_mono) (simp add: divide_right_mono)
  moreover have "0.0005 < rnd (1 / 1000)" by code_simp
  ultimately have f: "0.0005 < ?f" by linarith
  have bw: "0 < calculateBandwidth bits ?f" if "8 \<le> bits" for bits
  proof -
    have "(1 :: rat) \<le> of_int bits / 8" using that by simp
    then have one: "1 \<le> d_div (of_int bits) 8" using rnd_mono [of 1 "of_int bits / 8"] by (simp add: d_div_def)
    have "1 * 0.0005 \<le> d_div (of_int bits) 8 * ?f" using one f by (intro mult_mono) simp_all
    then have "rnd (1 * 0.0005) \<le> calculateBandwidth bits ?f" unfolding calculateBandwidth_def d_mul_def by (rule rnd_mono)
    moreover have "0 < rnd (1 * 0.0005)" by code_simp
    ultimately show ?thesis by linarith
  qed
  have u: "u = bt_resetStats (initializeBandwidthLimits a
      (t\<lparr>bt_num_channels := channels, bt_num_ranks := ranks, bt_num_bank_groups := groups, bt_num_banks := banks, bt_num_subarrays := subarrays\<rparr>))"
    using assms(1,2) by (simp add: bt_initialize_def)
  show ?thesis using bw assms(4-7) f unfolding u by (cases g) (simp_all add: bt_resetStats_def initializeBandwidthLimits_def Let_def)
qed

section \<open>Reach\<close>

text \<open>The division of the banks among eight chips traps with fewer than eight banks.\<close>

definition banks_ok :: "PIMBandwidthTracker \<Rightarrow> bool" where
  "banks_ok t \<longleftrightarrow> 8 \<le> bt_num_banks t \<and> 0 < bt_num_bank_groups t \<and> bt_num_bank_groups t \<le> bt_num_banks t"

lemma reach_loop_total:
  assumes "bt_num_bank_groups t \<noteq> 0" and "bt_num_banks t sdiv bt_num_bank_groups t \<noteq> 0" and "bt_num_banks t sdiv 8 \<noteq> 0"
  shows "\<exists>l r. reach_loop t g pe_bank pe_bg pe_chip dd acc = Some (l, r) \<and> l + r = fst acc + snd acc + sum_list (map snd dd)"
  using assms
proof (induction t g pe_bank pe_bg pe_chip dd acc rule: reach_loop.induct)
  case (2 t g pe_bank pe_bg pe_chip bank bytes dd loc rem)
  then show ?case by (fastforce simp: idiv_def algebra_simps)
qed auto

text \<open>
  The split of the data of a request succeeds exactly if there are at least eight banks, and a positive number of bank groups that is at most that of the
  banks; otherwise an integer division by zero traps, whatever the request. What is local and what is remote add up to all of the data.
\<close>

theorem data_reach_splits:
  assumes "0 \<le> bt_num_banks t" and "0 \<le> bt_num_bank_groups t"
  shows "case calculateDataReach t p dd of None \<Rightarrow> \<not> banks_ok t | Some (l, r) \<Rightarrow> banks_ok t \<and> l + r = sum_list (map snd dd)"
proof (cases "banks_ok t")
  case True
  then have pos: "0 < bt_num_bank_groups t" "0 < bt_num_banks t div bt_num_bank_groups t" "0 < bt_num_banks t div 8"
    by (simp_all add: banks_ok_def pos_imp_zdiv_pos_iff)
  have "getPELocalBank t g (pp_pe_id p) \<noteq> None" for g using True by (simp add: getPELocalBank_def banks_ok_def split: option.split)
  then obtain bank home where bank: "getPELocalBank t (pp_granularity p) (pp_pe_id p) = Some bank"
    and home: "getPELocalBank t BANK (pp_pe_id p) = Some home" by blast
  have sd: "bt_num_banks t sdiv bt_num_bank_groups t \<noteq> 0" "bt_num_banks t sdiv 8 \<noteq> 0" using pos assms by (simp_all add: sdiv_nonneg)
  have "getPEBankGroup t (pp_pe_id p) \<noteq> None" "getPEChip t (pp_pe_id p) \<noteq> None"
    using home sd pos(1) by (simp_all add: getPEBankGroup_def getPEChip_def idiv_def)
  then obtain bg chip where "getPEBankGroup t (pp_pe_id p) = Some bg" "getPEChip t (pp_pe_id p) = Some chip" by auto
  with bank reach_loop_total [of t "pp_granularity p" bank bg chip dd "(0, 0)"] sd pos(1) True
  show ?thesis by (auto simp: calculateDataReach_def)
next
  case False
  then have "bt_num_bank_groups t = 0 \<or> bt_num_banks t div bt_num_bank_groups t = 0 \<or> bt_num_banks t div 8 = 0"
    using assms by (auto simp: banks_ok_def div_pos_pos_trivial not_le)
  then have "getPEBankGroup t (pp_pe_id p) = None \<or> getPEChip t (pp_pe_id p) = None"
    using assms by (cases "bt_num_bank_groups t = 0")
      (auto simp: getPEBankGroup_def getPEChip_def idiv_def sdiv_nonneg intro: exI split: bind_splits)
  then show ?thesis using False by (auto simp: calculateDataReach_def split: bind_splits option.split)
qed

definition sample_tracker :: PIMBandwidthTracker where
  "sample_tracker = (PIMBandwidthTracker_init None)\<lparr>bt_num_bank_groups := 4, bt_num_banks := 16\<rparr>"

theorem data_reach_splits_witness:
  "\<exists>l r. calculateDataReach sample_tracker (on_port (BANK, 5)) [(5, 100), (6, 50)] = Some (l, r) \<and> l + r = 150"
proof -
  have "0 \<le> bt_num_banks sample_tracker" "0 \<le> bt_num_bank_groups sample_tracker" "banks_ok sample_tracker"
    by (simp_all add: sample_tracker_def banks_ok_def)
  then show ?thesis using data_reach_splits [where t = sample_tracker and p = "on_port (BANK, 5)" and dd = "[(5, 100), (6, 50)]"] by (auto split: option.splits prod.splits)
qed

text \<open>
  The bank group and the chip of a processing element are always looked up at the level of banks. For an element registered at a bank group with
  bank 12, the data in that bank count as remote.
\<close>

lemma own_bank_remote:
  "calculateDataReach (bt_registerPE BANK_GROUP 1 12 sample_tracker) ((on_port (BANK_GROUP, 12))\<lparr>pp_pe_id := 1\<rparr>) [(12, 64)] = Some (0, 64)"
  by (simp add: calculateDataReach_def getPELocalBank_def getPEBankGroup_def getPEChip_def bt_registerPE_def sample_tracker_def
      PIMBandwidthTracker_init_def idiv_def calculateLocality_def sdiv_nonneg smap_find_def on_port_def)

text \<open>Resetting the statistics keeps the depths of the queues: a port that was full stays full.\<close>

lemma reset_keeps_depths: "canAcceptRequest p (bt_resetStats t) = canAcceptRequest p t"
  by (simp add: canAcceptRequest_def)

end
