(* ===== verification/Pim_Controller.thy ===== *)
theory Pim_Controller
  imports Pim_Bandwidth
begin

text \<open>
  The controller plugin of the memory simulator (src/memory/pim_controller_plugin.cpp): it sees every request that the memory controller
  schedules, prices the data movement of the operations in memory with the bandwidth tracker, and sends their transfers through
  the in-memory network. A request of the memory simulator is represented by the payload it may carry. The tracker exists from the
  construction on, so that the fallback without one does not occur. An uninitialised time of a packet, which
  \<^verbatim>\<open>sendPacket\<close> overwrites, is zero. \<open>None\<close> is the trap of an integer division by zero: by the number of bank groups in \<^verbatim>\<open>initialize\<close>,
  and by a dimension of the hierarchy where a packet is sent.
\<close>

record PIMControllerPlugin =
  pc_dram_arch :: "dram_arch option"
  pc_dram_type :: string
  pc_tracker :: PIMBandwidthTracker
  pc_network :: "InternalDRAMNetwork option"
  pc_current_cycle :: u64
  pc_total_pim_requests :: u64
  pc_total_normal_requests :: u64

definition PIMControllerPlugin_init :: "dram_arch option \<Rightarrow> string \<Rightarrow> PIMControllerPlugin" where
  "PIMControllerPlugin_init arch t =
     \<lparr>pc_dram_arch = arch, pc_dram_type = t, pc_tracker = PIMBandwidthTracker_init arch, pc_network = None, pc_current_cycle = 0,
      pc_total_pim_requests = 0, pc_total_normal_requests = 0\<rparr>"

definition pc_initialize :: "int \<Rightarrow> int \<Rightarrow> int \<Rightarrow> int \<Rightarrow> int \<Rightarrow> int \<Rightarrow> PIMControllerPlugin \<Rightarrow> (tracker_error + PIMControllerPlugin) option" where
  "pc_initialize grade channels ranks groups banks subarrays c =
     (case bt_initialize channels ranks groups banks subarrays (pc_tracker c) of
        Inl e \<Rightarrow> Some (Inl e)
      | Inr t \<Rightarrow>
          (let chips = (case pc_dram_arch c of None \<Rightarrow> 8 | Some a \<Rightarrow> if da_chips_per_rank a > 0 then da_chips_per_rank a else 8)
           in if groups = 0 then None
              else Some (Inr (c\<lparr>pc_tracker := t,
                     pc_network := Some (createInternalDRAMNetwork grade (pc_dram_type c) subarrays (banks sdiv groups) groups chips)\<rparr>))))"

definition transfer_packet :: "PIMControllerPlugin \<Rightarrow> PIMRequestPayload \<Rightarrow> InternalDRAMTransfer \<Rightarrow> InternalNetworkPacket" where
  "transfer_packet c p t =
     \<lparr>ip_packet_id = pc_total_pim_requests c, ip_source_bank = it_source_bank t, ip_dest_bank = it_dest_bank t,
      ip_source_subarray = it_source_subarray t, ip_dest_subarray = it_dest_subarray t, ip_data_bytes = it_transfer_bytes t,
      ip_injection_time = 0, ip_completion_time = 0, ip_completed = False, ip_callback = pp_completion_callback p\<rparr>"

definition handleInternalTransfer ::
  "libm \<Rightarrow> InternalDRAMTransfer \<Rightarrow> PIMControllerPlugin \<times> PIMRequestPayload \<Rightarrow> (PIMControllerPlugin \<times> PIMRequestPayload) option" where
  "handleInternalTransfer m t cp =
     (case cp of (c, p) \<Rightarrow>
        case pc_network c of None \<Rightarrow> Some (c, p)
        | Some d \<Rightarrow> (case sendPacket m (transfer_packet c p t) d of None \<Rightarrow> None
          | Some (accepted, e) \<Rightarrow>
              (let level = (if it_source_bank t = it_dest_bank t then SUBARRAY_NETWORK else BANK_NETWORK)
               in Some (c\<lparr>pc_network := Some e\<rparr>,
                    if accepted then p\<lparr>pp_network_cycles := pp_network_cycles p + getTransferLatency m e level (it_transfer_bytes t)\<rparr> else p))))"

fun handle_transfers ::
  "libm \<Rightarrow> InternalDRAMTransfer list \<Rightarrow> PIMControllerPlugin \<times> PIMRequestPayload \<Rightarrow> (PIMControllerPlugin \<times> PIMRequestPayload) option" where
  "handle_transfers m [] cp = Some cp"
| "handle_transfers m (t # ts) cp =
     (case (if it_requires_network t then handleInternalTransfer m t cp else Some cp) of None \<Rightarrow> None | Some cp' \<Rightarrow> handle_transfers m ts cp')"

definition pc_update ::
  "libm \<Rightarrow> bool \<Rightarrow> PIMRequestPayload option \<Rightarrow> PIMControllerPlugin \<Rightarrow> (PIMControllerPlugin \<times> PIMRequestPayload option) option" where
  "pc_update m request_found payload c =
     (if \<not> request_found then Some (c, payload)
      else case payload of
        None \<Rightarrow> Some (c\<lparr>pc_total_normal_requests := pc_total_normal_requests c + 1\<rparr>, None)
      | Some p \<Rightarrow>
          if pp_operation p = NORMAL_READ \<or> pp_operation p = NORMAL_WRITE
          then Some (c\<lparr>pc_total_normal_requests := pc_total_normal_requests c + 1\<rparr>, Some p)
          else let (latency, t) = requestBandwidth p (pp_data_bytes p) (pc_tracker c);
                   c1 = c\<lparr>pc_total_pim_requests := pc_total_pim_requests c + 1, pc_tracker := t\<rparr>;
                   p1 = p\<lparr>pp_data_movement_cycles := latency\<rparr>
               in case (if requiresInternalNetwork p then handle_transfers m (pp_internal_transfers p) (c1, p1) else Some (c1, p1)) of
                    None \<Rightarrow> None
                  | Some (c2, p2) \<Rightarrow> Some (c2, Some (p2\<lparr>pp_data_movement_cycles := pp_data_movement_cycles p2 + pp_network_cycles p2\<rparr>)))"

definition pc_tick :: "PIMControllerPlugin \<Rightarrow> PIMControllerPlugin option" where
  "pc_tick c =
     (let c1 = c\<lparr>pc_current_cycle := pc_current_cycle c + 1, pc_tracker := bt_tick (pc_tracker c)\<rparr> in
      case pc_network c of None \<Rightarrow> Some c1
      | Some d \<Rightarrow> map_option (\<lambda>e. c1\<lparr>pc_network := Some e\<rparr>) (dn_tick d))"

definition pc_registerPE :: "PIMGranularity \<Rightarrow> int \<Rightarrow> int \<Rightarrow> PIMControllerPlugin \<Rightarrow> PIMControllerPlugin" where
  "pc_registerPE g pe bank c = c\<lparr>pc_tracker := bt_registerPE g pe bank (pc_tracker c)\<rparr>"

definition pc_resetStats :: "PIMControllerPlugin \<Rightarrow> PIMControllerPlugin" where
  "pc_resetStats c =
     c\<lparr>pc_current_cycle := 0, pc_total_pim_requests := 0, pc_total_normal_requests := 0, pc_tracker := bt_resetStats (pc_tracker c),
       pc_network := map_option resetStats (pc_network c)\<rparr>"

definition pc_getBandwidthLimit :: "PIMControllerPlugin \<Rightarrow> PIMGranularity \<Rightarrow> double" where
  "pc_getBandwidthLimit c = bt_getBandwidthLimit (pc_tracker c)"

definition pc_getPortBitwidth :: "PIMControllerPlugin \<Rightarrow> PIMGranularity \<Rightarrow> int" where
  "pc_getPortBitwidth c = bt_getPortBitwidth (pc_tracker c)"

definition pc_getEffectiveBandwidthPerPE :: "PIMControllerPlugin \<Rightarrow> PIMGranularity \<Rightarrow> int \<Rightarrow> double" where
  "pc_getEffectiveBandwidthPerPE c = getEffectiveBandwidthPerPE (pc_tracker c)"

section \<open>Transfers of an operation\<close>

definition needed :: "PIMRequestPayload \<Rightarrow> InternalDRAMTransfer list" where
  "needed p = (if requiresInternalNetwork p then filter it_requires_network (pp_internal_transfers p) else [])"

text \<open>The price that is charged for a transfer does not depend on the traffic.\<close>

definition transfer_price :: "libm \<Rightarrow> InternalDRAMNetwork \<Rightarrow> InternalDRAMTransfer \<Rightarrow> u64" where
  "transfer_price m d t =
     getTransferLatency m d (if it_source_bank t = it_dest_bank t then SUBARRAY_NETWORK else BANK_NETWORK) (it_transfer_bytes t)"

text \<open>What sending leaves alone of the network.\<close>

definition net_shape :: "InternalDRAMNetwork \<Rightarrow> _" where
  "net_shape d = (dn_network_configs d, dn_num_banks_per_bg d, dn_num_bg_per_chip d, dn_num_chips_per_rank d)"

lemma configs_send:
  assumes "sendPacket m p d = Some (r, e)"
  shows "dn_network_configs e = dn_network_configs d" and "dims_ok e = dims_ok d"
proof -
  have [simp]: "net_shape (snd (tier_cost m n l x)) = net_shape (snd x)" "net_shape (snd (bridge_cost m n l x)) = net_shape (snd x)" for n l x
    by (simp_all add: net_shape_def tier_cost_def bridge_cost_def getTierLatency_def getBridgeLatency_def Let_def)
  have path: "net_shape (snd (path_latency m n l d)) = net_shape d" for n l d
    unfolding path_latency_def Let_def by (subst foldl_keeps [where P = "\<lambda>x. net_shape (snd x)"]; simp)+
  have step: "net_shape (snd (inject_step m p src dst lca x l)) = net_shape (snd x)" for src dst lca x l
    by (simp add: net_shape_def inject_step_def inject_level_def inject_bridge_def bridge_cost_def getBridgeLatency_def Let_def split: option.split)
  have inject: "net_shape (snd (foldl (inject_step m p src dst lca) (0, d) ls)) = net_shape d" for src dst lca ls d
    using foldl_keeps [where P = "\<lambda>x. net_shape (snd x)" and f = "inject_step m p src dst lca", OF step] by simp
  have between: "net_shape (snd (send_between m p src dst d)) = net_shape d" for src dst
  proof -
    have "net_shape (enter_inflight p x e) = net_shape e" "net_shape (count_accesses k e) = net_shape e" for x k e
      by (simp_all add: net_shape_def enter_inflight_def count_accesses_def)
    then show ?thesis using path inject step by (simp add: send_between_def Let_def case_prod_unfold)
  qed
  obtain src dst where "send_between m p src dst d = (r, e)" using assms by (auto simp: sendPacket_def split: option.splits)
  with between [of src dst] have "net_shape e = net_shape d" by simp
  then show "dn_network_configs e = dn_network_configs d" "dims_ok e = dims_ok d" by (simp_all add: net_shape_def dims_ok_def)
qed

lemma price_configs: "dn_network_configs e = dn_network_configs d \<Longrightarrow> transfer_price m e t = transfer_price m d t"
  by (simp add: transfer_price_def getTransferLatency_def getTransferLatencyNs_def)

definition callback_of :: "PIMRequestPayload \<Rightarrow> nat multiset" where
  "callback_of p = (case pp_completion_callback p of None \<Rightarrow> {#} | Some k \<Rightarrow> {#k#})"

lemma transfer_sent:
  assumes "pc_network c = Some d" and "\<not> dn_use_garnet_models d" and "dims_ok d"
  obtains e where "handleInternalTransfer m t (c, p) = Some (c\<lparr>pc_network := Some e\<rparr>, p\<lparr>pp_network_cycles := pp_network_cycles p + transfer_price m d t\<rparr>)"
    and "\<not> dn_use_garnet_models e" and "dn_network_configs e = dn_network_configs d" and "dims_ok e"
    and "balance e = (case balance d of (s, b, k, q) \<Rightarrow> (s + 1, b + it_transfer_bytes t, k + 1, q + callback_of p))"
proof -
  obtain f x where f: "sendPacket m (transfer_packet c p t) d = Some (True, enter_inflight (transfer_packet c p t) x f)" "traffic f = traffic d"
    using analytical_send [OF assms(2,3)] by metis
  let ?e = "enter_inflight (transfer_packet c p t) x f"
  have conf: "dn_network_configs ?e = dn_network_configs d" "dims_ok ?e" using configs_send [OF f(1)] assms(3) by simp_all
  have "\<not> dn_use_garnet_models ?e" using trafficD(8) [OF f(2)] assms(2) by (simp add: enter_inflight_def)
  moreover have "mset (packet_callback (transfer_packet c p t)) = callback_of p"
    by (simp add: packet_callback_def transfer_packet_def callback_of_def split: option.split)
  then have "balance ?e = (case balance d of (s, b, k, q) \<Rightarrow> (s + 1, b + it_transfer_bytes t, k + 1, q + callback_of p))"
    using balance_send(1) [OF f(1)] by (simp add: transfer_packet_def split: prod.split)
  moreover have "handleInternalTransfer m t (c, p) = Some (c\<lparr>pc_network := Some ?e\<rparr>, p\<lparr>pp_network_cycles := pp_network_cycles p + transfer_price m d t\<rparr>)"
    using price_configs [OF conf(1), of m t] by (simp add: handleInternalTransfer_def assms(1) f(1) Let_def transfer_price_def)
  ultimately show thesis using conf that by blast
qed

lemma transfers_sent:
  assumes "pc_network c = Some d" and "\<not> dn_use_garnet_models d" and "dims_ok d"
  shows "\<exists>e. handle_transfers m ts (c, p) =
      Some (c\<lparr>pc_network := Some e\<rparr>, p\<lparr>pp_network_cycles := pp_network_cycles p + sum_list (map (transfer_price m d) (filter it_requires_network ts))\<rparr>) \<and>
    balance e = (case balance d of (s, b, k, q) \<Rightarrow> let us = filter it_requires_network ts in
      (s + of_nat (length us), b + sum_list (map it_transfer_bytes us), k + of_nat (length us), q + repeat_mset (length us) (callback_of p)))"
  using assms
proof (induction ts arbitrary: c d p)
  case Nil
  then show ?case by (intro exI [of _ d]) (simp split: prod.split)
next
  case (Cons t ts)
  show ?case
  proof (cases "it_requires_network t")
    case False
    then show ?thesis using Cons.IH [OF Cons.prems, of p] by simp
  next
    case True
    let ?p = "p\<lparr>pp_network_cycles := pp_network_cycles p + transfer_price m d t\<rparr>"
    obtain e where e: "handleInternalTransfer m t (c, p) = Some (c\<lparr>pc_network := Some e\<rparr>, ?p)"
        "\<not> dn_use_garnet_models e" "dn_network_configs e = dn_network_configs d" "dims_ok e"
        "balance e = (case balance d of (s, b, k, q) \<Rightarrow> (s + 1, b + it_transfer_bytes t, k + 1, q + callback_of p))"
      by (rule transfer_sent [OF Cons.prems, of m t p])
    have price: "transfer_price m e = transfer_price m d" using price_configs [OF e(3)] by (intro ext)
    have cb: "callback_of ?p = callback_of p" by (simp add: callback_of_def)
    obtain s b k q where d: "balance d = (s, b, k, q)" by (cases "balance d")
    from Cons.IH [of "c\<lparr>pc_network := Some e\<rparr>" e ?p] e(2,4) obtain f where
      "handle_transfers m ts (c\<lparr>pc_network := Some e\<rparr>, ?p) =
        Some (c\<lparr>pc_network := Some f\<rparr>, ?p\<lparr>pp_network_cycles := pp_network_cycles ?p + sum_list (map (transfer_price m d) (filter it_requires_network ts))\<rparr>)"
      and "balance f = (let us = filter it_requires_network ts in (s + 1 + of_nat (length us), b + it_transfer_bytes t + sum_list (map it_transfer_bytes us),
        k + 1 + of_nat (length us), q + callback_of p + repeat_mset (length us) (callback_of p)))"
      by (auto simp: e(5) d price cb Let_def)
    then show ?thesis using True by (intro exI [of _ f]) (simp add: e(1) d Let_def add.assoc)
  qed
qed

text \<open>
  C33: what the controller does with an operation in memory when the network is analytical, no dimension of the hierarchy is zero and the bandwidth
  of the port is positive (as it is after an initialisation with positive widths and a clock of at least one megahertz, \<open>initialized_bandwidth\<close>). The
  operation is counted and takes a slot at its port; its price there is the time of its bytes at the bandwidth of the processing element, in cycles,
  rounded up and at least one; every transfer that needs the network is accepted by it, with the completion callback of the request, and priced; and the
  cycles of the payload are those of the port plus those of all transfers, with the sum modulo \<open>2 ^ 64\<close>. The widths, latencies and payloads are
  those of \<^verbatim>\<open>timing_ok\<close> and \<^verbatim>\<open>payload_ok\<close>, so that no conversion of a double in the network is out of range.
\<close>

theorem update_prices_transfers:
  assumes "pc_network c = Some d" and "\<not> dn_use_garnet_models d" and "dims_ok d" and "pp_operation p \<noteq> NORMAL_READ" and "pp_operation p \<noteq> NORMAL_WRITE"
    and "port_priced (pc_tracker c) (pp_granularity p) (pp_target_bank p) (pp_data_bytes p)"
    and "timing_ok d" and "\<forall>t\<in>set (needed p). payload_ok d (it_transfer_bytes t)"
  shows "\<exists>c' p' e port. pc_update m True (Some p) c = Some (c', Some p') \<and> pc_network c' = Some e \<and>
    pc_total_pim_requests c' = pc_total_pim_requests c + 1 \<and> pc_total_normal_requests c' = pc_total_normal_requests c \<and>
    getCurrentQueueDepth (pc_tracker c') (pp_granularity p) (pp_target_bank p) = getCurrentQueueDepth (pc_tracker c) (pp_granularity p) (pp_target_bank p) + 1 \<and>
    unat port = max 1 (nat \<lceil>port_time (pc_tracker c) (pp_granularity p) (pp_target_bank p) (pp_data_bytes p)\<rceil>) \<and>
    pp_network_cycles p' = pp_network_cycles p + sum_list (map (transfer_price m d) (needed p)) \<and>
    pp_data_movement_cycles p' = port + pp_network_cycles p' \<and>
    balance e = (case balance d of (s, b, k, q) \<Rightarrow> (s + of_nat (length (needed p)), b + sum_list (map it_transfer_bytes (needed p)),
      k + of_nat (length (needed p)), q + repeat_mset (length (needed p)) (callback_of p)))"
proof -
  obtain lat t where r: "requestBandwidth p (pp_data_bytes p) (pc_tracker c) = (lat, t)" by fastforce
  let ?c = "c\<lparr>pc_total_pim_requests := pc_total_pim_requests c + 1, pc_tracker := t\<rparr>" and ?p = "p\<lparr>pp_data_movement_cycles := lat\<rparr>"
  have cb: "callback_of ?p = callback_of p" by (simp add: callback_of_def)
  have port: "unat lat = max 1 (nat \<lceil>port_time (pc_tracker c) (pp_granularity p) (pp_target_bank p) (pp_data_bytes p)\<rceil>)"
    using request_cycles [OF assms(6)] r by simp
  have depth: "getCurrentQueueDepth t (pp_granularity p) (pp_target_bank p) = getCurrentQueueDepth (pc_tracker c) (pp_granularity p) (pp_target_bank p) + 1"
    using depth_request [of p "pp_data_bytes p" "pc_tracker c" "pp_granularity p" "pp_target_bank p"] r by (simp add: port_of_def)
  obtain e where e: "(if requiresInternalNetwork p then handle_transfers m (pp_internal_transfers p) (?c, ?p) else Some (?c, ?p)) =
      Some (?c\<lparr>pc_network := Some e\<rparr>, ?p\<lparr>pp_network_cycles := pp_network_cycles p + sum_list (map (transfer_price m d) (needed p))\<rparr>)"
    and b: "balance e = (case balance d of (s, b, k, q) \<Rightarrow> (s + of_nat (length (needed p)), b + sum_list (map it_transfer_bytes (needed p)),
      k + of_nat (length (needed p)), q + repeat_mset (length (needed p)) (callback_of p)))"
  proof (cases "requiresInternalNetwork p")
    case True
    then show thesis using transfers_sent [of ?c d m "pp_internal_transfers p" ?p] assms(1,2,3) that by (auto simp: needed_def cb Let_def)
  next
    case False
    have "?c\<lparr>pc_network := Some d\<rparr> = ?c" using assms(1) by (cases c) simp
    then show thesis using that [of d] False by (simp add: needed_def split: prod.split)
  qed
  let ?q = "?p\<lparr>pp_network_cycles := pp_network_cycles p + sum_list (map (transfer_price m d) (needed p))\<rparr>"
  have "pc_update m True (Some p) c =
      Some (?c\<lparr>pc_network := Some e\<rparr>, Some (?q\<lparr>pp_data_movement_cycles := pp_data_movement_cycles ?q + pp_network_cycles ?q\<rparr>))"
    using assms(4,5) by (simp add: pc_update_def r e)
  moreover have "pp_data_movement_cycles ?q = lat" by simp
  ultimately show ?thesis using depth b port
    by (intro exI [where x = "?c\<lparr>pc_network := Some e\<rparr>"] exI [where x = "?q\<lparr>pp_data_movement_cycles := pp_data_movement_cycles ?q + pp_network_cycles ?q\<rparr>"]
        exI [where x = e] exI [where x = lat] conjI) simp_all
qed

definition sample_transfer :: InternalDRAMTransfer where
  "sample_transfer = \<lparr>it_source_bank = 5, it_dest_bank = 9, it_source_subarray = 0, it_dest_subarray = 0, it_source_bank_group = 1, it_dest_bank_group = 2,
     it_source_chip = 0, it_dest_chip = 0, it_transfer_bytes = 64, it_network_latency = 0, it_locality = REMOTE_SAME_CHIP, it_requires_network = True\<rparr>"

definition sample_gather :: PIMRequestPayload where
  "sample_gather = PIMRequestPayload_init\<lparr>pp_granularity := BANK, pp_operation := PIM_GATHER, pp_target_bank := 9,
     pp_internal_transfers := [sample_transfer], pp_completion_callback := Some 3\<rparr>"

text \<open>The plugin after \<^verbatim>\<open>initialize\<close> for the DDR4 part: the bank port has eight bits at 1.2 GHz, so that 64 bytes take 64 cycles.\<close>

definition sample_plugin :: PIMControllerPlugin where
  "sample_plugin = (PIMControllerPlugin_init (Some sample_arch) ''DDR4'')\<lparr>pc_tracker := ddr4_tracker, pc_network := Some sample_dn\<rparr>"

lemma sample_plugin_initialized: "pc_initialize 4800 1 2 4 16 16 (PIMControllerPlugin_init (Some sample_arch) ''DDR4'') =
    Some (Inr sample_plugin)"
  by (simp add: pc_initialize_def sample_plugin_def PIMControllerPlugin_init_def ddr4_tracker_def bt_initialize_def PIMBandwidthTracker_init_def
      bt_resetStats_def initializeBandwidthLimits_def createInternalDRAMNetwork_def sample_dn_def sample_arch_def sdiv_nonneg Let_def)

lemma sample_port:
  "getEffectiveBandwidthPerPE ddr4_tracker BANK i = d_div 1200 1000" "port_time ddr4_tracker BANK i 64 = 64"
proof -
  show bw: "getEffectiveBandwidthPerPE ddr4_tracker BANK i = d_div 1200 1000"
    by (simp add: getEffectiveBandwidthPerPE_def getConcurrentPEs_def ddr4_tracker_fields smap_find_def Let_def calculateBandwidth_def) code_simp
  have "d_mul (d_div (d_of_u64 64) (d_div 1200 1000)) (d_div 1200 1000) = 64" by code_simp
  then show "port_time ddr4_tracker BANK i 64 = 64" by (simp add: port_time_def bw ddr4_tracker_fields)
qed

theorem update_prices_transfers_witness:
  "pc_initialize 4800 1 2 4 16 16 (PIMControllerPlugin_init (Some sample_arch) ''DDR4'') = Some (Inr sample_plugin) \<and>
   (\<exists>c' p' e. pc_update sample_libm True (Some (sample_gather\<lparr>pp_data_bytes := 64\<rparr>)) sample_plugin = Some (c', Some p') \<and>
     pc_network c' = Some e \<and> dn_total_packets_sent e = 1 \<and> pp_network_cycles p' = getTransferLatency sample_libm sample_dn BANK_NETWORK 64 \<and>
     pp_data_movement_cycles p' = 64 + pp_network_cycles p')"
proof -
  let ?p = "sample_gather\<lparr>pp_data_bytes := 64\<rparr>"
  have c: "pc_network sample_plugin = Some sample_dn" "pc_tracker sample_plugin = ddr4_tracker" by (simp_all add: sample_plugin_def)
  have op: "pp_operation ?p \<noteq> NORMAL_READ" "pp_operation ?p \<noteq> NORMAL_WRITE" by (simp_all add: sample_gather_def)
  have at: "pp_granularity ?p = BANK" "pp_target_bank ?p = 9" "pp_data_bytes ?p = 64" by (simp_all add: sample_gather_def)
  have "0 < d_div 1200 1000" by code_simp
  then have priced: "port_priced (pc_tracker sample_plugin) (pp_granularity ?p) (pp_target_bank ?p) (pp_data_bytes ?p)"
    unfolding at c(2) port_priced_def sample_port ddr4_tracker_fields by simp
  have need: "needed ?p = [sample_transfer]" "pp_network_cycles ?p = 0"
    by (simp_all add: needed_def sample_gather_def requiresInternalNetwork_def sample_transfer_def PIMRequestPayload_init_def)
  have price: "transfer_price sample_libm sample_dn sample_transfer = getTransferLatency sample_libm sample_dn BANK_NETWORK 64"
    by (simp add: transfer_price_def sample_transfer_def)
  have bal: "fst (balance sample_dn) = 0" by (simp add: balance_def sample_dn_fields)
  have "payload_ok sample_dn 64" unfolding sample_dn_def by (rule timing_initialize(2)) simp_all
  then have pay: "\<forall>t\<in>set (needed ?p). payload_ok sample_dn (it_transfer_bytes t)" by (simp add: need sample_transfer_def)
  from update_prices_transfers [OF c(1) sample_dn_fields(4) sample_dims op priced sample_dn_timing pay, of sample_libm]
  obtain c' p' e port where u: "pc_update sample_libm True (Some ?p) sample_plugin = Some (c', Some p')" "pc_network c' = Some e"
      "unat port = 64" "pp_network_cycles p' = getTransferLatency sample_libm sample_dn BANK_NETWORK 64"
      "pp_data_movement_cycles p' = port + pp_network_cycles p'" "fst (balance e) = fst (balance sample_dn) + 1"
    unfolding need price at c(2) sample_port by (auto simp: price split: prod.splits)
  then have "dn_total_packets_sent e = 1" using bal by (simp add: balance_def)
  moreover have "port = 64" using u(3) by (simp add: word_unat_eq_iff)
  ultimately show ?thesis using u sample_plugin_initialized by blast
qed

text \<open>
  The controller takes a slot of a port for every operation and never gives one back: no operation of it calls \<^verbatim>\<open>completeRequest\<close>. With the default limit, \<^verbatim>\<open>canAcceptRequest\<close>
  is false for the port after 32 operations, and stays false after a reset.
\<close>

lemma slots_never_freed:
  "getCurrentQueueDepth (pc_tracker (pc_registerPE g pe bank c)) = getCurrentQueueDepth (pc_tracker c)"
  "getCurrentQueueDepth (pc_tracker (pc_resetStats c)) = getCurrentQueueDepth (pc_tracker c)"
  "pc_tick c = Some c' \<Longrightarrow> getCurrentQueueDepth (pc_tracker c') = getCurrentQueueDepth (pc_tracker c)"
  by (auto simp: pc_registerPE_def pc_resetStats_def pc_tick_def Let_def split: option.splits)

end
