(* ===== verification/Config_Parser.thy ===== *)
theory Config_Parser
  imports Std_Map Trace_Yaml
begin

text \<open>
  The flat configuration of src/config/config_parser.cpp: a YAML document flattened to a map from
  dotted paths to text, and the map written back as YAML or JSON. The YAML library is outside the
  sources: a loaded document is a tree \<open>YNode\<close>, and what \<^verbatim>\<open>YAML::Load\<close>, \<^verbatim>\<open>YAML::LoadFile\<close>, the emitter and
  \<^verbatim>\<open>as<std::string>\<close> do is an argument.
\<close>

section \<open>Documents\<close>

datatype YNode = YUndefined | YNull | YScalar string | YSequence "YNode list" | YMap "(YNode \<times> YNode) list"

type_synonym config = "(string, string) smap"

text \<open>
  \<^verbatim>\<open>as_string\<close>: a conversion, or the text of the exception it throws. Of every node the code converts
  without a test before, it relies on a scalar giving its text.
\<close>

definition as_string_ok :: "(YNode \<Rightarrow> string + string) \<Rightarrow> bool" where
  "as_string_ok as_string \<longleftrightarrow> (\<forall>s. as_string (YScalar s) = Inr s)"

section \<open>Flattening\<close>

text \<open>The items of a sequence, separated by commas.\<close>

fun seq_text :: "(YNode \<Rightarrow> string + string) \<Rightarrow> YNode list \<Rightarrow> string + string" where
  "seq_text as_string [] = Inr ''''"
| "seq_text as_string (n # ns) =
     (case as_string n of Inl e \<Rightarrow> Inl e
      | Inr t \<Rightarrow> (if ns = [] then Inr t else map_sum id (\<lambda>r. t @ '','' @ r) (seq_text as_string ns)))"

definition join_key :: "string \<Rightarrow> string \<Rightarrow> string" where
  "join_key prefix key = (if prefix = '''' then key else prefix @ ''.'' @ key)"

text \<open>
  \<^verbatim>\<open>parseNode\<close>. The map is filled as the walk goes, so that an exception leaves what was stored before it.
\<close>

fun parseNode :: "(YNode \<Rightarrow> string + string) \<Rightarrow> YNode \<Rightarrow> string \<Rightarrow> config \<Rightarrow> (string + bool) \<times> config"
and parseEntries :: "(YNode \<Rightarrow> string + string) \<Rightarrow> (YNode \<times> YNode) list \<Rightarrow> string \<Rightarrow> config \<Rightarrow> (string + bool) \<times> config" where
  "parseNode as_string YUndefined prefix cfg = (Inr True, cfg)"
| "parseNode as_string YNull prefix cfg = (Inr True, cfg)"
| "parseNode as_string (YScalar s) prefix cfg =
     (case as_string (YScalar s) of Inl e \<Rightarrow> (Inl e, cfg) | Inr t \<Rightarrow> (Inr True, smap_put prefix t cfg))"
| "parseNode as_string (YSequence ns) prefix cfg =
     (case seq_text as_string ns of Inl e \<Rightarrow> (Inl e, cfg) | Inr t \<Rightarrow> (Inr True, smap_put prefix t cfg))"
| "parseNode as_string (YMap es) prefix cfg = parseEntries as_string es prefix cfg"
| "parseEntries as_string [] prefix cfg = (Inr True, cfg)"
| "parseEntries as_string ((k, n) # es) prefix cfg =
     (case as_string k of Inl e \<Rightarrow> (Inl e, cfg)
      | Inr key \<Rightarrow> (case parseNode as_string n (join_key prefix key) cfg of
            (Inl e, cfg') \<Rightarrow> (Inl e, cfg')
          | (Inr ok, cfg') \<Rightarrow> (if \<not> ok then (Inr False, cfg') else parseEntries as_string es prefix cfg')))"

text \<open>An exception of the loader or of the walk is caught and answered with \<^verbatim>\<open>false\<close>.\<close>

definition parse_caught :: "(YNode \<Rightarrow> string + string) \<Rightarrow> string + YNode \<Rightarrow> config \<Rightarrow> bool \<times> config" where
  "parse_caught as_string loaded cfg =
     (case loaded of Inl e \<Rightarrow> (False, cfg)
      | Inr node \<Rightarrow> (case parseNode as_string node '''' cfg of (Inl e, cfg') \<Rightarrow> (False, cfg') | (Inr ok, cfg') \<Rightarrow> (ok, cfg')))"

definition parseFile ::
  "(string \<Rightarrow> string + YNode) \<Rightarrow> (YNode \<Rightarrow> string + string) \<Rightarrow> string \<Rightarrow> config \<Rightarrow> bool \<times> config" where
  "parseFile load_file as_string filename cfg = parse_caught as_string (load_file filename) cfg"

definition parseString ::
  "(string \<Rightarrow> string + YNode) \<Rightarrow> (YNode \<Rightarrow> string + string) \<Rightarrow> string \<Rightarrow> config \<Rightarrow> bool \<times> config" where
  "parseString load as_string yaml_content cfg = parse_caught as_string (load yaml_content) cfg"

section \<open>Writing\<close>

text \<open>\<^verbatim>\<open>find('.')\<close> and the two \<^verbatim>\<open>substr\<close>s: the part before the first dot and the part after it.\<close>

definition top_key :: "string \<Rightarrow> string" where
  "top_key k = takeWhile (\<lambda>c. c \<noteq> CHR ''.'') k"

definition sub_key :: "string \<Rightarrow> string" where
  "sub_key k = tl (dropWhile (\<lambda>c. c \<noteq> CHR ''.'') k)"

text \<open>
  Grouping by the top-level key: where there is no dot, \<open>top_key k\<close> is the whole key and
  \<open>sub_key k\<close> is empty, which is the key the code stores the value under.
\<close>

definition group_step :: "(string, config) smap \<Rightarrow> string \<times> string \<Rightarrow> (string, config) smap" where
  "group_step g = (\<lambda>(k, v).
     smap_put (top_key k) (smap_put (sub_key k) v (case smap_find (top_key k) g of None \<Rightarrow> [] | Some m \<Rightarrow> m)) g)"

definition emit_group :: "string \<times> config \<Rightarrow> YNode \<times> YNode" where
  "emit_group = (\<lambda>(tk, m).
     (YScalar tk, if length m = 1 \<and> fst (hd m) = '''' then YScalar (snd (hd m))
                   else YMap (map (\<lambda>(k, v). (YScalar k, YScalar v)) (filter (\<lambda>(k, v). k \<noteq> '''') m))))"

text \<open>\<^verbatim>\<open>toYAML\<close>: the document handed to the emitter, and its text.\<close>

definition toYAML_doc :: "config \<Rightarrow> YNode" where
  "toYAML_doc cfg = YMap (map emit_group (foldl group_step [] cfg))"

definition toYAML :: "(YNode \<Rightarrow> string) \<Rightarrow> config \<Rightarrow> string" where
  "toYAML emitter cfg = emitter (toYAML_doc cfg)"

definition QUOTE :: char where "QUOTE = CHR 0x22"

fun json_lines :: "bool \<Rightarrow> config \<Rightarrow> string" where
  "json_lines first [] = ''''"
| "json_lines first ((k, v) # cfg) =
     (if first then '''' else '','' @ [NL]) @ ''  '' @ [QUOTE] @ k @ [QUOTE] @ '': '' @ [QUOTE] @ v @ [QUOTE] @ json_lines False cfg"

definition toJSON :: "config \<Rightarrow> string" where
  "toJSON cfg = ''{'' @ [NL] @ json_lines True cfg @ [NL] @ ''}''"

text \<open>Items between commas, as successive \<^verbatim>\<open>std::getline\<close> calls with \<^verbatim>\<open>','\<close> see them.\<close>

function getitems :: "string \<Rightarrow> string list" where
  "getitems s = (if s = [] then [] else takeWhile (\<lambda>c. c \<noteq> CHR '','') s # getitems (tl (dropWhile (\<lambda>c. c \<noteq> CHR '','') s)))"
  by auto
termination
proof (relation "measure length")
  show "(tl (dropWhile (\<lambda>c. c \<noteq> CHR '','') s), s) \<in> measure length" if "s \<noteq> []" for s
    using length_dropWhile_le [of "\<lambda>c. c \<noteq> CHR '',''" s] that by (cases s) auto
qed simp

declare getitems.simps [simp del]

definition is_list_space :: "char \<Rightarrow> bool" where
  "is_list_space c \<longleftrightarrow> c = CHR '' '' \<or> c = TAB \<or> c = NL \<or> c = CHR 0x0D"

text \<open>\<^verbatim>\<open>parseList\<close>: items of white space only are dropped, the others trimmed.\<close>

definition parseList :: "string \<Rightarrow> string list" where
  "parseList s =
     map (\<lambda>item. rev (dropWhile is_list_space (rev (dropWhile is_list_space item))))
       (filter (\<lambda>item. \<exists>c\<in>set item. \<not> is_list_space c) (getitems s))"

section \<open>The walk on flat documents\<close>

lemma top_sub_dot: "CHR ''.'' \<in> set k \<Longrightarrow> k = top_key k @ ''.'' @ sub_key k"
proof (induction k)
  case (Cons c k)
  then show ?case by (cases "c = CHR ''.''") (auto simp: top_key_def sub_key_def)
qed simp

lemma top_sub_plain: "CHR ''.'' \<notin> set k \<Longrightarrow> top_key k = k \<and> sub_key k = []"
proof -
  assume "CHR ''.'' \<notin> set k"
  then have "\<forall>c\<in>set k. c \<noteq> CHR ''.''" by auto
  then show ?thesis by (simp add: top_key_def sub_key_def dropWhile_eq_Nil_conv [THEN iffD2])
qed

text \<open>A key that survives the grouping: neither side of its first dot is empty.\<close>

definition good_key :: "string \<Rightarrow> bool" where
  "good_key k \<longleftrightarrow> top_key k \<noteq> [] \<and> (CHR ''.'' \<in> set k \<longrightarrow> sub_key k \<noteq> [])"

definition flat_key :: "string \<Rightarrow> string \<Rightarrow> string" where
  "flat_key tk sub = (if sub = [] then tk else tk @ ''.'' @ sub)"

lemma flat_top_sub:
  assumes "good_key k"
  shows "flat_key (top_key k) (sub_key k) = k"
proof (cases "CHR ''.'' \<in> set k")
  case True
  then show ?thesis using assms top_sub_dot [OF True, symmetric] by (simp add: good_key_def flat_key_def)
next
  case False
  then show ?thesis by (simp add: flat_key_def top_sub_plain)
qed

definition put_all :: "config \<Rightarrow> (string \<times> string) list \<Rightarrow> config" where
  "put_all cfg es = foldl (\<lambda>c (k, v). smap_put k v c) cfg es"

lemma put_all_ok: "smap_ok cfg \<Longrightarrow> smap_ok (put_all cfg es)"
  unfolding put_all_def by (induction es arbitrary: cfg) (auto simp: smap_ok_put)

lemma put_all_append: "put_all cfg (xs @ ys) = put_all (put_all cfg xs) ys"
  by (simp add: put_all_def)

lemma put_all_find: "smap_find k (put_all cfg es) = (case map_of (rev es) k of Some v \<Rightarrow> Some v | None \<Rightarrow> smap_find k cfg)"
  unfolding put_all_def
  by (induction es arbitrary: cfg) (auto simp: smap_find_put map_add_def split: option.splits)

text \<open>What a group stores.\<close>

definition group_entries :: "string \<times> config \<Rightarrow> (string \<times> string) list" where
  "group_entries = (\<lambda>(tk, m). if length m = 1 \<and> fst (hd m) = '''' then [(tk, snd (hd m))]
     else map (\<lambda>(k, v). (tk @ ''.'' @ k, v)) (filter (\<lambda>(k, v). k \<noteq> '''') m))"

lemma parse_pairs:
  assumes "as_string_ok f" and "prefix \<noteq> []"
  shows "parseEntries f (map (\<lambda>(k, v). (YScalar k, YScalar v)) m) prefix cfg =
    (Inr True, put_all cfg (map (\<lambda>(k, v). (prefix @ ''.'' @ k, v)) m))"
  using assms by (induction m arbitrary: cfg) (auto simp: as_string_ok_def put_all_def join_key_def)

lemma parse_group:
  assumes "as_string_ok f" and "tk \<noteq> []"
  shows "parseNode f (snd (emit_group (tk, m))) tk cfg = (Inr True, put_all cfg (group_entries (tk, m)))"
proof (cases "length m = 1 \<and> fst (hd m) = ''''")
  case True
  then show ?thesis using assms by (simp add: emit_group_def group_entries_def put_all_def as_string_ok_def)
next
  case False
  then show ?thesis using parse_pairs [OF assms] by (auto simp: emit_group_def group_entries_def)
qed

lemma parse_groups:
  assumes "as_string_ok f" and "\<forall>e\<in>set g. fst e \<noteq> []"
  shows "parseEntries f (map emit_group g) '''' cfg = (Inr True, put_all cfg (concat (map group_entries g)))"
  using assms(2)
proof (induction g arbitrary: cfg)
  case (Cons e g)
  obtain tk m where e: "e = (tk, m)" by fastforce
  have k: "emit_group e = (YScalar tk, snd (emit_group (tk, m)))" by (simp add: e emit_group_def)
  have "parseNode f (snd (emit_group (tk, m))) tk cfg = (Inr True, put_all cfg (group_entries e))"
    using parse_group [OF assms(1)] Cons.prems e by simp
  then show ?case using Cons assms(1) e
    by (subst list.map, subst k) (simp add: as_string_ok_def join_key_def put_all_append)
qed (simp add: put_all_def)

section \<open>The grouping\<close>

definition lookup2 :: "(string, config) smap \<Rightarrow> string \<Rightarrow> string \<Rightarrow> string option" where
  "lookup2 g t s = (case smap_find t g of None \<Rightarrow> None | Some m \<Rightarrow> smap_find s m)"

definition groups_ok :: "(string, config) smap \<Rightarrow> bool" where
  "groups_ok g \<longleftrightarrow> smap_ok g \<and> (\<forall>(t, m)\<in>set g. smap_ok m \<and> m \<noteq> [])"

lemma smap_put_set: "smap_ok m \<Longrightarrow> set (smap_put k v m) = insert (k, v) {e \<in> set m. fst e \<noteq> k}"
  by (induction k v m rule: smap_put.induct) (auto simp: smap_ok_def)

lemma group_step_ok: "groups_ok g \<Longrightarrow> groups_ok (group_step g e)"
proof -
  assume g: "groups_ok g"
  obtain k v where e: "e = (k, v)" by fastforce
  let ?m = "case smap_find (top_key k) g of None \<Rightarrow> [] | Some m \<Rightarrow> m"
  have "smap_ok ?m"
    using g by (auto simp: groups_ok_def smap_find_entry split: option.split)
  moreover have "smap_put s x m \<noteq> []" for s x and m :: config by (cases m) (auto split: if_splits)
  ultimately show ?thesis using g by (auto simp: groups_ok_def group_step_def e smap_put_set smap_ok_put)
qed

lemma lookup2_step: "lookup2 (group_step g (k, v)) t s = (if t = top_key k \<and> s = sub_key k then Some v else lookup2 g t s)"
  by (auto simp: lookup2_def group_step_def smap_find_put split: option.split)

lemma group_fold_ok: "groups_ok g \<Longrightarrow> groups_ok (foldl group_step g es)"
  by (induction es arbitrary: g) (simp_all add: group_step_ok)

lemma group_fold_keeps: "lookup2 g t s \<noteq> None \<Longrightarrow> lookup2 (foldl group_step g es) t s \<noteq> None"
proof (induction es arbitrary: g)
  case (Cons e es)
  then show ?case by (cases e) (simp add: lookup2_step)
qed simp

lemma group_fold_from:
  "lookup2 (foldl group_step g es) t s = Some v \<Longrightarrow> lookup2 g t s = Some v \<or> (\<exists>k. (k, v) \<in> set es \<and> t = top_key k \<and> s = sub_key k)"
proof (induction es arbitrary: g)
  case (Cons e es)
  obtain k x where e: "e = (k, x)" by fastforce
  then show ?case using Cons.IH [of "group_step g e"] Cons.prems by (auto simp: lookup2_step split: if_splits)
qed simp

lemma group_fold_all: "(k, v) \<in> set es \<Longrightarrow> lookup2 (foldl group_step g es) (top_key k) (sub_key k) \<noteq> None"
proof (induction es arbitrary: g)
  case (Cons e es)
  show ?case
  proof (cases "e = (k, v)")
    case True
    then show ?thesis using group_fold_keeps [of "group_step g e" "top_key k" "sub_key k" es] by (simp add: lookup2_step)
  next
    case False
    then show ?thesis using Cons by simp
  qed
qed simp

text \<open>Keys that do not stand in each other's way: none is another's top-level key.\<close>

definition separate :: "string set \<Rightarrow> bool" where
  "separate ks \<longleftrightarrow> (\<forall>k\<in>ks. good_key k \<and> (\<forall>k'\<in>ks. CHR ''.'' \<in> set k' \<longrightarrow> top_key k' \<noteq> k))"

lemma groups_lookup:
  assumes "smap_ok cfg" and "separate (fst ` set cfg)"
  shows "groups_ok (foldl group_step [] cfg)"
    and "lookup2 (foldl group_step [] cfg) t s = Some v \<longleftrightarrow> (\<exists>k. (k, v) \<in> set cfg \<and> t = top_key k \<and> s = sub_key k)"
proof -
  let ?g = "foldl group_step [] cfg"
  have ok: "groups_ok []" by (simp add: groups_ok_def)
  show "groups_ok ?g" by (rule group_fold_ok [OF ok])
  have from_g: "lookup2 ?g t s = Some v \<Longrightarrow> \<exists>k. (k, v) \<in> set cfg \<and> t = top_key k \<and> s = sub_key k" for t s v
    using group_fold_from [of "[]" cfg t s v] by (auto simp: lookup2_def)
  moreover have "lookup2 ?g (top_key k) (sub_key k) = Some v" if k: "(k, v) \<in> set cfg" for k v
  proof -
    obtain v' where v': "lookup2 ?g (top_key k) (sub_key k) = Some v'" using group_fold_all [OF k, of "[]"] by blast
    from from_g [OF this] obtain k' where k': "(k', v') \<in> set cfg" "top_key k = top_key k'" "sub_key k = sub_key k'" by blast
    have "good_key k" "good_key k'" using k k'(1) assms(2) by (force simp: separate_def)+
    then have "k = k'" using flat_top_sub [of k] flat_top_sub [of k'] k' by metis
    then show ?thesis using v' k k'(1) assms(1) by (metis option.inject smap_find_entry)
  qed
  ultimately show "lookup2 ?g t s = Some v \<longleftrightarrow> (\<exists>k. (k, v) \<in> set cfg \<and> t = top_key k \<and> s = sub_key k)" by blast
qed

lemma single_entry: "smap_ok m \<Longrightarrow> m \<noteq> [] \<Longrightarrow> fst ` set m \<subseteq> {k} \<Longrightarrow> \<exists>v. m = [(k, v)]"
proof -
  assume m: "smap_ok m" "m \<noteq> []" "fst ` set m \<subseteq> {k}"
  then obtain a v m' where c: "m = (a, v) # m'" by (cases m) auto
  with m have "a = k" by auto
  moreover have "m' = []"
  proof (cases m')
    case (Cons b m'')
    with m c show ?thesis by (auto simp: smap_ok_def)
  qed
  ultimately show ?thesis using c by blast
qed

text \<open>What the document of a separate map stores is the map.\<close>

lemma group_entries_set:
  assumes "smap_ok cfg" and "separate (fst ` set cfg)"
  shows "set (concat (map group_entries (foldl group_step [] cfg))) = set cfg"
proof -
  let ?g = "foldl group_step [] cfg"
  note L = groups_lookup [OF assms]
  have entry: "lookup2 ?g t s = Some v \<longleftrightarrow> (s, v) \<in> set m" if "(t, m) \<in> set ?g" for t m s v
  proof -
    have "smap_find t ?g = Some m" "smap_ok m" using that L(1) by (auto simp: groups_ok_def smap_find_entry)
    then show ?thesis by (simp add: lookup2_def smap_find_entry)
  qed
  have one: "(k, v) \<in> set (group_entries (t, m)) \<longleftrightarrow> (\<exists>s. (s, v) \<in> set m \<and> k = flat_key t s)" if tm: "(t, m) \<in> set ?g" for t m k v
  proof (cases "[] \<in> fst ` set m")
    case True
    then obtain x where x: "([], x) \<in> set m" by auto
    have "s = []" if sy: "(s, y) \<in> set m" for s y
    proof (rule ccontr)
      assume s: "s \<noteq> []"
      obtain k1 where k1: "(k1, x) \<in> set cfg" "t = top_key k1" "[] = sub_key k1"
        using entry [OF tm, of "[]" x] x L(2) [of t "[]" x] by auto
      obtain k2 where k2: "(k2, y) \<in> set cfg" "t = top_key k2" "s = sub_key k2"
        using entry [OF tm, of s y] sy L(2) [of t s y] by auto
      have "good_key k1" using k1 assms(2) by (force simp: separate_def)
      then have "k1 = t" using flat_top_sub [of k1] k1 by (simp add: flat_key_def)
      moreover have "CHR ''.'' \<in> set k2" using s k2 top_sub_plain [of k2] by auto
      ultimately show False using assms(2) k1 k2 by (force simp: separate_def)
    qed
    then have "fst ` set m \<subseteq> {[]}" by auto
    moreover have "smap_ok m" "m \<noteq> []" using tm L(1) by (auto simp: groups_ok_def)
    ultimately obtain y where "m = [([], y)]" using single_entry by blast
    then show ?thesis by (auto simp: group_entries_def flat_key_def)
  next
    case False
    then have ne: "(s, y) \<in> set m \<Longrightarrow> s \<noteq> []" for s y by force
    have "\<not> (length m = 1 \<and> fst (hd m) = [])" using False by (cases m) auto
    then show ?thesis using ne by (auto simp: group_entries_def flat_key_def)
  qed
  have "(k, v) \<in> set (concat (map group_entries ?g)) \<longleftrightarrow> (\<exists>t s. lookup2 ?g t s = Some v \<and> k = flat_key t s)" for k v
  proof -
    have "lookup2 ?g t s = Some v \<longleftrightarrow> (\<exists>m. (t, m) \<in> set ?g \<and> (s, v) \<in> set m)" for t s
    proof
      assume f: "lookup2 ?g t s = Some v"
      then obtain m where m: "smap_find t ?g = Some m" by (auto simp: lookup2_def split: option.splits)
      then have "(t, m) \<in> set ?g" using L(1) by (simp add: groups_ok_def smap_find_entry)
      with f entry show "\<exists>m. (t, m) \<in> set ?g \<and> (s, v) \<in> set m" by blast
    next
      assume "\<exists>m. (t, m) \<in> set ?g \<and> (s, v) \<in> set m"
      with entry show "lookup2 ?g t s = Some v" by blast
    qed
    moreover have "(k, v) \<in> set (concat (map group_entries ?g)) \<longleftrightarrow> (\<exists>t m. (t, m) \<in> set ?g \<and> (k, v) \<in> set (group_entries (t, m)))"
      by (simp add: Bex_def)
    ultimately show ?thesis using one [where k = k and v = v] by metis
  qed
  moreover have "(\<exists>t s. lookup2 ?g t s = Some v \<and> k = flat_key t s) \<longleftrightarrow> (k, v) \<in> set cfg" for k v
    unfolding L(2) using flat_top_sub assms(2) by (force simp: separate_def)
  ultimately show ?thesis by auto
qed

lemma map_of_functional: "(\<And>v v'. (k, v) \<in> set es \<Longrightarrow> (k, v') \<in> set es \<Longrightarrow> v = v') \<Longrightarrow> map_of es k = Some v \<longleftrightarrow> (k, v) \<in> set es"
  by (metis map_of_SomeD weak_map_of_SomeI)

section \<open>Properties\<close>

text \<open>
  C23: Round trip of \<^verbatim>\<open>toYAML\<close>: the text it writes, parsed into an empty map, gives the map back, whatever
  the number of dots in the keys, as long as no side of a key's first dot is empty and no key is
  the top-level part of another; the YAML library is only assumed to load what it emitted.
\<close>

theorem toYAML_roundtrip:
  assumes "as_string_ok as_string" and "load (emitter (toYAML_doc cfg)) = Inr (toYAML_doc cfg)"
    and "smap_ok cfg" and "separate (fst ` set cfg)"
  shows "parseString load as_string (toYAML emitter cfg) [] = (True, cfg)"
proof -
  let ?g = "foldl group_step [] cfg" and ?es = "concat (map group_entries (foldl group_step [] cfg))"
  have L: "groups_ok ?g" "set ?es = set cfg" using groups_lookup(1) group_entries_set assms(3,4) by blast+
  have "fst e \<noteq> []" if e: "e \<in> set ?g" for e
  proof -
    obtain t m where tm: "e = (t, m)" "m \<noteq> []" "smap_find t ?g = Some m" "smap_ok m"
      using e L(1) by (cases e) (auto simp: groups_ok_def smap_find_entry)
    then obtain s v where "(s, v) \<in> set m" by (cases m) auto
    then have "lookup2 ?g t s = Some v" using tm by (simp add: lookup2_def smap_find_entry)
    then obtain k where "(k, v) \<in> set cfg" "t = top_key k" using groups_lookup(2) [OF assms(3,4)] by auto
    then show ?thesis using assms(4) tm(1) by (force simp: separate_def good_key_def)
  qed
  then have parse: "parseNode as_string (toYAML_doc cfg) '''' [] = (Inr True, put_all [] ?es)"
    using parse_groups [OF assms(1), of ?g "[]"] by (simp add: toYAML_doc_def)
  have "smap_find k (put_all [] ?es) = smap_find k cfg" for k
  proof -
    have fn: "v = v'" if "(k, v) \<in> set cfg" "(k, v') \<in> set cfg" for v v'
      using that smap_find_entry [OF assms(3), of k] by (metis option.inject)
    have "map_of (rev ?es) k = Some v \<longleftrightarrow> (k, v) \<in> set cfg" for v
      using map_of_functional [of k "rev ?es" v] fn L(2) unfolding set_rev by blast
    then have "map_of (rev ?es) k = smap_find k cfg" using smap_find_entry [OF assms(3), of k] by (metis not_None_eq)
    then show ?thesis by (simp add: put_all_find split: option.split)
  qed
  then have "sm.same (put_all [] ?es) cfg" by (simp add: sm.same_def)
  then have "put_all [] ?es = cfg" by (rule sm.entries_unique [OF put_all_ok [OF smap_ok_Nil] assms(3)])
  with parse show ?thesis by (simp add: parseString_def toYAML_def parse_caught_def assms(2))
qed

definition sample_flat :: config where
  "sample_flat = [(''host.cores'', ''4''), (''host.l2.size'', ''1M''), (''seed'', ''7'')]"

text \<open>A library that emits and loads the one document.\<close>

theorem toYAML_roundtrip_witness:
  "parseString (\<lambda>_. Inr (toYAML_doc sample_flat)) (\<lambda>n. case n of YScalar s \<Rightarrow> Inr s | _ \<Rightarrow> Inl ''bad conversion'')
     (toYAML (\<lambda>_. ''doc'') sample_flat) [] = (True, sample_flat)"
proof (rule toYAML_roundtrip)
  show "as_string_ok (\<lambda>n. case n of YScalar s \<Rightarrow> Inr s | _ \<Rightarrow> Inl ''bad conversion'')" by (simp add: as_string_ok_def)
  show "smap_ok sample_flat" by (simp add: smap_ok_def sample_flat_def less_char_def)
  show "separate (fst ` set sample_flat)" by (simp add: separate_def sample_flat_def good_key_def top_key_def sub_key_def)
qed simp

text \<open>
  A key that is also the top-level part of another is lost: of the map with \<^verbatim>\<open>a\<close> and \<^verbatim>\<open>a.b\<close>, \<^verbatim>\<open>toYAML\<close>
  writes only \<^verbatim>\<open>a.b\<close>.
\<close>

theorem toYAML_drops_parent:
  "toYAML_doc [(''a'', ''1''), (''a.b'', ''2'')] = YMap [(YScalar ''a'', YMap [(YScalar ''b'', YScalar ''2'')])]
     \<and> parseNode (\<lambda>n. case n of YScalar s \<Rightarrow> Inr s | _ \<Rightarrow> Inl '''') (toYAML_doc [(''a'', ''1''), (''a.b'', ''2'')]) '''' []
         = (Inr True, [(''a.b'', ''2'')])"
  by (simp add: toYAML_doc_def group_step_def emit_group_def smap_find_def top_key_def sub_key_def join_key_def)

end
