(* ===== verification/Network_Config.thy ===== *)
theory Network_Config
  imports Mem_Build Config_Parser
begin

text \<open>
  The parser of network settings, src/config/network_config_parser.cpp: custom switch hierarchies, external models, and the network on
  chip. The YAML library is an argument: loading a file, subscripting a node with a key (an undefined node, where there is no such
  key) and the conversions, each with its exceptions. A \<^verbatim>\<open>runtime_error\<close> is \<open>Runtime\<close>, an exception of the library \<open>Yaml\<close>.
\<close>

section \<open>Reading nodes\<close>

record yaml =
  y_load_file :: "string \<Rightarrow> string + YNode"
  y_get :: "YNode \<Rightarrow> string \<Rightarrow> string + YNode"
  y_bool :: "YNode \<Rightarrow> string + bool"
  y_int :: "YNode \<Rightarrow> string + int"
  y_u32 :: "YNode \<Rightarrow> string + u32"
  y_string :: "YNode \<Rightarrow> string + string"

datatype config_error = Runtime string | Yaml string

definition andThen :: "'e + 'a \<Rightarrow> ('a \<Rightarrow> 'e + 'b) \<Rightarrow> 'e + 'b" where
  "andThen x f = (case x of Inl e \<Rightarrow> Inl e | Inr a \<Rightarrow> f a)"

lemma andThen_simps [simp]: "andThen (Inl e) f = Inl e" "andThen (Inr a) f = f a"
  by (simp_all add: andThen_def)

definition yaml_get :: "yaml \<Rightarrow> YNode \<Rightarrow> string \<Rightarrow> config_error + YNode" where
  "yaml_get y n key = map_sum Yaml id (y_get y n key)"

text \<open>A value that may be absent, and one that is required.\<close>

definition optional :: "yaml \<Rightarrow> YNode \<Rightarrow> string \<Rightarrow> (YNode \<Rightarrow> string + 'a) \<Rightarrow> 'a \<Rightarrow> config_error + 'a" where
  "optional y n key conv d = andThen (yaml_get y n key) (\<lambda>v. if v = YUndefined then Inr d else map_sum Yaml id (conv v))"

definition required :: "yaml \<Rightarrow> YNode \<Rightarrow> string \<Rightarrow> (YNode \<Rightarrow> string + 'a) \<Rightarrow> string \<Rightarrow> config_error + 'a" where
  "required y n key conv msg = andThen (yaml_get y n key) (\<lambda>v. if v = YUndefined then Inl (Runtime msg) else map_sum Yaml id (conv v))"

section \<open>Switch hierarchies\<close>

definition topology_types :: "(string \<times> TopologyType) list" where
  "topology_types = [(''BUS'', TT_BUS), (''CROSSBAR'', TT_CROSSBAR), (''MESH_2D'', TT_MESH_2D), (''TORUS_2D'', TT_TORUS_2D),
     (''FAT_TREE'', TT_FAT_TREE), (''H_TREE'', TT_H_TREE), (''CUSTOM'', TT_CUSTOM)]"

definition parseTopologyType :: "string \<Rightarrow> config_error + TopologyType" where
  "parseTopologyType s = (case map_of topology_types s of Some t \<Rightarrow> Inr t | None \<Rightarrow> Inl (Runtime (''Unknown topology type: '' @ s)))"

definition parseNetworkLevel :: "yaml \<Rightarrow> YNode \<Rightarrow> int \<Rightarrow> config_error + NetworkLevelConfig" where
  "parseNetworkLevel y node level =
     (let config = NetworkLevelConfig_init\<lparr>nl_level := level\<rparr>
      in if node = YUndefined then Inr (config\<lparr>nl_use_default := True\<rparr>)
         else andThen (optional y node ''use_default'' (y_bool y) False) (\<lambda>use_default.
           if use_default then Inr (config\<lparr>nl_use_default := True\<rparr>)
           else andThen (required y node ''topology'' (y_string y) ''Topology type required when use_default is false'') (\<lambda>s.
             andThen (parseTopologyType s) (\<lambda>t.
             andThen (required y node ''num_switches'' (y_int y) ''num_switches required when use_default is false'') (\<lambda>switches.
             andThen (required y node ''ports_per_switch'' (y_int y) ''ports_per_switch required when use_default is false'') (\<lambda>ports.
             andThen (required y node ''num_endpoints'' (y_int y) ''num_endpoints required when use_default is false'') (\<lambda>endpoints.
               Inr (config\<lparr>nl_use_default := False, nl_topology := t, nl_num_switches := switches, nl_ports_per_switch := ports,
                 nl_num_endpoints := endpoints\<rparr>))))))))"

definition named_keys :: "MemoryTechnology \<Rightarrow> string list" where
  "named_keys t =
     (if isHBM t then [''subarray'', ''bank'', ''bank_group'', ''die_layer'', ''logic_die'', ''channel'', ''system'']
      else [''subarray'', ''bank'', ''bank_group'', ''chip'', ''rank'', ''channel'', ''system''])"

definition legacy_keys :: "string list" where
  "legacy_keys = [''l0'', ''l1'', ''l2'', ''l3'', ''l4'', ''l5'']"

text \<open>The level under its name, then under its old key, then by default.\<close>

definition parse_level :: "yaml \<Rightarrow> YNode \<Rightarrow> MemoryTechnology \<Rightarrow> NetworkLevelConfig \<Rightarrow> nat \<Rightarrow> config_error + NetworkLevelConfig" where
  "parse_level y node t l i =
     andThen (yaml_get y node (named_keys t ! i)) (\<lambda>n.
       if n \<noteq> YUndefined then parseNetworkLevel y n (int i)
       else if 1 \<le> i \<and> i \<le> 6
       then andThen (yaml_get y node (legacy_keys ! (i - 1))) (\<lambda>n.
         if n \<noteq> YUndefined then parseNetworkLevel y n (int i) else Inr (l\<lparr>nl_level := int i, nl_use_default := True\<rparr>))
       else Inr (l\<lparr>nl_level := int i, nl_use_default := True\<rparr>))"

definition parseCustomTopology :: "yaml \<Rightarrow> YNode \<Rightarrow> int \<Rightarrow> int \<Rightarrow> string \<Rightarrow> config_error + SwitchHierarchyConfig" where
  "parseCustomTopology y node channels ranks dram_type =
     (let t = parseMemoryTechnology dram_type;
          config = SwitchHierarchyConfig_init\<lparr>sh_num_channels := channels, sh_ranks_per_channel := ranks, sh_technology := t\<rparr>
      in if node = YUndefined then Inr (config\<lparr>sh_levels := map (\<lambda>l. l\<lparr>nl_use_default := True\<rparr>) (sh_levels config)\<rparr>)
         else map_sum id (\<lambda>ls. config\<lparr>sh_levels := ls\<rparr>)
           (collect (map (\<lambda>i. parse_level y node t (sh_levels config ! i) i) [0..<NUM_HIERARCHY_LEVELS])))"

definition level_valid :: "NetworkLevelConfig \<Rightarrow> int \<Rightarrow> bool" where
  "level_valid l expected \<longleftrightarrow>
     (if nl_use_default l then True
      else if nl_num_switches l \<le> 0 \<or> nl_ports_per_switch l \<le> 0 \<or> nl_num_endpoints l \<le> 0 then False
      else nl_num_endpoints l = expected)"

definition validateTopologyConfig :: "SwitchHierarchyConfig \<Rightarrow> int \<Rightarrow> int \<Rightarrow> int \<Rightarrow> int \<Rightarrow> int \<Rightarrow> int \<Rightarrow> bool" where
  "validateTopologyConfig c subarrays banks bgs chips ranks channels =
     list_all (\<lambda>(l, e). level_valid l e) (zip (sh_levels c) [subarrays, banks, bgs, chips, ranks, channels, 1])"

section \<open>External models and the file\<close>

record ExternalModelConfig =
  em_enabled :: bool
  em_library_path :: string
  em_model_name :: string
  em_config_file :: string

definition ExternalModelConfig_init :: ExternalModelConfig where
  "ExternalModelConfig_init = \<lparr>em_enabled = False, em_library_path = '''', em_model_name = '''', em_config_file = ''''\<rparr>"

definition parseExternalModel :: "yaml \<Rightarrow> YNode \<Rightarrow> config_error + ExternalModelConfig" where
  "parseExternalModel y node =
     (if node = YUndefined then Inr ExternalModelConfig_init
      else andThen (optional y node ''enabled'' (y_bool y) False) (\<lambda>enabled.
        if \<not> enabled then Inr ExternalModelConfig_init
        else andThen (required y node ''library_path'' (y_string y) ''library_path required when external model is enabled'') (\<lambda>path.
          andThen (required y node ''model_name'' (y_string y) ''model_name required when external model is enabled'') (\<lambda>name.
          andThen (optional y node ''config_file'' (y_string y) '''') (\<lambda>file.
            Inr \<lparr>em_enabled = True, em_library_path = path, em_model_name = name, em_config_file = file\<rparr>)))))"

record NetworkTopologyConfig =
  nt_custom_topology_enabled :: bool
  nt_switch_config :: SwitchHierarchyConfig
  nt_network_model :: ExternalModelConfig
  nt_memory_model :: ExternalModelConfig

definition NetworkTopologyConfig_init :: NetworkTopologyConfig where
  "NetworkTopologyConfig_init = \<lparr>nt_custom_topology_enabled = False, nt_switch_config = SwitchHierarchyConfig_init,
     nt_network_model = ExternalModelConfig_init, nt_memory_model = ExternalModelConfig_init\<rparr>"

definition parse_topology_section :: "yaml \<Rightarrow> YNode \<Rightarrow> int \<Rightarrow> int \<Rightarrow> string \<Rightarrow> NetworkTopologyConfig \<Rightarrow> config_error + NetworkTopologyConfig" where
  "parse_topology_section y topo channels ranks dram_type r =
     (if topo = YUndefined then Inr r
      else andThen (optional y topo ''enabled'' (y_bool y) False) (\<lambda>enabled.
        if \<not> enabled then Inr (r\<lparr>nt_custom_topology_enabled := False\<rparr>)
        else map_sum id (\<lambda>c. r\<lparr>nt_custom_topology_enabled := True, nt_switch_config := c\<rparr>) (parseCustomTopology y topo channels ranks dram_type)))"

definition parse_memory :: "yaml \<Rightarrow> YNode \<Rightarrow> NetworkTopologyConfig \<Rightarrow> config_error + NetworkTopologyConfig" where
  "parse_memory y memory r =
     (if memory = YUndefined then Inr r
      else andThen (optional y memory ''channels'' (y_int y) 1) (\<lambda>channels.
        andThen (optional y memory ''ranks_per_channel'' (y_int y) 1) (\<lambda>ranks.
        andThen (optional y memory ''dram_type'' (y_string y) ''DDR4'') (\<lambda>dram_type.
        andThen (yaml_get y memory ''network'') (\<lambda>network.
          if network = YUndefined then Inr r
          else andThen (yaml_get y network ''custom_topology'') (\<lambda>topo. parse_topology_section y topo channels ranks dram_type r))))))"

definition parse_models :: "yaml \<Rightarrow> YNode \<Rightarrow> NetworkTopologyConfig \<Rightarrow> config_error + NetworkTopologyConfig" where
  "parse_models y models r =
     (if models = YUndefined then Inr r
      else andThen (yaml_get y models ''network'') (\<lambda>n.
        andThen (if n = YUndefined then Inr (nt_network_model r) else parseExternalModel y n) (\<lambda>network.
        andThen (yaml_get y models ''memory'') (\<lambda>n.
        andThen (if n = YUndefined then Inr (nt_memory_model r) else parseExternalModel y n) (\<lambda>memory.
          Inr (r\<lparr>nt_network_model := network, nt_memory_model := memory\<rparr>))))))"

text \<open>Exceptions of the library are turned into errors of the program.\<close>

definition rethrow :: "string \<Rightarrow> config_error + 'a \<Rightarrow> string + 'a" where
  "rethrow msg x = (case x of Inr a \<Rightarrow> Inr a | Inl (Runtime e) \<Rightarrow> Inl e | Inl (Yaml e) \<Rightarrow> Inl (msg @ e))"

definition parseConfigFile :: "yaml \<Rightarrow> string \<Rightarrow> string + NetworkTopologyConfig" where
  "parseConfigFile y config_file =
     rethrow ''YAML parsing error: ''
       (andThen (map_sum Yaml id (y_load_file y config_file)) (\<lambda>config.
        andThen (yaml_get y config ''memory'') (\<lambda>memory.
        andThen (parse_memory y memory NetworkTopologyConfig_init) (\<lambda>r.
        andThen (yaml_get y config ''external_models'') (\<lambda>models. parse_models y models r)))))"

section \<open>The network on chip\<close>

definition noc_topologies :: "(string \<times> NetworkTopology) list" where
  "noc_topologies = [(''MESH_2D'', MESH_2D), (''MESH_3D'', MESH_3D), (''TORUS_2D'', TORUS_2D), (''TORUS_3D'', TORUS_3D),
     (''DRAGONFLY'', DRAGONFLY), (''FAT_TREE'', FAT_TREE), (''H_TREE'', H_TREE), (''CROSSBAR'', CROSSBAR)]"

definition noc_routings :: "(string \<times> RoutingAlgorithm) list" where
  "noc_routings = [(''XY'', XY), (''XYZ'', XYZ), (''ADAPTIVE'', ADAPTIVE), (''WEST_FIRST'', WEST_FIRST), (''NORTH_LAST'', NORTH_LAST),
     (''MINIMAL'', MINIMAL), (''VALIANT'', VALIANT)]"

definition setting :: "yaml \<Rightarrow> YNode \<Rightarrow> string \<Rightarrow> (YNode \<Rightarrow> string + 'a) \<Rightarrow> ('a \<Rightarrow> NetworkConfig \<Rightarrow> NetworkConfig) \<Rightarrow> NetworkConfig \<Rightarrow> config_error + NetworkConfig" where
  "setting y node key conv upd c =
     andThen (yaml_get y node key) (\<lambda>n. if n = YUndefined then Inr c else map_sum Yaml (\<lambda>v. upd v c) (conv n))"

fun settings :: "(NetworkConfig \<Rightarrow> config_error + NetworkConfig) list \<Rightarrow> NetworkConfig \<Rightarrow> config_error + NetworkConfig" where
  "settings [] c = Inr c"
| "settings (f # fs) c = andThen (f c) (settings fs)"

definition parseNoCNode :: "yaml \<Rightarrow> YNode \<Rightarrow> config_error + NetworkConfig" where
  "parseNoCNode y node =
     (if node = YUndefined then Inr NetworkConfig_init
      else settings
        [setting y node ''topology'' (y_string y) (\<lambda>s c. case map_of noc_topologies s of Some t \<Rightarrow> c\<lparr>nc_topology := t\<rparr> | None \<Rightarrow> c),
         setting y node ''routing'' (y_string y) (\<lambda>s c. case map_of noc_routings s of Some r \<Rightarrow> c\<lparr>nc_routing := r\<rparr> | None \<Rightarrow> c),
         setting y node ''num_rows'' (y_u32 y) (\<lambda>n c. c\<lparr>nc_num_rows := n\<rparr>),
         setting y node ''num_cols'' (y_u32 y) (\<lambda>n c. c\<lparr>nc_num_cols := n\<rparr>),
         setting y node ''num_layers'' (y_u32 y) (\<lambda>n c. c\<lparr>nc_num_layers := n\<rparr>),
         setting y node ''virtual_channels_per_vn'' (y_u32 y) (\<lambda>n c. c\<lparr>nc_virtual_channels_per_vn := n\<rparr>),
         setting y node ''virtual_networks'' (y_u32 y) (\<lambda>n c. c\<lparr>nc_virtual_networks := n\<rparr>),
         setting y node ''link_width_bytes'' (y_u32 y) (\<lambda>n c. c\<lparr>nc_link_width_bytes := n\<rparr>),
         setting y node ''link_latency'' (y_u32 y) (\<lambda>n c. c\<lparr>nc_link_latency := ucast n\<rparr>),
         setting y node ''router_latency'' (y_u32 y) (\<lambda>n c. c\<lparr>nc_router_latency := ucast n\<rparr>),
         setting y node ''enable_router_bypass'' (y_bool y) (\<lambda>b c. c\<lparr>nc_enable_router_bypass := b\<rparr>),
         setting y node ''input_buffer_depth'' (y_u32 y) (\<lambda>n c. c\<lparr>nc_input_buffer_depth := n\<rparr>),
         setting y node ''output_buffer_depth'' (y_u32 y) (\<lambda>n c. c\<lparr>nc_output_buffer_depth := n\<rparr>),
         setting y node ''garnet_config_path'' (y_string y) (\<lambda>s c. c\<lparr>nc_garnet_config_path := s\<rparr>)]
        NetworkConfig_init)"

definition parseNoCConfig :: "yaml \<Rightarrow> string \<Rightarrow> string + NetworkConfig" where
  "parseNoCConfig y config_file =
     rethrow ''YAML parsing error in NoC config: ''
       (andThen (map_sum Yaml id (y_load_file y config_file)) (\<lambda>config.
        andThen (yaml_get y config ''noc'') (\<lambda>noc. if noc = YUndefined then Inr NetworkConfig_init else parseNoCNode y noc)))"

section \<open>Files\<close>

text \<open>What the program relies on of the library: subscripts of maps, and the conversions of plain scalars.\<close>

definition entry :: "string \<Rightarrow> (YNode \<times> YNode) list \<Rightarrow> YNode" where
  "entry key es = (case map_of es (YScalar key) of None \<Rightarrow> YUndefined | Some n \<Rightarrow> n)"

definition yaml_ok :: "yaml \<Rightarrow> bool" where
  "yaml_ok y \<longleftrightarrow> (\<forall>es key. y_get y (YMap es) key = Inr (entry key es)) \<and> (\<forall>s. y_string y (YScalar s) = Inr s) \<and>
     y_bool y (YScalar ''true'') = Inr True \<and> y_bool y (YScalar ''false'') = Inr False \<and>
     (\<forall>n < 2 ^ 31. y_int y (YScalar (show_nat n)) = Inr (int n)) \<and> (\<forall>n < 2 ^ 32. y_u32 y (YScalar (show_nat n)) = Inr (word_of_nat n))"

lemma yaml_okD:
  assumes "yaml_ok y"
  shows "y_get y (YMap es) key = Inr (entry key es)" and "y_string y (YScalar s) = Inr s"
    and "y_bool y (YScalar ''true'') = Inr True" and "y_bool y (YScalar ''false'') = Inr False"
    and "n < 2 ^ 31 \<Longrightarrow> y_int y (YScalar (show_nat n)) = Inr (int n)" and "n < 2 ^ 32 \<Longrightarrow> y_u32 y (YScalar (show_nat n)) = Inr (word_of_nat n)"
  using assms by (auto simp: yaml_ok_def)

definition flag :: "bool \<Rightarrow> YNode" where
  "flag b = YScalar (if b then ''true'' else ''false'')"

definition amount :: "int \<Rightarrow> YNode" where
  "amount i = YScalar (show_nat (nat i))"

definition fits :: "int \<Rightarrow> bool" where
  "fits i \<longleftrightarrow> 0 \<le> i \<and> i < 2 ^ 31"

lemma y_flag: "yaml_ok y \<Longrightarrow> y_bool y (flag b) = Inr b"
  by (simp add: flag_def yaml_okD)

lemma y_amount: "yaml_ok y \<Longrightarrow> fits i \<Longrightarrow> y_int y (amount i) = Inr i"
  using yaml_okD(5) [of y "nat i"] by (simp add: amount_def fits_def nat_less_iff)

lemma defined [simp]: "flag b \<noteq> YUndefined" "amount i \<noteq> YUndefined"
  by (simp_all add: flag_def amount_def)

definition doc :: "(string \<times> YNode) list \<Rightarrow> YNode" where
  "doc es = YMap (map (map_prod YScalar id) es)"

lemma doc_defined [simp]: "doc es \<noteq> YUndefined"
  by (simp add: doc_def)

lemma y_doc: "yaml_ok y \<Longrightarrow> y_get y (doc es) key = Inr (case map_of es key of None \<Rightarrow> YUndefined | Some n \<Rightarrow> n)"
proof -
  have "map_of (map (map_prod YScalar id) es) (YScalar key) = map_of es key" by (induction es) auto
  then show "yaml_ok y \<Longrightarrow> ?thesis" by (simp add: doc_def yaml_okD entry_def)
qed

lemma read_doc:
  assumes "yaml_ok y"
  shows "yaml_get y (doc es) key = Inr (case map_of es key of None \<Rightarrow> YUndefined | Some n \<Rightarrow> n)"
    and "optional y (doc es) key conv d = (case map_of es key of None \<Rightarrow> Inr d | Some n \<Rightarrow> if n = YUndefined then Inr d else map_sum Yaml id (conv n))"
    and "required y (doc es) key conv msg = (case map_of es key of None \<Rightarrow> Inl (Runtime msg) | Some n \<Rightarrow> if n = YUndefined then Inl (Runtime msg) else map_sum Yaml id (conv n))"
  by (auto simp: yaml_get_def optional_def required_def y_doc [OF assms] split: option.splits)

text \<open>The document of a level, and when a level is one that a document can say.\<close>

fun topology_word :: "TopologyType \<Rightarrow> string" where
  "topology_word TT_BUS = ''BUS''"
| "topology_word TT_CROSSBAR = ''CROSSBAR''"
| "topology_word TT_MESH_2D = ''MESH_2D''"
| "topology_word TT_TORUS_2D = ''TORUS_2D''"
| "topology_word TT_FAT_TREE = ''FAT_TREE''"
| "topology_word TT_H_TREE = ''H_TREE''"
| "topology_word TT_CUSTOM = ''CUSTOM''"

lemma parseTopologyType_word: "parseTopologyType (topology_word t) = Inr t"
  by (cases t) (simp_all add: parseTopologyType_def topology_types_def)

definition level_doc :: "NetworkLevelConfig \<Rightarrow> YNode" where
  "level_doc l =
     (if nl_use_default l then doc [(''use_default'', flag True)]
      else doc [(''topology'', YScalar (topology_word (nl_topology l))), (''num_switches'', amount (nl_num_switches l)),
        (''ports_per_switch'', amount (nl_ports_per_switch l)), (''num_endpoints'', amount (nl_num_endpoints l))])"

definition level_ok :: "nat \<Rightarrow> NetworkLevelConfig \<Rightarrow> bool" where
  "level_ok i l \<longleftrightarrow> nl_level l = int i \<and> nl_model l = NM_SIMPLE \<and>
     (if nl_use_default l then l = NetworkLevelConfig_init\<lparr>nl_level := int i\<rparr>
      else fits (nl_num_switches l) \<and> fits (nl_ports_per_switch l) \<and> fits (nl_num_endpoints l))"

lemma level_doc_defined [simp]: "level_doc l \<noteq> YUndefined"
  by (simp add: level_doc_def)

lemma parse_level_doc: "yaml_ok y \<Longrightarrow> level_ok i l \<Longrightarrow> parseNetworkLevel y (level_doc l) (int i) = Inr l"
  by (cases "nl_use_default l"; cases l)
    (simp_all add: parseNetworkLevel_def level_doc_def level_ok_def read_doc y_flag y_amount yaml_okD parseTopologyType_word NetworkLevelConfig_init_def Let_def)

definition topology_doc :: "string list \<Rightarrow> NetworkLevelConfig list \<Rightarrow> YNode" where
  "topology_doc keys ls = doc ((''enabled'', flag True) # zip keys (map level_doc ls))"

lemma named_keys_distinct: "distinct (''enabled'' # legacy_keys @ named_keys t)" and named_keys_length: "length (named_keys t) = 7"
  by (simp_all add: named_keys_def legacy_keys_def)

lemma map_of_keys:
  assumes "distinct (e # ks)" and "length ks = length vs" and "i < length ks"
  shows "map_of ((e, v) # zip ks vs) (ks ! i) = Some (vs ! i)"
  using assms by (auto simp: map_of_zip_nth)

lemma collect_levels:
  assumes "\<And>i. i < n \<Longrightarrow> f i = Inr (g i)"
  shows "collect (map f [0..<n]) = Inr (map g [0..<n])"
proof -
  have "collect (map f is) = Inr (map g is)" if "\<forall>i\<in>set is. f i = Inr (g i)" for "is" using that by (induction "is") auto
  then show ?thesis using assms by simp
qed

lemma seven_levels: "length ls = 7 \<Longrightarrow> map ((!) ls) [0..<NUM_HIERARCHY_LEVELS] = ls"
  by (metis NUM_HIERARCHY_LEVELS_def map_nth)

lemma parse_topology_doc:
  assumes y: "yaml_ok y" and len: "length ls = 7" and ok: "\<And>i. i < 7 \<Longrightarrow> level_ok i (ls ! i)"
  shows "parseCustomTopology y (topology_doc (named_keys (parseMemoryTechnology t)) ls) ch rk t =
    Inr \<lparr>sh_levels = ls, sh_technology = parseMemoryTechnology t, sh_num_channels = ch, sh_ranks_per_channel = rk\<rparr>"
proof -
  let ?n = "topology_doc (named_keys (parseMemoryTechnology t)) ls"
  have "yaml_get y ?n (named_keys (parseMemoryTechnology t) ! i) = Inr (level_doc (ls ! i))" if "i < 7" for i
    unfolding topology_doc_def read_doc(1) [OF y]
    using map_of_keys [of "''enabled''" "named_keys (parseMemoryTechnology t)" "map level_doc ls" i "flag True"] named_keys_distinct [of "parseMemoryTechnology t"] named_keys_length len that by simp
  then have "parse_level y ?n (parseMemoryTechnology t) l i = Inr (ls ! i)" if "i < 7" for i l
    using parse_level_doc [OF y ok] that by (simp add: parse_level_def)
  then have "collect (map (\<lambda>i. parse_level y ?n (parseMemoryTechnology t) (f i) i) [0..<NUM_HIERARCHY_LEVELS]) = Inr ls" for f
    using collect_levels [of NUM_HIERARCHY_LEVELS "\<lambda>i. parse_level y ?n (parseMemoryTechnology t) (f i) i" "(!) ls"] seven_levels [OF len]
    by (simp add: NUM_HIERARCHY_LEVELS_def)
  then show ?thesis by (simp add: parseCustomTopology_def Let_def SwitchHierarchyConfig_init_def topology_doc_def)
qed

text \<open>The old keys name the levels from the banks on; the subarrays have the default.\<close>

lemma parse_legacy_doc:
  assumes y: "yaml_ok y" and len: "length ls = 7" and ok: "\<And>i. i < 7 \<Longrightarrow> level_ok i (ls ! i)" and first: "nl_use_default (ls ! 0)"
  shows "parseCustomTopology y (topology_doc legacy_keys (tl ls)) ch rk t =
    Inr \<lparr>sh_levels = ls, sh_technology = parseMemoryTechnology t, sh_num_channels = ch, sh_ranks_per_channel = rk\<rparr>"
proof -
  let ?n = "topology_doc legacy_keys (tl ls)" and ?T = "parseMemoryTechnology t"
  note dist = named_keys_distinct [of ?T]
  have new: "yaml_get y ?n (named_keys ?T ! i) = Inr YUndefined" if "i < 7" for i
  proof -
    have "named_keys ?T ! i \<in> set (named_keys ?T)" using that named_keys_length by simp
    then have "map_of ((''enabled'', flag True) # zip legacy_keys (map level_doc (tl ls))) (named_keys ?T ! i) = None"
      using dist by (auto simp: map_of_eq_None_iff dest!: set_zip_leftD)
    then show ?thesis unfolding topology_doc_def read_doc(1) [OF y] by simp
  qed
  have old: "yaml_get y ?n (legacy_keys ! (i - 1)) = Inr (level_doc (ls ! i))" if "1 \<le> i" "i < 7" for i
    unfolding topology_doc_def read_doc(1) [OF y]
    using map_of_keys [of "''enabled''" legacy_keys "map level_doc (tl ls)" "i - 1" "flag True"] dist len that by (simp add: legacy_keys_def nth_tl)
  have "parse_level y ?n ?T (NetworkLevelConfig_init\<lparr>nl_level := int i\<rparr>) i = Inr (ls ! i)" if "i < 7" for i
  proof (cases "i = 0")
    case True
    then show ?thesis using new [of 0] ok [of 0] first by (simp add: parse_level_def level_ok_def NetworkLevelConfig_init_def)
  next
    case False
    then show ?thesis using new [OF that] old [of i] parse_level_doc [OF y ok] that by (simp add: parse_level_def)
  qed
  then have "collect (map (\<lambda>i. parse_level y ?n ?T (sh_levels SwitchHierarchyConfig_init ! i) i) [0..<NUM_HIERARCHY_LEVELS]) = Inr ls"
    using collect_levels [of NUM_HIERARCHY_LEVELS "\<lambda>i. parse_level y ?n ?T (sh_levels SwitchHierarchyConfig_init ! i) i" "(!) ls"] seven_levels [OF len]
    by (simp add: NUM_HIERARCHY_LEVELS_def SwitchHierarchyConfig_init_def del: upt_Suc)
  then show ?thesis by (simp add: parseCustomTopology_def Let_def SwitchHierarchyConfig_init_def topology_doc_def)
qed

text \<open>The document of a whole configuration.\<close>

definition model_doc :: "ExternalModelConfig \<Rightarrow> YNode" where
  "model_doc m =
     (if em_enabled m
      then doc [(''enabled'', flag True), (''library_path'', YScalar (em_library_path m)), (''model_name'', YScalar (em_model_name m)),
        (''config_file'', YScalar (em_config_file m))]
      else doc [(''enabled'', flag False)])"

definition model_ok :: "ExternalModelConfig \<Rightarrow> bool" where
  "model_ok m \<longleftrightarrow> em_enabled m \<or> m = ExternalModelConfig_init"

lemma model_doc_defined [simp]: "model_doc m \<noteq> YUndefined"
  by (simp add: model_doc_def)

lemma parse_model_doc: "yaml_ok y \<Longrightarrow> model_ok m \<Longrightarrow> parseExternalModel y (model_doc m) = Inr m"
  by (cases "em_enabled m"; cases m)
    (simp_all add: parseExternalModel_def model_doc_def model_ok_def read_doc y_flag yaml_okD)

definition config_doc :: "bool \<Rightarrow> string \<Rightarrow> NetworkTopologyConfig \<Rightarrow> YNode" where
  "config_doc legacy t c =
     doc [(''memory'', doc [(''channels'', amount (sh_num_channels (nt_switch_config c))), (''ranks_per_channel'', amount (sh_ranks_per_channel (nt_switch_config c))),
            (''dram_type'', YScalar t),
            (''network'', doc [(''custom_topology'',
               if \<not> nt_custom_topology_enabled c then doc [(''enabled'', flag False)]
               else if legacy then topology_doc legacy_keys (tl (sh_levels (nt_switch_config c)))
               else topology_doc (named_keys (parseMemoryTechnology t)) (sh_levels (nt_switch_config c)))])]),
          (''external_models'', doc [(''network'', model_doc (nt_network_model c)), (''memory'', model_doc (nt_memory_model c))])]"

definition topology_config_ok :: "bool \<Rightarrow> string \<Rightarrow> NetworkTopologyConfig \<Rightarrow> bool" where
  "topology_config_ok legacy t c \<longleftrightarrow> model_ok (nt_network_model c) \<and> model_ok (nt_memory_model c) \<and>
     (let s = nt_switch_config c in fits (sh_num_channels s) \<and> fits (sh_ranks_per_channel s) \<and>
       (if nt_custom_topology_enabled c
        then sh_technology s = parseMemoryTechnology t \<and> length (sh_levels s) = 7 \<and> list_all (\<lambda>(i, l). level_ok i l) (enumerate 0 (sh_levels s)) \<and>
          (legacy \<longrightarrow> nl_use_default (sh_levels s ! 0))
        else s = SwitchHierarchyConfig_init))"

lemma level_ok_nth: "length ls = 7 \<Longrightarrow> list_all (\<lambda>(i, l). level_ok i l) (enumerate 0 ls) \<Longrightarrow> i < 7 \<Longrightarrow> level_ok i (ls ! i)"
  by (simp add: list_all_length nth_enumerate_eq)

lemma parse_topology_enabled:
  assumes "yaml_ok y" and "topology_config_ok legacy t c" and "nt_custom_topology_enabled c"
  shows "parseCustomTopology y (if legacy then topology_doc legacy_keys (tl (sh_levels (nt_switch_config c)))
      else topology_doc (named_keys (parseMemoryTechnology t)) (sh_levels (nt_switch_config c)))
      (sh_num_channels (nt_switch_config c)) (sh_ranks_per_channel (nt_switch_config c)) t = Inr (nt_switch_config c)"
proof -
  let ?s = "nt_switch_config c"
  have s: "sh_technology ?s = parseMemoryTechnology t" "length (sh_levels ?s) = 7" "list_all (\<lambda>(i, l). level_ok i l) (enumerate 0 (sh_levels ?s))"
      "legacy \<Longrightarrow> nl_use_default (sh_levels ?s ! 0)"
    using assms(2,3) by (simp_all add: topology_config_ok_def Let_def)
  note ok = level_ok_nth [OF s(2,3)]
  show ?thesis using parse_topology_doc [OF assms(1) s(2) ok] parse_legacy_doc [OF assms(1) s(2) ok s(4)] s(1) by simp
qed

lemma topology_doc_enabled:
  "yaml_ok y \<Longrightarrow> optional y (topology_doc ks ls) ''enabled'' (y_bool y) False = Inr True" "topology_doc ks ls \<noteq> YUndefined"
  by (simp_all add: topology_doc_def read_doc y_flag)

text \<open>
  C37: A configuration of custom switch hierarchies and external models, written as a document with the names of the levels (those of the
  stacked memories or of the others) or with the old keys \<^verbatim>\<open>l0\<close> to \<^verbatim>\<open>l5\<close>, is read back from a file as it was.
\<close>

theorem topology_file_roundtrip:
  assumes "yaml_ok y" and "topology_config_ok legacy t c" and "y_load_file y file = Inr (config_doc legacy t c)"
  shows "parseConfigFile y file = Inr c"
proof -
  let ?s = "nt_switch_config c"
  have fits: "fits (sh_num_channels ?s)" "fits (sh_ranks_per_channel ?s)" and models: "model_ok (nt_network_model c)" "model_ok (nt_memory_model c)"
    using assms(2) by (simp_all add: topology_config_ok_def Let_def)
  define topo where "topo = (if \<not> nt_custom_topology_enabled c then doc [(''enabled'', flag False)]
    else if legacy then topology_doc legacy_keys (tl (sh_levels ?s)) else topology_doc (named_keys (parseMemoryTechnology t)) (sh_levels ?s))"
  have topo_def': "topo \<noteq> YUndefined" by (simp add: topo_def topology_doc_enabled)
  have sec: "parse_topology_section y topo (sh_num_channels ?s) (sh_ranks_per_channel ?s) t NetworkTopologyConfig_init =
      Inr (NetworkTopologyConfig_init\<lparr>nt_custom_topology_enabled := nt_custom_topology_enabled c, nt_switch_config := ?s\<rparr>)"
  proof (cases "nt_custom_topology_enabled c")
    case True
    have "parseCustomTopology y topo (sh_num_channels ?s) (sh_ranks_per_channel ?s) t = Inr ?s"
      using parse_topology_enabled [OF assms(1,2) True] True by (simp add: topo_def)
    moreover have "optional y topo ''enabled'' (y_bool y) False = Inr True"
      using True topology_doc_enabled(1) [OF assms(1)] by (simp add: topo_def)
    ultimately show ?thesis using True topo_def' by (simp add: parse_topology_section_def)
  next
    case False
    then have "?s = SwitchHierarchyConfig_init" using assms(2) by (simp add: topology_config_ok_def Let_def)
    then show ?thesis using False
      by (simp add: parse_topology_section_def topo_def NetworkTopologyConfig_init_def read_doc [OF assms(1)] y_flag [OF assms(1)])
  qed
  have memory: "parse_memory y (doc [(''channels'', amount (sh_num_channels ?s)), (''ranks_per_channel'', amount (sh_ranks_per_channel ?s)), (''dram_type'', YScalar t),
      (''network'', doc [(''custom_topology'', topo)])]) NetworkTopologyConfig_init =
      Inr (NetworkTopologyConfig_init\<lparr>nt_custom_topology_enabled := nt_custom_topology_enabled c, nt_switch_config := ?s\<rparr>)"
    using sec by (simp add: parse_memory_def read_doc [OF assms(1)] y_amount [OF assms(1)] fits yaml_okD [OF assms(1)])
  have "parse_models y (doc [(''network'', model_doc (nt_network_model c)), (''memory'', model_doc (nt_memory_model c))]) r =
      Inr (r\<lparr>nt_network_model := nt_network_model c, nt_memory_model := nt_memory_model c\<rparr>)" for r
    using parse_model_doc [OF assms(1)] models by (simp add: parse_models_def read_doc [OF assms(1)])
  moreover have "NetworkTopologyConfig_init\<lparr>nt_custom_topology_enabled := nt_custom_topology_enabled c, nt_switch_config := ?s,
      nt_network_model := nt_network_model c, nt_memory_model := nt_memory_model c\<rparr> = c"
    by (cases c) (simp add: NetworkTopologyConfig_init_def)
  ultimately show ?thesis
    using memory by (simp add: parseConfigFile_def assms(3) config_doc_def topo_def [symmetric] read_doc [OF assms(1)] rethrow_def)
qed

text \<open>A library for the witnesses, and a file with a crossbar of eight ports between the banks.\<close>

definition sample_yaml :: "(string \<Rightarrow> string + YNode) \<Rightarrow> yaml" where
  "sample_yaml files =
     \<lparr>y_load_file = files,
      y_get = (\<lambda>n key. case n of YMap es \<Rightarrow> Inr (entry key es) | YScalar _ \<Rightarrow> Inl ''operator[] call on a scalar'' | _ \<Rightarrow> Inr YUndefined),
      y_bool = (\<lambda>n. if n = YScalar ''true'' then Inr True else if n = YScalar ''false'' then Inr False else Inl ''bad conversion''),
      y_int = (\<lambda>n. case n of YScalar s \<Rightarrow> (case stoull s of Inr w \<Rightarrow> Inr (uint w) | Inl _ \<Rightarrow> Inl ''bad conversion'') | _ \<Rightarrow> Inl ''bad conversion''),
      y_u32 = (\<lambda>n. case n of YScalar s \<Rightarrow> (case stoull s of Inr w \<Rightarrow> Inr (ucast w) | Inl _ \<Rightarrow> Inl ''bad conversion'') | _ \<Rightarrow> Inl ''bad conversion''),
      y_string = (\<lambda>n. case n of YScalar s \<Rightarrow> Inr s | _ \<Rightarrow> Inl ''bad conversion'')\<rparr>"

lemma sample_yaml_ok: "yaml_ok (sample_yaml files)"
proof -
  have "uint (word_of_nat n :: u64) = int n" "ucast (word_of_nat n :: u64) = (word_of_nat n :: u32)" if "n < 2 ^ 32" for n
  proof -
    have u: "unat (word_of_nat n :: u64) = n" using that by (intro unat_word_of_nat) simp
    then show "uint (word_of_nat n :: u64) = int n" by (simp add: uint_nat)
    show "ucast (word_of_nat n :: u64) = (word_of_nat n :: u32)" using that by (simp add: unsigned_of_nat take_bit_nat_eq_self)
  qed
  then show ?thesis by (simp add: yaml_ok_def sample_yaml_def stoull_show_nat)
qed

definition sample_topology :: NetworkTopologyConfig where
  "sample_topology = NetworkTopologyConfig_init\<lparr>nt_custom_topology_enabled := True,
     nt_switch_config := \<lparr>sh_levels = (sh_levels SwitchHierarchyConfig_init)[1 := \<lparr>nl_level = 1, nl_topology = TT_CROSSBAR, nl_num_switches = 2,
         nl_ports_per_switch = 8, nl_num_endpoints = 4, nl_use_default = False, nl_model = NM_SIMPLE\<rparr>],
       sh_technology = HBM3, sh_num_channels = 2, sh_ranks_per_channel = 1\<rparr>\<rparr>"

theorem topology_file_roundtrip_witness:
  "parseConfigFile (sample_yaml (\<lambda>f. if f = ''new.yaml'' then Inr (config_doc False ''HBM3'' sample_topology) else Inr (config_doc True ''HBM3'' sample_topology))) ''new.yaml'' = Inr sample_topology \<and>
   parseConfigFile (sample_yaml (\<lambda>f. if f = ''new.yaml'' then Inr (config_doc False ''HBM3'' sample_topology) else Inr (config_doc True ''HBM3'' sample_topology))) ''old.yaml'' = Inr sample_topology"
proof -
  have ok: "topology_config_ok legacy ''HBM3'' sample_topology" for legacy
    by (simp add: topology_config_ok_def sample_topology_def NetworkTopologyConfig_init_def SwitchHierarchyConfig_init_def NUM_HIERARCHY_LEVELS_def
        model_ok_def fits_def level_ok_def NetworkLevelConfig_init_def parseMemoryTechnology_def upt_rec enumerate_eq_zip)
  show ?thesis
    by (intro conjI topology_file_roundtrip [OF sample_yaml_ok ok [of False]] topology_file_roundtrip [OF sample_yaml_ok ok [of True]])
      (simp_all add: sample_yaml_def)
qed

section \<open>Custom hierarchies in force\<close>

text \<open>
  C38: A custom hierarchy that the validation accepts for the dimensions of a network, set in the network, is what the network reports: the custom
  levels as they are given, with switches in them, the others as without customisation. At every level below the root
  the endpoints are the units of the level, and the number of switches is what the query for the level answers.
\<close>

theorem validated_topology_in_force:
  assumes "length (sh_levels s) = 7"
    and "validateTopologyConfig s (dn_num_subarrays_per_bank d) (dn_num_banks_per_bg d) (dn_num_bg_per_chip d) (dn_num_chips_per_rank d) ranks channels"
    and "i < 7"
  shows "let h = sh_levels (getSwitchHierarchyConfig (setCustomSwitchHierarchy s d) channels ranks) ! i;
      plain = sh_levels (getSwitchHierarchyConfig (d\<lparr>dn_use_custom_switch_config := False\<rparr>) channels ranks) ! i in
    h = (if nl_use_default (sh_levels s ! i) then plain else sh_levels s ! i) \<and>
    (\<not> nl_use_default (sh_levels s ! i) \<longrightarrow> 0 < nl_num_switches h \<and> 0 < nl_ports_per_switch h) \<and>
    (i < 6 \<longrightarrow> nl_num_endpoints h = [dn_num_subarrays_per_bank d, dn_num_banks_per_bg d, dn_num_bg_per_chip d, dn_num_chips_per_rank d, ranks, channels] ! i) \<and>
    getNumberOfSwitchesAtLevel (setCustomSwitchHierarchy s d) (int i) channels ranks = nl_num_switches h"
proof -
  define D where "D = [dn_num_subarrays_per_bank d, dn_num_banks_per_bg d, dn_num_bg_per_chip d, dn_num_chips_per_rank d, ranks, channels]"
  define S where "S = (let ranks' = channels * ranks; chips = ranks' * dn_num_chips_per_rank d; bgs = chips * dn_num_bg_per_chip d
    in [bgs * dn_num_banks_per_bg d, bgs, bgs, chips, ranks', channels, 1])"
  define plain where "plain = sh_levels (getSwitchHierarchyConfig (d\<lparr>dn_use_custom_switch_config := False\<rparr>) channels ranks)"
  have len_D: "length D = 6" by (simp add: D_def)
  then have D: "i < 6 \<Longrightarrow> (D @ [x]) ! i = D ! i" for x by (simp add: nth_append)
  have valid: "level_valid (sh_levels s ! i) ((D @ [1]) ! i)"
    using assms(2) assms(1,3) by (simp add: validateTopologyConfig_def list_all_length D_def)
  have "map nl_num_endpoints plain = D @ [channels]" "map nl_num_switches plain = S" and len: "length plain = 7"
    by (simp_all add: plain_def D_def S_def getSwitchHierarchyConfig_def Let_def del: calculatePortsPerSwitch.simps)
  then have ends: "nl_num_endpoints (plain ! i) = (D @ [channels]) ! i" and switches: "nl_num_switches (plain ! i) = S ! i"
    using assms(3) by (metis nth_map)+
  have "sh_levels (getSwitchHierarchyConfig (setCustomSwitchHierarchy s d) channels ranks) =
      map2 (\<lambda>l c. if \<not> nl_use_default c then c else l) plain (sh_levels s)"
    by (simp add: plain_def getSwitchHierarchyConfig_def setCustomSwitchHierarchy_def Let_def)
  then have h: "sh_levels (getSwitchHierarchyConfig (setCustomSwitchHierarchy s d) channels ranks) ! i =
      (if nl_use_default (sh_levels s ! i) then plain ! i else sh_levels s ! i)"
    using assms(1,3) len by simp
  have n: "getNumberOfSwitchesAtLevel (setCustomSwitchHierarchy s d) (int i) channels ranks =
      (if nl_use_default (sh_levels s ! i) then S ! i else nl_num_switches (sh_levels s ! i))"
    using assms(3) by (simp add: getNumberOfSwitchesAtLevel_def setCustomSwitchHierarchy_def S_def Let_def)
  show ?thesis
    unfolding Let_def h n plain_def [symmetric] D_def [symmetric] using ends switches valid D by (auto simp: level_valid_def split: if_splits)
qed

theorem validated_topology_in_force_witness:
  "nl_num_switches (sh_levels (getSwitchHierarchyConfig (setCustomSwitchHierarchy (nt_switch_config sample_topology)
     (dn_initialize 4800 512 4 4 8 (InternalDRAMNetwork_init ''HBM3''))) 2 1) ! 1) = 2"
proof -
  let ?s = "nt_switch_config sample_topology" and ?d = "dn_initialize 4800 512 4 4 8 (InternalDRAMNetwork_init ''HBM3'')"
  have dims: "dn_num_subarrays_per_bank ?d = 512" "dn_num_banks_per_bg ?d = 4" "dn_num_bg_per_chip ?d = 4" "dn_num_chips_per_rank ?d = 8"
    by (simp_all add: dn_initialize_def InternalDRAMNetwork_init_def resetStats_def initializeBridgeDefaults_def configure_technology_def
        configureHBM3Network_def configure_levels_def SwitchHierarchyConfig_init_def Let_def)
  have levels: "sh_levels ?s = (sh_levels SwitchHierarchyConfig_init)[1 := \<lparr>nl_level = 1, nl_topology = TT_CROSSBAR, nl_num_switches = 2,
         nl_ports_per_switch = 8, nl_num_endpoints = 4, nl_use_default = False, nl_model = NM_SIMPLE\<rparr>]"
    by (simp add: sample_topology_def)
  have "length (sh_levels ?s) = 7" "validateTopologyConfig ?s 512 4 4 8 1 2"
    unfolding validateTopologyConfig_def levels
    by (simp_all add: SwitchHierarchyConfig_init_def NUM_HIERARCHY_LEVELS_def NetworkLevelConfig_init_def level_valid_def upt_rec)
  then show ?thesis
    using validated_topology_in_force [of ?s ?d 1 2 1] unfolding dims levels Let_def
    by (simp add: SwitchHierarchyConfig_init_def NUM_HIERARCHY_LEVELS_def upt_rec)
qed

text \<open>The validation expects one endpoint at the root, where the network itself counts the channels: its own root, written out, is refused.\<close>

lemma own_root_refused:
  assumes "channels \<noteq> 1"
  shows "\<not> level_valid ((sh_levels (getSwitchHierarchyConfig (d\<lparr>dn_use_custom_switch_config := False\<rparr>) channels ranks) ! 6)\<lparr>nl_use_default := False\<rparr>) 1"
  using assms by (simp add: level_valid_def getSwitchHierarchyConfig_def Let_def)

section \<open>Configurations of the network on chip\<close>

fun noc_topology_word :: "NetworkTopology \<Rightarrow> string" where
  "noc_topology_word MESH_2D = ''MESH_2D''"
| "noc_topology_word MESH_3D = ''MESH_3D''"
| "noc_topology_word TORUS_2D = ''TORUS_2D''"
| "noc_topology_word TORUS_3D = ''TORUS_3D''"
| "noc_topology_word DRAGONFLY = ''DRAGONFLY''"
| "noc_topology_word FAT_TREE = ''FAT_TREE''"
| "noc_topology_word H_TREE = ''H_TREE''"
| "noc_topology_word CROSSBAR = ''CROSSBAR''"

fun noc_routing_word :: "RoutingAlgorithm \<Rightarrow> string" where
  "noc_routing_word XY = ''XY''"
| "noc_routing_word XYZ = ''XYZ''"
| "noc_routing_word ADAPTIVE = ''ADAPTIVE''"
| "noc_routing_word WEST_FIRST = ''WEST_FIRST''"
| "noc_routing_word NORTH_LAST = ''NORTH_LAST''"
| "noc_routing_word MINIMAL = ''MINIMAL''"
| "noc_routing_word VALIANT = ''VALIANT''"
| "noc_routing_word TREE_BASED = ''TREE_BASED''"

lemma noc_words: "map_of noc_topologies (noc_topology_word t) = Some t" "map_of noc_routings (noc_routing_word r) = (if r = TREE_BASED then None else Some r)"
  by (cases t; simp add: noc_topologies_def) (cases r; simp add: noc_routings_def)

definition count_node :: "nat \<Rightarrow> YNode" where
  "count_node n = YScalar (show_nat n)"

definition noc_doc :: "NetworkConfig \<Rightarrow> YNode" where
  "noc_doc c =
     doc [(''topology'', YScalar (noc_topology_word (nc_topology c))), (''routing'', YScalar (noc_routing_word (nc_routing c))),
       (''num_rows'', count_node (unat (nc_num_rows c))), (''num_cols'', count_node (unat (nc_num_cols c))), (''num_layers'', count_node (unat (nc_num_layers c))),
       (''virtual_channels_per_vn'', count_node (unat (nc_virtual_channels_per_vn c))), (''virtual_networks'', count_node (unat (nc_virtual_networks c))),
       (''link_width_bytes'', count_node (unat (nc_link_width_bytes c))), (''link_latency'', count_node (unat (nc_link_latency c))),
       (''router_latency'', count_node (unat (nc_router_latency c))), (''enable_router_bypass'', flag (nc_enable_router_bypass c)),
       (''input_buffer_depth'', count_node (unat (nc_input_buffer_depth c))), (''output_buffer_depth'', count_node (unat (nc_output_buffer_depth c))),
       (''garnet_config_path'', YScalar (nc_garnet_config_path c))]"

lemma y_count:
  assumes "yaml_ok y"
  shows "y_u32 y (count_node (unat (w :: u32))) = Inr w" and "unat (v :: u64) < 2 ^ 32 \<Longrightarrow> y_u32 y (count_node (unat v)) = Inr (ucast v)"
    and "count_node n \<noteq> YUndefined"
proof -
  have "unat w < 2 ^ 32" using unsigned_less [of w, where 'a = nat] by simp
  then show "y_u32 y (count_node (unat w)) = Inr w" using yaml_okD(6) [OF assms, of "unat w"] by (simp add: count_node_def)
  show "y_u32 y (count_node (unat v)) = Inr (ucast v)" if "unat v < 2 ^ 32"
    using yaml_okD(6) [OF assms, of "unat v"] that by (simp add: count_node_def)
qed (simp add: count_node_def)

lemma setting_doc:
  "yaml_ok y \<Longrightarrow> setting y (doc es) key conv upd c =
     (case map_of es key of None \<Rightarrow> Inr c | Some n \<Rightarrow> if n = YUndefined then Inr c else map_sum Yaml (\<lambda>v. upd v c) (conv n))"
  by (auto simp: setting_def read_doc split: option.splits)

lemma ucast_u32: "unat (v :: u64) < 2 ^ 32 \<Longrightarrow> ucast (ucast v :: u32) = v"
proof -
  assume v: "unat v < 2 ^ 32"
  have "unat (ucast v :: u32) = unat v" using v by (simp add: unsigned_ucast_eq take_bit_nat_eq_self)
  moreover have "unat (ucast x :: u64) = unat x" for x :: u32
    using unsigned_less [of x, where 'a = nat] by (simp add: unsigned_ucast_eq take_bit_nat_eq_self)
  ultimately show ?thesis by (metis word_unat_eq_iff)
qed

text \<open>
  A configuration of the network on chip, written as the \<^verbatim>\<open>noc\<close> section of a file, is read back, for every routing but the tree-based one
  and latencies of 32 bits. What the section cannot say has its default: the flow control, the router pipeline, and the total of virtual
  channels, which is not computed from the two factors that are read.
\<close>

theorem noc_file_roundtrip:
  assumes "yaml_ok y" and "nc_routing c \<noteq> TREE_BASED" and "unat (nc_link_latency c) < 2 ^ 32" and "unat (nc_router_latency c) < 2 ^ 32"
    and "y_load_file y file = Inr (doc [(''noc'', noc_doc c)])"
  shows "parseNoCConfig y file = Inr (c\<lparr>nc_flow_control := CREDIT_BASED, nc_router_pipeline := FULL, nc_virtual_channels := 1\<rparr>)"
proof -
  have "parseNoCNode y (noc_doc c) = Inr (c\<lparr>nc_flow_control := CREDIT_BASED, nc_router_pipeline := FULL, nc_virtual_channels := 1\<rparr>)"
    using assms(2-4) unfolding parseNoCNode_def noc_doc_def
    by (cases c) (simp add: setting_doc [OF assms(1)] y_count [OF assms(1)] yaml_okD [OF assms(1)] y_flag [OF assms(1)] noc_words ucast_u32 NetworkConfig_init_def)
  moreover have "noc_doc c \<noteq> YUndefined" by (simp add: noc_doc_def)
  ultimately show ?thesis by (simp add: parseNoCConfig_def assms(5) read_doc [OF assms(1)] rethrow_def)
qed

theorem noc_file_roundtrip_witness:
  "parseNoCConfig (sample_yaml (\<lambda>f. Inr (doc [(''noc'', noc_doc (NetworkConfig_init\<lparr>nc_topology := TORUS_3D, nc_virtual_networks := 3, nc_virtual_channels := 3\<rparr>))]))) ''noc.yaml'' =
     Inr (NetworkConfig_init\<lparr>nc_topology := TORUS_3D, nc_virtual_networks := 3\<rparr>)"
  using noc_file_roundtrip [OF sample_yaml_ok, of "NetworkConfig_init\<lparr>nc_topology := TORUS_3D, nc_virtual_networks := 3, nc_virtual_channels := 3\<rparr>"]
  by (simp add: sample_yaml_def NetworkConfig_init_def)

end
