(* ===== verification/Cache_Warehouse.thy ===== *)
theory Cache_Warehouse
  imports Trace_Yaml
begin

text \<open>
  The characterization-cache warehouse, src/util/cache_warehouse.cpp: the cache mode and the
  warehouse root resolved from the command line, the environment, the YAML file and built-in
  defaults; the directories created on demand; the append-only manifest.

  The process state is a record: the module's static \<^verbatim>\<open>State\<close>, the environment variables,
  what \<^verbatim>\<open>/proc/self/exe\<close> links to, the clock, the directories that exist, which directories and
  files the process may create, and the text of the files. \<^verbatim>\<open>std::exit(2)\<close> is an \<open>Inl\<close> value that
  names the refusal.
\<close>

section \<open>Modes\<close>

datatype Mode = RW | RO | WO | OFF

definition parseMode :: "string \<Rightarrow> Mode" where
  "parseMode s =
     (let m = lower s
      in if m = ''ro'' \<or> m = ''read-only'' \<or> m = ''readonly'' then RO
         else if m = ''wo'' \<or> m = ''write-only'' \<or> m = ''writeonly'' then WO
         else if m = ''off'' \<or> m = ''none'' \<or> m = ''disable'' \<or> m = ''disabled'' then OFF
         else RW)"

fun modeName :: "Mode \<Rightarrow> string" where
  "modeName RW = ''rw''"
| "modeName RO = ''ro''"
| "modeName WO = ''wo''"
| "modeName OFF = ''off''"

text \<open>The words \<^verbatim>\<open>configure\<close> accepts.\<close>

definition kWords :: "string list" where
  "kWords = ['''', ''rw'', ''on'', ''ro'', ''read-only'', ''readonly'', ''wo'', ''write-only'', ''writeonly'',
             ''off'', ''none'', ''disable'', ''disabled'']"

section \<open>The process\<close>

record cache_state =
  cs_mode :: Mode
  cs_root :: string
  cs_configured :: bool

definition init_cache_state :: cache_state where
  "init_cache_state = \<lparr>cs_mode = RW, cs_root = '''', cs_configured = False\<rparr>"

text \<open>A directory: absolute or relative to the working directory, and the names on the way to it.\<close>

type_synonym dir = "bool \<times> string list"

record process =
  p_cache :: cache_state
  p_env :: "string \<Rightarrow> string option"
  p_exe :: "string option"
  p_time :: int
  p_dirs :: "dir set"
  p_may_create :: "dir \<Rightarrow> bool"
  p_may_open :: "string \<Rightarrow> bool"
  p_files :: "string \<Rightarrow> string"

datatype cache_exit = UnknownMode string | LegacyCacheDir | NoWarehouseRoot

text \<open>\<^verbatim>\<open>env\<close>: a variable that is set to the empty string counts as unset.\<close>

definition env :: "process \<Rightarrow> string \<Rightarrow> string option" where
  "env p name = (case p_env p name of Some v \<Rightarrow> if v = '''' then None else Some v | None \<Rightarrow> None)"

section \<open>The default root\<close>

text \<open>\<^verbatim>\<open>find_last_of(c)\<close>: the last position of a character.\<close>

fun find_last_of :: "char \<Rightarrow> string \<Rightarrow> nat option" where
  "find_last_of c [] = None"
| "find_last_of c (x # xs) =
     (case find_last_of c xs of Some i \<Rightarrow> Some (Suc i) | None \<Rightarrow> if x = c then Some 0 else None)"

text \<open>\<^verbatim>\<open>exeDir\<close>; \<^verbatim>\<open>readlink\<close> fills at most 4095 bytes of the buffer.\<close>

definition exeDir :: "process \<Rightarrow> string" where
  "exeDir p =
     (case p_exe p of None \<Rightarrow> ''''
      | Some t \<Rightarrow>
          (if t = '''' then ''''
           else case find_last_of (CHR ''/'') (take 4095 t) of None \<Rightarrow> '''' | Some i \<Rightarrow> take i (take 4095 t)))"

definition ends_with :: "string \<Rightarrow> string \<Rightarrow> bool" where
  "ends_with d suf \<longleftrightarrow> drop (length d - length suf) d = suf"

definition defaultRoot :: "process \<Rightarrow> cache_exit + string" where
  "defaultRoot p =
     (let d = exeDir p; build = ''/build''
      in if d \<noteq> ''''
         then Inr ((if length build < length d \<and> ends_with d build then take (length d - length build) d
                    else case find_last_of (CHR ''/'') d of
                      None \<Rightarrow> d
                    | Some i \<Rightarrow> if drop (i + 1) d = ''bin'' then take i d else d) @ ''/cache'')
         else Inl NoWarehouseRoot)"

section \<open>Configuration\<close>

definition mode_string :: "process \<Rightarrow> string \<Rightarrow> string \<Rightarrow> string" where
  "mode_string p cli_mode yaml_mode =
     (if cli_mode \<noteq> '''' then cli_mode
      else if env p ''PIMID_CACHE_DISABLE'' \<noteq> None then ''off''
      else case env p ''PIMID_CACHE_MODE'' of
        Some m \<Rightarrow> m
      | None \<Rightarrow> if env p ''PIMID_NVSIM_CACHE_DISABLE'' \<noteq> None then ''off'' else yaml_mode)"

definition root_dir :: "process \<Rightarrow> string \<Rightarrow> string \<Rightarrow> cache_exit + string" where
  "root_dir p cli_dir yaml_dir =
     (if cli_dir \<noteq> '''' then Inr cli_dir
      else case env p ''PIMID_CACHE_DIR'' of
        Some d \<Rightarrow> Inr d
      | None \<Rightarrow>
          (if env p ''PIMID_NVSIM_CACHE_DIR'' \<noteq> None then Inl LegacyCacheDir
           else if yaml_dir \<noteq> '''' then Inr yaml_dir
           else defaultRoot p))"

definition configure :: "process \<Rightarrow> string \<Rightarrow> string \<Rightarrow> string \<Rightarrow> string \<Rightarrow> cache_exit + process" where
  "configure p cli_mode cli_dir yaml_mode yaml_dir =
     (let mode_str = mode_string p cli_mode yaml_mode
      in if lower mode_str \<notin> set kWords then Inl (UnknownMode mode_str)
         else case root_dir p cli_dir yaml_dir of
           Inl e \<Rightarrow> Inl e
         | Inr dir \<Rightarrow> Inr (p\<lparr>p_cache := \<lparr>cs_mode = parseMode mode_str, cs_root = dir, cs_configured = True\<rparr>\<rparr>))"

definition resolveIfNeeded :: "process \<Rightarrow> cache_exit + process" where
  "resolveIfNeeded p = (if cs_configured (p_cache p) then Inr p else configure p '''' '''' '''' '''')"

definition cache_mode :: "process \<Rightarrow> cache_exit + Mode \<times> process" where
  "cache_mode p = map_sum id (\<lambda>p'. (cs_mode (p_cache p'), p')) (resolveIfNeeded p)"

definition readEnabled :: "process \<Rightarrow> cache_exit + bool \<times> process" where
  "readEnabled p = map_sum id (\<lambda>(m, p'). (m = RW \<or> m = RO, p')) (cache_mode p)"

definition writeEnabled :: "process \<Rightarrow> cache_exit + bool \<times> process" where
  "writeEnabled p = map_sum id (\<lambda>(m, p'). (m = RW \<or> m = WO, p')) (cache_mode p)"

definition warehouseRoot :: "process \<Rightarrow> cache_exit + string \<times> process" where
  "warehouseRoot p = map_sum id (\<lambda>p'. (cs_root (p_cache p'), p')) (resolveIfNeeded p)"

section \<open>Directories and the manifest\<close>

text \<open>The directory a path names: its components, empty ones dropped.\<close>

definition comp_step :: "string list \<times> string \<Rightarrow> char \<Rightarrow> string list \<times> string" where
  "comp_step = (\<lambda>(ds, cur) c.
     if c = CHR ''/'' then (if cur = [] then ds else ds @ [cur], []) else (ds, cur @ [c]))"

definition comps :: "string \<Rightarrow> string list" where
  "comps path = (case foldl comp_step ([], []) path of (ds, cur) \<Rightarrow> if cur = [] then ds else ds @ [cur])"

definition dir_of :: "string \<Rightarrow> dir" where
  "dir_of path = (path \<noteq> [] \<and> hd path = CHR ''/'', comps path)"

text \<open>\<^verbatim>\<open>mkdir\<close>: it fails, without effect, where the parent does not exist or may not be written.\<close>

definition mkdir :: "process \<Rightarrow> string \<Rightarrow> process" where
  "mkdir p path =
     (let (a, cs) = dir_of path
      in if cs \<noteq> [] \<and> (a, butlast cs) \<in> p_dirs p \<and> p_may_create p (a, cs)
         then p\<lparr>p_dirs := insert (a, cs) (p_dirs p)\<rparr> else p)"

definition ensure_step :: "string \<times> process \<Rightarrow> char \<Rightarrow> string \<times> process" where
  "ensure_step = (\<lambda>(acc, p) c.
     let acc' = acc @ [c] in (acc', if c = CHR ''/'' \<and> 1 < length acc' then mkdir p acc' else p))"

definition ensureDir :: "process \<Rightarrow> string \<Rightarrow> process" where
  "ensureDir p path =
     (if path = [] then p else case foldl ensure_step ([], p) path of (acc, p') \<Rightarrow> mkdir p' acc)"

definition backendDir :: "process \<Rightarrow> string \<Rightarrow> cache_exit + string \<times> process" where
  "backendDir p backend =
     map_sum id (\<lambda>(wroot, p'). (wroot @ ''/'' @ backend, ensureDir p' (wroot @ ''/'' @ backend))) (warehouseRoot p)"

definition kToolVersion :: string where "kToolVersion = ''1.12.162''"

definition toolVersion :: string where "toolVersion = kToolVersion"

text \<open>A \<^verbatim>\<open>long long\<close> on an \<^verbatim>\<open>ostream\<close>.\<close>

definition show_int :: "int \<Rightarrow> string" where
  "show_int i = (if i < 0 then ''-'' @ show_nat (nat (- i)) else show_nat (nat i))"

definition QT :: char where "QT = CHR 0x22"

definition quoted :: "string \<Rightarrow> string" where "quoted s = [QT] @ s @ [QT]"

definition manifest_record :: "string \<Rightarrow> string \<Rightarrow> int \<Rightarrow> string \<Rightarrow> string \<Rightarrow> string" where
  "manifest_record backend key now params_json value_json =
     ''{'' @ quoted ''backend'' @ '':'' @ quoted backend @ '','' @
     quoted ''key'' @ '':'' @ quoted key @ '','' @
     quoted ''tool_version'' @ '':'' @ quoted kToolVersion @ '','' @
     quoted ''timestamp'' @ '':'' @ show_int now @ '','' @
     quoted ''params'' @ '':{'' @ params_json @ ''},'' @
     quoted ''value'' @ '':{'' @ value_json @ ''}}''"

definition recordManifest :: "process \<Rightarrow> string \<Rightarrow> string \<Rightarrow> string \<Rightarrow> string \<Rightarrow> cache_exit + process" where
  "recordManifest p backend key params_json value_json =
     (case writeEnabled p of
        Inl e \<Rightarrow> Inl e
      | Inr (w, p1) \<Rightarrow>
          (if \<not> w then Inr p1
           else case warehouseRoot p1 of
             Inl e \<Rightarrow> Inl e
           | Inr (wroot, p2) \<Rightarrow>
               (let p3 = ensureDir p2 wroot; manifest = wroot @ ''/index.jsonl''
                in if \<not> p_may_open p3 manifest then Inr p3
                   else Inr (p3\<lparr>p_files := (p_files p3)
                     (manifest := p_files p3 manifest @ manifest_record backend key (p_time p3) params_json value_json @ [NL])\<rparr>))))"

section \<open>Lemmas on the parts\<close>

lemma lower_modeName [simp]: "lower (modeName m) = modeName m"
  by (cases m) (simp_all add: lower_def tolower_def)

lemma ensure_fst: "fst (foldl ensure_step (acc, p) path) = acc @ path"
  by (induction path arbitrary: acc p) (auto simp: ensure_step_def Let_def)

lemma mkdir_keeps [simp]:
  "p_cache (mkdir p s) = p_cache p" "p_files (mkdir p s) = p_files p" "p_time (mkdir p s) = p_time p"
  "p_may_create (mkdir p s) = p_may_create p" "p_may_open (mkdir p s) = p_may_open p" "p_env (mkdir p s) = p_env p"
  by (auto simp: mkdir_def Let_def split: prod.split)

lemma mkdir_mono: "p_dirs p \<subseteq> p_dirs (mkdir p s)"
  by (auto simp: mkdir_def Let_def split: prod.split)

lemma ensure_loop_keeps:
  "p_cache (snd (foldl ensure_step (acc, p) path)) = p_cache p \<and> p_files (snd (foldl ensure_step (acc, p) path)) = p_files p
     \<and> p_time (snd (foldl ensure_step (acc, p) path)) = p_time p
     \<and> p_may_create (snd (foldl ensure_step (acc, p) path)) = p_may_create p
     \<and> p_may_open (snd (foldl ensure_step (acc, p) path)) = p_may_open p
     \<and> p_env (snd (foldl ensure_step (acc, p) path)) = p_env p \<and> p_dirs p \<subseteq> p_dirs (snd (foldl ensure_step (acc, p) path))"
proof (induction path arbitrary: acc p)
  case (Cons c path)
  let ?p = "snd (ensure_step (acc, p) c)"
  have "p_dirs p \<subseteq> p_dirs ?p" using mkdir_mono by (auto simp: ensure_step_def Let_def)
  moreover have "foldl ensure_step (acc, p) (c # path) = foldl ensure_step (acc @ [c], ?p) path"
    by (simp add: ensure_step_def Let_def)
  moreover have "p_cache ?p = p_cache p \<and> p_files ?p = p_files p \<and> p_time ?p = p_time p \<and> p_may_create ?p = p_may_create p
      \<and> p_may_open ?p = p_may_open p \<and> p_env ?p = p_env p" by (simp add: ensure_step_def Let_def)
  ultimately show ?case using Cons.IH [of "acc @ [c]" ?p] by auto
qed simp

lemma ensureDir_keeps [simp]:
  "p_cache (ensureDir p path) = p_cache p" "p_files (ensureDir p path) = p_files p" "p_time (ensureDir p path) = p_time p"
  "p_may_open (ensureDir p path) = p_may_open p" "p_env (ensureDir p path) = p_env p"
  using ensure_loop_keeps [of "[]" p path] by (auto simp: ensureDir_def split: prod.split)

lemma ensureDir_mono: "p_dirs p \<subseteq> p_dirs (ensureDir p path)"
  using ensure_loop_keeps [of "[]" p path] mkdir_mono by (fastforce simp: ensureDir_def split: prod.split)

text \<open>One more character of a path.\<close>

lemma comp_cur: "snd (foldl comp_step ([], []) path) = [] \<longleftrightarrow> path = [] \<or> last path = CHR ''/''"
  by (cases path rule: rev_cases) (auto simp: comp_step_def split: prod.split)

lemma comps_slash: "comps (path @ ''/'') = comps path"
  by (auto simp: comps_def comp_step_def split: prod.split)

lemma comps_char:
  assumes "c \<noteq> CHR ''/''"
  shows "butlast (comps (path @ [c])) = (if path = [] \<or> last path = CHR ''/'' then comps path else butlast (comps path))"
    and "comps (path @ [c]) \<noteq> []"
proof -
  obtain ds cur where f: "foldl comp_step ([], []) path = (ds, cur)" by fastforce
  have "cur = [] \<longleftrightarrow> path = [] \<or> last path = CHR ''/''" using comp_cur [of path] f by simp
  with assms f show "butlast (comps (path @ [c])) = (if path = [] \<or> last path = CHR ''/'' then comps path else butlast (comps path))"
    by (auto simp: comps_def comp_step_def)
  from assms f show "comps (path @ [c]) \<noteq> []" by (auto simp: comps_def comp_step_def)
qed

text \<open>What holds in the loop of \<^verbatim>\<open>ensureDir\<close> after the part \<open>path\<close>.\<close>

definition parents_made :: "process \<Rightarrow> string \<Rightarrow> bool" where
  "parents_made p path \<longleftrightarrow>
     (comps path \<noteq> [] \<longrightarrow> (fst (dir_of path), butlast (comps path)) \<in> p_dirs p) \<and>
     (path \<noteq> [] \<and> last path = CHR ''/'' \<longrightarrow> dir_of path \<in> p_dirs p)"

lemma ensure_loop:
  assumes "(True, []) \<in> p_dirs p" and "(False, []) \<in> p_dirs p" and "\<forall>d. p_may_create p d"
  shows "parents_made (snd (foldl ensure_step ([], p) path)) path"
proof (induction path rule: rev_induct)
  case Nil
  show ?case by (simp add: parents_made_def comps_def)
next
  case (snoc c path)
  obtain acc p' where f: "foldl ensure_step ([], p) path = (acc, p')" by fastforce
  have acc: "acc = path" using ensure_fst [of "[]" p path] f by simp
  have keep: "(True, []) \<in> p_dirs p'" "(False, []) \<in> p_dirs p'" "p_may_create p' d" for d
    using ensure_loop_keeps [of "[]" p path] f assms(1,2) assms(3) [rule_format, of d] by auto
  from snoc f have inv: "parents_made p' path" by simp
  have hd: "path \<noteq> [] \<Longrightarrow> fst (dir_of (path @ [c])) = fst (dir_of path)" by (simp add: dir_of_def)
  show ?case
  proof (cases "c = CHR ''/''")
    case True
    have "parents_made (mkdir p' (path @ ''/'')) (path @ ''/'')" if "path \<noteq> []"
    proof -
      obtain a where a: "a = fst (dir_of path)" by simp
      then have d: "dir_of (path @ ''/'') = (a, comps path)" "a = fst (dir_of path)"
        using that comps_slash by (simp_all add: dir_of_def)
      show ?thesis
      proof (cases "comps path = []")
        case True
        then show ?thesis using d keep mkdir_mono [of p' "path @ ''/''"] comps_slash
          by (cases a) (auto simp: parents_made_def)
      next
        case False
        then have "(a, butlast (comps path)) \<in> p_dirs p'" using inv d by (auto simp: parents_made_def)
        then show ?thesis using False d keep comps_slash by (auto simp: parents_made_def mkdir_def Let_def)
      qed
    qed
    moreover have "parents_made p' (path @ ''/'')" if "path = []"
      using keep that by (simp add: parents_made_def comps_def comp_step_def dir_of_def)
    ultimately show ?thesis using f acc True by (cases "path = []") (auto simp: ensure_step_def Let_def)
  next
    case False
    have base: "(a, []) \<in> p_dirs p'" for a using keep by (cases a) auto
    have "parents_made p' (path @ [c])"
    proof (cases "comps path = []")
      case True
      then have "butlast (comps (path @ [c])) = []" using comps_char(1) [OF False, of path] by simp
      then show ?thesis using base False by (simp add: parents_made_def)
    next
      case ne: False
      then have "path \<noteq> []" by (auto simp: comps_def)
      with inv ne comps_char [OF False, of path] hd False show ?thesis
        by (auto simp: parents_made_def dir_of_def)
    qed
    then show ?thesis using f False by (simp add: ensure_step_def Let_def)
  qed
qed

lemma lower_words: "lower s \<in> set kWords \<Longrightarrow> parseMode s = RW \<longleftrightarrow> lower s \<in> {'''', ''rw'', ''on''}"
  by (auto simp: kWords_def parseMode_def)

lemma configure_cases:
  "configure p cm cd ym yd = Inr p' \<longleftrightarrow> lower (mode_string p cm ym) \<in> set kWords
     \<and> (\<exists>d. root_dir p cd yd = Inr d
         \<and> p' = p\<lparr>p_cache := \<lparr>cs_mode = parseMode (mode_string p cm ym), cs_root = d, cs_configured = True\<rparr>\<rparr>)"
  by (auto simp: configure_def Let_def split: sum.splits)

lemma resolve_configured:
  "resolveIfNeeded p = Inr p' \<Longrightarrow> cs_configured (p_cache p') \<and> resolveIfNeeded p' = Inr p' \<and> p_files p' = p_files p
     \<and> p_dirs p' = p_dirs p \<and> p_time p' = p_time p \<and> p_may_open p' = p_may_open p"
  by (auto simp: resolveIfNeeded_def configure_cases split: if_splits)

section \<open>Properties\<close>

text \<open>
  The precedence as a table: the first setting that is given, from the command line down to the
  default.
\<close>

definition first_given :: "string option list \<Rightarrow> string option" where
  "first_given xs = (case filter (\<lambda>x. x \<noteq> None) xs of x # _ \<Rightarrow> x | [] \<Rightarrow> None)"

definition given :: "string \<Rightarrow> string option" where
  "given s = (if s = '''' then None else Some s)"

definition mode_table :: "process \<Rightarrow> string \<Rightarrow> string \<Rightarrow> string option list" where
  "mode_table p cli yaml = [given cli, map_option (\<lambda>_. ''off'') (env p ''PIMID_CACHE_DISABLE''), env p ''PIMID_CACHE_MODE'',
     map_option (\<lambda>_. ''off'') (env p ''PIMID_NVSIM_CACHE_DISABLE''), given yaml]"

definition dir_table :: "process \<Rightarrow> string \<Rightarrow> string \<Rightarrow> string option list" where
  "dir_table p cli yaml = [given cli, env p ''PIMID_CACHE_DIR'', given yaml]"

text \<open>
  \<^verbatim>\<open>configure\<close> follows the documented precedence, command line over environment over YAML over
  default, and fails otherwise: it succeeds exactly when the first mode word given is one it
  knows and a root is given, or no stale \<^verbatim>\<open>PIMID_NVSIM_CACHE_DIR\<close> is in force and the binary can be located.
\<close>

theorem configure_precedence:
  "configure p cli_mode cli_dir yaml_mode yaml_dir =
     (let m = (case first_given (mode_table p cli_mode yaml_mode) of Some w \<Rightarrow> w | None \<Rightarrow> '''');
          stale = (cli_dir = '''' \<and> env p ''PIMID_CACHE_DIR'' = None \<and> env p ''PIMID_NVSIM_CACHE_DIR'' \<noteq> None);
          r = (if stale then Inl LegacyCacheDir
               else case first_given (dir_table p cli_dir yaml_dir) of Some d \<Rightarrow> Inr d | None \<Rightarrow> defaultRoot p)
      in if lower m \<notin> set kWords then Inl (UnknownMode m)
         else map_sum id (\<lambda>d. p\<lparr>p_cache := \<lparr>cs_mode = parseMode m, cs_root = d, cs_configured = True\<rparr>\<rparr>) r)"
proof -
  have m: "(case first_given (mode_table p cli_mode yaml_mode) of Some w \<Rightarrow> w | None \<Rightarrow> '''') = mode_string p cli_mode yaml_mode"
    by (auto simp: first_given_def mode_table_def given_def mode_string_def split: option.split)
  have r: "(if cli_dir = '''' \<and> env p ''PIMID_CACHE_DIR'' = None \<and> env p ''PIMID_NVSIM_CACHE_DIR'' \<noteq> None then Inl LegacyCacheDir
      else case first_given (dir_table p cli_dir yaml_dir) of Some d \<Rightarrow> Inr d | None \<Rightarrow> defaultRoot p) = root_dir p cli_dir yaml_dir"
    by (auto simp: first_given_def dir_table_def given_def root_dir_def split: option.split)
  show ?thesis unfolding m r Let_def configure_def by (auto split: sum.split)
qed

text \<open>
  No word runs read-write in silence: a configuration that succeeds with mode \<^verbatim>\<open>RW\<close> was given
  \<^verbatim>\<open>rw\<close>, \<^verbatim>\<open>on\<close> or nothing, in any case, and every mode is reached by its name as \<^verbatim>\<open>modeName\<close> prints it.
\<close>

theorem no_silent_rw:
  assumes "configure p cli_mode cli_dir yaml_mode yaml_dir = Inr p'"
  shows "(cs_mode (p_cache p') = RW \<longleftrightarrow> lower (mode_string p cli_mode yaml_mode) \<in> {'''', ''rw'', ''on''})
    \<and> configure p (modeName m) cli_dir yaml_mode yaml_dir = Inr (p'\<lparr>p_cache := p_cache p'\<lparr>cs_mode := m\<rparr>\<rparr>)"
proof -
  obtain d where d: "root_dir p cli_dir yaml_dir = Inr d" "lower (mode_string p cli_mode yaml_mode) \<in> set kWords"
      "p' = p\<lparr>p_cache := \<lparr>cs_mode = parseMode (mode_string p cli_mode yaml_mode), cs_root = d, cs_configured = True\<rparr>\<rparr>"
    using assms by (auto simp: configure_cases)
  have "mode_string p (modeName m) yaml_mode = modeName m" by (cases m) (simp_all add: mode_string_def)
  moreover have "parseMode (modeName m) = m" by (cases m) (simp_all add: parseMode_def lower_def tolower_def)
  moreover have "modeName m \<in> set kWords" by (cases m) (simp_all add: kWords_def)
  ultimately show ?thesis using d lower_words [OF d(2)] by (simp add: configure_def)
qed

definition sample_process :: process where
  "sample_process = \<lparr>p_cache = init_cache_state, p_env = (\<lambda>_. None), p_exe = Some ''/opt/pimid/build/pimid'', p_time = 7,
     p_dirs = {(True, []), (False, [])}, p_may_create = (\<lambda>_. True), p_may_open = (\<lambda>_. True), p_files = (\<lambda>_. '''')\<rparr>"

definition sample_configured :: process where
  "sample_configured = sample_process\<lparr>p_cache := \<lparr>cs_mode = RW, cs_root = ''/opt/pimid/cache'', cs_configured = True\<rparr>\<rparr>"

lemma lower_ON: "lower ''ON'' = ''on''"
  by (simp add: lower_def tolower_def char_of_def bit_iff_odd)

lemma sample_configure: "configure sample_process '''' '''' ''ON'' '''' = Inr sample_configured"
  by (simp add: configure_def Let_def mode_string_def env_def sample_process_def kWords_def lower_ON
      parseMode_def root_dir_def defaultRoot_def exeDir_def ends_with_def sample_configured_def)

theorem no_silent_rw_witness:
  "cs_mode (p_cache sample_configured) = RW
     \<and> configure sample_process ''ro'' '''' ''ON'' '''' =
         Inr (sample_configured\<lparr>p_cache := p_cache sample_configured\<lparr>cs_mode := RO\<rparr>\<rparr>)"
proof -
  have "mode_string sample_process '''' ''ON'' = ''ON''" by (simp add: mode_string_def env_def sample_process_def)
  then show ?thesis using no_silent_rw [OF sample_configure, of RO] by (simp add: lower_ON)
qed

text \<open>
  \<^verbatim>\<open>ensureDir\<close> makes the directory, like \<^verbatim>\<open>mkdir -p\<close>: every \<^verbatim>\<open>mkdir\<close> of it comes after that of the
  parent. Where the process may create directories, the named one exists afterwards, absolute or
  relative, with repeated or trailing slashes, and no directory is lost.
\<close>

theorem ensureDir_makes:
  assumes "path \<noteq> []" and "(True, []) \<in> p_dirs p" and "(False, []) \<in> p_dirs p" and "\<forall>d. p_may_create p d"
  shows "dir_of path \<in> p_dirs (ensureDir p path) \<and> p_dirs p \<subseteq> p_dirs (ensureDir p path)"
proof -
  obtain p' where f: "foldl ensure_step ([], p) path = (path, p')"
    using ensure_fst [of "[]" p path] by (metis append_Nil prod.collapse)
  have inv: "parents_made p' path" using ensure_loop [OF assms(2-4), of path] f by simp
  have keep: "p_dirs p \<subseteq> p_dirs p'" "p_may_create p' = p_may_create p"
    using ensure_loop_keeps [of "[]" p path] f by auto
  have "dir_of path \<in> p_dirs (mkdir p' path)"
  proof (cases "comps path = []")
    case True
    then have "dir_of path \<in> p_dirs p" using assms(2,3) by (cases "fst (dir_of path)") (auto simp: dir_of_def)
    with keep mkdir_mono show ?thesis by blast
  next
    case False
    with inv have "(fst (dir_of path), butlast (comps path)) \<in> p_dirs p'" by (simp add: parents_made_def)
    moreover have "dir_of path = (fst (dir_of path), comps path)" by (simp add: dir_of_def)
    ultimately show ?thesis using False keep assms(4) by (auto simp: mkdir_def Let_def split: prod.splits)
  qed
  then show ?thesis using f assms(1) ensureDir_mono [of p path] by (simp add: ensureDir_def)
qed

theorem ensureDir_makes_witness: "(True, [''opt'', ''cache'']) \<in> p_dirs (ensureDir sample_process ''/opt//cache/'')"
  using ensureDir_makes [of "''/opt//cache/''" sample_process]
  by (simp add: sample_process_def dir_of_def comps_def comp_step_def)

text \<open>
  The manifest is append-only: recording in a writing mode adds exactly the record as the last
  line of \<^verbatim>\<open>index.jsonl\<close>, after every line that was there, and changes no other file; in mode \<^verbatim>\<open>RO\<close> or \<^verbatim>\<open>OFF\<close>
  nothing is written, and no directory made.
\<close>

theorem recordManifest_appends:
  assumes "recordManifest p backend key params value = Inr p'" and "resolveIfNeeded p = Inr q"
    and "cs_root (p_cache q) @ ''/index.jsonl'' = manifest" and "p_may_open p manifest"
    and "NL \<notin> set (backend @ key @ params @ value)" and "p_files p manifest = unlines old"
    and "\<forall>l\<in>set old. NL \<notin> set l"
  shows "if cs_mode (p_cache q) \<in> {RW, WO}
     then getlines (p_files p' manifest) = old @ [manifest_record backend key (p_time p) params value]
       \<and> (\<forall>f. f \<noteq> manifest \<longrightarrow> p_files p' f = p_files p f)
     else p' = q \<and> p_files p' = p_files p \<and> p_dirs p' = p_dirs p"
proof -
  note q = resolve_configured [OF assms(2)]
  show ?thesis
  proof (cases "cs_mode (p_cache q) \<in> {RW, WO}")
    case True
    let ?r = "manifest_record backend key (p_time p) params value"
    have "NL \<notin> set (show_nat n)" for n using clean_show_nat [of n] by simp
    then have "NL \<notin> set ?r" using assms(5)
      by (auto simp: manifest_record_def quoted_def QT_def show_int_def kToolVersion_def NL_def)
    then have "getlines (unlines (old @ [?r])) = old @ [?r]" using assms(7) by (intro getlines_unlines) auto
    moreover have "p_files p' = (p_files p)(manifest := p_files p manifest @ ?r @ [NL])"
      using True q assms(1-4)
      by (auto simp: recordManifest_def writeEnabled_def warehouseRoot_def cache_mode_def Let_def)
    ultimately show ?thesis using True assms(6) by (simp add: unlines_def)
  next
    case False
    then have "p' = q" using assms(1,2)
      by (auto simp: recordManifest_def writeEnabled_def cache_mode_def)
    then show ?thesis using q False by simp
  qed
qed

theorem recordManifest_appends_witness:
  "\<exists>p'. recordManifest sample_configured ''nvsim'' ''k'' '''' '''' = Inr p'
     \<and> getlines (p_files p' ''/opt/pimid/cache/index.jsonl'') = [manifest_record ''nvsim'' ''k'' 7 '''' '''']"
proof -
  let ?p = sample_configured
  have q: "resolveIfNeeded ?p = Inr ?p" by (simp add: resolveIfNeeded_def sample_configured_def)
  have "\<exists>p'. recordManifest ?p ''nvsim'' ''k'' '''' '''' = Inr p'"
    by (simp add: recordManifest_def writeEnabled_def warehouseRoot_def cache_mode_def q Let_def)
  then obtain p' where p': "recordManifest ?p ''nvsim'' ''k'' '''' '''' = Inr p'" by blast
  from recordManifest_appends [OF p' q HOL.refl, of "[]"] have
    "getlines (p_files p' ''/opt/pimid/cache/index.jsonl'') = [manifest_record ''nvsim'' ''k'' 7 '''' '''']"
    by (simp add: sample_configured_def sample_process_def NL_def unlines_def)
  with p' show ?thesis by blast
qed

end
