(* ===== verification/Part_Records.thy ===== *)
theory Part_Records
  imports Network_Config Cache_Warehouse
begin

text \<open>
  The cache and the core record of src/params/part_records.cpp: the files that give every cache level and every core type its numbers. A
  loader that returns false with a message is \<open>Inl (Runtime message)\<close>; an exception of the YAML library that no handler of the loader
  catches is \<open>Inl (Yaml _)\<close>. The YAML library and the test whether a file can be opened are arguments. A number read from a file may be
  infinite or no number.
\<close>

section \<open>Reading records\<close>

text \<open>A \<^verbatim>\<open>double\<close> as the library reads it, with the comparisons of the language: none holds of a NaN.\<close>

datatype fnum = Fin double | PInf | NInf | NaN

fun f_less :: "fnum \<Rightarrow> fnum \<Rightarrow> bool" where
  "f_less (Fin x) (Fin y) = (x < y)"
| "f_less (Fin x) PInf = True"
| "f_less NInf (Fin y) = True"
| "f_less NInf PInf = True"
| "f_less _ _ = False"

fun f_le :: "fnum \<Rightarrow> fnum \<Rightarrow> bool" where
  "f_le NaN _ = False"
| "f_le _ NaN = False"
| "f_le x y = (f_less x y \<or> x = y)"

definition paramsDir :: "string option \<Rightarrow> string option \<Rightarrow> string" where
  "paramsDir pimid_params built_in =
     (let d = (case built_in of Some b \<Rightarrow> b | None \<Rightarrow> ''params'')
      in case pimid_params of Some e \<Rightarrow> if e \<noteq> [] then e else d | None \<Rightarrow> d)"

fun is_map :: "YNode \<Rightarrow> bool" where
  "is_map (YMap _) = True"
| "is_map _ = False"

fun is_scalar :: "YNode \<Rightarrow> bool" where
  "is_scalar (YScalar _) = True"
| "is_scalar _ = False"

text \<open>\<^verbatim>\<open>as<T>(d)\<close>: the default where the conversion fails.\<close>

definition as_or :: "(YNode \<Rightarrow> string + 'a) \<Rightarrow> 'a \<Rightarrow> YNode \<Rightarrow> 'a" where
  "as_or conv d n = (case conv n of Inl _ \<Rightarrow> d | Inr a \<Rightarrow> a)"

definition refuse :: "string \<Rightarrow> config_error + 'a" where
  "refuse msg = Inl (Runtime msg)"

definition check :: "bool \<Rightarrow> string \<Rightarrow> config_error + unit" where
  "check ok msg = (if ok then Inr () else refuse msg)"

text \<open>The keys that have to be there, each with the message for its absence.\<close>

fun present :: "yaml \<Rightarrow> YNode \<Rightarrow> (string \<times> string) list \<Rightarrow> config_error + unit" where
  "present y n [] = Inr ()"
| "present y n ((key, msg) # ks) = andThen (yaml_get y n key) (\<lambda>v. if v = YUndefined then refuse msg else present y n ks)"

text \<open>The file of a record; \<open>kind\<close> is \<^verbatim>\<open>cache\<close> or \<^verbatim>\<open>core\<close>.\<close>

definition record_file :: "string \<Rightarrow> string \<Rightarrow> string" where
  "record_file kind dir = dir @ ''/'' @ kind @ ''/default.yaml''"

definition record_node :: "yaml \<Rightarrow> (string \<Rightarrow> bool) \<Rightarrow> string \<Rightarrow> string \<Rightarrow> config_error + YNode" where
  "record_node y readable kind path =
     (if \<not> readable path
      then refuse (kind @ '' record '' @ path @ '' is missing. The simulator ships params/'' @ kind
             @ ''/default.yaml; set PIMID_PARAMS to a directory that holds '' @ kind @ ''/default.yaml.'')
      else case y_load_file y path of Inl e \<Rightarrow> refuse (kind @ '' record '' @ path @ '': '' @ e) | Inr n \<Rightarrow> Inr n)"

text \<open>\<^verbatim>\<open>std::stoi\<close>, \<open>None\<close> where it throws.\<close>

definition stoi :: "string \<Rightarrow> int option" where
  "stoi s = (case stoll s of Inl _ \<Rightarrow> None | Inr (v, _) \<Rightarrow> if - (2 ^ 31) \<le> v \<and> v < 2 ^ 31 then Some v else None)"

section \<open>The cache record\<close>

record CacheLevelRecord =
  cl_ways :: int
  cl_line_bytes :: int
  cl_banks :: int

record HostCacheLevelRecord =
  hc_kb :: int
  hc_ways :: int
  hc_cycles :: int
  hc_ns :: fnum
  hc_slices :: int

record HostCacheRecord =
  ho_l1d :: HostCacheLevelRecord
  ho_l1i :: HostCacheLevelRecord
  ho_l2 :: HostCacheLevelRecord
  ho_l3 :: HostCacheLevelRecord
  ho_l3_non_inclusive :: bool

record CacheRecord =
  ca_file :: string
  ca_record :: string
  ca_slice_mb :: int
  ca_max_slices :: int
  ca_home_hop_cycles :: int
  ca_l1d :: CacheLevelRecord
  ca_l1i :: CacheLevelRecord
  ca_l2 :: CacheLevelRecord
  ca_l3 :: CacheLevelRecord
  ca_host :: HostCacheRecord

definition cache_level :: "CacheRecord \<Rightarrow> string \<Rightarrow> CacheLevelRecord" where
  "cache_level r name = (if name = ''l1d'' then ca_l1d r else if name = ''l1i'' then ca_l1i r else if name = ''l2'' then ca_l2 r else ca_l3 r)"

definition cacheBanksSlice :: "int \<Rightarrow> int \<Rightarrow> int" where
  "cacheBanksSlice size_kb slice_mb = max 1 (min 32 (size_kb sdiv (max 1 slice_mb * 1024)))"

definition in_quotes :: "string \<Rightarrow> string" where
  "in_quotes s = [CHR 0x27] @ s @ [CHR 0x27]"

text \<open>The prefix of all messages of the record.\<close>

definition cache_msg :: "string \<Rightarrow> string \<Rightarrow> string" where
  "cache_msg file s = ''cache record '' @ file @ s"

definition bank_count :: "string \<Rightarrow> string \<Rightarrow> string \<Rightarrow> config_error + int" where
  "bank_count file name b =
     (if b = ''slice'' then Inr (-1)
      else let banks = (case stoi b of Some i \<Rightarrow> i | None \<Rightarrow> 0)
           in if banks < 1 \<or> banks > 32
              then refuse (cache_msg file ('': level '' @ in_quotes name @ '' banks '' @ in_quotes b @ '' is not ''
                     @ in_quotes ''slice'' @ '' or an integer in CACTI's range 1..32''))
              else Inr banks)"

definition loadCacheLevel :: "yaml \<Rightarrow> YNode \<Rightarrow> string \<Rightarrow> string \<Rightarrow> config_error + CacheLevelRecord" where
  "loadCacheLevel y n name file =
     (let lvl = '': level '' @ in_quotes name
      in if n = YUndefined \<or> \<not> is_map n then refuse (cache_msg file (lvl @ '' is missing''))
         else andThen (present y n (map (\<lambda>f. (f, cache_msg file (lvl @ '' lacks '' @ in_quotes f))) [''ways'', ''line_bytes'', ''banks''])) (\<lambda>_.
           andThen (yaml_get y n ''ways'') (\<lambda>w. andThen (yaml_get y n ''line_bytes'') (\<lambda>l. andThen (yaml_get y n ''banks'') (\<lambda>b.
           let ways = as_or (y_int y) (-1) w; line = as_or (y_int y) (-1) l
           in andThen (bank_count file name (as_or (y_string y) '''' b)) (\<lambda>banks.
              andThen (check (1 \<le> ways \<and> ways \<le> 64) (cache_msg file (lvl @ '' ways '' @ show_int ways @ '' outside 1..64''))) (\<lambda>_.
              andThen (check (line = 32 \<or> line = 64 \<or> line = 128) (cache_msg file (lvl @ '' line_bytes '' @ show_int line @ '' is not 32, 64 or 128''))) (\<lambda>_.
                Inr \<lparr>cl_ways = ways, cl_line_bytes = line, cl_banks = banks\<rparr>))))))))"

text \<open>
  The lambda \<^verbatim>\<open>lvl\<close> of \<^verbatim>\<open>loadCacheRecord\<close>, on the node \<open>h\<close> of the host: \<open>cyc\<close> and \<open>ns\<close> tell which latency the level has. A conversion
  that throws is caught.
\<close>

definition caught :: "string + 'a \<Rightarrow> string \<Rightarrow> config_error + 'a" where
  "caught x msg = (case x of Inl _ \<Rightarrow> refuse msg | Inr a \<Rightarrow> Inr a)"

definition read_key :: "yaml \<Rightarrow> YNode \<Rightarrow> string \<Rightarrow> (YNode \<Rightarrow> string + 'a) \<Rightarrow> string \<Rightarrow> config_error + 'a" where
  "read_key y n key conv msg = caught (case y_get y n key of Inl e \<Rightarrow> Inl e | Inr v \<Rightarrow> conv v) msg"

definition host_level ::
  "yaml \<Rightarrow> (YNode \<Rightarrow> string + fnum) \<Rightarrow> YNode \<Rightarrow> string \<Rightarrow> string \<Rightarrow> string \<Rightarrow> bool \<Rightarrow> bool \<Rightarrow> config_error + HostCacheLevelRecord" where
  "host_level y dbl h file name kbKey cyc ns =
     andThen (yaml_get y h name) (\<lambda>l.
       let lacks = cache_msg file ('': host.'' @ name @ '' lacks '' @ in_quotes kbKey @ '', '' @ in_quotes ''ways''
                     @ (if cyc then '' or '' @ in_quotes ''load_to_use_cycles'' else '''') @ (if ns then '' or '' @ in_quotes ''load_to_use_ns'' else ''''));
           bad = cache_msg file ('': host.'' @ name @ '' has a value that is not a number'')
       in if l = YUndefined \<or> \<not> is_map l then refuse lacks
          else andThen (present y l (map (\<lambda>k. (k, lacks)) ([kbKey, ''ways''] @ (if cyc then [''load_to_use_cycles''] else [])
                 @ (if ns then [''load_to_use_ns''] else [])))) (\<lambda>_.
            andThen (read_key y l kbKey (y_int y) bad) (\<lambda>kb.
            andThen (read_key y l ''ways'' (y_int y) bad) (\<lambda>ways.
            andThen (if cyc then read_key y l ''load_to_use_cycles'' (y_int y) bad else Inr (-1)) (\<lambda>cycles.
            andThen (if ns then read_key y l ''load_to_use_ns'' dbl bad else Inr (Fin (-1))) (\<lambda>t.
            andThen (check (\<not> (kb < 1 \<or> kb > 1048576 \<or> ways < 1 \<or> ways > 64 \<or> cyc \<and> (cycles < 1 \<or> cycles > 1000)
                        \<or> ns \<and> \<not> (f_less (Fin 0) t \<and> f_le t (Fin 10000))))
                     (cache_msg file ('': host.'' @ name @ '' has a value outside its range''))) (\<lambda>_.
              Inr \<lparr>hc_kb = kb, hc_ways = ways, hc_cycles = cycles, hc_ns = t, hc_slices = 1\<rparr>)))))))"

text \<open>The inclusion of the last level; every exception on the way to it counts as its absence.\<close>

definition inclusion_of :: "yaml \<Rightarrow> YNode \<Rightarrow> string" where
  "inclusion_of y h =
     (case y_get y h ''l3'' of Inl _ \<Rightarrow> '''' | Inr l \<Rightarrow>
       (case y_get y l ''inclusion'' of Inl _ \<Rightarrow> '''' | Inr v \<Rightarrow> if v = YUndefined then '''' else as_or (y_string y) '''' v))"

definition loadHostCaches :: "yaml \<Rightarrow> (YNode \<Rightarrow> string + fnum) \<Rightarrow> YNode \<Rightarrow> string \<Rightarrow> config_error + HostCacheRecord" where
  "loadHostCaches y dbl h file =
     andThen (host_level y dbl h file ''l1d'' ''kb'' True False) (\<lambda>l1d.
     andThen (host_level y dbl h file ''l1i'' ''kb'' False False) (\<lambda>l1i.
     andThen (host_level y dbl h file ''l2'' ''kb'' True False) (\<lambda>l2.
     andThen (host_level y dbl h file ''l3'' ''slice_kb'' False True) (\<lambda>l3.
     andThen (check (hc_cycles l1d < hc_cycles l2) (cache_msg file '': host.l2.load_to_use_cycles must exceed host.l1d.load_to_use_cycles'')) (\<lambda>_.
     let v = inclusion_of y h
     in if v = ''non-inclusive'' then Inr \<lparr>ho_l1d = l1d, ho_l1i = l1i, ho_l2 = l2, ho_l3 = l3, ho_l3_non_inclusive = True\<rparr>
        else if v = ''inclusive'' then Inr \<lparr>ho_l1d = l1d, ho_l1i = l1i, ho_l2 = l2, ho_l3 = l3, ho_l3_non_inclusive = False\<rparr>
        else refuse (cache_msg file ('': host.l3 lacks '' @ in_quotes ''inclusion'' @ '' (inclusive or non-inclusive)'')))))))"

definition level_at :: "yaml \<Rightarrow> YNode \<Rightarrow> string \<Rightarrow> string \<Rightarrow> config_error + CacheLevelRecord" where
  "level_at y n name file = andThen (yaml_get y n ''levels'') (\<lambda>ls. andThen (yaml_get y ls name) (\<lambda>l. loadCacheLevel y l name file))"

definition loadCacheRecord :: "yaml \<Rightarrow> (YNode \<Rightarrow> string + fnum) \<Rightarrow> (string \<Rightarrow> bool) \<Rightarrow> string \<Rightarrow> config_error + CacheRecord" where
  "loadCacheRecord y dbl readable dir =
     (let file = record_file ''cache'' dir
      in andThen (record_node y readable ''cache'' file) (\<lambda>n.
         andThen (present y n (map (\<lambda>k. (k, cache_msg file ('' lacks '' @ in_quotes ''record'' @ '', '' @ in_quotes ''slice_mb'' @ '' or '' @ in_quotes ''levels'')))
                    [''record'', ''slice_mb'', ''levels''])) (\<lambda>_.
         andThen (yaml_get y n ''record'') (\<lambda>rec.
         andThen (yaml_get y n ''slice_mb'') (\<lambda>sm.
         let slice = as_or (y_int y) 0 sm
         in andThen (check (1 \<le> slice \<and> slice \<le> 64) (cache_msg file ('': slice_mb '' @ show_int slice @ '' outside 1..64''))) (\<lambda>_.
         andThen (present y n (map (\<lambda>k. (k, cache_msg file ('' lacks '' @ in_quotes ''max_slices'' @ '' or '' @ in_quotes ''home_hop_cycles'' @ '' (1.11.101)'')))
                    [''max_slices'', ''home_hop_cycles''])) (\<lambda>_.
         andThen (yaml_get y n ''max_slices'') (\<lambda>ms.
         andThen (yaml_get y n ''home_hop_cycles'') (\<lambda>hh.
         let maxs = as_or (y_int y) 0 ms; hop = as_or (y_int y) (-1) hh
         in andThen (check (1 \<le> maxs \<and> maxs \<le> 32) (cache_msg file ('': max_slices '' @ show_int maxs @ '' outside CACTI's bank range 1..32''))) (\<lambda>_.
         andThen (check (0 \<le> hop \<and> hop \<le> 64) (cache_msg file ('': home_hop_cycles '' @ show_int hop @ '' outside 0..64''))) (\<lambda>_.
         andThen (level_at y n ''l1d'' file) (\<lambda>l1d.
         andThen (level_at y n ''l1i'' file) (\<lambda>l1i.
         andThen (level_at y n ''l2'' file) (\<lambda>l2.
         andThen (level_at y n ''l3'' file) (\<lambda>l3.
         andThen (yaml_get y n ''host'') (\<lambda>h.
         andThen (check (h \<noteq> YUndefined \<and> is_map h) (cache_msg file ('' lacks '' @ in_quotes ''host''))) (\<lambda>_.
         andThen (loadHostCaches y dbl h file) (\<lambda>host.
           Inr \<lparr>ca_file = file, ca_record = as_or (y_string y) '''' rec, ca_slice_mb = slice, ca_max_slices = maxs, ca_home_hop_cycles = hop,
             ca_l1d = l1d, ca_l1i = l1i, ca_l2 = l2, ca_l3 = l3, ca_host = host\<rparr>))))))))))))))))))"

section \<open>The core record\<close>

record CoreTypeRecord =
  ct_mispredict_penalty_cycles :: int
  ct_resteer_penalty_cycles :: int
  ct_fetch_width_bytes :: int
  ct_retire_width :: int
  ct_l1d_fill_buffers :: int
  ct_branch_predictor :: string
  ct_itlb_entries :: int
  ct_itlb_large_entries :: int
  ct_dtlb_entries :: int
  ct_dtlb_large_entries :: int
  ct_tlb_associativity :: int
  ct_stlb_entries :: int

record HostOooRecord =
  hr_rob_entries :: int
  hr_load_queue_entries :: int
  hr_store_queue_entries :: int
  hr_scheduler_entries :: int
  hr_l1d_fill_buffers :: int
  hr_store_buffer :: bool

record HostPrefetchRecord =
  hp_l2_streamer :: bool
  hp_spatial :: bool
  hp_streams :: int
  hp_distance_lines :: int
  hp_prefetches_per_lookup :: int
  hp_superqueue_entries :: int

record CoreRecord =
  co_file :: string
  co_record :: string
  co_in_order :: CoreTypeRecord
  co_ooo :: CoreTypeRecord
  co_ooo_host :: HostOooRecord
  co_host_prefetch :: HostPrefetchRecord

definition CoreTypeRecord_init :: CoreTypeRecord where
  "CoreTypeRecord_init = \<lparr>ct_mispredict_penalty_cycles = -1, ct_resteer_penalty_cycles = -1, ct_fetch_width_bytes = -1, ct_retire_width = -1,
     ct_l1d_fill_buffers = -1, ct_branch_predictor = '''', ct_itlb_entries = -1, ct_itlb_large_entries = -1, ct_dtlb_entries = -1,
     ct_dtlb_large_entries = -1, ct_tlb_associativity = -1, ct_stlb_entries = -1\<rparr>"

definition kOooRobRetireWidth :: int where "kOooRobRetireWidth = 4"

definition core_msg :: "string \<Rightarrow> string \<Rightarrow> string" where
  "core_msg file s = ''core record '' @ file @ s"

definition coreInt :: "yaml \<Rightarrow> string \<Rightarrow> YNode \<Rightarrow> string \<Rightarrow> string \<Rightarrow> int \<Rightarrow> int \<Rightarrow> config_error + int" where
  "coreInt y file n type key lo hi =
     andThen (present y n [(key, core_msg file ('': '' @ in_quotes type @ '' lacks '' @ in_quotes key))]) (\<lambda>_.
     andThen (read_key y n key (y_int y) (core_msg file ('': '' @ type @ ''.'' @ key @ '' is not an integer''))) (\<lambda>v.
     andThen (check (lo \<le> v \<and> v \<le> hi)
       (core_msg file ('': '' @ type @ ''.'' @ key @ '' '' @ show_int v @ '' outside '' @ show_int lo @ ''..'' @ show_int hi))) (\<lambda>_. Inr v)))"

text \<open>A flag, which has to be a scalar.\<close>

definition coreFlag :: "yaml \<Rightarrow> string \<Rightarrow> YNode \<Rightarrow> string \<Rightarrow> string \<Rightarrow> config_error + bool" where
  "coreFlag y file n type key =
     andThen (yaml_get y n key) (\<lambda>v.
       if v = YUndefined \<or> \<not> is_scalar v then refuse (core_msg file ('': '' @ in_quotes type @ '' lacks '' @ in_quotes key @ '' (true | false)''))
       else read_key y n key (y_bool y) (core_msg file ('': '' @ type @ ''.'' @ key @ '' is not true or false'')))"

definition section_of :: "yaml \<Rightarrow> string \<Rightarrow> YNode \<Rightarrow> string \<Rightarrow> config_error + YNode" where
  "section_of y file n key =
     andThen (yaml_get y n key) (\<lambda>v. if v = YUndefined \<or> \<not> is_map v then refuse (core_msg file ('' lacks '' @ in_quotes key)) else Inr v)"

definition pow2_int :: "int \<Rightarrow> bool" where
  "pow2_int a \<longleftrightarrow> a AND (a - 1) = 0"

definition loadOoo :: "yaml \<Rightarrow> string \<Rightarrow> YNode \<Rightarrow> config_error + CoreTypeRecord" where
  "loadOoo y file oo =
     (let num = coreInt y file oo ''ooo''
      in andThen (num ''mispredict_penalty_cycles'' 0 1000) (\<lambda>mis. andThen (num ''fetch_width_bytes'' 1 64) (\<lambda>fetch. andThen (num ''retire_width'' 1 64) (\<lambda>retire.
         andThen (num ''itlb_entries'' 1 65536) (\<lambda>itlb. andThen (num ''itlb_large_entries'' 0 65536) (\<lambda>itlbl.
         andThen (num ''dtlb_entries'' 1 65536) (\<lambda>dtlb. andThen (num ''dtlb_large_entries'' 0 65536) (\<lambda>dtlbl.
         andThen (num ''tlb_associativity'' 1 64) (\<lambda>a. andThen (num ''stlb_entries'' 0 1048576) (\<lambda>stlb.
         andThen (num ''l1d_fill_buffers'' 1 64) (\<lambda>fill.
         andThen (check (pow2_int a \<and> a \<le> dtlb \<and> a \<le> itlb) (core_msg file ('': ooo.tlb_associativity '' @ show_int a
                    @ '' must be a power of two no larger than either first-level TLB''))) (\<lambda>_.
           Inr (CoreTypeRecord_init\<lparr>ct_mispredict_penalty_cycles := mis, ct_fetch_width_bytes := fetch, ct_retire_width := retire, ct_itlb_entries := itlb,
             ct_itlb_large_entries := itlbl, ct_dtlb_entries := dtlb, ct_dtlb_large_entries := dtlbl, ct_tlb_associativity := a, ct_stlb_entries := stlb,
             ct_l1d_fill_buffers := fill\<rparr>)))))))))))))"

definition loadHostOoo :: "yaml \<Rightarrow> string \<Rightarrow> YNode \<Rightarrow> config_error + HostOooRecord" where
  "loadHostOoo y file oh =
     (let num = coreInt y file oh ''ooo_host''
      in andThen (num ''rob_entries'' 4 512) (\<lambda>rob. andThen (num ''load_queue_entries'' 1 256) (\<lambda>lq. andThen (num ''store_queue_entries'' 1 256) (\<lambda>sq.
         andThen (num ''scheduler_entries'' 1 255) (\<lambda>sch. andThen (num ''l1d_fill_buffers'' 0 64) (\<lambda>fill.
         andThen (coreFlag y file oh ''ooo_host'' ''store_buffer'') (\<lambda>sb.
           Inr \<lparr>hr_rob_entries = rob, hr_load_queue_entries = lq, hr_store_queue_entries = sq, hr_scheduler_entries = sch, hr_l1d_fill_buffers = fill,
             hr_store_buffer = sb\<rparr>)))))))"

definition loadHostPrefetch :: "yaml \<Rightarrow> string \<Rightarrow> YNode \<Rightarrow> config_error + HostPrefetchRecord" where
  "loadHostPrefetch y file hp =
     (let num = coreInt y file hp ''host_prefetch''
      in andThen (coreFlag y file hp ''host_prefetch'' ''l2_streamer'') (\<lambda>st. andThen (coreFlag y file hp ''host_prefetch'' ''spatial'') (\<lambda>sp.
         andThen (num ''streams'' 1 64) (\<lambda>streams. andThen (num ''distance_lines'' 1 63) (\<lambda>dl. andThen (num ''prefetches_per_lookup'' 1 8) (\<lambda>ppl.
         andThen (num ''superqueue_entries'' 1 128) (\<lambda>sq.
           Inr \<lparr>hp_l2_streamer = st, hp_spatial = sp, hp_streams = streams, hp_distance_lines = dl, hp_prefetches_per_lookup = ppl,
             hp_superqueue_entries = sq\<rparr>)))))))"

text \<open>\<^verbatim>\<open>in_order.retire_width\<close> is the word \<^verbatim>\<open>issue\<close>, and \<^verbatim>\<open>in_order.branch_predictor\<close> one of two words.\<close>

definition retires_issue :: "yaml \<Rightarrow> string \<Rightarrow> YNode \<Rightarrow> config_error + unit" where
  "retires_issue y file io =
     andThen (yaml_get y io ''retire_width'') (\<lambda>v.
       check (v \<noteq> YUndefined \<and> as_or (y_string y) '''' v = ''issue'')
         (core_msg file ('': in_order.retire_width must be '' @ in_quotes ''issue'' @ '' (InOrderCore issues and commits on one cursor, so it retires exactly''
            @ '' its issue width; an integer would price a retire limit the timing core does not have)'')))"

definition branch_predictor_of :: "yaml \<Rightarrow> string \<Rightarrow> YNode \<Rightarrow> config_error + string" where
  "branch_predictor_of y file io =
     andThen (present y io [(''branch_predictor'', core_msg file ('': '' @ in_quotes ''in_order'' @ '' lacks '' @ in_quotes ''branch_predictor''
         @ '' (in_order.branch_predictor: pag | none, required since 1.12.1)''))]) (\<lambda>_.
     andThen (yaml_get y io ''branch_predictor'') (\<lambda>v.
       let w = (case v of YScalar s \<Rightarrow> s | _ \<Rightarrow> '''')
       in andThen (check (w = ''pag'' \<or> w = ''none'') (core_msg file ('': in_order.branch_predictor '' @ in_quotes w
              @ '' is not pag or none (pag: the PAg direction predictor + BTB + RAS; none: no prediction structure, static not-taken)''))) (\<lambda>_. Inr w)))"

definition loadCoreRecord :: "yaml \<Rightarrow> (string \<Rightarrow> bool) \<Rightarrow> string \<Rightarrow> config_error + CoreRecord" where
  "loadCoreRecord y readable dir =
     (let file = record_file ''core'' dir;
          lacks = core_msg file ('' lacks '' @ in_quotes ''record'' @ '', '' @ in_quotes ''in_order'' @ '' or '' @ in_quotes ''ooo'')
      in andThen (record_node y readable ''core'' file) (\<lambda>n.
         andThen (present y n (map (\<lambda>k. (k, lacks)) [''record'', ''in_order'', ''ooo''])) (\<lambda>_.
         andThen (yaml_get y n ''in_order'') (\<lambda>io. andThen (yaml_get y n ''ooo'') (\<lambda>oo.
         andThen (check (is_map io \<and> is_map oo) lacks) (\<lambda>_.
         andThen (yaml_get y n ''record'') (\<lambda>rec.
         andThen (coreInt y file io ''in_order'' ''mispredict_penalty_cycles'' 0 1000) (\<lambda>mis.
         andThen (coreInt y file io ''in_order'' ''resteer_penalty_cycles'' 0 1000) (\<lambda>resteer.
         andThen (coreInt y file io ''in_order'' ''fetch_width_bytes'' 1 64) (\<lambda>fetch.
         andThen (loadOoo y file oo) (\<lambda>ooo.
         andThen (section_of y file n ''ooo_host'') (\<lambda>oh. andThen (loadHostOoo y file oh) (\<lambda>host.
         andThen (section_of y file n ''host_prefetch'') (\<lambda>hp. andThen (loadHostPrefetch y file hp) (\<lambda>pre.
         andThen (retires_issue y file io) (\<lambda>_.
         andThen (branch_predictor_of y file io) (\<lambda>bp.
         andThen (check (resteer \<le> mis) (core_msg file ('': in_order.resteer_penalty_cycles '' @ show_int resteer @ '' exceeds mispredict_penalty_cycles ''
                    @ show_int mis @ '' (a decode-depth resteer cannot cost more than an execute-depth flush)''))) (\<lambda>_.
         andThen (check (ct_retire_width ooo = kOooRobRetireWidth) (core_msg file ('': ooo.retire_width '' @ show_int (ct_retire_width ooo)
                    @ '' is not the retire width zsim OOOCore is compiled with ('' @ show_int kOooRobRetireWidth
                    @ '', ReorderBuffer<128, 4> in external/zsim/src/ooo_core.h); McPAT would price a commit width the timing core does not simulate''))) (\<lambda>_.
           Inr \<lparr>co_file = file, co_record = as_or (y_string y) '''' rec,
             co_in_order = CoreTypeRecord_init\<lparr>ct_mispredict_penalty_cycles := mis, ct_resteer_penalty_cycles := resteer, ct_fetch_width_bytes := fetch,
               ct_retire_width := -1, ct_branch_predictor := bp\<rparr>,
             co_ooo = ooo, co_ooo_host = host, co_host_prefetch = pre\<rparr>)))))))))))))))))))"

section \<open>What is accepted\<close>

lemma andThen_Inr: "andThen x f = Inr b \<longleftrightarrow> (\<exists>a. x = Inr a \<and> f a = Inr b)"
  by (cases x) auto

lemma check_Inr [simp]: "check ok msg = Inr u \<longleftrightarrow> ok"
  by (simp add: check_def refuse_def)

lemma refuse_Inr [simp]: "refuse msg \<noteq> Inr a"
  by (simp add: refuse_def)

lemma yaml_get_Inr [simp]: "yaml_get y n key = Inr v \<longleftrightarrow> y_get y n key = Inr v"
  by (cases "y_get y n key") (simp_all add: yaml_get_def)

text \<open>A key that is there, with a value that a conversion gives.\<close>

definition value_at :: "yaml \<Rightarrow> (YNode \<Rightarrow> string + 'a) \<Rightarrow> YNode \<Rightarrow> string \<Rightarrow> 'a \<Rightarrow> bool" where
  "value_at y conv n key v \<longleftrightarrow> (\<exists>c. y_get y n key = Inr c \<and> c \<noteq> YUndefined \<and> conv c = Inr v)"

definition int_in :: "yaml \<Rightarrow> YNode \<Rightarrow> string \<Rightarrow> int \<Rightarrow> int \<Rightarrow> int \<Rightarrow> bool" where
  "int_in y n key lo hi v \<longleftrightarrow> value_at y (y_int y) n key v \<and> lo \<le> v \<and> v \<le> hi"

text \<open>The fields of a section: key, bounds, and the field of the record.\<close>

type_synonym 'r field_table = "(string \<times> int \<times> int \<times> ('r \<Rightarrow> int)) list"

definition fields_in :: "yaml \<Rightarrow> YNode \<Rightarrow> 'r field_table \<Rightarrow> 'r \<Rightarrow> bool" where
  "fields_in y n fs r \<longleftrightarrow> list_all (\<lambda>(key, lo, hi, f). int_in y n key lo hi (f r)) fs"

lemma present_Inr: "present y n ks = Inr u \<longleftrightarrow> list_all (\<lambda>(key, _). \<exists>c. y_get y n key = Inr c \<and> c \<noteq> YUndefined) ks"
  by (induction ks) (auto simp: andThen_Inr split: if_splits)

lemma read_key_Inr: "read_key y n key conv msg = Inr v \<longleftrightarrow> (\<exists>c. y_get y n key = Inr c \<and> conv c = Inr v)"
  by (auto simp: read_key_def caught_def refuse_def split: sum.splits)

lemma coreInt_Inr: "coreInt y file n type key lo hi = Inr v \<longleftrightarrow> int_in y n key lo hi v"
  by (auto simp: coreInt_def int_in_def value_at_def andThen_Inr present_Inr read_key_Inr)

lemma coreFlag_Inr: "coreFlag y file n type key = Inr b \<longleftrightarrow> value_at y (\<lambda>c. if is_scalar c then y_bool y c else Inl '''') n key b"
  by (auto simp: coreFlag_def value_at_def andThen_Inr read_key_Inr split: if_splits)

lemma section_of_Inr: "section_of y file n key = Inr v \<longleftrightarrow> y_get y n key = Inr v \<and> is_map v"
  by (cases v) (auto simp: section_of_def andThen_Inr split: if_splits)

definition in_order_fields :: "CoreTypeRecord field_table" where
  "in_order_fields = [(''mispredict_penalty_cycles'', 0, 1000, ct_mispredict_penalty_cycles), (''resteer_penalty_cycles'', 0, 1000, ct_resteer_penalty_cycles),
     (''fetch_width_bytes'', 1, 64, ct_fetch_width_bytes)]"

definition ooo_fields :: "CoreTypeRecord field_table" where
  "ooo_fields = [(''mispredict_penalty_cycles'', 0, 1000, ct_mispredict_penalty_cycles), (''fetch_width_bytes'', 1, 64, ct_fetch_width_bytes),
     (''retire_width'', 1, 64, ct_retire_width), (''itlb_entries'', 1, 65536, ct_itlb_entries), (''itlb_large_entries'', 0, 65536, ct_itlb_large_entries),
     (''dtlb_entries'', 1, 65536, ct_dtlb_entries), (''dtlb_large_entries'', 0, 65536, ct_dtlb_large_entries),
     (''tlb_associativity'', 1, 64, ct_tlb_associativity), (''stlb_entries'', 0, 1048576, ct_stlb_entries), (''l1d_fill_buffers'', 1, 64, ct_l1d_fill_buffers)]"

definition ooo_host_fields :: "HostOooRecord field_table" where
  "ooo_host_fields = [(''rob_entries'', 4, 512, hr_rob_entries), (''load_queue_entries'', 1, 256, hr_load_queue_entries),
     (''store_queue_entries'', 1, 256, hr_store_queue_entries), (''scheduler_entries'', 1, 255, hr_scheduler_entries), (''l1d_fill_buffers'', 0, 64, hr_l1d_fill_buffers)]"

definition prefetch_fields :: "HostPrefetchRecord field_table" where
  "prefetch_fields = [(''streams'', 1, 64, hp_streams), (''distance_lines'', 1, 63, hp_distance_lines),
     (''prefetches_per_lookup'', 1, 8, hp_prefetches_per_lookup), (''superqueue_entries'', 1, 128, hp_superqueue_entries)]"

text \<open>The fields that a core type does not carry.\<close>

definition in_order_unset :: "CoreTypeRecord \<Rightarrow> bool" where
  "in_order_unset r \<longleftrightarrow> ct_retire_width r = -1 \<and> ct_l1d_fill_buffers r = -1 \<and> ct_itlb_entries r = -1 \<and> ct_itlb_large_entries r = -1 \<and> ct_dtlb_entries r = -1
     \<and> ct_dtlb_large_entries r = -1 \<and> ct_tlb_associativity r = -1 \<and> ct_stlb_entries r = -1"

definition ooo_unset :: "CoreTypeRecord \<Rightarrow> bool" where
  "ooo_unset r \<longleftrightarrow> ct_resteer_penalty_cycles r = -1 \<and> ct_branch_predictor r = ''''"

lemma loadOoo_Inr:
  "loadOoo y file oo = Inr r \<longleftrightarrow> fields_in y oo ooo_fields r \<and> ooo_unset r \<and> pow2_int (ct_tlb_associativity r)
     \<and> ct_tlb_associativity r \<le> ct_dtlb_entries r \<and> ct_tlb_associativity r \<le> ct_itlb_entries r"
  by (cases r) (auto simp: loadOoo_def fields_in_def ooo_fields_def ooo_unset_def andThen_Inr coreInt_Inr CoreTypeRecord_init_def Let_def)

lemma loadHostOoo_Inr:
  "loadHostOoo y file oh = Inr r \<longleftrightarrow> fields_in y oh ooo_host_fields r
     \<and> value_at y (\<lambda>c. if is_scalar c then y_bool y c else Inl '''') oh ''store_buffer'' (hr_store_buffer r)"
  by (cases r) (auto simp: loadHostOoo_def fields_in_def ooo_host_fields_def andThen_Inr coreInt_Inr coreFlag_Inr Let_def)

lemma loadHostPrefetch_Inr:
  "loadHostPrefetch y file hp = Inr r \<longleftrightarrow> fields_in y hp prefetch_fields r
     \<and> value_at y (\<lambda>c. if is_scalar c then y_bool y c else Inl '''') hp ''l2_streamer'' (hp_l2_streamer r)
     \<and> value_at y (\<lambda>c. if is_scalar c then y_bool y c else Inl '''') hp ''spatial'' (hp_spatial r)"
  by (cases r) (auto simp: loadHostPrefetch_def fields_in_def prefetch_fields_def andThen_Inr coreInt_Inr coreFlag_Inr Let_def)

lemma as_or_eq: "a \<noteq> d \<Longrightarrow> as_or conv d n = a \<longleftrightarrow> conv n = Inr a"
  by (auto simp: as_or_def split: sum.splits)

lemma retires_issue_Inr: "retires_issue y file io = Inr u \<longleftrightarrow> value_at y (y_string y) io ''retire_width'' ''issue''"
  by (cases "y_get y io ''retire_width''") (auto simp: retires_issue_def value_at_def andThen_Inr as_or_eq)

lemma branch_predictor_Inr:
  "branch_predictor_of y file io = Inr w \<longleftrightarrow> y_get y io ''branch_predictor'' = Inr (YScalar w) \<and> (w = ''pag'' \<or> w = ''none'')"
proof (cases "y_get y io ''branch_predictor''")
  case (Inr v)
  then show ?thesis by (cases v) (auto simp: branch_predictor_of_def andThen_Inr present_Inr Let_def)
qed (simp add: branch_predictor_of_def andThen_Inr present_Inr)

text \<open>A core record and the document it is read from.\<close>

definition core_conforms :: "yaml \<Rightarrow> YNode \<Rightarrow> CoreRecord \<Rightarrow> bool" where
  "core_conforms y n r \<longleftrightarrow>
     (\<exists>io oo oh hp rec. y_get y n ''in_order'' = Inr io \<and> is_map io \<and> y_get y n ''ooo'' = Inr oo \<and> is_map oo
        \<and> y_get y n ''ooo_host'' = Inr oh \<and> is_map oh \<and> y_get y n ''host_prefetch'' = Inr hp \<and> is_map hp
        \<and> y_get y n ''record'' = Inr rec \<and> rec \<noteq> YUndefined \<and> co_record r = as_or (y_string y) '''' rec
        \<and> fields_in y io in_order_fields (co_in_order r) \<and> in_order_unset (co_in_order r)
        \<and> value_at y (y_string y) io ''retire_width'' ''issue''
        \<and> y_get y io ''branch_predictor'' = Inr (YScalar (ct_branch_predictor (co_in_order r))) \<and> ct_branch_predictor (co_in_order r) \<in> {''pag'', ''none''}
        \<and> ct_resteer_penalty_cycles (co_in_order r) \<le> ct_mispredict_penalty_cycles (co_in_order r)
        \<and> fields_in y oo ooo_fields (co_ooo r) \<and> ooo_unset (co_ooo r) \<and> ct_retire_width (co_ooo r) = kOooRobRetireWidth
        \<and> ct_tlb_associativity (co_ooo r) \<in> {1, 2, 4, 8, 16, 32, 64}
        \<and> ct_tlb_associativity (co_ooo r) \<le> ct_dtlb_entries (co_ooo r) \<and> ct_tlb_associativity (co_ooo r) \<le> ct_itlb_entries (co_ooo r)
        \<and> fields_in y oh ooo_host_fields (co_ooo_host r)
        \<and> value_at y (\<lambda>c. if is_scalar c then y_bool y c else Inl '''') oh ''store_buffer'' (hr_store_buffer (co_ooo_host r))
        \<and> fields_in y hp prefetch_fields (co_host_prefetch r)
        \<and> value_at y (\<lambda>c. if is_scalar c then y_bool y c else Inl '''') hp ''l2_streamer'' (hp_l2_streamer (co_host_prefetch r))
        \<and> value_at y (\<lambda>c. if is_scalar c then y_bool y c else Inl '''') hp ''spatial'' (hp_spatial (co_host_prefetch r)))"

lemma pow2_upto_64: "1 \<le> a \<Longrightarrow> a \<le> 64 \<Longrightarrow> pow2_int a \<longleftrightarrow> a \<in> {1, 2, 4, 8, 16, 32, 64}"
proof -
  assume "1 \<le> a" "a \<le> 64"
  then have "a = int (nat a)" "nat a \<in> set [1..<65]" by auto
  moreover have "\<forall>k\<in>set [1..<65]. pow2_int (int k) \<longleftrightarrow> int k \<in> {1, 2, 4, 8, 16, 32, 64}" by code_simp
  ultimately show ?thesis by metis
qed

lemma record_node_Inr: "record_node y readable kind file = Inr n \<longleftrightarrow> readable file \<and> y_load_file y file = Inr n"
  by (auto simp: record_node_def split: sum.splits)

lemma is_map_defined: "is_map n \<Longrightarrow> n \<noteq> YUndefined"
  by auto

lemmas core_Inr = andThen_Inr record_node_Inr present_Inr coreInt_Inr loadOoo_Inr section_of_Inr loadHostOoo_Inr loadHostPrefetch_Inr
  retires_issue_Inr branch_predictor_Inr

text \<open>
  C39: the core record. It is loaded exactly when its file can be read and conforms: every section and every key is there, every number is an
  integer inside its range, the associativity is a power of two that fits both first-level buffers, a resteer does not cost more than a flush, and the
  retire width is that of the simulated core; and the record then has the values of the file. Everything else is refused.
\<close>

theorem loadCoreRecord_iff:
  "loadCoreRecord y readable dir = Inr r \<longleftrightarrow>
     co_file r = record_file ''core'' dir \<and> readable (co_file r) \<and> (\<exists>n. y_load_file y (co_file r) = Inr n \<and> core_conforms y n r)"
proof -
  have assoc: "fields_in y oo ooo_fields c \<Longrightarrow> pow2_int (ct_tlb_associativity c) \<longleftrightarrow> ct_tlb_associativity c \<in> {1, 2, 4, 8, 16, 32, 64}" for oo c
    by (rule pow2_upto_64) (simp_all add: fields_in_def ooo_fields_def int_in_def)
  have io: "c = CoreTypeRecord_init\<lparr>ct_mispredict_penalty_cycles := m, ct_resteer_penalty_cycles := t, ct_fetch_width_bytes := f, ct_retire_width := -1,
      ct_branch_predictor := bp\<rparr> \<longleftrightarrow> in_order_unset c \<and> ct_mispredict_penalty_cycles c = m \<and> ct_resteer_penalty_cycles c = t \<and> ct_fetch_width_bytes c = f
      \<and> ct_branch_predictor c = bp" for c m t f bp
    by (cases c) (auto simp: in_order_unset_def CoreTypeRecord_init_def)
  have rec: "\<lparr>co_file = f, co_record = n, co_in_order = i, co_ooo = oo, co_ooo_host = oh, co_host_prefetch = hp\<rparr> = r \<longleftrightarrow>
      co_file r = f \<and> co_record r = n \<and> co_in_order r = i \<and> co_ooo r = oo \<and> co_ooo_host r = oh \<and> co_host_prefetch r = hp" for f n i oo oh hp
    by (cases r) auto
  let ?f = "record_file ''core'' dir"
  show ?thesis
  proof (cases "readable ?f \<and> (\<exists>n io oo oh hp name. y_load_file y ?f = Inr n \<and> y_get y n ''in_order'' = Inr io \<and> y_get y n ''ooo'' = Inr oo
      \<and> y_get y n ''ooo_host'' = Inr oh \<and> y_get y n ''host_prefetch'' = Inr hp \<and> y_get y n ''record'' = Inr name)")
    case True
    then obtain n io oo oh hp name where get: "readable ?f" "y_load_file y ?f = Inr n" "y_get y n ''in_order'' = Inr io" "y_get y n ''ooo'' = Inr oo"
      "y_get y n ''ooo_host'' = Inr oh" "y_get y n ''host_prefetch'' = Inr hp" "y_get y n ''record'' = Inr name" by blast
    have fields: "fields_in y io in_order_fields c \<longleftrightarrow> int_in y io ''mispredict_penalty_cycles'' 0 1000 (ct_mispredict_penalty_cycles c)
        \<and> int_in y io ''resteer_penalty_cycles'' 0 1000 (ct_resteer_penalty_cycles c) \<and> int_in y io ''fetch_width_bytes'' 1 64 (ct_fetch_width_bytes c)" for c
      by (simp add: fields_in_def in_order_fields_def)
    have "loadCoreRecord y readable dir = Inr r \<longleftrightarrow> co_file r = ?f \<and> core_conforms y n r"
      using is_map_defined [of io] is_map_defined [of oo] assoc [of oo "co_ooo r"]
      by (simp add: loadCoreRecord_def core_Inr Let_def rec io get core_conforms_def fields) blast
    then show ?thesis using get by auto
  next
    case False
    then have "loadCoreRecord y readable dir \<noteq> Inr r" by (auto simp: loadCoreRecord_def core_Inr Let_def)
    moreover have "\<not> core_conforms y n r" if "readable ?f" "y_load_file y ?f = Inr n" for n using False that by (auto simp: core_conforms_def)
    ultimately show ?thesis by auto
  qed
qed

section \<open>The cache record\<close>

text \<open>
  The word for the banks of a level, as the record's documentation and the error message have it: the slice rule, or a text that is an integer, all of
  it, in \<open>1\<close> to \<open>32\<close>. What the loader takes is wider: \<^verbatim>\<open>std::stoi\<close> reads the integer at the start of a text and drops the rest. The two differ on a text
  with something behind its integer, and on no other (\<open>banks_read_tidy\<close>).
\<close>

definition banks_word :: "string \<Rightarrow> int \<Rightarrow> bool" where
  "banks_word b v \<longleftrightarrow> (if b = ''slice'' then v = -1 else stoll b = Inr (v, length b) \<and> 1 \<le> v \<and> v \<le> 32)"

definition banks_read :: "string \<Rightarrow> int \<Rightarrow> bool" where
  "banks_read b v \<longleftrightarrow> (if b = ''slice'' then v = -1 else stoi b = Some v \<and> 1 \<le> v \<and> v \<le> 32)"

definition tidy_text :: "string \<Rightarrow> bool" where
  "tidy_text b \<longleftrightarrow> (case stoll b of Inl _ \<Rightarrow> True | Inr (v, used) \<Rightarrow> used = length b)"

lemma banks_read_word: "banks_word b v \<Longrightarrow> banks_read b v"
  by (auto simp: banks_word_def banks_read_def stoi_def split: if_splits)

lemma banks_read_tidy: "banks_read b v \<Longrightarrow> tidy_text b \<Longrightarrow> banks_word b v"
  by (auto simp: banks_word_def banks_read_def tidy_text_def stoi_def split: if_splits sum.splits)

text \<open>A level and a file conform with respect to a reading \<open>bw\<close> of the banks.\<close>

definition level_conforms :: "(string \<Rightarrow> int \<Rightarrow> bool) \<Rightarrow> yaml \<Rightarrow> YNode \<Rightarrow> CacheLevelRecord \<Rightarrow> bool" where
  "level_conforms bw y n r \<longleftrightarrow> is_map n \<and> int_in y n ''ways'' 1 64 (cl_ways r) \<and> value_at y (y_int y) n ''line_bytes'' (cl_line_bytes r)
     \<and> cl_line_bytes r \<in> {32, 64, 128} \<and> (\<exists>b. value_at y (y_string y) n ''banks'' b \<and> bw b (cl_banks r))"

definition host_conforms :: "yaml \<Rightarrow> (YNode \<Rightarrow> string + fnum) \<Rightarrow> YNode \<Rightarrow> string \<Rightarrow> string \<Rightarrow> bool \<Rightarrow> bool \<Rightarrow> HostCacheLevelRecord \<Rightarrow> bool" where
  "host_conforms y dbl h name kbKey cyc ns r \<longleftrightarrow>
     (\<exists>l. y_get y h name = Inr l \<and> is_map l \<and> int_in y l kbKey 1 1048576 (hc_kb r) \<and> int_in y l ''ways'' 1 64 (hc_ways r)
        \<and> (if cyc then int_in y l ''load_to_use_cycles'' 1 1000 (hc_cycles r) else hc_cycles r = -1)
        \<and> (if ns then \<exists>t. hc_ns r = Fin t \<and> value_at y dbl l ''load_to_use_ns'' (Fin t) \<and> 0 < t \<and> t \<le> 10000 else hc_ns r = Fin (-1)) \<and> hc_slices r = 1)"

definition hosts_conform :: "yaml \<Rightarrow> (YNode \<Rightarrow> string + fnum) \<Rightarrow> YNode \<Rightarrow> HostCacheRecord \<Rightarrow> bool" where
  "hosts_conform y dbl h r \<longleftrightarrow> host_conforms y dbl h ''l1d'' ''kb'' True False (ho_l1d r) \<and> host_conforms y dbl h ''l1i'' ''kb'' False False (ho_l1i r)
     \<and> host_conforms y dbl h ''l2'' ''kb'' True False (ho_l2 r) \<and> host_conforms y dbl h ''l3'' ''slice_kb'' False True (ho_l3 r)
     \<and> hc_cycles (ho_l1d r) < hc_cycles (ho_l2 r)
     \<and> (\<exists>l. y_get y h ''l3'' = Inr l \<and> value_at y (y_string y) l ''inclusion'' (if ho_l3_non_inclusive r then ''non-inclusive'' else ''inclusive''))"

definition cache_conforms ::
  "(string \<Rightarrow> int \<Rightarrow> bool) \<Rightarrow> yaml \<Rightarrow> (YNode \<Rightarrow> string + fnum) \<Rightarrow> YNode \<Rightarrow> CacheRecord \<Rightarrow> bool" where
  "cache_conforms bw y dbl n r \<longleftrightarrow>
     int_in y n ''slice_mb'' 1 64 (ca_slice_mb r) \<and> int_in y n ''max_slices'' 1 32 (ca_max_slices r) \<and> int_in y n ''home_hop_cycles'' 0 64 (ca_home_hop_cycles r)
     \<and> (\<exists>name ls h. y_get y n ''record'' = Inr name \<and> name \<noteq> YUndefined \<and> ca_record r = as_or (y_string y) '''' name
          \<and> y_get y n ''levels'' = Inr ls \<and> ls \<noteq> YUndefined
          \<and> (\<forall>(key, l)\<in>{(''l1d'', ca_l1d r), (''l1i'', ca_l1i r), (''l2'', ca_l2 r), (''l3'', ca_l3 r)}. \<exists>c. y_get y ls key = Inr c \<and> level_conforms bw y c l)
          \<and> y_get y n ''host'' = Inr h \<and> is_map h \<and> hosts_conform y dbl h (ca_host r))"

text \<open>No level of the file has something behind the integer of its banks.\<close>

definition banks_tidy :: "yaml \<Rightarrow> YNode \<Rightarrow> bool" where
  "banks_tidy y n \<longleftrightarrow> (case y_get y n ''levels'' of Inl _ \<Rightarrow> True | Inr ls \<Rightarrow>
     list_all (\<lambda>key. case y_get y ls key of Inl _ \<Rightarrow> True | Inr c \<Rightarrow>
       (case y_get y c ''banks'' of Inl _ \<Rightarrow> True | Inr b \<Rightarrow> (case y_string y b of Inl _ \<Rightarrow> True | Inr t \<Rightarrow> tidy_text t)))
     [''l1d'', ''l1i'', ''l2'', ''l3''])"

lemma level_conforms_mono: "level_conforms banks_word y n r \<Longrightarrow> level_conforms banks_read y n r"
  using banks_read_word by (auto simp: level_conforms_def)

lemma cache_conforms_mono: "cache_conforms banks_word y dbl n r \<Longrightarrow> cache_conforms banks_read y dbl n r"
  unfolding cache_conforms_def using level_conforms_mono by fastforce

lemma level_conforms_tidy:
  assumes "level_conforms banks_read y c l" and "\<And>b t. y_get y c ''banks'' = Inr b \<Longrightarrow> y_string y b = Inr t \<Longrightarrow> tidy_text t"
  shows "level_conforms banks_word y c l"
  using assms banks_read_tidy by (auto simp: level_conforms_def value_at_def)

lemma banks_tidyD:
  assumes "banks_tidy y n" and "y_get y n ''levels'' = Inr ls" and "key \<in> {''l1d'', ''l1i'', ''l2'', ''l3''}"
    and "y_get y ls key = Inr c" and "y_get y c ''banks'' = Inr b" and "y_string y b = Inr t"
  shows "tidy_text t"
  using assms by (auto simp: banks_tidy_def)

lemma cache_conforms_tidy:
  assumes tidy: "banks_tidy y n" and ok: "cache_conforms banks_read y dbl n r"
  shows "cache_conforms banks_word y dbl n r"
proof -
  have step: "level_conforms banks_word y c l"
    if "y_get y n ''levels'' = Inr ls" "key \<in> {''l1d'', ''l1i'', ''l2'', ''l3''}" "y_get y ls key = Inr c" "level_conforms banks_read y c l" for ls key c l
    using that(4) by (rule level_conforms_tidy) (rule banks_tidyD [OF tidy that(1-3)])
  from ok obtain name ls h where head: "int_in y n ''slice_mb'' 1 64 (ca_slice_mb r)" "int_in y n ''max_slices'' 1 32 (ca_max_slices r)"
      "int_in y n ''home_hop_cycles'' 0 64 (ca_home_hop_cycles r)" "y_get y n ''record'' = Inr name" "name \<noteq> YUndefined" "ca_record r = as_or (y_string y) '''' name"
      "y_get y n ''levels'' = Inr ls" "ls \<noteq> YUndefined" "y_get y n ''host'' = Inr h" "is_map h" "hosts_conform y dbl h (ca_host r)"
    and levels: "\<forall>(key, l)\<in>{(''l1d'', ca_l1d r), (''l1i'', ca_l1i r), (''l2'', ca_l2 r), (''l3'', ca_l3 r)}. \<exists>c. y_get y ls key = Inr c \<and> level_conforms banks_read y c l"
    unfolding cache_conforms_def by blast
  have "\<forall>(key, l)\<in>{(''l1d'', ca_l1d r), (''l1i'', ca_l1i r), (''l2'', ca_l2 r), (''l3'', ca_l3 r)}. \<exists>c. y_get y ls key = Inr c \<and> level_conforms banks_word y c l"
    using levels step [OF head(7)] by fastforce
  with head show ?thesis unfolding cache_conforms_def by blast
qed

lemma bank_count_Inr: "bank_count file name b = Inr v \<longleftrightarrow> banks_read b v"
  by (auto simp: bank_count_def banks_read_def Let_def split: option.splits if_splits)

lemma loadCacheLevel_Inr: "loadCacheLevel y n name file = Inr r \<longleftrightarrow> level_conforms banks_read y n r"
proof (cases "is_map n \<and> (\<exists>w l b. y_get y n ''ways'' = Inr w \<and> w \<noteq> YUndefined \<and> y_get y n ''line_bytes'' = Inr l \<and> l \<noteq> YUndefined
    \<and> y_get y n ''banks'' = Inr b \<and> b \<noteq> YUndefined)")
  case True
  then obtain w l b where get: "is_map n" "y_get y n ''ways'' = Inr w" "w \<noteq> YUndefined" "y_get y n ''line_bytes'' = Inr l" "l \<noteq> YUndefined"
    "y_get y n ''banks'' = Inr b" "b \<noteq> YUndefined" by blast
  have banks: "banks_read (as_or (y_string y) '''' b) v \<longleftrightarrow> (\<exists>s. y_string y b = Inr s \<and> banks_read s v)" for v
    by (cases "y_string y b") (simp_all add: as_or_def banks_read_def stoi_def stoll_def)
  have nums: "P (as_or (y_int y) (-1) c) \<longleftrightarrow> (\<exists>i. y_int y c = Inr i \<and> P i)" if "\<not> P (-1)" for P c
    using that by (cases "y_int y c") (simp_all add: as_or_def)
  show ?thesis
    using get is_map_defined [OF get(1)] nums [of "\<lambda>i. 1 \<le> i \<and> i \<le> 64 \<and> i = cl_ways r" w] nums [of "\<lambda>i. (i = 32 \<or> i = 64 \<or> i = 128) \<and> i = cl_line_bytes r" l]
    by (cases r) (auto simp: loadCacheLevel_def level_conforms_def andThen_Inr present_Inr bank_count_Inr banks Let_def int_in_def value_at_def)
next
  case False
  then have "\<not> level_conforms banks_read y n r" by (auto simp: level_conforms_def int_in_def value_at_def)
  moreover have "loadCacheLevel y n name file \<noteq> Inr r" using False by (auto simp: loadCacheLevel_def andThen_Inr present_Inr Let_def)
  ultimately show ?thesis by simp
qed

lemma host_level_Inr: "host_level y dbl h file name kbKey cyc ns = Inr r \<longleftrightarrow> host_conforms y dbl h name kbKey cyc ns r"
proof (cases "y_get y h name")
  case (Inr l)
  have ns_range: "f_less (Fin 0) t \<and> f_le t (Fin 10000) \<longleftrightarrow> (\<exists>x. t = Fin x \<and> 0 < x \<and> x \<le> 10000)" for t by (cases t) auto
  show ?thesis
  proof (cases "is_map l")
    case True
    then show ?thesis using Inr is_map_defined [OF True]
      by (cases r; cases cyc; cases ns)
        (auto simp: host_level_def host_conforms_def andThen_Inr present_Inr read_key_Inr Let_def int_in_def value_at_def ns_range)
  next
    case False
    then show ?thesis using Inr by (simp add: host_level_def host_conforms_def andThen_Inr Let_def)
  qed
qed (simp add: host_level_def host_conforms_def andThen_Inr)

lemma inclusion_of_word: "w \<noteq> '''' \<Longrightarrow> inclusion_of y h = w \<longleftrightarrow> (\<exists>l. y_get y h ''l3'' = Inr l \<and> value_at y (y_string y) l ''inclusion'' w)"
  by (auto simp: inclusion_of_def value_at_def as_or_eq split: sum.splits)

lemma loadHostCaches_Inr: "loadHostCaches y dbl h file = Inr r \<longleftrightarrow> hosts_conform y dbl h r"
  by (cases r) (auto simp: loadHostCaches_def hosts_conform_def andThen_Inr host_level_Inr Let_def inclusion_of_word [symmetric])


lemma loadCacheRecord_Inr:
  "loadCacheRecord y dbl readable dir = Inr r \<longleftrightarrow>
     ca_file r = record_file ''cache'' dir \<and> readable (ca_file r) \<and> (\<exists>n. y_load_file y (ca_file r) = Inr n \<and> cache_conforms banks_read y dbl n r)"
proof -
  let ?f = "record_file ''cache'' dir"
  have rec: "\<lparr>ca_file = f, ca_record = name, ca_slice_mb = s, ca_max_slices = m, ca_home_hop_cycles = hh, ca_l1d = l1d, ca_l1i = l1i, ca_l2 = l2, ca_l3 = l3,
        ca_host = h\<rparr> = r \<longleftrightarrow> ca_file r = f \<and> ca_record r = name \<and> ca_slice_mb r = s \<and> ca_max_slices r = m \<and> ca_home_hop_cycles r = hh \<and> ca_l1d r = l1d
        \<and> ca_l1i r = l1i \<and> ca_l2 r = l2 \<and> ca_l3 r = l3 \<and> ca_host r = h" for f name s m hh l1d l1i l2 l3 h by (cases r) auto
  show ?thesis
  proof (cases "readable ?f \<and> (\<exists>n name ls h sm ms hh. y_load_file y ?f = Inr n \<and> y_get y n ''record'' = Inr name \<and> name \<noteq> YUndefined
      \<and> y_get y n ''slice_mb'' = Inr sm \<and> sm \<noteq> YUndefined \<and> y_get y n ''levels'' = Inr ls \<and> ls \<noteq> YUndefined \<and> y_get y n ''max_slices'' = Inr ms
      \<and> ms \<noteq> YUndefined \<and> y_get y n ''home_hop_cycles'' = Inr hh \<and> hh \<noteq> YUndefined \<and> y_get y n ''host'' = Inr h)")
    case True
    then obtain n name ls h sm ms hh where get: "readable ?f" "y_load_file y ?f = Inr n" "y_get y n ''record'' = Inr name" "name \<noteq> YUndefined"
      "y_get y n ''slice_mb'' = Inr sm" "sm \<noteq> YUndefined" "y_get y n ''levels'' = Inr ls" "ls \<noteq> YUndefined" "y_get y n ''max_slices'' = Inr ms"
      "ms \<noteq> YUndefined" "y_get y n ''home_hop_cycles'' = Inr hh" "hh \<noteq> YUndefined" "y_get y n ''host'' = Inr h" by blast
    have num: "lo \<le> as_or (y_int y) d c \<and> as_or (y_int y) d c \<le> hi \<and> i = as_or (y_int y) d c \<longleftrightarrow> y_int y c = Inr i \<and> lo \<le> i \<and> i \<le> hi"
      if "d < lo" for lo hi d i c using that by (cases "y_int y c") (auto simp: as_or_def)
    have "loadCacheRecord y dbl readable dir = Inr r \<longleftrightarrow> ca_file r = ?f \<and> cache_conforms banks_read y dbl n r"
      using is_map_defined [of h] num [of 0 1 sm 64 "ca_slice_mb r"] num [of 0 1 ms 32 "ca_max_slices r"] num [of "-1" 0 hh 64 "ca_home_hop_cycles r"]
      by (simp add: loadCacheRecord_def andThen_Inr record_node_Inr present_Inr level_at_def loadCacheLevel_Inr loadHostCaches_Inr Let_def rec get
          cache_conforms_def int_in_def value_at_def) blast
    then show ?thesis using get by auto
  next
    case False
    then have "loadCacheRecord y dbl readable dir \<noteq> Inr r" by (auto simp: loadCacheRecord_def andThen_Inr record_node_Inr present_Inr Let_def)
    moreover have "\<not> cache_conforms banks_read y dbl n r" if "readable ?f" "y_load_file y ?f = Inr n" for n
      using False that by (auto simp: cache_conforms_def int_in_def value_at_def)
    ultimately show ?thesis by auto
  qed
qed

section \<open>The records that are shipped\<close>

text \<open>params/core/default.yaml and params/cache/default.yaml as documents.\<close>

definition shipped_core :: YNode where
  "shipped_core = doc [
     (''ooo_host'', doc [(''rob_entries'', amount 512), (''load_queue_entries'', amount 192), (''store_queue_entries'', amount 114),
       (''scheduler_entries'', amount 160), (''l1d_fill_buffers'', amount 16), (''store_buffer'', flag True)]),
     (''host_prefetch'', doc [(''l2_streamer'', flag True), (''streams'', amount 32), (''distance_lines'', amount 20),
       (''prefetches_per_lookup'', amount 2), (''spatial'', flag True), (''superqueue_entries'', amount 48)]),
     (''record'', YScalar ''pimid core default''),
     (''in_order'', doc [(''mispredict_penalty_cycles'', amount 7), (''resteer_penalty_cycles'', amount 4), (''retire_width'', YScalar ''issue''),
       (''fetch_width_bytes'', amount 16), (''branch_predictor'', YScalar ''pag'')]),
     (''ooo'', doc [(''mispredict_penalty_cycles'', amount 17), (''fetch_width_bytes'', amount 16), (''retire_width'', amount 4), (''itlb_entries'', amount 128),
       (''itlb_large_entries'', amount 7), (''dtlb_entries'', amount 64), (''dtlb_large_entries'', amount 32), (''tlb_associativity'', amount 4),
       (''stlb_entries'', amount 512), (''l1d_fill_buffers'', amount 10)])]"

definition shipped_level :: "int \<Rightarrow> YNode" where
  "shipped_level ways = doc [(''ways'', amount ways), (''line_bytes'', amount 64), (''banks'', YScalar ''slice'')]"

definition shipped_cache :: YNode where
  "shipped_cache = doc [(''record'', YScalar ''pimid cache hierarchy default''), (''slice_mb'', amount 2), (''max_slices'', amount 32),
     (''home_hop_cycles'', amount 2),
     (''levels'', doc [(''l1d'', shipped_level 8), (''l1i'', shipped_level 4), (''l2'', shipped_level 8), (''l3'', shipped_level 16)]),
     (''host'', doc [(''l1d'', doc [(''kb'', amount 48), (''ways'', amount 12), (''load_to_use_cycles'', amount 5)]), (''l1i'', doc [(''kb'', amount 32), (''ways'', amount 8)]),
       (''l2'', doc [(''kb'', amount 2048), (''ways'', amount 16), (''load_to_use_cycles'', amount 16)]),
       (''l3'', doc [(''slice_kb'', amount 1920), (''ways'', amount 15), (''load_to_use_ns'', YScalar ''33''), (''inclusion'', YScalar ''non-inclusive'')])])]"

lemma doc_map [simp]: "is_map (doc es)" "\<not> is_scalar (doc es)"
  by (simp_all add: doc_def)

lemma flag_scalar [simp]: "is_scalar (flag b)"
  by (simp add: flag_def)

definition field_values :: "'r field_table \<Rightarrow> 'r \<Rightarrow> int list" where
  "field_values fs r = map (\<lambda>(_, _, _, f). f r) fs"

text \<open>
  the records that are shipped load, under any library that reads documents as documented, and give the numbers of their files.
\<close>

theorem shipped_records_load:
  assumes "yaml_ok y" and "dbl (YScalar ''33'') = Inr (Fin 33)"
    and "y_load_file y (record_file ''core'' dir) = Inr shipped_core" and "y_load_file y (record_file ''cache'' dir) = Inr shipped_cache"
    and "readable (record_file ''core'' dir)" and "readable (record_file ''cache'' dir)"
  shows "\<exists>co ca. loadCoreRecord y readable dir = Inr co \<and> loadCacheRecord y dbl readable dir = Inr ca
     \<and> field_values in_order_fields (co_in_order co) = [7, 4, 16] \<and> field_values ooo_fields (co_ooo co) = [17, 16, 4, 128, 7, 64, 32, 4, 512, 10]
     \<and> field_values ooo_host_fields (co_ooo_host co) = [512, 192, 114, 160, 16] \<and> field_values prefetch_fields (co_host_prefetch co) = [32, 20, 2, 48]
     \<and> map cl_ways [ca_l1d ca, ca_l1i ca, ca_l2 ca, ca_l3 ca] = [8, 4, 8, 16] \<and> hc_ns (ho_l3 (ca_host ca)) = Fin 33"
proof -
  have get: "yaml_get y (doc es) key = Inr (case map_of es key of None \<Rightarrow> YUndefined | Some n \<Rightarrow> n)" for es key by (rule read_doc [OF assms(1)])
  have y_get: "y_get y (doc es) key = Inr (case map_of es key of None \<Rightarrow> YUndefined | Some n \<Rightarrow> n)" for es key by (rule y_doc [OF assms(1)])
  have num: "y_int y (amount i) = Inr i" if "fits i" for i by (rule y_amount [OF assms(1) that])
  note eval = get y_get num fits_def y_flag [OF assms(1)] yaml_okD(2) [OF assms(1)] assms(2-) Let_def record_node_def read_key_def caught_def check_def as_or_def
  have pow: "pow2_int 4" by code_simp
  have "\<exists>co. loadCoreRecord y readable dir = Inr co \<and> field_values in_order_fields (co_in_order co) = [7, 4, 16]
     \<and> field_values ooo_fields (co_ooo co) = [17, 16, 4, 128, 7, 64, 32, 4, 512, 10] \<and> field_values ooo_host_fields (co_ooo_host co) = [512, 192, 114, 160, 16]
     \<and> field_values prefetch_fields (co_host_prefetch co) = [32, 20, 2, 48]"
    by (simp add: loadCoreRecord_def loadOoo_def loadHostOoo_def loadHostPrefetch_def coreInt_def coreFlag_def section_of_def retires_issue_def
        branch_predictor_of_def shipped_core_def eval pow field_values_def in_order_fields_def ooo_fields_def ooo_host_fields_def prefetch_fields_def
        CoreTypeRecord_init_def kOooRobRetireWidth_def)
  moreover have "\<exists>ca. loadCacheRecord y dbl readable dir = Inr ca \<and> map cl_ways [ca_l1d ca, ca_l1i ca, ca_l2 ca, ca_l3 ca] = [8, 4, 8, 16]
     \<and> hc_ns (ho_l3 (ca_host ca)) = Fin 33"
    by (simp add: loadCacheRecord_def level_at_def loadCacheLevel_def bank_count_def loadHostCaches_def host_level_def inclusion_of_def shipped_cache_def
        shipped_level_def eval)
  ultimately show ?thesis by (elim exE conjE) (intro exI conjI, assumption+)
qed

definition shipped_files :: "string \<Rightarrow> string + YNode" where
  "shipped_files f = (if f = ''params/core/default.yaml'' then Inr shipped_core else if f = ''params/cache/default.yaml'' then Inr shipped_cache else Inl ''bad file'')"

theorem shipped_records_load_witness:
  "\<exists>co ca. loadCoreRecord (sample_yaml shipped_files) (\<lambda>_. True) (paramsDir None None) = Inr co
     \<and> loadCacheRecord (sample_yaml shipped_files) (\<lambda>_. Inr (Fin 33)) (\<lambda>_. True) (paramsDir None None) = Inr ca
     \<and> field_values ooo_host_fields (co_ooo_host co) = [512, 192, 114, 160, 16] \<and> hc_ns (ho_l3 (ca_host ca)) = Fin 33"
proof -
  have files: "y_load_file (sample_yaml shipped_files) (record_file ''core'' (paramsDir None None)) = Inr shipped_core"
    "y_load_file (sample_yaml shipped_files) (record_file ''cache'' (paramsDir None None)) = Inr shipped_cache"
    by (simp_all add: sample_yaml_def shipped_files_def record_file_def paramsDir_def)
  from shipped_records_load [where dbl = "\<lambda>_. Inr (Fin 33)" and readable = "\<lambda>_. True", OF sample_yaml_ok HOL.refl files TrueI TrueI]
  show ?thesis by (elim exE conjE) (intro exI conjI, assumption+)
qed

text \<open>
  C40: the cache record. A file that can be read and conforms is loaded, and the record then has the values of the file: every key is there, sizes, ways
  and line lengths are in the ranges the tools take, banks is \<^verbatim>\<open>slice\<close> or a text that is an integer in \<open>1\<close> to \<open>32\<close>, the second level of the host is
  slower than the first, and its inclusion is stated. Every file that does not conform is refused, when no level has something behind the integer of its
  banks; this condition is needed, since \<^verbatim>\<open>std::stoi\<close> takes \<^verbatim>\<open>8 KB\<close> as 8 and \<^verbatim>\<open>1.5\<close> as 1 (\<open>banks_text_cut\<close>), against the message of the loader.
\<close>

theorem loadCacheRecord_iff:
  "(y_load_file y (record_file ''cache'' dir) = Inr n \<and> readable (record_file ''cache'' dir) \<and> ca_file r = record_file ''cache'' dir
       \<and> cache_conforms banks_word y dbl n r \<longrightarrow> loadCacheRecord y dbl readable dir = Inr r)
   \<and> ((\<forall>n. y_load_file y (record_file ''cache'' dir) = Inr n \<longrightarrow> banks_tidy y n) \<longrightarrow>
       (loadCacheRecord y dbl readable dir = Inr r \<longleftrightarrow> ca_file r = record_file ''cache'' dir \<and> readable (record_file ''cache'' dir)
          \<and> (\<exists>n. y_load_file y (record_file ''cache'' dir) = Inr n \<and> cache_conforms banks_word y dbl n r)))"
  using cache_conforms_mono cache_conforms_tidy by (auto simp: loadCacheRecord_Inr)

theorem loadCacheRecord_iff_witness:
  "\<exists>ca. loadCacheRecord (sample_yaml shipped_files) (\<lambda>_. Inr (Fin 33)) (\<lambda>_. True) ''params'' = Inr ca
     \<and> cache_conforms banks_word (sample_yaml shipped_files) (\<lambda>_. Inr (Fin 33)) shipped_cache ca"
proof -
  have files: "y_load_file (sample_yaml shipped_files) (record_file ''core'' ''params'') = Inr shipped_core"
    "y_load_file (sample_yaml shipped_files) (record_file ''cache'' ''params'') = Inr shipped_cache"
    by (simp_all add: sample_yaml_def shipped_files_def record_file_def)
  have tidy: "banks_tidy (sample_yaml shipped_files) shipped_cache"
    by (simp add: banks_tidy_def y_doc [OF sample_yaml_ok] yaml_okD(2) [OF sample_yaml_ok] shipped_cache_def shipped_level_def tidy_text_def
        stoll_def is_space_def is_digit_def)
  from shipped_records_load [where dbl = "\<lambda>_. Inr (Fin 33)" and readable = "\<lambda>_. True", OF sample_yaml_ok HOL.refl files TrueI TrueI]
  obtain ca where ca: "loadCacheRecord (sample_yaml shipped_files) (\<lambda>_. Inr (Fin 33)) (\<lambda>_. True) ''params'' = Inr ca" by blast
  with loadCacheRecord_iff [where y = "sample_yaml shipped_files" and dir = "''params''" and r = ca and dbl = "\<lambda>_. Inr (Fin 33)" and readable = "\<lambda>_. True"]
  show ?thesis using files(2) tidy by auto
qed

text \<open>
  The number of banks is what \<^verbatim>\<open>std::stoi\<close> finds at the start of the text: a unit behind it, or a fraction, goes unnoticed. The slice rule stays in the range of the
  tool for every size.
\<close>

lemma banks_text_cut: "bank_count file name ''8 KB'' = Inr 8" "bank_count file name ''1.5'' = Inr 1"
  by (simp_all add: bank_count_def stoi_def stoll_def is_space_def is_digit_def digits_value_def)

lemma cacheBanksSlice_range: "1 \<le> cacheBanksSlice size_kb slice_mb \<and> cacheBanksSlice size_kb slice_mb \<le> 32"
  by (simp add: cacheBanksSlice_def)

end
