(* ===== verification/Plugin_Registry.thy ===== *)
theory Plugin_Registry
  imports Std_Map Trace_Yaml
begin

text \<open>
  The plugins of src/plugin and include/plugin: the registry of \<^verbatim>\<open>plugin_interface.cpp\<close> with registration, creation, the loading
  of plugins from shared libraries and their discovery in a directory; the helpers of \<^verbatim>\<open>PluginBase\<close> and \<^verbatim>\<open>PluginConfig\<close>; and
  the memory model plugin of \<^verbatim>\<open>memory_model_plugin.cpp\<close>.

  An object behind the interface \<^verbatim>\<open>IPlugin\<close> is the record of the virtual functions that the registry calls together with its state \<open>'p\<close>. The
  dynamic loader and the file system are arguments. A library is counted as the loader counts it; the registrars that \<^verbatim>\<open>PIMID_REGISTER_PLUGIN\<close>
  makes are run by \<^verbatim>\<open>dlopen\<close> when it maps the library. \<open>pr_code\<close> says in which library the code of a creation function lies (\<open>None\<close>: in the
  program); running it, or destroying it, after the library was unmapped is the error \<open>Unmapped\<close>. Console output is left out.
\<close>

section \<open>Metadata and objects\<close>

datatype PluginType =
  MEMORY_MODEL | SCHEDULER | NETWORK_TOPOLOGY | POWER_MODEL | PE_TYPE | ADDRESS_MAPPER | CACHE_REPLACEMENT | PREFETCHER | CUSTOM

fun type_index :: "PluginType \<Rightarrow> nat" where
  "type_index MEMORY_MODEL = 0"
| "type_index SCHEDULER = 1"
| "type_index NETWORK_TOPOLOGY = 2"
| "type_index POWER_MODEL = 3"
| "type_index PE_TYPE = 4"
| "type_index ADDRESS_MAPPER = 5"
| "type_index CACHE_REPLACEMENT = 6"
| "type_index PREFETCHER = 7"
| "type_index CUSTOM = 8"

type_synonym params = "(string, string) smap"

record PluginMetadata =
  pm_name :: string
  pm_version :: string
  pm_author :: string
  pm_description :: string
  pm_type :: PluginType
  pm_dependencies :: "string list"
  pm_parameters :: params

definition PluginMetadata_make :: "string \<Rightarrow> string \<Rightarrow> string \<Rightarrow> string \<Rightarrow> PluginType \<Rightarrow> PluginMetadata" where
  "PluginMetadata_make n v a d t =
     \<lparr>pm_name = n, pm_version = v, pm_author = a, pm_description = d, pm_type = t, pm_dependencies = [], pm_parameters = []\<rparr>"

definition PluginMetadata_init :: PluginMetadata where
  "PluginMetadata_init = PluginMetadata_make '''' ''1.0.0'' '''' '''' CUSTOM"

record 'p IPlugin =
  pv_validateConfig :: "'p \<Rightarrow> params \<Rightarrow> string list \<Rightarrow> bool \<times> string list"
  pv_initialize :: "params \<Rightarrow> 'p \<Rightarrow> bool \<times> 'p"

type_synonym 'p plugin = "'p IPlugin \<times> 'p"

section \<open>The helpers of the base class\<close>

definition getConfigValue :: "params \<Rightarrow> string \<Rightarrow> string \<Rightarrow> string" where
  "getConfigValue config key default_value = (case smap_find key config of Some v \<Rightarrow> v | None \<Rightarrow> default_value)"

text \<open>An exception of the conversion gives the default.\<close>

definition converted :: "(string \<Rightarrow> 'e + 'a) \<Rightarrow> params \<Rightarrow> string \<Rightarrow> 'a \<Rightarrow> 'a" where
  "converted conv config key default_value =
     (case smap_find key config of None \<Rightarrow> default_value
      | Some v \<Rightarrow> (case conv v of Inl _ \<Rightarrow> default_value | Inr x \<Rightarrow> x))"

definition getConfigValueAs_int64 :: "params \<Rightarrow> string \<Rightarrow> int \<Rightarrow> int" where
  "getConfigValueAs_int64 = converted (\<lambda>s. map_sum id fst (stoll s))"

definition getConfigValueAs_double :: "(string \<Rightarrow> string + 'd) \<Rightarrow> params \<Rightarrow> string \<Rightarrow> 'd \<Rightarrow> 'd" where
  "getConfigValueAs_double stod = converted stod"

definition getConfigValueAs_bool :: "params \<Rightarrow> string \<Rightarrow> bool \<Rightarrow> bool" where
  "getConfigValueAs_bool config key default_value =
     (case smap_find key config of None \<Rightarrow> default_value
      | Some v \<Rightarrow> if v = ''true'' \<or> v = ''1'' \<or> v = ''yes'' \<or> v = ''on'' then True
                  else if v = ''false'' \<or> v = ''0'' \<or> v = ''no'' \<or> v = ''off'' then False
                  else default_value)"

definition getConfigValueAs_uint32 :: "params \<Rightarrow> string \<Rightarrow> u32 \<Rightarrow> u32" where
  "getConfigValueAs_uint32 = converted stoul32"

definition getConfigValueAs_uint64 :: "params \<Rightarrow> string \<Rightarrow> u64 \<Rightarrow> u64" where
  "getConfigValueAs_uint64 = converted stoull"

definition base_validateConfig :: "string list \<Rightarrow> params \<Rightarrow> string list \<Rightarrow> bool \<times> string list" where
  "base_validateConfig required config errors =
     (let es = errors @ map (\<lambda>p. ''Missing required parameter: '' @ p) (filter (\<lambda>p. smap_find p config = None) required)
      in (es = [], es))"

section \<open>The registry\<close>

datatype plugin_error = Unmapped nat

record 'p PluginRegistration =
  pr_metadata :: PluginMetadata
  pr_create_func :: "'p plugin option option"
  pr_library_path :: string
  pr_code :: "nat option"

definition PluginRegistration_init :: "'p PluginRegistration" where
  "PluginRegistration_init = \<lparr>pr_metadata = PluginMetadata_init, pr_create_func = None, pr_library_path = '''', pr_code = None\<rparr>"

record 'p PluginRegistry =
  pg_plugins :: "(string, 'p PluginRegistration) smap"
  pg_loaded_libraries :: "(string, nat) smap"
  pg_uses :: "nat \<Rightarrow> nat"

definition PluginRegistry_init :: "'p PluginRegistry" where
  "PluginRegistry_init = \<lparr>pg_plugins = [], pg_loaded_libraries = [], pg_uses = (\<lambda>_. 0)\<rparr>"

text \<open>
  What the loader gives: the handle for a path, the registrations that the static registrars of a library make, and those that its
  \<^verbatim>\<open>pimid_register_plugin\<close> makes (\<open>None\<close>: there is no such symbol).
\<close>

record 'p plugin_loader =
  pl_open :: "string \<Rightarrow> nat option"
  pl_static :: "nat \<Rightarrow> (string \<times> 'p PluginRegistration) list"
  pl_register :: "nat \<Rightarrow> (string \<times> 'p PluginRegistration) list option"

definition registerPlugin :: "string \<Rightarrow> 'p PluginRegistration \<Rightarrow> 'p PluginRegistry \<Rightarrow> bool \<times> 'p PluginRegistry" where
  "registerPlugin name registration g =
     (if smap_find name (pg_plugins g) \<noteq> None then (False, g)
      else (True, g\<lparr>pg_plugins := smap_put name registration (pg_plugins g)\<rparr>))"

definition register_all :: "(string \<times> 'p PluginRegistration) list \<Rightarrow> 'p PluginRegistry \<Rightarrow> 'p PluginRegistry" where
  "register_all rs g = foldl (\<lambda>g (n, r). snd (registerPlugin n r g)) g rs"

definition plugin_dlopen :: "'p plugin_loader \<Rightarrow> string \<Rightarrow> 'p PluginRegistry \<Rightarrow> nat option \<times> 'p PluginRegistry" where
  "plugin_dlopen ld path g =
     (case pl_open ld path of None \<Rightarrow> (None, g)
      | Some h \<Rightarrow> (Some h, (let g1 = (if pg_uses g h = 0 then register_all (pl_static ld h) g else g)
                             in g1\<lparr>pg_uses := (pg_uses g1)(h := pg_uses g1 h + 1)\<rparr>)))"

definition plugin_dlclose :: "nat \<Rightarrow> 'p PluginRegistry \<Rightarrow> 'p PluginRegistry" where
  "plugin_dlclose h g = g\<lparr>pg_uses := (pg_uses g)(h := pg_uses g h - 1)\<rparr>"

text \<open>Whether the code of a creation function is there.\<close>

definition unmapped :: "'p PluginRegistration \<Rightarrow> 'p PluginRegistry \<Rightarrow> nat option" where
  "unmapped r g =
     (case (pr_create_func r, pr_code r) of (Some _, Some h) \<Rightarrow> if pg_uses g h = 0 then Some h else None | _ \<Rightarrow> None)"

definition unregisterPlugin :: "string \<Rightarrow> 'p PluginRegistry \<Rightarrow> plugin_error + bool \<times> 'p PluginRegistry" where
  "unregisterPlugin name g =
     (case smap_find name (pg_plugins g) of None \<Rightarrow> Inr (False, g)
      | Some r \<Rightarrow>
          (let g1 = (case smap_find name (pg_loaded_libraries g) of None \<Rightarrow> g
                     | Some h \<Rightarrow> (plugin_dlclose h g)\<lparr>pg_loaded_libraries := smap_erase name (pg_loaded_libraries g)\<rparr>)
           in case unmapped r g1 of Some h \<Rightarrow> Inl (Unmapped h)
              | None \<Rightarrow> Inr (True, g1\<lparr>pg_plugins := smap_erase name (pg_plugins g1)\<rparr>)))"

definition createPlugin :: "string \<Rightarrow> 'p PluginRegistry \<Rightarrow> plugin_error + 'p plugin option" where
  "createPlugin name g =
     (case smap_find name (pg_plugins g) of None \<Rightarrow> Inr None
      | Some r \<Rightarrow> (case pr_create_func r of None \<Rightarrow> Inr None
          | Some obj \<Rightarrow> (case unmapped r g of Some h \<Rightarrow> Inl (Unmapped h) | None \<Rightarrow> Inr obj)))"

definition createPlugin_config :: "string \<Rightarrow> params \<Rightarrow> 'p PluginRegistry \<Rightarrow> plugin_error + 'p plugin option" where
  "createPlugin_config name config g =
     (case createPlugin name g of Inl e \<Rightarrow> Inl e
      | Inr None \<Rightarrow> Inr None
      | Inr (Some (v, p)) \<Rightarrow>
          (if \<not> fst (pv_validateConfig v p config []) then Inr None
           else case pv_initialize v config p of (ok, p') \<Rightarrow> Inr (if ok then Some (v, p') else None)))"

definition hasPlugin :: "string \<Rightarrow> 'p PluginRegistry \<Rightarrow> bool" where
  "hasPlugin name g \<longleftrightarrow> smap_find name (pg_plugins g) \<noteq> None"

definition getPluginNames :: "'p PluginRegistry \<Rightarrow> string list" where
  "getPluginNames g = map fst (pg_plugins g)"

definition getPluginsByType :: "PluginType \<Rightarrow> 'p PluginRegistry \<Rightarrow> string list" where
  "getPluginsByType t g = map fst (filter (\<lambda>(n, r). pm_type (pr_metadata r) = t) (pg_plugins g))"

definition getPluginMetadata :: "string \<Rightarrow> 'p PluginRegistry \<Rightarrow> PluginMetadata" where
  "getPluginMetadata name g =
     (case smap_find name (pg_plugins g) of Some r \<Rightarrow> pr_metadata r | None \<Rightarrow> PluginMetadata_init)"

definition loadDynamicPlugin :: "'p plugin_loader \<Rightarrow> string \<Rightarrow> 'p PluginRegistry \<Rightarrow> 'p PluginRegistry" where
  "loadDynamicPlugin ld library_path g =
     (case plugin_dlopen ld library_path g of (None, g1) \<Rightarrow> g1
      | (Some h, g1) \<Rightarrow> (case pl_register ld h of None \<Rightarrow> plugin_dlclose h g1
          | Some rs \<Rightarrow> (let g2 = register_all rs g1
                        in g2\<lparr>pg_loaded_libraries := smap_put library_path h (pg_loaded_libraries g2)\<rparr>)))"

section \<open>Discovery\<close>

record dirent =
  de_path :: string
  de_regular :: bool
  de_directory :: bool

text \<open>The entries that the iteration over a directory gives, and whether it ends with an exception.\<close>

record file_system =
  fs_exists :: "string \<Rightarrow> bool"
  fs_is_directory :: "string \<Rightarrow> bool"
  fs_list :: "string \<Rightarrow> dirent list \<times> bool"

text \<open>\<^verbatim>\<open>path::filename\<close> and \<^verbatim>\<open>path::extension\<close>: from the last dot on, unless the dot is the first character.\<close>

definition filename :: "string \<Rightarrow> string" where
  "filename p = rev (takeWhile (\<lambda>c. c \<noteq> CHR ''/'') (rev p))"

definition extension :: "string \<Rightarrow> string" where
  "extension p =
     (let f = filename p
      in if f = ''..'' \<or> CHR ''.'' \<notin> set (tl f) then '''' else CHR ''.'' # rev (takeWhile (\<lambda>c. c \<noteq> CHR ''.'') (rev f)))"

definition is_library :: "dirent \<Rightarrow> bool" where
  "is_library e \<longleftrightarrow> de_regular e \<and> extension (de_path e) = ''.so''"

text \<open>The counters of files found and of files that added a plugin.\<close>

definition visit_library :: "'p plugin_loader \<Rightarrow> dirent \<Rightarrow> nat \<times> nat \<times> 'p PluginRegistry \<Rightarrow> nat \<times> nat \<times> 'p PluginRegistry" where
  "visit_library ld e = (\<lambda>(found, loaded, g).
     if is_library e
     then (let g' = loadDynamicPlugin ld (de_path e) g
           in (found + 1, if length (pg_plugins g) < length (pg_plugins g') then loaded + 1 else loaded, g'))
     else (found, loaded, g))"

definition scan_directory :: "'p plugin_loader \<Rightarrow> file_system \<Rightarrow> string \<Rightarrow> nat \<times> nat \<times> 'p PluginRegistry \<Rightarrow> bool \<times> nat \<times> nat \<times> 'p PluginRegistry" where
  "scan_directory ld fs dir x = (case fs_list fs dir of (es, failed) \<Rightarrow> (failed, foldl (\<lambda>x e. visit_library ld e x) x es))"

fun scan_subdirectories :: "'p plugin_loader \<Rightarrow> file_system \<Rightarrow> dirent list \<Rightarrow> nat \<times> nat \<times> 'p PluginRegistry \<Rightarrow> bool \<times> nat \<times> nat \<times> 'p PluginRegistry" where
  "scan_subdirectories ld fs [] x = (False, x)"
| "scan_subdirectories ld fs (e # es) x =
     (if de_directory e
      then (case scan_directory ld fs (de_path e) x of (failed, x') \<Rightarrow> if failed then (True, x') else scan_subdirectories ld fs es x')
      else scan_subdirectories ld fs es x)"

text \<open>\<open>None\<close>: it returned before the summary, which prints the two counters.\<close>

definition discoverPlugins :: "'p plugin_loader \<Rightarrow> file_system \<Rightarrow> string \<Rightarrow> 'p PluginRegistry \<Rightarrow> (nat \<times> nat) option \<times> 'p PluginRegistry" where
  "discoverPlugins ld fs plugin_dir g =
     (if \<not> fs_exists fs plugin_dir \<or> \<not> fs_is_directory fs plugin_dir then (None, g)
      else case scan_directory ld fs plugin_dir (0, 0, g) of
        (True, found, loaded, g1) \<Rightarrow> (None, g1)
      | (False, x) \<Rightarrow> (case fs_list fs plugin_dir of (es, failed) \<Rightarrow>
            (case scan_subdirectories ld fs es x of (stopped, found, loaded, g2) \<Rightarrow>
               (if stopped \<or> failed then None else Some (found, loaded), g2))))"

section \<open>Documentation\<close>

definition generatePluginDocumentation :: "string \<Rightarrow> 'p PluginRegistry \<Rightarrow> string" where
  "generatePluginDocumentation name g =
     (case smap_find name (pg_plugins g) of None \<Rightarrow> ''Plugin not found: '' @ name
      | Some r \<Rightarrow> (let m = pr_metadata r in
          ''# Plugin: '' @ pm_name m @ [NL, NL] @
          ''**Version:** '' @ pm_version m @ [NL] @
          ''**Author:** '' @ pm_author m @ [NL] @
          ''**Type:** '' @ show_nat (type_index (pm_type m)) @ [NL, NL] @
          ''## Description'' @ [NL, NL] @ pm_description m @ [NL, NL] @
          (if pm_dependencies m = [] then ''''
           else ''## Dependencies'' @ [NL, NL] @ concat (map (\<lambda>d. ''- '' @ d @ [NL]) (pm_dependencies m)) @ [NL]) @
          (if pm_parameters m = [] then ''''
           else ''## Parameters'' @ [NL, NL] @
             concat (map (\<lambda>(k, v). ''- **'' @ k @ ''**: '' @ v @ [NL]) (pm_parameters m)) @ [NL])))"

definition generateAllPluginsDocs :: "'p PluginRegistry \<Rightarrow> string" where
  "generateAllPluginsDocs g =
     ''# PIMID Plugins Documentation'' @ [NL, NL] @
     ''Total plugins: '' @ show_nat (length (pg_plugins g)) @ [NL, NL] @
     concat (map (\<lambda>(n, r). generatePluginDocumentation n g @ ''---'' @ [NL, NL]) (pg_plugins g))"

section \<open>Plugin configurations\<close>

record PluginConfig =
  pf_plugin_name :: string
  pf_parameters :: params

definition PluginConfig_init :: "string \<Rightarrow> PluginConfig" where
  "PluginConfig_init name = \<lparr>pf_plugin_name = name, pf_parameters = []\<rparr>"

definition setParameter :: "string \<Rightarrow> string \<Rightarrow> PluginConfig \<Rightarrow> PluginConfig" where
  "setParameter key value c = c\<lparr>pf_parameters := smap_put key value (pf_parameters c)\<rparr>"

text \<open>\<^verbatim>\<open>std::map::insert\<close> keeps the entry that is there.\<close>

definition setParameters :: "params \<Rightarrow> PluginConfig \<Rightarrow> PluginConfig" where
  "setParameters ps c =
     c\<lparr>pf_parameters := foldl (\<lambda>m (k, v). if smap_find k m = None then smap_put k v m else m) (pf_parameters c) ps\<rparr>"

definition config_validate :: "PluginConfig \<Rightarrow> 'p PluginRegistry \<Rightarrow> string list \<Rightarrow> plugin_error + bool \<times> string list" where
  "config_validate c g errors =
     (if \<not> hasPlugin (pf_plugin_name c) g then Inr (False, errors @ [''Plugin not found: '' @ pf_plugin_name c])
      else case createPlugin (pf_plugin_name c) g of Inl e \<Rightarrow> Inl e
        | Inr None \<Rightarrow> Inr (False, errors @ [''Failed to create plugin instance: '' @ pf_plugin_name c])
        | Inr (Some (v, p)) \<Rightarrow> Inr (pv_validateConfig v p (pf_parameters c) errors))"

definition config_create :: "PluginConfig \<Rightarrow> 'p PluginRegistry \<Rightarrow> plugin_error + 'p plugin option" where
  "config_create c g = createPlugin_config (pf_plugin_name c) (pf_parameters c) g"

section \<open>The memory model plugin\<close>

record CustomMemoryModelPlugin =
  cm_metadata :: PluginMetadata
  cm_initialized :: bool
  cm_config :: params
  cm_read_latency :: u64
  cm_write_latency :: u64
  cm_bandwidth :: u64
  cm_tech_name :: string
  cm_tech_node :: u32

definition CustomMemoryModelPlugin_init :: CustomMemoryModelPlugin where
  "CustomMemoryModelPlugin_init =
     \<lparr>cm_metadata = PluginMetadata_make ''CustomMemory'' ''1.0.0'' ''PIMID Team'' ''Template for custom memory models'' MEMORY_MODEL,
      cm_initialized = False, cm_config = [], cm_read_latency = 50, cm_write_latency = 100, cm_bandwidth = 25600,
      cm_tech_name = ''CustomMemory'', cm_tech_node = 22\<rparr>"

definition or_default :: "u64 \<Rightarrow> u64 \<Rightarrow> u64" where
  "or_default d x = (if x = 0 then d else x)"

definition cm_initialize :: "params \<Rightarrow> CustomMemoryModelPlugin \<Rightarrow> bool \<times> CustomMemoryModelPlugin" where
  "cm_initialize config p =
     (True, p\<lparr>cm_config := config,
        cm_read_latency := or_default 50 (getConfigValueAs_uint64 config ''read_latency'' 50),
        cm_write_latency := or_default 100 (getConfigValueAs_uint64 config ''write_latency'' 100),
        cm_bandwidth := or_default 25600 (getConfigValueAs_uint64 config ''bandwidth'' 25600),
        cm_tech_name := getConfigValue config ''tech_name'' ''CustomMemory'',
        cm_tech_node := getConfigValueAs_uint32 config ''tech_node_nm'' 22,
        cm_initialized := True\<rparr>)"

definition cm_shutdown :: "CustomMemoryModelPlugin \<Rightarrow> CustomMemoryModelPlugin" where
  "cm_shutdown p = p\<lparr>cm_initialized := False\<rparr>"

definition validate_positive :: "params \<Rightarrow> string \<Rightarrow> string list \<Rightarrow> string list" where
  "validate_positive config key errors =
     (case smap_find key config of None \<Rightarrow> errors
      | Some v \<Rightarrow> (case stoll v of Inl _ \<Rightarrow> errors @ [key @ '' must be a valid integer'']
          | Inr (x, _) \<Rightarrow> if x \<le> 0 then errors @ [key @ '' must be positive''] else errors))"

definition cm_getRequiredParameters :: "string list" where
  "cm_getRequiredParameters = []"

definition cm_getOptionalParameters :: "string list" where
  "cm_getOptionalParameters = [''read_latency'', ''write_latency'', ''bandwidth'', ''tech_name'', ''tech_node_nm'', ''config_file'']"

definition numeric_parameters :: "string list" where
  "numeric_parameters = [''read_latency'', ''write_latency'', ''bandwidth'', ''tech_node_nm'']"

definition cm_validateConfig :: "CustomMemoryModelPlugin \<Rightarrow> params \<Rightarrow> string list \<Rightarrow> bool \<times> string list" where
  "cm_validateConfig p config errors =
     (case base_validateConfig cm_getRequiredParameters config errors of (ok, es) \<Rightarrow>
        if \<not> ok then (False, es)
        else let es' = foldl (\<lambda>es k. validate_positive config k es) es numeric_parameters in (es' = [], es'))"

definition cm_config_path :: "CustomMemoryModelPlugin \<Rightarrow> string \<Rightarrow> string" where
  "cm_config_path p config_path = (if config_path = [] then getConfigValue (cm_config p) ''config_file'' '''' else config_path)"

definition getMaxBandwidth :: "CustomMemoryModelPlugin \<Rightarrow> u64" where
  "getMaxBandwidth p = cm_bandwidth p * 1024 * 1024"

section \<open>Where the code of a plugin is\<close>

text \<open>
  A creation function lies in the library that registers it, or in the program: the functions that \<^verbatim>\<open>PIMID_REGISTER_PLUGIN\<close> stores are lambdas of
  the library's own translation unit, and those of the entry point are taken to be the library's own too.
\<close>

definition own_code :: "'p plugin_loader \<Rightarrow> bool" where
  "own_code ld \<longleftrightarrow> (\<forall>h. (\<forall>r \<in> snd ` set (pl_static ld h). pr_code r \<in> {None, Some h}) \<and>
     (\<forall>rs. pl_register ld h = Some rs \<longrightarrow> (\<forall>r \<in> snd ` set rs. pr_code r \<in> {None, Some h})))"

text \<open>No registered creation function lies in a library that is not mapped.\<close>

definition plugins_mapped :: "'p PluginRegistry \<Rightarrow> bool" where
  "plugins_mapped g \<longleftrightarrow> list_all (\<lambda>(n, r). unmapped r g = None) (pg_plugins g)"

text \<open>The registries that the calls lead to, whatever names and libraries they are given.\<close>

inductive plugin_reachable :: "'p plugin_loader \<Rightarrow> file_system \<Rightarrow> 'p PluginRegistry \<Rightarrow> bool" for ld fs where
  start: "plugin_reachable ld fs PluginRegistry_init"
| registered: "plugin_reachable ld fs g \<Longrightarrow> pr_code r = None \<Longrightarrow> plugin_reachable ld fs (snd (registerPlugin n r g))"
| unregistered: "plugin_reachable ld fs g \<Longrightarrow> unregisterPlugin n g = Inr (b, g') \<Longrightarrow> plugin_reachable ld fs g'"
| loaded: "plugin_reachable ld fs g \<Longrightarrow> plugin_reachable ld fs (loadDynamicPlugin ld path g)"
| discovered: "plugin_reachable ld fs g \<Longrightarrow> plugin_reachable ld fs (snd (discoverPlugins ld fs d g))"

text \<open>
  The three situations that decide: a plugin whose code is in a library; a name that is also the path under which a library was loaded, with no other
  use of that library; and a library without entry point whose registrars add a plugin of its own when it is opened.
\<close>

definition code_in :: "'p PluginRegistry \<Rightarrow> string \<Rightarrow> nat \<Rightarrow> bool" where
  "code_in g n h \<longleftrightarrow> (case smap_find n (pg_plugins g) of None \<Rightarrow> False | Some r \<Rightarrow> pr_create_func r \<noteq> None \<and> pr_code r = Some h)"

definition last_use :: "'p PluginRegistry \<Rightarrow> string \<Rightarrow> nat \<Rightarrow> bool" where
  "last_use g n h \<longleftrightarrow> smap_find n (pg_loaded_libraries g) = Some h \<and> pg_uses g h = 1"

definition load_strands :: "'p plugin_loader \<Rightarrow> string \<Rightarrow> 'p PluginRegistry \<Rightarrow> bool" where
  "load_strands ld path g \<longleftrightarrow> (case pl_open ld path of None \<Rightarrow> False | Some h \<Rightarrow> pl_register ld h = None \<and> pg_uses g h = 0 \<and>
     list_ex (\<lambda>n. \<not> hasPlugin n g \<and> code_in (register_all (pl_static ld h) g) n h) (map fst (pl_static ld h)))"

lemma register_all_simps [simp]:
  "register_all [] g = g"
  "register_all ((n, r) # rs) g = register_all rs (snd (registerPlugin n r g))"
  by (simp_all add: register_all_def)

lemma snd_smap_put: "snd ` set (smap_put k v m) \<subseteq> insert v (snd ` set m)"
  by (induction k v m rule: smap_put.induct) auto

lemma snd_smap_erase: "snd ` set (smap_erase k m) \<subseteq> snd ` set m"
  by (auto simp: smap_erase_def)

lemma registerPlugin_fields [simp]:
  "pg_loaded_libraries (snd (registerPlugin n r g)) = pg_loaded_libraries g" "pg_uses (snd (registerPlugin n r g)) = pg_uses g"
  by (simp_all add: registerPlugin_def)

lemma register_all_fields [simp]:
  "pg_loaded_libraries (register_all rs g) = pg_loaded_libraries g" "pg_uses (register_all rs g) = pg_uses g"
  by (induction rs arbitrary: g) auto

lemma registerPlugin_effect:
  assumes "smap_ok (pg_plugins g)"
  shows "smap_ok (pg_plugins (snd (registerPlugin n r g)))"
    and "snd ` set (pg_plugins (snd (registerPlugin n r g))) \<subseteq> insert r (snd ` set (pg_plugins g))"
    and "smap_find m (pg_plugins (snd (registerPlugin n r g))) =
      (case smap_find m (pg_plugins g) of None \<Rightarrow> if m = n then Some r else None | Some q \<Rightarrow> Some q)"
  using assms snd_smap_put [of n r "pg_plugins g"] by (auto simp: registerPlugin_def smap_simps split: option.splits)

lemma register_all_effect:
  assumes "smap_ok (pg_plugins g)"
  shows "smap_ok (pg_plugins (register_all rs g))"
    and "snd ` set (pg_plugins (register_all rs g)) \<subseteq> snd ` set rs \<union> snd ` set (pg_plugins g)"
    and "smap_find m (pg_plugins (register_all rs g)) = (case smap_find m (pg_plugins g) of None \<Rightarrow> map_of rs m | Some q \<Rightarrow> Some q)"
  using assms
proof (induction rs arbitrary: g)
  case (Cons x rs)
  obtain n r where x: "x = (n, r)" by fastforce
  note eff = registerPlugin_effect [where n = n and r = r]
  {
    case 1
    then show ?case using Cons.IH(1) eff(1) [of g] by (simp add: x)
  next
    case 2
    have "snd ` set (pg_plugins (register_all rs (snd (registerPlugin n r g)))) \<subseteq> snd ` set rs \<union> insert r (snd ` set (pg_plugins g))"
      using Cons.IH(2) [OF eff(1) [OF 2]] eff(2) [OF 2] by (meson Un_mono order_refl subset_trans)
    then show ?case by (simp add: x)
  next
    case 3
    then show ?case using Cons.IH(3) [OF eff(1)] eff(3) [of g] unfolding x by (auto split: option.splits)
  }
qed (auto split: option.splits)

text \<open>The registrations of a library that is opened: those of its registrars, if it was not mapped, and those of the entry point.\<close>

definition registrations :: "'p plugin_loader \<Rightarrow> 'p PluginRegistry \<Rightarrow> nat \<Rightarrow> (string \<times> 'p PluginRegistration) list \<Rightarrow> (string \<times> 'p PluginRegistration) list" where
  "registrations ld g h rs = (if pg_uses g h = 0 then pl_static ld h else []) @ rs"

lemma register_all_uses: "register_all a (g\<lparr>pg_uses := u\<rparr>) = (register_all a g)\<lparr>pg_uses := u\<rparr>"
proof (induction a arbitrary: g)
  case (Cons x a)
  obtain n r where x: "x = (n, r)" by fastforce
  have "snd (registerPlugin n r (g\<lparr>pg_uses := u\<rparr>)) = (snd (registerPlugin n r g))\<lparr>pg_uses := u\<rparr>" by (simp add: registerPlugin_def)
  then show ?case by (simp add: x Cons.IH)
qed simp

lemma plugin_load_opened:
  assumes "pl_open ld path = Some h" and "pl_register ld h = Some rs"
  shows "loadDynamicPlugin ld path g = (register_all (registrations ld g h rs) g)
    \<lparr>pg_uses := (pg_uses g)(h := pg_uses g h + 1), pg_loaded_libraries := smap_put path h (pg_loaded_libraries g)\<rparr>"
proof -
  have "register_all (a @ b) g = register_all b (register_all a g)" for a b by (simp add: register_all_def)
  then show ?thesis using assms
    by (simp add: loadDynamicPlugin_def plugin_dlopen_def Let_def register_all_uses registrations_def)
qed

lemma unmapped_iff: "unmapped r g = Some h \<longleftrightarrow> pr_create_func r \<noteq> None \<and> pr_code r = Some h \<and> pg_uses g h = 0"
  by (auto simp: unmapped_def split: option.splits)

lemma plugins_mapped_iff:
  assumes "smap_ok (pg_plugins g)"
  shows "plugins_mapped g \<longleftrightarrow> (\<forall>n h. code_in g n h \<longrightarrow> 0 < pg_uses g h)"
proof -
  have "plugins_mapped g \<longleftrightarrow> (\<forall>n r. smap_find n (pg_plugins g) = Some r \<longrightarrow> unmapped r g = None)"
    using assms by (auto simp: plugins_mapped_def list_all_iff smap_find_entry)
  also have "\<dots> \<longleftrightarrow> (\<forall>n h. code_in g n h \<longrightarrow> 0 < pg_uses g h)"
  proof (intro iffI allI impI)
    fix n r assume all: "\<forall>n h. code_in g n h \<longrightarrow> 0 < pg_uses g h" and r: "smap_find n (pg_plugins g) = Some r"
    have "code_in g n h \<and> pg_uses g h = 0" if "unmapped r g = Some h" for h
      using that r by (simp add: code_in_def unmapped_iff)
    with all have "unmapped r g \<noteq> Some h" for h by fastforce
    then show "unmapped r g = None" by (cases "unmapped r g") auto
  next
    fix n h assume "\<forall>n r. smap_find n (pg_plugins g) = Some r \<longrightarrow> unmapped r g = None" and "code_in g n h"
    then show "0 < pg_uses g h" using unmapped_iff [of _ g h] by (force simp: code_in_def split: option.splits)
  qed
  finally show ?thesis .
qed

lemma smap_ok_load: "smap_ok (pg_plugins g) \<Longrightarrow> smap_ok (pg_plugins (loadDynamicPlugin ld path g))"
  by (simp add: loadDynamicPlugin_def plugin_dlopen_def plugin_dlclose_def Let_def register_all_effect(1) split: option.splits)

text \<open>Opening a library that has its entry point leaves no plugin behind; one without is closed again.\<close>

lemma code_in_register:
  assumes "smap_ok (pg_plugins g)"
  shows "code_in (register_all rs g) n h \<longleftrightarrow>
    (if hasPlugin n g then code_in g n h else (\<exists>r. map_of rs n = Some r \<and> pr_create_func r \<noteq> None \<and> pr_code r = Some h))"
  by (auto simp: code_in_def hasPlugin_def register_all_effect(3) [OF assms] split: option.splits)

lemma load_mapped_opened:
  assumes own: "own_code ld" and ok: "smap_ok (pg_plugins g)" and m: "plugins_mapped g"
    and l: "pl_open ld path = Some h" "pl_register ld h = Some rs"
  shows "plugins_mapped (loadDynamicPlugin ld path g)"
proof -
  let ?rs = "registrations ld g h rs"
  have new: "pr_code r \<in> {None, Some h}" if "map_of ?rs n = Some r" for n r
    using map_of_SomeD [OF that] own l(2) by (force simp: own_code_def registrations_def split: if_splits)
  have pos: "0 < (if k = h then pg_uses g h + 1 else pg_uses g k)" if "code_in (register_all ?rs g) n k" for n k
    using that new [of n] m unfolding plugins_mapped_iff [OF ok] code_in_register [OF ok] by (force split: if_splits)
  have code: "code_in (loadDynamicPlugin ld path g) n k \<longleftrightarrow> code_in (register_all ?rs g) n k" for n k
    by (simp add: plugin_load_opened [OF l] code_in_def)
  have uses: "pg_uses (loadDynamicPlugin ld path g) k = (if k = h then pg_uses g h + 1 else pg_uses g k)" for k
    by (simp add: plugin_load_opened [OF l])
  show ?thesis unfolding plugins_mapped_iff [OF smap_ok_load [OF ok]] code uses using pos by blast
qed

lemma load_mapped_closed:
  assumes own: "own_code ld" and ok: "smap_ok (pg_plugins g)" and m: "plugins_mapped g"
    and l: "pl_open ld path = Some h" "pl_register ld h = None"
  shows "plugins_mapped (loadDynamicPlugin ld path g) \<longleftrightarrow> \<not> load_strands ld path g"
proof (cases "pg_uses g h = 0")
  case True
  let ?g = "register_all (pl_static ld h) g"
  have new: "k = h" if "\<not> hasPlugin n g" "code_in ?g n k" for n k
    using that map_of_SomeD own unfolding code_in_register [OF ok] by (force simp: own_code_def)
  have name: "n \<in> fst ` set (pl_static ld h)" if "\<not> hasPlugin n g" "code_in ?g n k" for n k
    using that map_of_SomeD unfolding code_in_register [OF ok] by force
  have old: "0 < pg_uses g k" if "hasPlugin n g" "code_in ?g n k" for n k
    using that m unfolding plugins_mapped_iff [OF ok] code_in_register [OF ok] by simp
  have "loadDynamicPlugin ld path g = ?g"
    using l True by (simp add: loadDynamicPlugin_def plugin_dlopen_def plugin_dlclose_def Let_def fun_upd_idem)
  then have "plugins_mapped (loadDynamicPlugin ld path g) \<longleftrightarrow> (\<forall>n k. code_in ?g n k \<longrightarrow> 0 < pg_uses g k)"
    using plugins_mapped_iff [OF register_all_effect(1) [OF ok, of "pl_static ld h"]] by simp
  also have "\<dots> \<longleftrightarrow> \<not> (\<exists>n. \<not> hasPlugin n g \<and> code_in ?g n h)"
    using True new old by (metis less_irrefl)
  also have "\<dots> \<longleftrightarrow> \<not> load_strands ld path g"
    using l True name by (auto simp: load_strands_def list_ex_iff image_iff)
  finally show ?thesis .
next
  case False
  then have "loadDynamicPlugin ld path g = g"
    using l by (simp add: loadDynamicPlugin_def plugin_dlopen_def plugin_dlclose_def Let_def)
  with m False l show ?thesis by (simp add: load_strands_def)
qed

lemma load_mapped_iff:
  assumes "own_code ld" and "smap_ok (pg_plugins g)" and "plugins_mapped g"
  shows "plugins_mapped (loadDynamicPlugin ld path g) \<longleftrightarrow> \<not> load_strands ld path g"
proof (cases "pl_open ld path")
  case None
  with assms(3) show ?thesis by (simp add: load_strands_def loadDynamicPlugin_def plugin_dlopen_def)
next
  case (Some h)
  then show ?thesis
    using load_mapped_opened [OF assms Some] load_mapped_closed [OF assms Some]
    by (cases "pl_register ld h") (simp_all add: load_strands_def)
qed

text \<open>Removing a plugin.\<close>

lemma unregister_unmapped_iff:
  assumes "smap_ok (pg_plugins g)" and "plugins_mapped g"
  shows "unregisterPlugin n g = Inl (Unmapped h) \<longleftrightarrow> last_use g n h \<and> code_in g n h"
proof -
  have "0 < pg_uses g k" if "code_in g n k" for k using that assms by (simp add: plugins_mapped_iff)
  then show ?thesis
    by (auto simp: unregisterPlugin_def last_use_def code_in_def unmapped_def plugin_dlclose_def Let_def split: option.splits if_splits)
qed

lemma unregister_mapped_iff:
  assumes ok: "smap_ok (pg_plugins g)" and m: "plugins_mapped g" and r: "unregisterPlugin n g = Inr (b, g')"
  shows "b = hasPlugin n g \<and> \<not> hasPlugin n g' \<and>
    (plugins_mapped g' \<longleftrightarrow> \<not> (hasPlugin n g \<and> (\<exists>h k. last_use g n h \<and> k \<noteq> n \<and> code_in g k h)))"
proof (cases "smap_find n (pg_plugins g)")
  case None
  with r m show ?thesis by (simp add: unregisterPlugin_def hasPlugin_def)
next
  case (Some q)
  let ?u = "case smap_find n (pg_loaded_libraries g) of None \<Rightarrow> pg_uses g | Some h \<Rightarrow> (pg_uses g)(h := pg_uses g h - 1)"
  have g': "b" "pg_plugins g' = smap_erase n (pg_plugins g)" "pg_uses g' = ?u"
    using r Some by (auto simp: unregisterPlugin_def plugin_dlclose_def Let_def split: option.splits)
  have ok': "smap_ok (pg_plugins g')" using g'(2) ok by (simp add: smap_ok_erase)
  have code: "code_in g' k h \<longleftrightarrow> k \<noteq> n \<and> code_in g k h" for k h
    using ok by (simp add: code_in_def g'(2) smap_find_erase)
  have pos: "0 < pg_uses g h" if "code_in g k h" for k h using that m ok by (simp add: plugins_mapped_iff)
  have use: "0 < ?u h \<longleftrightarrow> \<not> last_use g n h" if "code_in g k h" for k h
    using pos [OF that] by (auto simp: last_use_def split: option.splits)
  have "plugins_mapped g' \<longleftrightarrow> \<not> (\<exists>h k. last_use g n h \<and> k \<noteq> n \<and> code_in g k h)"
    unfolding plugins_mapped_iff [OF ok'] code g'(3) using use by metis
  moreover have "\<not> hasPlugin n g'" using ok by (simp add: hasPlugin_def g'(2) smap_find_erase)
  ultimately show ?thesis using g'(1) Some by (simp add: hasPlugin_def)
qed

abbreviation loads :: "'p plugin_loader \<Rightarrow> 'p PluginRegistry \<Rightarrow> string list \<Rightarrow> 'p PluginRegistry" where
  "loads ld \<equiv> foldl (\<lambda>g p. loadDynamicPlugin ld p g)"

lemma smap_ok_loads: "smap_ok (pg_plugins g) \<Longrightarrow> smap_ok (pg_plugins (loads ld g ps))"
  by (induction ps arbitrary: g) (auto simp: smap_ok_load)

definition libraries :: "dirent list \<Rightarrow> string list" where
  "libraries es = map de_path (filter is_library es)"

lemma length_smap_put: "length m \<le> length (smap_put k v m)"
  by (induction k v m rule: smap_put.induct) auto

lemma register_all_grows: "length (pg_plugins g) \<le> length (pg_plugins (register_all rs g))"
proof (induction rs arbitrary: g)
  case (Cons x rs)
  obtain n r where x: "x = (n, r)" by fastforce
  have "length (pg_plugins g) \<le> length (pg_plugins (snd (registerPlugin n r g)))"
    using length_smap_put by (auto simp: registerPlugin_def)
  then show ?case using Cons.IH [of "snd (registerPlugin n r g)"] by (simp add: x)
qed simp

lemma load_grows: "length (pg_plugins g) \<le> length (pg_plugins (loadDynamicPlugin ld p g))"
proof -
  have "length (pg_plugins g) \<le> length (pg_plugins (snd (plugin_dlopen ld p g)))"
    using register_all_grows by (auto simp: plugin_dlopen_def Let_def split: option.splits)
  moreover have "length (pg_plugins (snd (plugin_dlopen ld p g))) \<le> length (pg_plugins (loadDynamicPlugin ld p g))"
    using register_all_grows by (auto simp: loadDynamicPlugin_def plugin_dlclose_def Let_def split: option.splits prod.splits)
  ultimately show ?thesis by simp
qed

text \<open>A scan loads the libraries of the directory in their order.\<close>

lemma visits_load:
  "\<exists>n. foldl (\<lambda>x e. visit_library ld e x) (f, l, g) es =
     (f + length (libraries es), l + n, loads ld g (libraries es)) \<and> n \<le> length (libraries es) \<and>
     length (pg_plugins g) + n \<le> length (pg_plugins (loads ld g (libraries es)))"
proof (induction es arbitrary: f l g)
  case (Cons e es)
  let ?g = "loadDynamicPlugin ld (de_path e) g"
  show ?case
  proof (cases "is_library e")
    case True
    obtain d where v: "visit_library ld e (f, l, g) = (f + 1, l + d, ?g)" "d \<le> 1" "length (pg_plugins g) + d \<le> length (pg_plugins ?g)"
      using True load_grows [of g ld "de_path e"]
      by (cases "length (pg_plugins g) < length (pg_plugins ?g)") (force simp: visit_library_def Let_def)+
    obtain n where "foldl (\<lambda>x e. visit_library ld e x) (f + 1, l + d, ?g) es =
        (f + 1 + length (libraries es), l + d + n, loads ld ?g (libraries es))" "n \<le> length (libraries es)"
        "length (pg_plugins ?g) + n \<le> length (pg_plugins (loads ld ?g (libraries es)))"
      using Cons.IH by blast
    then show ?thesis using v True by (intro exI [of _ "d + n"]) (simp add: libraries_def)
  next
    case False
    then show ?thesis using Cons.IH [of f l g] by (simp add: visit_library_def libraries_def)
  qed
qed (simp add: libraries_def)

lemma directory_loads:
  "\<exists>n. scan_directory ld fs d (f, l, g) = (snd (fs_list fs d), f + length (libraries (fst (fs_list fs d))), l + n, loads ld g (libraries (fst (fs_list fs d)))) \<and>
     n \<le> length (libraries (fst (fs_list fs d))) \<and> length (pg_plugins g) + n \<le> length (pg_plugins (loads ld g (libraries (fst (fs_list fs d)))))"
  using visits_load [of ld f l g "fst (fs_list fs d)"] by (simp add: scan_directory_def split_def)

lemma subdirectories_load:
  "\<exists>ps n. scan_subdirectories ld fs es (f, l, g) =
      (\<not> list_all (\<lambda>e. \<not> snd (fs_list fs (de_path e))) (filter de_directory es), f + length ps, l + n, loads ld g ps) \<and>
    n \<le> length ps \<and> length (pg_plugins g) + n \<le> length (pg_plugins (loads ld g ps)) \<and>
    (list_all (\<lambda>e. \<not> snd (fs_list fs (de_path e))) (filter de_directory es) \<longrightarrow>
       ps = concat (map (\<lambda>e. libraries (fst (fs_list fs (de_path e)))) (filter de_directory es)))"
proof (induction es arbitrary: f l g)
  case Nil
  show ?case by (intro exI [of _ "[]"] exI [of _ 0]) simp
next
  case (Cons e es)
  show ?case
  proof (cases "de_directory e")
    case True
    let ?ls = "libraries (fst (fs_list fs (de_path e)))"
    let ?g = "loads ld g ?ls"
    obtain n where n: "scan_directory ld fs (de_path e) (f, l, g) = (snd (fs_list fs (de_path e)), f + length ?ls, l + n, ?g)"
        "n \<le> length ?ls" "length (pg_plugins g) + n \<le> length (pg_plugins ?g)"
      using directory_loads by blast
    show ?thesis
    proof (cases "snd (fs_list fs (de_path e))")
      case failed: True
      then show ?thesis using n True by (intro exI [of _ ?ls] exI [of _ n]) simp
    next
      case False
      obtain ps k where "scan_subdirectories ld fs es (f + length ?ls, l + n, ?g) =
          (\<not> list_all (\<lambda>e. \<not> snd (fs_list fs (de_path e))) (filter de_directory es), f + length ?ls + length ps, l + n + k, loads ld ?g ps)"
          "k \<le> length ps" "length (pg_plugins ?g) + k \<le> length (pg_plugins (loads ld ?g ps))"
          "list_all (\<lambda>e. \<not> snd (fs_list fs (de_path e))) (filter de_directory es) \<longrightarrow>
             ps = concat (map (\<lambda>e. libraries (fst (fs_list fs (de_path e)))) (filter de_directory es))"
        using Cons.IH by blast
      then show ?thesis using n True False by (intro exI [of _ "?ls @ ps"] exI [of _ "n + k"]) simp
    qed
  next
    case False
    then show ?thesis using Cons.IH [of f l g] by simp
  qed
qed

lemma discover_loads:
  "\<exists>ps. snd (discoverPlugins ld fs d g) = loads ld g ps"
proof (cases "fs_exists fs d \<and> fs_is_directory fs d")
  case True
  let ?es = "fst (fs_list fs d)"
  let ?g = "loads ld g (libraries ?es)"
  obtain n where n: "scan_directory ld fs d (0, 0, g) = (snd (fs_list fs d), length (libraries ?es), n, ?g)"
    using directory_loads [of ld fs d 0 0 g] by auto
  obtain ps k b where "scan_subdirectories ld fs ?es (length (libraries ?es), n, ?g) = (b, length (libraries ?es) + length ps, k, loads ld ?g ps)"
    using subdirectories_load [of ld fs ?es "length (libraries ?es)" n ?g] by blast
  then have "snd (discoverPlugins ld fs d g) = (if snd (fs_list fs d) then ?g else loads ld g (libraries ?es @ ps))"
    using True n by (cases "snd (fs_list fs d)") (simp_all add: discoverPlugins_def split_def)
  then show ?thesis by meson
qed (auto simp: discoverPlugins_def intro: exI [of _ "[]"])

lemma reachable_smap_ok: "plugin_reachable ld fs g \<Longrightarrow> smap_ok (pg_plugins g)"
proof (induction rule: plugin_reachable.induct)
  case start
  show ?case by (simp add: PluginRegistry_init_def)
next
  case (registered g r n)
  then show ?case by (simp add: registerPlugin_effect(1))
next
  case (unregistered g n b g')
  then show ?case
    by (auto simp: unregisterPlugin_def plugin_dlclose_def Let_def smap_ok_erase split: option.splits)
next
  case (loaded g path)
  then show ?case by (simp add: smap_ok_load)
next
  case (discovered g d)
  then show ?case using discover_loads [of ld fs d g] smap_ok_loads by metis
qed

lemma create_mapped:
  assumes "smap_ok (pg_plugins g)" and "plugins_mapped g"
  shows "createPlugin n g = Inr (case smap_find n (pg_plugins g) of None \<Rightarrow> None | Some r \<Rightarrow> (case pr_create_func r of None \<Rightarrow> None | Some obj \<Rightarrow> obj))"
proof -
  have "unmapped r g = None" if "smap_find n (pg_plugins g) = Some r" for r
    using assms that by (auto simp: plugins_mapped_def list_all_iff smap_find_entry)
  then show ?thesis by (simp add: createPlugin_def split: option.splits)
qed

text \<open>
  C35: where the registry runs code that is no longer mapped, exactly. In a registry reached by any calls, in which the code of every registered plugin
  is mapped, creating a plugin runs it. Loading a library keeps that so in all cases but one: the library has no entry point, it was not open, and its
  static registrars (\<^verbatim>\<open>PIMID_REGISTER_PLUGIN\<close>) added a plugin of its own, which is then left with unmapped code. Removing a plugin fails on
  unmapped code exactly when the name of the plugin is also the path under which its own library was loaded, and that is the last use of the library;
  otherwise the plugin is forgotten, and code of another plugin is unmapped exactly when that other one lies in the library loaded under the removed
  plugin's name, at its last use. So removing a plugin by a name that is not the path of a library is always safe, and never closes its library.
  The libraries are taken to register code of their own.
\<close>

theorem registry_unmaps_exactly:
  assumes "own_code ld" and "plugin_reachable ld fs g" and "plugins_mapped g"
  shows "(\<exists>obj. createPlugin n g = Inr obj) \<and>
    (plugins_mapped (loadDynamicPlugin ld path g) \<longleftrightarrow> \<not> load_strands ld path g) \<and>
    (\<forall>h. unregisterPlugin n g = Inl (Unmapped h) \<longleftrightarrow> last_use g n h \<and> code_in g n h) \<and>
    (\<forall>b g'. unregisterPlugin n g = Inr (b, g') \<longrightarrow> b = hasPlugin n g \<and> \<not> hasPlugin n g' \<and>
       (plugins_mapped g' \<longleftrightarrow> \<not> (hasPlugin n g \<and> (\<exists>h k. last_use g n h \<and> k \<noteq> n \<and> code_in g k h))))"
proof -
  have ok: "smap_ok (pg_plugins g)" using assms(2) by (rule reachable_smap_ok)
  have "\<exists>obj. createPlugin n g = Inr obj" using create_mapped [OF ok assms(3)] by blast
  then show ?thesis
    using load_mapped_iff [OF assms(1) ok assms(3), of path] unregister_unmapped_iff [OF ok assms(3), of n]
      unregister_mapped_iff [OF ok assms(3), of n] by blast
qed

text \<open>
  A loader with a library that has an entry point and one that only has a static registrar, each with one plugin; and a directory that holds the
  first, a text file, a hidden file and a directory with the library again.
\<close>

definition sample_methods :: "nat IPlugin" where
  "sample_methods = \<lparr>pv_validateConfig = (\<lambda>p config es. (es = [], es)), pv_initialize = (\<lambda>config p. (True, p + 1))\<rparr>"

definition sample_registration :: "nat \<Rightarrow> nat PluginRegistration" where
  "sample_registration h = PluginRegistration_init\<lparr>pr_create_func := Some (Some (sample_methods, 7)), pr_code := Some h\<rparr>"

definition sample_plugin_loader :: "nat plugin_loader" where
  "sample_plugin_loader = \<lparr>pl_open = (\<lambda>p. if filename p = ''mem.so'' then Some 1 else if filename p = ''bare.so'' then Some 2 else None),
     pl_static = (\<lambda>h. if h = 2 then [(''bare'', sample_registration 2)] else []),
     pl_register = (\<lambda>h. if h = 1 then Some [(''mem'', sample_registration 1)] else None)\<rparr>"

definition sample_fs :: file_system where
  "sample_fs = \<lparr>fs_exists = (\<lambda>_. True), fs_is_directory = (\<lambda>_. True), fs_list = (\<lambda>d.
     if d = ''plugins'' then ([\<lparr>de_path = ''plugins/mem.so'', de_regular = True, de_directory = False\<rparr>,
         \<lparr>de_path = ''plugins/notes.txt'', de_regular = True, de_directory = False\<rparr>,
         \<lparr>de_path = ''plugins/.so'', de_regular = True, de_directory = False\<rparr>,
         \<lparr>de_path = ''plugins/old'', de_regular = False, de_directory = True\<rparr>], False)
     else ([\<lparr>de_path = ''plugins/old/mem.so'', de_regular = True, de_directory = False\<rparr>], False))\<rparr>"

theorem registry_unmaps_exactly_witness:
  "plugins_mapped (loadDynamicPlugin sample_plugin_loader ''plugins/mem.so'' PluginRegistry_init) \<and>
   \<not> plugins_mapped (loadDynamicPlugin sample_plugin_loader ''plugins/bare.so'' PluginRegistry_init)"
proof -
  have own: "own_code sample_plugin_loader"
    by (auto simp: own_code_def sample_plugin_loader_def sample_registration_def)
  have "plugins_mapped (PluginRegistry_init :: nat PluginRegistry)"
    by (simp add: plugins_mapped_def PluginRegistry_init_def)
  note at_start = registry_unmaps_exactly [OF own plugin_reachable.start [of _ sample_fs] this]
  have "\<not> load_strands sample_plugin_loader ''plugins/mem.so'' PluginRegistry_init"
    "load_strands sample_plugin_loader ''plugins/bare.so'' PluginRegistry_init"
    by (simp_all add: load_strands_def sample_plugin_loader_def filename_def PluginRegistry_init_def hasPlugin_def code_in_def
        registerPlugin_def sample_registration_def smap_find_def)
  with at_start [of "''mem''" "''plugins/mem.so''"] at_start [of "''mem''" "''plugins/bare.so''"] show ?thesis by blast
qed

text \<open>
  The discovery in a directory that can be read loads the libraries of the directory, then those of its immediate subdirectories, in the order of
  the listings and nothing else; it counts all of them as found, and counts as loaded at most as many as plugins were added.
\<close>

theorem discovery_loads_libraries:
  assumes "fs_exists fs d" and "fs_is_directory fs d" and "fs_list fs d = (es, False)"
    and "\<forall>e\<in>set es. de_directory e \<longrightarrow> \<not> snd (fs_list fs (de_path e))"
  shows "let ps = libraries es @ concat (map (\<lambda>e. libraries (fst (fs_list fs (de_path e)))) (filter de_directory es)) in
    \<exists>loaded. discoverPlugins ld fs d g = (Some (length ps, loaded), loads ld g ps) \<and>
      loaded \<le> length ps \<and> length (pg_plugins g) + loaded \<le> length (pg_plugins (loads ld g ps))"
proof -
  let ?g = "loads ld g (libraries es)"
  have all: "list_all (\<lambda>e. \<not> snd (fs_list fs (de_path e))) (filter de_directory es)" using assms(4) by (auto simp: list_all_iff)
  obtain n where n: "scan_directory ld fs d (0, 0, g) = (False, length (libraries es), n, ?g)" "n \<le> length (libraries es)"
      "length (pg_plugins g) + n \<le> length (pg_plugins ?g)"
    using directory_loads [of ld fs d 0 0 g] assms(3) by auto
  define ps where "ps = concat (map (\<lambda>e. libraries (fst (fs_list fs (de_path e)))) (filter de_directory es))"
  obtain k where k: "scan_subdirectories ld fs es (length (libraries es), n, ?g) = (False, length (libraries es) + length ps, n + k, loads ld ?g ps)"
      "k \<le> length ps" "length (pg_plugins ?g) + k \<le> length (pg_plugins (loads ld ?g ps))"
    using subdirectories_load [of ld fs es "length (libraries es)" n ?g] all unfolding ps_def by auto
  have "discoverPlugins ld fs d g = (Some (length (libraries es @ ps), n + k), loads ld g (libraries es @ ps))"
    using assms(1-3) n(1) k(1) by (simp add: discoverPlugins_def)
  then show ?thesis using n(2,3) k(2,3) unfolding ps_def Let_def by (intro exI [of _ "n + k"]) simp
qed

lemma sample_libraries:
  "libraries (fst (fs_list sample_fs ''plugins'')) = [''plugins/mem.so'']"
  "map de_path (filter de_directory (fst (fs_list sample_fs ''plugins''))) = [''plugins/old'']"
  "libraries (fst (fs_list sample_fs ''plugins/old'')) = [''plugins/old/mem.so'']"
  by code_simp+

theorem discovery_loads_libraries_witness:
  "\<exists>loaded. discoverPlugins sample_plugin_loader sample_fs ''plugins'' PluginRegistry_init =
     (Some (2, loaded), loads sample_plugin_loader PluginRegistry_init [''plugins/mem.so'', ''plugins/old/mem.so''])"
proof -
  let ?es = "fst (fs_list sample_fs ''plugins'')"
  have fs: "fs_exists sample_fs ''plugins''" "fs_is_directory sample_fs ''plugins''" "fs_list sample_fs ''plugins'' = (?es, False)"
      "\<forall>e\<in>set ?es. de_directory e \<longrightarrow> \<not> snd (fs_list sample_fs (de_path e))"
    by (simp_all add: sample_fs_def)
  have "concat (map (\<lambda>e. libraries (fst (fs_list sample_fs (de_path e)))) (filter de_directory ?es)) =
      concat (map (\<lambda>p. libraries (fst (fs_list sample_fs p))) (map de_path (filter de_directory ?es)))"
    by (simp add: comp_def)
  then have "libraries ?es @ concat (map (\<lambda>e. libraries (fst (fs_list sample_fs (de_path e)))) (filter de_directory ?es)) = [''plugins/mem.so'', ''plugins/old/mem.so'']"
    unfolding sample_libraries by (simp add: sample_libraries)
  then show ?thesis
    using discovery_loads_libraries [OF fs, of sample_plugin_loader PluginRegistry_init] unfolding Let_def by auto
qed

section \<open>Configured memory plugins\<close>

text \<open>Where the signed conversion gives a positive number, the unsigned one gives the same.\<close>

lemma drop_takeWhile: "drop (length (takeWhile P xs)) xs = dropWhile P xs"
  by (induction xs) auto

lemma stoull_stoll:
  assumes "stoll s = Inr (v, n)" and "0 < v"
  shows "\<exists>w. stoull s = Inr w \<and> unat w = nat v"
proof -
  define t where "t = dropWhile is_space s"
  define u where "u = (if t \<noteq> [] \<and> (hd t = CHR ''-'' \<or> hd t = CHR ''+'') then tl t else t)"
  define ds where "ds = takeWhile is_digit u"
  have "ds \<noteq> [] \<and> v = (if t \<noteq> [] \<and> hd t = CHR ''-'' then - int (digits_value ds) else int (digits_value ds)) \<and> v < 2 ^ 63"
    using assms(1) unfolding stoll_def drop_takeWhile Let_def t_def [symmetric] u_def [symmetric] ds_def [symmetric]
    by (auto split: if_splits)
  with assms(2) have "ds \<noteq> []" "\<not> (t \<noteq> [] \<and> hd t = CHR ''-'')" "v = int (digits_value ds)" "v < 2 ^ 63" by (auto split: if_splits)
  then show ?thesis unfolding stoull_def Let_def t_def [symmetric] u_def [symmetric] ds_def [symmetric]
    by (auto intro!: unat_word_of_nat)
qed

definition positive_number :: "string \<Rightarrow> bool" where
  "positive_number s \<longleftrightarrow> (case stoll s of Inl _ \<Rightarrow> False | Inr (v, n) \<Rightarrow> 0 < v)"

definition number :: "params \<Rightarrow> string \<Rightarrow> nat \<Rightarrow> nat" where
  "number config key d = (case smap_find key config of None \<Rightarrow> d | Some s \<Rightarrow> nat (fst (projr (stoll s))))"

definition numbers_ok :: "params \<Rightarrow> bool" where
  "numbers_ok config \<longleftrightarrow> (\<forall>k\<in>set numeric_parameters. \<forall>s. smap_find k config = Some s \<longrightarrow> positive_number s)"

lemma validate_positive_Nil:
  "validate_positive config k es = [] \<longleftrightarrow> es = [] \<and> (\<forall>s. smap_find k config = Some s \<longrightarrow> positive_number s)"
  by (auto simp: validate_positive_def positive_number_def split: option.splits sum.splits)

lemma cm_validate_iff: "fst (cm_validateConfig p config []) \<longleftrightarrow> numbers_ok config"
  by (simp add: cm_validateConfig_def base_validateConfig_def cm_getRequiredParameters_def numeric_parameters_def numbers_ok_def validate_positive_Nil Let_def)

lemma configured_text:
  assumes "numbers_ok config" and "k \<in> set numeric_parameters" and "smap_find k config = Some s"
  obtains w where "stoull s = Inr w" "unat w = number config k d" "0 < number config k d"
proof -
  have "positive_number s" using assms by (simp add: numbers_ok_def)
  then obtain v n where v: "stoll s = Inr (v, n)" "0 < v" by (cases "stoll s") (auto simp: positive_number_def)
  then show ?thesis using stoull_stoll [OF v] assms(3) that by (auto simp: number_def)
qed

lemma configured_latency:
  assumes "numbers_ok config" and "k \<in> set numeric_parameters" and "unat d = n" and "0 < n"
  shows "unat (or_default e (getConfigValueAs_uint64 config k d)) = number config k n \<and> 0 < number config k n"
proof (cases "smap_find k config")
  case None
  then show ?thesis using assms(3,4) by (auto simp: getConfigValueAs_uint64_def converted_def number_def or_default_def)
next
  case (Some s)
  from configured_text [OF assms(1,2) Some, of n] obtain w where w: "stoull s = Inr w" "unat w = number config k n" "0 < number config k n" by blast
  then have "w \<noteq> 0" by auto
  then show ?thesis using Some w by (simp add: getConfigValueAs_uint64_def converted_def or_default_def)
qed

lemma configured_node:
  assumes "numbers_ok config"
  shows "unat (getConfigValueAs_uint32 config ''tech_node_nm'' 22) = number config ''tech_node_nm'' 22 mod 2 ^ 32"
proof (cases "smap_find ''tech_node_nm'' config")
  case None
  then show ?thesis by (simp add: getConfigValueAs_uint32_def converted_def number_def)
next
  case (Some s)
  have "''tech_node_nm'' \<in> set numeric_parameters" by (simp add: numeric_parameters_def)
  from configured_text [OF assms this Some, of 22] obtain w where w: "stoull s = Inr w" "unat w = number config ''tech_node_nm'' 22" by blast
  have "unat (ucast w :: u32) = unat w mod 2 ^ 32" by (simp add: unsigned_ucast_eq take_bit_eq_mod)
  then show ?thesis using Some w by (simp add: getConfigValueAs_uint32_def converted_def stoul32_def)
qed

text \<open>
  What the member functions do to the members, for the concrete class that would inherit them: a configuration is accepted exactly when each numeric
  parameter that is given begins with a positive integer of 63 bits (\<open>cm_validate_iff\<close>), and the latencies and the bandwidth are then the numbers
  given, or the defaults, and not zero. The technology node is reduced to 32 bits and the bandwidth in bytes to 64, and those can become zero
  (\<open>node_wraps\<close>, \<open>bandwidth_wraps\<close>).
\<close>

lemma cm_initialize_values:
  assumes "numbers_ok config" and "q = snd (cm_initialize config p)"
  shows "unat (cm_read_latency q) = number config ''read_latency'' 50 \<and> 0 < number config ''read_latency'' 50"
    and "unat (cm_write_latency q) = number config ''write_latency'' 100 \<and> 0 < number config ''write_latency'' 100"
    and "unat (cm_bandwidth q) = number config ''bandwidth'' 25600 \<and> 0 < number config ''bandwidth'' 25600"
    and "unat (getMaxBandwidth q) = (number config ''bandwidth'' 25600 * 2 ^ 20) mod 2 ^ 64"
    and "unat (cm_tech_node q) = number config ''tech_node_nm'' 22 mod 2 ^ 32"
proof -
  have ks: "''read_latency'' \<in> set numeric_parameters" "''write_latency'' \<in> set numeric_parameters" "''bandwidth'' \<in> set numeric_parameters"
    by (simp_all add: numeric_parameters_def)
  show "unat (cm_read_latency q) = number config ''read_latency'' 50 \<and> 0 < number config ''read_latency'' 50"
    using configured_latency [OF assms(1) ks(1), of 50 50 50] by (simp add: assms(2) cm_initialize_def)
  show "unat (cm_write_latency q) = number config ''write_latency'' 100 \<and> 0 < number config ''write_latency'' 100"
    using configured_latency [OF assms(1) ks(2), of 100 100 100] by (simp add: assms(2) cm_initialize_def)
  show b: "unat (cm_bandwidth q) = number config ''bandwidth'' 25600 \<and> 0 < number config ''bandwidth'' 25600"
    using configured_latency [OF assms(1) ks(3), of 25600 25600 25600] by (simp add: assms(2) cm_initialize_def)
  have "getMaxBandwidth q = word_of_nat (number config ''bandwidth'' 25600 * 2 ^ 20)"
    unfolding getMaxBandwidth_def conjunct1 [OF b, symmetric] by simp
  then have "unat (getMaxBandwidth q) = take_bit LENGTH(64) (number config ''bandwidth'' 25600 * 2 ^ 20)"
    by (simp only: unsigned_of_nat of_nat_id)
  then show "unat (getMaxBandwidth q) = (number config ''bandwidth'' 25600 * 2 ^ 20) mod 2 ^ 64"
    by (simp add: take_bit_eq_mod)
  show "unat (cm_tech_node q) = number config ''tech_node_nm'' 22 mod 2 ^ 32"
    using configured_node [OF assms(1)] by (simp add: assms(2) cm_initialize_def)
qed

section \<open>Where it goes wrong\<close>

text \<open>A library whose registrars have run, but that has no entry point, is closed, and its plugins stay: creating one runs unmapped code.\<close>

lemma registrars_dangle:
  assumes "pl_open ld path = Some h" and "pl_register ld h = None" and "pg_uses g h = 0"
    and "map_of (pl_static ld h) n = Some r" and "pr_code r = Some h" and "pr_create_func r \<noteq> None"
    and "smap_ok (pg_plugins g)" and "\<not> hasPlugin n g"
  shows "createPlugin n (loadDynamicPlugin ld path g) = Inl (Unmapped h)"
proof -
  have "smap_find n (pg_plugins (register_all (pl_static ld h) g)) = Some r"
    using register_all_effect(3) [OF assms(7)] assms(4,8) by (simp add: hasPlugin_def)
  then show ?thesis using assms(1-3,5,6)
    by (auto simp: createPlugin_def loadDynamicPlugin_def plugin_dlopen_def plugin_dlclose_def unmapped_def Let_def)
qed

text \<open>A plugin named by the path of its library: the library is closed before the function in it is destroyed.\<close>

lemma closed_before_erased:
  assumes "smap_find n (pg_plugins g) = Some r" and "smap_find n (pg_loaded_libraries g) = Some h" and "pg_uses g h = 1"
    and "pr_code r = Some h" and "pr_create_func r \<noteq> None"
  shows "unregisterPlugin n g = Inl (Unmapped h)"
  using assms by (auto simp: unregisterPlugin_def plugin_dlclose_def unmapped_def Let_def)

text \<open>\<^verbatim>\<open>setParameters\<close> does not replace what is set.\<close>

lemma setParameters_keeps:
  assumes "smap_find k (pf_parameters c) = Some v"
  shows "smap_find k (pf_parameters (setParameters ps c)) = Some v"
proof -
  have "smap_find k m = Some v \<Longrightarrow> smap_find k (foldl (\<lambda>m (k, v). if smap_find k m = None then smap_put k v m else m) m ps) = Some v" for m
  proof (induction ps arbitrary: m)
    case (Cons e ps)
    then have "smap_find k (if smap_find (fst e) m = None then smap_put (fst e) (snd e) m else m) = Some v" by (auto simp: smap_find_put)
    then show ?case using Cons.IH by (simp add: split_def)
  qed simp
  then show ?thesis using assms by (simp add: setParameters_def)
qed

text \<open>A technology node of \<open>2 ^ 32\<close> is positive for the check, and zero for the model.\<close>

lemma node_wraps:
  "numbers_ok [(''tech_node_nm'', ''4294967296'')] \<and> getConfigValueAs_uint32 [(''tech_node_nm'', ''4294967296'')] ''tech_node_nm'' 22 = 0"
proof -
  have "stoll ''4294967296'' = Inr (4294967296, 10)" "stoull ''4294967296'' = Inr 4294967296"
    by (simp_all add: stoll_def stoull_def is_space_def is_digit_def digits_value_def)
  then show ?thesis
    by (simp add: numbers_ok_def numeric_parameters_def smap_find_def positive_number_def getConfigValueAs_uint32_def converted_def stoul32_def)
qed

text \<open>A bandwidth of \<open>2 ^ 44\<close> megabytes per second is positive for the check, and zero bytes per second for the model.\<close>

lemma bandwidth_wraps:
  "numbers_ok [(''bandwidth'', ''17592186044416'')] \<and> getMaxBandwidth (snd (cm_initialize [(''bandwidth'', ''17592186044416'')] p)) = 0"
proof -
  have "stoll ''17592186044416'' = Inr (17592186044416, 14)" "stoull ''17592186044416'' = Inr 17592186044416"
    by (simp_all add: stoll_def stoull_def is_space_def is_digit_def digits_value_def)
  then show ?thesis
    by (simp add: numbers_ok_def numeric_parameters_def smap_find_def positive_number_def getConfigValueAs_uint64_def converted_def
        cm_initialize_def getMaxBandwidth_def or_default_def)
qed

end
