(* ===== verification/Event_Queue.thy ===== *)
theory Event_Queue
  imports Prelude
begin

text \<open>
  The discrete event queue (include/common/event_queue.h, src/common/event_queue.cpp).

  An event carries a type, a cycle, a priority and a callback. \<^verbatim>\<open>std::function<void()>\<close> is an
  \<open>'c option\<close>: \<open>None\<close> is the empty function the code tests with \<^verbatim>\<open>!callback\<close>, \<open>Some c\<close>
  names a closure. What a closure does to the queue is the argument \<open>eff\<close>: \<open>eff c t\<close> are the
  events the closure schedules, in order, when it runs at cycle \<open>t\<close>. A closure that throws is
  caught by the code and has, for the queue, the effect of what it scheduled before throwing.
  The \<^verbatim>\<open>data\<close> pointer of an event is never read by the queue and is left out, as are the
  lines the code prints.
\<close>

section \<open>Events\<close>

datatype EventType =
  MEMORY_RESPONSE | NETWORK_ARRIVAL | OFFLOAD_COMPLETE | SYNCHRONIZATION | CUSTOM

record 'c Event =
  ev_type :: EventType
  scheduled_cycle :: Cycle
  priority :: u32
  callback :: "'c option"

text \<open>\<^verbatim>\<open>Event::operator<\<close>: the order of the priority queue, in which the greatest event is on top.\<close>

definition event_less :: "'c Event \<Rightarrow> 'c Event \<Rightarrow> bool" where
  "event_less a b =
     (if scheduled_cycle a = scheduled_cycle b then priority a < priority b
      else scheduled_cycle a > scheduled_cycle b)"

lemma event_less_irrefl [simp]: "\<not> event_less a a"
  by (simp add: event_less_def)

lemma event_less_asym: "event_less a b \<Longrightarrow> \<not> event_less b a"
  by (auto simp: event_less_def split: if_splits)

lemma event_less_trans: "event_less a b \<Longrightarrow> event_less b c \<Longrightarrow> event_less a c"
  by (auto simp: event_less_def split: if_splits)

text \<open>Not being below is transitive too: the order is a strict weak one, as the C++ container needs.\<close>

lemma event_not_less_trans: "\<not> event_less a b \<Longrightarrow> \<not> event_less b c \<Longrightarrow> \<not> event_less a c"
  by (auto simp: event_less_def split: if_splits)

lemma event_less_cycle: "\<not> event_less a b \<Longrightarrow> scheduled_cycle a \<le> scheduled_cycle b"
  by (auto simp: event_less_def split: if_splits)

section \<open>The container contract\<close>

text \<open>
  What the queue relies on of \<^verbatim>\<open>std::priority_queue\<close>: \<open>push\<close> adds, \<open>top\<close> is a
  greatest element, \<open>pop\<close> removes \<open>top\<close>, and a push displaces the top only by a strictly
  greater element (the sift-up of a binary heap exchanges only with strictly smaller parents).
\<close>

locale std_priority_queue =
  fixes less :: "'a \<Rightarrow> 'a \<Rightarrow> bool"
    and push :: "'a \<Rightarrow> 'q \<Rightarrow> 'q"
    and top :: "'q \<Rightarrow> 'a"
    and pop :: "'q \<Rightarrow> 'q"
    and invar :: "'q \<Rightarrow> bool"
    and elems :: "'q \<Rightarrow> 'a multiset"
  assumes elems_push: "invar q \<Longrightarrow> elems (push x q) = add_mset x (elems q)"
    and elems_pop: "invar q \<Longrightarrow> elems q \<noteq> {#} \<Longrightarrow> add_mset (top q) (elems (pop q)) = elems q"
    and top_greatest: "invar q \<Longrightarrow> x \<in># elems q \<Longrightarrow> \<not> less (top q) x"
    and top_push: "invar q \<Longrightarrow> elems q \<noteq> {#} \<Longrightarrow> \<not> less (top q) x \<Longrightarrow> top (push x q) = top q"
    and invar_push: "invar q \<Longrightarrow> invar (push x q)"
    and invar_pop: "invar q \<Longrightarrow> elems q \<noteq> {#} \<Longrightarrow> invar (pop q)"
begin

lemma top_in: "invar q \<Longrightarrow> elems q \<noteq> {#} \<Longrightarrow> top q \<in># elems q"
  using elems_pop [of q] by (metis union_single_eq_member)

lemma invar_pushes: "invar q \<Longrightarrow> invar (foldl (\<lambda>q x. push x q) q xs)"
  by (induction xs arbitrary: q) (simp_all add: invar_push)

lemma elems_pushes: "invar q \<Longrightarrow> elems (foldl (\<lambda>q x. push x q) q xs) = elems q + mset xs"
  by (induction xs arbitrary: q) (simp_all add: invar_push elems_push)

text \<open>Pushing elements none of which is greater than the top leaves the top in place.\<close>

lemma top_pushes:
  assumes "invar q" and "elems q \<noteq> {#}" and "\<forall>x\<in>set xs. \<not> less (top q) x"
  shows "top (foldl (\<lambda>q x. push x q) q xs) = top q"
  using assms
proof (induction xs arbitrary: q)
  case Nil
  then show ?case by simp
next
  case (Cons x xs)
  have t: "top (push x q) = top q"
    using Cons.prems by (simp add: top_push)
  have "top (foldl (\<lambda>q x. push x q) (push x q) xs) = top (push x q)"
    using Cons.prems t by (intro Cons.IH) (simp_all add: invar_push elems_push)
  with t show ?case by simp
qed

end

text \<open>
  The model of the container: a list in descending order. Equal events keep their insertion
  order; the C++ standard leaves that order open, and the lemmas of the queue use the contract
  above only.
\<close>

fun pq_push :: "'c Event \<Rightarrow> 'c Event list \<Rightarrow> 'c Event list" where
  "pq_push x [] = [x]"
| "pq_push x (y # ys) = (if event_less y x then x # y # ys else y # pq_push x ys)"

definition pq_invar :: "'c Event list \<Rightarrow> bool" where
  "pq_invar q = sorted_wrt (\<lambda>a b. \<not> event_less a b) q"

lemma mset_pq_push [simp]: "mset (pq_push x q) = add_mset x (mset q)"
  by (induction q) auto

lemma set_pq_push [simp]: "set (pq_push x q) = insert x (set q)"
  by (induction q) auto

lemma pq_push_not_Nil [simp]: "pq_push x q \<noteq> []"
  by (cases q) simp_all

lemma pq_invar_push: "pq_invar q \<Longrightarrow> pq_invar (pq_push x q)"
proof (induction q)
  case Nil
  then show ?case by (simp add: pq_invar_def)
next
  case (Cons y ys)
  then show ?case
    by (auto simp: pq_invar_def dest: event_less_asym event_less_trans)
qed

interpretation pq: std_priority_queue event_less pq_push hd tl pq_invar mset
proof
  fix q :: "'a Event list" and x :: "'a Event"
  show "mset (pq_push x q) = add_mset x (mset q)" by simp
  show "mset q \<noteq> {#} \<Longrightarrow> add_mset (hd q) (mset (tl q)) = mset q" by (cases q) simp_all
  show "pq_invar q \<Longrightarrow> x \<in># mset q \<Longrightarrow> \<not> event_less (hd q) x"
    by (cases q) (auto simp: pq_invar_def)
  show "mset q \<noteq> {#} \<Longrightarrow> \<not> event_less (hd q) x \<Longrightarrow> hd (pq_push x q) = hd q"
    by (cases q) auto
  show "pq_invar q \<Longrightarrow> pq_invar (pq_push x q)" by (rule pq_invar_push)
  show "pq_invar q \<Longrightarrow> mset q \<noteq> {#} \<Longrightarrow> pq_invar (tl q)"
    by (cases q) (auto simp: pq_invar_def)
qed

section \<open>The queue\<close>

record 'c EventQueue =
  eq_events :: "'c Event list"
  eq_current_cycle :: Cycle
  eq_total_events :: u64

definition EventQueue_init :: "'c EventQueue" where
  [record_defs]: "EventQueue_init = \<lparr>eq_events = [], eq_current_cycle = 0, eq_total_events = 0\<rparr>"

text \<open>
  The two overloads of \<^verbatim>\<open>scheduleEvent\<close>. An empty callback is refused; an event in the past
  is moved to the cycle after the current one (the addition wraps at \<open>2 ^ 64\<close>).
\<close>

definition scheduleEvent_args ::
  "'c EventQueue \<Rightarrow> EventType \<Rightarrow> Cycle \<Rightarrow> u32 \<Rightarrow> 'c option \<Rightarrow> 'c EventQueue" where
  "scheduleEvent_args q ty cycle prio cb =
     (if cb = None then q
      else let c = (if cycle < eq_current_cycle q then eq_current_cycle q + 1 else cycle)
           in q\<lparr>eq_events := pq_push \<lparr>ev_type = ty, scheduled_cycle = c, priority = prio,
                                    callback = cb\<rparr> (eq_events q)\<rparr>)"

definition scheduleEvent :: "'c EventQueue \<Rightarrow> 'c Event \<Rightarrow> 'c EventQueue" where
  "scheduleEvent q event =
     (if callback event = None then q
      else if scheduled_cycle event < eq_current_cycle q
      then q\<lparr>eq_events := pq_push (event\<lparr>scheduled_cycle := eq_current_cycle q + 1\<rparr>) (eq_events q)\<rparr>
      else q\<lparr>eq_events := pq_push event (eq_events q)\<rparr>)"

text \<open>Running the callback of an event: what it schedules goes through \<^verbatim>\<open>scheduleEvent\<close>.\<close>

definition run_callback ::
  "('c \<Rightarrow> Cycle \<Rightarrow> 'c Event list) \<Rightarrow> 'c EventQueue \<Rightarrow> 'c Event \<Rightarrow> 'c EventQueue" where
  "run_callback eff q e =
     (case callback e of None \<Rightarrow> q
      | Some c \<Rightarrow> foldl scheduleEvent q (eff c (eq_current_cycle q)))"

text \<open>
  The body shared by \<^verbatim>\<open>processNextEvent\<close> and the loop of \<^verbatim>\<open>processEvents\<close>: take a
  reference to the top, advance the clock, run the callback, then \<^verbatim>\<open>pop\<close> whatever is on top
  \<^emph>\<open>after\<close> the callback.
\<close>

definition step_event ::
  "('c \<Rightarrow> Cycle \<Rightarrow> 'c Event list) \<Rightarrow> 'c EventQueue \<Rightarrow> 'c EventQueue" where
  "step_event eff q =
     (let e = hd (eq_events q);
          q1 = q\<lparr>eq_current_cycle := scheduled_cycle e\<rparr>;
          q2 = run_callback eff q1 e
      in q2\<lparr>eq_events := tl (eq_events q2), eq_total_events := eq_total_events q2 + 1\<rparr>)"

definition processNextEvent ::
  "('c \<Rightarrow> Cycle \<Rightarrow> 'c Event list) \<Rightarrow> 'c EventQueue \<Rightarrow> 'c EventQueue" where
  "processNextEvent eff q = (if eq_events q = [] then q else step_event eff q)"

text \<open>
  The loop of \<^verbatim>\<open>processEvents\<close>: \<open>None\<close> when it does not end (callbacks that keep scheduling
  events up to \<open>until_cycle\<close>). The second component lists the events whose callbacks log.
\<close>

partial_function (option) processEvents_loop ::
  "('c \<Rightarrow> Cycle \<Rightarrow> 'c Event list) \<Rightarrow> Cycle \<Rightarrow> 'c EventQueue \<Rightarrow> 'c Event list
     \<Rightarrow> ('c EventQueue \<times> 'c Event list) option" where
  "processEvents_loop eff until_cycle q log =
     (if eq_events q = [] then Some (q, log)
      else if scheduled_cycle (hd (eq_events q)) > until_cycle then Some (q, log)
      else processEvents_loop eff until_cycle (step_event eff q) (log @ [hd (eq_events q)]))"

definition processEvents ::
  "('c \<Rightarrow> Cycle \<Rightarrow> 'c Event list) \<Rightarrow> 'c EventQueue \<Rightarrow> Cycle
     \<Rightarrow> ('c EventQueue \<times> 'c Event list) option" where
  "processEvents eff q until_cycle =
     map_option (\<lambda>(q', log).
         (if eq_current_cycle q' < until_cycle then q'\<lparr>eq_current_cycle := until_cycle\<rparr> else q', log))
       (processEvents_loop eff until_cycle q [])"

definition hasEvents :: "'c EventQueue \<Rightarrow> bool" where
  "hasEvents q = (eq_events q \<noteq> [])"

definition getNextEventCycle :: "'c EventQueue \<Rightarrow> Cycle" where
  "getNextEventCycle q = (if eq_events q = [] then - 1 else scheduled_cycle (hd (eq_events q)))"

definition getPendingEventCount :: "'c EventQueue \<Rightarrow> nat" where
  "getPendingEventCount q = length (eq_events q)"

definition setCurrentCycle :: "'c EventQueue \<Rightarrow> Cycle \<Rightarrow> 'c EventQueue" where
  "setCurrentCycle q c = q\<lparr>eq_current_cycle := c\<rparr>"

definition clear :: "'c EventQueue \<Rightarrow> 'c EventQueue" where
  "clear q = q\<lparr>eq_events := [], eq_current_cycle := 0\<rparr>"

section \<open>What a callback adds to the queue\<close>

text \<open>The events a list of scheduling requests adds at cycle \<open>t\<close>: empty callbacks dropped, past cycles moved.\<close>

definition pushed :: "Cycle \<Rightarrow> 'c Event list \<Rightarrow> 'c Event list" where
  "pushed t xs =
     map (\<lambda>x. if scheduled_cycle x < t then x\<lparr>scheduled_cycle := t + 1\<rparr> else x)
       (filter (\<lambda>x. callback x \<noteq> None) xs)"

definition cb_events :: "('c \<Rightarrow> Cycle \<Rightarrow> 'c Event list) \<Rightarrow> 'c Event \<Rightarrow> 'c Event list" where
  "cb_events eff e =
     (case callback e of None \<Rightarrow> [] | Some c \<Rightarrow> pushed (scheduled_cycle e) (eff c (scheduled_cycle e)))"

text \<open>A callback respects the queue when nothing it schedules belongs before the running event.\<close>

definition no_overtake :: "('c \<Rightarrow> Cycle \<Rightarrow> 'c Event list) \<Rightarrow> 'c Event \<Rightarrow> bool" where
  "no_overtake eff e = list_all (\<lambda>x. \<not> event_less e x) (cb_events eff e)"

lemma pushed_Nil [simp]: "pushed t [] = []"
  by (simp add: pushed_def)

lemma pushed_Cons:
  "pushed t (x # xs) =
     (if callback x = None then pushed t xs
      else (if scheduled_cycle x < t then x\<lparr>scheduled_cycle := t + 1\<rparr> else x) # pushed t xs)"
  by (simp add: pushed_def)

lemma scheduleEvent_args_eq:
  "scheduleEvent_args q ty c p cb =
     scheduleEvent q \<lparr>ev_type = ty, scheduled_cycle = c, priority = p, callback = cb\<rparr>"
  by (simp add: scheduleEvent_args_def scheduleEvent_def Let_def)

lemma scheduleEvent_fields [keeps]:
  "eq_current_cycle (scheduleEvent q e) = eq_current_cycle q"
  "eq_total_events (scheduleEvent q e) = eq_total_events q"
  by (simp_all add: scheduleEvent_def)

lemma foldl_scheduleEvent:
  "foldl scheduleEvent q xs =
     q\<lparr>eq_events := foldl (\<lambda>q x. pq_push x q) (eq_events q) (pushed (eq_current_cycle q) xs)\<rparr>"
proof (induction xs arbitrary: q)
  case Nil
  then show ?case by simp
next
  case (Cons x xs)
  then show ?case by (simp add: pushed_Cons scheduleEvent_def)
qed

lemma step_event_eq:
  "step_event eff q =
     (let e = hd (eq_events q) in
      q\<lparr>eq_current_cycle := scheduled_cycle e,
        eq_events := tl (foldl (\<lambda>q x. pq_push x q) (eq_events q) (cb_events eff e)),
        eq_total_events := eq_total_events q + 1\<rparr>)"
  by (simp add: step_event_def run_callback_def cb_events_def foldl_scheduleEvent Let_def
      split: option.splits)

text \<open>Under that discipline a step removes exactly the event whose callback ran.\<close>

lemma step_event_removes_hd:
  assumes inv: "pq_invar (eq_events q)" and ne: "eq_events q \<noteq> []"
    and ok: "no_overtake eff (hd (eq_events q))"
  shows "add_mset (hd (eq_events q)) (mset (eq_events (step_event eff q))) =
           mset (eq_events q) + mset (cb_events eff (hd (eq_events q)))"
    and "pq_invar (eq_events (step_event eff q))"
proof -
  let ?e = "hd (eq_events q)"
  let ?q = "foldl (\<lambda>q x. pq_push x q) (eq_events q) (cb_events eff ?e)"
  have inv': "pq_invar ?q" using inv by (rule pq.invar_pushes)
  have el: "mset ?q = mset (eq_events q) + mset (cb_events eff ?e)"
    using inv by (rule pq.elems_pushes)
  then have ne': "mset ?q \<noteq> {#}" using ne by simp
  have "hd ?q = ?e"
    using inv ne ok by (intro pq.top_pushes) (simp_all add: no_overtake_def list_all_iff)
  then show "add_mset ?e (mset (eq_events (step_event eff q))) =
           mset (eq_events q) + mset (cb_events eff ?e)"
    using pq.elems_pop [OF inv' ne'] el by (simp add: step_event_eq Let_def)
  show "pq_invar (eq_events (step_event eff q))"
    using pq.invar_pop [OF inv' ne'] by (simp add: step_event_eq Let_def)
qed

section \<open>Order and completeness of a run\<close>

text \<open>
  What a finished loop guarantees of the events \<open>new\<close> it ran: they are in queue order, none is
  after \<open>u\<close>, nothing up to \<open>u\<close> is left, and every event of the start queue and every event a
  callback added either ran exactly once or is still pending.
\<close>

definition run_ok ::
  "('c \<Rightarrow> Cycle \<Rightarrow> 'c Event list) \<Rightarrow> Cycle \<Rightarrow> 'c EventQueue \<Rightarrow> 'c EventQueue \<Rightarrow> 'c Event list \<Rightarrow> bool" where
  "run_ok eff u q q' new =
     (sorted_wrt (\<lambda>a b. \<not> event_less a b) new
      \<and> (\<forall>b. (\<forall>x\<in>set (eq_events q). \<not> event_less b x) \<longrightarrow> (\<forall>x\<in>set new. \<not> event_less b x))
      \<and> (\<forall>x\<in>set new. scheduled_cycle x \<le> u)
      \<and> mset (eq_events q') + mset new =
          mset (eq_events q) + mset (concat (map (cb_events eff) new))
      \<and> (\<forall>x\<in>set (eq_events q'). u < scheduled_cycle x)
      \<and> eq_total_events q' = eq_total_events q + of_nat (length new))"

lemma hd_least_cycle:
  "pq_invar q \<Longrightarrow> x \<in> set q \<Longrightarrow> scheduled_cycle (hd q) \<le> scheduled_cycle x"
  using pq.top_greatest [of q x] by (simp add: event_less_cycle)

lemma run_ok_stop:
  assumes "pq_invar (eq_events q)"
    and "eq_events q = [] \<or> u < scheduled_cycle (hd (eq_events q))"
  shows "run_ok eff u q q []"
  using assms hd_least_cycle [of "eq_events q"] by (fastforce simp: run_ok_def)

lemma step_event_set:
  assumes "pq_invar (eq_events q)" and "eq_events q \<noteq> []" and "no_overtake eff (hd (eq_events q))"
  shows "set (eq_events (step_event eff q)) \<subseteq> set (eq_events q) \<union> set (cb_events eff (hd (eq_events q)))"
proof
  fix x
  assume "x \<in> set (eq_events (step_event eff q))"
  then have "x \<in># add_mset (hd (eq_events q)) (mset (eq_events (step_event eff q)))" by simp
  then have "x \<in># mset (eq_events q) + mset (cb_events eff (hd (eq_events q)))"
    by (simp only: step_event_removes_hd(1) [OF assms])
  then show "x \<in> set (eq_events q) \<union> set (cb_events eff (hd (eq_events q)))" by simp
qed

lemma run_ok_step:
  assumes inv: "pq_invar (eq_events q)" and ne: "eq_events q \<noteq> []"
    and ok: "no_overtake eff (hd (eq_events q))"
    and u: "scheduled_cycle (hd (eq_events q)) \<le> u"
    and rest: "run_ok eff u (step_event eff q) q' new"
  shows "run_ok eff u q q' (hd (eq_events q) # new)"
proof -
  let ?e = "hd (eq_events q)" and ?s = "step_event eff q"
  have sub: "set (eq_events ?s) \<subseteq> set (eq_events q) \<union> set (cb_events eff ?e)"
    by (rule step_event_set [OF inv ne ok])
  have added: "\<forall>x\<in>set (cb_events eff ?e). \<not> event_less ?e x"
    using ok by (simp add: no_overtake_def list_all_iff)
  have bound: "\<forall>x\<in>set (eq_events ?s). \<not> event_less b x"
    if "\<forall>x\<in>set (eq_events q). \<not> event_less b x" for b
  proof -
    have "\<not> event_less b ?e" using that ne by simp
    then have "\<forall>x\<in>set (cb_events eff ?e). \<not> event_less b x"
      using added event_not_less_trans by blast
    with that sub show ?thesis by blast
  qed
  have later: "\<forall>x\<in>set new. \<not> event_less b x"
    if "\<forall>x\<in>set (eq_events q). \<not> event_less b x" for b
    using rest bound [OF that] unfolding run_ok_def by blast
  have new: "\<forall>x\<in>set new. \<not> event_less ?e x"
    using pq.top_greatest [OF inv] by (intro later) simp
  have cons: "mset (eq_events q') + mset (?e # new) =
      mset (eq_events q) + mset (concat (map (cb_events eff) (?e # new)))"
    using rest step_event_removes_hd(1) [OF inv ne ok] by (simp add: run_ok_def)
  have tot: "eq_total_events ?s = eq_total_events q + 1"
    by (simp add: step_event_eq Let_def)
  have "\<forall>b. (\<forall>x\<in>set (eq_events q). \<not> event_less b x) \<longrightarrow> (\<forall>x\<in>set (?e # new). \<not> event_less b x)"
    using later ne by (metis hd_in_set set_ConsD)
  moreover have "sorted_wrt (\<lambda>a b. \<not> event_less a b) (?e # new)"
    using new rest by (simp add: run_ok_def)
  moreover have "\<forall>x\<in>set (?e # new). scheduled_cycle x \<le> u"
    using u rest by (simp add: run_ok_def)
  moreover have "\<forall>x\<in>set (eq_events q'). u < scheduled_cycle x"
    using rest by (simp add: run_ok_def)
  moreover have "eq_total_events q' = eq_total_events q + of_nat (length (?e # new))"
    using rest tot by (simp add: run_ok_def)
  ultimately show ?thesis
    unfolding run_ok_def using cons by blast
qed

lemma processEvents_loop_run:
  assumes loop: "processEvents_loop eff u q log = Some r"
    and inv: "pq_invar (eq_events q)" and ok: "\<forall>e. no_overtake eff e"
  shows "\<exists>new. snd r = log @ new \<and> run_ok eff u q (fst r) new"
proof -
  let ?P = "\<lambda>eff u q log r. pq_invar (eq_events q) \<longrightarrow> (\<forall>e. no_overtake eff e)
              \<longrightarrow> (\<exists>new. snd r = log @ new \<and> run_ok eff u q (fst r) new)"
  have "?P eff u q log r"
  proof (rule processEvents_loop.raw_induct [where P = ?P, OF _ loop], intro impI)
    fix f :: "('a \<Rightarrow> Cycle \<Rightarrow> 'a Event list) \<Rightarrow> Cycle \<Rightarrow> 'a EventQueue \<Rightarrow> 'a Event list
                \<Rightarrow> ('a EventQueue \<times> 'a Event list) option"
      and eff u q log r
    assume IH: "\<And>eff u q log r. f eff u q log = Some r \<Longrightarrow> ?P eff u q log r"
      and eq: "(if eq_events q = [] then Some (q, log)
          else if u < scheduled_cycle (hd (eq_events q)) then Some (q, log)
          else f eff u (step_event eff q) (log @ [hd (eq_events q)])) = Some r"
      and inv: "pq_invar (eq_events q)" and ok: "\<forall>e. no_overtake eff e"
    show "\<exists>new. snd r = log @ new \<and> run_ok eff u q (fst r) new"
    proof (cases "eq_events q = [] \<or> u < scheduled_cycle (hd (eq_events q))")
      case True
      with eq have "r = (q, log)" by (auto split: if_splits)
      with run_ok_stop [OF inv True] show ?thesis by simp
    next
      case False
      with eq have rec: "f eff u (step_event eff q) (log @ [hd (eq_events q)]) = Some r" by simp
      have ne: "eq_events q \<noteq> []" using False by simp
      from step_event_removes_hd(2) [OF inv ne] ok
      have "pq_invar (eq_events (step_event eff q))" by blast
      with IH [OF rec] ok obtain new where
        "snd r = log @ hd (eq_events q) # new" "run_ok eff u (step_event eff q) (fst r) new"
        by auto
      with run_ok_step [OF inv ne] ok False show ?thesis by force
    qed
  qed
  with inv ok show ?thesis by blast
qed

section \<open>Termination when callbacks schedule past the horizon\<close>

lemma cb_beyond_no_overtake:
  assumes "\<forall>x\<in>set (cb_events eff e). u < scheduled_cycle x" and "scheduled_cycle e \<le> u"
  shows "no_overtake eff e"
  using assms by (fastforce simp: no_overtake_def list_all_iff event_less_def)

lemma filter_pq_push: "\<not> P x \<Longrightarrow> filter P (pq_push x q) = filter P q"
  by (induction q) auto

lemma filter_pq_pushes:
  "\<forall>x\<in>set xs. \<not> P x \<Longrightarrow> filter P (foldl (\<lambda>q x. pq_push x q) q xs) = filter P q"
  by (induction xs arbitrary: q) (simp_all add: filter_pq_push)

lemma filter_tl: "xs \<noteq> [] \<Longrightarrow> P (hd xs) \<Longrightarrow> filter P (tl xs) = tl (filter P xs)"
  by (cases xs) simp_all

lemma step_event_filter:
  assumes inv: "pq_invar (eq_events q)" and ne: "eq_events q \<noteq> []"
    and eu: "scheduled_cycle (hd (eq_events q)) \<le> u"
    and cb: "\<forall>x\<in>set (cb_events eff (hd (eq_events q))). u < scheduled_cycle x"
  shows "filter (\<lambda>x. scheduled_cycle x \<le> u) (eq_events (step_event eff q)) =
           tl (filter (\<lambda>x. scheduled_cycle x \<le> u) (eq_events q))"
proof -
  let ?p = "\<lambda>x. scheduled_cycle x \<le> u" and ?e = "hd (eq_events q)"
  let ?F = "foldl (\<lambda>q x. pq_push x q) (eq_events q) (cb_events eff ?e)"
  have ok: "no_overtake eff ?e" using cb eu by (rule cb_beyond_no_overtake)
  have top: "hd ?F = ?e"
    using inv ne ok by (intro pq.top_pushes) (simp_all add: no_overtake_def list_all_iff)
  have "mset ?F \<noteq> {#}" using ne pq.elems_pushes [OF inv] by simp
  then have "filter ?p (tl ?F) = tl (filter ?p ?F)"
    using eu top by (intro filter_tl) auto
  also have "filter ?p ?F = filter ?p (eq_events q)"
    using cb by (intro filter_pq_pushes) auto
  finally show ?thesis by (simp add: step_event_eq Let_def)
qed

lemma processEvents_loop_total:
  assumes "pq_invar (eq_events q)"
    and "\<forall>e. \<forall>x\<in>set (cb_events eff e). u < scheduled_cycle x"
  shows "\<exists>q'. processEvents_loop eff u q log =
           Some (q', log @ filter (\<lambda>x. scheduled_cycle x \<le> u) (eq_events q))"
  using assms
proof (induction "length (filter (\<lambda>x. scheduled_cycle x \<le> u) (eq_events q))" arbitrary: q log)
  case 0
  then have "eq_events q = [] \<or> u < scheduled_cycle (hd (eq_events q))"
    by (cases "eq_events q") (auto split: if_splits)
  with "0.hyps" show ?case by (auto simp: processEvents_loop.simps [of eff u q log])
next
  case (Suc n)
  let ?p = "\<lambda>x. scheduled_cycle x \<le> u" and ?e = "hd (eq_events q)"
  have "filter ?p (eq_events q) \<noteq> []" using Suc.hyps(2) by auto
  then obtain x where x: "x \<in> set (eq_events q)" "scheduled_cycle x \<le> u"
    by (auto simp: filter_empty_conv)
  then have ne: "eq_events q \<noteq> []" and eu: "scheduled_cycle ?e \<le> u"
    using hd_least_cycle [OF Suc.prems(1) x(1)] by auto
  have cb: "\<forall>x\<in>set (cb_events eff ?e). u < scheduled_cycle x" using Suc.prems(2) by blast
  note flt = step_event_filter [OF Suc.prems(1) ne eu cb]
  have inv': "pq_invar (eq_events (step_event eff q))"
    by (rule step_event_removes_hd(2) [OF Suc.prems(1) ne cb_beyond_no_overtake [OF cb eu]])
  have len: "n = length (filter ?p (eq_events (step_event eff q)))"
    using Suc.hyps(2) by (simp add: flt)
  have "filter ?p (eq_events q) = ?e # tl (filter ?p (eq_events q))"
    using ne eu by (cases "eq_events q") simp_all
  moreover obtain q' where "processEvents_loop eff u (step_event eff q) (log @ [?e]) =
      Some (q', (log @ [?e]) @ filter ?p (eq_events (step_event eff q)))"
    using Suc.hyps(1) [OF len inv' Suc.prems(2)] by blast
  ultimately show ?case
    using ne eu flt by (auto simp: processEvents_loop.simps [of eff u q log])
qed

section \<open>Reachable queues\<close>

text \<open>
  Every public operation that changes the queue as a step, with what its caller has to respect.
  No event runs, and nothing is scheduled, at the last cycle \<open>2 ^ 64 - 1\<close>: from there
  \<^verbatim>\<open>current_cycle_ + 1\<close> is 0. \<^verbatim>\<open>processEvents\<close> is a step when it returns.
  \<^verbatim>\<open>setCurrentCycle\<close> stores its argument without any test, so its step has the condition that
  the new cycle is not after the next pending event (\<^verbatim>\<open>getNextEventCycle\<close>, the largest cycle
  when nothing is pending); lemma \<open>setCurrentCycle_strands\<close> shows that it is needed.
\<close>

inductive eq_step ::
  "('c \<Rightarrow> Cycle \<Rightarrow> 'c Event list) \<Rightarrow> 'c EventQueue \<Rightarrow> 'c EventQueue \<Rightarrow> bool" for eff where
  schedule: "eq_current_cycle q \<noteq> - 1 \<Longrightarrow> eq_step eff q (scheduleEvent q e)"
| next_event: "getNextEventCycle q \<noteq> - 1 \<Longrightarrow> eq_step eff q (processNextEvent eff q)"
| run_until: "u \<noteq> - 1 \<Longrightarrow> processEvents eff q u = Some (q', log) \<Longrightarrow> eq_step eff q q'"
| set_cycle: "c \<le> getNextEventCycle q \<Longrightarrow> eq_step eff q (setCurrentCycle q c)"
| reset: "eq_step eff q (clear q)"

definition queue_ok :: "'c EventQueue \<Rightarrow> bool" where
  "queue_ok q = (pq_invar (eq_events q)
     \<and> list_all (\<lambda>x. eq_current_cycle q \<le> scheduled_cycle x \<and> callback x \<noteq> None) (eq_events q))"

lemma word_less_plus_one: "(t :: 'a :: len word) \<noteq> - 1 \<Longrightarrow> t \<le> t + 1"
  using inc_less_eq_self_iff_eq by fastforce

lemma pushed_not_past:
  "t \<noteq> - 1 \<Longrightarrow> x \<in> set (pushed t xs) \<Longrightarrow> t \<le> scheduled_cycle x \<and> callback x \<noteq> None"
  by (auto simp: pushed_def word_less_plus_one split: if_splits)

lemma queue_ok_schedule:
  "eq_current_cycle q \<noteq> - 1 \<Longrightarrow> queue_ok q \<Longrightarrow> queue_ok (scheduleEvent q e)"
  by (auto simp: queue_ok_def scheduleEvent_def list_all_iff pq_invar_push word_less_plus_one)

lemma queue_ok_next:
  assumes ok: "queue_ok q" and last: "getNextEventCycle q \<noteq> - 1"
  shows "queue_ok (processNextEvent eff q)"
proof (cases "eq_events q = []")
  case True
  with ok show ?thesis by (simp add: processNextEvent_def)
next
  case False
  let ?e = "hd (eq_events q)"
  let ?F = "foldl (\<lambda>q x. pq_push x q) (eq_events q) (cb_events eff ?e)"
  from ok have inv: "pq_invar (eq_events q)" by (simp add: queue_ok_def)
  have F: "mset ?F = mset (eq_events q) + mset (cb_events eff ?e)" "pq_invar ?F"
    using inv by (rule pq.elems_pushes, rule pq.invar_pushes)
  then have ne: "mset ?F \<noteq> {#}" using False by simp
  have last': "scheduled_cycle ?e \<noteq> - 1"
    using last False by (simp add: getNextEventCycle_def)
  have "\<forall>x\<in>set (cb_events eff ?e). scheduled_cycle ?e \<le> scheduled_cycle x \<and> callback x \<noteq> None"
    using pushed_not_past [OF last'] by (auto simp: cb_events_def split: option.splits)
  moreover have "\<forall>x\<in>set (eq_events q). scheduled_cycle ?e \<le> scheduled_cycle x \<and> callback x \<noteq> None"
    using ok hd_least_cycle [OF inv] by (simp add: queue_ok_def list_all_iff)
  moreover have "set (tl ?F) \<subseteq> set (eq_events q) \<union> set (cb_events eff ?e)"
    using F(1) by (metis list.set_sel(2) mset_zero_iff ne set_mset_mset set_mset_union subsetI)
  ultimately have "\<forall>x\<in>set (tl ?F). scheduled_cycle ?e \<le> scheduled_cycle x \<and> callback x \<noteq> None"
    by blast
  then show ?thesis
    using False pq.invar_pop [OF F(2) ne]
    by (simp add: queue_ok_def processNextEvent_def step_event_eq Let_def list_all_iff)
qed

text \<open>
  The clock may be moved to any cycle that is not after a pending event, and to no other when
  events are pending.
\<close>

lemma queue_ok_set_cycle:
  assumes "queue_ok q"
  shows "queue_ok (setCurrentCycle q c) \<longleftrightarrow> eq_events q = [] \<or> c \<le> getNextEventCycle q"
proof (cases "eq_events q = []")
  case True
  with assms show ?thesis by (simp add: queue_ok_def setCurrentCycle_def)
next
  case False
  let ?e = "hd (eq_events q)"
  have "\<forall>x\<in>set (eq_events q). scheduled_cycle ?e \<le> scheduled_cycle x"
    using assms hd_least_cycle by (auto simp: queue_ok_def)
  moreover have "?e \<in> set (eq_events q)" using False by simp
  ultimately have "(\<forall>x\<in>set (eq_events q). c \<le> scheduled_cycle x) \<longleftrightarrow> c \<le> scheduled_cycle ?e"
    using order_trans by blast
  with assms False show ?thesis
    by (auto simp: queue_ok_def setCurrentCycle_def getNextEventCycle_def list_all_iff)
qed

lemma setCurrentCycle_strands:
  assumes "queue_ok q" and "eq_events q \<noteq> []" and "getNextEventCycle q < c"
  shows "\<not> queue_ok (setCurrentCycle q c)"
  using assms by (simp add: queue_ok_set_cycle)

text \<open>
  The loop of \<^verbatim>\<open>processEvents\<close> keeps the invariant, and stops with nothing pending up to its bound.
\<close>

definition loop_post :: "Cycle \<Rightarrow> 'c EventQueue \<Rightarrow> bool" where
  "loop_post u q = (queue_ok q \<and> (eq_events q = [] \<or> u < scheduled_cycle (hd (eq_events q))))"

lemma queue_ok_loop:
  assumes loop: "processEvents_loop eff u q log = Some r" and ok: "queue_ok q" and u: "u \<noteq> - 1"
  shows "loop_post u (fst r)"
proof -
  let ?P = "\<lambda>eff u q log r. queue_ok q \<longrightarrow> u \<noteq> - 1 \<longrightarrow> loop_post u (fst r)"
  have "?P eff u q log r"
  proof (rule processEvents_loop.raw_induct [where P = ?P, OF _ loop], intro impI)
    fix f :: "('a \<Rightarrow> Cycle \<Rightarrow> 'a Event list) \<Rightarrow> Cycle \<Rightarrow> 'a EventQueue \<Rightarrow> 'a Event list
                \<Rightarrow> ('a EventQueue \<times> 'a Event list) option"
      and eff u q log r
    assume IH: "\<And>eff u q log r. f eff u q log = Some r \<Longrightarrow> ?P eff u q log r"
      and eq: "(if eq_events q = [] then Some (q, log)
          else if u < scheduled_cycle (hd (eq_events q)) then Some (q, log)
          else f eff u (step_event eff q) (log @ [hd (eq_events q)])) = Some r"
      and ok: "queue_ok q" and u: "u \<noteq> - 1"
    show "loop_post u (fst r)"
    proof (cases "eq_events q = [] \<or> u < scheduled_cycle (hd (eq_events q))")
      case True
      with eq have "r = (q, log)" by (auto split: if_splits)
      with ok True show ?thesis by (simp add: loop_post_def)
    next
      case False
      with eq have rec: "f eff u (step_event eff q) (log @ [hd (eq_events q)]) = Some r" by simp
      have "scheduled_cycle (hd (eq_events q)) \<le> u" using False by (simp add: not_less)
      then have "scheduled_cycle (hd (eq_events q)) \<noteq> - 1"
        using u word_order.extremum_uniqueI by metis
      then have "getNextEventCycle q \<noteq> - 1" using False by (simp add: getNextEventCycle_def)
      from queue_ok_next [OF ok this, of eff] False
      have "queue_ok (step_event eff q)" by (simp add: processNextEvent_def)
      with IH [OF rec] u show ?thesis by blast
    qed
  qed
  with ok u show ?thesis by blast
qed

lemma queue_ok_processEvents:
  assumes ok: "queue_ok q" and u: "u \<noteq> - 1" and run: "processEvents eff q u = Some (q', log)"
  shows "queue_ok q'"
proof -
  from run obtain r where loop: "processEvents_loop eff u q [] = Some (r, log)"
    and q': "q' = (if eq_current_cycle r < u then setCurrentCycle r u else r)"
    by (auto simp: processEvents_def setCurrentCycle_def)
  from queue_ok_loop [OF loop ok u] have "queue_ok r" "eq_events r = [] \<or> u \<le> getNextEventCycle r"
    by (auto simp: loop_post_def getNextEventCycle_def)
  with q' show ?thesis by (simp add: queue_ok_set_cycle)
qed

lemma queue_ok_step: "eq_step eff q q' \<Longrightarrow> queue_ok q \<Longrightarrow> queue_ok q'"
proof (induction rule: eq_step.induct)
  case (reset q)
  show ?case by (simp add: clear_def queue_ok_def pq_invar_def)
qed (simp_all add: queue_ok_schedule queue_ok_next queue_ok_processEvents queue_ok_set_cycle)

lemma queue_ok_init: "queue_ok EventQueue_init"
  by (simp add: queue_ok_def EventQueue_init_def pq_invar_def)

section \<open>Properties\<close>

text \<open>
  C1: \<^verbatim>\<open>processEvents\<close> runs callbacks in queue order and loses nothing. When no callback
  schedules an event that belongs before the running one, a run that returns has executed events
  in order of cycle (and descending priority within a cycle), none after \<open>until_cycle\<close>, and has
  left none up to \<open>until_cycle\<close> pending; every event that was pending or was scheduled by a
  callback either ran exactly once or is still in the queue, and the counter grew by the number
  of callbacks run.
\<close>

theorem processEvents_ordered:
  assumes "pq_invar (eq_events q)" and "\<forall>e. no_overtake eff e"
    and "processEvents eff q until_cycle = Some (q', log)"
  shows "sorted_wrt (\<lambda>a b. \<not> event_less a b) log
    \<and> (\<forall>x\<in>set log. scheduled_cycle x \<le> until_cycle)
    \<and> (\<forall>x\<in>set (eq_events q'). until_cycle < scheduled_cycle x)
    \<and> mset (eq_events q') + mset log =
        mset (eq_events q) + mset (concat (map (cb_events eff) log))
    \<and> eq_total_events q' = eq_total_events q + of_nat (length log)
    \<and> until_cycle \<le> eq_current_cycle q'"
proof -
  from assms(3) obtain r where loop: "processEvents_loop eff until_cycle q [] = Some (r, log)"
    and q': "q' = (if eq_current_cycle r < until_cycle then r\<lparr>eq_current_cycle := until_cycle\<rparr> else r)"
    by (auto simp: processEvents_def)
  from processEvents_loop_run [OF loop assms(1,2)] have ok: "run_ok eff until_cycle q r log"
    by simp
  have ev: "eq_events q' = eq_events r" "eq_total_events q' = eq_total_events r"
    using q' by simp_all
  have "until_cycle \<le> eq_current_cycle q'" using q' by auto
  with ok show ?thesis unfolding run_ok_def ev by blast
qed

text \<open>A queue with two events at cycle 5 and one at 20, for the witnesses.\<close>

definition ev :: "Cycle \<Rightarrow> u32 \<Rightarrow> 'c \<Rightarrow> 'c Event" where
  "ev c p cb = \<lparr>ev_type = CUSTOM, scheduled_cycle = c, priority = p, callback = Some cb\<rparr>"

definition sample_queue :: "nat EventQueue" where
  "sample_queue = scheduleEvent (scheduleEvent (scheduleEvent EventQueue_init (ev 5 1 0)) (ev 20 0 1)) (ev 5 7 2)"

lemma sample_events: "eq_events sample_queue = [ev 5 7 2, ev 5 1 0, ev 20 0 1]"
  by (simp add: sample_queue_def ev_def scheduleEvent_def EventQueue_init_def event_less_def)

lemma sample_invar: "pq_invar (eq_events sample_queue)"
  by (simp add: sample_events pq_invar_def ev_def event_less_def)

text \<open>A callback effect: closure 0 schedules closure 3 ten cycles later, the others nothing.\<close>

definition sample_eff :: "nat \<Rightarrow> Cycle \<Rightarrow> nat Event list" where
  "sample_eff c t = (if c = 0 \<and> t < 100 then [ev (t + 10) 0 3] else [])"

lemma sample_eff_ok: "no_overtake sample_eff e"
  by (auto simp: no_overtake_def cb_events_def sample_eff_def pushed_def ev_def event_less_def
      word_less_nat_alt unat_word_ariths split: option.splits)

lemma sample_run:
  "\<exists>q'. processEvents sample_eff sample_queue 10 = Some (q', [ev 5 7 2, ev 5 1 0])"
  by (simp add: processEvents_def processEvents_loop.simps sample_events step_event_eq
      cb_events_def sample_eff_def pushed_Cons ev_def event_less_def Let_def)

theorem processEvents_ordered_witness:
  "\<exists>q'. processEvents sample_eff sample_queue 10 = Some (q', [ev 5 7 2, ev 5 1 0])
     \<and> mset (eq_events q') + mset [ev 5 7 2, ev 5 1 0] =
         mset (eq_events sample_queue) + mset (concat (map (cb_events sample_eff) [ev 5 7 2, ev 5 1 0]))"
proof -
  from sample_run obtain q' where r: "processEvents sample_eff sample_queue 10 = Some (q', [ev 5 7 2, ev 5 1 0])"
    by blast
  from processEvents_ordered [OF sample_invar _ r] sample_eff_ok r show ?thesis by blast
qed

text \<open>
  C2: \<^verbatim>\<open>processEvents\<close> ends when callbacks schedule beyond \<open>until_cycle\<close> (in particular when
  they schedule nothing): it returns having run exactly the pending events up to
  \<open>until_cycle\<close>, in queue order, with the clock at \<open>until_cycle\<close> or later.
\<close>

theorem processEvents_total:
  assumes "pq_invar (eq_events q)"
    and "\<forall>e. \<forall>x\<in>set (cb_events eff e). until_cycle < scheduled_cycle x"
  shows "\<exists>q'. processEvents eff q until_cycle =
             Some (q', filter (\<lambda>x. scheduled_cycle x \<le> until_cycle) (eq_events q))
           \<and> until_cycle \<le> eq_current_cycle q'"
proof -
  from processEvents_loop_total [OF assms, of "[]"] obtain r where
    "processEvents_loop eff until_cycle q [] =
       Some (r, filter (\<lambda>x. scheduled_cycle x \<le> until_cycle) (eq_events q))" by auto
  then show ?thesis
    by (cases "eq_current_cycle r < until_cycle") (simp_all add: processEvents_def)
qed

theorem processEvents_total_witness:
  "\<exists>q'. processEvents (\<lambda>_ _. []) sample_queue 10 = Some (q', [ev 5 7 2, ev 5 1 0])"
proof -
  have "\<forall>e. \<forall>x\<in>set (cb_events (\<lambda>_ _. []) e :: nat Event list). 10 < scheduled_cycle x"
    by (simp add: cb_events_def split: option.splits)
  from processEvents_total [OF sample_invar this] show ?thesis
    by (auto simp: sample_events ev_def)
qed

text \<open>
  C3: in every queue reached from the empty one by \<^verbatim>\<open>scheduleEvent\<close>, \<^verbatim>\<open>processNextEvent\<close>,
  \<^verbatim>\<open>processEvents\<close> (whose last act moves the clock to \<open>until_cycle\<close>), \<^verbatim>\<open>setCurrentCycle\<close> and
  \<^verbatim>\<open>clear\<close>, with any callbacks, the pending events are ordered, have a callback, and none lies
  before the current cycle: simulated time never has to go back to serve an event. The steps have
  two conditions: the last cycle \<open>2 ^ 64 - 1\<close> is not used (nothing is scheduled while the clock is
  there, no event runs there, no run goes up to it), because \<^verbatim>\<open>current_cycle_ + 1\<close> wraps there; and
  \<^verbatim>\<open>setCurrentCycle\<close>, which stores its argument unchecked, is not called with a cycle after the next
  pending event.
\<close>

theorem reachable_queue_ok: "(eq_step eff)\<^sup>*\<^sup>* EventQueue_init q \<Longrightarrow> queue_ok q"
  by (induction rule: rtranclp_induct) (auto intro: queue_ok_init queue_ok_step)

theorem reachable_queue_ok_witness:
  "\<exists>q log. processEvents sample_eff (scheduleEvent EventQueue_init (ev 5 1 0)) 10 = Some (q, log)
     \<and> queue_ok (setCurrentCycle q 12)"
proof -
  let ?q = "scheduleEvent EventQueue_init (ev 5 1 0) :: nat EventQueue"
  obtain q log where run: "processEvents sample_eff ?q 10 = Some (q, log)"
    and q: "eq_events q = [ev 15 0 3]"
    by (simp add: processEvents_def processEvents_loop.simps scheduleEvent_def EventQueue_init_def
        step_event_eq cb_events_def sample_eff_def pushed_Cons ev_def event_less_def Let_def)
  have "eq_step sample_eff EventQueue_init ?q"
    by (rule eq_step.schedule) (simp add: EventQueue_init_def)
  moreover have "eq_step sample_eff ?q q"
    by (rule eq_step.run_until [OF _ run]) simp
  moreover have "eq_step sample_eff q (setCurrentCycle q 12)"
    by (rule eq_step.set_cycle) (simp add: getNextEventCycle_def q ev_def)
  ultimately have "(eq_step sample_eff)\<^sup>*\<^sup>* EventQueue_init (setCurrentCycle q 12)"
    by (meson r_into_rtranclp rtranclp.rtrancl_into_rtrancl)
  from reachable_queue_ok [OF this] run show ?thesis by blast
qed

text \<open>
  C4: the \<^verbatim>\<open>pop\<close> after the callback removes the wrong event when the callback scheduled one
  that belongs before the running event (the same cycle with a higher priority): the new event is
  discarded without ever running and the event that just ran stays pending, to run again.
\<close>

theorem processNextEvent_pops_overtaking_event:
  assumes "eq_events q \<noteq> []" and "cb_events eff (hd (eq_events q)) = [x]"
    and "event_less (hd (eq_events q)) x"
  shows "eq_events (processNextEvent eff q) = eq_events q"
  using assms by (cases "eq_events q") (simp_all add: processNextEvent_def step_event_eq Let_def)

theorem processNextEvent_pops_overtaking_event_witness:
  "eq_events (processNextEvent (\<lambda>c t. if c = 2 then [ev t 9 5] else []) sample_queue)
     = [ev 5 7 2, ev 5 1 0, ev 20 0 (1 :: nat)]"
  by (subst processNextEvent_pops_overtaking_event [where x = "ev 5 9 5"])
    (simp_all add: sample_events cb_events_def ev_def pushed_Cons event_less_def)

end
