(* ===== verification/Mpi_Net.thy ===== *)
theory Mpi_Net
  imports Prelude
begin

text \<open>
  Ranks as communicating processes. A rank's program is a tree of sends and source-matched
  receives that ends with a result; ranks run concurrently, and each ordered pair of ranks has a
  first-in first-out channel. Because a receive names its source, the interleaving cannot
  influence a result: one complete execution determines them all. The collectives are verified on
  this level; \<open>Mpi_Transport\<close> shows that the mailboxes implement the channels.
\<close>

section \<open>Processes and nets\<close>

codatatype ('m, 'a) proc =
    Ret 'a
  | Snd nat 'm "('m, 'a) proc"
  | Rcv nat "'m \<Rightarrow> ('m, 'a) proc"

type_synonym ('m, 'a) net = "(nat \<Rightarrow> ('m, 'a) proc) \<times> (nat \<Rightarrow> nat \<Rightarrow> 'm list)"

text \<open>\<open>ch s d\<close> are the messages from rank \<open>s\<close> that rank \<open>d\<close> has not received yet.\<close>

definition chan_upd :: "(nat \<Rightarrow> nat \<Rightarrow> 'm list) \<Rightarrow> nat \<Rightarrow> nat \<Rightarrow> 'm list \<Rightarrow> nat \<Rightarrow> nat \<Rightarrow> 'm list" where
  "chan_upd ch s d ms = ch(s := (ch s)(d := ms))"

lemma chan_upd_apply [simp]: "chan_upd ch s d ms s' d' = (if s' = s \<and> d' = d then ms else ch s' d')"
  by (simp add: chan_upd_def)

lemma chan_upd_same [simp]: "chan_upd (chan_upd ch s d ms) s d ms' = chan_upd ch s d ms'"
  by (intro ext) simp

lemma chan_upd_id [simp]: "chan_upd ch s d (ch s d) = ch"
  by (intro ext) simp

inductive net_step :: "nat \<Rightarrow> ('m, 'a) net \<Rightarrow> ('m, 'a) net \<Rightarrow> bool" for P where
  send: "i < P \<Longrightarrow> ps i = Snd d m p \<Longrightarrow> net_step P (ps, ch) (ps(i := p), chan_upd ch i d (ch i d @ [m]))"
| recv: "i < P \<Longrightarrow> ps i = Rcv s k \<Longrightarrow> ch s i = m # ms \<Longrightarrow>
     net_step P (ps, ch) (ps(i := k m), chan_upd ch s i ms)"

inductive_cases net_stepE: "net_step P (ps, ch) t"

definition finished :: "nat \<Rightarrow> ('m, 'a) net \<Rightarrow> bool" where
  "finished P s \<longleftrightarrow> (\<forall>i<P. \<exists>a. fst s i = Ret a)"

section \<open>One execution decides\<close>

text \<open>
  A relation in which two different steps from a state meet again after one step each. If some
  execution of it ends, every execution has at most its length and can be continued to its end.
\<close>

locale step_diamond =
  fixes step :: "'s \<Rightarrow> 's \<Rightarrow> bool"
  assumes diamond: "step s t \<Longrightarrow> step s u \<Longrightarrow> t = u \<or> (\<exists>v. step t v \<and> step u v)"
begin

lemma step_towards:
  "(step ^^ n) s f \<Longrightarrow> \<not> (\<exists>v. step f v) \<Longrightarrow> step s t \<Longrightarrow> 0 < n \<and> (step ^^ (n - 1)) t f"
proof (induction n arbitrary: s t)
  case 0
  then show ?case by auto
next
  case (Suc n)
  from Suc.prems(1) obtain u where u: "step s u" "(step ^^ n) u f" by (rule relpowp_Suc_E2)
  show ?case
  proof (cases "t = u")
    case True
    with u show ?thesis by simp
  next
    case False
    from diamond [OF Suc.prems(3) u(1)] False obtain v where v: "step t v" "step u v" by blast
    from Suc.IH [OF u(2) Suc.prems(2) v(2)] have n: "0 < n" "(step ^^ (n - 1)) v f" by auto
    then have "(step ^^ Suc (n - 1)) t f" using v(1) by (metis relpowp_Suc_I2)
    with n(1) show ?thesis by simp
  qed
qed

lemma all_towards:
  "(step ^^ m) s t \<Longrightarrow> (step ^^ n) s f \<Longrightarrow> \<not> (\<exists>v. step f v) \<Longrightarrow> m \<le> n \<and> (step ^^ (n - m)) t f"
proof (induction m arbitrary: t)
  case 0
  then show ?case by simp
next
  case (Suc m)
  from Suc.prems(1) obtain u where u: "(step ^^ m) s u" "step u t" by (rule relpowp_Suc_E)
  from Suc.IH [OF u(1) Suc.prems(2,3)] have "m \<le> n" "(step ^^ (n - m)) u f" by auto
  with step_towards [OF this(2) Suc.prems(3) u(2)] show ?case by (auto simp: Suc_le_eq)
qed

lemma one_run_decides:
  assumes "step\<^sup>*\<^sup>* s f" and "\<not> (\<exists>v. step f v)" and "step\<^sup>*\<^sup>* s t"
  shows "step\<^sup>*\<^sup>* t f" and "t \<noteq> f \<Longrightarrow> \<exists>v. step t v"
proof -
  obtain m n where "(step ^^ m) s t" "(step ^^ n) s f"
    using assms(1,3) by (auto dest!: rtranclp_imp_relpowp)
  from all_towards [OF this assms(2)] show run: "step\<^sup>*\<^sup>* t f" by (auto intro: relpowp_imp_rtranclp)
  then show "t \<noteq> f \<Longrightarrow> \<exists>v. step t v" by (metis converse_rtranclpE)
qed

end

lemma net_step_diamond:
  assumes "net_step P s t" and "net_step P s u"
  shows "t = u \<or> (\<exists>v. net_step P t v \<and> net_step P u v)"
proof -
  obtain ps ch where s: "s = (ps, ch)" by fastforce
  have comm_ss: ?thesis
    if i: "i < P" "ps i = Snd d m p" "t = (ps(i := p), chan_upd ch i d (ch i d @ [m]))"
      and j: "j < P" "ps j = Snd d' m' p'" "u = (ps(j := p'), chan_upd ch j d' (ch j d' @ [m']))"
    for i d m p j d' m' p'
  proof (cases "i = j")
    case False
    have "net_step P t (ps(i := p, j := p'), chan_upd (chan_upd ch i d (ch i d @ [m])) j d' (ch j d' @ [m']))"
      using net_step.send [of j P "ps(i := p)" d' m' p' "chan_upd ch i d (ch i d @ [m])"] i j False by simp
    moreover have "net_step P u (ps(j := p', i := p), chan_upd (chan_upd ch j d' (ch j d' @ [m'])) i d (ch i d @ [m]))"
      using net_step.send [of i P "ps(j := p')" d m p "chan_upd ch j d' (ch j d' @ [m'])"] i j False by simp
    moreover have "chan_upd (chan_upd ch j d' (ch j d' @ [m'])) i d (ch i d @ [m]) =
        chan_upd (chan_upd ch i d (ch i d @ [m])) j d' (ch j d' @ [m'])"
      using False by (intro ext) auto
    ultimately show ?thesis using False by (metis fun_upd_twist)
  qed (use i j in auto)
  have comm_sr: "\<exists>v. net_step P t v \<and> net_step P u v"
    if i: "i < P" "ps i = Snd d m p" "t = (ps(i := p), chan_upd ch i d (ch i d @ [m]))"
      and j: "j < P" "ps j = Rcv r k" "ch r j = x # xs" "u = (ps(j := k x), chan_upd ch r j xs)"
    for i d m p j r k x xs t u
  proof -
    have ij: "i \<noteq> j" using i(2) j(2) by auto
    let ?xs = "if r = i \<and> d = j then xs @ [m] else xs"
    let ?d = "if r = i \<and> d = j then xs @ [m] else ch i d @ [m]"
    have "net_step P t (ps(i := p, j := k x), chan_upd (chan_upd ch i d (ch i d @ [m])) r j ?xs)"
      using net_step.recv [of j P "ps(i := p)" r k "chan_upd ch i d (ch i d @ [m])" x ?xs] i j ij by auto
    moreover have "net_step P u (ps(j := k x, i := p), chan_upd (chan_upd ch r j xs) i d ?d)"
      using net_step.send [of i P "ps(j := k x)" d m p "chan_upd ch r j xs"] i j ij by (auto split: if_splits)
    moreover have "chan_upd (chan_upd ch r j xs) i d ?d = chan_upd (chan_upd ch i d (ch i d @ [m])) r j ?xs"
      by (intro ext) auto
    ultimately show ?thesis using ij by (metis fun_upd_twist)
  qed
  have comm_rr: ?thesis
    if i: "i < P" "ps i = Rcv r k" "ch r i = x # xs" "t = (ps(i := k x), chan_upd ch r i xs)"
      and j: "j < P" "ps j = Rcv r' k'" "ch r' j = y # ys" "u = (ps(j := k' y), chan_upd ch r' j ys)"
    for i r k x xs j r' k' y ys
  proof (cases "i = j")
    case False
    have "net_step P t (ps(i := k x, j := k' y), chan_upd (chan_upd ch r i xs) r' j ys)"
      using net_step.recv [of j P "ps(i := k x)" r' k' "chan_upd ch r i xs" y ys] i j False by simp
    moreover have "net_step P u (ps(j := k' y, i := k x), chan_upd (chan_upd ch r' j ys) r i xs)"
      using net_step.recv [of i P "ps(j := k' y)" r k "chan_upd ch r' j ys" x xs] i j False by simp
    moreover have "chan_upd (chan_upd ch r' j ys) r i xs = chan_upd (chan_upd ch r i xs) r' j ys"
      using False by (intro ext) auto
    ultimately show ?thesis using False by (metis fun_upd_twist)
  qed (use i j in auto)
  from assms show ?thesis unfolding s
  proof (elim net_stepE, goal_cases)
    case 1
    show ?case by (rule comm_ss [OF 1(2,3,1,5,6,4)])
  next
    case 2
    then show ?case using comm_sr [of _ _ _ _ t _ _ _ _ _ u] by blast
  next
    case 3
    then show ?case using comm_sr [of _ _ _ _ u _ _ _ _ _ t] by blast
  next
    case 4
    show ?case by (rule comm_rr [OF 4(2,3,4,1,6,7,8,5)])
  qed
qed

interpretation net: step_diamond "net_step P" for P
  by unfold_locales (rule net_step_diamond)

lemma finished_normal: "finished P s \<Longrightarrow> \<not> (\<exists>t. net_step P s t)"
  by (cases s) (auto simp: finished_def elim!: net_stepE)

section \<open>Runs of one rank, and of all ranks in turn\<close>

text \<open>
  \<open>solo p ins outs q\<close>: a rank at \<open>p\<close> gets to \<open>q\<close> by receiving the messages \<open>ins s\<close> from each
  \<open>s\<close> and sending \<open>outs d\<close> to each \<open>d\<close>.
\<close>

inductive solo :: "('m, 'a) proc \<Rightarrow> (nat \<Rightarrow> 'm list) \<Rightarrow> (nat \<Rightarrow> 'm list) \<Rightarrow> ('m, 'a) proc \<Rightarrow> bool" where
  idle: "solo p (\<lambda>_. []) (\<lambda>_. []) p"
| send: "solo p ins outs q \<Longrightarrow> solo (Snd d m p) ins (outs(d := m # outs d)) q"
| recv: "solo (k m) ins outs q \<Longrightarrow> solo (Rcv s k) (ins(s := m # ins s)) outs q"

definition only :: "nat \<Rightarrow> 'm list \<Rightarrow> nat \<Rightarrow> 'm list" where
  "only i ms = (\<lambda>j. if j = i then ms else [])"

lemma only_apply [simp]: "only i ms j = (if j = i then ms else [])"
  by (simp add: only_def)

lemma only_Nil [simp]: "only i [] = (\<lambda>_. [])"
  by (intro ext) simp

lemma solo_snd1: "solo (Snd d m q) (\<lambda>_. []) (only d [m]) q"
proof -
  have "only d [m] = (\<lambda>_. [])(d := m # (\<lambda>_. []) d)" by (intro ext) simp
  then show ?thesis using solo.send [OF solo.idle, of d m q] by (simp only:)
qed

lemma solo_rcv1: "solo (Rcv s k) (only s [m]) (\<lambda>_. []) (k m)"
proof -
  have "only s [m] = (\<lambda>_. [])(s := m # (\<lambda>_. []) s)" by (intro ext) simp
  then show ?thesis using solo.recv [of k m, OF solo.idle, of s] by (simp only:)
qed

lemma solo_trans:
  "solo p i1 o1 q \<Longrightarrow> solo q i2 o2 r \<Longrightarrow> solo p (\<lambda>s. i1 s @ i2 s) (\<lambda>d. o1 d @ o2 d) r"
proof (induction rule: solo.induct)
  case (send p ins outs q d m)
  have "(\<lambda>d'. (outs(d := m # outs d)) d' @ o2 d') = (\<lambda>d. outs d @ o2 d)(d := m # (outs d @ o2 d))"
    by (intro ext) simp
  with solo.send [OF send.IH [OF send.prems], of d m] show ?case by simp
next
  case (recv k m ins outs q s)
  have "(\<lambda>s'. (ins(s := m # ins s)) s' @ i2 s') = (\<lambda>s. ins s @ i2 s)(s := m # (ins s @ i2 s))"
    by (intro ext) simp
  with solo.recv [of k m, OF recv.IH [OF recv.prems], of s] show ?case by simp
qed simp

lemma solo_sends: "solo (foldr (\<lambda>i p. Snd d (f i) p) is q) (\<lambda>_. []) (only d (map f is)) q"
proof (induction "is")
  case Nil
  then show ?case by (simp add: solo.idle)
next
  case (Cons i "is")
  have eq: "only d (f i # map f is) = (only d (map f is))(d := f i # only d (map f is) d)" by (intro ext) simp
  have "solo (Snd d (f i) (foldr (\<lambda>i p. Snd d (f i) p) is q)) (\<lambda>_. []) (only d (f i # map f is)) q"
    unfolding eq by (rule solo.send [OF Cons.IH])
  then show ?case by (simp del: only_apply)
qed

lemma solo_run:
  "solo p ins outs q \<Longrightarrow> i < P \<Longrightarrow> ps i = p \<Longrightarrow> (\<And>s. ch s i = ins s @ rest s) \<Longrightarrow>
     (net_step P)\<^sup>*\<^sup>* (ps, ch) (ps(i := q), \<lambda>s d. (if d = i then rest s else ch s d) @ (if s = i then outs d else []))"
proof (induction arbitrary: ps ch rest rule: solo.induct)
  case (idle p)
  have "(\<lambda>s d. (if d = i then rest s else ch s d) @ (if s = i then [] else [])) = ch"
    using idle.prems(3) by (intro ext) simp
  moreover have "ps(i := p) = ps" using idle.prems(2) by auto
  ultimately show ?case by (simp only: rtranclp.rtrancl_refl)
next
  case (send p ins outs q d m)
  let ?ch = "chan_upd ch i d (ch i d @ [m])"
  let ?rest = "\<lambda>s. rest s @ (if s = i \<and> d = i then [m] else [])"
  have first: "net_step P (ps, ch) (ps(i := p), ?ch)" using send.prems by (intro net_step.send) auto
  have "(net_step P)\<^sup>*\<^sup>* (ps(i := p), ?ch) (ps(i := p, i := q),
     \<lambda>s d'. (if d' = i then ?rest s else ?ch s d') @ (if s = i then outs d' else []))"
    using send.prems by (intro send.IH) auto
  moreover have "(\<lambda>s d'. (if d' = i then ?rest s else ?ch s d') @ (if s = i then outs d' else [])) =
     (\<lambda>s d'. (if d' = i then rest s else ch s d') @ (if s = i then (outs(d := m # outs d)) d' else []))"
    by (intro ext) auto
  ultimately show ?case using converse_rtranclp_into_rtranclp [of "net_step P", OF first] by (simp only: fun_upd_upd)
next
  case (recv k m ins outs q s)
  have "ch s i = m # (ins s @ rest s)" using recv.prems(3) [of s] by simp
  then have first: "net_step P (ps, ch) (ps(i := k m), chan_upd ch s i (ins s @ rest s))"
    using recv.prems by (intro net_step.recv) auto
  have "(net_step P)\<^sup>*\<^sup>* (ps(i := k m), chan_upd ch s i (ins s @ rest s)) (ps(i := k m, i := q),
     \<lambda>s' d. (if d = i then rest s' else chan_upd ch s i (ins s @ rest s) s' d) @ (if s' = i then outs d else []))"
    using recv.prems by (intro recv.IH) (auto split: if_splits)
  moreover have "(\<lambda>s' d. (if d = i then rest s' else chan_upd ch s i (ins s @ rest s) s' d) @ (if s' = i then outs d else [])) =
     (\<lambda>s' d. (if d = i then rest s' else ch s' d) @ (if s' = i then outs d else []))"
    by (intro ext) auto
  ultimately show ?case using converse_rtranclp_into_rtranclp [of "net_step P", OF first] by (simp only: fun_upd_upd)
qed

text \<open>All ranks in turn, when what each receives is in its channels before any of them starts.\<close>

lemma all_solo_upto:
  assumes "\<And>i. i < P \<Longrightarrow> solo (old i) (\<lambda>s. ins s i) (outs i) (new i)"
    and "\<And>s d. d < P \<Longrightarrow> ch s d = ins s d @ rest s d"
  shows "n \<le> P \<Longrightarrow> (net_step P)\<^sup>*\<^sup>* (old, ch)
     (\<lambda>i. if i < n then new i else old i,
      \<lambda>s d. (if d < n then rest s d else ch s d) @ (if s < n then outs s d else []))"
proof (induction n)
  case 0
  then show ?case by simp
next
  case (Suc n)
  let ?ps = "\<lambda>i. if i < n then new i else old i"
  let ?ch = "\<lambda>s d. (if d < n then rest s d else ch s d) @ (if s < n then outs s d else [])"
  let ?rest = "\<lambda>s. rest s n @ (if s < n then outs s n else [])"
  have "(net_step P)\<^sup>*\<^sup>* (?ps, ?ch) (?ps(n := new n),
     \<lambda>s d. (if d = n then ?rest s else ?ch s d) @ (if s = n then outs n d else []))"
    using Suc.prems assms by (intro solo_run) auto
  moreover have "?ps(n := new n) = (\<lambda>i. if i < Suc n then new i else old i)" by (intro ext) auto
  moreover have "(\<lambda>s d. (if d = n then ?rest s else ?ch s d) @ (if s = n then outs n d else [])) =
     (\<lambda>s d. (if d < Suc n then rest s d else ch s d) @ (if s < Suc n then outs s d else []))"
    by (intro ext) auto
  ultimately show ?case using Suc by (simp only:) (meson Suc_leD rtranclp_trans)
qed

lemma all_solo:
  assumes "\<And>i. i < P \<Longrightarrow> solo (old i) (\<lambda>s. ins s i) (outs i) (new i)"
    and "\<And>i. P \<le> i \<Longrightarrow> old i = new i"
    and "\<And>s d. ch s d = (if d < P then ins s d else []) @ rest s d"
  shows "(net_step P)\<^sup>*\<^sup>* (old, ch) (new, \<lambda>s d. rest s d @ (if s < P then outs s d else []))"
proof -
  have "(\<lambda>i. if i < P then new i else old i) = new" using assms(2) by (intro ext) auto
  moreover have "(\<lambda>s d. (if d < P then rest s d else ch s d) @ (if s < P then outs s d else [])) =
      (\<lambda>s d. rest s d @ (if s < P then outs s d else []))"
    using assms(3) by (intro ext) auto
  ultimately show ?thesis using all_solo_upto [of P old ins outs new ch rest P] assms by simp
qed

text \<open>A net that can finish finishes in the same way however it is scheduled.\<close>

lemma finishes_always:
  assumes "(net_step P)\<^sup>*\<^sup>* s f" and "finished P f" and "(net_step P)\<^sup>*\<^sup>* s t"
  shows "(net_step P)\<^sup>*\<^sup>* t f \<and> (t = f \<or> (\<exists>v. net_step P t v))"
  using net.one_run_decides [OF assms(1) finished_normal [OF assms(2)] assms(3)] by blast

text \<open>
  \<open>always_ends P ps res\<close>: started on empty channels, no execution of the ranks runs for ever or gets
  stuck, and when all ranks have returned, rank \<open>i\<close> returned \<open>res i\<close>.
\<close>

definition always_ends :: "nat \<Rightarrow> (nat \<Rightarrow> ('m, 'a) proc) \<Rightarrow> (nat \<Rightarrow> 'a) \<Rightarrow> bool" where
  "always_ends P ps res \<longleftrightarrow>
     (\<exists>n. \<forall>m t. (net_step P ^^ m) (ps, \<lambda>_ _. []) t \<longrightarrow>
        m \<le> n \<and> (finished P t \<or> (\<exists>v. net_step P t v)) \<and> (finished P t \<longrightarrow> (\<forall>i<P. fst t i = Ret (res i))))"

lemma always_endsI:
  assumes "(net_step P)\<^sup>*\<^sup>* (ps, \<lambda>_ _. []) (qs, ch)" and "\<And>i. i < P \<Longrightarrow> qs i = Ret (res i)"
  shows "always_ends P ps res"
proof -
  have fin: "finished P (qs, ch)" using assms(2) by (auto simp: finished_def)
  obtain n where n: "(net_step P ^^ n) (ps, \<lambda>_ _. []) (qs, ch)" using assms(1) by (auto dest: rtranclp_imp_relpowp)
  have "m \<le> n \<and> (finished P t \<or> (\<exists>v. net_step P t v)) \<and> (finished P t \<longrightarrow> (\<forall>i<P. fst t i = Ret (res i)))"
    if m: "(net_step P ^^ m) (ps, \<lambda>_ _. []) t" for m t
  proof -
    have t: "m \<le> n" "(net_step P)\<^sup>*\<^sup>* t (qs, ch)"
      using net.all_towards [OF m n finished_normal [OF fin]] by (auto intro: relpowp_imp_rtranclp)
    have "t = (qs, ch)" if "finished P t" using t(2) finished_normal [OF that] by (metis converse_rtranclpE)
    moreover have "\<exists>v. net_step P t v" if "t \<noteq> (qs, ch)" using t(2) that by (metis converse_rtranclpE)
    ultimately show ?thesis using t(1) fin assms(2) by (metis fst_conv)
  qed
  then show ?thesis by (auto simp: always_ends_def)
qed

lemma always_ends_result:
  assumes "always_ends P ps res" and "(net_step P)\<^sup>*\<^sup>* (ps, \<lambda>_ _. []) t"
  shows "finished P t \<or> (\<exists>v. net_step P t v)" and "finished P t \<Longrightarrow> i < P \<Longrightarrow> fst t i = Ret (res i)"
proof -
  obtain m where m: "(net_step P ^^ m) (ps, \<lambda>_ _. []) t" using assms(2) by (auto dest: rtranclp_imp_relpowp)
  then show "finished P t \<or> (\<exists>v. net_step P t v)" and "finished P t \<Longrightarrow> i < P \<Longrightarrow> fst t i = Ret (res i)"
    using assms(1) unfolding always_ends_def by blast+
qed

end
