(* ===== verification/Mpi_Mailbox.thy ===== *)
theory Mpi_Mailbox
  imports Prelude
begin

text \<open>
  The thread-mode message transport of src/parallel_abstraction/pimid_mpi.cpp: one mailbox per
  rank, a ring of slots with tombstones for messages taken out of order, a staging arena for
  messages moved out of a full ring, and an extension queue for what the arena cannot hold.

  Every operation here is one critical section under the mailbox mutex of the receiving rank
  (\<^verbatim>\<open>pthread_mutex_lock(&mb->mtx)\<close>), so an execution is an interleaving of them. The spin
  locks, condition variables, simulator hooks and traces carry no message state and are left
  out; a receiver that would block on \<^verbatim>\<open>pthread_cond_wait\<close> returns \<open>None\<close>. The extension is
  mapped by \<^verbatim>\<open>mmap\<close> at first use: whether the kernel grants the mapping is the argument
  \<open>mmap_ok\<close>.
\<close>

section \<open>Slots\<close>

type_synonym byte = "8 word"

record MessageSlot =
  ms_src :: int
  ms_tag :: int
  ms_size :: nat
  ms_chunk_idx :: nat
  ms_n_chunks :: nat
  ms_msg_id :: u32
  ms_sim_send_time :: u64
  ms_sim_contend_wait :: u64
  ms_msg_bytes :: nat
  ms_payload :: "byte list"

text \<open>\<^verbatim>\<open>PIMID_MPI_MAX_MSG_BYTES\<close> and \<^verbatim>\<open>PIMID_MPI_RING_SLOTS\<close>.\<close>

definition MAX_MSG_BYTES :: nat where "MAX_MSG_BYTES = 64 * 1024"

definition RING_SLOTS :: nat where "RING_SLOTS = 16"

lemma RING_SLOTS_pos [simp]: "0 < RING_SLOTS"
  by (simp add: RING_SLOTS_def)

text \<open>
  Two slots hold the same message when they agree but for the payload bytes past \<^verbatim>\<open>size\<close>,
  which no operation reads.
\<close>

definition msg_of :: "MessageSlot \<Rightarrow> MessageSlot" where
  "msg_of s = s\<lparr>ms_payload := take (ms_size s) (ms_payload s)\<rparr>"

definition copy_slot :: "MessageSlot \<Rightarrow> MessageSlot \<Rightarrow> MessageSlot" where
  "copy_slot d s = s\<lparr>ms_payload := memcpy_at (ms_payload d) 0 (take (ms_size s) (ms_payload s))\<rparr>"

definition slot_wf :: "MessageSlot \<Rightarrow> bool" where
  "slot_wf s = (ms_size s \<le> MAX_MSG_BYTES \<and> length (ms_payload s) = MAX_MSG_BYTES)"

lemma msg_of_fields [simp]:
  "ms_src (msg_of s) = ms_src s" "ms_size (msg_of s) = ms_size s"
  "ms_n_chunks (msg_of s) = ms_n_chunks s" "ms_chunk_idx (msg_of s) = ms_chunk_idx s"
  "ms_payload (msg_of s) = take (ms_size s) (ms_payload s)"
  by (simp_all add: msg_of_def)

lemma msg_of_copy_slot [simp]: "slot_wf s \<Longrightarrow> msg_of (copy_slot d s) = msg_of s"
  by (simp add: msg_of_def copy_slot_def memcpy_at_def slot_wf_def min_def)

lemma slot_wf_copy_slot [simp]: "slot_wf d \<Longrightarrow> slot_wf s \<Longrightarrow> slot_wf (copy_slot d s)"
  by (simp add: slot_wf_def copy_slot_def memcpy_at_def min_def)

section \<open>The ring\<close>

record Mailbox =
  mb_head :: nat
  mb_tail :: nat
  mb_count :: nat
  mb_consumed :: "bool list"
  mb_slots :: "MessageSlot list"

text \<open>Slot indices from the head on, and those not tombstoned, in arrival order.\<close>

definition window :: "Mailbox \<Rightarrow> nat list" where
  "window mb = map (\<lambda>k. (mb_head mb + k) mod RING_SLOTS) [0..<mb_count mb]"

definition live :: "Mailbox \<Rightarrow> nat list" where
  "live mb = filter (\<lambda>i. \<not> mb_consumed mb ! i) (window mb)"

definition ring_msgs :: "Mailbox \<Rightarrow> MessageSlot list" where
  "ring_msgs mb = map (\<lambda>i. msg_of (mb_slots mb ! i)) (live mb)"

definition ring_ok :: "Mailbox \<Rightarrow> bool" where
  "ring_ok mb =
     (length (mb_slots mb) = RING_SLOTS \<and> length (mb_consumed mb) = RING_SLOTS
      \<and> mb_head mb < RING_SLOTS \<and> mb_count mb \<le> RING_SLOTS
      \<and> mb_tail mb = (mb_head mb + mb_count mb) mod RING_SLOTS
      \<and> (\<forall>i<RING_SLOTS. mb_consumed mb ! i \<longrightarrow> i \<in> set (window mb))
      \<and> (0 < mb_count mb \<longrightarrow> \<not> mb_consumed mb ! mb_head mb)
      \<and> list_all slot_wf (mb_slots mb))"

lemma mod_shift_inj:
  assumes "a < (n :: nat)" and "b < n"
  shows "(h + a) mod n = (h + b) mod n \<longleftrightarrow> a = b"
proof -
  have le: "x = y" if "(h + x) mod n = (h + y) mod n" "x \<le> y" "y < n" for x y
  proof -
    from that(1,2) have "n dvd (h + y) - (h + x)"
      by (intro mod_eq_dvd_iff_nat [THEN iffD1]) simp_all
    with that(2,3) show ?thesis by (auto dest: dvd_imp_le)
  qed
  show ?thesis using le [of a b] le [of b a] assms by (metis nat_le_linear)
qed

lemma distinct_window: "ring_ok mb \<Longrightarrow> distinct (window mb)"
  by (auto simp: window_def ring_ok_def distinct_map inj_on_def mod_shift_inj)

lemma window_less: "i \<in> set (window mb) \<Longrightarrow> i < RING_SLOTS"
  by (auto simp: window_def)

text \<open>Advancing the head by one slot drops the first index of the window.\<close>

lemma window_advance:
  assumes "0 < mb_count mb"
    and "mb_head mb' = (mb_head mb + 1) mod RING_SLOTS" and "mb_count mb' = mb_count mb - 1"
  shows "window mb = mb_head mb mod RING_SLOTS # window mb'"
proof -
  obtain n where n: "mb_count mb = Suc n" using assms(1) by (cases "mb_count mb") auto
  have "window mb = map (\<lambda>k. (mb_head mb + k) mod RING_SLOTS) (0 # map Suc [0..<n])"
    by (simp add: window_def n upt_conv_Cons map_Suc_upt del: upt_Suc)
  also have "\<dots> = mb_head mb mod RING_SLOTS # window mb'"
    using assms(2,3) by (simp add: window_def n mod_add_left_eq)
  finally show ?thesis .
qed

text \<open>One round of \<^verbatim>\<open>consumed[head] = 0; head = (head + 1) % SLOTS; count--\<close>.\<close>

definition ring_pop :: "Mailbox \<Rightarrow> Mailbox" where
  "ring_pop mb = mb\<lparr>mb_consumed := (mb_consumed mb)[mb_head mb := False],
                    mb_head := (mb_head mb + 1) mod RING_SLOTS, mb_count := mb_count mb - 1\<rparr>"

text \<open>The loop \<^verbatim>\<open>while (count > 0 && consumed[head])\<close> that follows.\<close>

function skip_consumed :: "Mailbox \<Rightarrow> Mailbox" where
  "skip_consumed mb =
     (if 0 < mb_count mb \<and> mb_consumed mb ! mb_head mb then skip_consumed (ring_pop mb) else mb)"
  by pat_completeness auto
termination
  by (relation "measure mb_count") (auto simp: ring_pop_def)

declare skip_consumed.simps [simp del]

text \<open>The ring invariant without the condition on the head, which the loop restores.\<close>

definition ring_ok0 :: "Mailbox \<Rightarrow> bool" where
  "ring_ok0 mb =
     (length (mb_slots mb) = RING_SLOTS \<and> length (mb_consumed mb) = RING_SLOTS
      \<and> mb_head mb < RING_SLOTS \<and> mb_count mb \<le> RING_SLOTS
      \<and> mb_tail mb = (mb_head mb + mb_count mb) mod RING_SLOTS
      \<and> (\<forall>i<RING_SLOTS. mb_consumed mb ! i \<longrightarrow> i \<in> set (window mb))
      \<and> list_all slot_wf (mb_slots mb))"

lemma ring_ok_iff: "ring_ok mb \<longleftrightarrow> ring_ok0 mb \<and> (0 < mb_count mb \<longrightarrow> \<not> mb_consumed mb ! mb_head mb)"
  by (auto simp: ring_ok_def ring_ok0_def)

lemma distinct_window0: "ring_ok0 mb \<Longrightarrow> distinct (window mb)"
  by (auto simp: window_def ring_ok0_def distinct_map inj_on_def mod_shift_inj)

lemma window_ring_pop:
  "ring_ok0 mb \<Longrightarrow> 0 < mb_count mb \<Longrightarrow> window mb = mb_head mb # window (ring_pop mb)"
  using window_advance [of mb "ring_pop mb"] by (simp add: ring_pop_def ring_ok0_def)

lemma ring_ok0_pop:
  assumes "ring_ok0 mb" and "0 < mb_count mb"
  shows "ring_ok0 (ring_pop mb)"
proof -
  note w = window_ring_pop [OF assms]
  have "\<forall>i<RING_SLOTS. mb_consumed (ring_pop mb) ! i \<longrightarrow> i \<in> set (window (ring_pop mb))"
  proof (intro allI impI)
    fix i
    assume i: "i < RING_SLOTS" "mb_consumed (ring_pop mb) ! i"
    then have "i \<noteq> mb_head mb" and "mb_consumed mb ! i"
      using assms(1) by (auto simp: ring_pop_def ring_ok0_def nth_list_update split: if_splits)
    then show "i \<in> set (window (ring_pop mb))"
      using assms(1) i(1) w by (auto simp: ring_ok0_def)
  qed
  moreover have "mb_tail mb = (mb_head (ring_pop mb) + mb_count (ring_pop mb)) mod RING_SLOTS"
    using assms by (cases "mb_count mb") (simp_all add: ring_pop_def ring_ok0_def mod_add_left_eq)
  moreover have "mb_count mb - 1 \<le> RING_SLOTS"
    using assms(1) by (auto simp: ring_ok0_def)
  ultimately show ?thesis
    using assms by (simp add: ring_pop_def ring_ok0_def)
qed

lemma mb_consumed_ring_pop:
  "i \<noteq> mb_head mb \<Longrightarrow> mb_consumed (ring_pop mb) ! i = mb_consumed mb ! i"
  by (simp add: ring_pop_def)

lemma live_ring_pop:
  assumes "ring_ok0 mb" and "0 < mb_count mb"
  shows "live mb = (if mb_consumed mb ! mb_head mb then [] else [mb_head mb]) @ live (ring_pop mb)"
proof -
  have w: "window mb = mb_head mb # window (ring_pop mb)" by (rule window_ring_pop [OF assms])
  then have "mb_head mb \<notin> set (window (ring_pop mb))"
    using distinct_window0 [OF assms(1)] by simp
  then have "filter (\<lambda>i. \<not> mb_consumed (ring_pop mb) ! i) (window (ring_pop mb)) =
      filter (\<lambda>i. \<not> mb_consumed mb ! i) (window (ring_pop mb))"
    by (metis (no_types, lifting) filter_cong mb_consumed_ring_pop)
  then show ?thesis by (simp add: live_def w)
qed

lemma mb_slots_ring_pop [simp]: "mb_slots (ring_pop mb) = mb_slots mb"
  by (simp add: ring_pop_def)

lemma skip_consumed_ok:
  "ring_ok0 mb \<Longrightarrow> ring_ok (skip_consumed mb) \<and> live (skip_consumed mb) = live mb
     \<and> mb_slots (skip_consumed mb) = mb_slots mb \<and> mb_count (skip_consumed mb) \<le> mb_count mb"
proof (induction mb rule: skip_consumed.induct)
  case (1 mb)
  show ?case
  proof (cases "0 < mb_count mb \<and> mb_consumed mb ! mb_head mb")
    case True
    with "1.IH" ring_ok0_pop [OF "1.prems"] live_ring_pop [OF "1.prems"] show ?thesis
      by (auto simp: skip_consumed.simps [of mb]) (simp add: ring_pop_def)
  next
    case False
    then have "skip_consumed mb = mb" by (subst skip_consumed.simps) (rule if_not_P)
    with False "1.prems" show ?thesis by (auto simp: ring_ok_iff)
  qed
qed

lemma ring_evict_step:
  assumes "ring_ok mb" and "0 < mb_count mb"
  shows "ring_ok (skip_consumed (ring_pop mb))"
    and "live mb = mb_head mb # live (skip_consumed (ring_pop mb))"
    and "mb_slots (skip_consumed (ring_pop mb)) = mb_slots mb"
    and "mb_count (skip_consumed (ring_pop mb)) < mb_count mb"
proof -
  have ok0: "ring_ok0 mb" and hd: "\<not> mb_consumed mb ! mb_head mb"
    using assms by (simp_all add: ring_ok_iff)
  note sk = skip_consumed_ok [OF ring_ok0_pop [OF ok0 assms(2)]]
  from sk show "ring_ok (skip_consumed (ring_pop mb))" by blast
  from sk hd live_ring_pop [OF ok0 assms(2)]
  show "live mb = mb_head mb # live (skip_consumed (ring_pop mb))" by simp
  from sk show "mb_slots (skip_consumed (ring_pop mb)) = mb_slots mb" by simp
  from sk assms(2) show "mb_count (skip_consumed (ring_pop mb)) < mb_count mb"
    by (auto simp: ring_pop_def)
qed

text \<open>Tombstoning slot \<open>i\<close> of the window, the ring branch of \<^verbatim>\<open>recv_release_thread\<close>.\<close>

definition ring_release :: "Mailbox \<Rightarrow> nat \<Rightarrow> Mailbox" where
  "ring_release mb i = skip_consumed (mb\<lparr>mb_consumed := (mb_consumed mb)[i := True]\<rparr>)"

lemma ring_release_ok:
  assumes "ring_ok mb" and "i \<in> set (live mb)"
  shows "ring_ok (ring_release mb i)" and "live (ring_release mb i) = filter (\<lambda>j. j \<noteq> i) (live mb)"
    and "mb_slots (ring_release mb i) = mb_slots mb"
proof -
  let ?m = "mb\<lparr>mb_consumed := (mb_consumed mb)[i := True]\<rparr>"
  have i: "i < RING_SLOTS" "i \<in> set (window mb)" "\<not> mb_consumed mb ! i"
    using assms(2) window_less by (auto simp: live_def)
  have w: "window ?m = window mb" by (simp add: window_def)
  have len: "length (mb_consumed mb) = RING_SLOTS" using assms(1) by (simp add: ring_ok_def)
  have "ring_ok0 ?m"
    using assms(1) i by (auto simp: ring_ok_def ring_ok0_def w nth_list_update)
  note sk = skip_consumed_ok [OF this]
  have "live ?m = filter (\<lambda>j. j \<noteq> i) (live mb)"
    using i len by (auto simp: live_def w nth_list_update window_less intro!: filter_cong)
  with sk show "ring_ok (ring_release mb i)" "live (ring_release mb i) = filter (\<lambda>j. j \<noteq> i) (live mb)"
    "mb_slots (ring_release mb i) = mb_slots mb"
    by (simp_all add: ring_release_def)
qed

text \<open>Filling the tail slot, the enqueue of \<^verbatim>\<open>send_chunk\<close>.\<close>

definition ring_put :: "Mailbox \<Rightarrow> MessageSlot \<Rightarrow> Mailbox" where
  "ring_put mb m = mb\<lparr>mb_slots := (mb_slots mb)[mb_tail mb := m],
                      mb_tail := (mb_tail mb + 1) mod RING_SLOTS, mb_count := mb_count mb + 1\<rparr>"

lemma window_ring_put: "ring_ok mb \<Longrightarrow> window (ring_put mb m) = window mb @ [mb_tail mb]"
  by (simp add: window_def ring_put_def ring_ok_def)

lemma tail_not_in_window:
  assumes "ring_ok mb" and "mb_count mb < RING_SLOTS"
  shows "mb_tail mb \<notin> set (window mb)"
proof
  assume "mb_tail mb \<in> set (window mb)"
  then obtain k where "k < mb_count mb" "(mb_head mb + mb_count mb) mod RING_SLOTS = (mb_head mb + k) mod RING_SLOTS"
    using assms(1) by (auto simp: window_def ring_ok_def)
  with assms(2) show False by (simp add: mod_shift_inj)
qed

lemma ring_put_ok:
  assumes "ring_ok mb" and "mb_count mb < RING_SLOTS" and "slot_wf m"
  shows "ring_ok (ring_put mb m)" and "ring_msgs (ring_put mb m) = ring_msgs mb @ [msg_of m]"
proof -
  let ?t = "mb_tail mb"
  have t: "?t < RING_SLOTS" using assms(1) by (simp add: ring_ok_def)
  have nt: "?t \<notin> set (window mb)" by (rule tail_not_in_window [OF assms(1,2)])
  have nc: "\<not> mb_consumed mb ! ?t" using assms(1) t nt by (auto simp: ring_ok_def)
  note w = window_ring_put [OF assms(1), of m]
  have wf: "list_all slot_wf (mb_slots (ring_put mb m))"
    using assms(1,3) t by (auto simp: ring_ok_def ring_put_def list_all_length nth_list_update)
  have hd: "\<not> mb_consumed mb ! mb_head mb"
    using assms(1) nc by (cases "mb_count mb = 0") (auto simp: ring_ok_def)
  show "ring_ok (ring_put mb m)"
    using assms w wf hd unfolding ring_ok_def
    by (auto simp: ring_put_def mod_add_left_eq mod_Suc_eq)
  have lv: "live (ring_put mb m) = live mb @ [?t]"
    using nc by (simp add: live_def w) (simp add: ring_put_def)
  have "?t \<notin> set (live mb)" using nt by (simp add: live_def)
  then have "map (\<lambda>i. msg_of (mb_slots (ring_put mb m) ! i)) (live mb) = ring_msgs mb"
    by (auto simp: ring_msgs_def ring_put_def) (metis nth_list_update_neq)
  then show "ring_msgs (ring_put mb m) = ring_msgs mb @ [msg_of m]"
    using assms(1) t by (simp add: ring_msgs_def lv) (simp add: ring_put_def ring_ok_def)
qed

section \<open>The staging arena\<close>

text \<open>
  \<^verbatim>\<open>g_stage_slots\<close>, \<^verbatim>\<open>g_stage_order\<close>, \<^verbatim>\<open>g_stage_n\<close> and \<^verbatim>\<open>g_stage_used\<close> of one rank, each
  array of \<^verbatim>\<open>g_stage_cap\<close> elements.
\<close>

record Stage =
  st_slots :: "MessageSlot list"
  st_order :: "nat list"
  st_n :: nat
  st_used :: "bool list"

definition stage_msgs :: "Stage \<Rightarrow> MessageSlot list" where
  "stage_msgs st = map (\<lambda>i. msg_of (st_slots st ! i)) (take (st_n st) (st_order st))"

definition stage_ok :: "nat \<Rightarrow> Stage \<Rightarrow> bool" where
  "stage_ok cap st =
     (length (st_slots st) = cap \<and> length (st_order st) = cap \<and> length (st_used st) = cap
      \<and> st_n st \<le> cap \<and> distinct (take (st_n st) (st_order st))
      \<and> set (take (st_n st) (st_order st)) = {i. i < cap \<and> st_used st ! i}
      \<and> list_all slot_wf (st_slots st))"

text \<open>\<^verbatim>\<open>while (used[i]) i++\<close> from \<^verbatim>\<open>i = 0\<close>.\<close>

fun first_unused :: "bool list \<Rightarrow> nat" where
  "first_unused [] = 0"
| "first_unused (u # us) = (if u then Suc (first_unused us) else 0)"

lemma first_unused_less:
  "\<exists>i<length us. \<not> us ! i \<Longrightarrow> first_unused us < length us \<and> \<not> us ! first_unused us"
proof (induction us)
  case Nil
  then show ?case by simp
next
  case (Cons u us)
  show ?case
  proof (cases u)
    case True
    with Cons.prems obtain i where "i < length us" "\<not> us ! i"
      by (metis Suc_less_eq length_Cons not0_implies_Suc nth_Cons_0 nth_Cons_Suc)
    with Cons.IH True show ?thesis by auto
  qed simp
qed

text \<open>The arena branch of \<^verbatim>\<open>stage_push\<close>.\<close>

definition arena_push :: "Stage \<Rightarrow> MessageSlot \<Rightarrow> Stage" where
  "arena_push st m =
     (let n = st_n st; i = first_unused (st_used st)
      in st\<lparr>st_used := (st_used st)[i := True],
            st_slots := (st_slots st)[i := copy_slot (st_slots st ! i) m],
            st_order := (st_order st)[n := i], st_n := n + 1\<rparr>)"

lemma unused_exists:
  assumes "stage_ok cap st" and "st_n st < cap"
  shows "\<exists>i<length (st_used st). \<not> st_used st ! i"
proof (rule ccontr)
  assume "\<not> ?thesis"
  then have "{i. i < cap \<and> st_used st ! i} = {..<cap}"
    using assms(1) by (auto simp: stage_ok_def)
  then have "card (set (take (st_n st) (st_order st))) = cap"
    using assms(1) by (simp add: stage_ok_def)
  moreover have "card (set (take (st_n st) (st_order st))) \<le> st_n st"
    using assms(1) card_length [of "take (st_n st) (st_order st)"] by (simp add: stage_ok_def)
  ultimately show False using assms(2) by simp
qed

lemma take_update_append: "n < length xs \<Longrightarrow> take (Suc n) (xs[n := x]) = take n xs @ [x]"
  by (simp add: take_Suc_conv_app_nth)

lemma arena_push_ok:
  assumes ok: "stage_ok cap st" and n: "st_n st < cap" and wf: "slot_wf m"
  shows "stage_ok cap (arena_push st m)" and "stage_msgs (arena_push st m) = stage_msgs st @ [msg_of m]"
proof -
  let ?n = "st_n st" and ?i = "first_unused (st_used st)" and ?o = "take (st_n st) (st_order st)"
  have i: "?i < cap" "\<not> st_used st ! ?i"
    using first_unused_less [OF unused_exists [OF ok n]] ok by (simp_all add: stage_ok_def)
  have len: "length (st_slots st) = cap" "length (st_order st) = cap" "length (st_used st) = cap"
    and dist: "distinct ?o" and used: "set ?o = {i. i < cap \<and> st_used st ! i}"
    and wfs: "list_all slot_wf (st_slots st)"
    using ok by (simp_all add: stage_ok_def)
  have ord: "take (Suc ?n) ((st_order st)[?n := ?i]) = ?o @ [?i]"
    using n len by (simp add: take_update_append)
  have new: "?i \<notin> set ?o" using used i(2) by simp
  have wf': "list_all slot_wf ((st_slots st)[?i := copy_slot (st_slots st ! ?i) m])"
    using wfs wf i(1) len by (auto simp: list_all_length nth_list_update)
  have used': "insert ?i (set ?o) = {j. j < cap \<and> (st_used st)[?i := True] ! j}"
    using used i(1) len by (auto simp: nth_list_update)
  show "stage_ok cap (arena_push st m)"
    using len n dist new used' wf'
    by (simp add: arena_push_def stage_ok_def Let_def ord)
  have "\<forall>j\<in>set ?o. (st_slots st)[?i := copy_slot (st_slots st ! ?i) m] ! j = st_slots st ! j"
    using new by (metis nth_list_update_neq)
  then show "stage_msgs (arena_push st m) = stage_msgs st @ [msg_of m]"
    using i(1) len wf by (simp add: arena_push_def stage_msgs_def Let_def ord)
qed

text \<open>\<^verbatim>\<open>for (k = pos; k + 1 < n; k++) order[k] = order[k + 1]\<close>.\<close>

function shift_down :: "'a list \<Rightarrow> nat \<Rightarrow> nat \<Rightarrow> 'a list" where
  "shift_down xs k n = (if k + 1 < n then shift_down (xs[k := xs ! (k + 1)]) (k + 1) n else xs)"
  by pat_completeness auto
termination
  by (relation "measure (\<lambda>(xs, k, n). n - k)") auto

declare shift_down.simps [simp del]

lemma length_shift_down [simp]: "length (shift_down xs k n) = length xs"
proof (induction xs k n rule: shift_down.induct)
  case (1 xs k n)
  then show ?case by (simp add: shift_down.simps [of xs k n])
qed

lemma take_shift_down:
  "k < n \<Longrightarrow> n \<le> length xs \<Longrightarrow> take (n - 1) (shift_down xs k n) = take k xs @ drop (k + 1) (take n xs)"
proof (induction xs k n rule: shift_down.induct)
  case (1 xs k n)
  show ?case
  proof (cases "k + 1 < n")
    case True
    let ?xs = "xs[k := xs ! (k + 1)]"
    have "take (n - 1) (shift_down xs k n) = take (k + 1) ?xs @ drop (k + 2) (take n ?xs)"
      using True "1.IH" "1.prems" by (simp add: shift_down.simps [of xs k n])
    also have "take (k + 1) ?xs = take k xs @ [xs ! (k + 1)]"
      using "1.prems" by (simp add: take_Suc_conv_app_nth)
    also have "drop (k + 2) (take n ?xs) = drop (k + 2) (take n xs)"
      using True "1.prems" by (simp add: take_update_swap)
    finally show ?thesis
      using True "1.prems" by (simp add: Cons_nth_drop_Suc [symmetric])
  next
    case False
    then have "shift_down xs k n = xs" by (simp add: shift_down.simps [of xs k n])
    moreover from False "1.prems" have "n = Suc k" by simp
    ultimately show ?thesis by simp
  qed
qed

text \<open>The arena branch of \<^verbatim>\<open>recv_release_thread\<close> for position \<open>pos\<close> of the order list.\<close>

definition arena_release :: "Stage \<Rightarrow> nat \<Rightarrow> Stage" where
  "arena_release st pos =
     (let i = st_order st ! pos; n = st_n st
      in st\<lparr>st_used := (st_used st)[i := False], st_order := shift_down (st_order st) pos n,
            st_n := n - 1\<rparr>)"

lemma arena_release_ok:
  assumes ok: "stage_ok cap st" and pos: "pos < st_n st"
  shows "stage_ok cap (arena_release st pos)"
    and "stage_msgs (arena_release st pos) =
           take pos (stage_msgs st) @ drop (pos + 1) (stage_msgs st)"
proof -
  let ?n = "st_n st" and ?i = "st_order st ! pos"
  let ?o = "take ?n (st_order st)"
  have len: "length (st_slots st) = cap" "length (st_order st) = cap" "length (st_used st) = cap"
    and n: "?n \<le> cap" and dist: "distinct ?o" and used: "set ?o = {i. i < cap \<and> st_used st ! i}"
    and wfs: "list_all slot_wf (st_slots st)"
    using ok by (simp_all add: stage_ok_def)
  have lo: "pos < length ?o" "?o ! pos = ?i" using pos n len by simp_all
  define as bs where "as = take pos ?o" and "bs = drop (Suc pos) ?o"
  have split: "?o = as @ ?i # bs" "length as = pos"
    using id_take_nth_drop [OF lo(1)] lo by (simp_all add: as_def bs_def)
  have ord: "take (?n - 1) (shift_down (st_order st) pos ?n) = as @ bs"
    using pos n len take_shift_down [of pos ?n "st_order st"] by (simp add: as_def bs_def min_def)
  have "distinct (as @ ?i # bs)" using dist by (simp only: split(1))
  then have "distinct (as @ bs)" and new: "?i \<notin> set (as @ bs)" by auto
  moreover have "set (as @ bs) = {j. j < cap \<and> (st_used st)[?i := False] ! j}"
  proof -
    have "set ?o = insert ?i (set (as @ bs))" by (simp only: split(1) set_append list.set) blast
    then have "set (as @ bs) = set ?o - {?i}" using new by blast
    also have "\<dots> = {j. j < cap \<and> (st_used st)[?i := False] ! j}"
      unfolding used using len(3) by (auto simp: nth_update_False)
    finally show ?thesis .
  qed
  ultimately show "stage_ok cap (arena_release st pos)"
    using len n wfs ord by (simp add: arena_release_def stage_ok_def Let_def)
  show "stage_msgs (arena_release st pos) =
           take pos (stage_msgs st) @ drop (pos + 1) (stage_msgs st)"
    using split ord by (simp add: arena_release_def stage_msgs_def Let_def)
qed

section \<open>The extension queue\<close>

text \<open>
  \<^verbatim>\<open>ExtQ\<close> and the slots behind it. The slots are address space of the mapped range, a function
  of the index; a taken slot has source -1.
\<close>

record ExtQ =
  xq_head :: nat
  xq_tail :: nat
  xq_n :: nat
  xq_slots :: "nat \<Rightarrow> MessageSlot"

definition ext_live :: "ExtQ \<Rightarrow> nat list" where
  "ext_live q = filter (\<lambda>k. 0 \<le> ms_src (xq_slots q k)) [xq_head q..<xq_tail q]"

definition ext_msgs :: "ExtQ \<Rightarrow> MessageSlot list" where
  "ext_msgs q = map (\<lambda>k. msg_of (xq_slots q k)) (ext_live q)"

definition ext_ok :: "ExtQ \<Rightarrow> bool" where
  "ext_ok q = (xq_head q \<le> xq_tail q \<and> xq_n q = length (ext_live q)
     \<and> (xq_n q = 0 \<longrightarrow> xq_head q = 0 \<and> xq_tail q = 0)
     \<and> (\<forall>k. slot_wf (xq_slots q k)))"

text \<open>The queueing part of \<^verbatim>\<open>stage_ext_push\<close>; \<open>cap\<close> is \<^verbatim>\<open>h->cap\<close>, \<open>None\<close> the refusal of a full share.\<close>

definition ext_push :: "nat \<Rightarrow> ExtQ \<Rightarrow> MessageSlot \<Rightarrow> ExtQ option" where
  "ext_push cap q m =
     (if xq_tail q < cap
      then Some (q\<lparr>xq_slots := (xq_slots q)(xq_tail q := copy_slot (xq_slots q (xq_tail q)) m),
                   xq_tail := xq_tail q + 1, xq_n := xq_n q + 1\<rparr>)
      else None)"

text \<open>\<^verbatim>\<open>while (ext_slot(q, q->head)->src < 0) q->head++\<close>; \<open>fuel\<close> is the distance to the tail.\<close>

fun ext_skip :: "nat \<Rightarrow> ExtQ \<Rightarrow> ExtQ" where
  "ext_skip 0 q = q"
| "ext_skip (Suc fuel) q =
     (if ms_src (xq_slots q (xq_head q)) < 0 then ext_skip fuel (q\<lparr>xq_head := xq_head q + 1\<rparr>) else q)"

definition ext_release :: "ExtQ \<Rightarrow> nat \<Rightarrow> ExtQ" where
  "ext_release q k =
     (let q1 = q\<lparr>xq_slots := (xq_slots q)(k := (xq_slots q k)\<lparr>ms_src := -1\<rparr>), xq_n := xq_n q - 1\<rparr>
      in if xq_n q1 = 0 then q1\<lparr>xq_head := 0, xq_tail := 0\<rparr>
         else ext_skip (xq_tail q1 - xq_head q1) q1)"

lemma copy_slot_src [simp]: "ms_src (copy_slot d s) = ms_src s"
  by (simp add: copy_slot_def)

lemma ext_push_ok:
  assumes "ext_ok q" and "slot_wf m" and "0 \<le> ms_src m" and "ext_push cap q m = Some q'"
  shows "ext_ok q'" and "ext_msgs q' = ext_msgs q @ [msg_of m]" and "xq_tail q' = xq_tail q + 1"
proof -
  let ?d = "copy_slot (xq_slots q (xq_tail q)) m"
  have q': "q' = q\<lparr>xq_slots := (xq_slots q)(xq_tail q := ?d), xq_tail := xq_tail q + 1, xq_n := xq_n q + 1\<rparr>"
    using assms(4) by (simp add: ext_push_def split: if_splits)
  have le: "xq_head q \<le> xq_tail q" using assms(1) by (simp add: ext_ok_def)
  have lv: "ext_live q' = ext_live q @ [xq_tail q]"
    using le assms(3) by (auto simp: q' ext_live_def intro!: filter_cong)
  have notin: "xq_tail q \<notin> set (ext_live q)" by (simp add: ext_live_def)
  show "ext_msgs q' = ext_msgs q @ [msg_of m]"
  proof -
    have "map (\<lambda>k. msg_of (xq_slots q' k)) (ext_live q) = ext_msgs q"
      using notin by (auto simp: ext_msgs_def q')
    moreover have "msg_of (xq_slots q' (xq_tail q)) = msg_of m" using assms(2) by (simp add: q')
    ultimately show ?thesis by (simp add: ext_msgs_def lv)
  qed
  show "ext_ok q'"
    using assms(1,2) lv by (simp add: ext_ok_def) (simp add: q')
  show "xq_tail q' = xq_tail q + 1" by (simp add: q')
qed

lemma ext_skip_fields [simp]:
  "xq_tail (ext_skip f q) = xq_tail q" "xq_n (ext_skip f q) = xq_n q" "xq_slots (ext_skip f q) = xq_slots q"
  by (induction f q rule: ext_skip.induct) simp_all

text \<open>Skipping never passes a live entry, so while one is left it stops at the first one.\<close>

lemma ext_skip_live: "xq_head q \<le> xq_tail q \<Longrightarrow> f \<le> xq_tail q - xq_head q \<Longrightarrow>
    ext_live (ext_skip f q) = ext_live q \<and> xq_head (ext_skip f q) \<le> xq_tail q"
proof (induction f q rule: ext_skip.induct)
  case (2 f q)
  show ?case
  proof (cases "ms_src (xq_slots q (xq_head q)) < 0")
    case True
    with "2.prems" have "ext_live q = ext_live (q\<lparr>xq_head := xq_head q + 1\<rparr>)"
      by (simp add: ext_live_def upt_conv_Cons)
    with True 2 show ?thesis by simp
  next
    case False
    with "2.prems" show ?thesis by simp
  qed
qed simp

lemma ext_skip_stops:
  assumes "xq_head q \<le> xq_tail q" and "ext_live q \<noteq> []"
  shows "0 \<le> ms_src (xq_slots q (xq_head (ext_skip (xq_tail q - xq_head q) q)))"
  using assms
proof (induction "xq_tail q - xq_head q" arbitrary: q)
  case 0
  then show ?case by (simp add: ext_live_def)
next
  case (Suc n)
  show ?case
  proof (cases "ms_src (xq_slots q (xq_head q)) < 0")
    case True
    let ?q = "q\<lparr>xq_head := xq_head q + 1\<rparr>"
    have lv: "ext_live ?q = ext_live q"
      using True Suc.hyps(2) by (simp add: ext_live_def upt_conv_Cons)
    have "0 \<le> ms_src (xq_slots ?q (xq_head (ext_skip (xq_tail ?q - xq_head ?q) ?q)))"
      using Suc.hyps(2) Suc.prems lv by (intro Suc.hyps(1)) auto
    moreover have "xq_tail ?q - xq_head ?q = n" using Suc.hyps(2) by simp
    ultimately show ?thesis using True by (simp flip: Suc.hyps(2))
  next
    case False
    then show ?thesis by (simp flip: Suc.hyps(2))
  qed
qed

lemma ext_release_ok:
  assumes ok: "ext_ok q" and k: "k \<in> set (ext_live q)"
  shows "ext_ok (ext_release q k)"
    and "ext_msgs (ext_release q k) = map (\<lambda>i. msg_of (xq_slots q i)) (filter (\<lambda>i. i \<noteq> k) (ext_live q))"
    and "xq_tail (ext_release q k) \<le> xq_tail q"
proof -
  define q1 where "q1 = q\<lparr>xq_slots := (xq_slots q)(k := (xq_slots q k)\<lparr>ms_src := -1\<rparr>), xq_n := xq_n q - 1\<rparr>"
  have le: "xq_head q1 \<le> xq_tail q1" using ok by (simp add: q1_def ext_ok_def)
  have lv: "ext_live q1 = filter (\<lambda>i. i \<noteq> k) (ext_live q)"
    by (auto simp: q1_def ext_live_def intro!: filter_cong)
  have dist: "distinct (ext_live q)" by (simp add: ext_live_def)
  have len: "xq_n q1 = length (ext_live q1)"
    using ok k dist by (simp add: lv length_filter_neq) (simp add: q1_def ext_ok_def)
  have wf: "\<forall>i. slot_wf (xq_slots q1 i)" using ok by (simp add: q1_def ext_ok_def slot_wf_def)
  have msgs: "map (\<lambda>i. msg_of (xq_slots q1 i)) (filter (\<lambda>i. i \<noteq> k) (ext_live q)) =
      map (\<lambda>i. msg_of (xq_slots q i)) (filter (\<lambda>i. i \<noteq> k) (ext_live q))"
    by (auto simp: q1_def)
  have tail: "xq_tail q1 = xq_tail q" by (simp add: q1_def)
  have rel: "ext_release q k = (if xq_n q1 = 0 then q1\<lparr>xq_head := 0, xq_tail := 0\<rparr>
      else ext_skip (xq_tail q1 - xq_head q1) q1)"
    by (simp only: ext_release_def Let_def q1_def)
  show "xq_tail (ext_release q k) \<le> xq_tail q" by (simp add: rel tail)
  have lv': "ext_live (ext_release q k) = ext_live q1" and
    sl: "xq_slots (ext_release q k) = xq_slots q1"
    using len ext_skip_live [OF le order_refl] by (auto simp: rel ext_live_def)
  show "ext_ok (ext_release q k)"
    using len wf ext_skip_live [OF le order_refl] lv' sl unfolding ext_ok_def
    by (auto simp: rel)
  show "ext_msgs (ext_release q k) = map (\<lambda>i. msg_of (xq_slots q i)) (filter (\<lambda>i. i \<noteq> k) (ext_live q))"
    by (simp add: ext_msgs_def lv' sl lv msgs)
qed

section \<open>A rank's inbound transport\<close>

record rank_box =
  rb_mb :: Mailbox
  rb_stage :: Stage
  rb_ext :: ExtQ

text \<open>
  \<^verbatim>\<open>g_stage_cap\<close>, the extension slots of one rank's share (\<^verbatim>\<open>h->cap\<close>), and whether the
  kernel grants the extension's mapping.
\<close>

record mpi_env =
  env_stage_cap :: nat
  env_ext_cap :: nat
  env_mmap_ok :: bool

datatype mpi_abort = StagingFull

text \<open>The state a critical section sees: is the extension mapped (\<^verbatim>\<open>g_ext_state == 2\<close>), and the box.\<close>

type_synonym tstate = "bool \<times> rank_box"

text \<open>The initial region: \<^verbatim>\<open>create_heap_region\<close> and \<^verbatim>\<open>stage_arena_create\<close> clear everything.\<close>

definition zero_slot :: MessageSlot where
  "zero_slot = \<lparr>ms_src = 0, ms_tag = 0, ms_size = 0, ms_chunk_idx = 0, ms_n_chunks = 0, ms_msg_id = 0,
     ms_sim_send_time = 0, ms_sim_contend_wait = 0, ms_msg_bytes = 0, ms_payload = replicate MAX_MSG_BYTES 0\<rparr>"

definition init_box :: "mpi_env \<Rightarrow> rank_box" where
  "init_box env =
     \<lparr>rb_mb = \<lparr>mb_head = 0, mb_tail = 0, mb_count = 0, mb_consumed = replicate RING_SLOTS False,
               mb_slots = replicate RING_SLOTS zero_slot\<rparr>,
      rb_stage = \<lparr>st_slots = replicate (env_stage_cap env) zero_slot, st_order = replicate (env_stage_cap env) 0,
                  st_n = 0, st_used = replicate (env_stage_cap env) False\<rparr>,
      rb_ext = \<lparr>xq_head = 0, xq_tail = 0, xq_n = 0, xq_slots = (\<lambda>_. zero_slot)\<rparr>\<rparr>"

definition stage_ext_n :: "tstate \<Rightarrow> nat" where
  "stage_ext_n s = (if fst s then xq_n (rb_ext (snd s)) else 0)"

definition stage_ext_push :: "mpi_env \<Rightarrow> tstate \<Rightarrow> MessageSlot \<Rightarrow> mpi_abort + tstate" where
  "stage_ext_push env s m =
     (if \<not> fst s \<and> \<not> env_mmap_ok env then Inl StagingFull
      else case ext_push (env_ext_cap env) (rb_ext (snd s)) m of
             None \<Rightarrow> Inl StagingFull
           | Some q \<Rightarrow> Inr (True, (snd s)\<lparr>rb_ext := q\<rparr>))"

definition stage_push :: "mpi_env \<Rightarrow> tstate \<Rightarrow> MessageSlot \<Rightarrow> mpi_abort + tstate" where
  "stage_push env s m =
     (if env_stage_cap env \<le> st_n (rb_stage (snd s)) \<or> 0 < stage_ext_n s then stage_ext_push env s m
      else Inr (fst s, (snd s)\<lparr>rb_stage := arena_push (rb_stage (snd s)) m\<rparr>))"

definition ring_evict_head :: "mpi_env \<Rightarrow> tstate \<Rightarrow> mpi_abort + tstate" where
  "ring_evict_head env s =
     (let mb = rb_mb (snd s) in
      case stage_push env s (mb_slots mb ! mb_head mb) of
        Inl e \<Rightarrow> Inl e
      | Inr s' \<Rightarrow> Inr (fst s', (snd s')\<lparr>rb_mb := skip_consumed (ring_pop mb)\<rparr>))"

lemma skip_consumed_count: "mb_count (skip_consumed mb) \<le> mb_count mb"
proof (induction mb rule: skip_consumed.induct)
  case (1 mb)
  then show ?case
    by (cases "0 < mb_count mb \<and> mb_consumed mb ! mb_head mb")
      (auto simp: skip_consumed.simps [of mb], simp add: ring_pop_def)
qed

lemma ring_evict_head_count:
  "ring_evict_head env s = Inr s' \<Longrightarrow> 0 < mb_count (rb_mb (snd s)) \<Longrightarrow>
     mb_count (rb_mb (snd s')) < mb_count (rb_mb (snd s))"
  using skip_consumed_count [of "ring_pop (rb_mb (snd s))"]
  by (auto simp: ring_evict_head_def Let_def ring_pop_def split: sum.splits)

text \<open>\<^verbatim>\<open>while (mb->count >= PIMID_MPI_RING_SLOTS) ring_evict_head(mb, dest)\<close>.\<close>

function evict_while_full :: "mpi_env \<Rightarrow> tstate \<Rightarrow> mpi_abort + tstate" where
  "evict_while_full env s =
     (if RING_SLOTS \<le> mb_count (rb_mb (snd s))
      then case ring_evict_head env s of Inl e \<Rightarrow> Inl e | Inr s' \<Rightarrow> evict_while_full env s'
      else Inr s)"
  by pat_completeness auto
termination
proof (relation "measure (\<lambda>(env, s). mb_count (rb_mb (snd s)))")
  fix env s s'
  assume "RING_SLOTS \<le> mb_count (rb_mb (snd s))" "ring_evict_head env s = Inr s'"
  then show "((env, s'), env, s) \<in> measure (\<lambda>(env, s). mb_count (rb_mb (snd s)))"
    using ring_evict_head_count [of env s s'] RING_SLOTS_pos by simp
qed simp

declare evict_while_full.simps [simp del]

text \<open>
  \<^verbatim>\<open>send_chunk\<close> in thread mode, from the locked section on: make room, fill the tail slot,
  publish it. \<open>data\<close> are the \<^verbatim>\<open>size\<close> bytes of the chunk.
\<close>

definition fill_slot ::
  "MessageSlot \<Rightarrow> int \<Rightarrow> int \<Rightarrow> byte list \<Rightarrow> nat \<Rightarrow> nat \<Rightarrow> u32 \<Rightarrow> u64 \<Rightarrow> u64 \<Rightarrow> nat \<Rightarrow> MessageSlot" where
  "fill_slot old src tag data chunk_idx n_chunks msg_id send_time contend_wait msg_bytes =
     \<lparr>ms_src = src, ms_tag = tag, ms_size = length data, ms_chunk_idx = chunk_idx, ms_n_chunks = n_chunks,
      ms_msg_id = msg_id, ms_sim_send_time = send_time, ms_sim_contend_wait = contend_wait,
      ms_msg_bytes = msg_bytes, ms_payload = memcpy_at (ms_payload old) 0 data\<rparr>"

definition send_chunk ::
  "mpi_env \<Rightarrow> tstate \<Rightarrow> int \<Rightarrow> int \<Rightarrow> byte list \<Rightarrow> nat \<Rightarrow> nat \<Rightarrow> u32 \<Rightarrow> u64 \<Rightarrow> u64 \<Rightarrow> nat
     \<Rightarrow> mpi_abort + tstate" where
  "send_chunk env s rank tag data chunk_idx n_chunks msg_id send_time contend_wait msg_bytes =
     (case evict_while_full env s of
        Inl e \<Rightarrow> Inl e
      | Inr s' \<Rightarrow>
          let mb = rb_mb (snd s');
              slot = fill_slot (mb_slots mb ! mb_tail mb) rank tag data chunk_idx n_chunks msg_id
                       send_time contend_wait msg_bytes
          in Inr (fst s', (snd s')\<lparr>rb_mb := ring_put mb slot\<rparr>))"

text \<open>\<^verbatim>\<open>RecvRef\<close>: an arena position, an extension entry \<open>k\<close> as the position \<open>- 1 - k\<close>, or a ring slot.\<close>

record RecvRef =
  rr_staged :: bool
  rr_pos :: int
  rr_ring_idx :: nat

definition wanted :: "int \<Rightarrow> MessageSlot \<Rightarrow> bool" where
  "wanted want_src s = (want_src < 0 \<or> ms_src s = want_src)"

definition stage_find :: "Stage \<Rightarrow> int \<Rightarrow> nat option" where
  "stage_find st want_src = find (\<lambda>k. wanted want_src (st_slots st ! (st_order st ! k))) [0..<st_n st]"

definition stage_ext_find :: "tstate \<Rightarrow> int \<Rightarrow> nat option" where
  "stage_ext_find s want_src =
     (let q = rb_ext (snd s) in
      if \<not> fst s then None
      else find (\<lambda>k. 0 \<le> ms_src (xq_slots q k) \<and> wanted want_src (xq_slots q k)) [xq_head q..<xq_tail q])"

definition ring_find :: "Mailbox \<Rightarrow> int \<Rightarrow> nat option" where
  "ring_find mb want_src =
     find (\<lambda>idx. \<not> mb_consumed mb ! idx \<and> wanted want_src (mb_slots mb ! idx)) (window mb)"

text \<open>
  \<^verbatim>\<open>recv_acquire_thread\<close>: the reference and the slot, or \<open>None\<close> where the code waits for a
  sender. The state it leaves is returned in both cases: messages it moved to staging stay there.
\<close>

function recv_acquire_thread ::
  "mpi_env \<Rightarrow> int \<Rightarrow> tstate \<Rightarrow> mpi_abort + ((RecvRef \<times> MessageSlot) option \<times> tstate)" where
  "recv_acquire_thread env want_src s =
     (let st = rb_stage (snd s); q = rb_ext (snd s); mb = rb_mb (snd s) in
      case stage_find st want_src of
        Some k \<Rightarrow> Inr (Some (\<lparr>rr_staged = True, rr_pos = int k, rr_ring_idx = 0\<rparr>,
                           st_slots st ! (st_order st ! k)), s)
      | None \<Rightarrow>
      (case stage_ext_find s want_src of
        Some k \<Rightarrow> Inr (Some (\<lparr>rr_staged = True, rr_pos = - 1 - int k, rr_ring_idx = 0\<rparr>, xq_slots q k), s)
      | None \<Rightarrow>
      (case ring_find mb want_src of
        Some i \<Rightarrow> Inr (Some (\<lparr>rr_staged = False, rr_pos = - 1, rr_ring_idx = i\<rparr>, mb_slots mb ! i), s)
      | None \<Rightarrow>
        if RING_SLOTS \<le> mb_count mb
        then case ring_evict_head env s of Inl e \<Rightarrow> Inl e | Inr s' \<Rightarrow> recv_acquire_thread env want_src s'
        else Inr (None, s))))"
  by pat_completeness auto
termination
proof (relation "measure (\<lambda>(env, w, s). mb_count (rb_mb (snd s)))", goal_cases)
  case (2 env w s st q mb s')
  then show ?case
    using ring_evict_head_count [of env s s'] RING_SLOTS_pos by simp
qed simp

declare recv_acquire_thread.simps [simp del]

text \<open>\<^verbatim>\<open>recv_release_thread\<close>: give the slot back.\<close>

definition recv_release_thread :: "tstate \<Rightarrow> RecvRef \<Rightarrow> tstate" where
  "recv_release_thread s ref =
     (let rb = snd s in
      if rr_staged ref \<and> rr_pos ref < 0
      then (fst s, rb\<lparr>rb_ext := ext_release (rb_ext rb) (nat (- 1 - rr_pos ref))\<rparr>)
      else if rr_staged ref
      then (fst s, rb\<lparr>rb_stage := arena_release (rb_stage rb) (nat (rr_pos ref))\<rparr>)
      else (fst s, rb\<lparr>rb_mb := ring_release (rb_mb rb) (rr_ring_idx ref)\<rparr>))"

text \<open>One receive under the mutex: acquire, copy the bytes out, release.\<close>

definition recv_take ::
  "mpi_env \<Rightarrow> int \<Rightarrow> tstate \<Rightarrow> mpi_abort + (MessageSlot option \<times> tstate)" where
  "recv_take env want_src s =
     (case recv_acquire_thread env want_src s of
        Inl e \<Rightarrow> Inl e
      | Inr (None, s') \<Rightarrow> Inr (None, s')
      | Inr (Some (ref, slot), s') \<Rightarrow> Inr (Some (msg_of slot), recv_release_thread s' ref))"

section \<open>The box as a list of messages in arrival order\<close>

definition pending :: "tstate \<Rightarrow> MessageSlot list" where
  "pending s = stage_msgs (rb_stage (snd s)) @ ext_msgs (rb_ext (snd s)) @ ring_msgs (rb_mb (snd s))"

definition box_ok :: "mpi_env \<Rightarrow> tstate \<Rightarrow> bool" where
  "box_ok env s =
     (ring_ok (rb_mb (snd s)) \<and> stage_ok (env_stage_cap env) (rb_stage (snd s)) \<and> ext_ok (rb_ext (snd s))
      \<and> (\<not> fst s \<longrightarrow> xq_n (rb_ext (snd s)) = 0) \<and> list_all (\<lambda>m. 0 \<le> ms_src m) (pending s))"

lemma ext_msgs_Nil: "ext_ok q \<Longrightarrow> xq_n q = 0 \<Longrightarrow> ext_msgs q = []"
  by (simp add: ext_ok_def ext_msgs_def)

lemma stage_push_ok:
  assumes ok: "box_ok env s" and m: "slot_wf m" "0 \<le> ms_src m" and push: "stage_push env s m = Inr s'"
  shows "rb_mb (snd s') = rb_mb (snd s)" and "stage_ok (env_stage_cap env) (rb_stage (snd s'))"
    and "ext_ok (rb_ext (snd s'))" and "\<not> fst s' \<longrightarrow> xq_n (rb_ext (snd s')) = 0"
    and "stage_msgs (rb_stage (snd s')) @ ext_msgs (rb_ext (snd s')) =
           stage_msgs (rb_stage (snd s)) @ ext_msgs (rb_ext (snd s)) @ [msg_of m]"
proof -
  let ?full = "env_stage_cap env \<le> st_n (rb_stage (snd s)) \<or> 0 < stage_ext_n s"
  from ok have st: "stage_ok (env_stage_cap env) (rb_stage (snd s))" and ext: "ext_ok (rb_ext (snd s))"
    and unm: "\<not> fst s \<longrightarrow> xq_n (rb_ext (snd s)) = 0"
    by (simp_all add: box_ok_def)
  have "rb_mb (snd s') = rb_mb (snd s) \<and> stage_ok (env_stage_cap env) (rb_stage (snd s'))
    \<and> ext_ok (rb_ext (snd s')) \<and> (\<not> fst s' \<longrightarrow> xq_n (rb_ext (snd s')) = 0)
    \<and> stage_msgs (rb_stage (snd s')) @ ext_msgs (rb_ext (snd s')) =
           stage_msgs (rb_stage (snd s)) @ ext_msgs (rb_ext (snd s)) @ [msg_of m]"
  proof (cases ?full)
    case True
    with push obtain q where q: "ext_push (env_ext_cap env) (rb_ext (snd s)) m = Some q"
      and s': "s' = (True, (snd s)\<lparr>rb_ext := q\<rparr>)"
      by (auto simp: stage_push_def stage_ext_push_def split: if_splits option.splits)
    from ext_push_ok [OF ext m q] st show ?thesis by (simp add: s')
  next
    case False
    then have "xq_n (rb_ext (snd s)) = 0" using unm by (auto simp: stage_ext_n_def)
    with ext have "ext_msgs (rb_ext (snd s)) = []" by (rule ext_msgs_Nil)
    moreover from False push have "s' = (fst s, (snd s)\<lparr>rb_stage := arena_push (rb_stage (snd s)) m\<rparr>)"
      by (auto simp: stage_push_def)
    ultimately show ?thesis using arena_push_ok [OF st _ m(1)] False ext unm by simp
  qed
  then show "rb_mb (snd s') = rb_mb (snd s)" "stage_ok (env_stage_cap env) (rb_stage (snd s'))"
    "ext_ok (rb_ext (snd s'))" "\<not> fst s' \<longrightarrow> xq_n (rb_ext (snd s')) = 0"
    "stage_msgs (rb_stage (snd s')) @ ext_msgs (rb_ext (snd s')) =
           stage_msgs (rb_stage (snd s)) @ ext_msgs (rb_ext (snd s)) @ [msg_of m]"
    by blast+
qed

lemma ring_evict_head_ok:
  assumes ok: "box_ok env s" and cnt: "0 < mb_count (rb_mb (snd s))"
    and ev: "ring_evict_head env s = Inr s'"
  shows "box_ok env s'" and "pending s' = pending s"
proof -
  let ?mb = "rb_mb (snd s)" and ?m = "mb_slots (rb_mb (snd s)) ! mb_head (rb_mb (snd s))"
  have ring: "ring_ok ?mb" using ok by (simp add: box_ok_def)
  note step = ring_evict_step [OF ring cnt]
  obtain t where push: "stage_push env s ?m = Inr t"
    and s': "s' = (fst t, (snd t)\<lparr>rb_mb := skip_consumed (ring_pop ?mb)\<rparr>)"
    using ev by (auto simp: ring_evict_head_def Let_def split: sum.splits)
  have wf: "slot_wf ?m" using ring by (simp add: ring_ok_def list_all_length)
  have rm: "ring_msgs ?mb = msg_of ?m # ring_msgs (skip_consumed (ring_pop ?mb))"
    using step(2,3) by (simp add: ring_msgs_def)
  then have src: "0 \<le> ms_src ?m" using ok by (simp add: box_ok_def pending_def)
  note p = stage_push_ok [OF ok wf src push]
  show pend: "pending s' = pending s" using p(5) by (simp add: pending_def s' rm)
  show "box_ok env s'"
    using p step(1) ok unfolding box_ok_def pend by (simp add: s')
qed

lemma evict_while_full_ok:
  "box_ok env s \<Longrightarrow> evict_while_full env s = Inr s' \<Longrightarrow>
     box_ok env s' \<and> pending s' = pending s \<and> mb_count (rb_mb (snd s')) < RING_SLOTS"
proof (induction env s rule: evict_while_full.induct)
  case (1 env s)
  show ?case
  proof (cases "RING_SLOTS \<le> mb_count (rb_mb (snd s))")
    case True
    then have cnt: "0 < mb_count (rb_mb (snd s))" using RING_SLOTS_pos by linarith
    from True "1.prems"(2) obtain t where ev: "ring_evict_head env s = Inr t"
      and rest: "evict_while_full env t = Inr s'"
      by (auto simp: evict_while_full.simps [of env s] split: sum.splits)
    from "1.IH" [OF True ev _ rest] ring_evict_head_ok [OF "1.prems"(1) cnt ev] show ?thesis
      by simp
  next
    case False
    with 1 show ?thesis by (simp add: evict_while_full.simps [of env s])
  qed
qed

text \<open>The message a call of \<^verbatim>\<open>send_chunk\<close> puts on the wire.\<close>

definition chunk_msg ::
  "int \<Rightarrow> int \<Rightarrow> byte list \<Rightarrow> nat \<Rightarrow> nat \<Rightarrow> u32 \<Rightarrow> u64 \<Rightarrow> u64 \<Rightarrow> nat \<Rightarrow> MessageSlot" where
  "chunk_msg src tag data chunk_idx n_chunks msg_id send_time contend_wait msg_bytes =
     \<lparr>ms_src = src, ms_tag = tag, ms_size = length data, ms_chunk_idx = chunk_idx, ms_n_chunks = n_chunks,
      ms_msg_id = msg_id, ms_sim_send_time = send_time, ms_sim_contend_wait = contend_wait,
      ms_msg_bytes = msg_bytes, ms_payload = data\<rparr>"

lemma send_chunk_ok:
  assumes ok: "box_ok env s" and len: "length data \<le> MAX_MSG_BYTES" and src: "0 \<le> rank"
    and send: "send_chunk env s rank tag data ci nc mid st cw mb = Inr s'"
  shows "box_ok env s'" and "pending s' = pending s @ [chunk_msg rank tag data ci nc mid st cw mb]"
proof -
  obtain t where ev: "evict_while_full env s = Inr t"
    and s': "s' = (fst t, (snd t)\<lparr>rb_mb := ring_put (rb_mb (snd t))
              (fill_slot (mb_slots (rb_mb (snd t)) ! mb_tail (rb_mb (snd t))) rank tag data ci nc mid st cw mb)\<rparr>)"
    using send by (auto simp: send_chunk_def Let_def split: sum.splits)
  let ?mb = "rb_mb (snd t)"
  let ?m = "fill_slot (mb_slots ?mb ! mb_tail ?mb) rank tag data ci nc mid st cw mb"
  from evict_while_full_ok [OF ok ev] have t: "box_ok env t" "pending t = pending s"
    and room: "mb_count ?mb < RING_SLOTS" by blast+
  have ring: "ring_ok ?mb" using t(1) by (simp add: box_ok_def)
  then have "slot_wf (mb_slots ?mb ! mb_tail ?mb)" by (simp add: ring_ok_def list_all_length)
  then have wf: "slot_wf ?m" using len by (simp add: slot_wf_def fill_slot_def)
  have m: "msg_of ?m = chunk_msg rank tag data ci nc mid st cw mb"
    by (simp add: msg_of_def fill_slot_def chunk_msg_def)
  note put = ring_put_ok [OF ring room wf]
  show pend: "pending s' = pending s @ [chunk_msg rank tag data ci nc mid st cw mb]"
    using t(2) put(2) m by (simp add: pending_def s')
  show "box_ok env s'"
    using t put(1) src unfolding box_ok_def pend by (simp add: s' chunk_msg_def)
qed

lemma wanted_msg_of [simp]: "wanted w (msg_of m) = wanted w m"
  by (simp add: wanted_def)

text \<open>The three searches, each as the first match in its part of the pending list.\<close>

lemma stage_msgs_upt:
  "stage_ok cap st \<Longrightarrow> stage_msgs st = map (\<lambda>k. msg_of (st_slots st ! (st_order st ! k))) [0..<st_n st]"
  by (intro nth_equalityI) (auto simp: stage_msgs_def stage_ok_def)

lemma stage_find_msgs:
  "stage_ok cap st \<Longrightarrow> find (wanted w) (stage_msgs st) =
     map_option (\<lambda>k. msg_of (st_slots st ! (st_order st ! k))) (stage_find st w)"
  by (simp add: stage_msgs_upt find_map stage_find_def)

lemma stage_release_msgs:
  assumes ok: "stage_ok cap st" and k: "stage_find st w = Some k"
  shows "stage_ok cap (arena_release st k)"
    and "stage_msgs (arena_release st k) = drop_first (wanted w) (stage_msgs st)"
proof -
  have n: "length (stage_msgs st) = st_n st" using ok by (simp add: stage_msgs_def stage_ok_def)
  have lt: "k < st_n st" using find_SomeD [OF k [unfolded stage_find_def]] by simp
  show "stage_ok cap (arena_release st k)" by (rule arena_release_ok(1) [OF ok lt])
  have "drop_first (wanted w) (stage_msgs st) = take k (stage_msgs st) @ drop (k + 1) (stage_msgs st)"
    using k by (intro drop_first_nth [of "\<lambda>k. wanted w (st_slots st ! (st_order st ! k))"])
      (simp_all add: n stage_find_def, simp add: stage_msgs_upt [OF ok])
  then show "stage_msgs (arena_release st k) = drop_first (wanted w) (stage_msgs st)"
    by (simp add: arena_release_ok(2) [OF ok lt])
qed

lemma ext_find_msgs:
  assumes "ext_ok (rb_ext (snd s))" and "\<not> fst s \<longrightarrow> xq_n (rb_ext (snd s)) = 0"
  shows "find (wanted w) (ext_msgs (rb_ext (snd s))) =
           map_option (\<lambda>k. msg_of (xq_slots (rb_ext (snd s)) k)) (stage_ext_find s w)"
  using assms ext_msgs_Nil [of "rb_ext (snd s)"]
  by (cases "fst s")
    (simp_all add: stage_ext_find_def Let_def ext_msgs_def ext_live_def find_map find_filter)

lemma ext_release_msgs:
  assumes ok: "ext_ok (rb_ext (snd s))" and k: "stage_ext_find s w = Some k"
  shows "ext_ok (ext_release (rb_ext (snd s)) k)"
    and "ext_msgs (ext_release (rb_ext (snd s)) k) = drop_first (wanted w) (ext_msgs (rb_ext (snd s)))"
proof -
  let ?q = "rb_ext (snd s)"
  have f: "find (\<lambda>k. wanted w (xq_slots ?q k)) (ext_live ?q) = Some k"
    using k by (simp add: stage_ext_find_def Let_def ext_live_def find_filter split: if_splits)
  then have lv: "k \<in> set (ext_live ?q)" by (auto dest: find_SomeD)
  show "ext_ok (ext_release ?q k)" by (rule ext_release_ok(1) [OF ok lv])
  have "distinct (ext_live ?q)" by (simp add: ext_live_def)
  from drop_first_distinct [OF this f]
  show "ext_msgs (ext_release ?q k) = drop_first (wanted w) (ext_msgs ?q)"
    unfolding ext_release_ok(2) [OF ok lv] by (simp add: ext_msgs_def drop_first_map)
qed

lemma ring_find_msgs:
  "find (wanted w) (ring_msgs mb) = map_option (\<lambda>i. msg_of (mb_slots mb ! i)) (ring_find mb w)"
  by (simp add: ring_msgs_def live_def ring_find_def find_map find_filter)

lemma ring_release_msgs:
  assumes ok: "ring_ok mb" and i: "ring_find mb w = Some i"
  shows "ring_ok (ring_release mb i)" and "ring_msgs (ring_release mb i) = drop_first (wanted w) (ring_msgs mb)"
proof -
  have f: "find (\<lambda>i. wanted w (mb_slots mb ! i)) (live mb) = Some i"
    using i by (simp add: ring_find_def live_def find_filter)
  then have lv: "i \<in> set (live mb)" by (auto dest: find_SomeD)
  note rel = ring_release_ok [OF ok lv]
  show "ring_ok (ring_release mb i)" by (rule rel(1))
  have "distinct (live mb)" using distinct_window [OF ok] by (simp add: live_def)
  from drop_first_distinct [OF this f]
  show "ring_msgs (ring_release mb i) = drop_first (wanted w) (ring_msgs mb)"
    by (simp add: ring_msgs_def rel(2,3) drop_first_map)
qed

text \<open>
  The searches in the order of \<^verbatim>\<open>recv_acquire_thread\<close> find the first match of the whole
  pending list, and releasing what they found removes exactly that message.
\<close>

definition takes :: "mpi_env \<Rightarrow> int \<Rightarrow> tstate \<Rightarrow> RecvRef \<times> MessageSlot \<Rightarrow> bool" where
  "takes env w s r =
     (find (wanted w) (pending s) = Some (msg_of (snd r))
      \<and> box_ok env (recv_release_thread s (fst r))
      \<and> pending (recv_release_thread s (fst r)) = drop_first (wanted w) (pending s))"

lemma set_drop_first: "set (drop_first P xs) \<subseteq> set xs"
  by (induction xs) auto

lemma list_all_drop_first: "list_all Q xs \<Longrightarrow> list_all Q (drop_first P xs)"
  using set_drop_first by (fastforce simp: list_all_iff)

lemma takes_stage:
  assumes ok: "box_ok env s" and k: "stage_find (rb_stage (snd s)) w = Some k"
  shows "takes env w s (\<lparr>rr_staged = True, rr_pos = int k, rr_ring_idx = 0\<rparr>,
           st_slots (rb_stage (snd s)) ! (st_order (rb_stage (snd s)) ! k))"
proof -
  have st: "stage_ok (env_stage_cap env) (rb_stage (snd s))" using ok by (simp add: box_ok_def)
  note f = stage_find_msgs [OF st, of w] and r = stage_release_msgs [OF st k]
  let ?s = "(fst s, (snd s)\<lparr>rb_stage := arena_release (rb_stage (snd s)) k\<rparr>)"
  have p: "pending ?s = drop_first (wanted w) (pending s)"
    using f k r(2) by (simp add: pending_def drop_first_append)
  have "box_ok env ?s" using ok r(1) unfolding box_ok_def p by (simp add: list_all_drop_first)
  with p f k show ?thesis
    by (simp add: takes_def recv_release_thread_def Let_def pending_def find_append)
qed

lemma takes_ext:
  assumes ok: "box_ok env s" and none: "stage_find (rb_stage (snd s)) w = None"
    and k: "stage_ext_find s w = Some k"
  shows "takes env w s (\<lparr>rr_staged = True, rr_pos = - 1 - int k, rr_ring_idx = 0\<rparr>, xq_slots (rb_ext (snd s)) k)"
proof -
  have st: "stage_ok (env_stage_cap env) (rb_stage (snd s))" and ext: "ext_ok (rb_ext (snd s))"
    and unm: "\<not> fst s \<longrightarrow> xq_n (rb_ext (snd s)) = 0"
    using ok by (simp_all add: box_ok_def)
  have mapped: "fst s" using k by (auto simp: stage_ext_find_def Let_def split: if_splits)
  note f = stage_find_msgs [OF st, of w] ext_find_msgs [OF ext unm, of w]
    and r = ext_release_msgs [OF ext k]
  let ?s = "(fst s, (snd s)\<lparr>rb_ext := ext_release (rb_ext (snd s)) k\<rparr>)"
  have p: "pending ?s = drop_first (wanted w) (pending s)"
    using f k none r(2) by (simp add: pending_def drop_first_append)
  have "box_ok env ?s"
    using ok r(1) mapped unfolding box_ok_def p by (simp add: list_all_drop_first)
  with p f k none show ?thesis
    by (simp add: takes_def recv_release_thread_def Let_def pending_def find_append)
qed

lemma takes_ring:
  assumes ok: "box_ok env s" and none: "stage_find (rb_stage (snd s)) w = None" "stage_ext_find s w = None"
    and i: "ring_find (rb_mb (snd s)) w = Some i"
  shows "takes env w s (\<lparr>rr_staged = False, rr_pos = - 1, rr_ring_idx = i\<rparr>, mb_slots (rb_mb (snd s)) ! i)"
proof -
  have st: "stage_ok (env_stage_cap env) (rb_stage (snd s))" and ext: "ext_ok (rb_ext (snd s))"
    and unm: "\<not> fst s \<longrightarrow> xq_n (rb_ext (snd s)) = 0" and ring: "ring_ok (rb_mb (snd s))"
    using ok by (simp_all add: box_ok_def)
  note f = stage_find_msgs [OF st, of w] ext_find_msgs [OF ext unm, of w] ring_find_msgs [of w "rb_mb (snd s)"]
    and r = ring_release_msgs [OF ring i]
  let ?s = "(fst s, (snd s)\<lparr>rb_mb := ring_release (rb_mb (snd s)) i\<rparr>)"
  have p: "pending ?s = drop_first (wanted w) (pending s)"
    using f i none r(2) by (simp add: pending_def drop_first_append)
  have "box_ok env ?s" using ok r(1) unfolding box_ok_def p by (simp add: list_all_drop_first)
  with p f i none show ?thesis
    by (simp add: takes_def recv_release_thread_def Let_def pending_def find_append)
qed

lemma recv_acquire_ok:
  "box_ok env s \<Longrightarrow> recv_acquire_thread env w s = Inr (r, s') \<Longrightarrow>
     box_ok env s' \<and> pending s' = pending s
     \<and> (case r of None \<Rightarrow> find (wanted w) (pending s) = None | Some rs \<Rightarrow> takes env w s' rs)"
proof (induction env w s rule: recv_acquire_thread.induct)
  case (1 env w s)
  have st: "stage_ok (env_stage_cap env) (rb_stage (snd s))" and ext: "ext_ok (rb_ext (snd s))"
    and unm: "\<not> fst s \<longrightarrow> xq_n (rb_ext (snd s)) = 0"
    using "1.prems"(1) by (simp_all add: box_ok_def)
  note un = recv_acquire_thread.simps [of env w s]
  consider (a) k where "stage_find (rb_stage (snd s)) w = Some k"
    | (b) k where "stage_find (rb_stage (snd s)) w = None" "stage_ext_find s w = Some k"
    | (c) i where "stage_find (rb_stage (snd s)) w = None" "stage_ext_find s w = None"
        "ring_find (rb_mb (snd s)) w = Some i"
    | (d) "stage_find (rb_stage (snd s)) w = None" "stage_ext_find s w = None"
        "ring_find (rb_mb (snd s)) w = None"
    by (metis not_None_eq)
  then show ?case
  proof cases
    case a
    with takes_stage [OF "1.prems"(1) a] "1.prems" show ?thesis by (auto simp: un Let_def)
  next
    case b
    with takes_ext [OF "1.prems"(1) b] "1.prems" show ?thesis by (auto simp: un Let_def)
  next
    case c
    with takes_ring [OF "1.prems"(1) c] "1.prems" show ?thesis by (auto simp: un Let_def)
  next
    case d
    have none: "find (wanted w) (pending s) = None"
      using d by (simp add: pending_def find_append stage_find_msgs [OF st] ext_find_msgs [OF ext unm]
          ring_find_msgs)
    show ?thesis
    proof (cases "RING_SLOTS \<le> mb_count (rb_mb (snd s))")
      case True
      then have cnt: "0 < mb_count (rb_mb (snd s))" using RING_SLOTS_pos by linarith
      from True d "1.prems"(2) obtain t where ev: "ring_evict_head env s = Inr t"
        and rest: "recv_acquire_thread env w t = Inr (r, s')"
        by (auto simp: un Let_def split: sum.splits)
      from ring_evict_head_ok [OF "1.prems"(1) cnt ev] have t: "box_ok env t" "pending t = pending s" .
      from "1.IH" [OF refl refl refl d True ev t(1) rest] t(2) show ?thesis by (cases r) simp_all
    next
      case False
      with d none "1.prems" show ?thesis by (auto simp: un Let_def)
    qed
  qed
qed

lemma recv_take_ok:
  assumes "box_ok env s" and "recv_take env w s = Inr (r, s')"
  shows "box_ok env s' \<and> r = find (wanted w) (pending s) \<and> pending s' = drop_first (wanted w) (pending s)"
  using assms recv_acquire_ok [OF assms(1), of w]
  by (auto simp: recv_take_def takes_def drop_first_None split: sum.splits option.splits)

section \<open>When the transport refuses\<close>

text \<open>
  The only refusal is a message that neither the arena nor the extension can hold. One eviction
  makes room in a full ring, so a free extension slot is always enough.
\<close>

definition ext_room :: "mpi_env \<Rightarrow> tstate \<Rightarrow> bool" where
  "ext_room env s = ((fst s \<or> env_mmap_ok env) \<and> xq_tail (rb_ext (snd s)) < env_ext_cap env)"

lemma stage_push_room: "ext_room env s \<Longrightarrow> \<exists>s'. stage_push env s m = Inr s'"
  by (auto simp: stage_push_def stage_ext_push_def ext_push_def ext_room_def)

lemma ring_evict_head_room: "ext_room env s \<Longrightarrow> \<exists>s'. ring_evict_head env s = Inr s'"
  using stage_push_room [of env s "mb_slots (rb_mb (snd s)) ! mb_head (rb_mb (snd s))"]
  by (auto simp: ring_evict_head_def Let_def)

lemma evicted_not_full:
  assumes "box_ok env s" and "RING_SLOTS \<le> mb_count (rb_mb (snd s))" and "ring_evict_head env s = Inr s'"
  shows "mb_count (rb_mb (snd s')) < RING_SLOTS"
proof -
  have "mb_count (rb_mb (snd s)) \<le> RING_SLOTS" using assms(1) by (simp add: box_ok_def ring_ok_def)
  moreover have "0 < mb_count (rb_mb (snd s))" using assms(2) RING_SLOTS_pos by linarith
  ultimately show ?thesis using ring_evict_head_count [OF assms(3)] by linarith
qed

lemma evict_while_full_room:
  assumes "box_ok env s" and "ext_room env s"
  shows "\<exists>s'. evict_while_full env s = Inr s'"
proof (cases "RING_SLOTS \<le> mb_count (rb_mb (snd s))")
  case True
  obtain t where t: "ring_evict_head env s = Inr t" using ring_evict_head_room [OF assms(2)] by blast
  with evicted_not_full [OF assms(1) True t] True show ?thesis
    by (simp add: evict_while_full.simps [of env s] evict_while_full.simps [of env t])
next
  case False
  then show ?thesis by (simp add: evict_while_full.simps [of env s])
qed

lemma send_chunk_room:
  "box_ok env s \<Longrightarrow> ext_room env s \<Longrightarrow> \<exists>s'. send_chunk env s r tg d ci nc mid st cw mb = Inr s'"
  using evict_while_full_room [of env s] by (auto simp: send_chunk_def Let_def)

lemma recv_acquire_room:
  assumes "box_ok env s" and "ext_room env s"
  shows "\<exists>r. recv_acquire_thread env w s = Inr r"
proof (cases "RING_SLOTS \<le> mb_count (rb_mb (snd s))")
  case True
  obtain t where t: "ring_evict_head env s = Inr t" using ring_evict_head_room [OF assms(2)] by blast
  with evicted_not_full [OF assms(1) True t] show ?thesis
    by (simp add: recv_acquire_thread.simps [of env w s] recv_acquire_thread.simps [of env w t] Let_def
        split: option.splits)
next
  case False
  then show ?thesis by (simp add: recv_acquire_thread.simps [of env w s] Let_def split: option.splits)
qed

lemma recv_take_room:
  "box_ok env s \<Longrightarrow> ext_room env s \<Longrightarrow> \<exists>r s'. recv_take env w s = Inr (r, s')"
  using recv_acquire_room [of env s w] by (auto simp: recv_take_def split: option.splits)

section \<open>The contract of a source-matched mailbox\<close>

text \<open>Senders and the receiver interleave; each step is one critical section.\<close>

datatype 'm box_op = Put 'm | Take int

fun run_ops ::
  "('s \<Rightarrow> 'm \<Rightarrow> 'e + 's) \<Rightarrow> (int \<Rightarrow> 's \<Rightarrow> 'e + ('m option \<times> 's)) \<Rightarrow> 'm box_op list \<Rightarrow> 's
     \<Rightarrow> 'e + ('m list \<times> 's)" where
  "run_ops put tk [] s = Inr ([], s)"
| "run_ops put tk (Put m # ops) s =
     (case put s m of Inl e \<Rightarrow> Inl e | Inr s' \<Rightarrow> run_ops put tk ops s')"
| "run_ops put tk (Take w # ops) s =
     (case tk w s of Inl e \<Rightarrow> Inl e
      | Inr (r, s') \<Rightarrow>
          (case run_ops put tk ops s' of Inl e \<Rightarrow> Inl e
           | Inr (ms, t) \<Rightarrow> Inr ((case r of None \<Rightarrow> ms | Some m \<Rightarrow> m # ms), t)))"

fun puts :: "'m box_op list \<Rightarrow> 'm list" where
  "puts [] = []"
| "puts (Put m # ops) = m # puts ops"
| "puts (Take w # ops) = puts ops"

locale matched_box =
  fixes invar :: "'s \<Rightarrow> bool"
    and contents :: "'s \<Rightarrow> 'm list"
    and src :: "'m \<Rightarrow> int"
    and valid :: "'m \<Rightarrow> bool"
    and put :: "'s \<Rightarrow> 'm \<Rightarrow> 'e + 's"
    and tk :: "int \<Rightarrow> 's \<Rightarrow> 'e + ('m option \<times> 's)"
  assumes put_law: "invar s \<Longrightarrow> valid m \<Longrightarrow> put s m = Inr s' \<Longrightarrow> invar s' \<and> contents s' = contents s @ [m]"
    and tk_law: "invar s \<Longrightarrow> tk w s = Inr (r, s') \<Longrightarrow> invar s'
          \<and> r = find (\<lambda>m. w < 0 \<or> src m = w) (contents s)
          \<and> contents s' = drop_first (\<lambda>m. w < 0 \<or> src m = w) (contents s)"
begin

lemma tk_per_source:
  assumes "invar s" and "tk w s = Inr (r, s')"
  shows "filter (\<lambda>m. src m = j) (case r of None \<Rightarrow> [] | Some m \<Rightarrow> [m])
           @ filter (\<lambda>m. src m = j) (contents s') = filter (\<lambda>m. src m = j) (contents s)"
proof (cases r)
  case None
  with tk_law [OF assms] show ?thesis by (simp add: drop_first_None)
next
  case (Some m)
  let ?P = "\<lambda>m. w < 0 \<or> src m = w"
  from tk_law [OF assms] Some have f: "find ?P (contents s) = Some m"
    and c: "contents s' = drop_first ?P (contents s)" by simp_all
  from find_SomeD [OF f] have m: "?P m" by blast
  show ?thesis
  proof (cases "src m = j")
    case True
    with filter_drop_first_sub [OF f, of "\<lambda>m. src m = j"] m Some c show ?thesis by auto
  next
    case False
    with filter_drop_first [OF f, of "\<lambda>m. src m = j"] Some c show ?thesis by simp
  qed
qed

text \<open>
  Over any interleaving, the messages of one source are received in the order they were sent,
  none lost, none duplicated: what was received, then what is still held, is what was held at
  the start, then what was sent.
\<close>

lemma run_per_source:
  "invar s \<Longrightarrow> list_all valid (puts ops) \<Longrightarrow> run_ops put tk ops s = Inr (ms, t) \<Longrightarrow>
     invar t \<and> filter (\<lambda>m. src m = j) ms @ filter (\<lambda>m. src m = j) (contents t) =
       filter (\<lambda>m. src m = j) (contents s) @ filter (\<lambda>m. src m = j) (puts ops)"
proof (induction ops arbitrary: s ms)
  case Nil
  then show ?case by simp
next
  case (Cons opn ops)
  show ?case
  proof (cases opn)
    case (Put m)
    with Cons.prems obtain s' where s': "put s m = Inr s'" "run_ops put tk ops s' = Inr (ms, t)"
      by (auto split: sum.splits)
    with put_law [OF Cons.prems(1) _ s'(1)] Cons.IH [OF _ _ s'(2)] Cons.prems(2) Put show ?thesis
      by simp
  next
    case (Take w)
    with Cons.prems(3) obtain r s' ms' where tk: "tk w s = Inr (r, s')"
      and rest: "run_ops put tk ops s' = Inr (ms', t)"
      and ms: "ms = (case r of None \<Rightarrow> ms' | Some m \<Rightarrow> m # ms')"
      by (auto split: sum.splits)
    have "invar t \<and> filter (\<lambda>m. src m = j) ms' @ filter (\<lambda>m. src m = j) (contents t) =
         filter (\<lambda>m. src m = j) (contents s') @ filter (\<lambda>m. src m = j) (puts ops)"
      using Cons.IH [OF _ _ rest] tk_law [OF Cons.prems(1) tk] Cons.prems(2) Take by simp
    with tk_per_source [OF Cons.prems(1) tk, of j] ms Take show ?thesis
      by (cases r) (auto split: if_splits)
  qed
qed

end

text \<open>The transport keeps the contract: \<open>Put\<close> is \<^verbatim>\<open>send_chunk\<close>, \<open>Take\<close> one receive.\<close>

definition wire_valid :: "MessageSlot \<Rightarrow> bool" where
  "wire_valid m = (0 \<le> ms_src m \<and> ms_size m = length (ms_payload m) \<and> length (ms_payload m) \<le> MAX_MSG_BYTES)"

definition send_msg :: "mpi_env \<Rightarrow> tstate \<Rightarrow> MessageSlot \<Rightarrow> mpi_abort + tstate" where
  "send_msg env s m =
     send_chunk env s (ms_src m) (ms_tag m) (ms_payload m) (ms_chunk_idx m) (ms_n_chunks m) (ms_msg_id m)
       (ms_sim_send_time m) (ms_sim_contend_wait m) (ms_msg_bytes m)"

lemma chunk_msg_fields:
  "ms_size m = length (ms_payload m) \<Longrightarrow>
     chunk_msg (ms_src m) (ms_tag m) (ms_payload m) (ms_chunk_idx m) (ms_n_chunks m) (ms_msg_id m)
       (ms_sim_send_time m) (ms_sim_contend_wait m) (ms_msg_bytes m) = m"
  by (simp add: chunk_msg_def)

interpretation mpi_box: matched_box "box_ok env" pending ms_src wire_valid "send_msg env" "recv_take env"
  for env
proof
  fix s s' :: tstate and m :: MessageSlot and w r
  show "box_ok env s \<Longrightarrow> wire_valid m \<Longrightarrow> send_msg env s m = Inr s' \<Longrightarrow>
      box_ok env s' \<and> pending s' = pending s @ [m]"
    using send_chunk_ok [of env s "ms_payload m" "ms_src m"]
    by (simp add: send_msg_def wire_valid_def) (metis chunk_msg_fields)
  show "box_ok env s \<Longrightarrow> recv_take env w s = Inr (r, s') \<Longrightarrow> box_ok env s'
      \<and> r = find (\<lambda>m. w < 0 \<or> ms_src m = w) (pending s)
      \<and> pending s' = drop_first (\<lambda>m. w < 0 \<or> ms_src m = w) (pending s)"
    using recv_take_ok [of env s w r s'] by (simp add: wanted_def [abs_def])
qed

lemma init_box_ok: "box_ok env (False, init_box env)" and init_box_pending: "pending (False, init_box env) = []"
  by (auto simp: box_ok_def init_box_def ring_ok_def stage_ok_def ext_ok_def pending_def stage_msgs_def
      ext_msgs_def ring_msgs_def live_def window_def ext_live_def slot_wf_def zero_slot_def list_all_length)

section \<open>Properties\<close>

text \<open>
  C5: thread-mode message passing is first-in first-out per source and loses nothing. From the
  initial region, over any interleaving of \<^verbatim>\<open>send_chunk\<close> by any ranks and source-matched or
  any-source receives by the owner that is not refused, the messages received from a rank
  followed by the ones of that rank still held are exactly the ones it sent, in order: tombstones,
  eviction to the arena and overflow to the extension never reorder, drop or repeat a message.
\<close>

theorem mailbox_per_source_fifo:
  assumes "list_all wire_valid (puts ops)"
    and "run_ops (send_msg env) (recv_take env) ops (False, init_box env) = Inr (received, t)"
  shows "filter (\<lambda>m. ms_src m = j) received @ filter (\<lambda>m. ms_src m = j) (pending t) =
           filter (\<lambda>m. ms_src m = j) (puts ops)"
  using mpi_box.run_per_source [OF init_box_ok assms] by (simp add: init_box_pending)

text \<open>A concrete region: two messages arrive, the later one is asked for first.\<close>

definition sample_env :: mpi_env where
  "sample_env = \<lparr>env_stage_cap = 32, env_ext_cap = 100, env_mmap_ok = True\<rparr>"

definition sample_msg :: "int \<Rightarrow> byte \<Rightarrow> MessageSlot" where
  "sample_msg r b = chunk_msg r 0 [b] 0 1 1 5 0 1"

lemma replicate_16: "replicate 16 x = [x,x,x,x,x,x,x,x,x,x,x,x,x,x,x,x]"
  by (simp add: numeral_eq_Suc)

lemma sample_mailbox_run:
  "\<exists>t. run_ops (send_msg sample_env) (recv_take sample_env)
     [Put (sample_msg 3 7), Put (sample_msg 1 8), Take 1] (False, init_box sample_env)
     = Inr ([sample_msg 1 8], t)"
  by (simp add: send_msg_def send_chunk_def evict_while_full.simps init_box_def sample_env_def sample_msg_def
      chunk_msg_def fill_slot_def ring_put_def RING_SLOTS_def recv_take_def recv_acquire_thread.simps Let_def
      stage_find_def stage_ext_find_def ring_find_def window_def replicate_16 wanted_def msg_of_def memcpy_at_def)

theorem mailbox_per_source_fifo_witness:
  "\<exists>t. run_ops (send_msg sample_env) (recv_take sample_env)
       [Put (sample_msg 3 7), Put (sample_msg 1 8), Take 1] (False, init_box sample_env)
       = Inr ([sample_msg 1 8], t)
     \<and> filter (\<lambda>m. ms_src m = 3) (pending t) = [sample_msg 3 7]"
proof -
  from sample_mailbox_run obtain t where r: "run_ops (send_msg sample_env) (recv_take sample_env)
     [Put (sample_msg 3 7), Put (sample_msg 1 8), Take 1] (False, init_box sample_env)
     = Inr ([sample_msg 1 8], t)" by blast
  have "list_all wire_valid (puts [Put (sample_msg 3 7), Put (sample_msg 1 8), Take 1])"
    by (simp add: wire_valid_def sample_msg_def chunk_msg_def MAX_MSG_BYTES_def)
  from mailbox_per_source_fifo [OF this r, of 3] r show ?thesis
    by (auto simp: sample_msg_def chunk_msg_def)
qed

text \<open>
  C6: a send in thread mode never waits and never fails while the receiver's extension share has
  a free slot: whatever the ring and the arena hold, \<^verbatim>\<open>send_chunk\<close> returns with the invariant
  kept and its message appended to the receiver's pending messages, after all earlier ones.
\<close>

theorem send_chunk_never_blocks:
  assumes "box_ok env s" and "ext_room env s" and "length data \<le> MAX_MSG_BYTES" and "0 \<le> rank"
  shows "\<exists>s'. send_chunk env s rank tag data ci nc mid st cw mb = Inr s' \<and> box_ok env s'
           \<and> pending s' = pending s @ [chunk_msg rank tag data ci nc mid st cw mb]"
proof -
  from send_chunk_room [OF assms(1,2), of rank tag data ci nc mid st cw mb]
  obtain s' where "send_chunk env s rank tag data ci nc mid st cw mb = Inr s'" by auto
  with send_chunk_ok [OF assms(1,3,4) this] show ?thesis by blast
qed

theorem send_chunk_never_blocks_witness:
  "\<exists>s'. send_chunk sample_env (False, init_box sample_env) 2 0 [7] 0 1 1 5 0 1 = Inr s'
     \<and> pending s' = [sample_msg 2 7]"
proof -
  have "ext_room sample_env (False, init_box sample_env)"
    by (simp add: ext_room_def sample_env_def init_box_def)
  from send_chunk_never_blocks [OF init_box_ok this, of "[7]" 2 0 0 1 1 5 0 1] show ?thesis
    by (auto simp: init_box_pending sample_msg_def MAX_MSG_BYTES_def)
qed

text \<open>
  a thread-mode receive takes the earliest pending message of the wanted source (of any
  source for a negative one), wherever it is stored, and removes only that one; it waits exactly
  when no such message is pending, and waiting changes nothing the receiver can see.
\<close>

theorem recv_takes_first_match:
  assumes "box_ok env s" and "ext_room env s"
  shows "\<exists>s'. recv_take env want_src s = Inr (find (wanted want_src) (pending s), s') \<and> box_ok env s'
           \<and> pending s' = drop_first (wanted want_src) (pending s)"
  using recv_take_room [OF assms] recv_take_ok [OF assms(1)] by metis

theorem recv_takes_first_match_witness:
  "\<exists>s s'. send_chunk sample_env (False, init_box sample_env) 2 0 [7] 0 1 1 5 0 1 = Inr s
     \<and> recv_take sample_env 2 s = Inr (Some (sample_msg 2 7), s') \<and> pending s' = []"
proof -
  let ?s0 = "(False, init_box sample_env)"
  obtain s where s: "send_chunk sample_env ?s0 2 0 [7] 0 1 1 5 0 1 = Inr s"
    and room: "ext_room sample_env s"
    by (simp add: send_chunk_def evict_while_full.simps init_box_def sample_env_def ext_room_def
        RING_SLOTS_def Let_def)
  have len: "length [7 :: byte] \<le> MAX_MSG_BYTES" by (simp add: MAX_MSG_BYTES_def)
  have ok: "box_ok sample_env s" and p: "pending s = [sample_msg 2 7]"
    using send_chunk_ok [OF init_box_ok len _ s] by (simp_all add: init_box_pending sample_msg_def)
  from recv_takes_first_match [OF ok room, of 2] s show ?thesis
    by (auto simp: p wanted_def sample_msg_def chunk_msg_def)
qed

end
