(* ===== verification/Mpi_P2P.thy ===== *)
theory Mpi_P2P
  imports Mpi_Net Mpi_Mailbox
begin

text \<open>
  Byte-level point-to-point communication of src/parallel_abstraction/pimid_mpi.cpp in thread
  mode: messages are cut into chunks of at most 64 KB, sent one by one, and joined by the receiver
  in its buffer; an exchange sends and receives chunk by chunk in turn. A rank's program is a
  process of \<open>Mpi_Net\<close> whose messages are chunks without the timing stamps, which the data path
  only carries. Buffers are byte lists; a pointer is an offset into one.
\<close>

section \<open>Chunks\<close>

record Chunk =
  ck_tag :: int
  ck_idx :: nat
  ck_n :: nat
  ck_bytes :: nat
  ck_data :: "byte list"

type_synonym 'a rank_proc = "(Chunk, 'a) proc"

text \<open>\<^verbatim>\<open>chunks_of\<close>; the count is truncated to 32 bits.\<close>

definition chunks_of :: "nat \<Rightarrow> nat" where
  "chunks_of nbytes = (if nbytes = 0 then 1 else ((nbytes + MAX_MSG_BYTES - 1) div MAX_MSG_BYTES) mod 2 ^ 32)"

text \<open>The chunk \<open>i\<close> of \<open>n\<close> that \<^verbatim>\<open>send_chunk_at\<close> sends.\<close>

definition chunk_at :: "int \<Rightarrow> byte list \<Rightarrow> nat \<Rightarrow> nat \<Rightarrow> Chunk" where
  "chunk_at tag data n i =
     (let off = i * MAX_MSG_BYTES;
          left = (if length data > off then length data - off else 0);
          tk = (if left < MAX_MSG_BYTES then left else MAX_MSG_BYTES)
      in \<lparr>ck_tag = tag, ck_idx = i, ck_n = n, ck_bytes = length data, ck_data = take tk (drop off data)\<rparr>)"

definition chunks :: "int \<Rightarrow> byte list \<Rightarrow> Chunk list" where
  "chunks tag data = map (chunk_at tag data (chunks_of (length data))) [0..<chunks_of (length data)]"

text \<open>The largest message whose chunks are counted right: just under 256 TB.\<close>

definition MAX_MESSAGE :: nat where
  "MAX_MESSAGE = (2 ^ 32 - 1) * MAX_MSG_BYTES"

lemma MAX_MSG_BYTES_pos [simp]: "0 < MAX_MSG_BYTES"
  by (simp add: MAX_MSG_BYTES_def)

lemma chunk_at_fields [simp]:
  "ck_tag (chunk_at tag data n i) = tag" "ck_idx (chunk_at tag data n i) = i" "ck_n (chunk_at tag data n i) = n"
  "ck_data (chunk_at tag data n i) = take MAX_MSG_BYTES (drop (i * MAX_MSG_BYTES) data)"
  by (auto simp: chunk_at_def Let_def)

lemma chunks_of_bounds:
  assumes "n \<le> MAX_MESSAGE"
  shows "0 < chunks_of n" "n \<le> chunks_of n * MAX_MSG_BYTES" "i < chunks_of n \<Longrightarrow> i * MAX_MSG_BYTES \<le> n"
proof -
  let ?q = "(n + MAX_MSG_BYTES - 1) div MAX_MSG_BYTES"
  have "n + MAX_MSG_BYTES - 1 < 2 ^ 32 * MAX_MSG_BYTES"
    using assms by (simp add: MAX_MESSAGE_def MAX_MSG_BYTES_def)
  then have "?q < 2 ^ 32" by (simp add: less_mult_imp_div_less)
  then have c: "chunks_of n = (if n = 0 then 1 else ?q)" by (simp add: chunks_of_def)
  show "0 < chunks_of n" using c by (simp add: div_greater_zero_iff MAX_MSG_BYTES_def)
  show "n \<le> chunks_of n * MAX_MSG_BYTES" using c by (simp add: MAX_MSG_BYTES_def) linarith
  show "i * MAX_MSG_BYTES \<le> n" if "i < chunks_of n" using c that by (simp add: MAX_MSG_BYTES_def split: if_splits)
qed

section \<open>Sending and receiving\<close>

text \<open>\<^verbatim>\<open>send_bytes\<close>: nothing for a solo run or a destination that is no rank.\<close>

definition send_bytes :: "nat \<Rightarrow> byte list \<Rightarrow> int \<Rightarrow> int \<Rightarrow> 'a rank_proc \<Rightarrow> 'a rank_proc" where
  "send_bytes P data dest tag k =
     (if P \<le> 1 then k
      else if dest < 0 \<or> int P \<le> dest then k
      else let n = chunks_of (length data)
           in foldr (\<lambda>i p. Snd (nat dest) (chunk_at tag data n i) p) [0..<n] k)"

text \<open>
  \<^verbatim>\<open>recv_chunk_thread\<close>, what it does with a chunk: the bytes that fit go behind those already
  written; the message is done with its last chunk. The state is the buffer, the bytes written
  and the flag.
\<close>

definition recv_chunk :: "nat \<Rightarrow> nat \<Rightarrow> Chunk \<Rightarrow> byte list \<times> nat \<Rightarrow> byte list \<times> nat" where
  "recv_chunk off nbytes c st =
     (let (buf, written) = st;
          space = (if nbytes > written then nbytes - written else 0);
          tk = (if length (ck_data c) < space then length (ck_data c) else space)
      in (memcpy_at buf (off + written) (take tk (ck_data c)), written + tk))"

definition last_chunk :: "Chunk \<Rightarrow> bool" where
  "last_chunk c = (ck_n c \<le> ck_idx c + 1)"

primcorec recv_loop ::
  "nat \<Rightarrow> nat \<Rightarrow> nat \<Rightarrow> byte list \<times> nat \<Rightarrow> (byte list \<Rightarrow> nat \<Rightarrow> 'a rank_proc) \<Rightarrow> 'a rank_proc" where
  "recv_loop s off nbytes st k =
     Rcv s (\<lambda>c. if last_chunk c then k (fst (recv_chunk off nbytes c st)) (snd (recv_chunk off nbytes c st))
               else recv_loop s off nbytes (recv_chunk off nbytes c st) k)"

text \<open>\<^verbatim>\<open>recv_bytes\<close> into \<open>buf\<close> at \<open>off\<close>; the continuation gets the buffer and the bytes received.\<close>

definition recv_bytes ::
  "nat \<Rightarrow> byte list \<Rightarrow> nat \<Rightarrow> nat \<Rightarrow> int \<Rightarrow> (byte list \<Rightarrow> nat \<Rightarrow> 'a rank_proc) \<Rightarrow> 'a rank_proc" where
  "recv_bytes P buf off nbytes source k =
     (if P \<le> 1 then k buf 0
      else if source < 0 \<or> int P \<le> source then k buf 0
      else recv_loop (nat source) off nbytes (buf, 0) k)"

text \<open>
  The loop of \<^verbatim>\<open>xchg_bytes\<close>: send chunk \<open>i\<close> if there is one, then receive one if the message is
  not complete. \<open>turn\<close> tells whether the iteration is before or after its send; \<open>dn\<close> is \<^verbatim>\<open>r.done\<close>.
\<close>

primcorec xchg_loop ::
  "bool \<Rightarrow> nat \<Rightarrow> nat \<Rightarrow> byte list \<Rightarrow> nat \<Rightarrow> nat \<Rightarrow> nat \<Rightarrow> nat \<Rightarrow> byte list \<times> nat \<Rightarrow> bool
     \<Rightarrow> (byte list \<Rightarrow> nat \<Rightarrow> 'a rank_proc) \<Rightarrow> 'a rank_proc" where
  "xchg_loop turn ns dest data s off nbytes i st dn k =
     (if turn \<and> i < ns
      then Snd dest (chunk_at 0 data ns i) (xchg_loop False ns dest data s off nbytes i st dn k)
      else if \<not> dn
      then Rcv s (\<lambda>c. xchg_loop True ns dest data s off nbytes (Suc i) (recv_chunk off nbytes c st) (last_chunk c) k)
      else if \<not> turn \<and> Suc i < ns
      then Snd dest (chunk_at 0 data ns (Suc i)) (xchg_loop False ns dest data s off nbytes (Suc i) st dn k)
      else k (fst st) (snd st))"

definition xchg_bytes ::
  "nat \<Rightarrow> byte list \<Rightarrow> int \<Rightarrow> byte list \<Rightarrow> nat \<Rightarrow> nat \<Rightarrow> int
     \<Rightarrow> (byte list \<Rightarrow> nat \<Rightarrow> 'a rank_proc) \<Rightarrow> 'a rank_proc" where
  "xchg_bytes P sdata dest rbuf off rbytes source k =
     (if P \<le> 1 then k rbuf 0
      else if dest < 0 \<or> int P \<le> dest \<or> source < 0 \<or> int P \<le> source
      then send_bytes P sdata dest 0 (recv_bytes P rbuf off rbytes source k)
      else xchg_loop True (chunks_of (length sdata)) (nat dest) sdata (nat source) off rbytes 0 (rbuf, 0) False k)"

section \<open>Joining the chunks\<close>

lemma memcpy_at_append:
  assumes "off + length xs \<le> length b"
  shows "memcpy_at (memcpy_at b off xs) (off + length xs) ys = memcpy_at b off (xs @ ys)"
proof (cases "xs = []")
  case False
  with assms have "off < length b" by (cases xs) auto
  then show ?thesis using assms by (simp add: memcpy_at_def min_def ac_simps)
qed simp

lemma take_cap: "min a (length xs) = min b (length xs) \<Longrightarrow> take a xs = take b xs"
  by (cases "a \<le> length xs"; cases "b \<le> length xs") (auto simp: min_def)

text \<open>The receiver's state after \<open>j\<close> chunks of \<open>data\<close>.\<close>

definition received :: "nat \<Rightarrow> nat \<Rightarrow> byte list \<Rightarrow> byte list \<Rightarrow> nat \<Rightarrow> byte list \<times> nat" where
  "received off nbytes buf data j =
     (memcpy_at buf off (take (min nbytes (j * MAX_MSG_BYTES)) data),
      length (take (min nbytes (j * MAX_MSG_BYTES)) data))"

lemma take_next_chunk:
  fixes M :: nat
  shows "take (min nb (j * M)) data @
     take (min (length (take M (drop (j * M) data))) (nb - length (take (min nb (j * M)) data))) (take M (drop (j * M) data))
     = take (min nb (Suc j * M)) data"
proof (cases "nb \<le> j * M \<or> length data \<le> j * M")
  case True
  then show ?thesis by (auto simp: min_def)
next
  case False
  then have lt: "j * M < nb" "j * M < length data" by auto
  have "take (min nb (Suc j * M)) data = take (j * M) data @ take (min nb (Suc j * M) - j * M) (drop (j * M) data)"
    using lt by (subst take_add [symmetric]) simp
  moreover have "take (min nb (Suc j * M) - j * M) (drop (j * M) data) =
     take (min (min M (length data - j * M)) (nb - j * M)) (take M (drop (j * M) data))"
    unfolding take_take using lt by (intro take_cap) (auto simp: min_def)
  ultimately show ?thesis using lt by (simp add: min_absorb2 min.commute)
qed

lemma recv_chunk_received:
  assumes "off + nb \<le> length buf"
  shows "recv_chunk off nb (chunk_at tag data n j) (received off nb buf data j) = received off nb buf data (Suc j)"
proof -
  let ?x = "take (min nb (j * MAX_MSG_BYTES)) data"
  let ?c = "take MAX_MSG_BYTES (drop (j * MAX_MSG_BYTES) data)"
  let ?t = "min (length ?c) (nb - length ?x)"
  have "off + length ?x \<le> length buf" using assms by simp
  from memcpy_at_append [OF this, of "take ?t ?c"] take_next_chunk [of nb j MAX_MSG_BYTES data]
  have buf: "memcpy_at (memcpy_at buf off ?x) (off + length ?x) (take ?t ?c) =
      memcpy_at buf off (take (min nb (Suc j * MAX_MSG_BYTES)) data)" by (simp only:)
  have len: "length ?x + ?t = length (take (min nb (Suc j * MAX_MSG_BYTES)) data)"
    using arg_cong [OF take_next_chunk [of nb j MAX_MSG_BYTES data], of length] by (simp only: length_append length_take) simp
  have t: "(let space = if nb > length ?x then nb - length ?x else 0 in
      if length ?c < space then length ?c else space) = ?t" by (simp add: min_def Let_def)
  show ?thesis
    unfolding recv_chunk_def received_def chunk_at_fields prod.case Let_def t [unfolded Let_def] buf len ..
qed

lemma received_0: "received off nb buf data 0 = (buf, 0)"
  by (simp add: received_def)

lemma received_all:
  "length data \<le> n * MAX_MSG_BYTES \<Longrightarrow>
     received off nb buf data n = (memcpy_at buf off (take nb data), min nb (length data))"
  by (auto simp: received_def min_def)

lemma last_chunk_at: "last_chunk (chunk_at tag data n i) = (n \<le> Suc i)"
  by (simp add: last_chunk_def)

lemma recv_loop_step: "recv_loop s off nb st k = Rcv s (\<lambda>c. if last_chunk c
    then k (fst (recv_chunk off nb c st)) (snd (recv_chunk off nb c st)) else recv_loop s off nb (recv_chunk off nb c st) k)"
  by (rule recv_loop.code)

lemma solo_recv_loop:
  assumes "off + nb \<le> length buf" and "length data \<le> n * MAX_MSG_BYTES" and "j < n"
  shows "solo (recv_loop s off nb (received off nb buf data j) k)
     (only s (map (chunk_at tag data n) [j..<n])) (\<lambda>_. []) (k (memcpy_at buf off (take nb data)) (min nb (length data)))"
  using assms(3)
proof (induction "n - j" arbitrary: j)
  case (Suc m)
  let ?c = "chunk_at tag data n j"
  have up: "[j..<n] = j # [Suc j..<n]" using Suc.prems by (rule upt_conv_Cons)
  have ins: "only s (map (chunk_at tag data n) [j..<n]) =
      (only s (map (chunk_at tag data n) [Suc j..<n]))(s := ?c # only s (map (chunk_at tag data n) [Suc j..<n]) s)"
    by (intro ext) (simp add: up)
  have "solo (if last_chunk ?c then k (fst (recv_chunk off nb ?c (received off nb buf data j))) (snd (recv_chunk off nb ?c (received off nb buf data j)))
      else recv_loop s off nb (recv_chunk off nb ?c (received off nb buf data j)) k)
      (only s (map (chunk_at tag data n) [Suc j..<n])) (\<lambda>_. []) (k (memcpy_at buf off (take nb data)) (min nb (length data)))"
  proof (cases "Suc j = n")
    case True
    then show ?thesis
      using received_all [OF assms(2), of off nb buf]
      by (simp add: recv_chunk_received [OF assms(1)] last_chunk_at solo.idle del: only_apply)
  next
    case False
    then show ?thesis
      using Suc by (simp add: recv_chunk_received [OF assms(1)] last_chunk_at del: only_apply)
  qed
  then show ?case unfolding ins by (subst recv_loop_step) (rule solo.recv)
qed simp

lemma solo_send_bytes:
  assumes "1 < P" and "dest < P"
  shows "solo (send_bytes P data (int dest) tag k) (\<lambda>_. []) (only dest (chunks tag data)) k"
  using assms solo_sends [of dest "chunk_at tag data (chunks_of (length data))" "[0..<chunks_of (length data)]" k]
  by (simp add: send_bytes_def Let_def chunks_def del: only_apply)

lemma solo_recv_bytes:
  assumes "1 < P" and "source < P" and "off + nb \<le> length buf" and "length data \<le> MAX_MESSAGE"
  shows "solo (recv_bytes P buf off nb (int source) k) (only source (chunks tag data)) (\<lambda>_. [])
     (k (memcpy_at buf off (take nb data)) (min nb (length data)))"
  using solo_recv_loop [OF assms(3) chunks_of_bounds(2) [OF assms(4)] chunks_of_bounds(1) [OF assms(4)], of source k tag] assms
  by (simp add: recv_bytes_def received_0 chunks_def del: only_apply)

section \<open>An exchange of all ranks\<close>

lemma xchg_loop_step: "xchg_loop turn ns dest data s off nb i st dn k =
   (if turn \<and> i < ns then Snd dest (chunk_at 0 data ns i) (xchg_loop False ns dest data s off nb i st dn k)
    else if \<not> dn then Rcv s (\<lambda>c. xchg_loop True ns dest data s off nb (Suc i) (recv_chunk off nb c st) (last_chunk c) k)
    else if \<not> turn \<and> Suc i < ns
    then Snd dest (chunk_at 0 data ns (Suc i)) (xchg_loop False ns dest data s off nb (Suc i) st dn k)
    else k (fst st) (snd st))"
  by (rule xchg_loop.code)

text \<open>Iteration \<open>c\<close> before its send and after it.\<close>

lemma xchg_done_turn:
  "xchg_loop False ns dest data s off nb i st True k = xchg_loop True ns dest data s off nb (Suc i) st True k"
  by (subst (1 2) xchg_loop_step) simp

lemma xchg_no_send:
  "\<not> i < ns \<Longrightarrow> xchg_loop True ns dest data s off nb i st dn k = xchg_loop False ns dest data s off nb i st dn k"
  by (subst (1 2) xchg_loop_step) simp

lemma xchg_finished: "ns \<le> i \<Longrightarrow> xchg_loop True ns dest data s off nb i st True k = k (fst st) (snd st)"
  by (subst xchg_loop_step) simp

lemma solo_xchg_send:
  "solo (xchg_loop True ns dest data s off nb i st dn k) (\<lambda>_. [])
     (only dest (if i < ns then [chunk_at 0 data ns i] else [])) (xchg_loop False ns dest data s off nb i st dn k)"
proof (cases "i < ns")
  case True
  then show ?thesis by (subst xchg_loop_step) (simp add: solo_snd1 del: only_apply)
next
  case False
  then show ?thesis by (simp add: xchg_no_send solo.idle del: only_apply)
qed

lemma solo_xchg_recv:
  assumes "off + nb \<le> length buf"
  shows "solo (xchg_loop False ns dest data s off nb i (received off nb buf data' (min i m)) (m \<le> i) k)
     (only s (if i < m then [chunk_at 0 data' m i] else [])) (\<lambda>_. [])
     (xchg_loop True ns dest data s off nb (Suc i) (received off nb buf data' (min (Suc i) m)) (m \<le> Suc i) k)"
proof (cases "i < m")
  case True
  let ?f = "\<lambda>c. xchg_loop True ns dest data s off nb (Suc i) (recv_chunk off nb c (received off nb buf data' (min i m))) (last_chunk c) k"
  let ?c = "chunk_at 0 data' m i"
  have "?f ?c = xchg_loop True ns dest data s off nb (Suc i) (received off nb buf data' (min (Suc i) m)) (m \<le> Suc i) k"
    using True recv_chunk_received [OF assms] by (simp add: last_chunk_at min_def)
  then show ?thesis using True solo_rcv1 [of s ?f ?c] by (subst xchg_loop_step) (simp del: only_apply)
next
  case False
  then show ?thesis by (simp add: xchg_done_turn solo.idle min_def del: only_apply)
qed

text \<open>
  Every rank of a set \<open>A\<close> exchanges: \<open>dst\<close> is a permutation of \<open>A\<close> with inverse \<open>src\<close>. However long
  the messages are, the exchange completes, and each rank has in its buffer what its source sent.
\<close>

lemma xchg_all:
  fixes dst src :: "nat \<Rightarrow> nat"
  assumes P: "1 < P"
    and perm: "\<And>i. i \<in> A \<Longrightarrow> i < P \<and> dst i \<in> A \<and> src i \<in> A \<and> src (dst i) = i \<and> dst (src i) = i"
    and room: "\<And>i. i \<in> A \<Longrightarrow> off i + nb i \<le> length (buf i)"
    and small: "\<And>i. i \<in> A \<Longrightarrow> length (sd i) \<le> MAX_MESSAGE"
    and empty: "\<And>i. i \<in> A \<Longrightarrow> ch (src i) i = []"
  shows "(net_step P)\<^sup>*\<^sup>*
     (\<lambda>i. if i \<in> A then xchg_bytes P (sd i) (int (dst i)) (buf i) (off i) (nb i) (int (src i)) (k i) else z i, ch)
     (\<lambda>i. if i \<in> A then k i (memcpy_at (buf i) (off i) (take (nb i) (sd (src i)))) (min (nb i) (length (sd (src i)))) else z i, ch)"
proof -
  let ?n = "\<lambda>i. chunks_of (length (sd i))" and ?m = "\<lambda>i. chunks_of (length (sd (src i)))"
  let ?L = "\<lambda>t c i. xchg_loop t (?n i) (dst i) (sd i) (src i) (off i) (nb i) c
     (received (off i) (nb i) (buf i) (sd (src i)) (min c (?m i))) (?m i \<le> c) (k i)"
  let ?X = "\<lambda>c i. if i \<in> A then ?L True c i else z i"
  let ?Y = "\<lambda>c i. if i \<in> A then ?L False c i else z i"
  let ?msg = "\<lambda>c i. if i \<in> A \<and> c < ?n i then [chunk_at 0 (sd i) (?n i) c] else []"
  have "(net_step P)\<^sup>*\<^sup>* (?X c, ch) (?X (Suc c), ch)" for c
  proof -
    let ?ch = "\<lambda>s d. ch s d @ (if s < P then only (dst s) (?msg c s) d else [])"
    have send_i: "solo (?X c i) (\<lambda>_. []) (only (dst i) (?msg c i)) (?Y c i)" for i
    proof (cases "i \<in> A")
      case True
      then have "?msg c i = (if c < ?n i then [chunk_at 0 (sd i) (?n i) c] else [])" by simp
      then show ?thesis using True solo_xchg_send by (simp only: if_True)
    qed (simp add: solo.idle del: only_apply)
    have outside: "i \<notin> A" if "P \<le> i" for i using perm [of i] that by auto
    have send: "(net_step P)\<^sup>*\<^sup>* (?X c, ch) (?Y c, ?ch)"
    proof (rule all_solo [where ins = "\<lambda>_ _. []"])
      show "solo (?X c i) (\<lambda>s. []) (\<lambda>d. only (dst i) (?msg c i) d) (?Y c i)" if "i < P" for i
        using send_i by (simp only:)
      show "?X c i = ?Y c i" if "P \<le> i" for i using outside [OF that] by simp
    qed simp
    have recv_i: "solo (?Y c i) (only (src i) (if i \<in> A then ?msg c (src i) else [])) (\<lambda>_. []) (?X (Suc c) i)" if "i < P" for i
    proof (cases "i \<in> A")
      case True
      then have "(if i \<in> A then ?msg c (src i) else []) = (if c < ?m i then [chunk_at 0 (sd (src i)) (?m i) c] else [])"
        using perm by simp
      then show ?thesis using True solo_xchg_recv [OF room [OF True]] by (simp only: if_True)
    qed (simp add: solo.idle del: only_apply)
    have "(net_step P)\<^sup>*\<^sup>* (?Y c, ?ch) (?X (Suc c), \<lambda>s d. ch s d @ (if s < P then (\<lambda>_. []) d else []))"
    proof (rule all_solo [where ins = "\<lambda>s d. only (src d) (if d \<in> A then ?msg c (src d) else []) s"])
      show "solo (?Y c i) (\<lambda>s. only (src i) (if i \<in> A then ?msg c (src i) else []) s) (\<lambda>_. []) (?X (Suc c) i)" if "i < P" for i
        using recv_i [OF that] by (simp only:)
    next
      show "?Y c i = ?X (Suc c) i" if "P \<le> i" for i using outside [OF that] by simp
    next
      show "?ch s d = (if d < P then only (src d) (if d \<in> A then ?msg c (src d) else []) s else []) @ ch s d" for s d
        using perm empty by (cases "s \<in> A"; cases "d \<in> A") (auto, (metis+)?)
    qed
    with send show ?thesis by simp
  qed
  then have upto: "(net_step P)\<^sup>*\<^sup>* (?X 0, ch) (?X c, ch)" for c
    by (induction c) (auto intro: rtranclp_trans)
  define N where "N = (\<Sum>i<P. ?n i)"
  have N: "?n i \<le> N" if "i < P" for i
    unfolding N_def using that by (intro member_le_sum) auto
  have "?X N = (\<lambda>i. if i \<in> A then k i (memcpy_at (buf i) (off i) (take (nb i) (sd (src i)))) (min (nb i) (length (sd (src i)))) else z i)"
  proof
    fix i
    show "?X N i = (if i \<in> A then k i (memcpy_at (buf i) (off i) (take (nb i) (sd (src i)))) (min (nb i) (length (sd (src i)))) else z i)"
    proof (cases "i \<in> A")
      case True
      then have "?n i \<le> N" "?m i \<le> N" using perm N by auto
      then show ?thesis
        using True received_all [OF chunks_of_bounds(2) [OF small]] perm
        by (simp add: xchg_finished min_absorb2)
    qed simp
  qed
  moreover have "?X 0 = (\<lambda>i. if i \<in> A then xchg_bytes P (sd i) (int (dst i)) (buf i) (off i) (nb i) (int (src i)) (k i) else z i)"
  proof
    fix i
    show "?X 0 i = (if i \<in> A then xchg_bytes P (sd i) (int (dst i)) (buf i) (off i) (nb i) (int (src i)) (k i) else z i)"
    proof (cases "i \<in> A")
      case True
      then have "0 < ?m i" "dst i < P" "src i < P" using perm small chunks_of_bounds(1) by blast+
      then show ?thesis using True P by (simp add: xchg_bytes_def received_0)
    qed simp
  qed
  ultimately show ?thesis using upto [of N] by simp
qed

end
