(* ===== verification/Mpi_Reduction.thy ===== *)
theory Mpi_Reduction
  imports Mpi_Mailbox
begin

text \<open>
  The reduction operations of src/parallel_abstraction/pimid_mpi.cpp: the decoding of datatype and
  operation handles (MPICH's and those of pimid_mpi.h), and \<^verbatim>\<open>reduce_local\<close>, which combines two
  buffers element by element. \<^verbatim>\<open>abort()\<close> is \<open>None\<close>. Integers have their width; signed sums and products
  wrap, as the generated code does. The arithmetic of \<^verbatim>\<open>float\<close> and \<^verbatim>\<open>double\<close> on bit patterns is an argument.
\<close>

section \<open>Handles\<close>

definition dtype_size :: "u32 \<Rightarrow> nat option" where
  "dtype_size dt =
     (if dt \<in> {1, 8} then Some 1
      else if dt \<in> {2, 6, 3} then Some 4
      else if dt \<in> {4, 5, 7, 9} then Some 8
      else if dt AND 0xfc000000 = 0x4c000000 \<and> 0 < unat (drop_bit 8 dt AND 0xff) then Some (unat (drop_bit 8 dt AND 0xff))
      else None)"

datatype RedOp = RO_SUM | RO_PROD | RO_MAX | RO_MIN | RO_LAND | RO_LOR | RO_LXOR | RO_BAND | RO_BOR | RO_BXOR

datatype RedType = RT_I8 | RT_U8 | RT_I16 | RT_U16 | RT_I32 | RT_U32 | RT_I64 | RT_U64 | RT_F32 | RT_F64

definition red_op :: "u32 \<Rightarrow> RedOp option" where
  "red_op op = map_of
     [(1, RO_SUM), (2, RO_MAX), (3, RO_MIN), (4, RO_PROD), (5, RO_LAND), (6, RO_LOR), (7, RO_BAND), (8, RO_BOR),
      (0x58000001, RO_MAX), (0x58000002, RO_MIN), (0x58000003, RO_SUM), (0x58000004, RO_PROD),
      (0x58000005, RO_LAND), (0x58000006, RO_BAND), (0x58000007, RO_LOR), (0x58000008, RO_BOR),
      (0x58000009, RO_LXOR), (0x5800000a, RO_BXOR)] op"

definition red_table :: "(u32 \<times> RedType) list" where
  "red_table =
     [(1, RT_I8), (2, RT_I32), (3, RT_F32), (4, RT_F64), (5, RT_I64), (6, RT_U32), (7, RT_U64), (8, RT_U8), (9, RT_I64),
      (0x4c000101, RT_I8), (0x4c000118, RT_I8), (0x4c000137, RT_I8),
      (0x4c000102, RT_U8), (0x4c00010d, RT_U8), (0x4c00013b, RT_U8), (0x4c00013f, RT_U8),
      (0x4c000203, RT_I16), (0x4c000238, RT_I16), (0x4c000204, RT_U16), (0x4c00023c, RT_U16),
      (0x4c000405, RT_I32), (0x4c000439, RT_I32), (0x4c000406, RT_U32), (0x4c00043d, RT_U32),
      (0x4c000807, RT_I64), (0x4c000809, RT_I64), (0x4c00083a, RT_I64),
      (0x4c000808, RT_U64), (0x4c000819, RT_U64), (0x4c00083e, RT_U64),
      (0x4c00040a, RT_F32), (0x4c00080b, RT_F64)]"

definition red_type :: "u32 \<Rightarrow> RedType option" where
  "red_type dt = map_of red_table dt"

fun red_width :: "RedType \<Rightarrow> nat" where
  "red_width RT_I8 = 1" | "red_width RT_U8 = 1" | "red_width RT_I16 = 2" | "red_width RT_U16 = 2"
| "red_width RT_I32 = 4" | "red_width RT_U32 = 4" | "red_width RT_I64 = 8" | "red_width RT_U64 = 8"
| "red_width RT_F32 = 4" | "red_width RT_F64 = 8"

lemma red_type_width: "red_type dt = Some ty \<Longrightarrow> dtype_size dt = Some (red_width ty)"
proof -
  assume "red_type dt = Some ty"
  then have "(dt, ty) \<in> set red_table" by (simp add: red_type_def map_of_SomeD)
  moreover have "\<forall>(d, t)\<in>set red_table. dtype_size d = Some (red_width t)"
    by (simp add: red_table_def dtype_size_def)
  ultimately show ?thesis by auto
qed

text \<open>
  The two decodings agree: every datatype handle that can be reduced has a size, and it is the
  width of the element type the reduction works on, for the handles of both headers.
\<close>

theorem red_type_sized:
  assumes "red_type dt = Some ty"
  shows "dtype_size dt = Some (red_width ty)"
  using assms by (rule red_type_width)

theorem red_type_sized_witness: "red_type 0x4c000405 = Some RT_I32 \<and> dtype_size 0x4c000405 = Some 4"
proof -
  have "red_type 0x4c000405 = Some RT_I32" by (simp add: red_type_def red_table_def)
  with red_type_sized [OF this] show ?thesis by simp
qed

section \<open>Combining elements\<close>

text \<open>\<open>sg\<close>: the comparisons of \<^verbatim>\<open>RO_MAX\<close> and \<^verbatim>\<open>RO_MIN\<close> are signed.\<close>

definition less_t :: "bool \<Rightarrow> 'w::len word \<Rightarrow> 'w word \<Rightarrow> bool" where
  "less_t sg a b = (if sg then a <s b else a < b)"

definition of_b :: "bool \<Rightarrow> 'w::len word" where
  "of_b b = (if b then 1 else 0)"

fun red_int :: "bool \<Rightarrow> RedOp \<Rightarrow> 'w::len word \<Rightarrow> 'w word \<Rightarrow> 'w word" where
  "red_int sg RO_SUM a b = a + b"
| "red_int sg RO_PROD a b = a * b"
| "red_int sg RO_MAX a b = (if less_t sg b a then a else b)"
| "red_int sg RO_MIN a b = (if less_t sg a b then a else b)"
| "red_int sg RO_LAND a b = of_b (a \<noteq> 0 \<and> b \<noteq> 0)"
| "red_int sg RO_LOR a b = of_b (a \<noteq> 0 \<or> b \<noteq> 0)"
| "red_int sg RO_LXOR a b = of_b ((a \<noteq> 0) \<noteq> (b \<noteq> 0))"
| "red_int sg RO_BAND a b = a AND b"
| "red_int sg RO_BOR a b = a OR b"
| "red_int sg RO_BXOR a b = a XOR b"

definition elem_size :: "'w::len itself \<Rightarrow> nat" where
  "elem_size t = LENGTH('w) div 8"

definition load :: "byte list \<Rightarrow> nat \<Rightarrow> 'w::len word" where
  "load bs i = word_of_nat (le_nat (take (elem_size TYPE('w)) (drop (i * elem_size TYPE('w)) bs)))"

definition store :: "'w::len word \<Rightarrow> byte list" where
  "store w = le_bytes (elem_size TYPE('w)) (unat w)"

text \<open>The loop over \<open>n\<close> elements; what follows them in \<open>io\<close> stays.\<close>

definition red_elems :: "('w::len word \<Rightarrow> 'w word \<Rightarrow> 'w word) \<Rightarrow> nat \<Rightarrow> byte list \<Rightarrow> byte list \<Rightarrow> byte list" where
  "red_elems f n inb io =
     concat (map (\<lambda>i. store (f (load inb i) (load io i))) [0..<n]) @ drop (n * elem_size TYPE('w)) io"

text \<open>Arithmetic of the two floating-point types, by operation.\<close>

record float_arith =
  fa32 :: "RedOp \<Rightarrow> u32 \<Rightarrow> u32 \<Rightarrow> u32"
  fa64 :: "RedOp \<Rightarrow> u64 \<Rightarrow> u64 \<Rightarrow> u64"

definition bitwise :: "RedOp \<Rightarrow> bool" where
  "bitwise ro \<longleftrightarrow> ro = RO_BAND \<or> ro = RO_BOR \<or> ro = RO_BXOR"

definition reduce_local :: "float_arith \<Rightarrow> byte list \<Rightarrow> byte list \<Rightarrow> nat \<Rightarrow> u32 \<Rightarrow> u32 \<Rightarrow> byte list option" where
  "reduce_local fa inb io n dt op =
     (case red_op op of None \<Rightarrow> None
      | Some ro \<Rightarrow> (case red_type dt of None \<Rightarrow> None
          | Some ty \<Rightarrow>
             (case ty of
                RT_I8 \<Rightarrow> Some (red_elems (red_int True ro :: 8 word \<Rightarrow> _) n inb io)
              | RT_U8 \<Rightarrow> Some (red_elems (red_int False ro :: 8 word \<Rightarrow> _) n inb io)
              | RT_I16 \<Rightarrow> Some (red_elems (red_int True ro :: 16 word \<Rightarrow> _) n inb io)
              | RT_U16 \<Rightarrow> Some (red_elems (red_int False ro :: 16 word \<Rightarrow> _) n inb io)
              | RT_I32 \<Rightarrow> Some (red_elems (red_int True ro :: 32 word \<Rightarrow> _) n inb io)
              | RT_U32 \<Rightarrow> Some (red_elems (red_int False ro :: 32 word \<Rightarrow> _) n inb io)
              | RT_I64 \<Rightarrow> Some (red_elems (red_int True ro :: 64 word \<Rightarrow> _) n inb io)
              | RT_U64 \<Rightarrow> Some (red_elems (red_int False ro :: 64 word \<Rightarrow> _) n inb io)
              | RT_F32 \<Rightarrow> if bitwise ro then None else Some (red_elems (fa32 fa ro) n inb io)
              | RT_F64 \<Rightarrow> if bitwise ro then None else Some (red_elems (fa64 fa ro) n inb io))))"

section \<open>Elements and bytes\<close>

definition encode :: "'w::len word list \<Rightarrow> byte list" where
  "encode ws = concat (map store ws)"

lemma length_store [simp]: "length (store (w :: 'w::len word)) = elem_size TYPE('w)"
  by (simp add: store_def)

lemma length_encode [simp]: "length (encode (ws :: 'w::len word list)) = length ws * elem_size TYPE('w)"
  by (induction ws) (simp_all add: encode_def)

definition byte_sized :: "'w::len itself \<Rightarrow> bool" where
  "byte_sized t \<longleftrightarrow> 8 * elem_size TYPE('w) = LENGTH('w)"

lemma byte_sized_types [simp]: "byte_sized TYPE(8)" "byte_sized TYPE(16)" "byte_sized TYPE(32)" "byte_sized TYPE(64)"
  by (simp_all add: byte_sized_def elem_size_def)

lemma load_store: "byte_sized TYPE('w) \<Longrightarrow> load (store (w :: 'w::len word) @ bs) 0 = w"
proof -
  assume "byte_sized TYPE('w)"
  then have "(256 :: nat) ^ elem_size TYPE('w) = 2 ^ LENGTH('w)"
    using power_mult [of "2 :: nat" 8 "elem_size TYPE('w)"] by (simp add: byte_sized_def)
  moreover have "unat w < 2 ^ LENGTH('w)" by (rule unsigned_less)
  ultimately show ?thesis by (simp add: load_def store_def le_nat_le_bytes)
qed

lemma load_drop: "load (bs :: byte list) (Suc i) = (load (drop (elem_size TYPE('w)) bs) i :: 'w::len word)"
  by (simp add: load_def add.commute)

lemma load_encode:
  assumes "byte_sized TYPE('w::len)" and "i < length ws"
  shows "load (encode ws @ bs) i = (ws ! i :: 'w word)"
  using assms(2)
proof (induction ws arbitrary: i)
  case (Cons w ws)
  show ?case
  proof (cases i)
    case 0
    then show ?thesis using load_store [OF assms(1), of w "encode ws @ bs"] by (simp add: encode_def)
  next
    case (Suc j)
    have "drop (elem_size TYPE('w)) (encode (w # ws) @ bs) = encode ws @ bs" by (simp add: encode_def)
    then show ?thesis using Cons Suc by (simp add: load_drop)
  qed
qed simp

lemma red_elems_encode:
  assumes "byte_sized TYPE('w::len)" and "length xs = n" and "length ys = n"
  shows "red_elems f n (encode xs) (encode ys) = encode (map2 f xs (ys :: 'w word list))"
proof -
  have "load (encode xs) i = xs ! i" "load (encode ys) i = ys ! i" if "i < n" for i
    using load_encode [OF assms(1), of i xs "[]"] load_encode [OF assms(1), of i ys "[]"] assms(2,3) that by simp_all
  then have "map (\<lambda>i. store (f (load (encode xs) i) (load (encode ys) i))) [0..<n] = map store (map2 f xs ys)"
    using assms(2,3) by (intro nth_equalityI) auto
  then show ?thesis using assms(3) by (simp add: red_elems_def encode_def [of "map2 f xs ys"])
qed

text \<open>
  The bytes of a buffer are the encoding of its elements, so \<^verbatim>\<open>reduce_local\<close> on buffers is the
  operation on elements.
\<close>

definition decode :: "nat \<Rightarrow> byte list \<Rightarrow> 'w::len word list" where
  "decode cnt bs = map (load bs) [0..<cnt]"

lemma store_load:
  assumes "byte_sized TYPE('w::len)" and "length bs = elem_size TYPE('w)"
  shows "store (word_of_nat (le_nat bs) :: 'w word) = bs"
proof -
  have "(256 :: nat) ^ elem_size TYPE('w) = 2 ^ LENGTH('w)"
    using assms(1) power_mult [of "2 :: nat" 8 "elem_size TYPE('w)"] by (simp add: byte_sized_def)
  then have "le_nat bs < 2 ^ LENGTH('w)" using le_nat_less [of bs] assms(2) by simp
  then show ?thesis using assms(2) le_bytes_le_nat [of bs] by (simp add: store_def unat_of_nat)
qed

lemma encode_decode:
  assumes "byte_sized TYPE('w::len)" and "length bs = cnt * elem_size TYPE('w)"
  shows "encode (decode cnt bs :: 'w word list) = bs"
  using assms(2)
proof (induction cnt arbitrary: bs)
  case (Suc cnt)
  let ?e = "elem_size TYPE('w)"
  have "decode (Suc cnt) bs = (load bs 0 :: 'w word) # decode cnt (drop ?e bs)"
    by (simp add: decode_def load_drop upt_conv_Cons map_Suc_upt [symmetric] del: upt_Suc)
  moreover have "store (load bs 0 :: 'w word) = take ?e bs"
    using store_load [OF assms(1), of "take ?e bs"] Suc.prems by (simp add: load_def)
  ultimately show ?case using Suc.IH [of "drop ?e bs"] Suc.prems by (simp add: encode_def)
qed (simp add: decode_def encode_def)

section \<open>Reductions in any order\<close>

text \<open>
  What the collective algorithms need of an operation: the order in which partial results are
  combined does not matter. \<open>total v S\<close> is the combination of the values of a set of ranks.
\<close>

definition opt_comb :: "('a \<Rightarrow> 'a \<Rightarrow> 'a) \<Rightarrow> 'a option \<Rightarrow> 'a option \<Rightarrow> 'a option" where
  "opt_comb f x y = (case (x, y) of (None, _) \<Rightarrow> y | (_, None) \<Rightarrow> x | (Some a, Some b) \<Rightarrow> Some (f a b))"

locale reduction =
  fixes f :: "'a \<Rightarrow> 'a \<Rightarrow> 'a"
  assumes assoc: "f (f a b) c = f a (f b c)"
    and comm: "f a b = f b a"
begin

sublocale opt: comm_monoid_set "opt_comb f" None
proof
  show "opt_comb f (opt_comb f x y) z = opt_comb f x (opt_comb f y z)" for x y z
    by (auto simp: opt_comb_def assoc split: option.splits)
  show "opt_comb f x y = opt_comb f y x" for x y
    by (auto simp: opt_comb_def comm split: option.splits)
  show "opt_comb f x None = x" for x
    by (simp add: opt_comb_def split: option.split)
qed

definition total :: "(nat \<Rightarrow> 'a) \<Rightarrow> nat set \<Rightarrow> 'a" where
  "total v S = the (opt.F (\<lambda>i. Some (v i)) S)"

lemma F_Some: "finite S \<Longrightarrow> S \<noteq> {} \<Longrightarrow> opt.F (\<lambda>i. Some (v i)) S \<noteq> None"
proof (induction S rule: finite_induct)
  case (insert x S)
  then show ?case by (auto simp: opt_comb_def split: option.splits)
qed simp

lemma total_single [simp]: "total v {i} = v i"
  by (simp add: total_def opt_comb_def)

lemma total_union:
  assumes "finite S" and "finite T" and "S \<noteq> {}" and "T \<noteq> {}" and "S \<inter> T = {}"
  shows "f (total v S) (total v T) = total v (S \<union> T)"
proof -
  obtain a b where "opt.F (\<lambda>i. Some (v i)) S = Some a" "opt.F (\<lambda>i. Some (v i)) T = Some b"
    using F_Some [OF assms(1,3)] F_Some [OF assms(2,4)] by fastforce
  moreover have "opt.F (\<lambda>i. Some (v i)) (S \<union> T) = opt_comb f (opt.F (\<lambda>i. Some (v i)) S) (opt.F (\<lambda>i. Some (v i)) T)"
    by (rule opt.union_disjoint [OF assms(1,2,5)])
  ultimately show ?thesis by (simp add: total_def opt_comb_def)
qed

text \<open>The total over the first ranks is the fold in rank order.\<close>

lemma total_upto: "total v {..n} = foldl f (v 0) (map v [1..<Suc n])"
proof (induction n)
  case (Suc n)
  have "{..Suc n} = {..n} \<union> {Suc n}" by auto
  moreover have "f (total v {..n}) (total v {Suc n}) = total v ({..n} \<union> {Suc n})" by (rule total_union) auto
  ultimately show ?case using Suc by simp
qed simp

end

text \<open>Both orders compare an injective integer key.\<close>

definition order_key :: "bool \<Rightarrow> 'w::len word \<Rightarrow> int" where
  "order_key sg a = (if sg then sint a else uint a)"

lemma less_t_key: "less_t sg a b \<longleftrightarrow> order_key sg a < order_key sg b"
  by (simp add: less_t_def order_key_def word_sless_alt word_less_def)

lemma order_key_inj: "order_key sg a = order_key sg b \<longleftrightarrow> a = b"
  by (auto simp: order_key_def signed_word_eqI dest: unsigned_word_eqI)

lemma of_b_zero [simp]: "of_b b = 0 \<longleftrightarrow> \<not> b"
  by (simp add: of_b_def)

lemma red_int_comm: "red_int sg ro a b = red_int sg ro b a"
proof (cases ro)
  case RO_MAX
  then show ?thesis using order_key_inj [of sg a b] by (auto simp: less_t_key)
next
  case RO_MIN
  then show ?thesis using order_key_inj [of sg a b] by (auto simp: less_t_key)
qed (auto simp: add.commute mult.commute and.commute or.commute xor.commute of_b_def)

lemma red_int_assoc: "red_int sg ro (red_int sg ro a b) c = red_int sg ro a (red_int sg ro b c)"
proof (cases ro)
  case RO_MAX
  then show ?thesis using order_key_inj [of sg a b] order_key_inj [of sg b c] order_key_inj [of sg a c]
    by (auto simp: less_t_key)
next
  case RO_MIN
  then show ?thesis using order_key_inj [of sg a b] order_key_inj [of sg b c] order_key_inj [of sg a c]
    by (auto simp: less_t_key)
qed (auto simp: add.assoc mult.assoc and.assoc or.assoc xor.assoc of_b_def)

interpretation ri: reduction "red_int sg ro" for sg ro
  by unfold_locales (rule red_int_assoc, rule red_int_comm)

text \<open>Element by element on lists.\<close>

lemma map2_comm: "(\<And>a b. f a b = f b a) \<Longrightarrow> map2 f xs ys = map2 f ys xs"
  by (auto simp: list_eq_iff_nth_eq)

lemma map2_assoc: "(\<And>a b c. f (f a b) c = f a (f b c)) \<Longrightarrow> map2 f (map2 f xs ys) zs = map2 f xs (map2 f ys zs)"
  by (auto simp: list_eq_iff_nth_eq)

interpretation rl: reduction "map2 (red_int sg ro)" for sg ro
  by unfold_locales (rule map2_assoc, rule red_int_assoc, rule map2_comm, rule red_int_comm)

end
