(* ===== verification/Mpi_Allreduce.thy ===== *)
theory Mpi_Allreduce
  imports Mpi_P2P Mpi_Reduction
begin

text \<open>
  \<^verbatim>\<open>MPI_Allreduce\<close> of src/parallel_abstraction/pimid_mpi.cpp: ranks beyond the largest power of two are
  folded into their neighbours, the survivors combine their results by recursive doubling (short
  vectors) or by Rabenseifner's reduce-scatter and allgather (long ones), and the folded ranks get
  the result back. A mask is given by its exponent. The scratch buffer is an argument, since its first
  contents are unspecified; \<open>ab\<close> is where a rank goes that calls \<^verbatim>\<open>abort()\<close>.
\<close>

section \<open>The algorithm\<close>

function pof2_loop :: "nat \<Rightarrow> nat \<Rightarrow> nat" where
  "pof2_loop p n = (if 0 < p \<and> p * 2 \<le> n then pof2_loop (p * 2) n else p)"
  by auto
termination by (relation "measure (\<lambda>(p, n). n - p)") auto

declare pof2_loop.simps [simp del]

definition pof2_floor :: "nat \<Rightarrow> nat" where
  "pof2_floor n = pof2_loop 1 n"

definition kAllreduceShort :: nat where "kAllreduceShort = 2048"

definition realOf :: "nat \<Rightarrow> nat \<Rightarrow> nat" where
  "realOf rem nr = (if nr < rem then nr * 2 + 1 else nr + rem)"

type_synonym reducer = "byte list \<Rightarrow> byte list \<Rightarrow> nat \<Rightarrow> byte list option"

text \<open>Recursive doubling from the mask \<open>2 ^ t\<close>.\<close>

function rd_loop ::
  "nat \<Rightarrow> reducer \<Rightarrow> nat \<Rightarrow> nat \<Rightarrow> nat \<Rightarrow> nat \<Rightarrow> nat \<Rightarrow> nat \<Rightarrow> byte list \<Rightarrow> byte list \<Rightarrow> 'a rank_proc
     \<Rightarrow> (byte list \<Rightarrow> byte list \<Rightarrow> 'a rank_proc) \<Rightarrow> 'a rank_proc" where
  "rd_loop P red cnt n pof2 rem newrank t acc tmp ab k =
     (if 2 ^ t < pof2
      then let dst = int (realOf rem (newrank XOR 2 ^ t))
           in xchg_bytes P (take n acc) dst tmp 0 n dst (\<lambda>tmp' _.
                case red tmp' acc cnt of None \<Rightarrow> ab
                | Some acc' \<Rightarrow> rd_loop P red cnt n pof2 rem newrank (Suc t) acc' tmp' ab k)
      else k acc tmp)"
  by auto
termination
proof (relation "measure (\<lambda>(P, red, cnt, n, pof2, rem, newrank, t, acc, tmp, ab, k). pof2 - t)", goal_cases)
  case (2 P red cnt n pof2 rem newrank t acc tmp ab k x xa xb xc)
  then have "t < pof2" using less_exp [of t] by linarith
  then show ?case by simp
qed simp

declare rd_loop.simps [simp del]

text \<open>Pieces of the reduce-scatter, in elements.\<close>

definition rs_cnts :: "nat \<Rightarrow> nat \<Rightarrow> nat list" where
  "rs_cnts cnt pof2 = map (\<lambda>i. cnt div pof2 + (if i < cnt mod pof2 then 1 else 0)) [0..<pof2]"

definition rs_disps :: "nat \<Rightarrow> nat \<Rightarrow> nat list" where
  "rs_disps cnt pof2 = map (\<lambda>i. sum_list (take i (rs_cnts cnt pof2))) [0..<pof2]"

definition rs_sum :: "nat list \<Rightarrow> nat \<Rightarrow> nat \<Rightarrow> nat" where
  "rs_sum cnts a b = sum_list (map (\<lambda>i. cnts ! i) [a..<b])"

definition slice :: "byte list \<Rightarrow> nat \<Rightarrow> nat \<Rightarrow> byte list" where
  "slice b off len = take len (drop off b)"

text \<open>
  \<^verbatim>\<open>reduce_scatter_halving\<close> from the mask \<open>2 ^ t\<close>: send one half of the range, receive and combine the other.
\<close>

function halving_loop ::
  "nat \<Rightarrow> reducer \<Rightarrow> nat \<Rightarrow> nat \<Rightarrow> (nat \<Rightarrow> nat) \<Rightarrow> nat \<Rightarrow> nat list \<Rightarrow> nat list \<Rightarrow> nat \<Rightarrow> nat \<Rightarrow> nat \<Rightarrow> nat \<Rightarrow> byte list \<Rightarrow> byte list
     \<Rightarrow> 'a rank_proc \<Rightarrow> (byte list \<Rightarrow> byte list \<Rightarrow> nat \<Rightarrow> nat \<Rightarrow> 'a rank_proc) \<Rightarrow> 'a rank_proc" where
  "halving_loop P red ext pof2 real newrank cnts disps t send_idx recv_idx last_idx acc tmp ab k =
     (if 2 ^ t < pof2
      then let newdst = newrank XOR 2 ^ t; dst = int (real newdst);
               low = newrank < newdst;
               send_idx1 = (if low then recv_idx + pof2 div (2 ^ t * 2) else send_idx);
               recv_idx1 = (if low then recv_idx else send_idx + pof2 div (2 ^ t * 2));
               send_cnt = (if low then rs_sum cnts send_idx1 last_idx else rs_sum cnts send_idx1 recv_idx1);
               recv_cnt = (if low then rs_sum cnts recv_idx1 send_idx1 else rs_sum cnts recv_idx1 last_idx);
               roff = disps ! recv_idx1 * ext;
               last_idx1 = (if 2 ^ Suc t < pof2 then recv_idx1 + pof2 div 2 ^ Suc t else last_idx)
           in xchg_bytes P (slice acc (disps ! send_idx1 * ext) (send_cnt * ext)) dst tmp roff (recv_cnt * ext) dst (\<lambda>tmp' _.
                case red (drop roff tmp') (drop roff acc) recv_cnt of None \<Rightarrow> ab
                | Some part \<Rightarrow> halving_loop P red ext pof2 real newrank cnts disps (Suc t) recv_idx1 recv_idx1 last_idx1
                               (take roff acc @ part) tmp' ab k)
      else k acc tmp send_idx last_idx)"
  by auto
termination
proof (relation "measure (\<lambda>(P, red, ext, pof2, real, newrank, cnts, disps, t, send_idx, recv_idx, last_idx, acc, tmp, ab, k). pof2 - t)", goal_cases)
  case (2 P red ext pof2 real newrank cnts disps t)
  then have "t < pof2" using less_exp [of t] by linarith
  then show ?case by simp
qed simp

declare halving_loop.simps [simp del]

text \<open>The allgather of the long-vector branch.\<close>

function gather_loop ::
  "nat \<Rightarrow> nat \<Rightarrow> nat \<Rightarrow> nat \<Rightarrow> nat \<Rightarrow> nat list \<Rightarrow> nat list \<Rightarrow> nat \<Rightarrow> nat \<Rightarrow> nat \<Rightarrow> byte list
     \<Rightarrow> (byte list \<Rightarrow> 'a rank_proc) \<Rightarrow> 'a rank_proc" where
  "gather_loop P ext pof2 rem newrank cnts disps msk send_idx last_idx acc k =
     (if 0 < msk
      then let newdst = newrank XOR msk; dst = int (realOf rem newdst);
               low = newrank < newdst;
               last_idx1 = (if low \<and> msk \<noteq> pof2 div 2 then last_idx + pof2 div (msk * 2) else last_idx);
               recv_idx = (if low then send_idx + pof2 div (msk * 2) else send_idx - pof2 div (msk * 2));
               send_cnt = (if low then rs_sum cnts send_idx recv_idx else rs_sum cnts send_idx last_idx1);
               recv_cnt = (if low then rs_sum cnts recv_idx last_idx1 else rs_sum cnts recv_idx send_idx)
           in xchg_bytes P (slice acc (disps ! send_idx * ext) (send_cnt * ext)) dst acc (disps ! recv_idx * ext) (recv_cnt * ext) dst
                (\<lambda>acc' _. gather_loop P ext pof2 rem newrank cnts disps (msk div 2) (if low then send_idx else recv_idx) last_idx1 acc' k)
      else k acc)"
  by auto
termination
  by (relation "measure (\<lambda>(P, ext, pof2, rem, newrank, cnts, disps, msk, send_idx, last_idx, acc, k). msk)") auto

declare gather_loop.simps [simp del]

definition survivors_combine ::
  "nat \<Rightarrow> reducer \<Rightarrow> nat \<Rightarrow> nat \<Rightarrow> nat \<Rightarrow> nat \<Rightarrow> nat \<Rightarrow> byte list \<Rightarrow> byte list \<Rightarrow> 'a rank_proc
     \<Rightarrow> (byte list \<Rightarrow> 'a rank_proc) \<Rightarrow> 'a rank_proc" where
  "survivors_combine P red cnt ext pof2 rem newrank acc tmp ab k =
     (if cnt * ext \<le> kAllreduceShort \<or> cnt < pof2
      then rd_loop P red cnt (cnt * ext) pof2 rem newrank 0 acc tmp ab (\<lambda>acc _. k acc)
      else let cnts = rs_cnts cnt pof2; disps = rs_disps cnt pof2
           in halving_loop P red ext pof2 (realOf rem) newrank cnts disps 0 0 0 pof2 acc tmp ab
                (\<lambda>acc _ send_idx last_idx. gather_loop P ext pof2 rem newrank cnts disps (pof2 div 2) send_idx last_idx acc k))"

definition allreduce_bytes ::
  "float_arith \<Rightarrow> nat \<Rightarrow> nat \<Rightarrow> byte list \<Rightarrow> byte list \<Rightarrow> nat \<Rightarrow> u32 \<Rightarrow> nat \<Rightarrow> u32 \<Rightarrow> 'a rank_proc
     \<Rightarrow> (byte list \<Rightarrow> 'a rank_proc) \<Rightarrow> 'a rank_proc" where
  "allreduce_bytes fa P rank acc tmp cnt dt ext op ab k =
     (let n = cnt * ext; pof2 = pof2_floor P; rem = P - pof2;
          red = (\<lambda>inb io m. reduce_local fa inb io m dt op)
      in if rank < 2 * rem
         then if even rank
              then send_bytes P (take n acc) (int (rank + 1)) 0 (recv_bytes P acc 0 n (int (rank + 1)) (\<lambda>acc _. k acc))
              else recv_bytes P tmp 0 n (int rank - 1) (\<lambda>tmp _.
                     case red tmp acc cnt of None \<Rightarrow> ab
                     | Some acc \<Rightarrow> survivors_combine P red cnt ext pof2 rem (rank div 2) acc tmp ab
                         (\<lambda>acc. send_bytes P (take n acc) (int rank - 1) 0 (k acc)))
         else survivors_combine P red cnt ext pof2 rem (rank - rem) acc tmp ab k)"

text \<open>\<^verbatim>\<open>MPI_Allreduce\<close>: the send buffer, or the receive buffer itself where it is \<^verbatim>\<open>MPI_IN_PLACE\<close> (\<open>None\<close>).\<close>

definition MPI_Allreduce ::
  "float_arith \<Rightarrow> nat \<Rightarrow> nat \<Rightarrow> byte list option \<Rightarrow> byte list \<Rightarrow> byte list \<Rightarrow> nat \<Rightarrow> u32 \<Rightarrow> u32 \<Rightarrow> 'a rank_proc
     \<Rightarrow> (byte list \<Rightarrow> 'a rank_proc) \<Rightarrow> 'a rank_proc" where
  "MPI_Allreduce fa P rank sendbuf recvbuf tmp cnt dt op ab k =
     (case dtype_size dt of None \<Rightarrow> ab
      | Some ext \<Rightarrow>
          (let acc = (case sendbuf of None \<Rightarrow> recvbuf | Some s \<Rightarrow> memcpy_at recvbuf 0 (take (cnt * ext) s))
           in if P \<le> 1 then k acc else allreduce_bytes fa P rank acc tmp cnt dt ext op ab k))"

section \<open>Powers of two and partners\<close>

lemma pof2_loop_spec: "p = 2 ^ t \<Longrightarrow> p \<le> n \<Longrightarrow> \<exists>L. pof2_loop p n = 2 ^ L \<and> 2 ^ L \<le> n \<and> n < 2 * 2 ^ L"
proof (induction p n arbitrary: t rule: pof2_loop.induct)
  case (1 p n)
  show ?case
  proof (cases "p * 2 \<le> n")
    case True
    then have "pof2_loop p n = pof2_loop (p * 2) n" using "1.prems" by (subst pof2_loop.simps) auto
    then show ?thesis using 1(1) [of "Suc t"] "1.prems" True by (simp add: mult.commute)
  next
    case False
    then have "pof2_loop p n = p" by (subst pof2_loop.simps) auto
    then show ?thesis using "1.prems" False by (intro exI [of _ t]) auto
  qed
qed

lemma pof2_floor_spec:
  assumes "0 < n"
  obtains L where "pof2_floor n = 2 ^ L" "2 ^ L \<le> n" "n < 2 * 2 ^ L"
  using pof2_loop_spec [of 1 0 n] assms by (auto simp: pof2_floor_def)

lemma xor_less: "m < 2 ^ L \<Longrightarrow> t < L \<Longrightarrow> m XOR 2 ^ t < (2 :: nat) ^ L"
  by (simp add: take_bit_nat_eq_self_iff [symmetric] take_bit_xor)

lemma xor_twice: "(m XOR 2 ^ t) XOR 2 ^ t = (m :: nat)"
  by (simp add: xor.assoc)

lemma half_partner: "(a :: nat) div 2 = b div 2 \<longleftrightarrow> a = b \<or> a = b XOR 1"
  by (cases "even a"; cases "even b") (auto simp: xor_Suc_0_eq elim!: evenE oddE)

lemma coset_split: "(x :: nat) div 2 ^ Suc t = m div 2 ^ Suc t \<longleftrightarrow> x div 2 ^ t = m div 2 ^ t \<or> x div 2 ^ t = (m XOR 2 ^ t) div 2 ^ t"
proof -
  have "(m XOR 2 ^ t) div 2 ^ t = (m div 2 ^ t) XOR 1"
    using drop_bit_xor [of t m "2 ^ t"] by (simp add: drop_bit_eq_div)
  then show ?thesis using half_partner [of "x div 2 ^ t" "m div 2 ^ t"] by (simp add: div_mult2_eq power_Suc2 del: power_Suc)
qed

lemma coset_other: "m div 2 ^ t \<noteq> (m XOR 2 ^ t) div (2 :: nat) ^ t"
proof -
  have "(m XOR 2 ^ t) div 2 ^ t = (m div 2 ^ t) XOR 1"
    using drop_bit_xor [of t m "2 ^ t"] by (simp add: drop_bit_eq_div)
  moreover have "a \<noteq> a XOR 1" for a :: nat by (cases "even a") (auto simp: xor_Suc_0_eq elim!: oddE)
  ultimately show ?thesis by metis
qed

section \<open>Who survives, and whose values a survivor holds\<close>

definition survivors :: "nat \<Rightarrow> nat \<Rightarrow> nat set" where
  "survivors P rem = {i. i < P \<and> \<not> (i < 2 * rem \<and> even i)}"

definition new_rank :: "nat \<Rightarrow> nat \<Rightarrow> nat" where
  "new_rank rem i = (if i < 2 * rem then i div 2 else i - rem)"

definition group :: "nat \<Rightarrow> nat \<Rightarrow> nat set" where
  "group rem x = (if x < rem then {2 * x, 2 * x + 1} else {x + rem})"

definition held :: "nat \<Rightarrow> nat \<Rightarrow> nat \<Rightarrow> nat \<Rightarrow> nat set" where
  "held rem pof2 t m = (\<Union>x\<in>{x. x < pof2 \<and> x div 2 ^ t = m div 2 ^ t}. group rem x)"

lemma new_rank_survivor:
  assumes "i \<in> survivors P rem" and "P = pof2 + rem" and "rem \<le> pof2"
  shows "new_rank rem i < pof2" and "realOf rem (new_rank rem i) = i"
  using assms by (auto simp: survivors_def new_rank_def realOf_def elim!: oddE)

lemma realOf_survivor:
  assumes "m < pof2" and "P = pof2 + rem" and "rem \<le> pof2"
  shows "realOf rem m \<in> survivors P rem" and "new_rank rem (realOf rem m) = m"
  using assms by (auto simp: survivors_def new_rank_def realOf_def)

lemma group_disjoint: "x \<noteq> y \<Longrightarrow> group rem x \<inter> group rem y = {}"
  by (auto simp: group_def split: if_splits)

lemma held_0: "m < pof2 \<Longrightarrow> held rem pof2 0 m = group rem m"
  by (auto simp: held_def)

lemma held_Suc:
  "held rem pof2 (Suc t) m = held rem pof2 t m \<union> held rem pof2 t (m XOR 2 ^ t)"
  unfolding held_def coset_split by blast

lemma held_disjoint: "held rem pof2 t m \<inter> held rem pof2 t (m XOR 2 ^ t) = {}"
proof -
  have "group rem x \<inter> group rem y = {}" if "x div 2 ^ t = m div 2 ^ t" "y div 2 ^ t = (m XOR 2 ^ t) div 2 ^ t" for x y
    using that coset_other [of m t] by (intro group_disjoint) auto
  then show ?thesis by (auto simp: held_def)
qed

lemma held_finite [simp]: "finite (held rem pof2 t m)"
  by (auto simp: held_def group_def)

lemma held_nonempty: "m < pof2 \<Longrightarrow> held rem pof2 t m \<noteq> {}"
  by (auto simp: held_def group_def)

lemma held_bound: "P = pof2 + rem \<Longrightarrow> rem \<le> pof2 \<Longrightarrow> held rem pof2 t m \<subseteq> {..<P}"
  by (auto simp: held_def group_def split: if_splits)

lemma held_all:
  assumes "pof2 = 2 ^ L" and "m < pof2" and "P = pof2 + rem" and "rem \<le> pof2"
  shows "held rem pof2 L m = {..<P}"
proof
  show "held rem pof2 L m \<subseteq> {..<P}" using held_bound assms by blast
  show "{..<P} \<subseteq> held rem pof2 L m"
  proof
    fix i assume "i \<in> {..<P}"
    then have "i \<in> group rem (if i < 2 * rem then i div 2 else i - rem)" "(if i < 2 * rem then i div 2 else i - rem) < pof2"
      using assms by (auto simp: group_def)
    then show "i \<in> held rem pof2 L m" using assms(1,2) by (force simp: held_def)
  qed
qed

section \<open>Recursive doubling\<close>

lemma rd_loop_end: "\<not> 2 ^ t < pof2 \<Longrightarrow> rd_loop P red cnt n pof2 rem newrank t acc tmp ab k = k acc tmp"
  by (subst rd_loop.simps) simp

definition reduces :: "reducer \<Rightarrow> nat \<Rightarrow> ('w::len word \<Rightarrow> 'w word \<Rightarrow> 'w word) \<Rightarrow> bool" where
  "reduces red cnt f \<longleftrightarrow> (\<forall>xs ys. length xs = cnt \<and> length ys = cnt \<longrightarrow> red (encode xs) (encode ys) cnt = Some (encode (map2 f xs ys)))"

lemma total_length:
  "finite S \<Longrightarrow> S \<noteq> {} \<Longrightarrow> (\<And>i. i \<in> S \<Longrightarrow> length (v i) = cnt) \<Longrightarrow> length (rl.total sg ro v S) = cnt"
proof (induction S rule: finite_ne_induct)
  case (insert x S)
  have "map2 (red_int sg ro) (rl.total sg ro v {x}) (rl.total sg ro v S) = rl.total sg ro v ({x} \<union> S)"
    using insert by (intro rl.total_union) auto
  then have "length (rl.total sg ro v (insert x S)) = length (map2 (red_int sg ro) (rl.total sg ro v {x}) (rl.total sg ro v S))" by simp
  also have "\<dots> = cnt" using insert by simp
  finally show ?case .
qed simp

definition rd_stage ::
  "nat \<Rightarrow> reducer \<Rightarrow> nat \<Rightarrow> nat \<Rightarrow> nat \<Rightarrow> nat \<Rightarrow> bool \<Rightarrow> RedOp \<Rightarrow> (nat \<Rightarrow> 'w::len word list) \<Rightarrow> (nat \<Rightarrow> byte list) \<Rightarrow> (nat \<Rightarrow> 'a rank_proc)
     \<Rightarrow> (nat \<Rightarrow> byte list \<Rightarrow> byte list \<Rightarrow> 'a rank_proc) \<Rightarrow> (nat \<Rightarrow> 'a rank_proc) \<Rightarrow> nat \<Rightarrow> nat \<Rightarrow> 'a rank_proc" where
  "rd_stage P red cnt n pof2 rem sg ro v tmp ab k z t i =
     (if i \<in> survivors P rem
      then rd_loop P red cnt n pof2 rem (new_rank rem i) t (encode (rl.total sg ro v (held rem pof2 t (new_rank rem i)))) (tmp i) (ab i) (k i)
      else z i)"

lemma rd_step:
  fixes v :: "nat \<Rightarrow> 'w::len word list"
  assumes P: "1 < P" "P = pof2 + rem" "rem \<le> pof2" and L: "pof2 = 2 ^ L" "t < L"
    and red: "reduces red cnt (red_int sg ro :: 'w word \<Rightarrow> _)" and len: "\<And>i. i < P \<Longrightarrow> length (v i) = cnt"
    and n: "n = cnt * elem_size TYPE('w)" "n \<le> MAX_MESSAGE"
    and tmp: "\<And>i. i \<in> survivors P rem \<Longrightarrow> length (tmp i) = n"
    and ch: "\<And>s d. s \<in> survivors P rem \<Longrightarrow> d \<in> survivors P rem \<Longrightarrow> ch s d = []"
  shows "\<exists>tmp'. (\<forall>i\<in>survivors P rem. length (tmp' i) = n) \<and>
    (net_step P)\<^sup>*\<^sup>* (rd_stage P red cnt n pof2 rem sg ro v tmp ab k z t, ch) (rd_stage P red cnt n pof2 rem sg ro v tmp' ab k z (Suc t), ch)"
proof -
  let ?A = "survivors P rem" and ?nr = "new_rank rem"
  let ?val = "\<lambda>t m. rl.total sg ro v (held rem pof2 t m)"
  let ?dst = "\<lambda>i. realOf rem (?nr i XOR 2 ^ t)"
  have vlen: "length (?val t m) = cnt" if "m < pof2" for t m
    using len held_bound [OF P(2,3), of t m] held_nonempty [OF that] by (intro total_length) auto
  have partner: "?nr i XOR 2 ^ t < pof2" if "i \<in> ?A" for i
    using xor_less new_rank_survivor(1) [OF that P(2,3)] L by simp
  have perm: "i < P \<and> ?dst i \<in> ?A \<and> ?dst i \<in> ?A \<and> ?dst (?dst i) = i \<and> ?dst (?dst i) = i" if "i \<in> ?A" for i
    using that realOf_survivor [OF partner [OF that] P(2,3)] new_rank_survivor(2) [OF that P(2,3)]
    by (simp add: xor_twice) (simp add: survivors_def)
  let ?sd = "\<lambda>i. encode (?val t (?nr i))"
  let ?k = "\<lambda>i tmp' (_ :: nat). case red tmp' (?sd i) cnt of None \<Rightarrow> ab i
     | Some acc' \<Rightarrow> rd_loop P red cnt n pof2 rem (?nr i) (Suc t) acc' tmp' (ab i) (k i)"
  have slen: "length (?sd i) = n" if "i \<in> ?A" for i using vlen new_rank_survivor(1) [OF that P(2,3)] n by simp
  have "(net_step P)\<^sup>*\<^sup>*
     (\<lambda>i. if i \<in> ?A then xchg_bytes P (?sd i) (int (?dst i)) (tmp i) 0 n (int (?dst i)) (?k i) else z i, ch)
     (\<lambda>i. if i \<in> ?A then ?k i (memcpy_at (tmp i) 0 (take n (?sd (?dst i)))) (min n (length (?sd (?dst i)))) else z i, ch)"
    by (rule xchg_all [OF P(1) perm]) (use tmp slen n(2) ch perm in auto)
  moreover have "(\<lambda>i. if i \<in> ?A then xchg_bytes P (?sd i) (int (?dst i)) (tmp i) 0 n (int (?dst i)) (?k i) else z i)
      = rd_stage P red cnt n pof2 rem sg ro v tmp ab k z t"
  proof
    fix i
    have "2 ^ t < pof2" using L by simp
    then show "(if i \<in> ?A then xchg_bytes P (?sd i) (int (?dst i)) (tmp i) 0 n (int (?dst i)) (?k i) else z i)
        = rd_stage P red cnt n pof2 rem sg ro v tmp ab k z t i"
      using slen [of i] by (simp add: rd_stage_def rd_loop.simps [of P red cnt n pof2 rem "?nr i" t] Let_def)
  qed
  moreover have "(\<lambda>i. if i \<in> ?A then ?k i (memcpy_at (tmp i) 0 (take n (?sd (?dst i)))) (min n (length (?sd (?dst i)))) else z i)
      = rd_stage P red cnt n pof2 rem sg ro v (\<lambda>i. ?sd (?dst i)) ab k z (Suc t)"
  proof
    fix i
    show "(if i \<in> ?A then ?k i (memcpy_at (tmp i) 0 (take n (?sd (?dst i)))) (min n (length (?sd (?dst i)))) else z i)
        = rd_stage P red cnt n pof2 rem sg ro v (\<lambda>i. ?sd (?dst i)) ab k z (Suc t) i"
    proof (cases "i \<in> ?A")
      case True
      have m: "?nr i < pof2" "?nr (?dst i) = ?nr i XOR 2 ^ t" "?nr i XOR 2 ^ t < pof2"
        using new_rank_survivor(1) [OF True P(2,3)] realOf_survivor(2) [OF partner [OF True] P(2,3)] partner [OF True] by auto
      have "memcpy_at (tmp i) 0 (take n (?sd (?dst i))) = ?sd (?dst i)"
        using tmp [OF True] slen [of "?dst i"] perm [OF True] by (simp add: memcpy_at_def)
      moreover have "red (?sd (?dst i)) (?sd i) cnt = Some (encode (map2 (red_int sg ro) (?val t (?nr i XOR 2 ^ t)) (?val t (?nr i))))"
        using red vlen m by (simp add: reduces_def)
      moreover have "map2 (red_int sg ro) (?val t (?nr i XOR 2 ^ t)) (?val t (?nr i)) = ?val (Suc t) (?nr i)"
        unfolding held_Suc using held_disjoint [of rem pof2 t "?nr i"] held_nonempty [OF m(1)] held_nonempty [OF m(3)]
        by (subst Un_commute, intro rl.total_union) auto
      ultimately show ?thesis using True by (simp add: rd_stage_def)
    qed (simp add: rd_stage_def)
  qed
  ultimately show ?thesis using slen perm by (intro exI [of _ "\<lambda>i. ?sd (?dst i)"]) auto
qed

lemma rd_run:
  fixes v :: "nat \<Rightarrow> 'w::len word list"
  assumes P: "1 < P" "P = pof2 + rem" "rem \<le> pof2" and L: "pof2 = 2 ^ L"
    and red: "reduces red cnt (red_int sg ro :: 'w word \<Rightarrow> _)" and len: "\<And>i. i < P \<Longrightarrow> length (v i) = cnt"
    and n: "n = cnt * elem_size TYPE('w)" "n \<le> MAX_MESSAGE"
    and tmp: "\<And>i. i \<in> survivors P rem \<Longrightarrow> length (tmp i) = n"
    and ch: "\<And>s d. s \<in> survivors P rem \<Longrightarrow> d \<in> survivors P rem \<Longrightarrow> ch s d = []"
  shows "\<exists>tmp'. (net_step P)\<^sup>*\<^sup>* (rd_stage P red cnt n pof2 rem sg ro v tmp ab k z 0, ch)
    (\<lambda>i. if i \<in> survivors P rem then k i (encode (rl.total sg ro v {..<P})) (tmp' i) else z i, ch)"
proof -
  have "\<exists>tmp'. (\<forall>i\<in>survivors P rem. length (tmp' i) = n) \<and>
    (net_step P)\<^sup>*\<^sup>* (rd_stage P red cnt n pof2 rem sg ro v tmp ab k z 0, ch) (rd_stage P red cnt n pof2 rem sg ro v tmp' ab k z t, ch)"
    if "t \<le> L" for t using that
  proof (induction t)
    case 0
    show ?case using tmp by (intro exI [of _ tmp]) auto
  next
    case (Suc t)
    then obtain tmp1 where t1: "\<forall>i\<in>survivors P rem. length (tmp1 i) = n"
      "(net_step P)\<^sup>*\<^sup>* (rd_stage P red cnt n pof2 rem sg ro v tmp ab k z 0, ch) (rd_stage P red cnt n pof2 rem sg ro v tmp1 ab k z t, ch)" by auto
    have "\<exists>tmp'. (\<forall>i\<in>survivors P rem. length (tmp' i) = n) \<and>
      (net_step P)\<^sup>*\<^sup>* (rd_stage P red cnt n pof2 rem sg ro v tmp1 ab k z t, ch) (rd_stage P red cnt n pof2 rem sg ro v tmp' ab k z (Suc t), ch)"
      by (rule rd_step [OF P L _ red]) (use Suc.prems len n t1(1) ch in auto)
    with t1(2) show ?case by (meson rtranclp_trans)
  qed
  then obtain tmp' where run: "(net_step P)\<^sup>*\<^sup>* (rd_stage P red cnt n pof2 rem sg ro v tmp ab k z 0, ch)
      (rd_stage P red cnt n pof2 rem sg ro v tmp' ab k z L, ch)" by blast
  have "rd_stage P red cnt n pof2 rem sg ro v tmp' ab k z L i =
      (if i \<in> survivors P rem then k i (encode (rl.total sg ro v {..<P})) (tmp' i) else z i)" for i
  proof (cases "i \<in> survivors P rem")
    case True
    then show ?thesis using held_all [OF L new_rank_survivor(1) [OF True P(2,3)] P(2,3)] L
      by (simp add: rd_stage_def rd_loop_end)
  qed (simp add: rd_stage_def)
  then have "rd_stage P red cnt n pof2 rem sg ro v tmp' ab k z L =
      (\<lambda>i. if i \<in> survivors P rem then k i (encode (rl.total sg ro v {..<P})) (tmp' i) else z i)" by (intro ext) simp
  with run show ?thesis by (intro exI [of _ tmp']) simp
qed

section \<open>Messages within pairs of ranks\<close>

text \<open>
  A set of ranks sends one message each, and the partners receive them: both halves of the folding
  and of the handing back are of this kind.
\<close>

lemma pair_messages:
  fixes par :: "nat \<Rightarrow> nat"
  assumes P: "1 < P" and S: "\<And>i. i \<in> S \<Longrightarrow> i < P \<and> par i < P \<and> par i \<notin> S" and inj: "inj_on par S"
    and small: "\<And>i. i \<in> S \<Longrightarrow> length (data i) = n" "n \<le> MAX_MESSAGE"
    and room: "\<And>i. i \<in> S \<Longrightarrow> length (buf (par i)) = n"
    and start: "\<And>i. i \<in> S \<Longrightarrow> ps i = send_bytes P (data i) (int (par i)) 0 (q i)"
      "\<And>i. i \<in> S \<Longrightarrow> ps (par i) = recv_bytes P (buf (par i)) 0 n (int i) (\<lambda>b _. k (par i) b)"
  shows "(net_step P)\<^sup>*\<^sup>* (ps, \<lambda>_ _. [])
    (\<lambda>i. if i \<in> S then q i else if i \<in> par ` S then k i (data (the_inv_into S par i)) else ps i, \<lambda>_ _. [])"
proof -
  let ?ps1 = "\<lambda>i. if i \<in> S then q i else ps i"
  let ?out = "\<lambda>i. if i \<in> S then only (par i) (chunks 0 (data i)) else (\<lambda>_. [])"
  have "(net_step P)\<^sup>*\<^sup>* (ps, \<lambda>_ _. []) (?ps1, \<lambda>s d. [] @ (if s < P then ?out s d else []))"
  proof (rule all_solo [where ins = "\<lambda>_ _. []"])
    show "solo (ps i) (\<lambda>_. []) (?out i) (?ps1 i)" if "i < P" for i
      using S [of i] start(1) [of i] solo_send_bytes [OF P, of "par i" "data i" 0 "q i"] solo.idle [of "ps i"] by (cases "i \<in> S") simp_all
    show "ps i = ?ps1 i" if "P \<le> i" for i using S [of i] that by auto
  qed simp
  moreover have "(\<lambda>s d. [] @ (if s < P then ?out s d else [])) = (\<lambda>s d. if s \<in> S \<and> d = par s then chunks 0 (data s) else [])"
    using S by (auto simp: fun_eq_iff)
  moreover have "(net_step P)\<^sup>*\<^sup>* (?ps1, \<lambda>s d. if s \<in> S \<and> d = par s then chunks 0 (data s) else [])
    (\<lambda>i. if i \<in> S then q i else if i \<in> par ` S then k i (data (the_inv_into S par i)) else ps i, \<lambda>s d. [] @ (if s < P then (\<lambda>_. []) d else []))"
  proof (rule all_solo [where ins = "\<lambda>s d. if s \<in> S \<and> d = par s then chunks 0 (data s) else []"])
    show "solo (?ps1 i) (\<lambda>s. if s \<in> S \<and> i = par s then chunks 0 (data s) else []) (\<lambda>_. [])
      (if i \<in> S then q i else if i \<in> par ` S then k i (data (the_inv_into S par i)) else ps i)" if "i < P" for i
    proof (cases "i \<in> par ` S")
      case True
      then obtain j where j: "j \<in> S" "i = par j" by auto
      then have i: "i \<notin> S" "the_inv_into S par i = j" using S inj the_inv_into_f_f by fastforce+
      have "(\<lambda>s. if s \<in> S \<and> i = par s then chunks 0 (data s) else []) = only j (chunks 0 (data j))"
        using j inj by (auto simp: fun_eq_iff dest: inj_onD)
      moreover have "memcpy_at (buf (par j)) 0 (take n (data j)) = data j" using small(1) [OF j(1)] room [OF j(1)] by (simp add: memcpy_at_def)
      ultimately show ?thesis
        using solo_recv_bytes [OF P, of j 0 n "buf (par j)" "data j" "\<lambda>b _. k (par j) b" 0] S [OF j(1)] small(1) [OF j(1)] small(2) room [OF j(1)] j i start(2) [OF j(1)] True
        by simp
    next
      case False
      then have "(\<lambda>s. if s \<in> S \<and> i = par s then chunks 0 (data s) else []) = (\<lambda>_. [])" by (auto simp: fun_eq_iff)
      then show ?thesis using False solo.idle by auto
    qed
  next
    show "?ps1 i = (if i \<in> S then q i else if i \<in> par ` S then k i (data (the_inv_into S par i)) else ps i)" if "P \<le> i" for i
      using that S [of i] by (auto dest: S)
  next
    show "(if s \<in> S \<and> d = par s then chunks 0 (data s) else []) = (if d < P then (if s \<in> S \<and> d = par s then chunks 0 (data s) else []) else []) @ []" for s d
      using S by auto
  qed
  ultimately show ?thesis by simp
qed

section \<open>The whole reduction\<close>

lemma total_pair:
  "j \<noteq> i \<Longrightarrow> map2 (red_int sg ro) (v j) (v i) = rl.total sg ro v {j, i}"
  using rl.total_union [of "{j}" "{i}" sg ro v] by (simp add: insert_commute)

lemma allreduce_fold:
  fixes v :: "nat \<Rightarrow> 'w::len word list"
  assumes P: "1 < P" "P = pof2_floor P + rem" "rem < pof2_floor P"
    and red: "reduces (\<lambda>inb io m. reduce_local fa inb io m dt op) cnt (red_int sg ro :: 'w word \<Rightarrow> _)" and len: "\<And>i. i < P \<Longrightarrow> length (v i) = cnt"
    and n: "n = cnt * elem_size TYPE('w)" "n \<le> MAX_MESSAGE" and short: "n \<le> kAllreduceShort \<or> cnt < pof2_floor P"
    and tmp: "\<And>i. i < P \<Longrightarrow> length (tmp i) = n"
    and ps: "\<And>i. i < P \<Longrightarrow> ps i = allreduce_bytes fa P i (encode (v i)) (tmp i) cnt dt (elem_size TYPE('w)) op (ab i) (k i)"
  shows "\<exists>tmp'. (\<forall>i\<in>survivors P rem. length (tmp' i) = n) \<and> (net_step P)\<^sup>*\<^sup>* (ps, \<lambda>_ _. [])
    (rd_stage P (\<lambda>inb io m. reduce_local fa inb io m dt op) cnt n (pof2_floor P) rem sg ro v tmp' ab
       (\<lambda>i acc _. if i < 2 * rem then send_bytes P (take n acc) (int i - 1) 0 (k i acc) else k i acc)
       (\<lambda>i. if i < P then recv_bytes P (encode (v i)) 0 n (int (i + 1)) (\<lambda>acc _. k i acc) else ps i) 0, \<lambda>_ _. [])"
proof -
  let ?red = "\<lambda>inb io m. reduce_local fa inb io m dt op" and ?p = "pof2_floor P"
  let ?S = "{i. i < 2 * rem \<and> even i}"
  let ?k = "\<lambda>i acc (_ :: byte list). if i < 2 * rem then send_bytes P (take n acc) (int i - 1) 0 (k i acc) else k i acc"
  let ?rd = "\<lambda>i acc t. rd_loop P ?red cnt n ?p rem (new_rank rem i) 0 acc t (ab i) (?k i)"
  let ?kr = "\<lambda>i b. case ?red b (encode (v i)) cnt of None \<Rightarrow> ab i | Some acc \<Rightarrow> ?rd i acc b"
  let ?q = "\<lambda>i. recv_bytes P (encode (v i)) 0 n (int (i + 1)) (\<lambda>acc _. k i acc)"
  have rem: "P - ?p = rem" "2 * rem \<le> P" using P by linarith+
  have vlen: "length (encode (v i)) = n" if "i < P" for i using len [OF that] n by simp
  have combine: "survivors_combine P ?red cnt (elem_size TYPE('w)) ?p rem nr acc t ab k = rd_loop P ?red cnt n ?p rem nr 0 acc t ab (\<lambda>acc _. k acc)"
    for nr acc t ab k using short n by (simp add: survivors_combine_def)
  have even: "ps i = send_bytes P (encode (v i)) (int (i + 1)) 0 (?q i)" if "i \<in> ?S" for i
    using ps [of i] vlen [of i] rem that by (simp add: allreduce_bytes_def Let_def n(1) [symmetric])
  have odd: "ps (i + 1) = recv_bytes P (tmp (i + 1)) 0 n (int i) (\<lambda>b _. ?kr (i + 1) b)" if i: "i \<in> ?S" for i
  proof -
    have lt: "i + 1 < 2 * rem" using i by (auto elim!: evenE)
    then have j: "i + 1 < P" "\<not> even (i + 1)" "new_rank rem (i + 1) = (i + 1) div 2" "int (i + 1) - 1 = int i"
      using i rem by (simp_all add: new_rank_def)
    show ?thesis unfolding ps [OF j(1)] allreduce_bytes_def Let_def rem n(1) [symmetric] combine j(3) using lt j(2,4) by (simp cong: option.case_cong)
  qed
  have big: "ps i = ?rd i (encode (v i)) (tmp i)" if "i < P" "\<not> i < 2 * rem" for i
    using ps [OF that(1)] rem that(2) by (simp add: allreduce_bytes_def Let_def combine new_rank_def)
  have par: "i < P \<and> i + 1 < P \<and> i + 1 \<notin> ?S" if "i \<in> ?S" for i
  proof -
    have "i + 1 < 2 * rem" using that by (auto elim!: evenE)
    then show ?thesis using that rem by auto
  qed
  let ?tmp = "\<lambda>i. if i < 2 * rem then encode (v (i - 1)) else tmp i"
  have run: "(net_step P)\<^sup>*\<^sup>* (ps, \<lambda>_ _. [])
    (\<lambda>i. if i \<in> ?S then ?q i else if i \<in> (\<lambda>i. i + 1) ` ?S then ?kr i (encode (v (the_inv_into ?S (\<lambda>i. i + 1) i))) else ps i, \<lambda>_ _. [])"
    by (rule pair_messages [OF P(1) par, where n = n and buf = tmp]) (use vlen n(2) tmp par even odd in auto)
  have state: "(if i \<in> ?S then ?q i else if i \<in> (\<lambda>i. i + 1) ` ?S then ?kr i (encode (v (the_inv_into ?S (\<lambda>i. i + 1) i))) else ps i) =
      rd_stage P ?red cnt n ?p rem sg ro v ?tmp ab ?k (\<lambda>i. if i < P then ?q i else ps i) 0 i" for i
  proof (cases "i \<in> survivors P rem")
    case True
    have nr: "new_rank rem i < ?p" using new_rank_survivor(1) [OF True P(2)] P(3) by simp
    show ?thesis
    proof (cases "i < 2 * rem")
      case lt: True
      then obtain j where j: "i = j + 1" "j \<in> ?S" using True by (auto simp: survivors_def elim!: oddE)
      have inv: "the_inv_into ?S (\<lambda>i. i + 1) i = j" using the_inv_into_f_f [of "\<lambda>i. i + 1" ?S j] j by (simp add: inj_on_def)
      have "group rem (new_rank rem i) = {j, i}" using lt j by (auto simp: group_def new_rank_def elim!: evenE)
      then have "?red (encode (v j)) (encode (v i)) cnt = Some (encode (rl.total sg ro v (held rem ?p 0 (new_rank rem i))))"
        using red len par [OF j(2)] j total_pair [of j i sg ro v] held_0 [OF nr] by (simp add: reduces_def)
      then show ?thesis using True lt j inv by (auto simp: rd_stage_def)
    next
      case False
      then have "i \<notin> (\<lambda>i. i + 1) ` ?S" using par by (auto elim!: evenE)
      moreover have "held rem ?p 0 (new_rank rem i) = {i}" using held_0 [OF nr] False by (auto simp: group_def new_rank_def)
      ultimately show ?thesis using True False big [of i] by (simp add: rd_stage_def survivors_def)
    qed
  next
    case False
    then have "i \<in> ?S \<or> P \<le> i" by (auto simp: survivors_def)
    moreover have "P \<le> i \<Longrightarrow> i \<notin> ?S \<and> i \<notin> (\<lambda>i. i + 1) ` ?S" using par [of i] par [of "i - 1"] by auto
    ultimately show ?thesis using False par by (auto simp: rd_stage_def)
  qed
  note run [unfolded state]
  moreover have "length (?tmp i) = n" if "i \<in> survivors P rem" for i using that tmp vlen [of "i - 1"] by (auto simp: survivors_def)
  ultimately show ?thesis by (intro exI [of _ ?tmp]) auto
qed

lemma allreduce_words:
  fixes v :: "nat \<Rightarrow> 'w::len word list"
  assumes P: "1 < P"
    and red: "reduces (\<lambda>inb io m. reduce_local fa inb io m dt op) cnt (red_int sg ro :: 'w word \<Rightarrow> _)" and len: "\<And>i. i < P \<Longrightarrow> length (v i) = cnt"
    and n: "n = cnt * elem_size TYPE('w)" "n \<le> MAX_MESSAGE" and short: "n \<le> kAllreduceShort \<or> cnt < pof2_floor P"
    and tmp: "\<And>i. i < P \<Longrightarrow> length (tmp i) = n"
    and ps: "\<And>i. i < P \<Longrightarrow> ps i = allreduce_bytes fa P i (encode (v i)) (tmp i) cnt dt (elem_size TYPE('w)) op (ab i) (k i)"
  shows "(net_step P)\<^sup>*\<^sup>* (ps, \<lambda>_ _. []) (\<lambda>i. if i < P then k i (encode (rl.total sg ro v {..<P})) else ps i, \<lambda>_ _. [])"
proof -
  obtain L where L: "pof2_floor P = 2 ^ L" "2 ^ L \<le> P" "P < 2 * 2 ^ L" using pof2_floor_spec [of P] P by auto
  define rem where "rem = P - pof2_floor P"
  have rem: "P = pof2_floor P + rem" "rem < pof2_floor P" "2 * rem \<le> P" using L by (auto simp: rem_def)
  let ?T = "encode (rl.total sg ro v {..<P})"
  let ?k = "\<lambda>i acc (_ :: byte list). if i < 2 * rem then send_bytes P (take n acc) (int i - 1) 0 (k i acc) else k i acc"
  let ?z = "\<lambda>i. if i < P then recv_bytes P (encode (v i)) 0 n (int (i + 1)) (\<lambda>acc _. k i acc) else ps i"
  obtain tmp1 where t1: "\<forall>i\<in>survivors P rem. length (tmp1 i) = n"
      "(net_step P)\<^sup>*\<^sup>* (ps, \<lambda>_ _. []) (rd_stage P (\<lambda>inb io m. reduce_local fa inb io m dt op) cnt n (pof2_floor P) rem sg ro v tmp1 ab ?k ?z 0, \<lambda>_ _. [])"
    using allreduce_fold [OF P rem(1,2) red len n short tmp ps] by blast
  obtain tmp2 :: "nat \<Rightarrow> byte list" where t2: "(net_step P)\<^sup>*\<^sup>* (rd_stage P (\<lambda>inb io m. reduce_local fa inb io m dt op) cnt n (pof2_floor P) rem sg ro v tmp1 ab ?k ?z 0, \<lambda>_ _. [])
      (\<lambda>i. if i \<in> survivors P rem then ?k i ?T (tmp2 i) else ?z i, \<lambda>_ _. [])"
    using rd_run [OF P rem(1) less_imp_le [OF rem(2)] L(1) red len n, where tmp = tmp1 and ch = "\<lambda>_ _. []" and ab = ab and k = ?k and z = ?z] t1(1) by auto
  let ?ps = "\<lambda>i. if i \<in> survivors P rem then ?k i ?T (tmp2 i) else ?z i"
  let ?S = "{i. i < 2 * rem \<and> odd i}"
  have Tlen: "length ?T = n" using total_length [of "{..<P}" v cnt sg ro] len n P by auto
  have odd: "\<exists>j. i = j + 1 \<and> j < P \<and> j + 1 < P \<and> j < 2 * rem \<and> even j" if "i \<in> ?S" for i
    using that rem by (auto elim!: oddE)
  have par: "i < P \<and> i - 1 < P \<and> i - 1 \<notin> ?S" if "i \<in> ?S" for i using odd [OF that] by auto
  have run: "(net_step P)\<^sup>*\<^sup>* (?ps, \<lambda>_ _. []) (\<lambda>i. if i \<in> ?S then k i ?T else if i \<in> (\<lambda>i. i - 1) ` ?S then k i ?T else ?ps i, \<lambda>_ _. [])"
  proof (rule pair_messages [OF P par, where n = n and buf = "\<lambda>i. encode (v i)" and data = "\<lambda>_. ?T" and q = "\<lambda>i. k i ?T" and k = k])
    show "inj_on (\<lambda>i. i - 1) ?S" using odd by (fastforce simp: inj_on_def)
    show "length ?T = n" "n \<le> MAX_MESSAGE" by (rule Tlen, rule n(2))
    show "length (encode (v (i - 1))) = n" if "i \<in> ?S" for i using odd [OF that] len n(1) by fastforce
    show "?ps i = send_bytes P ?T (int (i - 1)) 0 (k i ?T)" if "i \<in> ?S" for i using that odd [OF that] Tlen by (auto simp: survivors_def)
    show "?ps (i - 1) = recv_bytes P (encode (v (i - 1))) 0 n (int i) (\<lambda>b _. k (i - 1) b)" if "i \<in> ?S" for i
      using that odd [OF that] by (auto simp: survivors_def)
  qed
  have "(if i \<in> ?S then k i ?T else if i \<in> (\<lambda>i. i - 1) ` ?S then k i ?T else ?ps i) = (if i < P then k i ?T else ps i)" for i
  proof -
    have "i \<in> (\<lambda>i. i - 1) ` ?S" if "i < 2 * rem" "even i"
      using that by (intro image_eqI [of _ _ "i + 1"]) (simp_all, presburger)
    moreover have "i \<in> ?S \<or> i \<in> (\<lambda>i. i - 1) ` ?S \<Longrightarrow> i < P" using par by auto
    ultimately show ?thesis by (auto simp: survivors_def)
  qed
  note run [unfolded this]
  with t1(2) t2 show ?thesis by (meson rtranclp_trans)
qed

text \<open>
  On the bytes of the buffers: the result of every rank is the fold of the contributions, in rank
  order, by \<^verbatim>\<open>reduce_local\<close>.
\<close>

definition contribution :: "byte list option \<Rightarrow> byte list \<Rightarrow> byte list" where
  "contribution sendbuf recvbuf = (case sendbuf of None \<Rightarrow> recvbuf | Some s \<Rightarrow> s)"

definition reduction_of :: "float_arith \<Rightarrow> nat \<Rightarrow> u32 \<Rightarrow> u32 \<Rightarrow> nat \<Rightarrow> (nat \<Rightarrow> byte list) \<Rightarrow> byte list" where
  "reduction_of fa cnt dt op P c = foldl (\<lambda>a b. the (reduce_local fa a b cnt dt op)) (c 0) (map c [1..<P])"

lemma fold_encode:
  fixes v :: "nat \<Rightarrow> 'w::len word list"
  assumes "reduces (\<lambda>inb io m. reduce_local fa inb io m dt op) cnt (red_int sg ro :: 'w word \<Rightarrow> _)"
    and "\<And>i. i < Suc P \<Longrightarrow> length (v i) = cnt"
  shows "reduction_of fa cnt dt op (Suc P) (\<lambda>i. encode (v i)) = encode (rl.total sg ro v {..<Suc P})"
  using assms(2)
proof (induction P)
  case (Suc P)
  have "length (rl.total sg ro v {..<Suc P}) = cnt" using Suc.prems by (intro total_length) auto
  moreover have "map2 (red_int sg ro) (rl.total sg ro v {..<Suc P}) (rl.total sg ro v {Suc P}) = rl.total sg ro v ({..<Suc P} \<union> {Suc P})"
    by (rule rl.total_union) auto
  moreover have "{..<Suc P} \<union> {Suc P} = {..<Suc (Suc P)}" by auto
  ultimately show ?case using Suc assms(1) by (simp add: reduction_of_def reduces_def)
qed (simp add: reduction_of_def lessThan_Suc)

lemma allreduce_typed:
  assumes w: "byte_sized TYPE('w::len)" and P: "1 < P"
    and red: "\<And>n inb io. reduce_local fa inb io n dt op = Some (red_elems (red_int sg ro :: 'w word \<Rightarrow> _) n inb io)"
    and ext: "dtype_size dt = Some (elem_size TYPE('w))" and n: "n = cnt * elem_size TYPE('w)" "n \<le> MAX_MESSAGE"
    and short: "n \<le> kAllreduceShort \<or> cnt < pof2_floor P"
    and len: "\<forall>i<P. length (recvbuf i) = n \<and> length (contribution (sendbuf i) (recvbuf i)) = n \<and> length (tmp i) = n"
    and ps: "\<forall>i<P. ps i = MPI_Allreduce fa P i (sendbuf i) (recvbuf i) (tmp i) cnt dt op (ab i) Ret"
  shows "always_ends P ps (\<lambda>_. reduction_of fa cnt dt op P (\<lambda>i. contribution (sendbuf i) (recvbuf i)))"
proof -
  let ?c = "\<lambda>i. contribution (sendbuf i) (recvbuf i)"
  let ?v = "\<lambda>i. decode cnt (?c i) :: 'w word list"
  have v: "encode (?v i) = ?c i" if "i < P" for i using encode_decode [OF w] len n(1) that by blast
  have red': "reduces (\<lambda>inb io m. reduce_local fa inb io m dt op) cnt (red_int sg ro :: 'w word \<Rightarrow> _)"
    using red_elems_encode [OF w] by (simp add: reduces_def red)
  have start: "ps i = allreduce_bytes fa P i (encode (?v i)) (tmp i) cnt dt (elem_size TYPE('w)) op (ab i) Ret" if "i < P" for i
  proof -
    have "(case sendbuf i of None \<Rightarrow> recvbuf i | Some s \<Rightarrow> memcpy_at (recvbuf i) 0 (take (cnt * elem_size TYPE('w)) s)) = ?c i"
      using len that n(1) by (auto simp: contribution_def memcpy_at_def split: option.splits)
    then show ?thesis using ps P v that ext by (simp add: MPI_Allreduce_def)
  qed
  have "(net_step P)\<^sup>*\<^sup>* (ps, \<lambda>_ _. []) (\<lambda>i. if i < P then Ret (encode (rl.total sg ro ?v {..<P})) else ps i, \<lambda>_ _. [])"
    by (rule allreduce_words [OF P red' _ n short, where tmp = tmp and ab = ab and k = "\<lambda>_. Ret"]) (use len start in \<open>auto simp: decode_def\<close>)
  moreover have "encode (rl.total sg ro ?v {..<P}) = reduction_of fa cnt dt op P ?c"
  proof -
    have "reduction_of fa cnt dt op P (\<lambda>i. encode (?v i)) = encode (rl.total sg ro ?v {..<P})"
      using fold_encode [OF red', of "P - 1" ?v] P by (simp add: decode_def)
    moreover have "map (\<lambda>i. encode (?v i)) [1..<P] = map ?c [1..<P]" "encode (?v 0) = ?c 0" using v P by simp_all
    then have "reduction_of fa cnt dt op P (\<lambda>i. encode (?v i)) = reduction_of fa cnt dt op P ?c"
      by (simp only: reduction_of_def)
    ultimately show ?thesis by simp
  qed
  ultimately show ?thesis by (simp only:) (rule always_endsI, assumption, simp)
qed

text \<open>
  C11: \<^verbatim>\<open>MPI_Allreduce\<close> on short vectors of integers. With any number of ranks (a power of two or not), for every
  integer datatype and supported operation, in place or not, no execution deadlocks, aborts or runs
  for ever, and every rank ends with the same bytes: the contributions of all ranks combined in
  rank order by \<^verbatim>\<open>reduce_local\<close>.
\<close>

theorem MPI_Allreduce_correct:
  assumes "1 < P" and "red_type dt = Some ty" and "ty \<noteq> RT_F32" and "ty \<noteq> RT_F64" and "red_op op = Some ro"
    and "n = cnt * red_width ty" and "n \<le> MAX_MESSAGE" and "n \<le> kAllreduceShort \<or> cnt < pof2_floor P"
    and "\<forall>i<P. length (recvbuf i) = n \<and> length (contribution (sendbuf i) (recvbuf i)) = n \<and> length (tmp i) = n"
    and "\<forall>i<P. ps i = MPI_Allreduce fa P i (sendbuf i) (recvbuf i) (tmp i) cnt dt op (ab i) Ret"
  shows "always_ends P ps (\<lambda>_. reduction_of fa cnt dt op P (\<lambda>i. contribution (sendbuf i) (recvbuf i)))"
proof -
  have ext: "dtype_size dt = Some (red_width ty)" using assms(2) by (rule red_type_width)
  note typed = allreduce_typed [OF _ assms(1) _ _ _ assms(7,8,9,10)]
  show ?thesis
  proof (cases ty)
    case RT_I8
    then show ?thesis using assms(2,5,6) ext by (intro typed [where 'w = 8 and sg = True and ro = ro]) (simp_all add: reduce_local_def elem_size_def)
  next
    case RT_U8
    then show ?thesis using assms(2,5,6) ext by (intro typed [where 'w = 8 and sg = False and ro = ro]) (simp_all add: reduce_local_def elem_size_def)
  next
    case RT_I16
    then show ?thesis using assms(2,5,6) ext by (intro typed [where 'w = 16 and sg = True and ro = ro]) (simp_all add: reduce_local_def elem_size_def)
  next
    case RT_U16
    then show ?thesis using assms(2,5,6) ext by (intro typed [where 'w = 16 and sg = False and ro = ro]) (simp_all add: reduce_local_def elem_size_def)
  next
    case RT_I32
    then show ?thesis using assms(2,5,6) ext by (intro typed [where 'w = 32 and sg = True and ro = ro]) (simp_all add: reduce_local_def elem_size_def)
  next
    case RT_U32
    then show ?thesis using assms(2,5,6) ext by (intro typed [where 'w = 32 and sg = False and ro = ro]) (simp_all add: reduce_local_def elem_size_def)
  next
    case RT_I64
    then show ?thesis using assms(2,5,6) ext by (intro typed [where 'w = 64 and sg = True and ro = ro]) (simp_all add: reduce_local_def elem_size_def)
  next
    case RT_U64
    then show ?thesis using assms(2,5,6) ext by (intro typed [where 'w = 64 and sg = False and ro = ro]) (simp_all add: reduce_local_def elem_size_def)
  qed (use assms in simp_all)
qed

definition sample_ints :: "nat \<Rightarrow> byte list" where
  "sample_ints i = [word_of_nat i, 0, 0, 0, 200, 0, 0, 0]"

definition no_floats :: float_arith where
  "no_floats = \<lparr>fa32 = \<lambda>_ a _. a, fa64 = \<lambda>_ a _. a\<rparr>"

text \<open>Five ranks sum two 32-bit integers each; the second carries into the next byte.\<close>

theorem MPI_Allreduce_correct_witness:
  "always_ends 5 (\<lambda>i. MPI_Allreduce no_floats 5 i (Some (sample_ints i)) (replicate 8 0) (replicate 8 9) 2 2 1 (Ret []) Ret)
     (\<lambda>_. [10, 0, 0, 0, 232, 3, 0, 0])"
proof -
  have "always_ends 5 (\<lambda>i. MPI_Allreduce no_floats 5 i (Some (sample_ints i)) (replicate 8 0) (replicate 8 9) 2 2 1 (Ret []) Ret)
     (\<lambda>_. reduction_of no_floats 2 2 1 5 (\<lambda>i. contribution (Some (sample_ints i)) (replicate 8 0)))"
    by (rule MPI_Allreduce_correct [where ty = RT_I32 and ro = RO_SUM and n = 8 and tmp = "\<lambda>_. replicate 8 9" and ab = "\<lambda>_. Ret []"])
      (simp_all add: red_type_def red_table_def red_op_def MAX_MESSAGE_def MAX_MSG_BYTES_def kAllreduceShort_def sample_ints_def contribution_def)
  moreover have "reduction_of no_floats 2 2 1 5 (\<lambda>i. contribution (Some (sample_ints i)) (replicate 8 0)) = [10, 0, 0, 0, 232, 3, 0, 0]"
    by code_simp
  ultimately show ?thesis by simp
qed

end
