(* ===== verification/Mpi_Transport.thy ===== *)
theory Mpi_Transport
  imports Mpi_P2P
begin

text \<open>
  The mailboxes of \<open>Mpi_Mailbox\<close> implement the channels of \<open>Mpi_Net\<close>. A world is the ranks'
  processes and their inbound boxes; a step is one critical section of a rank: \<^verbatim>\<open>send_chunk\<close> on the
  box of the destination, or a receive on its own box. The timing stamps of a chunk are whatever
  the simulator gave; a receiver that has to wait may still have moved messages to staging.
\<close>

type_synonym 'a world = "(nat \<Rightarrow> 'a rank_proc) \<times> bool \<times> (nat \<Rightarrow> rank_box)"

definition chunk_of_slot :: "MessageSlot \<Rightarrow> Chunk" where
  "chunk_of_slot m = \<lparr>ck_tag = ms_tag m, ck_idx = ms_chunk_idx m, ck_n = ms_n_chunks m, ck_bytes = ms_msg_bytes m,
     ck_data = ms_payload m\<rparr>"

inductive world_step :: "mpi_env \<Rightarrow> nat \<Rightarrow> 'a world \<Rightarrow> 'a world \<Rightarrow> bool" for env P where
  send: "i < P \<Longrightarrow> ps i = Snd d c p \<Longrightarrow> d < P \<Longrightarrow> length (ck_data c) \<le> MAX_MSG_BYTES \<Longrightarrow>
     send_chunk env (e, box d) (int i) (ck_tag c) (ck_data c) (ck_idx c) (ck_n c) mid st cw (ck_bytes c) = Inr (e', b) \<Longrightarrow>
     world_step env P (ps, e, box) (ps(i := p), e', box(d := b))"
| recv: "i < P \<Longrightarrow> ps i = Rcv s k \<Longrightarrow> recv_take env (int s) (e, box i) = Inr (Some m, e', b) \<Longrightarrow>
     world_step env P (ps, e, box) (ps(i := k (chunk_of_slot m)), e', box(i := b))"
| wait: "i < P \<Longrightarrow> ps i = Rcv s k \<Longrightarrow> recv_take env (int s) (e, box i) = Inr (None, e', b) \<Longrightarrow>
     world_step env P (ps, e, box) (ps, e', box(i := b))"

definition channels :: "nat \<Rightarrow> bool \<times> (nat \<Rightarrow> rank_box) \<Rightarrow> nat \<Rightarrow> nat \<Rightarrow> Chunk list" where
  "channels P w s d =
     (if d < P then map chunk_of_slot (filter (\<lambda>m. ms_src m = int s) (pending (fst w, snd w d))) else [])"

definition net_of :: "nat \<Rightarrow> 'a world \<Rightarrow> (Chunk, 'a) net" where
  "net_of P w = (fst w, channels P (snd w))"

definition world_ok :: "mpi_env \<Rightarrow> nat \<Rightarrow> 'a world \<Rightarrow> bool" where
  "world_ok env P w = (\<forall>d<P. box_ok env (fst (snd w), snd (snd w) d))"

definition init_world :: "mpi_env \<Rightarrow> (nat \<Rightarrow> 'a rank_proc) \<Rightarrow> 'a world" where
  "init_world env ps = (ps, False, \<lambda>_. init_box env)"

text \<open>Sends that name a rank and carry at most a slot's payload.\<close>

coinductive wf_proc :: "nat \<Rightarrow> 'a rank_proc \<Rightarrow> bool" for P where
  wf_Ret: "wf_proc P (Ret a)"
| wf_Snd: "d < P \<Longrightarrow> length (ck_data c) \<le> MAX_MSG_BYTES \<Longrightarrow> wf_proc P p \<Longrightarrow> wf_proc P (Snd d c p)"
| wf_Rcv: "(\<And>c. wf_proc P (k c)) \<Longrightarrow> wf_proc P (Rcv s k)"

inductive_simps wf_Snd_iff [simp]: "wf_proc P (Snd d c p)"
inductive_simps wf_Rcv_iff [simp]: "wf_proc P (Rcv s k)"

lemma wf_Ret_iff [simp]: "wf_proc P (Ret a)"
  by (rule wf_proc.wf_Ret)

section \<open>The extension flag\<close>

lemma box_ok_mapped: "box_ok env (e, b) \<Longrightarrow> (e \<longrightarrow> e') \<Longrightarrow> box_ok env (e', b)"
  by (auto simp: box_ok_def pending_def)

lemma pending_flag: "pending (e, b) = pending (e', b)"
  by (simp add: pending_def)

lemma stage_push_flag: "stage_push env s m = Inr s' \<Longrightarrow> fst s \<longrightarrow> fst s'"
  by (auto simp: stage_push_def stage_ext_push_def split: if_splits option.splits)

lemma ring_evict_head_flag: "ring_evict_head env s = Inr s' \<Longrightarrow> fst s \<longrightarrow> fst s'"
  by (auto simp: ring_evict_head_def Let_def split: sum.splits dest: stage_push_flag)

lemma evict_while_full_flag: "evict_while_full env s = Inr s' \<Longrightarrow> fst s \<longrightarrow> fst s'"
proof (induction env s arbitrary: s' rule: evict_while_full.induct)
  case (1 env s)
  show ?case
  proof (cases "RING_SLOTS \<le> mb_count (rb_mb (snd s))")
    case True
    with "1.prems" obtain t where t: "ring_evict_head env s = Inr t" "evict_while_full env t = Inr s'"
      by (subst (asm) evict_while_full.simps) (auto split: sum.splits)
    with "1.IH" [OF True t] ring_evict_head_flag [OF t(1)] show ?thesis by blast
  next
    case False
    with "1.prems" show ?thesis by (subst (asm) evict_while_full.simps) simp
  qed
qed

lemma send_chunk_flag: "send_chunk env s r tg d ci nc mid st cw mb = Inr s' \<Longrightarrow> fst s \<longrightarrow> fst s'"
  by (auto simp: send_chunk_def Let_def split: sum.splits dest: evict_while_full_flag)

lemma recv_acquire_flag: "recv_acquire_thread env w s = Inr (r, s') \<Longrightarrow> fst s \<longrightarrow> fst s'"
proof (induction env w s arbitrary: r s' rule: recv_acquire_thread.induct)
  case (1 env w s)
  note IH = "1.IH" [OF refl refl refl]
  show ?case
  proof (cases "stage_find (rb_stage (snd s)) w = None \<and> stage_ext_find s w = None \<and> ring_find (rb_mb (snd s)) w = None
      \<and> RING_SLOTS \<le> mb_count (rb_mb (snd s))")
    case True
    with "1.prems" obtain t where t: "ring_evict_head env s = Inr t" "recv_acquire_thread env w t = Inr (r, s')"
      by (subst (asm) recv_acquire_thread.simps) (auto simp: Let_def split: sum.splits)
    with IH [OF _ _ _ _ t] True ring_evict_head_flag [OF t(1)] show ?thesis by simp
  next
    case False
    with "1.prems" show ?thesis
      by (subst (asm) recv_acquire_thread.simps) (auto simp: Let_def split: option.splits if_splits)
  qed
qed

lemma recv_release_flag: "fst (recv_release_thread s ref) = fst s"
  by (simp add: recv_release_thread_def Let_def)

lemma recv_take_flag:
  assumes "recv_take env w s = Inr (r, s')"
  shows "fst s \<longrightarrow> fst s'"
proof -
  obtain x t where "recv_acquire_thread env w s = Inr (x, t)" "fst s' = fst t"
    using assms by (auto simp: recv_take_def recv_release_flag split: sum.splits option.splits)
  with recv_acquire_flag show ?thesis by metis
qed

section \<open>The simulation\<close>

lemma chunk_of_chunk_msg:
  "chunk_of_slot (chunk_msg src (ck_tag c) (ck_data c) (ck_idx c) (ck_n c) mid st cw (ck_bytes c)) = c"
  by (simp add: chunk_of_slot_def chunk_msg_def)

lemma world_ok_upd:
  assumes "world_ok env P (ps, e, box)" and "e \<longrightarrow> e'" and "box_ok env (e', b)"
  shows "world_ok env P (qs, e', box(d := b))"
  using assms by (auto simp: world_ok_def intro: box_ok_mapped)

lemma channels_send:
  assumes "d < P" and "pending (e', b) = pending (e, box d) @ [m]" and "ms_src m = int i"
  shows "channels P (e', box(d := b)) = chan_upd (channels P (e, box)) i d (channels P (e, box) i d @ [chunk_of_slot m])"
  using assms by (intro ext) (auto simp: channels_def pending_flag [of e' _ e])

lemma channels_recv:
  assumes i: "i < P" and f: "find (wanted (int s)) (pending (e, box i)) = Some m"
    and p: "pending (e', b) = drop_first (wanted (int s)) (pending (e, box i))"
  shows "\<exists>ms. channels P (e, box) s i = chunk_of_slot m # ms \<and> channels P (e', box(i := b)) = chan_upd (channels P (e, box)) s i ms"
proof -
  have m: "ms_src m = int s" using find_SomeD [OF f] by (simp add: wanted_def)
  have same: "filter (\<lambda>m. ms_src m = int s) (pending (e, box i)) =
      m # filter (\<lambda>m. ms_src m = int s) (pending (e', b))"
    unfolding p using m by (intro filter_drop_first_sub [OF f]) (auto simp: wanted_def)
  have other: "filter (\<lambda>m. ms_src m = int s') (pending (e', b)) = filter (\<lambda>m. ms_src m = int s') (pending (e, box i))"
    if "s' \<noteq> s" for s' unfolding p using m that by (intro filter_drop_first [OF f]) simp
  let ?ms = "map chunk_of_slot (filter (\<lambda>m. ms_src m = int s) (pending (e', b)))"
  have "channels P (e, box) s i = chunk_of_slot m # ?ms" using i by (simp add: channels_def same)
  moreover have "channels P (e', box(i := b)) = chan_upd (channels P (e, box)) s i ?ms"
    using i by (intro ext) (auto simp: channels_def pending_flag [of e' _ e] other [unfolded pending_flag [of e' _ e]])
  ultimately show ?thesis by blast
qed

lemma world_step_net:
  assumes "world_step env P w w'" and "world_ok env P w"
  shows "world_ok env P w' \<and> (net_of P w' = net_of P w \<or> net_step P (net_of P w) (net_of P w'))"
  using assms
proof cases
  case (send i ps d c p e box mid st cw e' b)
  have ok: "box_ok env (e, box d)" using assms(2) send by (simp add: world_ok_def)
  note sent = send_chunk_ok [OF ok send(6) of_nat_0_le_iff send(7)]
  have "channels P (e', box(d := b)) = chan_upd (channels P (e, box)) i d (channels P (e, box) i d @ [c])"
    using channels_send [where box = box, OF send(5) sent(2)] by (simp add: chunk_of_chunk_msg) (simp add: chunk_msg_def)
  moreover have "net_step P (ps, channels P (e, box)) (ps(i := p), chan_upd (channels P (e, box)) i d (channels P (e, box) i d @ [c]))"
    using send(3,4) by (rule net_step.send)
  moreover have "world_ok env P w'"
    unfolding send(2) using assms(2) send(1) sent(1) send_chunk_flag [OF send(7)] by (intro world_ok_upd) auto
  ultimately show ?thesis using send(1,2) by (simp add: net_of_def)
next
  case (recv i ps s k e box m e' b)
  have ok: "box_ok env (e, box i)" using assms(2) recv by (simp add: world_ok_def)
  note tk = recv_take_ok [OF ok recv(5)]
  obtain ms where ms: "channels P (e, box) s i = chunk_of_slot m # ms"
    "channels P (e', box(i := b)) = chan_upd (channels P (e, box)) s i ms"
    using channels_recv [of i P s e box m e' b] recv(3) tk by auto
  have "net_step P (ps, channels P (e, box)) (ps(i := k (chunk_of_slot m)), chan_upd (channels P (e, box)) s i ms)"
    using recv(3,4) ms(1) by (rule net_step.recv)
  moreover have "world_ok env P w'"
    unfolding recv(2) using assms(2) recv(1) tk recv_take_flag [OF recv(5)] by (intro world_ok_upd) auto
  ultimately show ?thesis using recv(1,2) ms(2) by (simp add: net_of_def)
next
  case (wait i ps s k e box e' b)
  have ok: "box_ok env (e, box i)" using assms(2) wait by (simp add: world_ok_def)
  note tk = recv_take_ok [OF ok wait(5)]
  have p: "pending (e', b) = pending (e, box i)" using tk by (metis drop_first_None)
  have "channels P (e', box(i := b)) = channels P (e, box)"
    using p [unfolded pending_flag [of e' _ e]] by (intro ext) (auto simp: channels_def pending_flag [of e' _ e])
  moreover have "world_ok env P w'"
    unfolding wait(2) using assms(2) wait(1) tk recv_take_flag [OF wait(5)] by (intro world_ok_upd) auto
  ultimately show ?thesis using wait(1,2) by (simp add: net_of_def)
qed

lemma world_steps_net:
  "(world_step env P)\<^sup>*\<^sup>* w w' \<Longrightarrow> world_ok env P w \<Longrightarrow> world_ok env P w' \<and> (net_step P)\<^sup>*\<^sup>* (net_of P w) (net_of P w')"
proof (induction rule: rtranclp_induct)
  case (step w' w'')
  then have ok: "world_ok env P w'" "(net_step P)\<^sup>*\<^sup>* (net_of P w) (net_of P w')" by auto
  from world_step_net [OF step.hyps(2) ok(1)] ok(2) show ?case
    by (auto intro: rtranclp.rtrancl_into_rtrancl)
qed simp

lemma init_world_ok: "world_ok env P (init_world env ps)"
  by (simp add: world_ok_def init_world_def init_box_ok)

lemma init_world_net: "net_of P (init_world env ps) = (ps, \<lambda>_ _. [])"
  by (auto simp: net_of_def init_world_def channels_def init_box_pending intro!: ext)

section \<open>Progress\<close>

lemma net_step_wf:
  assumes "net_step P (ps, ch) (ps', ch')" and "\<forall>i<P. wf_proc P (ps i)"
  shows "\<forall>i<P. wf_proc P (ps' i)"
  using assms by (elim net_stepE) (auto dest: spec)

lemma net_steps_wf:
  "(net_step P)\<^sup>*\<^sup>* s t \<Longrightarrow> \<forall>i<P. wf_proc P (fst s i) \<Longrightarrow> \<forall>i<P. wf_proc P (fst t i)"
proof (induction rule: rtranclp_induct)
  case (step t u)
  then show ?case using net_step_wf [of P "fst t" "snd t" "fst u" "snd u"] by simp
qed

text \<open>With room in the extensions the world can make the step the net can make.\<close>

definition world_room :: "mpi_env \<Rightarrow> nat \<Rightarrow> 'a world \<Rightarrow> bool" where
  "world_room env P w = (\<forall>d<P. ext_room env (fst (snd w), snd (snd w) d))"

lemma world_progress:
  assumes step: "net_step P (net_of P w) t" and ok: "world_ok env P w" and room: "world_room env P w"
    and wf: "\<forall>i<P. wf_proc P (fst w i)"
  shows "\<exists>w'. world_step env P w w' \<and> net_step P (net_of P w) (net_of P w')"
proof -
  obtain ps e box where w: "w = (ps, e, box)" by (cases w) auto
  have net: "net_of P w = (ps, channels P (e, box))" by (simp add: w net_of_def)
  have okd: "box_ok env (e, box d)" "ext_room env (e, box d)" if "d < P" for d
    using ok room that by (auto simp: w world_ok_def world_room_def)
  from step [unfolded net] show ?thesis
  proof cases
    case (send i d c p)
    then have d: "d < P" "length (ck_data c) \<le> MAX_MSG_BYTES" using wf by (auto simp: w dest: spec [of _ i])
    obtain e' b where s: "send_chunk env (e, box d) (int i) (ck_tag c) (ck_data c) (ck_idx c) (ck_n c) 0 0 0 (ck_bytes c) = Inr (e', b)"
      using send_chunk_room [OF okd [OF d(1)], of "int i"] by force
    have ws: "world_step env P w (ps(i := p), e', box(d := b))"
      unfolding w using send d s by (intro world_step.send)
    note sent = send_chunk_ok [OF okd(1) [OF d(1)] d(2) of_nat_0_le_iff s]
    have "channels P (e', box(d := b)) = chan_upd (channels P (e, box)) i d (channels P (e, box) i d @ [c])"
      using channels_send [where box = box, OF d(1) sent(2)] by (simp add: chunk_of_chunk_msg) (simp add: chunk_msg_def)
    then have "net_of P (ps(i := p), e', box(d := b)) = t" using send(1) by (simp add: net_of_def)
    with ws step show ?thesis by metis
  next
    case (recv i s k m ms)
    obtain r e' b where tk: "recv_take env (int s) (e, box i) = Inr (r, e', b)"
      using recv_take_room [OF okd [OF recv(2)], of "int s"] by auto
    note tk_ok = recv_take_ok [OF okd(1) [OF recv(2)] tk]
    have "filter (\<lambda>m. ms_src m = int s) (pending (e, box i)) \<noteq> []"
      using recv by (auto simp: channels_def)
    then have "find (wanted (int s)) (pending (e, box i)) \<noteq> None"
      by (auto simp: find_None_iff wanted_def filter_empty_conv)
    then obtain sl where sl: "r = Some sl" "find (wanted (int s)) (pending (e, box i)) = Some sl" using tk_ok by auto
    then have ws: "world_step env P w (ps(i := k (chunk_of_slot sl)), e', box(i := b))"
      unfolding w using recv tk by (intro world_step.recv) auto
    have "net_step P (net_of P w) (net_of P (ps(i := k (chunk_of_slot sl)), e', box(i := b)))"
    proof -
      obtain xs where xs: "channels P (e, box) s i = chunk_of_slot sl # xs"
        "channels P (e', box(i := b)) = chan_upd (channels P (e, box)) s i xs"
        using channels_recv [where box = box, OF recv(2) sl(2)] tk_ok by blast
      then show ?thesis using net_step.recv [of i P ps s k "channels P (e, box)"] recv by (simp add: w net_of_def)
    qed
    with ws show ?thesis by blast
  qed
qed

section \<open>The primitives are well-formed\<close>

lemma chunk_at_length: "length (ck_data (chunk_at tag data n i)) \<le> MAX_MSG_BYTES"
  by simp

lemma wf_sends: "d < P \<Longrightarrow> wf_proc P k \<Longrightarrow> wf_proc P (foldr (\<lambda>i p. Snd d (chunk_at tag data n i) p) is k)"
  by (induction "is") simp_all

lemma wf_send_bytes: "wf_proc P k \<Longrightarrow> wf_proc P (send_bytes P data dest tag k)"
  using wf_sends [of "nat dest" P k] by (auto simp: send_bytes_def Let_def)

lemma wf_recv_loop:
  assumes "\<And>b n. wf_proc P (k b n)"
  shows "wf_proc P (recv_loop s off nb st k)"
proof -
  have "wf_proc P p" if "(\<exists>st. p = recv_loop s off nb st k) \<or> wf_proc P p" for p
    using that
  proof (coinduction arbitrary: p)
    case wf_proc
    then show ?case
    proof
      assume "\<exists>st. p = recv_loop s off nb st k"
      then obtain st where "p = recv_loop s off nb st k" by blast
      then have "p = Rcv s (\<lambda>c. if last_chunk c then k (fst (recv_chunk off nb c st)) (snd (recv_chunk off nb c st))
          else recv_loop s off nb (recv_chunk off nb c st) k)" by (simp only: recv_loop_step [symmetric])
      then show ?thesis using assms by (auto simp del: split_paired_Ex)
    next
      assume "wf_proc P p"
      then show ?thesis by cases auto
    qed
  qed
  then show ?thesis by blast
qed

lemma wf_recv_bytes: "(\<And>b n. wf_proc P (k b n)) \<Longrightarrow> wf_proc P (recv_bytes P buf off nb source k)"
  by (auto simp: recv_bytes_def intro: wf_recv_loop)

lemma wf_xchg_loop:
  assumes "\<And>b n. wf_proc P (k b n)" and "dest < P"
  shows "wf_proc P (xchg_loop t ns dest data s off nb i st dn k)"
proof -
  have "wf_proc P p" if "(\<exists>t i st dn. p = xchg_loop t ns dest data s off nb i st dn k) \<or> wf_proc P p" for p
    using that
  proof (coinduction arbitrary: p)
    case wf_proc
    then show ?case
    proof
      assume "\<exists>t i st dn. p = xchg_loop t ns dest data s off nb i st dn k"
      then obtain t i st dn where p: "p = xchg_loop t ns dest data s off nb i st dn k" by blast
      note step = p [unfolded xchg_loop_step [of t ns dest data s off nb i st dn k]]
      consider (a) "t \<and> i < ns" | (b) "\<not> (t \<and> i < ns)" "\<not> dn" | (c) "\<not> (t \<and> i < ns)" "dn" "\<not> t \<and> Suc i < ns"
        | (d) "\<not> (t \<and> i < ns)" "dn" "\<not> (\<not> t \<and> Suc i < ns)" by blast
      then show ?thesis
      proof cases
        case a
        with step have "p = Snd dest (chunk_at 0 data ns i) (xchg_loop False ns dest data s off nb i st dn k)"
          by (simp only: simp_thms if_True)
        then show ?thesis using assms(2) chunk_at_length by blast
      next
        case b
        with step have "p = Rcv s (\<lambda>c. xchg_loop True ns dest data s off nb (Suc i) (recv_chunk off nb c st) (last_chunk c) k)"
          by (simp only: simp_thms if_False if_True)
        then show ?thesis by blast
      next
        case c
        with step have "p = Snd dest (chunk_at 0 data ns (Suc i)) (xchg_loop False ns dest data s off nb (Suc i) st dn k)"
          by (simp only: simp_thms if_False if_True)
        then show ?thesis using assms(2) chunk_at_length by blast
      next
        case d
        with step have "p = k (fst st) (snd st)" by (simp only: simp_thms if_False)
        with assms(1) [of "fst st" "snd st"] show ?thesis by (metis wf_proc.cases)
      qed
    next
      assume "wf_proc P p"
      then show ?thesis by cases auto
    qed
  qed
  then show ?thesis by blast
qed

lemma wf_xchg_bytes: "(\<And>b n. wf_proc P (k b n)) \<Longrightarrow> wf_proc P (xchg_bytes P sd dest rb off nb source k)"
  by (auto simp: xchg_bytes_def intro!: wf_xchg_loop wf_send_bytes wf_recv_bytes)

lemmas wf_primitives = wf_send_bytes wf_recv_bytes wf_xchg_bytes wf_proc.wf_Ret

section \<open>Properties\<close>

text \<open>
  C9: the mailbox transport refines the channels. Every step of the ranks on the mailboxes keeps
  the invariants of all boxes and is a step of the net, or leaves the net as it is: the receiver of
  a chunk gets the oldest one its source sent and it has not received, and chunks to different
  receivers or of different sources do not disturb each other.
\<close>

theorem transport_refines_channels:
  assumes "(world_step env P)\<^sup>*\<^sup>* (init_world env ps) w"
  shows "world_ok env P w \<and> (net_step P)\<^sup>*\<^sup>* (ps, \<lambda>_ _. []) (net_of P w)"
  using world_steps_net [OF assms init_world_ok] by (simp add: init_world_net)

text \<open>
  C10: the transport does not deadlock where the channels do not. Wherever the net can move, some
  rank can complete a send or a receive on the mailboxes, if each rank's extension has a free slot.
\<close>

theorem transport_progress:
  assumes "(world_step env P)\<^sup>*\<^sup>* (init_world env ps) w" and "\<forall>i<P. wf_proc P (ps i)"
    and "world_room env P w" and "net_step P (net_of P w) t"
  shows "\<exists>w'. world_step env P w w' \<and> net_step P (net_of P w) (net_of P w')"
proof -
  have run: "world_ok env P w" "(net_step P)\<^sup>*\<^sup>* (ps, \<lambda>_ _. []) (net_of P w)"
    using world_steps_net [OF assms(1) init_world_ok] by (simp_all add: init_world_net)
  from net_steps_wf [OF run(2)] assms(2) have "\<forall>i<P. wf_proc P (fst w i)" by (simp add: net_of_def)
  with world_progress [OF assms(4) run(1) assms(3)] show ?thesis by blast
qed

text \<open>Two ranks, one message.\<close>

definition sample_ranks :: "nat \<Rightarrow> nat rank_proc" where
  "sample_ranks i = (if i = 0 then send_bytes 2 [7] 1 0 (Ret 0) else recv_bytes 2 [0, 0] 0 2 0 (\<lambda>b n. Ret n))"

lemma sample_ranks_wf: "\<forall>i<2. wf_proc 2 (sample_ranks i)"
  by (auto simp: sample_ranks_def intro: wf_primitives)

lemma sample_room: "world_room sample_env P (init_world sample_env ps)"
  by (simp add: world_room_def init_world_def ext_room_def sample_env_def init_box_def)

lemma sample_net_step: "\<exists>t. net_step 2 (net_of 2 (init_world sample_env sample_ranks)) t"
proof -
  have "sample_ranks 0 = Snd 1 (chunk_at 0 [7] 1 0) (Ret 0)"
    by (simp add: sample_ranks_def send_bytes_def chunks_of_def MAX_MSG_BYTES_def)
  with net_step.send [of 0 2 sample_ranks 1 "chunk_at 0 [7] 1 0" "Ret 0" "\<lambda>_ _. []"] show ?thesis
    by (auto simp: init_world_net)
qed

theorem transport_progress_witness:
  "\<exists>w'. world_step sample_env 2 (init_world sample_env sample_ranks) w'
     \<and> net_step 2 (net_of 2 (init_world sample_env sample_ranks)) (net_of 2 w')"
  using transport_progress [of sample_env 2 sample_ranks "init_world sample_env sample_ranks"]
    sample_ranks_wf sample_room sample_net_step by blast

theorem transport_refines_channels_witness:
  "\<exists>w. world_step sample_env 2 (init_world sample_env sample_ranks) w \<and> world_ok sample_env 2 w
     \<and> (net_step 2)\<^sup>*\<^sup>* (sample_ranks, \<lambda>_ _. []) (net_of 2 w)"
proof -
  have "\<forall>i<2. wf_proc 2 (fst (init_world sample_env sample_ranks) i)"
    using sample_ranks_wf by (simp add: init_world_def)
  with world_progress [OF _ init_world_ok sample_room] sample_net_step
  obtain w where w: "world_step sample_env 2 (init_world sample_env sample_ranks) w" by blast
  from transport_refines_channels [OF r_into_rtranclp [of "world_step sample_env 2", OF w]] w show ?thesis by blast
qed

end
