(* ===== verification/Mpi_Tree.thy ===== *)
theory Mpi_Tree
  imports Mpi_Transport
begin

text \<open>
  The collectives of src/parallel_abstraction/pimid_mpi.cpp on a binomial tree: \<^verbatim>\<open>bcast_binomial\<close>.
  Masks are powers of two; a loop over a mask is a recursion on its
  exponent, and \<^verbatim>\<open>rel & mask\<close> is the bit of that exponent. Ranks are numbered relative to the
  root; the parent of a relative rank is obtained by clearing its lowest set bit.
\<close>

section \<open>The binomial tree\<close>

text \<open>\<^verbatim>\<open>(g_rank - root + P) % P\<close>, and the rank of a relative rank.\<close>

definition rel_rank :: "nat \<Rightarrow> nat \<Rightarrow> nat \<Rightarrow> nat" where
  "rel_rank P root rank = (rank + P - root) mod P"

definition abs_rank :: "nat \<Rightarrow> nat \<Rightarrow> nat \<Rightarrow> nat" where
  "abs_rank P root rel = (rel + root) mod P"

text \<open>\<^verbatim>\<open>while (mask < P && !(rel & mask)) mask <<= 1\<close>, from the exponent \<open>t\<close>.\<close>

function low_bit :: "nat \<Rightarrow> nat \<Rightarrow> nat \<Rightarrow> nat" where
  "low_bit P rel t = (if 2 ^ t < P \<and> \<not> bit rel t then low_bit P rel (Suc t) else t)"
  by auto
termination
proof (relation "measure (\<lambda>(P, rel, t). P - t)", goal_cases)
  case (2 P rel t)
  then have "t < P" using less_exp [of t] by linarith
  then show ?case by simp
qed simp

declare low_bit.simps [simp del]

lemma low_bit_spec:
  "2 ^ t dvd rel \<Longrightarrow> t \<le> low_bit P rel t \<and> 2 ^ low_bit P rel t dvd rel
     \<and> (P \<le> 2 ^ low_bit P rel t \<or> bit rel (low_bit P rel t)) \<and> (\<forall>u. t \<le> u \<and> u < low_bit P rel t \<longrightarrow> 2 ^ u < P)"
proof (induction P rel t rule: low_bit.induct)
  case (1 P rel t)
  show ?case
  proof (cases "2 ^ t < P \<and> \<not> bit rel t")
    case True
    obtain c where c: "rel = 2 ^ t * c" using "1.prems" by auto
    with True have "even c" by (simp add: bit_iff_odd)
    then have "2 ^ Suc t dvd rel" using c by auto
    note IH = "1.IH" [OF True this]
    have "2 ^ u < P" if "t \<le> u" "u < low_bit P rel (Suc t)" for u
      using IH True that by (cases "u = t") auto
    with IH True show ?thesis by (auto simp: low_bit.simps [of P rel t])
  next
    case False
    with "1.prems" show ?thesis by (auto simp: low_bit.simps [of P rel t])
  qed
qed

lemma dvd_no_bit: "2 ^ s dvd (n :: nat) \<Longrightarrow> u < s \<Longrightarrow> \<not> bit n u"
proof -
  assume "2 ^ s dvd n" "u < s"
  then obtain c where n: "n = 2 ^ s * c" by auto
  have "(2 :: nat) ^ s = 2 ^ u * (2 * 2 ^ (s - Suc u))"
    using \<open>u < s\<close> by (simp add: power_add [symmetric] power_Suc [symmetric] del: power_Suc)
  then have "n div 2 ^ u = 2 * 2 ^ (s - Suc u) * c" by (simp add: n mult.assoc)
  then show ?thesis by (simp add: bit_iff_odd)
qed

lemma low_bit_unique:
  assumes "2 ^ s dvd n" and "bit n s" and "2 ^ s < P"
  shows "low_bit P n 0 = s"
proof -
  let ?t = "low_bit P n 0"
  have t: "2 ^ ?t dvd n" "P \<le> 2 ^ ?t \<or> bit n ?t" using low_bit_spec [of 0 n P] by auto
  have "\<not> s < ?t" using dvd_no_bit [OF t(1)] assms(2) by blast
  moreover have "\<not> ?t < s"
  proof
    assume lt: "?t < s"
    then have "(2 :: nat) ^ ?t < 2 ^ s" by simp
    with assms(3) t(2) have "bit n ?t" by linarith
    with dvd_no_bit [OF assms(1) lt] show False by blast
  qed
  ultimately show ?thesis by simp
qed

text \<open>The lowest set bit of a rank other than the root's; its parent in the tree.\<close>

lemma low_bit_pos:
  assumes "0 < n" and "n < P"
  shows "2 ^ low_bit P n 0 \<le> n" and "2 ^ low_bit P n 0 < P" and "bit n (low_bit P n 0)"
proof -
  have t: "2 ^ low_bit P n 0 dvd n" "P \<le> 2 ^ low_bit P n 0 \<or> bit n (low_bit P n 0)"
    using low_bit_spec [of 0 n P] by auto
  show "2 ^ low_bit P n 0 \<le> n" using t(1) assms(1) by (intro dvd_imp_le)
  with assms t(2) show "2 ^ low_bit P n 0 < P" "bit n (low_bit P n 0)" by linarith+
qed

lemma low_bit_0: "P \<le> 2 ^ low_bit P 0 0"
  using low_bit_spec [of 0 0 P] by simp

definition tree_parent :: "nat \<Rightarrow> nat \<Rightarrow> nat" where
  "tree_parent P n = n - 2 ^ low_bit P n 0"

lemma tree_parent_less: "0 < n \<Longrightarrow> tree_parent P n < n"
  by (simp add: tree_parent_def)

text \<open>Whom a rank reaches by its bits below its lowest set one are exactly its children.\<close>

lemma tree_children:
  assumes b: "b < P"
  shows "(\<exists>s<low_bit P a 0. b = a + 2 ^ s) \<longleftrightarrow> 0 < b \<and> tree_parent P b = a"
proof
  assume "\<exists>s<low_bit P a 0. b = a + 2 ^ s"
  then obtain s where s: "s < low_bit P a 0" "b = a + 2 ^ s" by blast
  have "2 ^ low_bit P a 0 dvd a" using low_bit_spec [of 0 a P] by simp
  then have "2 ^ Suc s dvd a" using s(1) by (meson Suc_leI dvd_trans le_imp_power_dvd)
  then obtain c where c: "a = 2 ^ Suc s * c" by auto
  then have "b = 2 ^ s * (2 * c + 1)" using s(2) by (simp add: algebra_simps)
  then have "2 ^ s dvd b" "bit b s" by (simp_all add: bit_iff_odd)
  moreover have "2 ^ s < P" using s(2) b by linarith
  ultimately have "low_bit P b 0 = s" by (rule low_bit_unique)
  then show "0 < b \<and> tree_parent P b = a" using s(2) by (simp add: tree_parent_def)
next
  assume asm: "0 < b \<and> tree_parent P b = a"
  let ?s = "low_bit P b 0"
  have s: "2 ^ ?s \<le> b" "2 ^ ?s < P" "bit b ?s" "2 ^ ?s dvd b"
    using low_bit_pos asm b low_bit_spec [of 0 b P] by auto
  have ab: "b = a + 2 ^ ?s" using asm s(1) unfolding tree_parent_def by linarith
  obtain c where c: "b = 2 ^ ?s * c" using s(4) by auto
  then have "b div 2 ^ ?s = c" by (metis nonzero_mult_div_cancel_left power_not_zero zero_neq_numeral)
  then have "odd c" using s(3) by (simp add: bit_iff_odd)
  then obtain d where "c = 2 * d + 1" by (auto elim: oddE)
  then have "a = 2 ^ Suc ?s * d" using ab c by (simp add: algebra_simps)
  then have dv: "2 ^ Suc ?s dvd a" by simp
  have "?s < low_bit P a 0"
  proof (rule ccontr)
    assume "\<not> ?s < low_bit P a 0"
    then have le: "low_bit P a 0 \<le> ?s" by simp
    then have "(2 :: nat) ^ low_bit P a 0 \<le> 2 ^ ?s" by (rule power_increasing) simp
    then have "\<not> P \<le> 2 ^ low_bit P a 0" using s(2) by linarith
    then have "bit a (low_bit P a 0)" using low_bit_spec [of 0 a P] by simp
    with dvd_no_bit [OF dv, of "low_bit P a 0"] le show False by simp
  qed
  with ab show "\<exists>s<low_bit P a 0. b = a + 2 ^ s" by blast
qed

lemma abs_rel:
  assumes "root < P" and "i < P"
  shows "abs_rank P root (rel_rank P root i) = i"
proof -
  have "((i + P - root) mod P + root) mod P = (i + P - root + root) mod P" by (simp add: mod_add_left_eq)
  also have "\<dots> = i" using assms by simp
  finally show ?thesis by (simp add: abs_rank_def rel_rank_def)
qed

lemma rel_abs:
  assumes "root < P" and "r < P"
  shows "rel_rank P root (abs_rank P root r) = r"
proof (cases "r + root < P")
  case True
  then show ?thesis using assms by (simp add: rel_rank_def abs_rank_def)
next
  case False
  then have "(r + root) mod P = r + root - P" using assms by (simp add: mod_if)
  then show ?thesis using False assms by (simp add: rel_rank_def abs_rank_def)
qed

lemma rel_rank_less [simp]: "0 < P \<Longrightarrow> rel_rank P root i < P"
  by (simp add: rel_rank_def)

lemma abs_rank_less [simp]: "0 < P \<Longrightarrow> abs_rank P root r < P"
  by (simp add: abs_rank_def)

lemma rel_root: "root < P \<Longrightarrow> rel_rank P root i = 0 \<and> i < P \<longleftrightarrow> i = root"
  by (metis abs_rank_def abs_rel add_0 mod_less rel_abs less_nat_zero_code not_gr_zero)

text \<open>The rank at a distance in relative numbering: \<^verbatim>\<open>(g_rank + mask) % P\<close> and \<^verbatim>\<open>(g_rank - mask + P) % P\<close>.\<close>

lemma rank_plus:
  assumes "root < P" and "i < P" and "rel_rank P root i + m < P"
  shows "(i + m) mod P = abs_rank P root (rel_rank P root i + m)"
proof -
  have "abs_rank P root (rel_rank P root i + m) = (rel_rank P root i + root + m) mod P"
    by (simp add: abs_rank_def add.commute add.left_commute)
  also have "\<dots> = (abs_rank P root (rel_rank P root i) + m) mod P" by (simp add: abs_rank_def mod_add_left_eq)
  finally show ?thesis using abs_rel [OF assms(1,2)] by simp
qed

lemma mod_minus:
  fixes j m P i :: nat
  assumes "j < P" and "m < P" and "(j + m) mod P = i"
  shows "(i + P - m) mod P = j"
  unfolding assms(3) [symmetric] using assms(1,2) by (cases "j + m < P") (auto simp: mod_if)

lemma rank_minus:
  assumes "root < P" and "i < P" and "m \<le> rel_rank P root i"
  shows "(i + P - m) mod P = abs_rank P root (rel_rank P root i - m)"
proof -
  let ?j = "abs_rank P root (rel_rank P root i - m)"
  have r: "rel_rank P root i < P" using assms by simp
  then have "rel_rank P root i - m < P" by linarith
  from rel_abs [OF assms(1) this] assms(1)
  have j: "rel_rank P root ?j = rel_rank P root i - m" "?j < P" by auto
  have mP: "m < P" using assms(3) r by linarith
  have "(?j + m) mod P = i"
    using rank_plus [OF assms(1) j(2), of m] j(1) assms(3) r abs_rel [OF assms(1,2)] by simp
  then show ?thesis by (rule mod_minus [OF j(2) mP])
qed

section \<open>Broadcast\<close>

text \<open>
  The second loop of \<^verbatim>\<open>bcast_binomial\<close>, \<^verbatim>\<open>mask\<close> from \<open>2 ^ (t - 1)\<close> down to 1: pass the buffer on to
  the rank \<^verbatim>\<open>mask\<close> further, if there is one.
\<close>

fun bcast_down :: "nat \<Rightarrow> nat \<Rightarrow> nat \<Rightarrow> byte list \<Rightarrow> nat \<Rightarrow> 'a rank_proc \<Rightarrow> 'a rank_proc" where
  "bcast_down P rank rel data 0 k = k"
| "bcast_down P rank rel data (Suc t) k =
     (if rel + 2 ^ t < P
      then send_bytes P data (int ((rank + 2 ^ t) mod P)) 0 (bcast_down P rank rel data t k)
      else bcast_down P rank rel data t k)"

text \<open>\<^verbatim>\<open>bcast_binomial\<close> of the first \<open>nbytes\<close> of \<open>buf\<close>; the first loop stops at a set bit of \<open>rel\<close> or at \<open>P\<close>.\<close>

definition bcast_binomial ::
  "nat \<Rightarrow> nat \<Rightarrow> byte list \<Rightarrow> nat \<Rightarrow> nat \<Rightarrow> (byte list \<Rightarrow> 'a rank_proc) \<Rightarrow> 'a rank_proc" where
  "bcast_binomial P rank buf nbytes root k =
     (let rel = rel_rank P root rank; t = low_bit P rel 0
      in if 2 ^ t < P
         then recv_bytes P buf 0 nbytes (int ((rank + P - 2 ^ t) mod P))
                (\<lambda>b _. bcast_down P rank rel (take nbytes b) t (k b))
         else bcast_down P rank rel (take nbytes buf) t (k buf))"

lemma solo_bcast_down:
  assumes P: "1 < P" and root: "root < P" and i: "i < P"
  shows "solo (bcast_down P i (rel_rank P root i) data t k) (\<lambda>_. [])
     (\<lambda>d. if d < P \<and> (\<exists>s<t. rel_rank P root d = rel_rank P root i + 2 ^ s) then chunks 0 data else []) k"
proof (induction t)
  case 0
  show ?case by (simp add: solo.idle)
next
  case (Suc t)
  let ?r = "rel_rank P root i"
  let ?out = "\<lambda>t d. if d < P \<and> (\<exists>s<t. rel_rank P root d = ?r + 2 ^ s) then chunks 0 data else []"
  show ?case
  proof (cases "?r + 2 ^ t < P")
    case True
    let ?d = "(i + 2 ^ t) mod P"
    have d: "?d = abs_rank P root (?r + 2 ^ t)" using rank_plus [OF root i True] .
    then have rd: "rel_rank P root ?d = ?r + 2 ^ t" "?d < P" using rel_abs [OF root True] P by (simp_all only: d) simp
    have "(\<lambda>d. only ?d (chunks 0 data) d @ ?out t d) = ?out (Suc t)"
    proof
      fix d
      have new: "(d < P \<and> rel_rank P root d = ?r + 2 ^ t) = (d = ?d)"
        using abs_rel [OF root, of d] rd by (metis d)
      have old: "\<not> (\<exists>s<t. rel_rank P root ?d = ?r + 2 ^ s)" unfolding rd(1) by auto
      have "(d < P \<and> (\<exists>s<Suc t. rel_rank P root d = ?r + 2 ^ s)) =
          (d = ?d \<or> d < P \<and> (\<exists>s<t. rel_rank P root d = ?r + 2 ^ s))"
        unfolding new [symmetric] less_Suc_eq by blast
      then show "only ?d (chunks 0 data) d @ ?out t d = ?out (Suc t) d"
        using old by (cases "d = ?d") (simp_all only: only_apply if_True if_False simp_thms append_Nil append_Nil2)
    qed
    with solo_trans [OF solo_send_bytes [OF P rd(2), of data 0] Suc.IH] True show ?thesis
      by (simp only: bcast_down.simps if_True append_Nil)
  next
    case False
    have "?out (Suc t) = ?out t"
    proof
      fix d
      have "rel_rank P root d < P" using P by simp
      with False have "rel_rank P root d \<noteq> ?r + 2 ^ t" by linarith
      then show "?out (Suc t) d = ?out t d" by (auto simp: less_Suc_eq)
    qed
    with Suc.IH False show ?thesis by simp
  qed
qed

text \<open>One rank of the broadcast: it takes the message of its parent and passes it to its children.\<close>

lemma solo_bcast:
  assumes P: "1 < P" and root: "root < P" and i: "i < P" and len: "length b = n" "length D = n" "n \<le> MAX_MESSAGE"
    and own: "i = root \<Longrightarrow> b = D"
  shows "solo (bcast_binomial P i b n root k)
     (if i = root then (\<lambda>_. []) else only (abs_rank P root (tree_parent P (rel_rank P root i))) (chunks 0 D))
     (\<lambda>d. if d < P \<and> d \<noteq> root \<and> tree_parent P (rel_rank P root d) = rel_rank P root i then chunks 0 D else []) (k D)"
proof -
  let ?r = "rel_rank P root i" and ?t = "low_bit P (rel_rank P root i) 0"
  have children: "(d < P \<and> (\<exists>s<?t. rel_rank P root d = ?r + 2 ^ s)) =
      (d < P \<and> d \<noteq> root \<and> tree_parent P (rel_rank P root d) = ?r)" for d
    using tree_children [of "rel_rank P root d" P ?r] rel_root [OF root, of d] P by auto
  note down = solo_bcast_down [OF P root i, of D ?t "k D", unfolded children]
  show ?thesis
  proof (cases "i = root")
    case True
    then have r: "?r = 0" using rel_root [OF root, of i] i by simp
    then have "\<not> 2 ^ ?t < P" using low_bit_0 [of P] by simp
    then show ?thesis using True down own len by (simp add: bcast_binomial_def Let_def)
  next
    case False
    then have r: "0 < ?r" using rel_root [OF root, of i] i by auto
    have t: "2 ^ ?t \<le> ?r" "2 ^ ?t < P" using low_bit_pos [OF r] P by auto
    have src: "(i + P - 2 ^ ?t) mod P = abs_rank P root (tree_parent P ?r)"
      using rank_minus [OF root i t(1)] by (simp add: tree_parent_def)
    have "memcpy_at b 0 (take n D) = D" using len by (simp add: memcpy_at_def)
    then have "solo (bcast_binomial P i b n root k) (only (abs_rank P root (tree_parent P ?r)) (chunks 0 D)) (\<lambda>_. [])
        (bcast_down P i ?r D ?t (k D))"
      using solo_recv_bytes [OF P, where source = "abs_rank P root (tree_parent P ?r)" and off = 0 and nb = n
          and buf = "b" and data = D and k = "\<lambda>c _. bcast_down P i ?r (take n c) ?t (k c)" and tag = 0] t(2) P len
      by (simp add: bcast_binomial_def Let_def src del: only_apply)
    from solo_trans [OF this down] False show ?thesis by (simp add: only_def)
  qed
qed

text \<open>
  A collective runs: the ranks go in the order of their relative numbers, each after its parent.
  \<open>bcast_stage r\<close> is the state in which the ranks below \<open>r\<close> are through.
\<close>

definition bcast_stage ::
  "nat \<Rightarrow> nat \<Rightarrow> (nat \<Rightarrow> byte list) \<Rightarrow> byte list \<Rightarrow> (byte list \<Rightarrow> nat \<Rightarrow> 'a rank_proc) \<Rightarrow> (nat \<Rightarrow> 'a rank_proc)
     \<Rightarrow> nat \<Rightarrow> (Chunk, 'a) net" where
  "bcast_stage P root buf D k z r =
     (\<lambda>i. if P \<le> i then z i else if rel_rank P root i < r then k D i
          else bcast_binomial P i (buf i) (length D) root (\<lambda>b. k b i),
      \<lambda>s d. if s < P \<and> d < P \<and> rel_rank P root s < r \<and> r \<le> rel_rank P root d \<and> d \<noteq> root
                 \<and> tree_parent P (rel_rank P root d) = rel_rank P root s
            then chunks 0 D else [])"

lemma bcast_stage_step:
  assumes P: "1 < P" and root: "root < P" and r: "r < P"
    and len: "\<And>i. i < P \<Longrightarrow> length (buf i) = length D" "length D \<le> MAX_MESSAGE" and own: "buf root = D"
  shows "(net_step P)\<^sup>*\<^sup>* (bcast_stage P root buf D k z r) (bcast_stage P root buf D k z (Suc r))"
proof -
  let ?i = "abs_rank P root r"
  have i: "?i < P" "rel_rank P root ?i = r" using root r rel_abs [OF root r] by auto
  have only_i: "rel_rank P root j = r \<longleftrightarrow> j = ?i" if "j < P" for j using abs_rel [OF root that] i by auto
  have parent_lt: "tree_parent P (rel_rank P root d) < rel_rank P root d" if "d < P" "d \<noteq> root" for d
    using rel_root [OF root, of d] that by (intro tree_parent_less) auto
  let ?ps = "fst (bcast_stage P root buf D k z r)" and ?ch = "snd (bcast_stage P root buf D k z r)"
  let ?ins = "if ?i = root then (\<lambda>_. []) else only (abs_rank P root (tree_parent P r)) (chunks 0 D)"
  let ?outs = "\<lambda>d. if d < P \<and> d \<noteq> root \<and> tree_parent P (rel_rank P root d) = r then chunks 0 D else []"
  have solo: "solo (?ps ?i) ?ins ?outs (k D ?i)"
  proof -
    have "?ps ?i = bcast_binomial P ?i (buf ?i) (length D) root (\<lambda>b. k b ?i)" using i by (simp add: bcast_stage_def)
    moreover have "?i = root \<Longrightarrow> buf ?i = D" using own by simp
    ultimately show ?thesis
      using solo_bcast [OF P root i(1) len(1) [OF i(1)] HOL.refl len(2), where k = "\<lambda>b. k b ?i"] unfolding i(2) by simp
  qed
  have ins: "?ch s ?i = ?ins s @ []" for s
  proof (cases "?i = root")
    case False
    have lt: "tree_parent P r < r" using parent_lt [OF i(1) False] i(2) by simp
    then have "s < P \<and> rel_rank P root s = tree_parent P r \<longleftrightarrow> s = abs_rank P root (tree_parent P r)"
      using abs_rel [OF root, of s] rel_abs [OF root, of "tree_parent P r"] r P by auto
    then show ?thesis using False i lt by (auto simp: bcast_stage_def)
  qed (simp add: bcast_stage_def)
  have run: "(net_step P)\<^sup>*\<^sup>* (?ps, ?ch) (?ps(?i := k D ?i), \<lambda>s d. (if d = ?i then [] else ?ch s d) @ (if s = ?i then ?outs d else []))"
    by (rule solo_run [where ps = ?ps and ch = ?ch and rest = "\<lambda>_. []", OF solo i(1) HOL.refl ins])
  have "?ps(?i := k D ?i) = fst (bcast_stage P root buf D k z (Suc r))"
  proof
    fix j
    show "(?ps(?i := k D ?i)) j = fst (bcast_stage P root buf D k z (Suc r)) j"
    proof (cases "j < P")
      case True
      then show ?thesis using only_i [OF True] i by (auto simp: bcast_stage_def less_Suc_eq)
    next
      case False
      then show ?thesis using i by (auto simp: bcast_stage_def)
    qed
  qed
  moreover have "(\<lambda>s d. (if d = ?i then [] else ?ch s d) @ (if s = ?i then ?outs d else [])) = snd (bcast_stage P root buf D k z (Suc r))"
  proof (intro ext)
    fix s d
    have d: "d < P \<Longrightarrow> r \<le> rel_rank P root d \<longleftrightarrow> d = ?i \<or> Suc r \<le> rel_rank P root d" using only_i [of d] by auto
    have s: "s < P \<Longrightarrow> rel_rank P root s < Suc r \<longleftrightarrow> s = ?i \<or> rel_rank P root s < r" using only_i [of s] by auto
    show "(if d = ?i then [] else ?ch s d) @ (if s = ?i then ?outs d else []) = snd (bcast_stage P root buf D k z (Suc r)) s d"
      using i d s parent_lt [of d] by (cases "d = ?i"; cases "s = ?i") (auto simp: bcast_stage_def)
  qed
  ultimately show ?thesis using run by simp
qed

lemma bcast_run:
  assumes P: "1 < P" and root: "root < P"
    and len: "\<And>i. i < P \<Longrightarrow> length (buf i) = length D" "length D \<le> MAX_MESSAGE" and own: "buf root = D"
    and ps: "\<And>i. i < P \<Longrightarrow> ps i = bcast_binomial P i (buf i) (length D) root (\<lambda>b. k b i)"
  shows "(net_step P)\<^sup>*\<^sup>* (ps, \<lambda>_ _. []) (\<lambda>i. if i < P then k D i else ps i, \<lambda>_ _. [])"
proof -
  have stages: "r \<le> P \<Longrightarrow> (net_step P)\<^sup>*\<^sup>* (bcast_stage P root buf D k ps 0) (bcast_stage P root buf D k ps r)" for r
  proof (induction r)
    case (Suc r)
    then have "r < P" by simp
    from bcast_stage_step [where P = P and root = root and r = r and buf = buf and D = D and k = k and z = ps, OF P root this]
    have "(net_step P)\<^sup>*\<^sup>* (bcast_stage P root buf D k ps r) (bcast_stage P root buf D k ps (Suc r))"
      using len own by blast
    with Suc show ?case by (meson Suc_leD rtranclp_trans)
  qed simp
  have low: "\<not> P \<le> rel_rank P root i" for i using rel_rank_less [of P root i] P by linarith
  have "bcast_stage P root buf D k ps 0 = (ps, \<lambda>_ _. [])"
    using ps by (auto simp: bcast_stage_def intro!: ext)
  moreover have "bcast_stage P root buf D k ps P = (\<lambda>i. if i < P then k D i else ps i, \<lambda>_ _. [])"
    using P by (auto simp: bcast_stage_def low intro!: ext)
  ultimately show ?thesis using stages [of P] by simp
qed

text \<open>
  \<^verbatim>\<open>bcast_binomial\<close> broadcasts. With any number of ranks, any root and any message, started on
  empty channels, no execution of the ranks deadlocks or runs for ever, and every rank ends with
  the root's buffer, whatever its own buffer held.
\<close>

theorem bcast_binomial_correct:
  assumes "1 < P" and "root < P" and "\<forall>i<P. length (buf i) = length (buf root)" and "length (buf root) \<le> MAX_MESSAGE"
    and "\<forall>i<P. ps i = bcast_binomial P i (buf i) (length (buf root)) root Ret"
  shows "always_ends P ps (\<lambda>_. buf root)"
proof -
  have "(net_step P)\<^sup>*\<^sup>* (ps, \<lambda>_ _. []) (\<lambda>i. if i < P then Ret (buf root) else ps i, \<lambda>_ _. [])"
    by (rule bcast_run [where D = "buf root" and k = "\<lambda>b _. Ret b" and buf = buf and root = root]) (use assms in blast)+
  then show ?thesis by (rule always_endsI) simp
qed

definition sample_buf :: "nat \<Rightarrow> byte list" where
  "sample_buf i = (if i = 2 then [7, 8] else [0, 0])"

lemma sample_buf_length [simp]: "length (sample_buf i) = 2"
  by (simp add: sample_buf_def)

theorem bcast_binomial_correct_witness:
  "always_ends 5 (\<lambda>i. bcast_binomial 5 i (sample_buf i) 2 2 Ret) (\<lambda>_. sample_buf 2)"
proof (rule bcast_binomial_correct)
  show "length (sample_buf 2) \<le> MAX_MESSAGE" by (simp add: MAX_MESSAGE_def MAX_MSG_BYTES_def)
qed simp_all

end
