(* ===== verification/Mpi_Allgather.thy ===== *)
theory Mpi_Allgather
  imports Mpi_Allreduce Mpi_Tree
begin

text \<open>
  \<^verbatim>\<open>MPI_Allgather\<close> and \<^verbatim>\<open>MPI_Allgatherv\<close> of src/parallel_abstraction/pimid_mpi.cpp, with their three algorithms: recursive
  doubling for a power of two of ranks, Bruck's algorithm for short totals and the ring. Counts and
  displacements are in bytes. What a rank sends is read before it receives into the same buffer: the
  regions are disjoint whenever the blocks of the receive buffer are. The scratch memory and the stack
  array are arguments, since their first contents are unspecified.
\<close>

section \<open>The algorithms\<close>

definition kAllgatherShort :: nat where "kAllgatherShort = 81920"

definition kAllgatherLong :: nat where "kAllgatherLong = 524288"

definition is_pof2 :: "nat \<Rightarrow> bool" where
  "is_pof2 n = (0 < n \<and> n AND (n - 1) = 0)"

text \<open>A send buffer argument: \<^verbatim>\<open>MPI_IN_PLACE\<close>, a null pointer, or memory.\<close>

datatype SendArg = In_Place | Null_Buf | Buf "byte list"

text \<open>\<^verbatim>\<open>pos[j]\<close>: where block \<open>j\<close> starts when the blocks lie side by side.\<close>

definition positions :: "nat list \<Rightarrow> nat \<Rightarrow> nat" where
  "positions cnt j = sum_list (take j cnt)"

text \<open>\<^verbatim>\<open>(m >> i) << i\<close>.\<close>

definition clear_low :: "nat \<Rightarrow> nat \<Rightarrow> nat" where
  "clear_low t m = m div 2 ^ t * 2 ^ t"

text \<open>The doubling rounds, on a buffer whose block \<open>j\<close> is at \<open>base + pos j\<close>.\<close>

function ag_rd_loop ::
  "nat \<Rightarrow> nat \<Rightarrow> (nat \<Rightarrow> nat) \<Rightarrow> nat \<Rightarrow> nat \<Rightarrow> nat \<Rightarrow> byte list \<Rightarrow> (byte list \<Rightarrow> 'a rank_proc) \<Rightarrow> 'a rank_proc" where
  "ag_rd_loop P rank pos base t cur w k =
     (if 2 ^ t < P
      then let dst = rank XOR 2 ^ t; dtr = clear_low t dst; mtr = clear_low t rank
           in xchg_bytes P (slice w (base + pos mtr) cur) (int dst) w (base + pos dtr) (pos P - pos dtr) (int dst)
                (\<lambda>w' got. ag_rd_loop P rank pos base (Suc t) (cur + got) w' k)
      else k w)"
  by auto
termination
proof (relation "measure (\<lambda>(P, rank, pos, base, t, cur, w, k). P - t)", goal_cases)
  case (2 P rank pos base t)
  then have "t < P" using less_exp [of t] by linarith
  then show ?case by simp
qed simp

declare ag_rd_loop.simps [simp del]

definition contiguous :: "nat \<Rightarrow> nat list \<Rightarrow> nat list \<Rightarrow> bool" where
  "contiguous P cnt dsp = list_all (\<lambda>j. dsp ! j = dsp ! 0 + positions cnt j) [0..<P]"

text \<open>\<^verbatim>\<open>allgatherv_rd\<close>; \<open>tmp\<close> is the memory of \<^verbatim>\<open>scratch_or_vec\<close>, used when the layout has gaps.\<close>

definition allgatherv_rd ::
  "nat \<Rightarrow> nat \<Rightarrow> byte list \<Rightarrow> nat list \<Rightarrow> nat list \<Rightarrow> byte list \<Rightarrow> (byte list \<Rightarrow> 'a rank_proc) \<Rightarrow> 'a rank_proc" where
  "allgatherv_rd P rank rbuf cnt dsp tmp k =
     (let pos = positions cnt
      in if contiguous P cnt dsp then ag_rd_loop P rank pos (dsp ! 0) 0 (cnt ! rank) rbuf k
         else ag_rd_loop P rank pos 0 0 (cnt ! rank) (memcpy_at tmp (pos rank) (slice rbuf (dsp ! rank) (cnt ! rank)))
                (\<lambda>w. k (foldl (\<lambda>b j. if j \<noteq> rank then memcpy_at b (dsp ! j) (slice w (pos j) (cnt ! j)) else b) rbuf [0..<P])))"

text \<open>The rounds of Bruck's algorithm; the continuation gets the exponent of the last \<^verbatim>\<open>pof2\<close>.\<close>

function bruck_loop ::
  "nat \<Rightarrow> nat \<Rightarrow> (nat \<Rightarrow> nat) \<Rightarrow> nat \<Rightarrow> byte list \<Rightarrow> (nat \<Rightarrow> byte list \<Rightarrow> 'a rank_proc) \<Rightarrow> 'a rank_proc" where
  "bruck_loop P rank rpos t w k =
     (if 2 ^ t \<le> P div 2
      then xchg_bytes P (slice w 0 (rpos (2 ^ t))) (int ((rank + P - 2 ^ t) mod P)) w (rpos (2 ^ t)) (rpos (2 * 2 ^ t) - rpos (2 ^ t))
             (int ((rank + 2 ^ t) mod P)) (\<lambda>w' _. bruck_loop P rank rpos (Suc t) w' k)
      else k t w)"
  by auto
termination
proof (relation "measure (\<lambda>(P, rank, rpos, t, w, k). P - t)", goal_cases)
  case (2 P rank rpos t)
  then have "t < P" using less_exp [of t] by linarith
  then show ?case by simp
qed simp

declare bruck_loop.simps [simp del]

text \<open>\<^verbatim>\<open>allgatherv_bruck\<close>; \<open>w\<close> is the array on the rank's stack.\<close>

definition allgatherv_bruck ::
  "nat \<Rightarrow> nat \<Rightarrow> byte list \<Rightarrow> nat list \<Rightarrow> nat list \<Rightarrow> byte list \<Rightarrow> (byte list \<Rightarrow> 'a rank_proc) \<Rightarrow> 'a rank_proc" where
  "allgatherv_bruck P rank rbuf cnt dsp w k =
     (let rpos = positions (map (\<lambda>j. cnt ! ((rank + j) mod P)) [0..<P]);
          copy_out = (\<lambda>w. foldl (\<lambda>b j. memcpy_at b (dsp ! ((rank + j) mod P)) (slice w (rpos j) (cnt ! ((rank + j) mod P)))) rbuf [1..<P])
      in bruck_loop P rank rpos 0 (memcpy_at w 0 (slice rbuf (dsp ! rank) (cnt ! rank))) (\<lambda>t w.
           let rem = P - 2 ^ t
           in if rem \<noteq> 0
              then xchg_bytes P (slice w 0 (rpos rem)) (int ((rank + P - 2 ^ t) mod P)) w (rpos (2 ^ t)) (rpos (2 ^ t + rem) - rpos (2 ^ t))
                     (int ((rank + 2 ^ t) mod P)) (\<lambda>w' _. k (copy_out w'))
              else k (copy_out w)))"

definition left_of :: "nat \<Rightarrow> nat \<Rightarrow> nat" where
  "left_of P j = (P + j - 1) mod P"

text \<open>The ring, \<open>n\<close> rounds left.\<close>

fun ring_loop ::
  "nat \<Rightarrow> nat \<Rightarrow> nat list \<Rightarrow> nat list \<Rightarrow> nat \<Rightarrow> nat \<Rightarrow> nat \<Rightarrow> byte list \<Rightarrow> (byte list \<Rightarrow> 'a rank_proc) \<Rightarrow> 'a rank_proc" where
  "ring_loop P rank cnt dsp 0 j jnext b k = k b"
| "ring_loop P rank cnt dsp (Suc n) j jnext b k =
     xchg_bytes P (slice b (dsp ! j) (cnt ! j)) (int ((rank + 1) mod P)) b (dsp ! jnext) (cnt ! jnext) (int (left_of P rank))
       (\<lambda>b' _. ring_loop P rank cnt dsp n jnext (left_of P jnext) b' k)"

definition allgatherv_ring ::
  "nat \<Rightarrow> nat \<Rightarrow> byte list \<Rightarrow> nat list \<Rightarrow> nat list \<Rightarrow> (byte list \<Rightarrow> 'a rank_proc) \<Rightarrow> 'a rank_proc" where
  "allgatherv_ring P rank rbuf cnt dsp k = ring_loop P rank cnt dsp (P - 1) rank (left_of P rank) rbuf k"

text \<open>\<^verbatim>\<open>allgatherv_bytes\<close>: the own block is copied in first, unless it is already there.\<close>

definition own_block :: "nat \<Rightarrow> SendArg \<Rightarrow> nat \<Rightarrow> byte list \<Rightarrow> nat list \<Rightarrow> nat list \<Rightarrow> byte list" where
  "own_block rank sendbuf sbytes rbuf cnt dsp =
     (case sendbuf of Buf s \<Rightarrow> memcpy_at rbuf (dsp ! rank) (take (if sbytes < cnt ! rank then sbytes else cnt ! rank) s) | _ \<Rightarrow> rbuf)"

definition allgatherv_bytes ::
  "nat \<Rightarrow> nat \<Rightarrow> SendArg \<Rightarrow> nat \<Rightarrow> byte list \<Rightarrow> nat list \<Rightarrow> nat list \<Rightarrow> byte list \<Rightarrow> byte list
     \<Rightarrow> (byte list \<Rightarrow> 'a rank_proc) \<Rightarrow> 'a rank_proc" where
  "allgatherv_bytes P rank sendbuf sbytes rbuf cnt dsp tmp stk k =
     (let rbuf = own_block rank sendbuf sbytes rbuf cnt dsp; total = sum_list (take P cnt)
      in if P \<le> 1 then k rbuf
         else if total < kAllgatherLong \<and> is_pof2 P then allgatherv_rd P rank rbuf cnt dsp tmp k
         else if total < kAllgatherShort then allgatherv_bruck P rank rbuf cnt dsp stk k
         else allgatherv_ring P rank rbuf cnt dsp k)"

text \<open>The bytes of the send buffer: the datatype is not looked at in place.\<close>

definition send_size :: "SendArg \<Rightarrow> nat \<Rightarrow> u32 \<Rightarrow> nat option" where
  "send_size sendbuf sendcount sendtype =
     (if sendbuf = In_Place then Some 0 else map_option (\<lambda>e. sendcount * e) (dtype_size sendtype))"

definition MPI_Allgather ::
  "nat \<Rightarrow> nat \<Rightarrow> SendArg \<Rightarrow> nat \<Rightarrow> u32 \<Rightarrow> byte list \<Rightarrow> nat \<Rightarrow> u32 \<Rightarrow> byte list \<Rightarrow> byte list \<Rightarrow> 'a rank_proc
     \<Rightarrow> (byte list \<Rightarrow> 'a rank_proc) \<Rightarrow> 'a rank_proc" where
  "MPI_Allgather P rank sendbuf sendcount sendtype recvbuf recvcount recvtype tmp stk ab k =
     (case dtype_size recvtype of None \<Rightarrow> ab
      | Some ext \<Rightarrow>
         (case send_size sendbuf sendcount sendtype of None \<Rightarrow> ab
          | Some sb \<Rightarrow>
             (let blk = recvcount * ext
              in allgatherv_bytes P rank sendbuf sb recvbuf (replicate P blk) (map (\<lambda>j. j * blk) [0..<P]) tmp stk k)))"

definition MPI_Allgatherv ::
  "nat \<Rightarrow> nat \<Rightarrow> SendArg \<Rightarrow> nat \<Rightarrow> u32 \<Rightarrow> byte list \<Rightarrow> nat list \<Rightarrow> nat list \<Rightarrow> u32 \<Rightarrow> byte list \<Rightarrow> byte list \<Rightarrow> 'a rank_proc
     \<Rightarrow> (byte list \<Rightarrow> 'a rank_proc) \<Rightarrow> 'a rank_proc" where
  "MPI_Allgatherv P rank sendbuf sendcount sendtype recvbuf recvcounts displs recvtype tmp stk ab k =
     (case dtype_size recvtype of None \<Rightarrow> ab
      | Some ext \<Rightarrow>
         (case send_size sendbuf sendcount sendtype of None \<Rightarrow> ab
          | Some sb \<Rightarrow> allgatherv_bytes P rank sendbuf sb recvbuf (map (\<lambda>c. c * ext) recvcounts) (map (\<lambda>d. d * ext) displs) tmp stk k))"

section \<open>Blocks in a buffer\<close>

text \<open>The blocks \<open>js\<close> copied into \<open>b\<close>, block \<open>j\<close> at \<open>d j\<close>.\<close>

definition gathered :: "(nat \<Rightarrow> nat) \<Rightarrow> (nat \<Rightarrow> byte list) \<Rightarrow> nat list \<Rightarrow> byte list \<Rightarrow> byte list" where
  "gathered d c js b = foldl (\<lambda>b j. memcpy_at b (d j) (c j)) b js"

text \<open>The blocks of a set lie in the buffer and do not overlap.\<close>

definition apart :: "(nat \<Rightarrow> nat) \<Rightarrow> (nat \<Rightarrow> nat) \<Rightarrow> nat set \<Rightarrow> nat \<Rightarrow> bool" where
  "apart d len I n \<longleftrightarrow> (\<forall>i\<in>I. d i + len i \<le> n) \<and> (\<forall>i\<in>I. \<forall>j\<in>I. i \<noteq> j \<longrightarrow> d i + len i \<le> d j \<or> d j + len j \<le> d i)"

lemma apart_bound: "apart d len I n \<Longrightarrow> i \<in> I \<Longrightarrow> d i + len i \<le> n"
  by (simp add: apart_def)

lemma apart_disjoint: "apart d len I n \<Longrightarrow> i \<in> I \<Longrightarrow> j \<in> I \<Longrightarrow> i \<noteq> j \<Longrightarrow> d i + len i \<le> d j \<or> d j + len j \<le> d i"
  by (simp add: apart_def)

lemma slice_nth: "off + n \<le> length b \<Longrightarrow> x < n \<Longrightarrow> slice b off n ! x = b ! (off + x)"
  by (simp add: slice_def)

lemma slice_length: "off + n \<le> length b \<Longrightarrow> length (slice b off n) = n"
  by (simp add: slice_def)

lemma slice_append: "slice b off m @ slice b (off + m) n = slice b off (m + n)"
  by (simp add: slice_def take_add ac_simps)

lemma memcpy_at_nth:
  "off + length xs \<le> length b \<Longrightarrow> x < length b \<Longrightarrow>
     memcpy_at b off xs ! x = (if off \<le> x \<and> x < off + length xs then xs ! (x - off) else b ! x)"
  by (auto simp: memcpy_at_def nth_append min_def)

lemma gathered_Nil [simp]: "gathered d c [] b = b"
  by (simp add: gathered_def)

lemma gathered_snoc [simp]: "gathered d c (js @ [j]) b = memcpy_at (gathered d c js b) (d j) (c j)"
  by (simp add: gathered_def)

lemma gathered_append: "gathered d c (js @ js') b = gathered d c js' (gathered d c js b)"
  by (simp add: gathered_def)

lemma length_gathered:
  "(\<And>j. j \<in> set js \<Longrightarrow> d j + length (c j) \<le> length b) \<Longrightarrow> length (gathered d c js b) = length b"
  by (induction js rule: rev_induct) simp_all

lemma gathered_cong:
  "(\<And>j. j \<in> set js \<Longrightarrow> d j = d' j \<and> c j = c' j) \<Longrightarrow> gathered d c js b = gathered d' c' js b"
  by (induction js rule: rev_induct) simp_all

lemma gathered_nth_other:
  assumes "\<And>j. j \<in> set js \<Longrightarrow> d j + length (c j) \<le> length b" and "y < length b"
    and "\<And>j. j \<in> set js \<Longrightarrow> \<not> (d j \<le> y \<and> y < d j + length (c j))"
  shows "gathered d c js b ! y = b ! y"
  using assms(1,3)
proof (induction js rule: rev_induct)
  case (snoc i js)
  then show ?case using assms(2) by (auto simp: length_gathered memcpy_at_nth)
qed simp

lemma gathered_nth:
  assumes ok: "apart d (\<lambda>j. length (c j)) I (length b)" and "set js \<subseteq> I" and "j \<in> set js" and "x < length (c j)"
  shows "gathered d c js b ! (d j + x) = c j ! x"
  using assms(2,3)
proof (induction js rule: rev_induct)
  case (snoc i js)
  have in_I: "i \<in> I" "j \<in> I" "set js \<subseteq> I" using snoc.prems by auto
  have len: "length (gathered d c js b) = length b" using apart_bound [OF ok] in_I by (intro length_gathered) auto
  have bound: "d i + length (c i) \<le> length b" "d j + length (c j) \<le> length b" using apart_bound [OF ok] in_I by auto
  show ?case
  proof (cases "j = i")
    case True
    then show ?thesis using bound len assms(4) by (simp add: memcpy_at_nth)
  next
    case False
    then have "\<not> (d i \<le> d j + x \<and> d j + x < d i + length (c i))"
      using apart_disjoint [OF ok in_I(1,2)] assms(4) by auto
    then show ?thesis using snoc False bound len in_I assms(4) by (auto simp: memcpy_at_nth)
  qed
qed simp

lemma slice_gathered:
  assumes "apart d (\<lambda>j. length (c j)) I (length b)" and "set js \<subseteq> I" and "j \<in> set js"
  shows "slice (gathered d c js b) (d j) (length (c j)) = c j"
proof (rule nth_equalityI)
  have len: "length (gathered d c js b) = length b" using apart_bound [OF assms(1)] assms(2) by (intro length_gathered) auto
  have j: "d j + length (c j) \<le> length b" using apart_bound [OF assms(1)] assms by auto
  then show "length (slice (gathered d c js b) (d j) (length (c j))) = length (c j)" using len by (simp add: slice_length)
  then show "slice (gathered d c js b) (d j) (length (c j)) ! x = c j ! x"
    if "x < length (slice (gathered d c js b) (d j) (length (c j)))" for x
    using that gathered_nth [OF assms] j len by (simp add: slice_nth)
qed

text \<open>The order of the copies does not matter.\<close>

lemma gathered_set:
  assumes ok: "apart d (\<lambda>j. length (c j)) I (length b)" and "set js \<subseteq> I" and "set js' = set js"
  shows "gathered d c js b = gathered d c js' b"
proof (rule nth_equalityI)
  have len: "length (gathered d c js b) = length b" "length (gathered d c js' b) = length b"
    using apart_bound [OF ok] assms(2,3) by (auto intro!: length_gathered)
  then show "length (gathered d c js b) = length (gathered d c js' b)" by simp
  fix x assume x: "x < length (gathered d c js b)"
  show "gathered d c js b ! x = gathered d c js' b ! x"
  proof (cases "\<exists>j\<in>set js. d j \<le> x \<and> x < d j + length (c j)")
    case True
    then obtain j where j: "j \<in> set js" "d j \<le> x" "x < d j + length (c j)" by blast
    then show ?thesis
      using gathered_nth [OF ok assms(2) j(1), of "x - d j"] gathered_nth [OF ok, of js' j "x - d j"] assms(2,3) by simp
  next
    case False
    then show ?thesis
      using gathered_nth_other [of js d c b x] gathered_nth_other [of js' d c b x] apart_bound [OF ok] assms(2,3) x len(1) by (simp add: subset_iff)
  qed
qed

lemma gathered_present:
  assumes "d j + length (c j) \<le> length b" and "slice b (d j) (length (c j)) = c j"
  shows "gathered d c [j] b = b"
  using assms by (simp add: gathered_def memcpy_at_def slice_def) (metis append_take_drop_id add.commute drop_drop)

text \<open>Blocks side by side are one block.\<close>

definition adjacent :: "(nat \<Rightarrow> nat) \<Rightarrow> (nat \<Rightarrow> byte list) \<Rightarrow> nat \<Rightarrow> bool" where
  "adjacent d c P \<longleftrightarrow> (\<forall>j<P. d (Suc j) = d j + length (c j))"

lemma adjacent_end:
  assumes "adjacent d c P" and "a \<le> e" and "e \<le> P"
  shows "d e = d a + length (concat (map c [a..<e]))"
  using assms(2,3)
proof (induction e rule: dec_induct)
  case (step e)
  then show ?case using assms(1) by (simp add: adjacent_def)
qed simp

lemma adjacent_apart:
  assumes "adjacent d c P"
  shows "apart d (\<lambda>j. length (c j)) {..<P} (d P)"
proof -
  have mono: "d a \<le> d e" if "a \<le> e" "e \<le> P" for a e using adjacent_end [OF assms that] by simp
  have next_: "d j + length (c j) = d (Suc j)" if "j < P" for j using assms that by (simp add: adjacent_def)
  show ?thesis unfolding apart_def
  proof (intro conjI ballI impI)
    show "d i + length (c i) \<le> d P" if "i \<in> {..<P}" for i using mono [of "Suc i" P] next_ [of i] that by simp
    show "d i + length (c i) \<le> d j \<or> d j + length (c j) \<le> d i" if "i \<in> {..<P}" "j \<in> {..<P}" "i \<noteq> j" for i j
      using mono [of "Suc i" j] mono [of "Suc j" i] next_ that by (cases "i < j") auto
  qed
qed

lemma apart_mono: "apart d len I n \<Longrightarrow> n \<le> n' \<Longrightarrow> apart d len I n'"
  by (auto simp: apart_def)

lemma memcpy_gathered:
  assumes "adjacent d c P" and "a \<le> e" and "e \<le> P" and "d P \<le> length b"
  shows "memcpy_at b (d a) (concat (map c [a..<e])) = gathered d c [a..<e] b"
  using assms(2,3)
proof (induction e rule: dec_induct)
  case (step e)
  have de: "d e = d a + length (concat (map c [a..<e]))" using adjacent_end [OF assms(1), of a e] step by simp
  have "d e \<le> d P" using adjacent_end [OF assms(1), of e P] step by simp
  then have fits: "d a + length (concat (map c [a..<e])) \<le> length b" using de assms(4) by simp
  show ?case using step memcpy_at_append [OF fits, of "c e"] de by simp
qed simp

lemma slice_gathered_run:
  assumes "adjacent d c P" and "d P \<le> length b" and "set js \<subseteq> {..<P}" and "{a..<e} \<subseteq> set js" and "a \<le> e"
  shows "slice (gathered d c js b) (d a) (length (concat (map c [a..<e]))) = concat (map c [a..<e])"
  using assms(5,4)
proof (induction e rule: dec_induct)
  case (step e)
  have e: "e \<in> set js" "e < P" using step assms(3) by auto
  have ok: "apart d (\<lambda>j. length (c j)) {..<P} (length b)" using apart_mono adjacent_apart assms(1,2) by blast
  have de: "d e = d a + length (concat (map c [a..<e]))" using adjacent_end [OF assms(1), of a e] step e by simp
  have "{a..<e} \<subseteq> set js" using step by auto
  then have IH: "slice (gathered d c js b) (d a) (length (concat (map c [a..<e]))) = concat (map c [a..<e])" by (rule step.IH)
  have "concat (map c [a..<Suc e]) = concat (map c [a..<e]) @ c e" using step by simp
  then show ?case using slice_gathered [OF ok assms(3) e(1)] by (simp only: length_append slice_append [symmetric] IH de)
qed (simp add: slice_def)

section \<open>Recursive doubling\<close>

lemma clear_low_block: "x \<in> {clear_low t r..<clear_low t r + 2 ^ t} \<longleftrightarrow> x div 2 ^ t = r div 2 ^ t"
proof -
  have pow: "0 < (2 :: nat) ^ t" by simp
  show ?thesis unfolding clear_low_def atLeastLessThan_iff
  proof
    assume "r div 2 ^ t * 2 ^ t \<le> x \<and> x < r div 2 ^ t * 2 ^ t + 2 ^ t"
    then show "x div 2 ^ t = r div 2 ^ t" by (intro div_nat_eqI) (simp_all add: mult.commute)
  next
    assume "x div 2 ^ t = r div 2 ^ t"
    then show "r div 2 ^ t * 2 ^ t \<le> x \<and> x < r div 2 ^ t * 2 ^ t + 2 ^ t"
      using div_times_less_eq_dividend [of x "2 ^ t"] dividend_less_div_times [OF pow, of x] by (simp add: add.commute)
  qed
qed

lemma clear_low_end: "r < 2 ^ L \<Longrightarrow> t \<le> L \<Longrightarrow> clear_low t r + 2 ^ t \<le> 2 ^ L"
proof -
  assume r: "r < 2 ^ L" and t: "t \<le> L"
  have L: "(2 :: nat) ^ L = 2 ^ (L - t) * 2 ^ t" using t by (simp add: power_add [symmetric])
  then have "r div 2 ^ t < 2 ^ (L - t)" using r by (simp add: less_mult_imp_div_less)
  then have "(r div 2 ^ t + 1) * 2 ^ t \<le> 2 ^ (L - t) * 2 ^ t" by (intro mult_le_mono1) simp
  then show ?thesis using L by (simp add: clear_low_def add_mult_distrib)
qed

text \<open>The blocks a rank has after \<open>t\<close> rounds, in the order in which they came.\<close>

fun rd_blocks :: "nat \<Rightarrow> nat \<Rightarrow> nat list" where
  "rd_blocks r 0 = [r]"
| "rd_blocks r (Suc t) = rd_blocks r t @ [clear_low t (r XOR 2 ^ t)..<clear_low t (r XOR 2 ^ t) + 2 ^ t]"

lemma set_rd_blocks: "set (rd_blocks r t) = {clear_low t r..<clear_low t r + 2 ^ t}"
proof (induction t)
  case 0
  show ?case by (auto simp: clear_low_def)
next
  case (Suc t)
  have "x \<in> set (rd_blocks r (Suc t)) \<longleftrightarrow> x \<in> {clear_low (Suc t) r..<clear_low (Suc t) r + 2 ^ Suc t}" for x
    using Suc clear_low_block [of x t r] clear_low_block [of x t "r XOR 2 ^ t"] clear_low_block [of x "Suc t" r] coset_split [of x t r]
    by (simp del: power_Suc)
  then show ?case by blast
qed

definition rd_data :: "(nat \<Rightarrow> byte list) \<Rightarrow> nat \<Rightarrow> nat \<Rightarrow> byte list" where
  "rd_data c t r = concat (map c [clear_low t r..<clear_low t r + 2 ^ t])"

lemma length_blocks: "length (concat (map c [a..<e])) = (\<Sum>j\<in>{a..<e}. length (c j))"
  by (simp add: length_concat comp_def interv_sum_list_conv_sum_set_nat)

lemma rd_data_Suc: "length (rd_data c (Suc t) r) = length (rd_data c t r) + length (rd_data c t (r XOR 2 ^ t))"
proof -
  let ?B = "\<lambda>t r. {clear_low t r..<clear_low t r + 2 ^ t}"
  have "?B (Suc t) r = ?B t r \<union> ?B t (r XOR 2 ^ t)" using set_rd_blocks [of r "Suc t"] set_rd_blocks [of r t] by simp
  moreover have "?B t r \<inter> ?B t (r XOR 2 ^ t) = {}"
    using clear_low_block coset_other [of r t] by (metis (no_types, lifting) disjoint_iff)
  ultimately show ?thesis by (simp add: rd_data_def length_blocks sum.union_disjoint del: power_Suc)
qed

definition ag_rd_stage ::
  "nat \<Rightarrow> (nat \<Rightarrow> nat) \<Rightarrow> (nat \<Rightarrow> nat) \<Rightarrow> (nat \<Rightarrow> byte list) \<Rightarrow> (nat \<Rightarrow> byte list) \<Rightarrow> (nat \<Rightarrow> byte list \<Rightarrow> 'a rank_proc)
     \<Rightarrow> (nat \<Rightarrow> 'a rank_proc) \<Rightarrow> nat \<Rightarrow> nat \<Rightarrow> 'a rank_proc" where
  "ag_rd_stage P pos base c w k z t i =
     (if i < P
      then ag_rd_loop P i pos (base i) t (length (rd_data c t i)) (gathered (\<lambda>j. base i + pos j) c (rd_blocks i t) (w i)) (k i)
      else z i)"

lemma ag_rd_step:
  assumes P: "1 < P" "P = 2 ^ L" "t < L" and adj: "adjacent pos c P" and small: "pos P \<le> MAX_MESSAGE"
    and room: "\<And>i. i < P \<Longrightarrow> base i + pos P \<le> length (w i)"
  shows "(net_step P)\<^sup>*\<^sup>* (ag_rd_stage P pos base c w k z t, \<lambda>_ _. []) (ag_rd_stage P pos base c w k z (Suc t), \<lambda>_ _. [])"
proof -
  let ?dst = "\<lambda>i. i XOR 2 ^ t"
  let ?d = "\<lambda>i j. base i + pos j"
  let ?w = "\<lambda>t i. gathered (?d i) c (rd_blocks i t) (w i)"
  let ?lo = "clear_low t"
  let ?k = "\<lambda>i w' got. ag_rd_loop P i pos (base i) (Suc t) (length (rd_data c t i) + got) w' (k i)"
  have adj': "adjacent (?d i) c P" for i using adj by (simp add: adjacent_def)
  have dst: "?dst i < P" if "i < P" for i using xor_less [of i L t] that P by simp
  have le: "?lo i + 2 ^ t \<le> P" if "i < P" for i using clear_low_end [of i L t] that P by simp
  have blocks: "set (rd_blocks i t) \<subseteq> {..<P}" if "i < P" for i using le [OF that] by (auto simp: set_rd_blocks)
  have dlen: "length (rd_data c t i) \<le> pos P - pos (?lo i)" if "i < P" for i
    using adjacent_end [OF adj, of "?lo i" "?lo i + 2 ^ t"] adjacent_end [OF adj, of "?lo i + 2 ^ t" P] le [OF that]
    by (simp add: rd_data_def)
  have posle: "pos (?lo i) \<le> pos P" if "i < P" for i using adjacent_end [OF adj, of "?lo i" P] le [OF that] by simp
  have wlen: "length (?w t i) = length (w i)" if "i < P" for i
  proof (rule length_gathered)
    fix j assume "j \<in> set (rd_blocks i t)"
    then show "?d i j + length (c j) \<le> length (w i)"
      using apart_bound [OF adjacent_apart [OF adj'], of j i] room [OF that] blocks [OF that] by fastforce
  qed
  have run: "(net_step P)\<^sup>*\<^sup>*
     (\<lambda>i. if i \<in> {..<P} then xchg_bytes P (rd_data c t i) (int (?dst i)) (?w t i) (?d i (?lo (?dst i))) (pos P - pos (?lo (?dst i))) (int (?dst i)) (?k i) else z i, \<lambda>_ _. [])
     (\<lambda>i. if i \<in> {..<P} then ?k i (memcpy_at (?w t i) (?d i (?lo (?dst i))) (take (pos P - pos (?lo (?dst i))) (rd_data c t (?dst i))))
          (min (pos P - pos (?lo (?dst i))) (length (rd_data c t (?dst i)))) else z i, \<lambda>_ _. [])"
  proof (rule xchg_all [OF P(1)])
    show "i < P \<and> ?dst i \<in> {..<P} \<and> ?dst i \<in> {..<P} \<and> ?dst (?dst i) = i \<and> ?dst (?dst i) = i" if "i \<in> {..<P}" for i
      using that dst xor_twice [of i t] by simp
    show "?d i (?lo (?dst i)) + (pos P - pos (?lo (?dst i))) \<le> length (?w t i)" if "i \<in> {..<P}" for i
      using that room [of i] wlen [of i] posle [OF dst [of i]] by simp
    show "length (rd_data c t i) \<le> MAX_MESSAGE" if "i \<in> {..<P}" for i
      using that dlen [of i] small by simp
  qed simp
  have start: "(if i \<in> {..<P} then xchg_bytes P (rd_data c t i) (int (?dst i)) (?w t i) (?d i (?lo (?dst i))) (pos P - pos (?lo (?dst i))) (int (?dst i)) (?k i) else z i)
      = ag_rd_stage P pos base c w k z t i" for i
  proof (cases "i < P")
    case True
    have "slice (?w t i) (?d i (?lo i)) (length (rd_data c t i)) = rd_data c t i"
      unfolding rd_data_def using adj' [of i] room [OF True] blocks [OF True] by (intro slice_gathered_run) (simp_all add: set_rd_blocks)
    moreover have "2 ^ t < P" using P by simp
    ultimately show ?thesis using True by (simp add: ag_rd_stage_def ag_rd_loop.simps [of P i pos "base i" t] Let_def)
  qed (simp add: ag_rd_stage_def)
  have stop: "(if i \<in> {..<P} then ?k i (memcpy_at (?w t i) (?d i (?lo (?dst i))) (take (pos P - pos (?lo (?dst i))) (rd_data c t (?dst i))))
          (min (pos P - pos (?lo (?dst i))) (length (rd_data c t (?dst i)))) else z i) = ag_rd_stage P pos base c w k z (Suc t) i" for i
  proof (cases "i < P")
    case True
    have "memcpy_at (?w t i) (?d i (?lo (?dst i))) (rd_data c t (?dst i)) = ?w (Suc t) i"
      unfolding rd_data_def rd_blocks.simps gathered_append
      by (rule memcpy_gathered [OF adj']) (use le [OF dst [OF True]] room [OF True] wlen [OF True] in simp_all)
    then show ?thesis using True dlen [OF dst [OF True]] by (simp add: ag_rd_stage_def rd_data_Suc min_absorb2)
  qed (simp add: ag_rd_stage_def)
  show ?thesis using run unfolding start stop .
qed

lemma ag_rd_run:
  assumes P: "1 < P" "P = 2 ^ L" and adj: "adjacent pos c P" and small: "pos P \<le> MAX_MESSAGE"
    and room: "\<And>i. i < P \<Longrightarrow> base i + pos P \<le> length (w i)"
    and own: "\<And>i. i < P \<Longrightarrow> slice (w i) (base i + pos i) (length (c i)) = c i"
  shows "(net_step P)\<^sup>*\<^sup>* (\<lambda>i. if i < P then ag_rd_loop P i pos (base i) 0 (length (c i)) (w i) (k i) else z i, \<lambda>_ _. [])
    (\<lambda>i. if i < P then k i (gathered (\<lambda>j. base i + pos j) c [0..<P] (w i)) else z i, \<lambda>_ _. [])"
proof -
  let ?d = "\<lambda>i j. base i + pos j"
  have upto: "t \<le> L \<Longrightarrow> (net_step P)\<^sup>*\<^sup>* (ag_rd_stage P pos base c w k z 0, \<lambda>_ _. []) (ag_rd_stage P pos base c w k z t, \<lambda>_ _. [])" for t
  proof (induction t)
    case (Suc t)
    then show ?case using ag_rd_step [OF P, of t pos c base w k z] adj small room by (auto intro: rtranclp_trans)
  qed simp
  have ok: "apart (?d i) (\<lambda>j. length (c j)) {..<P} (length (w i))" if "i < P" for i
    using apart_mono [OF adjacent_apart, of "?d i" c P] adj room [OF that] by (simp add: adjacent_def)
  have "ag_rd_stage P pos base c w k z 0 = (\<lambda>i. if i < P then ag_rd_loop P i pos (base i) 0 (length (c i)) (w i) (k i) else z i)"
  proof
    fix i
    show "ag_rd_stage P pos base c w k z 0 i = (if i < P then ag_rd_loop P i pos (base i) 0 (length (c i)) (w i) (k i) else z i)"
      using gathered_present [of "?d i" i c "w i"] apart_bound [OF ok, of i i] own [of i]
      by (simp add: ag_rd_stage_def rd_data_def clear_low_def)
  qed
  moreover have "ag_rd_stage P pos base c w k z L = (\<lambda>i. if i < P then k i (gathered (?d i) c [0..<P] (w i)) else z i)"
  proof
    fix i
    show "ag_rd_stage P pos base c w k z L i = (if i < P then k i (gathered (?d i) c [0..<P] (w i)) else z i)"
    proof (cases "i < P")
      case True
      have "clear_low L i = 0" using True P by (simp add: clear_low_def)
      then have all: "set (rd_blocks i L) = {..<P}" using P by (auto simp: set_rd_blocks)
      have "gathered (?d i) c (rd_blocks i L) (w i) = gathered (?d i) c [0..<P] (w i)"
        by (rule gathered_set [OF ok [OF True]]) (auto simp: all)
      moreover have "\<not> 2 ^ L < P" using P by simp
      ultimately show ?thesis using True by (simp add: ag_rd_stage_def ag_rd_loop.simps [of P i pos "base i" L])
    qed (simp add: ag_rd_stage_def)
  qed
  ultimately show ?thesis using upto [of L] by simp
qed

section \<open>What every algorithm is given and gives\<close>

text \<open>
  A rank's own displacements place the blocks in its receive buffer without overlap; block \<open>j\<close> of the
  result is what rank \<open>j\<close> has in its own place.
\<close>

definition gather_ok :: "nat \<Rightarrow> nat list \<Rightarrow> (nat \<Rightarrow> nat list) \<Rightarrow> (nat \<Rightarrow> byte list) \<Rightarrow> bool" where
  "gather_ok P cnt dsp b \<longleftrightarrow> length cnt = P \<and> sum_list cnt \<le> MAX_MESSAGE
     \<and> (\<forall>i<P. length (dsp i) = P \<and> apart ((!) (dsp i)) ((!) cnt) {..<P} (length (b i)))"

definition block_of :: "nat list \<Rightarrow> (nat \<Rightarrow> nat list) \<Rightarrow> (nat \<Rightarrow> byte list) \<Rightarrow> nat \<Rightarrow> byte list" where
  "block_of cnt dsp b j = slice (b j) (dsp j ! j) (cnt ! j)"

definition all_blocks :: "nat \<Rightarrow> nat list \<Rightarrow> (nat \<Rightarrow> nat list) \<Rightarrow> (nat \<Rightarrow> byte list) \<Rightarrow> nat \<Rightarrow> byte list" where
  "all_blocks P cnt dsp b i = gathered ((!) (dsp i)) (block_of cnt dsp b) [0..<P] (b i)"

lemma apart_cong: "(\<And>j. j \<in> I \<Longrightarrow> len j = len' j) \<Longrightarrow> apart d len I n = apart d len' I n"
  by (simp add: apart_def)

lemma block_of_length: "gather_ok P cnt dsp b \<Longrightarrow> j < P \<Longrightarrow> length (block_of cnt dsp b j) = cnt ! j"
  by (simp add: gather_ok_def block_of_def apart_def slice_length)

lemma gather_ok_apart:
  assumes "gather_ok P cnt dsp b" and "i < P"
  shows "apart ((!) (dsp i)) (\<lambda>j. length (block_of cnt dsp b j)) {..<P} (length (b i))"
  using apart_cong [of "{..<P}" "\<lambda>j. length (block_of cnt dsp b j)" "(!) cnt"] block_of_length [OF assms(1)] assms
  by (simp add: gather_ok_def)

lemma gathered_rest:
  assumes ok: "gather_ok P cnt dsp b" and "i < P" and js: "insert i (set js) = {..<P}"
  shows "gathered ((!) (dsp i)) (block_of cnt dsp b) js (b i) = all_blocks P cnt dsp b i"
proof -
  let ?d = "(!) (dsp i)" and ?c = "block_of cnt dsp b"
  note ap = gather_ok_apart [OF assms(1,2)]
  have "gathered ?d ?c [i] (b i) = b i"
    using apart_bound [OF ap, of i] assms(2) block_of_length [OF ok, of i] by (intro gathered_present) (simp_all add: block_of_def)
  then have "gathered ?d ?c js (b i) = gathered ?d ?c ([i] @ js) (b i)" by (simp only: gathered_append)
  also have "\<dots> = gathered ?d ?c [0..<P] (b i)"
    by (rule gathered_set [OF ap]) (simp_all add: js lessThan_atLeast0)
  finally show ?thesis by (simp add: all_blocks_def)
qed

lemma positions_adjacent:
  assumes "length cnt = P" and "\<And>j. j < P \<Longrightarrow> length (c j) = cnt ! j"
  shows "adjacent (positions cnt) c P" and "positions cnt P = sum_list cnt" and "positions cnt 0 = 0"
  using assms by (auto simp: adjacent_def positions_def take_Suc_conv_app_nth)

lemma foldl_filter: "foldl (\<lambda>b j. if Q j then f b j else b) b js = foldl f b (filter Q js)"
  by (induction js arbitrary: b) simp_all

lemma allgatherv_rd_run:
  assumes P: "1 < P" "P = 2 ^ L" and ok: "gather_ok P cnt dsp b" and tmp: "\<And>i. i < P \<Longrightarrow> sum_list cnt \<le> length (tmp i)"
  shows "(net_step P)\<^sup>*\<^sup>* (\<lambda>i. if i < P then allgatherv_rd P i (b i) cnt (dsp i) (tmp i) (k i) else z i, \<lambda>_ _. [])
    (\<lambda>i. if i < P then k i (all_blocks P cnt dsp b i) else z i, \<lambda>_ _. [])"
proof -
  let ?c = "block_of cnt dsp b" and ?pos = "positions cnt" and ?co = "\<lambda>i. contiguous P cnt (dsp i)"
  let ?base = "\<lambda>i. if ?co i then dsp i ! 0 else 0"
  let ?w = "\<lambda>i. if ?co i then b i else memcpy_at (tmp i) (?pos i) (?c i)"
  let ?out = "\<lambda>i w. foldl (\<lambda>b j. if j \<noteq> i then memcpy_at b (dsp i ! j) (slice w (?pos j) (cnt ! j)) else b) (b i) [0..<P]"
  let ?k = "\<lambda>i. if ?co i then k i else (\<lambda>w. k i (?out i w))"
  note clen = block_of_length [OF ok]
  have "length cnt = P" using ok by (simp add: gather_ok_def)
  note pos = positions_adjacent [where c = ?c, OF this clen]
  have fits: "?pos i + length (?c i) \<le> length (tmp i)" if "i < P" for i
    using apart_bound [OF adjacent_apart [OF pos(1)], of i] tmp [OF that] pos(2) that by simp
  have co: "dsp i ! j = dsp i ! 0 + ?pos j" if "?co i" "j < P" for i j
  proof -
    have "j \<in> set [0..<P]" using that(2) by simp
    then show ?thesis using that(1) unfolding contiguous_def list_all_iff by blast
  qed
  have room: "?base i + ?pos P \<le> length (?w i)" if i: "i < P" for i
  proof (cases "?co i")
    case True
    have "dsp i ! (P - 1) + cnt ! (P - 1) \<le> length (b i)"
      using apart_bound [OF gather_ok_apart [OF ok i], of "P - 1"] clen [of "P - 1"] P(1) by simp
    moreover have "?pos P = ?pos (P - 1) + cnt ! (P - 1)"
      using pos(1) P(1) clen [of "P - 1"] by (auto simp: adjacent_def dest: spec [of _ "P - 1"])
    ultimately show ?thesis using True co [OF True, of "P - 1"] P(1) by simp
  next
    case False
    then show ?thesis using fits [OF i] tmp [OF i] pos(2) by simp
  qed
  have own: "slice (?w i) (?base i + ?pos i) (length (?c i)) = ?c i" if "i < P" for i
  proof (cases "?co i")
    case True
    then show ?thesis using co [OF True that] clen [OF that] by (simp add: block_of_def)
  next
    case False
    then show ?thesis using fits [OF that] by (simp add: slice_def memcpy_at_def)
  qed
  have run: "(net_step P)\<^sup>*\<^sup>* (\<lambda>i. if i < P then ag_rd_loop P i ?pos (?base i) 0 (length (?c i)) (?w i) (?k i) else z i, \<lambda>_ _. [])
    (\<lambda>i. if i < P then ?k i (gathered (\<lambda>j. ?base i + ?pos j) ?c [0..<P] (?w i)) else z i, \<lambda>_ _. [])"
    by (rule ag_rd_run [OF P pos(1)]) (use pos(2) ok room own in \<open>simp_all add: gather_ok_def\<close>)
  have start: "(if i < P then ag_rd_loop P i ?pos (?base i) 0 (length (?c i)) (?w i) (?k i) else z i) =
      (if i < P then allgatherv_rd P i (b i) cnt (dsp i) (tmp i) (k i) else z i)" for i
    using clen [of i] by (simp add: allgatherv_rd_def Let_def block_of_def)
  have stop: "(if i < P then ?k i (gathered (\<lambda>j. ?base i + ?pos j) ?c [0..<P] (?w i)) else z i) =
      (if i < P then k i (all_blocks P cnt dsp b i) else z i)" for i
  proof (cases "i < P")
    case i: True
    show ?thesis
    proof (cases "?co i")
      case True
      have "gathered (\<lambda>j. dsp i ! 0 + ?pos j) ?c [0..<P] (b i) = gathered ((!) (dsp i)) ?c [0..<P] (b i)"
      proof (rule gathered_cong)
        show "dsp i ! 0 + ?pos j = dsp i ! j \<and> ?c j = ?c j" if "j \<in> set [0..<P]" for j using co [OF True, of j] that by simp
      qed
      then show ?thesis using True by (simp add: all_blocks_def)
    next
      case False
      let ?g = "gathered ?pos ?c [0..<P] (?w i)"
      have ap: "apart ?pos (\<lambda>j. length (?c j)) {..<P} (length (?w i))"
        using apart_mono [OF adjacent_apart [OF pos(1)]] room [OF i] False by simp
      have "?out i ?g = gathered ((!) (dsp i)) (\<lambda>j. slice ?g (?pos j) (cnt ! j)) (filter (\<lambda>j. j \<noteq> i) [0..<P]) (b i)"
        by (simp add: gathered_def foldl_filter)
      also have "\<dots> = gathered ((!) (dsp i)) ?c (filter (\<lambda>j. j \<noteq> i) [0..<P]) (b i)"
      proof (rule gathered_cong)
        fix j assume "j \<in> set (filter (\<lambda>j. j \<noteq> i) [0..<P])"
        then show "dsp i ! j = dsp i ! j \<and> slice ?g (?pos j) (cnt ! j) = ?c j"
          using slice_gathered [OF ap, of "[0..<P]" j] clen [of j] by (simp add: lessThan_atLeast0)
      qed
      also have "\<dots> = all_blocks P cnt dsp b i" using i by (intro gathered_rest [OF ok]) auto
      finally show ?thesis by (simp only: i False if_True if_False add_0 simp_thms)
    qed
  qed simp
  show ?thesis using run unfolding start stop .
qed

section \<open>The ring\<close>

lemma rotate_back:
  assumes "i < P" and "m < (P :: nat)"
  shows "((i + m) mod P + P - m) mod P = i" and "((i + P - m) mod P + m) mod P = i"
  using mod_minus [OF assms HOL.refl] assms by (auto simp: mod_add_left_eq)

lemma left_of_steps:
  assumes "i < P" and "n \<le> P"
  shows "(left_of P ^^ n) i = (i + P - n) mod P"
  using assms(2)
proof (induction n)
  case (Suc n)
  have "(left_of P ^^ Suc n) i = left_of P ((i + P - n) mod P)" using Suc by simp
  also have "\<dots> = (i + P - Suc n) mod P"
    using Suc.prems assms(1) by (cases "n \<le> i"; cases "n < i") (auto simp: left_of_def mod_if)
  finally show ?case .
qed (use assms in simp)

lemma ring_reaches_all:
  assumes "i < P"
  shows "(\<lambda>n. (left_of P ^^ n) i) ` {..<P} = {..<P}"
proof
  show "(\<lambda>n. (left_of P ^^ n) i) ` {..<P} \<subseteq> {..<P}" using left_of_steps [OF assms] by auto
  show "{..<P} \<subseteq> (\<lambda>n. (left_of P ^^ n) i) ` {..<P}"
  proof
    fix x assume x: "x \<in> {..<P}"
    let ?n = "(i + P - x) mod P"
    have "(left_of P ^^ ?n) i = (i + P - ?n) mod P" using x assms by (intro left_of_steps) (simp_all add: less_imp_le)
    also have "\<dots> = x" using x assms by (cases "x \<le> i") (auto simp: mod_if)
    finally show "x \<in> (\<lambda>n. (left_of P ^^ n) i) ` {..<P}" using x by (intro image_eqI [of _ _ ?n]) auto
  qed
qed

definition ring_stage ::
  "nat \<Rightarrow> nat list \<Rightarrow> (nat \<Rightarrow> nat list) \<Rightarrow> (nat \<Rightarrow> byte list) \<Rightarrow> (nat \<Rightarrow> byte list \<Rightarrow> 'a rank_proc) \<Rightarrow> (nat \<Rightarrow> 'a rank_proc)
     \<Rightarrow> nat \<Rightarrow> nat \<Rightarrow> 'a rank_proc" where
  "ring_stage P cnt dsp b k z n i =
     (if i < P
      then ring_loop P i cnt (dsp i) (P - 1 - n) ((left_of P ^^ n) i) ((left_of P ^^ Suc n) i)
             (gathered ((!) (dsp i)) (block_of cnt dsp b) (map (\<lambda>m. (left_of P ^^ m) i) [0..<Suc n]) (b i)) (k i)
      else z i)"

lemma ring_step:
  assumes P: "1 < P" and ok: "gather_ok P cnt dsp b" and n: "n < P - 1"
  shows "(net_step P)\<^sup>*\<^sup>* (ring_stage P cnt dsp b k z n, \<lambda>_ _. []) (ring_stage P cnt dsp b k z (Suc n), \<lambda>_ _. [])"
proof -
  let ?j = "\<lambda>n i. (left_of P ^^ n) i" and ?c = "block_of cnt dsp b"
  let ?js = "\<lambda>n i. map (\<lambda>m. ?j m i) [0..<Suc n]"
  let ?w = "\<lambda>n i. gathered ((!) (dsp i)) ?c (?js n i) (b i)"
  let ?k = "\<lambda>i b' (_ :: nat). ring_loop P i cnt (dsp i) (P - 1 - Suc n) (?j (Suc n) i) (left_of P (?j (Suc n) i)) b' (k i)"
  have less: "?j m i < P" if "i < P" "m \<le> P" for m i using left_of_steps [OF that] P by simp
  have js: "set (?js n i) \<subseteq> {..<P}" if "i < P" for i using less [OF that] n by auto
  note ap = gather_ok_apart [OF ok] and clen = block_of_length [OF ok]
  have wlen: "length (?w n i) = length (b i)" if "i < P" for i
    using apart_bound [OF ap [OF that]] js [OF that] by (intro length_gathered) blast
  have src: "?j n (left_of P i) = ?j (Suc n) i" for i by (simp add: funpow_swap1)
  have cnt: "cnt ! j \<le> MAX_MESSAGE" if "j < P" for j
    using ok that elem_le_sum_list [of j cnt] by (simp add: gather_ok_def)
  have run: "(net_step P)\<^sup>*\<^sup>*
     (\<lambda>i. if i \<in> {..<P} then xchg_bytes P (?c (?j n i)) (int ((i + 1) mod P)) (?w n i) (dsp i ! ?j (Suc n) i) (cnt ! ?j (Suc n) i) (int (left_of P i)) (?k i) else z i, \<lambda>_ _. [])
     (\<lambda>i. if i \<in> {..<P} then ?k i (memcpy_at (?w n i) (dsp i ! ?j (Suc n) i) (take (cnt ! ?j (Suc n) i) (?c (?j n (left_of P i)))))
        (min (cnt ! ?j (Suc n) i) (length (?c (?j n (left_of P i))))) else z i, \<lambda>_ _. [])"
  proof (rule xchg_all [OF P])
    show "i < P \<and> (i + 1) mod P \<in> {..<P} \<and> left_of P i \<in> {..<P} \<and> left_of P ((i + 1) mod P) = i \<and> (left_of P i + 1) mod P = i" if "i \<in> {..<P}" for i
      using that rotate_back [of i P 1] P by (simp add: left_of_def add.commute)
    show "dsp i ! ?j (Suc n) i + cnt ! ?j (Suc n) i \<le> length (?w n i)" if "i \<in> {..<P}" for i
      using that wlen [of i] less [of i "Suc n"] n clen [of "?j (Suc n) i"] apart_bound [OF ap, of i "?j (Suc n) i"] by simp
    show "length (?c (?j n i)) \<le> MAX_MESSAGE" if "i \<in> {..<P}" for i using that less [of i n] n clen cnt by simp
  qed simp
  have start: "(if i \<in> {..<P} then xchg_bytes P (?c (?j n i)) (int ((i + 1) mod P)) (?w n i) (dsp i ! ?j (Suc n) i) (cnt ! ?j (Suc n) i) (int (left_of P i)) (?k i) else z i)
      = ring_stage P cnt dsp b k z n i" for i
  proof (cases "i < P")
    case True
    have "slice (?w n i) (dsp i ! ?j n i) (cnt ! ?j n i) = ?c (?j n i)"
      using slice_gathered [OF ap [OF True] js [OF True], of "?j n i"] less [OF True, of n] n clen by simp
    moreover have "P - 1 - n = Suc (P - 1 - Suc n)" using n by simp
    ultimately show ?thesis using True by (simp add: ring_stage_def)
  qed (simp add: ring_stage_def)
  have stop: "(if i \<in> {..<P} then ?k i (memcpy_at (?w n i) (dsp i ! ?j (Suc n) i) (take (cnt ! ?j (Suc n) i) (?c (?j n (left_of P i)))))
        (min (cnt ! ?j (Suc n) i) (length (?c (?j n (left_of P i))))) else z i) = ring_stage P cnt dsp b k z (Suc n) i" for i
  proof (cases "i < P")
    case True
    have "cnt ! ?j (Suc n) i = length (?c (?j (Suc n) i))" using less [OF True, of "Suc n"] n clen by simp
    moreover have "?js (Suc n) i = ?js n i @ [?j (Suc n) i]" by simp
    ultimately show ?thesis using True by (simp only: ring_stage_def src gathered_snoc) simp
  qed (simp add: ring_stage_def)
  show ?thesis using run unfolding start stop .
qed

lemma allgatherv_ring_run:
  assumes P: "1 < P" and ok: "gather_ok P cnt dsp b"
  shows "(net_step P)\<^sup>*\<^sup>* (\<lambda>i. if i < P then allgatherv_ring P i (b i) cnt (dsp i) (k i) else z i, \<lambda>_ _. [])
    (\<lambda>i. if i < P then k i (all_blocks P cnt dsp b i) else z i, \<lambda>_ _. [])"
proof -
  have upto: "n \<le> P - 1 \<Longrightarrow> (net_step P)\<^sup>*\<^sup>* (ring_stage P cnt dsp b k z 0, \<lambda>_ _. []) (ring_stage P cnt dsp b k z n, \<lambda>_ _. [])" for n
  proof (induction n)
    case (Suc n)
    then show ?case using ring_step [OF P ok, of n k z] by (auto intro: rtranclp_trans)
  qed simp
  have start: "ring_stage P cnt dsp b k z 0 i = (if i < P then allgatherv_ring P i (b i) cnt (dsp i) (k i) else z i)" for i
  proof (cases "i < P")
    case True
    have "gathered ((!) (dsp i)) (block_of cnt dsp b) [i] (b i) = b i"
      using apart_bound [OF gather_ok_apart [OF ok True], of i] True block_of_length [OF ok True]
      by (intro gathered_present) (simp_all add: block_of_def)
    then show ?thesis using True by (simp add: ring_stage_def allgatherv_ring_def)
  qed (simp add: ring_stage_def)
  have stop: "ring_stage P cnt dsp b k z (P - 1) i = (if i < P then k i (all_blocks P cnt dsp b i) else z i)" for i
  proof (cases "i < P")
    case True
    have "set (map (\<lambda>m. (left_of P ^^ m) i) [0..<P]) = {..<P}" using ring_reaches_all [OF True] by (simp add: lessThan_atLeast0)
    then have "gathered ((!) (dsp i)) (block_of cnt dsp b) (map (\<lambda>m. (left_of P ^^ m) i) [0..<P]) (b i) = all_blocks P cnt dsp b i"
      using True by (intro gathered_rest [OF ok]) auto
    moreover have "Suc (P - 1) = P" using P by simp
    ultimately show ?thesis using True by (simp only: ring_stage_def) simp
  qed (simp add: ring_stage_def)
  have "ring_stage P cnt dsp b k z 0 = (\<lambda>i. if i < P then allgatherv_ring P i (b i) cnt (dsp i) (k i) else z i)"
    "ring_stage P cnt dsp b k z (P - 1) = (\<lambda>i. if i < P then k i (all_blocks P cnt dsp b i) else z i)"
    by (intro ext, rule start, intro ext, rule stop)
  then show ?thesis using upto [of "P - 1"] by simp
qed

section \<open>Bruck's algorithm\<close>

definition rot_cnt :: "nat \<Rightarrow> nat list \<Rightarrow> nat \<Rightarrow> nat list" where
  "rot_cnt P cnt i = map (\<lambda>j. cnt ! ((i + j) mod P)) [0..<P]"

text \<open>
  One exchange: every rank has its blocks \<open>0..<p\<close>, in its own rotated numbering, and sends the first \<open>q\<close>
  of them \<open>p\<close> ranks down.
\<close>

lemma bruck_xchg:
  assumes P: "1 < P" and p: "q \<le> p" "p + q \<le> P" "p < P"
    and adj: "\<And>i. i < P \<Longrightarrow> adjacent (rpos i) (\<lambda>j. c ((i + j) mod P)) P" "\<And>i. i < P \<Longrightarrow> rpos i 0 = 0"
    and room: "\<And>i. i < P \<Longrightarrow> rpos i P \<le> length (w i) \<and> rpos i P \<le> MAX_MESSAGE"
  shows "(net_step P)\<^sup>*\<^sup>*
    (\<lambda>i. if i < P
         then xchg_bytes P (slice (gathered (rpos i) (\<lambda>j. c ((i + j) mod P)) [0..<p] (w i)) 0 (rpos i q)) (int ((i + P - p) mod P))
                (gathered (rpos i) (\<lambda>j. c ((i + j) mod P)) [0..<p] (w i)) (rpos i p) (rpos i (p + q) - rpos i p) (int ((i + p) mod P)) (k i)
         else z i, \<lambda>_ _. [])
    (\<lambda>i. if i < P then k i (gathered (rpos i) (\<lambda>j. c ((i + j) mod P)) [0..<p + q] (w i)) (rpos i (p + q) - rpos i p) else z i, \<lambda>_ _. [])"
proof -
  let ?c = "\<lambda>i j. c ((i + j) mod P)"
  let ?g = "\<lambda>n i. gathered (rpos i) (?c i) [0..<n] (w i)"
  let ?D = "\<lambda>i. concat (map (?c i) [0..<q])"
  have pos: "rpos i e = rpos i a + length (concat (map (?c i) [a..<e]))" if "i < P" "a \<le> e" "e \<le> P" for i a e
    using adjacent_end [OF adj(1) [OF that(1)] that(2,3)] .
  have dlen: "rpos i q = length (?D i)" if "i < P" for i using pos [OF that, of 0 q] adj(2) [OF that] p by simp
  have glen: "length (?g p i) = length (w i)" if i: "i < P" for i
  proof (rule length_gathered)
    fix j assume "j \<in> set [0..<p]"
    then show "rpos i j + length (?c i j) \<le> length (w i)"
      using apart_bound [OF adjacent_apart [OF adj(1) [OF i]], of j] room [OF i] p(3) by simp
  qed
  have next_run: "concat (map (?c ((i + p) mod P)) [0..<q]) = concat (map (?c i) [p..<p + q])" for i
  proof -
    have "map (?c ((i + p) mod P)) [0..<q] = map (?c i) (map (\<lambda>j. j + p) [0..<q])"
      by (simp add: mod_add_right_eq add.commute add.left_commute)
    also have "map (\<lambda>j. j + p) [0..<q] = [p..<p + q]" by (simp add: map_add_upt add.commute)
    finally show ?thesis by (simp only:)
  qed
  have got: "length (?D ((i + p) mod P)) = rpos i (p + q) - rpos i p" if "i < P" for i
    using pos [OF that, of p "p + q"] p(2) next_run [of i] by simp
  have run: "(net_step P)\<^sup>*\<^sup>*
    (\<lambda>i. if i \<in> {..<P} then xchg_bytes P (?D i) (int ((i + P - p) mod P)) (?g p i) (rpos i p) (rpos i (p + q) - rpos i p) (int ((i + p) mod P)) (k i) else z i, \<lambda>_ _. [])
    (\<lambda>i. if i \<in> {..<P} then k i (memcpy_at (?g p i) (rpos i p) (take (rpos i (p + q) - rpos i p) (?D ((i + p) mod P))))
       (min (rpos i (p + q) - rpos i p) (length (?D ((i + p) mod P)))) else z i, \<lambda>_ _. [])"
  proof (rule xchg_all [OF P])
    show "i < P \<and> (i + P - p) mod P \<in> {..<P} \<and> (i + p) mod P \<in> {..<P} \<and> ((i + P - p) mod P + p) mod P = i \<and> ((i + p) mod P + P - p) mod P = i"
      if "i \<in> {..<P}" for i using that rotate_back [of i P p] p(3) by simp
    show "rpos i p + (rpos i (p + q) - rpos i p) \<le> length (?g p i)" if "i \<in> {..<P}" for i
      using that glen [of i] room [of i] pos [of i p "p + q"] pos [of i "p + q" P] p(2) by simp
    show "length (?D i) \<le> MAX_MESSAGE" if "i \<in> {..<P}" for i
      using that dlen [of i] room [of i] pos [of i q P] p by simp
  qed simp
  have start: "(if i \<in> {..<P} then xchg_bytes P (?D i) (int ((i + P - p) mod P)) (?g p i) (rpos i p) (rpos i (p + q) - rpos i p) (int ((i + p) mod P)) (k i) else z i)
    = (if i < P then xchg_bytes P (slice (?g p i) 0 (rpos i q)) (int ((i + P - p) mod P)) (?g p i) (rpos i p) (rpos i (p + q) - rpos i p) (int ((i + p) mod P)) (k i) else z i)" for i
  proof (cases "i < P")
    case True
    have "slice (?g p i) (rpos i 0) (length (?D i)) = ?D i"
      by (rule slice_gathered_run [OF adj(1) [OF True]]) (use room [OF True] p in auto)
    then show ?thesis using True dlen [OF True] adj(2) [OF True] by simp
  qed simp
  have stop: "(if i \<in> {..<P} then k i (memcpy_at (?g p i) (rpos i p) (take (rpos i (p + q) - rpos i p) (?D ((i + p) mod P))))
       (min (rpos i (p + q) - rpos i p) (length (?D ((i + p) mod P)))) else z i)
    = (if i < P then k i (?g (p + q) i) (rpos i (p + q) - rpos i p) else z i)" for i
  proof (cases "i < P")
    case True
    have "memcpy_at (?g p i) (rpos i p) (concat (map (?c i) [p..<p + q])) = gathered (rpos i) (?c i) [p..<p + q] (?g p i)"
      by (rule memcpy_gathered [OF adj(1) [OF True]]) (use room [OF True] glen [OF True] p in auto)
    then have "memcpy_at (?g p i) (rpos i p) (?D ((i + p) mod P)) = ?g (p + q) i"
      unfolding next_run by (simp only: gathered_append [symmetric] upt_add_eq_append [OF le0, symmetric])
    then show ?thesis using True got [OF True] by simp
  qed simp
  show ?thesis using run unfolding start stop .
qed

definition bruck_stage ::
  "nat \<Rightarrow> (nat \<Rightarrow> nat \<Rightarrow> nat) \<Rightarrow> (nat \<Rightarrow> byte list) \<Rightarrow> (nat \<Rightarrow> byte list) \<Rightarrow> (nat \<Rightarrow> nat \<Rightarrow> byte list \<Rightarrow> 'a rank_proc) \<Rightarrow> (nat \<Rightarrow> 'a rank_proc)
     \<Rightarrow> nat \<Rightarrow> nat \<Rightarrow> 'a rank_proc" where
  "bruck_stage P rpos c w k z t i =
     (if i < P then bruck_loop P i (rpos i) t (gathered (rpos i) (\<lambda>j. c ((i + j) mod P)) [0..<2 ^ t] (w i)) (k i) else z i)"

lemma bruck_rounds:
  assumes P: "1 < P"
    and adj: "\<And>i. i < P \<Longrightarrow> adjacent (rpos i) (\<lambda>j. c ((i + j) mod P)) P" "\<And>i. i < P \<Longrightarrow> rpos i 0 = 0"
    and room: "\<And>i. i < P \<Longrightarrow> rpos i P \<le> length (w i) \<and> rpos i P \<le> MAX_MESSAGE"
  shows "\<exists>t. P div 2 < 2 ^ t \<and> 2 ^ t \<le> P \<and> (net_step P)\<^sup>*\<^sup>* (bruck_stage P rpos c w k z 0, \<lambda>_ _. [])
    (\<lambda>i. if i < P then k i t (gathered (rpos i) (\<lambda>j. c ((i + j) mod P)) [0..<2 ^ t] (w i)) else z i, \<lambda>_ _. [])"
proof -
  let ?c = "\<lambda>i j. c ((i + j) mod P)"
  obtain L where L: "2 ^ L \<le> P" "P < 2 * 2 ^ L" using pof2_floor_spec [of P] P by auto
  have upto: "t \<le> L \<Longrightarrow> (net_step P)\<^sup>*\<^sup>* (bruck_stage P rpos c w k z 0, \<lambda>_ _. []) (bruck_stage P rpos c w k z t, \<lambda>_ _. [])" for t
  proof (induction t)
    case (Suc t)
    have "(2 :: nat) ^ Suc t \<le> 2 ^ L" using Suc.prems by (intro power_increasing) simp_all
    then have t: "2 ^ t + 2 ^ t \<le> P" "2 ^ t < P" "2 ^ t \<le> P div 2" using L(1) P by auto
    let ?k = "\<lambda>i w' (_ :: nat). bruck_loop P i (rpos i) (Suc t) w' (k i)"
    have run: "(net_step P)\<^sup>*\<^sup>*
      (\<lambda>i. if i < P then xchg_bytes P (slice (gathered (rpos i) (?c i) [0..<2 ^ t] (w i)) 0 (rpos i (2 ^ t))) (int ((i + P - 2 ^ t) mod P))
           (gathered (rpos i) (?c i) [0..<2 ^ t] (w i)) (rpos i (2 ^ t)) (rpos i (2 ^ t + 2 ^ t) - rpos i (2 ^ t)) (int ((i + 2 ^ t) mod P)) (?k i) else z i, \<lambda>_ _. [])
      (\<lambda>i. if i < P then ?k i (gathered (rpos i) (?c i) [0..<2 ^ t + 2 ^ t] (w i)) (rpos i (2 ^ t + 2 ^ t) - rpos i (2 ^ t)) else z i, \<lambda>_ _. [])"
      by (rule bruck_xchg [OF P order_refl t(1,2) adj room])
    have start: "(if i < P then xchg_bytes P (slice (gathered (rpos i) (?c i) [0..<2 ^ t] (w i)) 0 (rpos i (2 ^ t))) (int ((i + P - 2 ^ t) mod P))
           (gathered (rpos i) (?c i) [0..<2 ^ t] (w i)) (rpos i (2 ^ t)) (rpos i (2 ^ t + 2 ^ t) - rpos i (2 ^ t)) (int ((i + 2 ^ t) mod P)) (?k i) else z i)
        = bruck_stage P rpos c w k z t i" for i
      using t(3) by (simp add: bruck_stage_def bruck_loop.simps [of P i "rpos i" t] mult_2)
    have stop: "(if i < P then ?k i (gathered (rpos i) (?c i) [0..<2 ^ t + 2 ^ t] (w i)) (rpos i (2 ^ t + 2 ^ t) - rpos i (2 ^ t)) else z i)
        = bruck_stage P rpos c w k z (Suc t) i" for i
      by (simp add: bruck_stage_def mult_2)
    show ?case using Suc run [unfolded start stop] by (auto intro: rtranclp_trans)
  qed simp
  have done_: "\<not> 2 ^ L \<le> P div 2" using L(2) by linarith
  have "bruck_stage P rpos c w k z L = (\<lambda>i. if i < P then k i L (gathered (rpos i) (?c i) [0..<2 ^ L] (w i)) else z i)"
    using done_ by (intro ext) (simp add: bruck_stage_def bruck_loop.simps [of _ _ _ L])
  then show ?thesis using upto [of L] L done_ by (intro exI [of _ L]) simp
qed

lemma rot_cnt_sum: "i < P \<Longrightarrow> length cnt = P \<Longrightarrow> sum_list (rot_cnt P cnt i) = sum_list cnt"
proof -
  assume "i < P" "length cnt = P"
  then have "rot_cnt P cnt i = rotate i cnt" by (intro nth_equalityI) (simp_all add: rot_cnt_def nth_rotate)
  also have "sum_list (rotate i cnt) = sum_list (take (i mod length cnt) cnt) + sum_list (drop (i mod length cnt) cnt)"
    by (simp add: rotate_drop_take)
  also have "\<dots> = sum_list cnt" by (simp only: sum_list_append [symmetric] append_take_drop_id)
  finally show ?thesis .
qed

lemma rotation_all:
  assumes "i < (P :: nat)"
  shows "insert i ((\<lambda>j. (i + j) mod P) ` {1..<P}) = {..<P}"
proof
  show "insert i ((\<lambda>j. (i + j) mod P) ` {1..<P}) \<subseteq> {..<P}" using assms mod_less_divisor [of P] by auto
  show "{..<P} \<subseteq> insert i ((\<lambda>j. (i + j) mod P) ` {1..<P})"
  proof
    fix x assume x: "x \<in> {..<P}"
    show "x \<in> insert i ((\<lambda>j. (i + j) mod P) ` {1..<P})"
    proof (cases "x = i")
      case False
      have "x = (i + (x + P - i) mod P) mod P" using x assms by (simp add: mod_add_right_eq)
      moreover have "(x + P - i) mod P \<in> {1..<P}" using x assms False by (cases "i \<le> x") (auto simp: mod_if)
      ultimately show ?thesis by blast
    qed simp
  qed
qed

lemma allgatherv_bruck_run:
  assumes P: "1 < P" and ok: "gather_ok P cnt dsp b" and stk: "\<And>i. i < P \<Longrightarrow> sum_list cnt \<le> length (stk i)"
  shows "(net_step P)\<^sup>*\<^sup>* (\<lambda>i. if i < P then allgatherv_bruck P i (b i) cnt (dsp i) (stk i) (k i) else z i, \<lambda>_ _. [])
    (\<lambda>i. if i < P then k i (all_blocks P cnt dsp b i) else z i, \<lambda>_ _. [])"
proof -
  let ?c = "block_of cnt dsp b" and ?rpos = "\<lambda>i. positions (rot_cnt P cnt i)"
  let ?cr = "\<lambda>i j. ?c ((i + j) mod P)"
  let ?out = "\<lambda>i w. foldl (\<lambda>b j. memcpy_at b (dsp i ! ((i + j) mod P)) (slice w (?rpos i j) (cnt ! ((i + j) mod P)))) (b i) [1..<P]"
  let ?x = "\<lambda>t i w. xchg_bytes P (slice w 0 (?rpos i (P - 2 ^ t))) (int ((i + P - 2 ^ t) mod P)) w (?rpos i (2 ^ t)) (?rpos i (2 ^ t + (P - 2 ^ t)) - ?rpos i (2 ^ t))
     (int ((i + 2 ^ t) mod P)) (\<lambda>w' _. k i (?out i w'))"
  let ?k = "\<lambda>i t w. if P - 2 ^ t \<noteq> 0 then ?x t i w else k i (?out i w)"
  note clen = block_of_length [OF ok]
  have len: "length cnt = P" "sum_list cnt \<le> MAX_MESSAGE" using ok by (auto simp: gather_ok_def)
  have pos: "adjacent (?rpos i) (?cr i) P" "?rpos i P = sum_list cnt" "?rpos i 0 = 0" if "i < P" for i
  proof -
    have "length (?cr i j) = rot_cnt P cnt i ! j" if "j < P" for j using that clen P by (simp add: rot_cnt_def)
    from positions_adjacent [of "rot_cnt P cnt i" P "?cr i", OF _ this] rot_cnt_sum [OF that len(1)]
    show "adjacent (?rpos i) (?cr i) P" "?rpos i P = sum_list cnt" "?rpos i 0 = 0" by (simp_all add: rot_cnt_def)
  qed
  have room: "?rpos i P \<le> length (stk i) \<and> ?rpos i P \<le> MAX_MESSAGE" if "i < P" for i using pos(2) [OF that] stk [OF that] len(2) by simp
  obtain t where t: "P div 2 < 2 ^ t" "2 ^ t \<le> P" and run: "(net_step P)\<^sup>*\<^sup>* (bruck_stage P ?rpos ?c stk ?k z 0, \<lambda>_ _. [])
    (\<lambda>i. if i < P then ?k i t (gathered (?rpos i) (?cr i) [0..<2 ^ t] (stk i)) else z i, \<lambda>_ _. [])"
    using bruck_rounds [where rpos = ?rpos and c = ?c and w = stk and k = ?k and z = z, OF P pos(1,3) room] by blast
  have fill: "(net_step P)\<^sup>*\<^sup>* (\<lambda>i. if i < P then ?k i t (gathered (?rpos i) (?cr i) [0..<2 ^ t] (stk i)) else z i, \<lambda>_ _. [])
    (\<lambda>i. if i < P then k i (?out i (gathered (?rpos i) (?cr i) [0..<P] (stk i))) else z i, \<lambda>_ _. [])"
  proof (cases "2 ^ t = P")
    case False
    then have lt: "P - 2 ^ t \<le> 2 ^ t" "2 ^ t + (P - 2 ^ t) = P" "2 ^ t < P" "P - 2 ^ t \<noteq> 0" using t by linarith+
    have "(net_step P)\<^sup>*\<^sup>* (\<lambda>i. if i < P then ?x t i (gathered (?rpos i) (?cr i) [0..<2 ^ t] (stk i)) else z i, \<lambda>_ _. [])
      (\<lambda>i. if i < P then k i (?out i (gathered (?rpos i) (?cr i) [0..<2 ^ t + (P - 2 ^ t)] (stk i))) else z i, \<lambda>_ _. [])"
      by (rule bruck_xchg [where k = "\<lambda>i w' _. k i (?out i w')", OF P lt(1) _ lt(3) pos(1,3) room]) (simp_all add: lt)
    then show ?thesis by (simp only: lt(2,4) if_True simp_thms)
  qed (simp only: diff_self_eq_0 simp_thms if_False rtranclp.rtrancl_refl)
  have start: "bruck_stage P ?rpos ?c stk ?k z 0 i = (if i < P then allgatherv_bruck P i (b i) cnt (dsp i) (stk i) (k i) else z i)" for i
  proof (cases "i < P")
    case True
    have "gathered (?rpos i) (?cr i) [0..<2 ^ 0] (stk i) = memcpy_at (stk i) 0 (slice (b i) (dsp i ! i) (cnt ! i))"
      using True pos(3) [OF True] by (simp add: gathered_def block_of_def)
    then show ?thesis using True by (simp only: bruck_stage_def allgatherv_bruck_def rot_cnt_def [symmetric] Let_def if_True)
  qed (simp add: bruck_stage_def)
  have stop: "?out i (gathered (?rpos i) (?cr i) [0..<P] (stk i)) = all_blocks P cnt dsp b i" if i: "i < P" for i
  proof -
    let ?g = "gathered (?rpos i) (?cr i) [0..<P] (stk i)"
    have ap: "apart (?rpos i) (\<lambda>j. length (?cr i j)) {..<P} (length (stk i))"
      using apart_mono [OF adjacent_apart [OF pos(1) [OF i]]] room [OF i] by simp
    have sl: "slice ?g (?rpos i j) (cnt ! ((i + j) mod P)) = ?cr i j" if "j < P" for j
      using slice_gathered [OF ap, of "[0..<P]" j] clen [of "(i + j) mod P"] that P by (simp add: lessThan_atLeast0)
    have "?out i ?g = foldl (\<lambda>b j. memcpy_at b (dsp i ! ((i + j) mod P)) (?cr i j)) (b i) [1..<P]"
      by (rule foldl_cong) (use sl in auto)
    also have "\<dots> = gathered ((!) (dsp i)) ?c (map (\<lambda>j. (i + j) mod P) [1..<P]) (b i)" by (simp add: gathered_def foldl_map)
    also have "\<dots> = all_blocks P cnt dsp b i"
      by (rule gathered_rest [OF ok i]) (use rotation_all [OF i] in simp)
    finally show ?thesis .
  qed
  have "bruck_stage P ?rpos ?c stk ?k z 0 = (\<lambda>i. if i < P then allgatherv_bruck P i (b i) cnt (dsp i) (stk i) (k i) else z i)"
    by (intro ext) (rule start)
  moreover have "(\<lambda>i. if i < P then k i (?out i (gathered (?rpos i) (?cr i) [0..<P] (stk i))) else z i) =
      (\<lambda>i. if i < P then k i (all_blocks P cnt dsp b i) else z i)"
    by (intro ext) (simp only: stop cong: if_cong)
  ultimately show ?thesis using rtranclp_trans [OF run fill] by (simp only:)
qed

section \<open>The collectives\<close>

lemma is_pof2_power: "is_pof2 n \<Longrightarrow> \<exists>L. n = 2 ^ L"
proof (induction n rule: less_induct)
  case (less n)
  show ?case
  proof (cases "even n")
    case True
    then obtain m where m: "n = 2 * m" by (auto elim: evenE)
    have "0 < m" "n - 1 = 2 * (m - 1) + 1" using less.prems m by (auto simp: is_pof2_def)
    then have "n AND (n - 1) = 2 * (m AND (m - 1))" using m by (subst and_rec) simp
    then have "is_pof2 m" "m < n" using less.prems m by (auto simp: is_pof2_def)
    with less.IH obtain L where "m = 2 ^ L" by blast
    then show ?thesis using m by (intro exI [of _ "Suc L"]) simp
  next
    case False
    then obtain m where m: "n = 2 * m + 1" by (auto elim: oddE)
    then have "n AND (n - 1) = 2 * m" by (subst and_rec) simp
    then show ?thesis using less.prems m by (intro exI [of _ 0]) (simp add: is_pof2_def)
  qed
qed

lemma allgatherv_bytes_run:
  assumes P: "1 < P" and ok: "gather_ok P cnt dsp (\<lambda>i. own_block i (sb i) (sn i) (rb i) cnt (dsp i))"
    and scratch: "\<And>i. i < P \<Longrightarrow> sum_list cnt \<le> length (tmp i)" "\<And>i. i < P \<Longrightarrow> length (stk i) = kAllgatherShort"
    and ps: "\<And>i. i < P \<Longrightarrow> ps i = allgatherv_bytes P i (sb i) (sn i) (rb i) cnt (dsp i) (tmp i) (stk i) Ret"
  shows "always_ends P ps (all_blocks P cnt dsp (\<lambda>i. own_block i (sb i) (sn i) (rb i) cnt (dsp i)))"
proof -
  let ?b = "\<lambda>i. own_block i (sb i) (sn i) (rb i) cnt (dsp i)"
  have total: "sum_list (take P cnt) = sum_list cnt" using ok by (simp add: gather_ok_def)
  have "(net_step P)\<^sup>*\<^sup>* (ps, \<lambda>_ _. []) (\<lambda>i. if i < P then Ret (all_blocks P cnt dsp ?b i) else ps i, \<lambda>_ _. [])"
  proof (cases "sum_list cnt < kAllgatherLong \<and> is_pof2 P")
    case True
    then obtain L where L: "P = 2 ^ L" using is_pof2_power by blast
    have eq: "ps = (\<lambda>i. if i < P then allgatherv_rd P i (?b i) cnt (dsp i) (tmp i) Ret else ps i)"
      using ps True P total by (intro ext) (simp add: allgatherv_bytes_def Let_def)
    show ?thesis using allgatherv_rd_run [where tmp = tmp and k = "\<lambda>_. Ret" and z = ps, OF P L ok scratch(1)] by (simp only: eq [symmetric])
  next
    case rd: False
    show ?thesis
    proof (cases "sum_list cnt < kAllgatherShort")
      case True
      have eq: "ps = (\<lambda>i. if i < P then allgatherv_bruck P i (?b i) cnt (dsp i) (stk i) Ret else ps i)"
        using ps True rd P total by (intro ext) (simp add: allgatherv_bytes_def Let_def)
      have "sum_list cnt \<le> length (stk i)" if "i < P" for i using scratch(2) [OF that] True by simp
      from allgatherv_bruck_run [where stk = stk and k = "\<lambda>_. Ret" and z = ps, OF P ok this] show ?thesis by (simp only: eq [symmetric])
    next
      case False
      have eq: "ps = (\<lambda>i. if i < P then allgatherv_ring P i (?b i) cnt (dsp i) Ret else ps i)"
        using ps False rd P total by (intro ext) (simp add: allgatherv_bytes_def Let_def)
      show ?thesis using allgatherv_ring_run [where k = "\<lambda>_. Ret" and z = ps, OF P ok] by (simp only: eq [symmetric])
    qed
  qed
  then show ?thesis by (rule always_endsI) simp
qed

lemma always_ends_same:
  "always_ends P ps res \<Longrightarrow> (\<And>i. i < P \<Longrightarrow> res i = res' i) \<Longrightarrow> always_ends P ps res'"
  unfolding always_ends_def by (metis (no_types, lifting))

lemma own_block_length:
  assumes "gather_ok P cnt dsp rb" and "i < P"
  shows "length (own_block i sb sn (rb i) cnt (dsp i)) = length (rb i)"
proof -
  have "dsp i ! i + cnt ! i \<le> length (rb i)" using assms by (auto simp: gather_ok_def apart_def)
  then show ?thesis by (cases sb) (auto simp: own_block_def min_def)
qed

lemma gather_ok_own:
  "gather_ok P cnt dsp rb \<Longrightarrow> gather_ok P cnt dsp (\<lambda>i. own_block i (sb i) (sn i) (rb i) cnt (dsp i))"
  using own_block_length [of P cnt dsp rb] by (simp add: gather_ok_def)

text \<open>
  C12: \<^verbatim>\<open>MPI_Allgatherv\<close>, with any number of ranks, whichever of the three algorithms the sizes select, and
  displacements of each rank's own that may leave gaps: no execution deadlocks or runs for ever, and every rank ends with block
  \<open>j\<close> of every rank \<open>j\<close> at its own displacement, the rest of its buffer untouched. A rank's block is what it
  sends, or what its buffer holds there when it gives no send buffer; scratch memory does not show.
\<close>

theorem MPI_Allgatherv_correct:
  assumes "1 < P" and "dtype_size rt = Some ext" and "\<forall>i<P. send_size (sb i) (sc i) (st i) = Some (sn i)"
    and "cnt = map (\<lambda>c. c * ext) rc" and "\<forall>i<P. dsp i = map (\<lambda>d. d * ext) (dp i)"
    and "gather_ok P cnt dsp rb"
    and "\<forall>i<P. sum_list cnt \<le> length (tmp i) \<and> length (stk i) = kAllgatherShort"
    and "\<forall>i<P. ps i = MPI_Allgatherv P i (sb i) (sc i) (st i) (rb i) rc (dp i) rt (tmp i) (stk i) (ab i) Ret"
  shows "always_ends P ps (all_blocks P cnt dsp (\<lambda>i. own_block i (sb i) (sn i) (rb i) cnt (dsp i)))"
proof (rule allgatherv_bytes_run [OF assms(1) gather_ok_own [OF assms(6)]])
  show "ps i = allgatherv_bytes P i (sb i) (sn i) (rb i) cnt (dsp i) (tmp i) (stk i) Ret" if "i < P" for i
    using that assms(2,3,4,5,8) by (simp add: MPI_Allgatherv_def)
qed (use assms(7) in auto)

definition sample_displs :: "nat \<Rightarrow> nat list" where
  "sample_displs i = (if i = 0 then [0, 1, 3] else if i = 1 then [4, 0, 3] else [1, 2, 5])"

text \<open>Three ranks of bytes with one, two and one of them; rank 1 is in place, and rank 1 and rank 2 leave gaps.\<close>

theorem MPI_Allgatherv_correct_witness:
  "always_ends 3 (\<lambda>i. MPI_Allgatherv 3 i (if i = 1 then In_Place else Buf [word_of_nat i]) 1 1 [50, 51, 52, 53, 54, 55] [1, 2, 1] (sample_displs i) 1
       (replicate 4 9) (replicate kAllgatherShort 8) (Ret []) Ret)
     (\<lambda>i. if i = 0 then [0, 50, 51, 2, 54, 55] else if i = 1 then [50, 51, 52, 2, 0, 55] else [50, 0, 50, 51, 54, 2])"
proof -
  let ?sb = "\<lambda>i :: nat. if i = 1 then In_Place else Buf [word_of_nat i]"
  let ?r = "\<lambda>i. all_blocks 3 [1, 2, 1] sample_displs (\<lambda>i. own_block i (?sb i) (if i = 1 then 0 else 1) [50, 51, 52, 53, 54, 55] [1, 2, 1] (sample_displs i)) i"
  have ends: "always_ends 3 (\<lambda>i. MPI_Allgatherv 3 i (?sb i) 1 1 [50, 51, 52, 53, 54, 55] [1, 2, 1] (sample_displs i) 1
       (replicate 4 9) (replicate kAllgatherShort 8) (Ret []) Ret) ?r"
  proof (rule MPI_Allgatherv_correct [where ext = 1 and rc = "[1, 2, 1]" and dp = sample_displs and rt = 1 and st = "\<lambda>_. 1"
        and sc = "\<lambda>_. 1" and tmp = "\<lambda>_. replicate 4 9" and stk = "\<lambda>_. replicate kAllgatherShort 8" and ab = "\<lambda>_. Ret []"])
    have three: "{..<3 :: nat} = {0, 1, 2}" by auto
    show "gather_ok 3 [1, 2, 1] sample_displs (\<lambda>_. [50, 51, 52, 53, 54, 55])"
      by (auto simp: gather_ok_def apart_def three sample_displs_def MAX_MESSAGE_def MAX_MSG_BYTES_def)
  qed (simp_all add: send_size_def dtype_size_def)
  have r: "?r 0 = [0, 50, 51, 2, 54, 55]" "?r 1 = [50, 51, 52, 2, 0, 55]" "?r 2 = [50, 0, 50, 51, 54, 2]" by code_simp+
  have "?r i = (if i = 0 then [0, 50, 51, 2, 54, 55] else if i = 1 then [50, 51, 52, 2, 0, 55] else [50, 0, 50, 51, 54, 2])" if "i < 3" for i
  proof -
    from that have "i = 0 \<or> i = 1 \<or> i = 2" by linarith
    then show ?thesis using r by (elim disjE) simp_all
  qed
  with ends show ?thesis by (rule always_ends_same)
qed

text \<open>The block of a rank in \<^verbatim>\<open>MPI_Allgather\<close>.\<close>

definition contributed :: "nat \<Rightarrow> SendArg \<Rightarrow> byte list \<Rightarrow> nat \<Rightarrow> byte list" where
  "contributed blk sendbuf recvbuf i = (case sendbuf of Buf s \<Rightarrow> s | _ \<Rightarrow> slice recvbuf (i * blk) blk)"

text \<open>
  \<^verbatim>\<open>MPI_Allgather\<close>, with any number of ranks, any datatypes, in place or not: no execution deadlocks, aborts or runs for
  ever, and every rank ends with the blocks of all ranks in rank order.
\<close>

theorem MPI_Allgather_correct:
  assumes "1 < P" and "dtype_size rt = Some ext" and "blk = recvcount * ext" and "P * blk \<le> MAX_MESSAGE"
    and "\<forall>i<P. length (rb i) = P * blk \<and> send_size (sb i) (sc i) (st i) = Some (sn i)"
    and "\<forall>i<P. \<forall>s. sb i = Buf s \<longrightarrow> length s = blk \<and> sn i = blk"
    and "\<forall>i<P. P * blk \<le> length (tmp i) \<and> length (stk i) = kAllgatherShort"
    and "\<forall>i<P. ps i = MPI_Allgather P i (sb i) (sc i) (st i) (rb i) recvcount rt (tmp i) (stk i) (ab i) Ret"
  shows "always_ends P ps (\<lambda>_. concat (map (\<lambda>j. contributed blk (sb j) (rb j) j) [0..<P]))"
proof -
  let ?cnt = "replicate P blk" and ?dsp = "map (\<lambda>j. j * blk) [0..<P]"
  let ?b = "\<lambda>i. own_block i (sb i) (sn i) (rb i) ?cnt ?dsp" and ?c = "\<lambda>j. contributed blk (sb j) (rb j) j"
  have fit: "j * blk + blk \<le> P * blk" if "j < P" for j using mult_le_mono1 [of "Suc j" P blk] that by (simp add: add.commute)
  have clen: "length (?c j) = blk" if "j < P" for j
    using that fit [OF that] assms(5,6) by (cases "sb j") (auto simp: contributed_def slice_length)
  have adj: "adjacent (\<lambda>j. j * blk) ?c P" using clen by (simp add: adjacent_def add.commute)
  have ap: "apart ((!) ?dsp) ((!) ?cnt) {..<P} (P * blk)"
    using adjacent_apart [OF adj] clen by (auto simp: apart_def)
  have ok: "gather_ok P ?cnt (\<lambda>_. ?dsp) rb" using ap assms(4,5) by (simp add: gather_ok_def sum_list_replicate)
  have block: "block_of ?cnt (\<lambda>_. ?dsp) ?b j = ?c j" if "j < P" for j
    using that fit [OF that] assms(5,6) by (cases "sb j") (auto simp: block_of_def own_block_def contributed_def slice_def memcpy_at_def)
  have "always_ends P ps (all_blocks P ?cnt (\<lambda>_. ?dsp) ?b)"
  proof (rule allgatherv_bytes_run [OF assms(1) gather_ok_own [OF ok], where tmp = tmp and stk = stk])
    show "ps i = allgatherv_bytes P i (sb i) (sn i) (rb i) ?cnt ?dsp (tmp i) (stk i) Ret" if "i < P" for i
      using that assms(2,3,5,8) by (simp add: MPI_Allgather_def Let_def)
  qed (use assms(7) in \<open>auto simp: sum_list_replicate\<close>)
  moreover have "all_blocks P ?cnt (\<lambda>_. ?dsp) ?b i = concat (map ?c [0..<P])" if "i < P" for i
  proof -
    have len: "length (?b i) = P * blk" using own_block_length [OF ok that] assms(5) that by simp
    have "all_blocks P ?cnt (\<lambda>_. ?dsp) ?b i = gathered (\<lambda>j. j * blk) ?c [0..<P] (?b i)"
      unfolding all_blocks_def by (rule gathered_cong) (simp add: block)
    also have "\<dots> = memcpy_at (?b i) (0 * blk) (concat (map ?c [0..<P]))"
      using memcpy_gathered [OF adj, of 0 P "?b i"] len by simp
    also have "\<dots> = concat (map ?c [0..<P])" using len adjacent_end [OF adj, of 0 P] by (simp add: memcpy_at_def)
    finally show ?thesis .
  qed
  ultimately show ?thesis by (rule always_ends_same)
qed

text \<open>Four ranks with two bytes each, the last in place.\<close>

theorem MPI_Allgather_correct_witness:
  "always_ends 4 (\<lambda>i. MPI_Allgather 4 i (if i = 3 then In_Place else Buf [word_of_nat i, 7]) 2 1 [20, 21, 22, 23, 24, 25, 26, 27] 2 1
       (replicate 8 9) (replicate kAllgatherShort 8) (Ret []) Ret) (\<lambda>_. [0, 7, 1, 7, 2, 7, 26, 27])"
proof -
  let ?sb = "\<lambda>i :: nat. if i = 3 then In_Place else Buf [word_of_nat i, 7]"
  have "always_ends 4 (\<lambda>i. MPI_Allgather 4 i (?sb i) 2 1 [20, 21, 22, 23, 24, 25, 26, 27] 2 1 (replicate 8 9) (replicate kAllgatherShort 8) (Ret []) Ret)
     (\<lambda>_. concat (map (\<lambda>j. contributed 2 (?sb j) [20, 21, 22, 23, 24, 25, 26, 27] j) [0..<4]))"
    by (rule MPI_Allgather_correct [where ext = 1 and rt = 1 and sn = "\<lambda>i. if i = 3 then 0 else 2" and sc = "\<lambda>_. 2" and st = "\<lambda>_. 1"
        and tmp = "\<lambda>_. replicate 8 9" and stk = "\<lambda>_. replicate kAllgatherShort 8" and ab = "\<lambda>_. Ret []" and sb = ?sb and rb = "\<lambda>_. [20, 21, 22, 23, 24, 25, 26, 27]" and recvcount = 2])
      (simp_all add: send_size_def dtype_size_def MAX_MESSAGE_def MAX_MSG_BYTES_def)
  moreover have "concat (map (\<lambda>j. contributed 2 (?sb j) [20, 21, 22, 23, 24, 25, 26, 27] j) [0..<4]) = [0, 7, 1, 7, 2, 7, 26, 27]"
    by code_simp
  ultimately show ?thesis by simp
qed

end
