(* ===== verification/Mpi_Alltoall.thy ===== *)
theory Mpi_Alltoall
  imports Mpi_Allgather
begin

text \<open>
  \<^verbatim>\<open>MPI_Alltoall\<close> of src/parallel_abstraction/pimid_mpi.cpp, with its three algorithms: Bruck's, which routes the blocks through
  other ranks bit by bit of their distance, the scattered exchange and the pairwise one. Send and receive buffers are
  memory of their own: the code does not look for \<^verbatim>\<open>MPI_IN_PLACE\<close>. The scratch memory is an argument.
\<close>

section \<open>The algorithms\<close>

definition kAlltoallShort :: nat where "kAlltoallShort = 256"

definition kAlltoallMedium :: nat where "kAlltoallMedium = 32768"

definition kAlltoallMinProcs :: nat where "kAlltoallMinProcs = 8"

text \<open>Packing the blocks whose number has bit \<open>t\<close> one behind the other, and putting blocks back in their places.\<close>

definition pack_blocks :: "nat \<Rightarrow> nat \<Rightarrow> nat \<Rightarrow> byte list \<Rightarrow> byte list \<Rightarrow> byte list \<times> nat" where
  "pack_blocks P sblk t w pk =
     foldl (\<lambda>(pk, nb) j. if bit j t then (memcpy_at pk (nb * sblk) (slice w (j * sblk) sblk), nb + 1) else (pk, nb)) (pk, 0) [0..<P]"

definition unpack_blocks :: "nat \<Rightarrow> nat \<Rightarrow> nat \<Rightarrow> byte list \<Rightarrow> byte list \<Rightarrow> byte list" where
  "unpack_blocks P sblk t w rk =
     fst (foldl (\<lambda>(w, nb) j. if bit j t then (memcpy_at w (j * sblk) (slice rk (nb * sblk) sblk), nb + 1) else (w, nb)) (w, 0 :: nat) [0..<P])"

text \<open>The rounds, from \<^verbatim>\<open>pof2\<close> \<open>= 2 ^ t\<close>.\<close>

function a2a_bruck_loop ::
  "nat \<Rightarrow> nat \<Rightarrow> nat \<Rightarrow> nat \<Rightarrow> byte list \<Rightarrow> byte list \<Rightarrow> byte list \<Rightarrow> (byte list \<Rightarrow> 'a rank_proc) \<Rightarrow> 'a rank_proc" where
  "a2a_bruck_loop P rank sblk t w pk rk k =
     (if 2 ^ t < P
      then let (pk', nb) = pack_blocks P sblk t w pk
           in xchg_bytes P (slice pk' 0 (nb * sblk)) (int ((rank + 2 ^ t) mod P)) rk 0 (nb * sblk) (int ((rank + P - 2 ^ t) mod P))
                (\<lambda>rk' _. a2a_bruck_loop P rank sblk (Suc t) (unpack_blocks P sblk t w rk') pk' rk' k)
      else k w)"
  by auto
termination
proof (relation "measure (\<lambda>(P, rank, sblk, t, w, pk, rk, k). P - t)", goal_cases)
  case (2 P rank sblk t)
  then have "t < P" using less_exp [of t] by linarith
  then show ?case by simp
qed simp

declare a2a_bruck_loop.simps [simp del]

definition alltoall_bruck ::
  "nat \<Rightarrow> nat \<Rightarrow> nat \<Rightarrow> nat \<Rightarrow> byte list \<Rightarrow> byte list \<Rightarrow> byte list \<Rightarrow> byte list \<Rightarrow> byte list \<Rightarrow> (byte list \<Rightarrow> 'a rank_proc) \<Rightarrow> 'a rank_proc" where
  "alltoall_bruck P rank sblk rblk sbuf rbuf w pk rk k =
     (let w0 = foldl (\<lambda>w j. memcpy_at w (j * sblk) (slice sbuf ((rank + j) mod P * sblk) sblk)) w [0..<P]
      in a2a_bruck_loop P rank sblk 0 w0 pk rk (\<lambda>w.
           k (foldl (\<lambda>b j. memcpy_at b ((rank + P - j) mod P * rblk) (slice w (j * sblk) rblk)) rbuf [1..<P])))"

text \<open>An exchange with a partner per step, \<open>n\<close> steps from step \<open>i\<close>; \<open>pt i\<close> are the destination and the source.\<close>

fun partner_loop ::
  "nat \<Rightarrow> nat \<Rightarrow> nat \<Rightarrow> byte list \<Rightarrow> (nat \<Rightarrow> nat \<times> nat) \<Rightarrow> nat \<Rightarrow> nat \<Rightarrow> byte list \<Rightarrow> (byte list \<Rightarrow> 'a rank_proc) \<Rightarrow> 'a rank_proc" where
  "partner_loop P sblk rblk sbuf pt 0 i b k = k b"
| "partner_loop P sblk rblk sbuf pt (Suc n) i b k =
     (let (dst, src) = pt i
      in xchg_bytes P (slice sbuf (dst * sblk) sblk) (int dst) b (src * rblk) rblk (int src)
           (\<lambda>b' _. partner_loop P sblk rblk sbuf pt n (Suc i) b' k))"

definition scattered_partner :: "nat \<Rightarrow> nat \<Rightarrow> nat \<Rightarrow> nat \<times> nat" where
  "scattered_partner P rank i = ((rank + P - i) mod P, (rank + i) mod P)"

definition pairwise_partner :: "nat \<Rightarrow> nat \<Rightarrow> nat \<Rightarrow> nat \<times> nat" where
  "pairwise_partner P rank i = (if is_pof2 P then (rank XOR i, rank XOR i) else ((rank + i) mod P, (rank + P - i) mod P))"

definition MPI_Alltoall ::
  "nat \<Rightarrow> nat \<Rightarrow> byte list \<Rightarrow> nat \<Rightarrow> u32 \<Rightarrow> byte list \<Rightarrow> nat \<Rightarrow> u32 \<Rightarrow> byte list \<Rightarrow> byte list \<Rightarrow> byte list \<Rightarrow> 'a rank_proc
     \<Rightarrow> (byte list \<Rightarrow> 'a rank_proc) \<Rightarrow> 'a rank_proc" where
  "MPI_Alltoall P rank sbuf sendcount sendtype recvbuf recvcount recvtype w pk rk ab k =
     (case dtype_size sendtype of None \<Rightarrow> ab
      | Some se \<Rightarrow>
         (case dtype_size recvtype of None \<Rightarrow> ab
          | Some re \<Rightarrow>
             (let sblk = sendcount * se; rblk = recvcount * re;
                  rbuf = memcpy_at recvbuf (rank * rblk) (slice sbuf (rank * sblk) sblk)
              in if P \<le> 1 then k rbuf
                 else if sblk \<le> kAlltoallShort \<and> kAlltoallMinProcs \<le> P then alltoall_bruck P rank sblk rblk sbuf rbuf w pk rk k
                 else if sblk \<le> kAlltoallMedium then partner_loop P sblk rblk sbuf (scattered_partner P rank) (P - 1) 1 rbuf k
                 else partner_loop P sblk rblk sbuf (pairwise_partner P rank) (P - 1) 1 rbuf k)))"

section \<open>Blocks of one size\<close>

text \<open>What rank \<open>s\<close> sends to rank \<open>d\<close>, and what rank \<open>d\<close> is to receive.\<close>

definition msg :: "(nat \<Rightarrow> byte list) \<Rightarrow> nat \<Rightarrow> nat \<Rightarrow> nat \<Rightarrow> byte list" where
  "msg sb blk s d = slice (sb s) (d * blk) blk"

definition transposed :: "nat \<Rightarrow> nat \<Rightarrow> (nat \<Rightarrow> byte list) \<Rightarrow> nat \<Rightarrow> byte list" where
  "transposed P blk sb d = concat (map (\<lambda>s. msg sb blk s d) [0..<P])"

definition a2a_ok :: "nat \<Rightarrow> nat \<Rightarrow> (nat \<Rightarrow> byte list) \<Rightarrow> (nat \<Rightarrow> byte list) \<Rightarrow> bool" where
  "a2a_ok P blk sb rb \<longleftrightarrow> P * blk \<le> MAX_MESSAGE \<and> (\<forall>i<P. length (sb i) = P * blk \<and> length (rb i) = P * blk)"

lemma block_fits: "j < P \<Longrightarrow> j * blk + blk \<le> P * (blk :: nat)"
  using mult_le_mono1 [of "Suc j" P blk] by (simp add: add.commute)

lemma msg_length: "a2a_ok P blk sb rb \<Longrightarrow> s < P \<Longrightarrow> d < P \<Longrightarrow> length (msg sb blk s d) = blk"
  using block_fits [of d P blk] by (simp add: a2a_ok_def msg_def slice_length)

lemma uniform_adjacent: "(\<And>j. j < P \<Longrightarrow> length (c j) = blk) \<Longrightarrow> adjacent (\<lambda>j. j * blk) c P"
  by (simp add: adjacent_def add.commute)

lemma uniform_apart:
  "(\<And>j. j < P \<Longrightarrow> length (c j :: byte list) = blk) \<Longrightarrow> P * blk \<le> n \<Longrightarrow> apart (\<lambda>j. j * blk) (\<lambda>j. length (c j)) {..<P} n"
  by (rule apart_mono [OF adjacent_apart [OF uniform_adjacent [of P c blk]]])

lemma gathered_full:
  assumes "\<And>j. j < P \<Longrightarrow> length (c j) = blk" and "length b = P * blk"
  shows "gathered (\<lambda>j. j * blk) c [0..<P] b = concat (map c [0..<P])"
proof -
  note adj = uniform_adjacent [of P c blk, OF assms(1)]
  have "gathered (\<lambda>j. j * blk) c [0..<P] b = memcpy_at b (0 * blk) (concat (map c [0..<P]))"
    using memcpy_gathered [OF adj, of 0 P b] assms(2) by simp
  also have "\<dots> = concat (map c [0..<P])" using assms(2) adjacent_end [OF adj, of 0 P] by (simp add: memcpy_at_def)
  finally show ?thesis .
qed

lemma slice_uniform:
  assumes "\<And>j. j < P \<Longrightarrow> length (c j) = blk" and "P * blk \<le> length b" and "j < P"
  shows "slice (gathered (\<lambda>j. j * blk) c [0..<P] b) (j * blk) blk = c j"
  using slice_gathered [OF uniform_apart [of P c blk, OF assms(1,2)], of "[0..<P]" j] assms(1) [OF assms(3)] assms(3)
  by (simp add: lessThan_atLeast0)

lemma result_transposed:
  assumes ok: "a2a_ok P blk sb rb" and "r < P" and js: "set js = {..<P}"
  shows "gathered (\<lambda>j. j * blk) (\<lambda>s. msg sb blk s r) js (rb r) = transposed P blk sb r"
proof -
  let ?c = "\<lambda>s. msg sb blk s r"
  have len: "length (?c j) = blk" if "j < P" for j using msg_length [OF ok that assms(2)] .
  have rb: "length (rb r) = P * blk" using ok assms(2) by (simp add: a2a_ok_def)
  have "gathered (\<lambda>j. j * blk) ?c js (rb r) = gathered (\<lambda>j. j * blk) ?c [0..<P] (rb r)"
    by (rule gathered_set [OF uniform_apart [of P ?c blk, OF len]]) (simp_all add: rb js lessThan_atLeast0)
  also have "\<dots> = transposed P blk sb r" using gathered_full [of P ?c, OF len rb] by (simp add: transposed_def)
  finally show ?thesis .
qed

section \<open>One partner per step\<close>

definition partner_stage ::
  "nat \<Rightarrow> nat \<Rightarrow> (nat \<Rightarrow> byte list) \<Rightarrow> (nat \<Rightarrow> nat \<Rightarrow> nat \<times> nat) \<Rightarrow> (nat \<Rightarrow> byte list) \<Rightarrow> (nat \<Rightarrow> byte list \<Rightarrow> 'a rank_proc)
     \<Rightarrow> (nat \<Rightarrow> 'a rank_proc) \<Rightarrow> nat \<Rightarrow> nat \<Rightarrow> 'a rank_proc" where
  "partner_stage P blk sb pt rb k z i r =
     (if r < P
      then partner_loop P blk blk (sb r) (pt r) (P - i) i (gathered (\<lambda>j. j * blk) (\<lambda>s. msg sb blk s r) (r # map (\<lambda>i. snd (pt r i)) [1..<i]) (rb r)) (k r)
      else z r)"

text \<open>At every step the destinations are a permutation of the ranks, and the sources its inverse.\<close>

definition partners_match :: "nat \<Rightarrow> (nat \<Rightarrow> nat \<Rightarrow> nat \<times> nat) \<Rightarrow> bool" where
  "partners_match P pt \<longleftrightarrow> (\<forall>i r. 0 < i \<and> i < P \<and> r < P \<longrightarrow>
     fst (pt r i) < P \<and> snd (pt r i) < P \<and> snd (pt (fst (pt r i)) i) = r \<and> fst (pt (snd (pt r i)) i) = r)"

lemma partner_step:
  assumes P: "1 < P" and ok: "a2a_ok P blk sb rb" and pt: "partners_match P pt" and i: "0 < i" "i < P"
  shows "(net_step P)\<^sup>*\<^sup>* (partner_stage P blk sb pt rb k z i, \<lambda>_ _. []) (partner_stage P blk sb pt rb k z (Suc i), \<lambda>_ _. [])"
proof -
  let ?dst = "\<lambda>r. fst (pt r i)" and ?src = "\<lambda>r. snd (pt r i)"
  let ?js = "\<lambda>i r. r # map (\<lambda>i. snd (pt r i)) [1..<i]"
  let ?g = "\<lambda>i r. gathered (\<lambda>j. j * blk) (\<lambda>s. msg sb blk s r) (?js i r) (rb r)"
  let ?k = "\<lambda>r b' (_ :: nat). partner_loop P blk blk (sb r) (pt r) (P - Suc i) (Suc i) b' (k r)"
  have pt': "fst (pt r m) < P" "snd (pt r m) < P" if "r < P" "0 < m" "m < P" for r m using pt that by (auto simp: partners_match_def)
  have glen: "length (?g i r) = P * blk" if "r < P" for r
  proof -
    have "j * blk + length (msg sb blk j r) \<le> length (rb r)" if "j \<in> set (?js i r)" for j
    proof -
      have "j < P" using that \<open>r < P\<close> pt'(2) [OF \<open>r < P\<close>] i(2) by auto
      then show ?thesis using msg_length [OF ok _ \<open>r < P\<close>] block_fits ok \<open>r < P\<close> by (simp add: a2a_ok_def)
    qed
    then have "length (?g i r) = length (rb r)" by (rule length_gathered)
    then show ?thesis using ok that by (simp add: a2a_ok_def)
  qed
  have run: "(net_step P)\<^sup>*\<^sup>*
    (\<lambda>r. if r \<in> {..<P} then xchg_bytes P (msg sb blk r (?dst r)) (int (?dst r)) (?g i r) (?src r * blk) blk (int (?src r)) (?k r) else z r, \<lambda>_ _. [])
    (\<lambda>r. if r \<in> {..<P} then ?k r (memcpy_at (?g i r) (?src r * blk) (take blk (msg sb blk (?src r) (?dst (?src r)))))
       (min blk (length (msg sb blk (?src r) (?dst (?src r))))) else z r, \<lambda>_ _. [])"
  proof (rule xchg_all [OF P])
    show "r < P \<and> ?dst r \<in> {..<P} \<and> ?src r \<in> {..<P} \<and> ?src (?dst r) = r \<and> ?dst (?src r) = r" if "r \<in> {..<P}" for r
      using that pt i by (simp add: partners_match_def)
    show "?src r * blk + blk \<le> length (?g i r)" if "r \<in> {..<P}" for r
      using that glen [of r] block_fits [OF pt'(2) [of r i]] i by simp
    show "length (msg sb blk r (?dst r)) \<le> MAX_MESSAGE" if "r \<in> {..<P}" for r
      using that msg_length [OF ok] pt'(1) [of r i] i ok block_fits [of r P blk] by (simp add: a2a_ok_def)
  qed simp
  have start: "(if r \<in> {..<P} then xchg_bytes P (msg sb blk r (?dst r)) (int (?dst r)) (?g i r) (?src r * blk) blk (int (?src r)) (?k r) else z r)
      = partner_stage P blk sb pt rb k z i r" for r
  proof (cases "r < P")
    case True
    have "P - i = Suc (P - Suc i)" using i by simp
    then show ?thesis using True by (simp add: partner_stage_def msg_def Let_def case_prod_beta)
  qed (simp add: partner_stage_def)
  have stop: "(if r \<in> {..<P} then ?k r (memcpy_at (?g i r) (?src r * blk) (take blk (msg sb blk (?src r) (?dst (?src r)))))
       (min blk (length (msg sb blk (?src r) (?dst (?src r))))) else z r) = partner_stage P blk sb pt rb k z (Suc i) r" for r
  proof (cases "r < P")
    case True
    have home: "?dst (?src r) = r" using pt True i by (simp add: partners_match_def)
    have "take blk (msg sb blk (?src r) r) = msg sb blk (?src r) r" using msg_length [OF ok pt'(2) [OF True i] True] by simp
    moreover have "?js (Suc i) r = ?js i r @ [?src r]" using i by simp
    ultimately show ?thesis using True home by (simp only: partner_stage_def gathered_snoc) simp
  qed (simp add: partner_stage_def)
  show ?thesis using run unfolding start stop .
qed

lemma partner_run:
  assumes P: "1 < P" and ok: "a2a_ok P blk sb rb" and pt: "partners_match P pt"
    and every: "\<And>r. r < P \<Longrightarrow> insert r ((\<lambda>i. snd (pt r i)) ` {1..<P}) = {..<P}"
    and own: "\<And>r. r < P \<Longrightarrow> slice (rb r) (r * blk) blk = msg sb blk r r"
  shows "(net_step P)\<^sup>*\<^sup>* (\<lambda>r. if r < P then partner_loop P blk blk (sb r) (pt r) (P - 1) 1 (rb r) (k r) else z r, \<lambda>_ _. [])
    (\<lambda>r. if r < P then k r (transposed P blk sb r) else z r, \<lambda>_ _. [])"
proof -
  have upto: "(net_step P)\<^sup>*\<^sup>* (partner_stage P blk sb pt rb k z 1, \<lambda>_ _. []) (partner_stage P blk sb pt rb k z (Suc i), \<lambda>_ _. [])" if "i < P" for i
    using that
  proof (induction i)
    case (Suc i)
    then show ?case using partner_step [OF P ok pt, of "Suc i" k z] by (auto intro: rtranclp_trans)
  qed simp
  have start: "partner_stage P blk sb pt rb k z 1 r = (if r < P then partner_loop P blk blk (sb r) (pt r) (P - 1) 1 (rb r) (k r) else z r)" for r
  proof (cases "r < P")
    case True
    have "gathered (\<lambda>j. j * blk) (\<lambda>s. msg sb blk s r) [r] (rb r) = rb r"
      using block_fits [OF True, of blk] own [OF True] msg_length [OF ok True True] ok True by (intro gathered_present) (simp_all add: a2a_ok_def)
    then show ?thesis using True by (simp add: partner_stage_def)
  qed (simp add: partner_stage_def)
  have stop: "partner_stage P blk sb pt rb k z P r = (if r < P then k r (transposed P blk sb r) else z r)" for r
    using result_transposed [OF ok, of r "r # map (\<lambda>i. snd (pt r i)) [1..<P]"] every [of r] by (simp add: partner_stage_def)
  have "partner_stage P blk sb pt rb k z 1 = (\<lambda>r. if r < P then partner_loop P blk blk (sb r) (pt r) (P - 1) 1 (rb r) (k r) else z r)"
    "partner_stage P blk sb pt rb k z P = (\<lambda>r. if r < P then k r (transposed P blk sb r) else z r)"
    by (intro ext, rule start, intro ext, rule stop)
  then show ?thesis using upto [of "P - 1"] P by simp
qed

section \<open>Bruck's routing\<close>

lemma pack_spec:
  assumes "length (filter Q xs) * blk \<le> length pk" and "\<And>j. j \<in> set xs \<Longrightarrow> length (g j) = blk"
  shows "\<exists>pk'. foldl (\<lambda>(pk, nb) j. if Q j then (memcpy_at pk (nb * blk) (g j), nb + 1) else (pk, nb)) (pk, 0) xs = (pk', length (filter Q xs))
    \<and> length pk' = length pk \<and> take (length (filter Q xs) * blk) pk' = concat (map g (filter Q xs))"
  using assms
proof (induction xs rule: rev_induct)
  case (snoc x xs)
  let ?n = "length (filter Q xs)"
  have le: "?n * blk \<le> length pk" using snoc.prems(1) by (cases "Q x") simp_all
  then obtain pk' where pk': "foldl (\<lambda>(pk, nb) j. if Q j then (memcpy_at pk (nb * blk) (g j), nb + 1) else (pk, nb)) (pk, 0) xs = (pk', ?n)"
    "length pk' = length pk" "take (?n * blk) pk' = concat (map g (filter Q xs))" using snoc by auto
  show ?case
  proof (cases "Q x")
    case True
    then have "?n * blk + blk \<le> length pk'" "length (g x) = blk" using snoc.prems pk'(2) by (simp_all add: add.commute)
    moreover have "length (concat (map g (filter Q xs))) = ?n * blk" using arg_cong [OF pk'(3), of length] le pk'(2) by simp
    ultimately show ?thesis using True pk' by (simp add: memcpy_at_def min_absorb2 min_absorb1 add.commute)
  next
    case False
    then show ?thesis using pk' by simp
  qed
qed simp

lemma unpack_spec:
  assumes "\<And>n. n < length (filter Q xs) \<Longrightarrow> slice rk (n * blk) blk = h (filter Q xs ! n)"
  shows "foldl (\<lambda>(w, nb) j. if Q j then (memcpy_at w (j * blk) (slice rk (nb * blk) blk), nb + 1) else (w, nb)) (w, 0) xs
    = (gathered (\<lambda>j. j * blk) h (filter Q xs) w, length (filter Q xs))"
  using assms
proof (induction xs rule: rev_induct)
  case (snoc x xs)
  have "slice rk (n * blk) blk = h (filter Q xs ! n)" if "n < length (filter Q xs)" for n
    using snoc.prems [of n] that by (simp add: nth_append split: if_splits)
  note IH = snoc.IH [OF this]
  show ?case
  proof (cases "Q x")
    case True
    have "slice rk (length (filter Q xs) * blk) blk = h x" using snoc.prems [of "length (filter Q xs)"] True by simp
    then show ?thesis using True IH by simp
  next
    case False
    then show ?thesis using IH by simp
  qed
qed simp

lemma packed_slices:
  assumes "\<And>j. j \<in> set js \<Longrightarrow> length (h j) = blk" and "length js * blk \<le> length rk" and "n < length js"
  shows "slice (memcpy_at rk 0 (concat (map h js))) (n * blk) blk = h (js ! n)"
proof -
  let ?c = "\<lambda>n. h (js ! n)" and ?m = "length js"
  have len: "length (?c n) = blk" if "n < ?m" for n using assms(1) that by simp
  have "map ?c [0..<?m] = map h (map ((!) js) [0..<?m])" by simp
  then have "concat (map h js) = concat (map ?c [0..<?m])" by (simp only: map_nth)
  then have "memcpy_at rk 0 (concat (map h js)) = gathered (\<lambda>n. n * blk) ?c [0..<?m] rk"
    using memcpy_gathered [OF uniform_adjacent [of ?m ?c blk, OF len], of 0 ?m rk] assms(2) by simp
  moreover have "slice (gathered (\<lambda>n. n * blk) ?c [0..<?m] rk) (n * blk) (length (?c n)) = ?c n"
    using slice_gathered [OF uniform_apart [of ?m ?c blk, OF len assms(2)], of "[0..<?m]" n] assms(3) by (simp add: lessThan_atLeast0)
  ultimately show ?thesis using len [OF assms(3)] by simp
qed

lemma uniform_outside:
  assumes c: "\<And>j. j < P \<Longrightarrow> length (c j) = blk" and n: "P * blk \<le> length b" and js: "set js \<subseteq> {..<P}"
    and x: "x < length b" "\<And>j. j \<in> set js \<Longrightarrow> \<not> (j * blk \<le> x \<and> x < j * blk + blk)"
  shows "gathered (\<lambda>j. j * blk) c js b ! x = b ! x"
proof (rule gathered_nth_other [OF _ x(1)])
  fix j assume j: "j \<in> set js"
  then have lt: "j < P" using js by auto
  show "j * blk + length (c j) \<le> length b" using block_fits [OF lt, of blk] n c [OF lt] by linarith
  show "\<not> (j * blk \<le> x \<and> x < j * blk + length (c j))" using x(2) [OF j] c [OF lt] by simp
qed

text \<open>Writing some of the blocks anew.\<close>

lemma gathered_override:
  assumes g: "\<And>j. j < P \<Longrightarrow> length (g j) = blk" and h: "\<And>j. j < P \<Longrightarrow> length (h j) = blk"
    and n: "P * blk \<le> length b" and js: "set js \<subseteq> {..<P}"
  shows "gathered (\<lambda>j. j * blk) h js (gathered (\<lambda>j. j * blk) g [0..<P] b) =
    gathered (\<lambda>j. j * blk) (\<lambda>j. if j \<in> set js then h j else g j) [0..<P] b"
proof (rule nth_equalityI)
  let ?d = "\<lambda>j :: nat. j * blk" and ?f = "\<lambda>j. if j \<in> set js then h j else g j"
  let ?G = "gathered ?d g [0..<P] b" and ?I = "[0..<P]"
  have f: "length (?f j) = blk" if "j < P" for j using g h that by simp
  have fits: "?d j + blk \<le> length b" if "j < P" for j using block_fits [OF that, of blk] n by linarith
  have I: "set ?I \<subseteq> {..<P}" by auto
  have G: "length ?G = length b" using fits g by (intro length_gathered) simp
  have lenl: "length (gathered ?d h js ?G) = length ?G" using fits h js G by (intro length_gathered) fastforce
  have lenr: "length (gathered ?d ?f ?I b) = length b" using fits f by (intro length_gathered) simp
  show "length (gathered ?d h js ?G) = length (gathered ?d ?f ?I b)" using G lenl lenr by simp
  note apg = uniform_apart [of P g blk, OF g n] and apf = uniform_apart [of P ?f blk, OF f n]
  have aph: "apart ?d (\<lambda>j. length (h j)) {..<P} (length ?G)" using uniform_apart [of P h blk, OF h] n G by simp
  fix x assume "x < length (gathered ?d h js ?G)"
  then have x: "x < length b" using lenl G by simp
  show "gathered ?d h js ?G ! x = gathered ?d ?f ?I b ! x"
  proof (cases "\<exists>j<P. ?d j \<le> x \<and> x < ?d j + blk")
    case True
    then obtain j where j: "j < P" "?d j \<le> x" "x < ?d j + blk" by blast
    define y where "y = x - ?d j"
    have y: "x = ?d j + y" "y < blk" using j by (auto simp: y_def)
    have rhs: "gathered ?d ?f ?I b ! x = ?f j ! y" unfolding y(1) by (rule gathered_nth [OF apf I]) (use j y f in auto)
    show ?thesis
    proof (cases "j \<in> set js")
      case True
      have "gathered ?d h js ?G ! x = h j ! y" unfolding y(1) by (rule gathered_nth [OF aph js True]) (use j y h in auto)
      then show ?thesis using rhs True by simp
    next
      case False
      have "\<not> (?d i \<le> x \<and> x < ?d i + blk)" if "i \<in> set js" for i
      proof -
        have "i < P" "i \<noteq> j" using that js False by auto
        then show ?thesis using apart_disjoint [OF aph, of i j] h j by auto
      qed
      then have "gathered ?d h js ?G ! x = ?G ! x" using n G x by (intro uniform_outside [OF h _ js]) simp_all
      also have "\<dots> = g j ! y" unfolding y(1) by (rule gathered_nth [OF apg I]) (use j y g in auto)
      finally show ?thesis using rhs False by simp
    qed
  next
    case False
    then have none: "\<not> (?d j \<le> x \<and> x < ?d j + blk)" if "j < P" for j using that by blast
    have "gathered ?d h js ?G ! x = ?G ! x" by (rule uniform_outside [OF h _ js]) (use n G x none js in auto)
    also have "\<dots> = b ! x"
    proof (rule uniform_outside [where P = P and c = g, OF _ n I x])
      show "length (g j) = blk" if "j < P" for j by (rule g [OF that])
      show "\<not> (?d j \<le> x \<and> x < ?d j + blk)" if "j \<in> set ?I" for j using none [of j] that by simp
    qed
    also have "b ! x = gathered ?d ?f ?I b ! x"
    proof (rule uniform_outside [where P = P and c = ?f, OF _ n I x, symmetric])
      show "length (?f j) = blk" if "j < P" for j by (rule f [OF that])
      show "\<not> (?d j \<le> x \<and> x < ?d j + blk)" if "j \<in> set ?I" for j using none [of j] that by simp
    qed
    finally show ?thesis .
  qed
qed

text \<open>
  Block \<open>j\<close> of rank \<open>r\<close> after the rounds of the bits below \<open>t\<close>: it came from the rank \<open>j mod 2 ^ t\<close> below and is
  to go \<open>j\<close> ranks further than where it came from.
\<close>

definition routed :: "nat \<Rightarrow> (nat \<Rightarrow> byte list) \<Rightarrow> nat \<Rightarrow> nat \<Rightarrow> nat \<Rightarrow> nat \<Rightarrow> byte list" where
  "routed P sb blk t r j = (let s = (r + P - j mod 2 ^ t) mod P in msg sb blk s ((s + j) mod P))"

lemma mod_Suc_bit: "(j :: nat) mod 2 ^ Suc t = (if bit j t then j mod 2 ^ t + 2 ^ t else j mod 2 ^ t)"
  using take_bit_Suc_from_most [of t j] by (simp add: take_bit_eq_mod)

lemma routed_Suc:
  assumes "r < P" and "j < P"
  shows "routed P sb blk (Suc t) r j = (if bit j t then routed P sb blk t ((r + P - 2 ^ t) mod P) j else routed P sb blk t r j)"
proof (cases "bit j t")
  case True
  let ?a = "j mod 2 ^ t"
  have "j mod 2 ^ Suc t = ?a + 2 ^ t" using True mod_Suc_bit by simp
  moreover have "j mod 2 ^ Suc t \<le> j" by simp
  ultimately have a: "?a + 2 ^ t < P" using assms(2) by linarith
  have "((r + P - 2 ^ t) mod P + P - ?a) mod P = ((r + P - 2 ^ t) mod P + (P - ?a)) mod P" using a by simp
  also have "\<dots> = (r + P - 2 ^ t + (P - ?a)) mod P" by (simp add: mod_add_left_eq)
  also have "r + P - 2 ^ t + (P - ?a) = r + P - (?a + 2 ^ t) + P" using a by simp
  finally have "((r + P - 2 ^ t) mod P + P - ?a) mod P = (r + P - (?a + 2 ^ t)) mod P" by simp
  then show ?thesis using True by (simp only: routed_def mod_Suc_bit if_True Let_def)
next
  case False
  then show ?thesis by (simp only: routed_def mod_Suc_bit if_False)
qed

lemma routed_start: "r < P \<Longrightarrow> routed P sb blk 0 r j = msg sb blk r ((r + j) mod P)"
  by (simp add: routed_def)

lemma routed_end: "j < P \<Longrightarrow> r < P \<Longrightarrow> P \<le> 2 ^ t \<Longrightarrow> routed P sb blk t r j = msg sb blk ((r + P - j) mod P) r"
  by (simp add: routed_def Let_def mod_add_left_eq)

lemma routed_length: "a2a_ok P blk sb rb \<Longrightarrow> r < P \<Longrightarrow> length (routed P sb blk t r j) = blk"
  using msg_length [of P blk sb rb] by (simp add: routed_def Let_def)

lemma rotation_down_all:
  assumes P: "1 < (P :: nat)" and r: "r < P"
  shows "insert r ((\<lambda>j. (r + P - j) mod P) ` {1..<P}) = {..<P}"
proof -
  have "(\<lambda>n. (left_of P ^^ n) r) ` {..<P} = (\<lambda>j. (r + P - j) mod P) ` {..<P}"
    using left_of_steps [OF r] by (intro image_cong) simp_all
  moreover have "{..<P} = insert 0 {1..<P}" using P by auto
  ultimately show ?thesis using ring_reaches_all [OF r] r by simp
qed

definition a2a_stage ::
  "nat \<Rightarrow> nat \<Rightarrow> (nat \<Rightarrow> byte list) \<Rightarrow> (nat \<Rightarrow> byte list) \<Rightarrow> (nat \<Rightarrow> byte list) \<Rightarrow> (nat \<Rightarrow> byte list) \<Rightarrow> (nat \<Rightarrow> byte list \<Rightarrow> 'a rank_proc)
     \<Rightarrow> (nat \<Rightarrow> 'a rank_proc) \<Rightarrow> nat \<Rightarrow> nat \<Rightarrow> 'a rank_proc" where
  "a2a_stage P blk sb w pk rk k z t r =
     (if r < P
      then a2a_bruck_loop P r blk t (gathered (\<lambda>j. j * blk) (routed P sb blk t r) [0..<P] (w r)) (pk r) (rk r) (k r)
      else z r)"

lemma a2a_step:
  assumes P: "1 < P" and ok: "a2a_ok P blk sb rb" and t: "2 ^ t < P"
    and scratch: "\<And>r. r < P \<Longrightarrow> P * blk \<le> length (w r) \<and> P * blk \<le> length (pk r) \<and> P * blk \<le> length (rk r)"
  shows "\<exists>pk' rk'. (\<forall>r<P. length (pk' r) = length (pk r) \<and> length (rk' r) = length (rk r)) \<and>
    (net_step P)\<^sup>*\<^sup>* (a2a_stage P blk sb w pk rk k z t, \<lambda>_ _. []) (a2a_stage P blk sb w pk' rk' k z (Suc t), \<lambda>_ _. [])"
proof -
  let ?d = "\<lambda>j. j * blk" and ?js = "filter (\<lambda>j. bit j t) [0..<P]"
  let ?nb = "length (filter (\<lambda>j. bit j t) [0..<P])"
  let ?dst = "\<lambda>r. (r + 2 ^ t) mod P" and ?src = "\<lambda>r. (r + P - 2 ^ t) mod P"
  let ?w = "\<lambda>t r. gathered ?d (routed P sb blk t r) [0..<P] (w r)"
  let ?D = "\<lambda>r. concat (map (routed P sb blk t r) ?js)"
  have rlen: "length (routed P sb blk t r j) = blk" if "r < P" for r t j using routed_length [OF ok that] .
  have nb: "?nb * blk \<le> P * blk" using length_filter_le [of "\<lambda>j. bit j t" "[0..<P]"] by (intro mult_le_mono1) simp
  have Dlen: "length (?D r) = ?nb * blk" if "r < P" for r
    using rlen [OF that] by (simp add: length_concat comp_def sum_list_triv)
  have sl: "slice (?w t r) (?d j) blk = routed P sb blk t r j" if "r < P" "j < P" for r j
    using slice_uniform [of P "routed P sb blk t r" blk "w r" j] scratch [OF that(1)] rlen [OF that(1)] that(2) by simp
  have "\<exists>q. pack_blocks P blk t (?w t r) (pk r) = (q, ?nb) \<and> length q = length (pk r) \<and> slice q 0 (?nb * blk) = ?D r" if r: "r < P" for r
  proof -
    have wl: "length (slice (?w t r) (?d j) blk) = blk" if "j \<in> set [0..<P]" for j using sl [OF r, of j] rlen [OF r] that by simp
    have "?nb * blk \<le> length (pk r)" using nb scratch [OF r] by linarith
    from pack_spec [where g = "\<lambda>j. slice (?w t r) (?d j) blk", OF this wl] obtain q where
      q: "pack_blocks P blk t (?w t r) (pk r) = (q, ?nb)" "length q = length (pk r)" "take (?nb * blk) q = concat (map (\<lambda>j. slice (?w t r) (?d j) blk) ?js)"
      unfolding pack_blocks_def by auto
    have m: "map (\<lambda>j. slice (?w t r) (?d j) blk) ?js = map (routed P sb blk t r) ?js" using sl [OF r] by simp
    have "slice q 0 (?nb * blk) = take (?nb * blk) q" by (simp add: slice_def)
    then show ?thesis using q(1,2) q(3) [unfolded m] by (intro exI [of _ q]) simp
  qed
  then obtain pk' where pk': "\<And>r. r < P \<Longrightarrow> pack_blocks P blk t (?w t r) (pk r) = (pk' r, ?nb)" "\<And>r. r < P \<Longrightarrow> length (pk' r) = length (pk r)"
    "\<And>r. r < P \<Longrightarrow> slice (pk' r) 0 (?nb * blk) = ?D r" by metis
  let ?rk = "\<lambda>r. memcpy_at (rk r) 0 (?D (?src r))"
  let ?k = "\<lambda>r rk' (_ :: nat). a2a_bruck_loop P r blk (Suc t) (unpack_blocks P blk t (?w t r) rk') (pk' r) rk' (k r)"
  have room: "0 + ?nb * blk \<le> length (rk r)" if "r < P" for r using nb scratch [OF that] by linarith
  have run: "(net_step P)\<^sup>*\<^sup>*
    (\<lambda>r. if r \<in> {..<P} then xchg_bytes P (?D r) (int (?dst r)) (rk r) 0 (?nb * blk) (int (?src r)) (?k r) else z r, \<lambda>_ _. [])
    (\<lambda>r. if r \<in> {..<P} then ?k r (memcpy_at (rk r) 0 (take (?nb * blk) (?D (?src r)))) (min (?nb * blk) (length (?D (?src r)))) else z r, \<lambda>_ _. [])"
  proof (rule xchg_all [OF P])
    show "r < P \<and> ?dst r \<in> {..<P} \<and> ?src r \<in> {..<P} \<and> ?src (?dst r) = r \<and> ?dst (?src r) = r" if "r \<in> {..<P}" for r
      using that rotate_back [of r P "2 ^ t"] t by simp
    show "0 + ?nb * blk \<le> length (rk r)" if "r \<in> {..<P}" for r using that room by simp
    have "?nb * blk \<le> MAX_MESSAGE" using nb ok unfolding a2a_ok_def by linarith
    then show "length (?D r) \<le> MAX_MESSAGE" if "r \<in> {..<P}" for r using that Dlen [of r] by simp
  qed simp
  have start: "(if r \<in> {..<P} then xchg_bytes P (?D r) (int (?dst r)) (rk r) 0 (?nb * blk) (int (?src r)) (?k r) else z r) = a2a_stage P blk sb w pk rk k z t r" for r
    using t pk'(1,3) by (simp add: a2a_stage_def a2a_bruck_loop.simps [of P r blk t])
  have stop: "(if r \<in> {..<P} then ?k r (memcpy_at (rk r) 0 (take (?nb * blk) (?D (?src r)))) (min (?nb * blk) (length (?D (?src r)))) else z r)
      = a2a_stage P blk sb w pk' ?rk k z (Suc t) r" for r
  proof (cases "r < P")
    case True
    have src: "?src r < P" using P by simp
    let ?h = "routed P sb blk t (?src r)"
    have "slice (?rk r) (n * blk) blk = ?h (?js ! n)" if "n < ?nb" for n
      using room [OF True] rlen [OF src] that by (intro packed_slices) simp_all
    from unpack_spec [where Q = "\<lambda>j. bit j t" and xs = "[0..<P]" and h = ?h and rk = "?rk r", OF this]
    have "unpack_blocks P blk t (?w t r) (?rk r) = gathered ?d ?h ?js (?w t r)" by (simp add: unpack_blocks_def)
    also have "\<dots> = gathered ?d (\<lambda>j. if j \<in> set ?js then ?h j else routed P sb blk t r j) [0..<P] (w r)"
      using rlen [OF True] rlen [OF src] scratch [OF True] by (intro gathered_override) auto
    also have "\<dots> = ?w (Suc t) r"
      by (rule gathered_cong) (simp add: routed_Suc [OF True])
    finally show ?thesis using True Dlen [OF src] by (simp add: a2a_stage_def)
  qed (simp add: a2a_stage_def)
  have "length (?rk r) = length (rk r)" if "r < P" for r
    using room [OF that] Dlen [of "?src r"] P by simp
  then show ?thesis using run pk'(2) unfolding start stop by (intro exI [of _ pk'] exI [of _ ?rk]) auto
qed

lemma alltoall_bruck_run:
  assumes P: "1 < P" and ok: "a2a_ok P blk sb rb"
    and scratch: "\<And>r. r < P \<Longrightarrow> P * blk \<le> length (w r) \<and> P * blk \<le> length (pk r) \<and> P * blk \<le> length (rk r)"
    and own: "\<And>r. r < P \<Longrightarrow> slice (rb r) (r * blk) blk = msg sb blk r r"
  shows "(net_step P)\<^sup>*\<^sup>* (\<lambda>r. if r < P then alltoall_bruck P r blk blk (sb r) (rb r) (w r) (pk r) (rk r) (k r) else z r, \<lambda>_ _. [])
    (\<lambda>r. if r < P then k r (transposed P blk sb r) else z r, \<lambda>_ _. [])"
proof -
  let ?d = "\<lambda>j. j * blk"
  let ?out = "\<lambda>r w. foldl (\<lambda>b j. memcpy_at b ((r + P - j) mod P * blk) (slice w (j * blk) blk)) (rb r) [1..<P]"
  let ?k = "\<lambda>r w. k r (?out r w)"
  obtain L where L: "2 ^ L \<le> P" "P < 2 * 2 ^ L" using pof2_floor_spec [of P] P by auto
  define T where "T = (if 2 ^ L = P then L else Suc L)"
  have T: "P \<le> 2 ^ T" "t < T \<Longrightarrow> 2 ^ t < P" for t
  proof -
    show "P \<le> 2 ^ T" using L by (simp add: T_def)
    show "2 ^ t < P" if "t < T"
    proof (cases "2 ^ L = P")
      case True
      then show ?thesis using that by (auto simp: T_def)
    next
      case False
      then have "(2 :: nat) ^ t \<le> 2 ^ L" using that by (intro power_increasing) (simp_all add: T_def)
      then show ?thesis using False L(1) by linarith
    qed
  qed
  have "\<exists>pk' rk'. (\<forall>r<P. length (pk' r) = length (pk r) \<and> length (rk' r) = length (rk r)) \<and>
    (net_step P)\<^sup>*\<^sup>* (a2a_stage P blk sb w pk rk ?k z 0, \<lambda>_ _. []) (a2a_stage P blk sb w pk' rk' ?k z t, \<lambda>_ _. [])" if "t \<le> T" for t
    using that
  proof (induction t)
    case 0
    show ?case by (intro exI [of _ pk] exI [of _ rk]) simp
  next
    case (Suc t)
    then obtain pk1 rk1 where 1: "\<forall>r<P. length (pk1 r) = length (pk r) \<and> length (rk1 r) = length (rk r)"
      "(net_step P)\<^sup>*\<^sup>* (a2a_stage P blk sb w pk rk ?k z 0, \<lambda>_ _. []) (a2a_stage P blk sb w pk1 rk1 ?k z t, \<lambda>_ _. [])" by auto
    have "2 ^ t < P" using T(2) Suc.prems by simp
    from a2a_step [where w = w and pk = pk1 and rk = rk1 and k = ?k and z = z, OF P ok this] 1(1) scratch
    obtain pk2 rk2 where 2: "\<forall>r<P. length (pk2 r) = length (pk1 r) \<and> length (rk2 r) = length (rk1 r)"
      "(net_step P)\<^sup>*\<^sup>* (a2a_stage P blk sb w pk1 rk1 ?k z t, \<lambda>_ _. []) (a2a_stage P blk sb w pk2 rk2 ?k z (Suc t), \<lambda>_ _. [])" by auto
    show ?case using 1 2 by (intro exI [of _ pk2] exI [of _ rk2] conjI rtranclp_trans [OF 1(2) 2(2)]) simp
  qed
  then obtain pk' rk' where run: "(net_step P)\<^sup>*\<^sup>* (a2a_stage P blk sb w pk rk ?k z 0, \<lambda>_ _. []) (a2a_stage P blk sb w pk' rk' ?k z T, \<lambda>_ _. [])"
    by blast
  have start: "a2a_stage P blk sb w pk rk ?k z 0 r = (if r < P then alltoall_bruck P r blk blk (sb r) (rb r) (w r) (pk r) (rk r) (k r) else z r)" for r
    by (simp add: a2a_stage_def alltoall_bruck_def gathered_def routed_start msg_def cong: if_cong)
  have stop: "a2a_stage P blk sb w pk' rk' ?k z T r = (if r < P then k r (transposed P blk sb r) else z r)" for r
  proof (cases "r < P")
    case True
    let ?g = "gathered ?d (routed P sb blk T r) [0..<P] (w r)"
    note rlen = routed_length [OF ok True, of T]
    have sl: "slice ?g (?d j) blk = msg sb blk ((r + P - j) mod P) r" if "j < P" for j
      using slice_uniform [of P "routed P sb blk T r" blk "w r" j] scratch [OF True] rlen that routed_end [OF that True T(1), of sb blk] by simp
    let ?js = "map (\<lambda>j. (r + P - j) mod P) [1..<P]"
    have "?out r ?g = foldl (\<lambda>b j. memcpy_at b ((r + P - j) mod P * blk) (msg sb blk ((r + P - j) mod P) r)) (rb r) [1..<P]"
      by (rule foldl_cong) (use sl in auto)
    also have "\<dots> = gathered ?d (\<lambda>s. msg sb blk s r) ?js (rb r)" by (simp add: gathered_def foldl_map)
    also have "\<dots> = gathered ?d (\<lambda>s. msg sb blk s r) ([r] @ ?js) (rb r)"
      using gathered_present [of ?d r "\<lambda>s. msg sb blk s r" "rb r"] block_fits [OF True, of blk] own [OF True] msg_length [OF ok True True] ok True
      by (simp only: gathered_append) (simp add: a2a_ok_def)
    also have "\<dots> = transposed P blk sb r"
    proof (rule result_transposed [OF ok True])
      show "set ([r] @ ?js) = {..<P}" using rotation_down_all [OF P True] by simp
    qed
    finally have "?out r ?g = transposed P blk sb r" .
    moreover have "\<not> 2 ^ T < P" using T(1) by simp
    ultimately show ?thesis using True by (simp add: a2a_stage_def a2a_bruck_loop.simps [of P r blk T])
  qed (simp add: a2a_stage_def)
  have "a2a_stage P blk sb w pk rk ?k z 0 = (\<lambda>r. if r < P then alltoall_bruck P r blk blk (sb r) (rb r) (w r) (pk r) (rk r) (k r) else z r)"
    "a2a_stage P blk sb w pk' rk' ?k z T = (\<lambda>r. if r < P then k r (transposed P blk sb r) else z r)"
    by (intro ext, rule start, intro ext, rule stop)
  then show ?thesis using run by (simp only:)
qed

section \<open>The collective\<close>

lemma xor_below:
  assumes "P = 2 ^ L" and "a < P" and "b < (P :: nat)"
  shows "a XOR b < P"
  using assms by (simp add: take_bit_nat_eq_self_iff [symmetric] take_bit_xor)

lemma xor_cancel: "(a XOR b) XOR b = (a :: nat)" "a XOR (a XOR b) = b"
  by (simp_all add: xor.assoc xor.assoc [symmetric])

lemma scattered_partners:
  "partners_match P (scattered_partner P)" "r < P \<Longrightarrow> insert r ((\<lambda>i. snd (scattered_partner P r i)) ` {1..<P}) = {..<P}"
  using rotate_back rotation_all [of r P] by (simp_all add: partners_match_def scattered_partner_def)

lemma pairwise_partners:
  assumes P: "1 < P"
  shows "partners_match P (pairwise_partner P)" and "r < P \<Longrightarrow> insert r ((\<lambda>i. snd (pairwise_partner P r i)) ` {1..<P}) = {..<P}"
proof -
  show "partners_match P (pairwise_partner P)"
  proof (cases "is_pof2 P")
    case True
    then obtain L where L: "P = 2 ^ L" using is_pof2_power by blast
    show ?thesis using True xor_below [OF L] by (simp add: partners_match_def pairwise_partner_def xor_cancel)
  next
    case False
    then show ?thesis using rotate_back by (simp add: partners_match_def pairwise_partner_def)
  qed
  assume r: "r < P"
  show "insert r ((\<lambda>i. snd (pairwise_partner P r i)) ` {1..<P}) = {..<P}"
  proof (cases "is_pof2 P")
    case True
    then obtain L where L: "P = 2 ^ L" using is_pof2_power by blast
    have "(XOR) r ` {..<P} = {..<P}"
    proof
      show "(XOR) r ` {..<P} \<subseteq> {..<P}" using xor_below [OF L r] by auto
      show "{..<P} \<subseteq> (XOR) r ` {..<P}"
      proof
        fix x assume "x \<in> {..<P}"
        then have "x = r XOR (r XOR x)" "r XOR x \<in> {..<P}" using xor_below [OF L r] by (simp_all add: xor_cancel)
        then show "x \<in> (XOR) r ` {..<P}" by (rule image_eqI)
      qed
    qed
    moreover have "{..<P} = insert 0 {1..<P}" using P by auto
    ultimately have "insert r ((XOR) r ` {1..<P}) = {..<P}" by simp
    then show ?thesis using True by (simp add: pairwise_partner_def)
  next
    case False
    then show ?thesis using rotation_down_all [OF P r] by (simp add: pairwise_partner_def)
  qed
qed

text \<open>
  C13: \<^verbatim>\<open>MPI_Alltoall\<close>, with any number of ranks and any block size, whichever of the three algorithms they select: no
  execution deadlocks, aborts or runs for ever, and rank \<open>d\<close> ends with the blocks that all ranks had for it, in rank order.
  In Bruck's algorithm every block passes through the ranks at the partial sums of its distance and still arrives.
\<close>

theorem MPI_Alltoall_correct:
  assumes "1 < P" and "dtype_size st = Some se" and "dtype_size rt = Some re" and "sc * se = blk" and "rc * re = blk"
    and "P * blk \<le> MAX_MESSAGE" and "\<forall>r<P. length (sb r) = P * blk \<and> length (rb r) = P * blk"
    and "\<forall>r<P. P * blk \<le> length (w r) \<and> P * blk \<le> length (pk r) \<and> P * blk \<le> length (rk r)"
    and "\<forall>r<P. ps r = MPI_Alltoall P r (sb r) sc st (rb r) rc rt (w r) (pk r) (rk r) (ab r) Ret"
  shows "always_ends P ps (transposed P blk sb)"
proof -
  let ?rb = "\<lambda>r. memcpy_at (rb r) (r * blk) (msg sb blk r r)"
  have ok0: "a2a_ok P blk sb rb" using assms(6,7) by (simp add: a2a_ok_def)
  have fits: "r * blk + length (msg sb blk r r) \<le> length (rb r)" if "r < P" for r
    using block_fits [OF that, of blk] msg_length [OF ok0 that that] assms(7) that by simp
  then have ok: "a2a_ok P blk sb ?rb" using ok0 by (simp add: a2a_ok_def)
  have own: "slice (?rb r) (r * blk) blk = msg sb blk r r" if "r < P" for r
    using fits [OF that] msg_length [OF ok0 that that] by (simp add: slice_def memcpy_at_def)
  have start: "ps r =
      (if blk \<le> kAlltoallShort \<and> kAlltoallMinProcs \<le> P then alltoall_bruck P r blk blk (sb r) (?rb r) (w r) (pk r) (rk r) Ret
       else if blk \<le> kAlltoallMedium then partner_loop P blk blk (sb r) (scattered_partner P r) (P - 1) 1 (?rb r) Ret
       else partner_loop P blk blk (sb r) (pairwise_partner P r) (P - 1) 1 (?rb r) Ret)" if "r < P" for r
    using that assms(1-5,9) by (simp add: MPI_Alltoall_def msg_def Let_def)
  let ?res = "(\<lambda>r. if r < P then Ret (transposed P blk sb r) else ps r, \<lambda>_ _. [])"
  have "(net_step P)\<^sup>*\<^sup>* (ps, \<lambda>_ _. []) ?res"
  proof (cases "blk \<le> kAlltoallShort \<and> kAlltoallMinProcs \<le> P")
    case True
    have eq: "ps = (\<lambda>r. if r < P then alltoall_bruck P r blk blk (sb r) (?rb r) (w r) (pk r) (rk r) Ret else ps r)"
      using start True by (intro ext) simp
    have "P * blk \<le> length (w r) \<and> P * blk \<le> length (pk r) \<and> P * blk \<le> length (rk r)" if "r < P" for r using assms(8) that by blast
    from alltoall_bruck_run [where w = w and pk = pk and rk = rk and k = "\<lambda>_. Ret" and z = ps, OF assms(1) ok this own] show ?thesis by (simp only: eq [symmetric])
  next
    case bruck: False
    show ?thesis
    proof (cases "blk \<le> kAlltoallMedium")
      case True
      have eq: "ps = (\<lambda>r. if r < P then partner_loop P blk blk (sb r) (scattered_partner P r) (P - 1) 1 (?rb r) Ret else ps r)"
        using start bruck True by (intro ext) auto
      from partner_run [where k = "\<lambda>_. Ret" and z = ps, OF assms(1) ok scattered_partners own] show ?thesis by (simp only: eq [symmetric])
    next
      case False
      have eq: "ps = (\<lambda>r. if r < P then partner_loop P blk blk (sb r) (pairwise_partner P r) (P - 1) 1 (?rb r) Ret else ps r)"
        using start bruck False by (intro ext) auto
      from partner_run [where k = "\<lambda>_. Ret" and z = ps, OF assms(1) ok pairwise_partners [OF assms(1)] own] show ?thesis
        by (simp only: eq [symmetric])
    qed
  qed
  then show ?thesis by (rule always_endsI) simp
qed

definition sample_row :: "nat \<Rightarrow> byte list" where
  "sample_row s = map (\<lambda>d. word_of_nat (10 * s + d)) [0..<9]"

text \<open>Nine ranks with one byte for each: Bruck's algorithm with an incomplete last round.\<close>

theorem MPI_Alltoall_correct_witness:
  "always_ends 9 (\<lambda>r. MPI_Alltoall 9 r (sample_row r) 1 1 (replicate 9 0) 1 1 (replicate 9 1) (replicate 9 2) (replicate 9 3) (Ret []) Ret)
     (transposed 9 1 sample_row) \<and> transposed 9 1 sample_row 4 = [4, 14, 24, 34, 44, 54, 64, 74, 84]"
proof
  show "always_ends 9 (\<lambda>r. MPI_Alltoall 9 r (sample_row r) 1 1 (replicate 9 0) 1 1 (replicate 9 1) (replicate 9 2) (replicate 9 3) (Ret []) Ret)
     (transposed 9 1 sample_row)"
    by (rule MPI_Alltoall_correct [where se = 1 and re = 1 and rt = 1 and st = 1 and sc = 1 and rc = 1 and rb = "\<lambda>_. replicate 9 0"
          and w = "\<lambda>_. replicate 9 1" and pk = "\<lambda>_. replicate 9 2" and rk = "\<lambda>_. replicate 9 3" and ab = "\<lambda>_. Ret []"])
      (simp_all add: dtype_size_def MAX_MESSAGE_def MAX_MSG_BYTES_def sample_row_def)
  show "transposed 9 1 sample_row 4 = [4, 14, 24, 34, 44, 54, 64, 74, 84]" by code_simp
qed

end
