(* ===== verification/Mpi_Gather.thy ===== *)
theory Mpi_Gather
  imports Mpi_Alltoall
begin

text \<open>
  \<^verbatim>\<open>MPI_Gather\<close> and \<^verbatim>\<open>MPI_Scatter\<close> of src/parallel_abstraction/pimid_mpi.cpp, on the binomial tree of \<open>Mpi_Tree\<close>: a rank gathers the
  blocks of its subtree, a run of relative ranks that starts with its own, and passes them up, or gets
  them from above and passes their upper halves down. The linear \<^verbatim>\<open>MPI_Gatherv\<close> is here as well. The scratch memory is an
  argument; \<open>ab\<close> is where a rank goes that aborts or uses an address that is none.
\<close>

section \<open>The collectives\<close>

text \<open>\<^verbatim>\<open>sub\<close>: the number of ranks in the subtree of a relative rank.\<close>

definition sub_size :: "nat \<Rightarrow> nat \<Rightarrow> nat" where
  "sub_size P rel =
     (let sub = 2 ^ low_bit P rel 0
      in if rel = 0 then P else if sub > P - rel then P - rel else sub)"

text \<open>The loop of \<^verbatim>\<open>MPI_Gather\<close> from \<^verbatim>\<open>mask\<close> \<open>= 2 ^ t\<close>.\<close>

function tree_gather_loop ::
  "nat \<Rightarrow> nat \<Rightarrow> nat \<Rightarrow> nat \<Rightarrow> nat \<Rightarrow> nat \<Rightarrow> byte list \<Rightarrow> (byte list \<Rightarrow> 'a rank_proc) \<Rightarrow> 'a rank_proc" where
  "tree_gather_loop P rel root blk t cur w k =
     (if 2 ^ t < P
      then if \<not> bit rel t
           then let src = rel OR 2 ^ t
                in if src < P
                   then let nb = (if 2 ^ t < P - src then 2 ^ t else P - src)
                        in recv_bytes P w (2 ^ t * blk) (nb * blk) (int ((src + root) mod P))
                             (\<lambda>w' _. tree_gather_loop P rel root blk (Suc t) (cur + nb) w' k)
                   else tree_gather_loop P rel root blk (Suc t) cur w k
           else send_bytes P (slice w 0 (cur * blk)) (int ((rel - 2 ^ t + root) mod P)) 0 (k w)
      else k w)"
  by auto
termination
proof (relation "measure (\<lambda>(P, rel, root, blk, t, cur, w, k). P - t)", goal_cases)
  case (2 P rel root blk t)
  then have "t < P" using less_exp [of t] by linarith
  then show ?case by simp
next
  case (3 P rel root blk t)
  then have "t < P" using less_exp [of t] by linarith
  then show ?case by simp
qed simp

declare tree_gather_loop.simps [simp del]

text \<open>
  The buffer \<^verbatim>\<open>w\<close> with the own block in front: the receive buffer at rank 0 as the root, the send buffer at a leaf, scratch memory
  elsewhere; \<open>None\<close> where a leaf has no send buffer.
\<close>

definition gather_buffer :: "nat \<Rightarrow> nat \<Rightarrow> nat \<Rightarrow> nat \<Rightarrow> SendArg \<Rightarrow> byte list \<Rightarrow> byte list \<Rightarrow> byte list option" where
  "gather_buffer P rel root blk sendbuf rbuf tmp =
     (if rel = 0 \<and> root = 0
      then Some (case sendbuf of Buf s \<Rightarrow> memcpy_at rbuf 0 (take blk s) | _ \<Rightarrow> rbuf)
      else if sub_size P rel = 1 then (case sendbuf of Buf s \<Rightarrow> Some s | _ \<Rightarrow> None)
      else Some (case sendbuf of Buf s \<Rightarrow> memcpy_at tmp 0 (take blk s) | In_Place \<Rightarrow> memcpy_at tmp 0 (slice rbuf (root * blk) blk) | Null_Buf \<Rightarrow> tmp))"

definition MPI_Gather ::
  "nat \<Rightarrow> nat \<Rightarrow> SendArg \<Rightarrow> nat \<Rightarrow> u32 \<Rightarrow> byte list \<Rightarrow> nat \<Rightarrow> u32 \<Rightarrow> nat \<Rightarrow> byte list \<Rightarrow> 'a rank_proc
     \<Rightarrow> (byte list \<Rightarrow> 'a rank_proc) \<Rightarrow> 'a rank_proc" where
  "MPI_Gather P rank sendbuf sendcount sendtype rbuf recvcount recvtype root tmp ab k =
     (case (if rank = root then map_option (\<lambda>e. recvcount * e) (dtype_size recvtype) else map_option (\<lambda>e. sendcount * e) (dtype_size sendtype)) of
        None \<Rightarrow> ab
      | Some blk \<Rightarrow>
         (if P \<le> 1 then k (case sendbuf of Buf s \<Rightarrow> memcpy_at rbuf 0 (take blk s) | _ \<Rightarrow> rbuf)
          else let rel = rel_rank P root rank
               in case gather_buffer P rel root blk sendbuf rbuf tmp of
                    None \<Rightarrow> ab
                  | Some w \<Rightarrow> tree_gather_loop P rel root blk 0 1 w (\<lambda>w.
                      if rel \<noteq> 0 then k rbuf
                      else if root = 0 then k w
                      else k (foldl (\<lambda>b j. memcpy_at b ((j + root) mod P * blk) (slice w (j * blk) blk)) rbuf [0..<P]))))"

text \<open>The last loop of \<^verbatim>\<open>MPI_Scatter\<close>, \<^verbatim>\<open>mask\<close> from \<open>2 ^ (t - 1)\<close> down to 1.\<close>

fun tree_scatter_loop :: "nat \<Rightarrow> nat \<Rightarrow> nat \<Rightarrow> nat \<Rightarrow> byte list \<Rightarrow> nat \<Rightarrow> nat \<Rightarrow> 'a rank_proc \<Rightarrow> 'a rank_proc" where
  "tree_scatter_loop P rank rel blk w 0 cur k = k"
| "tree_scatter_loop P rank rel blk w (Suc t) cur k =
     (if rel + 2 ^ t < P \<and> cur > 2 ^ t
      then send_bytes P (slice w (2 ^ t * blk) ((cur - 2 ^ t) * blk)) (int ((rank + 2 ^ t) mod P)) 0
             (tree_scatter_loop P rank rel blk w t (2 ^ t) k)
      else tree_scatter_loop P rank rel blk w t cur k)"

text \<open>The receive buffer is a \<^verbatim>\<open>SendArg\<close> here: the root may pass \<^verbatim>\<open>MPI_IN_PLACE\<close>.\<close>

definition put_front :: "SendArg \<Rightarrow> byte list \<Rightarrow> SendArg" where
  "put_front recvbuf bs = (case recvbuf of Buf b \<Rightarrow> Buf (memcpy_at b 0 bs) | r \<Rightarrow> r)"

definition MPI_Scatter ::
  "nat \<Rightarrow> nat \<Rightarrow> byte list \<Rightarrow> nat \<Rightarrow> u32 \<Rightarrow> SendArg \<Rightarrow> nat \<Rightarrow> u32 \<Rightarrow> nat \<Rightarrow> byte list \<Rightarrow> 'a rank_proc
     \<Rightarrow> (SendArg \<Rightarrow> 'a rank_proc) \<Rightarrow> 'a rank_proc" where
  "MPI_Scatter P rank sbuf sendcount sendtype recvbuf recvcount recvtype root tmp ab k =
     (case (if rank = root then map_option (\<lambda>e. sendcount * e) (dtype_size sendtype) else map_option (\<lambda>e. recvcount * e) (dtype_size recvtype)) of
        None \<Rightarrow> ab
      | Some blk \<Rightarrow>
         (if P \<le> 1 then k (put_front recvbuf (take blk sbuf))
          else let rel = rel_rank P root rank; t = low_bit P rel 0;
                   pass = (\<lambda>w cur. tree_scatter_loop P rank rel blk w t cur (k (put_front recvbuf (take blk w))))
               in if rel = 0
                  then pass (if root = 0 then sbuf else foldl (\<lambda>w j. memcpy_at w (j * blk) (slice sbuf ((j + root) mod P * blk) blk)) tmp [0..<P]) P
                  else let parent = int ((rank + P - 2 ^ t) mod P)
                       in if sub_size P rel = 1
                          then (case recvbuf of Buf b \<Rightarrow> recv_bytes P b 0 blk parent (\<lambda>b' _. k (Buf b')) | _ \<Rightarrow> ab)
                          else recv_bytes P tmp 0 (sub_size P rel * blk) parent (\<lambda>w _. pass w (sub_size P rel))))"

text \<open>\<^verbatim>\<open>MPI_Send\<close> and \<^verbatim>\<open>MPI_Recv\<close> do nothing for a rank that is none.\<close>

definition MPI_Send :: "nat \<Rightarrow> byte list \<Rightarrow> nat \<Rightarrow> u32 \<Rightarrow> int \<Rightarrow> int \<Rightarrow> 'a rank_proc \<Rightarrow> 'a rank_proc \<Rightarrow> 'a rank_proc" where
  "MPI_Send P buf cnt datatype dest tag ab k =
     (if P \<le> 1 then k else if dest < 0 \<or> int P \<le> dest then k
      else case dtype_size datatype of None \<Rightarrow> ab | Some e \<Rightarrow> send_bytes P (take (cnt * e) buf) dest tag k)"

definition MPI_Recv ::
  "nat \<Rightarrow> byte list \<Rightarrow> nat \<Rightarrow> nat \<Rightarrow> u32 \<Rightarrow> int \<Rightarrow> 'a rank_proc \<Rightarrow> (byte list \<Rightarrow> 'a rank_proc) \<Rightarrow> 'a rank_proc" where
  "MPI_Recv P buf off cnt datatype source ab k =
     (if P \<le> 1 then k buf else if source < 0 \<or> int P \<le> source then k buf
      else case dtype_size datatype of None \<Rightarrow> ab | Some e \<Rightarrow> recv_bytes P buf off (cnt * e) source (\<lambda>b _. k b))"

text \<open>The root's loop of \<^verbatim>\<open>MPI_Gatherv\<close> over the ranks \<open>is\<close> to come.\<close>

fun gatherv_loop ::
  "nat \<Rightarrow> SendArg \<Rightarrow> nat \<Rightarrow> u32 \<Rightarrow> nat list \<Rightarrow> nat list \<Rightarrow> u32 \<Rightarrow> nat \<Rightarrow> nat \<Rightarrow> nat list \<Rightarrow> byte list \<Rightarrow> 'a rank_proc
     \<Rightarrow> (byte list \<Rightarrow> 'a rank_proc) \<Rightarrow> 'a rank_proc" where
  "gatherv_loop P sendbuf sendcount sendtype recvcounts displs recvtype rtsz root [] b ab k = k b"
| "gatherv_loop P sendbuf sendcount sendtype recvcounts displs recvtype rtsz root (i # is) b ab k =
     (if i = root
      then (case sendbuf of
              Buf s \<Rightarrow> (case dtype_size sendtype of None \<Rightarrow> ab
                       | Some e \<Rightarrow> gatherv_loop P sendbuf sendcount sendtype recvcounts displs recvtype rtsz root is
                                     (memcpy_at b (displs ! i * rtsz) (take (sendcount * e) s)) ab k)
            | _ \<Rightarrow> gatherv_loop P sendbuf sendcount sendtype recvcounts displs recvtype rtsz root is b ab k)
      else MPI_Recv P b (displs ! i * rtsz) (recvcounts ! i) recvtype (int i) ab
             (\<lambda>b'. gatherv_loop P sendbuf sendcount sendtype recvcounts displs recvtype rtsz root is b' ab k))"

definition MPI_Gatherv ::
  "nat \<Rightarrow> nat \<Rightarrow> SendArg \<Rightarrow> nat \<Rightarrow> u32 \<Rightarrow> byte list \<Rightarrow> nat list \<Rightarrow> nat list \<Rightarrow> u32 \<Rightarrow> nat \<Rightarrow> 'a rank_proc
     \<Rightarrow> (byte list \<Rightarrow> 'a rank_proc) \<Rightarrow> 'a rank_proc" where
  "MPI_Gatherv P rank sendbuf sendcount sendtype rbuf recvcounts displs recvtype root ab k =
     (case dtype_size recvtype of None \<Rightarrow> ab
      | Some rtsz \<Rightarrow>
         (if rank \<noteq> root
          then (case sendbuf of Buf s \<Rightarrow> MPI_Send P s sendcount sendtype (int root) 0 ab (k rbuf) | _ \<Rightarrow> ab)
          else gatherv_loop P sendbuf sendcount sendtype recvcounts displs recvtype rtsz root [0..<P] rbuf ab k))"

section \<open>Ranks in an order\<close>

text \<open>
  When every message goes from an earlier to a later rank of some order, the ranks can run one after the other,
  each to its end.
\<close>

lemma solo_schedule:
  assumes solo: "\<And>i. i < P \<Longrightarrow> solo (ps i) (\<lambda>s. m s i) (m i) (qs i)"
    and ord: "bij_betw ord {..<P} {..<P}"
    and dir: "\<And>s d. m s d \<noteq> [] \<Longrightarrow> s < P \<and> d < P \<and> ord s < (ord d :: nat)"
  shows "(net_step P)\<^sup>*\<^sup>* (ps, \<lambda>_ _. []) (\<lambda>i. if i < P then qs i else ps i, \<lambda>_ _. [])"
proof -
  let ?ps = "\<lambda>r i. if i < P \<and> ord i < r then qs i else ps i"
  let ?ch = "\<lambda>r s d. if ord s < r \<and> r \<le> ord d then m s d else []"
  have inj: "ord i = ord j \<longleftrightarrow> i = j" if "i < P" "j < P" for i j using ord that by (auto simp: bij_betw_def inj_on_def)
  have step: "(net_step P)\<^sup>*\<^sup>* (?ps r, ?ch r) (?ps (Suc r), ?ch (Suc r))" if "r < P" for r
  proof -
    have "r \<in> ord ` {..<P}" using ord that by (simp add: bij_betw_def)
    then obtain i where i: "i < P" "ord i = r" by auto
    have ins: "?ch r s i = m s i @ []" for s using dir [of s i] i by (cases "m s i = []") auto
    have run: "(net_step P)\<^sup>*\<^sup>* (?ps r, ?ch r)
      ((?ps r)(i := qs i), \<lambda>s d. (if d = i then [] else ?ch r s d) @ (if s = i then m i d else []))"
    proof (rule solo_run [where ps = "?ps r" and ch = "?ch r" and rest = "\<lambda>_. []", OF solo [OF i(1)] i(1) _ ins])
      show "?ps r i = ps i" using i by simp
    qed
    have "(?ps r)(i := qs i) = ?ps (Suc r)"
    proof
      fix j show "((?ps r)(i := qs i)) j = ?ps (Suc r) j" using i inj [of j i] by (auto simp: less_Suc_eq)
    qed
    moreover have "(\<lambda>s d. (if d = i then [] else ?ch r s d) @ (if s = i then m i d else [])) = ?ch (Suc r)"
    proof (intro ext)
      fix s d
      show "(if d = i then [] else ?ch r s d) @ (if s = i then m i d else []) = ?ch (Suc r) s d"
      proof (cases "m s d = []")
        case True
        then show ?thesis by auto
      next
        case False
        with dir have lt: "s < P" "d < P" "ord s < ord d" by auto
        then show ?thesis using i inj [of s i] inj [of d i] by (auto simp: less_Suc_eq Suc_le_eq)
      qed
    qed
    ultimately show ?thesis using run by simp
  qed
  have "r \<le> P \<Longrightarrow> (net_step P)\<^sup>*\<^sup>* (?ps 0, ?ch 0) (?ps r, ?ch r)" for r
  proof (induction r)
    case (Suc r)
    then show ?case using step [of r] by (auto intro: rtranclp_trans)
  qed simp
  then have "(net_step P)\<^sup>*\<^sup>* (?ps 0, ?ch 0) (?ps P, ?ch P)" by simp
  moreover have "ord i < P" if "i < P" for i using ord that by (auto simp: bij_betw_def)
  then have "?ps P = (\<lambda>i. if i < P then qs i else ps i)" by (intro ext) auto
  moreover have "?ch P = (\<lambda>_ _. [])"
  proof (intro ext)
    fix s d
    have "d < P \<Longrightarrow> ord d < P" using ord by (auto simp: bij_betw_def)
    then show "?ch P s d = []" using dir [of s d] by (cases "m s d = []") auto
  qed
  moreover have "?ps 0 = ps" "?ch 0 = (\<lambda>_ _. [])" by (intro ext, simp)+
  ultimately show ?thesis by (simp only:)
qed

lemma rel_bij:
  assumes "root < P"
  shows "bij_betw (rel_rank P root) {..<P} {..<P}" and "bij_betw (\<lambda>i. P - 1 - rel_rank P root i) {..<P} {..<P}"
proof -
  have P: "0 < P" using assms by simp
  have inj: "inj_on (rel_rank P root) {..<P}" using abs_rel [OF assms] by (metis inj_onI lessThan_iff)
  moreover have "rel_rank P root ` {..<P} \<subseteq> {..<P}" using P by auto
  ultimately show "bij_betw (rel_rank P root) {..<P} {..<P}" by (simp add: bij_betw_def endo_inj_surj)
  have "inj_on (\<lambda>i. P - 1 - rel_rank P root i) {..<P}"
  proof (rule inj_onI)
    fix i j assume ij: "i \<in> {..<P}" "j \<in> {..<P}" "P - 1 - rel_rank P root i = P - 1 - rel_rank P root j"
    moreover have "rel_rank P root i < P" "rel_rank P root j < P" using P by simp_all
    ultimately have "rel_rank P root i = rel_rank P root j" by linarith
    then show "i = j" using inj ij by (auto dest: inj_onD)
  qed
  moreover have "(\<lambda>i. P - 1 - rel_rank P root i) ` {..<P} \<subseteq> {..<P}" using P by auto
  ultimately show "bij_betw (\<lambda>i. P - 1 - rel_rank P root i) {..<P} {..<P}" by (simp add: bij_betw_def endo_inj_surj)
qed

text \<open>Messages along the edges of the tree, up or down: \<open>ms n\<close> between the relative rank \<open>n\<close> and its parent.\<close>

definition edge :: "nat \<Rightarrow> nat \<Rightarrow> nat \<Rightarrow> nat \<Rightarrow> bool" where
  "edge P root i j \<longleftrightarrow> i < P \<and> j < P \<and> j \<noteq> root \<and> tree_parent P (rel_rank P root j) = rel_rank P root i"

lemma edge_order: "root < P \<Longrightarrow> edge P root i j \<Longrightarrow> rel_rank P root i < rel_rank P root j"
  using rel_root [of root P j] tree_parent_less [of "rel_rank P root j" P] by (auto simp: edge_def)

lemma tree_down_run:
  assumes root: "root < P"
    and solo: "\<And>i. i < P \<Longrightarrow> solo (ps i) (\<lambda>s. if edge P root s i then ms (rel_rank P root i) else [])
      (\<lambda>d. if edge P root i d then ms (rel_rank P root d) else []) (qs i)"
  shows "(net_step P)\<^sup>*\<^sup>* (ps, \<lambda>_ _. []) (\<lambda>i. if i < P then qs i else ps i, \<lambda>_ _. [])"
proof (rule solo_schedule [where m = "\<lambda>s d. if edge P root s d then ms (rel_rank P root d) else []" and ord = "rel_rank P root"])
  show "s < P \<and> d < P \<and> rel_rank P root s < rel_rank P root d" if "(if edge P root s d then ms (rel_rank P root d) else []) \<noteq> []" for s d
    using that edge_order [OF root, of s d] by (auto simp: edge_def split: if_splits)
qed (use solo rel_bij [OF root] in simp_all)

lemma tree_up_run:
  assumes root: "root < P"
    and solo: "\<And>i. i < P \<Longrightarrow> solo (ps i) (\<lambda>s. if edge P root i s then ms (rel_rank P root s) else [])
      (\<lambda>d. if edge P root d i then ms (rel_rank P root i) else []) (qs i)"
  shows "(net_step P)\<^sup>*\<^sup>* (ps, \<lambda>_ _. []) (\<lambda>i. if i < P then qs i else ps i, \<lambda>_ _. [])"
proof (rule solo_schedule [where m = "\<lambda>s d. if edge P root d s then ms (rel_rank P root s) else []" and ord = "\<lambda>i. P - 1 - rel_rank P root i"])
  show "s < P \<and> d < P \<and> P - 1 - rel_rank P root s < P - 1 - rel_rank P root d" if "(if edge P root d s then ms (rel_rank P root s) else []) \<noteq> []" for s d
  proof -
    have "edge P root d s" using that by (auto split: if_splits)
    then have "s < P" "d < P" "rel_rank P root d < rel_rank P root s" using edge_order [OF root] by (auto simp: edge_def)
    moreover from this have "rel_rank P root s < P" using rel_rank_less [of P root s] by simp
    ultimately show ?thesis by linarith
  qed
qed (use solo rel_bij [OF root] in simp_all)

text \<open>The parent's edge is the only one from above.\<close>

lemma edge_parent:
  assumes "root < P" and "i < P" and "i \<noteq> root"
  shows "edge P root s i \<longleftrightarrow> s = abs_rank P root (tree_parent P (rel_rank P root i))"
proof -
  let ?p = "tree_parent P (rel_rank P root i)"
  have "0 < rel_rank P root i" using rel_root [OF assms(1), of i] assms(2,3) by auto
  then have lt: "?p < rel_rank P root i" "?p < P"
    using tree_parent_less [of "rel_rank P root i" P] rel_rank_less [of P root i] assms(2) by (auto intro: less_trans)
  then have "rel_rank P root (abs_rank P root ?p) = ?p" using rel_abs [OF assms(1)] by blast
  then show ?thesis using assms abs_rel [OF assms(1), of s] by (auto simp: edge_def)
qed

section \<open>Gathering\<close>

lemma or_bit: "\<not> bit n t \<Longrightarrow> n OR 2 ^ t = n + 2 ^ t" for n :: nat
proof -
  assume "\<not> bit n t"
  then have "n AND 2 ^ t = 0" by (intro bit_eqI) (auto simp: bit_and_iff bit_exp_iff)
  then show ?thesis by (simp add: disjunctive_add_eq_or)
qed

lemma low_bit_facts:
  assumes "n < P" and "u < low_bit P n 0"
  shows "2 ^ u < P" and "\<not> bit n u" and "2 ^ Suc u dvd n"
proof -
  have t: "2 ^ low_bit P n 0 dvd n" "\<forall>u. 0 \<le> u \<and> u < low_bit P n 0 \<longrightarrow> 2 ^ u < P" using low_bit_spec [of 0 n P] by auto
  show "2 ^ u < P" using t(2) assms(2) by simp
  show "\<not> bit n u" using dvd_no_bit [OF t(1) assms(2)] .
  show "2 ^ Suc u dvd n" using t(1) assms(2) by (meson Suc_leI dvd_trans le_imp_power_dvd)
qed

text \<open>A child's subtree has at most as many ranks as its distance.\<close>

lemma sub_size_child:
  assumes "n < P" and "u < low_bit P n 0" and "n + 2 ^ u < P"
  shows "sub_size P (n + 2 ^ u) = min (2 ^ u) (P - (n + 2 ^ u))"
proof -
  obtain c where c: "n = 2 ^ Suc u * c" using low_bit_facts(3) [OF assms(1,2)] by auto
  then have "n + 2 ^ u = 2 ^ u * (2 * c + 1)" by (simp add: algebra_simps)
  then have "2 ^ u dvd n + 2 ^ u" "bit (n + 2 ^ u) u" by (simp_all add: bit_iff_odd)
  then have "low_bit P (n + 2 ^ u) 0 = u" using low_bit_unique low_bit_facts(1) [OF assms(1,2)] by blast
  then show ?thesis by (simp add: sub_size_def min_def)
qed

lemma sub_size_held: "n < P \<Longrightarrow> sub_size P n = min (2 ^ low_bit P n 0) (P - n)"
  using low_bit_0 [of P] by (auto simp: sub_size_def Let_def min_def)

lemma sub_size_mono: "n < P \<Longrightarrow> u \<le> low_bit P n 0 \<Longrightarrow> min (2 ^ u) (P - n) \<le> sub_size P n"
  using power_increasing [of u "low_bit P n 0" "2 :: nat"] by (simp add: sub_size_held min_le_iff_disj)

definition sub_data :: "nat \<Rightarrow> (nat \<Rightarrow> byte list) \<Rightarrow> nat \<Rightarrow> byte list" where
  "sub_data P B n = concat (map B [n..<n + sub_size P n])"

lemma blocks_length:
  assumes "\<And>j. j < P \<Longrightarrow> length (B j) = blk" and "n + m \<le> P"
  shows "length (concat (map B [n..<n + m])) = m * blk"
  using assms(2)
proof (induction m)
  case (Suc m)
  then show ?case using assms(1) [of "n + m"] by simp
qed simp

lemma blocks_shift: "concat (map (\<lambda>j. B (n + j)) [a..<a + m]) = concat (map B [n + a..<n + a + m])"
proof -
  have "map (\<lambda>j. n + j) [a..<b] = [n + a..<n + b]" for b by (induction b) simp_all
  from this [of "a + m"] have "[n + a..<n + a + m] = map (\<lambda>j. n + j) [a..<a + m]" by (simp only: add.assoc)
  then show ?thesis by (simp add: comp_def)
qed

lemma sub_size_le: "n < P \<Longrightarrow> n + sub_size P n \<le> P"
proof -
  assume "n < P"
  then have "sub_size P n \<le> P - n" using sub_size_held [of n P] by simp
  then show ?thesis using \<open>n < P\<close> by linarith
qed

lemma sub_data_length:
  assumes "\<And>j. j < P \<Longrightarrow> length (B j) = blk" and "n < P"
  shows "length (sub_data P B n) = sub_size P n * blk"
  unfolding sub_data_def by (rule blocks_length [OF assms(1) sub_size_le [OF assms(2)]])

text \<open>The children of a rank from a mask on: the first of them, if there is one, and those after it.\<close>

lemma children_from:
  assumes root: "root < P" and P: "1 < P" and lt: "n + 2 ^ t < P" and t: "t < L"
  shows "(\<lambda>s. only (abs_rank P root (n + 2 ^ t)) (f (n + 2 ^ t)) s
       @ (if s < P \<and> (\<exists>u. Suc t \<le> u \<and> u < L \<and> rel_rank P root s = n + 2 ^ u) then f (rel_rank P root s) else []))
    = (\<lambda>s. if s < P \<and> (\<exists>u. t \<le> u \<and> u < L \<and> rel_rank P root s = n + 2 ^ u) then f (rel_rank P root s) else [])"
proof
  fix s'
  let ?s = "abs_rank P root (n + 2 ^ t)"
  have s: "?s < P" "rel_rank P root ?s = n + 2 ^ t" using P rel_abs [OF root lt] by auto
  have new: "s' < P \<and> rel_rank P root s' = n + 2 ^ t \<longleftrightarrow> s' = ?s" using abs_rel [OF root, of s'] s by metis
  have old: "\<not> (\<exists>u. Suc t \<le> u \<and> u < L \<and> rel_rank P root ?s = n + 2 ^ u)" unfolding s(2) by auto
  have "(s' < P \<and> (\<exists>u. t \<le> u \<and> u < L \<and> rel_rank P root s' = n + 2 ^ u)) \<longleftrightarrow>
      s' = ?s \<or> s' < P \<and> (\<exists>u. Suc t \<le> u \<and> u < L \<and> rel_rank P root s' = n + 2 ^ u)"
    unfolding new [symmetric] using t by (metis Suc_leI le_neq_implies_less order_refl Suc_leD)
  then show "only ?s (f (n + 2 ^ t)) s'
       @ (if s' < P \<and> (\<exists>u. Suc t \<le> u \<and> u < L \<and> rel_rank P root s' = n + 2 ^ u) then f (rel_rank P root s') else [])
     = (if s' < P \<and> (\<exists>u. t \<le> u \<and> u < L \<and> rel_rank P root s' = n + 2 ^ u) then f (rel_rank P root s') else [])"
    using old s(2) by (cases "s' = ?s") simp_all
qed

lemma children_none:
  assumes P: "1 < P" and ge: "\<not> n + 2 ^ t < P"
  shows "(\<lambda>s. if s < P \<and> (\<exists>u. t \<le> u \<and> u < L \<and> rel_rank P root s = n + 2 ^ u) then f (rel_rank P root s) else [])
    = (\<lambda>s. if s < P \<and> (\<exists>u. Suc t \<le> u \<and> u < L \<and> rel_rank P root s = n + 2 ^ u) then f (rel_rank P root s) else [])"
proof
  fix s
  have "rel_rank P root s \<noteq> n + 2 ^ t" using ge rel_rank_less [of P root s] P by linarith
  then have "(\<exists>u. t \<le> u \<and> u < L \<and> rel_rank P root s = n + 2 ^ u) \<longleftrightarrow> (\<exists>u. Suc t \<le> u \<and> u < L \<and> rel_rank P root s = n + 2 ^ u)"
    by (metis Suc_leI le_neq_implies_less Suc_leD)
  then show "(if s < P \<and> (\<exists>u. t \<le> u \<and> u < L \<and> rel_rank P root s = n + 2 ^ u) then f (rel_rank P root s) else [])
    = (if s < P \<and> (\<exists>u. Suc t \<le> u \<and> u < L \<and> rel_rank P root s = n + 2 ^ u) then f (rel_rank P root s) else [])" by simp
qed

lemma solo_gather_loop:
  assumes P: "1 < P" and root: "root < P" and i: "i < P" and n: "n = rel_rank P root i"
    and B: "\<And>j. j < P \<Longrightarrow> length (B j) = blk" and big: "P * blk \<le> MAX_MESSAGE"
    and room: "sub_size P n * blk \<le> length w" and t: "t \<le> low_bit P n 0"
  shows "solo (tree_gather_loop P n root blk t (min (2 ^ t) (P - n)) (gathered (\<lambda>j. j * blk) (\<lambda>j. B (n + j)) [0..<min (2 ^ t) (P - n)] w) k)
     (\<lambda>s. if s < P \<and> (\<exists>u. t \<le> u \<and> u < low_bit P n 0 \<and> rel_rank P root s = n + 2 ^ u) then chunks 0 (sub_data P B (rel_rank P root s)) else [])
     (if n = 0 then (\<lambda>_. []) else only (abs_rank P root (tree_parent P n)) (chunks 0 (sub_data P B n)))
     (k (gathered (\<lambda>j. j * blk) (\<lambda>j. B (n + j)) [0..<sub_size P n] w))"
  using t
proof (induction "low_bit P n 0 - t" arbitrary: t)
  case 0
  let ?L = "low_bit P n 0" and ?g = "gathered (\<lambda>j. j * blk) (\<lambda>j. B (n + j)) [0..<sub_size P n] w"
  have nP: "n < P" using n P by simp
  have tL: "t = ?L" using 0 by simp
  have held: "min (2 ^ ?L) (P - n) = sub_size P n" using sub_size_held [OF nP] by simp
  have none: "(\<lambda>s. if s < P \<and> (\<exists>u. ?L \<le> u \<and> u < ?L \<and> rel_rank P root s = n + 2 ^ u) then chunks 0 (sub_data P B (rel_rank P root s)) else []) = (\<lambda>_. [])"
    by (intro ext) auto
  show ?case
  proof (cases "n = 0")
    case True
    then have "\<not> 2 ^ ?L < P" using low_bit_0 [of P] by simp
    then have "tree_gather_loop P n root blk ?L (sub_size P n) ?g k = k ?g" by (subst tree_gather_loop.simps) simp
    then show ?thesis unfolding tL held none using True by (simp add: solo.idle)
  next
    case False
    then have L: "2 ^ ?L \<le> n" "2 ^ ?L < P" "bit n ?L" using low_bit_pos [OF _ nP] by auto
    have "slice ?g 0 (sub_size P n * blk) = sub_data P B n"
    proof -
      have le: "n + sub_size P n \<le> P" using sub_size_le [OF nP] .
      have adj: "adjacent (\<lambda>j. j * blk) (\<lambda>j. B (n + j)) (sub_size P n)" using B le by (intro uniform_adjacent) simp
      have D: "concat (map (\<lambda>j. B (n + j)) [0..<sub_size P n]) = sub_data P B n" using blocks_shift [of B n 0 "sub_size P n"] by (simp add: sub_data_def)
      have "slice ?g (0 * blk) (length (concat (map (\<lambda>j. B (n + j)) [0..<sub_size P n]))) = concat (map (\<lambda>j. B (n + j)) [0..<sub_size P n])"
        using room by (intro slice_gathered_run [OF adj]) auto
      then show ?thesis unfolding D using sub_data_length [of P B blk n] B nP by simp
    qed
    moreover have "(n - 2 ^ ?L + root) mod P = abs_rank P root (tree_parent P n)" by (simp add: abs_rank_def tree_parent_def)
    ultimately have "tree_gather_loop P n root blk ?L (sub_size P n) ?g k = send_bytes P (sub_data P B n) (int (abs_rank P root (tree_parent P n))) 0 (k ?g)"
      using L by (simp add: tree_gather_loop.simps [of P n root blk ?L])
    then show ?thesis unfolding tL held none using False P solo_send_bytes [OF P, of "abs_rank P root (tree_parent P n)"] by (simp del: only_apply)
  qed
next
  case (Suc m)
  let ?L = "low_bit P n 0" and ?c = "\<lambda>j. B (n + j)"
  let ?g = "\<lambda>x. gathered (\<lambda>j. j * blk) ?c [0..<x] w"
  let ?in = "\<lambda>t s. if s < P \<and> (\<exists>u. t \<le> u \<and> u < ?L \<and> rel_rank P root s = n + 2 ^ u) then chunks 0 (sub_data P B (rel_rank P root s)) else []"
  let ?out = "if n = 0 then (\<lambda>_. []) else only (abs_rank P root (tree_parent P n)) (chunks 0 (sub_data P B n))"
  have nP: "n < P" using n P by simp
  have t: "t < ?L" using Suc(2) by simp
  note low = low_bit_facts [OF nP t]
  have IH: "solo (tree_gather_loop P n root blk (Suc t) (min (2 ^ Suc t) (P - n)) (?g (min (2 ^ Suc t) (P - n))) k) (?in (Suc t)) ?out (k (?g (sub_size P n)))"
    using Suc(1) [of "Suc t"] Suc(2) t by simp
  let ?src = "n + 2 ^ t"
  have src: "n OR 2 ^ t = ?src" using or_bit low(2) by simp
  show ?case
  proof (cases "?src < P")
    case True
    let ?nb = "sub_size P ?src" and ?s = "abs_rank P root ?src"
    have nb: "?nb = min (2 ^ t) (P - ?src)" by (rule sub_size_child [OF nP t True])
    have held: "min (2 ^ t) (P - n) = 2 ^ t" "min (2 ^ Suc t) (P - n) = 2 ^ t + ?nb" using True by (auto simp: nb min_def)
    have le: "2 ^ t + ?nb \<le> sub_size P n" "n + sub_size P n \<le> P" using sub_size_mono [OF nP, of "Suc t"] t held(2) sub_size_le [OF nP] by simp_all
    have adj: "adjacent (\<lambda>j. j * blk) ?c (sub_size P n)" using B le(2) by (intro uniform_adjacent) simp
    have glen: "length (?g x) = length w" if "x \<le> sub_size P n" for x
    proof (rule length_gathered)
      fix j assume "j \<in> set [0..<x]"
      then have "j < sub_size P n" using that by simp
      then show "j * blk + length (?c j) \<le> length w" using block_fits [of j "sub_size P n" blk] room B [of "n + j"] le(2) by simp
    qed
    have roomb: "2 ^ t * blk + ?nb * blk \<le> length (?g (2 ^ t))"
      using mult_le_mono1 [OF le(1), of blk] room glen [of "2 ^ t"] le(1) by (simp add: add_mult_distrib)
    have dlen: "length (sub_data P B ?src) = ?nb * blk" using sub_data_length [of P B blk ?src, OF B True] .
    have "?nb \<le> P" using sub_size_le [OF True] by linarith
    then have "?nb * blk \<le> P * blk" by (rule mult_le_mono1)
    then have small: "length (sub_data P B ?src) \<le> MAX_MESSAGE" using dlen big by linarith
    have new: "memcpy_at (?g (2 ^ t)) (2 ^ t * blk) (sub_data P B ?src) = ?g (2 ^ t + ?nb)"
    proof -
      have "sub_data P B ?src = concat (map ?c [2 ^ t..<2 ^ t + ?nb])" unfolding sub_data_def blocks_shift ..
      then have "memcpy_at (?g (2 ^ t)) (2 ^ t * blk) (sub_data P B ?src) = gathered (\<lambda>j. j * blk) ?c [2 ^ t..<2 ^ t + ?nb] (?g (2 ^ t))"
        using memcpy_gathered [OF adj, of "2 ^ t" "2 ^ t + ?nb" "?g (2 ^ t)"] le(1) room glen [of "2 ^ t"] by simp
      then show ?thesis by (simp only: gathered_append [symmetric] upt_add_eq_append [OF le0, symmetric])
    qed
    let ?k = "\<lambda>w' (_ :: nat). tree_gather_loop P n root blk (Suc t) (2 ^ t + ?nb) w' k"
    have s: "?s < P" "rel_rank P root ?s = ?src" using P rel_abs [OF root True] by auto
    have "solo (recv_bytes P (?g (2 ^ t)) (2 ^ t * blk) (?nb * blk) (int ?s) ?k) (only ?s (chunks 0 (sub_data P B ?src))) (\<lambda>_. [])
        (tree_gather_loop P n root blk (Suc t) (2 ^ t + ?nb) (?g (2 ^ t + ?nb)) k)"
      using solo_recv_bytes [OF P s(1) roomb small, of ?k 0] dlen new by simp
    moreover have "tree_gather_loop P n root blk t (2 ^ t) (?g (2 ^ t)) k = recv_bytes P (?g (2 ^ t)) (2 ^ t * blk) (?nb * blk) (int ?s) ?k"
    proof -
      have "(if 2 ^ t < P - ?src then 2 ^ t else P - ?src) = ?nb" using nb by (simp add: min_def)
      then show ?thesis using low True by (subst tree_gather_loop.simps) (simp only: src Let_def abs_rank_def if_True simp_thms)
    qed
    ultimately have first: "solo (tree_gather_loop P n root blk t (2 ^ t) (?g (2 ^ t)) k) (only ?s (chunks 0 (sub_data P B ?src))) (\<lambda>_. [])
        (tree_gather_loop P n root blk (Suc t) (2 ^ t + ?nb) (?g (2 ^ t + ?nb)) k)" by simp
    have ins: "(\<lambda>s. only ?s (chunks 0 (sub_data P B ?src)) s @ ?in (Suc t) s) = ?in t"
      by (rule children_from [OF root P True t])
    show ?thesis using solo_trans [OF first IH [unfolded held(2)]] unfolding ins held(1) by simp
  next
    case False
    have held: "min (2 ^ Suc t) (P - n) = min (2 ^ t) (P - n)" using False by (auto simp: min_def)
    have "tree_gather_loop P n root blk t x y k = tree_gather_loop P n root blk (Suc t) x y k" for x y
      using low False src by (simp add: tree_gather_loop.simps [of P n root blk t])
    moreover have "?in t = ?in (Suc t)" by (rule children_none [OF P False])
    ultimately show ?thesis using IH unfolding held by simp
  qed
qed

lemma edge_children:
  assumes "root < P" and "i < P"
  shows "edge P root i s \<longleftrightarrow> s < P \<and> (\<exists>u. 0 \<le> u \<and> u < low_bit P (rel_rank P root i) 0 \<and> rel_rank P root s = rel_rank P root i + 2 ^ u)"
  using tree_children [of "rel_rank P root s" P "rel_rank P root i"] rel_root [OF assms(1), of s] assms
  by (auto simp: edge_def)

lemma edge_up:
  assumes "root < P" and "i < P"
  shows "(\<lambda>s. if edge P root s i then x else []) =
    (if rel_rank P root i = 0 then (\<lambda>_. []) else only (abs_rank P root (tree_parent P (rel_rank P root i))) x)"
proof (cases "i = root")
  case True
  then show ?thesis using rel_root [OF assms(1), of i] assms by (auto simp: edge_def)
next
  case False
  then show ?thesis using edge_parent [OF assms False] rel_root [OF assms(1), of i] assms by (auto simp: fun_eq_iff)
qed

text \<open>All ranks of a gather, from buffers that start with their own blocks.\<close>

lemma gather_run:
  assumes P: "1 < P" and root: "root < P"
    and B: "\<And>j. j < P \<Longrightarrow> length (B j) = blk" and big: "P * blk \<le> MAX_MESSAGE"
    and room: "\<And>i. i < P \<Longrightarrow> sub_size P (rel_rank P root i) * blk \<le> length (w i)"
    and ps: "\<And>i. i < P \<Longrightarrow> ps i = tree_gather_loop P (rel_rank P root i) root blk 0 1 (memcpy_at (w i) 0 (B (rel_rank P root i))) (k i)"
  shows "(net_step P)\<^sup>*\<^sup>* (ps, \<lambda>_ _. []) (\<lambda>i. if i < P
    then k i (gathered (\<lambda>j. j * blk) (\<lambda>j. B (rel_rank P root i + j)) [0..<sub_size P (rel_rank P root i)] (w i)) else ps i, \<lambda>_ _. [])"
proof (rule tree_up_run [where ms = "\<lambda>n. chunks 0 (sub_data P B n)", OF root])
  fix i assume i: "i < P"
  let ?n = "rel_rank P root i"
  have "?n < P" using P by simp
  then have one: "min (2 ^ 0) (P - ?n) = 1" by (simp add: min_def Suc_le_eq)
  have "solo (tree_gather_loop P ?n root blk 0 1 (gathered (\<lambda>j. j * blk) (\<lambda>j. B (?n + j)) [0..<1] (w i)) (k i))
     (\<lambda>s. if s < P \<and> (\<exists>u. 0 \<le> u \<and> u < low_bit P ?n 0 \<and> rel_rank P root s = ?n + 2 ^ u) then chunks 0 (sub_data P B (rel_rank P root s)) else [])
     (if ?n = 0 then (\<lambda>_. []) else only (abs_rank P root (tree_parent P ?n)) (chunks 0 (sub_data P B ?n)))
     (k i (gathered (\<lambda>j. j * blk) (\<lambda>j. B (?n + j)) [0..<sub_size P ?n] (w i)))"
    by (rule solo_gather_loop [where t = 0 and w = "w i", OF P root i HOL.refl _ big room [OF i], unfolded one]) (simp_all add: B)
  moreover have "gathered (\<lambda>j. j * blk) (\<lambda>j. B (?n + j)) [0..<1] (w i) = memcpy_at (w i) 0 (B ?n)" by (simp add: gathered_def)
  ultimately show "solo (ps i) (\<lambda>s. if edge P root i s then chunks 0 (sub_data P B (rel_rank P root s)) else [])
      (\<lambda>d. if edge P root d i then chunks 0 (sub_data P B ?n) else [])
      (k i (gathered (\<lambda>j. j * blk) (\<lambda>j. B (?n + j)) [0..<sub_size P ?n] (w i)))"
    unfolding edge_children [OF root i] edge_up [OF root i] ps [OF i] by simp
qed

text \<open>Blocks in the order of relative ranks, put back in the order of the ranks.\<close>

lemma abs_all: "root < P \<Longrightarrow> abs_rank P root ` {..<P} = {..<P}"
proof -
  assume root: "root < P"
  have "x \<in> abs_rank P root ` {..<P}" if "x < P" for x
    using abs_rel [OF root that] rel_rank_less [of P root x] root by (metis image_eqI lessThan_iff neq0_conv not_less_zero)
  then show ?thesis using root by auto
qed

lemma rotated_back:
  assumes root: "root < P" and c: "\<And>j. j < P \<Longrightarrow> length (c j) = blk"
    and w: "P * blk \<le> length w" and rb: "length rb = P * blk"
  shows "foldl (\<lambda>b j. memcpy_at b ((j + root) mod P * blk) (slice (gathered (\<lambda>j. j * blk) (\<lambda>j. c (abs_rank P root j)) [0..<P] w) (j * blk) blk)) rb [0..<P]
    = concat (map c [0..<P])"
proof -
  let ?g = "gathered (\<lambda>j. j * blk) (\<lambda>j. c (abs_rank P root j)) [0..<P] w"
  have P: "0 < P" using root by simp
  have sl: "slice ?g (j * blk) blk = c (abs_rank P root j)" if "j < P" for j
    by (rule slice_uniform) (use c w that P in auto)
  have "foldl (\<lambda>b j. memcpy_at b ((j + root) mod P * blk) (slice ?g (j * blk) blk)) rb [0..<P] =
      foldl (\<lambda>b j. memcpy_at b (abs_rank P root j * blk) (c (abs_rank P root j))) rb [0..<P]"
    by (rule foldl_cong) (use sl in \<open>auto simp: abs_rank_def\<close>)
  also have "\<dots> = gathered (\<lambda>j. j * blk) c (map (abs_rank P root) [0..<P]) rb" by (simp add: gathered_def foldl_map)
  also have "\<dots> = gathered (\<lambda>j. j * blk) c [0..<P] rb"
  proof (rule gathered_set)
    show "apart (\<lambda>j. j * blk) (\<lambda>j. length (c j)) {..<P} (length rb)" by (rule uniform_apart [OF c]) (simp_all add: rb)
    show "set (map (abs_rank P root) [0..<P]) \<subseteq> {..<P}" "set [0..<P] = set (map (abs_rank P root) [0..<P])"
      using abs_all [OF root] by (auto simp: lessThan_atLeast0)
  qed
  also have "\<dots> = concat (map c [0..<P])" by (rule gathered_full) (use c rb in auto)
  finally show ?thesis .
qed

text \<open>
  C17: \<^verbatim>\<open>MPI_Gather\<close>, with any number of ranks and any root, in place at the root or not: no execution deadlocks, aborts or runs for
  ever; the root ends with the blocks of all ranks in rank order, and no other receive buffer is touched.
\<close>

theorem MPI_Gather_correct:
  assumes "1 < P" and "root < P" and "P * blk \<le> MAX_MESSAGE"
    and "dtype_size rt = Some re" and "rc * re = blk" and "length (rb root) = P * blk"
    and "sb root = In_Place \<or> (\<exists>s. sb root = Buf s \<and> length s = blk)"
    and "\<forall>i<P. i \<noteq> root \<longrightarrow> (\<exists>s e. sb i = Buf s \<and> length s = blk \<and> dtype_size (st i) = Some e \<and> sc i * e = blk)"
    and "\<forall>i<P. P * blk \<le> length (tmp i)"
    and "\<forall>i<P. ps i = MPI_Gather P i (sb i) (sc i) (st i) (rb i) rc rt root (tmp i) (ab i) Ret"
  shows "always_ends P ps (\<lambda>i. if i = root then concat (map (\<lambda>j. contributed blk (sb j) (rb j) j) [0..<P]) else rb i)"
proof -
  let ?c = "\<lambda>j. contributed blk (sb j) (rb j) j" and ?n = "rel_rank P root"
  let ?B = "\<lambda>j. ?c (abs_rank P root j)"
  let ?k = "\<lambda>i w. if ?n i \<noteq> 0 then Ret (rb i) else if root = 0 then Ret w
     else Ret (foldl (\<lambda>b j. memcpy_at b ((j + root) mod P * blk) (slice w (j * blk) blk)) (rb i) [0..<P])"
  let ?w = "\<lambda>i. if ?n i = 0 \<and> root = 0 then rb i else if sub_size P (?n i) = 1 then ?c i else tmp i"
  have P: "0 < P" using assms(1) by simp
  have rel0: "?n i = 0 \<longleftrightarrow> i = root" if "i < P" for i using rel_root [OF assms(2), of i] that by simp
  have rootblk: "root * blk + blk \<le> P * blk" by (rule block_fits [OF assms(2)])
  have clen: "length (?c j) = blk" if "j < P" for j
  proof (cases "j = root")
    case True
    then show ?thesis using assms(6,7) rootblk by (auto simp: contributed_def slice_length)
  next
    case False
    then show ?thesis using assms(8) that by (auto simp: contributed_def)
  qed
  have Bn: "?B (?n i) = ?c i" if "i < P" for i using abs_rel [OF assms(2) that] by simp
  have start: "ps i = tree_gather_loop P (?n i) root blk 0 1 (memcpy_at (?w i) 0 (?B (?n i))) (?k i)" if i: "i < P" for i
  proof -
    have size: "(if i = root then map_option (\<lambda>e. rc * e) (dtype_size rt) else map_option (\<lambda>e. sc i * e) (dtype_size (st i))) = Some blk"
      using assms(4,5,8) i by auto
    have "gather_buffer P (?n i) root blk (sb i) (rb i) (tmp i) = Some (memcpy_at (?w i) 0 (?c i))"
    proof (cases "i = root")
      case True
      then have n: "?n i = 0" "sub_size P (?n i) = P" using rel0 [OF i] by (simp_all add: sub_size_def)
      have same: "memcpy_at (rb root) 0 (slice (rb root) 0 blk) = rb root" if "root = 0"
        using gathered_present [of "\<lambda>_. 0" 0 "\<lambda>_. slice (rb root) 0 blk" "rb root"] rootblk assms(6) that by (simp add: gathered_def slice_length)
      show ?thesis
      proof (cases "sb root")
        case In_Place
        then show ?thesis using True n same assms(1) by (auto simp: gather_buffer_def contributed_def)
      next
        case (Buf s)
        then show ?thesis using True n assms(1,7) by (auto simp: gather_buffer_def contributed_def)
      qed (use assms(7) in auto)
    next
      case False
      then obtain s where s: "sb i = Buf s" "length s = blk" using assms(8) i by blast
      have "memcpy_at s 0 s = s" by (simp add: memcpy_at_def)
      then show ?thesis using False rel0 [OF i] s by (auto simp: gather_buffer_def contributed_def)
    qed
    then show ?thesis using assms(10) i assms(1) size Bn [OF i] by (simp add: MPI_Gather_def Let_def)
  qed
  have room: "sub_size P (?n i) * blk \<le> length (?w i)" if "i < P" for i
  proof -
    have "sub_size P (?n i) \<le> P" using sub_size_le [of "?n i" P] P by simp
    then have le: "sub_size P (?n i) * blk \<le> P * blk" by (rule mult_le_mono1)
    have a: "sub_size P (?n i) * blk \<le> length (rb i)" if "?n i = 0" using rel0 [OF \<open>i < P\<close>] assms(6) that le by simp
    have b: "sub_size P (?n i) * blk \<le> length (tmp i)" using assms(9) that le le_trans by blast
    have c: "sub_size P (?n i) * blk \<le> length (?c i)" if "sub_size P (?n i) = 1" using clen [OF \<open>i < P\<close>] that by simp
    show ?thesis
    proof (cases "?n i = 0 \<and> root = 0")
      case True
      then show ?thesis unfolding if_P [OF True] using a by blast
    next
      case False
      show ?thesis unfolding if_not_P [OF False] using b c by (cases "sub_size P (?n i) = 1") (simp_all only: if_True if_False simp_thms)
    qed
  qed
  have run: "(net_step P)\<^sup>*\<^sup>* (ps, \<lambda>_ _. []) (\<lambda>i. if i < P
    then ?k i (gathered (\<lambda>j. j * blk) (\<lambda>j. ?B (?n i + j)) [0..<sub_size P (?n i)] (?w i)) else ps i, \<lambda>_ _. [])"
    by (rule gather_run [where B = ?B and w = ?w and k = ?k, OF assms(1,2) _ assms(3) room start]) (use clen P in auto)
  show ?thesis
  proof (rule always_endsI [OF run])
    fix i assume i: "i < P"
    show "(if i < P then ?k i (gathered (\<lambda>j. j * blk) (\<lambda>j. ?B (?n i + j)) [0..<sub_size P (?n i)] (?w i)) else ps i) =
        Ret (if i = root then concat (map ?c [0..<P]) else rb i)"
    proof (cases "i = root")
      case True
      then have n: "?n i = 0" "sub_size P (?n i) = P" using rel0 [OF i] by (simp_all add: sub_size_def)
      show ?thesis
      proof (cases "root = 0")
        case r0: True
        have "gathered (\<lambda>j. j * blk) ?B [0..<P] (rb root) = concat (map ?B [0..<P])"
          by (rule gathered_full) (use clen P assms(6) in auto)
        also have "map ?B [0..<P] = map ?c [0..<P]" using r0 by (simp add: abs_rank_def)
        finally show ?thesis using True n r0 i by simp
      next
        case False
        have "P * blk \<le> length (tmp root)" using assms(2,9) by simp
        from rotated_back [where c = ?c, OF assms(2) clen this assms(6)] show ?thesis using True n False i assms(1) by simp
      qed
    next
      case False
      then show ?thesis using rel0 [OF i] i by simp
    qed
  qed
qed

text \<open>Five ranks gather to rank 3, which is in place; its own block is already where it belongs.\<close>

theorem MPI_Gather_correct_witness:
  "always_ends 5 (\<lambda>i. MPI_Gather 5 i (if i = 3 then In_Place else Buf [word_of_nat i]) 1 1 (if i = 3 then [0, 0, 0, 77, 0] else []) 1 1 3 (replicate 5 9) (Ret []) Ret)
     (\<lambda>i. if i = 3 then [0, 1, 2, 77, 4] else [])"
proof -
  let ?sb = "\<lambda>i :: nat. if i = 3 then In_Place else Buf [word_of_nat i]" and ?rb = "\<lambda>i :: nat. if i = 3 then [0, 0, 0, 77, 0] else [] :: byte list"
  have "always_ends 5 (\<lambda>i. MPI_Gather 5 i (?sb i) 1 1 (?rb i) 1 1 3 (replicate 5 9) (Ret []) Ret)
     (\<lambda>i. if i = 3 then concat (map (\<lambda>j. contributed 1 (?sb j) (?rb j) j) [0..<5]) else ?rb i)"
    by (rule MPI_Gather_correct [where re = 1 and rt = 1 and rc = 1 and sb = ?sb and rb = ?rb and sc = "\<lambda>_. 1" and st = "\<lambda>_. 1"
          and tmp = "\<lambda>_. replicate 5 9" and ab = "\<lambda>_. Ret []"])
      (simp_all add: dtype_size_def MAX_MESSAGE_def MAX_MSG_BYTES_def)
  moreover have "concat (map (\<lambda>j. contributed 1 (?sb j) (?rb j) j) [0..<5]) = [0, 1, 2, 77, 4]" by code_simp
  ultimately show ?thesis by (simp cong: if_cong)
qed

section \<open>Scattering\<close>

lemma slice_blocks:
  assumes B: "\<And>j. j < P \<Longrightarrow> length (B j) = blk" and le: "n + S \<le> P" and w: "take (S * blk) w = concat (map B [n..<n + S])"
    and am: "a + m \<le> S"
  shows "slice w (a * blk) (m * blk) = concat (map B [n + a..<n + a + m])"
proof -
  let ?x = "concat (map B [n..<n + a])" and ?y = "concat (map B [n + a..<n + a + m])" and ?z = "concat (map B [n + a + m..<n + S])"
  have "[n..<n + S] = [n..<n + a] @ [n + a..<n + a + m] @ [n + a + m..<n + S]"
    using upt_add_eq_append [of n "n + a" "S - a"] upt_add_eq_append [of "n + a" "n + a + m" "S - (a + m)"] am by simp
  then have split: "take (S * blk) w = ?x @ ?y @ ?z" using w by simp
  have len: "length ?x = a * blk" "length ?y = m * blk"
    using blocks_length [of P B blk n a] blocks_length [of P B blk "n + a" m] B le am by simp_all
  have "(a + m) * blk \<le> S * blk" using am by (rule mult_le_mono1)
  then have "slice w (a * blk) (m * blk) = take (m * blk) (drop (a * blk) (take (S * blk) w))"
    by (simp add: slice_def drop_take take_take min_absorb1 add_mult_distrib del: mult_le_cancel2)
  also have "\<dots> = ?y" unfolding split using len by simp
  finally show ?thesis .
qed

lemma solo_scatter_loop:
  assumes P: "1 < P" and root: "root < P" and i: "i < P" and n: "n = rel_rank P root i"
    and B: "\<And>j. j < P \<Longrightarrow> length (B j) = blk"
    and w: "take (sub_size P n * blk) w = sub_data P B n" and t: "t \<le> low_bit P n 0"
  shows "solo (tree_scatter_loop P i n blk w t (min (2 ^ t) (P - n)) k) (\<lambda>_. [])
     (\<lambda>d. if d < P \<and> (\<exists>u<t. rel_rank P root d = n + 2 ^ u) then chunks 0 (sub_data P B (rel_rank P root d)) else []) k"
  using t
proof (induction t)
  case 0
  show ?case by (simp add: solo.idle)
next
  case (Suc t)
  let ?out = "\<lambda>t d. if d < P \<and> (\<exists>u<t. rel_rank P root d = n + 2 ^ u) then chunks 0 (sub_data P B (rel_rank P root d)) else []"
  have nP: "n < P" using n P by simp
  have IH: "solo (tree_scatter_loop P i n blk w t (min (2 ^ t) (P - n)) k) (\<lambda>_. []) (?out t) k" using Suc by simp
  show ?case
  proof (cases "n + 2 ^ t < P")
    case True
    let ?d = "(i + 2 ^ t) mod P" and ?c = "n + 2 ^ t"
    have child: "sub_size P ?c = min (2 ^ t) (P - ?c)" using sub_size_child [OF nP _ True] Suc.prems by simp
    have held: "min (2 ^ t) (P - n) = 2 ^ t" "min (2 ^ Suc t) (P - n) = 2 ^ t + sub_size P ?c" "0 < sub_size P ?c" using True by (auto simp: child min_def)
    have le: "2 ^ t + sub_size P ?c \<le> sub_size P n" using sub_size_mono [OF nP Suc.prems] held(2) by simp
    have "slice w (2 ^ t * blk) (sub_size P ?c * blk) = sub_data P B ?c"
      unfolding sub_data_def using B le w by (intro slice_blocks [where P = P and S = "sub_size P n", OF _ sub_size_le [OF nP]]) (simp_all add: sub_data_def)
    then have loop: "tree_scatter_loop P i n blk w (Suc t) (min (2 ^ Suc t) (P - n)) k =
        send_bytes P (sub_data P B ?c) (int ?d) 0 (tree_scatter_loop P i n blk w t (2 ^ t) k)"
      unfolding held(2) using True held(3) by simp
    have d: "?d = abs_rank P root ?c" using rank_plus [OF root i, of "2 ^ t"] True n by simp
    then have rd: "rel_rank P root ?d = ?c" "?d < P" using rel_abs [OF root True] P by (simp_all only: d) simp
    have outs: "(\<lambda>d. only ?d (chunks 0 (sub_data P B ?c)) d @ ?out t d) = ?out (Suc t)"
    proof
      fix d
      have new: "(d < P \<and> rel_rank P root d = ?c) = (d = ?d)" using abs_rel [OF root, of d] rd by (metis d)
      have old: "\<not> (\<exists>u<t. rel_rank P root ?d = n + 2 ^ u)" unfolding rd(1) by auto
      have "(d < P \<and> (\<exists>u<Suc t. rel_rank P root d = n + 2 ^ u)) = (d = ?d \<or> d < P \<and> (\<exists>u<t. rel_rank P root d = n + 2 ^ u))"
        unfolding new [symmetric] less_Suc_eq by blast
      then show "only ?d (chunks 0 (sub_data P B ?c)) d @ ?out t d = ?out (Suc t) d"
        using old rd(1) by (cases "d = ?d") (simp_all only: only_apply if_True if_False simp_thms append_Nil append_Nil2)
    qed
    have "solo (send_bytes P (sub_data P B ?c) (int ?d) 0 (tree_scatter_loop P i n blk w t (2 ^ t) k)) (\<lambda>_. []) (only ?d (chunks 0 (sub_data P B ?c)))
        (tree_scatter_loop P i n blk w t (2 ^ t) k)" by (rule solo_send_bytes [OF P rd(2)])
    from solo_trans [OF this IH [unfolded held(1)]] show ?thesis unfolding outs loop by simp
  next
    case False
    have held: "min (2 ^ Suc t) (P - n) = min (2 ^ t) (P - n)" using False by (auto simp: min_def)
    have "?out (Suc t) = ?out t"
    proof
      fix d
      have "rel_rank P root d \<noteq> n + 2 ^ t" using False rel_rank_less [of P root d] P by linarith
      then show "?out (Suc t) d = ?out t d" by (auto simp: less_Suc_eq)
    qed
    then show ?thesis unfolding held using IH False by simp
  qed
qed

text \<open>A rank of the scatter: it gets the blocks of its subtree and passes on those of its children's.\<close>

lemma solo_scatter:
  assumes P: "1 < P" and root: "root < P" and i: "i < P" and ni: "i \<noteq> root"
    and B: "\<And>j. j < P \<Longrightarrow> length (B j) = blk" and big: "P * blk \<le> MAX_MESSAGE"
    and tmp: "P * blk \<le> length tmp" and rv: "rv = Buf b" "blk \<le> length b"
    and type: "dtype_size rt = Some re" "rc * re = blk"
  shows "solo (MPI_Scatter P i sb sc st rv rc rt root tmp ab k)
     (\<lambda>s. if edge P root s i then chunks 0 (sub_data P B (rel_rank P root i)) else [])
     (\<lambda>d. if edge P root i d then chunks 0 (sub_data P B (rel_rank P root d)) else [])
     (k (put_front rv (B (rel_rank P root i))))"
proof -
  let ?n = "rel_rank P root i" and ?t = "low_bit P (rel_rank P root i) 0" and ?p = "abs_rank P root (tree_parent P (rel_rank P root i))"
  let ?out = "\<lambda>d. if edge P root i d then chunks 0 (sub_data P B (rel_rank P root d)) else []"
  let ?D = "sub_data P B ?n"
  have nP: "?n < P" using P by simp
  have n0: "?n \<noteq> 0" using rel_root [OF root, of i] ni i by auto
  then have t: "2 ^ ?t \<le> ?n" using low_bit_pos [OF _ nP] by auto
  have src: "(i + P - 2 ^ ?t) mod P = ?p" using rank_minus [OF root i t] by (simp add: tree_parent_def)
  have pP: "?p < P" using P by simp
  have dlen: "length ?D = sub_size P ?n * blk" using sub_data_length [of P B blk ?n] B nP by simp
  have "sub_size P ?n \<le> P" using sub_size_le [OF nP] by linarith
  then have le: "sub_size P ?n * blk \<le> P * blk" by (rule mult_le_mono1)
  then have small: "length ?D \<le> MAX_MESSAGE" using dlen big by linarith
  have pos: "0 < sub_size P ?n" using nP by (simp add: sub_size_held)
  have first: "take blk ?D = B ?n"
  proof -
    have "?D = B ?n @ concat (map B [Suc ?n..<?n + sub_size P ?n])" using pos by (simp add: sub_data_def upt_rec [of ?n])
    then show ?thesis using B [OF nP] by simp
  qed
  have ins: "(\<lambda>s. if edge P root s i then chunks 0 ?D else []) = only ?p (chunks 0 ?D)"
    using edge_up [OF root i, of "chunks 0 ?D"] n0 by simp
  show ?thesis
  proof (cases "sub_size P ?n = 1")
    case True
    have D: "?D = B ?n" using True by (simp add: sub_data_def)
    have "\<not> edge P root i d" for d
    proof
      assume "edge P root i d"
      then obtain u where u: "d < P" "u < ?t" "rel_rank P root d = ?n + 2 ^ u" unfolding edge_children [OF root i] by blast
      have "?n + 2 ^ u < P" using u(3) rel_rank_less [of P root d] P by simp
      then have "2 \<le> P - ?n" using one_le_power [of "2 :: nat" u] by linarith
      moreover have "2 \<le> (2 :: nat) ^ ?t" using u(2) power_increasing [of 1 ?t "2 :: nat"] by simp
      ultimately have "2 \<le> sub_size P ?n" using sub_size_held [OF nP] by simp
      then show False using True by simp
    qed
    then have out: "?out = (\<lambda>_. [])" by simp
    have prog: "MPI_Scatter P i sb sc st rv rc rt root tmp ab k = recv_bytes P b 0 blk (int ?p) (\<lambda>b' _. k (Buf b'))"
      using ni type n0 P rv(1) True src by (simp add: MPI_Scatter_def Let_def)
    have "solo (recv_bytes P b 0 blk (int ?p) (\<lambda>b' _. k (Buf b'))) (only ?p (chunks 0 ?D)) (\<lambda>_. []) (k (Buf (memcpy_at b 0 (take blk ?D))))"
      using solo_recv_bytes [OF P pP _ small, of 0 blk b "\<lambda>b' _. k (Buf b')" 0] rv(2) by (simp del: only_apply)
    then show ?thesis unfolding ins out prog first using rv(1) by (simp add: put_front_def del: only_apply)
  next
    case False
    let ?w = "memcpy_at tmp 0 ?D" and ?S = "sub_size P ?n"
    let ?pass = "\<lambda>w. tree_scatter_loop P i ?n blk w ?t ?S (k (put_front rv (take blk w)))"
    have prog: "MPI_Scatter P i sb sc st rv rc rt root tmp ab k = recv_bytes P tmp 0 (?S * blk) (int ?p) (\<lambda>w _. ?pass w)"
      using ni type n0 P False src by (simp add: MPI_Scatter_def Let_def)
    have recv: "solo (recv_bytes P tmp 0 (?S * blk) (int ?p) (\<lambda>w _. ?pass w)) (only ?p (chunks 0 ?D)) (\<lambda>_. []) (?pass ?w)"
      using solo_recv_bytes [OF P pP _ small, of 0 "?S * blk" tmp "\<lambda>w _. ?pass w" 0] le tmp dlen by (simp del: only_apply mult_le_cancel2)
    have held: "min (2 ^ ?t) (P - ?n) = ?S" using sub_size_held [OF nP] by simp
    have tw: "take (?S * blk) ?w = ?D" using dlen by (simp add: memcpy_at_def)
    have tb: "take blk ?w = B ?n"
    proof -
      have "blk \<le> length ?D" using pos dlen by simp
      then show ?thesis using first by (simp add: memcpy_at_def)
    qed
    have pass: "solo (?pass ?w) (\<lambda>_. []) (\<lambda>d. if d < P \<and> (\<exists>u<?t. rel_rank P root d = ?n + 2 ^ u) then chunks 0 (sub_data P B (rel_rank P root d)) else [])
        (k (put_front rv (take blk ?w)))"
      using solo_scatter_loop [where t = ?t and k = "k (put_front rv (take blk ?w))", OF P root i HOL.refl _ tw] B unfolding held by simp
    from solo_trans [OF recv pass] show ?thesis unfolding ins prog tb edge_children [OF root i] by (simp del: only_apply)
  qed
qed

lemma blocks_of_buffer: "m * blk \<le> length s \<Longrightarrow> concat (map (\<lambda>j. slice s (j * blk) blk) [0..<m]) = take (m * blk) s"
proof (induction m)
  case (Suc m)
  then have "concat (map (\<lambda>j. slice s (j * blk) blk) [0..<Suc m]) = slice s 0 (m * blk) @ slice s (0 + m * blk) blk" by (simp add: slice_def)
  also have "\<dots> = take (Suc m * blk) s" unfolding slice_append by (simp add: slice_def add.commute)
  finally show ?case .
qed simp

lemma solo_scatter_root:
  assumes P: "1 < P" and root: "root < P" and sb: "length sb = P * blk" and tmp: "P * blk \<le> length tmp"
    and type: "dtype_size st = Some se" "sc * se = blk"
  shows "solo (MPI_Scatter P root sb sc st rv rc rt root tmp ab k) (\<lambda>_. [])
     (\<lambda>d. if edge P root root d then chunks 0 (sub_data P (\<lambda>j. slice sb (abs_rank P root j * blk) blk) (rel_rank P root d)) else [])
     (k (put_front rv (slice sb (root * blk) blk)))"
proof -
  let ?B = "\<lambda>j. slice sb (abs_rank P root j * blk) blk" and ?t = "low_bit P 0 0"
  let ?w = "if root = 0 then sb else foldl (\<lambda>w j. memcpy_at w (j * blk) (slice sb ((j + root) mod P * blk) blk)) tmp [0..<P]"
  have n: "rel_rank P root root = 0" using rel_root [OF root, of root] root by simp
  have P0: "0 < P" using P by simp
  have B: "length (?B j) = blk" if "j < P" for j using block_fits [of "abs_rank P root j" P blk] sb P0 by (simp add: slice_length)
  have S: "sub_size P 0 = P" by (simp add: sub_size_def)
  have w: "take (P * blk) ?w = concat (map ?B [0..<P])"
  proof (cases "root = 0")
    case True
    have "map ?B [0..<P] = map (\<lambda>j. slice sb (j * blk) blk) [0..<P]" using True by (simp add: abs_rank_def)
    moreover have "concat (map (\<lambda>j. slice sb (j * blk) blk) [0..<P]) = take (P * blk) sb" using sb by (intro blocks_of_buffer) simp
    ultimately have "take (P * blk) sb = concat (map ?B [0..<P])" by (simp only:)
    then show ?thesis using True by simp
  next
    case False
    have "?w = gathered (\<lambda>j. j * blk) ?B [0..<P] tmp" using False by (simp add: gathered_def abs_rank_def)
    also have "\<dots> = memcpy_at tmp (0 * blk) (concat (map ?B [0..<P]))"
      using memcpy_gathered [OF uniform_adjacent [of P ?B blk, OF B], of 0 P tmp] tmp by simp
    finally show ?thesis using blocks_length [of P ?B blk 0 P, OF B] by (simp add: memcpy_at_def)
  qed
  have prog: "MPI_Scatter P root sb sc st rv rc rt root tmp ab k = tree_scatter_loop P root 0 blk ?w ?t P (k (put_front rv (take blk ?w)))"
    using type P n by (simp add: MPI_Scatter_def Let_def)
  have held: "min (2 ^ ?t) (P - 0) = P" using low_bit_0 [of P] by simp
  have "blk \<le> P * blk" using P by simp
  then have "take blk ?w = take blk (take (P * blk) ?w)" by (simp add: min_absorb1)
  also have "\<dots> = ?B 0"
  proof -
    have "concat (map ?B [0..<P]) = ?B 0 @ concat (map ?B [1..<P])" using P0 by (simp add: upt_rec [of 0])
    then show ?thesis unfolding w using B [OF P0] by simp
  qed
  also have "\<dots> = slice sb (root * blk) blk" using root by (simp add: abs_rank_def)
  finally have front: "take blk ?w = slice sb (root * blk) blk" .
  have "solo (tree_scatter_loop P root 0 blk ?w ?t P (k (put_front rv (take blk ?w)))) (\<lambda>_. [])
     (\<lambda>d. if d < P \<and> (\<exists>u<?t. rel_rank P root d = 0 + 2 ^ u) then chunks 0 (sub_data P ?B (rel_rank P root d)) else []) (k (put_front rv (take blk ?w)))"
    by (rule solo_scatter_loop [where n = 0 and t = ?t and B = ?B, OF P root root, unfolded held])
      (use n B w S in \<open>simp_all add: sub_data_def\<close>)
  then show ?thesis unfolding prog front edge_children [OF root root] n by simp
qed

text \<open>
  C18: \<^verbatim>\<open>MPI_Scatter\<close>, with any number of ranks and any root: no execution deadlocks, aborts or runs for ever, and every rank \<open>i\<close>
  ends with block \<open>i\<close> of the root's send buffer at the start of its receive buffer; a root that passes \<^verbatim>\<open>MPI_IN_PLACE\<close> keeps its block where it is.
\<close>

theorem MPI_Scatter_correct:
  assumes "1 < P" and "root < P" and "P * blk \<le> MAX_MESSAGE"
    and "dtype_size st = Some se" and "sc * se = blk" and "length (sb root) = P * blk"
    and "dtype_size rt = Some re" and "rc * re = blk"
    and "\<forall>i<P. i \<noteq> root \<longrightarrow> (\<exists>b. rv i = Buf b \<and> blk \<le> length b)"
    and "\<forall>i<P. P * blk \<le> length (tmp i)"
    and "\<forall>i<P. ps i = MPI_Scatter P i (sb i) sc st (rv i) rc rt root (tmp i) (ab i) Ret"
  shows "always_ends P ps (\<lambda>i. put_front (rv i) (slice (sb root) (i * blk) blk))"
proof -
  let ?B = "\<lambda>j. slice (sb root) (abs_rank P root j * blk) blk"
  have B: "length (?B j) = blk" if "j < P" for j using block_fits [of "abs_rank P root j" P blk] assms(1,6) by (simp add: slice_length)
  have solo: "solo (ps i) (\<lambda>s. if edge P root s i then chunks 0 (sub_data P ?B (rel_rank P root i)) else [])
      (\<lambda>d. if edge P root i d then chunks 0 (sub_data P ?B (rel_rank P root d)) else []) (Ret (put_front (rv i) (slice (sb root) (i * blk) blk)))"
    if i: "i < P" for i
  proof (cases "i = root")
    case True
    have "\<not> edge P root s root" for s by (simp add: edge_def)
    then have "(\<lambda>s. if edge P root s i then chunks 0 (sub_data P ?B (rel_rank P root i)) else []) = (\<lambda>_. [])" using True by simp
    moreover have "P * blk \<le> length (tmp root)" using assms(2,10) by blast
    ultimately show ?thesis using True solo_scatter_root [OF assms(1,2,6) _ assms(4,5), where k = Ret] assms(2,11) by simp
  next
    case False
    obtain b where b: "rv i = Buf b" "blk \<le> length b" using assms(9) i False by blast
    have tmp: "P * blk \<le> length (tmp i)" using assms(10) i by blast
    have "?B (rel_rank P root i) = slice (sb root) (i * blk) blk" using abs_rel [OF assms(2) i] by simp
    moreover have "solo (MPI_Scatter P i (sb i) sc st (rv i) rc rt root (tmp i) (ab i) Ret)
       (\<lambda>s. if edge P root s i then chunks 0 (sub_data P ?B (rel_rank P root i)) else [])
       (\<lambda>d. if edge P root i d then chunks 0 (sub_data P ?B (rel_rank P root d)) else []) (Ret (put_front (rv i) (?B (rel_rank P root i))))"
      by (rule solo_scatter [OF assms(1,2) i False _ assms(3) tmp b assms(7,8)]) (rule B)
    ultimately show ?thesis using assms(11) i by simp
  qed
  have "(net_step P)\<^sup>*\<^sup>* (ps, \<lambda>_ _. []) (\<lambda>i. if i < P then Ret (put_front (rv i) (slice (sb root) (i * blk) blk)) else ps i, \<lambda>_ _. [])"
    by (rule tree_down_run [OF assms(2), where ms = "\<lambda>n. chunks 0 (sub_data P ?B n)"]) (rule solo)
  then show ?thesis by (rule always_endsI) simp
qed

text \<open>Rank 2 of six scatters to all, itself in place.\<close>

theorem MPI_Scatter_correct_witness:
  "always_ends 6 (\<lambda>i. MPI_Scatter 6 i (if i = 2 then [10, 11, 12, 13, 14, 15] else []) 1 1 (if i = 2 then In_Place else Buf [0, 1]) 1 1 2 (replicate 6 9) (Ret Null_Buf) Ret)
     (\<lambda>i. if i = 2 then In_Place else Buf [word_of_nat (10 + i), 1])"
proof -
  let ?sb = "\<lambda>i :: nat. if i = 2 then [10, 11, 12, 13, 14, 15] else [] :: byte list" and ?rv = "\<lambda>i :: nat. if i = 2 then In_Place else Buf [0, 1]"
  have ends: "always_ends 6 (\<lambda>i. MPI_Scatter 6 i (?sb i) 1 1 (?rv i) 1 1 2 (replicate 6 9) (Ret Null_Buf) Ret)
     (\<lambda>i. put_front (?rv i) (slice (?sb 2) (i * 1) 1))"
    by (rule MPI_Scatter_correct [where se = 1 and re = 1 and st = 1 and rt = 1 and sc = 1 and rc = 1 and sb = ?sb and rv = ?rv
          and tmp = "\<lambda>_. replicate 6 9" and ab = "\<lambda>_. Ret Null_Buf"])
      (simp_all add: dtype_size_def MAX_MESSAGE_def MAX_MSG_BYTES_def)
  have "put_front (?rv i) (slice (?sb 2) (i * 1) 1) = (if i = 2 then In_Place else Buf [word_of_nat (10 + i), 1])" if "i < 6" for i
  proof -
    from that have "i = 0 \<or> i = 1 \<or> i = 2 \<or> i = 3 \<or> i = 4 \<or> i = 5" by linarith
    then show ?thesis by (elim disjE) (simp_all add: put_front_def slice_def memcpy_at_def)
  qed
  with ends show ?thesis by (rule always_ends_same)
qed

section \<open>The linear gather\<close>

text \<open>What rank \<open>j\<close> contributes: its send buffer, or what the root has in place.\<close>

definition gv_block :: "nat \<Rightarrow> nat list \<Rightarrow> nat list \<Rightarrow> (nat \<Rightarrow> SendArg) \<Rightarrow> byte list \<Rightarrow> nat \<Rightarrow> byte list" where
  "gv_block root cnt dsp sb rbuf j = (case sb j of Buf s \<Rightarrow> s | _ \<Rightarrow> slice rbuf (dsp ! j) (cnt ! j))"

lemma gathered_elsewhere:
  assumes ap: "apart d (\<lambda>j. length (c j)) I (length b)" and xs: "set xs \<subseteq> I" and j: "j \<in> I" "j \<notin> set xs"
  shows "slice (gathered d c xs b) (d j) (length (c j)) = slice b (d j) (length (c j))"
proof -
  have len: "length (gathered d c xs b) = length b" using apart_bound [OF ap] xs by (intro length_gathered) blast
  have bound: "d j + length (c j) \<le> length b" using apart_bound [OF ap j(1)] .
  have "gathered d c xs b ! (d j + x) = b ! (d j + x)" if "x < length (c j)" for x
  proof (rule gathered_nth_other)
    show "d j + x < length b" using bound that by simp
    show "d i + length (c i) \<le> length b" if "i \<in> set xs" for i using apart_bound [OF ap] that xs by blast
    show "\<not> (d i \<le> d j + x \<and> d j + x < d i + length (c i))" if "i \<in> set xs" for i
      using apart_disjoint [OF ap, of i j] that xs j \<open>x < length (c j)\<close> by fastforce
  qed
  then show ?thesis using bound len by (intro nth_equalityI) (simp_all add: slice_length slice_nth)
qed

lemma solo_gatherv_loop:
  assumes P: "1 < P" and ap: "apart (\<lambda>j. dp ! j * re) (\<lambda>j. length (c j)) {..<P} (length b)"
    and cnt: "\<And>j. j < P \<Longrightarrow> rc ! j * re = length (c j)" and small: "\<And>j. j < P \<Longrightarrow> length (c j) \<le> MAX_MESSAGE"
    and own: "sendbuf = Buf (c root) \<and> dtype_size st = Some se \<and> sc * se = length (c root)
      \<or> (sendbuf = In_Place \<or> sendbuf = Null_Buf) \<and> slice b (dp ! root * re) (length (c root)) = c root"
    and rt: "dtype_size rt = Some re" and js: "set (pre @ js) \<subseteq> {..<P}" "distinct (pre @ js)"
  shows "solo (gatherv_loop P sendbuf sc st rc dp rt re root js (gathered (\<lambda>j. dp ! j * re) c pre b) ab k)
     (\<lambda>s. if s \<in> set js \<and> s \<noteq> root then chunks 0 (c s) else []) (\<lambda>_. [])
     (k (gathered (\<lambda>j. dp ! j * re) c (pre @ js) b))"
  using js
proof (induction js arbitrary: pre)
  case Nil
  show ?case by (simp add: solo.idle)
next
  case (Cons j js)
  let ?d = "\<lambda>j. dp ! j * re" and ?in = "\<lambda>js s. if s \<in> set js \<and> s \<noteq> root then chunks 0 (c s) else []"
  let ?g = "\<lambda>xs. gathered ?d c xs b" and ?loop = "\<lambda>js b. gatherv_loop P sendbuf sc st rc dp rt re root js b ab k"
  have IH: "solo (?loop js (?g (pre @ [j]))) (?in js) (\<lambda>_. []) (k (?g (pre @ j # js)))"
    using Cons.IH [of "pre @ [j]"] Cons.prems by simp
  have j: "j < P" "j \<notin> set js" "j \<notin> set pre" using Cons.prems by auto
  have bound: "?d x + length (c x) \<le> length b" if "x < P" for x using apart_bound [OF ap, of x] that by simp
  have glen: "length (?g pre) = length b" using Cons.prems(1) bound by (intro length_gathered) auto
  show ?case
  proof (cases "j = root")
    case True
    have "?in (j # js) = ?in js" using True by (intro ext) auto
    moreover have "?loop (j # js) (?g pre) = ?loop js (?g (pre @ [j]))"
    proof (cases "sendbuf = Buf (c root)")
      case sent: True
      then show ?thesis using own True by simp
    next
      case False
      then have ip: "sendbuf = In_Place \<or> sendbuf = Null_Buf" "slice b (?d j) (length (c j)) = c j" using own True by auto
      have "slice (?g pre) (?d j) (length (c j)) = c j"
        using gathered_elsewhere [OF ap, of pre j] ip(2) j Cons.prems(1) by simp
      then have "memcpy_at (?g pre) (?d j) (c j) = ?g pre"
        using gathered_present [of ?d j c "?g pre"] bound [OF j(1)] glen by (simp add: gathered_def)
      then show ?thesis using ip(1) True by auto
    qed
    ultimately show ?thesis using IH by simp
  next
    case False
    have room: "?d j + rc ! j * re \<le> length (?g pre)" using bound [OF j(1)] cnt [OF j(1)] glen by simp
    have "?loop (j # js) (?g pre) = recv_bytes P (?g pre) (?d j) (rc ! j * re) (int j) (\<lambda>b' _. ?loop js b')"
      using False P j(1) rt by (simp add: MPI_Recv_def)
    moreover have "solo (recv_bytes P (?g pre) (?d j) (rc ! j * re) (int j) (\<lambda>b' _. ?loop js b')) (only j (chunks 0 (c j))) (\<lambda>_. [])
        (?loop js (?g (pre @ [j])))"
      using solo_recv_bytes [OF P j(1) room small [OF j(1)], of "\<lambda>b' _. ?loop js b'" 0] cnt [OF j(1)] by (simp del: only_apply)
    moreover have "(\<lambda>s. only j (chunks 0 (c j)) s @ ?in js s) = ?in (j # js)" using False j(2) by (intro ext) auto
    ultimately show ?thesis using solo_trans [OF _ IH] by fastforce
  qed
qed

text \<open>
  C36: \<^verbatim>\<open>MPI_Gatherv\<close>, with any number of ranks, any root, any counts and any displacements that keep the blocks apart: no execution
  deadlocks, aborts or runs for ever; the root ends with every block at its displacement and the rest of its buffer untouched, and
  no other receive buffer changes.
\<close>

theorem MPI_Gatherv_correct:
  assumes "1 < P" and "root < P" and "dtype_size rt = Some re"
    and "cnt = map (\<lambda>n. n * re) rc" and "dsp = map (\<lambda>d. d * re) dp" and "length rc = P" and "length dp = P"
    and "apart ((!) dsp) ((!) cnt) {..<P} (length (rb root))" and "\<forall>j<P. cnt ! j \<le> MAX_MESSAGE"
    and "\<forall>i<P. (\<exists>s e. sb i = Buf s \<and> length s = cnt ! i \<and> dtype_size (st i) = Some e \<and> sc i * e = cnt ! i) \<or> i = root \<and> sb i = In_Place"
    and "\<forall>i<P. ps i = MPI_Gatherv P i (sb i) (sc i) (st i) (rb i) rc dp rt root (ab i) Ret"
  shows "always_ends P ps (\<lambda>i. if i = root then gathered ((!) dsp) (gv_block root cnt dsp sb (rb root)) [0..<P] (rb root) else rb i)"
proof -
  let ?c = "gv_block root cnt dsp sb (rb root)" and ?d = "\<lambda>j. dp ! j * re"
  let ?m = "\<lambda>s d. if s < P \<and> d = root \<and> s \<noteq> root then chunks 0 (?c s) else []"
  let ?ord = "\<lambda>i. if i = root then P - 1 else if i < root then i else i - 1"
  let ?q = "\<lambda>i. Ret (if i = root then gathered ((!) dsp) ?c [0..<P] (rb root) else rb i)"
  have d: "dsp ! j = ?d j" "cnt ! j = rc ! j * re" if "j < P" for j using assms(4-7) that by simp_all
  have clen: "length (?c j) = cnt ! j" if "j < P" for j
    using assms(10) apart_bound [OF assms(8), of j] that by (cases "sb j") (auto simp: gv_block_def slice_length)
  have ap: "apart ?d (\<lambda>j. length (?c j)) {..<P} (length (rb root))" using assms(8) clen d by (simp add: apart_def)
  have root_solo: "solo (ps root) (\<lambda>s. ?m s root) (\<lambda>_. []) (?q root)"
  proof -
    have "(\<exists>e. sb root = Buf (?c root) \<and> dtype_size (st root) = Some e \<and> sc root * e = length (?c root))
        \<or> (sb root = In_Place \<or> sb root = Null_Buf) \<and> slice (rb root) (?d root) (length (?c root)) = ?c root"
      using assms(2,10) clen [OF assms(2)] d [OF assms(2)] by (cases "sb root") (auto simp: gv_block_def)
    then obtain e where own: "sb root = Buf (?c root) \<and> dtype_size (st root) = Some e \<and> sc root * e = length (?c root)
        \<or> (sb root = In_Place \<or> sb root = Null_Buf) \<and> slice (rb root) (?d root) (length (?c root)) = ?c root" by blast
    have "solo (gatherv_loop P (sb root) (sc root) (st root) rc dp rt re root [0..<P] (gathered ?d ?c [] (rb root)) (ab root) Ret)
       (\<lambda>s. if s \<in> set [0..<P] \<and> s \<noteq> root then chunks 0 (?c s) else []) (\<lambda>_. []) (Ret (gathered ?d ?c ([] @ [0..<P]) (rb root)))"
      by (rule solo_gatherv_loop [OF assms(1) ap _ _ own assms(3)]) (use clen d assms(9) in auto)
    moreover have "gathered ?d ?c [0..<P] (rb root) = gathered ((!) dsp) ?c [0..<P] (rb root)" using d by (intro gathered_cong) simp
    ultimately show ?thesis using assms(2,3,11) by (simp add: MPI_Gatherv_def)
  qed
  have other: "solo (ps i) (\<lambda>_. []) (only root (chunks 0 (?c i))) (?q i)" if i: "i < P" "i \<noteq> root" for i
  proof -
    obtain s e where s: "sb i = Buf s" "length s = cnt ! i" "dtype_size (st i) = Some e" "sc i * e = cnt ! i" using assms(10) i by blast
    then have "ps i = send_bytes P (?c i) (int root) 0 (Ret (rb i))"
      using assms(1,2,3,11) i by (simp add: MPI_Gatherv_def MPI_Send_def gv_block_def)
    then show ?thesis using solo_send_bytes [OF assms(1,2), of "?c i" 0 "Ret (rb i)"] i by simp
  qed
  have "(net_step P)\<^sup>*\<^sup>* (ps, \<lambda>_ _. []) (\<lambda>i. if i < P then ?q i else ps i, \<lambda>_ _. [])"
  proof (rule solo_schedule [where m = ?m and ord = ?ord])
    show "solo (ps i) (\<lambda>s. ?m s i) (?m i) (?q i)" if "i < P" for i
    proof (cases "i = root")
      case True
      then have "?m i = (\<lambda>_. [])" by simp
      then show ?thesis using root_solo True by simp
    next
      case False
      then have "?m i = only root (chunks 0 (?c i))" "(\<lambda>s. ?m s i) = (\<lambda>_. [])" using that by (auto simp: fun_eq_iff)
      then show ?thesis using other [OF that False] by (simp only:)
    qed
    have "inj_on ?ord {..<P}" using assms(2) by (auto simp: inj_on_def split: if_splits)
    moreover have "?ord ` {..<P} \<subseteq> {..<P}" using assms(2) by auto
    ultimately show "bij_betw ?ord {..<P} {..<P}" unfolding bij_betw_def by (meson endo_inj_surj finite_lessThan)
    show "s < P \<and> d < P \<and> ?ord s < ?ord d" if "?m s d \<noteq> []" for s d
      using that assms(2) by (auto split: if_splits)
  qed
  then show ?thesis by (rule always_endsI) simp
qed

text \<open>Three ranks of bytes: two from rank 0, none from rank 1, one from rank 2, with a gap, to rank 1.\<close>

theorem MPI_Gatherv_correct_witness:
  "always_ends 3 (\<lambda>i. MPI_Gatherv 3 i (if i = 0 then Buf [1, 2] else if i = 1 then In_Place else Buf [3]) (if i = 0 then 2 else 1) 1
       (if i = 1 then [60, 61, 62, 63, 64] else []) [2, 0, 1] [3, 1, 0] 1 1 (Ret []) Ret) (\<lambda>i. if i = 1 then [3, 61, 62, 1, 2] else [])"
proof -
  let ?sb = "\<lambda>i :: nat. if i = 0 then Buf [1, 2] else if i = 1 then In_Place else Buf [3]" and ?sc = "\<lambda>i :: nat. if i = 0 then 2 else 1 :: nat"
  let ?rb = "\<lambda>i :: nat. if i = 1 then [60, 61, 62, 63, 64] else [] :: byte list"
  have three: "{..<3 :: nat} = {0, 1, 2}" by auto
  have "always_ends 3 (\<lambda>i. MPI_Gatherv 3 i (?sb i) (?sc i) 1 (?rb i) [2, 0, 1] [3, 1, 0] 1 1 (Ret []) Ret)
     (\<lambda>i. if i = 1 then gathered ((!) [3, 1, 0]) (gv_block 1 [2, 0, 1] [3, 1, 0] ?sb (?rb 1)) [0..<3] (?rb 1) else ?rb i)"
  proof (rule MPI_Gatherv_correct [where re = 1 and rt = 1 and rc = "[2, 0, 1]" and dp = "[3, 1, 0]" and sb = ?sb and rb = ?rb and sc = ?sc and st = "\<lambda>_. 1"
          and ab = "\<lambda>_. Ret []"])
    show "apart ((!) [3, 1, 0]) ((!) [2, 0, 1]) {..<3} (length (?rb 1))" by (simp add: apart_def three)
    show "\<forall>j<3. [2, 0, 1] ! j \<le> MAX_MESSAGE"
    proof (intro allI impI)
      fix j :: nat assume "j < 3"
      then have "j = 0 \<or> j = 1 \<or> j = 2" by linarith
      then show "[2, 0, 1] ! j \<le> MAX_MESSAGE" by (elim disjE) (simp_all add: MAX_MESSAGE_def MAX_MSG_BYTES_def)
    qed
    show "\<forall>i<3. (\<exists>s e. ?sb i = Buf s \<and> length s = [2, 0, 1] ! i \<and> dtype_size 1 = Some e \<and> ?sc i * e = [2, 0, 1] ! i) \<or> i = 1 \<and> ?sb i = In_Place"
    proof (intro allI impI)
      fix i :: nat assume "i < 3"
      then have "i = 0 \<or> i = 1 \<or> i = 2" by linarith
      then show "(\<exists>s e. ?sb i = Buf s \<and> length s = [2, 0, 1] ! i \<and> dtype_size 1 = Some e \<and> ?sc i * e = [2, 0, 1] ! i) \<or> i = 1 \<and> ?sb i = In_Place"
        by (elim disjE) (simp_all add: dtype_size_def)
    qed
  qed (simp_all add: dtype_size_def)
  moreover have "gathered ((!) [3, 1, 0]) (gv_block 1 [2, 0, 1] [3, 1, 0] ?sb (?rb 1)) [0..<3] (?rb 1) = [3, 61, 62, 1, 2]" by code_simp
  ultimately show ?thesis by (simp cong: if_cong)
qed

end
