(* ===== verification/Mpi_Reduce.thy ===== *)
theory Mpi_Reduce
  imports Mpi_Gather
begin

text \<open>
  \<^verbatim>\<open>MPI_Reduce\<close> of src/parallel_abstraction/pimid_mpi.cpp: on the binomial tree for short vectors, by Rabenseifner's reduce-scatter and a
  binomial gather of the pieces for long ones. As in \<open>Mpi_Allreduce\<close>, a mask is given by its exponent, scratch memory is an argument and
  \<open>ab\<close> is where a rank goes that aborts.
\<close>

section \<open>The algorithms\<close>

definition kReduceShort :: nat where "kReduceShort = 2048"

text \<open>The loop of \<^verbatim>\<open>reduce_binomial\<close> from \<^verbatim>\<open>mask\<close> \<open>= 2 ^ t\<close>, \<open>n\<close> bytes.\<close>

function red_tree_loop ::
  "nat \<Rightarrow> nat \<Rightarrow> nat \<Rightarrow> reducer \<Rightarrow> nat \<Rightarrow> nat \<Rightarrow> nat \<Rightarrow> byte list \<Rightarrow> byte list \<Rightarrow> 'a rank_proc \<Rightarrow> (byte list \<Rightarrow> 'a rank_proc) \<Rightarrow> 'a rank_proc" where
  "red_tree_loop P rel root red cnt n t acc tmp ab k =
     (if 2 ^ t < P
      then if \<not> bit rel t
           then let src = rel OR 2 ^ t
                in if src < P
                   then recv_bytes P tmp 0 n (int ((src + root) mod P)) (\<lambda>tmp' _.
                          case red tmp' acc cnt of None \<Rightarrow> ab | Some acc' \<Rightarrow> red_tree_loop P rel root red cnt n (Suc t) acc' tmp' ab k)
                   else red_tree_loop P rel root red cnt n (Suc t) acc tmp ab k
           else send_bytes P (take n acc) (int ((rel - 2 ^ t + root) mod P)) 0 (k acc)
      else k acc)"
  by auto
termination
proof (relation "measure (\<lambda>(P, rel, root, red, cnt, n, t, acc, tmp, ab, k). P - t)", goal_cases)
  case (2 P rel root red cnt n t)
  then have "t < P" using less_exp [of t] by linarith
  then show ?case by simp
next
  case (3 P rel root red cnt n t)
  then have "t < P" using less_exp [of t] by linarith
  then show ?case by simp
qed simp

declare red_tree_loop.simps [simp del]

definition reduce_binomial ::
  "nat \<Rightarrow> nat \<Rightarrow> reducer \<Rightarrow> nat \<Rightarrow> nat \<Rightarrow> nat \<Rightarrow> byte list \<Rightarrow> byte list \<Rightarrow> 'a rank_proc \<Rightarrow> (byte list \<Rightarrow> 'a rank_proc) \<Rightarrow> 'a rank_proc" where
  "reduce_binomial P rank red cnt ext root acc tmp ab k = red_tree_loop P (rel_rank P root rank) root red cnt (cnt * ext) 0 acc tmp ab k"

text \<open>Among the folded ranks the even one survives here.\<close>

definition realOf_even :: "nat \<Rightarrow> nat \<Rightarrow> nat" where
  "realOf_even rem nr = (if nr < rem then nr * 2 else nr + rem)"

text \<open>\<^verbatim>\<open>halving_final_idx\<close>: the range of pieces a survivor holds after the halving.\<close>

function final_idx_loop :: "nat \<Rightarrow> nat \<Rightarrow> nat \<Rightarrow> nat \<Rightarrow> nat \<Rightarrow> nat \<Rightarrow> nat \<times> nat" where
  "final_idx_loop newrank pof2 t send_idx recv_idx last_idx =
     (if 2 ^ t < pof2
      then let recv_idx1 = (if newrank < newrank XOR 2 ^ t then recv_idx else send_idx + pof2 div (2 ^ t * 2));
               last_idx1 = (if 2 ^ Suc t < pof2 then recv_idx1 + pof2 div 2 ^ Suc t else last_idx)
           in final_idx_loop newrank pof2 (Suc t) recv_idx1 recv_idx1 last_idx1
      else (send_idx, last_idx))"
  by auto
termination
proof (relation "measure (\<lambda>(newrank, pof2, t, send_idx, recv_idx, last_idx). pof2 - t)", goal_cases)
  case (2 newrank pof2 t)
  then have "t < pof2" using less_exp [of t] by linarith
  then show ?case by simp
qed simp

declare final_idx_loop.simps [simp del]

definition halving_final_idx :: "nat \<Rightarrow> nat \<Rightarrow> nat \<times> nat" where
  "halving_final_idx newrank pof2 = final_idx_loop newrank pof2 0 0 0 pof2"

text \<open>
  The last loop of \<^verbatim>\<open>reduce_scatter_gather\<close>, \<^verbatim>\<open>mask\<close> from \<open>2 ^ (j - 1)\<close> down: towards the root a survivor receives the pieces of its
  partners, and sends all it has when its partner's side is the root's.
\<close>

fun pieces_up_loop ::
  "nat \<Rightarrow> nat \<Rightarrow> nat \<Rightarrow> nat \<Rightarrow> bool \<Rightarrow> nat \<Rightarrow> nat \<Rightarrow> nat \<Rightarrow> nat list \<Rightarrow> nat list \<Rightarrow> nat \<Rightarrow> nat \<Rightarrow> nat \<Rightarrow> byte list
     \<Rightarrow> (byte list \<Rightarrow> 'a rank_proc) \<Rightarrow> 'a rank_proc" where
  "pieces_up_loop P ext pof2 rem folded root newroot newrank cnts disps 0 send_idx last_idx acc k = k acc"
| "pieces_up_loop P ext pof2 rem folded root newroot newrank cnts disps (Suc j) send_idx last_idx acc k =
     (let newdst = newrank XOR 2 ^ j;
          dst = int (if folded \<and> newdst = newroot then root else realOf_even rem newdst);
          low = newrank < newdst;
          last_idx1 = (if low \<and> 2 ^ j \<noteq> pof2 div 2 then last_idx + pof2 div (2 ^ j * 2) else last_idx);
          recv_idx = (if low then send_idx + pof2 div (2 ^ j * 2) else send_idx - pof2 div (2 ^ j * 2));
          send_cnt = (if low then rs_sum cnts send_idx recv_idx else rs_sum cnts send_idx last_idx1);
          recv_cnt = (if low then rs_sum cnts recv_idx last_idx1 else rs_sum cnts recv_idx send_idx)
      in if clear_low j newdst = clear_low j newroot
         then send_bytes P (slice acc (disps ! send_idx * ext) (send_cnt * ext)) dst 0 (k acc)
         else recv_bytes P acc (disps ! recv_idx * ext) (recv_cnt * ext) dst (\<lambda>acc' _.
                pieces_up_loop P ext pof2 rem folded root newroot newrank cnts disps j (if low then send_idx else recv_idx) last_idx1 acc' k))"

definition reduce_scatter_gather ::
  "nat \<Rightarrow> nat \<Rightarrow> reducer \<Rightarrow> nat \<Rightarrow> nat \<Rightarrow> nat \<Rightarrow> byte list \<Rightarrow> byte list \<Rightarrow> 'a rank_proc \<Rightarrow> (byte list \<Rightarrow> 'a rank_proc) \<Rightarrow> 'a rank_proc" where
  "reduce_scatter_gather P rank red cnt ext root acc tmp ab k =
     (let n = cnt * ext; pof2 = pof2_floor P; rem = P - pof2; cnts = rs_cnts cnt pof2; disps = rs_disps cnt pof2;
          folded = (root < 2 * rem \<and> odd root);
          newroot = (if root < 2 * rem then root div 2 else root - rem);
          (ps, pl) = halving_final_idx newroot pof2;
          off = disps ! ps * ext; nb = rs_sum cnts ps pl * ext;
          up = (\<lambda>newrank send_idx last_idx acc.
                  pieces_up_loop P ext pof2 rem folded root newroot newrank cnts disps (low_bit pof2 0 0) send_idx last_idx acc k);
          go_up = (\<lambda>newrank send_idx last_idx acc.
                     if folded \<and> rank = root then recv_bytes P acc off nb (int root - 1) (\<lambda>acc' _. up newroot ps pl acc')
                     else if folded \<and> rank = root - 1 then send_bytes P (slice acc off nb) (int root) 0 (k acc)
                     else case newrank of None \<Rightarrow> k acc | Some r \<Rightarrow> up r send_idx last_idx acc);
          halve = (\<lambda>newrank acc tmp. halving_loop P red ext pof2 (realOf_even rem) newrank cnts disps 0 0 0 pof2 acc tmp ab
                     (\<lambda>acc' _ send_idx last_idx. go_up (Some newrank) send_idx last_idx acc'))
      in if rank < 2 * rem
         then if odd rank then send_bytes P (take n acc) (int rank - 1) 0 (go_up None 0 pof2 acc)
              else recv_bytes P tmp 0 n (int (rank + 1)) (\<lambda>tmp' _.
                     case red tmp' acc cnt of None \<Rightarrow> ab | Some acc' \<Rightarrow> halve (rank div 2) acc' tmp')
         else halve (rank - rem) acc tmp)"

text \<open>
  \<^verbatim>\<open>MPI_Reduce\<close>; the receive buffer is \<open>None\<close> for a null pointer, and is used at the root only. \<open>accv\<close> is the scratch buffer of the running
  result elsewhere.
\<close>

definition MPI_Reduce ::
  "float_arith \<Rightarrow> nat \<Rightarrow> nat \<Rightarrow> SendArg \<Rightarrow> byte list option \<Rightarrow> nat \<Rightarrow> u32 \<Rightarrow> u32 \<Rightarrow> nat \<Rightarrow> byte list \<Rightarrow> byte list \<Rightarrow> 'a rank_proc
     \<Rightarrow> (byte list option \<Rightarrow> 'a rank_proc) \<Rightarrow> 'a rank_proc" where
  "MPI_Reduce fa P rank sendbuf recvbuf cnt dt op root accv tmp ab k =
     (case dtype_size dt of None \<Rightarrow> ab
      | Some ext \<Rightarrow>
         (let n = cnt * ext; isRoot = (rank = root)
          in if P \<le> 1
             then (case (sendbuf, recvbuf) of (Buf s, Some r) \<Rightarrow> k (Some (memcpy_at r 0 (take n s))) | _ \<Rightarrow> k recvbuf)
             else let acc0 = (if isRoot then (case recvbuf of Some r \<Rightarrow> r | None \<Rightarrow> accv) else accv);
                      red = (\<lambda>inb io m. reduce_local fa inb io m dt op);
                      fin = (\<lambda>acc. k (if isRoot \<and> recvbuf \<noteq> None then Some acc else recvbuf));
                      go = (\<lambda>acc. if kReduceShort < n \<and> pof2_floor P \<le> cnt
                                  then reduce_scatter_gather P rank red cnt ext root acc tmp ab fin
                                  else reduce_binomial P rank red cnt ext root acc tmp ab fin)
                  in (case sendbuf of
                        Buf s \<Rightarrow> go (memcpy_at acc0 0 (take n s))
                      | Null_Buf \<Rightarrow> go acc0
                      | In_Place \<Rightarrow> if isRoot then go acc0 else ab)))"

section \<open>The binomial reduction\<close>

text \<open>The result of a subtree, over values in the order of the relative ranks.\<close>

definition sub_total :: "nat \<Rightarrow> bool \<Rightarrow> RedOp \<Rightarrow> (nat \<Rightarrow> 'w::len word list) \<Rightarrow> nat \<Rightarrow> byte list" where
  "sub_total P sg ro v n = encode (rl.total sg ro v {n..<n + sub_size P n})"

lemma solo_red_loop:
  fixes v :: "nat \<Rightarrow> 'w::len word list"
  assumes P: "1 < P" and root: "root < P" and i: "i < P" and nd: "nd = rel_rank P root i"
    and red: "reduces red cnt (red_int sg ro :: 'w word \<Rightarrow> _)" and len: "\<And>j. j < P \<Longrightarrow> length (v j) = cnt"
    and n: "n = cnt * elem_size TYPE('w)" "n \<le> MAX_MESSAGE"
    and t: "t \<le> low_bit P nd 0" and tmp: "length tmp = n"
  shows "solo (red_tree_loop P nd root red cnt n t (encode (rl.total sg ro v {nd..<nd + min (2 ^ t) (P - nd)})) tmp ab k)
     (\<lambda>s. if s < P \<and> (\<exists>u. t \<le> u \<and> u < low_bit P nd 0 \<and> rel_rank P root s = nd + 2 ^ u) then chunks 0 (sub_total P sg ro v (rel_rank P root s)) else [])
     (if nd = 0 then (\<lambda>_. []) else only (abs_rank P root (tree_parent P nd)) (chunks 0 (sub_total P sg ro v nd)))
     (k (sub_total P sg ro v nd))"
  using t tmp
proof (induction "low_bit P nd 0 - t" arbitrary: t tmp)
  case 0
  let ?L = "low_bit P nd 0"
  have nP: "nd < P" using nd P by simp
  have tL: "t = ?L" using 0 by simp
  have held: "min (2 ^ ?L) (P - nd) = sub_size P nd" using sub_size_held [OF nP] by simp
  have T: "encode (rl.total sg ro v {nd..<nd + sub_size P nd}) = sub_total P sg ro v nd" by (simp add: sub_total_def)
  have Tlen: "length (sub_total P sg ro v nd) = n"
  proof -
    have "0 < sub_size P nd" using nP by (simp add: sub_size_held)
    then have "length (rl.total sg ro v {nd..<nd + sub_size P nd}) = cnt"
      using len sub_size_le [OF nP] by (intro total_length) auto
    then show ?thesis using n by (simp add: sub_total_def)
  qed
  have none: "(\<lambda>s. if s < P \<and> (\<exists>u. ?L \<le> u \<and> u < ?L \<and> rel_rank P root s = nd + 2 ^ u) then chunks 0 (sub_total P sg ro v (rel_rank P root s)) else []) = (\<lambda>_. [])"
    by (intro ext) auto
  show ?case
  proof (cases "nd = 0")
    case True
    then have "\<not> 2 ^ ?L < P" using low_bit_0 [of P] by simp
    then have "red_tree_loop P nd root red cnt n ?L (sub_total P sg ro v nd) tmp ab k = k (sub_total P sg ro v nd)" by (subst red_tree_loop.simps) simp
    then show ?thesis unfolding tL held none T using True by (simp add: solo.idle)
  next
    case False
    then have L: "2 ^ ?L \<le> nd" "2 ^ ?L < P" "bit nd ?L" using low_bit_pos [OF _ nP] by auto
    have "(nd - 2 ^ ?L + root) mod P = abs_rank P root (tree_parent P nd)" by (simp add: abs_rank_def tree_parent_def)
    then have "red_tree_loop P nd root red cnt n ?L (sub_total P sg ro v nd) tmp ab k =
        send_bytes P (sub_total P sg ro v nd) (int (abs_rank P root (tree_parent P nd))) 0 (k (sub_total P sg ro v nd))"
      using L Tlen by (simp add: red_tree_loop.simps [of P nd root red cnt n ?L])
    then show ?thesis unfolding tL held none T using False P solo_send_bytes [OF P, of "abs_rank P root (tree_parent P nd)"] by (simp del: only_apply)
  qed
next
  case (Suc m)
  let ?L = "low_bit P nd 0"
  let ?T = "\<lambda>x. encode (rl.total sg ro v {nd..<nd + x})"
  let ?in = "\<lambda>t s. if s < P \<and> (\<exists>u. t \<le> u \<and> u < ?L \<and> rel_rank P root s = nd + 2 ^ u) then chunks 0 (sub_total P sg ro v (rel_rank P root s)) else []"
  let ?out = "if nd = 0 then (\<lambda>_. []) else only (abs_rank P root (tree_parent P nd)) (chunks 0 (sub_total P sg ro v nd))"
  have nP: "nd < P" using nd P by simp
  have t: "t < ?L" using Suc(2) by simp
  note low = low_bit_facts [OF nP t]
  have IH: "solo (red_tree_loop P nd root red cnt n (Suc t) (?T (min (2 ^ Suc t) (P - nd))) tmp' ab k) (?in (Suc t)) ?out (k (sub_total P sg ro v nd))"
    if "length tmp' = n" for tmp' using Suc(1) [of "Suc t" tmp'] Suc(2) t that by simp
  let ?src = "nd + 2 ^ t"
  have src: "nd OR 2 ^ t = ?src" using or_bit low(2) by simp
  show ?case
  proof (cases "?src < P")
    case True
    let ?nb = "sub_size P ?src" and ?s = "abs_rank P root ?src" and ?D = "sub_total P sg ro v ?src"
    have nb: "?nb = min (2 ^ t) (P - ?src)" by (rule sub_size_child [OF nP t True])
    have held: "min (2 ^ t) (P - nd) = 2 ^ t" "min (2 ^ Suc t) (P - nd) = 2 ^ t + ?nb" "0 < ?nb" using True by (auto simp: nb min_def)
    have bounds: "nd + 2 ^ t + ?nb \<le> P" using sub_size_le [OF True] .
    let ?X = "rl.total sg ro v {nd..<nd + 2 ^ t}" and ?Y = "rl.total sg ro v {?src..<?src + ?nb}"
    have lens: "length ?X = cnt" "length ?Y = cnt" using len bounds held(3) by (auto intro!: total_length)
    have D: "?D = encode ?Y" by (simp add: sub_total_def)
    have dlen: "length ?D = n" using lens n D by simp
    have sum: "map2 (red_int sg ro) ?Y ?X = rl.total sg ro v {nd..<nd + (2 ^ t + ?nb)}"
    proof -
      have "{?src..<?src + ?nb} \<union> {nd..<nd + 2 ^ t} = {nd..<nd + (2 ^ t + ?nb)}" by auto
      then show ?thesis using rl.total_union [of "{?src..<?src + ?nb}" "{nd..<nd + 2 ^ t}" sg ro v] held(3) by auto
    qed
    have redD: "red ?D (?T (2 ^ t)) cnt = Some (?T (2 ^ t + ?nb))" unfolding D sum [symmetric] using red lens by (simp add: reduces_def)
    have fill: "memcpy_at tmp 0 (take n ?D) = ?D" using Suc.prems(2) dlen by (simp add: memcpy_at_def)
    let ?k = "\<lambda>tmp' (_ :: nat). case red tmp' (?T (2 ^ t)) cnt of None \<Rightarrow> ab | Some acc' \<Rightarrow> red_tree_loop P nd root red cnt n (Suc t) acc' tmp' ab k"
    have s: "?s < P" "rel_rank P root ?s = ?src" using P rel_abs [OF root True] by auto
    have "0 + n \<le> length tmp" "length ?D \<le> MAX_MESSAGE" using Suc.prems(2) dlen n(2) by simp_all
    from solo_recv_bytes [OF P s(1) this, of ?k 0]
    have "solo (recv_bytes P tmp 0 n (int ?s) ?k) (only ?s (chunks 0 ?D)) (\<lambda>_. []) (red_tree_loop P nd root red cnt n (Suc t) (?T (2 ^ t + ?nb)) ?D ab k)"
      by (simp add: fill redD del: only_apply)
    moreover have "red_tree_loop P nd root red cnt n t (?T (2 ^ t)) tmp ab k = recv_bytes P tmp 0 n (int ?s) ?k"
      using low True by (subst red_tree_loop.simps) (simp only: src Let_def abs_rank_def if_True simp_thms)
    ultimately have first: "solo (red_tree_loop P nd root red cnt n t (?T (2 ^ t)) tmp ab k) (only ?s (chunks 0 ?D)) (\<lambda>_. [])
        (red_tree_loop P nd root red cnt n (Suc t) (?T (2 ^ t + ?nb)) ?D ab k)" by simp
    have ins: "(\<lambda>s. only ?s (chunks 0 ?D) s @ ?in (Suc t) s) = ?in t"
      by (rule children_from [OF root P True t])
    show ?thesis using solo_trans [OF first IH [OF dlen, unfolded held(2)]] unfolding ins held(1) by simp
  next
    case False
    have held: "min (2 ^ Suc t) (P - nd) = min (2 ^ t) (P - nd)" using False by (auto simp: min_def)
    have "red_tree_loop P nd root red cnt n t x y ab k = red_tree_loop P nd root red cnt n (Suc t) x y ab k" for x y
      using low False src by (simp add: red_tree_loop.simps [of P nd root red cnt n t])
    moreover have "?in t = ?in (Suc t)" by (rule children_none [OF P False])
    ultimately show ?thesis using IH [OF Suc.prems(2)] unfolding held by simp
  qed
qed

lemma reduce_run:
  fixes v :: "nat \<Rightarrow> 'w::len word list"
  assumes P: "1 < P" and root: "root < P"
    and red: "reduces red cnt (red_int sg ro :: 'w word \<Rightarrow> _)" and len: "\<And>i. i < P \<Longrightarrow> length (v i) = cnt"
    and n: "n = cnt * elem_size TYPE('w)" "n \<le> MAX_MESSAGE" and tmp: "\<And>i. i < P \<Longrightarrow> length (tmp i) = n"
    and ps: "\<And>i. i < P \<Longrightarrow> ps i = reduce_binomial P i red cnt (elem_size TYPE('w)) root (encode (v i)) (tmp i) (ab i) (k i)"
  shows "\<exists>res. res root = encode (rl.total sg ro v {..<P}) \<and>
    (net_step P)\<^sup>*\<^sup>* (ps, \<lambda>_ _. []) (\<lambda>i. if i < P then k i (res i) else ps i, \<lambda>_ _. [])"
proof -
  let ?n = "rel_rank P root" and ?v = "\<lambda>j. v (abs_rank P root j)"
  let ?res = "\<lambda>i. sub_total P sg ro ?v (?n i)"
  have P0: "0 < P" using P by simp
  have vlen: "length (?v j) = cnt" if "j < P" for j using len P0 by simp
  have run: "(net_step P)\<^sup>*\<^sup>* (ps, \<lambda>_ _. []) (\<lambda>i. if i < P then k i (?res i) else ps i, \<lambda>_ _. [])"
  proof (rule tree_up_run [where ms = "\<lambda>m. chunks 0 (sub_total P sg ro ?v m)", OF root])
    fix i assume i: "i < P"
    have "?n i < P" using P by simp
    then have one: "min (2 ^ 0) (P - ?n i) = 1" by (simp add: min_def Suc_le_eq)
    have own: "rl.total sg ro ?v {?n i..<?n i + 1} = v i" using abs_rel [OF root i] by simp
    have "solo (red_tree_loop P (?n i) root red cnt n 0 (encode (rl.total sg ro ?v {?n i..<?n i + 1})) (tmp i) (ab i) (k i))
       (\<lambda>s. if s < P \<and> (\<exists>u. 0 \<le> u \<and> u < low_bit P (?n i) 0 \<and> ?n s = ?n i + 2 ^ u) then chunks 0 (sub_total P sg ro ?v (?n s)) else [])
       (if ?n i = 0 then (\<lambda>_. []) else only (abs_rank P root (tree_parent P (?n i))) (chunks 0 (sub_total P sg ro ?v (?n i)))) (k i (?res i))"
      by (rule solo_red_loop [where t = 0 and v = ?v, OF P root i HOL.refl red _ n, unfolded one]) (simp_all add: vlen tmp i)
    then show "solo (ps i) (\<lambda>s. if edge P root i s then chunks 0 (sub_total P sg ro ?v (?n s)) else [])
        (\<lambda>d. if edge P root d i then chunks 0 (sub_total P sg ro ?v (?n i)) else []) (k i (?res i))"
      unfolding own edge_children [OF root i] edge_up [OF root i] ps [OF i] reduce_binomial_def n(1) [symmetric] by simp
  qed
  have "?res root = encode (rl.total sg ro v {..<P})"
  proof -
    have "?n root = 0" "sub_size P 0 = P" using rel_root [OF root, of root] root by (simp_all add: sub_size_def)
    then have "?res root = encode (rl.total sg ro ?v {..<P})" by (simp add: sub_total_def lessThan_atLeast0)
    moreover have "inj_on (abs_rank P root) {..<P}"
      by (rule inj_on_inverseI [where g = "rel_rank P root"]) (use rel_abs [OF root] in simp)
    then have "rl.total sg ro ?v {..<P} = rl.total sg ro v (abs_rank P root ` {..<P})"
      unfolding rl.total_def by (simp add: rl.opt.reindex comp_def)
    ultimately show ?thesis by (simp only: abs_all [OF root])
  qed
  then show ?thesis using run by (intro exI [of _ ?res]) (rule conjI)
qed

text \<open>What a rank contributes, and what it ends with.\<close>

definition reduce_part :: "SendArg \<Rightarrow> byte list option \<Rightarrow> byte list" where
  "reduce_part sendbuf recvbuf = (case sendbuf of Buf s \<Rightarrow> s | _ \<Rightarrow> the recvbuf)"

lemma reduce_typed:
  assumes w: "byte_sized TYPE('w::len)" and P: "1 < P" and root: "root < P"
    and red: "\<And>n inb io. reduce_local fa inb io n dt op = Some (red_elems (red_int sg ro :: 'w word \<Rightarrow> _) n inb io)"
    and ext: "dtype_size dt = Some (elem_size TYPE('w))" and n: "n = cnt * elem_size TYPE('w)" "n \<le> MAX_MESSAGE"
    and short: "n \<le> kReduceShort \<or> cnt < pof2_floor P"
    and rv: "\<exists>b. rv root = Some b \<and> length b = n"
    and sb: "\<forall>i<P. (\<exists>s. sb i = Buf s \<and> length s = n) \<or> i = root \<and> sb i = In_Place"
    and scratch: "\<forall>i<P. length (accv i) = n \<and> length (tmp i) = n"
    and ps: "\<forall>i<P. ps i = MPI_Reduce fa P i (sb i) (rv i) cnt dt op root (accv i) (tmp i) (ab i) Ret"
  shows "always_ends P ps (\<lambda>i. if i = root then Some (reduction_of fa cnt dt op P (\<lambda>i. reduce_part (sb i) (rv i))) else rv i)"
proof -
  let ?c = "\<lambda>i. reduce_part (sb i) (rv i)" and ?red = "\<lambda>inb io m. reduce_local fa inb io m dt op"
  let ?v = "\<lambda>i. decode cnt (?c i) :: 'w word list"
  let ?k = "\<lambda>i acc. Ret (if i = root then Some acc else rv i)"
  have clen: "length (?c i) = n" if "i < P" for i using rv sb that by (auto simp: reduce_part_def)
  have v: "encode (?v i) = ?c i" if "i < P" for i using encode_decode [OF w] clen [OF that] n(1) by blast
  have red': "reduces ?red cnt (red_int sg ro :: 'w word \<Rightarrow> _)" using red_elems_encode [OF w] by (simp add: reduces_def red)
  have start: "ps i = reduce_binomial P i ?red cnt (elem_size TYPE('w)) root (encode (?v i)) (tmp i) (ab i) (?k i)" if i: "i < P" for i
  proof -
    have "\<not> (kReduceShort < cnt * elem_size TYPE('w) \<and> pof2_floor P \<le> cnt)" using short n(1) by auto
    moreover have "memcpy_at x 0 (take n s) = s" if "length x = n" "length s = n" for x s :: "byte list" using that by (simp add: memcpy_at_def)
    ultimately show ?thesis using ps rv sb scratch i P ext v [OF i] n(1)
      by (auto simp: MPI_Reduce_def Let_def reduce_part_def cong: if_cong)
  qed
  have tlen: "length (tmp i) = n" if "i < P" for i using scratch that by blast
  have dlen: "length (?v i) = cnt" for i by (simp add: decode_def)
  obtain res where res: "res root = encode (rl.total sg ro ?v {..<P})"
    "(net_step P)\<^sup>*\<^sup>* (ps, \<lambda>_ _. []) (\<lambda>i. if i < P then ?k i (res i) else ps i, \<lambda>_ _. [])"
    using reduce_run [where v = ?v and tmp = tmp and k = ?k, OF P root red' dlen n tlen start] by blast
  have "encode (rl.total sg ro ?v {..<P}) = reduction_of fa cnt dt op P ?c"
  proof -
    have "reduction_of fa cnt dt op P (\<lambda>i. encode (?v i)) = encode (rl.total sg ro ?v {..<P})"
      using fold_encode [OF red', of "P - 1" ?v] P by (simp add: decode_def)
    moreover have "map (\<lambda>i. encode (?v i)) [1..<P] = map ?c [1..<P]" "encode (?v 0) = ?c 0" using v P by simp_all
    then have "reduction_of fa cnt dt op P (\<lambda>i. encode (?v i)) = reduction_of fa cnt dt op P ?c"
      by (simp only: reduction_of_def)
    ultimately show ?thesis by simp
  qed
  then show ?thesis using res(1) by (intro always_endsI [OF res(2)]) simp
qed

text \<open>
  C16: \<^verbatim>\<open>MPI_Reduce\<close> on short vectors of integers. With any number of ranks and any root, for every integer datatype and supported
  operation, in place at the root or not, no execution deadlocks, aborts or runs for ever; the root ends with the contributions of
  all ranks combined in rank order by \<^verbatim>\<open>reduce_local\<close>, and no other receive buffer changes.
\<close>

theorem MPI_Reduce_correct:
  assumes "1 < P" and "root < P" and "red_type dt = Some ty" and "ty \<noteq> RT_F32" and "ty \<noteq> RT_F64" and "red_op op = Some ro"
    and "n = cnt * red_width ty" and "n \<le> MAX_MESSAGE" and "n \<le> kReduceShort \<or> cnt < pof2_floor P"
    and "\<exists>b. rv root = Some b \<and> length b = n"
    and "\<forall>i<P. (\<exists>s. sb i = Buf s \<and> length s = n) \<or> i = root \<and> sb i = In_Place"
    and "\<forall>i<P. length (accv i) = n \<and> length (tmp i) = n"
    and "\<forall>i<P. ps i = MPI_Reduce fa P i (sb i) (rv i) cnt dt op root (accv i) (tmp i) (ab i) Ret"
  shows "always_ends P ps (\<lambda>i. if i = root then Some (reduction_of fa cnt dt op P (\<lambda>i. reduce_part (sb i) (rv i))) else rv i)"
proof -
  have ext: "dtype_size dt = Some (red_width ty)" using assms(3) by (rule red_type_width)
  note typed = reduce_typed [OF _ assms(1,2) _ _ _ assms(8-13)]
  show ?thesis
  proof (cases ty)
    case RT_I8
    then show ?thesis using assms(3,6,7) ext by (intro typed [where 'w = 8 and sg = True and ro = ro]) (simp_all add: reduce_local_def elem_size_def)
  next
    case RT_U8
    then show ?thesis using assms(3,6,7) ext by (intro typed [where 'w = 8 and sg = False and ro = ro]) (simp_all add: reduce_local_def elem_size_def)
  next
    case RT_I16
    then show ?thesis using assms(3,6,7) ext by (intro typed [where 'w = 16 and sg = True and ro = ro]) (simp_all add: reduce_local_def elem_size_def)
  next
    case RT_U16
    then show ?thesis using assms(3,6,7) ext by (intro typed [where 'w = 16 and sg = False and ro = ro]) (simp_all add: reduce_local_def elem_size_def)
  next
    case RT_I32
    then show ?thesis using assms(3,6,7) ext by (intro typed [where 'w = 32 and sg = True and ro = ro]) (simp_all add: reduce_local_def elem_size_def)
  next
    case RT_U32
    then show ?thesis using assms(3,6,7) ext by (intro typed [where 'w = 32 and sg = False and ro = ro]) (simp_all add: reduce_local_def elem_size_def)
  next
    case RT_I64
    then show ?thesis using assms(3,6,7) ext by (intro typed [where 'w = 64 and sg = True and ro = ro]) (simp_all add: reduce_local_def elem_size_def)
  next
    case RT_U64
    then show ?thesis using assms(3,6,7) ext by (intro typed [where 'w = 64 and sg = False and ro = ro]) (simp_all add: reduce_local_def elem_size_def)
  qed (use assms in simp_all)
qed

text \<open>Six ranks sum two 32-bit integers each at rank 4.\<close>

theorem MPI_Reduce_correct_witness:
  "always_ends 6 (\<lambda>i. MPI_Reduce no_floats 6 i (Buf (sample_ints i)) (if i = 4 then Some (replicate 8 0) else None) 2 2 1 4 (replicate 8 5) (replicate 8 9) (Ret None) Ret)
     (\<lambda>i. if i = 4 then Some [15, 0, 0, 0, 176, 4, 0, 0] else None)"
proof -
  let ?rv = "\<lambda>i :: nat. if i = 4 then Some (replicate 8 0) else None :: byte list option"
  have "always_ends 6 (\<lambda>i. MPI_Reduce no_floats 6 i (Buf (sample_ints i)) (?rv i) 2 2 1 4 (replicate 8 5) (replicate 8 9) (Ret None) Ret)
     (\<lambda>i. if i = 4 then Some (reduction_of no_floats 2 2 1 6 (\<lambda>i. reduce_part (Buf (sample_ints i)) (?rv i))) else ?rv i)"
    by (rule MPI_Reduce_correct [where ty = RT_I32 and ro = RO_SUM and n = 8 and accv = "\<lambda>_. replicate 8 5" and tmp = "\<lambda>_. replicate 8 9"
          and rv = ?rv and sb = "\<lambda>i. Buf (sample_ints i)" and ab = "\<lambda>_. Ret None"])
      (simp_all add: red_type_def red_table_def red_op_def MAX_MESSAGE_def MAX_MSG_BYTES_def kReduceShort_def sample_ints_def)
  moreover have "reduction_of no_floats 2 2 1 6 (\<lambda>i. reduce_part (Buf (sample_ints i)) (?rv i)) = [15, 0, 0, 0, 176, 4, 0, 0]"
    by code_simp
  ultimately show ?thesis by (simp cong: if_cong)
qed

end
