(* ===== verification/Mpi_Bcast.thy ===== *)
theory Mpi_Bcast
  imports Mpi_Gather
begin

text \<open>
  \<^verbatim>\<open>MPI_Bcast\<close> of src/parallel_abstraction/pimid_mpi.cpp with its three algorithms: the binomial tree for short messages (\<open>Mpi_Tree\<close>), and for
  long ones a binomial scatter of equal pieces, the last of them short or empty, followed by an allgather of the pieces, by recursive
  doubling or round the ring. As in \<open>Mpi_Tree\<close>, a mask is given by its exponent and \<open>ab\<close> is where a rank goes that aborts.
\<close>

section \<open>The algorithms\<close>

definition kBcastShortMsg :: nat where "kBcastShortMsg = 12288"

definition kBcastLongMsg :: nat where "kBcastLongMsg = 524288"

definition kBcastMinProcs :: nat where "kBcastMinProcs = 8"

text \<open>The second loop of \<^verbatim>\<open>bcast_scatter\<close>, \<^verbatim>\<open>mask\<close> from \<open>2 ^ (t - 1)\<close> down to 1.\<close>

fun scatter_down :: "nat \<Rightarrow> nat \<Rightarrow> nat \<Rightarrow> nat \<Rightarrow> byte list \<Rightarrow> nat \<Rightarrow> nat \<Rightarrow> (nat \<Rightarrow> 'a rank_proc) \<Rightarrow> 'a rank_proc" where
  "scatter_down P rank rel ss b 0 cur k = k cur"
| "scatter_down P rank rel ss b (Suc t) cur k =
     (let keep = ss * 2 ^ t
      in if rel + 2 ^ t < P \<and> keep < cur
         then send_bytes P (slice b ((rel + 2 ^ t) * ss) (cur - keep)) (int ((rank + 2 ^ t) mod P)) 0 (scatter_down P rank rel ss b t keep k)
         else scatter_down P rank rel ss b t cur k)"

definition bcast_scatter :: "nat \<Rightarrow> nat \<Rightarrow> byte list \<Rightarrow> nat \<Rightarrow> nat \<Rightarrow> nat \<Rightarrow> (byte list \<Rightarrow> nat \<Rightarrow> 'a rank_proc) \<Rightarrow> 'a rank_proc" where
  "bcast_scatter P rank buf nbytes ss root k =
     (let rel = rel_rank P root rank; t = low_bit P rel 0; off = rel * ss;
          pass = (\<lambda>b cur. scatter_down P rank rel ss b t cur (k b))
      in if 2 ^ t < P
         then if off < nbytes then recv_bytes P buf off (nbytes - off) (int ((rank + P - 2 ^ t) mod P)) pass else pass buf 0
         else pass buf (if rel = 0 then nbytes else 0))"

text \<open>The doubling rounds of \<^verbatim>\<open>bcast_scatter_rd_allgather\<close>.\<close>

function bcast_rd_loop ::
  "nat \<Rightarrow> nat \<Rightarrow> nat \<Rightarrow> nat \<Rightarrow> nat \<Rightarrow> nat \<Rightarrow> nat \<Rightarrow> byte list \<Rightarrow> (byte list \<Rightarrow> 'a rank_proc) \<Rightarrow> 'a rank_proc" where
  "bcast_rd_loop P rel root nbytes ss t cur b k =
     (if 2 ^ t < P
      then let rdst = rel XOR 2 ^ t; dst = (rdst + root) mod P; soff = clear_low t rel * ss; roff = clear_low t rdst * ss
           in xchg_bytes P (slice b (if soff < nbytes then soff else 0) cur) (int dst)
                b (if roff < nbytes then roff else 0) (if roff < nbytes then nbytes - roff else 0) (int dst)
                (\<lambda>b' got. bcast_rd_loop P rel root nbytes ss (Suc t) (cur + got) b' k)
      else k b)"
  by auto
termination
proof (relation "measure (\<lambda>(P, rel, root, nbytes, ss, t, cur, b, k). P - t)", goal_cases)
  case (2 P rel root nbytes ss t)
  then have "t < P" using less_exp [of t] by linarith
  then show ?case by simp
qed simp

declare bcast_rd_loop.simps [simp del]

definition bcast_scatter_rd_allgather :: "nat \<Rightarrow> nat \<Rightarrow> byte list \<Rightarrow> nat \<Rightarrow> nat \<Rightarrow> (byte list \<Rightarrow> 'a rank_proc) \<Rightarrow> 'a rank_proc" where
  "bcast_scatter_rd_allgather P rank buf nbytes root k =
     (let ss = (nbytes + P - 1) div P
      in bcast_scatter P rank buf nbytes ss root (\<lambda>b cur. bcast_rd_loop P (rel_rank P root rank) root nbytes ss 0 cur b k))"

text \<open>Where the piece of rank \<open>j\<close> is, and its size; the rounds of \<^verbatim>\<open>bcast_scatter_ring_allgather\<close>, \<open>n\<close> left.\<close>

definition piece_count :: "nat \<Rightarrow> nat \<Rightarrow> nat \<Rightarrow> nat \<Rightarrow> nat \<Rightarrow> nat" where
  "piece_count P root nbytes ss j =
     (let rj = rel_rank P root j * ss in if rj < nbytes then if nbytes - rj < ss then nbytes - rj else ss else 0)"

definition piece_start :: "nat \<Rightarrow> nat \<Rightarrow> nat \<Rightarrow> nat \<Rightarrow> nat \<Rightarrow> nat" where
  "piece_start P root nbytes ss j = (if piece_count P root nbytes ss j \<noteq> 0 then rel_rank P root j * ss else 0)"

fun bcast_ring_loop ::
  "nat \<Rightarrow> nat \<Rightarrow> nat \<Rightarrow> nat \<Rightarrow> nat \<Rightarrow> nat \<Rightarrow> nat \<Rightarrow> nat \<Rightarrow> byte list \<Rightarrow> (byte list \<Rightarrow> 'a rank_proc) \<Rightarrow> 'a rank_proc" where
  "bcast_ring_loop P rank root nbytes ss 0 j jnext b k = k b"
| "bcast_ring_loop P rank root nbytes ss (Suc n) j jnext b k =
     xchg_bytes P (slice b (piece_start P root nbytes ss j) (piece_count P root nbytes ss j)) (int ((rank + 1) mod P))
       b (piece_start P root nbytes ss jnext) (piece_count P root nbytes ss jnext) (int (left_of P rank))
       (\<lambda>b' _. bcast_ring_loop P rank root nbytes ss n jnext (left_of P jnext) b' k)"

definition bcast_scatter_ring_allgather :: "nat \<Rightarrow> nat \<Rightarrow> byte list \<Rightarrow> nat \<Rightarrow> nat \<Rightarrow> (byte list \<Rightarrow> 'a rank_proc) \<Rightarrow> 'a rank_proc" where
  "bcast_scatter_ring_allgather P rank buf nbytes root k =
     (let ss = (nbytes + P - 1) div P
      in bcast_scatter P rank buf nbytes ss root (\<lambda>b _. bcast_ring_loop P rank root nbytes ss (P - 1) rank (left_of P rank) b k))"

definition MPI_Bcast :: "nat \<Rightarrow> nat \<Rightarrow> byte list \<Rightarrow> nat \<Rightarrow> u32 \<Rightarrow> nat \<Rightarrow> 'a rank_proc \<Rightarrow> (byte list \<Rightarrow> 'a rank_proc) \<Rightarrow> 'a rank_proc" where
  "MPI_Bcast P rank buf cnt datatype root ab k =
     (if P \<le> 1 then k buf
      else case dtype_size datatype of None \<Rightarrow> ab
           | Some e \<Rightarrow> (let nbytes = cnt * e
                        in if nbytes < kBcastShortMsg \<or> P < kBcastMinProcs then bcast_binomial P rank buf nbytes root k
                           else if nbytes < kBcastLongMsg \<and> is_pof2 P then bcast_scatter_rd_allgather P rank buf nbytes root k
                           else bcast_scatter_ring_allgather P rank buf nbytes root k))"

section \<open>Buffers that hold parts of the message\<close>

definition agrees :: "byte list \<Rightarrow> byte list \<Rightarrow> nat set \<Rightarrow> bool" where
  "agrees b D X \<longleftrightarrow> length b = length D \<and> (\<forall>x\<in>X. b ! x = D ! x)"

lemma agrees_slice:
  assumes "agrees b D {off..<off + m}" and "off + m \<le> length D"
  shows "slice b off m = slice D off m"
  using assms by (intro nth_equalityI) (auto simp: agrees_def slice_length slice_nth)

lemma agrees_memcpy:
  assumes "agrees b D X" and "off + m \<le> length D"
  shows "agrees (memcpy_at b off (slice D off m)) D (X \<inter> {..<length D} \<union> {off..<off + m})"
  using assms by (auto simp: agrees_def slice_length memcpy_at_nth slice_nth)

lemma agrees_all: "agrees b D {..<length D} \<Longrightarrow> b = D"
  by (intro nth_equalityI) (auto simp: agrees_def)

lemma agrees_mono: "agrees b D X \<Longrightarrow> Y \<subseteq> X \<Longrightarrow> agrees b D Y"
  by (auto simp: agrees_def)

section \<open>The scatter\<close>

text \<open>What a rank has of the message once the ranks up to \<open>2 ^ t\<close> further are served; what is sent to a relative rank.\<close>

definition kept :: "nat \<Rightarrow> nat \<Rightarrow> nat \<Rightarrow> nat \<Rightarrow> nat" where
  "kept n ss r t = min n ((r + 2 ^ t) * ss) - r * ss"

definition part_msg :: "nat \<Rightarrow> nat \<Rightarrow> byte list \<Rightarrow> nat \<Rightarrow> Chunk list" where
  "part_msg P ss D c = (if c * ss < length D then chunks 0 (slice D (c * ss) (kept (length D) ss c (low_bit P c 0))) else [])"

lemma children_below:
  assumes root: "root < P" and P: "1 < P" and lt: "n + 2 ^ t < P"
  shows "(\<lambda>d. only (abs_rank P root (n + 2 ^ t)) (f (n + 2 ^ t)) d
       @ (if d < P \<and> (\<exists>u<t. rel_rank P root d = n + 2 ^ u) then f (rel_rank P root d) else []))
    = (\<lambda>d. if d < P \<and> (\<exists>u<Suc t. rel_rank P root d = n + 2 ^ u) then f (rel_rank P root d) else [])"
proof
  fix d
  let ?d = "abs_rank P root (n + 2 ^ t)"
  have r: "?d < P" "rel_rank P root ?d = n + 2 ^ t" using P rel_abs [OF root lt] by auto
  have new: "d < P \<and> rel_rank P root d = n + 2 ^ t \<longleftrightarrow> d = ?d" using abs_rel [OF root, of d] r by metis
  have old: "\<not> (\<exists>u<t. rel_rank P root ?d = n + 2 ^ u)" unfolding r(2) by auto
  have "(d < P \<and> (\<exists>u<Suc t. rel_rank P root d = n + 2 ^ u)) = (d = ?d \<or> d < P \<and> (\<exists>u<t. rel_rank P root d = n + 2 ^ u))"
    unfolding new [symmetric] less_Suc_eq by blast
  then show "only ?d (f (n + 2 ^ t)) d @ (if d < P \<and> (\<exists>u<t. rel_rank P root d = n + 2 ^ u) then f (rel_rank P root d) else [])
    = (if d < P \<and> (\<exists>u<Suc t. rel_rank P root d = n + 2 ^ u) then f (rel_rank P root d) else [])"
    using old r(2) by (cases "d = ?d") (simp_all only: only_apply if_True if_False simp_thms append_Nil append_Nil2)
qed

lemma low_bit_child: "n < P \<Longrightarrow> u < low_bit P n 0 \<Longrightarrow> low_bit P (n + 2 ^ u) 0 = u"
proof -
  assume n: "n < P" "u < low_bit P n 0"
  obtain c where c: "n = 2 ^ Suc u * c" using low_bit_facts(3) [OF n] by auto
  then have "n + 2 ^ u = 2 ^ u * (2 * c + 1)" by (simp add: algebra_simps)
  then have "2 ^ u dvd n + 2 ^ u" "bit (n + 2 ^ u) u" by (simp_all add: bit_iff_odd)
  then show ?thesis using low_bit_unique low_bit_facts(1) [OF n] by blast
qed

lemma kept_step:
  assumes ss: "0 < ss"
  shows "ss * 2 ^ t < kept n ss r (Suc t) \<longleftrightarrow> (r + 2 ^ t) * ss < n"
    and "(r + 2 ^ t) * ss < n \<Longrightarrow> kept n ss r (Suc t) - ss * 2 ^ t = kept n ss (r + 2 ^ t) t \<and> kept n ss r t = ss * 2 ^ t"
    and "\<not> (r + 2 ^ t) * ss < n \<Longrightarrow> kept n ss r (Suc t) = kept n ss r t"
proof -
  define A B where "A = r * ss" and "B = 2 ^ t * ss"
  have B: "0 < B" "ss * 2 ^ t = B" "(r + 2 ^ t) * ss = A + B" "(r + 2 ^ Suc t) * ss = A + 2 * B" "r * ss = A" "(r + 2 ^ t + 2 ^ t) * ss = A + 2 * B"
    using ss by (simp_all add: A_def B_def algebra_simps)
  show "ss * 2 ^ t < kept n ss r (Suc t) \<longleftrightarrow> (r + 2 ^ t) * ss < n"
    "(r + 2 ^ t) * ss < n \<Longrightarrow> kept n ss r (Suc t) - ss * 2 ^ t = kept n ss (r + 2 ^ t) t \<and> kept n ss r t = ss * 2 ^ t"
    "\<not> (r + 2 ^ t) * ss < n \<Longrightarrow> kept n ss r (Suc t) = kept n ss r t"
    unfolding kept_def B(2-) using B(1) by (auto simp: min_def)
qed

lemma solo_scatter_down:
  assumes P: "1 < P" and root: "root < P" and i: "i < P" and r: "r = rel_rank P root i" and ss: "0 < ss" "n \<le> P * ss" and n: "n = length D"
    and b: "agrees b D {r * ss..<min n ((r + 2 ^ low_bit P r 0) * ss)}" and t: "t \<le> low_bit P r 0"
  shows "solo (scatter_down P i r ss b t (kept n ss r t) k) (\<lambda>_. [])
     (\<lambda>d. if d < P \<and> (\<exists>u<t. rel_rank P root d = r + 2 ^ u) then part_msg P ss D (rel_rank P root d) else []) (k (kept n ss r 0))"
  using t
proof (induction t)
  case 0
  show ?case by (simp add: solo.idle)
next
  case (Suc t)
  let ?out = "\<lambda>t d. if d < P \<and> (\<exists>u<t. rel_rank P root d = r + 2 ^ u) then part_msg P ss D (rel_rank P root d) else []"
  let ?c = "r + 2 ^ t"
  have rP: "r < P" using r P by simp
  have IH: "solo (scatter_down P i r ss b t (kept n ss r t) k) (\<lambda>_. []) (?out t) (k (kept n ss r 0))" using Suc by simp
  have low: "low_bit P ?c 0 = t" using low_bit_child [OF rP] Suc.prems by simp
  note step = kept_step [OF ss(1), where t = t and n = n and r = r]
  show ?case
  proof (cases "?c < P \<and> ?c * ss < n")
    case True
    let ?d = "(i + 2 ^ t) mod P" and ?m = "slice D (?c * ss) (kept n ss ?c t)"
    have d: "?d = abs_rank P root ?c" using rank_plus [OF root i, of "2 ^ t"] True r by simp
    then have dP: "?d < P" using P by (simp only: d) simp
    have pow: "?c + 2 ^ t \<le> r + 2 ^ low_bit P r 0" using power_increasing [OF Suc.prems, of "2 :: nat"] by simp
    then have "(?c + 2 ^ t) * ss \<le> (r + 2 ^ low_bit P r 0) * ss" by (rule mult_le_mono1)
    moreover have "?c * ss < (?c + 2 ^ t) * ss" using ss(1) by simp
    ultimately have hi: "?c * ss + kept n ss ?c t \<le> min n ((r + 2 ^ low_bit P r 0) * ss)" using True unfolding kept_def by linarith
    have lo: "r * ss \<le> ?c * ss" by (rule mult_le_mono1) simp
    have "slice b (?c * ss) (kept n ss ?c t) = ?m" using hi lo n by (intro agrees_slice agrees_mono [OF b]) auto
    then have loop: "scatter_down P i r ss b (Suc t) (kept n ss r (Suc t)) k = send_bytes P ?m (int ?d) 0 (scatter_down P i r ss b t (kept n ss r t) k)"
      using True step by (simp add: Let_def)
    have msg: "part_msg P ss D ?c = chunks 0 ?m" using True low n by (simp add: part_msg_def)
    have "solo (scatter_down P i r ss b (Suc t) (kept n ss r (Suc t)) k) (\<lambda>_. []) (only (abs_rank P root ?c) (part_msg P ss D ?c))
        (scatter_down P i r ss b t (kept n ss r t) k)" unfolding loop msg d [symmetric] by (rule solo_send_bytes [OF P dP])
    from solo_trans [OF this IH] show ?thesis
      using children_below [OF root P conjunct1 [OF True], of "part_msg P ss D"] by (simp only: append_Nil)
  next
    case False
    have past: "\<not> ?c * ss < n"
    proof
      assume lt: "?c * ss < n"
      with False have "P \<le> ?c" by auto
      then have "P * ss \<le> ?c * ss" by (rule mult_le_mono1)
      with lt ss(2) show False by linarith
    qed
    have "?out (Suc t) = ?out t"
    proof
      fix d
      have "part_msg P ss D ?c = []" using past n by (simp add: part_msg_def)
      then show "?out (Suc t) d = ?out t d" by (auto simp: less_Suc_eq)
    qed
    moreover have "scatter_down P i r ss b (Suc t) (kept n ss r (Suc t)) k = scatter_down P i r ss b t (kept n ss r t) k"
      using past step by (simp add: Let_def)
    ultimately show ?thesis using IH by (simp only:)
  qed
qed

text \<open>The buffer of a rank after the scatter: its parent has sent it the bytes of its subtree.\<close>

definition scattered :: "nat \<Rightarrow> nat \<Rightarrow> byte list \<Rightarrow> nat \<Rightarrow> byte list \<Rightarrow> byte list" where
  "scattered P ss D r b =
     (if r = 0 \<or> \<not> r * ss < length D then b else memcpy_at b (r * ss) (slice D (r * ss) (kept (length D) ss r (low_bit P r 0))))"

lemma scattered_agrees:
  assumes "length b = length D" and "r = 0 \<Longrightarrow> b = D"
  shows "agrees (scattered P ss D r b) D {r * ss..<min (length D) ((r + 2 ^ low_bit P r 0) * ss)}"
proof (cases "r = 0 \<or> \<not> r * ss < length D")
  case True
  then show ?thesis using assms by (auto simp: scattered_def agrees_def)
next
  case False
  let ?m = "kept (length D) ss r (low_bit P r 0)"
  have "agrees (memcpy_at b (r * ss) (slice D (r * ss) ?m)) D ({} \<inter> {..<length D} \<union> {r * ss..<r * ss + ?m})"
    using False assms by (intro agrees_memcpy) (auto simp: agrees_def kept_def)
  then show ?thesis using False by (auto simp: scattered_def kept_def elim!: agrees_mono)
qed

lemma solo_bcast_scatter:
  assumes P: "1 < P" and root: "root < P" and i: "i < P" and ss: "0 < ss" "n \<le> P * ss" and n: "n = length D" "n \<le> MAX_MESSAGE"
    and b: "length b = n" "i = root \<Longrightarrow> b = D"
  shows "solo (bcast_scatter P i b n ss root k)
     (\<lambda>s. if edge P root s i then part_msg P ss D (rel_rank P root i) else [])
     (\<lambda>d. if edge P root i d then part_msg P ss D (rel_rank P root d) else [])
     (k (scattered P ss D (rel_rank P root i) b) (kept n ss (rel_rank P root i) 0))"
proof -
  let ?r = "rel_rank P root i" and ?t = "low_bit P (rel_rank P root i) 0"
  let ?b = "scattered P ss D ?r b" and ?p = "abs_rank P root (tree_parent P (rel_rank P root i))"
  let ?pass = "\<lambda>b cur. scatter_down P i ?r ss b ?t cur (k b)"
  have rP: "?r < P" using P by simp
  have r0: "?r = 0 \<longleftrightarrow> i = root" using rel_root [OF root, of i] i by auto
  have ag: "agrees ?b D {?r * ss..<min n ((?r + 2 ^ ?t) * ss)}" using scattered_agrees [of b D ?r P ss] b n r0 by simp
  have down: "solo (?pass ?b (kept n ss ?r ?t)) (\<lambda>_. []) (\<lambda>d. if edge P root i d then part_msg P ss D (rel_rank P root d) else []) (k ?b (kept n ss ?r 0))"
    using solo_scatter_down [where t = ?t and k = "k ?b", OF P root i HOL.refl ss n(1) ag] unfolding edge_children [OF root i] by simp
  show ?thesis
  proof (cases "i = root")
    case True
    then have r: "?r = 0" using r0 by simp
    have big: "P \<le> 2 ^ ?t" using low_bit_0 [of P] r by simp
    then have "P * ss \<le> 2 ^ ?t * ss" by (rule mult_le_mono1)
    then have "n \<le> (?r + 2 ^ ?t) * ss" using ss(2) unfolding r add_0 by linarith
    then have "kept n ss ?r ?t = n" using r by (simp only: kept_def min_absorb1)
    moreover have "?b = b" using r by (simp add: scattered_def)
    moreover have "bcast_scatter P i b n ss root k = ?pass b n" using big r by (simp add: bcast_scatter_def Let_def)
    moreover have "(\<lambda>s. if edge P root s i then part_msg P ss D ?r else []) = (\<lambda>_. [])" using True by (simp add: edge_def)
    ultimately show ?thesis using down by simp
  next
    case False
    then have pos: "0 < ?r" using r0 by simp
    have t: "2 ^ ?t \<le> ?r" "2 ^ ?t < P" using low_bit_pos [OF pos rP] by auto
    have src: "(i + P - 2 ^ ?t) mod P = ?p" using rank_minus [OF root i t(1)] by (simp add: tree_parent_def)
    have ins: "(\<lambda>s. if edge P root s i then part_msg P ss D ?r else []) = only ?p (part_msg P ss D ?r)"
      using edge_up [OF root i] pos by simp
    show ?thesis
    proof (cases "?r * ss < n")
      case True
      let ?m = "kept n ss ?r ?t"
      have m: "?r * ss + ?m \<le> n" "?m \<le> n - ?r * ss" using True by (auto simp: kept_def)
      have len: "length (slice D (?r * ss) ?m) = ?m" using m n by (simp add: slice_length)
      have "solo (recv_bytes P b (?r * ss) (n - ?r * ss) (int ?p) ?pass) (only ?p (chunks 0 (slice D (?r * ss) ?m))) (\<lambda>_. []) (?pass ?b ?m)"
        using solo_recv_bytes [OF P, of ?p "?r * ss" "n - ?r * ss" b "slice D (?r * ss) ?m" ?pass 0] P True b(1) n m len pos
        by (simp add: scattered_def min_absorb2 del: only_apply)
      moreover have "bcast_scatter P i b n ss root k = recv_bytes P b (?r * ss) (n - ?r * ss) (int ?p) ?pass"
        using t True src by (simp add: bcast_scatter_def Let_def)
      moreover have "part_msg P ss D ?r = chunks 0 (slice D (?r * ss) ?m)" using True n by (simp add: part_msg_def)
      ultimately have "solo (bcast_scatter P i b n ss root k) (only ?p (part_msg P ss D ?r)) (\<lambda>_. []) (?pass ?b ?m)" by (simp only:)
      from solo_trans [OF this down] show ?thesis unfolding ins by (simp only: append_Nil append_Nil2)
    next
      case False
      have "kept n ss ?r ?t = 0" "?b = b" "part_msg P ss D ?r = []" using False n by (auto simp: kept_def scattered_def part_msg_def)
      moreover have "bcast_scatter P i b n ss root k = ?pass b 0" using t False by (simp add: bcast_scatter_def Let_def)
      ultimately show ?thesis unfolding ins using down by (simp add: only_def)
    qed
  qed
qed

lemma bcast_scatter_run:
  assumes P: "1 < P" and root: "root < P" and ss: "0 < ss" "n \<le> P * ss" and n: "n = length D" "n \<le> MAX_MESSAGE"
    and b: "\<And>i. i < P \<Longrightarrow> length (buf i) = n" "buf root = D"
    and ps: "\<And>i. i < P \<Longrightarrow> ps i = bcast_scatter P i (buf i) n ss root (k i)"
  shows "(net_step P)\<^sup>*\<^sup>* (ps, \<lambda>_ _. [])
    (\<lambda>i. if i < P then k i (scattered P ss D (rel_rank P root i) (buf i)) (kept n ss (rel_rank P root i) 0) else ps i, \<lambda>_ _. [])"
proof (rule tree_down_run [where ms = "part_msg P ss D", OF root])
  fix i assume i: "i < P"
  have "i = root \<Longrightarrow> buf i = D" using b(2) by simp
  then show "solo (ps i) (\<lambda>s. if edge P root s i then part_msg P ss D (rel_rank P root i) else [])
     (\<lambda>d. if edge P root i d then part_msg P ss D (rel_rank P root d) else [])
     (k i (scattered P ss D (rel_rank P root i) (buf i)) (kept n ss (rel_rank P root i) 0))"
    unfolding ps [OF i] by (rule solo_bcast_scatter [OF P root i ss n b(1) [OF i]])
qed


section \<open>Recursive doubling\<close>

text \<open>The bytes of the pieces a relative rank has after \<open>t\<close> rounds.\<close>

definition span :: "nat \<Rightarrow> nat \<Rightarrow> nat \<Rightarrow> nat \<Rightarrow> nat set" where
  "span n ss t r = {x. x < n \<and> x div ss div 2 ^ t = r div 2 ^ t}"

lemma span_interval:
  assumes "0 < ss"
  shows "span n ss t r = {clear_low t r * ss..<min n ((clear_low t r + 2 ^ t) * ss)}"
proof -
  have "x div ss div 2 ^ t = r div 2 ^ t \<longleftrightarrow> clear_low t r * ss \<le> x \<and> x < (clear_low t r + 2 ^ t) * ss" for x
    using clear_low_block [of "x div ss" t r] less_eq_div_iff_mult_less_eq [OF assms, of "clear_low t r" x]
      div_less_iff_less_mult [OF assms, of x "clear_low t r + 2 ^ t"] by simp
  then show ?thesis unfolding span_def by (intro set_eqI) (simp only: mem_Collect_eq atLeastLessThan_iff min_less_iff_conj conj_ac)
qed

lemma span_Suc: "span n ss (Suc t) r = span n ss t r \<union> span n ss t (r XOR 2 ^ t)"
  by (auto simp: span_def coset_split simp del: power_Suc)

lemma span_disjoint: "span n ss t r \<inter> span n ss t (r XOR 2 ^ t) = {}"
  using coset_other [of r t] by (auto simp: span_def)

definition span_len :: "nat \<Rightarrow> nat \<Rightarrow> nat \<Rightarrow> nat \<Rightarrow> nat" where
  "span_len n ss t r = card (span n ss t r)"

lemma span_len_Suc: "span_len n ss (Suc t) r = span_len n ss t r + span_len n ss t (r XOR 2 ^ t)"
  unfolding span_len_def span_Suc by (rule card_Un_disjoint) (use span_disjoint in \<open>simp_all add: span_def\<close>)

text \<open>Where the code puts an offset past the end, there are no bytes.\<close>

definition span_off :: "nat \<Rightarrow> nat \<Rightarrow> nat \<Rightarrow> nat \<Rightarrow> nat" where
  "span_off n ss t r = (if clear_low t r * ss < n then clear_low t r * ss else 0)"

lemma span_run:
  assumes "0 < ss"
  shows "span n ss t r = {span_off n ss t r..<span_off n ss t r + span_len n ss t r}" and "span_off n ss t r + span_len n ss t r \<le> n"
    and "span_len n ss t r \<le> (if clear_low t r * ss < n then n - clear_low t r * ss else 0)"
proof -
  define a e where "a = clear_low t r * ss" and "e = (clear_low t r + 2 ^ t) * ss"
  have span: "span n ss t r = {a..<min n e}" using span_interval [OF assms, of n t r] by (simp only: a_def e_def)
  have off: "span_off n ss t r = (if a < n then a else 0)" by (simp add: span_off_def a_def)
  have len: "span_len n ss t r = min n e - a" by (simp add: span_len_def span)
  have "a \<le> e" unfolding a_def e_def by (rule mult_le_mono1) simp
  then show "span n ss t r = {span_off n ss t r..<span_off n ss t r + span_len n ss t r}" unfolding span off len by auto
  show "span_off n ss t r + span_len n ss t r \<le> n" unfolding off len by auto
  show "span_len n ss t r \<le> (if clear_low t r * ss < n then n - clear_low t r * ss else 0)" unfolding len a_def [symmetric] by auto
qed

text \<open>The buffers after \<open>t\<close> rounds.\<close>

fun doubled :: "nat \<Rightarrow> byte list \<Rightarrow> byte list \<Rightarrow> nat \<Rightarrow> nat \<Rightarrow> byte list" where
  "doubled ss D b r 0 = b"
| "doubled ss D b r (Suc t) =
     (let r' = r XOR 2 ^ t; off = span_off (length D) ss t r'
      in memcpy_at (doubled ss D b r t) off (slice D off (span_len (length D) ss t r')))"

lemma doubled_agrees:
  assumes ss: "0 < ss" and b: "agrees b D (span (length D) ss 0 r)"
  shows "agrees (doubled ss D b r t) D (span (length D) ss t r)"
proof (induction t)
  case (Suc t)
  let ?r = "r XOR 2 ^ t" and ?n = "length D"
  from agrees_memcpy [OF Suc span_run(2) [OF ss, of ?n t ?r]]
  have "agrees (doubled ss D b r (Suc t)) D (span ?n ss t r \<inter> {..<?n} \<union> span ?n ss t ?r)"
    by (simp add: Let_def span_run(1) [OF ss, of ?n t ?r, symmetric])
  then show ?case unfolding span_Suc by (rule agrees_mono) (auto simp: span_def)
qed (use b in simp)

lemma bcast_rd_run:
  assumes P: "1 < P" "P = 2 ^ L" and root: "root < P" and ss: "0 < ss" "n \<le> P * ss" and n: "n = length D" "n \<le> MAX_MESSAGE"
    and b: "\<And>i. i < P \<Longrightarrow> agrees (b i) D (span n ss 0 (rel_rank P root i))"
  shows "(net_step P)\<^sup>*\<^sup>*
    (\<lambda>i. if i < P then bcast_rd_loop P (rel_rank P root i) root n ss 0 (span_len n ss 0 (rel_rank P root i)) (b i) (k i) else z i, \<lambda>_ _. [])
    (\<lambda>i. if i < P then k i D else z i, \<lambda>_ _. [])"
proof -
  let ?r = "rel_rank P root" and ?o = "span_off n ss" and ?l = "span_len n ss"
  let ?w = "\<lambda>t i. doubled ss D (b i) (?r i) t"
  let ?S = "\<lambda>t i. if i \<in> {..<P} then bcast_rd_loop P (?r i) root n ss t (?l t (?r i)) (?w t i) (k i) else z i"
  have rP: "?r i < P" for i using P by simp
  have ag: "agrees (?w t i) D (span n ss t (?r i))" if "i < P" for t i
    using doubled_agrees [OF ss(1)] b [OF that] n(1) by simp
  have step: "(net_step P)\<^sup>*\<^sup>* (?S t, \<lambda>_ _. []) (?S (Suc t), \<lambda>_ _. [])" if t: "t < L" for t
  proof -
    let ?p = "\<lambda>i. ?r i XOR 2 ^ t" and ?sd = "\<lambda>i. slice D (?o t (?r i)) (?l t (?r i))"
    let ?dst = "\<lambda>i. abs_rank P root (?p i)"
    let ?nb = "\<lambda>i. if clear_low t (?p i) * ss < n then n - clear_low t (?p i) * ss else 0"
    let ?k = "\<lambda>i b' got. bcast_rd_loop P (?r i) root n ss (Suc t) (?l t (?r i) + got) b' (k i)"
    have pP: "?p i < P" for i using xor_less [of "?r i" L t] rP [of i] P t by simp
    have dst: "?dst i < P" "?r (?dst i) = ?p i" for i using rel_abs [OF root pP] P by simp_all
    have twice: "?dst (?dst i) = i" if "i < P" for i using dst(2) [of i] xor_twice [of "?r i" t] abs_rel [OF root that] by simp
    have slen: "length (?sd i) = ?l t (?r i)" for i using span_run(2) [OF ss(1)] n by (simp add: slice_length)
    have run: "(net_step P)\<^sup>*\<^sup>*
       (\<lambda>i. if i \<in> {..<P} then xchg_bytes P (?sd i) (int (?dst i)) (?w t i) (?o t (?p i)) (?nb i) (int (?dst i)) (?k i) else z i, \<lambda>_ _. [])
       (\<lambda>i. if i \<in> {..<P} then ?k i (memcpy_at (?w t i) (?o t (?p i)) (take (?nb i) (?sd (?dst i)))) (min (?nb i) (length (?sd (?dst i)))) else z i, \<lambda>_ _. [])"
    proof (rule xchg_all [OF P(1)])
      show "i < P \<and> ?dst i \<in> {..<P} \<and> ?dst i \<in> {..<P} \<and> ?dst (?dst i) = i \<and> ?dst (?dst i) = i" if "i \<in> {..<P}" for i
        using that dst(1) twice by simp
      show "?o t (?p i) + ?nb i \<le> length (?w t i)" if "i \<in> {..<P}" for i
        using that ag [of i t] n(1) by (auto simp: agrees_def span_off_def)
      show "length (?sd i) \<le> MAX_MESSAGE" if "i \<in> {..<P}" for i
        using slen [of i] span_run(2) [OF ss(1), of n t "?r i"] n(2) by linarith
    qed simp
    have start: "(if i \<in> {..<P} then xchg_bytes P (?sd i) (int (?dst i)) (?w t i) (?o t (?p i)) (?nb i) (int (?dst i)) (?k i) else z i) = ?S t i" for i
    proof (cases "i < P")
      case True
      have "slice (?w t i) (?o t (?r i)) (?l t (?r i)) = ?sd i"
        using agrees_slice [of "?w t i" D "?o t (?r i)" "?l t (?r i)"] ag [OF True, of t] span_run(1,2) [OF ss(1), of n t "?r i"] n(1) by simp
      moreover have "2 ^ t < P" using P t by simp
      ultimately show ?thesis using True by (simp add: bcast_rd_loop.simps [of P "?r i" root n ss t] Let_def span_off_def abs_rank_def)
    qed simp
    have stop: "(if i \<in> {..<P} then ?k i (memcpy_at (?w t i) (?o t (?p i)) (take (?nb i) (?sd (?dst i)))) (min (?nb i) (length (?sd (?dst i)))) else z i) = ?S (Suc t) i" for i
    proof (cases "i < P")
      case True
      have "?l t (?p i) \<le> ?nb i" by (rule span_run(3) [OF ss(1)])
      then have "take (?nb i) (?sd (?dst i)) = ?sd (?dst i)" "min (?nb i) (length (?sd (?dst i))) = ?l t (?p i)"
        using slen [of "?dst i"] dst(2) [of i] by (simp_all add: min_absorb2)
      then show ?thesis using True dst(2) [of i] n(1) by (simp add: span_len_Suc Let_def)
    qed simp
    show ?thesis using run unfolding start stop .
  qed
  have upto: "t \<le> L \<Longrightarrow> (net_step P)\<^sup>*\<^sup>* (?S 0, \<lambda>_ _. []) (?S t, \<lambda>_ _. [])" for t
  proof (induction t)
    case (Suc t)
    then show ?case using step [of t] by (auto intro: rtranclp_trans)
  qed simp
  have stop: "?S L i = (if i < P then k i D else z i)" for i
  proof (cases "i < P")
    case True
    have "x div ss < P" if "x < n" for x using that ss div_less_iff_less_mult [OF ss(1), of x P] by linarith
    then have "span n ss L (?r i) = {..<n}" using rP [of i] P(2) by (auto simp: span_def)
    then have "?w L i = D" using ag [OF True, of L] n(1) by (intro agrees_all) simp
    moreover have "\<not> 2 ^ L < P" using P(2) by simp
    ultimately show ?thesis using True by (simp add: bcast_rd_loop.simps [of P "?r i" root n ss L])
  qed simp
  have "?S L = (\<lambda>i. if i < P then k i D else z i)" by (intro ext) (rule stop)
  then show ?thesis using upto [of L] by (simp only: order_refl lessThan_iff doubled.simps simp_thms)
qed


section \<open>The ring\<close>

lemma piece_span:
  assumes "0 < ss"
  shows "piece_count P root n ss j = span_len n ss 0 (rel_rank P root j)" and "piece_start P root n ss j = span_off n ss 0 (rel_rank P root j)"
proof -
  define a where "a = rel_rank P root j * ss"
  have "span n ss 0 (rel_rank P root j) = {a..<min n (a + ss)}"
    using span_interval [OF assms, of n 0 "rel_rank P root j"] by (simp add: clear_low_def a_def algebra_simps)
  then have len: "span_len n ss 0 (rel_rank P root j) = min n (a + ss) - a" by (simp add: span_len_def)
  then show count: "piece_count P root n ss j = span_len n ss 0 (rel_rank P root j)" unfolding piece_count_def Let_def a_def [symmetric] by auto
  show "piece_start P root n ss j = span_off n ss 0 (rel_rank P root j)"
    unfolding piece_start_def span_off_def count len using assms by (auto simp: clear_low_def a_def [symmetric])
qed

lemma bcast_ring_loop_ring:
  assumes "0 < P"
  shows "j < P \<Longrightarrow> jn < P \<Longrightarrow> bcast_ring_loop P i root n ss m j jn b k =
     ring_loop P i (map (piece_count P root n ss) [0..<P]) (map (piece_start P root n ss) [0..<P]) m j jn b k"
proof (induction m arbitrary: j jn b)
  case (Suc m)
  have "left_of P jn < P" using assms by (simp add: left_of_def)
  then show ?case using Suc by simp
qed simp

lemma pieces_ok:
  assumes root: "root < P" and ss: "0 < ss" and n: "n \<le> MAX_MESSAGE" and b: "\<And>i. i < P \<Longrightarrow> length (b i) = n"
  shows "gather_ok P (map (piece_count P root n ss) [0..<P]) (\<lambda>_. map (piece_start P root n ss) [0..<P]) b"
proof -
  let ?X = "\<lambda>j. span n ss 0 (rel_rank P root j)" and ?c = "piece_count P root n ss" and ?s = "piece_start P root n ss"
  have X: "?X j = {?s j..<?s j + ?c j}" "?s j + ?c j \<le> n" for j using span_run(1,2) [OF ss] piece_span [OF ss] by simp_all
  have disj: "?X i \<inter> ?X j = {}" if "i < P" "j < P" "i \<noteq> j" for i j
    using abs_rel [OF root that(1)] abs_rel [OF root that(2)] that(3) by (auto simp: span_def)
  have "(\<Sum>j<P. ?c j) = (\<Sum>j<P. card (?X j))" by (simp add: X)
  also have "\<dots> = card (\<Union>j<P. ?X j)" by (rule card_UN_disjoint [symmetric]) (use disj in \<open>auto simp: X\<close>)
  also have "\<dots> \<le> card {..<n}" by (rule card_mono) (auto simp: span_def)
  finally have "(\<Sum>j<P. ?c j) \<le> MAX_MESSAGE" using n by simp
  moreover have "?s i + ?c i \<le> ?s j \<or> ?s j + ?c j \<le> ?s i" if "i < P" "j < P" "i \<noteq> j" for i j
  proof (cases "?c i = 0 \<or> ?c j = 0")
    case True
    then show ?thesis by (auto simp: piece_start_def)
  next
    case False
    then show ?thesis using disj [OF that] unfolding X by (auto simp: ivl_disj_int ac_simps dest: equalityD1)
  qed
  ultimately show ?thesis using b X(2) by (auto simp: gather_ok_def apart_def interv_sum_list_conv_sum_set_nat lessThan_atLeast0)
qed

lemma bcast_ring_run:
  assumes P: "1 < P" and root: "root < P" and ss: "0 < ss" "n \<le> P * ss" and n: "n = length D" "n \<le> MAX_MESSAGE"
    and b: "\<And>i. i < P \<Longrightarrow> agrees (b i) D (span n ss 0 (rel_rank P root i))"
  shows "(net_step P)\<^sup>*\<^sup>*
    (\<lambda>i. if i < P then bcast_ring_loop P i root n ss (P - 1) i (left_of P i) (b i) (k i) else z i, \<lambda>_ _. [])
    (\<lambda>i. if i < P then k i D else z i, \<lambda>_ _. [])"
proof -
  let ?cnt = "map (piece_count P root n ss) [0..<P]" and ?dsp = "map (piece_start P root n ss) [0..<P]"
  have P0: "0 < P" using P by simp
  have blen: "length (b i) = n" if "i < P" for i using b [OF that] n by (simp add: agrees_def)
  have ok: "gather_ok P ?cnt (\<lambda>_. ?dsp) b" by (rule pieces_ok [OF root ss(1) n(2) blen])
  have all: "all_blocks P ?cnt (\<lambda>_. ?dsp) b i = D" if i: "i < P" for i
  proof (rule nth_equalityI)
    let ?blk = "block_of ?cnt (\<lambda>_. ?dsp) b"
    have len: "length (all_blocks P ?cnt (\<lambda>_. ?dsp) b i) = length (b i)"
      unfolding all_blocks_def using apart_bound [OF gather_ok_apart [OF ok i]] by (intro length_gathered) auto
    then show "length (all_blocks P ?cnt (\<lambda>_. ?dsp) b i) = length D" using blen [OF i] n by simp
    fix x assume "x < length (all_blocks P ?cnt (\<lambda>_. ?dsp) b i)"
    then have x: "x < n" using len blen [OF i] by simp
    then have q: "x div ss < P" using ss div_less_iff_less_mult [OF ss(1), of x P] by linarith
    let ?j = "abs_rank P root (x div ss)"
    have j: "?j < P" "rel_rank P root ?j = x div ss" using rel_abs [OF root q] P0 by simp_all
    have mem: "x \<in> span n ss 0 (rel_rank P root ?j)" using x j(2) by (simp add: span_def)
    then have "?dsp ! ?j \<le> x" "x - ?dsp ! ?j < ?cnt ! ?j"
      unfolding span_run(1) [OF ss(1)] using j(1) by (auto simp: piece_span [OF ss(1)])
    moreover have bl: "length (?blk ?j) = ?cnt ! ?j" by (rule block_of_length [OF ok j(1)])
    moreover have "?dsp ! ?j + ?cnt ! ?j \<le> length (b ?j)" using apart_bound [OF gather_ok_apart [OF ok j(1)], of ?j] j(1) bl by simp
    ultimately have blk: "?blk ?j ! (x - ?dsp ! ?j) = b ?j ! x" "x - ?dsp ! ?j < length (?blk ?j)" "?dsp ! ?j + (x - ?dsp ! ?j) = x"
      unfolding block_of_def by (simp_all add: slice_nth del: nth_map)
    have "set [0..<P] \<subseteq> {..<P}" "?j \<in> set [0..<P]" using j(1) by auto
    from gathered_nth [OF gather_ok_apart [OF ok i] this blk(2)]
    have "all_blocks P ?cnt (\<lambda>_. ?dsp) b i ! x = b ?j ! x" unfolding all_blocks_def blk(1,3) .
    also have "\<dots> = D ! x" using b [OF j(1)] mem by (simp add: agrees_def)
    finally show "all_blocks P ?cnt (\<lambda>_. ?dsp) b i ! x = D ! x" .
  qed
  have start: "(if i < P then bcast_ring_loop P i root n ss (P - 1) i (left_of P i) (b i) (k i) else z i)
      = (if i < P then allgatherv_ring P i (b i) ?cnt ?dsp (k i) else z i)" for i
  proof (cases "i < P")
    case True
    have "left_of P i < P" using P0 by (simp add: left_of_def)
    from bcast_ring_loop_ring [where k = "k i", OF P0 True this] show ?thesis by (simp only: allgatherv_ring_def)
  qed simp
  have stop: "(if i < P then k i (all_blocks P ?cnt (\<lambda>_. ?dsp) b i) else z i) = (if i < P then k i D else z i)" for i
    using all [of i] by simp
  show ?thesis using allgatherv_ring_run [OF P ok, of k z] unfolding start stop .
qed

section \<open>The collective\<close>

lemma piece_size:
  assumes "0 < n" and "0 < (P :: nat)"
  shows "0 < (n + P - 1) div P" and "n \<le> P * ((n + P - 1) div P)"
proof -
  have "(n + P - 1) mod P < P" using assms(2) by simp
  then show "n \<le> P * ((n + P - 1) div P)" using mult_div_mod_eq [of P "n + P - 1"] assms by linarith
  then show "0 < (n + P - 1) div P" using assms(1) by (cases "(n + P - 1) div P") auto
qed

text \<open>Both long-message algorithms: a scatter, then an allgather \<open>g\<close> that completes buffers that hold their own pieces.\<close>

lemma scatter_then:
  assumes P: "1 < P" and root: "root < P" and ss: "0 < ss" "n \<le> P * ss" and n: "n = length D" "n \<le> MAX_MESSAGE"
    and b: "\<And>i. i < P \<Longrightarrow> length (buf i) = n" "buf root = D"
    and ps: "\<And>i. i < P \<Longrightarrow> ps i = bcast_scatter P i (buf i) n ss root (g i)"
    and gather: "\<And>w. (\<And>i. i < P \<Longrightarrow> agrees (w i) D (span n ss 0 (rel_rank P root i))) \<Longrightarrow>
      (net_step P)\<^sup>*\<^sup>* (\<lambda>i. if i < P then g i (w i) (span_len n ss 0 (rel_rank P root i)) else ps i, \<lambda>_ _. [])
        (\<lambda>i. if i < P then Ret D else ps i, \<lambda>_ _. [])"
  shows "always_ends P ps (\<lambda>_. D)"
proof -
  let ?r = "rel_rank P root"
  let ?w = "\<lambda>i. scattered P ss D (?r i) (buf i)"
  have span0: "span n ss 0 r = {r * ss..<min n ((r + 1) * ss)}" for r using span_interval [OF ss(1), of n 0 r] by (simp add: clear_low_def)
  have ivl: "X \<le> Y \<Longrightarrow> {a..<min n X} \<subseteq> {a..<min n Y}" for a X Y by auto
  have "agrees (?w i) D (span n ss 0 (?r i))" if i: "i < P" for i
  proof -
    have "?r i = 0 \<Longrightarrow> buf i = D" using rel_root [OF root, of i] i b(2) by auto
    then have ag: "agrees (?w i) D {?r i * ss..<min n ((?r i + 2 ^ low_bit P (?r i) 0) * ss)}" using scattered_agrees b(1) [OF i] n(1) by simp
    have "?r i + 1 \<le> ?r i + 2 ^ low_bit P (?r i) 0" by simp
    then have "(?r i + 1) * ss \<le> (?r i + 2 ^ low_bit P (?r i) 0) * ss" by (rule mult_le_mono1)
    then have "span n ss 0 (?r i) \<subseteq> {?r i * ss..<min n ((?r i + 2 ^ low_bit P (?r i) 0) * ss)}" unfolding span0 by (rule ivl)
    with ag show ?thesis by (rule agrees_mono)
  qed
  note second = gather [of ?w, OF this]
  have kept: "kept n ss r 0 = span_len n ss 0 r" for r by (simp add: span_len_def span0 kept_def)
  have first: "(net_step P)\<^sup>*\<^sup>* (ps, \<lambda>_ _. []) (\<lambda>i. if i < P then g i (?w i) (span_len n ss 0 (?r i)) else ps i, \<lambda>_ _. [])"
    using bcast_scatter_run [where buf = buf and ps = ps and k = g, OF P root ss n b(1) b(2) ps] unfolding kept .
  from rtranclp_trans [OF first second] show ?thesis
  proof (rule always_endsI)
    show "(if i < P then Ret D else ps i) = Ret D" if "i < P" for i using that by (rule if_P)
  qed
qed

text \<open>
  C14: \<^verbatim>\<open>MPI_Bcast\<close>, with any number of ranks, any root and any size, whichever of its three algorithms runs, pieces short or empty included: no
  execution deadlocks, aborts or runs for ever, and every rank ends with the buffer of the root, whatever its own held.
\<close>

theorem MPI_Bcast_correct:
  assumes "1 < P" and "root < P" and "dtype_size dt = Some e" and "n = cnt * e" and "n \<le> MAX_MESSAGE"
    and "\<forall>i<P. length (buf i) = n"
    and "\<forall>i<P. ps i = MPI_Bcast P i (buf i) cnt dt root (ab i) Ret"
  shows "always_ends P ps (\<lambda>_. buf root)"
proof (cases "n < kBcastShortMsg \<or> P < kBcastMinProcs")
  case True
  have "(net_step P)\<^sup>*\<^sup>* (ps, \<lambda>_ _. []) (\<lambda>i. if i < P then Ret (buf root) else ps i, \<lambda>_ _. [])"
    by (rule bcast_run [where D = "buf root" and k = "\<lambda>b _. Ret b" and buf = buf and root = root])
      (use assms True in \<open>auto simp: MPI_Bcast_def Let_def\<close>)
  then show ?thesis by (rule always_endsI) simp
next
  case long: False
  let ?ss = "(n + P - 1) div P"
  have "0 < n" "0 < P" using long assms(1) by (auto simp: kBcastShortMsg_def)
  note ss = piece_size [OF this]
  have n: "n = length (buf root)" and b: "\<And>i. i < P \<Longrightarrow> length (buf i) = n" using assms(2,6) by auto
  show ?thesis
  proof (cases "n < kBcastLongMsg \<and> is_pof2 P")
    case True
    then obtain L where L: "P = 2 ^ L" using is_pof2_power by blast
    let ?g = "\<lambda>i b cur. bcast_rd_loop P (rel_rank P root i) root n ?ss 0 cur b Ret"
    have ps: "ps i = bcast_scatter P i (buf i) n ?ss root (?g i)" if "i < P" for i
      using assms(1,3,4,7) that long True by (simp add: MPI_Bcast_def Let_def bcast_scatter_rd_allgather_def)
    show ?thesis
    proof (rule scatter_then [where buf = buf and g = ?g, OF assms(1,2) ss n assms(5) _ HOL.refl])
      fix w assume "\<And>i. i < P \<Longrightarrow> agrees (w i) (buf root) (span n ?ss 0 (rel_rank P root i))"
      then show "(net_step P)\<^sup>*\<^sup>* (\<lambda>i. if i < P then ?g i (w i) (span_len n ?ss 0 (rel_rank P root i)) else ps i, \<lambda>_ _. [])
          (\<lambda>i. if i < P then Ret (buf root) else ps i, \<lambda>_ _. [])"
        by (rule bcast_rd_run [OF assms(1) L assms(2) ss n assms(5)])
    qed (rule b ps, assumption)+
  next
    case False
    let ?g = "\<lambda>i b (_ :: nat). bcast_ring_loop P i root n ?ss (P - 1) i (left_of P i) b Ret"
    have ps: "ps i = bcast_scatter P i (buf i) n ?ss root (?g i)" if "i < P" for i
      using assms(1,3,4,7) that long False by (auto simp: MPI_Bcast_def Let_def bcast_scatter_ring_allgather_def)
    show ?thesis
    proof (rule scatter_then [where buf = buf and g = ?g, OF assms(1,2) ss n assms(5) _ HOL.refl])
      fix w assume "\<And>i. i < P \<Longrightarrow> agrees (w i) (buf root) (span n ?ss 0 (rel_rank P root i))"
      then show "(net_step P)\<^sup>*\<^sup>* (\<lambda>i. if i < P then ?g i (w i) (span_len n ?ss 0 (rel_rank P root i)) else ps i, \<lambda>_ _. [])
          (\<lambda>i. if i < P then Ret (buf root) else ps i, \<lambda>_ _. [])"
        by (rule bcast_ring_run [OF assms(1,2) ss n assms(5)])
    qed (rule b ps, assumption)+
  qed
qed

text \<open>Rank 3 of eight broadcasts 12288 bytes, by recursive doubling.\<close>

theorem MPI_Bcast_correct_witness:
  "always_ends 8 (\<lambda>i. MPI_Bcast 8 i (replicate kBcastShortMsg (if i = 3 then 7 else 0)) kBcastShortMsg 1 3 (Ret []) Ret)
     (\<lambda>_. replicate kBcastShortMsg 7)"
  using MPI_Bcast_correct [where P = 8 and root = 3 and dt = 1 and e = 1 and n = kBcastShortMsg and cnt = kBcastShortMsg
      and buf = "\<lambda>i. replicate kBcastShortMsg (if i = 3 then 7 else 0)" and ab = "\<lambda>_. Ret []"]
  by (simp add: MAX_MESSAGE_def MAX_MSG_BYTES_def kBcastShortMsg_def dtype_size_def)

end
