(* ===== verification/Mpi_Request.thy ===== *)
theory Mpi_Request
  imports Mpi_Gather
begin

text \<open>
  The rest of the point-to-point interface of src/parallel_abstraction/pimid_mpi.cpp: \<^verbatim>\<open>MPI_Sendrecv\<close> and the non-blocking calls, which do
  all their work at once. The number that \<^verbatim>\<open>g_next_request\<close> gives a request is an argument; nothing reads it. \<open>ab\<close> is where a
  rank goes that aborts.
\<close>

section \<open>The calls\<close>

definition valid_size :: "nat \<Rightarrow> int \<Rightarrow> nat \<Rightarrow> u32 \<Rightarrow> nat option" where
  "valid_size P rank cnt datatype =
     (if 0 \<le> rank \<and> rank < int P then map_option (\<lambda>e. cnt * e) (dtype_size datatype) else Some 0)"

definition MPI_Sendrecv ::
  "nat \<Rightarrow> byte list \<Rightarrow> nat \<Rightarrow> u32 \<Rightarrow> int \<Rightarrow> byte list \<Rightarrow> nat \<Rightarrow> u32 \<Rightarrow> int \<Rightarrow> 'a rank_proc \<Rightarrow> (byte list \<Rightarrow> 'a rank_proc) \<Rightarrow> 'a rank_proc" where
  "MPI_Sendrecv P sendbuf sendcount sendtype dest recvbuf recvcount recvtype source ab k =
     (if P \<le> 1 then k recvbuf
      else case (valid_size P dest sendcount sendtype, valid_size P source recvcount recvtype) of
             (Some sb, Some rb) \<Rightarrow> xchg_bytes P (take sb sendbuf) dest recvbuf 0 rb source (\<lambda>b _. k b)
           | _ \<Rightarrow> ab)"

definition MPI_Isend :: "nat \<Rightarrow> byte list \<Rightarrow> nat \<Rightarrow> u32 \<Rightarrow> int \<Rightarrow> int \<Rightarrow> int \<Rightarrow> 'a rank_proc \<Rightarrow> (int \<Rightarrow> 'a rank_proc) \<Rightarrow> 'a rank_proc" where
  "MPI_Isend P buf cnt datatype dest tag req ab k = MPI_Send P buf cnt datatype dest tag ab (k req)"

definition MPI_Irecv :: "nat \<Rightarrow> byte list \<Rightarrow> nat \<Rightarrow> u32 \<Rightarrow> int \<Rightarrow> int \<Rightarrow> 'a rank_proc \<Rightarrow> (byte list \<Rightarrow> int \<Rightarrow> 'a rank_proc) \<Rightarrow> 'a rank_proc" where
  "MPI_Irecv P buf cnt datatype source req ab k = MPI_Recv P buf 0 cnt datatype source ab (\<lambda>b. k b req)"

text \<open>\<^verbatim>\<open>MPI_Wait\<close> and \<^verbatim>\<open>MPI_Waitall\<close> have nothing left to wait for.\<close>

definition MPI_Wait :: "int \<Rightarrow> 'a rank_proc \<Rightarrow> 'a rank_proc" where
  "MPI_Wait request k = k"

definition MPI_Waitall :: "int list \<Rightarrow> 'a rank_proc \<Rightarrow> 'a rank_proc" where
  "MPI_Waitall requests k = k"

section \<open>Exchanges\<close>

text \<open>
  \<^verbatim>\<open>MPI_Sendrecv\<close> along any permutation of the ranks, with any number of ranks and any sizes, cycles included: no execution deadlocks,
  aborts or runs for ever, and every rank ends with what its source sent, as much of it as it has room for.
\<close>

theorem MPI_Sendrecv_correct:
  assumes "1 < P" and "\<forall>i<P. dst i < P \<and> src i < P \<and> src (dst i) = i \<and> dst (src i) = i"
    and "dtype_size st = Some se" and "dtype_size rt = Some re"
    and "\<forall>i<P. length (sb i) = sc i * se \<and> length (sb i) \<le> MAX_MESSAGE \<and> rc i * re \<le> length (rb i)"
    and "\<forall>i<P. ps i = MPI_Sendrecv P (sb i) (sc i) st (int (dst i)) (rb i) (rc i) rt (int (src i)) (ab i) Ret"
  shows "always_ends P ps (\<lambda>i. memcpy_at (rb i) 0 (take (rc i * re) (sb (src i))))"
proof -
  let ?k = "\<lambda>_ b (_ :: nat). Ret b"
  have run: "(net_step P)\<^sup>*\<^sup>*
     (\<lambda>i. if i \<in> {..<P} then xchg_bytes P (sb i) (int (dst i)) (rb i) 0 (rc i * re) (int (src i)) (?k i) else ps i, \<lambda>_ _. [])
     (\<lambda>i. if i \<in> {..<P} then ?k i (memcpy_at (rb i) 0 (take (rc i * re) (sb (src i)))) (min (rc i * re) (length (sb (src i)))) else ps i, \<lambda>_ _. [])"
    by (rule xchg_all [OF assms(1)]) (use assms(2,5) in auto)
  have "(\<lambda>i. if i \<in> {..<P} then xchg_bytes P (sb i) (int (dst i)) (rb i) 0 (rc i * re) (int (src i)) (?k i) else ps i) = ps"
    using assms by (intro ext) (simp add: MPI_Sendrecv_def valid_size_def)
  with run have "(net_step P)\<^sup>*\<^sup>* (ps, \<lambda>_ _. [])
     (\<lambda>i. if i \<in> {..<P} then Ret (memcpy_at (rb i) 0 (take (rc i * re) (sb (src i)))) else ps i, \<lambda>_ _. [])" by (simp only:)
  then show ?thesis by (rule always_endsI) simp
qed

text \<open>Three ranks pass a byte round a cycle.\<close>

theorem MPI_Sendrecv_correct_witness:
  "always_ends 3 (\<lambda>i. MPI_Sendrecv 3 [word_of_nat i] 1 1 (int ((i + 1) mod 3)) [9, 9] 1 1 (int ((i + 2) mod 3)) (Ret []) Ret)
     (\<lambda>i. [word_of_nat ((i + 2) mod 3), 9])"
proof -
  have "always_ends 3 (\<lambda>i. MPI_Sendrecv 3 [word_of_nat i] 1 1 (int ((i + 1) mod 3)) [9, 9] 1 1 (int ((i + 2) mod 3)) (Ret []) Ret)
     (\<lambda>i. memcpy_at [9, 9] 0 (take (1 * 1) [word_of_nat ((i + 2) mod 3)]))"
    by (rule MPI_Sendrecv_correct [where se = 1 and dst = "\<lambda>i. (i + 1) mod 3" and src = "\<lambda>i. (i + 2) mod 3" and sb = "\<lambda>i. [word_of_nat i]"
          and rb = "\<lambda>_. [9, 9]" and sc = "\<lambda>_. 1" and rc = "\<lambda>_. 1" and ab = "\<lambda>_. Ret []"])
      (auto simp: dtype_size_def MAX_MESSAGE_def MAX_MSG_BYTES_def mod_simps)
  then show ?thesis by (simp add: memcpy_at_def)
qed

text \<open>
  C15: \<^verbatim>\<open>MPI_Irecv\<close> blocks. When every rank posts its receive first, whatever it does next, no rank ever moves: the usual order of a halo
  exchange, receives, sends, \<^verbatim>\<open>MPI_Waitall\<close>, deadlocks.
\<close>

theorem irecv_first_deadlocks:
  assumes "1 < P" and "dtype_size dt = Some e" and "\<forall>i<P. src i < P"
    and "\<forall>i<P. ps i = MPI_Irecv P (rb i) (cnt i) dt (int (src i)) (req i) (ab i) (k i)"
  shows "\<not> finished P (ps, \<lambda>_ _. []) \<and> \<not> (\<exists>t. net_step P (ps, \<lambda>_ _. []) t)"
proof
  have rcv: "\<exists>f. ps i = Rcv (src i) f" if "i < P" for i
    using assms that by (auto simp: MPI_Irecv_def MPI_Recv_def recv_bytes_def intro: recv_loop.ctr)
  obtain f where "ps 0 = Rcv (src 0) f" using rcv [of 0] assms(1) by auto
  then show "\<not> finished P (ps, \<lambda>_ _. [])" using assms(1) by (auto simp: finished_def intro!: exI [of _ 0])
  show "\<not> (\<exists>t. net_step P (ps, \<lambda>_ _. []) t)"
  proof
    assume "\<exists>t. net_step P (ps, \<lambda>_ _. []) t"
    then obtain t where "net_step P (ps, \<lambda>_ _. []) t" ..
    then show False using rcv by (elim net_stepE) fastforce+
  qed
qed

text \<open>Two neighbours that each post a receive, send a byte and wait.\<close>

definition halo_exchange :: "nat \<Rightarrow> byte list rank_proc" where
  "halo_exchange i =
     MPI_Irecv 2 [0] 1 1 (int (1 - i)) 1 (Ret []) (\<lambda>b r. MPI_Isend 2 [word_of_nat i] 1 1 (int (1 - i)) 0 2 (Ret []) (\<lambda>s. MPI_Waitall [r, s] (Ret b)))"

theorem irecv_first_deadlocks_witness:
  "\<not> finished 2 (halo_exchange, \<lambda>_ _. []) \<and> \<not> (\<exists>t. net_step 2 (halo_exchange, \<lambda>_ _. []) t)"
  by (rule irecv_first_deadlocks [where dt = 1 and e = 1 and src = "\<lambda>i. 1 - i" and rb = "\<lambda>_. [0]" and cnt = "\<lambda>_. 1" and req = "\<lambda>_. 1" and ab = "\<lambda>_. Ret []"
        and k = "\<lambda>i b r. MPI_Isend 2 [word_of_nat i] 1 1 (int (1 - i)) 0 2 (Ret []) (\<lambda>s. MPI_Waitall [r, s] (Ret b))"])
    (auto simp: halo_exchange_def dtype_size_def)

end
