(* ===== verification/Mpi_Barrier.thy ===== *)
theory Mpi_Barrier
  imports Prelude
begin

text \<open>
  \<^verbatim>\<open>MPI_Barrier\<close> of src/parallel_abstraction/pimid_mpi.cpp, both implementations: the generation barrier under a mutex and a
  condition variable of thread mode, where the last rank to arrive freezes the latest arrival time as the
  release time of all, and the lock-free one of the process-shared mode. A step is what happens atomically: a critical
  section, or one access to the shared counters. Ranks may pass any number of barriers, and a rank may be in the
  next barrier while another has not left this one. The generation is a 32-bit counter that may wrap.
\<close>

section \<open>Thread mode\<close>

record BarShared =
  barrier_gen :: "32 word"
  barrier_count :: nat
  bar_max_arr :: u64
  bar_release :: u64

text \<open>The barrier's part of \<^verbatim>\<open>create_heap_region\<close>.\<close>

definition bar_init :: BarShared where
  "bar_init = \<lparr>barrier_gen = 1, barrier_count = 0, bar_max_arr = 0, bar_release = 0\<rparr>"

text \<open>
  The critical section of an arriving rank, up to its unlock or its wait: the last one gets the release time.
\<close>

definition bar_enter :: "nat \<Rightarrow> u64 \<Rightarrow> BarShared \<Rightarrow> BarShared \<times> u64 option" where
  "bar_enter P my_arr s =
     (let gen = barrier_gen s;
          s1 = (if my_arr > bar_max_arr s then s\<lparr>bar_max_arr := my_arr\<rparr> else s);
          s2 = s1\<lparr>barrier_count := barrier_count s1 + 1\<rparr>
      in if barrier_count s2 \<ge> P
         then (s2\<lparr>barrier_count := 0, bar_release := bar_max_arr s2, bar_max_arr := 0, barrier_gen := gen + 1\<rparr>, Some (bar_max_arr s2))
         else (s2, None))"

text \<open>A woken rank looks at the generation again: it leaves with the release time, or goes on waiting.\<close>

definition bar_wake :: "32 word \<Rightarrow> BarShared \<Rightarrow> u64 option" where
  "bar_wake gen s = (if barrier_gen s = gen then None else Some (bar_release s))"

text \<open>Where a rank is, and the barriers it has entered and left: its arrival and release times.\<close>

datatype BarPc = Outside | Waiting "32 word"

record BarRun =
  br_shared :: BarShared
  br_pc :: "nat \<Rightarrow> BarPc"
  br_arr :: "nat \<Rightarrow> u64 list"
  br_rel :: "nat \<Rightarrow> u64 list"

definition bar_start :: BarRun where
  "bar_start = \<lparr>br_shared = bar_init, br_pc = (\<lambda>_. Outside), br_arr = (\<lambda>_. []), br_rel = (\<lambda>_. [])\<rparr>"

definition leave :: "nat \<Rightarrow> u64 \<Rightarrow> BarRun \<Rightarrow> BarRun" where
  "leave r t c = c\<lparr>br_pc := (br_pc c)(r := Outside), br_rel := (br_rel c)(r := br_rel c r @ [t])\<rparr>"

definition enter :: "nat \<Rightarrow> nat \<Rightarrow> u64 \<Rightarrow> BarRun \<Rightarrow> BarRun" where
  "enter P r a c =
     (let (s', res) = bar_enter P a (br_shared c);
          c' = c\<lparr>br_shared := s', br_arr := (br_arr c)(r := br_arr c r @ [a])\<rparr>
      in case res of Some t \<Rightarrow> leave r t c'
         | None \<Rightarrow> c'\<lparr>br_pc := (br_pc c)(r := Waiting (barrier_gen (br_shared c)))\<rparr>)"

text \<open>A spurious wake-up changes nothing, so that only a wake-up that ends the wait is a step.\<close>

inductive bar_step :: "nat \<Rightarrow> BarRun \<Rightarrow> BarRun \<Rightarrow> bool" for P where
  arrive: "r < P \<Longrightarrow> br_pc c r = Outside \<Longrightarrow> bar_step P c (enter P r a c)"
| wake: "r < P \<Longrightarrow> br_pc c r = Waiting g \<Longrightarrow> bar_wake g (br_shared c) = Some t \<Longrightarrow> bar_step P c (leave r t c)"

section \<open>What the ranks and the counters are at\<close>

text \<open>The latest arrival at barrier \<open>n\<close>.\<close>

definition last_arrival :: "nat \<Rightarrow> (nat \<Rightarrow> u64 list) \<Rightarrow> nat \<Rightarrow> u64" where
  "last_arrival P arr n = Max ((\<lambda>q. arr q ! n) ` {..<P})"

text \<open>
  After \<open>G\<close> releases every rank is outside, waits in barrier \<open>G\<close>, or has yet to wake from barrier \<open>G - 1\<close>.
\<close>

definition bar_place :: "nat \<Rightarrow> BarRun \<Rightarrow> nat \<Rightarrow> bool" where
  "bar_place G c r \<longleftrightarrow>
     br_pc c r = Outside \<and> length (br_arr c r) = G \<and> length (br_rel c r) = G
   \<or> br_pc c r = Waiting (word_of_nat (Suc G)) \<and> length (br_arr c r) = Suc G \<and> length (br_rel c r) = G
   \<or> 0 < G \<and> br_pc c r = Waiting (word_of_nat G) \<and> length (br_arr c r) = G \<and> length (br_rel c r) = G - 1"

definition waiting_in :: "nat \<Rightarrow> nat \<Rightarrow> BarRun \<Rightarrow> nat set" where
  "waiting_in P G c = {r. r < P \<and> br_pc c r = Waiting (word_of_nat (Suc G))}"

definition bar_inv :: "nat \<Rightarrow> nat \<Rightarrow> BarRun \<Rightarrow> bool" where
  "bar_inv P G c \<longleftrightarrow>
     barrier_gen (br_shared c) = word_of_nat (Suc G)
   \<and> barrier_count (br_shared c) = card (waiting_in P G c) \<and> barrier_count (br_shared c) < P
   \<and> (\<forall>r<P. bar_place G c r)
   \<and> bar_max_arr (br_shared c) = Max (insert 0 ((\<lambda>q. br_arr c q ! G) ` waiting_in P G c))
   \<and> (0 < G \<longrightarrow> bar_release (br_shared c) = last_arrival P (br_arr c) (G - 1))
   \<and> (\<forall>r<P. \<forall>n<length (br_rel c r). br_rel c r ! n = last_arrival P (br_arr c) n)"

lemma next_gen: "(word_of_nat (Suc n) :: 32 word) \<noteq> word_of_nat n" "(word_of_nat n :: 32 word) \<noteq> word_of_nat (Suc n)"
  by simp_all

lemma waiting_in_finite [simp]: "finite (waiting_in P G c)"
  by (simp add: waiting_in_def)

lemma bar_start_inv: "0 < P \<Longrightarrow> bar_inv P 0 bar_start"
  by (simp add: bar_inv_def bar_start_def bar_init_def bar_place_def waiting_in_def)

lemma last_arrival_cong:
  "(\<And>q. q < P \<Longrightarrow> arr q ! n = arr' q ! n) \<Longrightarrow> last_arrival P arr n = last_arrival P arr' n"
  unfolding last_arrival_def by (rule arg_cong [of _ _ Max], rule image_cong) auto

lemma place_arr: "bar_place G c r \<Longrightarrow> G \<le> length (br_arr c r)" "bar_place G c r \<Longrightarrow> length (br_rel c r) \<le> G"
  by (auto simp: bar_place_def)

lemma last_arrival_append:
  assumes "\<forall>r<P. bar_place G c r" and "n < G" and "r < P"
  shows "last_arrival P ((br_arr c)(r := br_arr c r @ [a])) n = last_arrival P (br_arr c) n"
proof (rule last_arrival_cong)
  fix q assume "q < P"
  then have "n < length (br_arr c q)" using place_arr(1) [of G c q] assms(1,2) by auto
  then show "((br_arr c)(r := br_arr c r @ [a])) q ! n = br_arr c q ! n" by (auto simp: nth_append)
qed

lemma wake_inv:
  assumes inv: "bar_inv P G c" and r: "r < P" "br_pc c r = Waiting g" "bar_wake g (br_shared c) = Some t"
  shows "bar_inv P G (leave r t c)"
proof -
  have gen: "barrier_gen (br_shared c) = word_of_nat (Suc G)" and place: "bar_place G c r" using inv r by (auto simp: bar_inv_def)
  have g: "g \<noteq> word_of_nat (Suc G)" "t = bar_release (br_shared c)" using r(3) gen by (auto simp: bar_wake_def split: if_splits)
  with place r(2) have old: "0 < G" "g = word_of_nat G" "length (br_arr c r) = G" "length (br_rel c r) = G - 1" by (auto simp: bar_place_def)
  have same: "waiting_in P G (leave r t c) = waiting_in P G c" using r(2) g(1) by (auto simp: waiting_in_def leave_def)
  have t: "t = last_arrival P (br_arr c) (G - 1)" using inv g(2) old(1) by (simp add: bar_inv_def)
  have rel: "br_rel (leave r t c) q ! n = last_arrival P (br_arr c) n" if "q < P" "n < length (br_rel (leave r t c) q)" for q n
    using that inv t old(4) by (cases "q = r") (auto simp: leave_def bar_inv_def nth_append less_Suc_eq)
  have "bar_place G (leave r t c) q" if "q < P" for q
    using that inv old by (cases "q = r") (auto simp: bar_inv_def bar_place_def leave_def)
  then show ?thesis using inv rel unfolding bar_inv_def same by (simp add: leave_def)
qed

lemma bar_max_le: "(if a > m then s\<lparr>bar_max_arr := a\<rparr> else s) = s\<lparr>bar_max_arr := max a (bar_max_arr s)\<rparr>" if "bar_max_arr s = m"
  using that by (auto simp: max_def)

lemma bar_enter_alt: "bar_enter P a s =
   (if P \<le> barrier_count s + 1
    then (s\<lparr>barrier_count := 0, bar_release := max a (bar_max_arr s), bar_max_arr := 0, barrier_gen := barrier_gen s + 1\<rparr>, Some (max a (bar_max_arr s)))
    else (s\<lparr>bar_max_arr := max a (bar_max_arr s), barrier_count := barrier_count s + 1\<rparr>, None))"
  by (auto simp: bar_enter_def Let_def max_def)

lemma max_zero_word: "finite S \<Longrightarrow> S \<noteq> {} \<Longrightarrow> Max (insert (0 :: u64) S) = Max S"
  by (simp add: max_def)

text \<open>An arrival that is not the last.\<close>

lemma enter_inv_wait:
  assumes inv: "bar_inv P G c" and r: "r < P" "br_pc c r = Outside" and few: "barrier_count (br_shared c) + 1 < P"
  shows "bar_inv P G (enter P r a c)"
proof -
  let ?s = "br_shared c" and ?arr = "(br_arr c)(r := br_arr c r @ [a])"
  let ?c = "enter P r a c"
  have c: "?c = c\<lparr>br_shared := ?s\<lparr>bar_max_arr := max a (bar_max_arr ?s), barrier_count := barrier_count ?s + 1\<rparr>, br_arr := ?arr,
      br_pc := (br_pc c)(r := Waiting (barrier_gen ?s))\<rparr>"
    using few by (simp add: enter_def bar_enter_alt)
  have gen: "barrier_gen ?s = word_of_nat (Suc G)" and places: "\<forall>r<P. bar_place G c r" using inv by (auto simp: bar_inv_def)
  have out: "length (br_arr c r) = G" "length (br_rel c r) = G" using places r by (auto simp: bar_place_def)
  have w: "waiting_in P G ?c = insert r (waiting_in P G c)" "r \<notin> waiting_in P G c" using r gen by (auto simp: waiting_in_def c)
  have others: "(\<lambda>q. ?arr q ! G) ` waiting_in P G c = (\<lambda>q. br_arr c q ! G) ` waiting_in P G c"
    using w(2) by (intro image_cong) auto
  have "Max (insert 0 ((\<lambda>q. ?arr q ! G) ` waiting_in P G ?c)) = Max (insert a (insert 0 ((\<lambda>q. br_arr c q ! G) ` waiting_in P G c)))"
    unfolding w(1) image_insert others using out(1) by (simp add: insert_commute nth_append)
  also have "\<dots> = max a (bar_max_arr ?s)" using inv by (subst Max_insert) (simp_all add: bar_inv_def)
  finally have mx: "max a (bar_max_arr ?s) = Max (insert 0 ((\<lambda>q. ?arr q ! G) ` waiting_in P G ?c))" ..
  have rel: "br_rel c q ! n = last_arrival P ?arr n" if "q < P" "n < length (br_rel c q)" for q n
  proof -
    have "n < G" using place_arr(2) [of G c q] places that by auto
    then show ?thesis using last_arrival_append [OF places _ r(1)] inv that by (simp add: bar_inv_def)
  qed
  have "bar_place G ?c q" if "q < P" for q
    using that places gen out unfolding c by (cases "q = r") (auto simp: bar_place_def)
  then show ?thesis
    using inv mx rel w few gen last_arrival_append [OF places _ r(1), of "G - 1"] unfolding bar_inv_def by (simp add: c)
qed

text \<open>The last arrival releases everybody.\<close>

lemma enter_inv_last:
  assumes inv: "bar_inv P G c" and r: "r < P" "br_pc c r = Outside" and full: "P \<le> barrier_count (br_shared c) + 1"
  shows "bar_inv P (Suc G) (enter P r a c)"
proof -
  let ?s = "br_shared c" and ?arr = "(br_arr c)(r := br_arr c r @ [a])" and ?m = "max a (bar_max_arr (br_shared c))"
  let ?c = "enter P r a c"
  have c: "?c = c\<lparr>br_shared := ?s\<lparr>barrier_count := 0, bar_release := ?m, bar_max_arr := 0, barrier_gen := barrier_gen ?s + 1\<rparr>, br_arr := ?arr,
      br_pc := (br_pc c)(r := Outside), br_rel := (br_rel c)(r := br_rel c r @ [?m])\<rparr>"
    using full by (simp add: enter_def bar_enter_alt leave_def)
  have gen: "barrier_gen ?s = word_of_nat (Suc G)" and places: "\<forall>r<P. bar_place G c r" using inv by (auto simp: bar_inv_def)
  have out: "length (br_arr c r) = G" "length (br_rel c r) = G" using places r by (auto simp: bar_place_def)
  have w: "waiting_in P G c = {..<P} - {r}"
  proof (rule card_seteq)
    show "waiting_in P G c \<subseteq> {..<P} - {r}" using r by (auto simp: waiting_in_def)
    show "card ({..<P} - {r}) \<le> card (waiting_in P G c)" using inv full r by (simp add: bar_inv_def)
  qed simp
  have "(\<lambda>q. ?arr q ! G) ` {..<P} = insert a ((\<lambda>q. br_arr c q ! G) ` waiting_in P G c)"
  proof -
    have "{..<P} = insert r (waiting_in P G c)" using w r by auto
    moreover have "(\<lambda>q. ?arr q ! G) ` waiting_in P G c = (\<lambda>q. br_arr c q ! G) ` waiting_in P G c" using w by (intro image_cong) auto
    ultimately show ?thesis using out(1) by (simp add: nth_append)
  qed
  then have "last_arrival P ?arr G = Max (insert 0 (insert a ((\<lambda>q. br_arr c q ! G) ` waiting_in P G c)))"
    by (subst max_zero_word) (simp_all add: last_arrival_def)
  also have "\<dots> = ?m" using inv by (subst insert_commute, subst Max_insert) (simp_all add: bar_inv_def)
  finally have mx: "last_arrival P ?arr G = ?m" .
  have rel: "br_rel ?c q ! n = last_arrival P ?arr n" if "q < P" "n < length (br_rel ?c q)" for q n
  proof (cases "n < G")
    case True
    have "n < length (br_rel c q)" using that True out by (auto simp: c split: if_splits)
    then have "br_rel ?c q ! n = br_rel c q ! n" by (auto simp: c nth_append)
    then show ?thesis using last_arrival_append [OF places True r(1)] inv that \<open>n < length (br_rel c q)\<close> by (simp add: bar_inv_def)
  next
    case False
    then have "q = r" "n = G" using that place_arr(2) [of G c q] places out by (auto simp: c split: if_splits)
    then show ?thesis using mx out by (simp add: c nth_append)
  qed
  have pc: "br_pc ?c r = Outside" "br_pc ?c q = Waiting (word_of_nat (Suc G))" if "q < P" "q \<noteq> r" for q
  proof -
    have "q \<in> waiting_in P G c" using w that by simp
    then show "br_pc ?c r = Outside" "br_pc ?c q = Waiting (word_of_nat (Suc G))" using that by (simp_all add: waiting_in_def c)
  qed
  have place: "bar_place (Suc G) ?c q" if "q < P" for q
  proof (cases "q = r")
    case True
    then show ?thesis using out by (simp add: bar_place_def c)
  next
    case False
    have "bar_place G c q" "q \<in> waiting_in P G c" using places w that False by simp_all
    then have "length (br_arr c q) = Suc G \<and> length (br_rel c q) = G"
      using next_gen(1) [of G] unfolding bar_place_def waiting_in_def by auto
    then show ?thesis using pc(2) [OF that False] False unfolding bar_place_def by (simp add: c)
  qed
  have none: "waiting_in P (Suc G) ?c = {}"
  proof -
    have "br_pc ?c q \<noteq> Waiting (word_of_nat (Suc (Suc G)))" if "q < P" for q
    proof (cases "q = r")
      case True
      then show ?thesis by (simp add: c)
    next
      case False
      then show ?thesis using pc(2) [OF that False] next_gen(2) [of "Suc G"] by (simp del: of_nat_Suc)
    qed
    then show ?thesis by (simp add: waiting_in_def)
  qed
  have "word_of_nat (Suc G) + 1 = (word_of_nat (Suc (Suc G)) :: 32 word)" by simp
  then show ?thesis unfolding bar_inv_def using none place rel mx r(1) gen by (simp add: c)
qed

lemma bar_step_inv: "bar_step P c d \<Longrightarrow> bar_inv P G c \<Longrightarrow> \<exists>G'. bar_inv P G' d"
proof (induction rule: bar_step.induct)
  case (arrive r c a)
  then show ?case using enter_inv_wait [of P G c r a] enter_inv_last [of P G c r a] by (meson not_le)
next
  case (wake r c g t)
  then show ?case using wake_inv [of P G c r g t] by blast
qed

text \<open>
  What any barrier owes its callers, over what each rank has entered and left: between the two, for all ranks, lies one
  number of releases.
\<close>

locale barrier_machine =
  fixes step :: "nat \<Rightarrow> 'c \<Rightarrow> 'c \<Rightarrow> bool" and start :: 'c and inv :: "nat \<Rightarrow> nat \<Rightarrow> 'c \<Rightarrow> bool"
    and arrived :: "'c \<Rightarrow> nat \<Rightarrow> nat" and left :: "'c \<Rightarrow> nat \<Rightarrow> nat"
  assumes init: "0 < P \<Longrightarrow> inv P 0 start"
    and keep: "step P c d \<Longrightarrow> inv P G c \<Longrightarrow> \<exists>G'. inv P G' d"
    and between: "inv P G c \<Longrightarrow> r < P \<Longrightarrow> left c r \<le> G \<and> G \<le> arrived c r"
begin

lemma reach_inv: "(step P)\<^sup>*\<^sup>* start c \<Longrightarrow> 0 < P \<Longrightarrow> \<exists>G. inv P G c"
  by (induction rule: rtranclp_induct) (use init keep in blast)+

lemma no_early_exit: "(step P)\<^sup>*\<^sup>* start c \<Longrightarrow> r < P \<Longrightarrow> q < P \<Longrightarrow> left c r \<le> arrived c q"
proof -
  assume c: "(step P)\<^sup>*\<^sup>* start c" and r: "r < P" "q < P"
  then obtain G where "inv P G c" using reach_inv [of P c] by auto
  then show ?thesis using between [of P G c] r le_trans by blast
qed

end

interpretation tb: barrier_machine bar_step bar_start bar_inv "\<lambda>c r. length (br_arr c r)" "\<lambda>c r. length (br_rel c r)"
proof unfold_locales
  show "bar_inv P 0 bar_start" if "0 < P" for P by (rule bar_start_inv [OF that])
  show "\<exists>G'. bar_inv P G' d" if "bar_step P c d" "bar_inv P G c" for P c d G by (rule bar_step_inv [OF that])
  show "length (br_rel c r) \<le> G \<and> G \<le> length (br_arr c r)" if "bar_inv P G c" "r < P" for P G c r
    using that place_arr by (simp add: bar_inv_def)
qed

text \<open>
  C19: the barrier of thread mode is a rendezvous, whatever the interleaving of arrivals and wake-ups over any number of
  barriers: when a rank has left barrier \<open>n\<close>, every rank has arrived at it, and the release time it left with is the latest of
  all arrival times at that barrier, even if other ranks are already in the next one.
\<close>

theorem barrier_rendezvous:
  assumes "(bar_step P)\<^sup>*\<^sup>* bar_start c" and "r < P" and "n < length (br_rel c r)"
  shows "(\<forall>q<P. n < length (br_arr c q)) \<and> br_rel c r ! n = last_arrival P (br_arr c) n"
proof
  have P: "0 < P" using assms(2) by simp
  show "\<forall>q<P. n < length (br_arr c q)" using tb.no_early_exit [OF assms(1,2)] assms(3) by (meson less_le_trans)
  from tb.reach_inv [OF assms(1) P] obtain G where "bar_inv P G c" by blast
  then show "br_rel c r ! n = last_arrival P (br_arr c) n" using assms(2,3) by (simp add: bar_inv_def)
qed

definition sample_bar :: BarRun where
  "sample_bar = leave 1 30 (enter 3 2 30 (enter 3 0 20 (enter 3 1 10 bar_start)))"

lemma sample_bar_reached: "(bar_step 3)\<^sup>*\<^sup>* bar_start sample_bar"
proof -
  let ?c1 = "enter 3 1 10 bar_start" and ?c2 = "enter 3 0 20 (enter 3 1 10 bar_start)"
  let ?c3 = "enter 3 2 30 (enter 3 0 20 (enter 3 1 10 bar_start))"
  note defs = enter_def bar_enter_def leave_def bar_start_def bar_init_def bar_wake_def
  have "bar_step 3 bar_start ?c1" by (rule bar_step.arrive) (simp_all add: defs)
  moreover have "bar_step 3 ?c1 ?c2" by (rule bar_step.arrive) (simp_all add: defs)
  moreover have "bar_step 3 ?c2 ?c3" by (rule bar_step.arrive) (simp_all add: defs)
  moreover have "bar_step 3 ?c3 sample_bar" unfolding sample_bar_def by (rule bar_step.wake [where g = 1]) (simp_all add: defs)
  ultimately show ?thesis by (meson rtranclp.rtrancl_into_rtrancl rtranclp.rtrancl_refl)
qed

theorem barrier_rendezvous_witness:
  "br_rel sample_bar 1 = [30] \<and> br_rel sample_bar 1 ! 0 = last_arrival 3 (br_arr sample_bar) 0 \<and> br_rel sample_bar 0 = []"
proof -
  note defs = sample_bar_def enter_def bar_enter_def leave_def bar_start_def bar_init_def
  have rel: "br_rel sample_bar 1 = [30]" "br_rel sample_bar 0 = []" by (simp_all add: defs)
  then show ?thesis using barrier_rendezvous [OF sample_bar_reached, of 1 0] by simp
qed

text \<open>
  C20: no lost wake-up and no deadlock in the barrier of thread mode: a rank that waits while every rank has arrived at its
  barrier finds, on looking at the generation, that it may leave; and in every reachable state some rank is outside or may leave.
\<close>

theorem barrier_releases:
  assumes "(bar_step P)\<^sup>*\<^sup>* bar_start c" and "0 < P"
  shows "(\<forall>r g. r < P \<and> br_pc c r = Waiting g \<and> (\<forall>q<P. length (br_arr c r) \<le> length (br_arr c q)) \<longrightarrow> bar_wake g (br_shared c) \<noteq> None)
    \<and> (\<exists>r<P. br_pc c r = Outside \<or> (\<exists>g. br_pc c r = Waiting g \<and> bar_wake g (br_shared c) \<noteq> None))"
proof -
  from tb.reach_inv [OF assms] obtain G where inv: "bar_inv P G c" by blast
  then have gen: "barrier_gen (br_shared c) = word_of_nat (Suc G)" and places: "\<forall>r<P. bar_place G c r"
    and few: "card (waiting_in P G c) < P" by (auto simp: bar_inv_def)
  have "waiting_in P G c \<subseteq> {..<P}" by (auto simp: waiting_in_def)
  moreover have "waiting_in P G c \<noteq> {..<P}" using few card_lessThan [of P] by (metis less_irrefl)
  ultimately obtain q where q: "q < P" "br_pc c q \<noteq> Waiting (word_of_nat (Suc G))" by (auto simp: waiting_in_def)
  then have lag: "length (br_arr c q) = G" using places by (auto simp: bar_place_def)
  have "bar_wake g (br_shared c) \<noteq> None" if "r < P" "br_pc c r = Waiting g" "\<forall>q<P. length (br_arr c r) \<le> length (br_arr c q)" for r g
  proof -
    have le: "length (br_arr c r) \<le> G" using that(3) [rule_format, OF q(1)] lag by simp
    have "bar_place G c r" using places that(1) by blast
    then have "g \<noteq> word_of_nat (Suc G)" using le that(2) next_gen(2) [of G] by (auto simp: bar_place_def)
    then show ?thesis using gen by (simp add: bar_wake_def)
  qed
  moreover have "br_pc c q = Outside \<or> (\<exists>g. br_pc c q = Waiting g \<and> bar_wake g (br_shared c) \<noteq> None)"
    using q gen by (cases "br_pc c q") (auto simp: bar_wake_def)
  ultimately show ?thesis using q(1) by blast
qed

theorem barrier_releases_witness:
  "br_pc sample_bar 0 = Waiting 1 \<and> bar_wake 1 (br_shared sample_bar) \<noteq> None"
proof -
  note defs = sample_bar_def enter_def bar_enter_def leave_def bar_start_def bar_init_def
  have pc: "br_pc sample_bar 0 = Waiting 1" by (simp add: defs)
  have "length (br_arr sample_bar 0) \<le> length (br_arr sample_bar q)" if "q < 3" for q
  proof -
    from that have "q = 0 \<or> q = 1 \<or> q = 2" by linarith
    then show ?thesis by (elim disjE) (simp_all add: defs)
  qed
  then have "bar_wake 1 (br_shared sample_bar) \<noteq> None"
    using barrier_releases [OF sample_bar_reached, THEN conjunct1, rule_format, of 0 1] pc by simp
  then show ?thesis using pc by blast
qed

section \<open>Process-shared mode\<close>

text \<open>
  Between the accesses to the shared counters the other ranks run: a rank has read the generation, is the last and has yet to
  reset the counter, or has yet to advance the generation, or spins until the generation changes.
\<close>

datatype SpinPc = SOut | SRead "32 word" | SReset | SBump | SSpin "32 word"

record SpinRun =
  sp_gen :: "32 word"
  sp_count :: nat
  sp_pc :: "nat \<Rightarrow> SpinPc"
  sp_arr :: "nat \<Rightarrow> nat"
  sp_left :: "nat \<Rightarrow> nat"

definition spin_start :: SpinRun where
  "spin_start = \<lparr>sp_gen = 1, sp_count = 0, sp_pc = (\<lambda>_. SOut), sp_arr = (\<lambda>_. 0), sp_left = (\<lambda>_. 0)\<rparr>"

definition spin_exit :: "nat \<Rightarrow> SpinRun \<Rightarrow> SpinRun" where
  "spin_exit r c = c\<lparr>sp_pc := (sp_pc c)(r := SOut), sp_left := (sp_left c)(r := sp_left c r + 1)\<rparr>"

definition spin_read :: "nat \<Rightarrow> SpinRun \<Rightarrow> SpinRun" where
  "spin_read r c = c\<lparr>sp_pc := (sp_pc c)(r := SRead (sp_gen c))\<rparr>"

definition spin_add :: "nat \<Rightarrow> nat \<Rightarrow> 32 word \<Rightarrow> SpinRun \<Rightarrow> SpinRun" where
  "spin_add P r gen c =
     (let pos = sp_count c + 1
      in c\<lparr>sp_count := pos, sp_arr := (sp_arr c)(r := sp_arr c r + 1), sp_pc := (sp_pc c)(r := if pos \<ge> P then SReset else SSpin gen)\<rparr>)"

definition spin_reset :: "nat \<Rightarrow> SpinRun \<Rightarrow> SpinRun" where
  "spin_reset r c = c\<lparr>sp_count := 0, sp_pc := (sp_pc c)(r := SBump)\<rparr>"

definition spin_bump :: "nat \<Rightarrow> SpinRun \<Rightarrow> SpinRun" where
  "spin_bump r c = spin_exit r (c\<lparr>sp_gen := sp_gen c + 1\<rparr>)"

inductive spin_step :: "nat \<Rightarrow> SpinRun \<Rightarrow> SpinRun \<Rightarrow> bool" for P where
  read: "r < P \<Longrightarrow> sp_pc c r = SOut \<Longrightarrow> spin_step P c (spin_read r c)"
| add: "r < P \<Longrightarrow> sp_pc c r = SRead g \<Longrightarrow> spin_step P c (spin_add P r g c)"
| reset: "r < P \<Longrightarrow> sp_pc c r = SReset \<Longrightarrow> spin_step P c (spin_reset r c)"
| bump: "r < P \<Longrightarrow> sp_pc c r = SBump \<Longrightarrow> spin_step P c (spin_bump r c)"
| spin: "r < P \<Longrightarrow> sp_pc c r = SSpin g \<Longrightarrow> sp_gen c \<noteq> g \<Longrightarrow> spin_step P c (spin_exit r c)"

definition spin_place :: "nat \<Rightarrow> SpinRun \<Rightarrow> nat \<Rightarrow> bool" where
  "spin_place G c r \<longleftrightarrow>
     (case sp_pc c r of
        SOut \<Rightarrow> sp_arr c r = G \<and> sp_left c r = G
      | SRead g \<Rightarrow> g = word_of_nat (Suc G) \<and> sp_arr c r = G \<and> sp_left c r = G
      | SSpin g \<Rightarrow> g = word_of_nat (Suc G) \<and> sp_arr c r = Suc G \<and> sp_left c r = G
                 \<or> 0 < G \<and> g = word_of_nat G \<and> sp_arr c r = G \<and> sp_left c r = G - 1
      | _ \<Rightarrow> sp_arr c r = Suc G \<and> sp_left c r = G)"

definition is_last :: "SpinPc \<Rightarrow> bool" where
  "is_last p = (p = SReset \<or> p = SBump)"

definition arrived_in :: "nat \<Rightarrow> nat \<Rightarrow> SpinRun \<Rightarrow> nat set" where
  "arrived_in P G c = {r. r < P \<and> sp_arr c r = Suc G}"

text \<open>Either one rank is the last and all have arrived, or the counter is the number of those that have.\<close>

definition spin_inv :: "nat \<Rightarrow> nat \<Rightarrow> SpinRun \<Rightarrow> bool" where
  "spin_inv P G c \<longleftrightarrow>
     sp_gen c = word_of_nat (Suc G) \<and> (\<forall>r<P. spin_place G c r)
   \<and> ((\<exists>l<P. is_last (sp_pc c l) \<and> (\<forall>q<P. q \<noteq> l \<longrightarrow> sp_pc c q = SSpin (word_of_nat (Suc G))))
      \<or> (\<forall>q<P. \<not> is_last (sp_pc c q)) \<and> sp_count c = card (arrived_in P G c) \<and> sp_count c < P)"

lemma spin_start_inv: "0 < P \<Longrightarrow> spin_inv P 0 spin_start"
  by (simp add: spin_inv_def spin_start_def spin_place_def is_last_def arrived_in_def)

lemma arrived_in_finite [simp]: "finite (arrived_in P G c)"
  by (simp add: arrived_in_def)

lemma spin_place_cong:
  "sp_pc d q = sp_pc c q \<Longrightarrow> sp_arr d q = sp_arr c q \<Longrightarrow> sp_left d q = sp_left c q \<Longrightarrow> spin_place G d q = spin_place G c q"
  by (simp only: spin_place_def)

lemma spin_place_between: "spin_place G c r \<Longrightarrow> sp_left c r \<le> G \<and> G \<le> sp_arr c r"
  by (cases "sp_pc c r") (auto simp: spin_place_def)

lemma spin_no_last: "spin_inv P G c \<Longrightarrow> r < P \<Longrightarrow> sp_pc c r = SOut \<or> sp_pc c r = SRead g \<or> sp_pc c r = SSpin h \<and> h \<noteq> word_of_nat (Suc G) \<Longrightarrow>
    (\<forall>q<P. \<not> is_last (sp_pc c q)) \<and> sp_count c = card (arrived_in P G c) \<and> sp_count c < P"
  unfolding spin_inv_def is_last_def by (elim conjE disjE exE) auto

lemma spin_last: "spin_inv P G c \<Longrightarrow> r < P \<Longrightarrow> is_last (sp_pc c r) \<Longrightarrow>
    \<forall>q<P. q \<noteq> r \<longrightarrow> sp_pc c q = SSpin (word_of_nat (Suc G))"
  unfolding spin_inv_def is_last_def by (metis SpinPc.distinct(17,19))

lemma spin_read_inv:
  assumes inv: "spin_inv P G c" and r: "r < P" "sp_pc c r = SOut"
  shows "spin_inv P G (spin_read r c)"
proof -
  note nl = spin_no_last [OF inv r(1), of 0 0] r(2)
  have "arrived_in P G (spin_read r c) = arrived_in P G c" by (simp add: arrived_in_def spin_read_def)
  moreover have "spin_place G (spin_read r c) q" if "q < P" for q
  proof (cases "q = r")
    case True
    have "spin_place G c r" using inv r(1) by (simp add: spin_inv_def)
    then show ?thesis using True r(2) inv by (simp add: spin_place_def spin_read_def spin_inv_def)
  next
    case False
    then show ?thesis using inv that spin_place_cong [of "spin_read r c" q c G] by (simp add: spin_inv_def spin_read_def)
  qed
  ultimately show ?thesis using inv nl by (auto simp: spin_inv_def spin_read_def is_last_def)
qed

lemma spin_add_inv:
  assumes inv: "spin_inv P G c" and r: "r < P" "sp_pc c r = SRead g"
  shows "spin_inv P G (spin_add P r g c)"
proof -
  let ?c = "spin_add P r g c"
  have nl: "\<forall>q<P. \<not> is_last (sp_pc c q)" "sp_count c = card (arrived_in P G c)" "sp_count c < P"
    using spin_no_last [OF inv r(1), of g 0] r(2) by auto
  have places: "\<forall>q<P. spin_place G c q" and gen: "sp_gen c = word_of_nat (Suc G)" using inv by (auto simp: spin_inv_def)
  have pr: "g = word_of_nat (Suc G)" "sp_arr c r = G" "sp_left c r = G" using places r by (auto simp: spin_place_def)
  have arr: "arrived_in P G ?c = insert r (arrived_in P G c)" "r \<notin> arrived_in P G c"
    using r(1) pr(2) by (auto simp: arrived_in_def spin_add_def Let_def)
  have place: "spin_place G ?c q" if "q < P" for q
  proof (cases "q = r")
    case True
    then show ?thesis using pr by (simp add: spin_place_def spin_add_def Let_def)
  next
    case False
    then show ?thesis using places that spin_place_cong [of ?c q c G] by (simp add: spin_add_def Let_def)
  qed
  have gen': "sp_gen ?c = word_of_nat (Suc G)" using gen by (simp add: spin_add_def Let_def)
  show ?thesis
  proof (cases "sp_count c + 1 \<ge> P")
    case True
    have "arrived_in P G c = {..<P} - {r}"
    proof (rule card_seteq)
      show "arrived_in P G c \<subseteq> {..<P} - {r}" using arr(2) by (auto simp: arrived_in_def)
      show "card ({..<P} - {r}) \<le> card (arrived_in P G c)" using True nl(2) r(1) by simp
    qed simp
    then have "sp_pc c q = SSpin (word_of_nat (Suc G))" if "q < P" "q \<noteq> r" for q
    proof -
      have "q \<in> arrived_in P G c" using \<open>arrived_in P G c = {..<P} - {r}\<close> that by simp
      then have "sp_arr c q = Suc G" "spin_place G c q" "\<not> is_last (sp_pc c q)" using places nl(1) that by (auto simp: arrived_in_def)
      then show ?thesis by (auto simp: spin_place_def is_last_def split: SpinPc.splits)
    qed
    then have "\<exists>l<P. is_last (sp_pc ?c l) \<and> (\<forall>q<P. q \<noteq> l \<longrightarrow> sp_pc ?c q = SSpin (word_of_nat (Suc G)))"
      using r(1) True by (intro exI [of _ r]) (simp add: spin_add_def Let_def is_last_def)
    then show ?thesis unfolding spin_inv_def using place gen' by blast
  next
    case False
    then have "(\<forall>q<P. \<not> is_last (sp_pc ?c q)) \<and> sp_count ?c = card (arrived_in P G ?c) \<and> sp_count ?c < P"
      using nl arr by (auto simp: spin_add_def Let_def is_last_def)
    then show ?thesis unfolding spin_inv_def using place gen' by blast
  qed
qed

lemma spin_reset_inv:
  assumes inv: "spin_inv P G c" and r: "r < P" "sp_pc c r = SReset"
  shows "spin_inv P G (spin_reset r c)"
proof -
  have others: "\<forall>q<P. q \<noteq> r \<longrightarrow> sp_pc c q = SSpin (word_of_nat (Suc G))" using spin_last [OF inv r(1)] r(2) by (simp add: is_last_def)
  have "spin_place G (spin_reset r c) q" if "q < P" for q
  proof (cases "q = r")
    case True
    have "spin_place G c r" using inv r(1) by (simp add: spin_inv_def)
    then show ?thesis using True r(2) by (simp add: spin_place_def spin_reset_def)
  next
    case False
    then show ?thesis using inv that spin_place_cong [of "spin_reset r c" q c G] by (simp add: spin_inv_def spin_reset_def)
  qed
  moreover have "\<exists>l<P. is_last (sp_pc (spin_reset r c) l) \<and> (\<forall>q<P. q \<noteq> l \<longrightarrow> sp_pc (spin_reset r c) q = SSpin (word_of_nat (Suc G)))"
    using others r(1) by (intro exI [of _ r]) (simp add: spin_reset_def is_last_def)
  ultimately show ?thesis using inv unfolding spin_inv_def by (simp add: spin_reset_def)
qed

lemma spin_bump_inv:
  assumes inv: "spin_inv P G c" and r: "r < P" "sp_pc c r = SBump" and zero: "sp_count c = 0"
  shows "spin_inv P (Suc G) (spin_bump r c)"
proof -
  let ?c = "spin_bump r c"
  have others: "\<forall>q<P. q \<noteq> r \<longrightarrow> sp_pc c q = SSpin (word_of_nat (Suc G))" using spin_last [OF inv r(1)] r(2) by (simp add: is_last_def)
  have places: "\<forall>q<P. spin_place G c q" using inv by (simp add: spin_inv_def)
  have arr: "sp_arr c q = Suc G" "sp_left c q = G" if "q < P" for q
  proof -
    have "spin_place G c q" using places that by blast
    then show "sp_arr c q = Suc G" "sp_left c q = G"
      using others r(2) that next_gen(1) [of G] by (cases "q = r", auto simp: spin_place_def simp del: of_nat_Suc)+
  qed
  have pc: "sp_pc ?c q = (if q = r then SOut else SSpin (word_of_nat (Suc G)))" if "q < P" for q
    using others that by (simp add: spin_bump_def spin_exit_def del: of_nat_Suc)
  have place: "spin_place (Suc G) ?c q" if "q < P" for q
    unfolding spin_place_def pc [OF that] using arr [OF that] by (auto simp: spin_bump_def spin_exit_def)
  have "sp_gen ?c = word_of_nat (Suc (Suc G))" using inv by (simp add: spin_inv_def spin_bump_def spin_exit_def)
  moreover have "arrived_in P (Suc G) ?c = {}" using arr by (auto simp: arrived_in_def spin_bump_def spin_exit_def)
  moreover have "sp_count ?c = 0" using zero by (simp add: spin_bump_def spin_exit_def)
  moreover have "\<not> is_last (sp_pc ?c q)" if "q < P" for q unfolding pc [OF that] by (simp add: is_last_def)
  ultimately show ?thesis unfolding spin_inv_def using place r(1) by (metis card.empty gr_zeroI not_less_zero)
qed

lemma spin_exit_inv:
  assumes inv: "spin_inv P G c" and r: "r < P" "sp_pc c r = SSpin g" "sp_gen c \<noteq> g"
  shows "spin_inv P G (spin_exit r c)"
proof -
  let ?c = "spin_exit r c"
  have gen: "sp_gen c = word_of_nat (Suc G)" and places: "\<forall>q<P. spin_place G c q" using inv by (auto simp: spin_inv_def)
  have g: "g \<noteq> word_of_nat (Suc G)" using r(3) gen by metis
  have nl: "\<forall>q<P. \<not> is_last (sp_pc c q)" "sp_count c = card (arrived_in P G c)" "sp_count c < P"
    using spin_no_last [OF inv r(1), of 0 g] r(2) g by blast+
  have "spin_place G c r" using places r(1) by blast
  then have old: "0 < G" "sp_arr c r = G" "sp_left c r = G - 1" using r(2) g by (simp_all add: spin_place_def del: of_nat_Suc)
  have "spin_place G ?c q" if "q < P" for q
  proof (cases "q = r")
    case True
    then show ?thesis using old by (simp add: spin_place_def spin_exit_def)
  next
    case False
    then show ?thesis using places that spin_place_cong [of ?c q c G] by (simp add: spin_exit_def)
  qed
  moreover have "\<forall>q<P. \<not> is_last (sp_pc ?c q)" using nl(1) by (simp add: spin_exit_def is_last_def)
  moreover have "arrived_in P G ?c = arrived_in P G c" "sp_count ?c = sp_count c" "sp_gen ?c = sp_gen c"
    by (simp_all add: arrived_in_def spin_exit_def)
  ultimately show ?thesis unfolding spin_inv_def using nl(2,3) gen by metis
qed

text \<open>The counter is zero between the reset and the advance of the generation.\<close>

definition spin_zero :: "nat \<Rightarrow> SpinRun \<Rightarrow> bool" where
  "spin_zero P c \<longleftrightarrow> (\<forall>r<P. sp_pc c r = SBump \<longrightarrow> sp_count c = 0)"

lemma spin_step_inv:
  assumes "spin_step P c d" and "spin_inv P G c \<and> spin_zero P c"
  shows "\<exists>G'. spin_inv P G' d \<and> spin_zero P d"
  using assms
proof (cases rule: spin_step.cases)
  case (read r)
  then show ?thesis using assms spin_read_inv [of P G c r] by (intro exI [of _ G]) (auto simp: spin_zero_def spin_read_def)
next
  case (add r g)
  have "spin_zero P d"
    using add spin_no_last [of P G c r g 0] assms(2) by (auto simp: spin_zero_def spin_add_def Let_def is_last_def)
  then show ?thesis using add assms(2) spin_add_inv [of P G c r g] by auto
next
  case (reset r)
  then show ?thesis using assms spin_reset_inv [of P G c r] by (intro exI [of _ G]) (auto simp: spin_zero_def spin_reset_def)
next
  case (bump r)
  have zero: "sp_count c = 0" using bump assms(2) by (auto simp: spin_zero_def)
  then have "spin_zero P d" using bump by (simp add: spin_zero_def spin_bump_def spin_exit_def)
  then show ?thesis using bump assms(2) spin_bump_inv [of P G c r] zero by auto
next
  case (spin r g)
  then show ?thesis using assms(2) spin_exit_inv [of P G c r g] by (intro exI [of _ G]) (auto simp: spin_zero_def spin_exit_def)
qed

interpretation sb: barrier_machine spin_step spin_start "\<lambda>P G c. spin_inv P G c \<and> spin_zero P c" sp_arr sp_left
proof unfold_locales
  show "spin_inv P 0 spin_start \<and> spin_zero P spin_start" if "0 < P" for P
    using spin_start_inv [OF that] by (simp add: spin_zero_def spin_start_def)
  show "\<exists>G'. spin_inv P G' d \<and> spin_zero P d" if "spin_step P c d" "spin_inv P G c \<and> spin_zero P c" for P c d G
    using that by (rule spin_step_inv)
  show "sp_left c r \<le> G \<and> G \<le> sp_arr c r" if "spin_inv P G c \<and> spin_zero P c" "r < P" for P G c r
    using that spin_place_between by (simp add: spin_inv_def)
qed

text \<open>
  C21: the lock-free barrier of the process-shared mode holds and releases, with the ranks interleaved at every access to the
  shared counters: no rank has left more barriers than every other rank has arrived at, and in every reachable state
  some rank can take a step, so that no rank spins for ever while all others spin too.
\<close>

theorem spin_barrier_correct:
  assumes "(spin_step P)\<^sup>*\<^sup>* spin_start c" and "0 < P"
  shows "(\<forall>r q. r < P \<and> q < P \<longrightarrow> sp_left c r \<le> sp_arr c q) \<and> (\<exists>d. spin_step P c d)"
proof (intro conjI allI impI)
  show "sp_left c r \<le> sp_arr c q" if "r < P \<and> q < P" for r q using sb.no_early_exit [OF assms(1)] that by blast
  from sb.reach_inv [OF assms] obtain G where inv: "spin_inv P G c" by blast
  then have gen: "sp_gen c = word_of_nat (Suc G)" and places: "\<forall>q<P. spin_place G c q" by (auto simp: spin_inv_def)
  show "\<exists>d. spin_step P c d"
  proof (cases "\<exists>r<P. is_last (sp_pc c r)")
    case True
    then show ?thesis using spin_step.reset spin_step.bump unfolding is_last_def by blast
  next
    case False
    then have few: "card (arrived_in P G c) < P" using inv by (auto simp: spin_inv_def)
    have "arrived_in P G c \<subseteq> {..<P}" by (auto simp: arrived_in_def)
    moreover have "arrived_in P G c \<noteq> {..<P}" using few card_lessThan [of P] by (metis less_irrefl)
    ultimately obtain q where q: "q < P" "sp_arr c q \<noteq> Suc G" by (auto simp: arrived_in_def)
    have pq: "spin_place G c q" using places q(1) by blast
    show ?thesis
    proof (cases "sp_pc c q")
      case (SSpin g)
      then have "g = word_of_nat G" using pq q(2) by (auto simp: spin_place_def)
      then have "sp_gen c \<noteq> g" using gen next_gen(1) [of G] by metis
      then show ?thesis using spin_step.spin [OF q(1) SSpin] by blast
    next
      case SOut
      then show ?thesis using spin_step.read [OF q(1)] by blast
    next
      case (SRead g)
      then show ?thesis using spin_step.add [OF q(1)] by blast
    qed (use False q in \<open>auto simp: is_last_def\<close>)
  qed
qed

definition sample_spin :: SpinRun where
  "sample_spin = spin_bump 1 (spin_reset 1 (spin_add 2 1 1 (spin_add 2 0 1 (spin_read 1 (spin_read 0 spin_start)))))"

theorem spin_barrier_correct_witness: "sp_left sample_spin 1 = 1 \<and> sp_left sample_spin 1 \<le> sp_arr sample_spin 0 \<and> sp_left sample_spin 0 = 0"
proof -
  let ?c1 = "spin_read 0 spin_start" and ?c2 = "spin_read 1 (spin_read 0 spin_start)"
  let ?c3 = "spin_add 2 0 1 (spin_read 1 (spin_read 0 spin_start))"
  let ?c4 = "spin_add 2 1 1 (spin_add 2 0 1 (spin_read 1 (spin_read 0 spin_start)))"
  let ?c5 = "spin_reset 1 (spin_add 2 1 1 (spin_add 2 0 1 (spin_read 1 (spin_read 0 spin_start))))"
  note defs = spin_start_def spin_read_def spin_add_def spin_reset_def spin_bump_def spin_exit_def
  have "spin_step 2 spin_start ?c1" by (rule spin_step.read) (simp_all add: defs)
  moreover have "spin_step 2 ?c1 ?c2" by (rule spin_step.read) (simp_all add: defs)
  moreover have "spin_step 2 ?c2 ?c3" by (rule spin_step.add) (simp_all add: defs)
  moreover have "spin_step 2 ?c3 ?c4" by (rule spin_step.add) (simp_all add: defs)
  moreover have "spin_step 2 ?c4 ?c5" by (rule spin_step.reset) (simp_all add: defs)
  moreover have "spin_step 2 ?c5 sample_spin" unfolding sample_spin_def by (rule spin_step.bump) (simp_all add: defs)
  ultimately have "(spin_step 2)\<^sup>*\<^sup>* spin_start sample_spin" by (meson rtranclp.rtrancl_into_rtrancl rtranclp.rtrancl_refl)
  from spin_barrier_correct [OF this, THEN conjunct1, rule_format, of 1 0] show ?thesis by (simp add: sample_spin_def defs)
qed

end
