(* ===== verification/Trace_Writer.thy ===== *)
theory Trace_Writer
  imports Trace_Yaml
begin

text \<open>
  \<^verbatim>\<open>TraceWriter\<close> (\<^verbatim>\<open>src/trace/trace_writer.cpp\<close>): events are buffered and flushed to the file;
  \<^verbatim>\<open>open\<close> leaves a provisional header that \<^verbatim>\<open>close\<close> overwrites in place with the counts. A file
  is its bytes; an output stream is the bytes and the put position. The methods run under
  the writer's mutex, so each is one step.
\<close>

section \<open>The output stream\<close>

record ofstream =
  of_open :: bool
  of_data :: "u8 list"
  of_pos :: nat

definition ostream_write :: "ofstream \<Rightarrow> u8 list \<Rightarrow> ofstream" where
  "ostream_write f bs = f\<lparr>of_data := memcpy_at (of_data f) (of_pos f) bs, of_pos := of_pos f + length bs\<rparr>"

definition byte_of_char :: "char \<Rightarrow> u8" where "byte_of_char c = word_of_nat (of_char c)"
definition char_of_byte :: "u8 \<Rightarrow> char" where "char_of_byte b = char_of (unat b)"

definition ostream_puts :: "ofstream \<Rightarrow> string \<Rightarrow> ofstream" where
  "ostream_puts f s = ostream_write f (map byte_of_char s)"

lemma char_of_byte_of_char [simp]: "char_of_byte (byte_of_char c) = c"
proof -
  have "unat (word_of_nat (of_char c) :: u8) = of_char c"
    by (simp add: unsigned_of_nat take_bit_nat_eq_self)
  then show ?thesis by (simp add: char_of_byte_def byte_of_char_def)
qed

section \<open>The writer\<close>

record TraceWriter =
  tw_file :: ofstream
  tw_filename :: string
  tw_config :: TraceConfig
  tw_event_count :: u64
  tw_first_cycle :: u64
  tw_last_cycle :: u64
  tw_header_offset :: u64
  tw_events_offset :: u64
  tw_buffer :: "TraceEvent list"
  tw_buffer_size :: nat

definition TraceWriter_init :: TraceWriter where
  "TraceWriter_init = \<lparr>tw_file = \<lparr>of_open = False, of_data = [], of_pos = 0\<rparr>, tw_filename = [],
     tw_config = TraceConfig_default, tw_event_count = 0, tw_first_cycle = - 1, tw_last_cycle = 0,
     tw_header_offset = 0, tw_events_offset = 0, tw_buffer = [], tw_buffer_size = 10000\<rparr>"

definition header_with :: "u64 \<Rightarrow> u64 \<Rightarrow> u64 \<Rightarrow> u64 \<Rightarrow> u64 \<Rightarrow> TraceHeader" where
  "header_with num_events header_size num_pes first_cycle last_cycle =
     \<lparr>th_magic = TRACE_MAGIC, th_version = TRACE_VERSION, th_header_flags = 0, th_num_events = num_events,
      th_header_size = header_size, th_num_pes = num_pes, th_first_cycle = first_cycle, th_last_cycle = last_cycle,
      th_reserved0 = 0, th_reserved1 = 0, th_reserved2 = 0, th_reserved3 = 0\<rparr>"

definition writeHeader :: "TraceWriter \<Rightarrow> TraceWriter" where
  "writeHeader w = w\<lparr>tw_header_offset := word_of_nat (of_pos (tw_file w)),
     tw_file := ostream_write (tw_file w)
       (header_bytes (header_with 0 0 (ucast (tc_num_pes (tw_config w))) 0 0))\<rparr>"

definition writeYAMLMetadata :: "(real \<Rightarrow> string) \<Rightarrow> string \<Rightarrow> TraceWriter \<Rightarrow> TraceWriter" where
  "writeYAMLMetadata sd now w =
     w\<lparr>tw_file := ostream_puts (ostream_puts (tw_file w) (generateYAML sd now (tw_config w))) (''---'' @ [NL])\<rparr>"

text \<open>\<^verbatim>\<open>open\<close>; \<open>can_open\<close> is whether the system opened the file, which is truncated.\<close>

definition writer_open ::
  "(real \<Rightarrow> string) \<Rightarrow> string \<Rightarrow> bool \<Rightarrow> string \<Rightarrow> TraceConfig \<Rightarrow> TraceWriter \<Rightarrow> bool \<times> TraceWriter" where
  "writer_open sd now can_open filename config w =
     (if of_open (tw_file w) then (False, w)
      else if \<not> can_open then (False, w)
      else let w1 = w\<lparr>tw_file := \<lparr>of_open = True, of_data = [], of_pos = 0\<rparr>, tw_filename := filename,
                     tw_config := config, tw_event_count := 0, tw_first_cycle := - 1, tw_last_cycle := 0,
                     tw_buffer := []\<rparr>;
               w2 = writeYAMLMetadata sd now (writeHeader w1)
           in (True, w2\<lparr>tw_events_offset := word_of_nat (of_pos (tw_file w2))\<rparr>))"

definition flushBuffer :: "TraceWriter \<Rightarrow> TraceWriter" where
  "flushBuffer w =
     (if tw_buffer w = [] then w
      else w\<lparr>tw_file := foldl (\<lambda>f e. ostream_write f (event_bytes e)) (tw_file w) (tw_buffer w),
             tw_event_count := tw_event_count w + word_of_nat (length (tw_buffer w)), tw_buffer := []\<rparr>)"

definition writeEvent :: "TraceWriter \<Rightarrow> TraceEvent \<Rightarrow> TraceWriter" where
  "writeEvent w event =
     (if \<not> of_open (tw_file w) then w
      else let w1 = w\<lparr>tw_buffer := tw_buffer w @ [event]\<rparr>;
               w2 = (if te_cycle event < tw_first_cycle w1 then w1\<lparr>tw_first_cycle := te_cycle event\<rparr> else w1);
               w3 = (if te_cycle event > tw_last_cycle w2 then w2\<lparr>tw_last_cycle := te_cycle event\<rparr> else w2)
           in if tw_buffer_size w3 \<le> length (tw_buffer w3) then flushBuffer w3 else w3)"

definition updateHeader :: "TraceWriter \<Rightarrow> TraceWriter" where
  "updateHeader w =
     (let f = (tw_file w)\<lparr>of_pos := unat (tw_header_offset w)\<rparr>;
          g = ostream_write f (header_bytes (header_with (tw_event_count w) (tw_events_offset w)
                (ucast (tc_num_pes (tw_config w))) (tw_first_cycle w) (tw_last_cycle w)))
      in w\<lparr>tw_file := g\<lparr>of_pos := length (of_data g)\<rparr>\<rparr>)"

definition writer_close :: "TraceWriter \<Rightarrow> TraceWriter" where
  "writer_close w =
     (if \<not> of_open (tw_file w) then w
      else let w1 = updateHeader (flushBuffer w) in w1\<lparr>tw_file := (tw_file w1)\<lparr>of_open := False\<rparr>\<rparr>)"

definition flush :: "TraceWriter \<Rightarrow> TraceWriter" where
  "flush w = (if of_open (tw_file w) then flushBuffer w else w)"

definition setBufferSize :: "TraceWriter \<Rightarrow> nat \<Rightarrow> TraceWriter" where
  "setBufferSize w sz = w\<lparr>tw_buffer_size := max sz 1\<rparr>"

section \<open>The record methods\<close>

text \<open>Each builds an event from zero (\<^verbatim>\<open>TraceEvent event = {}\<close>) and passes it to \<^verbatim>\<open>writeEvent\<close>.\<close>

definition zero_event :: TraceEvent where
  "zero_event = \<lparr>te_cycle = 0, te_address = 0, te_aux_data = 0, te_pe_id = 0, te_size = 0, te_src_node = 0,
     te_dst_node = 0, te_reserved = 0, te_event_type = 0, te_flags = 0\<rparr>"

definition recordMemoryAccess ::
  "TraceWriter \<Rightarrow> Cycle \<Rightarrow> u32 \<Rightarrow> u64 \<Rightarrow> u32 \<Rightarrow> bool \<Rightarrow> u16 \<Rightarrow> TraceWriter" where
  "recordMemoryAccess w cycle pe_id addr sz is_write flags =
     writeEvent w (zero_event\<lparr>te_cycle := cycle, te_address := addr, te_pe_id := pe_id, te_size := sz,
       te_event_type := event_code (if is_write then MEM_WRITE else MEM_READ), te_flags := flags\<rparr>)"

definition recordAtomicOp :: "TraceWriter \<Rightarrow> Cycle \<Rightarrow> u32 \<Rightarrow> u64 \<Rightarrow> u32 \<Rightarrow> u16 \<Rightarrow> TraceWriter" where
  "recordAtomicOp w cycle pe_id addr sz flags =
     writeEvent w (zero_event\<lparr>te_cycle := cycle, te_address := addr, te_pe_id := pe_id, te_size := sz,
       te_event_type := event_code MEM_ATOMIC, te_flags := flags\<rparr>)"

definition recordPIMOp :: "TraceWriter \<Rightarrow> Cycle \<Rightarrow> u32 \<Rightarrow> u64 \<Rightarrow> u32 \<Rightarrow> u16 \<Rightarrow> u16 \<Rightarrow> TraceWriter" where
  "recordPIMOp w cycle pe_id addr sz op_type flags =
     writeEvent w (zero_event\<lparr>te_cycle := cycle, te_address := addr, te_pe_id := pe_id, te_size := sz,
       te_event_type := op_type, te_flags := flags\<rparr>)"

definition recordNetworkPacket :: "TraceWriter \<Rightarrow> Cycle \<Rightarrow> u32 \<Rightarrow> u32 \<Rightarrow> u32 \<Rightarrow> u64 \<Rightarrow> TraceWriter" where
  "recordNetworkPacket w cycle src_node dst_node sz addr =
     writeEvent w (zero_event\<lparr>te_cycle := cycle, te_address := addr, te_size := sz,
       te_event_type := event_code NET_SEND, te_src_node := src_node, te_dst_node := dst_node\<rparr>)"

definition recordCompute :: "TraceWriter \<Rightarrow> Cycle \<Rightarrow> u32 \<Rightarrow> u16 \<Rightarrow> u64 \<Rightarrow> TraceWriter" where
  "recordCompute w cycle pe_id op_type num_ops =
     writeEvent w (zero_event\<lparr>te_cycle := cycle, te_pe_id := pe_id, te_event_type := op_type,
       te_aux_data := num_ops\<rparr>)"

text \<open>The events that carry a cycle, a PE, their code and one value.\<close>

definition record_aux :: "TraceEventType \<Rightarrow> TraceWriter \<Rightarrow> Cycle \<Rightarrow> u32 \<Rightarrow> u64 \<Rightarrow> TraceWriter" where
  "record_aux t w cycle pe_id v =
     writeEvent w (zero_event\<lparr>te_cycle := cycle, te_pe_id := pe_id, te_event_type := event_code t, te_aux_data := v\<rparr>)"

definition recordBarrier :: "TraceWriter \<Rightarrow> Cycle \<Rightarrow> u32 \<Rightarrow> u64 \<Rightarrow> TraceWriter" where
  "recordBarrier = record_aux BARRIER"
definition recordTaskStart :: "TraceWriter \<Rightarrow> Cycle \<Rightarrow> u32 \<Rightarrow> u64 \<Rightarrow> TraceWriter" where
  "recordTaskStart = record_aux TASK_START"
definition recordTaskEnd :: "TraceWriter \<Rightarrow> Cycle \<Rightarrow> u32 \<Rightarrow> u64 \<Rightarrow> TraceWriter" where
  "recordTaskEnd = record_aux TASK_END"
definition recordOMPParallelStart :: "TraceWriter \<Rightarrow> Cycle \<Rightarrow> u32 \<Rightarrow> u32 \<Rightarrow> TraceWriter" where
  "recordOMPParallelStart w cycle pe_id num_threads = record_aux OMP_PARALLEL_START w cycle pe_id (ucast num_threads)"
definition recordOMPParallelEnd :: "TraceWriter \<Rightarrow> Cycle \<Rightarrow> u32 \<Rightarrow> TraceWriter" where
  "recordOMPParallelEnd w cycle pe_id = record_aux OMP_PARALLEL_END w cycle pe_id 0"
definition recordOMPBarrier :: "TraceWriter \<Rightarrow> Cycle \<Rightarrow> u32 \<Rightarrow> u64 \<Rightarrow> TraceWriter" where
  "recordOMPBarrier = record_aux OMP_BARRIER"
definition recordOMPCriticalStart :: "TraceWriter \<Rightarrow> Cycle \<Rightarrow> u32 \<Rightarrow> u32 \<Rightarrow> TraceWriter" where
  "recordOMPCriticalStart w cycle pe_id lock_id = record_aux OMP_CRITICAL_START w cycle pe_id (ucast lock_id)"
definition recordOMPCriticalEnd :: "TraceWriter \<Rightarrow> Cycle \<Rightarrow> u32 \<Rightarrow> u32 \<Rightarrow> TraceWriter" where
  "recordOMPCriticalEnd w cycle pe_id lock_id = record_aux OMP_CRITICAL_END w cycle pe_id (ucast lock_id)"

definition recordOMPAtomic :: "TraceWriter \<Rightarrow> Cycle \<Rightarrow> u32 \<Rightarrow> u64 \<Rightarrow> u16 \<Rightarrow> TraceWriter" where
  "recordOMPAtomic w cycle pe_id addr op_type =
     writeEvent w (zero_event\<lparr>te_cycle := cycle, te_pe_id := pe_id, te_address := addr,
       te_event_type := event_code OMP_ATOMIC, te_aux_data := ucast op_type\<rparr>)"

text \<open>An \<^verbatim>\<open>int\<close> tag is sign-extended to 64 bits.\<close>

definition recordMPISend :: "TraceWriter \<Rightarrow> Cycle \<Rightarrow> u32 \<Rightarrow> u32 \<Rightarrow> u32 \<Rightarrow> u32 \<Rightarrow> TraceWriter" where
  "recordMPISend w cycle src_pe dst_pe sz tag =
     writeEvent w (zero_event\<lparr>te_cycle := cycle, te_pe_id := src_pe, te_src_node := src_pe, te_dst_node := dst_pe,
       te_size := sz, te_event_type := event_code MPI_SEND, te_aux_data := scast tag\<rparr>)"

definition recordMPIRecv :: "TraceWriter \<Rightarrow> Cycle \<Rightarrow> u32 \<Rightarrow> u32 \<Rightarrow> u32 \<Rightarrow> u32 \<Rightarrow> TraceWriter" where
  "recordMPIRecv w cycle src_pe dst_pe sz tag =
     writeEvent w (zero_event\<lparr>te_cycle := cycle, te_pe_id := dst_pe, te_src_node := src_pe, te_dst_node := dst_pe,
       te_size := sz, te_event_type := event_code MPI_RECV, te_aux_data := scast tag\<rparr>)"

definition recordMPIBarrier :: "TraceWriter \<Rightarrow> Cycle \<Rightarrow> u32 \<Rightarrow> u32 \<Rightarrow> TraceWriter" where
  "recordMPIBarrier w cycle pe_id num_ranks = record_aux MPI_BARRIER w cycle pe_id (ucast num_ranks)"

definition recordMPIBcast :: "TraceWriter \<Rightarrow> Cycle \<Rightarrow> u32 \<Rightarrow> u32 \<Rightarrow> u32 \<Rightarrow> TraceWriter" where
  "recordMPIBcast w cycle pe_id root_pe sz =
     writeEvent w (zero_event\<lparr>te_cycle := cycle, te_pe_id := pe_id, te_src_node := root_pe, te_size := sz,
       te_event_type := event_code MPI_BCAST\<rparr>)"

definition recordMPIReduce :: "TraceWriter \<Rightarrow> Cycle \<Rightarrow> u32 \<Rightarrow> u32 \<Rightarrow> u32 \<Rightarrow> TraceWriter" where
  "recordMPIReduce w cycle pe_id root_pe sz =
     writeEvent w (zero_event\<lparr>te_cycle := cycle, te_pe_id := pe_id, te_dst_node := root_pe, te_size := sz,
       te_event_type := event_code MPI_REDUCE\<rparr>)"

definition recordMPIAllreduce :: "TraceWriter \<Rightarrow> Cycle \<Rightarrow> u32 \<Rightarrow> u32 \<Rightarrow> TraceWriter" where
  "recordMPIAllreduce w cycle pe_id sz =
     writeEvent w (zero_event\<lparr>te_cycle := cycle, te_pe_id := pe_id, te_size := sz,
       te_event_type := event_code MPI_ALLREDUCE\<rparr>)"

section \<open>What a writer has been given\<close>

definition first_cycle :: "TraceEvent list \<Rightarrow> u64" where
  "first_cycle evs = foldl min (- 1) (map te_cycle evs)"

definition last_cycle :: "TraceEvent list \<Rightarrow> u64" where
  "last_cycle evs = foldl max 0 (map te_cycle evs)"

definition events_bytes :: "TraceEvent list \<Rightarrow> u8 list" where
  "events_bytes evs = concat (map event_bytes evs)"

definition meta_bytes :: "(real \<Rightarrow> string) \<Rightarrow> string \<Rightarrow> TraceConfig \<Rightarrow> u8 list" where
  "meta_bytes sd now cfg = map byte_of_char (yaml_text sd now cfg)"

text \<open>
  \<open>writer_has sd now cfg evs w\<close>: \<open>w\<close> is open on a file whose metadata is that of \<open>cfg\<close> and has
  been given the events \<open>evs\<close>, some of them in the file already and the others in the buffer.
\<close>

definition writer_has ::
  "(real \<Rightarrow> string) \<Rightarrow> string \<Rightarrow> TraceConfig \<Rightarrow> TraceEvent list \<Rightarrow> TraceWriter \<Rightarrow> bool" where
  "writer_has sd now cfg evs w \<longleftrightarrow>
     (\<exists>h flushed. of_open (tw_file w) \<and> tw_config w = cfg
       \<and> of_data (tw_file w) = header_bytes h @ meta_bytes sd now cfg @ events_bytes flushed
       \<and> of_pos (tw_file w) = length (of_data (tw_file w)) \<and> evs = flushed @ tw_buffer w
       \<and> tw_header_offset w = 0
       \<and> tw_events_offset w = word_of_nat (HEADER_SIZE + length (meta_bytes sd now cfg))
       \<and> tw_event_count w = word_of_nat (length flushed)
       \<and> tw_first_cycle w = first_cycle evs \<and> tw_last_cycle w = last_cycle evs)"

text \<open>The file \<^verbatim>\<open>close\<close> leaves.\<close>

definition trace_header ::
  "(real \<Rightarrow> string) \<Rightarrow> string \<Rightarrow> TraceConfig \<Rightarrow> TraceEvent list \<Rightarrow> TraceHeader" where
  "trace_header sd now cfg evs = header_with (word_of_nat (length evs))
     (word_of_nat (HEADER_SIZE + length (meta_bytes sd now cfg))) (ucast (tc_num_pes cfg))
     (first_cycle evs) (last_cycle evs)"

definition trace_file :: "(real \<Rightarrow> string) \<Rightarrow> string \<Rightarrow> TraceConfig \<Rightarrow> TraceEvent list \<Rightarrow> u8 list" where
  "trace_file sd now cfg evs =
     header_bytes (trace_header sd now cfg evs) @ meta_bytes sd now cfg @ events_bytes evs"

lemma memcpy_at_end: "off = length d \<Longrightarrow> memcpy_at d off bs = d @ bs"
  by (simp add: memcpy_at_def)

lemma memcpy_at_front: "length bs = length a \<Longrightarrow> memcpy_at (a @ d) 0 bs = bs @ d"
  by (simp add: memcpy_at_def)

lemma ostream_write_end:
  "of_pos f = length (of_data f) \<Longrightarrow>
     ostream_write f bs = f\<lparr>of_data := of_data f @ bs, of_pos := length (of_data f @ bs)\<rparr>"
  by (simp add: ostream_write_def memcpy_at_end)

lemma events_bytes_simps [simp]:
  "events_bytes [] = []" "events_bytes (e # es) = event_bytes e @ events_bytes es"
  "events_bytes (es @ fs) = events_bytes es @ events_bytes fs"
  by (simp_all add: events_bytes_def)

lemma length_events_bytes [simp]: "length (events_bytes evs) = EVENT_SIZE * length evs"
  by (induction evs) auto

lemma write_events_end:
  "of_pos f = length (of_data f) \<Longrightarrow> foldl (\<lambda>f e. ostream_write f (event_bytes e)) f es =
     f\<lparr>of_data := of_data f @ events_bytes es, of_pos := length (of_data f @ events_bytes es)\<rparr>"
  by (induction es arbitrary: f) (simp_all add: ostream_write_end)

lemma cycle_snoc [simp]:
  "first_cycle (evs @ [e]) = min (first_cycle evs) (te_cycle e)"
  "last_cycle (evs @ [e]) = max (last_cycle evs) (te_cycle e)"
  by (simp_all add: first_cycle_def last_cycle_def)

lemma cycle_Nil [simp]: "first_cycle [] = - 1" "last_cycle [] = 0"
  by (simp_all add: first_cycle_def last_cycle_def)

lemma writer_open_has:
  assumes "\<not> of_open (tw_file w)"
  shows "\<exists>w'. writer_open sd now True name cfg w = (True, w') \<and> writer_has sd now cfg [] w'"
proof -
  let ?h = "header_with 0 0 (ucast (tc_num_pes cfg)) 0 0"
  show ?thesis
    using assms
    by (simp add: writer_open_def Let_def writer_has_def writeHeader_def writeYAMLMetadata_def ostream_puts_def
        ostream_write_end meta_bytes_def yaml_text_def memcpy_at_end ostream_write_def exI [of _ ?h] exI [of _ "[]"])
qed

lemma flushBuffer_has: "writer_has sd now cfg evs w \<Longrightarrow> writer_has sd now cfg evs (flushBuffer w) \<and> tw_buffer (flushBuffer w) = []"
  by (auto simp: writer_has_def flushBuffer_def write_events_end) 

lemma writeEvent_has: "writer_has sd now cfg evs w \<Longrightarrow> writer_has sd now cfg (evs @ [e]) (writeEvent w e)"
proof -
  assume has: "writer_has sd now cfg evs w"
  define w3 where "w3 = w\<lparr>tw_buffer := tw_buffer w @ [e], tw_first_cycle := min (tw_first_cycle w) (te_cycle e),
     tw_last_cycle := max (tw_last_cycle w) (te_cycle e)\<rparr>"
  have "writer_has sd now cfg (evs @ [e]) w3"
    using has by (fastforce simp: writer_has_def w3_def)
  moreover have "writeEvent w e = (if tw_buffer_size w3 \<le> length (tw_buffer w3) then flushBuffer w3 else w3)"
    using has by (auto simp: writeEvent_def w3_def writer_has_def Let_def min_def max_def)
  ultimately show ?thesis using flushBuffer_has by simp
qed

lemma flush_has: "writer_has sd now cfg evs w \<Longrightarrow> writer_has sd now cfg evs (flush w)"
  using flushBuffer_has by (simp add: flush_def)

lemma setBufferSize_has: "writer_has sd now cfg evs w \<Longrightarrow> writer_has sd now cfg evs (setBufferSize w n)"
  by (simp add: writer_has_def setBufferSize_def)

lemma writer_close_file:
  assumes "writer_has sd now cfg evs w"
  shows "of_data (tw_file (writer_close w)) = trace_file sd now cfg evs \<and> \<not> of_open (tw_file (writer_close w))"
proof -
  let ?w = "flushBuffer w"
  have "writer_has sd now cfg evs ?w" "tw_buffer ?w = []" using flushBuffer_has [OF assms] by auto
  then show ?thesis using assms
    by (auto simp: writer_has_def writer_close_def updateHeader_def Let_def ostream_write_def trace_file_def
        trace_header_def memcpy_at_front)
qed

section \<open>The calls of a client\<close>

datatype writer_op = WriteEvent TraceEvent | Flush | SetBufferSize nat

fun writer_step :: "TraceWriter \<Rightarrow> writer_op \<Rightarrow> TraceWriter" where
  "writer_step w (WriteEvent e) = writeEvent w e"
| "writer_step w Flush = flush w"
| "writer_step w (SetBufferSize n) = setBufferSize w n"

fun written :: "writer_op list \<Rightarrow> TraceEvent list" where
  "written [] = []"
| "written (WriteEvent e # ops) = e # written ops"
| "written (_ # ops) = written ops"

lemma writer_steps_has:
  "writer_has sd now cfg evs w \<Longrightarrow> writer_has sd now cfg (evs @ written ops) (foldl writer_step w ops)"
proof (induction ops arbitrary: evs w)
  case (Cons op ops)
  show ?case
  proof (cases op)
    case (WriteEvent e)
    with Cons.IH [OF writeEvent_has [OF Cons.prems]] show ?thesis by simp
  next
    case Flush
    with Cons.IH [OF flush_has [OF Cons.prems]] show ?thesis by simp
  next
    case (SetBufferSize n)
    with Cons.IH [OF setBufferSize_has [OF Cons.prems]] show ?thesis by simp
  qed
qed simp

section \<open>Property of the record methods\<close>

definition records :: "(u16 \<Rightarrow> bool) \<Rightarrow> Cycle \<Rightarrow> TraceWriter \<Rightarrow> TraceWriter \<Rightarrow> bool" where
  "records category cycle w w' \<longleftrightarrow> (\<exists>e. w' = writeEvent w e \<and> te_cycle e = cycle \<and> category (te_event_type e))"

lemma recordsI: "te_cycle e = cycle \<Longrightarrow> category (te_event_type e) \<Longrightarrow> records category cycle w (writeEvent w e)"
  by (auto simp: records_def)

lemmas record_method_defs = recordMemoryAccess_def recordAtomicOp_def recordNetworkPacket_def record_aux_def
  recordBarrier_def recordTaskStart_def recordTaskEnd_def recordOMPParallelStart_def recordOMPParallelEnd_def
  recordOMPBarrier_def recordOMPCriticalStart_def recordOMPCriticalEnd_def recordOMPAtomic_def recordMPISend_def
  recordMPIRecv_def recordMPIBarrier_def recordMPIBcast_def recordMPIReduce_def recordMPIAllreduce_def

text \<open>
  every record method writes exactly one event, stamped with the cycle it was given and with a
  code of its own category (memory, network, synchronisation, OpenMP, MPI), so that the replay
  hands it to the model the category is for.
\<close>

theorem record_methods_category:
  "records isMemoryEvent c w (recordMemoryAccess w c p a s wr fl) \<and> records isMemoryEvent c w (recordAtomicOp w c p a s fl)
   \<and> records isNetworkEvent c w (recordNetworkPacket w c x y s a)
   \<and> records isSyncEvent c w (recordBarrier w c p v) \<and> records isSyncEvent c w (recordTaskStart w c p v)
   \<and> records isSyncEvent c w (recordTaskEnd w c p v)
   \<and> records isOpenMPEvent c w (recordOMPParallelStart w c p n) \<and> records isOpenMPEvent c w (recordOMPParallelEnd w c p)
   \<and> records isOpenMPEvent c w (recordOMPBarrier w c p v) \<and> records isOpenMPEvent c w (recordOMPCriticalStart w c p n)
   \<and> records isOpenMPEvent c w (recordOMPCriticalEnd w c p n) \<and> records isOpenMPEvent c w (recordOMPAtomic w c p a fl)
   \<and> records isMPIEvent c w (recordMPISend w c x y s n) \<and> records isMPIEvent c w (recordMPIRecv w c x y s n)
   \<and> records isMPIEvent c w (recordMPIBarrier w c p n) \<and> records isMPIEvent c w (recordMPIBcast w c p x s)
   \<and> records isMPIEvent c w (recordMPIReduce w c p x s) \<and> records isMPIEvent c w (recordMPIAllreduce w c p s)"
  unfolding record_method_defs by (intro conjI recordsI) (auto simp: category_defs word_le_nat_alt)

end
