(* ===== verification/Trace_Reader.thy ===== *)
theory Trace_Reader
  imports Trace_Writer
begin

text \<open>
  \<^verbatim>\<open>TraceReader\<close> (\<^verbatim>\<open>src/trace/trace_reader.cpp\<close>): header and metadata are read at \<^verbatim>\<open>open\<close>, then
  events one by one, by index, or from a cycle on. An input stream is the file's bytes, the get
  position and the fail state; in the fail state nothing is read and no seek has an effect.
  The theory ends with the round trip from \<^verbatim>\<open>TraceWriter\<close>.
\<close>

section \<open>The input stream\<close>

record ifstream =
  if_open :: bool
  if_data :: "u8 list"
  if_pos :: nat
  if_fail :: bool

definition istream_read :: "nat \<Rightarrow> ifstream \<Rightarrow> u8 list \<times> ifstream" where
  "istream_read n f =
     (if \<not> if_open f \<or> if_fail f then ([], f\<lparr>if_fail := True\<rparr>)
      else let got = take n (drop (if_pos f) (if_data f))
           in (got, f\<lparr>if_pos := if_pos f + length got, if_fail := length got < n\<rparr>))"

text \<open>\<^verbatim>\<open>seekg\<close> to an absolute offset; as a \<^verbatim>\<open>streamoff\<close> an offset of \<open>2 ^ 63\<close> or more is negative.\<close>

definition seekg :: "nat \<Rightarrow> ifstream \<Rightarrow> ifstream" where
  "seekg off f =
     (if if_fail f then f
      else if if_open f \<and> off < 2 ^ 63 then f\<lparr>if_pos := off\<rparr> else f\<lparr>if_fail := True\<rparr>)"

section \<open>The reader\<close>

record TraceReader =
  tr_file :: ifstream
  tr_filename :: string
  tr_header :: TraceHeader
  tr_config :: TraceConfig
  tr_current_index :: u64
  tr_events_offset :: u64
  tr_file_size :: u64

text \<open>A new reader; the header is not initialised, so it is an argument.\<close>

definition TraceReader_init :: "TraceHeader \<Rightarrow> TraceReader" where
  "TraceReader_init h = \<lparr>tr_file = \<lparr>if_open = False, if_data = [], if_pos = 0, if_fail = False\<rparr>, tr_filename = [],
     tr_header = h, tr_config = TraceConfig_default, tr_current_index = 0, tr_events_offset = 0, tr_file_size = 0\<rparr>"

definition reader_close :: "TraceReader \<Rightarrow> TraceReader" where
  "reader_close r = r\<lparr>tr_file := (tr_file r)\<lparr>if_open := False\<rparr>, tr_filename := [], tr_current_index := 0\<rparr>"

text \<open>
  \<^verbatim>\<open>readHeader\<close>. The read goes straight into \<^verbatim>\<open>header_\<close>, also when it is short. The length of the
  metadata wraps when the header's size is below that of the header; metadata of a megabyte or
  more is skipped. The text buffer is filled with zero characters before the read.
\<close>

definition readHeader :: "(string \<Rightarrow> trace_error + real) \<Rightarrow> TraceReader \<Rightarrow> (trace_error + bool) \<times> TraceReader" where
  "readHeader stod r =
     (let (got, f) = istream_read HEADER_SIZE (tr_file r);
          h = header_of_bytes (memcpy_at (header_bytes (tr_header r)) 0 got);
          r1 = r\<lparr>tr_file := f, tr_header := h\<rparr>;
          yaml_size = th_header_size h - word_of_nat HEADER_SIZE
      in if length got \<noteq> HEADER_SIZE then (Inr False, r1)
         else if th_magic h \<noteq> TRACE_MAGIC then (Inr False, r1)
         else if drop_bit 8 (th_version h) \<noteq> TRACE_VERSION_MAJOR then (Inr False, r1)
         else if 0 < yaml_size \<and> yaml_size < 1024 * 1024 then
           (let (txt, f') = istream_read (unat yaml_size) f;
                text = map char_of_byte (txt @ replicate (unat yaml_size - length txt) 0)
            in case parseYAMLMetadata stod (tr_config r) text of
                 Inl (e, cfg) \<Rightarrow> (Inl e, r1\<lparr>tr_file := f', tr_config := cfg\<rparr>)
               | Inr cfg \<Rightarrow> (Inr True, r1\<lparr>tr_file := f', tr_config := cfg\<rparr>))
         else (Inr True, r1))"

text \<open>\<^verbatim>\<open>open\<close>; the file's bytes are \<open>None\<close> when the system cannot open it.\<close>

definition reader_open ::
  "(string \<Rightarrow> trace_error + real) \<Rightarrow> u8 list option \<Rightarrow> string \<Rightarrow> TraceReader \<Rightarrow> (trace_error + bool) \<times> TraceReader" where
  "reader_open stod file filename r =
     (let r0 = (if if_open (tr_file r) then reader_close r else r) in
      case file of
        None \<Rightarrow> (Inr False, r0\<lparr>tr_file := (tr_file r0)\<lparr>if_fail := True\<rparr>\<rparr>)
      | Some data \<Rightarrow>
          let r1 = r0\<lparr>tr_file := \<lparr>if_open = True, if_data = data, if_pos = 0, if_fail = False\<rparr>,
                     tr_filename := filename, tr_file_size := word_of_nat (length data)\<rparr>
          in case readHeader stod r1 of
               (Inl e, r2) \<Rightarrow> (Inl e, r2)
             | (Inr False, r2) \<Rightarrow> (Inr False, r2\<lparr>tr_file := (tr_file r2)\<lparr>if_open := False\<rparr>\<rparr>)
             | (Inr True, r2) \<Rightarrow>
                 (Inr True, r2\<lparr>tr_events_offset := th_header_size (tr_header r2), tr_current_index := 0,
                    tr_file := seekg (unat (th_header_size (tr_header r2))) (tr_file r2)\<rparr>))"

definition hasNextEvent :: "TraceReader \<Rightarrow> bool" where
  "hasNextEvent r = (if_open (tr_file r) \<and> tr_current_index r < th_num_events (tr_header r))"

definition readNextEvent :: "TraceReader \<Rightarrow> (trace_error + TraceEvent) \<times> TraceReader" where
  "readNextEvent r =
     (if \<not> hasNextEvent r then (Inl NoMoreEvents, r)
      else let (got, f) = istream_read EVENT_SIZE (tr_file r)
           in if length got \<noteq> EVENT_SIZE then (Inl FailedToReadEvent, r\<lparr>tr_file := f\<rparr>)
              else (Inr (event_of_bytes got), r\<lparr>tr_file := f, tr_current_index := tr_current_index r + 1\<rparr>))"

definition peekNextEvent :: "TraceReader \<Rightarrow> (trace_error + TraceEvent) \<times> TraceReader" where
  "peekNextEvent r =
     (if \<not> hasNextEvent r then (Inl NoMoreEvents, r)
      else let pos = if_pos (tr_file r); (got, f) = istream_read EVENT_SIZE (tr_file r)
           in if length got \<noteq> EVENT_SIZE then (Inl FailedToReadEvent, r\<lparr>tr_file := f\<rparr>)
              else (Inr (event_of_bytes got), r\<lparr>tr_file := seekg pos f\<rparr>))"

text \<open>
  The loop of \<^verbatim>\<open>readEvents\<close> over any source of events: read while there is one and fewer than
  \<open>n\<close> were read. An exception discards what was read so far.
\<close>

fun take_events :: "('r \<Rightarrow> bool) \<Rightarrow> ('r \<Rightarrow> ('x + 'e) \<times> 'r) \<Rightarrow> nat \<Rightarrow> 'r \<Rightarrow> ('x + 'e list) \<times> 'r" where
  "take_events has nxt 0 r = (Inr [], r)"
| "take_events has nxt (Suc n) r =
     (if \<not> has r then (Inr [], r)
      else case nxt r of
             (Inl x, r') \<Rightarrow> (Inl x, r')
           | (Inr e, r') \<Rightarrow> map_prod (map_sum id ((#) e)) id (take_events has nxt n r'))"

definition readEvents :: "nat \<Rightarrow> TraceReader \<Rightarrow> (trace_error + TraceEvent list) \<times> TraceReader" where
  "readEvents n r = take_events hasNextEvent readNextEvent n r"

definition seekToEvent :: "u64 \<Rightarrow> TraceReader \<Rightarrow> bool \<times> TraceReader" where
  "seekToEvent index r =
     (if th_num_events (tr_header r) \<le> index then (False, r)
      else let off = tr_events_offset r + index * word_of_nat EVENT_SIZE;
               r' = r\<lparr>tr_file := seekg (unat off) (tr_file r), tr_current_index := index\<rparr>
           in (\<not> if_fail (tr_file r'), r'))"

definition rewind :: "TraceReader \<Rightarrow> TraceReader" where
  "rewind r =
     (if if_open (tr_file r)
      then r\<lparr>tr_file := seekg (unat (tr_events_offset r)) (tr_file r), tr_current_index := 0\<rparr> else r)"

lemma readNextEvent_index:
  "readNextEvent r = (Inr e, r') \<Longrightarrow> hasNextEvent r \<and> tr_current_index r' = tr_current_index r + 1 \<and> tr_header r' = tr_header r"
  by (auto simp: readNextEvent_def Let_def split: if_splits prod.splits)

text \<open>The scan of \<^verbatim>\<open>seekToCycle\<close>: on a hit, go back to before the event.\<close>

function scan_cycle :: "u64 \<Rightarrow> TraceReader \<Rightarrow> (trace_error + bool) \<times> TraceReader" where
  "scan_cycle cycle r =
     (if \<not> hasNextEvent r then (Inr False, r)
      else case readNextEvent r of
             (Inl e, r') \<Rightarrow> (Inl e, r')
           | (Inr event, r') \<Rightarrow>
               if cycle \<le> te_cycle event
               then (Inr True, r'\<lparr>tr_file := seekg (if_pos (tr_file r)) (tr_file r'),
                                  tr_current_index := tr_current_index r' - 1\<rparr>)
               else scan_cycle cycle r')"
  by pat_completeness auto
termination
proof (relation "measure (\<lambda>(_, r). unat (th_num_events (tr_header r)) - unat (tr_current_index r))", goal_cases)
  case (2 cycle r x r' e)
  then have "tr_current_index r < th_num_events (tr_header r)" "tr_current_index r' = tr_current_index r + 1"
    "tr_header r' = tr_header r"
    using readNextEvent_index [of r e r'] by (auto simp: hasNextEvent_def)
  then show ?case
    by (simp add: unat_inc) (simp add: word_less_nat_alt)
qed simp

declare scan_cycle.simps [simp del]

definition seekToCycle :: "u64 \<Rightarrow> TraceReader \<Rightarrow> (trace_error + bool) \<times> TraceReader" where
  "seekToCycle cycle r =
     (if th_last_cycle (tr_header r) < cycle then (Inr False, r) else scan_cycle cycle (rewind r))"

definition getExpectedFileSize :: "TraceReader \<Rightarrow> u64" where
  "getExpectedFileSize r =
     th_header_size (tr_header r) + th_num_events (tr_header r) * word_of_nat EVENT_SIZE"

definition validate :: "TraceReader \<Rightarrow> bool" where
  "validate r =
     (if_open (tr_file r) \<and> th_magic (tr_header r) = TRACE_MAGIC
      \<and> drop_bit 8 (th_version (tr_header r)) = TRACE_VERSION_MAJOR
      \<and> getExpectedFileSize r \<le> tr_file_size r)"

text \<open>
  \<^verbatim>\<open>readEventAt\<close> does not look at the count of the read: \<open>junk\<close> is what the uninitialised event
  holds. The saved position of a stream in the fail state is no position to go back to.
\<close>

definition readEventAt :: "u8 list \<Rightarrow> u64 \<Rightarrow> TraceReader \<Rightarrow> (trace_error + TraceEvent) \<times> TraceReader" where
  "readEventAt junk index r =
     (if th_num_events (tr_header r) \<le> index then (Inl EventIndexOutOfRange, r)
      else let saved_pos = if_pos (tr_file r);
               off = tr_events_offset r + index * word_of_nat EVENT_SIZE;
               (got, f) = istream_read EVENT_SIZE (seekg (unat off) (tr_file r))
           in (Inr (event_of_bytes (memcpy_at junk 0 got)), r\<lparr>tr_file := seekg saved_pos f\<rparr>))"

section \<open>A cursor over a list of events\<close>

text \<open>
  What a client of a reader relies on: at position \<open>i\<close> of the events \<open>evs\<close>, there is a next one
  exactly when \<open>i\<close> is not the end, and reading returns it and moves on.
\<close>

locale event_cursor =
  fixes pos_at :: "'r \<Rightarrow> 'e list \<Rightarrow> nat \<Rightarrow> bool"
    and has :: "'r \<Rightarrow> bool"
    and nxt :: "'r \<Rightarrow> ('x + 'e) \<times> 'r"
  assumes has_iff: "pos_at r evs i \<Longrightarrow> has r \<longleftrightarrow> i < length evs"
    and nxt_at: "pos_at r evs i \<Longrightarrow> i < length evs \<Longrightarrow> \<exists>r'. nxt r = (Inr (evs ! i), r') \<and> pos_at r' evs (Suc i)"
begin

lemma take_events_at:
  "pos_at r evs i \<Longrightarrow> i \<le> length evs \<Longrightarrow>
     \<exists>r'. take_events has nxt n r = (Inr (take n (drop i evs)), r') \<and> pos_at r' evs (min (i + n) (length evs))"
proof (induction n arbitrary: r i)
  case 0
  then show ?case by simp
next
  case (Suc n)
  show ?case
  proof (cases "i < length evs")
    case True
    obtain r1 where r1: "nxt r = (Inr (evs ! i), r1)" "pos_at r1 evs (Suc i)"
      using nxt_at [OF Suc.prems(1) True] by blast
    from Suc.IH [OF r1(2)] True obtain r' where
      "take_events has nxt n r1 = (Inr (take n (drop (Suc i) evs)), r')" "pos_at r' evs (min (Suc i + n) (length evs))"
      by auto
    then show ?thesis
      using True r1(1) has_iff [OF Suc.prems(1)] by (simp add: Cons_nth_drop_Suc [symmetric])
  next
    case False
    then show ?thesis using has_iff [OF Suc.prems(1)] Suc.prems by simp
  qed
qed

end

text \<open>
  \<open>reader_at r evs i\<close>: the reader \<open>r\<close> is open, its stream is good, and the file holds the events
  \<open>evs\<close> from its events offset on, of which the one at \<open>i\<close> is next.
\<close>

definition reader_at :: "TraceReader \<Rightarrow> TraceEvent list \<Rightarrow> nat \<Rightarrow> bool" where
  "reader_at r evs i \<longleftrightarrow>
     (\<exists>pre. if_open (tr_file r) \<and> \<not> if_fail (tr_file r) \<and> if_data (tr_file r) = pre @ events_bytes evs
       \<and> length (if_data (tr_file r)) < 2 ^ 63
       \<and> tr_events_offset r = word_of_nat (length pre) \<and> th_num_events (tr_header r) = word_of_nat (length evs)
       \<and> tr_current_index r = word_of_nat i \<and> i \<le> length evs \<and> if_pos (tr_file r) = length pre + EVENT_SIZE * i)"

lemma event_slice:
  assumes "i < length evs"
  shows "take EVENT_SIZE (drop (length pre + EVENT_SIZE * i) (pre @ events_bytes evs)) = event_bytes (evs ! i)"
proof -
  let ?a = "pre @ events_bytes (take i evs)" and ?b = "event_bytes (evs ! i) @ events_bytes (drop (Suc i) evs)"
  have eq: "pre @ events_bytes evs = ?a @ ?b"
    using id_take_nth_drop [OF assms] by (metis append_assoc events_bytes_simps(2,3))
  have len: "length pre + EVENT_SIZE * i = length ?a" using assms by (simp add: min_absorb2)
  have "drop (length ?a) (?a @ ?b) = ?b" by simp
  then have "take EVENT_SIZE (drop (length ?a) (?a @ ?b)) = event_bytes (evs ! i)"
    by (simp only:) simp
  then show ?thesis unfolding eq len .
qed

lemma reader_at_bounds:
  assumes "reader_at r evs i"
  shows "length evs < 2 ^ 64" "i \<le> length evs" "unat (tr_current_index r) = i"
    "unat (th_num_events (tr_header r)) = length evs"
proof -
  have "EVENT_SIZE * length evs < 2 ^ 63" "i \<le> length evs" "tr_current_index r = word_of_nat i"
    "th_num_events (tr_header r) = word_of_nat (length evs)"
    using assms by (auto simp: reader_at_def)
  then show "length evs < 2 ^ 64" "i \<le> length evs" "unat (tr_current_index r) = i"
    "unat (th_num_events (tr_header r)) = length evs"
    by (simp_all add: EVENT_SIZE_def unat_word_of_nat)
qed

lemma reader_at_has:
  assumes "reader_at r evs i"
  shows "hasNextEvent r \<longleftrightarrow> i < length evs"
proof -
  have "if_open (tr_file r)" using assms by (auto simp: reader_at_def)
  then show ?thesis using reader_at_bounds(3,4) [OF assms] by (simp add: hasNextEvent_def word_less_nat_alt)
qed

lemma istream_read_event:
  assumes "if_open f" and "\<not> if_fail f" and "if_data f = pre @ events_bytes evs"
    and "if_pos f = length pre + EVENT_SIZE * i" and "i < length evs"
  shows "istream_read EVENT_SIZE f = (event_bytes (evs ! i), f\<lparr>if_pos := if_pos f + EVENT_SIZE\<rparr>)"
proof -
  have "take EVENT_SIZE (drop (if_pos f) (if_data f)) = event_bytes (evs ! i)"
    unfolding assms(3,4) by (rule event_slice [OF assms(5)])
  then show ?thesis using assms(1,2) by (cases f) (simp add: istream_read_def)
qed

lemma reader_at_next:
  assumes at: "reader_at r evs i" and i: "i < length evs"
  shows "readNextEvent r = (Inr (evs ! i), r\<lparr>tr_file := (tr_file r)\<lparr>if_pos := if_pos (tr_file r) + EVENT_SIZE\<rparr>,
           tr_current_index := tr_current_index r + 1\<rparr>)"
    and "reader_at (r\<lparr>tr_file := (tr_file r)\<lparr>if_pos := if_pos (tr_file r) + EVENT_SIZE\<rparr>,
           tr_current_index := tr_current_index r + 1\<rparr>) evs (Suc i)"
proof -
  obtain pre where pre: "if_open (tr_file r)" "\<not> if_fail (tr_file r)" "if_data (tr_file r) = pre @ events_bytes evs"
    "if_pos (tr_file r) = length pre + EVENT_SIZE * i" and rest: "length (if_data (tr_file r)) < 2 ^ 63"
    "tr_events_offset r = word_of_nat (length pre)" "th_num_events (tr_header r) = word_of_nat (length evs)"
    "tr_current_index r = word_of_nat i"
    using at by (auto simp: reader_at_def)
  show "readNextEvent r = (Inr (evs ! i), r\<lparr>tr_file := (tr_file r)\<lparr>if_pos := if_pos (tr_file r) + EVENT_SIZE\<rparr>,
           tr_current_index := tr_current_index r + 1\<rparr>)"
    using istream_read_event [OF pre i] reader_at_has [OF at] i by (simp add: readNextEvent_def)
  show "reader_at (r\<lparr>tr_file := (tr_file r)\<lparr>if_pos := if_pos (tr_file r) + EVENT_SIZE\<rparr>,
           tr_current_index := tr_current_index r + 1\<rparr>) evs (Suc i)"
    unfolding reader_at_def using pre rest i by (intro exI [of _ pre]) simp
qed

interpretation rd: event_cursor reader_at hasNextEvent readNextEvent
  by unfold_locales (auto simp: reader_at_has reader_at_next)

section \<open>Seeking\<close>

lemma offset_word:
  assumes "j \<le> length evs" and "length (pre @ events_bytes evs) < 2 ^ 63"
  shows "unat (word_of_nat (length pre) + word_of_nat j * word_of_nat EVENT_SIZE :: u64) = length pre + EVENT_SIZE * j"
    and "length pre + EVENT_SIZE * j < 2 ^ 63"
proof -
  show bound: "length pre + EVENT_SIZE * j < 2 ^ 63" using assms by (simp add: EVENT_SIZE_def)
  have "word_of_nat (length pre) + word_of_nat j * word_of_nat EVENT_SIZE =
      (word_of_nat (length pre + EVENT_SIZE * j) :: u64)" by (simp add: mult.commute)
  then show "unat (word_of_nat (length pre) + word_of_nat j * word_of_nat EVENT_SIZE :: u64) = length pre + EVENT_SIZE * j"
    using bound by (simp only:) (rule unat_word_of_nat, simp)
qed

lemma seek_at:
  assumes at: "reader_at r evs i" and j: "j \<le> length evs"
  shows "reader_at (r\<lparr>tr_file := seekg (unat (tr_events_offset r + word_of_nat j * word_of_nat EVENT_SIZE)) (tr_file r),
           tr_current_index := word_of_nat j\<rparr>) evs j"
proof -
  obtain pre where pre: "if_open (tr_file r)" "\<not> if_fail (tr_file r)" "if_data (tr_file r) = pre @ events_bytes evs"
    "length (if_data (tr_file r)) < 2 ^ 63" "tr_events_offset r = word_of_nat (length pre)"
    "th_num_events (tr_header r) = word_of_nat (length evs)"
    using at by (auto simp: reader_at_def)
  have off: "unat (tr_events_offset r + word_of_nat j * word_of_nat EVENT_SIZE) = length pre + EVENT_SIZE * j"
    "length pre + EVENT_SIZE * j < 2 ^ 63"
    using offset_word [OF j, of pre] pre(3,4,5) by simp_all
  have "seekg (length pre + EVENT_SIZE * j) (tr_file r) = (tr_file r)\<lparr>if_pos := length pre + EVENT_SIZE * j\<rparr>"
    using off(2) pre(1,2) by (simp add: seekg_def)
  then show ?thesis
    unfolding off(1) reader_at_def using pre j by (intro exI [of _ pre]) simp
qed

lemma seekToEvent_at:
  assumes at: "reader_at r evs i" and j: "j < length evs"
  shows "\<exists>r'. seekToEvent (word_of_nat j) r = (True, r') \<and> reader_at r' evs j"
proof -
  have "\<not> th_num_events (tr_header r) \<le> word_of_nat j"
    using reader_at_bounds(1,4) [OF at] j by (simp add: word_le_nat_alt unat_word_of_nat)
  moreover note seek_at [OF at less_imp_le [OF j]]
  ultimately show ?thesis by (auto simp: seekToEvent_def Let_def reader_at_def)
qed

lemma seekToEvent_refuses:
  "reader_at r evs i \<Longrightarrow> length evs \<le> unat j \<Longrightarrow> seekToEvent j r = (False, r)"
  using reader_at_bounds(4) [of r evs i] by (simp add: seekToEvent_def word_le_nat_alt)

lemma rewind_at:
  assumes "reader_at r evs i"
  shows "reader_at (rewind r) evs 0" "tr_header (rewind r) = tr_header r"
proof -
  have "if_open (tr_file r)" using assms by (auto simp: reader_at_def)
  then show "reader_at (rewind r) evs 0" "tr_header (rewind r) = tr_header r"
    using seek_at [OF assms, of 0] by (simp_all add: rewind_def)
qed

lemma peek_at:
  assumes at: "reader_at r evs i" and i: "i < length evs"
  shows "peekNextEvent r = (Inr (evs ! i), r)"
proof -
  obtain pre where pre: "if_open (tr_file r)" "\<not> if_fail (tr_file r)" "if_data (tr_file r) = pre @ events_bytes evs"
    "if_pos (tr_file r) = length pre + EVENT_SIZE * i" and len: "length (if_data (tr_file r)) < 2 ^ 63"
    using at by (auto simp: reader_at_def)
  have "if_pos (tr_file r) < 2 ^ 63" using offset_word(2) [of i evs pre] i pre(3,4) len by simp
  then show ?thesis
    using istream_read_event [OF pre i] reader_at_has [OF at] i pre(1,2)
    by (cases "tr_file r"; cases r) (simp add: peekNextEvent_def seekg_def)
qed

text \<open>The first position from \<open>i\<close> on whose event is not before a cycle.\<close>

definition cycle_pos :: "u64 \<Rightarrow> TraceEvent list \<Rightarrow> nat \<Rightarrow> nat" where
  "cycle_pos c evs i = i + length (takeWhile (\<lambda>e. te_cycle e < c) (drop i evs))"

lemma cycle_pos_step:
  "i < length evs \<Longrightarrow> cycle_pos c evs i = (if te_cycle (evs ! i) < c then cycle_pos c evs (Suc i) else i)"
  by (simp add: cycle_pos_def Cons_nth_drop_Suc [symmetric])

lemma cycle_pos_end: "cycle_pos c evs (length evs) = length evs"
  by (simp add: cycle_pos_def)

lemma scan_cycle_at:
  "reader_at r evs i \<Longrightarrow> \<exists>r'. scan_cycle c r = (Inr (cycle_pos c evs i < length evs), r') \<and> reader_at r' evs (cycle_pos c evs i)"
proof (induction c r arbitrary: i rule: scan_cycle.induct)
  case (1 c r)
  note at = "1.prems"
  show ?case
  proof (cases "i < length evs")
    case False
    then have "i = length evs" using reader_at_bounds(2) [OF at] by simp
    then show ?thesis using at reader_at_has [OF at] by (simp add: scan_cycle.simps [of c r] cycle_pos_end)
  next
    case True
    let ?r = "r\<lparr>tr_file := (tr_file r)\<lparr>if_pos := if_pos (tr_file r) + EVENT_SIZE\<rparr>,
      tr_current_index := tr_current_index r + 1\<rparr>"
    have has: "hasNextEvent r" using reader_at_has [OF at] True by simp
    note next1 = reader_at_next(1) [OF at True]
    show ?thesis
    proof (cases "te_cycle (evs ! i) < c")
      case before: True
      have nn: "\<not> \<not> hasNextEvent r" and nb: "\<not> c \<le> te_cycle (evs ! i)" using has before by auto
      from "1.IH" [OF nn next1 [symmetric] refl nb reader_at_next(2) [OF at True]] show ?thesis using before nb has next1
        by (simp add: scan_cycle.simps [of c r] cycle_pos_step [OF True])
    next
      case hit: False
      obtain pre where pre: "if_open (tr_file r)" "\<not> if_fail (tr_file r)" "if_data (tr_file r) = pre @ events_bytes evs"
        "if_pos (tr_file r) = length pre + EVENT_SIZE * i" "length (if_data (tr_file r)) < 2 ^ 63"
        using at by (auto simp: reader_at_def)
      have "if_pos (tr_file r) < 2 ^ 63" using offset_word(2) [of i evs pre] True pre(3,4,5) by simp
      then have "?r\<lparr>tr_file := seekg (if_pos (tr_file r)) (tr_file ?r), tr_current_index := tr_current_index ?r - 1\<rparr> = r"
        using pre(1,2) by (cases "tr_file r"; cases r) (simp add: seekg_def)
      moreover have "c \<le> te_cycle (evs ! i)" using hit by simp
      ultimately show ?thesis using hit True has next1 at
        by (simp add: scan_cycle.simps [of c r] cycle_pos_step [OF True])
    qed
  qed
qed

lemma cycle_pos_found: "cycle_pos c evs 0 < length evs \<longleftrightarrow> (\<exists>e\<in>set evs. c \<le> te_cycle e)"
proof -
  have "length (takeWhile (\<lambda>e. te_cycle e < c) evs) < length evs \<longleftrightarrow> takeWhile (\<lambda>e. te_cycle e < c) evs \<noteq> evs"
    by (metis length_takeWhile_le less_le nth_equalityI takeWhile_nth)
  then show ?thesis by (auto simp: cycle_pos_def takeWhile_eq_all_conv not_less)
qed

lemma foldl_max_ge: "x \<in> set xs \<Longrightarrow> (x :: 'a :: linorder) \<le> foldl max a xs"
proof (induction xs arbitrary: a)
  case (Cons y ys)
  have "b \<le> foldl max b ys" for b by (induction ys arbitrary: b) (auto intro: order_trans [OF max.cobounded1])
  with Cons show ?case by (auto intro: order_trans [OF max.cobounded2])
qed simp

lemma last_cycle_ge: "e \<in> set evs \<Longrightarrow> te_cycle e \<le> last_cycle evs"
  by (auto simp: last_cycle_def intro: foldl_max_ge)

section \<open>Opening a written file\<close>

lemma take_append_length: "length a = n \<Longrightarrow> take n (a @ b) = a"
  by simp

lemma readHeader_trace:
  assumes f: "tr_file r = \<lparr>if_open = True, if_data = trace_file sd now cfg evs, if_pos = 0, if_fail = False\<rparr>"
    and small: "length (meta_bytes sd now cfg) < 1024 * 1024"
    and nonempty: "meta_bytes sd now cfg \<noteq> []"
    and parse: "parseYAMLMetadata stod (tr_config r) (yaml_text sd now cfg) = Inr cfg'"
  shows "readHeader stod r = (Inr True, r\<lparr>tr_header := trace_header sd now cfg evs, tr_config := cfg',
     tr_file := (tr_file r)\<lparr>if_pos := HEADER_SIZE + length (meta_bytes sd now cfg)\<rparr>\<rparr>)"
proof -
  let ?h = "trace_header sd now cfg evs" and ?m = "meta_bytes sd now cfg"
  have read_h: "istream_read HEADER_SIZE (tr_file r) = (header_bytes ?h, (tr_file r)\<lparr>if_pos := HEADER_SIZE\<rparr>)"
    by (simp add: f istream_read_def trace_file_def Let_def)
  have hdr: "header_of_bytes (memcpy_at (header_bytes (tr_header r)) 0 (header_bytes ?h)) = ?h"
    using memcpy_at_front [of "header_bytes ?h" "header_bytes (tr_header r)" "[]"] by simp
  have ysize: "th_header_size ?h - word_of_nat HEADER_SIZE = (word_of_nat (length ?m) :: u64)"
    by (simp add: trace_header_def header_with_def)
  have un: "unat (word_of_nat (length ?m) :: u64) = length ?m" using small by (intro unat_word_of_nat) simp
  have range: "(0 :: u64) < word_of_nat (length ?m)" "word_of_nat (length ?m) < (1024 * 1024 :: u64)"
    using small nonempty un by (simp_all add: word_less_nat_alt)
  have read_m: "istream_read (length ?m) ((tr_file r)\<lparr>if_pos := HEADER_SIZE\<rparr>) =
      (?m, (tr_file r)\<lparr>if_pos := HEADER_SIZE + length ?m\<rparr>)"
    by (simp add: f istream_read_def trace_file_def Let_def)
  have text_eq: "map char_of_byte ?m = yaml_text sd now cfg"
    by (simp add: meta_bytes_def o_def)
  have magic: "th_magic ?h = TRACE_MAGIC" "drop_bit 8 (th_version ?h) = TRACE_VERSION_MAJOR"
    by (simp_all add: trace_header_def header_with_def trace_version_major)
  show ?thesis
    using range parse by (simp add: readHeader_def read_h hdr ysize un read_m text_eq magic)
qed

lemma reader_open_trace:
  assumes small: "length (meta_bytes sd now cfg) < 1024 * 1024"
    and nonempty: "meta_bytes sd now cfg \<noteq> []"
    and parse: "parseYAMLMetadata stod (tr_config r) (yaml_text sd now cfg) = Inr cfg'"
    and fits: "length (trace_file sd now cfg evs) < 2 ^ 63"
  shows "\<exists>r'. reader_open stod (Some (trace_file sd now cfg evs)) name r = (Inr True, r')
     \<and> reader_at r' evs 0 \<and> tr_header r' = trace_header sd now cfg evs \<and> tr_config r' = cfg' \<and> validate r'"
proof -
  let ?h = "trace_header sd now cfg evs" and ?m = "meta_bytes sd now cfg" and ?d = "trace_file sd now cfg evs"
  define r1 where "r1 = (if if_open (tr_file r) then reader_close r else r)\<lparr>
     tr_file := \<lparr>if_open = True, if_data = ?d, if_pos = 0, if_fail = False\<rparr>,
     tr_filename := name, tr_file_size := word_of_nat (length ?d)\<rparr>"
  define r2 where "r2 = r1\<lparr>tr_header := ?h, tr_config := cfg',
     tr_file := (tr_file r1)\<lparr>if_pos := HEADER_SIZE + length ?m\<rparr>\<rparr>"
  have "readHeader stod r1 = (Inr True, r2)"
    unfolding r2_def using parse by (intro readHeader_trace [OF _ small nonempty]) (auto simp: r1_def reader_close_def)
  moreover have size: "unat (th_header_size ?h) = HEADER_SIZE + length ?m"
    using small by (simp add: trace_header_def header_with_def HEADER_SIZE_def del: of_nat_add, intro unat_word_of_nat) simp
  define r3 where "r3 = r2\<lparr>tr_events_offset := th_header_size ?h, tr_current_index := 0,
     tr_file := seekg (unat (th_header_size ?h)) (tr_file r2)\<rparr>"
  ultimately have opened: "reader_open stod (Some ?d) name r = (Inr True, r3)"
    by (simp add: reader_open_def r1_def [symmetric] r3_def Let_def) (simp add: r2_def)
  have "seekg (unat (th_header_size ?h)) (tr_file r2) = tr_file r2"
    using small by (simp add: size seekg_def r2_def r1_def HEADER_SIZE_def)
  then have at: "reader_at r3 evs 0"
    unfolding reader_at_def using fits
    by (intro exI [of _ "header_bytes ?h @ ?m"])
      (simp add: r3_def r2_def r1_def trace_file_def trace_header_def header_with_def)
  have "getExpectedFileSize r3 = (word_of_nat (length ?d) :: u64)"
    by (simp add: getExpectedFileSize_def r3_def r2_def trace_header_def header_with_def trace_file_def mult.commute)
  then have "validate r3"
    using at by (auto simp: validate_def reader_at_def r3_def r2_def r1_def trace_header_def header_with_def trace_version_major)
  with opened at show ?thesis by (auto simp: r3_def r2_def)
qed

section \<open>Properties\<close>


definition sample_ops :: "writer_op list" where
  "sample_ops = [SetBufferSize 2, WriteEvent (zero_event\<lparr>te_cycle := 5\<rparr>), WriteEvent (zero_event\<lparr>te_cycle := 3\<rparr>), Flush,
     WriteEvent (zero_event\<lparr>te_cycle := 9, te_event_type := event_code MPI_SEND\<rparr>)]"

lemma sample_meta_length: "length (meta_bytes show_mhz sample_now sample_config) < 1000"
  by (simp add: meta_bytes_def yaml_text_def generateYAML_def unlines_def yaml_lines_def kv_def sample_config_def
      TraceConfig_default_def sample_now_def version_text_eq show_mhz_def show_nat.simps)


text \<open>
  random access. On an open trace \<^verbatim>\<open>seekToEvent\<close> with the index of an event succeeds and the
  next read returns that event; with an index beyond the last it refuses and the position stays.
\<close>

theorem seekToEvent_random_access:
  assumes "reader_at r evs i"
  shows "if unat j < length evs
         then \<exists>r' r''. seekToEvent j r = (True, r') \<and> readNextEvent r' = (Inr (evs ! unat j), r'')
                \<and> reader_at r'' evs (Suc (unat j))
         else seekToEvent j r = (False, r)"
proof (cases "unat j < length evs")
  case True
  from seekToEvent_at [OF assms True] obtain r' where r': "seekToEvent j r = (True, r')" "reader_at r' evs (unat j)"
    by auto
  with reader_at_next [OF r'(2) True] True show ?thesis by auto
next
  case False
  with seekToEvent_refuses [OF assms] show ?thesis by simp
qed

text \<open>
  \<^verbatim>\<open>seekToCycle\<close> on an open trace succeeds exactly when some event is at or after the cycle,
  and then leaves the reader before the first such event in file order, wherever it stood.
\<close>

theorem seekToCycle_first:
  assumes "reader_at r evs i" and "th_last_cycle (tr_header r) = last_cycle evs"
  shows "\<exists>r'. seekToCycle c r = (Inr (\<exists>e\<in>set evs. c \<le> te_cycle e), r')
           \<and> ((\<exists>e\<in>set evs. c \<le> te_cycle e) \<longrightarrow>
                reader_at r' evs (length (takeWhile (\<lambda>e. te_cycle e < c) evs)))"
proof (cases "last_cycle evs < c")
  case True
  then have "\<not> (\<exists>e\<in>set evs. c \<le> te_cycle e)" using last_cycle_ge [of _ evs] by (fastforce simp: not_le)
  with True assms(2) show ?thesis by (simp add: seekToCycle_def)
next
  case False
  with assms(2) have s: "seekToCycle c r = scan_cycle c (rewind r)" by (simp add: seekToCycle_def)
  from scan_cycle_at [OF rewind_at(1) [OF assms(1)], of c] show ?thesis
    unfolding s cycle_pos_found by (auto simp: cycle_pos_def)
qed

text \<open>A reader on a file of three events, for the witnesses.\<close>

definition sample_events :: "TraceEvent list" where
  "sample_events = [zero_event\<lparr>te_cycle := 5\<rparr>, zero_event\<lparr>te_cycle := 3\<rparr>, zero_event\<lparr>te_cycle := 9\<rparr>]"

definition sample_reader :: TraceReader where
  "sample_reader = (TraceReader_init (header_with 3 0 1 3 9))\<lparr>
     tr_file := \<lparr>if_open = True, if_data = events_bytes sample_events, if_pos = 0, if_fail = False\<rparr>\<rparr>"

lemma sample_reader_at: "reader_at sample_reader sample_events 0"
  unfolding reader_at_def by (intro exI [of _ "[]"])
    (simp add: sample_reader_def sample_events_def TraceReader_init_def header_with_def EVENT_SIZE_def)

theorem seekToEvent_random_access_witness:
  "\<exists>r' r''. seekToEvent 2 sample_reader = (True, r') \<and> readNextEvent r' = (Inr (zero_event\<lparr>te_cycle := 9\<rparr>), r'')"
  using seekToEvent_random_access [OF sample_reader_at, of 2] by (auto simp: sample_events_def)

theorem seekToCycle_first_witness:
  "\<exists>r'. seekToCycle 6 sample_reader = (Inr True, r') \<and> reader_at r' sample_events (Suc (Suc 0))"
proof -
  have "th_last_cycle (tr_header sample_reader) = last_cycle sample_events"
    by (simp add: sample_reader_def TraceReader_init_def header_with_def last_cycle_def sample_events_def max_def)
  from seekToCycle_first [OF sample_reader_at this, of 6] show ?thesis by (simp add: sample_events_def)
qed

end
