(* ===== verification/Model_Registry.thy ===== *)
theory Model_Registry
  imports Complex_Main Prelude Std_Map
begin

text \<open>
  The registry of external models, src/model_registry.cpp and include/external_model_interface.h:
  registration by name, removal with the \<^verbatim>\<open>destroy\<close> callback, loading of a model from a shared
  library, the final cleanup, and the C++ wrappers that call a model.

  Callbacks are functions on the state \<open>'w\<close> of the external models; a NULL function pointer is \<open>None\<close>,
  a NULL string \<open>None\<close>. The \<^verbatim>\<open>union\<close> of the callbacks is a datatype: reading the member that is not
  the active one is the error \<open>WrongUnionMember\<close>. The dynamic loader is an argument: which handle
  \<^verbatim>\<open>dlopen\<close> gives for a path, and what the entry point of a library returns. Libraries are counted
  as the loader counts them: every \<^verbatim>\<open>dlopen\<close> adds one use, every \<^verbatim>\<open>dlclose\<close> drops one. Messages on the
  console are not modelled except for those of \<^verbatim>\<open>pimid_list_models\<close>.
\<close>

section \<open>Descriptors\<close>

datatype ModelType = PIMID_MODEL_NETWORK | PIMID_MODEL_MEMORY | PIMID_MODEL_POWER | PIMID_MODEL_THERMAL

record NetworkPacket =
  np_src_id :: "32 word"
  np_dst_id :: "32 word"
  np_size_bytes :: "64 word"
  np_addr :: "64 word"
  np_user_data :: nat

record NetworkStats =
  ns_total_packets :: "64 word"
  ns_total_bytes :: "64 word"
  ns_total_cycles :: "64 word"
  ns_avg_latency :: real
  ns_bandwidth_utilization :: real

record MemRequest =
  mq_addr :: "64 word"
  mq_size_bytes :: "64 word"
  mq_is_write :: bool
  mq_cycle :: "64 word"
  mq_user_data :: nat

record MemoryStats =
  ms_total_reads :: "64 word"
  ms_total_writes :: "64 word"
  ms_total_cycles :: "64 word"
  ms_avg_read_latency :: real
  ms_avg_write_latency :: real
  ms_bandwidth_utilization :: real

record 'w NetworkCallbacks =
  nc_init :: "(nat \<Rightarrow> string option \<Rightarrow> 'w \<Rightarrow> int \<times> 'w) option"
  nc_send_packet :: "(nat \<Rightarrow> NetworkPacket \<Rightarrow> 'w \<Rightarrow> int \<times> 'w) option"
  nc_tick :: "(nat \<Rightarrow> 'w \<Rightarrow> 'w) option"
  nc_get_latency :: "(nat \<Rightarrow> 32 word \<Rightarrow> 32 word \<Rightarrow> 64 word \<Rightarrow> 'w \<Rightarrow> 64 word \<times> 'w) option"
  nc_get_stats :: "(nat \<Rightarrow> NetworkStats \<Rightarrow> 'w \<Rightarrow> NetworkStats \<times> 'w) option"
  nc_destroy :: "(nat \<Rightarrow> 'w \<Rightarrow> 'w) option"

record 'w MemoryCallbacks =
  mc_init :: "(nat \<Rightarrow> string option \<Rightarrow> 'w \<Rightarrow> int \<times> 'w) option"
  mc_send_request :: "(nat \<Rightarrow> MemRequest \<Rightarrow> 'w \<Rightarrow> int \<times> 'w) option"
  mc_is_ready :: "(nat \<Rightarrow> MemRequest \<Rightarrow> 'w \<Rightarrow> bool \<times> 'w) option"
  mc_tick :: "(nat \<Rightarrow> 'w \<Rightarrow> 'w) option"
  mc_get_latency :: "(nat \<Rightarrow> 64 word \<Rightarrow> 64 word \<Rightarrow> bool \<Rightarrow> 'w \<Rightarrow> 64 word \<times> 'w) option"
  mc_get_stats :: "(nat \<Rightarrow> MemoryStats \<Rightarrow> 'w \<Rightarrow> MemoryStats \<times> 'w) option"
  mc_destroy :: "(nat \<Rightarrow> 'w \<Rightarrow> 'w) option"

datatype 'w callbacks = Network "'w NetworkCallbacks" | Memory "'w MemoryCallbacks"

record 'w ModelDescriptor =
  md_name :: "string option"
  md_version :: "string option"
  md_type :: ModelType
  md_handle :: nat
  md_callbacks :: "'w callbacks"

datatype model_error = WrongUnionMember | ModelNotFound string

definition network_of :: "'w ModelDescriptor \<Rightarrow> model_error + 'w NetworkCallbacks" where
  "network_of d = (case md_callbacks d of Network c \<Rightarrow> Inr c | Memory _ \<Rightarrow> Inl WrongUnionMember)"

definition memory_of :: "'w ModelDescriptor \<Rightarrow> model_error + 'w MemoryCallbacks" where
  "memory_of d = (case md_callbacks d of Memory c \<Rightarrow> Inr c | Network _ \<Rightarrow> Inl WrongUnionMember)"

section \<open>The registry\<close>

text \<open>
  The state: the two maps, how many uses of a library the loader counts, the state of the external
  models, and, as a ghost, the order in which models were destroyed and libraries closed.
\<close>

datatype registry_event = Destroyed string | Closed nat

record 'w registry =
  rg_models :: "(string, 'w ModelDescriptor) smap"
  rg_handles :: "(string, nat) smap"
  rg_uses :: "nat \<Rightarrow> nat"
  rg_world :: 'w
  rg_log :: "registry_event list"

record 'w loader =
  dl_open :: "string \<Rightarrow> nat option"
  dl_create :: "nat \<Rightarrow> 'w ModelDescriptor option option"

definition pimid_register_model :: "'w ModelDescriptor option \<Rightarrow> 'w registry \<Rightarrow> int \<times> 'w registry" where
  "pimid_register_model descriptor g =
     (case descriptor of None \<Rightarrow> (- 1, g)
      | Some d \<Rightarrow> (case md_name d of None \<Rightarrow> (- 1, g)
          | Some name \<Rightarrow> (0, g\<lparr>rg_models := smap_put name d (rg_models g)\<rparr>)))"

text \<open>The \<^verbatim>\<open>destroy\<close> callback of a model, chosen by its type.\<close>

definition destroy_of :: "'w ModelDescriptor \<Rightarrow> model_error + (nat \<Rightarrow> 'w \<Rightarrow> 'w) option" where
  "destroy_of d =
     (if md_type d = PIMID_MODEL_NETWORK then map_sum id nc_destroy (network_of d)
      else if md_type d = PIMID_MODEL_MEMORY then map_sum id mc_destroy (memory_of d)
      else Inr None)"

definition pimid_unregister_model :: "string option \<Rightarrow> 'w registry \<Rightarrow> model_error + int \<times> 'w registry" where
  "pimid_unregister_model name g =
     (case name of None \<Rightarrow> Inr (- 1, g)
      | Some n \<Rightarrow> (case smap_find n (rg_models g) of None \<Rightarrow> Inr (- 1, g)
          | Some d \<Rightarrow> (case destroy_of d of Inl e \<Rightarrow> Inl e
              | Inr f \<Rightarrow>
                  (let g1 = (case f of None \<Rightarrow> g
                             | Some destroy \<Rightarrow> g\<lparr>rg_world := destroy (md_handle d) (rg_world g), rg_log := rg_log g @ [Destroyed n]\<rparr>)
                   in Inr (0, g1\<lparr>rg_models := smap_erase n (rg_models g1)\<rparr>)))))"

definition pimid_get_model :: "string option \<Rightarrow> 'w registry \<Rightarrow> 'w ModelDescriptor option" where
  "pimid_get_model name g = (case name of None \<Rightarrow> None | Some n \<Rightarrow> smap_find n (rg_models g))"

definition dlopen :: "'w loader \<Rightarrow> string \<Rightarrow> 'w registry \<Rightarrow> nat option \<times> 'w registry" where
  "dlopen ld path g = (case dl_open ld path of None \<Rightarrow> (None, g)
     | Some h \<Rightarrow> (Some h, g\<lparr>rg_uses := (rg_uses g)(h := rg_uses g h + 1)\<rparr>))"

definition dlclose :: "nat \<Rightarrow> 'w registry \<Rightarrow> 'w registry" where
  "dlclose h g = g\<lparr>rg_uses := (rg_uses g)(h := rg_uses g h - 1), rg_log := rg_log g @ [Closed h]\<rparr>"

text \<open>\<open>dl_create\<close>: \<open>None\<close> where the entry point is not found, \<open>Some None\<close> where it returns NULL.\<close>

definition pimid_load_model :: "'w loader \<Rightarrow> string option \<Rightarrow> 'w registry \<Rightarrow> int \<times> 'w registry" where
  "pimid_load_model ld library_path g =
     (case library_path of None \<Rightarrow> (- 1, g)
      | Some path \<Rightarrow> (case dlopen ld path g of (None, g1) \<Rightarrow> (- 1, g1)
          | (Some h, g1) \<Rightarrow> (case dl_create ld h of
                None \<Rightarrow> (- 1, dlclose h g1)
              | Some None \<Rightarrow> (- 1, dlclose h g1)
              | Some (Some d) \<Rightarrow>
                  (case pimid_register_model (Some d) g1 of (res, g2) \<Rightarrow>
                     if res \<noteq> 0 then (- 1, dlclose h g2)
                     else (0, case md_name d of None \<Rightarrow> g2
                              | Some n \<Rightarrow> g2\<lparr>rg_handles := smap_put n h (rg_handles g2)\<rparr>)))))"

fun type_name :: "ModelType \<Rightarrow> string" where
  "type_name PIMID_MODEL_NETWORK = ''network''"
| "type_name PIMID_MODEL_MEMORY = ''memory''"
| "type_name PIMID_MODEL_POWER = ''power''"
| "type_name PIMID_MODEL_THERMAL = ''thermal''"

definition pimid_list_models :: "'w registry \<Rightarrow> string list" where
  "pimid_list_models g =
     ''[PIMID] Registered models:'' #
     (if rg_models g = [] then [''  (none)'']
      else map (\<lambda>(n, d). ''  - '' @ n @ '' (version: '' @ (case md_version d of Some v \<Rightarrow> v | None \<Rightarrow> ''unknown'') @
             '', type: '' @ type_name (md_type d) @ '')'') (rg_models g))"

fun unregister_all :: "string list \<Rightarrow> 'w registry \<Rightarrow> model_error + 'w registry" where
  "unregister_all [] g = Inr g"
| "unregister_all (n # ns) g =
     (case pimid_unregister_model (Some n) g of Inl e \<Rightarrow> Inl e | Inr (_, g') \<Rightarrow> unregister_all ns g')"

definition pimid_cleanup_models :: "'w registry \<Rightarrow> model_error + 'w registry" where
  "pimid_cleanup_models g =
     (case unregister_all (map fst (rg_models g)) g of
        Inl e \<Rightarrow> Inl e
      | Inr g1 \<Rightarrow> Inr ((foldl (\<lambda>g h. dlclose h g) g1 (map snd (rg_handles g1)))\<lparr>rg_handles := []\<rparr>))"

section \<open>The wrappers\<close>

definition ExternalModel :: "string \<Rightarrow> 'w registry \<Rightarrow> model_error + 'w ModelDescriptor" where
  "ExternalModel name g = (case pimid_get_model (Some name) g of None \<Rightarrow> Inl (ModelNotFound name) | Some d \<Rightarrow> Inr d)"

text \<open>Every wrapper reads a callback, and returns a default where it is NULL.\<close>

definition call :: "(model_error + 'c) \<Rightarrow> ('c \<Rightarrow> 'f option) \<Rightarrow> 'r \<Rightarrow> ('f \<Rightarrow> 'w \<Rightarrow> 'r \<times> 'w) \<Rightarrow> 'w \<Rightarrow> model_error + 'r \<times> 'w" where
  "call cs field dflt use w =
     (case cs of Inl e \<Rightarrow> Inl e | Inr c \<Rightarrow> Inr (case field c of None \<Rightarrow> (dflt, w) | Some f \<Rightarrow> use f w))"

definition zero_network_stats :: NetworkStats where
  "zero_network_stats = \<lparr>ns_total_packets = 0, ns_total_bytes = 0, ns_total_cycles = 0, ns_avg_latency = 0,
     ns_bandwidth_utilization = 0\<rparr>"

definition zero_memory_stats :: MemoryStats where
  "zero_memory_stats = \<lparr>ms_total_reads = 0, ms_total_writes = 0, ms_total_cycles = 0, ms_avg_read_latency = 0,
     ms_avg_write_latency = 0, ms_bandwidth_utilization = 0\<rparr>"

definition net_init :: "'w ModelDescriptor \<Rightarrow> string option \<Rightarrow> 'w \<Rightarrow> model_error + int \<times> 'w" where
  "net_init d config_file = call (network_of d) nc_init (- 1) (\<lambda>f. f (md_handle d) config_file)"

definition net_sendPacket :: "'w ModelDescriptor \<Rightarrow> NetworkPacket \<Rightarrow> 'w \<Rightarrow> model_error + int \<times> 'w" where
  "net_sendPacket d packet = call (network_of d) nc_send_packet (- 1) (\<lambda>f. f (md_handle d) packet)"

definition net_tick :: "'w ModelDescriptor \<Rightarrow> 'w \<Rightarrow> model_error + unit \<times> 'w" where
  "net_tick d = call (network_of d) nc_tick () (\<lambda>f w. ((), f (md_handle d) w))"

definition net_getLatency :: "'w ModelDescriptor \<Rightarrow> 32 word \<Rightarrow> 32 word \<Rightarrow> 64 word \<Rightarrow> 'w \<Rightarrow> model_error + 64 word \<times> 'w" where
  "net_getLatency d src dst bytes = call (network_of d) nc_get_latency 0 (\<lambda>f. f (md_handle d) src dst bytes)"

definition net_getStats :: "'w ModelDescriptor \<Rightarrow> 'w \<Rightarrow> model_error + NetworkStats \<times> 'w" where
  "net_getStats d = call (network_of d) nc_get_stats zero_network_stats (\<lambda>f. f (md_handle d) zero_network_stats)"

definition mem_init :: "'w ModelDescriptor \<Rightarrow> string option \<Rightarrow> 'w \<Rightarrow> model_error + int \<times> 'w" where
  "mem_init d config_file = call (memory_of d) mc_init (- 1) (\<lambda>f. f (md_handle d) config_file)"

definition mem_sendRequest :: "'w ModelDescriptor \<Rightarrow> MemRequest \<Rightarrow> 'w \<Rightarrow> model_error + int \<times> 'w" where
  "mem_sendRequest d req = call (memory_of d) mc_send_request (- 1) (\<lambda>f. f (md_handle d) req)"

definition mem_isReady :: "'w ModelDescriptor \<Rightarrow> MemRequest \<Rightarrow> 'w \<Rightarrow> model_error + bool \<times> 'w" where
  "mem_isReady d req = call (memory_of d) mc_is_ready True (\<lambda>f. f (md_handle d) req)"

definition mem_tick :: "'w ModelDescriptor \<Rightarrow> 'w \<Rightarrow> model_error + unit \<times> 'w" where
  "mem_tick d = call (memory_of d) mc_tick () (\<lambda>f w. ((), f (md_handle d) w))"

definition mem_getLatency :: "'w ModelDescriptor \<Rightarrow> 64 word \<Rightarrow> 64 word \<Rightarrow> bool \<Rightarrow> 'w \<Rightarrow> model_error + 64 word \<times> 'w" where
  "mem_getLatency d addr bytes is_write = call (memory_of d) mc_get_latency 0 (\<lambda>f. f (md_handle d) addr bytes is_write)"

definition mem_getStats :: "'w ModelDescriptor \<Rightarrow> 'w \<Rightarrow> model_error + MemoryStats \<times> 'w" where
  "mem_getStats d = call (memory_of d) mc_get_stats zero_memory_stats (\<lambda>f. f (md_handle d) zero_memory_stats)"

section \<open>Invariants\<close>

text \<open>
  The tag of a descriptor and the member of its union agree (a contract of the interface: the
  callbacks are set based on the model type); power and thermal models have no callbacks of their own.
\<close>

definition tag_ok :: "'w ModelDescriptor \<Rightarrow> bool" where
  "tag_ok d \<longleftrightarrow> (case md_callbacks d of Network _ \<Rightarrow> md_type d \<noteq> PIMID_MODEL_MEMORY | Memory _ \<Rightarrow> md_type d \<noteq> PIMID_MODEL_NETWORK)"

definition registry_ok :: "'w registry \<Rightarrow> bool" where
  "registry_ok g \<longleftrightarrow> smap_ok (rg_models g) \<and> smap_ok (rg_handles g)
     \<and> (\<forall>(n, d)\<in>set (rg_models g). md_name d = Some n \<and> tag_ok d)
     \<and> (\<forall>h. length (filter (\<lambda>e. snd e = h) (rg_handles g)) \<le> rg_uses g h)"

definition empty_registry :: "'w \<Rightarrow> 'w registry" where
  "empty_registry w = \<lparr>rg_models = [], rg_handles = [], rg_uses = (\<lambda>_. 0), rg_world = w, rg_log = []\<rparr>"

text \<open>The calls that change the registry.\<close>

datatype 'w registry_op = Register "'w ModelDescriptor option" | Unregister "string option" | Load "string option"

fun registry_step :: "'w loader \<Rightarrow> 'w registry_op \<Rightarrow> 'w registry \<Rightarrow> model_error + 'w registry" where
  "registry_step ld (Register d) g = Inr (snd (pimid_register_model d g))"
| "registry_step ld (Unregister n) g = map_sum id snd (pimid_unregister_model n g)"
| "registry_step ld (Load path) g = Inr (snd (pimid_load_model ld path g))"

fun registry_run :: "'w loader \<Rightarrow> 'w registry_op list \<Rightarrow> 'w registry \<Rightarrow> model_error + 'w registry" where
  "registry_run ld [] g = Inr g"
| "registry_run ld (x # xs) g = (case registry_step ld x g of Inl e \<Rightarrow> Inl e | Inr g' \<Rightarrow> registry_run ld xs g')"

definition op_ok :: "'w registry_op \<Rightarrow> bool" where
  "op_ok x \<longleftrightarrow> (case x of Register (Some d) \<Rightarrow> tag_ok d | _ \<Rightarrow> True)"

definition loader_ok :: "'w loader \<Rightarrow> bool" where
  "loader_ok ld \<longleftrightarrow> (\<forall>h d. dl_create ld h = Some (Some d) \<longrightarrow> tag_ok d)"

lemma destroy_of_ok: "tag_ok d \<Longrightarrow> \<exists>f. destroy_of d = Inr f"
  by (auto simp: tag_ok_def destroy_of_def network_of_def memory_of_def split: callbacks.splits)

text \<open>Uses of a library that a table of handles accounts for.\<close>

lemma put_handle_uses:
  "smap_ok m \<Longrightarrow> length (filter (\<lambda>e. snd e = h) (smap_put n h' m)) \<le>
     length (filter (\<lambda>e. snd e = h) m) + (if h = h' then 1 else 0)"
  by (induction n h' m rule: smap_put.induct) (auto simp: smap_ok_def)

lemma put_handle_uses_new:
  "smap_ok m \<Longrightarrow> smap_find n m = None \<Longrightarrow> length (filter (\<lambda>e. snd e = h) (smap_put n h' m)) =
     length (filter (\<lambda>e. snd e = h) m) + (if h = h' then 1 else 0)"
  by (induction n h' m rule: smap_put.induct) (auto simp: smap_ok_def smap_find_def split: if_splits)

lemma set_smap_put: "smap_ok m \<Longrightarrow> set (smap_put k v m) = insert (k, v) {e \<in> set m. fst e \<noteq> k}"
  by (induction k v m rule: smap_put.induct) (auto simp: smap_ok_def)

lemma register_ok:
  assumes "registry_ok g" and "op_ok (Register d)"
  shows "registry_ok (snd (pimid_register_model d g))"
proof (cases "d = None \<or> md_name (the d) = None")
  case True
  then show ?thesis using assms(1) by (auto simp: pimid_register_model_def split: option.splits)
next
  case False
  then show ?thesis using assms
    by (auto simp: pimid_register_model_def registry_ok_def op_ok_def set_smap_put smap_ok_put split: option.splits)
qed

lemma unregister_ok:
  assumes "registry_ok g"
  shows "\<exists>g' r. pimid_unregister_model n g = Inr (r, g') \<and> registry_ok g' \<and> rg_handles g' = rg_handles g \<and> rg_uses g' = rg_uses g
      \<and> rg_models g' = (case n of None \<Rightarrow> rg_models g | Some n \<Rightarrow> smap_erase n (rg_models g))"
proof (cases "n = None \<or> smap_find (the n) (rg_models g) = None")
  case True
  then show ?thesis using assms by (auto simp: pimid_unregister_model_def smap_erase_new split: option.splits)
next
  case False
  then obtain m d where n: "n = Some m" "smap_find m (rg_models g) = Some d" by auto
  then have "(m, d) \<in> set (rg_models g)" using assms by (simp add: registry_ok_def smap_find_entry)
  then have "tag_ok d" using assms by (auto simp: registry_ok_def)
  then obtain f where f: "destroy_of d = Inr f" using destroy_of_ok by blast
  have "registry_ok (g\<lparr>rg_models := smap_erase m (rg_models g)\<rparr>)"
    using assms by (auto simp: registry_ok_def smap_ok_erase) (auto simp: smap_erase_def)
  then show ?thesis using n f by (cases f) (auto simp: pimid_unregister_model_def Let_def registry_ok_def)
qed

lemma load_cases:
  assumes "pimid_load_model ld path g = (r, g')"
  obtains (fail) "r = - 1" "rg_models g' = rg_models g" "rg_handles g' = rg_handles g" "rg_uses g' = rg_uses g"
  | (loaded) n h d where "r = 0" "dl_create ld h = Some (Some d)" "md_name d = Some n"
      "rg_models g' = smap_put n d (rg_models g)" "rg_handles g' = smap_put n h (rg_handles g)"
      "rg_uses g' = (rg_uses g)(h := rg_uses g h + 1)"
  using assms
  by (auto simp: pimid_load_model_def dlopen_def dlclose_def pimid_register_model_def
      split: option.splits if_splits prod.splits)

lemma load_ok:
  assumes "registry_ok g" and "loader_ok ld"
  shows "registry_ok (snd (pimid_load_model ld path g))"
proof -
  obtain r g' where g': "pimid_load_model ld path g = (r, g')" by fastforce
  from g' have "registry_ok g'"
  proof (cases rule: load_cases)
    case fail
    then show ?thesis using assms(1) by (simp add: registry_ok_def)
  next
    case (loaded n h d)
    have "length (filter (\<lambda>e. snd e = h') (smap_put n h (rg_handles g))) \<le> ((rg_uses g)(h := rg_uses g h + 1)) h'" for h'
      using put_handle_uses [of "rg_handles g" h' n h] assms(1) by (auto simp: registry_ok_def intro: le_trans)
    then show ?thesis using loaded assms
      by (auto simp: registry_ok_def loader_ok_def smap_ok_put set_smap_put simp del: fun_upd_apply)
  qed
  then show ?thesis using g' by simp
qed

text \<open>Removing the names one after the other.\<close>

lemma unregister_all_ok:
  "registry_ok g \<Longrightarrow> \<exists>g'. unregister_all ns g = Inr g' \<and> registry_ok g' \<and> rg_handles g' = rg_handles g \<and> rg_uses g' = rg_uses g
     \<and> rg_models g' = foldl (\<lambda>m k. smap_erase k m) (rg_models g) ns"
proof (induction ns arbitrary: g)
  case (Cons n ns)
  then show ?case using unregister_ok [OF Cons.prems, of "Some n"] by fastforce
qed simp

lemma unregister_log:
  assumes "pimid_unregister_model (Some n) g = Inr (r, g')" and "smap_find n (rg_models g) = Some d"
  shows "rg_log g' = rg_log g @ (if destroy_of d = Inr None then [] else [Destroyed n])"
  using assms by (auto simp: pimid_unregister_model_def Let_def split: sum.splits option.splits)

lemma unregister_all_log:
  assumes "unregister_all ns g = Inr g'" and "distinct ns" and "\<And>n. n \<in> set ns \<Longrightarrow> smap_find n (rg_models g) = Some (ds n)"
    and "registry_ok g"
  shows "rg_log g' = rg_log g @ map Destroyed (filter (\<lambda>n. destroy_of (ds n) \<noteq> Inr None) ns)"
  using assms
proof (induction ns arbitrary: g)
  case (Cons n ns)
  obtain r g1 where g1: "pimid_unregister_model (Some n) g = Inr (r, g1)" "registry_ok g1"
      "rg_models g1 = smap_erase n (rg_models g)" using unregister_ok [OF Cons.prems(4), of "Some n"] by auto
  have "smap_find m (rg_models g1) = Some (ds m)" if "m \<in> set ns" for m
    using Cons.prems(2,3) that g1(3) by (auto simp: smap_find_erase)
  moreover have "unregister_all ns g1 = Inr g'" using Cons.prems(1) g1(1) by simp
  ultimately have "rg_log g' = rg_log g1 @ map Destroyed (filter (\<lambda>n. destroy_of (ds n) \<noteq> Inr None) ns)"
    using Cons.IH [of g1] Cons.prems(2) g1(2) by simp
  then show ?case using unregister_log [OF g1(1), of "ds n"] Cons.prems(3) by simp
qed simp

lemma foldl_dlclose:
  "foldl (\<lambda>g h. dlclose h g) g hs =
     g\<lparr>rg_uses := (\<lambda>h. rg_uses g h - length (filter (\<lambda>x. x = h) hs)), rg_log := rg_log g @ map Closed hs\<rparr>"
  by (induction hs arbitrary: g) (auto simp: dlclose_def fun_eq_iff)

section \<open>Properties\<close>

lemma registry_step_ok:
  assumes "loader_ok ld" and "op_ok x" and "registry_ok g"
  shows "\<exists>g'. registry_step ld x g = Inr g' \<and> registry_ok g'"
proof (cases x)
  case (Register d)
  then show ?thesis using register_ok assms by auto
next
  case (Unregister n)
  then show ?thesis using unregister_ok [OF assms(3), of n] by auto
next
  case (Load p)
  then show ?thesis using load_ok [OF assms(3,1)] by auto
qed

text \<open>
  The registry stays well-formed: from an empty registry, any sequence of registrations, removals
  and loads runs to its end without reading a wrong member of the callback union, the map keys are
  the names of the models, and the loader counts at least the uses the handle table records.
\<close>

theorem registry_run_ok:
  assumes "loader_ok ld" and "\<forall>x\<in>set xs. op_ok x" and "registry_ok g"
  shows "\<exists>g'. registry_run ld xs g = Inr g' \<and> registry_ok g'"
  using assms(2,3)
proof (induction xs arbitrary: g)
  case (Cons x xs)
  have "\<exists>g'. registry_step ld x g = Inr g' \<and> registry_ok g'" using registry_step_ok [OF assms(1)] Cons.prems by simp
  then show ?case using Cons by auto
qed simp

definition sample_net :: "nat NetworkCallbacks" where
  "sample_net = \<lparr>nc_init = None, nc_send_packet = None, nc_tick = Some (\<lambda>h w. w + 1), nc_get_latency = None,
     nc_get_stats = None, nc_destroy = Some (\<lambda>h w. w + 100)\<rparr>"

definition sample_model :: "string \<Rightarrow> nat ModelDescriptor" where
  "sample_model n = \<lparr>md_name = Some n, md_version = None, md_type = PIMID_MODEL_NETWORK, md_handle = 5, md_callbacks = Network sample_net\<rparr>"

text \<open>Two libraries that both provide a model \<^verbatim>\<open>mesh\<close>.\<close>

definition sample_loader :: "nat loader" where
  "sample_loader = \<lparr>dl_open = (\<lambda>p. if p = ''a.so'' then Some 1 else if p = ''b.so'' then Some 2 else None),
     dl_create = (\<lambda>h. Some (Some (sample_model ''mesh'')))\<rparr>"

lemma sample_loader_ok: "loader_ok sample_loader"
  by (simp add: loader_ok_def sample_loader_def sample_model_def tag_ok_def)

theorem registry_run_ok_witness:
  "\<exists>g'. registry_run sample_loader [Load (Some ''a.so''), Unregister (Some ''mesh''), Register None] (empty_registry 0) = Inr g'
     \<and> registry_ok g'"
  by (rule registry_run_ok [OF sample_loader_ok]) (auto simp: op_ok_def empty_registry_def registry_ok_def)

lemma cleanup_order_aux:
  assumes "registry_ok g"
  shows "\<exists>g'. pimid_cleanup_models g = Inr g' \<and> rg_models g' = [] \<and> rg_handles g' = []
     \<and> rg_log g' = rg_log g
         @ map (Destroyed \<circ> fst) (filter (\<lambda>(n, d). destroy_of d \<noteq> Inr None) (rg_models g))
         @ map (Closed \<circ> snd) (rg_handles g)
     \<and> (\<forall>h. rg_uses g' h = rg_uses g h - length (filter (\<lambda>e. snd e = h) (rg_handles g)))"
proof -
  have ok: "smap_ok (rg_models g)" using assms by (simp add: registry_ok_def)
  let ?ns = "map fst (rg_models g)"
  obtain g1 where g1: "unregister_all ?ns g = Inr g1" "rg_handles g1 = rg_handles g" "rg_uses g1 = rg_uses g"
      "rg_models g1 = foldl (\<lambda>m k. smap_erase k m) (rg_models g) ?ns"
    using unregister_all_ok [OF assms] by blast
  have empty: "rg_models g1 = []" using sm.erase_all [OF ok] g1(4) by simp
  have find: "n \<in> set ?ns \<Longrightarrow> smap_find n (rg_models g) = Some (the (smap_find n (rg_models g)))" for n
    using smap_find_None [of n "rg_models g"] by (cases "smap_find n (rg_models g)") auto
  have "rg_log g1 = rg_log g @ map Destroyed (filter (\<lambda>n. destroy_of (the (smap_find n (rg_models g))) \<noteq> Inr None) ?ns)"
    by (rule unregister_all_log [OF g1(1) smap_ok_distinct [OF ok] find assms])
  moreover have "filter (\<lambda>n. destroy_of (the (smap_find n (rg_models g))) \<noteq> Inr None) ?ns
      = map fst (filter (\<lambda>(n, d). destroy_of d \<noteq> Inr None) (rg_models g))"
    by (auto simp: filter_map comp_def smap_find_entry [OF ok, THEN iffD2] intro!: arg_cong [where f = "map fst"] filter_cong)
  ultimately have "rg_log g1 = rg_log g @ map (Destroyed \<circ> fst) (filter (\<lambda>(n, d). destroy_of d \<noteq> Inr None) (rg_models g))"
    by simp
  moreover have "length (filter (\<lambda>x. x = h) (map snd hs)) = length (filter (\<lambda>e. snd e = h) hs)" for h and hs :: "(string, nat) smap"
    by (simp add: filter_map comp_def)
  ultimately show ?thesis using g1 empty by (simp add: pimid_cleanup_models_def foldl_dlclose)
qed

text \<open>
  C22: Cleanup: it succeeds on every well-formed registry and leaves both maps empty; every model with a
  \<^verbatim>\<open>destroy\<close> callback is destroyed exactly once, in the order of the names, and all of them
  before the first library is closed; each recorded handle is closed once.
\<close>

theorem cleanup_order:
  assumes "registry_ok g"
  shows "\<exists>g'. pimid_cleanup_models g = Inr g' \<and> rg_models g' = [] \<and> rg_handles g' = []
     \<and> rg_log g' = rg_log g
         @ map (Destroyed \<circ> fst) (filter (\<lambda>(n, d). destroy_of d \<noteq> Inr None) (rg_models g))
         @ map (Closed \<circ> snd) (rg_handles g)
     \<and> (\<forall>h. rg_uses g' h = rg_uses g h - length (filter (\<lambda>e. snd e = h) (rg_handles g)))"
  by (rule cleanup_order_aux [OF assms])

theorem cleanup_order_witness:
  "\<exists>g'. pimid_cleanup_models \<lparr>rg_models = [(''mesh'', sample_model ''mesh'')], rg_handles = [(''mesh'', 1)],
       rg_uses = (\<lambda>h. if h = 1 then 1 else 0), rg_world = 0, rg_log = []\<rparr> = Inr g'
     \<and> rg_log g' = [Destroyed ''mesh'', Closed 1]"
proof -
  let ?g = "\<lparr>rg_models = [(''mesh'', sample_model ''mesh'')], rg_handles = [(''mesh'', 1)],
       rg_uses = (\<lambda>h. if h = 1 then 1 else 0), rg_world = 0, rg_log = []\<rparr> :: nat registry"
  have "registry_ok ?g" by (simp add: registry_ok_def smap_ok_def sample_model_def tag_ok_def)
  moreover have "destroy_of (sample_model ''mesh'') = Inr (nc_destroy sample_net)"
    by (simp add: destroy_of_def sample_model_def network_of_def)
  ultimately show ?thesis using cleanup_order [of ?g] by (auto simp: sample_net_def)
qed

text \<open>
  A run in which a successful load never takes the name of a model that is still in the handle table.
\<close>

fun fresh_loads :: "'w loader \<Rightarrow> 'w registry_op list \<Rightarrow> 'w registry \<Rightarrow> bool" where
  "fresh_loads ld [] g \<longleftrightarrow> True"
| "fresh_loads ld (x # xs) g \<longleftrightarrow>
     (case x of Load (Some p) \<Rightarrow>
        (case dl_open ld p of None \<Rightarrow> True | Some h \<Rightarrow>
           (case dl_create ld h of Some (Some d) \<Rightarrow> (case md_name d of None \<Rightarrow> True | Some n \<Rightarrow> smap_find n (rg_handles g) = None) | _ \<Rightarrow> True))
      | _ \<Rightarrow> True)
     \<and> (case registry_step ld x g of Inl _ \<Rightarrow> True | Inr g' \<Rightarrow> fresh_loads ld xs g')"

definition balanced :: "'w registry \<Rightarrow> bool" where
  "balanced g \<longleftrightarrow> (\<forall>h. rg_uses g h = length (filter (\<lambda>e. snd e = h) (rg_handles g)))"

lemma load_handles:
  assumes "pimid_load_model ld (Some p) g = (r, g')" and "rg_handles g' \<noteq> rg_handles g \<or> rg_uses g' \<noteq> rg_uses g"
  obtains h d n where "dl_open ld p = Some h" "dl_create ld h = Some (Some d)" "md_name d = Some n"
      "rg_handles g' = smap_put n h (rg_handles g)" "rg_uses g' = (rg_uses g)(h := rg_uses g h + 1)"
  using assms
  by (auto simp: pimid_load_model_def dlopen_def dlclose_def pimid_register_model_def split: option.splits if_splits prod.splits)

lemma balanced_step:
  assumes "registry_ok g" and "balanced g" and "fresh_loads ld (x # xs) g" and "registry_step ld x g = Inr g'"
  shows "balanced g'"
proof (cases "rg_handles g' = rg_handles g \<and> rg_uses g' = rg_uses g")
  case True
  then show ?thesis using assms(2) by (simp add: balanced_def)
next
  case False
  have load: "\<exists>p. x = Load (Some p)"
  proof (cases x)
    case (Register d)
    then show ?thesis using False assms(4) by (auto simp: pimid_register_model_def split: option.splits)
  next
    case (Unregister n)
    then show ?thesis using False assms(4) unregister_ok [OF assms(1), of n] by auto
  next
    case (Load p)
    then show ?thesis using False assms(4) by (cases p) (auto simp: pimid_load_model_def)
  qed
  then obtain p where x: "x = Load (Some p)" by blast
  then obtain r where "pimid_load_model ld (Some p) g = (r, g')" using assms(4) by (cases "pimid_load_model ld (Some p) g") auto
  from load_handles [OF this] False obtain h d n where l: "dl_open ld p = Some h" "dl_create ld h = Some (Some d)" "md_name d = Some n"
      "rg_handles g' = smap_put n h (rg_handles g)" "rg_uses g' = (rg_uses g)(h := rg_uses g h + 1)" by blast
  have "smap_find n (rg_handles g) = None" using assms(3) x l by simp
  with l assms(1,2) show ?thesis by (auto simp: balanced_def registry_ok_def put_handle_uses_new)
qed

lemma balanced_run:
  assumes "loader_ok ld" and "\<forall>x\<in>set xs. op_ok x" and "registry_ok g" and "balanced g" and "fresh_loads ld xs g"
    and "registry_run ld xs g = Inr g'"
  shows "balanced g' \<and> registry_ok g'"
  using assms(2-)
proof (induction xs arbitrary: g)
  case (Cons x xs)
  obtain g1 where g1: "registry_step ld x g = Inr g1" using Cons.prems(5) by (auto split: sum.splits)
  have "registry_ok g1" using registry_step_ok [OF assms(1) _ Cons.prems(2)] Cons.prems(1) g1 by fastforce
  moreover have "balanced g1" using balanced_step Cons.prems g1 by metis
  moreover have "fresh_loads ld xs g1" "registry_run ld xs g1 = Inr g'" using Cons.prems g1 by auto
  ultimately show ?case using Cons.IH Cons.prems(1) by simp
qed simp

text \<open>
  No library is left open: where no load takes the name of a model loaded before, cleanup after
  any run returns every library's use count to zero.
\<close>

theorem cleanup_closes_all:
  assumes "loader_ok ld" and "\<forall>x\<in>set xs. op_ok x" and "fresh_loads ld xs (empty_registry w)"
    and "registry_run ld xs (empty_registry w) = Inr g"
  shows "\<exists>g'. pimid_cleanup_models g = Inr g' \<and> (\<forall>h. rg_uses g' h = 0)"
proof -
  have "balanced (empty_registry w)" "registry_ok (empty_registry w)"
    by (simp_all add: balanced_def registry_ok_def empty_registry_def)
  then have "balanced g \<and> registry_ok g" using balanced_run [OF assms(1,2)] assms(3,4) by blast
  then show ?thesis using cleanup_order_aux [of g] by (auto simp: balanced_def)
qed

theorem cleanup_closes_all_witness:
  "\<exists>g g'. registry_run sample_loader [Load (Some ''a.so'')] (empty_registry 0) = Inr g
     \<and> pimid_cleanup_models g = Inr g' \<and> rg_uses g' 1 = 0"
proof -
  let ?xs = "[Load (Some ''a.so'')]"
  obtain g where g: "registry_run sample_loader ?xs (empty_registry 0) = Inr g" by simp
  have "fresh_loads sample_loader ?xs (empty_registry 0)" by (simp add: sample_loader_def empty_registry_def split: option.split)
  from cleanup_closes_all [OF sample_loader_ok _ this g] g show ?thesis by (auto simp: op_ok_def simp del: registry_run.simps)
qed

text \<open>
  A second library with the same model name: the handle of the first is overwritten in the table,
  so that cleanup never closes it, and the \<^verbatim>\<open>destroy\<close> callback of the replaced model is never called.
\<close>

theorem replaced_library_leaks:
  "\<exists>g g'. registry_run sample_loader [Load (Some ''a.so''), Load (Some ''b.so'')] (empty_registry 0) = Inr g
     \<and> pimid_cleanup_models g = Inr g' \<and> rg_uses g' 1 = 1 \<and> rg_log g' = [Destroyed ''mesh'', Closed 2]"
  by (simp add: sample_loader_def sample_model_def sample_net_def empty_registry_def pimid_load_model_def dlopen_def dlclose_def
      pimid_register_model_def pimid_cleanup_models_def pimid_unregister_model_def smap_find_def smap_erase_def destroy_of_def
      network_of_def)

text \<open>
  The wrappers: a network wrapper on a registered network model calls the model's own callbacks and
  nothing else; without a callback it gives the documented default and leaves the model alone.
  On a memory model, which the constructor accepts as well, every network wrapper reads the inactive union member.
\<close>

theorem network_wrapper_calls:
  assumes "registry_ok g" and "ExternalModel name g = Inr d"
  shows "if (\<exists>c. md_callbacks d = Network c)
     then (\<exists>c. md_callbacks d = Network c
        \<and> net_init d cfg w = Inr (case nc_init c of None \<Rightarrow> (- 1, w) | Some f \<Rightarrow> f (md_handle d) cfg w)
        \<and> net_sendPacket d pkt w = Inr (case nc_send_packet c of None \<Rightarrow> (- 1, w) | Some f \<Rightarrow> f (md_handle d) pkt w)
        \<and> net_tick d w = Inr ((), case nc_tick c of None \<Rightarrow> w | Some f \<Rightarrow> f (md_handle d) w)
        \<and> net_getLatency d s t b w = Inr (case nc_get_latency c of None \<Rightarrow> (0, w) | Some f \<Rightarrow> f (md_handle d) s t b w)
        \<and> md_type d \<noteq> PIMID_MODEL_MEMORY)
     else md_name d = Some name \<and> md_type d \<noteq> PIMID_MODEL_NETWORK
        \<and> net_init d cfg w = Inl WrongUnionMember \<and> net_sendPacket d pkt w = Inl WrongUnionMember
        \<and> net_tick d w = Inl WrongUnionMember \<and> net_getLatency d s t b w = Inl WrongUnionMember"
proof -
  have "(name, d) \<in> set (rg_models g)" using assms
    by (auto simp: ExternalModel_def pimid_get_model_def registry_ok_def smap_find_entry split: option.splits)
  then have "md_name d = Some name" "tag_ok d" using assms(1) by (auto simp: registry_ok_def)
  then show ?thesis
    by (cases "md_callbacks d") (auto simp: tag_ok_def net_init_def net_sendPacket_def net_tick_def net_getLatency_def
        network_of_def call_def split: option.split)
qed

theorem network_wrapper_calls_witness:
  "net_tick (sample_model ''mesh'') 4 = Inr ((), 5) \<and> net_init (sample_model ''mesh'') None 4 = Inr (- 1, 4)"
proof -
  let ?g = "(empty_registry 0)\<lparr>rg_models := [(''mesh'', sample_model ''mesh'')]\<rparr>"
  have "registry_ok ?g" by (simp add: registry_ok_def smap_ok_def sample_model_def tag_ok_def empty_registry_def)
  moreover have "ExternalModel ''mesh'' ?g = Inr (sample_model ''mesh'')"
    by (simp add: ExternalModel_def pimid_get_model_def smap_find_def)
  ultimately show ?thesis
    using network_wrapper_calls [of ?g "''mesh''" "sample_model ''mesh''" None 4]
    by (auto simp: sample_model_def sample_net_def)
qed

end
