(* ===== verification/Config_Schema.thy ===== *)
theory Config_Schema
  imports Config_Parser
begin

text \<open>
  The configuration schema, include/config/config_schema.h and src/config/config_schema.cpp:
  parameters and sections, the table of sections, and the documents generated from a schema (the
  JSON schema and the YAML template). A \<^verbatim>\<open>double\<close> is a real; how the library prints and reads
  one is an argument, the record \<open>float_text\<close>.
\<close>

section \<open>Schemas\<close>

datatype ParameterType = STRING | INTEGER | UNSIGNED_INTEGER | FLOAT | BOOLEAN | ENUM | LIST | OBJECT | FILE_PATH | DIRECTORY_PATH

datatype RuleType = MIN_VALUE | MAX_VALUE | RANGE | REGEX | ONE_OF | FILE_EXISTS | DIR_EXISTS | CUSTOM

text \<open>The two \<^verbatim>\<open>std::variant\<close>s.\<close>

datatype rule_value = RInt int | RDouble real | RString string | RList "string list"

datatype default_value = DInt int | DDouble real | DString string | DBool bool

record ValidationRule =
  vr_type :: RuleType
  vr_value :: rule_value
  vr_error_message :: string

record ParameterSchema =
  ps_name :: string
  ps_description :: string
  ps_type :: ParameterType
  ps_required :: bool
  ps_default :: default_value
  ps_rules :: "ValidationRule list"
  ps_allowed :: "string list"
  ps_example :: string
  ps_category :: string

datatype SectionSchema =
  Section (ss_name: string) (ss_description: string) (ss_parameters: "ParameterSchema list")
    (ss_subsections: "SectionSchema list") (ss_required: bool)

record ConfigSchema =
  cs_sections :: "SectionSchema list"
  cs_section_map :: "(string, nat) smap"

text \<open>A pointer into \<^verbatim>\<open>sections_\<close> is the position it points to.\<close>

definition ConfigSchema_init :: ConfigSchema where
  "ConfigSchema_init = \<lparr>cs_sections = [], cs_section_map = []\<rparr>"

definition buildSectionMap :: "ConfigSchema \<Rightarrow> ConfigSchema" where
  "buildSectionMap c = c\<lparr>cs_section_map :=
     foldl (\<lambda>m i. smap_put (ss_name (cs_sections c ! i)) i m) [] [0..<length (cs_sections c)]\<rparr>"

definition addSection :: "SectionSchema \<Rightarrow> ConfigSchema \<Rightarrow> ConfigSchema" where
  "addSection s c = buildSectionMap (c\<lparr>cs_sections := cs_sections c @ [s]\<rparr>)"

definition getSection :: "string \<Rightarrow> ConfigSchema \<Rightarrow> SectionSchema option" where
  "getSection name c = map_option (\<lambda>i. cs_sections c ! i) (smap_find name (cs_section_map c))"

definition getParameter :: "string \<Rightarrow> string \<Rightarrow> ConfigSchema \<Rightarrow> ParameterSchema option" where
  "getParameter sec param c =
     (case getSection sec c of None \<Rightarrow> None | Some s \<Rightarrow> find (\<lambda>p. ps_name p = param) (ss_parameters s))"

text \<open>\<^verbatim>\<open>validateValue\<close>: the answer and the error text.\<close>

definition validateValue :: "ParameterSchema \<Rightarrow> string \<Rightarrow> string \<Rightarrow> bool \<times> string" where
  "validateValue p v err =
     (if ps_required p \<and> v = '''' then (False, ''Parameter '' @ ps_name p @ '' is required'') else (True, err))"

section \<open>Texts of the parts\<close>

text \<open>
  The double a text is read as: \<^verbatim>\<open>std::stod\<close> also reads \<^verbatim>\<open>inf\<close> and \<^verbatim>\<open>nan\<close>. Every comparison with the latter is
  false. The bounds and defaults a schema holds are finite.
\<close>

datatype stod_value = Finite real | PlusInf | MinusInf | NotANumber

fun stod_below :: "stod_value \<Rightarrow> real \<Rightarrow> bool" where
  "stod_below (Finite x) m \<longleftrightarrow> x < m"
| "stod_below PlusInf m \<longleftrightarrow> False"
| "stod_below MinusInf m \<longleftrightarrow> True"
| "stod_below NotANumber m \<longleftrightarrow> False"

fun stod_above :: "stod_value \<Rightarrow> real \<Rightarrow> bool" where
  "stod_above (Finite x) m \<longleftrightarrow> m < x"
| "stod_above PlusInf m \<longleftrightarrow> True"
| "stod_above MinusInf m \<longleftrightarrow> False"
| "stod_above NotANumber m \<longleftrightarrow> False"

record float_text =
  ft_show :: "real \<Rightarrow> string"
  ft_to_string :: "real \<Rightarrow> string"
  ft_stod :: "string \<Rightarrow> string + stod_value \<times> nat"

fun paramTypeToString :: "ParameterType \<Rightarrow> string" where
  "paramTypeToString STRING = ''string''"
| "paramTypeToString INTEGER = ''integer''"
| "paramTypeToString UNSIGNED_INTEGER = ''unsigned integer''"
| "paramTypeToString FLOAT = ''float''"
| "paramTypeToString BOOLEAN = ''boolean''"
| "paramTypeToString ENUM = ''enum''"
| "paramTypeToString LIST = ''list''"
| "paramTypeToString OBJECT = ''object''"
| "paramTypeToString FILE_PATH = ''file path''"
| "paramTypeToString DIRECTORY_PATH = ''directory path''"

fun paramTypeToJSONSchemaType :: "ParameterType \<Rightarrow> string" where
  "paramTypeToJSONSchemaType STRING = ''string''"
| "paramTypeToJSONSchemaType ENUM = ''string''"
| "paramTypeToJSONSchemaType FILE_PATH = ''string''"
| "paramTypeToJSONSchemaType DIRECTORY_PATH = ''string''"
| "paramTypeToJSONSchemaType INTEGER = ''integer''"
| "paramTypeToJSONSchemaType UNSIGNED_INTEGER = ''integer''"
| "paramTypeToJSONSchemaType FLOAT = ''number''"
| "paramTypeToJSONSchemaType BOOLEAN = ''boolean''"
| "paramTypeToJSONSchemaType LIST = ''array''"
| "paramTypeToJSONSchemaType OBJECT = ''object''"

definition to_string_int :: "int \<Rightarrow> string" where
  "to_string_int i = (if i < 0 then ''-'' @ show_nat (nat (- i)) else show_nat (nat i))"

fun getDefaultAsString :: "float_text \<Rightarrow> default_value \<Rightarrow> string" where
  "getDefaultAsString ft (DInt i) = to_string_int i"
| "getDefaultAsString ft (DDouble d) = ft_show ft d"
| "getDefaultAsString ft (DString s) = s"
| "getDefaultAsString ft (DBool b) = (if b then ''true'' else ''false'')"

definition BS :: char where "BS = CHR 0x5C"
definition CR :: char where "CR = CHR 0x0D"

definition escapeHTML_char :: "char \<Rightarrow> string" where
  "escapeHTML_char c =
     (if c = CHR ''<'' then ''&lt;'' else if c = CHR ''>'' then ''&gt;'' else if c = CHR ''&'' then ''&amp;''
      else if c = QUOTE then ''&quot;'' else [c])"

definition escapeHTML :: "string \<Rightarrow> string" where
  "escapeHTML s = concat (map escapeHTML_char s)"

definition escapeJSON_char :: "char \<Rightarrow> string" where
  "escapeJSON_char c =
     (if c = QUOTE then [BS, QUOTE] else if c = BS then [BS, BS] else if c = NL then [BS, CHR ''n'']
      else if c = CR then [BS, CHR ''r''] else if c = TAB then [BS, CHR ''t''] else [c])"

definition escapeJSON :: "string \<Rightarrow> string" where
  "escapeJSON s = concat (map escapeJSON_char s)"

definition dq :: "string \<Rightarrow> string" where
  "dq s = QUOTE # s @ [QUOTE]"

definition string_like :: "ParameterType \<Rightarrow> bool" where
  "string_like t \<longleftrightarrow> t = STRING \<or> t = ENUM \<or> t = FILE_PATH \<or> t = DIRECTORY_PATH"

section \<open>The JSON schema\<close>

text \<open>The loops that write a separator before every item but the first.\<close>

fun items_from :: "bool \<Rightarrow> ('a \<Rightarrow> string) \<Rightarrow> 'a list \<Rightarrow> string" where
  "items_from first f [] = ''''"
| "items_from first f (x # xs) = (if first then '''' else '','' @ [NL]) @ f x @ items_from False f xs"

fun comma_list :: "('a \<Rightarrow> string) \<Rightarrow> 'a list \<Rightarrow> string" where
  "comma_list f [] = ''''"
| "comma_list f (x # xs) = f x @ (if xs = [] then '''' else '', '' @ comma_list f xs)"

definition quoted_list :: "string list \<Rightarrow> string" where
  "quoted_list xs = ''['' @ comma_list (\<lambda>s. dq (escapeJSON s)) xs @ '']''"

definition json_default :: "float_text \<Rightarrow> string \<Rightarrow> ParameterSchema \<Rightarrow> string" where
  "json_default ft ind p =
     (let d = getDefaultAsString ft (ps_default p)
      in if d = '''' then ''''
         else '','' @ [NL] @ ind @ dq ''default'' @ '': '' @ (if string_like (ps_type p) then dq (escapeJSON d) else d))"

definition json_enum :: "string \<Rightarrow> ParameterSchema \<Rightarrow> string" where
  "json_enum ind p =
     (if ps_allowed p = [] then '''' else '','' @ [NL] @ ind @ dq ''enum'' @ '': '' @ quoted_list (ps_allowed p))"

definition json_desc :: "string \<Rightarrow> ParameterSchema \<Rightarrow> string" where
  "json_desc ind p =
     (if ps_description p = '''' then '''' else '','' @ [NL] @ ind @ dq ''description'' @ '': '' @ dq (escapeJSON (ps_description p)))"

definition json_rule :: "float_text \<Rightarrow> ValidationRule \<Rightarrow> string" where
  "json_rule ft r =
     (case (vr_type r, vr_value r) of
        (MIN_VALUE, RInt i) \<Rightarrow> '','' @ [NL] @ ''          '' @ dq ''minimum'' @ '': '' @ to_string_int i
      | (MIN_VALUE, RDouble d) \<Rightarrow> '','' @ [NL] @ ''          '' @ dq ''minimum'' @ '': '' @ ft_show ft d
      | (MAX_VALUE, RInt i) \<Rightarrow> '','' @ [NL] @ ''          '' @ dq ''maximum'' @ '': '' @ to_string_int i
      | (MAX_VALUE, RDouble d) \<Rightarrow> '','' @ [NL] @ ''          '' @ dq ''maximum'' @ '': '' @ ft_show ft d
      | (REGEX, RString s) \<Rightarrow> '','' @ [NL] @ ''          '' @ dq ''pattern'' @ '': '' @ dq (escapeJSON s)
      | _ \<Rightarrow> '''')"

definition json_param :: "float_text \<Rightarrow> ParameterSchema \<Rightarrow> string" where
  "json_param ft p =
     ''        '' @ dq (escapeJSON (ps_name p)) @ '': {'' @ [NL] @
     ''          '' @ dq ''type'' @ '': '' @ dq (paramTypeToJSONSchemaType (ps_type p)) @
     json_desc ''          '' p @ json_default ft ''          '' p @ json_enum ''          '' p @
     concat (map (json_rule ft) (ps_rules p)) @ [NL] @ ''        }''"

definition json_subparam :: "float_text \<Rightarrow> ParameterSchema \<Rightarrow> string" where
  "json_subparam ft p =
     ''            '' @ dq (escapeJSON (ps_name p)) @ '': {'' @ [NL] @
     ''              '' @ dq ''type'' @ '': '' @ dq (paramTypeToJSONSchemaType (ps_type p)) @
     json_desc ''              '' p @ json_default ft ''              '' p @ json_enum ''              '' p @
     [NL] @ ''            }''"

definition json_required :: "string \<Rightarrow> string list \<Rightarrow> string" where
  "json_required ind names =
     (if names = [] then '''' else '','' @ [NL] @ ind @ dq ''required'' @ '': '' @ quoted_list names)"

definition required_names :: "ParameterSchema list \<Rightarrow> string list" where
  "required_names ps = map ps_name (filter ps_required ps)"

definition required_sections :: "SectionSchema list \<Rightarrow> string list" where
  "required_sections ss = map ss_name (filter ss_required ss)"

definition json_object_head :: "string \<Rightarrow> string \<Rightarrow> string \<Rightarrow> string \<Rightarrow> string" where
  "json_object_head ind ind2 name desc =
     ind @ dq (escapeJSON name) @ '': {'' @ [NL] @ ind2 @ dq ''type'' @ '': '' @ dq ''object'' @ '','' @ [NL] @
     (if desc = '''' then '''' else ind2 @ dq ''description'' @ '': '' @ dq (escapeJSON desc) @ '','' @ [NL]) @
     ind2 @ dq ''properties'' @ '': {'' @ [NL]"

definition json_subsection :: "float_text \<Rightarrow> SectionSchema \<Rightarrow> string" where
  "json_subsection ft s =
     json_object_head ''        '' ''          '' (ss_name s) (ss_description s) @
     items_from True (json_subparam ft) (ss_parameters s) @ [NL] @ ''          }'' @
     json_required ''          '' (required_names (ss_parameters s)) @ [NL] @ ''        }''"

definition json_section :: "float_text \<Rightarrow> SectionSchema \<Rightarrow> string" where
  "json_section ft s =
     json_object_head ''    '' ''      '' (ss_name s) (ss_description s) @
     items_from True (json_param ft) (ss_parameters s) @
     items_from (ss_parameters s = []) (json_subsection ft) (ss_subsections s) @ [NL] @ ''      }'' @
     json_required ''      '' (required_names (ss_parameters s) @ required_sections (ss_subsections s)) @
     [NL] @ ''    }''"

definition generateJSONSchema :: "float_text \<Rightarrow> ConfigSchema \<Rightarrow> string" where
  "generateJSONSchema ft c =
     ''{'' @ [NL] @
     ''  '' @ dq ''$schema'' @ '': '' @ dq ''http://json-schema.org/draft-07/schema#'' @ '','' @ [NL] @
     ''  '' @ dq ''title'' @ '': '' @ dq ''PIMID Configuration Schema'' @ '','' @ [NL] @
     ''  '' @ dq ''description'' @ '': '' @ dq ''Configuration schema for the PIMID PIM simulator'' @ '','' @ [NL] @
     ''  '' @ dq ''type'' @ '': '' @ dq ''object'' @ '','' @ [NL] @
     ''  '' @ dq ''properties'' @ '': {'' @ [NL] @
     items_from True (json_section ft) (cs_sections c) @ [NL] @ ''  }'' @
     json_required ''  '' (required_sections (cs_sections c)) @ [NL] @ ''}'' @ [NL]"

section \<open>What the text denotes\<close>

datatype json = JStr string | JInt int | JReal real | JBool bool | JArr "json list" | JObj "(string \<times> json) list"

text \<open>The compact text of a value.\<close>

fun join_with :: "string \<Rightarrow> string list \<Rightarrow> string" where
  "join_with sep [] = ''''"
| "join_with sep [x] = x"
| "join_with sep (x # y # ys) = x @ sep @ join_with sep (y # ys)"

fun print_json :: "float_text \<Rightarrow> json \<Rightarrow> string" where
  "print_json ft (JStr s) = dq (escapeJSON s)"
| "print_json ft (JInt i) = to_string_int i"
| "print_json ft (JReal r) = ft_show ft r"
| "print_json ft (JBool b) = (if b then ''true'' else ''false'')"
| "print_json ft (JArr xs) = ''['' @ join_with '','' (map (print_json ft) xs) @ '']''"
| "print_json ft (JObj ms) = ''{'' @ join_with '','' (map (\<lambda>(k, v). dq (escapeJSON k) @ '':'' @ print_json ft v) ms) @ ''}''"

text \<open>The text without the white space between tokens.\<close>

fun compact :: "bool \<Rightarrow> string \<Rightarrow> string" where
  "compact b [] = []"
| "compact False (c # s) = (if c = CHR '' '' \<or> c = NL then compact False s else c # compact (c = QUOTE) s)"
| "compact True (c # s) = (if c = BS then c # (case s of [] \<Rightarrow> [] | d # s' \<Rightarrow> d # compact True s') else c # compact (c \<noteq> QUOTE) s)"

definition opt_member :: "string \<Rightarrow> json option \<Rightarrow> (string \<times> json) list" where
  "opt_member k v = (case v of None \<Rightarrow> [] | Some j \<Rightarrow> [(k, j)])"

definition default_json :: "float_text \<Rightarrow> ParameterSchema \<Rightarrow> json option" where
  "default_json ft p =
     (if getDefaultAsString ft (ps_default p) = '''' then None
      else if string_like (ps_type p) then Some (JStr (getDefaultAsString ft (ps_default p)))
      else Some (case ps_default p of DInt i \<Rightarrow> JInt i | DDouble d \<Rightarrow> JReal d | DString s \<Rightarrow> JStr s | DBool b \<Rightarrow> JBool b))"

definition rule_json :: "ValidationRule \<Rightarrow> (string \<times> json) list" where
  "rule_json r =
     (case (vr_type r, vr_value r) of
        (MIN_VALUE, RInt i) \<Rightarrow> [(''minimum'', JInt i)] | (MIN_VALUE, RDouble d) \<Rightarrow> [(''minimum'', JReal d)]
      | (MAX_VALUE, RInt i) \<Rightarrow> [(''maximum'', JInt i)] | (MAX_VALUE, RDouble d) \<Rightarrow> [(''maximum'', JReal d)]
      | (REGEX, RString s) \<Rightarrow> [(''pattern'', JStr s)] | _ \<Rightarrow> [])"

definition given_json :: "string \<Rightarrow> json option" where
  "given_json s = (if s = '''' then None else Some (JStr s))"

definition strings_json :: "string list \<Rightarrow> json option" where
  "strings_json xs = (if xs = [] then None else Some (JArr (map JStr xs)))"

definition subparam_members :: "float_text \<Rightarrow> ParameterSchema \<Rightarrow> (string \<times> json) list" where
  "subparam_members ft p =
     (''type'', JStr (paramTypeToJSONSchemaType (ps_type p))) # opt_member ''description'' (given_json (ps_description p)) @
     opt_member ''default'' (default_json ft p) @ opt_member ''enum'' (strings_json (ps_allowed p))"

definition param_json :: "float_text \<Rightarrow> ParameterSchema \<Rightarrow> string \<times> json" where
  "param_json ft p = (ps_name p, JObj (subparam_members ft p @ concat (map rule_json (ps_rules p))))"

definition subparam_json :: "float_text \<Rightarrow> ParameterSchema \<Rightarrow> string \<times> json" where
  "subparam_json ft p = (ps_name p, JObj (subparam_members ft p))"

definition object_json :: "string \<Rightarrow> string \<Rightarrow> (string \<times> json) list \<Rightarrow> string list \<Rightarrow> string \<times> json" where
  "object_json name desc props req =
     (name, JObj ((''type'', JStr ''object'') # opt_member ''description'' (given_json desc) @
        (''properties'', JObj props) # opt_member ''required'' (strings_json req)))"

definition subsection_json :: "float_text \<Rightarrow> SectionSchema \<Rightarrow> string \<times> json" where
  "subsection_json ft s =
     object_json (ss_name s) (ss_description s) (map (subparam_json ft) (ss_parameters s)) (required_names (ss_parameters s))"

definition section_json :: "float_text \<Rightarrow> SectionSchema \<Rightarrow> string \<times> json" where
  "section_json ft s =
     object_json (ss_name s) (ss_description s) (map (param_json ft) (ss_parameters s) @ map (subsection_json ft) (ss_subsections s))
       (required_names (ss_parameters s) @ required_sections (ss_subsections s))"

definition schema_json :: "float_text \<Rightarrow> ConfigSchema \<Rightarrow> json" where
  "schema_json ft c =
     JObj ([(''$schema'', JStr ''http://json-schema.org/draft-07/schema#''), (''title'', JStr ''PIMID Configuration Schema''),
            (''description'', JStr ''Configuration schema for the PIMID PIM simulator''), (''type'', JStr ''object''),
            (''properties'', JObj (map (section_json ft) (cs_sections c)))] @
           opt_member ''required'' (strings_json (required_sections (cs_sections c))))"

section \<open>The text denotes the value\<close>

definition denotes :: "string \<Rightarrow> string \<Rightarrow> bool" where
  "denotes a b \<longleftrightarrow> (\<forall>t. compact False (a @ t) = b @ compact False t)"

named_theorems denote \<open>compositional rules for texts that denote\<close>

lemma denotes_Nil [denote]: "denotes [] []"
  by (simp add: denotes_def)

lemma denotes_append [denote]: "denotes a b \<Longrightarrow> denotes a' b' \<Longrightarrow> denotes (a @ a') (b @ b')"
  by (simp add: denotes_def)

lemma denotes_blank: "list_all (\<lambda>c. c = CHR '' '' \<or> c = NL) a \<Longrightarrow> denotes a []"
  by (induction a) (auto simp: denotes_def)

lemma denotes_token: "list_all (\<lambda>c. c \<noteq> CHR '' '' \<and> c \<noteq> NL \<and> c \<noteq> QUOTE) a \<Longrightarrow> denotes a a"
  by (induction a) (auto simp: denotes_def)

lemma compact_escape: "compact True (escapeJSON s @ QUOTE # t) = escapeJSON s @ QUOTE # compact False t"
proof (induction s)
  case Nil
  then show ?case by (simp add: escapeJSON_def QUOTE_def BS_def)
next
  case (Cons c s)
  then show ?case by (auto simp: escapeJSON_def escapeJSON_char_def QUOTE_def BS_def NL_def CR_def TAB_def)
qed

lemma denotes_quoted [denote]: "denotes (dq (escapeJSON s)) (dq (escapeJSON s))"
  unfolding denotes_def dq_def using compact_escape [of s] by (simp add: QUOTE_def NL_def)

lemma escape_plain: "list_all (\<lambda>c. c \<notin> {QUOTE, BS, NL, CR, TAB}) s \<Longrightarrow> escapeJSON s = s"
  by (induction s) (auto simp: escapeJSON_def escapeJSON_char_def)

text \<open>The words the generator writes itself need no escape.\<close>

lemma escape_words:
  "escapeJSON ''type'' = ''type''" "escapeJSON ''description'' = ''description''" "escapeJSON ''default'' = ''default''"
  "escapeJSON ''enum'' = ''enum''" "escapeJSON ''minimum'' = ''minimum''" "escapeJSON ''maximum'' = ''maximum''"
  "escapeJSON ''pattern'' = ''pattern''" "escapeJSON ''required'' = ''required''" "escapeJSON ''properties'' = ''properties''"
  "escapeJSON ''object'' = ''object''" "escapeJSON ''$schema'' = ''$schema''" "escapeJSON ''title'' = ''title''"
  "escapeJSON ''http://json-schema.org/draft-07/schema#'' = ''http://json-schema.org/draft-07/schema#''"
  "escapeJSON ''PIMID Configuration Schema'' = ''PIMID Configuration Schema''"
  "escapeJSON ''Configuration schema for the PIMID PIM simulator'' = ''Configuration schema for the PIMID PIM simulator''"
  "escapeJSON (paramTypeToJSONSchemaType t) = paramTypeToJSONSchemaType t"
  by (simp_all add: escape_plain QUOTE_def BS_def NL_def CR_def TAB_def) (cases t; simp add: escape_plain QUOTE_def BS_def NL_def CR_def TAB_def)

lemmas denotes_word = denotes_quoted [where s = "''type''", unfolded escape_words]
  denotes_quoted [where s = "''description''", unfolded escape_words] denotes_quoted [where s = "''default''", unfolded escape_words]
  denotes_quoted [where s = "''enum''", unfolded escape_words] denotes_quoted [where s = "''minimum''", unfolded escape_words]
  denotes_quoted [where s = "''maximum''", unfolded escape_words] denotes_quoted [where s = "''pattern''", unfolded escape_words]
  denotes_quoted [where s = "''required''", unfolded escape_words] denotes_quoted [where s = "''properties''", unfolded escape_words]
  denotes_quoted [where s = "''object''", unfolded escape_words] denotes_quoted [where s = "''$schema''", unfolded escape_words]
  denotes_quoted [where s = "''title''", unfolded escape_words]
  denotes_quoted [where s = "''http://json-schema.org/draft-07/schema#''", unfolded escape_words]
  denotes_quoted [where s = "''PIMID Configuration Schema''", unfolded escape_words]
  denotes_quoted [where s = "''Configuration schema for the PIMID PIM simulator''", unfolded escape_words]
  denotes_quoted [where s = "paramTypeToJSONSchemaType t" for t, unfolded escape_words]

declare denotes_word [denote]

text \<open>The punctuation between the parts, with the white space it comes with.\<close>

lemma denotes_punct [denote]:
  "denotes '': '' '':''" "denotes '','' '',''" "denotes ''['' ''[''" "denotes '']'' '']''" "denotes '': {'' '':{''" "denotes ''{'' ''{''"
  "denotes [NL] []" "denotes '', '' '',''" "denotes ''  }'' ''}''" "denotes ''    }'' ''}''" "denotes ''      }'' ''}''"
  "denotes ''        }'' ''}''" "denotes ''          }'' ''}''" "denotes ''            }'' ''}''" "denotes ''}'' ''}''"
  "denotes ''  '' []" "denotes ''    '' []" "denotes ''      '' []" "denotes ''        '' []" "denotes ''          '' []"
  "denotes ''            '' []" "denotes ''              '' []"
  by (simp_all add: denotes_def NL_def QUOTE_def)

text \<open>Members after the first, each behind its comma.\<close>

definition member :: "float_text \<Rightarrow> string \<times> json \<Rightarrow> string" where
  "member ft = (\<lambda>(k, v). dq (escapeJSON k) @ '':'' @ print_json ft v)"

definition tail :: "float_text \<Rightarrow> (string \<times> json) list \<Rightarrow> string" where
  "tail ft ms = concat (map (\<lambda>m. '','' @ member ft m) ms)"

lemma tail_simps [simp]: "tail ft [] = []" "tail ft (m # ms) = '','' @ member ft m @ tail ft ms" "tail ft (xs @ ys) = tail ft xs @ tail ft ys"
  by (simp_all add: tail_def)

lemma join_tail: "join_with '','' (x # xs) = x @ concat (map (\<lambda>y. '','' @ y) xs)"
  by (induction xs arbitrary: x) simp_all

lemma print_object: "print_json ft (JObj (m # ms)) = ''{'' @ member ft m @ tail ft ms @ ''}''"
proof -
  have "print_json ft (JObj (m # ms)) = ''{'' @ join_with '','' (map (member ft) (m # ms)) @ ''}''"
    by (simp add: member_def)
  also have "\<dots> = ''{'' @ (member ft m @ tail ft ms) @ ''}''"
    by (simp only: list.map join_tail) (simp add: tail_def comp_def)
  finally show ?thesis by simp
qed

lemma print_objects: "print_json ft (JObj ms) = ''{'' @ join_with '','' (map (member ft) ms) @ ''}''"
  by (simp add: member_def)

lemma denotes_items [denote]:
  "(\<And>x. x \<in> set xs \<Longrightarrow> denotes (f x) (g x)) \<Longrightarrow>
     denotes (items_from first f xs) (if first then join_with '','' (map g xs) else concat (map (\<lambda>x. '','' @ g x) xs))"
proof (induction xs arbitrary: first)
  case (Cons x xs)
  have "denotes (items_from False f xs) (concat (map (\<lambda>x. '','' @ g x) xs))" using Cons.IH [of False] Cons.prems by simp
  moreover have "denotes (f x) (g x)" using Cons.prems by simp
  ultimately show ?case
    using join_tail [of "g x" "map g xs"] by (simp add: denotes_def comp_def NL_def QUOTE_def)
qed (simp add: denotes_Nil)

lemma denotes_strings [denote]: "denotes (quoted_list xs) (print_json ft (JArr (map JStr xs)))"
proof -
  have "denotes (comma_list (\<lambda>s. dq (escapeJSON s)) xs) (join_with '','' (map (\<lambda>s. dq (escapeJSON s)) xs))"
  proof (induction xs)
    case (Cons x xs)
    then show ?case using denotes_quoted [of x]
      by (cases xs) (auto simp: denotes_def NL_def QUOTE_def)
  qed (simp add: denotes_Nil)
  then show ?thesis by (simp add: quoted_list_def comp_def denotes_def NL_def QUOTE_def)
qed

lemmas compact_rw = denotes_quoted [unfolded denotes_def, rule_format] denotes_word [unfolded denotes_def, rule_format]
  denotes_strings [unfolded denotes_def, rule_format]

definition plain :: "string \<Rightarrow> bool" where
  "plain s \<longleftrightarrow> list_all (\<lambda>c. c \<noteq> CHR '' '' \<and> c \<noteq> NL \<and> c \<noteq> QUOTE) s"

lemma compact_plain: "plain a \<Longrightarrow> compact False (a @ t) = a @ compact False t"
  using denotes_token [of a] by (simp add: denotes_def plain_def)

lemma plain_show_nat: "plain (show_nat n)"
  using show_nat_digits [of n] unfolding plain_def list_all_iff
  by (auto simp: is_digit_def NL_def QUOTE_def)

lemma plain_to_string [simp]: "plain (to_string_int i)"
  using plain_show_nat by (auto simp: to_string_int_def plain_def NL_def QUOTE_def)

lemma plain_words [simp]: "plain ''true''" "plain ''false''" "plain []"
  by (simp_all add: plain_def NL_def QUOTE_def)

definition plain_floats :: "float_text \<Rightarrow> bool" where
  "plain_floats ft \<longleftrightarrow> (\<forall>r. plain (ft_show ft r))"

text \<open>A default that is not printed in quotes is a number, a truth value or empty.\<close>

definition default_typed :: "ParameterSchema \<Rightarrow> bool" where
  "default_typed p \<longleftrightarrow> string_like (ps_type p) \<or> (\<forall>s. ps_default p = DString s \<longrightarrow> s = '''')"

definition schema_typed :: "ConfigSchema \<Rightarrow> bool" where
  "schema_typed c \<longleftrightarrow> (\<forall>s\<in>set (cs_sections c). (\<forall>p\<in>set (ss_parameters s). default_typed p)
     \<and> (\<forall>sub\<in>set (ss_subsections s). \<forall>p\<in>set (ss_parameters sub). default_typed p))"

lemma compact_indent: "list_all (\<lambda>c. c = CHR '' '') ind \<Longrightarrow> compact False (ind @ t) = compact False t"
  by (induction ind) auto

lemma compact_blank_char [simp]: "compact False (NL # t) = compact False t" "compact False (CHR '' '' # t) = compact False t"
  "compact False (CHR '','' # t) = CHR '','' # compact False t" "compact False (CHR '':'' # t) = CHR '':'' # compact False t"
  "compact False (CHR ''{'' # t) = CHR ''{'' # compact False t" "compact False (CHR ''}'' # t) = CHR ''}'' # compact False t"
  by (simp_all add: NL_def QUOTE_def)

lemma denotes_default:
  assumes "plain_floats ft" and "default_typed p" and "list_all (\<lambda>c. c = CHR '' '') ind"
  shows "denotes (json_default ft ind p) (tail ft (opt_member ''default'' (default_json ft p)))"
proof -
  have "plain (getDefaultAsString ft (ps_default p))" if "\<not> string_like (ps_type p)"
    using that assms(1,2) by (cases "ps_default p") (auto simp: default_typed_def plain_floats_def)
  moreover have "print_json ft (case ps_default p of DInt i \<Rightarrow> JInt i | DDouble d \<Rightarrow> JReal d | DString s \<Rightarrow> JStr s | DBool b \<Rightarrow> JBool b)
      = getDefaultAsString ft (ps_default p)" if "\<not> string_like (ps_type p)" "getDefaultAsString ft (ps_default p) \<noteq> []"
    using that assms(2) by (cases "ps_default p") (auto simp: default_typed_def)
  ultimately show ?thesis using assms(3)
    by (auto simp: denotes_def json_default_def default_json_def opt_member_def Let_def member_def escape_words compact_rw
        compact_indent compact_plain simp del: compact.simps print_json.simps(5,6))
qed

lemma denotes_desc:
  "list_all (\<lambda>c. c = CHR '' '') ind \<Longrightarrow> denotes (json_desc ind p) (tail ft (opt_member ''description'' (given_json (ps_description p))))"
  by (auto simp: denotes_def json_desc_def given_json_def opt_member_def member_def escape_words compact_rw compact_indent
      simp del: compact.simps)

lemma denotes_enum:
  "list_all (\<lambda>c. c = CHR '' '') ind \<Longrightarrow> denotes (json_enum ind p) (tail ft (opt_member ''enum'' (strings_json (ps_allowed p))))"
  by (auto simp: denotes_def json_enum_def strings_json_def opt_member_def member_def escape_words compact_rw compact_indent
      simp del: compact.simps print_json.simps(5))

lemma denotes_required:
  "list_all (\<lambda>c. c = CHR '' '') ind \<Longrightarrow> denotes (json_required ind names) (tail ft (opt_member ''required'' (strings_json names)))"
  by (auto simp: denotes_def json_required_def strings_json_def opt_member_def member_def escape_words compact_rw compact_indent
      simp del: compact.simps print_json.simps(5))

lemma denotes_rule: "plain_floats ft \<Longrightarrow> denotes (json_rule ft r) (tail ft (rule_json r))"
  by (cases "vr_type r"; cases "vr_value r")
    (auto simp: denotes_def json_rule_def rule_json_def member_def escape_words compact_rw compact_plain plain_floats_def
      simp del: compact.simps)

lemma denotes_rules: "plain_floats ft \<Longrightarrow> denotes (concat (map (json_rule ft) rs)) (tail ft (concat (map rule_json rs)))"
  by (induction rs) (auto simp: denotes_Nil intro!: denotes_append denotes_rule)

lemma denotes_subparam_members:
  assumes "plain_floats ft" and "default_typed p" and "list_all (\<lambda>c. c = CHR '' '') ind"
  shows "denotes (dq ''type'' @ '': '' @ dq (paramTypeToJSONSchemaType (ps_type p)) @ json_desc ind p @ json_default ft ind p @ json_enum ind p)
    (member ft (''type'', JStr (paramTypeToJSONSchemaType (ps_type p))) @ tail ft (tl (subparam_members ft p)))"
  using denotes_default [OF assms] denotes_desc [OF assms(3), of p ft] denotes_enum [OF assms(3), of p ft]
  by (simp add: denotes_def subparam_members_def member_def escape_words compact_rw del: compact.simps)

lemma denotes_param:
  assumes "plain_floats ft" and "default_typed p"
  shows "denotes (json_param ft p) (member ft (param_json ft p))"
    and "denotes (json_subparam ft p) (member ft (subparam_json ft p))"
proof -
  have m: "subparam_members ft p = (''type'', JStr (paramTypeToJSONSchemaType (ps_type p))) # tl (subparam_members ft p)"
    by (simp add: subparam_members_def)
  have ind: "list_all (\<lambda>c. c = CHR '' '') ''          ''" "list_all (\<lambda>c. c = CHR '' '') ''              ''" by simp_all
  note d = denotes_subparam_members [OF assms ind(1)] denotes_subparam_members [OF assms ind(2)] denotes_rules [OF assms(1)]
  show "denotes (json_param ft p) (member ft (param_json ft p))"
    using d unfolding param_json_def by (subst m, unfold append_Cons)
      (simp add: member_def [of ft, unfolded fun_eq_iff split_def] print_object json_param_def denotes_def compact_rw del: compact.simps print_json.simps(6))
  show "denotes (json_subparam ft p) (member ft (subparam_json ft p))"
    using d unfolding subparam_json_def by (subst m)
      (simp add: member_def [of ft, unfolded fun_eq_iff split_def] print_object json_subparam_def denotes_def compact_rw del: compact.simps print_json.simps(6))
qed

lemma denotes_object:
  assumes "list_all (\<lambda>c. c = CHR '' '') ind" and "list_all (\<lambda>c. c = CHR '' '') inner" and "list_all (\<lambda>c. c = CHR '' '') req_ind"
    and "denotes props (join_with '','' (map (member ft) ms))"
  shows "denotes (json_object_head ind inner name desc @ props @ [NL] @ inner @ ''}'' @ json_required req_ind req @ [NL] @ ind @ ''}'')
    (member ft (object_json name desc ms req))"
proof -
  have m: "member ft (n, v) = dq (escapeJSON n) @ '':'' @ print_json ft v" for n v by (simp add: member_def)
  have "tail ft (opt_member ''description'' (given_json desc)) @ '','' @ x =
      (if desc = '''' then '','' @ x else '','' @ dq ''description'' @ '':'' @ dq (escapeJSON desc) @ '','' @ x)" for x
    by (simp add: opt_member_def given_json_def m escape_words)
  then show ?thesis using assms(4) denotes_required [OF assms(3), of req ft]
    unfolding object_json_def m [of name] print_object
    by (auto simp: denotes_def json_object_head_def compact_rw compact_indent [OF assms(1)] compact_indent [OF assms(2)]
        m [of "''properties''"] m [of "''type''"] print_objects escape_words simp del: compact.simps print_json.simps(6))
qed

lemma denotes_subsection:
  assumes "plain_floats ft" and "\<forall>p\<in>set (ss_parameters s). default_typed p"
  shows "denotes (json_subsection ft s) (member ft (subsection_json ft s))"
proof -
  have "denotes (items_from True (json_subparam ft) (ss_parameters s)) (join_with '','' (map (\<lambda>p. member ft (subparam_json ft p)) (ss_parameters s)))"
    using denotes_items [of "ss_parameters s" "json_subparam ft" "\<lambda>p. member ft (subparam_json ft p)" True] denotes_param(2) [OF assms(1)] assms(2)
    by simp
  from denotes_object [where ind = "''        ''" and inner = "''          ''" and req_ind = "''          ''" and ft = ft
      and ms = "map (subparam_json ft) (ss_parameters s)"] this
  show ?thesis by (simp add: json_subsection_def subsection_json_def comp_def)
qed

lemma join_append:
  "join_with '','' (xs @ ys) = join_with '','' xs @ (if xs = [] then join_with '','' ys else concat (map (\<lambda>y. '','' @ y) ys))"
proof -
  have "(@) '','' = (#) (CHR '','')" by (simp add: fun_eq_iff)
  then show ?thesis by (cases xs) (simp_all add: join_tail)
qed

lemma denotes_section:
  assumes "plain_floats ft" and "\<forall>p\<in>set (ss_parameters s). default_typed p"
    and "\<forall>sub\<in>set (ss_subsections s). \<forall>p\<in>set (ss_parameters sub). default_typed p"
  shows "denotes (json_section ft s) (member ft (section_json ft s))"
proof -
  let ?p = "map (\<lambda>p. member ft (param_json ft p)) (ss_parameters s)" and ?q = "map (\<lambda>q. member ft (subsection_json ft q)) (ss_subsections s)"
  have "denotes (items_from True (json_param ft) (ss_parameters s)) (join_with '','' ?p)"
    using denotes_items [of "ss_parameters s" "json_param ft" "\<lambda>p. member ft (param_json ft p)" True] denotes_param(1) [OF assms(1)] assms(2)
    by simp
  moreover have "denotes (items_from (ss_parameters s = []) (json_subsection ft) (ss_subsections s))
      (if ss_parameters s = [] then join_with '','' ?q else concat (map (\<lambda>q. '','' @ member ft (subsection_json ft q)) (ss_subsections s)))"
    using denotes_items [of "ss_subsections s" "json_subsection ft" "\<lambda>q. member ft (subsection_json ft q)" "ss_parameters s = []"]
      denotes_subsection [OF assms(1)] assms(3) by simp
  ultimately have "denotes (items_from True (json_param ft) (ss_parameters s) @
      items_from (ss_parameters s = []) (json_subsection ft) (ss_subsections s))
      (join_with '','' (map (member ft) (map (param_json ft) (ss_parameters s) @ map (subsection_json ft) (ss_subsections s))))"
    using denotes_append by (fastforce simp: join_append comp_def)
  from denotes_object [where ind = "''    ''" and inner = "''      ''" and req_ind = "''      ''", OF _ _ _ this]
  show ?thesis by (simp add: json_section_def section_json_def)
qed


definition sample_param :: ParameterSchema where
  "sample_param = \<lparr>ps_name = ''cores'', ps_description = ''number of cores'', ps_type = UNSIGNED_INTEGER, ps_required = True,
     ps_default = DInt 4, ps_rules = [\<lparr>vr_type = MIN_VALUE, vr_value = RInt 1, vr_error_message = ''''\<rparr>], ps_allowed = [],
     ps_example = ''4'', ps_category = ''general''\<rparr>"

definition sample_schema :: ConfigSchema where
  "sample_schema = addSection (Section ''host'' ''host part'' [sample_param] [Section ''l2'' '''' [sample_param\<lparr>ps_name := ''size''\<rparr>] [] True] True)
     ConfigSchema_init"

definition sample_floats :: float_text where
  "sample_floats = \<lparr>ft_show = (\<lambda>r. ''1.5''), ft_to_string = (\<lambda>r. ''1.500000''), 
     ft_stod = (\<lambda>s. Inr (if s = ''nan'' then NotANumber else Finite (3 / 2), length s))\<rparr>"


section \<open>String literals\<close>

text \<open>A reader of JSON string literals, after the opening quote: the string and the rest of the text.\<close>

definition unescape_char :: "char \<Rightarrow> char option" where
  "unescape_char c = (if c = QUOTE \<or> c = BS \<or> c = CHR ''/'' then Some c else if c = CHR ''n'' then Some NL else if c = CHR ''r'' then Some CR
     else if c = CHR ''t'' then Some TAB else if c = CHR ''b'' then Some (CHR 0x08) else if c = CHR ''f'' then Some (CHR 0x0C) else None)"

fun lex_string :: "string \<Rightarrow> (string \<times> string) option" where
  "lex_string [] = None"
| "lex_string (c # s) =
     (if c = QUOTE then Some ([], s)
      else if c = BS then (case s of [] \<Rightarrow> None
        | d # s' \<Rightarrow> (case unescape_char d of None \<Rightarrow> None | Some x \<Rightarrow> map_option (\<lambda>(y, r). (x # y, r)) (lex_string s')))
      else if (of_char c :: nat) < 32 then None
      else map_option (\<lambda>(y, r). (c # y, r)) (lex_string s))"

text \<open>
  \<^verbatim>\<open>escapeJSON\<close> is decoded by a JSON reader: the literal ends at the closing quote the generator
  wrote and stands for the original text, exactly when the text has no control character other than newline,
  carriage return and tab; any other control character is written raw, which JSON does not allow.
\<close>

theorem escapeJSON_roundtrip:
  "lex_string (escapeJSON s @ QUOTE # t) = Some (s, t) \<longleftrightarrow> (\<forall>c\<in>set s. 32 \<le> (of_char c :: nat) \<or> c = NL \<or> c = CR \<or> c = TAB)"
proof (induction s)
  case Nil
  then show ?case by (simp add: escapeJSON_def)
next
  case (Cons c s)
  have special: "32 \<le> (of_char QUOTE :: nat)" "32 \<le> (of_char BS :: nat)" by (simp_all add: QUOTE_def BS_def)
  consider "c = QUOTE" | "c = BS" | "c = NL" | "c = CR" | "c = TAB" | "c \<notin> {QUOTE, BS, NL, CR, TAB}" by blast
  then show ?case
  proof cases
    case 6
    then show ?thesis using Cons
      by (auto simp: escapeJSON_def escapeJSON_char_def split: option.splits)
  qed (use Cons special in \<open>auto simp: escapeJSON_def escapeJSON_char_def unescape_char_def QUOTE_def BS_def NL_def CR_def TAB_def\<close>)
qed

theorem escapeJSON_roundtrip_witness: "lex_string (escapeJSON [QUOTE, BS, NL] @ QUOTE # ''}'') = Some ([QUOTE, BS, NL], ''}'')"
  by (subst escapeJSON_roundtrip) (simp add: QUOTE_def BS_def)

section \<open>The table of sections\<close>

lemma fold_section_map:
  "smap_find n (foldl (\<lambda>m i. smap_put (f i) i m) m0 [0..<k]) =
     (case find (\<lambda>i. f i = n) (rev [0..<k]) of Some i \<Rightarrow> Some i | None \<Rightarrow> smap_find n m0)"
  by (induction k) (auto simp: smap_find_put)

lemma find_rev_nth: "map_option (\<lambda>i. xs ! i) (find (\<lambda>i. P (xs ! i)) (rev [0..<length xs])) = find P (rev xs)"
proof (induction xs rule: rev_induct)
  case (snoc x xs)
  have "find (\<lambda>i. P ((xs @ [x]) ! i)) (rev [0..<length xs]) = find (\<lambda>i. P (xs ! i)) (rev [0..<length xs])"
    by (rule find_cong) (auto simp: nth_append)
  moreover have "map_option (\<lambda>i. (xs @ [x]) ! i) (find (\<lambda>i. P (xs ! i)) (rev [0..<length xs])) =
      map_option (\<lambda>i. xs ! i) (find (\<lambda>i. P (xs ! i)) (rev [0..<length xs]))"
    by (rule option.map_cong) (auto simp: nth_append dest!: find_SomeD)
  ultimately show ?case using snoc by (simp add: nth_append)
qed simp

lemma getSection_build: "getSection name (buildSectionMap c) = find (\<lambda>s. ss_name s = name) (rev (cs_sections c))"
proof -
  have "(case x of None \<Rightarrow> smap_find name [] | Some i \<Rightarrow> Some i) = x" for x :: "nat option" by (cases x) simp_all
  then show ?thesis using find_rev_nth [of "cs_sections c" "\<lambda>s. ss_name s = name"]
    by (simp add: getSection_def buildSectionMap_def fold_section_map)
qed

text \<open>
  The pointer table stays in step with the sections: after any sequence of \<^verbatim>\<open>addSection\<close>, \<^verbatim>\<open>getSection\<close>
  finds the section added last under a name, and nothing under a name never added.
\<close>

theorem getSection_last:
  "getSection name (foldl (\<lambda>c s. addSection s c) ConfigSchema_init ss) = find (\<lambda>s. ss_name s = name) (rev ss)"
proof (cases ss rule: rev_cases)
  case Nil
  then show ?thesis by (simp add: getSection_def ConfigSchema_init_def)
next
  case (snoc xs x)
  have sections: "cs_sections (foldl (\<lambda>c s. addSection s c) c ys) = cs_sections c @ ys" for c ys
    by (induction ys arbitrary: c) (simp_all add: addSection_def buildSectionMap_def)
  have "getSection name (addSection x c) = find (\<lambda>s. ss_name s = name) (rev (cs_sections c @ [x]))" for c
    by (simp add: addSection_def getSection_build del: rev_append)
  then show ?thesis using sections [of ConfigSchema_init xs] snoc by (simp add: ConfigSchema_init_def)
qed

section \<open>The YAML template\<close>

text \<open>The template as the lines the generator writes.\<close>

definition template_rule :: "float_text \<Rightarrow> ValidationRule \<Rightarrow> string list" where
  "template_rule ft r =
     (case (vr_type r, vr_value r) of
        (MIN_VALUE, RInt i) \<Rightarrow> [''  # Minimum: '' @ to_string_int i]
      | (MIN_VALUE, RDouble d) \<Rightarrow> [''  # Minimum: '' @ ft_show ft d]
      | (MAX_VALUE, RInt i) \<Rightarrow> [''  # Maximum: '' @ to_string_int i]
      | (MAX_VALUE, RDouble d) \<Rightarrow> [''  # Maximum: '' @ ft_show ft d]
      | _ \<Rightarrow> [])"

definition template_allowed :: "string \<Rightarrow> ParameterSchema \<Rightarrow> string list" where
  "template_allowed ind p =
     (if ps_allowed p = [] then [] else [ind @ ''# Allowed values: '' @ comma_list (\<lambda>s. s) (ps_allowed p)])"

definition template_comments :: "string \<Rightarrow> ParameterSchema \<Rightarrow> string list" where
  "template_comments ind p =
     [ind @ ''# '' @ ps_description p,
      ind @ ''# Type: '' @ paramTypeToString (ps_type p) @ (if ps_required p then '' [REQUIRED]'' else '' [OPTIONAL]'')] @
     template_allowed ind p"

definition template_param :: "float_text \<Rightarrow> ParameterSchema \<Rightarrow> string list" where
  "template_param ft p =
     (let d = getDefaultAsString ft (ps_default p)
      in template_comments ''  '' p @ concat (map (template_rule ft) (ps_rules p)) @
         (if string_like (ps_type p) then [''  '' @ ps_name p @ '': '' @ dq d]
          else if ps_type p = LIST
          then (''  '' @ ps_name p @ '':'') #
               (if d \<noteq> '''' then map (\<lambda>item. ''    - '' @ item) (getitems d) else [''    # - item1'', ''    # - item2''])
          else [''  '' @ ps_name p @ '': '' @ d]) @ [''''])"

definition template_subparam :: "float_text \<Rightarrow> ParameterSchema \<Rightarrow> string list" where
  "template_subparam ft p =
     (let d = getDefaultAsString ft (ps_default p)
      in template_comments ''    '' p @
         [''    '' @ ps_name p @ '': '' @ (if string_like (ps_type p) then dq d else d), ''''])"

definition template_subsection :: "float_text \<Rightarrow> SectionSchema \<Rightarrow> string list" where
  "template_subsection ft s =
     [''  # '' @ replicate 60 (CHR ''-''), ''  # '' @ ss_name s @ (if ss_required s then '' [REQUIRED]'' else '''')] @
     (if ss_description s = '''' then [] else [''  # '' @ ss_description s]) @
     [''  # '' @ replicate 60 (CHR ''-''), ''  '' @ ss_name s @ '':''] @
     concat (map (template_subparam ft) (ss_parameters s))"

definition template_section :: "float_text \<Rightarrow> SectionSchema \<Rightarrow> string list" where
  "template_section ft s =
     [''# '' @ replicate 70 (CHR ''=''), ''# '' @ ss_name s @ (if ss_required s then '' [REQUIRED SECTION]'' else '''')] @
     (if ss_description s = '''' then [] else [''# '' @ ss_description s]) @
     [''# '' @ replicate 70 (CHR ''=''), ss_name s @ '':''] @
     concat (map (template_param ft) (ss_parameters s)) @ concat (map (template_subsection ft) (ss_subsections s)) @ ['''']"

definition generateYAMLTemplate :: "float_text \<Rightarrow> ConfigSchema \<Rightarrow> string" where
  "generateYAMLTemplate ft c = unlines
     ([''# PIMID Configuration Template'', ''# Auto-generated from configuration schema'', ''# '',
       ''# Parameters marked [REQUIRED] must be specified'', ''# Parameters marked [OPTIONAL] have default values shown'', ''#'', ''''] @
      concat (map (template_section ft) (cs_sections c)))"

text \<open>The lines that are neither blank nor a comment.\<close>

definition content_line :: "string \<Rightarrow> bool" where
  "content_line l \<longleftrightarrow> (case dropWhile (\<lambda>c. c = CHR '' '') l of [] \<Rightarrow> False | c # _ \<Rightarrow> c \<noteq> CHR ''#'')"

text \<open>What a template has to set: every section, parameter and subsection, in order, with the defaults.\<close>

definition param_content :: "float_text \<Rightarrow> ParameterSchema \<Rightarrow> string list" where
  "param_content ft p =
     (let d = getDefaultAsString ft (ps_default p)
      in if ps_type p = LIST then (''  '' @ ps_name p @ '':'') # map (\<lambda>item. ''    - '' @ item) (getitems d)
         else [''  '' @ ps_name p @ '': '' @ (if string_like (ps_type p) then dq d else d)])"

definition subparam_content :: "float_text \<Rightarrow> ParameterSchema \<Rightarrow> string list" where
  "subparam_content ft p =
     (let d = getDefaultAsString ft (ps_default p)
      in [''    '' @ ps_name p @ '': '' @ (if string_like (ps_type p) then dq d else d)])"

definition section_content :: "float_text \<Rightarrow> SectionSchema \<Rightarrow> string list" where
  "section_content ft s =
     (ss_name s @ '':'') # concat (map (param_content ft) (ss_parameters s)) @
     concat (map (\<lambda>q. (''  '' @ ss_name q @ '':'') # concat (map (subparam_content ft) (ss_parameters q))) (ss_subsections s))"

text \<open>Texts of a schema that stay on their line, and names that are no comment.\<close>

definition name_ok :: "string \<Rightarrow> bool" where
  "name_ok n \<longleftrightarrow> n \<noteq> [] \<and> hd n \<noteq> CHR '' '' \<and> hd n \<noteq> CHR ''#'' \<and> NL \<notin> set n"

definition param_text_ok :: "float_text \<Rightarrow> ParameterSchema \<Rightarrow> bool" where
  "param_text_ok ft p \<longleftrightarrow> name_ok (ps_name p) \<and> NL \<notin> set (ps_description p) \<and> (\<forall>a\<in>set (ps_allowed p). NL \<notin> set a)
     \<and> NL \<notin> set (getDefaultAsString ft (ps_default p))"

definition section_text_ok :: "float_text \<Rightarrow> SectionSchema \<Rightarrow> bool" where
  "section_text_ok ft s \<longleftrightarrow> name_ok (ss_name s) \<and> NL \<notin> set (ss_description s) \<and> (\<forall>p\<in>set (ss_parameters s). param_text_ok ft p)
     \<and> (\<forall>q\<in>set (ss_subsections s). name_ok (ss_name q) \<and> NL \<notin> set (ss_description q) \<and> (\<forall>p\<in>set (ss_parameters q). param_text_ok ft p))"

lemma content_rules [simp]:
  "\<not> content_line []" "\<not> content_line (CHR ''#'' # s)" "content_line (CHR '' '' # s) = content_line s" "content_line (CHR ''-'' # s)"
  by (simp_all add: content_line_def)

lemma content_name [simp]: "name_ok n \<Longrightarrow> content_line (n @ s)"
  by (cases n) (auto simp: name_ok_def content_line_def)

lemma NL_lits [simp]: "NL \<in> set (a @ b) \<longleftrightarrow> NL \<in> set a \<or> NL \<in> set b" "NL \<notin> set (replicate n (CHR ''-''))" "NL \<notin> set (replicate n (CHR ''=''))"
  by (auto simp: NL_def)

lemma NL_comma: "(\<And>a. a \<in> set xs \<Longrightarrow> NL \<notin> set a) \<Longrightarrow> NL \<notin> set (comma_list (\<lambda>s. s) xs)"
  by (induction xs) (auto simp: NL_def)

lemma NL_items: "NL \<notin> set s \<Longrightarrow> \<forall>l\<in>set (getitems s). NL \<notin> set l"
proof (induction s rule: getitems.induct)
  case (1 s)
  have "NL \<notin> set (tl (dropWhile (\<lambda>c. c \<noteq> CHR '','') s))"
    using "1.prems" by (metis list.set_sel(2) set_dropWhileD tl_Nil)
  with 1 show ?case by (subst getitems.simps) (auto dest: set_takeWhileD)
qed

lemma NL_plain: "plain s \<Longrightarrow> NL \<notin> set s"
  by (auto simp: plain_def list_all_iff)

lemma rule_comment: "filter content_line (template_rule ft r) = []"
  by (cases "vr_type r"; cases "vr_value r") (simp_all add: template_rule_def)

lemma rules_comment: "filter content_line (concat (map (template_rule ft) rs)) = []"
  by (induction rs) (simp_all add: rule_comment)

lemma comments_comment: "list_all (\<lambda>c. c = CHR '' '') ind \<Longrightarrow> filter content_line (template_comments ind p) = []"
proof -
  assume "list_all (\<lambda>c. c = CHR '' '') ind"
  then have "content_line (ind @ s) = content_line s" for s by (induction ind) simp_all
  then show ?thesis by (simp add: template_comments_def template_allowed_def)
qed

lemma param_lines:
  assumes "param_text_ok ft p"
  shows "filter content_line (template_param ft p) = param_content ft p"
proof -
  have "filter content_line (map (\<lambda>item. ''    - '' @ item) xs) = map (\<lambda>item. ''    - '' @ item) xs" for xs
    by (induction xs) simp_all
  moreover have "getitems [] = []" by (simp add: getitems.simps)
  moreover have "name_ok (ps_name p)" using assms by (simp add: param_text_ok_def)
  ultimately show ?thesis
    by (auto simp: template_param_def param_content_def Let_def rules_comment comments_comment string_like_def)
qed

lemma subparam_lines: "param_text_ok ft p \<Longrightarrow> filter content_line (template_subparam ft p) = subparam_content ft p"
  by (simp add: template_subparam_def subparam_content_def Let_def comments_comment param_text_ok_def)

lemma filter_concat_map: "(\<And>x. x \<in> set xs \<Longrightarrow> filter P (f x) = g x) \<Longrightarrow> filter P (concat (map f xs)) = concat (map g xs)"
  by (induction xs) simp_all

lemma section_lines:
  assumes "section_text_ok ft s"
  shows "filter content_line (template_section ft s) = section_content ft s"
proof -
  have "filter content_line (template_subsection ft q) = (''  '' @ ss_name q @ '':'') # concat (map (subparam_content ft) (ss_parameters q))"
    if "q \<in> set (ss_subsections s)" for q
    using assms that by (auto simp: template_subsection_def section_text_ok_def intro!: filter_concat_map subparam_lines)
  moreover have "name_ok (ss_name s)" "\<forall>p\<in>set (ss_parameters s). param_text_ok ft p" using assms by (simp_all add: section_text_ok_def)
  ultimately show ?thesis
    by (simp add: template_section_def section_content_def filter_concat_map [OF param_lines]
        filter_concat_map [where g = "\<lambda>q. (''  '' @ ss_name q @ '':'') # concat (map (subparam_content ft) (ss_parameters q))"])
qed

lemma NL_char [simp]: "NL = CHR '' '' \<longleftrightarrow> False" "NL = CHR ''#'' \<longleftrightarrow> False" "NL = CHR '':'' \<longleftrightarrow> False" "NL = CHR ''-'' \<longleftrightarrow> False"
  "NL = QUOTE \<longleftrightarrow> False"
  by (simp_all add: NL_def QUOTE_def)

lemma NL_type: "NL \<notin> set (paramTypeToString t)"
  by (cases t) (simp_all add: NL_def)

lemma NL_rule: "plain_floats ft \<Longrightarrow> l \<in> set (template_rule ft r) \<Longrightarrow> NL \<notin> set l"
  using NL_plain [OF plain_to_string] by (cases "vr_type r"; cases "vr_value r")
    (auto simp: template_rule_def plain_floats_def NL_def dest!: NL_plain)

lemma NL_comments: "NL \<notin> set ind \<Longrightarrow> param_text_ok ft p \<Longrightarrow> l \<in> set (template_comments ind p) \<Longrightarrow> NL \<notin> set l"
  using NL_type [of "ps_type p"] NL_comma [of "ps_allowed p"]
  by (auto simp: template_comments_def template_allowed_def param_text_ok_def NL_def split: if_splits)

lemma NL_param:
  assumes "plain_floats ft" and "param_text_ok ft p"
  shows "l \<in> set (template_param ft p) \<Longrightarrow> NL \<notin> set l" and "l \<in> set (template_subparam ft p) \<Longrightarrow> NL \<notin> set l"
proof -
  have c: "l \<in> set (template_comments ''  '' p) \<Longrightarrow> NL \<notin> set l" "l \<in> set (template_comments ''    '' p) \<Longrightarrow> NL \<notin> set l"
    using NL_comments [of "''  ''" ft p l] NL_comments [of "''    ''" ft p l] assms(2) by simp_all
  have i: "\<forall>l\<in>set (getitems (getDefaultAsString ft (ps_default p))). NL \<notin> set l" using assms(2) by (intro NL_items) (simp add: param_text_ok_def)
  show "l \<in> set (template_param ft p) \<Longrightarrow> NL \<notin> set l"
    using assms c(1) i NL_rule [OF assms(1)]
    by (auto simp: template_param_def Let_def dq_def param_text_ok_def name_ok_def NL_def QUOTE_def split: if_splits)
  show "l \<in> set (template_subparam ft p) \<Longrightarrow> NL \<notin> set l"
    using assms c(2) by (auto simp: template_subparam_def Let_def dq_def param_text_ok_def name_ok_def NL_def QUOTE_def split: if_splits)
qed

lemma NL_section:
  assumes "plain_floats ft" and "section_text_ok ft s" and "l \<in> set (template_section ft s)"
  shows "NL \<notin> set l"
proof -
  have "NL \<notin> set l" if q: "q \<in> set (ss_subsections s)" "l \<in> set (template_subsection ft q)" for q
  proof -
    have "\<forall>p\<in>set (ss_parameters q). \<forall>l\<in>set (template_subparam ft p). NL \<notin> set l"
      using q(1) assms(2) NL_param(2) [OF assms(1)] unfolding section_text_ok_def by blast
    then show ?thesis using q assms(2)
      by (auto simp: template_subsection_def section_text_ok_def name_ok_def NL_def split: if_splits)
  qed
  moreover have "\<forall>p\<in>set (ss_parameters s). \<forall>l\<in>set (template_param ft p). NL \<notin> set l"
    using assms(2) NL_param(1) [OF assms(1)] unfolding section_text_ok_def by blast
  ultimately show ?thesis using assms
    by (auto simp: template_section_def section_text_ok_def name_ok_def NL_def split: if_splits)
qed

text \<open>
  The YAML template sets exactly the schema: of its lines, those that are neither blank nor
  comments are, in order, the sections, their parameters with their defaults (a list one item per line) and the
  subsections with theirs. No description or list of allowed values leaks out of its comment.
\<close>

theorem yaml_template_content:
  assumes "plain_floats ft" and "\<forall>s\<in>set (cs_sections c). section_text_ok ft s"
  shows "filter content_line (getlines (generateYAMLTemplate ft c)) = concat (map (section_content ft) (cs_sections c))"
proof -
  let ?ls = "[''# PIMID Configuration Template'', ''# Auto-generated from configuration schema'', ''# '',
       ''# Parameters marked [REQUIRED] must be specified'', ''# Parameters marked [OPTIONAL] have default values shown'', ''#'', ''''] @
      concat (map (template_section ft) (cs_sections c))"
  have "\<forall>l\<in>set ?ls. NL \<notin> set l" using assms NL_section by (fastforce simp: NL_def)
  then have "getlines (generateYAMLTemplate ft c) = ?ls" unfolding generateYAMLTemplate_def by (rule getlines_unlines)
  then show ?thesis using assms(2) by (simp add: filter_concat_map [OF section_lines])
qed

theorem yaml_template_content_witness:
  "filter content_line (getlines (generateYAMLTemplate sample_floats sample_schema)) =
     [''host:'', ''  cores: 4'', ''  l2:'', ''    size: 4'']"
proof -
  have "show_nat 4 = ''4''" by (simp add: show_nat.simps digit_def char_of_def bit_iff_odd)
  then have d: "to_string_int 4 = ''4''" by (simp add: to_string_int_def)
  have "plain_floats sample_floats" by (simp add: plain_floats_def sample_floats_def plain_def NL_def QUOTE_def)
  moreover have c: "cs_sections sample_schema =
      [Section ''host'' ''host part'' [sample_param] [Section ''l2'' '''' [sample_param\<lparr>ps_name := ''size''\<rparr>] [] True] True]"
    by (simp add: sample_schema_def addSection_def buildSectionMap_def ConfigSchema_init_def)
  ultimately show ?thesis
    using yaml_template_content [of sample_floats sample_schema]
    by (simp add: section_text_ok_def name_ok_def param_text_ok_def sample_param_def d NL_def section_content_def param_content_def
        subparam_content_def string_like_def)
qed

end
