(* ===== verification/Config_Validator.thy ===== *)
theory Config_Validator
  imports Config_Schema
begin

text \<open>
  The configuration validator, include/config/config_validator.h and src/config/config_validator.cpp:
  a flat configuration is checked against a schema, with errors, warnings and suggestions. The result
  object the C++ passes by reference is threaded through. Arguments stand for the file system and
  for the conversions of the library (\<^verbatim>\<open>std::stod\<close>, \<^verbatim>\<open>std::to_string\<close> of a double); a thrown exception is the
  text of its \<^verbatim>\<open>what()\<close>. A path may make the file system throw (no permission, a name that is too long,
  a loop of links): \<^verbatim>\<open>validateType\<close> catches that and reports an error, \<^verbatim>\<open>validateFile\<close> lets it pass to its caller.
\<close>

section \<open>Results\<close>

datatype Severity = SevERROR | SevWARNING | SevINFO

record ValidationError =
  ve_severity :: Severity
  ve_location :: string
  ve_message :: string
  ve_suggestion :: string
  ve_line_number :: int

definition mk_error :: "Severity \<Rightarrow> string \<Rightarrow> string \<Rightarrow> string \<Rightarrow> ValidationError" where
  "mk_error sev loc msg sug =
     \<lparr>ve_severity = sev, ve_location = loc, ve_message = msg, ve_suggestion = sug, ve_line_number = - 1\<rparr>"

fun severity_tag :: "Severity \<Rightarrow> string" where
  "severity_tag SevERROR = ''[ERROR]''"
| "severity_tag SevWARNING = ''[WARNING]''"
| "severity_tag SevINFO = ''[INFO]''"

definition error_toString :: "ValidationError \<Rightarrow> string" where
  "error_toString e =
     severity_tag (ve_severity e) @ '' '' @ ve_location e @ '': '' @ ve_message e @
     (if ve_suggestion e = '''' then '''' else [NL] @ ''  Suggestion: '' @ ve_suggestion e) @
     (if 0 \<le> ve_line_number e then '' (line '' @ to_string_int (ve_line_number e) @ '')'' else '''')"

definition ESC :: char where "ESC = CHR 0x1B"

fun severity_color :: "Severity \<Rightarrow> string" where
  "severity_color SevERROR = ESC # ''[1;31m''"
| "severity_color SevWARNING = ESC # ''[1;33m''"
| "severity_color SevINFO = ESC # ''[1;36m''"

definition error_toColorString :: "ValidationError \<Rightarrow> string" where
  "error_toColorString e =
     severity_color (ve_severity e) @ severity_tag (ve_severity e) @ (ESC # ''[0m'') @ '' '' @ ve_location e @ '': '' @ ve_message e @
     (if ve_suggestion e = '''' then ''''
      else [NL] @ ''  '' @ (ESC # ''[1;36m'') @ ''Suggestion:'' @ (ESC # ''[0m'') @ '' '' @ ve_suggestion e) @
     (if 0 \<le> ve_line_number e then '' (line '' @ to_string_int (ve_line_number e) @ '')'' else '''')"

record ValidationResult =
  vl_valid :: bool
  vl_errors :: "ValidationError list"
  vl_warnings :: "ValidationError list"

definition empty_result :: ValidationResult where
  "empty_result = \<lparr>vl_valid = True, vl_errors = [], vl_warnings = []\<rparr>"

definition addError :: "ValidationError \<Rightarrow> ValidationResult \<Rightarrow> ValidationResult" where
  "addError e r =
     (if ve_severity e = SevERROR then r\<lparr>vl_errors := vl_errors r @ [e], vl_valid := False\<rparr>
      else if ve_severity e = SevWARNING then r\<lparr>vl_warnings := vl_warnings r @ [e]\<rparr> else r)"

definition getSummary :: "ValidationResult \<Rightarrow> string" where
  "getSummary r =
     (if vl_valid r \<and> vl_warnings r = [] then ''Configuration is valid!''
      else if \<not> vl_valid r
      then ''Configuration has '' @ show_nat (length (vl_errors r)) @ '' error(s)'' @
           (if vl_warnings r = [] then '''' else '' and '' @ show_nat (length (vl_warnings r)) @ '' warning(s)'')
      else ''Configuration is valid but has '' @ show_nat (length (vl_warnings r)) @ '' warning(s)'')"

definition getDetailedReport :: "ValidationResult \<Rightarrow> string" where
  "getDetailedReport r = unlines
     ([''=== Configuration Validation Report ==='', getSummary r, ''''] @
      (if vl_errors r = [] then [] else ''Errors:'' # map (\<lambda>e. ''  '' @ error_toString e) (vl_errors r) @ ['''']) @
      (if vl_warnings r = [] then [] else ''Warnings:'' # map (\<lambda>e. ''  '' @ error_toString e) (vl_warnings r)))"

section \<open>The checks\<close>

record environment =
  en_floats :: float_text
  en_exists :: "string \<Rightarrow> string + bool"
  en_is_directory :: "string \<Rightarrow> string + bool"

record ConfigValidator =
  va_schema :: ConfigSchema
  va_strict_mode :: bool
  va_check_file_existence :: bool
  va_allow_unknown_params :: bool

definition ConfigValidator_init :: "ConfigSchema \<Rightarrow> ConfigValidator" where
  "ConfigValidator_init c =
     \<lparr>va_schema = c, va_strict_mode = False, va_check_file_existence = True, va_allow_unknown_params = False\<rparr>"

definition setStrictMode :: "bool \<Rightarrow> ConfigValidator \<Rightarrow> ConfigValidator" where
  "setStrictMode b v = v\<lparr>va_strict_mode := b\<rparr>"

definition setCheckFileExistence :: "bool \<Rightarrow> ConfigValidator \<Rightarrow> ConfigValidator" where
  "setCheckFileExistence b v = v\<lparr>va_check_file_existence := b\<rparr>"

definition setAllowUnknownParameters :: "bool \<Rightarrow> ConfigValidator \<Rightarrow> ConfigValidator" where
  "setAllowUnknownParameters b v = v\<lparr>va_allow_unknown_params := b\<rparr>"

text \<open>\<^verbatim>\<open>suggestCorrection\<close>: the valid value that contains most of the characters, the first of the best.\<close>

definition common :: "string \<Rightarrow> string \<Rightarrow> nat" where
  "common s valid = length (filter (\<lambda>c. c \<in> set valid) s)"

fun best_match :: "string \<Rightarrow> string list \<Rightarrow> string \<Rightarrow> nat \<Rightarrow> string" where
  "best_match s [] best mx = best"
| "best_match s (v # vs) best mx =
     (if mx < common s v then best_match s vs v (common s v) else best_match s vs best mx)"

definition suggestCorrection :: "string \<Rightarrow> string list \<Rightarrow> string" where
  "suggestCorrection s vs = (case vs of [] \<Rightarrow> '''' | v # _ \<Rightarrow> best_match s vs v 0)"

definition fail :: "string \<Rightarrow> string \<Rightarrow> string \<Rightarrow> ValidationResult \<Rightarrow> bool \<times> ValidationResult" where
  "fail loc msg sug r = (False, addError (mk_error SevERROR loc msg sug) r)"

definition caught :: "string \<Rightarrow> string \<Rightarrow> ValidationResult \<Rightarrow> bool \<times> ValidationResult" where
  "caught loc what r = fail loc (''Type validation failed: '' @ what) ''Check parameter type and value'' r"

definition bool_words :: "string list" where
  "bool_words = [''true'', ''false'', ''1'', ''0'', ''yes'', ''no'']"

definition validateType ::
  "ConfigValidator \<Rightarrow> environment \<Rightarrow> ParameterSchema \<Rightarrow> string \<Rightarrow> ValidationResult \<Rightarrow> string \<Rightarrow> bool \<times> ValidationResult" where
  "validateType va en p v r loc =
     (case ps_type p of
        INTEGER \<Rightarrow> (case stoll v of Inl e \<Rightarrow> caught loc e r
          | Inr (i, pos) \<Rightarrow> if pos \<noteq> length v then fail loc (''Invalid integer value: '' @ v) ''Expected an integer'' r else (True, r))
      | UNSIGNED_INTEGER \<Rightarrow> (case stoll v of Inl e \<Rightarrow> caught loc e r
          | Inr (i, pos) \<Rightarrow>
              if pos \<noteq> length v then fail loc (''Invalid integer value: '' @ v) ''Expected an integer'' r
              else if i < 0 then fail loc (''Value must be non-negative: '' @ v) ''Use a positive integer value'' r else (True, r))
      | FLOAT \<Rightarrow> (case ft_stod (en_floats en) v of Inl e \<Rightarrow> caught loc e r
          | Inr (d, pos) \<Rightarrow> if pos \<noteq> length v then fail loc (''Invalid float value: '' @ v) ''Expected a floating-point number'' r else (True, r))
      | BOOLEAN \<Rightarrow> (if lower v \<notin> set bool_words
          then fail loc (''Invalid boolean value: '' @ v) ''Expected true/false, yes/no, or 1/0'' r else (True, r))
      | ENUM \<Rightarrow> (if ps_allowed p \<noteq> [] \<and> v \<notin> set (ps_allowed p)
          then fail loc (''Invalid enum value: '' @ v) (''Did you mean: '' @ suggestCorrection v (ps_allowed p) @ ''?'') r else (True, r))
      | FILE_PATH \<Rightarrow> (if \<not> va_check_file_existence va then (True, r)
          else case en_exists en v of Inl e \<Rightarrow> caught loc e r
            | Inr ex \<Rightarrow> (True, if \<not> ex
                then addError (mk_error SevWARNING loc (''File does not exist: '' @ v) ''Create the path or update configuration'') r else r))
      | DIRECTORY_PATH \<Rightarrow> (if \<not> va_check_file_existence va then (True, r)
          else case en_is_directory en v of Inl e \<Rightarrow> caught loc e r
            | Inr ex \<Rightarrow> (True, if \<not> ex
                then addError (mk_error SevWARNING loc (''Directory does not exist: '' @ v) ''Create the path or update configuration'') r else r))
      | _ \<Rightarrow> (True, r))"

text \<open>
  One rule: \<open>None\<close> where it passes or is skipped, else the message and the suggestion. A \<^verbatim>\<open>std::get\<close> of
  another alternative throws \<^verbatim>\<open>std::bad_variant_access\<close>, which \<^verbatim>\<open>catch (...)\<close> swallows like a failed conversion.
\<close>

definition check_rule :: "environment \<Rightarrow> ParameterSchema \<Rightarrow> string \<Rightarrow> ValidationRule \<Rightarrow> (string \<times> string) option" where
  "check_rule en p v rule =
     (let ft = en_floats en
      in case vr_type rule of
        MIN_VALUE \<Rightarrow>
          (if ps_type p = FLOAT
           then (case (ft_stod ft v, vr_value rule) of
                   (Inr (x, _), RDouble m) \<Rightarrow> if stod_below x m
                     then Some (''Value '' @ v @ '' is below minimum '' @ ft_to_string ft m, ''Use a value >= '' @ ft_to_string ft m) else None
                 | _ \<Rightarrow> None)
           else (case (stoll v, vr_value rule) of
                   (Inr (x, _), RInt m) \<Rightarrow> if x < m
                     then Some (''Value '' @ v @ '' is below minimum '' @ to_string_int m, ''Use a value >= '' @ to_string_int m) else None
                 | _ \<Rightarrow> None))
      | MAX_VALUE \<Rightarrow>
          (if ps_type p = FLOAT
           then (case (ft_stod ft v, vr_value rule) of
                   (Inr (x, _), RDouble m) \<Rightarrow> if stod_above x m
                     then Some (''Value '' @ v @ '' exceeds maximum '' @ ft_to_string ft m, ''Use a value <= '' @ ft_to_string ft m) else None
                 | _ \<Rightarrow> None)
           else (case (stoll v, vr_value rule) of
                   (Inr (x, _), RInt m) \<Rightarrow> if m < x
                     then Some (''Value '' @ v @ '' exceeds maximum '' @ to_string_int m, ''Use a value <= '' @ to_string_int m) else None
                 | _ \<Rightarrow> None))
      | _ \<Rightarrow> None)"

fun rules_loop ::
  "environment \<Rightarrow> ParameterSchema \<Rightarrow> string \<Rightarrow> ValidationRule list \<Rightarrow> ValidationResult \<Rightarrow> string \<Rightarrow> bool \<times> ValidationResult" where
  "rules_loop en p v [] r loc = (True, r)"
| "rules_loop en p v (rule # rules) r loc =
     (case check_rule en p v rule of None \<Rightarrow> rules_loop en p v rules r loc | Some (msg, sug) \<Rightarrow> fail loc msg sug r)"

definition validateRules ::
  "environment \<Rightarrow> ParameterSchema \<Rightarrow> string \<Rightarrow> ValidationResult \<Rightarrow> string \<Rightarrow> bool \<times> ValidationResult" where
  "validateRules en p v r loc = rules_loop en p v (ps_rules p) r loc"

definition validateParameter ::
  "ConfigValidator \<Rightarrow> environment \<Rightarrow> ParameterSchema \<Rightarrow> string \<Rightarrow> ValidationResult \<Rightarrow> string \<Rightarrow> bool \<times> ValidationResult" where
  "validateParameter va en p v r loc =
     (case validateType va en p v r loc of (ok, r1) \<Rightarrow> if \<not> ok then (False, r1) else validateRules en p v r1 loc)"

definition checkRequiredParameters :: "ParameterSchema list \<Rightarrow> config \<Rightarrow> ValidationResult \<Rightarrow> string \<Rightarrow> ValidationResult" where
  "checkRequiredParameters ps cfg r prefix =
     foldl (\<lambda>r p. let path = prefix @ ''.'' @ ps_name p
            in if ps_required p \<and> smap_find path cfg = None
               then addError (mk_error SevERROR path ''Required parameter is missing'' (''Add '' @ path @ '' = '' @ ps_example p)) r
               else r) r ps"

definition validateParameters ::
  "ConfigValidator \<Rightarrow> environment \<Rightarrow> ParameterSchema list \<Rightarrow> config \<Rightarrow> ValidationResult \<Rightarrow> string \<Rightarrow> ValidationResult" where
  "validateParameters va en ps cfg r prefix =
     foldl (\<lambda>r p. let path = prefix @ ''.'' @ ps_name p
            in case smap_find path cfg of None \<Rightarrow> r | Some v \<Rightarrow> snd (validateParameter va en p v r path)) r ps"

fun validateSection :: "ConfigValidator \<Rightarrow> environment \<Rightarrow> SectionSchema \<Rightarrow> config \<Rightarrow> ValidationResult \<Rightarrow> string \<Rightarrow> ValidationResult"
and validateSections :: "ConfigValidator \<Rightarrow> environment \<Rightarrow> SectionSchema list \<Rightarrow> config \<Rightarrow> ValidationResult \<Rightarrow> string \<Rightarrow> ValidationResult" where
  "validateSection va en (Section name desc ps subs req) cfg r prefix =
     (let section_prefix = join_key prefix name;
          r1 = checkRequiredParameters ps cfg r section_prefix;
          r2 = validateParameters va en ps cfg r1 section_prefix
      in validateSections va en subs cfg r2 section_prefix)"
| "validateSections va en [] cfg r prefix = r"
| "validateSections va en (s # ss) cfg r prefix = validateSections va en ss cfg (validateSection va en s cfg r prefix) prefix"

text \<open>The valid paths, a \<^verbatim>\<open>std::set\<close>.\<close>

fun collectPaths :: "SectionSchema \<Rightarrow> string \<Rightarrow> (string, unit) smap \<Rightarrow> (string, unit) smap"
and collectAll :: "SectionSchema list \<Rightarrow> string \<Rightarrow> (string, unit) smap \<Rightarrow> (string, unit) smap" where
  "collectPaths (Section name desc ps subs req) prefix m =
     (let section_prefix = join_key prefix name
      in collectAll subs section_prefix (foldl (\<lambda>m p. smap_put (section_prefix @ ''.'' @ ps_name p) () m) m ps))"
| "collectAll [] prefix m = m"
| "collectAll (s # ss) prefix m = collectAll ss prefix (collectPaths s prefix m)"

text \<open>\<^verbatim>\<open>s.find(p) == 0\<close>.\<close>

definition starts_with :: "string \<Rightarrow> string \<Rightarrow> bool" where
  "starts_with s p \<longleftrightarrow> take (length p) s = p"

definition known_key :: "string list \<Rightarrow> string \<Rightarrow> bool" where
  "known_key paths key \<longleftrightarrow> key \<in> set paths \<or> (\<exists>path\<in>set paths. starts_with path (key @ ''.'') \<or> starts_with key path)"

definition unknown_error :: "ConfigValidator \<Rightarrow> string list \<Rightarrow> string \<Rightarrow> ValidationError" where
  "unknown_error va paths key =
     (let suggestion = suggestCorrection key paths
      in mk_error (if va_strict_mode va then SevERROR else SevWARNING) key ''Unknown configuration parameter''
           (if suggestion = '''' then '''' else ''Did you mean: '' @ suggestion @ ''?''))"

definition check_unknown :: "ConfigValidator \<Rightarrow> string list \<Rightarrow> config \<Rightarrow> ValidationResult \<Rightarrow> ValidationResult" where
  "check_unknown va paths cfg r =
     foldl (\<lambda>r (key, v). if \<not> known_key paths key \<and> paths \<noteq> [] then addError (unknown_error va paths key) r else r) r cfg"

definition validate_config :: "ConfigValidator \<Rightarrow> environment \<Rightarrow> config \<Rightarrow> ValidationResult" where
  "validate_config va en cfg =
     (let r = validateSections va en (cs_sections (va_schema va)) cfg empty_result ''''
      in if va_allow_unknown_params va then r
         else check_unknown va (map fst (collectAll (cs_sections (va_schema va)) '''' [])) cfg r)"

section \<open>Documents\<close>

text \<open>
  \<^verbatim>\<open>flattenNode\<close>: as \<^verbatim>\<open>parseNode\<close> of the parser, but an item of a sequence that is no scalar is left out
  between its commas. Exceptions carry their text.
\<close>

fun flat_items :: "(YNode \<Rightarrow> string + string) \<Rightarrow> bool \<Rightarrow> YNode list \<Rightarrow> string + string" where
  "flat_items as_string first [] = Inr ''''"
| "flat_items as_string first (n # ns) =
     (case (case n of YScalar _ \<Rightarrow> as_string n | _ \<Rightarrow> Inr '''') of Inl e \<Rightarrow> Inl e
      | Inr t \<Rightarrow> map_sum id (\<lambda>r. (if first then '''' else '','') @ t @ r) (flat_items as_string False ns))"

fun flattenNode :: "(YNode \<Rightarrow> string + string) \<Rightarrow> YNode \<Rightarrow> string \<Rightarrow> config \<Rightarrow> string + config"
and flattenEntries :: "(YNode \<Rightarrow> string + string) \<Rightarrow> (YNode \<times> YNode) list \<Rightarrow> string \<Rightarrow> config \<Rightarrow> string + config" where
  "flattenNode as_string YUndefined prefix cfg = Inr cfg"
| "flattenNode as_string YNull prefix cfg = Inr cfg"
| "flattenNode as_string (YScalar s) prefix cfg = map_sum id (\<lambda>t. smap_put prefix t cfg) (as_string (YScalar s))"
| "flattenNode as_string (YSequence ns) prefix cfg = map_sum id (\<lambda>t. smap_put prefix t cfg) (flat_items as_string True ns)"
| "flattenNode as_string (YMap es) prefix cfg = flattenEntries as_string es prefix cfg"
| "flattenEntries as_string [] prefix cfg = Inr cfg"
| "flattenEntries as_string ((k, n) # es) prefix cfg =
     (case as_string k of Inl e \<Rightarrow> Inl e
      | Inr key \<Rightarrow> (case flattenNode as_string n (join_key prefix key) cfg of Inl e \<Rightarrow> Inl e
          | Inr cfg' \<Rightarrow> flattenEntries as_string es prefix cfg'))"

text \<open>What \<^verbatim>\<open>YAML::Load\<close> may throw: a syntax error with its line, or another of its exceptions.\<close>

datatype yaml_exception = ParserException string int | YamlException string

definition validateYAML ::
  "ConfigValidator \<Rightarrow> environment \<Rightarrow> (string \<Rightarrow> yaml_exception + YNode) \<Rightarrow> (YNode \<Rightarrow> string + string) \<Rightarrow> string \<Rightarrow> ValidationResult" where
  "validateYAML va en load as_string yaml_content =
     (case load yaml_content of
        Inl (ParserException what line) \<Rightarrow>
          addError ((mk_error SevERROR ''yaml_parser'' (''YAML syntax error: '' @ what) ''Check YAML syntax at the reported line'')
            \<lparr>ve_line_number := line\<rparr>) empty_result
      | Inl (YamlException what) \<Rightarrow>
          addError (mk_error SevERROR ''yaml_parser'' (''YAML parsing error: '' @ what) ''Verify YAML file format'') empty_result
      | Inr node \<Rightarrow>
          (case flattenNode as_string node '''' [] of
             Inl what \<Rightarrow> addError (mk_error SevERROR ''yaml_parser'' (''YAML parsing error: '' @ what) ''Verify YAML file format'') empty_result
           | Inr cfg \<Rightarrow> validate_config va en cfg))"

text \<open>
  The file: \<open>None\<close> where it cannot be opened. The first look at the path stands outside of every \<^verbatim>\<open>try\<close>: an
  exception there leaves the function, \<open>Inl\<close>.
\<close>

definition validateFile ::
  "ConfigValidator \<Rightarrow> environment \<Rightarrow> (string \<Rightarrow> yaml_exception + YNode) \<Rightarrow> (YNode \<Rightarrow> string + string) \<Rightarrow> (string \<Rightarrow> string option)
     \<Rightarrow> string \<Rightarrow> string + ValidationResult" where
  "validateFile va en load as_string contents yaml_file =
     (case en_exists en yaml_file of Inl what \<Rightarrow> Inl what
      | Inr ex \<Rightarrow> Inr
          (if \<not> ex
           then addError (mk_error SevERROR yaml_file ''Configuration file does not exist'' ''Check the file path and ensure it exists'') empty_result
           else case contents yaml_file of
             None \<Rightarrow> addError (mk_error SevERROR yaml_file ''Cannot open configuration file'' ''Check file permissions'') empty_result
           | Some yaml_content \<Rightarrow> validateYAML va en load as_string yaml_content))"

section \<open>What a valid configuration is\<close>

text \<open>The parameters of a schema with their paths.\<close>

fun section_params :: "string \<Rightarrow> SectionSchema \<Rightarrow> (string \<times> ParameterSchema) list"
and sections_params :: "string \<Rightarrow> SectionSchema list \<Rightarrow> (string \<times> ParameterSchema) list" where
  "section_params prefix (Section name desc ps subs req) =
     map (\<lambda>p. (join_key prefix name @ ''.'' @ ps_name p, p)) ps @ sections_params (join_key prefix name) subs"
| "sections_params prefix [] = []"
| "sections_params prefix (s # ss) = section_params prefix s @ sections_params prefix ss"

definition whole_integer :: "string \<Rightarrow> int \<Rightarrow> bool" where
  "whole_integer v i \<longleftrightarrow> stoll v = Inr (i, length v)"

text \<open>
  A value of its type: an integer (or a non-negative one) that \<^verbatim>\<open>std::stoll\<close> reads to the end of the text, a
  double that \<^verbatim>\<open>std::stod\<close> reads to the end, a truth word, an allowed word; and a path the file system can be
  asked about without an exception, whether or not anything is there.
\<close>

definition type_conforms :: "ConfigValidator \<Rightarrow> environment \<Rightarrow> ParameterSchema \<Rightarrow> string \<Rightarrow> bool" where
  "type_conforms va en p v \<longleftrightarrow>
     (ps_type p = INTEGER \<longrightarrow> (\<exists>i. whole_integer v i)) \<and>
     (ps_type p = UNSIGNED_INTEGER \<longrightarrow> (\<exists>i\<ge>0. whole_integer v i)) \<and>
     (ps_type p = FLOAT \<longrightarrow> (\<exists>d. ft_stod (en_floats en) v = Inr (d, length v))) \<and>
     (ps_type p = BOOLEAN \<longrightarrow> lower v \<in> {''true'', ''false'', ''1'', ''0'', ''yes'', ''no''}) \<and>
     (ps_type p = ENUM \<longrightarrow> ps_allowed p = [] \<or> v \<in> set (ps_allowed p)) \<and>
     (va_check_file_existence va \<longrightarrow>
        (ps_type p = FILE_PATH \<longrightarrow> (\<exists>b. en_exists en v = Inr b)) \<and>
        (ps_type p = DIRECTORY_PATH \<longrightarrow> (\<exists>b. en_is_directory en v = Inr b)))"

text \<open>
  A bound of the kind of the parameter is kept by the number the value starts with; an infinity breaks the
  bound on its side, and a text that reads as NaN breaks none.
\<close>

fun double_keeps :: "stod_value \<Rightarrow> RuleType \<Rightarrow> real \<Rightarrow> bool" where
  "double_keeps (Finite x) t m \<longleftrightarrow> (t = MIN_VALUE \<longrightarrow> m \<le> x) \<and> (t = MAX_VALUE \<longrightarrow> x \<le> m)"
| "double_keeps PlusInf t m \<longleftrightarrow> t \<noteq> MAX_VALUE"
| "double_keeps MinusInf t m \<longleftrightarrow> t \<noteq> MIN_VALUE"
| "double_keeps NotANumber t m \<longleftrightarrow> True"

definition rule_holds :: "environment \<Rightarrow> ParameterSchema \<Rightarrow> string \<Rightarrow> ValidationRule \<Rightarrow> bool" where
  "rule_holds en p v rule \<longleftrightarrow>
     (if ps_type p = FLOAT
      then \<forall>m x n. vr_value rule = RDouble m \<and> ft_stod (en_floats en) v = Inr (x, n) \<longrightarrow> double_keeps x (vr_type rule) m
      else \<forall>m x n. vr_value rule = RInt m \<and> stoll v = Inr (x, n) \<longrightarrow>
             (vr_type rule = MIN_VALUE \<longrightarrow> m \<le> x) \<and> (vr_type rule = MAX_VALUE \<longrightarrow> x \<le> m))"

definition conforms :: "ConfigValidator \<Rightarrow> environment \<Rightarrow> ParameterSchema \<Rightarrow> string \<Rightarrow> bool" where
  "conforms va en p v \<longleftrightarrow> type_conforms va en p v \<and> (\<forall>rule\<in>set (ps_rules p). rule_holds en p v rule)"

definition param_good :: "ConfigValidator \<Rightarrow> environment \<Rightarrow> config \<Rightarrow> string \<times> ParameterSchema \<Rightarrow> bool" where
  "param_good va en cfg = (\<lambda>(path, p).
     case smap_find path cfg of None \<Rightarrow> \<not> ps_required p | Some v \<Rightarrow> conforms va en p v)"

definition result_ok :: "ValidationResult \<Rightarrow> bool" where
  "result_ok r \<longleftrightarrow> (vl_valid r \<longleftrightarrow> vl_errors r = []) \<and> list_all (\<lambda>e. ve_severity e = SevERROR) (vl_errors r)
     \<and> list_all (\<lambda>e. ve_severity e = SevWARNING) (vl_warnings r)"

lemma valid_addError [simp]: "vl_valid (addError e r) \<longleftrightarrow> vl_valid r \<and> ve_severity e \<noteq> SevERROR"
  by (auto simp: addError_def)

lemma severity_mk [simp]: "ve_severity (mk_error s l m g) = s"
  by (simp add: mk_error_def)

lemma ok_addError [simp]: "result_ok r \<Longrightarrow> result_ok (addError e r)"
  by (auto simp: addError_def result_ok_def)

lemma ok_empty [simp]: "result_ok empty_result"
  by (simp add: result_ok_def empty_result_def)

lemma valid_fail [simp]: "fst (fail l m s r) = False" "vl_valid (snd (fail l m s r)) = False" "result_ok r \<Longrightarrow> result_ok (snd (fail l m s r))"
  by (simp_all add: fail_def)

lemma valid_caught [simp]: "fst (caught l w r) = False" "vl_valid (snd (caught l w r)) = False" "result_ok r \<Longrightarrow> result_ok (snd (caught l w r))"
  by (simp_all add: caught_def)

lemma validateType_ok:
  "fst (validateType va en p v r loc) = type_conforms va en p v"
  "vl_valid (snd (validateType va en p v r loc)) \<longleftrightarrow> vl_valid r \<and> type_conforms va en p v"
  "result_ok r \<Longrightarrow> result_ok (snd (validateType va en p v r loc))"
  by (cases "ps_type p"; auto simp: validateType_def type_conforms_def whole_integer_def bool_words_def split: sum.splits prod.splits)+

lemma double_keeps_iff:
  "double_keeps x t m \<longleftrightarrow> (t = MIN_VALUE \<longrightarrow> \<not> stod_below x m) \<and> (t = MAX_VALUE \<longrightarrow> \<not> stod_above x m)"
  by (cases x) auto

lemma check_rule_None: "check_rule en p v rule = None \<longleftrightarrow> rule_holds en p v rule"
  by (cases "vr_type rule"; cases "vr_value rule")
    (auto simp: check_rule_def rule_holds_def double_keeps_iff Let_def split: sum.splits prod.splits)

lemma rules_loop_ok:
  "fst (rules_loop en p v rules r loc) = (\<forall>rule\<in>set rules. rule_holds en p v rule)"
  "vl_valid (snd (rules_loop en p v rules r loc)) \<longleftrightarrow> vl_valid r \<and> (\<forall>rule\<in>set rules. rule_holds en p v rule)"
  "result_ok r \<Longrightarrow> result_ok (snd (rules_loop en p v rules r loc))"
  by (induction rules) (auto simp: check_rule_None [symmetric] split: option.splits)

lemma validateParameter_ok:
  "vl_valid (snd (validateParameter va en p v r loc)) \<longleftrightarrow> vl_valid r \<and> conforms va en p v"
  "result_ok r \<Longrightarrow> result_ok (snd (validateParameter va en p v r loc))"
  by (auto simp: validateParameter_def validateRules_def conforms_def split_beta validateType_ok rules_loop_ok)

lemma foldl_valid:
  "(\<And>r x. x \<in> set xs \<Longrightarrow> vl_valid (f r x) \<longleftrightarrow> vl_valid r \<and> P x) \<Longrightarrow> vl_valid (foldl f r xs) \<longleftrightarrow> vl_valid r \<and> (\<forall>x\<in>set xs. P x)"
  by (induction xs arbitrary: r) auto

lemma foldl_ok: "(\<And>r x. result_ok r \<Longrightarrow> result_ok (f r x)) \<Longrightarrow> result_ok r \<Longrightarrow> result_ok (foldl f r xs)"
  by (induction xs arbitrary: r) auto

lemma required_valid:
  "vl_valid (checkRequiredParameters ps cfg r prefix) \<longleftrightarrow>
     vl_valid r \<and> (\<forall>p\<in>set ps. ps_required p \<longrightarrow> smap_find (prefix @ ''.'' @ ps_name p) cfg \<noteq> None)"
  unfolding checkRequiredParameters_def by (rule foldl_valid) (auto simp: Let_def)

lemma required_ok: "result_ok r \<Longrightarrow> result_ok (checkRequiredParameters ps cfg r prefix)"
  unfolding checkRequiredParameters_def by (rule foldl_ok) (auto simp: Let_def)

lemma parameters_valid:
  "vl_valid (validateParameters va en ps cfg r prefix) \<longleftrightarrow>
     vl_valid r \<and> (\<forall>p\<in>set ps. \<forall>v. smap_find (prefix @ ''.'' @ ps_name p) cfg = Some v \<longrightarrow> conforms va en p v)"
  unfolding validateParameters_def by (rule foldl_valid) (auto simp: Let_def validateParameter_ok split: option.split)

lemma parameters_ok: "result_ok r \<Longrightarrow> result_ok (validateParameters va en ps cfg r prefix)"
  unfolding validateParameters_def by (rule foldl_ok) (auto simp: Let_def validateParameter_ok split: option.split)

lemma section_valid:
  "vl_valid (validateSection va en s cfg r prefix) \<longleftrightarrow> vl_valid r \<and> (\<forall>x\<in>set (section_params prefix s). param_good va en cfg x)"
  "vl_valid (validateSections va en ss cfg r prefix) \<longleftrightarrow> vl_valid r \<and> (\<forall>x\<in>set (sections_params prefix ss). param_good va en cfg x)"
proof (induction va en s cfg r prefix and va en ss cfg r prefix rule: validateSection_validateSections.induct)
  case (1 va en name desc ps subs req cfg r prefix)
  have "param_good va en cfg (path, p) \<longleftrightarrow> (ps_required p \<longrightarrow> smap_find path cfg \<noteq> None) \<and> (\<forall>v. smap_find path cfg = Some v \<longrightarrow> conforms va en p v)" for path p
    by (auto simp: param_good_def split: option.split)
  then have "(\<forall>p\<in>set ps. param_good va en cfg (f p, p)) \<longleftrightarrow> (\<forall>p\<in>set ps. ps_required p \<longrightarrow> smap_find (f p) cfg \<noteq> None)
      \<and> (\<forall>p\<in>set ps. \<forall>v. smap_find (f p) cfg = Some v \<longrightarrow> conforms va en p v)" for f by blast
  then show ?case using 1 [OF HOL.refl HOL.refl HOL.refl]
    by (simp add: Let_def required_valid parameters_valid ball_Un image_image del: not_None_eq)
qed auto

lemma section_ok:
  "result_ok r \<Longrightarrow> result_ok (validateSection va en s cfg r prefix)"
  "result_ok r \<Longrightarrow> result_ok (validateSections va en ss cfg r prefix)"
  by (induction va en s cfg r prefix and va en ss cfg r prefix rule: validateSection_validateSections.induct)
    (auto simp: Let_def required_ok parameters_ok)

lemma put_paths: "fst ` set (foldl (\<lambda>m p. smap_put (f p) () m) m ps) = fst ` set m \<union> f ` set ps"
  by (induction ps arbitrary: m) (auto simp: smap_put_keys)

lemma collect_paths:
  "fst ` set (collectPaths s prefix m) = fst ` set m \<union> fst ` set (section_params prefix s)"
  "fst ` set (collectAll ss prefix m) = fst ` set m \<union> fst ` set (sections_params prefix ss)"
  by (induction s prefix m and ss prefix m rule: collectPaths_collectAll.induct) (simp_all add: Let_def put_paths image_Un image_image Un_assoc)

lemma collect_empty: "collectAll ss prefix [] = [] \<longleftrightarrow> sections_params prefix ss = []"
  using collect_paths(2) [of ss prefix "[]"] by (metis image_is_empty list.set(1) set_empty sup_bot_left)

lemma unknown_valid:
  "vl_valid (check_unknown va paths cfg r) \<longleftrightarrow>
     vl_valid r \<and> (\<forall>e\<in>set cfg. va_strict_mode va \<and> paths \<noteq> [] \<longrightarrow> known_key paths (fst e))"
  unfolding check_unknown_def by (rule foldl_valid) (auto simp: unknown_error_def Let_def split_beta)

lemma unknown_ok: "result_ok r \<Longrightarrow> result_ok (check_unknown va paths cfg r)"
  unfolding check_unknown_def by (rule foldl_ok) (auto simp: split_beta)

section \<open>Properties\<close>

text \<open>
  The keys a validator accepts, in terms of the paths of the schema: a path itself, a parent of a path, or
  any text that begins with a path, at a dot or not.
\<close>

definition key_in_schema :: "ConfigSchema \<Rightarrow> string \<Rightarrow> bool" where
  "key_in_schema c key \<longleftrightarrow>
     (\<exists>path\<in>fst ` set (sections_params '''' (cs_sections c)).
        key = path \<or> (\<exists>rest. path = key @ ''.'' @ rest) \<or> (\<exists>rest. key = path @ rest))"

lemma starts_with_iff: "starts_with s p \<longleftrightarrow> (\<exists>rest. s = p @ rest)"
proof
  assume "starts_with s p"
  then show "\<exists>rest. s = p @ rest" unfolding starts_with_def by (metis append_take_drop_id)
qed (auto simp: starts_with_def)

lemma known_in_schema:
  "known_key (map fst (collectAll (cs_sections c) '''' [])) key \<longleftrightarrow> key_in_schema c key"
proof -
  have paths: "set (map fst (collectAll (cs_sections c) '''' [])) = fst ` set (sections_params '''' (cs_sections c))"
    using collect_paths(2) [of "cs_sections c" "''''" "[]"] by simp
  have "(\<exists>rest. path = (key @ ''.'') @ rest) \<longleftrightarrow> (\<exists>rest. path = key @ ''.'' @ rest)" for path by simp
  then show ?thesis unfolding known_key_def key_in_schema_def paths starts_with_iff by blast
qed

text \<open>
  C25: The validator decides the schema, as the code reads it: a configuration is reported valid exactly when
  every required parameter of every section and subsection is present; every parameter that is present has a value
  of its type, where a path must not make the file system throw (a path where nothing is found gives a
  warning only); no value breaks a bound of its own numeric kind, where \<^verbatim>\<open>nan\<close> breaks none; and, in strict mode
  without unknown parameters and with a schema that has any parameter, every key is the path of a parameter,
  a parent of one, or begins with one. The last case, \<^verbatim>\<open>host.cores_typo\<close> beside \<^verbatim>\<open>host.cores\<close>, is what the code does and
  not what its comment says.
\<close>

theorem validate_iff:
  "vl_valid (validate_config va en cfg) \<longleftrightarrow>
     (\<forall>x\<in>set (sections_params '''' (cs_sections (va_schema va))). param_good va en cfg x)
     \<and> (va_strict_mode va \<and> \<not> va_allow_unknown_params va \<and> sections_params '''' (cs_sections (va_schema va)) \<noteq> [] \<longrightarrow>
          (\<forall>e\<in>set cfg. key_in_schema (va_schema va) (fst e)))"
  by (auto simp: validate_config_def Let_def section_valid unknown_valid known_in_schema empty_result_def collect_empty)

definition plain_env :: environment where
  "plain_env = \<lparr>en_floats = sample_floats,
     en_exists = (\<lambda>path. if path = ''/root/trace'' then Inl ''filesystem error: Permission denied'' else Inr True),
     en_is_directory = (\<lambda>_. Inr True)\<rparr>"

definition strict_validator :: ConfigValidator where
  "strict_validator = setStrictMode True (ConfigValidator_init sample_schema)"

lemma stoll_8: "stoll ''8'' = Inr (8, 1)"
  by (simp add: stoll_def is_space_def is_digit_def digits_value_def)

lemma sample_paths: "sections_params '''' (cs_sections sample_schema) =
    [(''host.cores'', sample_param), (''host.l2.size'', sample_param\<lparr>ps_name := ''size''\<rparr>)]"
  by (simp add: sample_schema_def addSection_def buildSectionMap_def ConfigSchema_init_def join_key_def sample_param_def)

lemma sample_conforms: "conforms strict_validator plain_env sample_param ''8''" "conforms strict_validator plain_env (sample_param\<lparr>ps_name := n\<rparr>) ''8''"
  by (auto simp: conforms_def type_conforms_def whole_integer_def rule_holds_def sample_param_def stoll_8)

text \<open>A file whose directory may not be searched, and a float with a lower and an upper bound.\<close>

definition path_param :: ParameterSchema where
  "path_param = sample_param\<lparr>ps_name := ''trace'', ps_type := FILE_PATH, ps_rules := []\<rparr>"

definition ratio_param :: ParameterSchema where
  "ratio_param = sample_param\<lparr>ps_name := ''ratio'', ps_type := FLOAT,
     ps_rules := [\<lparr>vr_type = MIN_VALUE, vr_value = RDouble 0, vr_error_message = ''''\<rparr>,
                  \<lparr>vr_type = MAX_VALUE, vr_value = RDouble 1, vr_error_message = ''''\<rparr>]\<rparr>"

definition run_validator :: ConfigValidator where
  "run_validator = setStrictMode True (ConfigValidator_init
     (addSection (Section ''run'' '''' [path_param, ratio_param] [] True) ConfigSchema_init))"

lemma run_schema:
  "sections_params '''' (cs_sections (va_schema run_validator)) = [(''run.trace'', path_param), (''run.ratio'', ratio_param)]"
  "va_check_file_existence run_validator" "va_strict_mode run_validator"
  by (simp_all add: run_validator_def setStrictMode_def ConfigValidator_init_def addSection_def buildSectionMap_def
      ConfigSchema_init_def join_key_def path_param_def ratio_param_def sample_param_def)

lemma run_conforms:
  "conforms run_validator plain_env path_param v \<longleftrightarrow> v \<noteq> ''/root/trace''"
  "conforms run_validator plain_env ratio_param v \<longleftrightarrow> v = ''nan''"
  by (auto simp: conforms_def type_conforms_def rule_holds_def path_param_def ratio_param_def sample_param_def
      run_schema plain_env_def sample_floats_def)

theorem validate_iff_witness:
  "vl_valid (validate_config strict_validator plain_env [(''host.cores'', ''8''), (''host.l2.size'', ''8'')])
     \<and> \<not> vl_valid (validate_config strict_validator plain_env [(''host.cores'', ''8'')])
     \<and> vl_valid (validate_config run_validator plain_env [(''run.ratio'', ''nan''), (''run.trace'', ''a.bin'')])
     \<and> \<not> vl_valid (validate_config run_validator plain_env [(''run.ratio'', ''1.5''), (''run.trace'', ''a.bin'')])
     \<and> \<not> vl_valid (validate_config run_validator plain_env [(''run.ratio'', ''nan''), (''run.trace'', ''/root/trace'')])"
proof -
  have s: "va_schema strict_validator = sample_schema" by (simp add: strict_validator_def setStrictMode_def ConfigValidator_init_def)
  have "vl_valid (validate_config strict_validator plain_env [(''host.cores'', ''8''), (''host.l2.size'', ''8'')])
      \<and> \<not> vl_valid (validate_config strict_validator plain_env [(''host.cores'', ''8'')])"
    unfolding validate_iff s sample_paths
    by (simp add: param_good_def smap_find_def sample_conforms key_in_schema_def sample_paths) (simp add: sample_param_def)
  moreover have "vl_valid (validate_config run_validator plain_env [(''run.ratio'', r), (''run.trace'', t)])
      \<longleftrightarrow> r = ''nan'' \<and> t \<noteq> ''/root/trace''" for r t
    unfolding validate_iff run_schema by (simp add: param_good_def smap_find_def run_conforms key_in_schema_def run_schema) blast
  ultimately show ?thesis by simp
qed

text \<open>
  A key that merely continues a known path is taken for a known one: in strict mode \<^verbatim>\<open>host.cores_typo\<close>
  raises neither an error nor a warning, while \<^verbatim>\<open>host.typo\<close> is reported.
\<close>

theorem extended_key_accepted:
  "validate_config strict_validator plain_env [(''host.cores'', ''8''), (''host.cores_typo'', ''x''), (''host.l2.size'', ''8'')] = empty_result
     \<and> \<not> vl_valid (validate_config strict_validator plain_env [(''host.cores'', ''8''), (''host.l2.size'', ''8''), (''host.typo'', ''x'')])"
proof -
  have s: "va_schema strict_validator = sample_schema" "va_strict_mode strict_validator" "\<not> va_allow_unknown_params strict_validator"
    by (simp_all add: strict_validator_def setStrictMode_def ConfigValidator_init_def)
  have k: "known_key (map fst (collectAll (cs_sections sample_schema) '''' [])) key"
    if "key \<in> {''host.cores'', ''host.cores_typo'', ''host.l2.size''}" for key
    using that by (auto simp: known_in_schema key_in_schema_def sample_paths)
  have sec: "validateSections strict_validator plain_env (cs_sections sample_schema)
      [(''host.cores'', ''8''), (''host.cores_typo'', ''x''), (''host.l2.size'', ''8'')] empty_result '''' = empty_result"
    by (simp add: sample_schema_def addSection_def buildSectionMap_def ConfigSchema_init_def join_key_def sample_param_def Let_def
        checkRequiredParameters_def validateParameters_def validateParameter_def validateType_def validateRules_def smap_find_def stoll_8
        check_rule_def)
  have "validate_config strict_validator plain_env [(''host.cores'', ''8''), (''host.cores_typo'', ''x''), (''host.l2.size'', ''8'')] = empty_result"
    using s k sec by (simp add: validate_config_def check_unknown_def Let_def)
  moreover have "\<not> key_in_schema sample_schema ''host.typo''"
    by (simp add: key_in_schema_def sample_paths)
  ultimately show ?thesis using s sample_paths 
    by (auto simp: validate_config_def Let_def unknown_valid known_in_schema collect_empty)
qed

text \<open>
  A text that reads as NaN passes every bound, whatever the bounds are.
\<close>

lemma nan_breaks_no_bound:
  assumes "ft_stod (en_floats en) v = Inr (NotANumber, n)" "ps_type p = FLOAT"
  shows "validateRules en p v r loc = (True, r)"
proof -
  have "check_rule en p v rule = None" for rule using assms by (auto simp: check_rule_None rule_holds_def)
  then have "rules_loop en p v rules r loc = (True, r)" for rules by (induction rules) simp_all
  then show ?thesis by (simp add: validateRules_def)
qed

text \<open>
  Results are consistent: in every result of \<^verbatim>\<open>validate\<close>, \<^verbatim>\<open>validateYAML\<close> and \<^verbatim>\<open>validateFile\<close> the flag \<^verbatim>\<open>valid\<close>
  says whether the list of errors is empty, errors have severity ERROR and warnings WARNING.
\<close>

theorem results_consistent:
  "result_ok (validate_config va en cfg) \<and> result_ok (validateYAML va en load as_string text_in)
     \<and> pred_sum (\<lambda>_. True) result_ok (validateFile va en load as_string contents path)"
proof -
  have v: "result_ok (validate_config va en cfg)" for cfg by (auto simp: validate_config_def Let_def intro!: section_ok unknown_ok)
  then have "result_ok (validateYAML va en load as_string t)" for t
    by (auto simp: validateYAML_def split: sum.split yaml_exception.split)
  with v show ?thesis by (auto simp: validateFile_def split: option.split sum.split)
qed

lemma best_match_spec:
  "mx \<le> common s best \<Longrightarrow> best_match s vs best mx \<in> insert best (set vs) \<and> mx \<le> common s (best_match s vs best mx)
     \<and> (\<forall>v\<in>set vs. common s v \<le> common s (best_match s vs best mx))"
proof (induction vs arbitrary: best mx)
  case (Cons v vs)
  then show ?case using Cons.IH [of "common s v" v] Cons.IH [of mx best] by fastforce
qed simp

text \<open>
  A suggestion is one of the valid values, and no valid value contains more of the characters of the wrong one.
\<close>

theorem suggestion_best:
  assumes "vs \<noteq> []"
  shows "suggestCorrection s vs \<in> set vs \<and> (\<forall>v\<in>set vs. common s v \<le> common s (suggestCorrection s vs))"
  using best_match_spec [of 0 s "hd vs" vs] assms by (cases vs) (auto simp: suggestCorrection_def)

theorem suggestion_best_witness: "suggestCorrection ''mseh'' [''ring'', ''mesh''] \<in> {''ring'', ''mesh''}"
  using suggestion_best [of "[''ring'', ''mesh'']" "''mseh''"] by simp

end
