(* ===== verification/Spec2Isabelle.thy ===== *)
theory Spec2Isabelle
  imports Pim_Controller Part_Records Plugin_Registry Event_Queue Mpi_Reduce Mpi_Bcast Mpi_Request Mpi_Barrier Trace_Reader Model_Registry Config_Validator
begin

text \<open>
  \<^bold>\<open>A verification library of the PIMID simulator.\<close>

  PIMID simulates processing-in-memory systems. A configuration file is parsed, validated against a
  schema and turned into a system of cores, memory and networks; external models can be plugged in
  from shared libraries; a workload runs under instrumentation, its threads or processes acting as
  MPI ranks through a shim that moves messages through shared mailboxes; events are ordered by a queue;
  what happened is written to a trace file that a reader replays; results of slow memory tools are
  kept in a cache directory. The memory itself is a hierarchy of levels, from the subarrays of a bank to the system,
  with a network at each of them and bridges in between, through which the processing elements in
  memory move their data under the limits of the ports they share. The library models these parts, each in one theory or a
  small group of theories, from the bottom up.

  \<^bold>\<open>Shared.\<close> \<^verbatim>\<open>Prelude\<close>: names of the machine types, lemmas on lists (\<^verbatim>\<open>find\<close>, dropping the first match, copying
  into a buffer), words and little-endian bytes. \<^verbatim>\<open>Std_Map\<close>: \<^verbatim>\<open>std::map\<close> as an association list sorted by key, behind the
  locale \<^verbatim>\<open>ordered_map\<close>, which its clients use. \<^verbatim>\<open>Doubles\<close>: a finite \<^verbatim>\<open>double\<close> is a rational number and every operation rounds to
  53 bits, to even; range and infinities are left out. The functions of the C library (square root, logarithms, power) are the
  parameter \<^verbatim>\<open>libm\<close> of the definitions that call them, with the documented bounds as the hypothesis \<^verbatim>\<open>libm_ok\<close>.

  \<^bold>\<open>Event queue\<close> (src/common/event_queue.cpp): \<^verbatim>\<open>Event_Queue\<close>. The heap is a list kept in its order; a callback is given by the
  events it schedules. Shown: events run in order of cycle and priority, processing ends; under every public operation the queue
  holds no event of the past as long as the clock is not set by hand beyond the next pending event; and the case in which popping after the callback drops an event.

  \<^bold>\<open>MPI shim\<close> (src/parallel_abstraction/pimid_mpi.cpp). \<^verbatim>\<open>Mpi_Mailbox\<close>: the mailbox of a rank in thread mode, with its ring, the staging
  arena and the extension queues; each operation keeps the invariant, sending never blocks, and the
  messages of one source come out in the order in which they went in. \<^verbatim>\<open>Mpi_Net\<close>: ranks as processes over first-in first-out
  channels, an interface in which all executions lead to the same result. \<^verbatim>\<open>Mpi_P2P\<close>: messages cut into chunks, \<^verbatim>\<open>send_bytes\<close>,
  \<^verbatim>\<open>recv_bytes\<close> and \<^verbatim>\<open>xchg_bytes\<close>. \<^verbatim>\<open>Mpi_Transport\<close>: the mailboxes implement the channels (a simulation), and do not get stuck where the
  channels do not. \<^verbatim>\<open>Mpi_Reduction\<close>: datatype and operation handles, and the reduction of two buffers, behind the locale \<^verbatim>\<open>reduction\<close>.
  The collectives, each with all the algorithms its sizes select: \<^verbatim>\<open>Mpi_Tree\<close> and \<^verbatim>\<open>Mpi_Bcast\<close> (broadcast), \<^verbatim>\<open>Mpi_Allreduce\<close> and \<^verbatim>\<open>Mpi_Reduce\<close>
  (\<^verbatim>\<open>MPI_Allreduce\<close> and \<^verbatim>\<open>MPI_Reduce\<close>), \<^verbatim>\<open>Mpi_Allgather\<close> (\<^verbatim>\<open>MPI_Allgather\<close>, \<^verbatim>\<open>MPI_Allgatherv\<close>), \<^verbatim>\<open>Mpi_Alltoall\<close>,
  \<^verbatim>\<open>Mpi_Gather\<close> (\<^verbatim>\<open>MPI_Gather\<close>, \<^verbatim>\<open>MPI_Scatter\<close>, \<^verbatim>\<open>MPI_Gatherv\<close>). For any number of ranks, any root and any sizes that fit a message, every execution of
  every one of them is shown to end with the right buffers; of the two reductions this is shown for short vectors of integers, and their long-vector algorithms are
  modelled only. \<^verbatim>\<open>Mpi_Request\<close>: \<^verbatim>\<open>MPI_Sendrecv\<close>, shown right along any permutation, and the calls named non-blocking, with the
  deadlock of programs that post their receives first. \<^verbatim>\<open>Mpi_Barrier\<close>: \<^verbatim>\<open>MPI_Barrier\<close> of both modes, interleaved at every access to its counters, behind
  the locale \<^verbatim>\<open>barrier_machine\<close>: no rank leaves before all have arrived, and none waits for ever.

  \<^bold>\<open>Traces\<close> (src/trace). \<^verbatim>\<open>Trace_Format\<close>: event codes, records and headers as bytes. \<^verbatim>\<open>Trace_Yaml\<close>: the metadata text and its line parser.
  \<^verbatim>\<open>Trace_Writer\<close>, \<^verbatim>\<open>Trace_Reader\<close>: both classes over a file of bytes. Shown: what was written is read back, whatever the buffer size and
  the flushes, and seeking by index and by cycle.

  \<^bold>\<open>External models\<close> (src/model_registry.cpp): \<^verbatim>\<open>Model_Registry\<close>. The dynamic loader is an argument. Shown: the registry's invariant, that
  cleanup destroys models before it closes their libraries and closes all it knows, and how a
  replaced library is lost.

  \<^bold>\<open>Tool cache\<close> (src/util/cache_warehouse.cpp): \<^verbatim>\<open>Cache_Warehouse\<close>, over a state of environment, file system and clock. Shown: which
  setting wins, that no mode but the configured one writes, and that directories are made.

  \<^bold>\<open>Configuration\<close> (src/config). \<^verbatim>\<open>Config_Parser\<close>: the flattened configuration and its way back to YAML. \<^verbatim>\<open>Config_Schema\<close>: the schema, its JSON Schema document
  (it is shown to denote the schema) and the YAML template. \<^verbatim>\<open>Config_Validator\<close>: which configurations the validator accepts, exactly,
  with what it lets pass (NaN beside every bound, keys that only begin with a known path) written into the statement.

  \<^bold>\<open>Plugins\<close> (src/plugin): \<^verbatim>\<open>Plugin_Registry\<close>. The dynamic loader and the file system are arguments. Shown: exactly when the
  registry leaves a plugin behind whose code is unmapped (two defects of the code), and that discovery loads the libraries of a directory in its order.
  Of the memory model plugin, which is abstract in the source, the member functions are modelled; no property rests on an object of it.

  \<^bold>\<open>Network configuration\<close> (src/config/network_config_parser.cpp): \<^verbatim>\<open>Network_Config\<close>. The YAML library is a record of functions, with its documented
  laws as the hypothesis \<^verbatim>\<open>yaml_ok\<close>. Shown: configurations survive being written and read back, and a hierarchy that validates is the one in force.

  \<^bold>\<open>Part records\<close> (src/params/part_records.cpp): \<^verbatim>\<open>Part_Records\<close>, the cache and the core record. Shown: the loader of the core record accepts exactly the files in which
  every field is there and in its range, and gives their values; that of the cache record does so too, up to text behind the number of banks, which it ignores; the
  files that are shipped load.

  \<^bold>\<open>Network model\<close> (src/network/network_model.cpp). \<^verbatim>\<open>Garnet_Config\<close>: the configuration and its text. \<^verbatim>\<open>Garnet_Model\<close>: the class \<^verbatim>\<open>GarnetModel\<close> with its injection,
  network and ejection queues. Shown: it implements first-in first-out channels with bounded buffers, every packet
  arrives within a bound of cycles, and routes on a mesh are shortest. A configuration with a zero that the code divides by traps there and is
  not meant (\<^verbatim>\<open>divisors_ok\<close>).

  \<^bold>\<open>In-memory network\<close> (src/memory/internal_dram_network.cpp). \<^verbatim>\<open>Mem_Hierarchy\<close>: the state (levels, bridges, detailed networks, packets in flight,
  statistics), the tables of the technologies, construction, settings and switches; the speed grade that the
  part records provide for a technology is an argument. \<^verbatim>\<open>Mem_Build\<close>: what construction gives. \<^verbatim>\<open>Mem_Latency\<close>: hops, the cost of a level and of a bridge in
  nanoseconds and in cycles with the delay of queueing, and its bounds. \<^verbatim>\<open>Mem_Net\<close>: addresses, \<^verbatim>\<open>sendPacket\<close> and \<^verbatim>\<open>tick\<close>. Shown: packets climb to the lowest common
  unit of the two banks, none is lost or completed twice, and without detailed networks each completes exactly when its price has passed, on levels of any topology. Where the code divides by a dimension
  that is zero, the operation is \<^verbatim>\<open>None\<close>.

  \<^bold>\<open>Processing in memory\<close> (src/memory/pim_bandwidth_tracker.cpp, src/memory/pim_controller_plugin.cpp and include/memory/pim_request_payload.h). \<^verbatim>\<open>Pim_Transfers\<close>: requests, and the
  transfers of gathers, scatters, reductions and broadcasts. \<^verbatim>\<open>Pim_Bandwidth\<close>: the ports, whose queue depths are bounded for clients that ask first (the locale \<^verbatim>\<open>bounded_ports\<close>), and the
  split of data into local and remote. \<^verbatim>\<open>Pim_Controller\<close>: the handling of a scheduled request composes the three parts; the cycles it charges are shown to be
  those of the port and of the transfers. The conversion of a double out of the range of \<^verbatim>\<open>uint64_t\<close>, undefined in C++, is an unspecified
  number (\<^verbatim>\<open>undefined_cast\<close>); the theorem asks for a positive bandwidth.

  \<^bold>\<open>Bounds and fuel.\<close> Recursion is structural or has a termination proof; no definition uses fuel. Machine integers have their
  width where they can wrap; elsewhere they are \<^verbatim>\<open>nat\<close> or \<^verbatim>\<open>int\<close>, and the theorems say what has to fit. Messages are at most
  \<^verbatim>\<open>MAX_MESSAGE\<close> bytes, the length of which the chunk counter still holds.

  \<^bold>\<open>Not modelled.\<close> Code outside src/ and include/ of the repository that is vendored (the simulators and memory tools under
  external/), the wrappers that only translate between PIMID and these tools, the memory technology, power and area
  models (calibrated floating-point formulas without a specification to compare them with), console output, and src/main.cpp, which assembles a run from the
  parts above. The DRAM part records of src/params, and src/common/simulation_engine.cpp, a base class whose run method is left to engines that the repository does not have. Of the MPI shim: the
  process-shared mode except its barrier, and the timing operations.
\<close>

end
